(* ===== verification/Kor_Prelude.thy ===== *)
theory Kor_Prelude
  imports Main "HOL-Library.Word"
begin

text \<open>
  Shared vocabulary of the development: the Rust machine integers, the arithmetic the
  kernel uses on them, error results, byte slices and little-endian encodings.

  The kernel is built with the release profile for 64-bit targets.  A \<^verbatim>\<open>usize\<close> is
  a natural number below \<open>2 ^ 64\<close>; plain \<^verbatim>\<open>+\<close>, \<^verbatim>\<open>-\<close> and \<^verbatim>\<open>*\<close> wrap around
  (\<open>usize_add\<close>, \<open>usize_sub\<close>, \<open>usize_mul\<close>), the \<^verbatim>\<open>checked_\<close> variants answer
  \<open>None\<close>, and \<^verbatim>\<open>debug_assert!\<close> is compiled out.  Fields of a fixed width are words.
  A panic (\<^verbatim>\<open>assert!\<close>, \<^verbatim>\<open>expect\<close>, an index out of bounds) and the end of a loop's fuel
  are values of type \<open>fault\<close>; so is \<open>Deadlock\<close>, a spin lock taken again by its holder.
\<close>

unbundle bit_operations_syntax

named_theorems usize_simps \<open>wrap-around disappears below the limit\<close>
named_theorems run_simps \<open>results of fallible code\<close>

section \<open>Machine integers\<close>

type_synonym usize = nat
type_synonym u8 = "8 word"
type_synonym u16 = "16 word"
type_synonym u32 = "32 word"
type_synonym u64 = "64 word"
type_synonym bytes = "8 word list"

definition USIZE_LIM :: nat where
  "USIZE_LIM = 2 ^ 64"

definition usize_add :: "usize \<Rightarrow> usize \<Rightarrow> usize" where
  "usize_add a b = (a + b) mod USIZE_LIM"

definition usize_sub :: "usize \<Rightarrow> usize \<Rightarrow> usize" where
  "usize_sub a b = (a + (USIZE_LIM - b mod USIZE_LIM)) mod USIZE_LIM"

definition usize_mul :: "usize \<Rightarrow> usize \<Rightarrow> usize" where
  "usize_mul a b = (a * b) mod USIZE_LIM"

text \<open>Bitwise complement \<^verbatim>\<open>!a\<close> of a 64-bit value.\<close>

definition usize_not :: "usize \<Rightarrow> usize" where
  "usize_not a = USIZE_LIM - 1 - a"

definition checked_add :: "usize \<Rightarrow> usize \<Rightarrow> usize option" where
  "checked_add a b = (if a + b < USIZE_LIM then Some (a + b) else None)"

definition checked_sub :: "usize \<Rightarrow> usize \<Rightarrow> usize option" where
  "checked_sub a b = (if b \<le> a then Some (a - b) else None)"

definition checked_mul :: "usize \<Rightarrow> usize \<Rightarrow> usize option" where
  "checked_mul a b = (if a * b < USIZE_LIM then Some (a * b) else None)"

definition saturating_add :: "usize \<Rightarrow> usize \<Rightarrow> usize" where
  "saturating_add a b = min (a + b) (USIZE_LIM - 1)"

definition checked_next_power_of_two :: "usize \<Rightarrow> usize option" where
  "checked_next_power_of_two n = map_option (\<lambda>k. 2 ^ k) (find (\<lambda>k. n \<le> 2 ^ k) [0..<64])"

definition next_multiple_of :: "nat \<Rightarrow> nat \<Rightarrow> nat" where
  "next_multiple_of n m = (n + (m - 1)) div m * m"

definition checked_next_multiple_of :: "usize \<Rightarrow> usize \<Rightarrow> usize option" where
  "checked_next_multiple_of n m =
     (let r = next_multiple_of n m in if r < USIZE_LIM then Some r else None)"

lemma usize_add_eq [usize_simps]: "a + b < USIZE_LIM \<Longrightarrow> usize_add a b = a + b"
  by (simp add: usize_add_def)

lemma usize_mul_eq [usize_simps]: "a * b < USIZE_LIM \<Longrightarrow> usize_mul a b = a * b"
  by (simp add: usize_mul_def)

lemma usize_sub_eq [usize_simps]:
  assumes "b \<le> a" "a < USIZE_LIM"
  shows "usize_sub a b = a - b"
proof -
  have "a + (USIZE_LIM - b mod USIZE_LIM) = (a - b) + USIZE_LIM"
    using assms by simp
  then have "usize_sub a b = ((a - b) + USIZE_LIM) mod USIZE_LIM"
    by (simp only: usize_sub_def)
  also have "\<dots> = (a - b) mod USIZE_LIM" by (rule mod_add_self2)
  finally show ?thesis using assms(2) by simp
qed

lemma usize_add_less: "usize_add a b < USIZE_LIM"
  by (simp add: usize_add_def USIZE_LIM_def)

lemma usize_sub_less: "usize_sub a b < USIZE_LIM"
  by (simp add: usize_sub_def USIZE_LIM_def)

lemma checked_add_Some [simp]:
  "checked_add a b = Some c \<longleftrightarrow> c = a + b \<and> a + b < USIZE_LIM"
  by (auto simp: checked_add_def)

lemma checked_sub_Some [simp]: "checked_sub a b = Some c \<longleftrightarrow> b \<le> a \<and> c = a - b"
  by (auto simp: checked_sub_def)

lemma checked_mul_Some [simp]:
  "checked_mul a b = Some c \<longleftrightarrow> c = a * b \<and> a * b < USIZE_LIM"
  by (auto simp: checked_mul_def)

subsection \<open>Powers of two and alignment\<close>

lemma and_not_mask:
  assumes "k \<le> 64" "a < USIZE_LIM"
  shows "a AND usize_not (2 ^ k - 1) = a div 2 ^ k * 2 ^ k"
proof -
  have m: "usize_not (2 ^ k - 1) = push_bit k (mask (64 - k))"
  proof -
    have "(2::nat) ^ k \<le> 2 ^ 64" using assms(1) by (rule power_increasing) simp
    then have "usize_not (2 ^ k - 1) = 2 ^ 64 - 2 ^ k"
      by (simp add: usize_not_def USIZE_LIM_def)
    also have "\<dots> = (2 ^ (64 - k) - 1) * 2 ^ k"
      using assms(1) by (simp add: diff_mult_distrib flip: power_add)
    finally show ?thesis by (simp add: push_bit_eq_mult mask_eq_exp_minus_1)
  qed
  have b: "bit a n \<Longrightarrow> n < 64" for n
    using assms(2) bit_take_bit_iff [of 64 a n]
    by (simp add: USIZE_LIM_def take_bit_nat_eq_self)
  have "a AND push_bit k (mask (64 - k)) = push_bit k (drop_bit k a)"
  proof (rule bit_eqI)
    fix n
    show "bit (a AND push_bit k (mask (64 - k))) n \<longleftrightarrow> bit (push_bit k (drop_bit k a)) n"
      using b [of n] by (auto simp: bit_and_iff bit_push_bit_iff bit_mask_iff bit_drop_bit_eq)
  qed
  then have "a AND usize_not (2 ^ k - 1) = push_bit k (drop_bit k a)"
    by (simp only: m)
  then show ?thesis by (simp only: push_bit_eq_mult drop_bit_eq_div)
qed

lemma find_upt_least:
  "find P [a..<b] = Some k \<longleftrightarrow> a \<le> k \<and> k < b \<and> P k \<and> (\<forall>j. a \<le> j \<and> j < k \<longrightarrow> \<not> P j)"
proof -
  have "find P [a..<b] = Some k \<longleftrightarrow>
     (\<exists>i < length [a..<b]. P ([a..<b] ! i) \<and> k = [a..<b] ! i \<and> (\<forall>j < i. \<not> P ([a..<b] ! j)))"
    by (rule find_Some_iff)
  also have "\<dots> \<longleftrightarrow> (\<exists>i < b - a. P (a + i) \<and> k = a + i \<and> (\<forall>j < i. \<not> P (a + j)))"
    by (intro iff_exI) (auto simp: less_diff_conv)
  also have "\<dots> \<longleftrightarrow> a \<le> k \<and> k < b \<and> P k \<and> (\<forall>j. a \<le> j \<and> j < k \<longrightarrow> \<not> P j)"
    (is "?l \<longleftrightarrow> ?r")
  proof
    assume ?l
    then obtain i where i: "i < b - a" "P (a + i)" "k = a + i" "\<forall>j < i. \<not> P (a + j)"
      by blast
    have "\<not> P j" if "a \<le> j" "j < k" for j
      using i(4) [rule_format, of "j - a"] that i(3) by simp
    with i show ?r by auto
  next
    assume ?r
    then show ?l by (intro exI [of _ "k - a"]) auto
  qed
  finally show ?thesis .
qed

lemma next_power_of_two_Some:
  assumes "checked_next_power_of_two n = Some p"
  obtains k where "k < 64" "p = 2 ^ k" "n \<le> p" "\<And>j. n \<le> 2 ^ j \<Longrightarrow> p \<le> 2 ^ j"
proof -
  from assms obtain k where k: "find (\<lambda>k. n \<le> 2 ^ k) [0..<64] = Some k" "p = 2 ^ k"
    by (auto simp: checked_next_power_of_two_def)
  have "p \<le> 2 ^ j" if "n \<le> 2 ^ j" for j
  proof (rule ccontr)
    assume "\<not> p \<le> 2 ^ j"
    then have "j < k" using k(2) by (simp add: power_increasing_iff not_le)
    with k(1) that show False by (auto simp: find_upt_least)
  qed
  with k that show thesis by (auto simp: find_upt_least)
qed

lemma next_power_of_two_eqI:
  assumes "k < 64" "n \<le> 2 ^ k" "k = 0 \<or> 2 ^ (k - 1) < n"
  shows "checked_next_power_of_two n = Some (2 ^ k)"
proof -
  have "\<not> n \<le> 2 ^ j" if "j < k" for j
  proof -
    have "(2::nat) ^ j \<le> 2 ^ (k - 1)" using that by (intro power_increasing) simp_all
    then show ?thesis using assms(3) that by linarith
  qed
  then have "find (\<lambda>k. n \<le> 2 ^ k) [0..<64] = Some k"
    using assms by (simp add: find_upt_least)
  then show ?thesis by (simp add: checked_next_power_of_two_def)
qed

lemma next_power_of_two_small:
  assumes "n \<le> 2 ^ 63"
  shows "\<exists>p. checked_next_power_of_two n = Some p"
proof -
  have "find (\<lambda>k. n \<le> 2 ^ k) [0..<64] \<noteq> None"
    using assms by (auto simp: find_None_iff intro!: exI [of _ 63])
  then show ?thesis by (auto simp: checked_next_power_of_two_def)
qed

lemma next_multiple_of_ge: "0 < m \<Longrightarrow> n \<le> next_multiple_of n m"
proof -
  assume m: "0 < m"
  have "n + (m - 1) = (n + (m - 1)) div m * m + (n + (m - 1)) mod m"
    by simp
  moreover have "(n + (m - 1)) mod m \<le> m - 1"
    using m by (metis Suc_pred' less_Suc_eq_le mod_less_divisor)
  ultimately show ?thesis unfolding next_multiple_of_def by linarith
qed

lemma next_multiple_of_less: "0 < m \<Longrightarrow> next_multiple_of n m < n + m"
proof -
  assume m: "0 < m"
  have "next_multiple_of n m \<le> n + (m - 1)"
    by (simp add: next_multiple_of_def div_times_less_eq_dividend)
  then show ?thesis using m by linarith
qed

lemma next_multiple_of_dvd [simp]: "m dvd next_multiple_of n m"
  by (simp add: next_multiple_of_def)

lemma next_multiple_of_mod [simp]: "next_multiple_of n m mod m = 0"
  by (simp add: next_multiple_of_def)

lemma next_multiple_of_least:
  assumes "0 < m" "m dvd x" "n \<le> x"
  shows "next_multiple_of n m \<le> x"
proof (rule ccontr)
  assume c: "\<not> next_multiple_of n m \<le> x"
  obtain q where q: "x = m * q" using assms(2) by (rule dvdE)
  obtain r where r: "next_multiple_of n m = m * r"
    using next_multiple_of_dvd [of m n] by (rule dvdE)
  have "q < r" using c q r assms(1) by simp
  then have "m * Suc q \<le> m * r" by (intro mult_left_mono) simp_all
  then have "x + m \<le> next_multiple_of n m" using q r by simp
  with next_multiple_of_less [OF assms(1), of n] assms(3) show False by linarith
qed

section \<open>Lists and slices\<close>

text \<open>\<^verbatim>\<open>Iterator::find_map\<close>.\<close>

fun find_map :: "('a \<Rightarrow> 'b option) \<Rightarrow> 'a list \<Rightarrow> 'b option" where
  "find_map f [] = None"
| "find_map f (x # xs) = (case f x of None \<Rightarrow> find_map f xs | Some y \<Rightarrow> Some y)"

lemma find_map_None: "find_map f xs = None \<longleftrightarrow> (\<forall>x \<in> set xs. f x = None)"
  by (induction xs) (auto split: option.splits)

lemma find_map_Some: "find_map f xs = Some y \<Longrightarrow> \<exists>x \<in> set xs. f x = Some y"
  by (induction xs) (auto split: option.splits)

lemma find_map_unique:
  assumes "x \<in> set xs" "f x = Some y" "\<And>z w. z \<in> set xs \<Longrightarrow> f z = Some w \<Longrightarrow> w = y"
  shows "find_map f xs = Some y"
proof (cases "find_map f xs")
  case None
  with assms(1,2) show ?thesis by (simp add: find_map_None)
next
  case (Some w)
  with find_map_Some [OF Some] assms(3) show ?thesis by blast
qed

section \<open>Results of fallible code\<close>

text \<open>
  \<open>Inl e\<close> is an error or a fault, \<open>Inr x\<close> a value.  \<open>bnd\<close> is the \<^verbatim>\<open>?\<close> operator:
  it stops at the first error.
\<close>

datatype fault = Panic string | OutOfFuel | Deadlock

definition bnd :: "'e + 'a \<Rightarrow> ('a \<Rightarrow> 'e + 'b) \<Rightarrow> 'e + 'b" where
  "bnd m f = (case m of Inl e \<Rightarrow> Inl e | Inr x \<Rightarrow> f x)"

definition ok_or :: "'a option \<Rightarrow> 'e \<Rightarrow> 'e + 'a" where
  "ok_or m e = (case m of None \<Rightarrow> Inl e | Some x \<Rightarrow> Inr x)"

definition assert_that :: "bool \<Rightarrow> string \<Rightarrow> fault + unit" where
  "assert_that b msg = (if b then Inr () else Inl (Panic msg))"

lemma bnd_simps [simp]: "bnd (Inl e) f = Inl e" "bnd (Inr x) f = f x"
  by (simp_all add: bnd_def)

lemma bnd_assoc: "bnd (bnd m f) g = bnd m (\<lambda>x. bnd (f x) g)"
  by (cases m) simp_all

lemma bnd_eq_Inr [run_simps]: "bnd m f = Inr y \<longleftrightarrow> (\<exists>x. m = Inr x \<and> f x = Inr y)"
  by (cases m) simp_all

lemma bnd_eq_Inl [run_simps]:
  "bnd m f = Inl e \<longleftrightarrow> m = Inl e \<or> (\<exists>x. m = Inr x \<and> f x = Inl e)"
  by (cases m) simp_all

lemma ok_or_simps [simp]: "ok_or None e = Inl e" "ok_or (Some x) e = Inr x"
  by (simp_all add: ok_or_def)

lemma ok_or_eq_Inr [run_simps]: "ok_or m e = Inr x \<longleftrightarrow> m = Some x"
  by (cases m) simp_all

lemma ok_or_eq_Inl [run_simps]: "ok_or m e = Inl e' \<longleftrightarrow> m = None \<and> e' = e"
  by (cases m) auto

lemma assert_that_simps [simp]:
  "assert_that True msg = Inr ()" "assert_that False msg = Inl (Panic msg)"
  by (simp_all add: assert_that_def)

lemma assert_that_eq_Inr [run_simps]: "assert_that b msg = Inr u \<longleftrightarrow> b"
  by (simp add: assert_that_def)

lemma assert_that_eq_Inl [run_simps]: "assert_that b msg = Inl e \<longleftrightarrow> \<not> b \<and> e = Panic msg"
  by (auto simp: assert_that_def)

end
