(* ===== verification/Kor_Frame.thy ===== *)
theory Kor_Frame
  imports Kor_Prelude
begin

text \<open>
  The physical page-frame allocator, \<^verbatim>\<open>kor/src/frame.rs\<close>.  The state is the record
  \<open>frame_allocator\<close> with the source's fields; the two fixed arrays are functions from
  indices, with the bounds check of the bitmap access written out in \<open>fbit\<close> and
  \<open>mark_bits\<close>.  \<open>frame_inv\<close> is the invariant of every reachable allocator and
  \<open>free_ppns\<close> the abstract state: the set of free physical page numbers.  The spin
  lock of the global instance serialises calls, so an operation of the global instance
  is the method itself.
\<close>

section \<open>State\<close>

definition PAGE_SIZE :: usize where [simp]: "PAGE_SIZE = 4096"
definition FRAMES_2M :: usize where [simp]: "FRAMES_2M = 512"
definition MAX_REGIONS :: usize where [simp]: "MAX_REGIONS = 64"
definition MAX_TRACKED_FRAMES :: usize where [simp]: "MAX_TRACKED_FRAMES = 2 ^ 20"
definition BITMAP_WORDS :: usize where [simp]: "BITMAP_WORDS = MAX_TRACKED_FRAMES div 64"

record region =
  start_ppn :: usize
  r_frames :: usize
  bitmap_base :: usize
  next_hint :: usize

definition EMPTY_REGION :: region where
  "EMPTY_REGION = \<lparr>start_ppn = 0, r_frames = 0, bitmap_base = 0, next_hint = 0\<rparr>"

record frame_allocator =
  regions :: "usize \<Rightarrow> region"
  region_count :: usize
  tracked_frames :: usize
  free_count :: usize
  allocated :: "usize \<Rightarrow> u64"

definition frame_new :: frame_allocator where
  "frame_new = \<lparr>regions = (\<lambda>_. EMPTY_REGION), region_count = 0, tracked_frames = 0,
     free_count = 0, allocated = (\<lambda>_. 0)\<rparr>"

section \<open>Operations\<close>

definition align_ppn :: "usize \<Rightarrow> usize \<Rightarrow> usize" where
  "align_ppn ppn fr = usize_sub (usize_add ppn fr) 1 AND usize_not (usize_sub fr 1)"

definition fbit :: "frame_allocator \<Rightarrow> usize \<Rightarrow> usize \<Rightarrow> fault + bool" where
  "fbit s ri offset =
     (let b = usize_add (bitmap_base (regions s ri)) offset in
      if b div 64 < BITMAP_WORDS
      then Inr (allocated s (b div 64) AND push_bit (b mod 64) 1 \<noteq> 0)
      else Inl (Panic ''index out of bounds''))"

fun mark_bits :: "bool \<Rightarrow> usize list \<Rightarrow> (usize \<Rightarrow> u64) \<Rightarrow> fault + (usize \<Rightarrow> u64)" where
  "mark_bits v [] a = Inr a"
| "mark_bits v (b # bs) a =
     (if b div 64 < BITMAP_WORDS
      then let mask = push_bit (b mod 64) 1; w = a (b div 64) in
           mark_bits v bs (a(b div 64 := (if v then w OR mask else w AND NOT mask)))
      else Inl (Panic ''index out of bounds''))"

definition mark_run ::
  "frame_allocator \<Rightarrow> usize \<Rightarrow> usize \<Rightarrow> usize \<Rightarrow> bool \<Rightarrow> fault + frame_allocator" where
  "mark_run s ri offset fr v =
     (let base = bitmap_base (regions s ri) in
      bnd (mark_bits v [usize_add base offset..<usize_add (usize_add base offset) fr] (allocated s))
          (\<lambda>a. Inr (s\<lparr>allocated := a\<rparr>)))"

fun first_used :: "frame_allocator \<Rightarrow> usize \<Rightarrow> usize list \<Rightarrow> fault + usize option" where
  "first_used s ri [] = Inr None"
| "first_used s ri (i # is) =
     bnd (fbit s ri i) (\<lambda>b. if b then Inr (Some i) else first_used s ri is)"

fun free_run_loop ::
  "nat \<Rightarrow> frame_allocator \<Rightarrow> usize \<Rightarrow> usize \<Rightarrow> usize \<Rightarrow> usize \<Rightarrow> fault + usize option" where
  "free_run_loop 0 s ri e fr offset = Inl OutOfFuel"
| "free_run_loop (Suc n) s ri e fr offset =
     (case checked_add offset fr of
        None \<Rightarrow> Inr None
      | Some stop \<Rightarrow>
          if stop \<le> e then
            bnd (first_used s ri [offset..<usize_add offset fr]) (\<lambda>fu.
              case fu of
                None \<Rightarrow> Inr (Some offset)
              | Some used \<Rightarrow>
                  let sp = start_ppn (regions s ri) in
                  case checked_sub (align_ppn (usize_add (usize_add sp used) 1) fr) sp of
                    None \<Rightarrow> Inr None
                  | Some offset' \<Rightarrow> free_run_loop n s ri e fr offset')
          else Inr None)"

definition find_free_run ::
  "frame_allocator \<Rightarrow> usize \<Rightarrow> usize \<Rightarrow> usize \<Rightarrow> usize \<Rightarrow> fault + usize option" where
  "find_free_run s ri start e fr =
     (let sp = start_ppn (regions s ri) in
      case checked_sub (align_ppn (usize_add sp start) fr) sp of
        None \<Rightarrow> Inr None
      | Some offset \<Rightarrow> free_run_loop (Suc e) s ri e fr offset)"

definition frame_add_region :: "frame_allocator \<Rightarrow> usize \<Rightarrow> usize \<Rightarrow> fault + frame_allocator" where
  "frame_add_region s start0 end0 =
     (let start = saturating_add start0 (PAGE_SIZE - 1) AND usize_not (PAGE_SIZE - 1);
          stop = end0 AND usize_not (PAGE_SIZE - 1) in
      if start \<ge> stop then Inr s
      else
        let sp = start div PAGE_SIZE; fr = (stop - start) div PAGE_SIZE in
        bnd (assert_that (region_count s < MAX_REGIONS) ''too many physical memory regions'') (\<lambda>_.
        bnd (assert_that (usize_add (tracked_frames s) fr \<le> MAX_TRACKED_FRAMES)
               ''physical memory exceeds frame metadata capacity'') (\<lambda>_.
        bnd (assert_that
               (list_all (\<lambda>i. let r = regions s i in
                   usize_add sp fr \<le> start_ppn r \<or> sp \<ge> usize_add (start_ppn r) (r_frames r))
                 [0..<region_count s])
               ''overlapping physical memory regions'') (\<lambda>_.
        Inr (s\<lparr>regions := (regions s)(region_count s :=
                 \<lparr>start_ppn = sp, r_frames = fr, bitmap_base = tracked_frames s, next_hint = 0\<rparr>),
               region_count := usize_add (region_count s) 1,
               tracked_frames := usize_add (tracked_frames s) fr,
               free_count := usize_add (free_count s) fr\<rparr>)))))"

definition set_hint :: "frame_allocator \<Rightarrow> usize \<Rightarrow> usize \<Rightarrow> frame_allocator" where
  "set_hint s ri h = s\<lparr>regions := (regions s)(ri := (regions s ri)\<lparr>next_hint := h\<rparr>)\<rparr>"

fun alloc_in_regions ::
  "frame_allocator \<Rightarrow> usize \<Rightarrow> usize list \<Rightarrow> fault + usize option \<times> frame_allocator" where
  "alloc_in_regions s fr [] = Inr (None, s)"
| "alloc_in_regions s fr (ri # ris) =
     (if fr > r_frames (regions s ri) then alloc_in_regions s fr ris
      else
        let hint = next_hint (regions s ri) in
        bnd (find_free_run s ri hint (r_frames (regions s ri)) fr) (\<lambda>first.
        bnd (case first of Some off \<Rightarrow> Inr (Some off)
             | None \<Rightarrow> find_free_run s ri 0 hint fr) (\<lambda>found.
        case found of
          None \<Rightarrow> alloc_in_regions s fr ris
        | Some offset \<Rightarrow>
            bnd (mark_run s ri offset fr True) (\<lambda>s1.
            let s2 = set_hint s1 ri (usize_add offset fr);
                s3 = s2\<lparr>free_count := usize_sub (free_count s2) fr\<rparr> in
            Inr (Some (usize_mul (usize_add (start_ppn (regions s ri)) offset) PAGE_SIZE), s3)))))"

definition frame_alloc_frames ::
  "frame_allocator \<Rightarrow> usize \<Rightarrow> fault + usize option \<times> frame_allocator" where
  "frame_alloc_frames s count =
     (if count = 0 then Inr (None, s)
      else case checked_next_power_of_two count of
             None \<Rightarrow> Inr (None, s)
           | Some fr \<Rightarrow> alloc_in_regions s fr [0..<region_count s])"

definition frame_locate :: "frame_allocator \<Rightarrow> usize \<Rightarrow> usize \<Rightarrow> (usize \<times> usize) option" where
  "frame_locate s ppn fr =
     find_map (\<lambda>i. let r = regions s i in
       case checked_sub ppn (start_ppn r) of
         None \<Rightarrow> None
       | Some offset \<Rightarrow>
           (case checked_add offset fr of
              None \<Rightarrow> None
            | Some e \<Rightarrow> if e \<le> r_frames r then Some (i, offset) else None))
       [0..<region_count s]"

fun assert_all_used :: "frame_allocator \<Rightarrow> usize \<Rightarrow> usize list \<Rightarrow> fault + unit" where
  "assert_all_used s ri [] = Inr ()"
| "assert_all_used s ri (i # is) =
     bnd (fbit s ri i) (\<lambda>b.
     bnd (assert_that b ''freeing unallocated physical frame'') (\<lambda>_. assert_all_used s ri is))"

definition frame_free_frames ::
  "frame_allocator \<Rightarrow> usize \<Rightarrow> usize \<Rightarrow> fault + frame_allocator" where
  "frame_free_frames s phys count =
     bnd (assert_that (count \<noteq> 0) ''cannot free zero frames'') (\<lambda>_.
     bnd (assert_that (phys mod PAGE_SIZE = 0) ''phys not page-aligned'') (\<lambda>_.
     bnd (ok_or (checked_next_power_of_two count) (Panic ''frame count overflow'')) (\<lambda>fr.
     bnd (ok_or (frame_locate s (phys div PAGE_SIZE) fr)
            (Panic ''frame extent was not registered'')) (\<lambda>(ri, offset).
     bnd (assert_all_used s ri [offset..<usize_add offset fr]) (\<lambda>_.
     bnd (mark_run s ri offset fr False) (\<lambda>s1.
     let s2 = set_hint s1 ri (min (next_hint (regions s1 ri)) offset) in
     Inr (s2\<lparr>free_count := usize_add (free_count s2) fr\<rparr>)))))))"

definition frame_available_frames :: "frame_allocator \<Rightarrow> usize" where
  "frame_available_frames s = free_count s"

definition frame_alloc_frame :: "frame_allocator \<Rightarrow> fault + usize option \<times> frame_allocator" where
  "frame_alloc_frame s = frame_alloc_frames s 1"

definition frame_alloc_huge_2m :: "frame_allocator \<Rightarrow> fault + usize option \<times> frame_allocator" where
  "frame_alloc_huge_2m s = frame_alloc_frames s FRAMES_2M"


section \<open>Invariant and abstract state\<close>

definition is_set :: "frame_allocator \<Rightarrow> nat \<Rightarrow> bool" where
  "is_set s b \<longleftrightarrow> bit (allocated s (b div 64)) (b mod 64)"

text \<open>Frame \<open>o\<close> of region \<open>i\<close> exists and is free; the page numbers of all such frames.\<close>

definition free_at :: "frame_allocator \<Rightarrow> nat \<Rightarrow> nat \<Rightarrow> bool" where
  "free_at s i off \<longleftrightarrow> i < region_count s \<and> off < r_frames (regions s i)
     \<and> \<not> is_set s (bitmap_base (regions s i) + off)"

definition region_ppns :: "frame_allocator \<Rightarrow> nat \<Rightarrow> nat set" where
  "region_ppns s i = {start_ppn (regions s i)..<start_ppn (regions s i) + r_frames (regions s i)}"

definition free_ppns :: "frame_allocator \<Rightarrow> nat set" where
  "free_ppns s = {start_ppn (regions s i) + off | i off. free_at s i off}"

definition managed_ppns :: "frame_allocator \<Rightarrow> nat set" where
  "managed_ppns s = (\<Union>i<region_count s. region_ppns s i)"

definition layout_inv :: "frame_allocator \<Rightarrow> bool" where
  "layout_inv s \<longleftrightarrow>
     region_count s \<le> MAX_REGIONS \<and> tracked_frames s \<le> MAX_TRACKED_FRAMES \<and>
     (\<forall>i<region_count s. let r = regions s i in
        0 < r_frames r \<and> start_ppn r + r_frames r \<le> 2 ^ 52 \<and> next_hint r \<le> r_frames r
        \<and> bitmap_base r + r_frames r \<le> tracked_frames s) \<and>
     (\<forall>j<region_count s. \<forall>i<j.
        bitmap_base (regions s i) + r_frames (regions s i) \<le> bitmap_base (regions s j)
        \<and> region_ppns s i \<inter> region_ppns s j = {})"

definition frame_inv :: "frame_allocator \<Rightarrow> bool" where
  "frame_inv s \<longleftrightarrow> layout_inv s \<and> (\<forall>b \<ge> tracked_frames s. \<not> is_set s b)
     \<and> free_count s = card (free_ppns s)"

lemma layout_region:
  assumes "layout_inv s" "i < region_count s"
  shows "0 < r_frames (regions s i)"
    and "start_ppn (regions s i) + r_frames (regions s i) \<le> 2 ^ 52"
    and "next_hint (regions s i) \<le> r_frames (regions s i)"
    and "bitmap_base (regions s i) + r_frames (regions s i) \<le> 2 ^ 20"
    and "bitmap_base (regions s i) + r_frames (regions s i) \<le> tracked_frames s"
    and "r_frames (regions s i) \<le> 2 ^ 20"
  using assms by (auto simp: layout_inv_def Let_def dest!: spec [of _ i])

lemma layout_disjoint:
  assumes "layout_inv s" "i < region_count s" "j < region_count s" "i \<noteq> j"
  shows "region_ppns s i \<inter> region_ppns s j = {}"
    and "{bitmap_base (regions s i)..<bitmap_base (regions s i) + r_frames (regions s i)} \<inter>
         {bitmap_base (regions s j)..<bitmap_base (regions s j) + r_frames (regions s j)} = {}"
proof -
  have "\<forall>j<region_count s. \<forall>i<j.
        bitmap_base (regions s i) + r_frames (regions s i) \<le> bitmap_base (regions s j)
        \<and> region_ppns s i \<inter> region_ppns s j = {}"
    using assms(1) by (simp add: layout_inv_def)
  moreover have "i < j \<or> j < i" using assms(4) by auto
  ultimately show "region_ppns s i \<inter> region_ppns s j = {}"
    and "{bitmap_base (regions s i)..<bitmap_base (regions s i) + r_frames (regions s i)} \<inter>
         {bitmap_base (regions s j)..<bitmap_base (regions s j) + r_frames (regions s j)} = {}"
    using assms(2,3) by (auto simp: disjoint_iff) (fastforce)+
qed

lemma free_ppnsI: "free_at s i x \<Longrightarrow> start_ppn (regions s i) + x \<in> free_ppns s"
  by (auto simp: free_ppns_def)

lemma free_ppns_subset: "free_ppns s \<subseteq> managed_ppns s"
  by (auto simp: free_ppns_def managed_ppns_def region_ppns_def free_at_def)

lemma finite_managed [simp]: "finite (managed_ppns s)"
  by (simp add: managed_ppns_def region_ppns_def)

lemma finite_free [simp]: "finite (free_ppns s)"
  using free_ppns_subset finite_managed by (rule finite_subset)

lemma free_ppns_iff:
  assumes "layout_inv s" "i < region_count s" "off < r_frames (regions s i)"
  shows "start_ppn (regions s i) + off \<in> free_ppns s \<longleftrightarrow> free_at s i off"
proof
  assume "start_ppn (regions s i) + off \<in> free_ppns s"
  then obtain j o' where j: "start_ppn (regions s i) + off = start_ppn (regions s j) + o'"
      "free_at s j o'"
    by (auto simp: free_ppns_def)
  have "i = j"
  proof (rule ccontr)
    assume "i \<noteq> j"
    then have "region_ppns s i \<inter> region_ppns s j = {}"
      using assms(1,2) j(2) by (intro layout_disjoint) (auto simp: free_at_def)
    moreover have "start_ppn (regions s i) + off \<in> region_ppns s i"
      using assms(3) by (simp add: region_ppns_def)
    moreover have "start_ppn (regions s i) + off \<in> region_ppns s j"
      using j by (simp add: region_ppns_def free_at_def)
    ultimately show False by blast
  qed
  with j show "free_at s i off" by simp
qed (auto simp: free_ppns_def)

section \<open>The bitmap\<close>

lemma and_push_bit_one: "(w :: u64) AND push_bit k 1 \<noteq> 0 \<longleftrightarrow> k < 64 \<and> bit w k"
proof -
  have "w AND push_bit k 1 = 0 \<longleftrightarrow> (\<forall>n. \<not> bit (w AND push_bit k 1) n)"
    by (auto simp del: push_bit_of_1 intro: bit_eqI)
  also have "\<dots> \<longleftrightarrow> \<not> (k < 64 \<and> bit w k)"
    by (auto simp: bit_and_iff bit_exp_iff dest: bit_imp_le_length)
  finally show ?thesis by blast
qed

lemma usize_small [usize_simps]: "a < 2 ^ 63 \<Longrightarrow> a < USIZE_LIM"
  by (simp add: USIZE_LIM_def)

lemma fbit_ok:
  assumes "layout_inv s" "ri < region_count s" "off < r_frames (regions s ri)"
  shows "fbit s ri off = Inr (is_set s (bitmap_base (regions s ri) + off))"
proof -
  have b: "bitmap_base (regions s ri) + off < 2 ^ 20"
    using layout_region(4) [OF assms(1,2)] assms(3) by linarith
  then have "usize_add (bitmap_base (regions s ri)) off = bitmap_base (regions s ri) + off"
    by (simp add: usize_add_eq USIZE_LIM_def)
  with b show ?thesis
    by (simp add: fbit_def is_set_def and_push_bit_one Let_def del: push_bit_of_1)
qed

lemma bit_set_mask: "n < 64 \<Longrightarrow> bit ((w :: u64) OR push_bit k 1) n \<longleftrightarrow> bit w n \<or> n = k"
  by (auto simp: bit_or_iff bit_exp_iff)

lemma bit_clear_mask: "n < 64 \<Longrightarrow> bit ((w :: u64) AND NOT (push_bit k 1)) n \<longleftrightarrow> bit w n \<and> n \<noteq> k"
  by (auto simp: bit_and_iff bit_not_iff bit_exp_iff)

lemma mark_bits_spec:
  assumes "\<forall>b \<in> set bs. b < 2 ^ 20"
  obtains a' where "mark_bits v bs a = Inr a'"
    "\<And>b. bit (a' (b div 64)) (b mod 64)
       = (if b \<in> set bs then v else bit (a (b div 64)) (b mod 64))"
  using assms
proof (induction bs arbitrary: a thesis)
  case Nil
  show ?case by (rule Nil(1)) auto
next
  case (Cons c bs)
  define a1 where "a1 = a(c div 64 := (if v then a (c div 64) OR push_bit (c mod 64) 1
                       else a (c div 64) AND NOT (push_bit (c mod 64) 1)))"
  have a1: "bit (a1 (b div 64)) (b mod 64) = (if b = c then v else bit (a (b div 64)) (b mod 64))"
    for b
  proof -
    have "b = c \<longleftrightarrow> b div 64 = c div 64 \<and> b mod 64 = c mod 64"
      by (metis div_mult_mod_eq)
    then show ?thesis by (auto simp: a1_def bit_set_mask bit_clear_mask simp del: push_bit_of_1)
  qed
  obtain a' where a': "mark_bits v bs a1 = Inr a'"
    "\<And>b. bit (a' (b div 64)) (b mod 64)
       = (if b \<in> set bs then v else bit (a1 (b div 64)) (b mod 64))"
    using Cons.IH [of a1] Cons.prems(2) by auto
  have "c div 64 < BITMAP_WORDS" using Cons.prems(2) by auto
  then have "mark_bits v (c # bs) a = Inr a'" using a'(1) by (simp add: a1_def Let_def del: push_bit_of_1)
  then show ?case
    by (rule Cons.prems(1)) (simp add: a'(2) a1)
qed

lemma mark_run_ok:
  assumes "layout_inv s" "ri < region_count s" "off + fr \<le> r_frames (regions s ri)"
  obtains a where "mark_run s ri off fr v = Inr (s\<lparr>allocated := a\<rparr>)"
    "\<And>b. is_set (s\<lparr>allocated := a\<rparr>) b \<longleftrightarrow>
       (if bitmap_base (regions s ri) + off \<le> b \<and> b < bitmap_base (regions s ri) + off + fr
        then v else is_set s b)"
proof -
  let ?base = "bitmap_base (regions s ri)"
  have bound: "?base + off + fr \<le> 2 ^ 20"
    using layout_region(4) [OF assms(1,2)] assms(3) by linarith
  then have eq: "usize_add ?base off = ?base + off"
    "usize_add (?base + off) fr = ?base + off + fr"
    by (simp_all add: usize_add_eq USIZE_LIM_def)
  obtain a where a: "mark_bits v [?base + off..<?base + off + fr] (allocated s) = Inr a"
    "\<And>b. bit (a (b div 64)) (b mod 64)
       = (if b \<in> set [?base + off..<?base + off + fr] then v
          else bit (allocated s (b div 64)) (b mod 64))"
    using mark_bits_spec [of "[?base + off..<?base + off + fr]" v "allocated s"] bound by auto
  show thesis
    by (rule that [of a]) (simp_all add: mark_run_def eq [simplified] a(1) is_set_def a(2) Let_def)
qed

section \<open>Searching for a free run\<close>

lemma align_ppn_eq:
  assumes "ppn + 2 ^ k < 2 ^ 63"
  shows "align_ppn ppn (2 ^ k) = next_multiple_of ppn (2 ^ k)"
proof -
  have "(2::nat) ^ k < 2 ^ 63" using assms by linarith
  then have k: "k \<le> 64" by (simp add: power_strict_increasing_iff del: power_numeral)
  have one: "(1::nat) \<le> 2 ^ k" by simp
  have lim: "ppn + 2 ^ k < USIZE_LIM" using assms by (rule usize_small)
  have "usize_sub (2 ^ k) 1 = 2 ^ k - 1"
    using one lim by (intro usize_sub_eq) linarith+
  moreover have "usize_sub (usize_add ppn (2 ^ k)) 1 = ppn + 2 ^ k - 1"
    unfolding usize_add_eq [OF lim] using one lim by (intro usize_sub_eq) linarith+
  moreover have "ppn + 2 ^ k - 1 < USIZE_LIM" using lim by linarith
  ultimately have "align_ppn ppn (2 ^ k) = (ppn + 2 ^ k - 1) div 2 ^ k * 2 ^ k"
    unfolding align_ppn_def using and_not_mask [OF k] by metis
  then show ?thesis using one by (simp add: next_multiple_of_def)
qed

lemma first_used_ok:
  assumes "layout_inv s" "ri < region_count s" "\<forall>i \<in> set is. i < r_frames (regions s ri)"
  shows "first_used s ri is = Inr (find (\<lambda>i. is_set s (bitmap_base (regions s ri) + i)) is)"
  using assms(3) by (induction "is") (simp_all add: fbit_ok [OF assms(1,2)])

text \<open>An aligned run of free frames that lies inside \<open>[lo, hi)\<close> of a region.\<close>

definition free_run :: "frame_allocator \<Rightarrow> nat \<Rightarrow> nat \<Rightarrow> nat \<Rightarrow> nat \<Rightarrow> nat \<Rightarrow> bool" where
  "free_run s ri lo hi fr off \<longleftrightarrow> lo \<le> off \<and> off + fr \<le> hi
     \<and> fr dvd start_ppn (regions s ri) + off
     \<and> (\<forall>j. off \<le> j \<and> j < off + fr \<longrightarrow> \<not> is_set s (bitmap_base (regions s ri) + j))"

text \<open>A search result is correct: it is a free run, and \<open>None\<close> means there is none.\<close>

definition search_spec ::
  "frame_allocator \<Rightarrow> nat \<Rightarrow> nat \<Rightarrow> nat \<Rightarrow> nat \<Rightarrow> fault + nat option \<Rightarrow> bool" where
  "search_spec s ri lo hi fr m \<longleftrightarrow>
     (case m of Inl _ \<Rightarrow> False
      | Inr None \<Rightarrow> \<nexists>off. free_run s ri lo hi fr off
      | Inr (Some off) \<Rightarrow> free_run s ri lo hi fr off)"

lemma next_offset:
  assumes "start_ppn (regions s ri) + r_frames (regions s ri) \<le> 2 ^ 52"
    and "2 ^ k \<le> r_frames (regions s ri)" and "x \<le> r_frames (regions s ri)"
  obtains off where
    "checked_sub (align_ppn (usize_add (start_ppn (regions s ri)) x) (2 ^ k))
       (start_ppn (regions s ri)) = Some off"
    "x \<le> off" "2 ^ k dvd start_ppn (regions s ri) + off"
    "\<And>y. x \<le> y \<Longrightarrow> 2 ^ k dvd start_ppn (regions s ri) + y \<Longrightarrow> off \<le> y"
proof -
  let ?sp = "start_ppn (regions s ri)"
  let ?m = "next_multiple_of (?sp + x) (2 ^ k)"
  have bounds: "?sp + x + 2 ^ k < 2 ^ 63" using assms by simp
  then have "usize_add ?sp x = ?sp + x" by (simp add: usize_add_eq USIZE_LIM_def)
  then have al: "align_ppn (usize_add ?sp x) (2 ^ k) = ?m"
    using align_ppn_eq [OF bounds] by simp
  have ge: "?sp + x \<le> ?m" by (rule next_multiple_of_ge) simp
  have dvd: "2 ^ k dvd ?m" by simp
  have least: "?m \<le> y" if "2 ^ k dvd y" "?sp + x \<le> y" for y
    by (rule next_multiple_of_least) (use that in simp_all)
  show thesis
  proof (rule that [of "?m - ?sp"])
    show "2 ^ k dvd ?sp + (?m - ?sp)" using dvd ge by simp
    show "?m - ?sp \<le> y" if "x \<le> y" "2 ^ k dvd ?sp + y" for y
      using least [OF that(2)] that(1) by simp
  qed (use al ge in auto)
qed

lemma free_run_loop_ok:
  assumes inv: "layout_inv s" "ri < region_count s"
    and fr: "fr = 2 ^ k" "fr \<le> r_frames (regions s ri)" and e: "e \<le> r_frames (regions s ri)"
  shows "e < off + n \<Longrightarrow> 0 < n \<Longrightarrow> fr dvd start_ppn (regions s ri) + off \<Longrightarrow> off < 2 ^ 62 \<Longrightarrow>
    search_spec s ri off e fr (free_run_loop n s ri e fr off)"
proof (induction n arbitrary: off)
  case 0
  then show ?case by simp
next
  case (Suc n)
  let ?base = "bitmap_base (regions s ri)" and ?sp = "start_ppn (regions s ri)"
  have size: "r_frames (regions s ri) \<le> 2 ^ 20" by (rule layout_region [OF inv])
  have lim: "off + fr < USIZE_LIM" using size fr(2) Suc.prems(4) by (simp add: USIZE_LIM_def)
  show ?case
  proof (cases "off + fr \<le> e")
    case False
    then show ?thesis using lim by (auto simp: search_spec_def free_run_def checked_add_def)
  next
    case True
    have scan: "first_used s ri [off..<off + fr]
        = Inr (find (\<lambda>i. is_set s (?base + i)) [off..<off + fr])"
      by (rule first_used_ok [OF inv]) (use True e in auto)
    show ?thesis
    proof (cases "find (\<lambda>i. is_set s (?base + i)) [off..<off + fr]")
      case None
      then have "free_run_loop (Suc n) s ri e fr off = Inr (Some off)"
        using True lim scan by (simp add: checked_add_def usize_add_eq)
      moreover have "free_run s ri off e fr off"
        using None True Suc.prems(3) by (auto simp: free_run_def find_None_iff)
      ultimately show ?thesis by (simp only: search_spec_def sum.case option.case)
    next
      case (Some used)
      then have used: "off \<le> used" "used < off + fr" "is_set s (?base + used)"
        by (auto simp: find_upt_least)
      obtain nx where nx: "checked_sub (align_ppn (usize_add ?sp (used + 1)) fr) ?sp = Some nx"
        "used + 1 \<le> nx" "fr dvd ?sp + nx"
        "\<And>y. used + 1 \<le> y \<Longrightarrow> fr dvd ?sp + y \<Longrightarrow> nx \<le> y"
        using next_offset [OF layout_region(2) [OF inv], of k "used + 1"] fr used(2) True e
        by (auto simp del: checked_sub_Some)
      have "nx \<le> off + fr"
        by (rule nx(4)) (use used(2) Suc.prems(3) in \<open>simp_all add: add.assoc [symmetric]\<close>)
      then have "nx < 2 ^ 62" using True e size by simp
      then have IH: "search_spec s ri nx e fr (free_run_loop n s ri e fr nx)"
        using Suc.IH [of nx] Suc.prems(1) nx(2,3) used True by simp
      have widen: "free_run s ri off e fr y \<longleftrightarrow> free_run s ri nx e fr y" for y
      proof
        assume y: "free_run s ri off e fr y"
        have "nx \<le> y"
        proof (rule ccontr)
          assume "\<not> nx \<le> y"
          then have "y \<le> used"
            using nx(4) [of y] y by (cases "Suc used \<le> y") (auto simp: free_run_def)
          then show False using y used by (auto simp: free_run_def)
        qed
        with y show "free_run s ri nx e fr y" by (simp add: free_run_def)
      qed (use nx(2) used(1) in \<open>auto simp: free_run_def\<close>)
      have sp: "usize_add (usize_add ?sp used) (Suc 0) = usize_add ?sp (Suc used)"
        by (simp add: usize_add_def mod_Suc_eq)
      have "free_run_loop (Suc n) s ri e fr off = free_run_loop n s ri e fr nx"
        using True lim scan Some nx(1)
        by (simp add: checked_add_def usize_add_eq [OF lim] sp Let_def
              del: checked_sub_Some)
      then show ?thesis using IH by (auto simp: search_spec_def widen split: sum.splits option.splits)
    qed
  qed
qed

lemma find_free_run_ok:
  assumes inv: "layout_inv s" "ri < region_count s"
    and fr: "fr = 2 ^ k" "fr \<le> r_frames (regions s ri)"
    and e: "lo \<le> r_frames (regions s ri)" "e \<le> r_frames (regions s ri)"
  shows "search_spec s ri lo e fr (find_free_run s ri lo e fr)"
proof -
  let ?sp = "start_ppn (regions s ri)"
  obtain off where off: "checked_sub (align_ppn (usize_add ?sp lo) fr) ?sp = Some off"
      "lo \<le> off" "fr dvd ?sp + off" "\<And>y. lo \<le> y \<Longrightarrow> fr dvd ?sp + y \<Longrightarrow> off \<le> y"
    using next_offset [OF layout_region(2) [OF inv], of k lo] fr e(1)
    by (auto simp del: checked_sub_Some)
  have "off < 2 ^ 62"
  proof -
    have "lo \<le> next_multiple_of (?sp + lo) fr - ?sp"
      "fr dvd ?sp + (next_multiple_of (?sp + lo) fr - ?sp)"
      using next_multiple_of_ge [of fr "?sp + lo"] fr(1) by auto
    then have "off \<le> next_multiple_of (?sp + lo) fr - ?sp" by (rule off(4))
    also have "\<dots> < lo + fr + 1"
      using next_multiple_of_less [of fr "?sp + lo"] fr(1) by simp
    finally show ?thesis using fr(2) e(1) layout_region(6) [OF inv] by simp
  qed
  then have spec: "search_spec s ri off e fr (free_run_loop (Suc e) s ri e fr off)"
    by (intro free_run_loop_ok [OF inv fr e(2)]) (use off(3) in simp_all)
  have widen: "free_run s ri lo e fr y \<longleftrightarrow> free_run s ri off e fr y" for y
    using off(2,4) by (auto simp: free_run_def)
  have "find_free_run s ri lo e fr = free_run_loop (Suc e) s ri e fr off"
    using off(1) by (simp add: find_free_run_def Let_def del: checked_sub_Some free_run_loop.simps)
  then show ?thesis using spec
    by (auto simp: search_spec_def widen split: sum.splits option.splits)
qed

section \<open>Effect of marking a run\<close>

definition extent :: "frame_allocator \<Rightarrow> nat \<Rightarrow> nat \<Rightarrow> nat \<Rightarrow> nat set" where
  "extent s ri off fr = {start_ppn (regions s ri) + off..<start_ppn (regions s ri) + off + fr}"

lemma extent_iff:
  "p \<in> extent s ri off fr \<longleftrightarrow> (\<exists>x. p = start_ppn (regions s ri) + x \<and> off \<le> x \<and> x < off + fr)"
  by (auto simp: extent_def intro: exI [of _ "p - start_ppn (regions s ri)"])

lemma card_extent [simp]: "card (extent s ri off fr) = fr" "finite (extent s ri off fr)"
  by (simp_all add: extent_def)

definition with_run ::
  "frame_allocator \<Rightarrow> (nat \<Rightarrow> u64) \<Rightarrow> nat \<Rightarrow> nat \<Rightarrow> nat \<Rightarrow> frame_allocator" where
  "with_run s a ri h c = (set_hint (s\<lparr>allocated := a\<rparr>) ri h)\<lparr>free_count := c\<rparr>"

lemma with_run_fields [simp]:
  "region_count (with_run s a ri h c) = region_count s"
  "tracked_frames (with_run s a ri h c) = tracked_frames s"
  "free_count (with_run s a ri h c) = c"
  "start_ppn (regions (with_run s a ri h c) i) = start_ppn (regions s i)"
  "r_frames (regions (with_run s a ri h c) i) = r_frames (regions s i)"
  "bitmap_base (regions (with_run s a ri h c) i) = bitmap_base (regions s i)"
  "next_hint (regions (with_run s a ri h c) i) = (if i = ri then h else next_hint (regions s i))"
  "region_ppns (with_run s a ri h c) i = region_ppns s i"
  by (simp_all add: with_run_def set_hint_def region_ppns_def)

lemma frame_locate_with_run [simp]: "frame_locate (with_run s a ri h c) = frame_locate s"
  by (simp add: frame_locate_def Let_def fun_eq_iff cong: option.case_cong)

lemma managed_with_run [simp]: "managed_ppns (with_run s a ri h c) = managed_ppns s"
  by (simp add: managed_ppns_def)

lemma is_set_with_run [simp]: "is_set (with_run s a ri h c) b = is_set (s\<lparr>allocated := a\<rparr>) b"
  by (simp add: with_run_def set_hint_def is_set_def)

lemma layout_with_run:
  "layout_inv s \<Longrightarrow> h \<le> r_frames (regions s ri) \<Longrightarrow> layout_inv (with_run s a ri h c)"
  unfolding layout_inv_def by (auto simp: Let_def)

lemma free_at_with_run:
  assumes inv: "layout_inv s" "ri < region_count s" and b: "off + fr \<le> r_frames (regions s ri)"
    and a: "\<And>b. is_set (s\<lparr>allocated := a\<rparr>) b \<longleftrightarrow>
       (if bitmap_base (regions s ri) + off \<le> b \<and> b < bitmap_base (regions s ri) + off + fr
        then v else is_set s b)"
  shows "free_at (with_run s a ri h c) i x \<longleftrightarrow>
    (if i = ri \<and> off \<le> x \<and> x < off + fr then \<not> v else free_at s i x)"
proof (cases "i = ri")
  case True
  then show ?thesis using inv(2) b by (auto simp: free_at_def a)
next
  case False
  have "\<not> (bitmap_base (regions s ri) + off \<le> bitmap_base (regions s i) + x \<and>
       bitmap_base (regions s i) + x < bitmap_base (regions s ri) + off + fr)"
    if i: "i < region_count s" "x < r_frames (regions s i)"
  proof
    assume c: "bitmap_base (regions s ri) + off \<le> bitmap_base (regions s i) + x \<and>
       bitmap_base (regions s i) + x < bitmap_base (regions s ri) + off + fr"
    have "bitmap_base (regions s i) + x \<in>
      {bitmap_base (regions s i)..<bitmap_base (regions s i) + r_frames (regions s i)} \<inter>
      {bitmap_base (regions s ri)..<bitmap_base (regions s ri) + r_frames (regions s ri)}"
      using c i(2) b by simp
    then show False using layout_disjoint(2) [OF inv(1) i(1) inv(2) False] by simp
  qed
  then show ?thesis using False by (auto simp: free_at_def a)
qed

lemma free_ppns_with_run:
  assumes inv: "layout_inv s" "ri < region_count s" and b: "off + fr \<le> r_frames (regions s ri)"
    and h: "h \<le> r_frames (regions s ri)"
    and a: "\<And>b. is_set (s\<lparr>allocated := a\<rparr>) b \<longleftrightarrow>
       (if bitmap_base (regions s ri) + off \<le> b \<and> b < bitmap_base (regions s ri) + off + fr
        then v else is_set s b)"
  shows "free_ppns (with_run s a ri h c) =
    (if v then free_ppns s - extent s ri off fr else free_ppns s \<union> extent s ri off fr)"
proof -
  let ?s' = "with_run s a ri h c"
  note fa = free_at_with_run [OF inv b a, where h = h and c = c]
  have inv': "layout_inv ?s'" using inv(1) h by (rule layout_with_run)
  have in_ext: "start_ppn (regions s i) + x \<in> extent s ri off fr \<longleftrightarrow> i = ri \<and> off \<le> x \<and> x < off + fr"
    if i: "i < region_count s" "x < r_frames (regions s i)" for i x
  proof (cases "i = ri")
    case False
    have "start_ppn (regions s i) + x \<notin> region_ppns s ri"
      using layout_disjoint(1) [OF inv(1) i(1) inv(2) False] i(2)
      by (auto simp: region_ppns_def disjoint_iff)
    moreover have "extent s ri off fr \<subseteq> region_ppns s ri"
      using b by (auto simp: extent_def region_ppns_def)
    ultimately show ?thesis using False by auto
  qed (auto simp: extent_def)
  have sub: "extent s ri off fr \<subseteq> managed_ppns s"
    using b inv(2) by (force simp: extent_def managed_ppns_def region_ppns_def)
  have pt: "p \<in> free_ppns ?s' \<longleftrightarrow>
      (if p \<in> extent s ri off fr then \<not> v else p \<in> free_ppns s)" if m: "p \<in> managed_ppns s" for p
  proof -
    from m obtain i x where p: "p = start_ppn (regions s i) + x" "i < region_count s"
        "x < r_frames (regions s i)"
      by (auto simp: managed_ppns_def region_ppns_def) (metis le_Suc_ex add_less_cancel_left)
    have "p \<in> free_ppns ?s' \<longleftrightarrow> free_at ?s' i x"
      using free_ppns_iff [OF inv', of i x] p by simp
    also have "\<dots> \<longleftrightarrow> (if p \<in> extent s ri off fr then \<not> v else p \<in> free_ppns s)"
      using free_ppns_iff [OF inv(1) p(2,3)] in_ext [OF p(2,3)] p(1) by (simp add: fa)
    finally show ?thesis .
  qed
  have out: "p \<notin> free_ppns ?s'" "p \<notin> free_ppns s" if "p \<notin> managed_ppns s" for p
    using free_ppns_subset [of ?s'] free_ppns_subset [of s] that by auto
  have iff: "p \<in> free_ppns ?s' \<longleftrightarrow> (if p \<in> extent s ri off fr then \<not> v else p \<in> free_ppns s)" for p
    using pt [of p] out [of p] sub by (cases "p \<in> managed_ppns s") auto
  show ?thesis by (auto simp: iff split: if_splits)
qed

lemma frame_inv_with_run:
  assumes inv: "frame_inv s" "ri < region_count s" and b: "off + fr \<le> r_frames (regions s ri)"
    and h: "h \<le> r_frames (regions s ri)"
    and a: "\<And>b. is_set (s\<lparr>allocated := a\<rparr>) b \<longleftrightarrow>
       (if bitmap_base (regions s ri) + off \<le> b \<and> b < bitmap_base (regions s ri) + off + fr
        then v else is_set s b)"
    and c: "c = card (if v then free_ppns s - extent s ri off fr else free_ppns s \<union> extent s ri off fr)"
  shows "frame_inv (with_run s a ri h c)"
proof -
  have l: "layout_inv s" and t: "\<forall>b \<ge> tracked_frames s. \<not> is_set s b"
    using inv(1) by (simp_all add: frame_inv_def)
  have "\<not> is_set (with_run s a ri h c) b" if "b \<ge> tracked_frames s" for b
    using t that b layout_region(5) [OF l inv(2)] by (auto simp: a)
  then show ?thesis
    using layout_with_run [OF l h] free_ppns_with_run [OF l inv(2) b h a] c
    by (simp add: frame_inv_def)
qed

section \<open>Allocation and release\<close>

lemma free_run_extent:
  assumes "layout_inv s" "ri < region_count s" "free_run s ri lo (r_frames (regions s ri)) fr off"
  shows "extent s ri off fr \<subseteq> free_ppns s"
proof
  fix p assume "p \<in> extent s ri off fr"
  then obtain x where x: "p = start_ppn (regions s ri) + x" "off \<le> x" "x < off + fr"
    by (auto simp: extent_iff)
  have "free_at s ri x" using assms(2,3) x(2,3) by (auto simp: free_at_def free_run_def)
  then show "p \<in> free_ppns s" using x(1) by (auto simp: free_ppns_def)
qed

lemma managed_bound:
  assumes "layout_inv s" "p \<in> managed_ppns s"
  shows "p < 2 ^ 52"
proof -
  obtain i where i: "i < region_count s" "p \<in> region_ppns s i"
    using assms(2) by (auto simp: managed_ppns_def)
  from i(2) layout_region(2) [OF assms(1) i(1)] show ?thesis by (simp add: region_ppns_def)
qed

lemma free_count_bound: "frame_inv s \<Longrightarrow> free_count s < USIZE_LIM"
proof -
  assume inv: "frame_inv s"
  have "free_ppns s \<subseteq> {..<2 ^ 52}"
    using free_ppns_subset [of s] managed_bound [of s] inv by (auto simp: frame_inv_def)
  then have "card (free_ppns s) \<le> card {..<2 ^ 52 :: nat}"
    by (rule card_mono [rotated]) simp
  then show ?thesis using inv by (simp add: frame_inv_def USIZE_LIM_def)
qed

text \<open>What a successful allocation of \<open>fr\<close> frames does.\<close>

definition takes :: "frame_allocator \<Rightarrow> nat \<Rightarrow> usize \<Rightarrow> frame_allocator \<Rightarrow> bool" where
  "takes s fr phys s' \<longleftrightarrow> (\<exists>ri off. ri < region_count s
     \<and> phys = (start_ppn (regions s ri) + off) * PAGE_SIZE
     \<and> fr dvd start_ppn (regions s ri) + off
     \<and> off + fr \<le> r_frames (regions s ri)
     \<and> extent s ri off fr \<subseteq> free_ppns s
     \<and> free_ppns s' = free_ppns s - extent s ri off fr
     \<and> managed_ppns s' = managed_ppns s
     \<and> frame_locate s' = frame_locate s
     \<and> frame_inv s')"

lemma alloc_commit:
  assumes inv: "frame_inv s" "ri < region_count s"
    and run: "free_run s ri lo (r_frames (regions s ri)) fr off" "0 < fr"
  obtains s1 where "mark_run s ri off fr True = Inr s1"
    "takes s fr (usize_mul (usize_add (start_ppn (regions s ri)) off) PAGE_SIZE)
       ((set_hint s1 ri (usize_add off fr))
          \<lparr>free_count := usize_sub (free_count (set_hint s1 ri (usize_add off fr))) fr\<rparr>)"
proof -
  have l: "layout_inv s" using inv(1) by (simp add: frame_inv_def)
  have b: "off + fr \<le> r_frames (regions s ri)" using run(1) by (simp add: free_run_def)
  note bounds = layout_region(2,6) [OF l inv(2)]
  obtain a where a: "mark_run s ri off fr True = Inr (s\<lparr>allocated := a\<rparr>)"
    "\<And>b. is_set (s\<lparr>allocated := a\<rparr>) b \<longleftrightarrow>
       (if bitmap_base (regions s ri) + off \<le> b \<and> b < bitmap_base (regions s ri) + off + fr
        then True else is_set s b)"
    using mark_run_ok [OF l inv(2) b, of True] by blast
  have ext: "extent s ri off fr \<subseteq> free_ppns s" by (rule free_run_extent [OF l inv(2) run(1)])
  have le: "fr \<le> free_count s"
    using card_mono [OF finite_free ext] inv(1) by (simp add: frame_inv_def)
  have cnt: "usize_sub (free_count s) fr = free_count s - fr"
    using le free_count_bound [OF inv(1)] by (rule usize_sub_eq)
  have hint: "usize_add off fr = off + fr"
    using b bounds(2) by (intro usize_add_eq) (simp add: USIZE_LIM_def)
  have phys: "usize_mul (usize_add (start_ppn (regions s ri)) off) PAGE_SIZE
      = (start_ppn (regions s ri) + off) * PAGE_SIZE"
  proof -
    have "start_ppn (regions s ri) + off < 2 ^ 52" using b bounds(1) run(2) by linarith
    then show ?thesis by (simp add: usize_add_eq usize_mul_def USIZE_LIM_def)
  qed
  let ?s' = "with_run s a ri (off + fr) (free_count s - fr)"
  have "card (free_ppns s - extent s ri off fr) = free_count s - fr"
    using card_Diff_subset [OF _ ext] inv(1) by (simp add: frame_inv_def)
  then have "frame_inv ?s'"
    using frame_inv_with_run [OF inv b b a(2), of "free_count s - fr"] by simp
  moreover have "free_ppns ?s' = free_ppns s - extent s ri off fr"
    using free_ppns_with_run [OF l inv(2) b b a(2)] by simp
  ultimately have "takes s fr ((start_ppn (regions s ri) + off) * PAGE_SIZE) ?s'"
    using inv(2) run(1) b ext unfolding takes_def free_run_def
    by (intro exI [of _ ri] exI [of _ off]) simp
  then show thesis
    using a(1) by (intro that [of "s\<lparr>allocated := a\<rparr>"])
      (simp_all add: with_run_def phys hint cnt set_hint_def del: PAGE_SIZE_def)
qed

text \<open>No aligned run of \<open>fr\<close> free frames on either side of the region's hint.\<close>

definition exhausted :: "frame_allocator \<Rightarrow> nat \<Rightarrow> nat \<Rightarrow> bool" where
  "exhausted s fr ri \<longleftrightarrow> (\<forall>off.
     \<not> free_run s ri (next_hint (regions s ri)) (r_frames (regions s ri)) fr off
     \<and> \<not> free_run s ri 0 (next_hint (regions s ri)) fr off)"

lemma free_run_mono: "free_run s ri lo e fr off \<Longrightarrow> e \<le> e' \<Longrightarrow> free_run s ri 0 e' fr off"
  by (auto simp: free_run_def)

lemma alloc_in_regions_ok:
  assumes inv: "frame_inv s" and fr: "fr = 2 ^ k"
  shows "set ris \<subseteq> {..<region_count s} \<Longrightarrow>
    (\<exists>phys s'. alloc_in_regions s fr ris = Inr (Some phys, s') \<and> takes s fr phys s')
    \<or> (alloc_in_regions s fr ris = Inr (None, s) \<and> (\<forall>ri \<in> set ris. exhausted s fr ri))"
proof (induction ris)
  case Nil
  then show ?case by simp
next
  case (Cons ri ris)
  have l: "layout_inv s" using inv by (simp add: frame_inv_def)
  have ri: "ri < region_count s" using Cons.prems by simp
  let ?n = "r_frames (regions s ri)" and ?h = "next_hint (regions s ri)"
  have h: "?h \<le> ?n" by (rule layout_region [OF l ri])
  show ?case
  proof (cases "?n < fr")
    case True
    then have "exhausted s fr ri" using h by (auto simp: exhausted_def free_run_def)
    then show ?thesis using True Cons by auto
  next
    case False
    then have le: "fr \<le> ?n" by simp
    have first: "search_spec s ri ?h ?n fr (find_free_run s ri ?h ?n fr)"
      and second: "search_spec s ri 0 ?h fr (find_free_run s ri 0 ?h fr)"
      using find_free_run_ok [OF l ri fr le] h by simp_all
    define found where "found = bnd (find_free_run s ri ?h ?n fr)
      (\<lambda>r. case r of Some off \<Rightarrow> Inr (Some off) | None \<Rightarrow> find_free_run s ri 0 ?h fr)"
    have step: "alloc_in_regions s fr (ri # ris) = bnd found (\<lambda>f. case f of
          None \<Rightarrow> alloc_in_regions s fr ris
        | Some offset \<Rightarrow>
            bnd (mark_run s ri offset fr True) (\<lambda>s1.
            let s2 = set_hint s1 ri (usize_add offset fr);
                s3 = s2\<lparr>free_count := usize_sub (free_count s2) fr\<rparr> in
            Inr (Some (usize_mul (usize_add (start_ppn (regions s ri)) offset) PAGE_SIZE), s3)))"
      using False unfolding alloc_in_regions.simps found_def bnd_assoc Let_def
      by (simp only: if_False)
    consider (hit) off where "found = Inr (Some off)" "free_run s ri 0 ?n fr off"
      | (miss) "found = Inr None" "exhausted s fr ri"
      using first second free_run_mono [of s ri _ _ fr _ ?n] h
      by (auto simp: found_def search_spec_def exhausted_def split: sum.splits option.splits)
    then show ?thesis
    proof cases
      case hit
      obtain s1 where "mark_run s ri off fr True = Inr s1"
        "takes s fr (usize_mul (usize_add (start_ppn (regions s ri)) off) PAGE_SIZE)
           ((set_hint s1 ri (usize_add off fr))
              \<lparr>free_count := usize_sub (free_count (set_hint s1 ri (usize_add off fr))) fr\<rparr>)"
        using alloc_commit [OF inv ri hit(2)] fr by auto
      then show ?thesis unfolding step hit(1) by (auto simp: Let_def simp del: PAGE_SIZE_def)
    next
      case miss
      then show ?thesis unfolding step using Cons by auto
    qed
  qed
qed

lemma frame_alloc_cases:
  assumes inv: "frame_inv s" and n: "count \<noteq> 0" "checked_next_power_of_two count = Some fr"
  obtains (ok) phys s' where "frame_alloc_frames s count = Inr (Some phys, s')" "takes s fr phys s'"
    | (none) "frame_alloc_frames s count = Inr (None, s)"
        "\<And>ri. ri < region_count s \<Longrightarrow> exhausted s fr ri"
proof -
  obtain k where "fr = 2 ^ k" using next_power_of_two_Some [OF n(2)] by blast
  then have "(\<exists>phys s'. frame_alloc_frames s count = Inr (Some phys, s') \<and> takes s fr phys s')
    \<or> (frame_alloc_frames s count = Inr (None, s)
        \<and> (\<forall>ri \<in> set [0..<region_count s]. exhausted s fr ri))"
    using alloc_in_regions_ok [OF inv, of fr k "[0..<region_count s]"] n
    by (simp add: frame_alloc_frames_def lessThan_atLeast0)
  then show thesis using that by auto
qed

lemma frame_alloc_total:
  assumes "frame_inv s"
  shows "\<exists>r s'. frame_alloc_frames s count = Inr (r, s') \<and> frame_inv s'
           \<and> managed_ppns s' = managed_ppns s"
proof (cases "count = 0 \<or> checked_next_power_of_two count = None")
  case True
  then show ?thesis using assms by (auto simp: frame_alloc_frames_def)
next
  case False
  then obtain fr where fr: "count \<noteq> 0" "checked_next_power_of_two count = Some fr" by auto
  from assms fr show ?thesis
    by (cases rule: frame_alloc_cases) (auto simp: takes_def assms)
qed

lemma assert_all_used_ok:
  assumes "layout_inv s" "ri < region_count s" "\<forall>i \<in> set is. i < r_frames (regions s ri)"
  shows "assert_all_used s ri is =
    (if \<forall>i \<in> set is. is_set s (bitmap_base (regions s ri) + i) then Inr ()
     else Inl (Panic ''freeing unallocated physical frame''))"
  using assms(3) by (induction "is") (simp_all add: fbit_ok [OF assms(1,2)] assert_that_def)

lemma frame_locate_Some:
  assumes "frame_locate s ppn fr = Some (ri, off)"
  shows "ri < region_count s" "ppn = start_ppn (regions s ri) + off"
    "off + fr \<le> r_frames (regions s ri)"
  using find_map_Some [OF assms [unfolded frame_locate_def]]
  by (auto simp: Let_def split: option.splits if_splits)

lemma frame_locate_eq:
  assumes inv: "layout_inv s" "ri < region_count s" "off + fr \<le> r_frames (regions s ri)" "0 < fr"
  shows "frame_locate s (start_ppn (regions s ri) + off) fr = Some (ri, off)"
proof -
  let ?f = "\<lambda>i. let r = regions s i in
       case checked_sub (start_ppn (regions s ri) + off) (start_ppn r) of
         None \<Rightarrow> None
       | Some offset \<Rightarrow>
           (case checked_add offset fr of
              None \<Rightarrow> None
            | Some e \<Rightarrow> if e \<le> r_frames r then Some (i, offset) else None)"
  have small: "off + fr < USIZE_LIM"
    using inv(3) layout_region(6) [OF inv(1,2)] by (simp add: USIZE_LIM_def)
  have here: "?f ri = Some (ri, off)"
    using inv(3) small by (simp add: Let_def checked_sub_def checked_add_def)
  have uniq: "w = (ri, off)" if z: "z \<in> set [0..<region_count s]" "?f z = Some w" for z w
  proof -
    define x where "x = start_ppn (regions s ri) + off - start_ppn (regions s z)"
    have x: "w = (z, x)" "start_ppn (regions s ri) + off = start_ppn (regions s z) + x"
        "x + fr \<le> r_frames (regions s z)"
      using z(2) by (auto simp: x_def Let_def split: option.splits if_splits)
    have "z = ri"
    proof (rule ccontr)
      assume "z \<noteq> ri"
      then have "region_ppns s z \<inter> region_ppns s ri = {}"
        using inv(1,2) z(1) by (intro layout_disjoint) auto
      moreover have "start_ppn (regions s ri) + off \<in> region_ppns s z \<inter> region_ppns s ri"
        using x(2,3) inv(3,4) by (simp add: region_ppns_def)
      ultimately show False by blast
    qed
    with x show ?thesis by simp
  qed
  show ?thesis
    unfolding frame_locate_def
  proof (rule find_map_unique [of ri])
    show "ri \<in> set [0..<region_count s]" using inv(2) by simp
  qed (use here uniq in blast)+
qed

lemma free_run_bits:
  assumes "layout_inv s" "ri < region_count s" "off + fr \<le> r_frames (regions s ri)"
  shows "extent s ri off fr \<inter> free_ppns s = {} \<longleftrightarrow>
    (\<forall>i \<in> set [off..<off + fr]. is_set s (bitmap_base (regions s ri) + i))"
proof -
  have "extent s ri off fr \<inter> free_ppns s = {} \<longleftrightarrow>
      (\<forall>i. off \<le> i \<and> i < off + fr \<longrightarrow> start_ppn (regions s ri) + i \<notin> free_ppns s)"
    by (auto simp: extent_iff disjoint_iff)
  also have "\<dots> \<longleftrightarrow> (\<forall>i. off \<le> i \<and> i < off + fr \<longrightarrow> \<not> free_at s ri i)"
    using free_ppns_iff [OF assms(1,2)] assms(3) by (metis order_less_le_trans)
  finally show ?thesis using assms(2,3) by (auto simp: free_at_def)
qed

lemma frame_free_located:
  assumes inv: "frame_inv s" and n: "count \<noteq> 0" "checked_next_power_of_two count = Some fr"
    and loc: "ri < region_count s" "off + fr \<le> r_frames (regions s ri)"
    and used: "extent s ri off fr \<inter> free_ppns s = {}"
  obtains s' where
    "frame_free_frames s ((start_ppn (regions s ri) + off) * PAGE_SIZE) count = Inr s'"
    "frame_inv s'" "free_ppns s' = free_ppns s \<union> extent s ri off fr"
    "managed_ppns s' = managed_ppns s" "frame_locate s' = frame_locate s"
proof -
  have l: "layout_inv s" using inv by (simp add: frame_inv_def)
  have fr: "0 < fr" using n(2) by (rule next_power_of_two_Some) simp
  have add: "usize_add off fr = off + fr"
    using loc(2) layout_region(6) [OF l loc(1)] by (intro usize_add_eq) (simp add: USIZE_LIM_def)
  have all: "assert_all_used s ri [off..<off + fr] = Inr ()"
  proof -
    have rng: "\<forall>i \<in> set [off..<off + fr]. i < r_frames (regions s ri)" using loc(2) by simp
    have "\<forall>i \<in> set [off..<off + fr]. is_set s (bitmap_base (regions s ri) + i)"
      using free_run_bits [OF l loc] used by simp
    then show ?thesis unfolding assert_all_used_ok [OF l loc(1) rng] by (rule if_P)
  qed
  obtain a where a: "mark_run s ri off fr False = Inr (s\<lparr>allocated := a\<rparr>)"
    "\<And>b. is_set (s\<lparr>allocated := a\<rparr>) b \<longleftrightarrow>
       (if bitmap_base (regions s ri) + off \<le> b \<and> b < bitmap_base (regions s ri) + off + fr
        then False else is_set s b)"
    using mark_run_ok [OF l loc, of False] by blast
  let ?h = "min (next_hint (regions s ri)) off" and ?c = "free_count s + fr"
  let ?s' = "with_run s a ri ?h ?c"
  have h: "?h \<le> r_frames (regions s ri)" using loc(2) by simp
  have card: "?c = card (free_ppns s \<union> extent s ri off fr)"
    using card_Un_disjoint [of "free_ppns s" "extent s ri off fr"] used inv
    by (simp add: frame_inv_def Int_commute)
  have inv': "frame_inv ?s'"
    using frame_inv_with_run [OF inv loc h a(2), of ?c] card by simp
  then have "free_count s + fr < USIZE_LIM" using free_count_bound [of ?s'] by simp
  then have "frame_free_frames s ((start_ppn (regions s ri) + off) * PAGE_SIZE) count = Inr ?s'"
    using n frame_locate_eq [OF l loc fr] all a(1)
    by (simp add: frame_free_frames_def add Let_def with_run_def set_hint_def usize_add_eq)
  moreover have "free_ppns ?s' = free_ppns s \<union> extent s ri off fr"
    using free_ppns_with_run [OF l loc h a(2)] by simp
  ultimately show thesis using inv' that by simp
qed

lemma frame_free_Inr:
  assumes inv: "frame_inv s" and ok: "frame_free_frames s phys count = Inr s'"
  obtains fr ri off where "checked_next_power_of_two count = Some fr" "ri < region_count s"
    "off + fr \<le> r_frames (regions s ri)" "phys = (start_ppn (regions s ri) + off) * PAGE_SIZE"
    "extent s ri off fr \<inter> free_ppns s = {}" "frame_inv s'"
    "free_ppns s' = free_ppns s \<union> extent s ri off fr" "managed_ppns s' = managed_ppns s"
    "frame_locate s' = frame_locate s"
proof -
  have l: "layout_inv s" using inv by (simp add: frame_inv_def)
  from ok obtain fr ri off where pre: "count \<noteq> 0" "phys mod PAGE_SIZE = 0"
      "checked_next_power_of_two count = Some fr"
      "frame_locate s (phys div PAGE_SIZE) fr = Some (ri, off)"
      "assert_all_used s ri [off..<usize_add off fr] = Inr ()"
    by (auto simp: frame_free_frames_def run_simps split: prod.splits)
  note loc = frame_locate_Some [OF pre(4)]
  have phys: "phys = (start_ppn (regions s ri) + off) * PAGE_SIZE"
    using loc(2) pre(2) by (metis div_mult_mod_eq add_0_right)
  have add: "usize_add off fr = off + fr"
    using loc(3) layout_region(6) [OF l loc(1)] by (intro usize_add_eq) (simp add: USIZE_LIM_def)
  have "extent s ri off fr \<inter> free_ppns s = {}"
    using pre(5) assert_all_used_ok [OF l loc(1), of "[off..<off + fr]"] loc(3)
      free_run_bits [OF l loc(1,3)]
    by (simp add: add split: if_splits)
  moreover obtain s2 where "frame_free_frames s phys count = Inr s2" "frame_inv s2"
      "free_ppns s2 = free_ppns s \<union> extent s ri off fr" "managed_ppns s2 = managed_ppns s"
      "frame_locate s2 = frame_locate s"
    using frame_free_located [OF inv pre(1,3) loc(1,3)] calculation phys by metis
  ultimately show thesis using that [of fr ri off] pre(3) loc phys ok by auto
qed

section \<open>Registering memory\<close>

text \<open>The page numbers of the whole pages inside the byte range \<open>[start, stop)\<close>.\<close>

definition whole_pages :: "usize \<Rightarrow> usize \<Rightarrow> nat set" where
  "whole_pages start stop = {(start + 4095) div 4096..<stop div 4096}"

lemma round_inward:
  assumes "a < USIZE_LIM" "b < USIZE_LIM"
  shows "saturating_add a (PAGE_SIZE - 1) AND usize_not (PAGE_SIZE - 1)
      = min (a + 4095) (USIZE_LIM - 1) div 4096 * 4096"
    and "b AND usize_not (PAGE_SIZE - 1) = b div 4096 * 4096"
proof -
  have m: "PAGE_SIZE - 1 = 2 ^ 12 - 1" by simp
  have "min (a + 4095) (USIZE_LIM - 1) < USIZE_LIM" by (simp add: USIZE_LIM_def)
  from and_not_mask [of 12, OF _ this]
  show "saturating_add a (PAGE_SIZE - 1) AND usize_not (PAGE_SIZE - 1)
      = min (a + 4095) (USIZE_LIM - 1) div 4096 * 4096"
    by (simp add: saturating_add_def)
  from and_not_mask [of 12 b] assms(2) show "b AND usize_not (PAGE_SIZE - 1) = b div 4096 * 4096"
    by simp
qed

lemma whole_pages_min:
  assumes "a < USIZE_LIM" "b < USIZE_LIM"
  shows "{min (a + 4095) (USIZE_LIM - 1) div 4096..<b div 4096} = whole_pages a b"
proof (cases "a + 4095 \<le> USIZE_LIM - 1")
  case True
  then show ?thesis by (simp add: whole_pages_def min_def)
next
  case False
  then have "(USIZE_LIM - 1) div 4096 \<le> (a + 4095) div 4096" by (intro div_le_mono) simp
  moreover have "b div 4096 \<le> (USIZE_LIM - 1) div 4096" using assms(2) by (intro div_le_mono) simp
  ultimately show ?thesis using False by (simp add: whole_pages_def min_def)
qed

lemma frame_add_region_Inr:
  assumes inv: "frame_inv s" and ab: "a < USIZE_LIM" "b < USIZE_LIM"
    and ok: "frame_add_region s a b = Inr s'"
  shows "frame_inv s' \<and> managed_ppns s' = managed_ppns s \<union> whole_pages a b
    \<and> free_ppns s' = free_ppns s \<union> whole_pages a b \<and> whole_pages a b \<inter> managed_ppns s = {}"
proof -
  define A where "A = min (a + 4095) (USIZE_LIM - 1) div 4096"
  define B where "B = b div 4096"
  note ri = round_inward [OF ab, folded A_def B_def]
  have I: "whole_pages a b = {A..<B}" using whole_pages_min [OF ab] by (simp add: A_def B_def)
  have l: "layout_inv s" and t: "\<forall>b \<ge> tracked_frames s. \<not> is_set s b"
    and cnt: "free_count s = card (free_ppns s)" using inv by (simp_all add: frame_inv_def)
  show ?thesis
  proof (cases "A < B")
    case False
    then have "s' = s" using ok unfolding frame_add_region_def ri by (simp add: Let_def)
    then show ?thesis using inv I False by simp
  next
    case True
    let ?n = "B - A" and ?rc = "region_count s"
    let ?r = "\<lparr>start_ppn = A, r_frames = ?n, bitmap_base = tracked_frames s, next_hint = 0\<rparr>"
    have B: "B \<le> 2 ^ 52" using ab(2) by (simp add: USIZE_LIM_def B_def)
    have tl: "tracked_frames s \<le> 2 ^ 20" using l by (simp add: layout_inv_def)
    have eqs: "(B * 4096 - A * 4096) div 4096 = ?n"
      by (simp flip: diff_mult_distrib)
    have small: "usize_add (tracked_frames s) ?n = tracked_frames s + ?n"
      "usize_add A ?n = B"
      using B tl True by (simp_all add: usize_add_eq USIZE_LIM_def)
    have r_small: "usize_add (start_ppn (regions s i)) (r_frames (regions s i))
        = start_ppn (regions s i) + r_frames (regions s i)" if "i < ?rc" for i
      using layout_region(2) [OF l that] by (simp add: usize_add_eq USIZE_LIM_def)
    have "\<not> B * 4096 \<le> A * 4096" using True by simp
    then have guards: "?rc < 64" "tracked_frames s + ?n \<le> 2 ^ 20"
      and disj: "\<And>i. i < ?rc \<Longrightarrow> B \<le> start_ppn (regions s i)
             \<or> start_ppn (regions s i) + r_frames (regions s i) \<le> A"
      and s': "s' = s\<lparr>regions := (regions s)(?rc := ?r), region_count := usize_add ?rc 1,
                tracked_frames := tracked_frames s + ?n,
                free_count := usize_add (free_count s) ?n\<rparr>"
      using ok r_small unfolding frame_add_region_def ri
      by (auto simp: Let_def run_simps eqs small list_all_iff)
    have rc: "usize_add ?rc (Suc 0) = Suc ?rc" using guards(1) by (simp add: usize_add_def USIZE_LIM_def)
    have reg: "regions s' i = (if i = ?rc then ?r else regions s i)" for i by (simp add: s')
    have ppns: "region_ppns s' i = (if i = ?rc then {A..<B} else region_ppns s i)" for i
      using True by (simp add: region_ppns_def reg)
    have sep: "region_ppns s i \<inter> {A..<B} = {}" if "i < ?rc" for i
      using disj [OF that] by (auto simp: region_ppns_def)
    have bits: "is_set s' = is_set s" by (simp add: s' is_set_def fun_eq_iff)
    have man: "managed_ppns s' = managed_ppns s \<union> {A..<B}"
    proof -
      have "region_count s' = Suc ?rc" by (simp add: s' rc)
      then show ?thesis by (auto simp: managed_ppns_def less_Suc_eq ppns)
    qed
    have dis: "{A..<B} \<inter> managed_ppns s = {}" using sep by (auto simp: managed_ppns_def)
    have more: "bitmap_base (regions s i) + r_frames (regions s i) \<le> tracked_frames s + B - A"
      if "i < ?rc" for i using layout_region(5) [OF l that] True by linarith
    have lay: "layout_inv s'"
      using l guards B sep layout_region(5) [OF l] True
      by (auto simp: layout_inv_def s' rc Let_def less_Suc_eq region_ppns_def more split: if_splits)
    have fa: "free_at s' i x \<longleftrightarrow> i = ?rc \<and> x < ?n \<or> i \<noteq> ?rc \<and> free_at s i x" for i x
      using t by (auto simp: free_at_def bits reg) (auto simp: s' rc)
    have "p \<in> free_ppns s' \<longleftrightarrow> p \<in> free_ppns s \<or> (\<exists>x. p = A + x \<and> x < ?n)" for p
    proof
      assume "p \<in> free_ppns s'"
      then obtain i x where "p = start_ppn (regions s' i) + x" "free_at s' i x"
        by (auto simp: free_ppns_def)
      then show "p \<in> free_ppns s \<or> (\<exists>x. p = A + x \<and> x < ?n)"
        by (auto simp: fa reg free_ppns_def split: if_splits)
    next
      have "start_ppn (regions s i) + x \<in> free_ppns s'" if "free_at s i x" for i x
        using free_ppnsI [of s' i x] that fa [of i x] by (auto simp: reg free_at_def [of s])
      moreover have "A + x \<in> free_ppns s'" if "x < ?n" for x
        using free_ppnsI [of s' ?rc x] that fa [of ?rc x] by (simp add: reg)
      ultimately show "p \<in> free_ppns s'" if "p \<in> free_ppns s \<or> (\<exists>x. p = A + x \<and> x < ?n)"
        using that by (auto simp: free_ppns_def [of s])
    qed
    moreover have "(\<exists>x. p = A + x \<and> x < ?n) \<longleftrightarrow> p \<in> {A..<B}" for p
      by (auto intro: exI [of _ "p - A"])
    ultimately have free: "free_ppns s' = free_ppns s \<union> {A..<B}" by auto
    have "card (free_ppns s') = free_count s + ?n"
      using card_Un_disjoint [of "free_ppns s" "{A..<B}"] dis free_ppns_subset [of s] cnt
      by (auto simp: free)
    moreover have "free_count s + ?n < USIZE_LIM"
    proof -
      have "free_ppns s' \<subseteq> {..<2 ^ 52}"
        using free_ppns_subset [of s'] managed_bound [OF lay] by auto
      then have "card (free_ppns s') \<le> card {..<2 ^ 52 :: nat}"
        by (rule card_mono [rotated]) simp
      then show ?thesis using calculation by (simp add: USIZE_LIM_def)
    qed
    ultimately have "frame_inv s'"
      using lay t by (simp add: frame_inv_def bits) (simp add: s' usize_add_eq)
    then show ?thesis using man free dis I by simp
  qed
qed

section \<open>The interface of a frame provider\<close>

text \<open>The frames an allocation of \<open>n\<close> frames at \<open>phys\<close> reserves.\<close>

definition frame_extent :: "usize \<Rightarrow> usize \<Rightarrow> nat set" where
  "frame_extent phys n = (case checked_next_power_of_two n of None \<Rightarrow> {}
     | Some fr \<Rightarrow> {phys div PAGE_SIZE..<phys div PAGE_SIZE + fr})"

text \<open>The extent lies in one registered region, so that a release can locate it.\<close>

definition frame_registered :: "frame_allocator \<Rightarrow> usize \<Rightarrow> usize \<Rightarrow> bool" where
  "frame_registered s phys n \<longleftrightarrow> n \<noteq> 0 \<and> phys mod PAGE_SIZE = 0 \<and>
     (case checked_next_power_of_two n of None \<Rightarrow> False
      | Some fr \<Rightarrow> frame_locate s (phys div PAGE_SIZE) fr \<noteq> None)"

locale frame_provider =
  fixes inv :: "'s \<Rightarrow> bool"
    and free :: "'s \<Rightarrow> nat set"
    and registered :: "'s \<Rightarrow> usize \<Rightarrow> usize \<Rightarrow> bool"
    and alloc :: "'s \<Rightarrow> usize \<Rightarrow> fault + usize option \<times> 's"
    and release :: "'s \<Rightarrow> usize \<Rightarrow> usize \<Rightarrow> fault + 's"
    and managed :: "'s \<Rightarrow> nat set"
  assumes free_managed: "free s \<subseteq> managed s"
    and alloc_total: "inv s \<Longrightarrow> \<exists>r s'. alloc s n = Inr (r, s') \<and> inv s'"
    and alloc_None: "inv s \<Longrightarrow> alloc s n = Inr (None, s') \<Longrightarrow> s' = s"
    and alloc_Some: "inv s \<Longrightarrow> alloc s n = Inr (Some p, s') \<Longrightarrow>
      inv s' \<and> registered s' p n \<and> frame_extent p n \<subseteq> free s
        \<and> free s' = free s - frame_extent p n"
    and alloc_aligned: "inv s \<Longrightarrow> alloc s n = Inr (Some p, s') \<Longrightarrow>
      \<exists>fr. checked_next_power_of_two n = Some fr \<and> (fr * PAGE_SIZE) dvd p"
    and alloc_registered: "inv s \<Longrightarrow> alloc s n = Inr (r, s') \<Longrightarrow>
      registered s p m \<Longrightarrow> registered s' p m"
    and alloc_managed: "inv s \<Longrightarrow> alloc s n = Inr (r, s') \<Longrightarrow> managed s' = managed s"
    and release_ok: "inv s \<Longrightarrow> registered s p n \<Longrightarrow> frame_extent p n \<inter> free s = {} \<Longrightarrow>
      \<exists>s'. release s p n = Inr s' \<and> inv s' \<and> free s' = free s \<union> frame_extent p n
        \<and> (\<forall>q m. registered s q m \<longrightarrow> registered s' q m) \<and> managed s' = managed s"
    and release_used: "inv s \<Longrightarrow> release s p n = Inr s' \<Longrightarrow>
      frame_extent p n \<noteq> {} \<and> frame_extent p n \<inter> free s = {}
        \<and> free s' = free s \<union> frame_extent p n \<and> inv s'"
begin

lemma alloc_held:
  assumes "inv s" "alloc s n = Inr (Some p, s')" "X \<inter> free s = {}"
  shows "frame_extent p n \<inter> X = {}" "X \<inter> free s' = {}"
  using alloc_Some [OF assms(1,2)] assms(3) by auto

lemma alloc_alloc_disjoint:
  assumes "inv s" "alloc s n = Inr (Some p, s1)" "alloc s1 m = Inr (Some q, s2)"
  shows "frame_extent p n \<inter> frame_extent q m = {}"
  using alloc_Some [OF assms(1,2)] alloc_Some [OF _ assms(3)] by auto

lemma alloc_release:
  assumes "inv s" "alloc s n = Inr (Some p, s1)"
  shows "\<exists>s2. release s1 p n = Inr s2 \<and> inv s2 \<and> free s2 = free s"
proof -
  note a = alloc_Some [OF assms]
  then obtain s2 where "release s1 p n = Inr s2" "inv s2" "free s2 = free s1 \<union> frame_extent p n"
    using release_ok [of s1 p n] by auto
  with a show ?thesis by auto
qed

lemma double_release:
  assumes "inv s" "release s p n = Inr s'"
  shows "\<exists>e. release s' p n = Inl e"
proof (cases "release s' p n")
  case (Inr s2)
  note r = release_used [OF assms]
  then have "frame_extent p n \<inter> free s' = {}" using release_used [of s' p n s2] Inr by simp
  with r show ?thesis by auto
qed simp

end

lemma frame_alloc_Some_takes:
  assumes inv: "frame_inv s" and ok: "frame_alloc_frames s n = Inr (Some p, s')"
  obtains fr where "n \<noteq> 0" "checked_next_power_of_two n = Some fr" "takes s fr p s'"
proof -
  from ok obtain fr where fr: "n \<noteq> 0" "checked_next_power_of_two n = Some fr"
    by (auto simp: frame_alloc_frames_def split: if_splits option.splits)
  from inv fr show thesis
    by (cases rule: frame_alloc_cases) (use ok that fr in auto)
qed

lemma frame_alloc_None:
  assumes inv: "frame_inv s" and none: "frame_alloc_frames s n = Inr (None, s')"
  shows "s' = s"
proof (cases "n = 0 \<or> checked_next_power_of_two n = None")
  case True
  then show ?thesis using none by (auto simp: frame_alloc_frames_def split: if_splits)
next
  case False
  then obtain fr where "n \<noteq> 0" "checked_next_power_of_two n = Some fr" by auto
  with inv show ?thesis by (cases rule: frame_alloc_cases) (use none in auto)
qed

lemma frame_extent_run:
  assumes "checked_next_power_of_two n = Some fr"
  shows "frame_extent ((start_ppn (regions s ri) + off) * PAGE_SIZE) n = extent s ri off fr"
  using assms by (simp add: frame_extent_def extent_def)

lemma frame_alloc_law:
  assumes inv: "frame_inv s" and ok: "frame_alloc_frames s n = Inr (Some p, s')"
  shows "frame_inv s' \<and> frame_registered s' p n \<and> frame_extent p n \<subseteq> free_ppns s
    \<and> free_ppns s' = free_ppns s - frame_extent p n"
    and "\<exists>fr. checked_next_power_of_two n = Some fr \<and> (fr * PAGE_SIZE) dvd p"
    and "frame_locate s' = frame_locate s" "managed_ppns s' = managed_ppns s"
proof -
  obtain fr where fr: "n \<noteq> 0" "checked_next_power_of_two n = Some fr" "takes s fr p s'"
    using inv ok by (rule frame_alloc_Some_takes)
  from fr(3) obtain ri off where t: "ri < region_count s"
      "p = (start_ppn (regions s ri) + off) * PAGE_SIZE"
      "fr dvd start_ppn (regions s ri) + off" "off + fr \<le> r_frames (regions s ri)"
      "extent s ri off fr \<subseteq> free_ppns s" "free_ppns s' = free_ppns s - extent s ri off fr"
      "frame_locate s' = frame_locate s" "frame_inv s'" "managed_ppns s' = managed_ppns s"
    unfolding takes_def by blast
  have l: "layout_inv s" using inv by (simp add: frame_inv_def)
  have "0 < fr" using fr(2) by (rule next_power_of_two_Some) simp
  then have "frame_locate s (p div PAGE_SIZE) fr = Some (ri, off)"
    using frame_locate_eq [OF l t(1,4)] t(2) by simp
  then have "frame_registered s' p n"
    using fr(1,2) t(2,7) by (simp add: frame_registered_def)
  then show "frame_inv s' \<and> frame_registered s' p n \<and> frame_extent p n \<subseteq> free_ppns s
    \<and> free_ppns s' = free_ppns s - frame_extent p n"
    using t frame_extent_run [OF fr(2)] by simp
  show "\<exists>fr. checked_next_power_of_two n = Some fr \<and> (fr * PAGE_SIZE) dvd p"
    using fr(2) t(2,3) by (auto intro: mult_dvd_mono simp del: PAGE_SIZE_def)
  show "frame_locate s' = frame_locate s" by (rule t(7))
  show "managed_ppns s' = managed_ppns s" by (rule t(9))
qed

lemma frame_release_law:
  assumes inv: "frame_inv s" and reg: "frame_registered s p n"
    and used: "frame_extent p n \<inter> free_ppns s = {}"
  shows "\<exists>s'. frame_free_frames s p n = Inr s' \<and> frame_inv s'
    \<and> free_ppns s' = free_ppns s \<union> frame_extent p n \<and> frame_locate s' = frame_locate s
    \<and> managed_ppns s' = managed_ppns s"
proof -
  from reg obtain fr ri off where fr: "n \<noteq> 0" "checked_next_power_of_two n = Some fr"
      "p mod PAGE_SIZE = 0" "frame_locate s (p div PAGE_SIZE) fr = Some (ri, off)"
    by (auto simp: frame_registered_def split: option.splits)
  note loc = frame_locate_Some [OF fr(4)]
  have p: "p = (start_ppn (regions s ri) + off) * PAGE_SIZE"
    using loc(2) fr(3) by (metis div_mult_mod_eq add_0_right)
  have ext: "frame_extent p n = extent s ri off fr" unfolding p by (rule frame_extent_run [OF fr(2)])
  obtain s' where "frame_free_frames s p n = Inr s'" "frame_inv s'"
    "free_ppns s' = free_ppns s \<union> extent s ri off fr" "frame_locate s' = frame_locate s"
    "managed_ppns s' = managed_ppns s"
    using frame_free_located [OF inv fr(1,2) loc(1,3)] used ext p by metis
  with ext show ?thesis by auto
qed

lemma frame_release_used:
  assumes inv: "frame_inv s" and ok: "frame_free_frames s p n = Inr s'"
  shows "frame_extent p n \<noteq> {} \<and> frame_extent p n \<inter> free_ppns s = {}
    \<and> free_ppns s' = free_ppns s \<union> frame_extent p n \<and> frame_inv s'"
proof -
  obtain fr ri off where f: "checked_next_power_of_two n = Some fr" "ri < region_count s"
    "p = (start_ppn (regions s ri) + off) * PAGE_SIZE"
    "extent s ri off fr \<inter> free_ppns s = {}" "frame_inv s'"
    "free_ppns s' = free_ppns s \<union> extent s ri off fr"
    using inv ok by (rule frame_free_Inr)
  have "0 < fr" using f(1) by (rule next_power_of_two_Some) simp
  then show ?thesis
    using f frame_extent_run [OF f(1), of s ri off] by (simp add: extent_def del: PAGE_SIZE_def)
qed

interpretation frames: frame_provider frame_inv free_ppns frame_registered
  frame_alloc_frames frame_free_frames managed_ppns
proof unfold_locales
  show "free_ppns s \<subseteq> managed_ppns s" for s by (rule free_ppns_subset)
next
  fix s n
  assume "frame_inv s"
  then show "\<exists>r s'. frame_alloc_frames s n = Inr (r, s') \<and> frame_inv s'"
    using frame_alloc_total [of s n] by blast
next
  fix s n s'
  assume "frame_inv s" "frame_alloc_frames s n = Inr (None, s')"
  then show "s' = s" by (rule frame_alloc_None)
next
  fix s n p s'
  assume a: "frame_inv s" "frame_alloc_frames s n = Inr (Some p, s')"
  show "frame_inv s' \<and> frame_registered s' p n \<and> frame_extent p n \<subseteq> free_ppns s
      \<and> free_ppns s' = free_ppns s - frame_extent p n"
    and "\<exists>fr. checked_next_power_of_two n = Some fr \<and> (fr * PAGE_SIZE) dvd p"
    using frame_alloc_law [OF a] by blast+
next
  fix s n r s' p m
  assume a: "frame_inv s" "frame_alloc_frames s n = Inr (r, s')" "frame_registered s p m"
  then show "frame_registered s' p m"
    using frame_alloc_None [of s n s'] frame_alloc_law(3) [of s n _ s']
    by (cases r) (auto simp: frame_registered_def split: option.splits)
next
  fix s n r s'
  assume a: "frame_inv s" "frame_alloc_frames s n = Inr (r, s')"
  then show "managed_ppns s' = managed_ppns s"
    using frame_alloc_None [of s n s'] frame_alloc_law(4) [of s n _ s'] by (cases r) auto
next
  fix s p n
  assume "frame_inv s" "frame_registered s p n" "frame_extent p n \<inter> free_ppns s = {}"
  then show "\<exists>s'. frame_free_frames s p n = Inr s' \<and> frame_inv s'
      \<and> free_ppns s' = free_ppns s \<union> frame_extent p n
      \<and> (\<forall>q m. frame_registered s q m \<longrightarrow> frame_registered s' q m)
      \<and> managed_ppns s' = managed_ppns s"
    using frame_release_law [of s p n] by (auto simp: frame_registered_def split: option.splits)
next
  fix s p n s'
  assume "frame_inv s" "frame_free_frames s p n = Inr s'"
  then show "frame_extent p n \<noteq> {} \<and> frame_extent p n \<inter> free_ppns s = {}
      \<and> free_ppns s' = free_ppns s \<union> frame_extent p n \<and> frame_inv s'"
    by (rule frame_release_used)
qed

section \<open>Reachable allocators\<close>

inductive frame_reach :: "frame_allocator \<Rightarrow> bool" where
  new: "frame_reach frame_new"
| add: "frame_reach s \<Longrightarrow> a < USIZE_LIM \<Longrightarrow> b < USIZE_LIM \<Longrightarrow>
    frame_add_region s a b = Inr s' \<Longrightarrow> frame_reach s'"
| alloc: "frame_reach s \<Longrightarrow> frame_alloc_frames s n = Inr (r, s') \<Longrightarrow> frame_reach s'"
| free: "frame_reach s \<Longrightarrow> frame_free_frames s p n = Inr s' \<Longrightarrow> frame_reach s'"

lemma frame_new_inv: "frame_inv frame_new"
  by (simp add: frame_inv_def layout_inv_def frame_new_def is_set_def free_ppns_def free_at_def)

lemma frame_reach_inv: "frame_reach s \<Longrightarrow> frame_inv s"
proof (induction rule: frame_reach.induct)
  case new
  show ?case by (rule frame_new_inv)
next
  case (add s a b s')
  then show ?case using frame_add_region_Inr by blast
next
  case (alloc s n r s')
  then show ?case using frames.alloc_total [of s n] by auto
next
  case (free s p n s')
  then show ?case using frames.release_used by blast
qed

section \<open>Properties\<close>

text \<open>
  Allocators over one region of twelve frames at address 0, with a given bitmap word,
  hint and free count, used by the witnesses.
\<close>

definition twelve :: "u64 \<Rightarrow> usize \<Rightarrow> usize \<Rightarrow> frame_allocator" where
  "twelve bits hint cnt = \<lparr>regions = (\<lambda>_. EMPTY_REGION)(0 :=
       \<lparr>start_ppn = 0, r_frames = 12, bitmap_base = 0, next_hint = hint\<rparr>),
     region_count = 1, tracked_frames = 12, free_count = cnt, allocated = (\<lambda>_. 0)(0 := bits)\<rparr>"

lemma twelve_add: "frame_add_region frame_new 0 49152 = Inr (twelve 0 0 12)"
  by (simp add: frame_add_region_def frame_new_def twelve_def saturating_add_def
      usize_not_def USIZE_LIM_def usize_add_def EMPTY_REGION_def fun_eq_iff)

lemma twelve_reach: "frame_reach (twelve 0 0 12)"
  by (rule frame_reach.add [OF frame_reach.new _ _ twelve_add])
    (simp_all add: USIZE_LIM_def)

lemma next_power_of_two_1: "checked_next_power_of_two 1 = Some 1"
  and next_power_of_two_4: "checked_next_power_of_two 4 = Some 4"
  using next_power_of_two_eqI [of 0 1] next_power_of_two_eqI [of 2 4] by simp_all

lemmas free_run_loop_numeral =
  free_run_loop.simps(2) [where n = "pred_numeral v" for v, folded numeral_eq_Suc]

lemmas frame_eval = twelve_def frame_alloc_frames_def find_free_run_def
  align_ppn_def usize_add_def usize_sub_def usize_mul_def usize_not_def USIZE_LIM_def
  checked_add_def checked_sub_def fbit_def mark_run_def set_hint_def Let_def
  frame_free_frames_def frame_locate_def EMPTY_REGION_def
  next_power_of_two_1 [simplified] next_power_of_two_4 free_run_loop_numeral upt_rec_numeral upt_conv_Cons


lemma twelve_runs:
  "frame_alloc_frames (twelve 0 0 12) 1 = Inr (Some 0, twelve 1 1 11)"
  "frame_alloc_frames (twelve 1 1 11) 1 = Inr (Some 0x1000, twelve 3 2 10)"
  "frame_alloc_frames (twelve 3 2 10) 1 = Inr (Some 0x2000, twelve 7 3 9)"
  "frame_alloc_frames (twelve 7 3 9) 4 = Inr (Some 0x4000, twelve 0xF7 8 5)"
  "frame_free_frames (twelve 0xF7 8 5) 0 1 = Inr (twelve 0xF6 0 6)"
  "frame_free_frames (twelve 0xF6 0 6) 0x1000 1 = Inr (twelve 0xF4 0 7)"
  "frame_alloc_frames (twelve 0xF4 0 7) 4 = Inr (Some 0x8000, twelve 0xFF4 12 3)"
  "frame_free_frames (twelve 0xFF4 12 3) 0x2000 1 = Inr (twelve 0xFF0 2 4)"
  "frame_alloc_frames (twelve 0xFF0 2 4) 4 = Inr (None, twelve 0xFF0 2 4)"
  by (simp_all add: frame_eval) (simp add: numeral_2_eq_2)


lemma twelve_reach_7: "frame_reach (twelve 7 3 9)"
  by (rule frame_reach.alloc [OF frame_reach.alloc [OF frame_reach.alloc [OF twelve_reach
    twelve_runs(1)] twelve_runs(2)] twelve_runs(3)])

lemma twelve_reach_FF4: "frame_reach (twelve 0xFF4 12 3)"
  by (rule frame_reach.alloc [OF frame_reach.free [OF frame_reach.free [OF frame_reach.alloc
    [OF twelve_reach_7 twelve_runs(4)] twelve_runs(5)] twelve_runs(6)] twelve_runs(7)])

lemma twelve_straddle_reach: "frame_reach (twelve 0xFF0 2 4)"
  by (rule frame_reach.free [OF twelve_reach_FF4 twelve_runs(8)])

text \<open>
  C1: every allocator reachable from \<open>new\<close> by registering regions, allocating and freeing
  has disjoint regions with disjoint bitmap ranges inside the fixed metadata arrays, no
  stray bits, and a free counter that equals the number of free frames.
\<close>

theorem frame_reachable_inv:
  assumes "frame_reach s"
  shows "frame_inv s \<and> frame_available_frames s = card (free_ppns s)
    \<and> free_ppns s \<subseteq> managed_ppns s"
  using frame_reach_inv [OF assms] free_ppns_subset [of s]
  by (simp add: frame_inv_def frame_available_frames_def)

theorem frame_reachable_inv_witness:
  "frame_reach (twelve 0 0 12) \<and> frame_inv (twelve 0 0 12)
   \<and> card (free_ppns (twelve 0 0 12)) = 12"
  using frame_reachable_inv [OF twelve_reach] twelve_reach
  by (simp add: frame_available_frames_def twelve_def)

text \<open>
  C2: in every reachable allocator \<open>alloc_frames\<close> returns without a fault.  A returned
  address is aligned to the power-of-two extent, the extent covers the request, was free,
  and exactly it leaves the free set; without an answer the allocator is unchanged and no
  region has a free aligned run on either side of its hint.
\<close>

theorem frame_alloc_correct:
  assumes "frame_reach s"
  shows "\<exists>r s'. frame_alloc_frames s count = Inr (r, s') \<and>
    (case r of
       Some phys \<Rightarrow> (\<exists>fr. checked_next_power_of_two count = Some fr \<and> count \<le> fr
          \<and> fr * PAGE_SIZE dvd phys
          \<and> frame_extent phys count = {phys div PAGE_SIZE..<phys div PAGE_SIZE + fr}
          \<and> frame_extent phys count \<subseteq> free_ppns s
          \<and> free_ppns s' = free_ppns s - frame_extent phys count
          \<and> free_count s' = free_count s - fr)
     | None \<Rightarrow> s' = s \<and> (\<forall>fr. count \<noteq> 0 \<and> checked_next_power_of_two count = Some fr \<longrightarrow>
          (\<forall>ri < region_count s. exhausted s fr ri)))"
proof -
  have inv: "frame_inv s" using assms by (rule frame_reach_inv)
  obtain r s' where r: "frame_alloc_frames s count = Inr (r, s')"
    using frames.alloc_total [OF inv] by blast
  show ?thesis
  proof (cases r)
    case None
    have "s' = s" using frames.alloc_None [OF inv] r None by blast
    moreover have "exhausted s fr ri"
      if "count \<noteq> 0" "checked_next_power_of_two count = Some fr" "ri < region_count s" for fr ri
      using inv that(1,2) by (cases rule: frame_alloc_cases) (use r None that(3) in auto)
    ultimately show ?thesis using r None by auto
  next
    case (Some phys)
    note a = frames.alloc_Some [OF inv r [unfolded Some]]
    obtain fr where fr: "checked_next_power_of_two count = Some fr" "fr * PAGE_SIZE dvd phys"
      using frames.alloc_aligned [OF inv r [unfolded Some]] by blast
    have ext: "frame_extent phys count = {phys div PAGE_SIZE..<phys div PAGE_SIZE + fr}"
      using fr(1) by (simp add: frame_extent_def)
    have "count \<le> fr" using fr(1) by (rule next_power_of_two_Some)
    moreover have "free_count s' = free_count s - fr"
      using a inv ext card_Diff_subset [of "frame_extent phys count" "free_ppns s"]
      by (simp add: frame_inv_def)
    ultimately show ?thesis using r Some a fr ext by (auto simp del: PAGE_SIZE_def)
  qed
qed

theorem frame_alloc_correct_witness:
  "frame_reach (twelve 7 3 9) \<and>
   frame_alloc_frames (twelve 7 3 9) 4 = Inr (Some 0x4000, twelve 0xF7 8 5) \<and>
   frame_extent 0x4000 4 = {4..<8} \<and> frame_extent 0x4000 4 \<subseteq> free_ppns (twelve 7 3 9)"
  using frame_alloc_correct [OF twelve_reach_7, of 4] twelve_reach_7
  by (auto simp: twelve_runs(4) next_power_of_two_4)

text \<open>
  C3: freeing what was just allocated succeeds and restores the set and the number of
  free frames.
\<close>

theorem frame_alloc_free_roundtrip:
  assumes "frame_reach s" and "frame_alloc_frames s count = Inr (Some phys, s1)"
  shows "\<exists>s2. frame_free_frames s1 phys count = Inr s2 \<and> frame_reach s2
    \<and> free_ppns s2 = free_ppns s \<and> frame_available_frames s2 = frame_available_frames s"
proof -
  have inv: "frame_inv s" using assms(1) by (rule frame_reach_inv)
  obtain s2 where s2: "frame_free_frames s1 phys count = Inr s2" "frame_inv s2"
      "free_ppns s2 = free_ppns s"
    using frames.alloc_release [OF inv assms(2)] by blast
  have "frame_reach s2"
    using assms s2(1) by (blast intro: frame_reach.alloc frame_reach.free)
  with s2 inv show ?thesis by (simp add: frame_inv_def frame_available_frames_def)
qed

theorem frame_alloc_free_roundtrip_witness:
  "\<exists>s2. frame_free_frames (twelve 1 1 11) 0 1 = Inr s2
     \<and> free_ppns s2 = free_ppns (twelve 0 0 12) \<and> frame_available_frames s2 = 12"
  using frame_alloc_free_roundtrip [OF twelve_reach twelve_runs(1)]
  by (auto simp: frame_available_frames_def twelve_def)

text \<open>
  No frame is handed out twice and no extent is freed twice: two allocations in a row
  reserve disjoint extents, and releasing an extent a second time panics.
\<close>

lemma frame_no_double_use:
  assumes "frame_reach s"
  shows "(\<forall>p n s1 q m s2. frame_alloc_frames s n = Inr (Some p, s1) \<and>
            frame_alloc_frames s1 m = Inr (Some q, s2) \<longrightarrow>
            frame_extent p n \<inter> frame_extent q m = {})
       \<and> (\<forall>p n s1. frame_free_frames s p n = Inr s1 \<longrightarrow> (\<exists>e. frame_free_frames s1 p n = Inl e))"
  using frames.alloc_alloc_disjoint frames.double_release frame_reach_inv [OF assms] by blast

lemma frame_no_double_use_witness:
  "frame_reach (twelve 0xFF0 2 4) \<and> frame_extent 0 1 \<inter> frame_extent 0x1000 1 = {}
   \<and> (\<exists>e. frame_free_frames (twelve 0xFF0 2 4) 0x2000 1 = Inl e)"
  using frame_no_double_use [OF twelve_reach_FF4] frame_no_double_use [OF twelve_reach]
    twelve_runs(1,2,8) twelve_straddle_reach by blast

text \<open>
  Allocation is incomplete.  A reachable allocator has four free frames in an aligned
  run, yet \<open>alloc_frames(4)\<close> answers \<open>None\<close>: the run straddles the hint, so
  neither the search from the hint nor the search below it looks at it.
\<close>

lemma frame_alloc_misses_straddling_run:
  "\<exists>s. frame_reach s \<and> free_run s 0 0 (r_frames (regions s 0)) 4 0 \<and> 0 < region_count s
     \<and> frame_alloc_frames s 4 = Inr (None, s)"
proof (intro exI conjI)
  show "frame_reach (twelve 0xFF0 2 4)" by (rule twelve_straddle_reach)
  show "frame_alloc_frames (twelve 0xFF0 2 4) 4 = Inr (None, twelve 0xFF0 2 4)"
    by (rule twelve_runs)
  have "\<not> bit (0xFF0 :: u64) j" if "j < 4" for j
  proof -
    have "j = 0 \<or> j = 1 \<or> j = 2 \<or> j = 3" using that by linarith
    then show ?thesis by (elim disjE) simp_all
  qed
  then show "free_run (twelve 0xFF0 2 4) 0 0 (r_frames (regions (twelve 0xFF0 2 4) 0)) 4 0"
    by (simp add: free_run_def twelve_def is_set_def)
qed (simp add: twelve_def)

end
