(* ===== verification/Kor_Regions.thy ===== *)
theory Kor_Regions
  imports Kor_Frame
begin

text \<open>
  The boot-time region collector and \<open>clip_region\<close>, \<^verbatim>\<open>kor/src/regions.rs\<close>.  The
  fixed array is a function from indices with a live prefix of \<open>rc_num\<close> entries;
  \<open>live\<close> abstracts it to a list, and \<open>add_list\<close> is the list-level account of
  \<open>RegionCollector::add\<close> the array code refines.  \<open>cover\<close> is the set of addresses
  a list of regions describes.
\<close>

section \<open>State and operations\<close>

definition MAX_COLLECTED :: usize where [simp]: "MAX_COLLECTED = 32"

record mem_region =
  rg_start :: usize
  rg_end :: usize

record region_collector =
  rc_regions :: "usize \<Rightarrow> mem_region"
  rc_num :: usize

definition collector_new :: region_collector where
  "collector_new = \<lparr>rc_regions = (\<lambda>_. \<lparr>rg_start = 0, rg_end = 0\<rparr>), rc_num = 0\<rparr>"

text \<open>\<^verbatim>\<open>slice::copy_within(a..b, dest)\<close>.\<close>

definition copy_within :: "(usize \<Rightarrow> 'a) \<Rightarrow> usize \<Rightarrow> usize \<Rightarrow> usize \<Rightarrow> (usize \<Rightarrow> 'a)" where
  "copy_within f a b dest = (\<lambda>k. if dest \<le> k \<and> k < dest + (b - a) then f (k - dest + a) else f k)"

definition set_end :: "region_collector \<Rightarrow> usize \<Rightarrow> usize \<Rightarrow> region_collector" where
  "set_end rc i e = rc\<lparr>rc_regions := (rc_regions rc)(i := (rc_regions rc i)\<lparr>rg_end := e\<rparr>)\<rparr>"

definition collector_insert ::
  "region_collector \<Rightarrow> usize \<Rightarrow> mem_region \<Rightarrow> fault + region_collector" where
  "collector_insert rc idx r =
     bnd (assert_that (rc_num rc < MAX_COLLECTED) ''RegionCollector OOM'') (\<lambda>_.
     Inr (rc\<lparr>rc_regions := (copy_within (rc_regions rc) idx (rc_num rc) (idx + 1))(idx := r),
             rc_num := rc_num rc + 1\<rparr>))"

definition collector_try_merge :: "region_collector \<Rightarrow> usize \<Rightarrow> region_collector" where
  "collector_try_merge rc i =
     (if i + 1 < rc_num rc \<and> rg_end (rc_regions rc i) \<ge> rg_start (rc_regions rc (i + 1))
      then let rc1 = (if rg_end (rc_regions rc (i + 1)) > rg_end (rc_regions rc i)
                      then set_end rc i (rg_end (rc_regions rc (i + 1))) else rc) in
           rc1\<lparr>rc_regions := copy_within (rc_regions rc1) (i + 2) (rc_num rc1) (i + 1),
               rc_num := rc_num rc1 - 1\<rparr>
      else rc)"

text \<open>The scan of \<open>add\<close>: \<open>Inl\<close> is the early return, \<open>Inr\<close> the index it stops at.\<close>

function add_scan ::
  "region_collector \<Rightarrow> mem_region \<Rightarrow> usize \<Rightarrow> region_collector + usize" where
  "add_scan rc new i =
     (if i < rc_num rc then
        if rg_start (rc_regions rc i) < rg_start new then
          if rg_end (rc_regions rc i) \<ge> rg_start new then
            Inl (if rg_end new > rg_end (rc_regions rc i)
                 then collector_try_merge (set_end rc i (rg_end new)) i else rc)
          else add_scan rc new (i + 1)
        else Inr i
      else Inr i)"
  by pat_completeness auto
termination
  by (relation "measure (\<lambda>(rc, new, i). rc_num rc - i)") auto

declare add_scan.simps [simp del]

definition collector_add ::
  "region_collector \<Rightarrow> usize \<Rightarrow> usize \<Rightarrow> fault + region_collector" where
  "collector_add rc start stop =
     (if start \<ge> stop then Inr rc
      else
        let new = \<lparr>rg_start = start, rg_end = stop\<rparr> in
        case add_scan rc new 0 of
          Inl rc' \<Rightarrow> Inr rc'
        | Inr i \<Rightarrow>
            if i > 0 \<and> rg_end (rc_regions rc (i - 1)) = rg_start new
            then Inr (collector_try_merge (set_end rc (i - 1) (rg_end new)) (i - 1))
            else collector_insert rc i new)"

text \<open>The ranges \<open>each\<close> hands to its callback, in order.\<close>

definition collector_each :: "region_collector \<Rightarrow> (usize \<times> usize) list" where
  "collector_each rc = map (\<lambda>i. (rg_start (rc_regions rc i), rg_end (rc_regions rc i))) [0..<rc_num rc]"

text \<open>The pieces \<open>clip_region\<close> hands to its callback, in order.\<close>

definition clip_region :: "usize \<Rightarrow> usize \<Rightarrow> usize \<Rightarrow> usize \<Rightarrow> (usize \<times> usize) list" where
  "clip_region start stop hole_start hole_end =
     (if start \<ge> stop then []
      else if hole_start \<ge> hole_end \<or> stop \<le> hole_start \<or> start \<ge> hole_end
      then [(start, stop)]
      else (if start < hole_start then [(start, hole_start)] else [])
         @ (if stop > hole_end then [(hole_end, stop)] else []))"

section \<open>The list the array holds\<close>

definition live :: "region_collector \<Rightarrow> mem_region list" where
  "live rc = map (rc_regions rc) [0..<rc_num rc]"

fun merge_head :: "mem_region list \<Rightarrow> mem_region list" where
  "merge_head (r # q # rs) =
     (if rg_end r \<ge> rg_start q then r\<lparr>rg_end := max (rg_end r) (rg_end q)\<rparr> # rs else r # q # rs)"
| "merge_head rs = rs"

fun add_list :: "mem_region list \<Rightarrow> mem_region \<Rightarrow> mem_region list" where
  "add_list [] new = [new]"
| "add_list (r # rs) new =
     (if rg_start r < rg_start new then
        if rg_end r \<ge> rg_start new then
          if rg_end new > rg_end r then merge_head (r\<lparr>rg_end := rg_end new\<rparr> # rs) else r # rs
        else r # add_list rs new
      else new # r # rs)"

lemma length_live [simp]: "length (live rc) = rc_num rc"
  by (simp add: live_def)

lemma live_nth [simp]: "i < rc_num rc \<Longrightarrow> live rc ! i = rc_regions rc i"
  by (simp add: live_def)

lemma live_drop: "i < rc_num rc \<Longrightarrow> drop i (live rc) = rc_regions rc i # drop (Suc i) (live rc)"
  by (simp add: Cons_nth_drop_Suc [symmetric])

lemma live_set_end:
  "i < rc_num rc \<Longrightarrow> live (set_end rc i e) = (live rc)[i := (rc_regions rc i)\<lparr>rg_end := e\<rparr>]"
  by (rule nth_equalityI) (simp_all add: set_end_def live_def nth_list_update)

lemma set_end_num [simp]: "rc_num (set_end rc i e) = rc_num rc"
  by (simp add: set_end_def)

lemma set_end_regions [simp]:
  "rc_regions (set_end rc i e) k = (if k = i then (rc_regions rc i)\<lparr>rg_end := e\<rparr> else rc_regions rc k)"
  by (simp add: set_end_def)

lemma live_insert:
  assumes "rc_num rc < MAX_COLLECTED" "i \<le> rc_num rc"
  shows "\<exists>rc'. collector_insert rc i r = Inr rc'
    \<and> live rc' = take i (live rc) @ r # drop i (live rc)"
proof -
  let ?rc = "rc\<lparr>rc_regions := (copy_within (rc_regions rc) i (rc_num rc) (i + 1))(i := r),
             rc_num := rc_num rc + 1\<rparr>"
  have "live ?rc = take i (live rc) @ r # drop i (live rc)"
  proof (rule nth_equalityI)
    show "length (live ?rc) = length (take i (live rc) @ r # drop i (live rc))"
      using assms(2) by (simp add: min_def)
  next
    fix k assume k: "k < length (live ?rc)"
    then have "live ?rc ! k = rc_regions ?rc k" by (intro live_nth) simp
    then show "live ?rc ! k = (take i (live rc) @ r # drop i (live rc)) ! k"
      using assms(2) k
      by (cases "k < i"; cases "k = i") (auto simp: nth_append nth_Cons' copy_within_def min_def)
  qed
  then show ?thesis using assms(1) by (simp add: collector_insert_def)
qed

lemma live_try_merge:
  assumes "i < rc_num rc"
  shows "live (collector_try_merge rc i) = take i (live rc) @ merge_head (drop i (live rc))"
proof (cases "i + 1 < rc_num rc \<and> rg_end (rc_regions rc i) \<ge> rg_start (rc_regions rc (i + 1))")
  case False
  have "merge_head (drop i (live rc)) = drop i (live rc)"
    using False assms by (cases "Suc i < rc_num rc") (auto simp: live_drop [of i] live_drop [of "Suc i"])
  moreover have "collector_try_merge rc i = rc"
    unfolding collector_try_merge_def using False by (rule if_not_P)
  ultimately show ?thesis by simp
next
  case True
  let ?r = "(rc_regions rc i)\<lparr>rg_end := max (rg_end (rc_regions rc i)) (rg_end (rc_regions rc (i + 1)))\<rparr>"
  have eq: "(rc_regions rc i)\<lparr>rg_end := rg_end (rc_regions rc i)\<rparr> = rc_regions rc i" by simp
  let ?rc' = "collector_try_merge rc i"
  have mh: "merge_head (drop i (live rc)) = ?r # drop (i + 2) (live rc)"
    using True by (simp add: live_drop [of i] live_drop [of "Suc i"])
  have num: "rc_num ?rc' = rc_num rc - 1"
    using True by (simp add: collector_try_merge_def Let_def)
  have reg: "rc_regions ?rc' k = (if k = i then ?r else if i < k then rc_regions rc (k + 1)
     else rc_regions rc k)" if "k < rc_num rc - 1" for k
    using True that
    by (auto simp: collector_try_merge_def Let_def copy_within_def max_def not_less)
  show ?thesis unfolding mh
  proof (rule nth_equalityI)
    show "length (live ?rc') = length (take i (live rc) @ ?r # drop (i + 2) (live rc))"
      using conjunct1 [OF True] num by (simp add: min_def)
  next
    fix k assume "k < length (live ?rc')"
    then have k: "k < rc_num rc - 1" using num by simp
    then have "live ?rc' ! k = rc_regions ?rc' k" using num by (intro live_nth) simp
    then show "live ?rc' ! k = (take i (live rc) @ ?r # drop (i + 2) (live rc)) ! k"
      using k True reg [OF k]
      by (cases "k < i"; cases "k = i") (auto simp: nth_append nth_Cons' min_def)
  qed
qed

section \<open>The array code refines the list code\<close>

lemma add_scan_refines:
  assumes "i \<le> rc_num rc"
  shows "case add_scan rc new i of
      Inl rc' \<Rightarrow> live rc' = take i (live rc) @ add_list (drop i (live rc)) new
    | Inr j \<Rightarrow> i \<le> j \<and> j \<le> rc_num rc
        \<and> take i (live rc) @ add_list (drop i (live rc)) new = take j (live rc) @ new # drop j (live rc)
        \<and> (\<forall>k. i \<le> k \<and> k < j \<longrightarrow> rg_end (rc_regions rc k) < rg_start new)"
  using assms
proof (induction rc new i rule: add_scan.induct)
  case (1 rc new i)
  let ?r = "rc_regions rc i"
  consider (fin) "\<not> i < rc_num rc" | (stop) "i < rc_num rc" "\<not> rg_start ?r < rg_start new"
    | (hit) "i < rc_num rc" "rg_start ?r < rg_start new" "rg_start new \<le> rg_end ?r"
    | (go) "i < rc_num rc" "rg_start ?r < rg_start new" "\<not> rg_start new \<le> rg_end ?r"
    by blast
  then show ?case
  proof cases
    case fin
    then show ?thesis using 1(2) by (subst add_scan.simps) simp
  next
    case stop
    then show ?thesis by (subst add_scan.simps) (simp add: live_drop [of i])
  next
    case hit
    then have "live (collector_try_merge (set_end rc i (rg_end new)) i)
        = take i (live rc) @ merge_head (?r\<lparr>rg_end := rg_end new\<rparr> # drop (Suc i) (live rc))"
      by (simp add: live_try_merge live_set_end drop_update_cancel live_drop
            Cons_nth_drop_Suc [symmetric])
    moreover have "live rc = take i (live rc) @ ?r # drop (Suc i) (live rc)"
      using hit(1) by (metis append_take_drop_id live_drop)
    ultimately show ?thesis
      using hit by (subst add_scan.simps) (simp add: live_drop [of i])
  next
    case go
    have tk: "take (Suc i) (live rc) = take i (live rc) @ [?r]"
      using go(1) by (simp add: take_Suc_conv_app_nth)
    have eq: "add_scan rc new i = add_scan rc new (Suc i)"
      using go by (subst add_scan.simps) simp
    have al: "take i (live rc) @ add_list (drop i (live rc)) new
        = take (Suc i) (live rc) @ add_list (drop (Suc i) (live rc)) new"
      using go tk by (simp add: live_drop [of i])
    have k: "(\<forall>k. i \<le> k \<and> k < j \<longrightarrow> rg_end (rc_regions rc k) < rg_start new) \<longleftrightarrow>
      (\<forall>k. Suc i \<le> k \<and> k < j \<longrightarrow> rg_end (rc_regions rc k) < rg_start new)" for j
      using go by (metis Suc_leI le_neq_implies_less not_less Suc_leD)
    have "case add_scan rc new (i + 1) of
      Inl rc' \<Rightarrow> live rc' = take (i + 1) (live rc) @ add_list (drop (i + 1) (live rc)) new
    | Inr j \<Rightarrow> i + 1 \<le> j \<and> j \<le> rc_num rc
        \<and> take (i + 1) (live rc) @ add_list (drop (i + 1) (live rc)) new
            = take j (live rc) @ new # drop j (live rc)
        \<and> (\<forall>k. i + 1 \<le> k \<and> k < j \<longrightarrow> rg_end (rc_regions rc k) < rg_start new)"
      using go by (intro 1(1)) simp_all
    then show ?thesis unfolding eq al k by (simp split: sum.splits)
  qed
qed

lemma collector_add_refines:
  assumes "start < stop" "rc_num rc \<le> MAX_COLLECTED"
  shows "(\<exists>rc'. collector_add rc start stop = Inr rc'
             \<and> live rc' = add_list (live rc) \<lparr>rg_start = start, rg_end = stop\<rparr>)
    \<or> collector_add rc start stop = Inl (Panic ''RegionCollector OOM'') \<and> rc_num rc = MAX_COLLECTED"
proof -
  let ?new = "\<lparr>rg_start = start, rg_end = stop\<rparr>"
  note s = add_scan_refines [of 0 rc ?new, simplified]
  show ?thesis
  proof (cases "add_scan rc ?new 0")
    case (Inl rc')
    then show ?thesis using s assms by (simp add: collector_add_def)
  next
    case (Inr j)
    then have j: "j \<le> rc_num rc" "add_list (live rc) ?new = take j (live rc) @ ?new # drop j (live rc)"
      and lt: "\<And>k. k < j \<Longrightarrow> rg_end (rc_regions rc k) < start"
      using s by simp_all
    have "collector_add rc start stop = collector_insert rc j ?new"
      using assms Inr lt [of "j - 1"] by (auto simp: collector_add_def Let_def)
    then show ?thesis
      using live_insert [of rc j ?new] j assms(2)
      by (cases "rc_num rc < MAX_COLLECTED") (auto simp: collector_insert_def simp del: MAX_COLLECTED_def)
  qed
qed

lemma try_merge_num: "rc_num (collector_try_merge rc i) \<le> rc_num rc"
  by (simp add: collector_try_merge_def Let_def)

lemma add_scan_num: "add_scan rc new i = Inl rc' \<Longrightarrow> rc_num rc' \<le> rc_num rc"
proof (induction rc new i rule: add_scan.induct)
  case (1 rc new i)
  then show ?case
    using try_merge_num [of "set_end rc i (rg_end new)" i]
    by (subst (asm) (2) add_scan.simps) (auto split: if_splits)
qed

lemma collector_add_num:
  assumes "rc_num rc \<le> MAX_COLLECTED" "collector_add rc start stop = Inr rc'"
  shows "rc_num rc' \<le> MAX_COLLECTED \<and> rc_num rc' \<le> Suc (rc_num rc)"
proof -
  let ?new = "\<lparr>rg_start = start, rg_end = stop\<rparr>"
  have tm: "rc_num (collector_try_merge (set_end rc j e) j) \<le> rc_num rc" for j e
    using try_merge_num [of "set_end rc j e" j] by simp
  show ?thesis
  proof (cases "add_scan rc ?new 0")
    case (Inl rc1)
    then show ?thesis using assms add_scan_num [OF Inl] by (auto simp: collector_add_def split: if_splits)
  next
    case (Inr j)
    then show ?thesis using assms tm [of "j - 1" stop]
      by (auto simp: collector_add_def collector_insert_def run_simps Let_def split: if_splits)
  qed
qed

section \<open>What the list describes\<close>

definition rg_set :: "mem_region \<Rightarrow> nat set" where
  "rg_set r = {rg_start r..<rg_end r}"

definition cover :: "mem_region list \<Rightarrow> nat set" where
  "cover rs = (\<Union>r \<in> set rs. rg_set r)"

definition regions_sorted :: "mem_region list \<Rightarrow> bool" where
  "regions_sorted rs \<longleftrightarrow> sorted (map rg_start rs) \<and> (\<forall>r \<in> set rs. rg_start r < rg_end r)"

fun regions_apart :: "mem_region list \<Rightarrow> bool" where
  "regions_apart [] = True"
| "regions_apart (r # rs) \<longleftrightarrow>
     rg_start r < rg_end r \<and> (\<forall>q \<in> set rs. rg_end r \<le> rg_start q) \<and> regions_apart rs"

definition collector_inv :: "region_collector \<Rightarrow> bool" where
  "collector_inv rc \<longleftrightarrow> rc_num rc \<le> MAX_COLLECTED \<and> regions_sorted (live rc)"

lemma cover_Cons [simp]: "cover (r # rs) = rg_set r \<union> cover rs" "cover [] = {}"
  by (simp_all add: cover_def)

lemma regions_sorted_Cons [simp]:
  "regions_sorted (r # rs) \<longleftrightarrow>
     rg_start r < rg_end r \<and> (\<forall>q \<in> set rs. rg_start r \<le> rg_start q) \<and> regions_sorted rs"
  "regions_sorted []"
  by (auto simp: regions_sorted_def)

lemma merge_head_cover:
  assumes "regions_sorted (r # rs)"
  shows "cover (merge_head (r # rs)) = cover (r # rs)"
  using assms by (cases rs) (auto simp: rg_set_def max_def)

lemma merge_head_sorted:
  assumes "regions_sorted (r # rs)"
  shows "regions_sorted (merge_head (r # rs))"
    and "\<forall>q \<in> set (merge_head (r # rs)). rg_start r \<le> rg_start q"
  using assms by (cases rs; auto simp: max_def)+

lemma add_list_cover:
  assumes "regions_sorted rs"
  shows "cover (add_list rs new) = cover rs \<union> rg_set new"
  using assms
proof (induction rs)
  case (Cons r rs)
  show ?case
  proof (cases "rg_start r < rg_start new \<and> rg_start new \<le> rg_end r \<and> rg_end r < rg_end new")
    case True
    have "cover (merge_head (r\<lparr>rg_end := rg_end new\<rparr> # rs)) = cover (r\<lparr>rg_end := rg_end new\<rparr> # rs)"
      using Cons.prems True by (intro merge_head_cover) auto
    moreover have "rg_set (r\<lparr>rg_end := rg_end new\<rparr>) = rg_set r \<union> rg_set new"
      using True by (auto simp: rg_set_def)
    moreover have "add_list (r # rs) new = merge_head (r\<lparr>rg_end := rg_end new\<rparr> # rs)"
      using True by simp
    ultimately show ?thesis by (simp only: cover_Cons Un_ac)
  next
    case False
    moreover have "rg_set new \<subseteq> rg_set r"
      if "rg_start r < rg_start new" "rg_end new \<le> rg_end r"
      using that by (auto simp: rg_set_def)
    ultimately show ?thesis using Cons by auto
  qed
qed simp

lemma merge_head_starts:
  "rg_start ` set (merge_head (r # rs)) \<subseteq> insert (rg_start r) (rg_start ` set rs)"
  by (cases rs) auto

lemma add_list_starts:
  "rg_start ` set (add_list rs new) \<subseteq> insert (rg_start new) (rg_start ` set rs)"
proof (induction rs)
  case (Cons r rs)
  show ?case
    using Cons merge_head_starts [of "r\<lparr>rg_end := rg_end new\<rparr>" rs] by auto
qed simp

lemma add_list_lower:
  assumes "\<forall>q \<in> set rs. b \<le> rg_start q" "b \<le> rg_start new"
  shows "\<forall>q \<in> set (add_list rs new). b \<le> rg_start q"
  using add_list_starts [of rs new] assms by (force simp: image_subset_iff)

lemma add_list_sorted:
  assumes "regions_sorted rs" "rg_start new < rg_end new"
  shows "regions_sorted (add_list rs new)"
  using assms(1)
proof (induction rs)
  case Nil
  then show ?case using assms(2) by simp
next
  case (Cons r rs)
  consider (stop) "rg_start new \<le> rg_start r" | (keep) "add_list (r # rs) new = r # rs"
    | (ext) "rg_start r < rg_start new" "rg_start new \<le> rg_end r" "rg_end r < rg_end new"
    | (go) "rg_start r < rg_start new" "rg_end r < rg_start new" by force
  then show ?case
  proof cases
    case stop
    then have "add_list (r # rs) new = new # r # rs" by simp
    moreover have "\<forall>q \<in> set rs. rg_start new \<le> rg_start q" using stop Cons.prems by fastforce
    ultimately show ?thesis using stop Cons.prems assms(2) by simp
  next
    case keep
    then show ?thesis using Cons.prems by simp
  next
    case ext
    have "regions_sorted (r\<lparr>rg_end := rg_end new\<rparr> # rs)" using Cons.prems ext by simp
    from merge_head_sorted(1) [OF this] show ?thesis using ext by simp
  next
    case go
    have "\<forall>q \<in> set (add_list rs new). rg_start r \<le> rg_start q"
      using go Cons.prems by (intro add_list_lower) simp_all
    then show ?thesis using go Cons by simp
  qed
qed

lemma regions_apart_sorted: "regions_apart rs \<Longrightarrow> regions_sorted rs"
  by (induction rs) fastforce+

lemma merge_head_apart:
  assumes "regions_apart (r # rs)"
  shows "regions_apart (merge_head (r # rs))"
  using assms by (cases rs) (auto simp: max_def)

lemma add_list_apart:
  assumes "regions_apart rs" "rg_start new < rg_end new" "rg_set new \<inter> cover rs = {}"
  shows "regions_apart (add_list rs new)"
  using assms(1,3)
proof (induction rs)
  case Nil
  then show ?case using assms(2) by simp
next
  case (Cons r rs)
  have r: "rg_start r < rg_end r" "rg_set new \<inter> rg_set r = {}" and rs: "rg_set new \<inter> cover rs = {}"
    using Cons.prems by auto
  have *: "rg_end new \<le> rg_start q" if "q \<in> set rs" "rg_start new \<le> rg_start q" for q
  proof (rule ccontr)
    assume "\<not> rg_end new \<le> rg_start q"
    then have "rg_start q \<in> rg_set new" using that by (simp add: rg_set_def)
    moreover have "rg_start q < rg_end q"
      using regions_apart_sorted [OF Cons.prems(1)] that(1) by (simp add: regions_sorted_def)
    then have "rg_start q \<in> cover rs" using that(1) by (auto simp: cover_def rg_set_def)
    ultimately show False using rs by blast
  qed
  consider (stop) "rg_start new \<le> rg_start r" | (touch) "rg_start r < rg_start new" "rg_start new \<le> rg_end r"
    | (go) "rg_start r < rg_start new" "rg_end r < rg_start new" by linarith
  then show ?case
  proof cases
    case stop
    have "rg_end new \<le> rg_start r"
    proof (rule ccontr)
      assume "\<not> rg_end new \<le> rg_start r"
      then have "rg_start r \<in> rg_set new \<inter> rg_set r" using stop r(1) by (simp add: rg_set_def)
      then show False using r(2) by simp
    qed
    then show ?thesis using stop Cons.prems(1) assms(2) by fastforce
  next
    case touch
    have eq: "rg_start new = rg_end r"
    proof (rule ccontr)
      assume "rg_start new \<noteq> rg_end r"
      then have "rg_start new \<in> rg_set new \<inter> rg_set r" using touch assms(2) by (simp add: rg_set_def)
      then show False using r(2) by simp
    qed
    then have "regions_apart (r\<lparr>rg_end := rg_end new\<rparr> # rs)"
      using Cons.prems(1) assms(2) * by auto
    from merge_head_apart [OF this] show ?thesis using touch eq assms(2) by simp
  next
    case go
    then have "\<forall>q \<in> set (add_list rs new). rg_end r \<le> rg_start q"
      using Cons.prems(1) by (intro add_list_lower) simp_all
    then show ?thesis using go Cons rs by simp
  qed
qed

section \<open>Properties\<close>

text \<open>
  C6.  \<open>RegionCollector::add\<close> keeps the live entries non-empty, sorted by start and at
  most 32; after it they describe exactly the addresses described before together with
  the new range.  Its only failure is the panic for a full array.
\<close>

theorem collector_add_correct:
  assumes "collector_inv rc" "start < stop"
  shows "case collector_add rc start stop of
      Inr rc' \<Rightarrow> collector_inv rc' \<and> cover (live rc') = cover (live rc) \<union> {start..<stop}
    | Inl f \<Rightarrow> f = Panic ''RegionCollector OOM'' \<and> rc_num rc = MAX_COLLECTED"
proof -
  from assms(1) have n: "rc_num rc \<le> MAX_COLLECTED" and so: "regions_sorted (live rc)"
    by (simp_all add: collector_inv_def)
  consider rc' where "collector_add rc start stop = Inr rc'"
      "live rc' = add_list (live rc) \<lparr>rg_start = start, rg_end = stop\<rparr>"
    | "collector_add rc start stop = Inl (Panic ''RegionCollector OOM'')" "rc_num rc = MAX_COLLECTED"
    using collector_add_refines [OF assms(2) n] by blast
  then show ?thesis
  proof cases
    case 1
    then show ?thesis
      using add_list_cover [OF so] add_list_sorted [OF so] assms(2) collector_add_num [OF n 1(1)]
      by (simp add: collector_inv_def rg_set_def)
  qed simp
qed

theorem collector_add_correct_witness:
  "case collector_add collector_new 0x1000 0x2000 of
      Inr rc' \<Rightarrow> collector_inv rc' \<and> cover (live rc') = {0x1000..<0x2000}
    | Inl f \<Rightarrow> False"
  using collector_add_correct [of collector_new "0x1000" "0x2000"]
  by (simp add: collector_inv_def collector_new_def live_def split: sum.splits)

end
