(* ===== verification/Kor_Boot.thy ===== *)
theory Kor_Boot
  imports Kor_Regions
begin

text \<open>
  Step 8 of the boot sequence, \<^verbatim>\<open>apps/koros/src/main.rs\<close> (and its twin in
  \<^verbatim>\<open>apps/korix/src/main.rs\<close>): the detected memory ranges go through the region
  collector, the kernel image (and firmware) is clipped out, and what is left feeds the
  frame allocator.  The ranges of the firmware tables, the kernel image and the firmware
  start are inputs.
\<close>

section \<open>The boot step\<close>

text \<open>\<^verbatim>\<open>usize::next_multiple_of\<close>, which wraps in a release build.\<close>

definition usize_next_multiple_of :: "usize \<Rightarrow> usize \<Rightarrow> usize" where
  "usize_next_multiple_of n m = (if n mod m = 0 then n else usize_add n (m - n mod m))"

definition boot_hole :: "usize \<times> usize \<Rightarrow> usize \<Rightarrow> usize \<times> usize" where
  "boot_hole kernel_phys_range firmware_phys_start =
     (let (ks, ke) = kernel_phys_range;
          ks = PAGE_SIZE * (ks div PAGE_SIZE);
          ke = usize_next_multiple_of ke PAGE_SIZE;
          hole_start = (if firmware_phys_start = 0 then ks else min firmware_phys_start ks) in
      (hole_start, ke))"

fun collect_regions :: "region_collector \<Rightarrow> (usize \<times> usize) list \<Rightarrow> fault + region_collector" where
  "collect_regions rc [] = Inr rc"
| "collect_regions rc ((a, b) # rs) = bnd (collector_add rc a b) (\<lambda>rc. collect_regions rc rs)"

fun feed_frames :: "frame_allocator \<Rightarrow> (usize \<times> usize) list \<Rightarrow> fault + frame_allocator" where
  "feed_frames s [] = Inr s"
| "feed_frames s ((a, b) # ps) = bnd (frame_add_region s a b) (\<lambda>s. feed_frames s ps)"

definition boot_memory ::
  "(usize \<times> usize) list \<Rightarrow> usize \<times> usize \<Rightarrow> usize \<Rightarrow> fault + frame_allocator" where
  "boot_memory detected kernel_phys_range firmware_phys_start =
     bnd (collect_regions collector_new detected) (\<lambda>collected.
     let (hole_start, ke) = boot_hole kernel_phys_range firmware_phys_start in
     feed_frames frame_new
       (concat (map (\<lambda>(a, b). clip_region a b hole_start ke) (collector_each collected))))"

section \<open>Ranges and pages\<close>

definition covered :: "(usize \<times> usize) list \<Rightarrow> nat set" where
  "covered ps = (\<Union>(a, b) \<in> set ps. {a..<b})"

definition pages_of :: "nat set \<Rightarrow> nat set" where
  "pages_of S = {p. p * 4096 \<in> S}"

definition page_ranges :: "(usize \<times> usize) list \<Rightarrow> bool" where
  "page_ranges ps \<longleftrightarrow> (\<forall>(a, b) \<in> set ps. a < b \<and> b < USIZE_LIM \<and> 4096 dvd a \<and> 4096 dvd b)"

fun pairs_apart :: "(usize \<times> usize) list \<Rightarrow> bool" where
  "pairs_apart [] = True"
| "pairs_apart ((a, b) # ps) \<longleftrightarrow> {a..<b} \<inter> covered ps = {} \<and> pairs_apart ps"

lemma span_simps [simp]:
  "covered [] = {}" "covered ((a, b) # ps) = {a..<b} \<union> covered ps" "covered (ps @ qs) = covered ps \<union> covered qs"
  by (auto simp: covered_def)

lemma page_ranges_simps [simp]:
  "page_ranges []"
  "page_ranges ((a, b) # ps) \<longleftrightarrow>
     a < b \<and> b < USIZE_LIM \<and> 4096 dvd a \<and> 4096 dvd b \<and> page_ranges ps"
  "page_ranges (ps @ qs) \<longleftrightarrow> page_ranges ps \<and> page_ranges qs"
  by (auto simp: page_ranges_def)

lemma pages_of_simps [simp]:
  "pages_of {} = {}" "pages_of (A \<union> B) = pages_of A \<union> pages_of B"
  "pages_of (A - B) = pages_of A - pages_of B" "pages_of (A \<inter> B) = pages_of A \<inter> pages_of B"
  by (auto simp: pages_of_def)

lemma whole_pages_aligned:
  assumes "4096 dvd a" "4096 dvd b"
  shows "whole_pages a b = pages_of {a..<b}" and "whole_pages a b = {a div 4096..<b div 4096}"
proof -
  obtain x y where xy: "a = 4096 * x" "b = 4096 * y" using assms by (auto elim!: dvdE)
  then show "whole_pages a b = {a div 4096..<b div 4096}" by (simp add: whole_pages_def)
  then have "whole_pages a b = {x..<y}" using xy by simp
  moreover have "p \<in> pages_of {a..<b} \<longleftrightarrow> p \<in> {x..<y}" for p
    unfolding xy pages_of_def by (simp add: mult.commute [of p])
  ultimately show "whole_pages a b = pages_of {a..<b}" by blast
qed

lemma pairs_apart_append:
  "pairs_apart (ps @ qs) \<longleftrightarrow> pairs_apart ps \<and> pairs_apart qs \<and> covered ps \<inter> covered qs = {}"
  by (induction ps rule: pairs_apart.induct) auto

lemma finite_pages_span: "finite (pages_of (covered ps))"
proof -
  have "finite (covered ps)" by (auto simp: covered_def)
  moreover have "inj_on (\<lambda>p::nat. p * 4096) (pages_of (covered ps))" by (simp add: inj_on_def)
  ultimately show ?thesis
    by (rule_tac finite_imageD [of "\<lambda>p::nat. p * 4096"])
       (auto simp: pages_of_def intro: finite_subset [of _ "covered ps"])
qed

section \<open>Feeding the frame allocator\<close>

lemma frame_add_region_ok:
  assumes inv: "frame_inv s" and ab: "a < b" "b < USIZE_LIM" "4096 dvd a" "4096 dvd b"
    and room: "region_count s < MAX_REGIONS" "tracked_frames s + (b - a) div 4096 \<le> MAX_TRACKED_FRAMES"
    and dis: "whole_pages a b \<inter> managed_ppns s = {}"
  shows "\<exists>s'. frame_add_region s a b = Inr s' \<and> region_count s' = Suc (region_count s)
    \<and> tracked_frames s' = tracked_frames s + (b - a) div 4096"
proof -
  obtain x y where xy: "a = 4096 * x" "b = 4096 * y" using ab(3,4) by (auto elim!: dvdE)
  have aL: "a < USIZE_LIM" using ab by simp
  have l: "layout_inv s" using inv by (simp add: frame_inv_def)
  have x: "min (a + 4095) (USIZE_LIM - 1) div 4096 = x"
    using xy ab(1,2) by (simp add: USIZE_LIM_def min_def)
  have y: "y \<le> 2 ^ 52" "x < y" using xy ab by (simp_all add: USIZE_LIM_def)
  have eqs: "(y * 4096 - x * 4096) div 4096 = y - x" "(b - a) div 4096 = y - x"
    using xy by (simp_all flip: diff_mult_distrib diff_mult_distrib2)
  have ri: "saturating_add a (PAGE_SIZE - 1) AND usize_not (PAGE_SIZE - 1) = x * 4096"
    "b AND usize_not (PAGE_SIZE - 1) = y * 4096"
    using round_inward [OF aL ab(2)] x xy by simp_all
  have small: "usize_add (tracked_frames s) (y - x) = tracked_frames s + (y - x)"
    "usize_add x (y - x) = y" "usize_add (region_count s) 1 = Suc (region_count s)"
    using room eqs y by (simp_all add: usize_add_eq USIZE_LIM_def)
  have wp: "whole_pages a b = {x..<y}" using whole_pages_aligned(2) [OF ab(3,4)] xy by simp
  have "y \<le> start_ppn (regions s i) \<or> usize_add (start_ppn (regions s i)) (r_frames (regions s i)) \<le> x"
    if "i < region_count s" for i
  proof -
    note r = layout_region(1,2) [OF l that]
    have "usize_add (start_ppn (regions s i)) (r_frames (regions s i))
        = start_ppn (regions s i) + r_frames (regions s i)"
      using r by (simp add: usize_add_eq USIZE_LIM_def)
    moreover have "region_ppns s i \<inter> {x..<y} = {}"
      using dis that wp by (auto simp: managed_ppns_def)
    then have "y \<le> start_ppn (regions s i) \<or> start_ppn (regions s i) + r_frames (regions s i) \<le> x"
      using r(1) y(2) by (simp add: region_ppns_def) linarith
    ultimately show ?thesis by simp
  qed
  then show ?thesis
    using room eqs small y unfolding frame_add_region_def ri
    by (simp add: Let_def list_all_iff del: MAX_REGIONS_def MAX_TRACKED_FRAMES_def)
qed

lemma feed_frames_ok:
  assumes "frame_reach s" "tracked_frames s = card (managed_ppns s)" "finite (managed_ppns s)"
    and "region_count s + length ps \<le> MAX_REGIONS" "page_ranges ps" "pairs_apart ps"
    and "pages_of (covered ps) \<inter> managed_ppns s = {}"
    and "card (managed_ppns s \<union> pages_of (covered ps)) \<le> MAX_TRACKED_FRAMES"
  shows "\<exists>s'. feed_frames s ps = Inr s' \<and> frame_reach s'
    \<and> free_ppns s' = free_ppns s \<union> pages_of (covered ps)"
  using assms
proof (induction ps arbitrary: s)
  case Nil
  then show ?case by simp
next
  case (Cons p ps)
  obtain a b where p: "p = (a, b)" by force
  have inv: "frame_inv s" using Cons.prems(1) by (rule frame_reach_inv)
  have ab: "a < b" "b < USIZE_LIM" "4096 dvd a" "4096 dvd b" "page_ranges ps"
    using Cons.prems(5) p by simp_all
  note wp = whole_pages_aligned [OF ab(3,4)]
  have wd: "whole_pages a b \<inter> managed_ppns s = {}" using Cons.prems(7) p wp(1) by auto
  have cw: "card (whole_pages a b) = (b - a) div 4096"
    using ab unfolding wp(2) by (auto elim!: dvdE simp flip: diff_mult_distrib2)
  have c: "card (managed_ppns s \<union> whole_pages a b) = tracked_frames s + (b - a) div 4096"
    using Cons.prems(2,3) wd cw by (subst card_Un_disjoint) (auto simp: wp(2))
  have "card (managed_ppns s \<union> whole_pages a b) \<le> card (managed_ppns s \<union> pages_of (covered (p # ps)))"
    using Cons.prems(3) finite_pages_span [of "p # ps"] p wp(1) by (intro card_mono) auto
  then have room: "tracked_frames s + (b - a) div 4096 \<le> MAX_TRACKED_FRAMES"
    using Cons.prems(8) c by linarith
  have "region_count s < MAX_REGIONS" using Cons.prems(4) by simp
  from frame_add_region_ok [OF inv ab(1-4) this room wd] obtain s1
    where s1: "frame_add_region s a b = Inr s1" "region_count s1 = Suc (region_count s)"
      "tracked_frames s1 = tracked_frames s + (b - a) div 4096" by blast
  have eff: "managed_ppns s1 = managed_ppns s \<union> whole_pages a b"
    "free_ppns s1 = free_ppns s \<union> whole_pages a b"
    using frame_add_region_Inr [OF inv _ ab(2) s1(1)] ab(1,2) by simp_all
  have "\<exists>s'. feed_frames s1 ps = Inr s' \<and> frame_reach s'
    \<and> free_ppns s' = free_ppns s1 \<union> pages_of (covered ps)"
  proof (rule Cons.IH)
    show "frame_reach s1" using frame_reach.add [OF Cons.prems(1) _ ab(2) s1(1)] ab(1,2) by simp
    show "tracked_frames s1 = card (managed_ppns s1)" using s1(3) eff(1) c by simp
    show "finite (managed_ppns s1)" using Cons.prems(3) eff(1) by (simp add: wp(2))
    show "region_count s1 + length ps \<le> MAX_REGIONS" using s1(2) Cons.prems(4) by simp
    show "page_ranges ps" by (fact ab(5))
    show "pairs_apart ps" using Cons.prems(6) p by simp
    show "pages_of (covered ps) \<inter> managed_ppns s1 = {}"
    proof -
      have "pages_of ({a..<b} \<inter> covered ps) = {}" using Cons.prems(6) p by simp
      then show ?thesis using Cons.prems(7) eff(1) wp(1) p by auto
    qed
    show "card (managed_ppns s1 \<union> pages_of (covered ps)) \<le> MAX_TRACKED_FRAMES"
      using Cons.prems(8) eff(1) wp(1) p by (simp add: Un_assoc)
  qed
  then show ?case using s1(1) eff(2) wp(1) p by (auto simp: Un_assoc)
qed

section \<open>Collecting and clipping\<close>

definition aligned_regions :: "mem_region list \<Rightarrow> bool" where
  "aligned_regions rs \<longleftrightarrow>
     (\<forall>r \<in> set rs. 4096 dvd rg_start r \<and> 4096 dvd rg_end r \<and> rg_end r < USIZE_LIM)"

lemma aligned_regions_simps [simp]:
  "aligned_regions []"
  "aligned_regions (r # rs) \<longleftrightarrow>
     4096 dvd rg_start r \<and> 4096 dvd rg_end r \<and> rg_end r < USIZE_LIM \<and> aligned_regions rs"
  by (auto simp: aligned_regions_def)

lemma merge_head_aligned: "aligned_regions (r # rs) \<Longrightarrow> aligned_regions (merge_head (r # rs))"
  by (cases rs) (auto simp: max_def)

lemma add_list_aligned:
  assumes "aligned_regions rs" "aligned_regions [new]"
  shows "aligned_regions (add_list rs new)"
  using assms
proof (induction rs)
  case (Cons r rs)
  then show ?case using merge_head_aligned [of "r\<lparr>rg_end := rg_end new\<rparr>" rs] by simp
qed simp

lemma collect_regions_ok:
  assumes "regions_apart (live rc)" "aligned_regions (live rc)"
    and "rc_num rc + length ps \<le> MAX_COLLECTED" "page_ranges ps" "pairs_apart ps"
    and "covered ps \<inter> cover (live rc) = {}"
  shows "\<exists>rc'. collect_regions rc ps = Inr rc' \<and> regions_apart (live rc')
    \<and> aligned_regions (live rc') \<and> rc_num rc' \<le> MAX_COLLECTED
    \<and> cover (live rc') = cover (live rc) \<union> covered ps"
  using assms
proof (induction ps arbitrary: rc)
  case Nil
  then show ?case by simp
next
  case (Cons p ps)
  obtain a b where p: "p = (a, b)" by force
  let ?new = "\<lparr>rg_start = a, rg_end = b\<rparr>"
  have ab: "a < b" "b < USIZE_LIM" "4096 dvd a" "4096 dvd b" "page_ranges ps"
    using Cons.prems(4) p by simp_all
  have n: "rc_num rc < MAX_COLLECTED" using Cons.prems(3) by simp
  then have n': "rc_num rc \<le> MAX_COLLECTED" by simp
  obtain rc1 where rc1: "collector_add rc a b = Inr rc1" "live rc1 = add_list (live rc) ?new"
    using collector_add_refines [OF ab(1) n'] n by auto
  have num: "rc_num rc1 \<le> Suc (rc_num rc)" using collector_add_num [OF n' rc1(1)] by simp
  have cov: "cover (live rc1) = cover (live rc) \<union> {a..<b}"
    using add_list_cover [OF regions_apart_sorted [OF Cons.prems(1)], of ?new] rc1(2)
    by (simp add: rg_set_def)
  have "\<exists>rc'. collect_regions rc1 ps = Inr rc' \<and> regions_apart (live rc')
    \<and> aligned_regions (live rc') \<and> rc_num rc' \<le> MAX_COLLECTED
    \<and> cover (live rc') = cover (live rc1) \<union> covered ps"
  proof (rule Cons.IH)
    show "regions_apart (live rc1)"
      unfolding rc1(2) using Cons.prems(1,6) ab(1) p
      by (intro add_list_apart) (auto simp: rg_set_def)
    show "aligned_regions (live rc1)"
      unfolding rc1(2) using Cons.prems(2) ab by (intro add_list_aligned) simp_all
    show "rc_num rc1 + length ps \<le> MAX_COLLECTED" using num Cons.prems(3) by simp
    show "page_ranges ps" by (fact ab(5))
    show "pairs_apart ps" using Cons.prems(5) p by simp
    show "covered ps \<inter> cover (live rc1) = {}" using Cons.prems(5,6) p cov by auto
  qed
  then show ?case using rc1(1) cov p by (auto simp: Un_assoc)
qed

lemma clip_region_correct:
  shows "covered (clip_region a b hs he) = {a..<b} - {hs..<he}"
    and "pairs_apart (clip_region a b hs he)"
    and "length (clip_region a b hs he) \<le> 2"
  by (auto simp: clip_region_def)

lemma clip_region_aligned:
  assumes "4096 dvd a" "4096 dvd b" "b < USIZE_LIM" "4096 dvd hs" "4096 dvd he"
  shows "page_ranges (clip_region a b hs he)"
  using assms by (auto simp: clip_region_def)

definition clip_all :: "usize \<Rightarrow> usize \<Rightarrow> mem_region list \<Rightarrow> (usize \<times> usize) list" where
  "clip_all hs he rs = concat (map (\<lambda>r. clip_region (rg_start r) (rg_end r) hs he) rs)"

lemma clip_all_simps [simp]:
  "clip_all hs he [] = []"
  "clip_all hs he (r # rs) = clip_region (rg_start r) (rg_end r) hs he @ clip_all hs he rs"
  by (simp_all add: clip_all_def)

lemma clip_all_span: "covered (clip_all hs he rs) = cover rs - {hs..<he}"
  by (induction rs) (auto simp: clip_region_correct rg_set_def)

lemma clip_all_length: "length (clip_all hs he rs) \<le> 2 * length rs"
proof (induction rs)
  case (Cons r rs)
  then show ?case using clip_region_correct(3) [of "rg_start r" "rg_end r" hs he] by simp
qed simp

lemma clip_all_aligned:
  "\<lbrakk>aligned_regions rs; 4096 dvd hs; 4096 dvd he\<rbrakk> \<Longrightarrow> page_ranges (clip_all hs he rs)"
  by (induction rs) (simp_all add: clip_region_aligned)

lemma clip_all_apart:
  assumes "regions_apart rs"
  shows "pairs_apart (clip_all hs he rs)"
  using assms
proof (induction rs)
  case (Cons r rs)
  have "{rg_start r..<rg_end r} \<inter> cover rs = {}"
    using Cons.prems by (fastforce simp: cover_def rg_set_def)
  then show ?case using Cons by (auto simp: pairs_apart_append clip_region_correct clip_all_span)
qed simp

lemma boot_memory_alt:
  "boot_memory detected kr fw = bnd (collect_regions collector_new detected) (\<lambda>rc.
     feed_frames frame_new (clip_all (fst (boot_hole kr fw)) (snd (boot_hole kr fw)) (live rc)))"
  by (simp add: boot_memory_def clip_all_def collector_each_def live_def o_def case_prod_beta)

lemma boot_hole_aligned:
  assumes "4096 dvd fw" "ke + 4096 \<le> USIZE_LIM"
  shows "4096 dvd fst (boot_hole (ks, ke) fw)" "4096 dvd snd (boot_hole (ks, ke) fw)"
proof -
  show "4096 dvd fst (boot_hole (ks, ke) fw)" using assms(1) by (simp add: boot_hole_def Let_def min_def)
  have "ke mod 4096 < 4096" by simp
  then have "usize_add ke (4096 - ke mod 4096) = ke + (4096 - ke mod 4096)" if "ke mod 4096 \<noteq> 0"
    using assms(2) that by (intro usize_add_eq) linarith
  moreover have "ke + (4096 - ke mod 4096) = ke div 4096 * 4096 + 4096"
    using div_mult_mod_eq [of ke 4096] \<open>ke mod 4096 < 4096\<close> by linarith
  ultimately have up: "usize_add ke (4096 - ke mod 4096) = (ke div 4096 + 1) * 4096"
    if "ke mod 4096 \<noteq> 0" using that by simp
  show "4096 dvd snd (boot_hole (ks, ke) fw)"
  proof (cases "ke mod 4096 = 0")
    case True
    then show ?thesis by (simp add: boot_hole_def usize_next_multiple_of_def Let_def dvd_eq_mod_eq_0)
  next
    case False
    then have "snd (boot_hole (ks, ke) fw) = (ke div 4096 + 1) * 4096"
      using up by (simp add: boot_hole_def usize_next_multiple_of_def Let_def)
    then show ?thesis by simp
  qed
qed

section \<open>Properties\<close>

text \<open>
  C7.  Booting on page-aligned, pairwise disjoint memory ranges (at most 32 of them, at
  most \<open>2 ^ 20\<close> pages together) succeeds, and the free frames are exactly the pages of
  the detected memory that lie outside the hole of kernel image and firmware.
\<close>

theorem boot_memory_correct:
  assumes "page_ranges detected" "pairs_apart detected" "length detected \<le> MAX_COLLECTED"
    and "card (pages_of (covered detected)) \<le> MAX_TRACKED_FRAMES"
    and "4096 dvd fw" "ke + 4096 \<le> USIZE_LIM" "boot_hole (ks, ke) fw = (hs, he)"
  shows "\<exists>s. boot_memory detected (ks, ke) fw = Inr s \<and> frame_reach s
    \<and> free_ppns s = pages_of (covered detected - {hs..<he})"
proof -
  note al = boot_hole_aligned [OF assms(5,6), of ks, unfolded assms(7) fst_conv snd_conv]
  obtain rc where rc: "collect_regions collector_new detected = Inr rc" "regions_apart (live rc)"
    "aligned_regions (live rc)" "rc_num rc \<le> MAX_COLLECTED" "cover (live rc) = covered detected"
    using collect_regions_ok [of collector_new detected] assms(1-3)
    by (auto simp: live_def collector_new_def)
  let ?ps = "clip_all hs he (live rc)"
  have sp: "covered ?ps = covered detected - {hs..<he}" by (simp add: clip_all_span rc(5))
  have "\<exists>s. feed_frames frame_new ?ps = Inr s \<and> frame_reach s
      \<and> free_ppns s = free_ppns frame_new \<union> pages_of (covered ?ps)"
  proof (rule feed_frames_ok)
    show "frame_reach frame_new" by (rule frame_reach.new)
    show "region_count frame_new + length ?ps \<le> MAX_REGIONS"
      using clip_all_length [of hs he "live rc"] rc(4) by (simp add: frame_new_def)
    show "page_ranges ?ps" using rc(3) al by (rule clip_all_aligned)
    show "pairs_apart ?ps" using rc(2) by (rule clip_all_apart)
    have "card (pages_of (covered ?ps)) \<le> card (pages_of (covered detected))"
      unfolding sp by (intro card_mono finite_pages_span) auto
    then show "card (managed_ppns frame_new \<union> pages_of (covered ?ps)) \<le> MAX_TRACKED_FRAMES"
      using assms(4) by (simp add: frame_new_def managed_ppns_def)
  qed (simp_all add: frame_new_def managed_ppns_def)
  then show ?thesis
    using rc(1) by (simp add: boot_memory_alt assms(7) sp frame_new_def free_ppns_def free_at_def)
qed

lemma boot_sample_card: "card (pages_of (covered [(0x1000, 0x5000), (0x8000, 0xA000)])) \<le> 2 ^ 20"
proof -
  have "pages_of (covered [(0x1000, 0x5000), (0x8000, 0xA000)]) \<subseteq> {..<10}"
    by (auto simp: pages_of_def)
  then have "card (pages_of (covered [(0x1000, 0x5000), (0x8000, 0xA000)])) \<le> card {..<10::nat}"
    by (rule card_mono [rotated]) simp
  then show ?thesis by simp
qed

theorem boot_memory_correct_witness:
  "\<exists>s. boot_memory [(0x1000, 0x5000), (0x8000, 0xA000)] (0x2100, 0x2800) 0 = Inr s \<and> frame_reach s
    \<and> free_ppns s = pages_of ({0x1000..<0x5000} \<union> {0x8000..<0xA000} - {0x2000..<0x3000})"
  using boot_memory_correct [where detected = "[(0x1000, 0x5000), (0x8000, 0xA000)]" and fw = 0 and ke = "0x2800"
      and ks = "0x2100" and hs = "0x2000" and he = "0x3000"]
    boot_sample_card
  by (simp add: boot_hole_def usize_next_multiple_of_def usize_add_def USIZE_LIM_def)

text \<open>
  Firmware ranges that overlap can stop the boot: when a range that starts below an
  already collected one reaches into it, \<open>add\<close> inserts it without merging, the two live
  entries overlap, and registering the second with the frame allocator panics.
\<close>

lemma boot_memory_overlap_panics:
  "boot_memory [(0x2000, 0x3000), (0x1000, 0x4000)] (0x100000, 0x200000) 0
     = Inl (Panic ''overlapping physical memory regions'')"
proof -
  let ?r1 = "\<lparr>rg_start = 0x2000, rg_end = 0x3000\<rparr>" and ?r2 = "\<lparr>rg_start = 0x1000, rg_end = 0x4000\<rparr>"
  obtain rc where rc: "collect_regions collector_new [(0x2000, 0x3000), (0x1000, 0x4000)] = Inr rc"
    "live rc = [?r2, ?r1]"
  proof -
    obtain rc1 where 1: "collector_add collector_new 0x2000 0x3000 = Inr rc1" "live rc1 = [?r1]"
      using collector_add_refines [of "0x2000" "0x3000" collector_new]
      by (auto simp: live_def collector_new_def)
    have "rc_num rc1 = 1" using 1(2) length_live [of rc1] by simp
    then obtain rc where 2: "collector_add rc1 0x1000 0x4000 = Inr rc" "live rc = [?r2, ?r1]"
      using collector_add_refines [of "0x1000" "0x4000" rc1] 1(2) by auto
    show thesis using that [of rc] 1(1) 2 by simp
  qed
  have hole: "boot_hole (0x100000, 0x200000) 0 = (0x100000, 0x200000)"
    by (simp add: boot_hole_def usize_next_multiple_of_def)
  have s1: "frame_add_region frame_new 0x1000 0x4000 =
    Inr (frame_new\<lparr>regions := (regions frame_new)(0 := \<lparr>start_ppn = 1, r_frames = 3, bitmap_base = 0,
      next_hint = 0\<rparr>), region_count := 1, tracked_frames := 3, free_count := 3\<rparr>)"
    by (simp add: frame_add_region_def frame_new_def saturating_add_def usize_not_def USIZE_LIM_def
          usize_add_def Let_def)
  show ?thesis
    unfolding boot_memory_alt hole fst_conv snd_conv rc(1) bnd_simps rc(2)
    by (simp add: clip_region_def s1)
       (simp add: frame_add_region_def frame_new_def saturating_add_def usize_not_def USIZE_LIM_def
          usize_add_def Let_def)
qed

end
