(* ===== verification/Kor_Addr.thy ===== *)
theory Kor_Addr
  imports Kor_Prelude
begin

text \<open>
  Addresses: the installed physical/virtual translation and the page-table index
  arithmetic of \<^verbatim>\<open>kor/src/addr.rs\<close>, and the high-half translation pairs the
  architectures install (\<^verbatim>\<open>base/kor-arch/src/*/mm.rs\<close>), whose offset is a parameter:
  \<open>linear_translation\<close> says that the installed pair shifts by a fixed offset.
\<close>

section \<open>The installed translation\<close>

text \<open>A stored function pointer is \<open>None\<close> while the atomic cell holds 0.\<close>

record translation =
  PHYS_TO_VIRT :: "(usize \<Rightarrow> usize) option"
  VIRT_TO_PHYS :: "(usize \<Rightarrow> usize) option"

definition translation_boot :: translation where
  "translation_boot = \<lparr>PHYS_TO_VIRT = None, VIRT_TO_PHYS = None\<rparr>"

definition install_translation ::
  "translation \<Rightarrow> (usize \<Rightarrow> usize) \<Rightarrow> (usize \<Rightarrow> usize) \<Rightarrow> translation" where
  "install_translation t up down = t\<lparr>PHYS_TO_VIRT := Some up, VIRT_TO_PHYS := Some down\<rparr>"

definition translate_up :: "translation \<Rightarrow> usize \<Rightarrow> usize" where
  "translate_up t pa = (case PHYS_TO_VIRT t of None \<Rightarrow> pa | Some f \<Rightarrow> f pa)"

definition translate_down :: "translation \<Rightarrow> usize \<Rightarrow> usize" where
  "translate_down t va = (case VIRT_TO_PHYS t of None \<Rightarrow> va | Some f \<Rightarrow> f va)"

definition phys_to_virt :: "usize \<Rightarrow> usize \<Rightarrow> usize" where
  "phys_to_virt kernel_offset pa = usize_add pa kernel_offset"

definition virt_to_phys :: "usize \<Rightarrow> usize \<Rightarrow> usize" where
  "virt_to_phys kernel_offset va = usize_sub va kernel_offset"

definition linear_translation :: "translation \<Rightarrow> usize \<Rightarrow> bool" where
  "linear_translation t off \<longleftrightarrow> off < USIZE_LIM \<and>
     (\<forall>pa < USIZE_LIM. translate_up t pa = usize_add pa off) \<and>
     (\<forall>va < USIZE_LIM. translate_down t va = usize_sub va off)"

lemma usize_sub_add: "\<lbrakk>a < USIZE_LIM; b < USIZE_LIM\<rbrakk> \<Longrightarrow> usize_sub (usize_add a b) b = a"
proof -
  assume ab: "a < USIZE_LIM" "b < USIZE_LIM"
  have "usize_sub (usize_add a b) b = ((a + b) mod USIZE_LIM + (USIZE_LIM - b)) mod USIZE_LIM"
    using ab(2) by (simp only: usize_sub_def usize_add_def mod_less)
  also have "\<dots> = ((a + b) + (USIZE_LIM - b)) mod USIZE_LIM" by (rule mod_add_left_eq)
  also have "\<dots> = (a + USIZE_LIM) mod USIZE_LIM" using ab by (simp add: add.assoc)
  finally show ?thesis using ab by simp
qed

lemma translate_down_up:
  assumes "linear_translation t off" "pa < USIZE_LIM"
  shows "translate_down t (translate_up t pa) = pa"
  using assms usize_sub_add [of pa off] usize_add_less [of pa off]
  by (simp add: linear_translation_def)

lemma linear_translation_boot: "linear_translation translation_boot 0"
  by (simp add: linear_translation_def translation_boot_def translate_up_def translate_down_def
        usize_add_eq usize_sub_eq) (simp add: USIZE_LIM_def)

lemma linear_translation_install:
  "off < USIZE_LIM \<Longrightarrow>
     linear_translation (install_translation t (phys_to_virt off) (virt_to_phys off)) off"
  by (simp add: linear_translation_def install_translation_def translate_up_def translate_down_def
        phys_to_virt_def virt_to_phys_def)

section \<open>Page-table indices\<close>

definition pn_index :: "usize \<Rightarrow> nat \<Rightarrow> usize" where
  "pn_index va n = drop_bit (12 + 9 * n) va AND 0x1ff"

definition page_offset :: "usize \<Rightarrow> nat \<Rightarrow> usize" where
  "page_offset va n = va mod push_bit (12 + 9 * n) 1"

lemma pn_index_eq: "pn_index va n = va div 2 ^ (12 + 9 * n) mod 512"
proof -
  have "(0x1ff :: nat) = mask 9" by (simp add: mask_eq_exp_minus_1)
  then have "pn_index va n = take_bit 9 (drop_bit (12 + 9 * n) va)"
    unfolding pn_index_def by (simp only: take_bit_eq_mask)
  then show ?thesis by (simp add: drop_bit_eq_div take_bit_eq_mod)
qed

lemma page_offset_eq: "page_offset va n = va mod 2 ^ (12 + 9 * n)"
  by (simp add: page_offset_def)

lemma page_offset_step:
  "page_offset va (Suc n) = pn_index va n * 2 ^ (12 + 9 * n) + page_offset va n"
proof -
  have e: "2 ^ (12 + 9 * Suc n) = (2::nat) ^ (12 + 9 * n) * 512" by (simp add: power_add)
  show ?thesis unfolding page_offset_eq pn_index_eq e mod_mult2_eq by simp
qed

text \<open>The indices below level \<open>n\<close> and the byte offset give back the offset at level \<open>n\<close>.\<close>

fun va_join :: "usize \<Rightarrow> nat \<Rightarrow> usize" where
  "va_join va 0 = page_offset va 0"
| "va_join va (Suc n) = pn_index va n * 2 ^ (12 + 9 * n) + va_join va n"

lemma va_join_offset: "va_join va n = page_offset va n"
  by (induction n) (simp_all add: page_offset_step)

lemma pn_index_less: "pn_index va n < 512"
  by (simp add: pn_index_eq)

end
