(* ===== verification/Kor_Heap.thy ===== *)
theory Kor_Heap
  imports Kor_Frame Kor_Addr "HOL-Library.Disjoint_Sets"
begin

text \<open>
  The kernel heap, \<^verbatim>\<open>base/kor-alloc/src/slab_heap.rs\<close>: seven caches of power-of-two
  blocks whose free lists are threaded through the free blocks themselves, backed by the
  frame allocator.  \<open>h_next\<close> is the memory cell at the start of a block (the \<open>next\<close>
  field of \<open>FreeNode\<close>), 0 the null pointer.  The invariant says that the seven chains are
  finite, that the blocks on them are aligned, non-null and pairwise disjoint, and that
  they are disjoint from the free frames; \<open>heap_free\<close> is the set of free bytes.
\<close>

section \<open>State\<close>

type_synonym nextmem = "usize \<Rightarrow> usize"

definition NUM_SLABS :: usize where [simp]: "NUM_SLABS = 7"
definition MIN_SLAB_BYTES :: usize where [simp]: "MIN_SLAB_BYTES = PAGE_SIZE"
definition MIN_HEAP_BYTES :: usize where [simp]: "MIN_HEAP_BYTES = NUM_SLABS * MIN_SLAB_BYTES"
definition GROW_PAGES :: usize where [simp]: "GROW_PAGES = 8"

datatype slab_class = Bytes64 | Bytes128 | Bytes256 | Bytes512 | Bytes1024 | Bytes2048 | Bytes4096
  | Large

record slab =
  block_size :: usize
  fl_head :: usize

record slab_heap =
  slab_64 :: slab
  slab_128 :: slab
  slab_256 :: slab
  slab_512 :: slab
  slab_1024 :: slab
  slab_2048 :: slab
  slab_4096 :: slab

record layout =
  lay_size :: usize
  lay_align :: usize

record heap =
  h_next :: nextmem
  h_slabs :: "slab_heap option"
  h_growth :: bool
  h_frames :: frame_allocator
  h_trans :: translation

section \<open>Free lists and slabs\<close>

definition fl_pop :: "nextmem \<Rightarrow> usize \<Rightarrow> usize option \<times> usize" where
  "fl_pop m hp = (if hp = 0 then (None, hp) else (Some hp, m hp))"

definition fl_push :: "nextmem \<Rightarrow> usize \<Rightarrow> usize \<Rightarrow> nextmem \<times> usize" where
  "fl_push m hp addr = (m(addr := hp), addr)"

definition fl_new :: "nextmem \<Rightarrow> usize \<Rightarrow> usize \<Rightarrow> usize \<Rightarrow> nextmem \<times> usize" where
  "fl_new m start bsz count =
     fold (\<lambda>i (m, hp). fl_push m hp (usize_add start (usize_mul i bsz))) (rev [0..<count]) (m, 0)"

definition slab_new :: "nextmem \<Rightarrow> usize \<Rightarrow> usize \<Rightarrow> usize \<Rightarrow> nextmem \<times> slab" where
  "slab_new m start nbytes bsz =
     (let (m', hp) = fl_new m start bsz (nbytes div bsz) in
      (m', \<lparr>block_size = bsz, fl_head = hp\<rparr>))"

text \<open>The \<open>while let\<close> loop of \<open>Slab::grow\<close>: pop from the incoming list, push onto the slab's.\<close>

fun grow_loop :: "nat \<Rightarrow> nextmem \<Rightarrow> usize \<Rightarrow> usize \<Rightarrow> fault + nextmem \<times> usize" where
  "grow_loop 0 m incoming hp = Inl OutOfFuel"
| "grow_loop (Suc n) m incoming hp =
     (case fl_pop m incoming of
        (None, _) \<Rightarrow> Inr (m, hp)
      | (Some addr, incoming') \<Rightarrow>
          let (m', hp') = fl_push m hp addr in grow_loop n m' incoming' hp')"

definition slab_grow :: "nextmem \<Rightarrow> slab \<Rightarrow> usize \<Rightarrow> usize \<Rightarrow> fault + nextmem \<times> slab" where
  "slab_grow m s start nbytes =
     (let count = nbytes div block_size s;
          (m1, incoming) = fl_new m start (block_size s) count in
      bnd (grow_loop (Suc count) m1 incoming (fl_head s)) (\<lambda>(m2, hp).
      Inr (m2, s\<lparr>fl_head := hp\<rparr>)))"

definition slab_allocate :: "nextmem \<Rightarrow> slab \<Rightarrow> usize option \<times> slab" where
  "slab_allocate m s = (let (r, hp) = fl_pop m (fl_head s) in (r, s\<lparr>fl_head := hp\<rparr>))"

definition slab_deallocate :: "nextmem \<Rightarrow> slab \<Rightarrow> usize \<Rightarrow> nextmem \<times> slab" where
  "slab_deallocate m s ptr = (let (m', hp) = fl_push m (fl_head s) ptr in (m', s\<lparr>fl_head := hp\<rparr>))"

section \<open>The multi-slab heap\<close>

definition slab_heap_new :: "nextmem \<Rightarrow> usize \<Rightarrow> usize \<Rightarrow> fault + nextmem \<times> slab_heap" where
  "slab_heap_new m start sz =
     bnd (assert_that (start mod MIN_SLAB_BYTES = 0) ''heap start not page-aligned'') (\<lambda>_.
     bnd (assert_that (sz \<ge> MIN_HEAP_BYTES) ''heap size below minimum'') (\<lambda>_.
     bnd (assert_that (sz mod MIN_HEAP_BYTES = 0) ''heap size must be a multiple'') (\<lambda>_.
     let slot = sz div NUM_SLABS;
         (m, s64) = slab_new m start slot 64;
         (m, s128) = slab_new m (usize_add start slot) slot 128;
         (m, s256) = slab_new m (usize_add start (2 * slot)) slot 256;
         (m, s512) = slab_new m (usize_add start (3 * slot)) slot 512;
         (m, s1024) = slab_new m (usize_add start (4 * slot)) slot 1024;
         (m, s2048) = slab_new m (usize_add start (5 * slot)) slot 2048;
         (m, s4096) = slab_new m (usize_add start (6 * slot)) slot 4096 in
     Inr (m, \<lparr>slab_64 = s64, slab_128 = s128, slab_256 = s256, slab_512 = s512,
              slab_1024 = s1024, slab_2048 = s2048, slab_4096 = s4096\<rparr>))))"

definition class_for :: "layout \<Rightarrow> slab_class" where
  "class_for l =
     (if lay_size l > PAGE_SIZE \<or> lay_align l > PAGE_SIZE then Large
      else if lay_size l \<le> 64 \<and> lay_align l \<le> 64 then Bytes64
      else if lay_size l \<le> 128 \<and> lay_align l \<le> 128 then Bytes128
      else if lay_size l \<le> 256 \<and> lay_align l \<le> 256 then Bytes256
      else if lay_size l \<le> 512 \<and> lay_align l \<le> 512 then Bytes512
      else if lay_size l \<le> 1024 \<and> lay_align l \<le> 1024 then Bytes1024
      else if lay_size l \<le> 2048 \<and> lay_align l \<le> 2048 then Bytes2048
      else Bytes4096)"

text \<open>The reference \<open>slab_mut\<close> returns, and the write through it.\<close>

fun slab_mut :: "slab_heap \<Rightarrow> slab_class \<Rightarrow> slab option" where
  "slab_mut h Bytes64 = Some (slab_64 h)"
| "slab_mut h Bytes128 = Some (slab_128 h)"
| "slab_mut h Bytes256 = Some (slab_256 h)"
| "slab_mut h Bytes512 = Some (slab_512 h)"
| "slab_mut h Bytes1024 = Some (slab_1024 h)"
| "slab_mut h Bytes2048 = Some (slab_2048 h)"
| "slab_mut h Bytes4096 = Some (slab_4096 h)"
| "slab_mut h Large = None"

fun slab_put :: "slab_heap \<Rightarrow> slab_class \<Rightarrow> slab \<Rightarrow> slab_heap" where
  "slab_put h Bytes64 s = h\<lparr>slab_64 := s\<rparr>"
| "slab_put h Bytes128 s = h\<lparr>slab_128 := s\<rparr>"
| "slab_put h Bytes256 s = h\<lparr>slab_256 := s\<rparr>"
| "slab_put h Bytes512 s = h\<lparr>slab_512 := s\<rparr>"
| "slab_put h Bytes1024 s = h\<lparr>slab_1024 := s\<rparr>"
| "slab_put h Bytes2048 s = h\<lparr>slab_2048 := s\<rparr>"
| "slab_put h Bytes4096 s = h\<lparr>slab_4096 := s\<rparr>"
| "slab_put h Large s = h"

definition slab_heap_grow ::
  "nextmem \<Rightarrow> slab_heap \<Rightarrow> slab_class \<Rightarrow> usize \<Rightarrow> usize \<Rightarrow> fault + nextmem \<times> slab_heap" where
  "slab_heap_grow m sh c start nbytes =
     (case slab_mut sh c of
        None \<Rightarrow> Inr (m, sh)
      | Some s \<Rightarrow> bnd (slab_grow m s start nbytes) (\<lambda>(m', s'). Inr (m', slab_put sh c s')))"

definition large_extent_frames :: "layout \<Rightarrow> usize option" where
  "large_extent_frames l =
     (case checked_next_multiple_of (max (lay_size l) 1) PAGE_SIZE of
        None \<Rightarrow> None
      | Some n \<Rightarrow>
          let size_frames = n div PAGE_SIZE;
              align_frames = max (lay_align l) PAGE_SIZE div PAGE_SIZE in
          Some (max size_frames align_frames))"

definition alloc_large :: "heap \<Rightarrow> layout \<Rightarrow> fault + usize option \<times> heap" where
  "alloc_large h l =
     (if \<not> h_growth h then Inr (None, h)
      else case large_extent_frames l of
        None \<Rightarrow> Inr (None, h)
      | Some frames \<Rightarrow>
          bnd (frame_alloc_frames (h_frames h) frames) (\<lambda>(r, fa).
          case r of
            None \<Rightarrow> Inr (None, h\<lparr>h_frames := fa\<rparr>)
          | Some phys \<Rightarrow> Inr (Some (translate_up (h_trans h) phys), h\<lparr>h_frames := fa\<rparr>)))"

definition dealloc_large :: "heap \<Rightarrow> usize \<Rightarrow> layout \<Rightarrow> fault + heap" where
  "dealloc_large h ptr l =
     (case large_extent_frames l of
        None \<Rightarrow> Inl (Panic ''valid allocation layout'')
      | Some frames \<Rightarrow>
          bnd (frame_free_frames (h_frames h) (translate_down (h_trans h) ptr) frames) (\<lambda>fa.
          Inr (h\<lparr>h_frames := fa\<rparr>)))"

definition slab_heap_allocate :: "heap \<Rightarrow> slab_heap \<Rightarrow> layout \<Rightarrow> fault + usize option \<times> heap" where
  "slab_heap_allocate h sh l =
     (case class_for l of
        Large \<Rightarrow> alloc_large h l
      | c \<Rightarrow> (case slab_mut sh c of
                None \<Rightarrow> Inr (None, h)
              | Some s \<Rightarrow> let (r, s') = slab_allocate (h_next h) s in
                         Inr (r, h\<lparr>h_slabs := Some (slab_put sh c s')\<rparr>)))"

definition slab_heap_deallocate :: "heap \<Rightarrow> slab_heap \<Rightarrow> usize \<Rightarrow> layout \<Rightarrow> fault + heap" where
  "slab_heap_deallocate h sh ptr l =
     (case class_for l of
        Large \<Rightarrow> dealloc_large h ptr l
      | c \<Rightarrow> (case slab_mut sh c of
                None \<Rightarrow> Inr h
              | Some s \<Rightarrow> let (m, s') = slab_deallocate (h_next h) s ptr in
                         Inr (h\<lparr>h_next := m, h_slabs := Some (slab_put sh c s')\<rparr>)))"

section \<open>The global allocator\<close>

definition heap_init :: "heap \<Rightarrow> usize \<Rightarrow> usize \<Rightarrow> fault + heap" where
  "heap_init h start sz =
     bnd (slab_heap_new (h_next h) start sz) (\<lambda>(m, sh).
     Inr (h\<lparr>h_next := m, h_slabs := Some sh\<rparr>))"

definition enable_frame_growth :: "heap \<Rightarrow> heap" where
  "enable_frame_growth h = h\<lparr>h_growth := True\<rparr>"

definition grow_from_frames :: "heap \<Rightarrow> slab_class \<Rightarrow> fault + bool \<times> heap" where
  "grow_from_frames h c =
     (if \<not> h_growth h then Inr (False, h)
      else if c = Large then Inr (False, h)
      else
        bnd (frame_alloc_frames (h_frames h) GROW_PAGES) (\<lambda>(r, fa).
        let h1 = h\<lparr>h_frames := fa\<rparr> in
        case r of
          None \<Rightarrow> Inr (False, h1)
        | Some phys \<Rightarrow>
            (case h_slabs h1 of
               None \<Rightarrow> Inr (False, h1)
             | Some sh \<Rightarrow>
                 bnd (slab_heap_grow (h_next h1) sh c (translate_up (h_trans h1) phys)
                        (GROW_PAGES * PAGE_SIZE)) (\<lambda>(m, sh').
                 Inr (True, h1\<lparr>h_next := m, h_slabs := Some sh'\<rparr>)))))"

fun alloc_loop :: "nat \<Rightarrow> heap \<Rightarrow> layout \<Rightarrow> fault + usize \<times> heap" where
  "alloc_loop 0 h l = Inl OutOfFuel"
| "alloc_loop (Suc n) h l =
     (case h_slabs h of
        None \<Rightarrow> Inr (0, h)
      | Some sh \<Rightarrow>
          bnd (slab_heap_allocate h sh l) (\<lambda>(r, h1).
          case r of
            Some ptr \<Rightarrow> Inr (ptr, h1)
          | None \<Rightarrow>
              bnd (grow_from_frames h1 (class_for l)) (\<lambda>(grown, h2).
              if \<not> grown then Inr (0, h2) else alloc_loop n h2 l)))"

text \<open>Two rounds are enough: a successful growth leaves a block for the second round.\<close>

definition ALLOC_FUEL :: nat where "ALLOC_FUEL = 2"

definition heap_alloc :: "heap \<Rightarrow> layout \<Rightarrow> fault + usize \<times> heap" where
  "heap_alloc h l =
     (if class_for l = Large then
        bnd (alloc_large h l) (\<lambda>(r, h').
        Inr (case r of Some ptr \<Rightarrow> ptr | None \<Rightarrow> 0, h'))
      else alloc_loop ALLOC_FUEL h l)"

definition heap_dealloc :: "heap \<Rightarrow> usize \<Rightarrow> layout \<Rightarrow> fault + heap" where
  "heap_dealloc h ptr l =
     (if ptr = 0 then Inr h
      else if class_for l = Large then dealloc_large h ptr l
      else case h_slabs h of
        None \<Rightarrow> Inr h
      | Some sh \<Rightarrow> slab_heap_deallocate h sh ptr l)"

section \<open>Chains of free blocks\<close>

fun chain :: "nextmem \<Rightarrow> usize \<Rightarrow> usize list \<Rightarrow> bool" where
  "chain m p [] \<longleftrightarrow> p = 0"
| "chain m p (x # xs) \<longleftrightarrow> p = x \<and> x \<noteq> 0 \<and> chain m (m x) xs"

lemma chain_unique: "\<lbrakk>chain m p xs; chain m p ys\<rbrakk> \<Longrightarrow> xs = ys"
proof (induction xs arbitrary: p ys)
  case Nil
  then show ?case by (cases ys) auto
next
  case (Cons x xs)
  then show ?case by (cases ys) auto
qed

lemma chain_suffix: "chain m p (xs @ y # ys) \<Longrightarrow> chain m y (y # ys)"
  by (induction xs arbitrary: p) auto

lemma chain_distinct: "chain m p xs \<Longrightarrow> distinct xs"
proof (induction xs arbitrary: p)
  case (Cons x xs)
  have "x \<notin> set xs"
  proof
    assume "x \<in> set xs"
    then obtain us vs where xs: "xs = us @ x # vs" by (auto simp: in_set_conv_decomp)
    have "chain m x (x # vs)"
      using chain_suffix [of m p "x # us" x vs] Cons.prems xs by simp
    moreover have "chain m x (x # us @ x # vs)" using Cons.prems xs by simp
    ultimately have "x # vs = x # us @ x # vs" by (rule chain_unique)
    then have "length (x # vs) = length (x # us @ x # vs)" by (rule arg_cong)
    then show False by simp
  qed
  with Cons show ?case by auto
qed simp

lemma chain_upd [simp]: "x \<notin> set xs \<Longrightarrow> chain (m(x := v)) p xs = chain m p xs"
  by (induction xs arbitrary: p) auto

definition blocks :: "nextmem \<Rightarrow> usize \<Rightarrow> usize list" where
  "blocks m p = (THE xs. chain m p xs)"

lemma blocks_eq: "chain m p xs \<Longrightarrow> blocks m p = xs"
  unfolding blocks_def by (blast intro: the_equality chain_unique)

section \<open>Size classes\<close>

fun class_size :: "slab_class \<Rightarrow> usize" where
  "class_size Bytes64 = 64" | "class_size Bytes128 = 128" | "class_size Bytes256 = 256"
| "class_size Bytes512 = 512" | "class_size Bytes1024 = 1024" | "class_size Bytes2048 = 2048"
| "class_size Bytes4096 = 4096" | "class_size Large = 0"

definition valid_layout :: "layout \<Rightarrow> bool" where
  "valid_layout l \<longleftrightarrow> (\<exists>k. lay_align l = 2 ^ k) \<and> lay_size l + lay_align l \<le> 2 ^ 63"

lemma class_size_log: "c \<noteq> Large \<Longrightarrow> \<exists>k. 6 \<le> k \<and> k \<le> 12 \<and> class_size c = 2 ^ k"
proof -
  have *: "\<exists>k. 6 \<le> k \<and> k \<le> 12 \<and> n = 2 ^ k" if "n = 2 ^ j" "6 \<le> j" "j \<le> 12" for n j :: nat
    using that by blast
  assume "c \<noteq> Large"
  then show ?thesis
    by (cases c)
       (use * [of _ 6] * [of _ 7] * [of _ 8] * [of _ 9] * [of _ 10] * [of _ 11] * [of _ 12] in simp_all)
qed

lemma class_size_dvd: "c \<noteq> Large \<Longrightarrow> class_size c dvd 4096"
proof -
  assume "c \<noteq> Large"
  then obtain k where "k \<le> 12" and k: "class_size c = 2 ^ k" using class_size_log by blast
  from this(1) have "class_size c dvd 2 ^ 12" unfolding k by (rule le_imp_power_dvd)
  then show ?thesis by simp
qed

lemma class_size_pos [simp]: "c \<noteq> Large \<Longrightarrow> 0 < class_size c"
  by (cases c) simp_all

lemma class_for_fits:
  assumes "class_for l \<noteq> Large"
  shows "lay_size l \<le> class_size (class_for l)" "lay_align l \<le> class_size (class_for l)"
  using assms by (auto simp: class_for_def)

lemma pow2_dvd: "\<lbrakk>a = 2 ^ j; b = 2 ^ k; a \<le> b\<rbrakk> \<Longrightarrow> a dvd (b::nat)"
  by (simp add: le_imp_power_dvd)

lemma class_for_aligned:
  assumes "valid_layout l" "class_for l \<noteq> Large" "class_size (class_for l) dvd x"
  shows "lay_align l dvd x"
proof -
  obtain j where "lay_align l = 2 ^ j" using assms(1) by (auto simp: valid_layout_def)
  moreover obtain k where "class_size (class_for l) = 2 ^ k" using class_size_log assms(2) by blast
  ultimately have "lay_align l dvd class_size (class_for l)"
    using class_for_fits(2) [OF assms(2)] by (rule pow2_dvd)
  then show ?thesis using assms(3) by (rule dvd_trans)
qed

lemma slab_mut_Some: "c \<noteq> Large \<Longrightarrow> \<exists>s. slab_mut sh c = Some s"
  by (cases c) simp_all

lemma slab_mut_put: "slab_mut (slab_put sh c s) d = (if c = d \<and> c \<noteq> Large then Some s else slab_mut sh d)"
  by (cases c; cases d) simp_all

section \<open>The invariant of the caches\<close>

definition slab_items :: "nextmem \<Rightarrow> slab_heap \<Rightarrow> (slab_class \<times> usize) set" where
  "slab_items m sh = {(c, x). \<exists>s. slab_mut sh c = Some s \<and> x \<in> set (blocks m (fl_head s))}"

fun item_bytes :: "slab_class \<times> usize \<Rightarrow> nat set" where
  "item_bytes (c, x) = {x..<x + class_size c}"

definition slab_bytes :: "nextmem \<Rightarrow> slab_heap \<Rightarrow> nat set" where
  "slab_bytes m sh = \<Union> (item_bytes ` slab_items m sh)"

definition item_ok :: "slab_class \<times> usize \<Rightarrow> bool" where
  "item_ok i \<longleftrightarrow> fst i \<noteq> Large \<and> 0 < snd i \<and> class_size (fst i) dvd snd i"

definition slabs_inv :: "nextmem \<Rightarrow> slab_heap \<Rightarrow> bool" where
  "slabs_inv m sh \<longleftrightarrow>
     (\<forall>c s. slab_mut sh c = Some s \<longrightarrow> block_size s = class_size c \<and> (\<exists>xs. chain m (fl_head s) xs))
     \<and> (\<forall>i \<in> slab_items m sh. item_ok i)
     \<and> disjoint_family_on item_bytes (slab_items m sh)"

lemma slabs_invD:
  assumes "slabs_inv m sh" "slab_mut sh c = Some s"
  shows "block_size s = class_size c" "chain m (fl_head s) (blocks m (fl_head s))" "c \<noteq> Large"
  using assms by (auto simp: slabs_inv_def dest: blocks_eq)

lemma slab_itemsI: "\<lbrakk>slab_mut sh c = Some s; x \<in> set (blocks m (fl_head s))\<rbrakk> \<Longrightarrow> (c, x) \<in> slab_items m sh"
  by (auto simp: slab_items_def)

lemma item_start: "item_ok i \<Longrightarrow> snd i \<in> item_bytes i"
  by (cases i) (auto simp: item_ok_def)

lemma blocks_frame:
  assumes "slabs_inv m sh" "x \<notin> slab_bytes m sh" "slab_mut sh c = Some s"
  shows "chain (m(x := v)) (fl_head s) (blocks m (fl_head s))"
    and "blocks (m(x := v)) (fl_head s) = blocks m (fl_head s)"
proof -
  have "x \<notin> set (blocks m (fl_head s))"
  proof
    assume "x \<in> set (blocks m (fl_head s))"
    then have i: "(c, x) \<in> slab_items m sh" using assms(3) by (blast intro: slab_itemsI)
    then have "item_ok (c, x)" using assms(1) by (auto simp: slabs_inv_def)
    from item_start [OF this] i show False using assms(2) by (auto simp: slab_bytes_def)
  qed
  then show "chain (m(x := v)) (fl_head s) (blocks m (fl_head s))"
    using slabs_invD(2) [OF assms(1,3)] by simp
  then show "blocks (m(x := v)) (fl_head s) = blocks m (fl_head s)" by (rule blocks_eq)
qed

lemma chain_agree: "\<lbrakk>chain m p xs; \<forall>x \<in> set xs. m' x = m x\<rbrakk> \<Longrightarrow> chain m' p xs"
  by (induction xs arbitrary: p) auto

lemma slabs_inv_agree:
  assumes inv: "slabs_inv m sh" and eq: "\<forall>x \<in> slab_bytes m sh. m' x = m x"
  shows "slabs_inv m' sh" "slab_items m' sh = slab_items m sh" "slab_bytes m' sh = slab_bytes m sh"
proof -
  have ch: "chain m' (fl_head s) (blocks m (fl_head s))" if "slab_mut sh c = Some s" for c s
  proof (rule chain_agree [OF slabs_invD(2) [OF inv that]], rule ballI)
    fix x assume "x \<in> set (blocks m (fl_head s))"
    then have i: "(c, x) \<in> slab_items m sh" using that by (blast intro: slab_itemsI)
    then have "item_ok (c, x)" using inv by (auto simp: slabs_inv_def)
    from item_start [OF this] have "x \<in> item_bytes (c, x)" by simp
    then have "x \<in> slab_bytes m sh" using i unfolding slab_bytes_def by blast
    then show "m' x = m x" using eq by blast
  qed
  show i: "slab_items m' sh = slab_items m sh"
    using blocks_eq [OF ch] by (auto simp: slab_items_def)
  then show "slab_bytes m' sh = slab_bytes m sh" by (simp add: slab_bytes_def)
  show "slabs_inv m' sh" using inv ch unfolding slabs_inv_def i by blast
qed

lemma push_item:
  assumes inv: "slabs_inv m sh" and c: "slab_mut sh c = Some s"
    and x: "item_ok (c, x)" "item_bytes (c, x) \<inter> slab_bytes m sh = {}"
  shows "slabs_inv (m(x := fl_head s)) (slab_put sh c (s\<lparr>fl_head := x\<rparr>))"
    and "slab_items (m(x := fl_head s)) (slab_put sh c (s\<lparr>fl_head := x\<rparr>)) = insert (c, x) (slab_items m sh)"
proof -
  let ?m = "m(x := fl_head s)" and ?sh = "slab_put sh c (s\<lparr>fl_head := x\<rparr>)"
  have cl: "c \<noteq> Large" using slabs_invD(3) [OF inv c] .
  have xn: "x \<notin> slab_bytes m sh"
    using item_start [OF x(1)] x(2) by (metis disjoint_iff snd_conv)
  have mut: "slab_mut ?sh d = (if d = c then Some (s\<lparr>fl_head := x\<rparr>) else slab_mut sh d)" for d
    using cl by (simp add: slab_mut_put)
  have ch: "chain ?m x (x # blocks m (fl_head s))"
    using blocks_frame(1) [OF inv xn c, of "fl_head s"] x(1) by (simp add: item_ok_def)
  note bl = blocks_eq [OF ch]
  show it: "slab_items ?m ?sh = insert (c, x) (slab_items m sh)"
    using blocks_frame(2) [OF inv xn] c bl
    by (auto simp: slab_items_def mut split: if_splits)
  have "disjoint_family_on item_bytes (insert (c, x) (slab_items m sh))"
    using inv x(2)
    by (auto simp: disjoint_family_on_def slabs_inv_def slab_bytes_def Int_commute)
  moreover have "\<exists>xs. chain ?m x xs" using ch by blast
  ultimately show "slabs_inv ?m ?sh"
    using inv x(1) blocks_frame(1) [OF inv xn] c slabs_invD(1) [OF inv c]
    unfolding slabs_inv_def it by (auto simp: mut split: if_splits)
qed

lemma pop_item:
  assumes inv: "slabs_inv m sh" and c: "slab_mut sh c = Some s" and p: "fl_head s \<noteq> 0"
  shows "slabs_inv m (slab_put sh c (s\<lparr>fl_head := m (fl_head s)\<rparr>))"
    and "slab_items m (slab_put sh c (s\<lparr>fl_head := m (fl_head s)\<rparr>)) = slab_items m sh - {(c, fl_head s)}"
    and "(c, fl_head s) \<in> slab_items m sh"
proof -
  let ?x = "fl_head s" let ?sh = "slab_put sh c (s\<lparr>fl_head := m ?x\<rparr>)"
  have cl: "c \<noteq> Large" using slabs_invD(3) [OF inv c] .
  have mut: "slab_mut ?sh d = (if d = c then Some (s\<lparr>fl_head := m ?x\<rparr>) else slab_mut sh d)" for d
    using cl by (simp add: slab_mut_put)
  obtain xs where xs: "blocks m ?x = ?x # xs" "chain m (m ?x) xs" "?x \<notin> set xs"
    using slabs_invD(2) [OF inv c] p chain_distinct [OF slabs_invD(2) [OF inv c]]
    by (cases "blocks m ?x") auto
  show "(c, ?x) \<in> slab_items m sh" using xs(1) by (intro slab_itemsI [OF c]) simp
  show it: "slab_items m ?sh = slab_items m sh - {(c, ?x)}"
    using c xs blocks_eq [OF xs(2)] by (auto simp: slab_items_def mut split: if_splits)
  show "slabs_inv m ?sh"
    using inv xs(2) slabs_invD(1) [OF inv c] unfolding slabs_inv_def it
    by (auto simp: mut disjoint_family_on_def split: if_splits)
qed

section \<open>Building and growing caches\<close>

definition addrs :: "usize \<Rightarrow> usize \<Rightarrow> usize \<Rightarrow> usize list" where
  "addrs start bsz count = map (\<lambda>i. start + i * bsz) [0..<count]"

lemma fl_new_chain:
  assumes "0 < start" "0 < bsz" "start + count * bsz \<le> USIZE_LIM"
  shows "\<exists>m' hp. fl_new m start bsz count = (m', hp) \<and> chain m' hp (addrs start bsz count)
    \<and> (\<forall>x. x \<notin> set (addrs start bsz count) \<longrightarrow> m' x = m x)"
proof -
  define f where "f = (\<lambda>i. start + i * bsz)"
  define g where "g = (\<lambda>i (m, hp). fl_push m hp (usize_add start (usize_mul i bsz)))"
  have g: "g i (m, hp) = (m(f i := hp), f i)" if "i < count" for i m hp
  proof -
    have "i * bsz < count * bsz" using that assms(2) by simp
    then have lt: "start + i * bsz < USIZE_LIM" using assms(3) by linarith
    then have "usize_mul i bsz = i * bsz" by (intro usize_mul_eq) simp
    then show ?thesis using lt by (simp add: g_def f_def fl_push_def usize_add_eq)
  qed
  have "\<exists>m' hp. fold g (rev [k..<count]) (m, 0) = (m', hp) \<and> chain m' hp (map f [k..<count])
      \<and> (\<forall>x. x \<notin> f ` {k..<count} \<longrightarrow> m' x = m x)" if "k \<le> count" for k
    using that
  proof (induction k rule: inc_induct)
    case base
    show ?case by simp
  next
    case (step k)
    then obtain m' hp where IH: "fold g (rev [Suc k..<count]) (m, 0) = (m', hp)"
      "chain m' hp (map f [Suc k..<count])" "\<forall>x. x \<notin> f ` {Suc k..<count} \<longrightarrow> m' x = m x" by blast
    have up: "[k..<count] = k # [Suc k..<count]" using step(2) by (rule upt_conv_Cons)
    have fk: "f k \<noteq> 0" "f k \<notin> set (map f [Suc k..<count])"
      using assms(1,2) by (auto simp: f_def)
    then have "chain (m'(f k := hp)) (f k) (map f [k..<count])" using IH(2) by (simp add: up)
    moreover have "{k..<count} = insert k {Suc k..<count}" using step(2) by auto
    then have "\<forall>x. x \<notin> f ` {k..<count} \<longrightarrow> (m'(f k := hp)) x = m x" using IH(3) by simp
    ultimately show ?case using IH(1) g [OF step(2)] by (simp add: up)
  qed
  from this [of 0] show ?thesis
    by (simp add: fl_new_def addrs_def g_def f_def)
qed

lemma addrs_items:
  assumes "c \<noteq> Large" "class_size c dvd start" "0 < start"
  shows "\<forall>y \<in> set (addrs start (class_size c) n). item_ok (c, y)"
    and "disjoint_family_on item_bytes (Pair c ` set (addrs start (class_size c) n))"
    and "\<Union> (item_bytes ` Pair c ` set (addrs start (class_size c) n))
       = {start..<start + n * class_size c}"
proof -
  let ?b = "class_size c"
  have b: "0 < ?b" using assms(1) by simp
  show "\<forall>y \<in> set (addrs start ?b n). item_ok (c, y)"
    using assms by (auto simp: addrs_def item_ok_def)
  show "disjoint_family_on item_bytes (Pair c ` set (addrs start ?b n))"
  proof -
    have "{start + i * ?b..<start + i * ?b + ?b} \<inter> {start + j * ?b..<start + j * ?b + ?b} = {}"
      if "i < j" for i j
    proof -
      have "Suc i * ?b \<le> j * ?b" using that by (intro mult_le_mono1) simp
      then show ?thesis by auto
    qed
    then show ?thesis
      by (auto simp: disjoint_family_on_def addrs_def dest!: neq_iff [THEN iffD1, rotated])
  qed
  show "\<Union> (item_bytes ` Pair c ` set (addrs start ?b n)) = {start..<start + n * ?b}"
  proof (induction n)
    case (Suc n)
    then show ?case by (auto simp: addrs_def)
  qed (simp add: addrs_def)
qed

lemma slab_put_put [simp]: "slab_put (slab_put sh c s) c s' = slab_put sh c s'"
  by (cases c) simp_all

lemma grow_loop_ok:
  assumes "slabs_inv m sh" "slab_mut sh c = Some s" "chain m inc ys" "length ys < n"
    and "\<forall>y \<in> set ys. item_ok (c, y) \<and> item_bytes (c, y) \<inter> slab_bytes m sh = {}"
    and "disjoint_family_on item_bytes (Pair c ` set ys)"
  shows "\<exists>m' hp. grow_loop n m inc (fl_head s) = Inr (m', hp)
    \<and> slabs_inv m' (slab_put sh c (s\<lparr>fl_head := hp\<rparr>))
    \<and> slab_items m' (slab_put sh c (s\<lparr>fl_head := hp\<rparr>)) = slab_items m sh \<union> Pair c ` set ys"
  using assms
proof (induction ys arbitrary: m inc sh s n)
  case Nil
  have "slab_put sh c s = sh"
    using Nil(2) by (cases c) auto
  then show ?case using Nil by (cases n) (auto simp: fl_pop_def)
next
  case (Cons y ys)
  let ?m = "m(y := fl_head s)" and ?s = "s\<lparr>fl_head := y\<rparr>"
  let ?sh = "slab_put sh c ?s"
  obtain n' where n: "n = Suc n'" using Cons.prems(4) by (cases n) auto
  have cl: "c \<noteq> Large" using slabs_invD(3) [OF Cons.prems(1,2)] .
  have ynot: "y \<notin> set ys" using chain_distinct [OF Cons.prems(3)] by simp
  have y: "item_ok (c, y)" "item_bytes (c, y) \<inter> slab_bytes m sh = {}" using Cons.prems(5) by simp_all
  note p = push_item [OF Cons.prems(1,2) y]
  have sb: "slab_bytes ?m ?sh = item_bytes (c, y) \<union> slab_bytes m sh"
    unfolding slab_bytes_def p(2) by simp
  have dis: "item_bytes (c, z) \<inter> item_bytes (c, y) = {}" if "z \<in> set ys" for z
    using Cons.prems(6) that ynot unfolding disjoint_family_on_def by (metis (no_types, lifting)
      imageI list.set_intros Pair_inject)
  have "\<exists>m' hp. grow_loop n' ?m (m y) (fl_head ?s) = Inr (m', hp)
    \<and> slabs_inv m' (slab_put ?sh c (?s\<lparr>fl_head := hp\<rparr>))
    \<and> slab_items m' (slab_put ?sh c (?s\<lparr>fl_head := hp\<rparr>)) = slab_items ?m ?sh \<union> Pair c ` set ys"
  proof (rule Cons.IH [OF p(1)])
    show "slab_mut ?sh c = Some ?s" using cl by (simp add: slab_mut_put)
    show "chain ?m (m y) ys" using Cons.prems(3) ynot by simp
    show "length ys < n'" using Cons.prems(4) n by simp
    show "\<forall>z \<in> set ys. item_ok (c, z) \<and> item_bytes (c, z) \<inter> slab_bytes ?m ?sh = {}"
      using Cons.prems(5) dis unfolding sb by (simp add: Int_Un_distrib)
    show "disjoint_family_on item_bytes (Pair c ` set ys)"
      using Cons.prems(6) by (rule disjoint_family_on_mono [rotated]) auto
  qed
  moreover have "grow_loop n m inc (fl_head s) = grow_loop n' ?m (m y) y"
    using Cons.prems(3) n by (simp add: fl_pop_def fl_push_def)
  ultimately show ?case using p(2) by auto
qed

lemma slab_bytes_Un:
  "slab_items m' sh' = slab_items m sh \<union> Pair c ` X \<Longrightarrow>
     slab_bytes m' sh' = slab_bytes m sh \<union> \<Union> (item_bytes ` Pair c ` X)"
  by (auto simp: slab_bytes_def)

lemma addrs_bytes:
  assumes "c \<noteq> Large" "class_size c dvd start" "0 < start" "y \<in> set (addrs start (class_size c) n)"
  shows "item_bytes (c, y) \<subseteq> {start..<start + n * class_size c}"
    and "y \<in> {start..<start + n * class_size c}"
proof -
  show i: "item_bytes (c, y) \<subseteq> {start..<start + n * class_size c}"
    using addrs_items(3) [OF assms(1-3), of n] assms(4) by blast
  have "y \<in> item_bytes (c, y)" using assms(1) by simp
  then show "y \<in> {start..<start + n * class_size c}" using i by blast
qed

lemma slab_heap_grow_ok:
  assumes inv: "slabs_inv m sh" and c: "c \<noteq> Large"
    and st: "class_size c dvd start" "0 < start" "class_size c dvd nbytes" "start + nbytes \<le> USIZE_LIM"
    and dis: "{start..<start + nbytes} \<inter> slab_bytes m sh = {}"
  shows "\<exists>m' sh'. slab_heap_grow m sh c start nbytes = Inr (m', sh') \<and> slabs_inv m' sh'
    \<and> slab_items m' sh' = slab_items m sh \<union> Pair c ` set (addrs start (class_size c) (nbytes div class_size c))
    \<and> slab_bytes m' sh' = slab_bytes m sh \<union> {start..<start + nbytes}"
proof -
  let ?b = "class_size c" let ?n = "nbytes div ?b" let ?ys = "addrs start ?b ?n"
  obtain s where s: "slab_mut sh c = Some s" using slab_mut_Some [OF c] by blast
  have bs: "block_size s = ?b" using slabs_invD(1) [OF inv s] .
  have nb: "?n * ?b = nbytes" using st(3) by simp
  obtain m1 inc where new: "fl_new m start ?b ?n = (m1, inc)" "chain m1 inc ?ys"
    "\<forall>x. x \<notin> set ?ys \<longrightarrow> m1 x = m x"
    using fl_new_chain [of start ?b ?n m] st c by (auto simp: nb)
  have yb: "item_bytes (c, y) \<inter> slab_bytes m sh = {}" "y \<notin> slab_bytes m sh" if "y \<in> set ?ys" for y
    using addrs_bytes [OF c st(1,2) that, unfolded nb] dis by blast+
  have agree: "\<forall>x \<in> slab_bytes m sh. m1 x = m x" using new(3) yb(2) by blast
  note a = slabs_inv_agree [OF inv agree]
  have "\<exists>m' hp. grow_loop (Suc ?n) m1 inc (fl_head s) = Inr (m', hp)
    \<and> slabs_inv m' (slab_put sh c (s\<lparr>fl_head := hp\<rparr>))
    \<and> slab_items m' (slab_put sh c (s\<lparr>fl_head := hp\<rparr>)) = slab_items m1 sh \<union> Pair c ` set ?ys"
    using addrs_items [OF c st(1,2), of ?n] yb
    by (intro grow_loop_ok [OF a(1) s new(2)]) (auto simp: a(3) addrs_def)
  then obtain m' hp where g: "grow_loop (Suc ?n) m1 inc (fl_head s) = Inr (m', hp)"
    "slabs_inv m' (slab_put sh c (s\<lparr>fl_head := hp\<rparr>))"
    "slab_items m' (slab_put sh c (s\<lparr>fl_head := hp\<rparr>)) = slab_items m sh \<union> Pair c ` set ?ys"
    unfolding a(2) by blast
  have "slab_heap_grow m sh c start nbytes = Inr (m', slab_put sh c (s\<lparr>fl_head := hp\<rparr>))"
    using s g(1) new(1) by (simp add: slab_heap_grow_def slab_grow_def bs)
  then show ?thesis
    using g(2,3) slab_bytes_Un [OF g(3)] addrs_items(3) [OF c st(1,2), of ?n] nb by auto
qed

lemma disjoint_family_on_Un:
  assumes "disjoint_family_on A I" "disjoint_family_on A J"
    and "\<And>i j. i \<in> I \<Longrightarrow> j \<in> J \<Longrightarrow> A i \<inter> A j = {}"
  shows "disjoint_family_on A (I \<union> J)"
  using assms unfolding disjoint_family_on_def by blast

lemma slab_new_ok:
  assumes inv: "slabs_inv m sh" and s: "slab_mut sh c = Some \<lparr>block_size = class_size c, fl_head = 0\<rparr>"
    and st: "class_size c dvd start" "0 < start" "class_size c dvd nbytes" "start + nbytes \<le> USIZE_LIM"
    and dis: "{start..<start + nbytes} \<inter> slab_bytes m sh = {}"
    and new: "slab_new m start nbytes (class_size c) = (m', s')"
  shows "slabs_inv m' (slab_put sh c s')"
    and "slab_bytes m' (slab_put sh c s') = slab_bytes m sh \<union> {start..<start + nbytes}"
proof -
  let ?b = "class_size c" let ?n = "nbytes div ?b" let ?ys = "addrs start ?b ?n"
  let ?sh = "slab_put sh c s'"
  have c: "c \<noteq> Large" using slabs_invD(3) [OF inv s] .
  have nb: "?n * ?b = nbytes" using st(3) by simp
  obtain hp where hp: "fl_new m start ?b ?n = (m', hp)" "fl_head s' = hp" "block_size s' = ?b"
    using new by (auto simp: slab_new_def split: prod.splits)
  have ch: "chain m' hp ?ys" "\<forall>x. x \<notin> set ?ys \<longrightarrow> m' x = m x"
    using fl_new_chain [of start ?b ?n m] st c hp(1) by (auto simp: nb)
  have yb: "item_bytes (c, y) \<inter> slab_bytes m sh = {}" "y \<notin> slab_bytes m sh" if "y \<in> set ?ys" for y
    using addrs_bytes [OF c st(1,2) that, unfolded nb] dis by blast+
  have agree: "\<forall>x \<in> slab_bytes m sh. m' x = m x" using ch(2) yb(2) by blast
  note a = slabs_inv_agree [OF inv agree]
  have mut: "slab_mut ?sh d = (if d = c then Some s' else slab_mut sh d)" for d
    using c by (simp add: slab_mut_put)
  have none: "(c, x) \<notin> slab_items m' sh" for x
    using s blocks_eq [of m' 0 "[]"] by (auto simp: slab_items_def)
  have it: "slab_items m' ?sh = slab_items m' sh \<union> Pair c ` set ?ys"
    using none blocks_eq [OF ch(1)] hp(2) by (auto simp: slab_items_def mut split: if_splits)
  note ai = addrs_items [OF c st(1,2), of ?n]
  have "disjoint_family_on item_bytes (slab_items m' sh \<union> Pair c ` set ?ys)"
  proof (rule disjoint_family_on_Un)
    show "disjoint_family_on item_bytes (slab_items m' sh)" using a(1) by (simp add: slabs_inv_def)
    show "disjoint_family_on item_bytes (Pair c ` set ?ys)" by (rule ai(2))
    show "item_bytes i \<inter> item_bytes j = {}"
      if "i \<in> slab_items m' sh" "j \<in> Pair c ` set ?ys" for i j
      using that yb(1) unfolding a(2) slab_bytes_def by blast
  qed
  then show "slabs_inv m' ?sh"
    using a(1) ai(1) ch(1) hp(2,3) unfolding slabs_inv_def it by (auto simp: mut split: if_splits)
  show "slab_bytes m' ?sh = slab_bytes m sh \<union> {start..<start + nbytes}"
    using slab_bytes_Un [OF it] ai(3) nb a(3) by simp
qed

section \<open>Bytes of frames\<close>

definition frame_bytes :: "usize \<Rightarrow> nat \<Rightarrow> nat set" where
  "frame_bytes off p = {off + p * 4096..<off + p * 4096 + 4096}"

definition frames_free :: "usize \<Rightarrow> frame_allocator \<Rightarrow> nat set" where
  "frames_free off fa = \<Union> (frame_bytes off ` free_ppns fa)"

definition frames_window :: "usize \<Rightarrow> frame_allocator \<Rightarrow> bool" where
  "frames_window off fa \<longleftrightarrow>
     (\<forall>p \<in> managed_ppns fa. 0 < off + p * 4096 \<and> off + p * 4096 + 4096 \<le> USIZE_LIM)"

lemma frame_bytes_disjoint: "p \<noteq> q \<Longrightarrow> frame_bytes off p \<inter> frame_bytes off q = {}"
proof -
  have "frame_bytes off p \<inter> frame_bytes off q = {}" if "p < q" for p q
  proof -
    have "(p + 1) * 4096 \<le> q * 4096" using that by (intro mult_le_mono1) simp
    then show ?thesis by (auto simp: frame_bytes_def)
  qed
  then show "p \<noteq> q \<Longrightarrow> ?thesis" by (metis Int_commute linorder_neqE_nat)
qed

lemma frame_bytes_run: "\<Union> (frame_bytes off ` {a..<a + n}) = {off + a * 4096..<off + (a + n) * 4096}"
proof (induction n)
  case (Suc n)
  have "{a..<a + Suc n} = insert (a + n) {a..<a + n}" by auto
  then show ?case using Suc by (auto simp: frame_bytes_def)
qed simp

lemma frames_bytes_Diff:
  "\<Union> (frame_bytes off ` (F - E)) = \<Union> (frame_bytes off ` F) - \<Union> (frame_bytes off ` E)"
proof -
  have "p = q" if "x \<in> frame_bytes off p" "x \<in> frame_bytes off q" for p q x
    using frame_bytes_disjoint [of p q off] that by blast
  then show ?thesis by blast
qed

lemma frames_bytes_Int:
  "\<Union> (frame_bytes off ` F) \<inter> \<Union> (frame_bytes off ` E) = {} \<Longrightarrow> E \<inter> F = {}"
proof -
  have "off + p * 4096 \<in> frame_bytes off p" for p by (simp add: frame_bytes_def)
  then show "\<Union> (frame_bytes off ` F) \<inter> \<Union> (frame_bytes off ` E) = {} \<Longrightarrow> E \<inter> F = {}" by blast
qed

lemma frame_extent_bytes:
  assumes "checked_next_power_of_two n = Some fr" "4096 dvd phys"
  shows "\<Union> (frame_bytes off ` frame_extent phys n) = {off + phys..<off + phys + fr * 4096}"
proof -
  have "phys div 4096 * 4096 = phys" using assms(2) by simp
  then have "off + (phys div 4096 + fr) * 4096 = off + phys + fr * 4096"
    by (simp only: distrib_right add.assoc)
  moreover have "frame_extent phys n = {phys div 4096..<phys div 4096 + fr}"
    using assms(1) by (simp add: frame_extent_def)
  ultimately show ?thesis
    using frame_bytes_run [of off "phys div 4096" fr] \<open>phys div 4096 * 4096 = phys\<close>
    by (simp add: add.assoc)
qed

lemma frame_take:
  assumes inv: "frame_inv fa" "frames_window off fa" "linear_translation t off"
    and al: "frame_alloc_frames fa n = Inr (Some phys, fa')"
    and fr: "checked_next_power_of_two n = Some fr"
  shows "translate_up t phys = off + phys" "translate_down t (off + phys) = phys"
    "fr * 4096 dvd phys" "0 < off + phys" "off + phys + fr * 4096 \<le> USIZE_LIM"
    "{off + phys..<off + phys + fr * 4096} \<subseteq> frames_free off fa"
    "frames_free off fa' = frames_free off fa - {off + phys..<off + phys + fr * 4096}"
    "frame_inv fa'" "frames_window off fa'" "frame_registered fa' phys n"
proof -
  note a = frames.alloc_Some [OF inv(1) al]
  have dv: "fr * 4096 dvd phys" using frames.alloc_aligned [OF inv(1) al] fr by simp
  then have d: "4096 dvd phys" by (rule dvd_mult_right)
  note eb = frame_extent_bytes [OF fr d, of off]
  have fr0: "0 < fr" using fr by (rule next_power_of_two_Some) simp
  have ext: "frame_extent phys n = {phys div 4096..<phys div 4096 + fr}"
    using fr by (simp add: frame_extent_def)
  have man: "frame_extent phys n \<subseteq> managed_ppns fa"
    using a frames.free_managed [of fa] by blast
  have p: "phys = phys div 4096 * 4096" using d by simp
  have "phys div 4096 \<in> managed_ppns fa" "phys div 4096 + (fr - 1) \<in> managed_ppns fa"
    using fr0 by (intro subsetD [OF man [unfolded ext]]; simp)+
  then have w: "0 < off + phys div 4096 * 4096"
    "off + (phys div 4096 + (fr - 1)) * 4096 + 4096 \<le> USIZE_LIM"
    by (simp_all only: inv(2) [unfolded frames_window_def, THEN bspec])
  show "0 < off + phys" using w(1) p by simp
  have "(phys div 4096 + (fr - 1)) * 4096 + 4096 = (phys div 4096 + fr) * 4096"
    using fr0 by (cases fr) simp_all
  also have "\<dots> = phys + fr * 4096" using p by (simp only: distrib_right)
  finally have "(phys div 4096 + (fr - 1)) * 4096 + 4096 = phys + fr * 4096" .
  then show lim: "off + phys + fr * 4096 \<le> USIZE_LIM" using w(2) by linarith
  then have lt: "off + phys < USIZE_LIM" using fr0 by linarith
  then show "translate_up t phys = off + phys"
    using inv(3) by (simp add: linear_translation_def usize_add_eq add.commute)
  then show "translate_down t (off + phys) = phys"
    using translate_down_up [OF inv(3), of phys] lt by simp
  show "fr * 4096 dvd phys" by (rule dv)
  show "{off + phys..<off + phys + fr * 4096} \<subseteq> frames_free off fa"
    unfolding frames_free_def eb [symmetric] using a by (intro Union_mono image_mono) blast
  show "frames_free off fa' = frames_free off fa - {off + phys..<off + phys + fr * 4096}"
    unfolding frames_free_def eb [symmetric] using a by (simp only: frames_bytes_Diff)
  show "frame_inv fa'" "frame_registered fa' phys n" using a by blast+
  show "frames_window off fa'"
    using inv(2) frames.alloc_managed [OF inv(1) al] by (simp add: frames_window_def)
qed

section \<open>The invariant of the heap\<close>

definition slabs_free :: "heap \<Rightarrow> nat set" where
  "slabs_free h = (case h_slabs h of None \<Rightarrow> {} | Some sh \<Rightarrow> slab_bytes (h_next h) sh)"

definition heap_free :: "usize \<Rightarrow> heap \<Rightarrow> nat set" where
  "heap_free off h = frames_free off (h_frames h) \<union> slabs_free h"

definition heap_inv :: "usize \<Rightarrow> heap \<Rightarrow> bool" where
  "heap_inv off h \<longleftrightarrow> frame_inv (h_frames h) \<and> frames_window off (h_frames h)
     \<and> linear_translation (h_trans h) off \<and> 4096 dvd off
     \<and> (case h_slabs h of None \<Rightarrow> True | Some sh \<Rightarrow> slabs_inv (h_next h) sh)
     \<and> slabs_free h \<inter> frames_free off (h_frames h) = {}"

definition heap_extent :: "layout \<Rightarrow> usize \<Rightarrow> nat set" where
  "heap_extent l p =
     (if class_for l = Large then
        (case large_extent_frames l of None \<Rightarrow> {} | Some n \<Rightarrow>
           (case checked_next_power_of_two n of None \<Rightarrow> {} | Some fr \<Rightarrow> {p..<p + fr * 4096}))
      else {p..<p + class_size (class_for l)})"

text \<open>A pointer the client may give back with layout \<open>l\<close>.\<close>

definition heap_held :: "usize \<Rightarrow> heap \<Rightarrow> layout \<Rightarrow> usize \<Rightarrow> bool" where
  "heap_held off h l p \<longleftrightarrow> heap_extent l p \<inter> heap_free off h = {} \<and> heap_extent l p \<noteq> {} \<and>
     (if class_for l = Large then
        (\<exists>n phys. large_extent_frames l = Some n \<and> p = off + phys
           \<and> translate_down (h_trans h) p = phys \<and> frame_registered (h_frames h) phys n)
      else h_slabs h \<noteq> None \<and> item_ok (class_for l, p)) \<and> 0 < p"

lemma large_extent_frames_Some:
  assumes "valid_layout l"
  shows "\<exists>n. large_extent_frames l = Some n \<and> n \<noteq> 0 \<and> lay_size l \<le> n * 4096 \<and> lay_align l \<le> n * 4096
    \<and> n \<le> 2 ^ 52"
proof -
  obtain k where k: "lay_align l = 2 ^ k" and s: "lay_size l + lay_align l \<le> 2 ^ 63"
    using assms by (auto simp: valid_layout_def)
  let ?s = "max (lay_size l) 1"
  define r where "r = next_multiple_of ?s 4096"
  have r: "r < ?s + 4096" "?s \<le> r" "4096 dvd r"
    unfolding r_def by (rule next_multiple_of_less, simp) (rule next_multiple_of_ge, simp, rule next_multiple_of_dvd)
  have "0 < lay_align l" using k by simp
  then have b: "?s \<le> 2 ^ 63" "lay_align l \<le> 2 ^ 63" using s by linarith+
  have "r < USIZE_LIM" using r(1) b by (simp add: USIZE_LIM_def)
  then have c: "checked_next_multiple_of ?s PAGE_SIZE = Some r"
    by (simp add: checked_next_multiple_of_def r_def Let_def)
  let ?n = "max (r div 4096) (max (lay_align l) 4096 div 4096)"
  have "large_extent_frames l = Some ?n" using c by (simp add: large_extent_frames_def)
  moreover have "lay_size l \<le> ?n * 4096"
  proof -
    have "r div 4096 * 4096 \<le> ?n * 4096" by (intro mult_le_mono1) simp
    then show ?thesis using r by (simp del: max_mult_distrib_right)
  qed
  moreover have "lay_align l \<le> ?n * 4096"
  proof -
    have "4096 dvd max (lay_align l) 4096"
    proof (cases "lay_align l \<le> 4096")
      case False
      then have "12 \<le> k"
        using k power_strict_increasing_iff [of "2::nat" k 12] by (simp add: not_le)
      then have "2 ^ 12 dvd lay_align l" unfolding k by (rule le_imp_power_dvd)
      then show ?thesis using False by simp
    qed simp
    then have "lay_align l \<le> max (lay_align l) 4096 div 4096 * 4096" by simp
    also have "\<dots> \<le> ?n * 4096" by (intro mult_le_mono1) simp
    finally show ?thesis .
  qed
  moreover have "?n \<noteq> 0"
  proof -
    have "1 \<le> max (lay_align l) 4096 div 4096" by (simp add: div_greater_zero_iff max_def Suc_leI)
    then show ?thesis by linarith
  qed
  moreover have "?n \<le> 2 ^ 52"
  proof -
    have "r \<le> 2 ^ 63 + 4096" using r(1) b(1) by linarith
    then have "r div 4096 \<le> (2 ^ 63 + 4096) div 4096" by (rule div_le_mono)
    moreover have "max (lay_align l) 4096 div 4096 \<le> 2 ^ 63 div 4096"
      using b(2) by (intro div_le_mono) simp
    ultimately show ?thesis by simp
  qed
  ultimately show ?thesis by blast
qed

section \<open>The operations keep the invariant\<close>

lemma held_mono:
  assumes "heap_held off h k q" "heap_free off h' \<subseteq> heap_free off h" "h_trans h' = h_trans h"
    and "h_slabs h \<noteq> None \<Longrightarrow> h_slabs h' \<noteq> None"
    and "\<And>p n. frame_registered (h_frames h) p n \<Longrightarrow> frame_registered (h_frames h') p n"
  shows "heap_held off h' k q"
  using assms unfolding heap_held_def by (auto split: if_splits)

lemma slab_put_same: "slab_mut sh c = Some s \<Longrightarrow> slab_put sh c s = sh"
  by (cases c) auto

lemma slab_bytes_Diff:
  assumes "slabs_inv m sh" "i \<in> slab_items m sh" "slab_items m' sh' = slab_items m sh - {i}"
  shows "slab_bytes m' sh' = slab_bytes m sh - item_bytes i"
  using assms unfolding slab_bytes_def slabs_inv_def disjoint_family_on_def by blast

lemma slab_alloc_step:
  assumes inv: "heap_inv off h" and sh: "h_slabs h = Some sh" and c: "class_for l \<noteq> Large"
    and s: "slab_mut sh (class_for l) = Some s"
  shows "fl_head s = 0 \<Longrightarrow> slab_heap_allocate h sh l = Inr (None, h)"
    and "fl_head s \<noteq> 0 \<Longrightarrow> \<exists>h'. slab_heap_allocate h sh l = Inr (Some (fl_head s), h')
      \<and> heap_inv off h' \<and> h_frames h' = h_frames h \<and> h_trans h' = h_trans h \<and> h_slabs h' \<noteq> None
      \<and> item_ok (class_for l, fl_head s)
      \<and> heap_extent l (fl_head s) \<subseteq> heap_free off h
      \<and> heap_free off h' = heap_free off h - heap_extent l (fl_head s)"
proof -
  have eq: "slab_heap_allocate h sh l = (let (r, s') = slab_allocate (h_next h) s in
       Inr (r, h\<lparr>h_slabs := Some (slab_put sh (class_for l) s')\<rparr>))"
    using s c by (cases "class_for l") (simp_all add: slab_heap_allocate_def)
  show "slab_heap_allocate h sh l = Inr (None, h)" if "fl_head s = 0"
  proof -
    have "slab_allocate (h_next h) s = (None, s)" using that by (simp add: slab_allocate_def fl_pop_def)
    then show ?thesis using sh by (simp add: eq slab_put_same [OF s])
  qed
  assume p: "fl_head s \<noteq> 0"
  let ?m = "h_next h" and ?c = "class_for l" and ?x = "fl_head s"
  let ?sh = "slab_put sh ?c (s\<lparr>fl_head := ?m ?x\<rparr>)"
  let ?h = "h\<lparr>h_slabs := Some ?sh\<rparr>"
  have si: "slabs_inv ?m sh" using inv sh by (simp add: heap_inv_def)
  note pop = pop_item [OF si s p]
  have ok: "item_ok (?c, ?x)" using si pop(3) by (auto simp: slabs_inv_def)
  have ext: "heap_extent l ?x = item_bytes (?c, ?x)" using c by (simp add: heap_extent_def)
  have sb: "slab_bytes ?m ?sh = slab_bytes ?m sh - item_bytes (?c, ?x)"
    using slab_bytes_Diff [OF si pop(3,2)] .
  have sub: "item_bytes (?c, ?x) \<subseteq> slab_bytes ?m sh" using pop(3) unfolding slab_bytes_def by blast
  have dis: "slab_bytes ?m sh \<inter> frames_free off (h_frames h) = {}"
    using inv sh by (simp add: heap_inv_def slabs_free_def)
  have "slab_heap_allocate h sh l = Inr (Some ?x, ?h)"
    using p by (simp add: eq slab_allocate_def fl_pop_def)
  moreover have "heap_inv off ?h"
    using inv sh pop(1) dis sb by (auto simp: heap_inv_def slabs_free_def)
  moreover have "heap_free off ?h = heap_free off h - item_bytes (?c, ?x)"
    using sh sb sub dis unfolding heap_free_def slabs_free_def by (simp del: item_bytes.simps) blast
  moreover have "item_bytes (?c, ?x) \<subseteq> heap_free off h"
    using sub sh by (auto simp: heap_free_def slabs_free_def simp del: item_bytes.simps)
  ultimately show "\<exists>h'. slab_heap_allocate h sh l = Inr (Some (fl_head s), h')
      \<and> heap_inv off h' \<and> h_frames h' = h_frames h \<and> h_trans h' = h_trans h \<and> h_slabs h' \<noteq> None
      \<and> item_ok (class_for l, fl_head s)
      \<and> heap_extent l (fl_head s) \<subseteq> heap_free off h
      \<and> heap_free off h' = heap_free off h - heap_extent l (fl_head s)"
    using ok unfolding ext by (intro exI [of _ ?h]) simp
qed

lemma next_power_of_two_8: "checked_next_power_of_two 8 = Some 8"
  using next_power_of_two_eqI [of 3 8] by simp

lemma grow_step:
  assumes inv: "heap_inv off h" and sh: "h_slabs h = Some sh" and c: "c \<noteq> Large"
  shows "grow_from_frames h c = Inr (False, h) \<or>
    (\<exists>h' sh'. grow_from_frames h c = Inr (True, h') \<and> heap_inv off h' \<and> h_slabs h' = Some sh'
      \<and> (\<exists>s. slab_mut sh' c = Some s \<and> fl_head s \<noteq> 0)
      \<and> heap_free off h' = heap_free off h \<and> h_trans h' = h_trans h
      \<and> (\<forall>p n. frame_registered (h_frames h) p n \<longrightarrow> frame_registered (h_frames h') p n))"
proof (cases "h_growth h")
  case False
  then show ?thesis by (simp add: grow_from_frames_def)
next
  case True
  have hi: "frame_inv (h_frames h)" "frames_window off (h_frames h)" "linear_translation (h_trans h) off"
    "4096 dvd off" "slabs_inv (h_next h) sh"
    and dis: "slab_bytes (h_next h) sh \<inter> frames_free off (h_frames h) = {}"
    using inv sh by (simp_all add: heap_inv_def slabs_free_def)
  obtain r fa where al: "frame_alloc_frames (h_frames h) 8 = Inr (r, fa)"
    using frames.alloc_total [OF hi(1)] by blast
  show ?thesis
  proof (cases r)
    case None
    then have "fa = h_frames h" using al frames.alloc_None [OF hi(1)] by blast
    then show ?thesis using True c al None by (simp add: grow_from_frames_def)
  next
    case (Some phys)
    note t = frame_take [OF hi(1-3) al [unfolded Some] next_power_of_two_8]
    let ?st = "off + phys"
    have d: "class_size c dvd ?st"
    proof -
      have "4096 dvd phys" using t(3) by (rule dvd_mult_right)
      then have "4096 dvd ?st" using hi(4) by simp
      with class_size_dvd [OF c] show ?thesis by (rule dvd_trans)
    qed
    have d8: "class_size c dvd 32768"
      using class_size_dvd [OF c] dvd_trans [of "class_size c" 4096 32768] by simp
    have "{?st..<?st + 32768} \<inter> slab_bytes (h_next h) sh = {}" using t(6) dis by auto
    from slab_heap_grow_ok [OF hi(5) c d t(4) d8 _ this] t(5) obtain m' sh' where
      g: "slab_heap_grow (h_next h) sh c ?st 32768 = Inr (m', sh')" "slabs_inv m' sh'"
      "slab_items m' sh' = slab_items (h_next h) sh \<union> Pair c ` set (addrs ?st (class_size c) (32768 div class_size c))"
      "slab_bytes m' sh' = slab_bytes (h_next h) sh \<union> {?st..<?st + 32768}" by auto
    let ?h = "h\<lparr>h_frames := fa, h_next := m', h_slabs := Some sh'\<rparr>"
    obtain s where s: "slab_mut sh' c = Some s" using slab_mut_Some [OF c] by blast
    have "0 < 32768 div class_size c"
      using c d8 by (simp add: div_greater_zero_iff dvd_imp_le)
    then have "?st \<in> set (addrs ?st (class_size c) (32768 div class_size c))"
      by (force simp: addrs_def)
    then have "(c, ?st) \<in> slab_items m' sh'" using g(3) by blast
    then have "blocks m' (fl_head s) \<noteq> []" using s by (auto simp: slab_items_def)
    then have ne: "fl_head s \<noteq> 0" using blocks_eq [of m' 0 "[]"] by (metis chain.simps(1))
    have "heap_inv off ?h"
      using inv t(7-9) g(2,4) dis by (auto simp: heap_inv_def slabs_free_def)
    moreover have "heap_free off ?h = heap_free off h"
      using t(6,7) g(4) sh by (auto simp: heap_free_def slabs_free_def)
    moreover have "grow_from_frames h c = Inr (True, ?h)"
      using True c al Some sh g(1) t(1) by (simp add: grow_from_frames_def)
    moreover have "frame_registered (h_frames h) p n \<Longrightarrow> frame_registered fa p n" for p n
      using frames.alloc_registered [OF hi(1) al] .
    ultimately show ?thesis using s ne by (intro disjI2 exI [of _ ?h] exI [of _ sh']) auto
  qed
qed

lemma heap_extent_small: "class_for l \<noteq> Large \<Longrightarrow> heap_extent l p = item_bytes (class_for l, p)"
  by (simp add: heap_extent_def)

lemma small_alloc:
  assumes inv: "heap_inv off h" and c: "class_for l \<noteq> Large"
  shows "\<exists>p h'. heap_alloc h l = Inr (p, h') \<and> heap_inv off h'
    \<and> (p = 0 \<longrightarrow> heap_free off h' = heap_free off h)
    \<and> (p \<noteq> 0 \<longrightarrow> heap_held off h' l p \<and> class_size (class_for l) dvd p
         \<and> heap_extent l p \<subseteq> heap_free off h \<and> heap_free off h' = heap_free off h - heap_extent l p)
    \<and> (\<forall>k q. heap_held off h k q \<longrightarrow> heap_held off h' k q)"
    (is "\<exists>p h'. ?R p h'")
proof (cases "h_slabs h")
  case None
  then show ?thesis using inv c by (simp add: heap_alloc_def ALLOC_FUEL_def numeral_2_eq_2)
next
  case (Some sh)
  let ?c = "class_for l"
  have round: "\<exists>h'. slab_heap_allocate g gs l = Inr (Some (fl_head s), h') \<and> fl_head s \<noteq> 0
      \<and> heap_inv off h' \<and> heap_held off h' l (fl_head s) \<and> ?c \<noteq> Large
      \<and> class_size ?c dvd fl_head s \<and> heap_extent l (fl_head s) \<subseteq> heap_free off g
      \<and> heap_free off h' = heap_free off g - heap_extent l (fl_head s)
      \<and> (\<forall>k q. heap_held off g k q \<longrightarrow> heap_held off h' k q)"
    if g: "heap_inv off g" "h_slabs g = Some gs" "slab_mut gs ?c = Some s" "fl_head s \<noteq> 0" for g gs s
  proof -
    obtain h' where h': "slab_heap_allocate g gs l = Inr (Some (fl_head s), h')" "heap_inv off h'"
      "h_frames h' = h_frames g" "h_trans h' = h_trans g" "h_slabs h' \<noteq> None"
      "item_ok (?c, fl_head s)" "heap_extent l (fl_head s) \<subseteq> heap_free off g"
      "heap_free off h' = heap_free off g - heap_extent l (fl_head s)"
      using slab_alloc_step(2) [OF g(1,2) c g(3,4)] by blast
    have "heap_held off h' k q" if "heap_held off g k q" for k q
      using that h'(3-5,8) by (rule_tac held_mono) auto
    moreover have "heap_held off h' l (fl_head s)"
      using h'(5,6,8) c g(4) by (auto simp: heap_held_def heap_extent_def)
    ultimately show ?thesis using h' g(4) c by (auto simp: item_ok_def)
  qed
  obtain s where s: "slab_mut sh ?c = Some s" using slab_mut_Some [OF c] by blast
  have run: "heap_alloc h l = alloc_loop (Suc (Suc 0)) h l"
    using c by (simp add: heap_alloc_def ALLOC_FUEL_def numeral_2_eq_2)
  show ?thesis
  proof (cases "fl_head s = 0")
    case False
    then show ?thesis using round [OF inv Some s] Some run by fastforce
  next
    case True
    note full = slab_alloc_step(1) [OF inv Some c s True]
    from grow_step [OF inv Some c] show ?thesis
    proof (elim disjE exE conjE)
      assume "grow_from_frames h ?c = Inr (False, h)"
      then show ?thesis using run full Some inv by simp
    next
      fix h1 sh1 s1
      assume h1: "grow_from_frames h ?c = Inr (True, h1)" "heap_inv off h1" "h_slabs h1 = Some sh1"
        "slab_mut sh1 ?c = Some s1" "fl_head s1 \<noteq> 0" "heap_free off h1 = heap_free off h"
        "h_trans h1 = h_trans h"
        "\<forall>p n. frame_registered (h_frames h) p n \<longrightarrow> frame_registered (h_frames h1) p n"
      have "heap_held off h1 k q" if "heap_held off h k q" for k q
        by (rule held_mono [OF that]) (use h1 in auto)
      then show ?thesis using round [OF h1(2-5)] h1(1,3,6) run full Some by fastforce
    qed
  qed
qed

lemma large_alloc:
  assumes inv: "heap_inv off h" and v: "valid_layout l" and c: "class_for l = Large"
    and ao: "lay_align l dvd off"
  shows "\<exists>p h'. heap_alloc h l = Inr (p, h') \<and> heap_inv off h'
    \<and> (p = 0 \<longrightarrow> heap_free off h' = heap_free off h)
    \<and> (p \<noteq> 0 \<longrightarrow> heap_held off h' l p \<and> lay_align l dvd p \<and> {p..<p + lay_size l} \<subseteq> heap_extent l p
         \<and> heap_extent l p \<subseteq> heap_free off h \<and> heap_free off h' = heap_free off h - heap_extent l p)
    \<and> (\<forall>k q. heap_held off h k q \<longrightarrow> heap_held off h' k q)"
proof (cases "h_growth h")
  case False
  then show ?thesis using inv c by (simp add: heap_alloc_def alloc_large_def)
next
  case True
  obtain n where n: "large_extent_frames l = Some n" "n \<noteq> 0" "lay_size l \<le> n * 4096"
    "lay_align l \<le> n * 4096" "n \<le> 2 ^ 52" using large_extent_frames_Some [OF v] by blast
  have hi: "frame_inv (h_frames h)" "frames_window off (h_frames h)" "linear_translation (h_trans h) off"
    and dis: "slabs_free h \<inter> frames_free off (h_frames h) = {}"
    using inv by (simp_all add: heap_inv_def)
  obtain r fa where al: "frame_alloc_frames (h_frames h) n = Inr (r, fa)"
    using frames.alloc_total [OF hi(1)] by blast
  let ?h = "h\<lparr>h_frames := fa\<rparr>"
  show ?thesis
  proof (cases r)
    case None
    then have "fa = h_frames h" using al frames.alloc_None [OF hi(1)] by blast
    then show ?thesis using inv True c n(1) al None by (simp add: heap_alloc_def alloc_large_def)
  next
    case (Some phys)
    obtain fr where fr: "checked_next_power_of_two n = Some fr"
      using frames.alloc_aligned [OF hi(1) al [unfolded Some]] by blast
    have nfr: "n \<le> fr" using fr by (rule next_power_of_two_Some)
    obtain j where j: "fr = 2 ^ j" using fr by (rule next_power_of_two_Some)
    note t = frame_take [OF hi al [unfolded Some] fr]
    let ?p = "off + phys"
    have ext: "heap_extent l ?p = {?p..<?p + fr * 4096}" using c n(1) fr by (simp add: heap_extent_def)
    have sf: "slabs_free ?h = slabs_free h" by (simp add: slabs_free_def split: option.split)
    have "lay_align l dvd phys"
    proof -
      obtain k where k: "lay_align l = 2 ^ k" using v by (auto simp: valid_layout_def)
      have "n * 4096 \<le> fr * 4096" using nfr by simp
      then have le: "lay_align l \<le> fr * 4096" using n(4) by linarith
      have "fr * 4096 = 2 ^ (j + 12)" using j by (simp add: power_add)
      from pow2_dvd [OF k this le] have "lay_align l dvd fr * 4096" .
      then show ?thesis using t(3) by (rule dvd_trans)
    qed
    then have ad: "lay_align l dvd ?p" using ao by simp
    have hf: "heap_free off ?h = heap_free off h - heap_extent l ?p"
      using t(6,7) dis unfolding heap_free_def ext sf by (auto simp: heap_inv_def)
    have hinv: "heap_inv off ?h"
      using inv t(7-9) dis sf by (auto simp: heap_inv_def split: option.splits)
    have ne: "heap_extent l ?p \<noteq> {}" using j unfolding ext by simp
    have held: "heap_held off ?h l ?p"
      using hf ne t(2,4,10) n(1) c by (auto simp: heap_held_def)
    have sub: "heap_extent l ?p \<subseteq> heap_free off h" using t(6) by (auto simp: ext heap_free_def)
    have szx: "{?p..<?p + lay_size l} \<subseteq> heap_extent l ?p"
    proof -
      have "n * 4096 \<le> fr * 4096" using nfr by simp
      then have "lay_size l \<le> fr * 4096" using n(3) by linarith
      then show ?thesis by (auto simp: ext)
    qed
    have mono: "heap_held off ?h k q" if "heap_held off h k q" for k q
      by (rule held_mono [OF that]) (use hf frames.alloc_registered [OF hi(1) al] in auto)
    have run: "heap_alloc h l = Inr (?p, ?h)"
      using True c n(1) al Some t(1) by (simp add: heap_alloc_def alloc_large_def)
    show ?thesis
      using run hinv hf held ad szx sub mono t(4) by (intro exI [of _ ?p] exI [of _ ?h]) auto
  qed
qed

text \<open>Giving back a held pointer.\<close>

lemma dealloc_held:
  assumes inv: "heap_inv off h" and held: "heap_held off h l p"
  shows "\<exists>h'. heap_dealloc h p l = Inr h' \<and> heap_inv off h'
    \<and> heap_free off h' = heap_free off h \<union> heap_extent l p
    \<and> (\<forall>k q. heap_held off h k q \<and> heap_extent k q \<inter> heap_extent l p = {} \<longrightarrow> heap_held off h' k q)"
proof (cases "class_for l = Large")
  case False
  let ?c = "class_for l" and ?m = "h_next h"
  obtain sh where sh: "h_slabs h = Some sh" and ok: "item_ok (?c, p)" and p: "0 < p"
    using held False by (auto simp: heap_held_def)
  obtain s where s: "slab_mut sh ?c = Some s" using slab_mut_Some [OF False] by blast
  have si: "slabs_inv ?m sh" and dis: "slab_bytes ?m sh \<inter> frames_free off (h_frames h) = {}"
    using inv sh by (simp_all add: heap_inv_def slabs_free_def)
  have ext: "heap_extent l p = item_bytes (?c, p)" by (rule heap_extent_small [OF False])
  have out: "item_bytes (?c, p) \<inter> slab_bytes ?m sh = {}"
    "item_bytes (?c, p) \<inter> frames_free off (h_frames h) = {}"
    using held sh unfolding heap_held_def ext heap_free_def slabs_free_def by auto
  let ?m' = "?m(p := fl_head s)" and ?sh = "slab_put sh ?c (s\<lparr>fl_head := p\<rparr>)"
  let ?h = "h\<lparr>h_next := ?m', h_slabs := Some ?sh\<rparr>"
  note push = push_item [OF si s ok out(1)]
  have sb: "slab_bytes ?m' ?sh = item_bytes (?c, p) \<union> slab_bytes ?m sh"
    unfolding slab_bytes_def push(2) by simp
  have "heap_dealloc h p l = Inr ?h"
    using p False sh s
    by (cases ?c) (simp_all add: heap_dealloc_def slab_heap_deallocate_def slab_deallocate_def fl_push_def)
  moreover have "heap_inv off ?h"
    using inv push(1) dis out(2) sb by (auto simp: heap_inv_def slabs_free_def simp del: item_bytes.simps)
  moreover have hf: "heap_free off ?h = heap_free off h \<union> heap_extent l p"
    using sb sh ext by (auto simp: heap_free_def slabs_free_def simp del: item_bytes.simps)
  moreover have "heap_held off ?h k q"
    if "heap_held off h k q" "heap_extent k q \<inter> heap_extent l p = {}" for k q
    using that hf unfolding heap_held_def by (auto split: if_splits)
  ultimately show ?thesis by blast
next
  case True
  obtain n phys where n: "large_extent_frames l = Some n" "p = off + phys"
    "translate_down (h_trans h) p = phys" "frame_registered (h_frames h) phys n"
    and p: "0 < p" using held unfolding heap_held_def if_P [OF True] by blast
  have hi: "frame_inv (h_frames h)" "frames_window off (h_frames h)"
    and dis: "slabs_free h \<inter> frames_free off (h_frames h) = {}"
    using inv by (simp_all add: heap_inv_def)
  obtain fr where fr: "checked_next_power_of_two n = Some fr" and d: "4096 dvd phys"
    using n(4) by (auto simp: frame_registered_def dvd_eq_mod_eq_0 split: option.splits)
  have ext: "heap_extent l p = {p..<p + fr * 4096}" using True n(1) fr by (simp add: heap_extent_def)
  have eb: "\<Union> (frame_bytes off ` frame_extent phys n) = heap_extent l p"
    using frame_extent_bytes [OF fr d, of off] unfolding ext n(2) [symmetric] .
  have out: "heap_extent l p \<inter> heap_free off h = {}" using held by (simp add: heap_held_def)
  have "frame_extent phys n \<inter> free_ppns (h_frames h) = {}"
  proof (rule frames_bytes_Int)
    show "\<Union> (frame_bytes off ` free_ppns (h_frames h)) \<inter> \<Union> (frame_bytes off ` frame_extent phys n) = {}"
      using out unfolding eb heap_free_def frames_free_def by blast
  qed
  from frames.release_ok [OF hi(1) n(4) this] obtain fa where fa:
    "frame_free_frames (h_frames h) phys n = Inr fa" "frame_inv fa"
    "free_ppns fa = free_ppns (h_frames h) \<union> frame_extent phys n"
    "\<forall>q m. frame_registered (h_frames h) q m \<longrightarrow> frame_registered fa q m"
    "managed_ppns fa = managed_ppns (h_frames h)" by blast
  let ?h = "h\<lparr>h_frames := fa\<rparr>"
  have ff: "frames_free off fa = frames_free off (h_frames h) \<union> heap_extent l p"
    unfolding frames_free_def fa(3) image_Un Union_Un_distrib eb ..
  have sf: "slabs_free ?h = slabs_free h" by (simp add: slabs_free_def split: option.split)
  have "heap_dealloc h p l = Inr ?h"
    using p True n(1,3) fa(1) by (simp add: heap_dealloc_def dealloc_large_def)
  moreover have "heap_inv off ?h"
  proof -
    have "frames_window off fa" using hi(2) fa(5) by (simp add: frames_window_def)
    moreover have "slabs_free h \<inter> frames_free off fa = {}"
      using dis out unfolding ff heap_free_def by blast
    ultimately show ?thesis using inv fa(2) sf by (simp add: heap_inv_def split: option.splits)
  qed
  moreover have hf: "heap_free off ?h = heap_free off h \<union> heap_extent l p"
    unfolding heap_free_def sf using ff by auto
  moreover have "heap_held off ?h k q"
    if "heap_held off h k q" "heap_extent k q \<inter> heap_extent l p = {}" for k q
    using that hf fa(4) unfolding heap_held_def by (auto split: if_splits)
  ultimately show ?thesis by blast
qed

section \<open>Initialisation\<close>

definition empty_slabs :: slab_heap where
  "empty_slabs = \<lparr>slab_64 = \<lparr>block_size = 64, fl_head = 0\<rparr>, slab_128 = \<lparr>block_size = 128, fl_head = 0\<rparr>,
     slab_256 = \<lparr>block_size = 256, fl_head = 0\<rparr>, slab_512 = \<lparr>block_size = 512, fl_head = 0\<rparr>,
     slab_1024 = \<lparr>block_size = 1024, fl_head = 0\<rparr>, slab_2048 = \<lparr>block_size = 2048, fl_head = 0\<rparr>,
     slab_4096 = \<lparr>block_size = 4096, fl_head = 0\<rparr>\<rparr>"

lemma empty_slabs_mut:
  "c \<noteq> Large \<Longrightarrow> slab_mut empty_slabs c = Some \<lparr>block_size = class_size c, fl_head = 0\<rparr>"
  by (cases c) (simp_all add: empty_slabs_def)

lemma empty_slabs_inv: "slabs_inv m empty_slabs" "slab_bytes m empty_slabs = {}"
proof -
  have b: "blocks m 0 = []" by (rule blocks_eq) simp
  have m: "s = \<lparr>block_size = class_size c, fl_head = 0\<rparr>" if "slab_mut empty_slabs c = Some s" for c s
    using that empty_slabs_mut [of c] by (cases "c = Large") auto
  have it: "slab_items m empty_slabs = {}" using m b by (force simp: slab_items_def)
  show "slab_bytes m empty_slabs = {}" by (simp add: slab_bytes_def it)
  have "\<exists>xs. chain m 0 xs" by (rule exI [of _ "[]"]) simp
  then show "slabs_inv m empty_slabs"
    unfolding slabs_inv_def it by (auto dest!: m simp: disjoint_family_on_def)
qed

text \<open>The seven \<open>Slab::new\<close> calls, one after the other.\<close>

fun new_slabs :: "nextmem \<Rightarrow> slab_heap \<Rightarrow> usize \<Rightarrow> usize \<Rightarrow> slab_class list \<Rightarrow> nextmem \<times> slab_heap" where
  "new_slabs m sh start slot [] = (m, sh)"
| "new_slabs m sh start slot (c # cs) =
     (let (m', s) = slab_new m start slot (class_size c) in
      new_slabs m' (slab_put sh c s) (start + slot) slot cs)"

lemma new_slabs_ok:
  assumes "slabs_inv m sh" "\<forall>c \<in> set cs. slab_mut sh c = Some \<lparr>block_size = class_size c, fl_head = 0\<rparr>"
    and "distinct cs" "Large \<notin> set cs" "4096 dvd start" "0 < start" "4096 dvd slot"
    and "start + length cs * slot \<le> USIZE_LIM" "{start..<start + length cs * slot} \<inter> slab_bytes m sh = {}"
    and "new_slabs m sh start slot cs = (m', sh')"
  shows "slabs_inv m' sh' \<and> slab_bytes m' sh' = slab_bytes m sh \<union> {start..<start + length cs * slot}"
  using assms
proof (induction cs arbitrary: m sh start)
  case Nil
  then show ?case by simp
next
  case (Cons c cs)
  have c: "c \<noteq> Large" using Cons.prems(4) by auto
  obtain m1 s1 where n: "slab_new m start slot (class_size c) = (m1, s1)" by force
  have d: "class_size c dvd start" "class_size c dvd slot"
    using Cons.prems(5,7) dvd_trans [OF class_size_dvd [OF c]] by auto
  have lim: "start + slot \<le> USIZE_LIM" using Cons.prems(8) by simp
  have out: "{start..<start + slot} \<inter> slab_bytes m sh = {}"
    using Cons.prems(9) by (auto simp: disjoint_iff)
  have mc: "slab_mut sh c = Some \<lparr>block_size = class_size c, fl_head = 0\<rparr>" using Cons.prems(2) by simp
  note k = slab_new_ok [OF Cons.prems(1) mc d(1) Cons.prems(6) d(2) lim out n]
  have "slabs_inv m' sh' \<and> slab_bytes m' sh'
      = slab_bytes m1 (slab_put sh c s1) \<union> {start + slot..<start + slot + length cs * slot}"
  proof (rule Cons.IH [OF k(1)])
    show "\<forall>d \<in> set cs. slab_mut (slab_put sh c s1) d = Some \<lparr>block_size = class_size d, fl_head = 0\<rparr>"
      using Cons.prems(2,3) by (auto simp: slab_mut_put)
    show "{start + slot..<start + slot + length cs * slot} \<inter> slab_bytes m1 (slab_put sh c s1) = {}"
      using Cons.prems(9) unfolding k(2) by (auto simp: disjoint_iff)
    show "new_slabs m1 (slab_put sh c s1) (start + slot) slot cs = (m', sh')"
      using Cons.prems(10) n by simp
  qed (use Cons.prems in simp_all)
  moreover have "{start..<start + slot} \<union> {start + slot..<start + slot + length cs * slot}
      = {start..<start + length (c # cs) * slot}"
    by (subst ivl_disj_un_two(3)) (simp_all add: add.assoc)
  ultimately show ?case unfolding k(2) by (simp only: Un_assoc)
qed

abbreviation "slab_classes \<equiv> [Bytes64, Bytes128, Bytes256, Bytes512, Bytes1024, Bytes2048, Bytes4096]"

lemma slab_heap_new_eq:
  assumes "4096 dvd start" "28672 dvd sz" "0 < sz" "start + sz \<le> USIZE_LIM"
  shows "slab_heap_new m start sz = Inr (new_slabs m empty_slabs start (sz div 7) slab_classes)"
proof -
  define slot where "slot = sz div 7"
  have "28672 \<le> sz" using assms(2,3) by (simp add: dvd_imp_le)
  have "7 dvd sz" using assms(2) by (rule dvd_trans [rotated]) simp
  then have sz: "sz = 7 * slot" by (simp add: slot_def)
  have "0 < slot" using sz assms(3) by simp
  then have "start + 6 * slot < USIZE_LIM" using sz assms(4) by linarith
  then have a: "usize_add start slot = start + slot" "usize_add start (2 * slot) = start + slot + slot"
    "usize_add start (3 * slot) = start + slot + slot + slot"
    "usize_add start (4 * slot) = start + slot + slot + slot + slot"
    "usize_add start (5 * slot) = start + slot + slot + slot + slot + slot"
    "usize_add start (6 * slot) = start + slot + slot + slot + slot + slot + slot"
    by (simp_all add: usize_add_eq)
  show ?thesis
    using assms(1,2) \<open>28672 \<le> sz\<close>
    by (simp add: slab_heap_new_def a dvd_eq_mod_eq_0 Let_def empty_slabs_def split: prod.split
          flip: slot_def)
qed

lemma heap_init_ok:
  assumes inv: "heap_inv off h" and st: "4096 dvd start" "0 < start" "28672 dvd sz" "0 < sz"
    "start + sz \<le> USIZE_LIM" and none: "h_slabs h = None"
    and dis: "{start..<start + sz} \<inter> frames_free off (h_frames h) = {}"
  shows "\<exists>h'. heap_init h start sz = Inr h' \<and> heap_inv off h'
    \<and> heap_free off h' = heap_free off h \<union> {start..<start + sz}"
proof -
  obtain m sh where n: "new_slabs (h_next h) empty_slabs start (sz div 7) slab_classes = (m, sh)"
    by force
  have len7: "length slab_classes = 7" by simp
  have sv: "7 * (sz div 7) = sz" using st(3) dvd_trans [of 7 28672 sz] by simp
  have "4096 dvd sz div 7"
  proof -
    obtain k where "sz = 28672 * k" using st(3) by (rule dvdE)
    then show ?thesis by simp
  qed
  then have "slabs_inv m sh \<and> slab_bytes m sh
      = slab_bytes (h_next h) empty_slabs \<union> {start..<start + length slab_classes * (sz div 7)}"
    using st sv empty_slabs_inv(2) empty_slabs_mut
    by (intro new_slabs_ok [OF empty_slabs_inv(1) _ _ _ st(1,2) _ _ _ n])
       (simp_all del: slab_mut.simps)
  then have k: "slabs_inv m sh" "slab_bytes m sh = {start..<start + sz}"
    using len7 sv empty_slabs_inv(2) by (simp_all only: Un_empty_left)
  let ?h = "h\<lparr>h_next := m, h_slabs := Some sh\<rparr>"
  have "heap_init h start sz = Inr ?h"
    using slab_heap_new_eq [OF st(1,3,4,5)] n by (simp add: heap_init_def)
  moreover have "heap_inv off ?h" using inv k dis by (simp add: heap_inv_def slabs_free_def)
  moreover have "heap_free off ?h = heap_free off h \<union> {start..<start + sz}"
    using k(2) none by (simp add: heap_free_def slabs_free_def)
  ultimately show ?thesis by blast
qed

section \<open>The interface of an allocator\<close>

datatype 'r client_op = Alloc 'r | Free nat

definition remove_nth :: "nat \<Rightarrow> 'a list \<Rightarrow> 'a list" where
  "remove_nth i xs = take i xs @ drop (Suc i) xs"

text \<open>
  A client that allocates and gives back, in any order, pointers it holds; the ledger
  lists what it holds.
\<close>

fun run_client ::
  "('s \<Rightarrow> 'r \<Rightarrow> fault + usize \<times> 's) \<Rightarrow> ('s \<Rightarrow> usize \<Rightarrow> 'r \<Rightarrow> fault + 's) \<Rightarrow>
   's \<Rightarrow> ('r \<times> usize) list \<Rightarrow> 'r client_op list \<Rightarrow> fault + 's \<times> ('r \<times> usize) list" where
  "run_client al re s L [] = Inr (s, L)"
| "run_client al re s L (Alloc r # ops) =
     bnd (al s r) (\<lambda>(p, s'). run_client al re s' (if p = 0 then L else (r, p) # L) ops)"
| "run_client al re s L (Free i # ops) =
     (if i < length L then
        bnd (re s (snd (L ! i)) (fst (L ! i))) (\<lambda>s'. run_client al re s' (remove_nth i L) ops)
      else run_client al re s L ops)"

fun ledger_apart :: "('r \<Rightarrow> usize \<Rightarrow> nat set) \<Rightarrow> ('r \<times> usize) list \<Rightarrow> bool" where
  "ledger_apart ext [] = True"
| "ledger_apart ext ((r, p) # L) \<longleftrightarrow> (\<forall>k q. (k, q) \<in> set L \<longrightarrow> ext r p \<inter> ext k q = {}) \<and> ledger_apart ext L"

lemma ledger_apart_append:
  "ledger_apart ext (L @ M) \<longleftrightarrow> ledger_apart ext L \<and> ledger_apart ext M
     \<and> (\<forall>r p k q. (r, p) \<in> set L \<longrightarrow> (k, q) \<in> set M \<longrightarrow> ext r p \<inter> ext k q = {})"
proof (induction ext L rule: ledger_apart.induct)
  case (2 ext r p L)
  show ?case
    unfolding append_Cons ledger_apart.simps 2 set_append list.set Un_iff insert_iff prod.inject by blast
qed simp

lemma ledger_remove:
  assumes "ledger_apart ext L" "i < length L" "L ! i = (r, p)"
  shows "ledger_apart ext (remove_nth i L)"
    and "(k, q) \<in> set (remove_nth i L) \<Longrightarrow> ext k q \<inter> ext r p = {}"
    and "set (remove_nth i L) \<subseteq> set L"
proof -
  have L: "L = take i L @ (r, p) # drop (Suc i) L"
    using assms(2,3) by (metis id_take_nth_drop)
  have a: "ledger_apart ext (take i L @ (r, p) # drop (Suc i) L)" using assms(1) L by simp
  then show "ledger_apart ext (remove_nth i L)"
    unfolding remove_nth_def ledger_apart_append by simp
  show "(k, q) \<in> set (remove_nth i L) \<Longrightarrow> ext k q \<inter> ext r p = {}"
    using a unfolding remove_nth_def ledger_apart_append by (simp add: Int_commute) blast
  show "set (remove_nth i L) \<subseteq> set L"
    unfolding remove_nth_def by (simp add: set_take_subset set_drop_subset)
qed

locale extent_allocator =
  fixes inv :: "'s \<Rightarrow> bool"
    and free :: "'s \<Rightarrow> nat set"
    and valid :: "'r \<Rightarrow> bool"
    and extent :: "'r \<Rightarrow> usize \<Rightarrow> nat set"
    and held :: "'s \<Rightarrow> 'r \<Rightarrow> usize \<Rightarrow> bool"
    and alloc :: "'s \<Rightarrow> 'r \<Rightarrow> fault + usize \<times> 's"
    and release :: "'s \<Rightarrow> usize \<Rightarrow> 'r \<Rightarrow> fault + 's"
  assumes alloc_ok: "inv s \<Longrightarrow> valid r \<Longrightarrow> \<exists>p s'. alloc s r = Inr (p, s') \<and> inv s'
      \<and> (p = 0 \<longrightarrow> free s' = free s)
      \<and> (p \<noteq> 0 \<longrightarrow> held s' r p \<and> extent r p \<subseteq> free s \<and> free s' = free s - extent r p)
      \<and> (\<forall>k q. held s k q \<longrightarrow> held s' k q)"
    and held_not_free: "held s r p \<Longrightarrow> extent r p \<inter> free s = {}"
    and release_ok: "inv s \<Longrightarrow> held s r p \<Longrightarrow> \<exists>s'. release s p r = Inr s' \<and> inv s'
      \<and> free s' = free s \<union> extent r p
      \<and> (\<forall>k q. held s k q \<and> extent k q \<inter> extent r p = {} \<longrightarrow> held s' k q)"
begin

definition ledger_ok :: "'s \<Rightarrow> ('r \<times> usize) list \<Rightarrow> bool" where
  "ledger_ok s L \<longleftrightarrow> (\<forall>r p. (r, p) \<in> set L \<longrightarrow> held s r p) \<and> ledger_apart extent L"

lemma alloc_ledger:
  assumes "inv s" "valid r" "ledger_ok s L"
  shows "\<exists>p s'. alloc s r = Inr (p, s') \<and> inv s' \<and> ledger_ok s' (if p = 0 then L else (r, p) # L)"
proof -
  obtain p s' where a: "alloc s r = Inr (p, s')" "inv s'" "\<forall>k q. held s k q \<longrightarrow> held s' k q"
    "p \<noteq> 0 \<longrightarrow> held s' r p \<and> extent r p \<subseteq> free s" using alloc_ok [OF assms(1,2)] by blast
  have "extent r p \<inter> extent k q = {}" if "p \<noteq> 0" "(k, q) \<in> set L" for k q
    using a(4) that assms(3) held_not_free [of s k q] by (auto simp: ledger_ok_def)
  then show ?thesis using a assms(3) by (auto simp: ledger_ok_def)
qed

lemma release_ledger:
  assumes "inv s" "ledger_ok s L" "i < length L" "L ! i = (r, p)"
  shows "\<exists>s'. release s p r = Inr s' \<and> inv s' \<and> ledger_ok s' (remove_nth i L)"
proof -
  have ap: "ledger_apart extent L" using assms(2) by (simp add: ledger_ok_def)
  have "(r, p) \<in> set L" using assms(3,4) nth_mem [of i L] by simp
  then have "held s r p" using assms(2) by (auto simp: ledger_ok_def)
  from release_ok [OF assms(1) this] obtain s' where s': "release s p r = Inr s'" "inv s'"
    "\<forall>k q. held s k q \<and> extent k q \<inter> extent r p = {} \<longrightarrow> held s' k q" by blast
  have "held s' k q" if "(k, q) \<in> set (remove_nth i L)" for k q
    using s'(3) ledger_remove(2) [OF ap assms(3,4) that] ledger_remove(3) [OF ap assms(3,4)] that
      assms(2) by (auto simp: ledger_ok_def)
  then show ?thesis using s'(1,2) ledger_remove(1) [OF ap assms(3,4)] by (auto simp: ledger_ok_def)
qed

lemma run_client_safe:
  assumes "inv s" "ledger_ok s L" "\<forall>r. Alloc r \<in> set ops \<longrightarrow> valid r"
  shows "\<exists>s' L'. run_client alloc release s L ops = Inr (s', L') \<and> inv s' \<and> ledger_ok s' L'"
  using assms
proof (induction ops arbitrary: s L)
  case (Cons op ops)
  show ?case
  proof (cases op)
    case (Alloc r)
    then obtain p s' where "alloc s r = Inr (p, s')" "inv s'"
      "ledger_ok s' (if p = 0 then L else (r, p) # L)"
      using alloc_ledger [OF Cons.prems(1) _ Cons.prems(2), of r] Cons.prems(3) by auto
    then show ?thesis using Cons.IH [of s'] Cons.prems(3) Alloc by simp
  next
    case (Free i)
    show ?thesis
    proof (cases "i < length L")
      case True
      obtain s' where "release s (snd (L ! i)) (fst (L ! i)) = Inr s'" "inv s'"
        "ledger_ok s' (remove_nth i L)"
        using release_ledger [OF Cons.prems(1,2) True, of "fst (L ! i)" "snd (L ! i)"] by auto
      then show ?thesis using Cons.IH [of s'] Cons.prems(3) Free True by simp
    qed (use Cons Free in simp)
  qed
qed simp

lemma alloc_release:
  assumes "inv s" "valid r" "alloc s r = Inr (p, s1)" "p \<noteq> 0"
  shows "\<exists>s2. release s1 p r = Inr s2 \<and> inv s2 \<and> free s2 = free s"
  using alloc_ok [OF assms(1,2)] assms(3,4) release_ok [of s1 r p] by auto

end

definition heap_layout_ok :: "usize \<Rightarrow> layout \<Rightarrow> bool" where
  "heap_layout_ok off l \<longleftrightarrow> valid_layout l \<and> lay_align l dvd off"

lemma heap_alloc_ok:
  assumes "heap_inv off h" "heap_layout_ok off l"
  shows "\<exists>p h'. heap_alloc h l = Inr (p, h') \<and> heap_inv off h'
    \<and> (p = 0 \<longrightarrow> heap_free off h' = heap_free off h)
    \<and> (p \<noteq> 0 \<longrightarrow> heap_held off h' l p \<and> lay_align l dvd p \<and> {p..<p + lay_size l} \<subseteq> heap_extent l p
         \<and> heap_extent l p \<subseteq> heap_free off h \<and> heap_free off h' = heap_free off h - heap_extent l p)
    \<and> (\<forall>k q. heap_held off h k q \<longrightarrow> heap_held off h' k q)"
proof (cases "class_for l = Large")
  case True
  then show ?thesis using large_alloc [OF assms(1) _ True] assms(2) by (simp add: heap_layout_ok_def)
next
  case False
  have v: "valid_layout l" using assms(2) by (simp add: heap_layout_ok_def)
  have "{p..<p + lay_size l} \<subseteq> heap_extent l p" for p
    using class_for_fits(1) [OF False] False by (auto simp: heap_extent_def)
  then show ?thesis
    using small_alloc [OF assms(1) False] class_for_aligned [OF v False] by blast
qed

interpretation kheap: extent_allocator "heap_inv off" "heap_free off" "heap_layout_ok off"
  heap_extent "heap_held off" heap_alloc heap_dealloc for off
proof unfold_locales
  fix s r
  assume "heap_inv off s" "heap_layout_ok off r"
  then show "\<exists>p s'. heap_alloc s r = Inr (p, s') \<and> heap_inv off s'
      \<and> (p = 0 \<longrightarrow> heap_free off s' = heap_free off s)
      \<and> (p \<noteq> 0 \<longrightarrow> heap_held off s' r p \<and> heap_extent r p \<subseteq> heap_free off s
           \<and> heap_free off s' = heap_free off s - heap_extent r p)
      \<and> (\<forall>k q. heap_held off s k q \<longrightarrow> heap_held off s' k q)"
    using heap_alloc_ok by metis
next
  fix s r p
  assume "heap_held off s r p"
  then show "heap_extent r p \<inter> heap_free off s = {}" by (simp add: heap_held_def)
next
  fix s r p
  assume "heap_inv off s" "heap_held off s r p"
  then show "\<exists>s'. heap_dealloc s p r = Inr s' \<and> heap_inv off s'
      \<and> heap_free off s' = heap_free off s \<union> heap_extent r p
      \<and> (\<forall>k q. heap_held off s k q \<and> heap_extent k q \<inter> heap_extent r p = {} \<longrightarrow> heap_held off s' k q)"
    by (rule dealloc_held)
qed

section \<open>Properties\<close>

text \<open>
  A heap over twelve frames mapped at \<open>0x100000\<close>, and its initialisation from a
  bootstrap region of seven pages.
\<close>

definition heap_sample :: heap where
  "heap_sample = \<lparr>h_next = (\<lambda>_. 0), h_slabs = None, h_growth = True, h_frames = twelve 0 0 12,
     h_trans = install_translation translation_boot (phys_to_virt 0x100000) (virt_to_phys 0x100000)\<rparr>"

lemma heap_sample_inv: "heap_inv 0x100000 heap_sample"
proof -
  have "frame_inv (twelve 0 0 12)" using twelve_reach by (rule frame_reach_inv)
  moreover have "managed_ppns (twelve 0 0 12) \<subseteq> {..<12}"
    by (auto simp: managed_ppns_def region_ppns_def twelve_def)
  then have "frames_window 0x100000 (twelve 0 0 12)"
    by (auto simp: frames_window_def USIZE_LIM_def dest!: subsetD)
  moreover have "linear_translation (h_trans heap_sample) 0x100000"
    using linear_translation_install [of "0x100000" translation_boot]
    by (simp add: heap_sample_def USIZE_LIM_def)
  ultimately show ?thesis by (simp add: heap_inv_def slabs_free_def) (simp add: heap_sample_def)
qed

lemma heap_sample_init: "\<exists>h. heap_init heap_sample 0x1000 0x7000 = Inr h \<and> heap_inv 0x100000 h"
proof -
  have "frames_free 0x100000 fa \<subseteq> {0x100000..}" for fa
    by (auto simp: frames_free_def frame_bytes_def)
  then have "{0x1000..<0x8000} \<inter> frames_free 0x100000 (h_frames heap_sample) = {}"
    by (fastforce dest: subsetD)
  then show ?thesis
    using heap_init_ok [OF heap_sample_inv, of "0x1000" "0x7000"]
    by (auto simp: USIZE_LIM_def heap_sample_def)
qed

lemma sample_layouts:
  "valid_layout \<lparr>lay_size = 48, lay_align = 8\<rparr>" "valid_layout \<lparr>lay_size = 5000, lay_align = 16\<rparr>"
  "valid_layout \<lparr>lay_size = 64, lay_align = 64\<rparr>"
  by (simp_all add: valid_layout_def exI [of _ 3] exI [of _ 4] exI [of _ 6])

text \<open>
  C9.  \<open>GlobalAlloc::alloc\<close> always returns, in at most two rounds of its loop.  A null
  pointer leaves the free bytes as they were; any other pointer is aligned as the layout
  asks, the layout's bytes lie inside an extent that was free, and exactly that extent
  leaves the free bytes (whatever the heap drew from the frame allocator stays free).
\<close>

theorem heap_alloc_correct:
  assumes "heap_inv off h" "valid_layout l" "lay_align l dvd off"
  shows "\<exists>p h'. heap_alloc h l = Inr (p, h') \<and> heap_inv off h' \<and>
    (if p = 0 then heap_free off h' = heap_free off h
     else lay_align l dvd p \<and> {p..<p + lay_size l} \<subseteq> heap_extent l p
       \<and> heap_extent l p \<subseteq> heap_free off h
       \<and> heap_free off h' = heap_free off h - heap_extent l p)"
proof -
  have "heap_layout_ok off l" using assms(2,3) by (simp add: heap_layout_ok_def)
  from heap_alloc_ok [OF assms(1) this] obtain p h' where r: "heap_alloc h l = Inr (p, h')" "heap_inv off h'"
    "p = 0 \<longrightarrow> heap_free off h' = heap_free off h"
    "p \<noteq> 0 \<longrightarrow> lay_align l dvd p \<and> {p..<p + lay_size l} \<subseteq> heap_extent l p
       \<and> heap_extent l p \<subseteq> heap_free off h \<and> heap_free off h' = heap_free off h - heap_extent l p"
    by blast
  show ?thesis using r by (intro exI [of _ p] exI [of _ h']) simp
qed

theorem heap_alloc_correct_witness:
  "\<exists>p h'. heap_alloc heap_sample \<lparr>lay_size = 5000, lay_align = 16\<rparr> = Inr (p, h') \<and> heap_inv 0x100000 h'"
  using heap_alloc_correct [OF heap_sample_inv sample_layouts(2)] by auto

text \<open>
  C10.  A client that makes any sequence of allocations, and gives back only pointers it
  holds, never meets a panic; at every moment the extents it holds are pairwise disjoint,
  non-null and disjoint from the free bytes.
\<close>

theorem heap_client_safe:
  assumes "heap_inv off h" "\<forall>l. Alloc l \<in> set ops \<longrightarrow> valid_layout l \<and> lay_align l dvd off"
  shows "\<exists>h' L. run_client heap_alloc heap_dealloc h [] ops = Inr (h', L) \<and> heap_inv off h'
    \<and> ledger_apart heap_extent L
    \<and> (\<forall>l p. (l, p) \<in> set L \<longrightarrow> p \<noteq> 0 \<and> heap_extent l p \<inter> heap_free off h' = {})"
proof -
  have "\<forall>l. Alloc l \<in> set ops \<longrightarrow> heap_layout_ok off l" using assms(2) by (simp add: heap_layout_ok_def)
  from kheap.run_client_safe [OF assms(1) _ this, of "[]"] obtain h' L where
    "run_client heap_alloc heap_dealloc h [] ops = Inr (h', L)" "heap_inv off h'" "kheap.ledger_ok off h' L"
    by (auto simp: kheap.ledger_ok_def)
  then show ?thesis by (auto simp: kheap.ledger_ok_def heap_held_def)
qed

theorem heap_client_safe_witness:
  "\<exists>h h' L. heap_init heap_sample 0x1000 0x7000 = Inr h \<and>
     run_client heap_alloc heap_dealloc h []
       [Alloc \<lparr>lay_size = 48, lay_align = 8\<rparr>, Alloc \<lparr>lay_size = 5000, lay_align = 16\<rparr>, Free 0,
        Alloc \<lparr>lay_size = 64, lay_align = 64\<rparr>] = Inr (h', L)
     \<and> ledger_apart heap_extent L"
proof -
  obtain h where h: "heap_init heap_sample 0x1000 0x7000 = Inr h" "heap_inv 0x100000 h"
    using heap_sample_init by blast
  show ?thesis
    using sample_layouts heap_client_safe [OF h(2), of "[Alloc \<lparr>lay_size = 48, lay_align = 8\<rparr>,
      Alloc \<lparr>lay_size = 5000, lay_align = 16\<rparr>, Free 0, Alloc \<lparr>lay_size = 64, lay_align = 64\<rparr>]"] h(1)
    by (auto simp del: run_client.simps)
qed

end
