(* ===== verification/Kor_Pte.thy ===== *)
theory Kor_Pte
  imports Kor_Addr
begin

text \<open>
  Page-table entries: the permission flags and result types of
  \<^verbatim>\<open>base/kor-arch/src/lib.rs\<close> and the three entry encodings,
  \<^verbatim>\<open>base/kor-arch/src/{riscv64,x86_64,aarch64}/pagetable.rs\<close>.  An architecture is a value
  of the record \<open>pte_format\<close>, whose fields are the functions the page-table engine calls;
  \<open>riscv64\<close>, \<open>x86_64\<close> and \<open>aarch64\<close> are its three values.  The locale \<open>pte_encoding\<close> is
  the contract the engine relies on: an encoded entry decodes to what was put in.  The
  predicate \<open>phys_ok\<close> of the contract names the addresses a format can encode at a level;
  for the 2 MiB entries of \<open>riscv64\<close> these are the multiples of 4 MiB only.
\<close>

section \<open>Flags, sizes and errors\<close>

type_synonym MappingFlags = u8

definition FLAG_R :: MappingFlags where "FLAG_R = push_bit 0 1"
definition FLAG_W :: MappingFlags where "FLAG_W = push_bit 1 1"
definition FLAG_X :: MappingFlags where "FLAG_X = push_bit 2 1"
definition FLAG_U :: MappingFlags where "FLAG_U = push_bit 3 1"
definition KERNEL_RWX :: MappingFlags where "KERNEL_RWX = FLAG_R OR FLAG_W OR FLAG_X"

definition contains :: "MappingFlags \<Rightarrow> MappingFlags \<Rightarrow> bool" where
  "contains self other \<longleftrightarrow> self AND other = other"

datatype MapSize = Page4K | Page2M

datatype MapError = OutOfMemory | BlockedByExistingMapping | Unsupported

definition PT_ENTRIES :: nat where [simp]: "PT_ENTRIES = 512"

definition table_index :: "usize \<Rightarrow> nat \<Rightarrow> usize" where
  "table_index va level = pn_index va level"

definition span :: "nat \<Rightarrow> usize" where
  "span level = push_bit (12 + 9 * level) 1 mod USIZE_LIM"

record pte_format =
  LEVELS :: nat
  table_entry :: "usize \<Rightarrow> usize"
  leaf_entry :: "usize \<Rightarrow> MappingFlags \<Rightarrow> nat \<Rightarrow> usize"
  entry_present :: "usize \<Rightarrow> bool"
  entry_is_leaf :: "usize \<Rightarrow> nat \<Rightarrow> bool"
  entry_phys :: "usize \<Rightarrow> nat \<Rightarrow> usize"
  entry_flags :: "usize \<Rightarrow> MappingFlags"

section \<open>RISC-V Sv39\<close>

definition RV_V :: usize where [simp]: "RV_V = 1"
definition RV_R :: usize where [simp]: "RV_R = 2"
definition RV_W :: usize where [simp]: "RV_W = 4"
definition RV_X :: usize where [simp]: "RV_X = 8"
definition RV_U :: usize where [simp]: "RV_U = 16"
definition RV_A :: usize where [simp]: "RV_A = 64"
definition RV_D :: usize where [simp]: "RV_D = 128"
definition RV_RW :: usize where [simp]: "RV_RW = 14"

definition riscv64_flags_to_hw :: "MappingFlags \<Rightarrow> usize" where
  "riscv64_flags_to_hw flags =
     (let hw = RV_V;
          hw = (if contains flags FLAG_R then hw OR (RV_R OR RV_A) else hw);
          hw = (if contains flags FLAG_W then hw OR (RV_W OR RV_D) else hw);
          hw = (if contains flags FLAG_X then hw OR RV_X else hw) in
      if contains flags FLAG_U then hw OR RV_U else hw)"

definition riscv64_mapping_flags :: "usize \<Rightarrow> MappingFlags" where
  "riscv64_mapping_flags entry =
     (let flags = FLAG_U;
          flags = (if entry AND RV_R \<noteq> 0 then flags OR FLAG_R else flags);
          flags = (if entry AND RV_W \<noteq> 0 then flags OR FLAG_W else flags) in
      if entry AND RV_X \<noteq> 0 then flags OR FLAG_X else flags)"

definition riscv64_leaf_pte :: "usize \<Rightarrow> MappingFlags \<Rightarrow> usize" where
  "riscv64_leaf_pte paddr flags = drop_bit 2 paddr OR riscv64_flags_to_hw flags"

definition riscv64_megapage_2m_pte :: "usize \<Rightarrow> MappingFlags \<Rightarrow> usize" where
  "riscv64_megapage_2m_pte paddr flags =
     (drop_bit 2 paddr AND usize_not 0xFFC00) OR riscv64_flags_to_hw flags"

definition riscv64_table_pte :: "usize \<Rightarrow> usize" where
  "riscv64_table_pte paddr = drop_bit 2 paddr OR RV_V"

definition riscv64_is_valid :: "usize \<Rightarrow> bool" where
  "riscv64_is_valid pte \<longleftrightarrow> pte AND RV_V \<noteq> 0"

definition riscv64_is_leaf :: "usize \<Rightarrow> bool" where
  "riscv64_is_leaf pte \<longleftrightarrow> riscv64_is_valid pte \<and> pte AND RV_RW \<noteq> 0"

definition riscv64_pte_address :: "usize \<Rightarrow> usize" where
  "riscv64_pte_address pte = (push_bit 2 pte mod USIZE_LIM) AND 0xFFFFFFFFF000"

definition riscv64_leaf_entry :: "usize \<Rightarrow> MappingFlags \<Rightarrow> nat \<Rightarrow> usize" where
  "riscv64_leaf_entry phys flags level =
     (if level = 0 then riscv64_leaf_pte phys flags
      else if level = 1 then riscv64_megapage_2m_pte phys flags
      else riscv64_leaf_pte phys flags)"

definition riscv64 :: pte_format where
  "riscv64 = \<lparr>LEVELS = 3, table_entry = riscv64_table_pte, leaf_entry = riscv64_leaf_entry,
     entry_present = riscv64_is_valid, entry_is_leaf = (\<lambda>entry _. riscv64_is_leaf entry),
     entry_phys = (\<lambda>entry _. riscv64_pte_address entry), entry_flags = riscv64_mapping_flags\<rparr>"

section \<open>x86-64\<close>

definition X86_P :: usize where [simp]: "X86_P = 1"
definition X86_RW :: usize where [simp]: "X86_RW = 2"
definition X86_US :: usize where [simp]: "X86_US = 4"
definition X86_PS :: usize where [simp]: "X86_PS = 128"

definition x86_hw_flags :: "MappingFlags \<Rightarrow> usize" where
  "x86_hw_flags flags =
     (let hw = X86_P;
          hw = (if contains flags FLAG_W then hw OR X86_RW else hw) in
      if contains flags FLAG_U then hw OR X86_US else hw)"

definition x86_leaf_pte_4k :: "usize \<Rightarrow> MappingFlags \<Rightarrow> usize" where
  "x86_leaf_pte_4k paddr flags = paddr OR x86_hw_flags flags"

definition x86_leaf_pte_2m :: "usize \<Rightarrow> MappingFlags \<Rightarrow> usize" where
  "x86_leaf_pte_2m paddr flags = paddr OR x86_hw_flags flags OR X86_PS"

definition x86_table_pte :: "usize \<Rightarrow> usize" where
  "x86_table_pte paddr = paddr OR X86_P OR X86_RW OR X86_US"

definition x86_is_present :: "usize \<Rightarrow> bool" where
  "x86_is_present pte \<longleftrightarrow> pte AND X86_P \<noteq> 0"

definition x86_is_huge :: "usize \<Rightarrow> bool" where
  "x86_is_huge pte \<longleftrightarrow> pte AND X86_PS \<noteq> 0"

definition x86_pte_address :: "usize \<Rightarrow> usize" where
  "x86_pte_address pte = pte AND 0xFFFFFFFFF000"

definition x86_leaf_entry :: "usize \<Rightarrow> MappingFlags \<Rightarrow> nat \<Rightarrow> usize" where
  "x86_leaf_entry phys flags level =
     (if level = 0 then x86_leaf_pte_4k phys flags else x86_leaf_pte_2m phys flags)"

definition x86_entry_is_leaf :: "usize \<Rightarrow> nat \<Rightarrow> bool" where
  "x86_entry_is_leaf entry level \<longleftrightarrow>
     (if level = 0 then x86_is_present entry else x86_is_huge entry)"

definition x86_entry_flags :: "usize \<Rightarrow> MappingFlags" where
  "x86_entry_flags entry =
     (let flags = FLAG_R OR FLAG_X;
          flags = (if entry AND 2 \<noteq> 0 then flags OR FLAG_W else flags) in
      if entry AND 4 \<noteq> 0 then flags OR FLAG_U else flags)"

definition x86_64 :: pte_format where
  "x86_64 = \<lparr>LEVELS = 4, table_entry = x86_table_pte, leaf_entry = x86_leaf_entry,
     entry_present = x86_is_present, entry_is_leaf = x86_entry_is_leaf,
     entry_phys = (\<lambda>entry _. x86_pte_address entry), entry_flags = x86_entry_flags\<rparr>"

section \<open>AArch64\<close>

definition A64_VALID :: usize where [simp]: "A64_VALID = 1"
definition A64_TABLE :: usize where [simp]: "A64_TABLE = 2"
definition A64_ATTR :: usize where [simp]: "A64_ATTR = 4"
definition A64_AF :: usize where [simp]: "A64_AF = 0x400"
definition A64_AP2_RO :: usize where [simp]: "A64_AP2_RO = 0x80"
definition A64_AP1_EL0 :: usize where [simp]: "A64_AP1_EL0 = 0x40"
definition A64_UXN :: usize where [simp]: "A64_UXN = 0x40000000000000"

definition a64_ap_flags :: "MappingFlags \<Rightarrow> usize" where
  "a64_ap_flags flags =
     (let extra = 0;
          extra = (if \<not> contains flags FLAG_W then extra OR A64_AP2_RO else extra);
          extra = (if contains flags FLAG_U then extra OR A64_AP1_EL0 else extra) in
      if \<not> contains flags FLAG_X then extra OR A64_UXN else extra)"

definition a64_page_pte :: "usize \<Rightarrow> MappingFlags \<Rightarrow> usize" where
  "a64_page_pte paddr flags =
     paddr OR A64_VALID OR A64_TABLE OR A64_AF OR A64_ATTR OR a64_ap_flags flags"

definition a64_block_pte :: "usize \<Rightarrow> MappingFlags \<Rightarrow> usize" where
  "a64_block_pte paddr flags = paddr OR A64_VALID OR A64_AF OR A64_ATTR OR a64_ap_flags flags"

definition a64_is_valid :: "usize \<Rightarrow> bool" where
  "a64_is_valid pte \<longleftrightarrow> pte AND A64_VALID \<noteq> 0"

definition a64_is_table :: "usize \<Rightarrow> bool" where
  "a64_is_table pte \<longleftrightarrow> a64_is_valid pte \<and> pte AND A64_TABLE \<noteq> 0"

definition a64_is_block :: "usize \<Rightarrow> bool" where
  "a64_is_block pte \<longleftrightarrow> a64_is_valid pte \<and> pte AND A64_TABLE = 0"

definition a64_pte_address :: "usize \<Rightarrow> usize" where
  "a64_pte_address pte = pte AND 0xFFFFFFFFF000"

definition a64_table_entry :: "usize \<Rightarrow> usize" where
  "a64_table_entry table_phys = table_phys OR A64_VALID OR A64_TABLE"

definition a64_leaf_entry :: "usize \<Rightarrow> MappingFlags \<Rightarrow> nat \<Rightarrow> usize" where
  "a64_leaf_entry phys flags level =
     (if level = 0 then a64_page_pte phys flags else a64_block_pte phys flags)"

definition a64_entry_is_leaf :: "usize \<Rightarrow> nat \<Rightarrow> bool" where
  "a64_entry_is_leaf entry level \<longleftrightarrow>
     (if level = 0 then a64_is_valid entry else a64_is_block entry)"

definition a64_entry_flags :: "usize \<Rightarrow> MappingFlags" where
  "a64_entry_flags entry =
     (let flags = FLAG_R;
          flags = (if entry AND push_bit 7 1 = 0 then flags OR FLAG_W else flags);
          flags = (if entry AND push_bit 6 1 \<noteq> 0 then flags OR FLAG_U else flags) in
      if entry AND push_bit 54 1 = 0 then flags OR FLAG_X else flags)"

definition aarch64 :: pte_format where
  "aarch64 = \<lparr>LEVELS = 4, table_entry = a64_table_entry, leaf_entry = a64_leaf_entry,
     entry_present = a64_is_valid, entry_is_leaf = a64_entry_is_leaf,
     entry_phys = (\<lambda>entry _. a64_pte_address entry), entry_flags = a64_entry_flags\<rparr>"

section \<open>Bits of an entry\<close>

lemma bit_less_exp: "(n :: nat) < 2 ^ k \<Longrightarrow> bit n i \<Longrightarrow> i < k"
  by (metis bit_take_bit_iff take_bit_nat_eq_self)

lemma bit_aligned: "(p :: nat) mod 2 ^ k = 0 \<Longrightarrow> bit p i \<Longrightarrow> k \<le> i"
proof (rule ccontr)
  assume p: "p mod 2 ^ k = 0" and b: "bit p i" and "\<not> k \<le> i"
  then have "bit (take_bit k p) i" by (simp add: bit_take_bit_iff)
  with p show False by (simp add: take_bit_eq_mod)
qed

lemma bit_addr_mask: "bit (0xFFFFFFFFF000 :: nat) i \<longleftrightarrow> 12 \<le> i \<and> i < 48"
proof -
  have e: "(0xFFFFFFFFF000 :: nat) = push_bit 12 (mask 36)"
    by (simp add: push_bit_eq_mult mask_eq_exp_minus_1)
  show ?thesis unfolding e by (auto simp: bit_push_bit_iff bit_mask_iff)
qed

text \<open>The address part and the low bits of an entry built from a page-aligned address.\<close>

lemma addr_part:
  assumes "p mod 4096 = 0" "p < 2 ^ 48" "\<And>i. bit h i \<Longrightarrow> i < 12 \<or> 48 \<le> i"
  shows "(p OR h) AND 0xFFFFFFFFF000 = (p :: nat)"
proof (rule bit_eqI)
  fix i
  show "bit ((p OR h) AND 0xFFFFFFFFF000) i = bit p i"
    using bit_aligned [of p 12 i] bit_less_exp [OF assms(2), of i] assms(1) assms(3) [of i]
    by (auto simp: bit_and_iff bit_or_iff bit_addr_mask)
qed

lemma low_part:
  assumes "p mod 2 ^ k = 0" "m < 2 ^ k"
  shows "(p OR h) AND m = (h :: nat) AND m"
proof (rule bit_eqI)
  fix i
  show "bit ((p OR h) AND m) i = bit (h AND m) i"
    using bit_aligned [of p k i] bit_less_exp [of m k i] assms
    by (auto simp: bit_and_iff bit_or_iff)
qed

lemma addr_mask_range:
  "(e AND 0xFFFFFFFFF000) mod 4096 = (0 :: nat)" "e AND 0xFFFFFFFFF000 < (2 :: nat) ^ 48"
proof -
  have "take_bit 12 (e AND 0xFFFFFFFFF000) = (0 :: nat)"
    by (rule bit_eqI) (auto simp: bit_take_bit_iff bit_and_iff bit_addr_mask)
  then show "(e AND 0xFFFFFFFFF000) mod 4096 = (0 :: nat)" by (simp add: take_bit_eq_mod)
  have "take_bit 48 (e AND 0xFFFFFFFFF000) = (e AND 0xFFFFFFFFF000 :: nat)"
    by (rule bit_eqI) (auto simp: bit_take_bit_iff bit_and_iff bit_addr_mask)
  then show "e AND 0xFFFFFFFFF000 < (2 :: nat) ^ 48" by (metis take_bit_nat_less_exp)
qed

section \<open>The encoding contract\<close>

definition page_addr :: "usize \<Rightarrow> bool" where
  "page_addr p \<longleftrightarrow> p mod 4096 = 0 \<and> p < 2 ^ 48"

locale pte_encoding =
  fixes A :: pte_format
    and phys_ok :: "nat \<Rightarrow> usize \<Rightarrow> bool"
    and flags_ok :: "MappingFlags \<Rightarrow> bool"
  assumes levels: "2 \<le> LEVELS A" "LEVELS A \<le> 4"
    and absent_0 [simp]: "\<not> entry_present A 0"
    and table_present [simp]: "page_addr p \<Longrightarrow> entry_present A (table_entry A p)"
    and table_not_leaf [simp]: "\<lbrakk>page_addr p; 0 < l\<rbrakk> \<Longrightarrow> \<not> entry_is_leaf A (table_entry A p) l"
    and table_phys [simp]: "page_addr p \<Longrightarrow> entry_phys A (table_entry A p) l = p"
    and leaf_present [simp]: "\<lbrakk>phys_ok l p; flags_ok f\<rbrakk> \<Longrightarrow> entry_present A (leaf_entry A p f l)"
    and leaf_leaf [simp]: "\<lbrakk>phys_ok l p; flags_ok f\<rbrakk> \<Longrightarrow> entry_is_leaf A (leaf_entry A p f l) l"
    and leaf_phys [simp]: "\<lbrakk>phys_ok l p; flags_ok f\<rbrakk> \<Longrightarrow> entry_phys A (leaf_entry A p f l) l = p"
    and phys_ok_base: "page_addr p \<Longrightarrow> phys_ok 0 p"
    and phys_ok_page: "phys_ok l p \<Longrightarrow> page_addr p"
    and phys_page: "page_addr (entry_phys A e l)"
    and leaf_flags_ok: "\<lbrakk>entry_present A e; entry_is_leaf A e l\<rbrakk> \<Longrightarrow> flags_ok (entry_flags A e)"
    and leaf_flags_back: "phys_ok l p \<Longrightarrow> entry_flags A (leaf_entry A p (entry_flags A e) l) = entry_flags A e"

lemma contains_bits:
  "contains f FLAG_R \<longleftrightarrow> bit f 0" "contains f FLAG_W \<longleftrightarrow> bit f 1"
  "contains f FLAG_X \<longleftrightarrow> bit f 2" "contains f FLAG_U \<longleftrightarrow> bit f 3"
proof -
  have "(f AND push_bit n 1 = push_bit n 1) \<longleftrightarrow> bit f n" if "n < 8" for n
  proof
    assume "f AND push_bit n 1 = push_bit n 1"
    then have "bit (f AND push_bit n 1) n = bit (push_bit n 1 :: u8) n" by simp
    then show "bit f n" using that by (simp add: bit_and_iff bit_exp_iff)
  next
    assume "bit f n"
    then show "f AND push_bit n 1 = push_bit n 1"
      by (intro bit_eqI) (auto simp: bit_and_iff bit_exp_iff)
  qed
  from this [of 0] this [of 1] this [of 2] this [of 3]
  show "contains f FLAG_R \<longleftrightarrow> bit f 0" "contains f FLAG_W \<longleftrightarrow> bit f 1"
    "contains f FLAG_X \<longleftrightarrow> bit f 2" "contains f FLAG_U \<longleftrightarrow> bit f 3"
    by (simp_all only: contains_def FLAG_R_def FLAG_W_def FLAG_X_def FLAG_U_def)
qed

subsection \<open>Sv39\<close>

definition rwx :: "MappingFlags \<Rightarrow> bool" where
  "rwx f \<longleftrightarrow> contains f FLAG_R \<or> contains f FLAG_W \<or> contains f FLAG_X"

definition riscv64_phys_ok :: "nat \<Rightarrow> usize \<Rightarrow> bool" where
  "riscv64_phys_ok l p \<longleftrightarrow> page_addr p \<and> (l = 1 \<longrightarrow> p mod 2 ^ 22 = 0)"

lemma riscv64_hw_bits:
  "riscv64_flags_to_hw f < 1024" "riscv64_flags_to_hw f AND 1 = 1"
  "riscv64_flags_to_hw f AND 14 \<noteq> 0 \<longleftrightarrow> rwx f"
  by (simp_all add: riscv64_flags_to_hw_def rwx_def Let_def)

lemma riscv64_address:
  assumes "page_addr p" "h < 1024"
  shows "riscv64_pte_address (drop_bit 2 p OR h) = p"
proof -
  have "push_bit 2 (drop_bit 2 p OR h) mod USIZE_LIM = p OR push_bit 2 h"
    unfolding USIZE_LIM_def take_bit_eq_mod [symmetric]
  proof (rule bit_eqI)
    fix i
    have "2 \<le> i \<Longrightarrow> Suc (Suc (i - 2)) = i" by arith
    then show "bit (take_bit 64 (push_bit 2 (drop_bit 2 p OR h))) i = bit (p OR push_bit 2 h) i"
      using assms bit_aligned [of p 12 i] bit_less_exp [of p 48 i] bit_less_exp [of h 10 "i - 2"]
      by (auto simp: bit_take_bit_iff bit_push_bit_iff bit_or_iff bit_drop_bit_eq page_addr_def)
  qed
  moreover have "(p OR push_bit 2 h) AND 0xFFFFFFFFF000 = p"
    using assms bit_less_exp [of h 10]
    by (intro addr_part) (auto simp: page_addr_def bit_push_bit_iff dest!: bit_less_exp [of h 10, rotated])
  ultimately show ?thesis by (simp add: riscv64_pte_address_def)
qed

lemma riscv64_low:
  assumes "page_addr p" "m < 1024"
  shows "(drop_bit 2 p OR h) AND m = h AND m"
proof (rule low_part [where k = 10])
  obtain q where "p = q * 1024 * 4"
    using assms(1) by (auto simp: page_addr_def mod_eq_0_iff_dvd elim!: dvdE [of 4096])
  then show "drop_bit 2 p mod 2 ^ 10 = 0"
    by (simp only: drop_bit_eq_div power2_eq_square) simp
qed (use assms(2) in simp)

text \<open>The mask of a 2 MiB entry clears one address bit too many.\<close>

lemma riscv64_megapage_mask:
  assumes "page_addr p"
  shows "drop_bit 2 p AND usize_not 0xFFC00 = drop_bit 2 (p div 2 ^ 22 * 2 ^ 22)"
proof -
  have m: "usize_not 0xFFC00 = push_bit 20 (mask 44) OR mask 10"
    by (simp add: usize_not_def USIZE_LIM_def push_bit_eq_mult mask_eq_exp_minus_1)
  have d: "p div 2 ^ 22 * 2 ^ 22 = push_bit 22 (drop_bit 22 p)"
    by (simp add: push_bit_eq_mult drop_bit_eq_div)
  show ?thesis unfolding m d
  proof (rule bit_eqI)
    fix i
    show "bit (drop_bit 2 p AND (push_bit 20 (mask 44) OR mask 10)) i
            = bit (drop_bit 2 (push_bit 22 (drop_bit 22 p))) i"
      using assms bit_aligned [of p 12 "i + 2"] bit_less_exp [of p 48 "i + 2"]
      by (auto simp: bit_and_iff bit_or_iff bit_push_bit_iff bit_mask_iff bit_drop_bit_eq
            page_addr_def add.commute)
  qed
qed

lemma page_addr_floor: "page_addr p \<Longrightarrow> page_addr (p div 2 ^ 22 * 2 ^ 22)"
proof -
  assume p: "page_addr p"
  have "(4096 :: nat) dvd 2 ^ 22" by (rule dvdI [of _ _ 1024]) simp
  then have "(4096 :: nat) dvd p div 2 ^ 22 * 2 ^ 22" by (rule dvd_mult)
  moreover have "p div 2 ^ 22 * 2 ^ 22 \<le> p" by (rule div_times_less_eq_dividend)
  ultimately show ?thesis
    using p unfolding page_addr_def mod_eq_0_iff_dvd by linarith
qed

lemma riscv64_leaf_entry_eq:
  assumes "page_addr p"
  shows "riscv64_leaf_entry p f l =
    drop_bit 2 (if l = 1 then p div 2 ^ 22 * 2 ^ 22 else p) OR riscv64_flags_to_hw f"
  using riscv64_megapage_mask [OF assms]
  by (simp add: riscv64_leaf_entry_def riscv64_leaf_pte_def riscv64_megapage_2m_pte_def)

text \<open>What the address of an Sv39 leaf decodes to, at every level.\<close>

lemma riscv64_leaf_decode:
  assumes "page_addr p"
  shows "riscv64_pte_address (riscv64_leaf_entry p f l) = (if l = 1 then p - p mod 2 ^ 22 else p)"
  using riscv64_address [OF _ riscv64_hw_bits(1)] assms page_addr_floor [OF assms]
  by (simp add: riscv64_leaf_entry_eq minus_mod_eq_div_mult)

lemma riscv64_leaf_rwx: "riscv64_is_leaf e \<Longrightarrow> rwx (riscv64_mapping_flags e)"
proof -
  assume l: "riscv64_is_leaf e"
  have m: "(14 :: nat) = 2 OR 4 OR 8" by simp
  have "e AND 14 = (e AND 2) OR (e AND 4) OR (e AND 8)"
    unfolding m by (rule bit_eqI) (simp only: bit_and_iff bit_or_iff, blast)
  then have "e AND 2 \<noteq> 0 \<or> e AND 4 \<noteq> 0 \<or> e AND 8 \<noteq> 0"
    using l by (auto simp: riscv64_is_leaf_def)
  then show ?thesis
    by (auto simp: riscv64_mapping_flags_def rwx_def Let_def contains_def
          FLAG_R_def FLAG_W_def FLAG_X_def FLAG_U_def)
qed

lemma riscv64_hw_and:
  "riscv64_flags_to_hw f AND 2 = (if contains f FLAG_R then 2 else 0)"
  "riscv64_flags_to_hw f AND 4 = (if contains f FLAG_W then 4 else 0)"
  "riscv64_flags_to_hw f AND 8 = (if contains f FLAG_X then 8 else 0)"
  "riscv64_flags_to_hw f AND 16 = (if contains f FLAG_U then 16 else 0)"
  by (simp_all add: riscv64_flags_to_hw_def Let_def)

lemma riscv64_contains:
  "contains (riscv64_mapping_flags e) FLAG_R \<longleftrightarrow> e AND 2 \<noteq> 0"
  "contains (riscv64_mapping_flags e) FLAG_W \<longleftrightarrow> e AND 4 \<noteq> 0"
  "contains (riscv64_mapping_flags e) FLAG_X \<longleftrightarrow> e AND 8 \<noteq> 0"
  by (simp_all add: riscv64_mapping_flags_def Let_def contains_def FLAG_R_def FLAG_W_def FLAG_X_def FLAG_U_def)

lemma riscv64_leaf_low:
  assumes "riscv64_phys_ok l p" "m < 1024"
  shows "riscv64_leaf_entry p f l AND m = riscv64_flags_to_hw f AND m"
  using assms riscv64_low [OF _ assms(2)] by (auto simp: riscv64_phys_ok_def riscv64_leaf_entry_eq)

lemma riscv64_flags_back:
  assumes "riscv64_phys_ok l p"
  shows "riscv64_mapping_flags (riscv64_leaf_entry p (riscv64_mapping_flags e) l) = riscv64_mapping_flags e"
proof -
  have "riscv64_leaf_entry p (riscv64_mapping_flags e) l AND RV_R \<noteq> 0 \<longleftrightarrow> e AND RV_R \<noteq> 0"
    "riscv64_leaf_entry p (riscv64_mapping_flags e) l AND RV_W \<noteq> 0 \<longleftrightarrow> e AND RV_W \<noteq> 0"
    "riscv64_leaf_entry p (riscv64_mapping_flags e) l AND RV_X \<noteq> 0 \<longleftrightarrow> e AND RV_X \<noteq> 0"
    by (simp_all add: riscv64_leaf_low [OF assms] riscv64_hw_and riscv64_contains)
  moreover have "riscv64_mapping_flags e' = riscv64_mapping_flags e"
    if "e' AND RV_R \<noteq> 0 \<longleftrightarrow> e AND RV_R \<noteq> 0" "e' AND RV_W \<noteq> 0 \<longleftrightarrow> e AND RV_W \<noteq> 0" "e' AND RV_X \<noteq> 0 \<longleftrightarrow> e AND RV_X \<noteq> 0" for e'
    unfolding riscv64_mapping_flags_def that ..
  ultimately show ?thesis by blast
qed

interpretation rv: pte_encoding riscv64 riscv64_phys_ok rwx
proof
  show "2 \<le> LEVELS riscv64" "LEVELS riscv64 \<le> 4" by (simp_all add: riscv64_def)
  show "\<not> entry_present riscv64 0" by (simp add: riscv64_def riscv64_is_valid_def)
  fix p l f e
  show "page_addr (entry_phys riscv64 e l)"
    using addr_mask_range [of "push_bit 2 e mod USIZE_LIM"]
    by (simp add: riscv64_def riscv64_pte_address_def page_addr_def)
  show "riscv64_phys_ok 0 p" if "page_addr p" using that by (simp add: riscv64_phys_ok_def)
  show "page_addr p" if "riscv64_phys_ok l p" using that by (simp add: riscv64_phys_ok_def)
  show "entry_flags riscv64 (leaf_entry riscv64 p (entry_flags riscv64 e) l) = entry_flags riscv64 e"
    if "riscv64_phys_ok l p" using riscv64_flags_back [OF that] by (simp add: riscv64_def)
  show "rwx (entry_flags riscv64 e)" if "entry_present riscv64 e" "entry_is_leaf riscv64 e l"
    using that riscv64_leaf_rwx [of e] by (simp add: riscv64_def)
  { assume p: "page_addr p"
    note low = riscv64_low [OF p]
    show "entry_present riscv64 (table_entry riscv64 p)"
      using low [of 1 1] by (simp add: riscv64_def riscv64_is_valid_def riscv64_table_pte_def)
    show "\<not> entry_is_leaf riscv64 (table_entry riscv64 p) l"
      using low [of 14 1] by (simp add: riscv64_def riscv64_is_leaf_def riscv64_table_pte_def)
    show "entry_phys riscv64 (table_entry riscv64 p) l = p"
      using riscv64_address [OF p, of 1] by (simp add: riscv64_def riscv64_table_pte_def) }
  { assume ok: "riscv64_phys_ok l p" and f: "rwx f"
    then have p: "page_addr p" and e: "riscv64_leaf_entry p f l = drop_bit 2 p OR riscv64_flags_to_hw f"
      by (auto simp: riscv64_phys_ok_def riscv64_leaf_entry_eq)
    note low = riscv64_low [OF p]
    show "entry_present riscv64 (leaf_entry riscv64 p f l)"
      using low [of 1] riscv64_hw_bits [of f] by (simp add: riscv64_def riscv64_is_valid_def e)
    show "entry_is_leaf riscv64 (leaf_entry riscv64 p f l) l"
      using low [of 1] low [of 14] riscv64_hw_bits [of f] f
      by (simp add: riscv64_def riscv64_is_leaf_def riscv64_is_valid_def e)
    show "entry_phys riscv64 (leaf_entry riscv64 p f l) l = p"
      using riscv64_address [OF p riscv64_hw_bits(1)] by (simp add: riscv64_def e) }
qed

subsection \<open>The four-level formats\<close>

definition any_flags :: "MappingFlags \<Rightarrow> bool" where
  "any_flags f \<longleftrightarrow> True"

lemma x86_hw_bits:
  "x86_hw_flags f < 8" "x86_hw_flags f AND 1 = 1"
  by (simp_all add: x86_hw_flags_def Let_def)

lemma low_addr:
  assumes "page_addr p" "h < 4096"
  shows "(p OR h) AND 0xFFFFFFFFF000 = p"
  using assms bit_less_exp [of h 12] by (intro addr_part) (auto simp: page_addr_def)

lemma low_bits: "\<lbrakk>page_addr p; m < 4096\<rbrakk> \<Longrightarrow> (p OR h) AND m = h AND m"
  using low_part [of p 12 m h] by (simp add: page_addr_def)

lemma x86_leaf_bits:
  "x86_hw_flags f OR 128 < 4096" "(x86_hw_flags f OR 128) AND 1 = 1"
  "(x86_hw_flags f OR 128) AND 128 = 128"
  by (simp_all add: x86_hw_flags_def Let_def)

lemma x86_leaf_low:
  assumes "page_addr p"
  shows "x86_leaf_entry p f l AND 2 = (if contains f FLAG_W then 2 else 0)"
    "x86_leaf_entry p f l AND 4 = (if contains f FLAG_U then 4 else 0)"
proof -
  have "x86_leaf_entry p f l = p OR (if l = 0 then x86_hw_flags f else x86_hw_flags f OR 128)"
    by (simp add: x86_leaf_entry_def x86_leaf_pte_4k_def x86_leaf_pte_2m_def or.assoc)
  then show "x86_leaf_entry p f l AND 2 = (if contains f FLAG_W then 2 else 0)"
    "x86_leaf_entry p f l AND 4 = (if contains f FLAG_U then 4 else 0)"
    using low_bits [OF assms, of 2] low_bits [OF assms, of 4] by (simp_all add: x86_hw_flags_def Let_def)
qed

lemma x86_flags_back:
  assumes "page_addr p"
  shows "x86_entry_flags (x86_leaf_entry p (x86_entry_flags e) l) = x86_entry_flags e"
proof -
  have "contains (x86_entry_flags e) FLAG_W \<longleftrightarrow> e AND 2 \<noteq> 0" "contains (x86_entry_flags e) FLAG_U \<longleftrightarrow> e AND 4 \<noteq> 0"
    by (simp_all add: x86_entry_flags_def Let_def contains_def FLAG_R_def FLAG_W_def FLAG_X_def FLAG_U_def)
  then have "x86_leaf_entry p (x86_entry_flags e) l AND 2 \<noteq> 0 \<longleftrightarrow> e AND 2 \<noteq> 0"
    "x86_leaf_entry p (x86_entry_flags e) l AND 4 \<noteq> 0 \<longleftrightarrow> e AND 4 \<noteq> 0"
    by (simp_all add: x86_leaf_low [OF assms])
  moreover have "x86_entry_flags e' = x86_entry_flags e"
    if "e' AND 2 \<noteq> 0 \<longleftrightarrow> e AND 2 \<noteq> 0" "e' AND 4 \<noteq> 0 \<longleftrightarrow> e AND 4 \<noteq> 0" for e'
    unfolding x86_entry_flags_def that ..
  ultimately show ?thesis by blast
qed

interpretation x86: pte_encoding x86_64 "\<lambda>_. page_addr" any_flags
proof
  show "2 \<le> LEVELS x86_64" "LEVELS x86_64 \<le> 4" by (simp_all add: x86_64_def)
  show "\<not> entry_present x86_64 0" by (simp add: x86_64_def x86_is_present_def)
  fix p l f e
  show "page_addr (entry_phys x86_64 e l)"
    using addr_mask_range [of e] by (simp add: x86_64_def x86_pte_address_def page_addr_def)
  show "entry_flags x86_64 (leaf_entry x86_64 p (entry_flags x86_64 e) l) = entry_flags x86_64 e"
    if "page_addr p" using x86_flags_back [OF that] by (simp add: x86_64_def)
  show "any_flags (entry_flags x86_64 e)" by (simp add: any_flags_def)
  { assume p: "page_addr p"
    have e: "table_entry x86_64 p = p OR 7" by (simp add: x86_64_def x86_table_pte_def or.assoc)
    show "entry_present x86_64 (table_entry x86_64 p)"
      using low_bits [OF p, of 1 7] unfolding e by (simp add: x86_64_def x86_is_present_def)
    show "\<not> entry_is_leaf x86_64 (table_entry x86_64 p) l" if "0 < l"
      using low_bits [OF p, of 128 7] that unfolding e
      by (simp add: x86_64_def x86_entry_is_leaf_def x86_is_huge_def)
    show "entry_phys x86_64 (table_entry x86_64 p) l = p"
      using low_addr [OF p, of 7] unfolding e by (simp add: x86_64_def x86_pte_address_def)
    have e: "leaf_entry x86_64 p f l = p OR (if l = 0 then x86_hw_flags f else x86_hw_flags f OR 128)"
      by (simp add: x86_64_def x86_leaf_entry_def x86_leaf_pte_4k_def x86_leaf_pte_2m_def or.assoc)
    show "entry_present x86_64 (leaf_entry x86_64 p f l)"
      using low_bits [OF p, of 1] x86_hw_bits [of f] x86_leaf_bits [of f] unfolding e
      by (simp add: x86_64_def x86_is_present_def)
    show "entry_is_leaf x86_64 (leaf_entry x86_64 p f l) l"
      using low_bits [OF p, of 1] low_bits [OF p, of 128] x86_hw_bits [of f] x86_leaf_bits [of f]
      unfolding e by (simp add: x86_64_def x86_entry_is_leaf_def x86_is_huge_def x86_is_present_def)
    show "entry_phys x86_64 (leaf_entry x86_64 p f l) l = p"
      using low_addr [OF p] x86_hw_bits [of f] x86_leaf_bits [of f] unfolding e
      by (simp add: x86_64_def x86_pte_address_def) }
qed

lemma a64_ap_bits: "bit (a64_ap_flags f) i \<Longrightarrow> i = 6 \<or> i = 7 \<or> i = 54"
proof -
  have c: "(0x40 :: nat) = 2 ^ 6" "(0x80 :: nat) = 2 ^ 7" "(0x40000000000000 :: nat) = 2 ^ 54"
    by simp_all
  show "bit (a64_ap_flags f) i \<Longrightarrow> i = 6 \<or> i = 7 \<or> i = 54"
    unfolding a64_ap_flags_def A64_AP2_RO_def A64_AP1_EL0_def A64_UXN_def c Let_def
    by (auto simp: bit_or_iff bit_exp_iff simp del: power_numeral split: if_splits)
qed

lemma a64_leaf_bits:
  assumes "c < 64"
  shows "((c + 0x400) OR a64_ap_flags f) AND 1 = (c + 0x400) AND 1"
    and "((c + 0x400) OR a64_ap_flags f) AND 2 = (c + 0x400) AND 2"
    and "bit ((c + 0x400) OR a64_ap_flags f) i \<Longrightarrow> i < 12 \<or> 48 \<le> i"
proof -
  have ap: "a64_ap_flags f mod 2 ^ 2 = 0"
    unfolding take_bit_eq_mod [symmetric]
    by (rule bit_eqI) (auto simp: bit_take_bit_iff dest!: a64_ap_bits)
  show "((c + 0x400) OR a64_ap_flags f) AND 1 = (c + 0x400) AND 1"
    "((c + 0x400) OR a64_ap_flags f) AND 2 = (c + 0x400) AND 2"
    using low_part [OF ap, of 1 "c + 0x400"] low_part [OF ap, of 2 "c + 0x400"] by (simp_all add: or.commute)
  show "i < 12 \<or> 48 \<le> i" if "bit ((c + 0x400) OR a64_ap_flags f) i"
    using that assms bit_less_exp [of "c + 0x400" 12 i] a64_ap_bits [of f i]
    by (auto simp: bit_or_iff)
qed

lemma a64_leaf_bit:
  assumes "page_addr p"
  shows "bit (a64_leaf_entry p f l) 6 \<longleftrightarrow> contains f FLAG_U" "bit (a64_leaf_entry p f l) 7 \<longleftrightarrow> \<not> contains f FLAG_W"
    "bit (a64_leaf_entry p f l) 54 \<longleftrightarrow> \<not> contains f FLAG_X"
proof -
  define c where "c = (if l = 0 then 7 else 5 :: nat) + 0x400"
  have k: "Suc 0 OR (2 OR (1024 OR (4 OR x))) = 1031 OR x" "Suc 0 OR (1024 OR (4 OR x)) = 1029 OR x" for x :: nat
    by (simp_all flip: or.assoc)
  have e: "a64_leaf_entry p f l = p OR (c OR a64_ap_flags f)"
    by (simp add: c_def a64_leaf_entry_def a64_page_pte_def a64_block_pte_def k)
  have pc: "\<not> bit p 6" "\<not> bit p 7" "\<not> bit p 54" "\<not> bit c 6" "\<not> bit c 7" "\<not> bit c 54"
    using assms bit_aligned [of p 12 6] bit_aligned [of p 12 7] bit_less_exp [of p 48 54] bit_less_exp [of c 11 54]
    by (auto simp: page_addr_def c_def bit_numeral_rec)
  have x: "(0x40 :: nat) = 2 ^ 6" "(0x80 :: nat) = 2 ^ 7" "(0x40000000000000 :: nat) = 2 ^ 54" by simp_all
  have "bit (a64_ap_flags f) 6 \<longleftrightarrow> contains f FLAG_U" "bit (a64_ap_flags f) 7 \<longleftrightarrow> \<not> contains f FLAG_W"
    "bit (a64_ap_flags f) 54 \<longleftrightarrow> \<not> contains f FLAG_X"
    unfolding a64_ap_flags_def A64_AP2_RO_def A64_AP1_EL0_def A64_UXN_def x Let_def
    by (auto simp: bit_or_iff bit_exp_iff simp del: power_numeral)
  then show "bit (a64_leaf_entry p f l) 6 \<longleftrightarrow> contains f FLAG_U"
    "bit (a64_leaf_entry p f l) 7 \<longleftrightarrow> \<not> contains f FLAG_W" "bit (a64_leaf_entry p f l) 54 \<longleftrightarrow> \<not> contains f FLAG_X"
    using pc by (simp_all add: e bit_or_iff)
qed

lemma and_exp: "e AND push_bit n 1 = (0 :: nat) \<longleftrightarrow> \<not> bit e n"
  by (simp add: and_exp_eq_0_iff_not_bit)

lemma a64_flags_back:
  assumes "page_addr p"
  shows "a64_entry_flags (a64_leaf_entry p (a64_entry_flags e) l) = a64_entry_flags e"
proof -
  have "contains (a64_entry_flags e) FLAG_W \<longleftrightarrow> \<not> bit e 7" "contains (a64_entry_flags e) FLAG_U \<longleftrightarrow> bit e 6"
    "contains (a64_entry_flags e) FLAG_X \<longleftrightarrow> \<not> bit e 54"
    unfolding a64_entry_flags_def Let_def and_exp
    by (simp_all add: contains_def FLAG_R_def FLAG_W_def FLAG_X_def FLAG_U_def)
  then have "bit (a64_leaf_entry p (a64_entry_flags e) l) n \<longleftrightarrow> bit e n" if "n \<in> {6, 7, 54}" for n
    using that a64_leaf_bit [OF assms] by auto
  moreover have "a64_entry_flags e' = a64_entry_flags e"
    if "\<And>n. n \<in> {6, 7, 54} \<Longrightarrow> bit e' n \<longleftrightarrow> bit e n" for e'
    unfolding a64_entry_flags_def and_exp using that [of 6] that [of 7] that [of 54] by simp
  ultimately show ?thesis by blast
qed

interpretation a64: pte_encoding aarch64 "\<lambda>_. page_addr" any_flags
proof
  show "2 \<le> LEVELS aarch64" "LEVELS aarch64 \<le> 4" by (simp_all add: aarch64_def)
  show "\<not> entry_present aarch64 0" by (simp add: aarch64_def a64_is_valid_def)
  fix p l f e
  show "page_addr (entry_phys aarch64 e l)"
    using addr_mask_range [of e] by (simp add: aarch64_def a64_pte_address_def page_addr_def)
  show "entry_flags aarch64 (leaf_entry aarch64 p (entry_flags aarch64 e) l) = entry_flags aarch64 e"
    if "page_addr p" using a64_flags_back [OF that] by (simp add: aarch64_def)
  show "any_flags (entry_flags aarch64 e)" by (simp add: any_flags_def)
  { assume p: "page_addr p"
    have e: "table_entry aarch64 p = p OR 3" by (simp add: aarch64_def a64_table_entry_def or.assoc)
    show "entry_present aarch64 (table_entry aarch64 p)"
      using low_bits [OF p, of 1 3] unfolding e by (simp add: aarch64_def a64_is_valid_def)
    show "\<not> entry_is_leaf aarch64 (table_entry aarch64 p) l" if "0 < l"
      using low_bits [OF p, of 2 3] that unfolding e
      by (simp add: aarch64_def a64_entry_is_leaf_def a64_is_block_def)
    show "entry_phys aarch64 (table_entry aarch64 p) l = p"
      using low_addr [OF p, of 3] unfolding e by (simp add: aarch64_def a64_pte_address_def)
    define c where "c = (if l = 0 then 7 else 5 :: nat)"
    have k: "Suc 0 OR (2 OR (1024 OR (4 OR x))) = 1031 OR x"
      "Suc 0 OR (1024 OR (4 OR x)) = 1029 OR x" for x :: nat
      by (simp_all flip: or.assoc)
    have e: "leaf_entry aarch64 p f l = p OR ((c + 0x400) OR a64_ap_flags f)"
      by (simp add: c_def aarch64_def a64_leaf_entry_def a64_page_pte_def a64_block_pte_def k)
    have c: "c < 64" "(c + 0x400) AND 1 = 1" "(c + 0x400) AND 2 = (if l = 0 then 2 else 0)"
      by (simp_all add: c_def)
    note bits = a64_leaf_bits [OF c(1), of f] c(2,3)
    show "entry_present aarch64 (leaf_entry aarch64 p f l)"
      using low_bits [OF p, of 1] bits unfolding e
      by (simp add: aarch64_def a64_is_valid_def)
    show "entry_is_leaf aarch64 (leaf_entry aarch64 p f l) l"
      using low_bits [OF p, of 1] low_bits [OF p, of 2] bits
      unfolding e by (simp add: aarch64_def a64_entry_is_leaf_def a64_is_block_def a64_is_valid_def)
    show "entry_phys aarch64 (leaf_entry aarch64 p f l) l = p"
      using addr_part [of p] p bits(3) unfolding e
      by (simp add: aarch64_def a64_pte_address_def page_addr_def) }
qed

section \<open>The selected architecture\<close>

datatype arch = Riscv64 | X86_64 | Aarch64

definition pte :: "arch \<Rightarrow> pte_format" where
  "pte a = (case a of Riscv64 \<Rightarrow> riscv64 | X86_64 \<Rightarrow> x86_64 | Aarch64 \<Rightarrow> aarch64)"

definition phys_ok :: "arch \<Rightarrow> nat \<Rightarrow> usize \<Rightarrow> bool" where
  "phys_ok a = (case a of Riscv64 \<Rightarrow> riscv64_phys_ok | _ \<Rightarrow> (\<lambda>_. page_addr))"

definition flags_ok :: "arch \<Rightarrow> MappingFlags \<Rightarrow> bool" where
  "flags_ok a = (case a of Riscv64 \<Rightarrow> rwx | _ \<Rightarrow> any_flags)"

interpretation arch: pte_encoding "pte a" "phys_ok a" "flags_ok a" for a
  using rv.pte_encoding_axioms x86.pte_encoding_axioms a64.pte_encoding_axioms
  by (cases a) (simp_all add: pte_def phys_ok_def flags_ok_def)

section \<open>What the hardware grants\<close>

text \<open>
  The rights a leaf entry gives to user code, read off its bits the way the architectures document
  them: R, W, X and U of Sv39; writable, user and no-execute of x86-64; AP[2], AP[1] and UXN of
  AArch64, where readable pages need no bit.  They are what permissions \<open>f\<close> ask for, except
  that x86-64 and AArch64 pages are always readable and the x86-64 encoding never forbids execution.
\<close>

definition hw_rights :: "arch \<Rightarrow> usize \<Rightarrow> MappingFlags" where
  "hw_rights a e = (case a of
     Riscv64 \<Rightarrow> (if bit e 1 then FLAG_R else 0) OR (if bit e 2 then FLAG_W else 0)
       OR (if bit e 3 then FLAG_X else 0) OR (if bit e 4 then FLAG_U else 0)
   | X86_64 \<Rightarrow> FLAG_R OR (if bit e 1 then FLAG_W else 0) OR (if bit e 63 then 0 else FLAG_X)
       OR (if bit e 2 then FLAG_U else 0)
   | Aarch64 \<Rightarrow> FLAG_R OR (if bit e 7 then 0 else FLAG_W) OR (if bit e 54 then 0 else FLAG_X)
       OR (if bit e 6 then FLAG_U else 0))"

definition granted :: "arch \<Rightarrow> MappingFlags \<Rightarrow> MappingFlags" where
  "granted a f = (case a of
     Riscv64 \<Rightarrow> f AND (FLAG_R OR FLAG_W OR FLAG_X OR FLAG_U)
   | X86_64 \<Rightarrow> FLAG_R OR FLAG_X OR (f AND (FLAG_W OR FLAG_U))
   | Aarch64 \<Rightarrow> FLAG_R OR (f AND (FLAG_W OR FLAG_X OR FLAG_U)))"

lemma flag_part: "f AND FLAG_R = (if contains f FLAG_R then FLAG_R else 0)"
  "f AND FLAG_W = (if contains f FLAG_W then FLAG_W else 0)"
  "f AND FLAG_X = (if contains f FLAG_X then FLAG_X else 0)"
  "f AND FLAG_U = (if contains f FLAG_U then FLAG_U else 0)"
proof -
  have "f AND push_bit n 1 = (if bit f n then push_bit n 1 else 0)" for n
    by (rule bit_eqI) (auto simp: bit_and_iff bit_exp_iff)
  from this [of 0] this [of 1] this [of 2] this [of 3]
  show "f AND FLAG_R = (if contains f FLAG_R then FLAG_R else 0)"
    "f AND FLAG_W = (if contains f FLAG_W then FLAG_W else 0)"
    "f AND FLAG_X = (if contains f FLAG_X then FLAG_X else 0)"
    "f AND FLAG_U = (if contains f FLAG_U then FLAG_U else 0)"
    unfolding contains_bits unfolding FLAG_R_def FLAG_W_def FLAG_X_def FLAG_U_def by blast+
qed

lemma hw_rights_leaf:
  assumes "phys_ok a l p"
  shows "hw_rights a (leaf_entry (pte a) p f l) = granted a f"
proof -
  have b: "bit e 1 \<longleftrightarrow> e AND 2 \<noteq> 0" "bit e 2 \<longleftrightarrow> e AND 4 \<noteq> 0" "bit e 3 \<longleftrightarrow> e AND 8 \<noteq> 0" "bit e 4 \<longleftrightarrow> e AND 16 \<noteq> 0"
    for e :: nat
    using and_exp [of e 1] and_exp [of e 2] and_exp [of e 3] and_exp [of e 4] by simp_all
  show ?thesis
  proof (cases a)
    case Riscv64
    then have "riscv64_phys_ok l p" using assms by (simp add: phys_ok_def)
    then show ?thesis
      unfolding Riscv64 hw_rights_def granted_def arch.case b
      by (simp add: pte_def riscv64_def riscv64_leaf_low riscv64_hw_and bit.conj_disj_distrib flag_part)
  next
    case X86_64
    then have p: "page_addr p" using assms by (simp add: phys_ok_def)
    then have "\<not> bit p 63" using bit_less_exp [of p 48 63] by (auto simp: page_addr_def)
    then have "\<not> bit (x86_leaf_entry p f l) 63"
      using bit_less_exp [of "x86_hw_flags f OR 128" 12 63] bit_less_exp [of "x86_hw_flags f" 12 63] x86_leaf_bits(1) [of f] x86_hw_bits(1) [of f]
      by (auto simp: x86_leaf_entry_def x86_leaf_pte_4k_def x86_leaf_pte_2m_def or.assoc bit_or_iff)
    then show ?thesis
      unfolding X86_64 hw_rights_def granted_def arch.case b
      by (simp add: pte_def x86_64_def x86_leaf_low [OF p] bit.conj_disj_distrib flag_part) (simp add: or.commute or.left_commute)
  next
    case Aarch64
    then have "page_addr p" using assms by (simp add: phys_ok_def)
    then show ?thesis
      by (simp add: Aarch64 hw_rights_def granted_def pte_def aarch64_def a64_leaf_bit
            bit.conj_disj_distrib flag_part)
  qed
qed

end
