(* ===== verification/Kor_Mmu.thy ===== *)
theory Kor_Mmu
  imports Kor_Pte Kor_Frame
begin

text \<open>
  The page-table engine \<^verbatim>\<open>base/kor-mmu\<close>: descriptors of table pages
  (\<^verbatim>\<open>descriptor.rs\<close>), transactions (\<^verbatim>\<open>page_table.rs\<close>, \<open>rcursor\<close>) and address spaces.

  The state \<open>mmu\<close> holds physical memory page by page, as table entries (\<open>tables\<close>) and as
  bytes (\<open>page_bytes\<close>): a table page is accessed by entries and a data page by bytes, and each
  view is zeroed before a frame is used through it, so the two never meet.  Memory is
  addressed by physical address, since every access goes through the same translation of
  \<open>Kor_Addr\<close>.  \<open>metadata\<close> and \<open>dlock\<close> are the descriptor table, \<open>frame_st\<close> the frame allocator,
  \<open>active_root\<close> the root register of the CPU, \<open>tlb_log\<close> the TLB invalidations issued and
  \<open>irq_on\<close> whether interrupts are enabled.
  The architecture is the argument \<open>A\<close>.  Loops that go down the levels recurse on the level.
\<close>

section \<open>State\<close>

datatype PageStatus =
    Invalid
  | Mapped usize MappingFlags usize
  | Allocated MappingFlags

record mmu =
  tables :: "usize \<Rightarrow> usize \<Rightarrow> usize"
  page_bytes :: "usize \<Rightarrow> usize \<Rightarrow> u8"
  metadata :: "usize \<Rightarrow> (usize \<Rightarrow> PageStatus) option"
  dlock :: "usize \<Rightarrow> bool"
  frame_st :: frame_allocator
  active_root :: usize
  tlb_log :: "usize option list"
  irq_on :: bool

record rcursor =
  space_root :: usize
  locked :: "usize list"

type_synonym txn = "rcursor \<times> mmu"

text \<open>A loop over indices that stops at the first fault.\<close>

primrec for_list :: "('i \<Rightarrow> 's \<Rightarrow> 'e + 's) \<Rightarrow> 'i list \<Rightarrow> 's \<Rightarrow> 'e + 's" where
  "for_list f [] s = Inr s"
| "for_list f (i # is) s = bnd (f i s) (for_list f is)"

section \<open>Descriptors\<close>

definition descriptor_of :: "usize \<Rightarrow> fault + usize" where
  "descriptor_of frame =
     bnd (assert_that (frame mod PAGE_SIZE = 0) ''unaligned table frame'') (\<lambda>_.
     let index = frame div PAGE_SIZE in
     bnd (assert_that (index < MAX_TRACKED_FRAMES) ''frame beyond descriptor table'') (\<lambda>_.
     Inr index))"

definition acquire :: "usize \<Rightarrow> mmu \<Rightarrow> fault + mmu" where
  "acquire d s = (if dlock s d then Inl Deadlock else Inr (s\<lparr>dlock := (dlock s)(d := True)\<rparr>))"

definition release :: "usize \<Rightarrow> mmu \<Rightarrow> mmu" where
  "release d s = s\<lparr>dlock := (dlock s)(d := False)\<rparr>"

definition status :: "usize \<Rightarrow> usize \<Rightarrow> mmu \<Rightarrow> PageStatus" where
  "status d index s = (case metadata s d of None \<Rightarrow> Invalid | Some m \<Rightarrow> m index)"

definition set_status :: "usize \<Rightarrow> usize \<Rightarrow> PageStatus \<Rightarrow> mmu \<Rightarrow> mmu" where
  "set_status d index st s =
     (let m = (case metadata s d of None \<Rightarrow> (\<lambda>_. Invalid) | Some m \<Rightarrow> m) in
      s\<lparr>metadata := (metadata s)(d := Some (m(index := st)))\<rparr>)"

definition drop_metadata :: "usize \<Rightarrow> mmu \<Rightarrow> mmu" where
  "drop_metadata d s = s\<lparr>metadata := (metadata s)(d := None)\<rparr>"

section \<open>Memory, frames and the TLB\<close>

definition alloc_frame :: "mmu \<Rightarrow> fault + usize option \<times> mmu" where
  "alloc_frame s =
     bnd (frame_alloc_frame (frame_st s)) (\<lambda>(r, f). Inr (r, s\<lparr>frame_st := f\<rparr>))"

definition free_frames :: "usize \<Rightarrow> usize \<Rightarrow> mmu \<Rightarrow> fault + mmu" where
  "free_frames phys count s =
     bnd (frame_free_frames (frame_st s) phys count) (\<lambda>f. Inr (s\<lparr>frame_st := f\<rparr>))"

definition zero_page :: "usize \<Rightarrow> mmu \<Rightarrow> mmu" where
  "zero_page pa s = s\<lparr>tables := (tables s)(pa := (\<lambda>_. 0)),
     page_bytes := (page_bytes s)(pa := (\<lambda>_. 0))\<rparr>"

definition set_entry :: "usize \<Rightarrow> usize \<Rightarrow> usize \<Rightarrow> mmu \<Rightarrow> mmu" where
  "set_entry page index e s = s\<lparr>tables := (tables s)(page := (tables s page)(index := e))\<rparr>"

definition flush_tlb :: "usize option \<Rightarrow> mmu \<Rightarrow> mmu" where
  "flush_tlb va s = s\<lparr>tlb_log := tlb_log s @ [va]\<rparr>"

definition map_size_bytes :: "MapSize \<Rightarrow> usize" where
  "map_size_bytes sz = (case sz of Page4K \<Rightarrow> PAGE_SIZE | Page2M \<Rightarrow> 2 * 1024 * 1024)"

section \<open>Transactions\<close>

definition lock_page :: "usize \<Rightarrow> txn \<Rightarrow> fault + txn" where
  "lock_page page = (\<lambda>(c, s).
     if page \<in> set (locked c) then Inr (c, s)
     else bnd (descriptor_of page) (\<lambda>d. bnd (acquire d s) (\<lambda>s'.
          Inr (c\<lparr>locked := locked c @ [page]\<rparr>, s'))))"

text \<open>Dropping the cursor pops the guards from the back.\<close>

definition drop_cursor :: "txn \<Rightarrow> mmu" where
  "drop_cursor = (\<lambda>(c, s). foldr (\<lambda>page. release (page div PAGE_SIZE)) (locked c) s)"

primrec lock_range_loop ::
  "pte_format \<Rightarrow> usize \<Rightarrow> usize \<Rightarrow> nat \<Rightarrow> usize \<Rightarrow> txn \<Rightarrow> fault + txn" where
  "lock_range_loop A start stop 0 page t = Inr t"
| "lock_range_loop A start stop (Suc l) page t =
     (let entry = tables (snd t) page (table_index start (Suc l));
          child_span = span l;
          covered = usize_sub stop 1 < usize_mul (usize_add (start div child_span) 1) child_span in
      if \<not> entry_present A entry \<or> entry_is_leaf A entry (Suc l) \<or> \<not> covered then Inr t
      else let child = entry_phys A entry (Suc l) in
           bnd (lock_page child t) (lock_range_loop A start stop l child))"

definition lock_range :: "pte_format \<Rightarrow> usize \<Rightarrow> usize \<Rightarrow> txn \<Rightarrow> fault + txn" where
  "lock_range A start stop t =
     (let page = space_root (fst t) in
      bnd (lock_page page t) (lock_range_loop A start stop (LEVELS A - 1) page))"

primrec query_loop ::
  "pte_format \<Rightarrow> usize \<Rightarrow> nat \<Rightarrow> usize \<Rightarrow> PageStatus \<Rightarrow> mmu \<Rightarrow> fault + PageStatus" where
  "query_loop A va 0 page inherited s =
     (let index = table_index va 0; entry = tables s page index in
      bnd (descriptor_of page) (\<lambda>d.
      let st = status d index s; inherited = (if st \<noteq> Invalid then st else inherited) in
      if \<not> entry_present A entry then Inr inherited
      else Inr (Mapped (entry_phys A entry 0) (entry_flags A entry) (span 0))))"
| "query_loop A va (Suc l) page inherited s =
     (let index = table_index va (Suc l); entry = tables s page index in
      bnd (descriptor_of page) (\<lambda>d.
      let st = status d index s; inherited = (if st \<noteq> Invalid then st else inherited) in
      if \<not> entry_present A entry then Inr inherited
      else if entry_is_leaf A entry (Suc l)
      then Inr (Mapped (entry_phys A entry (Suc l)) (entry_flags A entry) (span (Suc l)))
      else query_loop A va l (entry_phys A entry (Suc l)) inherited s))"

definition query :: "pte_format \<Rightarrow> usize \<Rightarrow> txn \<Rightarrow> fault + PageStatus" where
  "query A va = (\<lambda>(c, s). query_loop A va (LEVELS A - 1) (space_root c) Invalid s)"

definition split_leaf ::
  "pte_format \<Rightarrow> usize \<Rightarrow> usize \<Rightarrow> nat \<Rightarrow> txn \<Rightarrow> fault + (MapError + unit) \<times> txn" where
  "split_leaf A page index level = (\<lambda>(c, s).
     let old_entry = tables s page index;
         old_phys = entry_phys A old_entry level;
         old_flags = entry_flags A old_entry in
     bnd (alloc_frame s) (\<lambda>(r, s).
     case r of
       None \<Rightarrow> Inr (Inl OutOfMemory, c, s)
     | Some child \<Rightarrow>
         let s = zero_page child s;
             child_span = span (level - 1);
             s = s\<lparr>tables := (tables s)(child := (\<lambda>i.
                   if i < PT_ENTRIES
                   then leaf_entry A (usize_add old_phys (usize_mul i child_span)) old_flags (level - 1)
                   else tables s child i))\<rparr>;
             s = set_entry page index (table_entry A child) s in
         bnd (descriptor_of page) (\<lambda>d.
         bnd (lock_page child (c, set_status d index Invalid s)) (\<lambda>t.
         Inr (Inr (), t)))))"

text \<open>One round of the loop of \<^verbatim>\<open>RCursor::map\<close> above the target level: the next table.\<close>

definition map_descend ::
  "pte_format \<Rightarrow> usize \<Rightarrow> usize \<Rightarrow> nat \<Rightarrow> txn \<Rightarrow> fault + (MapError + usize) \<times> txn" where
  "map_descend A va page level = (\<lambda>(c, s).
     let index = table_index va level; entry = tables s page index in
     if \<not> entry_present A entry then
       bnd (alloc_frame s) (\<lambda>(r, s).
       case r of
         None \<Rightarrow> Inr (Inl OutOfMemory, c, s)
       | Some child \<Rightarrow>
           let s = set_entry page index (table_entry A child) (zero_page child s) in
           bnd (lock_page child (c, s)) (\<lambda>t. Inr (Inr child, t)))
     else if entry_is_leaf A entry level then
       bnd (split_leaf A page index level (c, s)) (\<lambda>(r, c, s).
       case r of
         Inl e \<Rightarrow> Inr (Inl e, c, s)
       | Inr _ \<Rightarrow> Inr (Inr (entry_phys A (tables s page index) level), c, s))
     else
       let child = entry_phys A entry level in
       bnd (lock_page child (c, s)) (\<lambda>t. Inr (Inr child, t)))"

definition map_target ::
  "pte_format \<Rightarrow> usize \<Rightarrow> usize \<Rightarrow> MappingFlags \<Rightarrow> usize \<Rightarrow> usize \<Rightarrow> nat \<Rightarrow> txn \<Rightarrow>
   fault + (MapError + unit) \<times> txn" where
  "map_target A va phys flags granularity page level = (\<lambda>(c, s).
     let index = table_index va level; entry = tables s page index in
     bnd (descriptor_of page) (\<lambda>d.
     if entry_present A entry \<and> status d index s \<noteq> Invalid
     then Inr (Inl BlockedByExistingMapping, c, s)
     else let s = set_entry page index (leaf_entry A phys flags level) s;
              s = set_status d index (Mapped phys flags granularity) s in
          Inr (Inr (), c, flush_tlb (Some va) s)))"

primrec map_loop ::
  "pte_format \<Rightarrow> usize \<Rightarrow> usize \<Rightarrow> MappingFlags \<Rightarrow> nat \<Rightarrow> usize \<Rightarrow> nat \<Rightarrow> usize \<Rightarrow> txn \<Rightarrow>
   fault + (MapError + unit) \<times> txn" where
  "map_loop A va phys flags target granularity 0 page t =
     (if target = 0 then map_target A va phys flags granularity page 0 t else Inl OutOfFuel)"
| "map_loop A va phys flags target granularity (Suc l) page t =
     (if Suc l = target then map_target A va phys flags granularity page (Suc l) t
      else bnd (map_descend A va page (Suc l) t) (\<lambda>(r, t).
           case r of
             Inl e \<Rightarrow> Inr (Inl e, t)
           | Inr child \<Rightarrow> map_loop A va phys flags target granularity l child t))"

definition cursor_map ::
  "pte_format \<Rightarrow> usize \<Rightarrow> usize \<Rightarrow> MappingFlags \<Rightarrow> MapSize \<Rightarrow> txn \<Rightarrow>
   fault + (MapError + unit) \<times> txn" where
  "cursor_map A va phys flags sz t =
     (let target_level = (case sz of Page4K \<Rightarrow> 0 | Page2M \<Rightarrow> 1);
          granularity = span target_level in
      if va mod granularity \<noteq> 0 \<or> phys mod granularity \<noteq> 0 then Inr (Inl Unsupported, t)
      else map_loop A va phys flags target_level granularity (LEVELS A - 1) (space_root (fst t)) t)"

primrec mark_in ::
  "pte_format \<Rightarrow> MappingFlags \<Rightarrow> nat \<Rightarrow> usize \<Rightarrow> usize \<Rightarrow> usize \<Rightarrow> usize \<Rightarrow> txn \<Rightarrow> fault + txn" where
  "mark_in A flags 0 page base start stop t =
     (let sp = span 0 in
      for_list (\<lambda>index (c, s).
        let entry_start = usize_add base (usize_mul index sp);
            entry_end = usize_add entry_start sp in
        if start \<le> entry_start \<and> entry_end \<le> stop
        then bnd (descriptor_of page) (\<lambda>d. Inr (c, set_status d index (Allocated flags) s))
        else Inr (c, s))
      [table_index start 0..<Suc (table_index (usize_sub stop 1) 0)] t)"
| "mark_in A flags (Suc l) page base start stop t =
     (let sp = span (Suc l) in
      for_list (\<lambda>index (c, s).
        let entry_start = usize_add base (usize_mul index sp);
            entry_end = usize_add entry_start sp;
            entry = tables s page index in
        if start \<le> entry_start \<and> entry_end \<le> stop
        then bnd (descriptor_of page) (\<lambda>d. Inr (c, set_status d index (Allocated flags) s))
        else if entry_present A entry \<and> \<not> entry_is_leaf A entry (Suc l)
        then let child = entry_phys A entry (Suc l);
                 lo = max start entry_start;
                 hi = min stop entry_end in
             bnd (lock_page child (c, s)) (mark_in A flags l child entry_start lo hi)
        else Inr (c, s))
      [table_index start (Suc l)..<Suc (table_index (usize_sub stop 1) (Suc l))] t)"

definition mark :: "pte_format \<Rightarrow> usize \<Rightarrow> usize \<Rightarrow> MappingFlags \<Rightarrow> txn \<Rightarrow> fault + txn" where
  "mark A start stop flags t = mark_in A flags (LEVELS A - 1) (space_root (fst t)) 0 start stop t"

text \<open>Clearing a leaf, and freeing a child table that has become empty.\<close>

definition clear_leaf :: "usize \<Rightarrow> usize \<Rightarrow> usize \<Rightarrow> nat \<times> txn \<Rightarrow> fault + nat \<times> txn" where
  "clear_leaf page index sp = (\<lambda>(n, c, s).
     let s = set_entry page index 0 s in
     bnd (descriptor_of page) (\<lambda>d.
     Inr (usize_add n (sp div PAGE_SIZE), c, set_status d index Invalid s)))"

definition reap_child :: "usize \<Rightarrow> usize \<Rightarrow> usize \<Rightarrow> nat \<times> txn \<Rightarrow> fault + nat \<times> txn" where
  "reap_child page index child = (\<lambda>(n, c, s).
     if list_all (\<lambda>i. tables s child i = 0) [0..<PT_ENTRIES] then
       bnd (descriptor_of child) (\<lambda>d.
       bnd (free_frames child 1 (drop_metadata d s)) (\<lambda>s.
       let s = (if child \<in> set (locked c) then release d s else s);
           c = c\<lparr>locked := filter (\<lambda>held. held \<noteq> child) (locked c)\<rparr> in
       Inr (n, c, set_entry page index 0 s)))
     else Inr (n, c, s))"

primrec unmap_in ::
  "pte_format \<Rightarrow> nat \<Rightarrow> usize \<Rightarrow> usize \<Rightarrow> usize \<Rightarrow> usize \<Rightarrow> nat \<times> txn \<Rightarrow> fault + nat \<times> txn" where
  "unmap_in A 0 page base start stop t =
     for_list (\<lambda>index (n, c, s).
        let entry = tables s page index in
        if \<not> entry_present A entry then Inr (n, c, s)
        else if entry_is_leaf A entry 0 then clear_leaf page index (span 0) (n, c, s)
        else Inr (n, c, s))
      [table_index start 0..<Suc (table_index (usize_sub stop 1) 0)] t"
| "unmap_in A (Suc l) page base start stop t =
     for_list (\<lambda>index (n, c, s).
        let entry = tables s page index in
        if \<not> entry_present A entry then Inr (n, c, s)
        else
          let entry_start = usize_add base (usize_mul index (span (Suc l)));
              entry_end = usize_add entry_start (span (Suc l));
              fully = (start \<le> entry_start \<and> entry_end \<le> stop) in
          if entry_is_leaf A entry (Suc l) then
            (if fully then clear_leaf page index (span (Suc l)) (n, c, s) else Inr (n, c, s))
          else
            let child = entry_phys A entry (Suc l);
                lo = max start entry_start;
                hi = min stop entry_end in
            bnd (lock_page child (c, s)) (\<lambda>t.
            bnd (unmap_in A l child entry_start lo hi (n, t)) (reap_child page index child)))
      [table_index start (Suc l)..<Suc (table_index (usize_sub stop 1) (Suc l))] t"

definition cursor_unmap ::
  "pte_format \<Rightarrow> usize \<Rightarrow> usize \<Rightarrow> txn \<Rightarrow> fault + (MapError + usize) \<times> txn" where
  "cursor_unmap A start stop t =
     (if start \<ge> stop then Inr (Inl Unsupported, t)
      else bnd (unmap_in A (LEVELS A - 1) (space_root (fst t)) 0 start stop (0, t)) (\<lambda>(n, c, s).
           Inr (Inr n, c, flush_tlb None s)))"

section \<open>Address spaces\<close>

definition addrspace_new :: "mmu \<Rightarrow> fault + (MapError + usize) \<times> mmu" where
  "addrspace_new s =
     bnd (alloc_frame s) (\<lambda>(r, s).
     case r of
       None \<Rightarrow> Inr (Inl OutOfMemory, s)
     | Some root \<Rightarrow> Inr (Inr root, zero_page root s))"

definition addrspace_lock :: "pte_format \<Rightarrow> usize \<Rightarrow> usize \<Rightarrow> usize \<Rightarrow> mmu \<Rightarrow> fault + txn" where
  "addrspace_lock A root start stop s = lock_range A start stop (\<lparr>space_root = root, locked = []\<rparr>, s)"

definition addrspace_map ::
  "pte_format \<Rightarrow> usize \<Rightarrow> usize \<Rightarrow> usize \<Rightarrow> MappingFlags \<Rightarrow> MapSize \<Rightarrow> mmu \<Rightarrow>
   fault + (MapError + unit) \<times> mmu" where
  "addrspace_map A root va phys flags sz s =
     bnd (addrspace_lock A root va (usize_add va (map_size_bytes sz)) s) (\<lambda>t.
     bnd (cursor_map A va phys flags sz t) (\<lambda>(r, t). Inr (r, drop_cursor t)))"

definition addrspace_translate ::
  "pte_format \<Rightarrow> usize \<Rightarrow> usize \<Rightarrow> mmu \<Rightarrow> fault + usize option \<times> mmu" where
  "addrspace_translate A root va s =
     bnd (addrspace_lock A root va (usize_add va PAGE_SIZE) s) (\<lambda>t.
     bnd (query A va t) (\<lambda>st.
     Inr (case st of Mapped phys flags granularity \<Rightarrow> Some (usize_add phys (va mod granularity))
          | _ \<Rightarrow> None,
          drop_cursor t)))"

definition addrspace_unmap ::
  "pte_format \<Rightarrow> usize \<Rightarrow> usize \<Rightarrow> MapSize \<Rightarrow> mmu \<Rightarrow> fault + (MapError + usize) \<times> mmu" where
  "addrspace_unmap A root va sz s =
     bnd (addrspace_translate A root va s) (\<lambda>(r, s).
     case r of
       None \<Rightarrow> Inr (Inl BlockedByExistingMapping, s)
     | Some paddr \<Rightarrow>
         let stop = usize_add va (map_size_bytes sz) in
         bnd (addrspace_lock A root va stop s) (\<lambda>t.
         bnd (cursor_unmap A va stop t) (\<lambda>(r, t).
         Inr (case r of Inl e \<Rightarrow> Inl e | Inr _ \<Rightarrow> Inr paddr, drop_cursor t))))"

primrec free_subtree :: "pte_format \<Rightarrow> nat \<Rightarrow> usize \<Rightarrow> mmu \<Rightarrow> fault + mmu" where
  "free_subtree A 0 phys s = bnd (descriptor_of phys) (\<lambda>d. Inr (drop_metadata d s))"
| "free_subtree A (Suc l) phys s =
     bnd (for_list (\<lambda>index s.
       let entry = tables s phys index in
       if entry_present A entry \<and> \<not> entry_is_leaf A entry (Suc l)
       then let child = entry_phys A entry (Suc l) in
            bnd (descriptor_of child) (\<lambda>d.
            bnd (acquire d s) (\<lambda>s.
            bnd (free_subtree A l child s) (\<lambda>s.
            free_frames child 1 (release d s))))
       else Inr s)
     [0..<PT_ENTRIES] s) (\<lambda>s.
     bnd (descriptor_of phys) (\<lambda>d. Inr (drop_metadata d s)))"

definition addrspace_destroy :: "pte_format \<Rightarrow> usize \<Rightarrow> mmu \<Rightarrow> fault + mmu" where
  "addrspace_destroy A root s =
     bnd (descriptor_of root) (\<lambda>d.
     bnd (acquire d s) (\<lambda>s.
     bnd (free_subtree A (LEVELS A - 1) root s) (\<lambda>s.
     bnd (free_frames root 1 (release d s)) (\<lambda>s.
     Inr (flush_tlb None s)))))"

end
