(* ===== verification/Kor_Mmu_Walk.thy ===== *)
theory Kor_Mmu_Walk
  imports Kor_Mmu
begin

text \<open>
  What a page table means: the hardware walk \<open>hw_walk\<close>, which ends in the leaf entry itself (with its
  address and its span), and the address it gives (\<open>hw_addr\<close>),
  the table pages under a root (\<open>reach\<close>) and that they form a tree (\<open>tree\<close>; at the lowest level every present entry is a leaf).  The lemmas say
  that the walk depends on those pages only and how it changes when one entry of the root is
  replaced; then come the facts on spans and indices, on the locks of a transaction, on
  frames, and that \<^verbatim>\<open>AddrSpace::translate\<close> computes \<open>hw_addr\<close>.
\<close>

section \<open>The hardware walk and the pages it visits\<close>

definition istable :: "pte_format \<Rightarrow> nat \<Rightarrow> usize \<Rightarrow> bool" where
  "istable A l e \<longleftrightarrow> entry_present A e \<and> \<not> entry_is_leaf A e l"

primrec hw_walk ::
  "pte_format \<Rightarrow> (usize \<Rightarrow> usize \<Rightarrow> usize) \<Rightarrow> usize \<Rightarrow> nat \<Rightarrow> usize
     \<Rightarrow> (usize \<times> usize \<times> usize) option" where
  "hw_walk A T va 0 p =
     (let e = T p (table_index va 0) in
      if entry_present A e then Some (entry_phys A e 0, e, span 0) else None)"
| "hw_walk A T va (Suc l) p =
     (let e = T p (table_index va (Suc l)) in
      if \<not> entry_present A e then None
      else if entry_is_leaf A e (Suc l)
      then Some (entry_phys A e (Suc l), e, span (Suc l))
      else hw_walk A T va l (entry_phys A e (Suc l)))"

definition hw_addr ::
  "pte_format \<Rightarrow> (usize \<Rightarrow> usize \<Rightarrow> usize) \<Rightarrow> usize \<Rightarrow> nat \<Rightarrow> usize \<Rightarrow> usize option" where
  "hw_addr A T va l p = map_option (\<lambda>(ph, e, g). ph + va mod g) (hw_walk A T va l p)"

text \<open>What the kernel reads back from the leaf: the address and the decoded permissions.\<close>

definition hw_view ::
  "pte_format \<Rightarrow> (usize \<Rightarrow> usize \<Rightarrow> usize) \<Rightarrow> usize \<Rightarrow> nat \<Rightarrow> usize \<Rightarrow> (usize \<times> MappingFlags) option" where
  "hw_view A T va l p = map_option (\<lambda>(ph, e, g). (ph + va mod g, entry_flags A e)) (hw_walk A T va l p)"

lemma hw_addr_view: "hw_addr A T va l p = map_option fst (hw_view A T va l p)"
  by (simp add: hw_addr_def hw_view_def option.map_comp comp_def case_prod_unfold)

primrec reach :: "pte_format \<Rightarrow> (usize \<Rightarrow> usize \<Rightarrow> usize) \<Rightarrow> nat \<Rightarrow> usize \<Rightarrow> usize set" where
  "reach A T 0 p = {p}"
| "reach A T (Suc l) p = insert p
     (\<Union>i \<in> {i. i < 512 \<and> istable A (Suc l) (T p i)}. reach A T l (entry_phys A (T p i) (Suc l)))"

primrec tree :: "pte_format \<Rightarrow> (usize \<Rightarrow> usize \<Rightarrow> usize) \<Rightarrow> nat \<Rightarrow> usize \<Rightarrow> bool" where
  "tree A T 0 p \<longleftrightarrow> (\<forall>i < 512. \<not> istable A 0 (T p i))"
| "tree A T (Suc l) p \<longleftrightarrow> (\<forall>i < 512. istable A (Suc l) (T p i) \<longrightarrow>
     tree A T l (entry_phys A (T p i) (Suc l)) \<and>
     p \<notin> reach A T l (entry_phys A (T p i) (Suc l)) \<and>
     (\<forall>j < 512. j \<noteq> i \<and> istable A (Suc l) (T p j) \<longrightarrow>
        reach A T l (entry_phys A (T p i) (Suc l))
          \<inter> reach A T l (entry_phys A (T p j) (Suc l)) = {}))"

lemma reach_self [simp, intro]: "p \<in> reach A T l p"
  by (cases l) simp_all

lemma table_index_less [simp]: "table_index va l < 512"
  by (simp add: table_index_def pn_index_less)

lemma reach_child:
  "\<lbrakk>i < 512; istable A (Suc l) (T p i); q \<in> reach A T l (entry_phys A (T p i) (Suc l))\<rbrakk>
     \<Longrightarrow> q \<in> reach A T (Suc l) p"
  by auto

lemma tree_child:
  assumes "tree A T (Suc l) p" "i < 512" "istable A (Suc l) (T p i)"
  shows "tree A T l (entry_phys A (T p i) (Suc l))"
    and "p \<notin> reach A T l (entry_phys A (T p i) (Suc l))"
    and "\<lbrakk>j < 512; j \<noteq> i; istable A (Suc l) (T p j)\<rbrakk> \<Longrightarrow>
      reach A T l (entry_phys A (T p i) (Suc l)) \<inter> reach A T l (entry_phys A (T p j) (Suc l)) = {}"
  using assms by auto

text \<open>Only the pages under the root matter.\<close>

lemma walk_cong:
  assumes "\<And>q. q \<in> reach A T l p \<Longrightarrow> T' q = T q"
  shows "hw_walk A T' va l p = hw_walk A T va l p"
    and "reach A T' l p = reach A T l p"
    and "tree A T' l p = tree A T l p"
proof -
  have "hw_walk A T' va l p = hw_walk A T va l p \<and> reach A T' l p = reach A T l p
      \<and> tree A T' l p = tree A T l p"
    using assms
  proof (induction l arbitrary: p)
    case 0
    then show ?case by simp
  next
    case (Suc l)
    have p: "T' p = T p" using Suc.prems by simp
    have IH: "hw_walk A T' va l (entry_phys A (T p i) (Suc l)) = hw_walk A T va l (entry_phys A (T p i) (Suc l))
        \<and> reach A T' l (entry_phys A (T p i) (Suc l)) = reach A T l (entry_phys A (T p i) (Suc l))
        \<and> tree A T' l (entry_phys A (T p i) (Suc l)) = tree A T l (entry_phys A (T p i) (Suc l))"
      if "i < 512" "istable A (Suc l) (T p i)" for i
      by (rule Suc.IH) (use that in \<open>auto intro!: Suc.prems\<close>)
    have "hw_walk A T' va (Suc l) p = hw_walk A T va (Suc l) p"
      using IH [OF table_index_less, of va "Suc l"] p by (simp add: istable_def Let_def)
    moreover have "reach A T' (Suc l) p = reach A T (Suc l) p"
      using IH p by auto
    moreover have "tree A T' (Suc l) p = tree A T (Suc l) p"
      using IH p by simp
    ultimately show ?case by blast
  qed
  then show "hw_walk A T' va l p = hw_walk A T va l p" "reach A T' l p = reach A T l p"
    "tree A T' l p = tree A T l p"
    by blast+
qed

lemma hw_addr_cong:
  assumes "\<And>q. q \<in> reach A T l p \<Longrightarrow> T' q = T q"
  shows "hw_addr A T' va l p = hw_addr A T va l p"
  using walk_cong(1) [OF assms] by (simp add: hw_addr_def)

text \<open>
  Replacing the entry \<open>i\<close> of the root by one that points to a tree \<open>c\<close> disjoint from the
  other subtrees.
\<close>

lemma replace_child:
  assumes t: "tree A T (Suc l) p" and i: "i < 512"
    and p: "\<And>j. j \<noteq> i \<Longrightarrow> T' p j = T p j"
    and e: "istable A (Suc l) (T' p i)" "entry_phys A (T' p i) (Suc l) = c"
    and c: "tree A T' l c" "p \<notin> reach A T' l c"
    and o: "\<And>j q. \<lbrakk>j < 512; j \<noteq> i; istable A (Suc l) (T p j);
        q \<in> reach A T l (entry_phys A (T p j) (Suc l))\<rbrakk> \<Longrightarrow> T' q = T q \<and> q \<notin> reach A T' l c"
  shows "tree A T' (Suc l) p"
    and "reach A T' (Suc l) p \<subseteq> reach A T (Suc l) p \<union> reach A T' l c"
    and "hw_walk A T' va (Suc l) p =
      (if table_index va (Suc l) = i then hw_walk A T' va l c else hw_walk A T va (Suc l) p)"
proof -
  have r: "hw_walk A T' va l (entry_phys A (T p j) (Suc l)) = hw_walk A T va l (entry_phys A (T p j) (Suc l))"
    "reach A T' l (entry_phys A (T p j) (Suc l)) = reach A T l (entry_phys A (T p j) (Suc l))"
    "tree A T' l (entry_phys A (T p j) (Suc l)) = tree A T l (entry_phys A (T p j) (Suc l))"
    if "j < 512" "j \<noteq> i" "istable A (Suc l) (T p j)" for j
    by (intro walk_cong, use o [OF that] in blast)+
  have dj: "reach A T' l (entry_phys A (T p j) (Suc l)) \<inter> reach A T' l c = {}"
    if "j < 512" "j \<noteq> i" "istable A (Suc l) (T p j)" for j
    using o [OF that] r(2) [OF that] by auto
  show "tree A T' (Suc l) p"
    unfolding tree.simps
  proof (intro allI impI)
    fix j assume j: "j < 512" "istable A (Suc l) (T' p j)"
    show "tree A T' l (entry_phys A (T' p j) (Suc l)) \<and> p \<notin> reach A T' l (entry_phys A (T' p j) (Suc l)) \<and>
      (\<forall>k<512. k \<noteq> j \<and> istable A (Suc l) (T' p k) \<longrightarrow> reach A T' l (entry_phys A (T' p j) (Suc l))
         \<inter> reach A T' l (entry_phys A (T' p k) (Suc l)) = {})"
    proof (cases "j = i")
      case True
      then show ?thesis using c e dj p by (auto simp: disjoint_iff)
    next
      case False
      then have j': "istable A (Suc l) (T p j)" using j p by simp
      note ch = tree_child [OF t j(1) j'] r [OF j(1) False j']
      have "reach A T' l (entry_phys A (T p j) (Suc l)) \<inter> reach A T' l (entry_phys A (T' p k) (Suc l)) = {}"
        if k: "k < 512" "k \<noteq> j" "istable A (Suc l) (T' p k)" for k
      proof (cases "k = i")
        case True
        then show ?thesis using dj [OF j(1) False j'] e by simp
      next
        case ki: False
        then have k': "istable A (Suc l) (T p k)" using k p by simp
        show ?thesis using ch(3) [OF k(1,2) k'] ch(5) r(2) [OF k(1) ki k'] p [OF ki] by simp
      qed
      then show ?thesis using ch False p by simp
    qed
  qed
  show "reach A T' (Suc l) p \<subseteq> reach A T (Suc l) p \<union> reach A T' l c"
  proof
    fix q assume "q \<in> reach A T' (Suc l) p"
    then consider "q = p" | j where "j < 512" "istable A (Suc l) (T' p j)"
        "q \<in> reach A T' l (entry_phys A (T' p j) (Suc l))" by auto
    then show "q \<in> reach A T (Suc l) p \<union> reach A T' l c"
    proof cases
      case 1
      then show ?thesis by simp
    next
      case 2
      then show ?thesis
        by (cases "j = i") (use e p r(2) in \<open>auto intro: reach_child\<close>)
    qed
  qed
  show "hw_walk A T' va (Suc l) p =
      (if table_index va (Suc l) = i then hw_walk A T' va l c else hw_walk A T va (Suc l) p)"
  proof (cases "table_index va (Suc l) = i")
    case True
    then show ?thesis using e by (simp add: istable_def Let_def)
  next
    case False
    then show ?thesis
      using p [OF False] r(1) [OF table_index_less False] by (simp add: istable_def Let_def)
  qed
qed

text \<open>Replacing the entry \<open>i\<close> of the root by an empty entry or a leaf.\<close>

lemma replace_leaf:
  assumes t: "tree A T l p"
    and e: "\<not> istable A l (T' p i)"
    and p: "\<And>j. j \<noteq> i \<Longrightarrow> T' p j = T p j"
    and o: "\<And>q. \<lbrakk>q \<in> reach A T l p; q \<noteq> p\<rbrakk> \<Longrightarrow> T' q = T q"
  shows "tree A T' l p" and "reach A T' l p \<subseteq> reach A T l p"
    and "table_index va l \<noteq> i \<Longrightarrow> hw_walk A T' va l p = hw_walk A T va l p"
proof -
  have "tree A T' l p \<and> reach A T' l p \<subseteq> reach A T l p
     \<and> (table_index va l \<noteq> i \<longrightarrow> hw_walk A T' va l p = hw_walk A T va l p)"
  proof (cases l)
    case 0
    have "\<not> istable A 0 (T' p j)" if "j < 512" for j
      using t e p [of j] that by (cases "j = i") (simp_all add: 0)
    then show ?thesis using p by (simp add: 0)
  next
    case (Suc k)
    have r: "hw_walk A T' va k (entry_phys A (T p j) l) = hw_walk A T va k (entry_phys A (T p j) l)"
      "reach A T' k (entry_phys A (T p j) l) = reach A T k (entry_phys A (T p j) l)"
      "tree A T' k (entry_phys A (T p j) l) = tree A T k (entry_phys A (T p j) l)"
      if j: "j < 512" "istable A l (T p j)" for j
      using tree_child(2) [OF t [unfolded Suc] j(1)] j
      by (intro walk_cong; force simp: Suc intro!: o)+
    have j: "j \<noteq> i \<and> istable A l (T p j)" if "istable A l (T' p j)" for j
      using that e p [of j] by (cases "j = i") auto
    have sub: "istable A l (T p j) \<and> T' p j = T p j" if "istable A l (T' p j)" for j
      using j [OF that] p by blast
    have "tree A T' (Suc k) p"
      unfolding tree.simps
    proof (intro allI impI conjI)
      fix j assume j: "j < 512" "istable A (Suc k) (T' p j)"
      note j' = sub [unfolded Suc, OF j(2)]
      note ch = tree_child [OF t [unfolded Suc] j(1) conjunct1 [OF j']]
      show "tree A T' k (entry_phys A (T' p j) (Suc k))" "p \<notin> reach A T' k (entry_phys A (T' p j) (Suc k))"
        using ch(1,2) r(2,3) [unfolded Suc, OF j(1)] j' by auto
      fix m assume m: "m < 512" "m \<noteq> j \<and> istable A (Suc k) (T' p m)"
      note m' = sub [unfolded Suc, OF conjunct2 [OF m(2)]]
      show "reach A T' k (entry_phys A (T' p j) (Suc k)) \<inter> reach A T' k (entry_phys A (T' p m) (Suc k)) = {}"
        using ch(3) [OF m(1)] m m' j' r(2) [unfolded Suc, OF j(1)] r(2) [unfolded Suc, OF m(1)] by simp
    qed
    moreover have "reach A T' (Suc k) p \<subseteq> reach A T (Suc k) p"
      using r(2) [unfolded Suc] sub [unfolded Suc] by fastforce
    moreover have "hw_walk A T' va l p = hw_walk A T va l p" if "table_index va l \<noteq> i"
      using p [OF that] r(1) [OF table_index_less] by (simp add: Suc istable_def Let_def)
    ultimately show ?thesis unfolding Suc by blast
  qed
  then show "tree A T' l p" "reach A T' l p \<subseteq> reach A T l p"
    "table_index va l \<noteq> i \<Longrightarrow> hw_walk A T' va l p = hw_walk A T va l p"
    by blast+
qed

section \<open>Spans and indices\<close>

lemma span_eq: "l < 5 \<Longrightarrow> span l = 2 ^ (12 + 9 * l)"
proof -
  assume "l < 5"
  then have "(2::nat) ^ (12 + 9 * l) < 2 ^ 64" by (intro power_strict_increasing) auto
  then show ?thesis by (simp add: span_def USIZE_LIM_def)
qed

lemma span_le: "l < 4 \<Longrightarrow> span l \<le> 2 ^ 39"
  unfolding span_eq by (simp only: span_eq less_Suc_eq) (intro power_increasing; simp)

lemma span_Suc: "l < 4 \<Longrightarrow> span (Suc l) = 512 * span l"
  by (simp add: span_eq power_add)

lemma span_pos: "l < 5 \<Longrightarrow> 0 < span l"
  by (simp add: span_eq)

lemma offset_step: "l < 4 \<Longrightarrow> va mod span (Suc l) = table_index va l * span l + va mod span l"
  using page_offset_step [of va l] by (simp add: span_eq page_offset_eq table_index_def)

text \<open>Two addresses take the same entries from level \<open>l\<close> down to \<open>k\<close>.\<close>

definition same_path :: "usize \<Rightarrow> usize \<Rightarrow> nat \<Rightarrow> nat \<Rightarrow> bool" where
  "same_path va va' k l \<longleftrightarrow> (\<forall>j. k \<le> j \<and> j \<le> l \<longrightarrow> table_index va' j = table_index va j)"

lemma same_path_Suc:
  "k \<le> l \<Longrightarrow> same_path va va' k (Suc l) \<longleftrightarrow>
     table_index va' (Suc l) = table_index va (Suc l) \<and> same_path va va' k l"
  by (auto simp: same_path_def le_Suc_eq)

lemma same_path_self: "same_path va va' l l \<longleftrightarrow> table_index va' l = table_index va l"
  by (auto simp: same_path_def)

lemma digits_mod:
  "(\<forall>j < m. x div 512 ^ j mod 512 = y div 512 ^ j mod 512) \<longleftrightarrow> x mod 512 ^ m = (y mod 512 ^ m :: nat)"
proof (induction m)
  case (Suc m)
  have s: "z mod 512 ^ Suc m = 512 ^ m * (z div 512 ^ m mod 512) + z mod 512 ^ m" for z :: nat
    using mod_mult2_eq [of z "512 ^ m" 512] by (simp add: mult.commute)
  have "x mod 512 ^ Suc m = y mod 512 ^ Suc m \<longleftrightarrow>
      x div 512 ^ m mod 512 = y div 512 ^ m mod 512 \<and> x mod 512 ^ m = y mod 512 ^ m" (is "?l \<longleftrightarrow> ?r")
  proof
    assume l: ?l
    have "(z mod 512 ^ Suc m) mod 512 ^ m = z mod 512 ^ m"
      "(z mod 512 ^ Suc m) div 512 ^ m = z div 512 ^ m mod 512" for z :: nat
      unfolding s by (simp_all add: div_add1_eq)
    then show ?r using l by metis
  qed (simp only: s)
  then show ?case using Suc by (auto simp: less_Suc_eq)
qed simp

lemma same_path_iff:
  assumes "k \<le> l" "l < 4"
  shows "same_path va va' k l \<longleftrightarrow> va mod span (Suc l) div span k = va' mod span (Suc l) div span k"
proof -
  have sp: "span (Suc l) = span k * 512 ^ (Suc l - k)"
  proof -
    have "(2::nat) ^ (12 + 9 * Suc l) = 2 ^ (12 + 9 * k) * 2 ^ (9 * (Suc l - k))"
      using assms(1) by (simp flip: power_add)
    then show ?thesis using assms by (simp add: span_eq power_mult)
  qed
  have d: "z mod span (Suc l) div span k = z div span k mod 512 ^ (Suc l - k)" for z :: nat
    using assms span_pos [of k] by (simp add: sp mod_mult2_eq div_add1_eq)
  have i: "table_index z (k + j) = z div span k div 512 ^ j mod 512" if "k + j \<le> l" for z j
    using that assms
    by (simp add: table_index_def pn_index_eq span_eq power_add power_mult mult.assoc div_mult2_eq
          distrib_left flip: add.assoc)
  have "same_path va va' k l \<longleftrightarrow> (\<forall>j < Suc l - k. table_index va' (k + j) = table_index va (k + j))"
    unfolding same_path_def by (metis add_diff_inverse_nat le_add1 less_Suc_eq_le less_diff_conv add.commute not_less)
  also have "\<dots> \<longleftrightarrow> (\<forall>j < Suc l - k. va div span k div 512 ^ j mod 512 = va' div span k div 512 ^ j mod 512)"
    using i by (auto simp: less_diff_conv)
  also have "\<dots> \<longleftrightarrow> va div span k mod 512 ^ (Suc l - k) = va' div span k mod 512 ^ (Suc l - k)"
    by (rule digits_mod)
  finally show ?thesis by (simp only: d)
qed

section \<open>Metadata\<close>

definition stat :: "(usize \<Rightarrow> (usize \<Rightarrow> PageStatus) option) \<Rightarrow> usize \<Rightarrow> usize \<Rightarrow> PageStatus" where
  "stat M q i = (case M (q div PAGE_SIZE) of None \<Rightarrow> Invalid | Some m \<Rightarrow> m i)"

fun is_Mapped :: "PageStatus \<Rightarrow> bool" where
  "is_Mapped (Mapped ph f g) \<longleftrightarrow> True"
| "is_Mapped _ \<longleftrightarrow> False"

text \<open>An entry is recorded as mapped only while it is a leaf.\<close>

primrec meta_ok ::
  "pte_format \<Rightarrow> (usize \<Rightarrow> usize \<Rightarrow> usize) \<Rightarrow> (usize \<Rightarrow> (usize \<Rightarrow> PageStatus) option)
     \<Rightarrow> nat \<Rightarrow> usize \<Rightarrow> bool" where
  "meta_ok A T M 0 p \<longleftrightarrow> (\<forall>i < 512. is_Mapped (stat M p i) \<longrightarrow> entry_present A (T p i))"
| "meta_ok A T M (Suc l) p \<longleftrightarrow> (\<forall>i < 512.
     (is_Mapped (stat M p i) \<longrightarrow> entry_present A (T p i) \<and> entry_is_leaf A (T p i) (Suc l)) \<and>
     (istable A (Suc l) (T p i) \<longrightarrow> meta_ok A T M l (entry_phys A (T p i) (Suc l))))"

lemma meta_cong:
  assumes "\<And>q. q \<in> reach A T l p \<Longrightarrow> T' q = T q \<and> stat M' q = stat M q"
  shows "meta_ok A T' M' l p = meta_ok A T M l p"
  using assms
proof (induction l arbitrary: p)
  case (Suc l)
  have p: "T' p = T p" "stat M' p = stat M p" using Suc.prems [of p] by simp_all
  have "meta_ok A T' M' l (entry_phys A (T p i) (Suc l)) = meta_ok A T M l (entry_phys A (T p i) (Suc l))"
    if "i < 512" "istable A (Suc l) (T p i)" for i
    by (rule Suc.IH) (rule Suc.prems, use that in auto)
  then show ?case using p by simp
qed simp

lemma meta_replace:
  assumes m: "meta_ok A T M (Suc l) p"
    and p: "\<And>j. j \<noteq> i \<Longrightarrow> T' p j = T p j \<and> stat M' p j = stat M p j"
    and e: "is_Mapped (stat M' p i) \<longrightarrow> entry_present A (T' p i) \<and> entry_is_leaf A (T' p i) (Suc l)"
      "istable A (Suc l) (T' p i) \<longrightarrow> meta_ok A T' M' l (entry_phys A (T' p i) (Suc l))"
    and o: "\<And>j q. \<lbrakk>j < 512; j \<noteq> i; istable A (Suc l) (T p j);
        q \<in> reach A T l (entry_phys A (T p j) (Suc l))\<rbrakk> \<Longrightarrow> T' q = T q \<and> stat M' q = stat M q"
  shows "meta_ok A T' M' (Suc l) p"
proof -
  have "meta_ok A T' M' l (entry_phys A (T p j) (Suc l))"
    if j: "j < 512" "j \<noteq> i" "istable A (Suc l) (T p j)" for j
    using meta_cong [OF o [OF j]] m j by simp
  then show ?thesis using m p e by (metis meta_ok.simps(2))
qed

section \<open>Locks\<close>

definition desc_ok :: "usize \<Rightarrow> bool" where
  "desc_ok p \<longleftrightarrow> p mod PAGE_SIZE = 0 \<and> p div PAGE_SIZE < MAX_TRACKED_FRAMES"

definition unlocked :: "mmu \<Rightarrow> mmu" where
  "unlocked s = s\<lparr>dlock := (\<lambda>_. False)\<rparr>"

definition locks_ok :: "txn \<Rightarrow> bool" where
  "locks_ok t \<longleftrightarrow> (\<forall>d. dlock (snd t) d \<longleftrightarrow> (\<exists>p \<in> set (locked (fst t)). p div PAGE_SIZE = d)) \<and>
     (\<forall>p \<in> set (locked (fst t)). p mod PAGE_SIZE = 0)"

definition same_txn :: "txn \<Rightarrow> txn \<Rightarrow> bool" where
  "same_txn t t' \<longleftrightarrow> space_root (fst t') = space_root (fst t) \<and> unlocked (snd t') = unlocked (snd t)"

lemma descriptor_of_ok: "desc_ok p \<Longrightarrow> descriptor_of p = Inr (p div PAGE_SIZE)"
  by (simp add: desc_ok_def descriptor_of_def)

lemma desc_ok_page: "desc_ok p \<Longrightarrow> page_addr p"
proof -
  assume "desc_ok p"
  then show ?thesis by (simp add: desc_ok_def page_addr_def div_less_iff_less_mult)
qed

lemma unlocked_fields [simp]:
  "tables (unlocked s) = tables s" "metadata (unlocked s) = metadata s"
  "frame_st (unlocked s) = frame_st s" "page_bytes (unlocked s) = page_bytes s"
  "active_root (unlocked s) = active_root s" "tlb_log (unlocked s) = tlb_log s"
  "dlock (unlocked s) = (\<lambda>_. False)" "irq_on (unlocked s) = irq_on s"
  by (simp_all add: unlocked_def)

lemma unlocked_eqD:
  assumes "unlocked s' = unlocked s"
  shows "tables s' = tables s" "metadata s' = metadata s" "frame_st s' = frame_st s"
    "page_bytes s' = page_bytes s" "active_root s' = active_root s" "tlb_log s' = tlb_log s"
  using arg_cong [OF assms, of tables] arg_cong [OF assms, of metadata]
    arg_cong [OF assms, of frame_st] arg_cong [OF assms, of page_bytes]
    arg_cong [OF assms, of active_root] arg_cong [OF assms, of tlb_log] by simp_all

lemma same_txn_refl [simp]: "same_txn t t"
  by (simp add: same_txn_def)

lemma same_txn_trans: "same_txn t u \<Longrightarrow> same_txn u v \<Longrightarrow> same_txn t v"
  by (simp add: same_txn_def)

lemma same_txnD:
  assumes "same_txn t t'"
  shows "space_root (fst t') = space_root (fst t)" "tables (snd t') = tables (snd t)"
    "metadata (snd t') = metadata (snd t)" "frame_st (snd t') = frame_st (snd t)"
    "page_bytes (snd t') = page_bytes (snd t)" "active_root (snd t') = active_root (snd t)"
  using assms unlocked_eqD [of "snd t'" "snd t"] by (simp_all add: same_txn_def)

lemma aligned_div_inj: "\<lbrakk>p mod 4096 = 0; q mod 4096 = (0::nat); p div 4096 = q div 4096\<rbrakk> \<Longrightarrow> p = q"
  by (metis div_mult_mod_eq)

lemma lock_page_ok:
  assumes "desc_ok p" "locks_ok t"
  obtains t' where "lock_page p t = Inr t'" "locks_ok t'" "same_txn t t'"
    "set (locked (fst t')) = insert p (set (locked (fst t)))"
proof (cases "p \<in> set (locked (fst t))")
  case True
  then show thesis using assms(2) by (intro that [of t]) (auto simp: lock_page_def split_beta)
next
  case False
  obtain c s where t: "t = (c, s)" by (cases t)
  have d: "\<not> dlock s (p div PAGE_SIZE)"
    using False assms aligned_div_inj [of _ p] by (force simp: t locks_ok_def desc_ok_def)
  show thesis
  proof (rule that)
    show "lock_page p t = Inr (c\<lparr>locked := locked c @ [p]\<rparr>, s\<lparr>dlock := (dlock s)(p div PAGE_SIZE := True)\<rparr>)"
      using False d descriptor_of_ok [OF assms(1)] by (simp add: t lock_page_def acquire_def)
  qed (use assms in \<open>auto simp: t locks_ok_def same_txn_def unlocked_def desc_ok_def\<close>)
qed

lemma foldr_release:
  "foldr (\<lambda>p. release (p div 4096)) ps s
     = s\<lparr>dlock := (\<lambda>d. dlock s d \<and> (\<forall>p \<in> set ps. p div 4096 \<noteq> d))\<rparr>"
  by (induction ps) (auto simp: release_def fun_eq_iff)

lemma drop_cursor_eq:
  assumes "locks_ok t"
  shows "drop_cursor t = unlocked (snd t)"
proof -
  have "(\<lambda>d. dlock (snd t) d \<and> (\<forall>p \<in> set (locked (fst t)). p div PAGE_SIZE \<noteq> d)) = (\<lambda>_. False)"
    using assms by (auto simp: locks_ok_def)
  then show ?thesis by (simp add: drop_cursor_def foldr_release unlocked_def split_beta)
qed

lemma lock_range_loop_ok:
  assumes "\<forall>q \<in> reach A (tables (snd t)) l p. desc_ok q" "locks_ok t"
  shows "\<exists>t'. lock_range_loop A a b l p t = Inr t' \<and> locks_ok t' \<and> same_txn t t'"
  using assms
proof (induction l arbitrary: p t)
  case (Suc l)
  define e where "e = tables (snd t) p (table_index a (Suc l))"
  show ?case
  proof (cases "istable A (Suc l) e")
    case True
    then have r: "\<forall>q \<in> reach A (tables (snd t)) l (entry_phys A e (Suc l)). desc_ok q"
      using Suc.prems(1) reach_child [of "table_index a (Suc l)" A l "tables (snd t)" p]
      by (auto simp: e_def)
    obtain t1 where t1: "lock_page (entry_phys A e (Suc l)) t = Inr t1" "locks_ok t1" "same_txn t t1"
      using lock_page_ok [of "entry_phys A e (Suc l)" t] r Suc.prems(2) by blast
    obtain t2 where t2: "lock_range_loop A a b l (entry_phys A e (Suc l)) t1 = Inr t2" "locks_ok t2"
        "same_txn t1 t2"
      using Suc.IH [of t1 "entry_phys A e (Suc l)"] r t1 same_txnD(2) [OF t1(3)] by auto
    have "same_txn t t2" using t1(3) t2(3) by (rule same_txn_trans)
    then have "lock_range_loop A a b (Suc l) p t = Inr t \<or> lock_range_loop A a b (Suc l) p t = Inr t2"
      using t1 t2 by (simp add: Let_def e_def [symmetric])
    then show ?thesis using Suc.prems(2) t2(2) \<open>same_txn t t2\<close> same_txn_refl by blast
  qed (use Suc.prems(2) in \<open>auto simp: Let_def e_def istable_def\<close>)
qed simp

text \<open>The span of the leaf that maps an address, 0 when there is none.\<close>

definition gran :: "pte_format \<Rightarrow> (usize \<Rightarrow> usize \<Rightarrow> usize) \<Rightarrow> usize \<Rightarrow> nat \<Rightarrow> usize \<Rightarrow> usize" where
  "gran A T va l p = (case hw_walk A T va l p of None \<Rightarrow> 0 | Some (ph, f, g) \<Rightarrow> g)"

text \<open>The predicate on a system at rest: no descriptor is locked.\<close>

definition at_rest :: "mmu \<Rightarrow> bool" where
  "at_rest s \<longleftrightarrow> dlock s = (\<lambda>_. False)"

lemma at_rest_unlocked [simp]: "at_rest (unlocked s)" "at_rest s \<Longrightarrow> unlocked s = s"
  by (simp_all add: at_rest_def unlocked_def)

lemma addrspace_lock_ok:
  assumes "\<forall>q \<in> reach A (tables s) (LEVELS A - 1) root. desc_ok q" "at_rest s"
  obtains t where "addrspace_lock A root a b s = Inr t" "locks_ok t"
    "space_root (fst t) = root" "unlocked (snd t) = s"
proof -
  define t0 where "t0 = (\<lparr>space_root = root, locked = []\<rparr>, s)"
  have t0: "locks_ok t0" using assms(2) by (simp add: t0_def locks_ok_def at_rest_def)
  obtain t1 where t1: "lock_page root t0 = Inr t1" "locks_ok t1" "same_txn t0 t1"
    using lock_page_ok [OF _ t0, of root] assms(1) by blast
  obtain t2 where t2: "lock_range_loop A a b (LEVELS A - 1) root t1 = Inr t2" "locks_ok t2" "same_txn t1 t2"
    using lock_range_loop_ok [of A t1 "LEVELS A - 1" root a b] assms(1) t1(2) same_txnD(2) [OF t1(3)]
    unfolding t0_def snd_conv by metis
  have "same_txn t0 t2" using t1(3) t2(3) by (rule same_txn_trans)
  then show thesis
    using t1(1) t2 assms(2)
    by (intro that [of t2]) (simp_all add: addrspace_lock_def lock_range_def t0_def same_txn_def)
qed

section \<open>Translation\<close>

lemma status_stat: "status (q div 4096) i s = stat (metadata s) q i"
  by (simp add: status_def stat_def)

lemma query_loop_ok:
  assumes "\<forall>q \<in> reach A (tables s) l p. desc_ok q" "meta_ok A (tables s) (metadata s) l p"
    "\<not> is_Mapped inh"
  shows "\<exists>st. query_loop A va l p inh s = Inr st \<and>
    (case hw_walk A (tables s) va l p of None \<Rightarrow> \<not> is_Mapped st | Some (ph, e, g) \<Rightarrow> st = Mapped ph (entry_flags A e) g)"
  using assms
proof (induction l arbitrary: p inh)
  case 0
  then show ?case
    using table_index_less [of va 0]
    by (auto simp: Let_def descriptor_of_ok status_stat)
next
  case (Suc l)
  define i where "i = table_index va (Suc l)"
  define e where "e = tables s p i"
  have i: "i < 512" by (simp add: i_def)
  define inh' where "inh' = (if stat (metadata s) p i \<noteq> Invalid then stat (metadata s) p i else inh)"
  have d: "descriptor_of p = Inr (p div PAGE_SIZE)" using Suc.prems(1) by (simp add: descriptor_of_ok)
  show ?case
  proof (cases "istable A (Suc l) e")
    case True
    have "\<not> is_Mapped inh'"
      using Suc.prems(2,3) i True by (auto simp: inh'_def e_def istable_def)
    moreover have "\<forall>q \<in> reach A (tables s) l (entry_phys A e (Suc l)). desc_ok q"
      using Suc.prems(1) reach_child [OF i, of A l "tables s" p] True by (auto simp: e_def)
    moreover have "meta_ok A (tables s) (metadata s) l (entry_phys A e (Suc l))"
      using Suc.prems(2) i True by (simp add: e_def)
    ultimately show ?thesis
      using Suc.IH [of "entry_phys A e (Suc l)" inh'] True d
      by (simp add: Let_def status_stat i_def [symmetric] e_def [symmetric] inh'_def istable_def
            split: if_splits)
  next
    case False
    then show ?thesis
      using Suc.prems(2,3) i d
      by (auto simp: Let_def status_stat i_def [symmetric] e_def [symmetric] istable_def)
  qed
qed

text \<open>The tables under a root are sound: a tree of described pages with sound metadata.\<close>

definition sub_ok :: "pte_format \<Rightarrow> mmu \<Rightarrow> nat \<Rightarrow> usize \<Rightarrow> bool" where
  "sub_ok A s l p \<longleftrightarrow> tree A (tables s) l p \<and> meta_ok A (tables s) (metadata s) l p \<and>
     (\<forall>q \<in> reach A (tables s) l p. desc_ok q \<and> q div PAGE_SIZE \<notin> free_ppns (frame_st s))"

definition space_ok :: "pte_format \<Rightarrow> usize \<Rightarrow> mmu \<Rightarrow> bool" where
  "space_ok A root s \<longleftrightarrow> sub_ok A s (LEVELS A - 1) root"

definition xlate :: "pte_format \<Rightarrow> usize \<Rightarrow> usize \<Rightarrow> mmu \<Rightarrow> usize option" where
  "xlate A root va s = hw_addr A (tables s) va (LEVELS A - 1) root"

context pte_encoding
begin

lemma walk_bounds:
  assumes "hw_walk A T va l p = Some (ph, f, g)" "l < 4"
  shows "page_addr ph" "g \<le> 2 ^ 39" "0 < g"
  using assms
proof (induction l arbitrary: p)
  case 0
  case 1 then show ?case using phys_page by (auto simp: Let_def split: if_splits)
  case 2 then show ?case using span_le by (auto simp: Let_def split: if_splits)
  case 3 then show ?case using span_pos by (auto simp: Let_def split: if_splits)
next
  case (Suc l)
  case 1 then show ?case using phys_page Suc.IH(1) by (auto simp: Let_def split: if_splits)
  case 2 then show ?case using span_le [of "Suc l"] Suc.IH(2) by (auto simp: Let_def split: if_splits)
  case 3 then show ?case using span_pos [of "Suc l"] Suc.IH(3) by (auto simp: Let_def split: if_splits)
qed

lemma translate_eq:
  assumes ok: "space_ok A root s" and rest: "at_rest s"
  shows "addrspace_translate A root va s = Inr (xlate A root va s, s)"
proof -
  have d: "\<forall>q \<in> reach A (tables s) (LEVELS A - 1) root. desc_ok q"
    using ok by (simp add: space_ok_def sub_ok_def)
  obtain t where t: "addrspace_lock A root va (usize_add va PAGE_SIZE) s = Inr t" "locks_ok t"
      "space_root (fst t) = root" "unlocked (snd t) = s"
    using addrspace_lock_ok [OF d rest] by blast
  have tb: "tables (snd t) = tables s" "metadata (snd t) = metadata s"
    using unlocked_eqD [of "snd t" s] t(4) rest by simp_all
  obtain st where st: "query A va t = Inr st"
      "case hw_walk A (tables s) va (LEVELS A - 1) root of None \<Rightarrow> \<not> is_Mapped st
       | Some (ph, e, g) \<Rightarrow> st = Mapped ph (entry_flags A e) g"
    using query_loop_ok [of A "snd t" "LEVELS A - 1" root Invalid va] ok d t(3)
    by (auto simp: query_def split_beta tb space_ok_def sub_ok_def)
  have "(case st of Mapped ph f g \<Rightarrow> Some (usize_add ph (va mod g)) | _ \<Rightarrow> None) = xlate A root va s"
  proof (cases "hw_walk A (tables s) va (LEVELS A - 1) root")
    case None
    then show ?thesis using st(2) by (cases st) (simp_all add: xlate_def hw_addr_def)
  next
    case (Some w)
    obtain ph f g where w: "w = (ph, f, g)" by (cases w) auto
    have "LEVELS A - 1 < 4" using levels by linarith
    note b = walk_bounds [OF Some [unfolded w] this]
    have "va mod g < 2 ^ 39" using b(3) by (rule order_less_le_trans [OF mod_less_divisor b(2)])
    then have "usize_add ph (va mod g) = ph + va mod g"
      using b(1) by (simp add: page_addr_def usize_add_eq USIZE_LIM_def)
    then show ?thesis using st(2) Some w by (simp add: xlate_def hw_addr_def)
  qed
  then show ?thesis
    using st(1) t by (simp add: addrspace_translate_def drop_cursor_eq)
qed

end

end
