(* ===== verification/Kor_Mmu_Map.thy ===== *)
theory Kor_Mmu_Map
  imports Kor_Mmu_Walk
begin

text \<open>
  Mapping a page: \<^verbatim>\<open>RCursor::map\<close> with \<^verbatim>\<open>split_leaf\<close>.  \<open>grows\<close> is what every step
  towards the target does to the subtree it works in: the subtree stays sound, takes its new
  pages from the free frames and leaves every other page alone.
\<close>

section \<open>Frames\<close>

definition free_pages :: "mmu \<Rightarrow> usize set" where
  "free_pages s = {q. desc_ok q \<and> q div PAGE_SIZE \<in> free_ppns (frame_st s)}"

definition clear_meta :: "(usize \<Rightarrow> (usize \<Rightarrow> PageStatus) option) \<Rightarrow> usize \<Rightarrow> bool" where
  "clear_meta M f \<longleftrightarrow> (\<forall>m. M f = Some m \<longrightarrow> m = (\<lambda>_. Invalid))"

definition sys_ok :: "mmu \<Rightarrow> bool" where
  "sys_ok s \<longleftrightarrow> frame_inv (frame_st s) \<and> managed_ppns (frame_st s) \<subseteq> {..<MAX_TRACKED_FRAMES} \<and>
     (\<forall>f \<in> free_ppns (frame_st s). clear_meta (metadata s) f)"

lemma clear_meta_None [simp]: "M f = None \<Longrightarrow> clear_meta M f"
  by (simp add: clear_meta_def)

lemma clear_meta_stat: "clear_meta M (q div 4096) \<longleftrightarrow> stat M q = (\<lambda>_. Invalid)"
  by (auto simp: clear_meta_def stat_def fun_eq_iff split: option.splits)

lemma clear_meta_cong: "M' f = M f \<Longrightarrow> clear_meta M' f = clear_meta M f"
  by (simp add: clear_meta_def)

lemma npot_1: "checked_next_power_of_two (Suc 0) = Some 1"
  using next_power_of_two_1 by simp

text \<open>A request for one frame fails only when no frame is free.\<close>

lemma frame_none_free:
  assumes inv: "frame_inv f" and a: "frame_alloc_frames f 1 = Inr (None, f')"
  shows "free_ppns f = {}"
proof -
  have ex: "exhausted f 1 ri" if "ri < region_count f" for ri
    using inv zero_neq_one [symmetric] next_power_of_two_1
    by (cases rule: frame_alloc_cases) (use a that in auto)
  have "\<not> free_at f ri off" for ri off
  proof
    assume fa: "free_at f ri off"
    then have "free_run f ri (next_hint (regions f ri)) (r_frames (regions f ri)) 1 off
        \<or> free_run f ri 0 (next_hint (regions f ri)) 1 off"
      by (auto simp: free_at_def free_run_def le_Suc_eq less_Suc_eq)
    then show False using ex [of ri] fa by (auto simp: exhausted_def free_at_def)
  qed
  then show ?thesis by (simp add: free_ppns_def)
qed

lemma alloc_frame_cases:
  assumes "sys_ok s"
  obtains "alloc_frame s = Inr (None, s)" "free_ppns (frame_st s) = {}"
  | c f where "alloc_frame s = Inr (Some c, s\<lparr>frame_st := f\<rparr>)" "c \<in> free_pages s"
      "frame_inv f" "free_ppns f = free_ppns (frame_st s) - {c div PAGE_SIZE}"
      "managed_ppns f = managed_ppns (frame_st s)"
proof -
  have inv: "frame_inv (frame_st s)" using assms by (simp add: sys_ok_def)
  obtain r f where a: "frame_alloc_frames (frame_st s) 1 = Inr (r, f)"
    using frames.alloc_total [OF inv] by blast
  show thesis
  proof (cases r)
    case None
    then have "f = frame_st s" using frames.alloc_None [OF inv] a by simp
    moreover have "free_ppns (frame_st s) = {}" by (rule frame_none_free [OF inv]) (use a None in blast)
    ultimately show thesis
      using a None by (intro that(1)) (simp_all add: alloc_frame_def frame_alloc_frame_def)
  next
    case (Some c)
    note l = frames.alloc_Some [OF inv a [unfolded Some]] frames.alloc_aligned [OF inv a [unfolded Some]]
      frames.alloc_managed [OF inv a]
    have x: "frame_extent c 1 = {c div PAGE_SIZE}" by (simp add: frame_extent_def npot_1)
    have "c div PAGE_SIZE \<in> managed_ppns (frame_st s)"
      using l(1) x frames.free_managed by fastforce
    then have "desc_ok c"
      using assms l(2) by (auto simp: desc_ok_def sys_ok_def npot_1 mod_eq_0_iff_dvd)
    then show thesis
      using l x a Some
      by (intro that(2) [of c f]) (auto simp: alloc_frame_def frame_alloc_frame_def free_pages_def)
  qed
qed

section \<open>Growing a subtree\<close>

text \<open>Entry by entry, the pages below the root are old ones or come from the free frames.\<close>

definition grow_mono :: "pte_format \<Rightarrow> nat \<Rightarrow> usize \<Rightarrow> mmu \<Rightarrow> mmu \<Rightarrow> bool" where
  "grow_mono A l p s s' \<longleftrightarrow> (\<forall>i < 512. 0 < l \<and> istable A l (tables s' p i) \<longrightarrow>
     reach A (tables s') (l - 1) (entry_phys A (tables s' p i) l)
       \<subseteq> (if istable A l (tables s p i) then reach A (tables s) (l - 1) (entry_phys A (tables s p i) l) else {})
         \<union> free_pages s)"

lemma grow_mono_refl [simp]: "grow_mono A l p s s"
  by (simp add: grow_mono_def)

lemma grow_monoD:
  "\<lbrakk>grow_mono A l p s s'; i < 512; 0 < l; istable A l (tables s' p i)\<rbrakk> \<Longrightarrow>
     reach A (tables s') (l - 1) (entry_phys A (tables s' p i) l)
       \<subseteq> (if istable A l (tables s p i) then reach A (tables s) (l - 1) (entry_phys A (tables s p i) l) else {})
         \<union> free_pages s"
  unfolding grow_mono_def by blast

lemma grow_mono_trans:
  assumes a: "grow_mono A l p s1 s2" and b: "grow_mono A l p s2 s3" and f: "free_pages s2 \<subseteq> free_pages s1"
  shows "grow_mono A l p s1 s3"
  unfolding grow_mono_def
proof (intro allI impI, elim conjE)
  fix i assume i: "i < 512" "0 < l" "istable A l (tables s3 p i)"
  note b = grow_monoD [OF b i]
  show "reach A (tables s3) (l - 1) (entry_phys A (tables s3 p i) l)
      \<subseteq> (if istable A l (tables s1 p i) then reach A (tables s1) (l - 1) (entry_phys A (tables s1 p i) l) else {})
        \<union> free_pages s1"
  proof (cases "istable A l (tables s2 p i)")
    case True
    have "reach A (tables s3) (l - 1) (entry_phys A (tables s3 p i) l)
        \<subseteq> reach A (tables s2) (l - 1) (entry_phys A (tables s2 p i) l) \<union> free_pages s1"
      using b f True by auto
    then show ?thesis using grow_monoD [OF a i(1,2) True] by blast
  next
    case False
    then show ?thesis using b f by auto
  qed
qed

definition grows :: "pte_format \<Rightarrow> nat \<Rightarrow> usize \<Rightarrow> mmu \<Rightarrow> mmu \<Rightarrow> bool" where
  "grows A l p s s' \<longleftrightarrow> sys_ok s' \<and> sub_ok A s' l p \<and>
     reach A (tables s') l p \<subseteq> reach A (tables s) l p \<union> free_pages s \<and>
     free_pages s' \<subseteq> free_pages s \<and> managed_ppns (frame_st s') = managed_ppns (frame_st s) \<and>
     free_ppns (frame_st s') \<subseteq> free_ppns (frame_st s) \<and> active_root s' = active_root s \<and>
     grow_mono A l p s s' \<and>
     (\<forall>q. desc_ok q \<and> q \<notin> reach A (tables s) l p \<and> q \<notin> free_pages s \<longrightarrow>
        tables s' q = tables s q \<and> stat (metadata s') q = stat (metadata s) q) \<and>
     (\<forall>q. q \<notin> free_pages s \<longrightarrow> page_bytes s' q = page_bytes s q)"

lemma growsD:
  assumes "grows A l p s s'"
  shows "sys_ok s'" "sub_ok A s' l p"
    "reach A (tables s') l p \<subseteq> reach A (tables s) l p \<union> free_pages s"
    "free_pages s' \<subseteq> free_pages s" "managed_ppns (frame_st s') = managed_ppns (frame_st s)"
    "free_ppns (frame_st s') \<subseteq> free_ppns (frame_st s)" "active_root s' = active_root s"
    "\<lbrakk>desc_ok q; q \<notin> reach A (tables s) l p; q \<notin> free_pages s\<rbrakk> \<Longrightarrow>
       tables s' q = tables s q \<and> stat (metadata s') q = stat (metadata s) q"
    "q \<notin> free_pages s \<Longrightarrow> page_bytes s' q = page_bytes s q"
    "grow_mono A l p s s'"
  using assms unfolding grows_def by blast+

lemma sub_okD:
  assumes "sub_ok A s l p"
  shows "tree A (tables s) l p" "meta_ok A (tables s) (metadata s) l p"
    "q \<in> reach A (tables s) l p \<Longrightarrow> desc_ok q" "q \<in> reach A (tables s) l p \<Longrightarrow> q \<notin> free_pages s"
  using assms by (auto simp: sub_ok_def free_pages_def)

lemma grows_refl: "sys_ok s \<Longrightarrow> sub_ok A s l p \<Longrightarrow> grows A l p s s"
  by (simp add: grows_def)

lemma grows_trans:
  assumes a: "grows A l p s1 s2" and b: "grows A l p s2 s3"
  shows "grows A l p s1 s3"
proof -
  note a = growsD [OF a] and b = growsD [OF b]
  have "tables s3 q = tables s1 q \<and> stat (metadata s3) q = stat (metadata s1) q"
    if "desc_ok q" "q \<notin> reach A (tables s1) l p" "q \<notin> free_pages s1" for q
    using a(8) [OF that] b(8) [OF that(1)] that a(3,4) by (metis UnE subsetD)
  moreover have "page_bytes s3 q = page_bytes s1 q" if "q \<notin> free_pages s1" for q
    using a(9) [OF that] b(9) [of q] that a(4) by auto
  moreover have "reach A (tables s3) l p \<subseteq> reach A (tables s1) l p \<union> free_pages s1"
    using a(3,4) b(3) by blast
  ultimately show ?thesis
    unfolding grows_def using a(4-7) b(1,2,4-7) grow_mono_trans [OF a(10) b(10) a(4)] by auto
qed

lemma grows_unlocked:
  assumes g: "grows A l p s s'" and e: "unlocked s = unlocked t" "unlocked s' = unlocked t'"
  shows "grows A l p t t'"
  using g unfolding grows_def sys_ok_def sub_ok_def free_pages_def grow_mono_def
    unlocked_eqD [OF e(1)] unlocked_eqD [OF e(2)] .

lemma sub_ok_child:
  assumes "sub_ok A s (Suc l) p" "i < 512" "istable A (Suc l) (tables s p i)"
  shows "sub_ok A s l (entry_phys A (tables s p i) (Suc l))"
  using assms reach_child [where T = "tables s" and p = p, OF assms(2,3)] by (auto simp: sub_ok_def)

text \<open>A step inside a child is a step of the parent.\<close>

lemma grows_child:
  assumes ok: "sub_ok A s (Suc l) p" and i: "i < 512" "istable A (Suc l) (tables s p i)"
    and c: "entry_phys A (tables s p i) (Suc l) = c" and g: "grows A l c s s'"
  shows "grows A (Suc l) p s s'"
    and "hw_walk A (tables s') va (Suc l) p = (if table_index va (Suc l) = i
      then hw_walk A (tables s') va l c else hw_walk A (tables s) va (Suc l) p)"
    and "tables s' p = tables s p"
proof -
  note g = growsD [OF g] and s = sub_okD [OF ok]
  note ch = tree_child [OF s(1) i, unfolded c]
  have p: "tables s' p = tables s p" "stat (metadata s') p = stat (metadata s) p"
    using g(8) [of p] s(3,4) [of p] ch(2) by auto
  show "tables s' p = tables s p" by (rule p(1))
  have new: "q \<notin> reach A (tables s') l c" if "q \<in> reach A (tables s) (Suc l) p" "q \<notin> reach A (tables s) l c" for q
    using g(3) s(4) [OF that(1)] that(2) by blast
  have o: "tables s' q = tables s q \<and> stat (metadata s') q = stat (metadata s) q \<and> q \<notin> reach A (tables s') l c"
    if j: "j < 512" "j \<noteq> i" "istable A (Suc l) (tables s p j)"
      and q: "q \<in> reach A (tables s) l (entry_phys A (tables s p j) (Suc l))" for j q
  proof -
    have r: "q \<in> reach A (tables s) (Suc l) p" using j q by (auto intro: reach_child)
    moreover have "q \<notin> reach A (tables s) l c" using ch(3) [OF j] q by blast
    ultimately show ?thesis using g(8) [of q] s(3,4) [OF r] new by blast
  qed
  note c' = sub_okD [OF g(2)]
  have e: "istable A (Suc l) (tables s' p i)" "entry_phys A (tables s' p i) (Suc l) = c"
    using i(2) c p by simp_all
  have pn: "p \<notin> reach A (tables s') l c" using new [of p] ch(2) by simp
  have o': "\<And>j q. \<lbrakk>j < 512; j \<noteq> i; istable A (Suc l) (tables s p j);
      q \<in> reach A (tables s) l (entry_phys A (tables s p j) (Suc l))\<rbrakk> \<Longrightarrow>
      tables s' q = tables s q \<and> q \<notin> reach A (tables s') l c" using o by blast
  have peq: "\<And>j. j \<noteq> i \<Longrightarrow> tables s' p j = tables s p j" using p by simp
  have r: "tree A (tables s') (Suc l) p"
    "reach A (tables s') (Suc l) p \<subseteq> reach A (tables s) (Suc l) p \<union> reach A (tables s') l c"
    "hw_walk A (tables s') va (Suc l) p = (if table_index va (Suc l) = i
       then hw_walk A (tables s') va l c else hw_walk A (tables s) va (Suc l) p)"
    by (rule replace_child [OF s(1) i(1) _ e c'(1) pn], erule peq, erule (3) o')+
  have m: "meta_ok A (tables s') (metadata s') (Suc l) p"
  proof (rule meta_replace [OF s(2), where i = i])
    show "is_Mapped (stat (metadata s') p i) \<longrightarrow>
        entry_present A (tables s' p i) \<and> entry_is_leaf A (tables s' p i) (Suc l)"
      using s(2) i(1) p by simp
    show "istable A (Suc l) (tables s' p i) \<longrightarrow>
        meta_ok A (tables s') (metadata s') l (entry_phys A (tables s' p i) (Suc l))"
      using c'(2) e(2) by simp
    show "tables s' p j = tables s p j \<and> stat (metadata s') p j = stat (metadata s) p j" for j
      by (simp add: p)
    show "tables s' q = tables s q \<and> stat (metadata s') q = stat (metadata s) q"
      if "j < 512" "j \<noteq> i" "istable A (Suc l) (tables s p j)"
        "q \<in> reach A (tables s) l (entry_phys A (tables s p j) (Suc l))" for j q
      using o [OF that] by blast
  qed
  have sub: "reach A (tables s) l c \<subseteq> reach A (tables s) (Suc l) p"
    using c reach_child [where T = "tables s" and p = p, OF i] by blast
  have rs: "reach A (tables s') (Suc l) p \<subseteq> reach A (tables s) (Suc l) p \<union> free_pages s"
    using r(2) g(3) sub by blast
  have "desc_ok q \<and> q div PAGE_SIZE \<notin> free_ppns (frame_st s')" if q: "q \<in> reach A (tables s') (Suc l) p" for q
  proof (cases "q \<in> reach A (tables s) (Suc l) p")
    case True
    then show ?thesis using ok g(6) by (auto simp: sub_ok_def)
  next
    case False
    then have "q \<in> reach A (tables s') l c" using r(2) q by blast
    then show ?thesis using g(2) by (auto simp: sub_ok_def)
  qed
  then have "sub_ok A s' (Suc l) p" using r(1) m by (simp add: sub_ok_def)
  moreover have "grow_mono A (Suc l) p s s'"
  proof -
    have "reach A (tables s') l (entry_phys A (tables s p j) (Suc l))
        \<subseteq> reach A (tables s) l (entry_phys A (tables s p j) (Suc l)) \<union> free_pages s"
      if j: "j < 512" "istable A (Suc l) (tables s p j)" for j
    proof (cases "j = i")
      case True
      then show ?thesis using g(3) c by simp
    next
      case False
      have "reach A (tables s') l (entry_phys A (tables s p j) (Suc l))
          = reach A (tables s) l (entry_phys A (tables s p j) (Suc l))"
        by (rule walk_cong(2)) (use o [OF j(1) False j(2)] in blast)
      then show ?thesis by simp
    qed
    then show ?thesis using p(1) unfolding grow_mono_def by simp
  qed
  ultimately show "grows A (Suc l) p s s'" using g rs sub unfolding grows_def by blast
  show "hw_walk A (tables s') va (Suc l) p = (if table_index va (Suc l) = i
      then hw_walk A (tables s') va l c else hw_walk A (tables s) va (Suc l) p)" by (rule r(3))
qed

section \<open>Attaching a fresh table\<close>

lemma stat_other:
  assumes "\<And>f. f \<noteq> p div PAGE_SIZE \<Longrightarrow> M' f = M f" "desc_ok p" "desc_ok q" "q \<noteq> p"
  shows "stat M' q = stat M q"
proof -
  have "q div PAGE_SIZE \<noteq> p div PAGE_SIZE"
    using assms(2-4) aligned_div_inj [of q p] by (auto simp: desc_ok_def)
  then show ?thesis using assms(1) by (simp add: stat_def fun_eq_iff)
qed

lemma attach_fresh:
  assumes sys: "sys_ok s" and ok: "sub_ok A s (Suc l) p" and i: "i < 512"
    and c: "c \<in> free_pages s"
    and f: "frame_inv (frame_st s')" "free_ppns (frame_st s') = free_ppns (frame_st s) - {c div PAGE_SIZE}"
      "managed_ppns (frame_st s') = managed_ppns (frame_st s)"
    and T: "tables s' = (tables s)(c := tb, p := (tables s p)(i := e))"
    and e: "istable A (Suc l) e" "entry_phys A e (Suc l) = c"
    and tb: "\<And>j. \<not> istable A l (tb j)"
    and M: "\<And>f. f \<noteq> p div PAGE_SIZE \<Longrightarrow> metadata s' f = metadata s f"
      "\<And>j. j \<noteq> i \<Longrightarrow> stat (metadata s') p j = stat (metadata s) p j"
      "\<not> is_Mapped (stat (metadata s') p i)"
    and B: "\<And>q. q \<noteq> c \<Longrightarrow> page_bytes s' q = page_bytes s q" "active_root s' = active_root s"
  shows "grows A (Suc l) p s s'" and "sub_ok A s' l c"
    and "hw_walk A (tables s') va (Suc l) p = (if table_index va (Suc l) = i
      then hw_walk A (tables s') va l c else hw_walk A (tables s) va (Suc l) p)"
proof -
  note s = sub_okD [OF ok]
  have pc: "p \<noteq> c" using s(4) [of p] c by auto
  have dc: "desc_ok c" "c div PAGE_SIZE \<in> free_ppns (frame_st s)" using c by (auto simp: free_pages_def)
  have dp: "desc_ok p" "p div PAGE_SIZE \<notin> free_ppns (frame_st s)" using ok by (auto simp: sub_ok_def)
  have so: "stat (metadata s') q = stat (metadata s) q" if "desc_ok q" "q \<noteq> p" for q
    by (rule stat_other [OF _ dp(1) that]) (rule M(1))
  have stc: "stat (metadata s') c j = Invalid" for j
  proof -
    have "stat (metadata s') c = stat (metadata s) c" using so [OF dc(1)] pc by blast
    moreover have "clear_meta (metadata s) (c div 4096)" using sys dc(2) by (auto simp: sys_ok_def)
    ultimately show ?thesis by (simp add: clear_meta_stat)
  qed
  have Tc: "tables s' c = tb" using T pc by simp
  have Tp: "tables s' p i = e" "\<And>j. j \<noteq> i \<Longrightarrow> tables s' p j = tables s p j" using T by simp_all
  have rc: "reach A (tables s') l c = {c}" using tb Tc by (cases l) auto
  have tc: "tree A (tables s') l c" using tb Tc by (cases l) auto
  have mc: "meta_ok A (tables s') (metadata s') l c" using tb Tc stc by (cases l) auto
  have o: "tables s' q = tables s q \<and> stat (metadata s') q = stat (metadata s) q \<and> q \<noteq> c"
    if "q \<in> reach A (tables s) (Suc l) p" "q \<noteq> p" for q
    using that s(3,4) [OF that(1)] c so T by auto
  have o': "tables s' q = tables s q \<and> stat (metadata s') q = stat (metadata s) q \<and> q \<notin> reach A (tables s') l c"
    if j: "j < 512" "j \<noteq> i" "istable A (Suc l) (tables s p j)"
      and q: "q \<in> reach A (tables s) l (entry_phys A (tables s p j) (Suc l))" for j q
    using o [of q] reach_child [where T = "tables s" and p = p, OF j(1,3) q] tree_child(2) [OF s(1) j(1,3)]
      q rc by blast
  have e': "istable A (Suc l) (tables s' p i)" "entry_phys A (tables s' p i) (Suc l) = c"
    using e Tp by simp_all
  have pn: "p \<notin> reach A (tables s') l c" using pc rc by simp
  have r: "tree A (tables s') (Suc l) p"
    "reach A (tables s') (Suc l) p \<subseteq> reach A (tables s) (Suc l) p \<union> reach A (tables s') l c"
    "hw_walk A (tables s') va (Suc l) p = (if table_index va (Suc l) = i
       then hw_walk A (tables s') va l c else hw_walk A (tables s) va (Suc l) p)"
    by (rule replace_child [OF s(1) i _ e' tc pn], erule Tp(2), (drule (3) o', blast))+
  have m: "meta_ok A (tables s') (metadata s') (Suc l) p"
  proof (rule meta_replace [OF s(2), where i = i])
    show "tables s' p j = tables s p j \<and> stat (metadata s') p j = stat (metadata s) p j" if "j \<noteq> i" for j
      using M(2) [OF that] Tp(2) [OF that] by blast
    show "is_Mapped (stat (metadata s') p i) \<longrightarrow>
        entry_present A (tables s' p i) \<and> entry_is_leaf A (tables s' p i) (Suc l)" using M(3) by blast
    show "istable A (Suc l) (tables s' p i) \<longrightarrow>
        meta_ok A (tables s') (metadata s') l (entry_phys A (tables s' p i) (Suc l))" using mc e' by simp
    show "tables s' q = tables s q \<and> stat (metadata s') q = stat (metadata s) q"
      if "j < 512" "j \<noteq> i" "istable A (Suc l) (tables s p j)"
        "q \<in> reach A (tables s) l (entry_phys A (tables s p j) (Suc l))" for j q
      using o' [OF that] by blast
  qed
  have fp: "free_pages s' \<subseteq> free_pages s" using f(2) by (auto simp: free_pages_def)
  have "c div PAGE_SIZE \<notin> free_ppns (frame_st s')" using f(2) by simp
  then have "\<forall>q \<in> reach A (tables s') (Suc l) p. desc_ok q \<and> q div PAGE_SIZE \<notin> free_ppns (frame_st s')"
    using r(2) rc dc(1) ok f(2) by (auto simp: sub_ok_def)
  then have "sub_ok A s' (Suc l) p" using r(1) m by (simp only: sub_ok_def)
  moreover have "clear_meta (metadata s') x" if "x \<in> free_ppns (frame_st s')" for x
    using that f(2) M(1) [of x] dp(2) sys by (metis Diff_iff sys_ok_def clear_meta_cong)
  then have "sys_ok s'" using sys f by (simp add: sys_ok_def)
  moreover have "tables s' q = tables s q \<and> stat (metadata s') q = stat (metadata s) q"
    if "desc_ok q" "q \<notin> reach A (tables s) (Suc l) p" "q \<notin> free_pages s" for q
    using that T c so [OF that(1)] by auto
  moreover have "reach A (tables s') (Suc l) p \<subseteq> reach A (tables s) (Suc l) p \<union> free_pages s"
    using r(2) rc c by auto
  moreover have "\<forall>q. q \<notin> free_pages s \<longrightarrow> page_bytes s' q = page_bytes s q" using B(1) c by metis
  moreover have "grow_mono A (Suc l) p s s'"
    unfolding grow_mono_def
  proof (intro allI impI, elim conjE)
    fix j assume j: "j < 512" "istable A (Suc l) (tables s' p j)"
    show "reach A (tables s') (Suc l - 1) (entry_phys A (tables s' p j) (Suc l))
        \<subseteq> (if istable A (Suc l) (tables s p j)
           then reach A (tables s) (Suc l - 1) (entry_phys A (tables s p j) (Suc l)) else {}) \<union> free_pages s"
    proof (cases "j = i")
      case True
      then show ?thesis using rc e' c by simp
    next
      case False
      have j': "istable A (Suc l) (tables s p j)" using j(2) Tp(2) [OF False] by simp
      have "reach A (tables s') l (entry_phys A (tables s p j) (Suc l))
          = reach A (tables s) l (entry_phys A (tables s p j) (Suc l))"
        by (rule walk_cong(2)) (use o' [OF j(1) False j'] in blast)
      then show ?thesis using j' Tp(2) [OF False] by simp
    qed
  qed
  ultimately show "grows A (Suc l) p s s'"
    unfolding grows_def using f(2,3) fp B(2) by blast
  show "sub_ok A s' l c" using tc mc rc dc(1) f(2) by (simp add: sub_ok_def)
  show "hw_walk A (tables s') va (Suc l) p = (if table_index va (Suc l) = i
      then hw_walk A (tables s') va l c else hw_walk A (tables s) va (Suc l) p)" by (rule r(3))
qed

section \<open>Mapping\<close>

lemma card_remove_le: "finite X \<Longrightarrow> card X \<le> Suc (card (X - {x}))"
  by (simp add: card_Diff_singleton_if) arith

text \<open>
  The leaves that have to be split on the way to level \<open>k\<close> have children the format can encode.
\<close>

primrec splits :: "(nat \<Rightarrow> usize \<Rightarrow> bool) \<Rightarrow> nat \<Rightarrow> usize \<Rightarrow> nat \<Rightarrow> usize \<Rightarrow> bool" where
  "splits ok k va 0 ph \<longleftrightarrow> True"
| "splits ok k va (Suc l) ph \<longleftrightarrow> (k < Suc l \<longrightarrow>
     (\<forall>i < 512. ok l (ph + i * span l)) \<and> splits ok k va l (ph + table_index va l * span l))"

primrec path_ok ::
  "pte_format \<Rightarrow> (nat \<Rightarrow> usize \<Rightarrow> bool) \<Rightarrow> (usize \<Rightarrow> usize \<Rightarrow> usize) \<Rightarrow> nat \<Rightarrow> usize \<Rightarrow> nat \<Rightarrow> usize \<Rightarrow> bool" where
  "path_ok A ok T k va 0 p \<longleftrightarrow> True"
| "path_ok A ok T k va (Suc l) p \<longleftrightarrow> (k < Suc l \<longrightarrow> (let e = T p (table_index va (Suc l)) in
     entry_present A e \<longrightarrow>
       (if entry_is_leaf A e (Suc l) then splits ok k va (Suc l) (entry_phys A e (Suc l))
        else path_ok A ok T k va l (entry_phys A e (Suc l)))))"

text \<open>
  The page of \<open>va\<close> at level \<open>k\<close> is mapped explicitly: the tables reach it, its entry is present and
  the descriptor records a status for it.
\<close>

primrec explicit :: "pte_format \<Rightarrow> mmu \<Rightarrow> nat \<Rightarrow> usize \<Rightarrow> nat \<Rightarrow> usize \<Rightarrow> bool" where
  "explicit A s k va 0 p \<longleftrightarrow> entry_present A (tables s p (table_index va 0)) \<and>
     stat (metadata s) p (table_index va 0) \<noteq> Invalid"
| "explicit A s k va (Suc l) p \<longleftrightarrow> (let i = table_index va (Suc l); e = tables s p i in
     if k = Suc l then entry_present A e \<and> stat (metadata s) p i \<noteq> Invalid
     else istable A (Suc l) e \<and> explicit A s k va l (entry_phys A e (Suc l)))"

text \<open>The address \<open>x\<close> lies in the leaf above level \<open>k\<close> that maps \<open>va\<close>, the one to be split.\<close>

primrec in_split ::
  "pte_format \<Rightarrow> (usize \<Rightarrow> usize \<Rightarrow> usize) \<Rightarrow> nat \<Rightarrow> usize \<Rightarrow> usize \<Rightarrow> nat \<Rightarrow> usize \<Rightarrow> bool" where
  "in_split A T k va x 0 p \<longleftrightarrow> False"
| "in_split A T k va x (Suc l) p \<longleftrightarrow> (let e = T p (table_index va (Suc l)) in
     k < Suc l \<and> table_index x (Suc l) = table_index va (Suc l) \<and> entry_present A e \<and>
     (entry_is_leaf A e (Suc l) \<or> in_split A T k va x l (entry_phys A e (Suc l))))"

lemma explicit_cong:
  assumes "tables s' = tables s" "metadata s' = metadata s"
  shows "explicit A s' k va l p = explicit A s k va l p"
  using assms by (induction l arbitrary: p) simp_all

lemma explicit_at: "explicit A s l va l p \<longleftrightarrow> entry_present A (tables s p (table_index va l)) \<and>
    stat (metadata s) p (table_index va l) \<noteq> Invalid"
  by (cases l) (simp_all add: Let_def)

lemma metadata_set_status:
  "tables (set_status d j st s) = tables s" "frame_st (set_status d j st s) = frame_st s"
  "page_bytes (set_status d j st s) = page_bytes s" "active_root (set_status d j st s) = active_root s"
  "dlock (set_status d j st s) = dlock s"
  "f \<noteq> d \<Longrightarrow> metadata (set_status d j st s) f = metadata s f"
  by (simp_all add: set_status_def Let_def)

lemma stat_set_status:
  "stat (metadata (set_status (p div 4096) j st s)) p = (stat (metadata s) p)(j := st)"
  by (auto simp: set_status_def stat_def Let_def fun_eq_iff split: option.splits)

context pte_encoding
begin

lemma istable_entry: "\<lbrakk>page_addr c; 0 < l\<rbrakk> \<Longrightarrow> istable A l (table_entry A c)"
  by (simp add: istable_def)

lemma split_view:
  assumes l: "l < 3"
    and tb: "\<And>i. i < 512 \<Longrightarrow> T c i = leaf_entry A (ph + i * span l) (entry_flags A e) l"
    and ok: "\<And>i. i < 512 \<Longrightarrow> phys_ok l (ph + i * span l)" "flags_ok (entry_flags A e)"
  shows "hw_view A T va l c = Some (ph + va mod span (Suc l), entry_flags A e)"
proof -
  define i where "i = table_index va l"
  have i: "i < 512" by (simp add: i_def)
  have "hw_walk A T va l c = Some (ph + i * span l, T c i, span l)"
    using tb [OF i] ok(1) [OF i] ok(2) by (cases l) (simp_all add: i_def Let_def)
  then show ?thesis
    using offset_step [of l va] l tb [OF i] leaf_flags_back [OF ok(1) [OF i]] by (simp add: hw_view_def i_def)
qed

lemma child_addr_eq:
  assumes "l < 3" "page_addr ph" "j < 512"
  shows "usize_add ph (usize_mul j (span l)) = ph + j * span l"
proof -
  have "span l \<le> 2 ^ 39" using assms(1) by (intro span_le) simp
  then have "j * span l \<le> 512 * 2 ^ 39" using assms(3) by (intro mult_le_mono) simp_all
  then show ?thesis
    using assms(2) by (simp add: page_addr_def usize_add_eq usize_mul_eq USIZE_LIM_def)
qed

lemma map_descend_ok:
  assumes sys: "sys_ok s" and ok: "sub_ok A s (Suc l) p" and lk: "locks_ok (c, s)" and l: "l < 3"
    and k: "k \<le> l" and path: "path_ok A phys_ok (tables s) k va (Suc l) p"
  obtains c' s' where "map_descend A va p (Suc l) (c, s) = Inr (Inl OutOfMemory, c', s')"
      "locks_ok (c', s')" "same_txn (c, s) (c', s')" "free_ppns (frame_st s) = {}" "\<not> explicit A s k va (Suc l) p"
  | ch c' s' where "map_descend A va p (Suc l) (c, s) = Inr (Inr ch, c', s')" "locks_ok (c', s')"
      "space_root c' = space_root c" "grows A (Suc l) p s s'"
      "istable A (Suc l) (tables s' p (table_index va (Suc l)))"
      "entry_phys A (tables s' p (table_index va (Suc l))) (Suc l) = ch"
      "path_ok A phys_ok (tables s') k va l ch"
      "\<And>va'. hw_view A (tables s') va' (Suc l) p = hw_view A (tables s) va' (Suc l) p"
      "card (free_ppns (frame_st s)) \<le> Suc (card (free_ppns (frame_st s')))"
      "\<And>va'. gran A (tables s') va' (Suc l) p \<le> gran A (tables s) va' (Suc l) p"
      "explicit A s' k va l ch = explicit A s k va (Suc l) p"
      "explicit A s k va (Suc l) p \<Longrightarrow> unlocked s' = unlocked s"
      "\<And>x. \<lbrakk>in_split A (tables s') k va x l ch; table_index x (Suc l) = table_index va (Suc l)\<rbrakk>
         \<Longrightarrow> in_split A (tables s) k va x (Suc l) p"
      "\<And>x. \<not> in_split A (tables s) k va x (Suc l) p \<Longrightarrow>
         hw_walk A (tables s') x (Suc l) p = hw_walk A (tables s) x (Suc l) p"
proof -
  define i where "i = table_index va (Suc l)"
  define e where "e = tables s p i"
  have i: "i < 512" by (simp add: i_def)
  note sd = sub_okD [OF ok]
  have pp: "desc_ok p" using sd(3) by blast
  have ex: "explicit A s k va (Suc l) p \<longleftrightarrow> istable A (Suc l) e \<and> explicit A s k va l (entry_phys A e (Suc l))"
    using k by (simp add: e_def i_def Let_def)
  have sp: "in_split A (tables s) k va x (Suc l) p \<longleftrightarrow> table_index x (Suc l) = i \<and> entry_present A e \<and>
      (entry_is_leaf A e (Suc l) \<or> in_split A (tables s) k va x l (entry_phys A e (Suc l)))" for x
    using k by (simp add: e_def i_def Let_def)
  consider "istable A (Suc l) e" | "\<not> entry_present A e" | "entry_present A e" "entry_is_leaf A e (Suc l)"
    by (auto simp: istable_def)
  then show thesis
  proof cases
    case 1
    have "desc_ok (entry_phys A e (Suc l))"
      using sub_ok_child [OF ok i] 1 by (auto simp: e_def dest: sub_okD(3))
    then obtain t where t: "lock_page (entry_phys A e (Suc l)) (c, s) = Inr t" "locks_ok t" "same_txn (c, s) t"
      using lock_page_ok [OF _ lk] by blast
    obtain c' s' where t': "t = (c', s')" by (cases t)
    have u: "unlocked s' = unlocked s" "space_root c' = space_root c" using t(3) by (simp_all add: t' same_txn_def)
    have g: "grows A (Suc l) p s s'" 
      by (rule grows_unlocked [OF grows_refl [OF sys ok] refl u(1) [symmetric]])
    have T: "tables s' = tables s" using unlocked_eqD(1) [OF u(1)] .
    have md: "map_descend A va p (Suc l) (c, s) = Inr (Inr (entry_phys A e (Suc l)), c', s')"
      using t(1) 1 by (simp add: t' map_descend_def Let_def i_def e_def istable_def)
    have "path_ok A phys_ok (tables s') k va l (entry_phys A e (Suc l))"
      using path 1 k by (simp add: e_def i_def istable_def Let_def T)
    moreover have "explicit A s' k va l (entry_phys A e (Suc l)) = explicit A s k va (Suc l) p"
      using explicit_cong [OF T unlocked_eqD(2) [OF u(1)]] 1 ex by blast
    moreover have "in_split A (tables s) k va x (Suc l) p"
      if "in_split A (tables s') k va x l (entry_phys A e (Suc l))" "table_index x (Suc l) = table_index va (Suc l)" for x
      using that 1 sp [of x] by (simp add: T istable_def i_def)
    ultimately show thesis
      by (intro that(2) [OF md t(2) [unfolded t'] u(2) g])
        (use 1 unlocked_eqD(3) [OF u(1)] u(1) in \<open>simp_all add: T e_def i_def del: explicit.simps in_split.simps hw_walk.simps\<close>)
  next
    case 2
    from sys show thesis
    proof (cases rule: alloc_frame_cases)
      case 1
      then show thesis using lk 2 ex
        by (intro that(1) [of c s]) (simp_all add: map_descend_def Let_def i_def e_def istable_def del: explicit.simps)
    next
      case a: (2 ch f)
      define s1 where "s1 = set_entry p i (table_entry A ch) (zero_page ch (s\<lparr>frame_st := f\<rparr>))"
      have dch: "desc_ok ch" using a(2) by (simp add: free_pages_def)
      have pc: "p \<noteq> ch" using a(2) sd(4) [of p] by auto
      have lk1: "locks_ok (c, s1)" using lk by (simp add: locks_ok_def s1_def set_entry_def zero_page_def)
      obtain t where t: "lock_page ch (c, s1) = Inr t" "locks_ok t" "same_txn (c, s1) t"
        using lock_page_ok [OF dch lk1] by blast
      obtain c' s' where t': "t = (c', s')" by (cases t)
      have u: "unlocked s' = unlocked s1" "space_root c' = space_root c" using t(3) by (simp_all add: t' same_txn_def)
      note ue = unlocked_eqD [OF u(1)]
      have T: "tables s' = (tables s)(ch := (\<lambda>_. 0), p := (tables s p)(i := table_entry A ch))"
        using pc by (simp add: ue s1_def set_entry_def zero_page_def)
      have it: "istable A (Suc l) (table_entry A ch)" "entry_phys A (table_entry A ch) (Suc l) = ch"
        using istable_entry [OF desc_ok_page [OF dch], of "Suc l"] desc_ok_page [OF dch] by simp_all
      have cd: "card (free_ppns (frame_st s)) \<le> Suc (card (free_ppns (frame_st s')))"
        using card_remove_le [of "free_ppns (frame_st s)" "ch div PAGE_SIZE"] a(4)
        by (simp add: ue s1_def set_entry_def zero_page_def)
      have nm: "\<not> is_Mapped (stat (metadata s') p i)"
        using sd(2) 2 i by (auto simp: ue s1_def set_entry_def zero_page_def e_def)
      have att: "grows A (Suc l) p s s'" "sub_ok A s' l ch"
        "hw_walk A (tables s') va' (Suc l) p = (if table_index va' (Suc l) = i
           then hw_walk A (tables s') va' l ch else hw_walk A (tables s) va' (Suc l) p)" for va'
        by (rule attach_fresh [OF sys ok i a(2) _ _ _ T it _ _ _ nm];
            simp add: a(3-5) ue s1_def set_entry_def zero_page_def istable_def)+
      have "hw_walk A (tables s') va' l ch = None" for va'
        using T pc by (cases l) (simp_all add: Let_def)
      moreover have "hw_walk A (tables s) va' (Suc l) p = None" if "table_index va' (Suc l) = i" for va'
        using 2 that by (simp add: e_def Let_def)
      ultimately have w: "hw_walk A (tables s') va' (Suc l) p = hw_walk A (tables s) va' (Suc l) p" for va'
        using att(3) [of va'] by simp
      then have "hw_view A (tables s') va' (Suc l) p = hw_view A (tables s) va' (Suc l) p"
          "gran A (tables s') va' (Suc l) p \<le> gran A (tables s) va' (Suc l) p" for va'
        by (simp_all add: hw_view_def gran_def del: hw_walk.simps)
      moreover have "\<not> explicit A s k va (Suc l) p" using ex 2 by (simp add: istable_def del: explicit.simps)
      moreover have "\<not> explicit A s' k va l ch" "\<not> in_split A (tables s') k va x l ch" for x
        using T pc by (cases l; simp add: istable_def Let_def)+
      moreover have "path_ok A phys_ok (tables s') k va l ch"
        using T pc by (cases l) (simp_all add: Let_def)
      moreover have "tables s' p (table_index va (Suc l)) = table_entry A ch" using T by (simp add: i_def)
      moreover have "map_descend A va p (Suc l) (c, s) = Inr (Inr ch, c', s')"
        using 2 a(1) t(1) by (simp add: t' map_descend_def Let_def i_def e_def s1_def)
      ultimately show thesis
        by (intro that(2) [of ch c' s'] t(2) [unfolded t'] u(2) att(1) cd w) (simp_all only: it simp_thms)
    qed
  next
    case 3
    define ph where "ph = entry_phys A e (Suc l)"
    define fl where "fl = entry_flags A e"
    have sp': "\<And>j. j < 512 \<Longrightarrow> phys_ok l (ph + j * span l)" "splits phys_ok k va l (ph + table_index va l * span l)"
      using path 3 k by (simp_all add: e_def i_def ph_def Let_def)
    have fl: "flags_ok fl" unfolding fl_def by (rule leaf_flags_ok [OF 3])
    from sys show thesis
    proof (cases rule: alloc_frame_cases)
      case 1
      then show thesis using lk 3 ex
        by (intro that(1) [of c s])
          (simp_all add: map_descend_def split_leaf_def Let_def i_def e_def istable_def del: explicit.simps)
    next
      case a: (2 ch f)
      define tb where "tb = (\<lambda>j. if j < 512 then leaf_entry A (ph + j * span l) fl l else 0)"
      have pc: "p \<noteq> ch" using a(2) sd(4) [of p] by auto
      define s0 where "s0 = set_entry p i (table_entry A ch)
        (s\<lparr>frame_st := f, page_bytes := (page_bytes s)(ch := (\<lambda>_. 0)), tables := (tables s)(ch := tb)\<rparr>)"
      define s1 where "s1 = set_status (p div 4096) i Invalid s0"
      have dch: "desc_ok ch" using a(2) by (simp add: free_pages_def)
      have lk1: "locks_ok (c, s1)"
        using lk by (simp add: locks_ok_def s1_def s0_def metadata_set_status set_entry_def)
      obtain t where t: "lock_page ch (c, s1) = Inr t" "locks_ok t" "same_txn (c, s1) t"
        using lock_page_ok [OF dch lk1] by blast
      obtain c' s' where t': "t = (c', s')" by (cases t)
      have u: "unlocked s' = unlocked s1" "space_root c' = space_root c" using t(3) by (simp_all add: t' same_txn_def)
      note ue = unlocked_eqD [OF u(1)]
      have T: "tables s' = (tables s)(ch := tb, p := (tables s p)(i := table_entry A ch))"
        using pc by (simp add: ue s1_def s0_def set_entry_def metadata_set_status)
      have it: "istable A (Suc l) (table_entry A ch)" "entry_phys A (table_entry A ch) (Suc l) = ch"
        using istable_entry [OF desc_ok_page [OF dch], of "Suc l"] desc_ok_page [OF dch] by simp_all
      have M: "stat (metadata s') p = (stat (metadata s) p)(i := Invalid)"
        by (simp add: ue s1_def stat_set_status) (simp add: s0_def set_entry_def)
      have fr: "frame_inv (frame_st s')"
        "free_ppns (frame_st s') = free_ppns (frame_st s) - {ch div PAGE_SIZE}"
        "managed_ppns (frame_st s') = managed_ppns (frame_st s)"
        by (simp_all add: ue s1_def s0_def metadata_set_status set_entry_def a(3-5))
      have m: "\<And>f. f \<noteq> p div PAGE_SIZE \<Longrightarrow> metadata s' f = metadata s f"
        "\<And>j. j \<noteq> i \<Longrightarrow> stat (metadata s') p j = stat (metadata s) p j"
        "\<not> is_Mapped (stat (metadata s') p i)"
        by (simp_all add: M) (simp add: ue s1_def s0_def metadata_set_status set_entry_def)
      have b: "\<And>q. q \<noteq> ch \<Longrightarrow> page_bytes s' q = page_bytes s q" "active_root s' = active_root s"
        by (simp_all add: ue s1_def s0_def metadata_set_status set_entry_def)
      have cd: "card (free_ppns (frame_st s)) \<le> Suc (card (free_ppns (frame_st s')))"
        unfolding fr(2) by (rule card_remove_le) simp
      have nt: "\<not> istable A l (tb j)" for j
        using sp'(1) [of j] fl by (simp add: tb_def istable_def)
      have att: "grows A (Suc l) p s s'" "sub_ok A s' l ch"
        "hw_walk A (tables s') va' (Suc l) p = (if table_index va' (Suc l) = i
           then hw_walk A (tables s') va' l ch else hw_walk A (tables s) va' (Suc l) p)" for va'
        by (rule attach_fresh [OF sys ok i a(2) fr T it nt _ _ m(3) _ b(2)], erule m(1), erule m(2), erule b(1))+
      have Tc: "tables s' ch j = leaf_entry A (ph + j * span l) fl l" if "j < 512" for j
        using T pc that by (simp add: tb_def)
      have "hw_view A (tables s') va' l ch = Some (ph + va' mod span (Suc l), fl)" for va'
        unfolding fl_def by (rule split_view [OF l _ _ fl [unfolded fl_def]]; (rule Tc [unfolded fl_def] | rule sp'(1)); assumption)
      moreover have "hw_walk A (tables s) va' (Suc l) p = Some (ph, e, span (Suc l))"
        if "table_index va' (Suc l) = i" for va'
        using 3 that by (simp add: e_def ph_def Let_def)
      moreover have "gran A (tables s') va' l ch = span l" for va'
        using Tc [OF table_index_less] sp'(1) [OF table_index_less] fl
        by (cases l) (simp_all add: gran_def Let_def)
      moreover have "span l \<le> span (Suc l)" using l by (simp add: span_Suc)
      ultimately have "hw_view A (tables s') va' (Suc l) p = hw_view A (tables s) va' (Suc l) p"
          "gran A (tables s') va' (Suc l) p \<le> gran A (tables s) va' (Suc l) p" for va'
        using att(3) [of va'] by (simp_all add: hw_view_def gran_def fl_def)
      moreover have "\<not> explicit A s k va (Suc l) p" using ex 3 by (simp add: istable_def del: explicit.simps)
      moreover have "stat (metadata s') ch = (\<lambda>_. Invalid)"
      proof -
        have "stat (metadata s') ch = stat (metadata s) ch"
          by (rule stat_other [OF m(1) pp dch]) (use pc in auto)
        moreover have "clear_meta (metadata s) (ch div 4096)"
          using sys a(2) by (simp add: sys_ok_def free_pages_def)
        ultimately show ?thesis by (simp add: clear_meta_stat)
      qed
      then have "\<not> explicit A s' k va l ch"
        using Tc [OF table_index_less] sp'(1) [OF table_index_less] fl
        by (cases l) (simp_all add: istable_def Let_def)
      moreover have "in_split A (tables s) k va x (Suc l) p" if "table_index x (Suc l) = table_index va (Suc l)" for x
        using that 3 unfolding sp i_def by blast
      moreover have "hw_walk A (tables s') x (Suc l) p = hw_walk A (tables s) x (Suc l) p"
        if "\<not> in_split A (tables s) k va x (Suc l) p" for x
        using that att(3) [of x] sp [of x] 3 by simp
      moreover have "path_ok A phys_ok (tables s') k va l ch"
        using Tc [of "table_index va l"] sp' fl by (cases l) (simp_all add: Let_def)
      moreover have Tpi: "tables s' p (table_index va (Suc l)) = table_entry A ch" using T by (simp add: i_def)
      moreover have "map_descend A va p (Suc l) (c, s) = Inr (Inr ch, c', s')"
      proof -
        have tb': "(\<lambda>j. if j < 512 then leaf_entry A (usize_add (entry_phys A (tables s p i) (Suc l))
            (usize_mul j (span l))) (entry_flags A (tables s p i)) l else 0) = tb"
          using child_addr_eq [OF l phys_page [of e "Suc l"]] by (auto simp: tb_def ph_def fl_def e_def)
        have "split_leaf A p i (Suc l) (c, s) = Inr (Inr (), c', s')"
          using a(1) t(1) descriptor_of_ok [OF pp] pc
          by (simp add: t' split_leaf_def Let_def zero_page_def s1_def s0_def tb' cong: if_cong)
        then show ?thesis
          using 3 Tpi it by (simp add: map_descend_def Let_def i_def e_def)
      qed
      ultimately show thesis
        by (intro that(2) [of ch c' s'] t(2) [unfolded t'] u(2) att(1) cd) (simp_all only: it simp_thms)
    qed
  qed
qed

lemma map_target_ok:
  assumes sys: "sys_ok s" and ok: "sub_ok A s k p" and lk: "locks_ok (c, s)" and k: "k < 4"
    and ph: "phys_ok k phys" and fl: "flags_ok flags"
  obtains "map_target A va phys flags g p k (c, s) = Inr (Inl BlockedByExistingMapping, c, s)"
      "entry_present A (tables s p (table_index va k))" "explicit A s k va k p"
  | s' where "map_target A va phys flags g p k (c, s) = Inr (Inr (), c, s')" "locks_ok (c, s')"
      "grows A k p s s'" "\<And>va'. hw_walk A (tables s') va' k p =
        (if same_path va va' k k then Some (phys, leaf_entry A phys flags k, span k) else hw_walk A (tables s) va' k p)"
      "\<not> explicit A s k va k p" "explicit A s' k va k p"
      "\<And>va'. gran A (tables s') va' k p \<le> max (span k) (gran A (tables s) va' k p)" "frame_st s' = frame_st s"
proof -
  define i where "i = table_index va k"
  note sd = sub_okD [OF ok]
  have i: "i < 512" by (simp add: i_def)
  have dp: "desc_ok p" using sd(3) by blast
  define L where "L = leaf_entry A phys flags k"
  have L: "entry_present A L" "entry_is_leaf A L k" "entry_phys A L k = phys"
    using ph fl by (simp_all add: L_def)
  show thesis
  proof (cases "entry_present A (tables s p i) \<and> status (p div PAGE_SIZE) i s \<noteq> Invalid")
    case True
    then show thesis
      using descriptor_of_ok [OF dp]
      by (intro that(1)) (simp_all add: map_target_def Let_def i_def explicit_at status_stat)
  next
    case False
    define s' where "s' = flush_tlb (Some va) (set_status (p div 4096) i (Mapped phys flags g) (set_entry p i L s))"
    have run: "map_target A va phys flags g p k (c, s) = Inr (Inr (), c, s')"
      using False descriptor_of_ok [OF dp] by (auto simp: map_target_def Let_def i_def s'_def L_def)
    have f: "frame_st s' = frame_st s" "page_bytes s' = page_bytes s" "active_root s' = active_root s"
      "dlock s' = dlock s" "metadata s' = metadata (set_status (p div 4096) i (Mapped phys flags g) s)"
      by (simp_all add: s'_def flush_tlb_def set_status_def set_entry_def Let_def)
    have T: "tables s' = (tables s)(p := (tables s p)(i := L))"
      by (simp add: s'_def flush_tlb_def metadata_set_status set_entry_def)
    have M: "stat (metadata s') p = (stat (metadata s) p)(i := Mapped phys flags g)"
      by (simp only: f(5) stat_set_status)
    have M': "metadata s' x = metadata s x" if "x \<noteq> p div 4096" for x
      using that by (simp add: f(5) metadata_set_status)
    have so: "stat (metadata s') q = stat (metadata s) q" if "desc_ok q" "q \<noteq> p" for q
      by (rule stat_other [OF _ dp that]) (simp add: M')
    have T': "\<And>j. j \<noteq> i \<Longrightarrow> tables s' p j = tables s p j" "\<And>q. q \<noteq> p \<Longrightarrow> tables s' q = tables s q"
      using T by simp_all
    have e: "\<not> istable A k (tables s' p i)" using T L by (simp add: istable_def)
    have r: "tree A (tables s') k p" "reach A (tables s') k p \<subseteq> reach A (tables s) k p"
      "\<And>va'. table_index va' k \<noteq> i \<Longrightarrow> hw_walk A (tables s') va' k p = hw_walk A (tables s) va' k p"
      by (rule replace_leaf [where T' = "tables s'" and i = i, OF sd(1) e]; blast intro: T')+
    have m: "meta_ok A (tables s') (metadata s') k p"
    proof (cases k)
      case 0
      then show ?thesis using sd(2) T L M by (auto simp: 0)
    next
      case (Suc l)
      show ?thesis unfolding Suc
      proof (rule meta_replace [OF sd(2) [unfolded Suc], where i = i])
        show "tables s' p j = tables s p j \<and> stat (metadata s') p j = stat (metadata s) p j" if "j \<noteq> i" for j
          using that by (simp add: T'(1) M)
        show "is_Mapped (stat (metadata s') p i) \<longrightarrow>
            entry_present A (tables s' p i) \<and> entry_is_leaf A (tables s' p i) (Suc l)"
          using T L by (simp add: Suc)
        show "istable A (Suc l) (tables s' p i) \<longrightarrow>
            meta_ok A (tables s') (metadata s') l (entry_phys A (tables s' p i) (Suc l))"
          using e Suc by simp
        show "tables s' q = tables s q \<and> stat (metadata s') q = stat (metadata s) q"
          if j: "j < 512" "istable A (Suc l) (tables s p j)"
            and q: "q \<in> reach A (tables s) l (entry_phys A (tables s p j) (Suc l))" for j q
        proof -
          have "q \<noteq> p" using tree_child(2) [OF sd(1) [unfolded Suc] j] q by blast
          moreover have "desc_ok q"
            using sd(3) reach_child [where T = "tables s" and p = p, OF j q] by (simp add: Suc)
          ultimately show ?thesis using so [of q] T'(2) [of q] by simp
        qed
      qed
    qed
    have "sys_ok s'"
    proof -
      have "p div 4096 \<notin> free_ppns (frame_st s)" using ok by (auto simp: sub_ok_def)
      then show ?thesis using sys M' f(1) by (metis sys_ok_def clear_meta_cong)
    qed
    moreover have "sub_ok A s' k p" using r(1,2) m ok f(1) by (auto simp: sub_ok_def)
    moreover have "tables s' q = tables s q \<and> stat (metadata s') q = stat (metadata s) q"
      if "desc_ok q" "q \<notin> reach A (tables s) k p" for q
    proof -
      have "q \<noteq> p" using that(2) by auto
      then show ?thesis using so [OF that(1)] T'(2) by simp
    qed
    moreover have "grow_mono A k p s s'"
      unfolding grow_mono_def
    proof (intro allI impI, elim conjE)
      fix j assume j: "j < 512" "0 < k" "istable A k (tables s' p j)"
      then obtain l where l: "k = Suc l" by (cases k) auto
      have ji: "j \<noteq> i" using j(3) e by blast
      have j': "istable A (Suc l) (tables s p j)" using j(3) T'(1) [OF ji] l by simp
      have "reach A (tables s') l (entry_phys A (tables s p j) (Suc l))
          = reach A (tables s) l (entry_phys A (tables s p j) (Suc l))"
        by (rule walk_cong(2), rule T'(2)) (use tree_child(2) [OF sd(1) [unfolded l] j(1) j'] in blast)
      then show "reach A (tables s') (k - 1) (entry_phys A (tables s' p j) k)
          \<subseteq> (if istable A k (tables s p j) then reach A (tables s) (k - 1) (entry_phys A (tables s p j) k) else {})
            \<union> free_pages s"
        using j' T'(1) [OF ji] l by simp
    qed
    ultimately have "grows A k p s s'"
      unfolding grows_def using r(2) f by (auto simp: free_pages_def)
    moreover have w: "hw_walk A (tables s') va' k p =
        (if same_path va va' k k then Some (phys, L, span k) else hw_walk A (tables s) va' k p)" for va'
    proof (cases "table_index va' k = i")
      case True
      then show ?thesis using T L by (cases k) (simp_all add: Let_def same_path_self i_def)
    next
      case False
      then show ?thesis using r(3) [OF False] by (simp add: same_path_self i_def)
    qed
    moreover have "gran A (tables s') va' k p \<le> max (span k) (gran A (tables s) va' k p)" for va'
      using w [of va'] by (cases "same_path va va' k k") (simp_all add: gran_def)
    moreover have "\<not> explicit A s k va k p" using False by (simp add: explicit_at status_stat i_def)
    moreover have "explicit A s' k va k p" using T L M by (simp add: explicit_at i_def)
    ultimately show thesis
      using run lk f(1,4) unfolding L_def by (intro that(2) [of s']) (simp_all add: locks_ok_def)
  qed
qed

text \<open>The clauses of \<open>map_done\<close>: what the answer says, what it costs, and what the walk then gives.\<close>

definition map_done ::
  "nat \<Rightarrow> usize \<Rightarrow> usize \<Rightarrow> MappingFlags \<Rightarrow> nat \<Rightarrow> usize \<Rightarrow> txn \<Rightarrow> fault + (MapError + unit) \<times> txn \<Rightarrow> bool" where
  "map_done k va phys flags l p t res \<longleftrightarrow> (\<exists>r c' s'. res = Inr (r, c', s') \<and> locks_ok (c', s') \<and>
    space_root c' = space_root (fst t) \<and> grows A l p (snd t) s' \<and>
    r \<in> {Inr (), Inl OutOfMemory, Inl BlockedByExistingMapping} \<and>
    (r = Inl BlockedByExistingMapping \<longleftrightarrow> explicit A (snd t) k va l p) \<and>
    (r = Inl BlockedByExistingMapping \<longrightarrow> unlocked s' = unlocked (snd t)) \<and>
    (r = Inr () \<longrightarrow> explicit A s' k va l p) \<and>
    (r = Inl OutOfMemory \<longrightarrow> card (free_ppns (frame_st (snd t))) < l - k) \<and>
    card (free_ppns (frame_st (snd t))) \<le> card (free_ppns (frame_st s')) + (l - k) \<and>
    (\<forall>x. gran A (tables s') x l p \<le> max (span k) (gran A (tables (snd t)) x l p)) \<and>
    (\<forall>x. r = Inr () \<and> same_path va x k l \<longrightarrow>
       hw_walk A (tables s') x l p = Some (phys, leaf_entry A phys flags k, span k)) \<and>
    (\<forall>x. \<not> (r = Inr () \<and> same_path va x k l) \<longrightarrow> hw_view A (tables s') x l p = hw_view A (tables (snd t)) x l p \<and>
       (\<not> in_split A (tables (snd t)) k va x l p \<longrightarrow>
          hw_walk A (tables s') x l p = hw_walk A (tables (snd t)) x l p)))"

lemma map_doneI:
  assumes "res = Inr (r, c', s')" "locks_ok (c', s')" "space_root c' = space_root (fst t)"
    "grows A l p (snd t) s'" "r \<in> {Inr (), Inl OutOfMemory, Inl BlockedByExistingMapping}"
    "r = Inl BlockedByExistingMapping \<longleftrightarrow> explicit A (snd t) k va l p"
    "r = Inl BlockedByExistingMapping \<Longrightarrow> unlocked s' = unlocked (snd t)"
    "r = Inr () \<Longrightarrow> explicit A s' k va l p"
    "r = Inl OutOfMemory \<Longrightarrow> card (free_ppns (frame_st (snd t))) < l - k"
    "card (free_ppns (frame_st (snd t))) \<le> card (free_ppns (frame_st s')) + (l - k)"
    "\<And>x. gran A (tables s') x l p \<le> max (span k) (gran A (tables (snd t)) x l p)"
    "\<And>x. \<lbrakk>r = Inr (); same_path va x k l\<rbrakk> \<Longrightarrow>
       hw_walk A (tables s') x l p = Some (phys, leaf_entry A phys flags k, span k)"
    "\<And>x. \<not> (r = Inr () \<and> same_path va x k l) \<Longrightarrow> hw_view A (tables s') x l p = hw_view A (tables (snd t)) x l p"
    "\<And>x. \<lbrakk>\<not> (r = Inr () \<and> same_path va x k l); \<not> in_split A (tables (snd t)) k va x l p\<rbrakk> \<Longrightarrow>
       hw_walk A (tables s') x l p = hw_walk A (tables (snd t)) x l p"
  shows "map_done k va phys flags l p t res"
  unfolding map_done_def using assms by blast

lemma map_doneD:
  assumes "map_done k va phys flags l p (c, s) res"
  obtains r c' s' where "res = Inr (r, c', s')" "locks_ok (c', s')" "space_root c' = space_root c"
    "grows A l p s s'" "r \<in> {Inr (), Inl OutOfMemory, Inl BlockedByExistingMapping}"
    "r = Inl BlockedByExistingMapping \<longleftrightarrow> explicit A s k va l p"
    "r = Inl BlockedByExistingMapping \<Longrightarrow> unlocked s' = unlocked s"
    "r = Inr () \<Longrightarrow> explicit A s' k va l p"
    "r = Inl OutOfMemory \<Longrightarrow> card (free_ppns (frame_st s)) < l - k"
    "card (free_ppns (frame_st s)) \<le> card (free_ppns (frame_st s')) + (l - k)"
    "\<And>x. gran A (tables s') x l p \<le> max (span k) (gran A (tables s) x l p)"
    "\<And>x. \<lbrakk>r = Inr (); same_path va x k l\<rbrakk> \<Longrightarrow>
       hw_walk A (tables s') x l p = Some (phys, leaf_entry A phys flags k, span k)"
    "\<And>x. \<not> (r = Inr () \<and> same_path va x k l) \<Longrightarrow> hw_view A (tables s') x l p = hw_view A (tables s) x l p"
    "\<And>x. \<lbrakk>\<not> (r = Inr () \<and> same_path va x k l); \<not> in_split A (tables s) k va x l p\<rbrakk> \<Longrightarrow>
       hw_walk A (tables s') x l p = hw_walk A (tables s) x l p"
  using assms unfolding map_done_def fst_conv snd_conv
proof (elim exE conjE, goal_cases)
  case (1 r c' s')
  show ?case by (rule 1(1) [of r c' s']) (use 1(2-) in blast)+
qed

lemma map_at_target:
  assumes "sys_ok s" "sub_ok A s k p" "locks_ok (c, s)" "k < 4" "phys_ok k phys" "flags_ok flags"
  shows "map_done k va phys flags k p (c, s) (map_target A va phys flags g p k (c, s))"
  using assms
proof (rule map_target_ok [where va = va and g = g])
  assume b: "map_target A va phys flags g p k (c, s) = Inr (Inl BlockedByExistingMapping, c, s)" "explicit A s k va k p"
  show ?thesis by (rule map_doneI [OF b(1)]) (use assms b(2) in \<open>simp_all add: grows_refl\<close>)
next
  fix s'
  assume b: "map_target A va phys flags g p k (c, s) = Inr (Inr (), c, s')" "locks_ok (c, s')" "grows A k p s s'"
    "\<And>va'. hw_walk A (tables s') va' k p =
        (if same_path va va' k k then Some (phys, leaf_entry A phys flags k, span k) else hw_walk A (tables s) va' k p)"
    "\<not> explicit A s k va k p" "explicit A s' k va k p"
    "\<And>va'. gran A (tables s') va' k p \<le> max (span k) (gran A (tables s) va' k p)" "frame_st s' = frame_st s"
  show ?thesis by (rule map_doneI [OF b(1,2)]) (use b in \<open>simp_all add: hw_view_def\<close>)
qed

lemma map_done_child:
  assumes md: "map_descend A va p (Suc l) (c, s) = Inr (Inr ch, c1, s1)"
    and c1: "space_root c1 = space_root c" and g: "grows A (Suc l) p s s1"
    and i: "istable A (Suc l) (tables s1 p (table_index va (Suc l)))"
      "entry_phys A (tables s1 p (table_index va (Suc l))) (Suc l) = ch"
    and h: "\<And>x. hw_view A (tables s1) x (Suc l) p = hw_view A (tables s) x (Suc l) p"
    and cd: "card (free_ppns (frame_st s)) \<le> Suc (card (free_ppns (frame_st s1)))"
    and gr: "\<And>x. gran A (tables s1) x (Suc l) p \<le> gran A (tables s) x (Suc l) p"
    and ex: "explicit A s1 k va l ch = explicit A s k va (Suc l) p"
      "explicit A s k va (Suc l) p \<Longrightarrow> unlocked s1 = unlocked s"
    and sp: "\<And>x. \<lbrakk>in_split A (tables s1) k va x l ch; table_index x (Suc l) = table_index va (Suc l)\<rbrakk>
         \<Longrightarrow> in_split A (tables s) k va x (Suc l) p"
      "\<And>x. \<not> in_split A (tables s) k va x (Suc l) p \<Longrightarrow>
         hw_walk A (tables s1) x (Suc l) p = hw_walk A (tables s) x (Suc l) p"
    and rec: "map_done k va phys flags l ch (c1, s1) res" and k: "k \<le> l"
  shows "map_done k va phys flags (Suc l) p (c, s) res"
  using rec
proof (rule map_doneD)
  fix r c2 s2
  assume r: "res = Inr (r, c2, s2)" "locks_ok (c2, s2)" "space_root c2 = space_root c1" "grows A l ch s1 s2"
    "r \<in> {Inr (), Inl OutOfMemory, Inl BlockedByExistingMapping}"
    "r = Inl BlockedByExistingMapping \<longleftrightarrow> explicit A s1 k va l ch"
    "r = Inl BlockedByExistingMapping \<Longrightarrow> unlocked s2 = unlocked s1"
    "r = Inr () \<Longrightarrow> explicit A s2 k va l ch"
    "r = Inl OutOfMemory \<Longrightarrow> card (free_ppns (frame_st s1)) < l - k"
    "card (free_ppns (frame_st s1)) \<le> card (free_ppns (frame_st s2)) + (l - k)"
    "\<And>x. gran A (tables s2) x l ch \<le> max (span k) (gran A (tables s1) x l ch)"
    "\<And>x. \<lbrakk>r = Inr (); same_path va x k l\<rbrakk> \<Longrightarrow>
       hw_walk A (tables s2) x l ch = Some (phys, leaf_entry A phys flags k, span k)"
    "\<And>x. \<not> (r = Inr () \<and> same_path va x k l) \<Longrightarrow> hw_view A (tables s2) x l ch = hw_view A (tables s1) x l ch"
    "\<And>x. \<lbrakk>\<not> (r = Inr () \<and> same_path va x k l); \<not> in_split A (tables s1) k va x l ch\<rbrakk> \<Longrightarrow>
       hw_walk A (tables s2) x l ch = hw_walk A (tables s1) x l ch"
  let ?on = "\<lambda>x. table_index x (Suc l) = table_index va (Suc l)"
  note gc = grows_child [OF growsD(2) [OF g] table_index_less i r(4)]
  have w1: "hw_walk A (tables s1) x (Suc l) p = hw_walk A (tables s1) x l ch" if "?on x" for x
    using i that by (simp add: istable_def Let_def)
  have w2: "hw_walk A (tables s2) x (Suc l) p =
      (if ?on x then hw_walk A (tables s2) x l ch else hw_walk A (tables s1) x (Suc l) p)" for x
    by (rule gc(2))
  show ?thesis
  proof (rule map_doneI [OF r(1,2)])
    show "grows A (Suc l) p (snd (c, s)) s2" using grows_trans [OF g gc(1)] by simp
    show "r = Inl BlockedByExistingMapping \<longleftrightarrow> explicit A (snd (c, s)) k va (Suc l) p"
      using r(6) ex(1) by simp
    show "unlocked s2 = unlocked (snd (c, s))" if "r = Inl BlockedByExistingMapping"
      using r(6,7) that ex by simp
    show "explicit A s2 k va (Suc l) p" if "r = Inr ()"
      using r(8) [OF that] i k by (simp add: Let_def gc(3))
    show "hw_walk A (tables s2) x (Suc l) p = Some (phys, leaf_entry A phys flags k, span k)"
      if "r = Inr ()" "same_path va x k (Suc l)" for x
      using that r(12) [of x] w2 [of x] same_path_Suc [OF k] by (simp del: hw_walk.simps)
    show "hw_view A (tables s2) x (Suc l) p = hw_view A (tables (snd (c, s))) x (Suc l) p"
      if "\<not> (r = Inr () \<and> same_path va x k (Suc l))" for x
    proof (cases "?on x")
      case True
      then have "hw_view A (tables s2) x l ch = hw_view A (tables s1) x l ch"
        using that r(13) [of x] same_path_Suc [OF k] by simp
      then show ?thesis using w1 [OF True] w2 [of x] True h [of x] by (simp add: hw_view_def del: hw_walk.simps)
    next
      case False
      then show ?thesis using w2 [of x] h [of x] by (simp add: hw_view_def del: hw_walk.simps)
    qed
    show "hw_walk A (tables s2) x (Suc l) p = hw_walk A (tables (snd (c, s))) x (Suc l) p"
      if "\<not> (r = Inr () \<and> same_path va x k (Suc l))" "\<not> in_split A (tables (snd (c, s))) k va x (Suc l) p" for x
    proof (cases "?on x")
      case True
      have "hw_walk A (tables s2) x l ch = hw_walk A (tables s1) x l ch"
        using that True sp(1) [of x] unfolding snd_conv same_path_Suc [OF k] by (intro r(14)) blast+
      then show ?thesis
        using w1 [OF True] w2 [of x] True sp(2) [of x] that(2) by (simp del: hw_walk.simps in_split.simps)
    next
      case False
      then show ?thesis using w2 [of x] sp(2) [of x] that(2) by (simp del: hw_walk.simps in_split.simps)
    qed
    show "card (free_ppns (frame_st (snd (c, s)))) < Suc l - k" if "r = Inl OutOfMemory"
      using r(9) that cd k by simp
    show "card (free_ppns (frame_st (snd (c, s)))) \<le> card (free_ppns (frame_st s2)) + (Suc l - k)"
      using r(10) cd k by (simp add: Suc_diff_le)
    show "gran A (tables s2) x (Suc l) p \<le> max (span k) (gran A (tables (snd (c, s))) x (Suc l) p)" for x
    proof (cases "?on x")
      case True
      have "gran A (tables s1) x l ch = gran A (tables s1) x (Suc l) p" "gran A (tables s2) x (Suc l) p = gran A (tables s2) x l ch"
        using w1 [OF True] w2 [of x] True by (simp_all add: gran_def del: hw_walk.simps)
      then show ?thesis using r(11) [of x] gr [of x] unfolding snd_conv by linarith
    next
      case False
      have "gran A (tables s2) x (Suc l) p = gran A (tables s1) x (Suc l) p"
        using w2 [of x] False by (simp add: gran_def del: hw_walk.simps)
      then show ?thesis using gr [of x] unfolding snd_conv by linarith
    qed
  qed (use c1 r(3,5) in simp_all)
qed

lemma map_loop_ok:
  assumes "sys_ok s" "sub_ok A s l p" "locks_ok (c, s)" "l < 4" "k \<le> l"
    and "path_ok A phys_ok (tables s) k va l p"
    and ph: "phys_ok k phys" and fl: "flags_ok flags"
  shows "map_done k va phys flags l p (c, s) (map_loop A va phys flags k g l p (c, s))"
  using assms(1-6)
proof (induction l arbitrary: p c s)
  case 0
  then show ?case using map_at_target [OF _ _ _ _ ph fl, of s p c va g] by simp
next
  case (Suc l)
  show ?case
  proof (cases "Suc l = k")
    case True
    then show ?thesis
      using map_at_target [OF _ _ _ _ ph fl, of s p c va g] Suc.prems
      unfolding True [symmetric] by simp
  next
    case False
    then have k: "k \<le> l" using Suc.prems(5) by simp
    have l: "l < 3" using Suc.prems(4) by simp
    from Suc.prems(1-3) l k Suc.prems(6) show ?thesis
    proof (rule map_descend_ok)
      fix c' s'
      assume a: "map_descend A va p (Suc l) (c, s) = Inr (Inl OutOfMemory, c', s')" "locks_ok (c', s')"
        "same_txn (c, s) (c', s')" "free_ppns (frame_st s) = {}" "\<not> explicit A s k va (Suc l) p"
      then have u: "unlocked s' = unlocked s" "space_root c' = space_root c" by (simp_all add: same_txn_def)
      have "grows A (Suc l) p s s'"
        by (rule grows_unlocked [OF grows_refl [OF Suc.prems(1,2)] refl u(1) [symmetric]])
      then show ?thesis
        using a u unlocked_eqD(1) [OF u(1)] False k
        by (intro map_doneI [where r = "Inl OutOfMemory" and c' = c' and s' = s'])
          (simp_all del: explicit.simps in_split.simps hw_walk.simps)
    next
      fix ch c' s'
      assume a: "map_descend A va p (Suc l) (c, s) = Inr (Inr ch, c', s')" "locks_ok (c', s')"
        "space_root c' = space_root c" "grows A (Suc l) p s s'"
        "istable A (Suc l) (tables s' p (table_index va (Suc l)))"
        "entry_phys A (tables s' p (table_index va (Suc l))) (Suc l) = ch"
        "path_ok A phys_ok (tables s') k va l ch"
        "\<And>va'. hw_view A (tables s') va' (Suc l) p = hw_view A (tables s) va' (Suc l) p"
        "card (free_ppns (frame_st s)) \<le> Suc (card (free_ppns (frame_st s')))"
        "\<And>va'. gran A (tables s') va' (Suc l) p \<le> gran A (tables s) va' (Suc l) p"
        "explicit A s' k va l ch = explicit A s k va (Suc l) p"
        "explicit A s k va (Suc l) p \<Longrightarrow> unlocked s' = unlocked s"
        "\<And>x. \<lbrakk>in_split A (tables s') k va x l ch; table_index x (Suc l) = table_index va (Suc l)\<rbrakk>
           \<Longrightarrow> in_split A (tables s) k va x (Suc l) p"
        "\<And>x. \<not> in_split A (tables s) k va x (Suc l) p \<Longrightarrow>
           hw_walk A (tables s') x (Suc l) p = hw_walk A (tables s) x (Suc l) p"
      have "sub_ok A s' l ch"
        using sub_ok_child [OF growsD(2) [OF a(4)] table_index_less a(5)] a(6) by simp
      then have "map_done k va phys flags l ch (c', s') (map_loop A va phys flags k g l ch (c', s'))"
        using Suc.prems(4) k a growsD(1) [OF a(4)] by (intro Suc.IH) simp_all
      then have "map_done k va phys flags (Suc l) p (c, s) (map_loop A va phys flags k g l ch (c', s'))"
        by (intro map_done_child [OF a(1,3-6) _ a(9) _ a(11) _ _ _ _ k] a(8,10,12-14))
      then show ?thesis using a(1) False by simp
    qed
  qed
qed

lemma addrspace_map_ok:
  fixes sz defines "k \<equiv> (case sz of Page4K \<Rightarrow> 0 | Page2M \<Rightarrow> 1)" and "l \<equiv> LEVELS A - 1"
  assumes sys: "sys_ok s" and ok: "space_ok A root s" and rest: "at_rest s"
    and al: "va mod span k = 0" "phys mod span k = 0"
    and path: "path_ok A phys_ok (tables s) k va l root"
    and ph: "phys_ok k phys" and fl: "flags_ok flags"
  obtains r s' where "addrspace_map A root va phys flags sz s = Inr (r, s')" "at_rest s'"
    "grows A l root s s'" "r \<in> {Inr (), Inl OutOfMemory, Inl BlockedByExistingMapping}"
    "r = Inl BlockedByExistingMapping \<longleftrightarrow> explicit A s k va l root"
    "r = Inl BlockedByExistingMapping \<Longrightarrow> s' = s"
    "r = Inr () \<Longrightarrow> explicit A s' k va l root"
    "r = Inl OutOfMemory \<Longrightarrow> card (free_ppns (frame_st s)) < l - k"
    "card (free_ppns (frame_st s)) \<le> card (free_ppns (frame_st s')) + (l - k)"
    "\<And>x. gran A (tables s') x l root \<le> max (span k) (gran A (tables s) x l root)"
    "\<And>x. \<lbrakk>r = Inr (); same_path va x k l\<rbrakk> \<Longrightarrow>
       hw_walk A (tables s') x l root = Some (phys, leaf_entry A phys flags k, span k)"
    "\<And>x. \<not> (r = Inr () \<and> same_path va x k l) \<Longrightarrow> hw_view A (tables s') x l root = hw_view A (tables s) x l root"
    "\<And>x. \<lbrakk>\<not> (r = Inr () \<and> same_path va x k l); \<not> in_split A (tables s) k va x l root\<rbrakk> \<Longrightarrow>
       hw_walk A (tables s') x l root = hw_walk A (tables s) x l root"
proof -
  have l: "k \<le> l" "l < 4" "Suc l = LEVELS A" using levels by (cases sz; auto simp: k_def l_def)+
  have d: "\<forall>q \<in> reach A (tables s) (LEVELS A - 1) root. desc_ok q" using ok by (simp add: space_ok_def sub_ok_def)
  obtain t where t: "addrspace_lock A root va (usize_add va (map_size_bytes sz)) s = Inr t" "locks_ok t"
      "space_root (fst t) = root" "unlocked (snd t) = s"
    using addrspace_lock_ok [OF d rest] by blast
  obtain c s0 where t': "t = (c, s0)" by (cases t)
  have u: "unlocked s = unlocked s0" "unlocked s = s" using t(4) rest by (simp_all add: t')
  note ue = unlocked_eqD [OF u(1)]
  have "map_done k va phys flags l root (c, s0) (map_loop A va phys flags k (span k) l root (c, s0))"
    using sys ok path l t(2) ph fl
    by (intro map_loop_ok) (simp_all add: t' sys_ok_def space_ok_def sub_ok_def ue l_def)
  moreover have "cursor_map A va phys flags sz (c, s0) = map_loop A va phys flags k (span k) l root (c, s0)"
    using al t(3) by (simp add: cursor_map_def Let_def k_def [symmetric] t' l_def)
  ultimately have "map_done k va phys flags l root (c, s0) (cursor_map A va phys flags sz (c, s0))" by simp
  then show thesis
  proof (rule map_doneD)
    fix r c' s'
    assume m: "cursor_map A va phys flags sz (c, s0) = Inr (r, c', s')" "locks_ok (c', s')"
      "grows A l root s0 s'" "r \<in> {Inr (), Inl OutOfMemory, Inl BlockedByExistingMapping}"
      "r = Inl BlockedByExistingMapping \<longleftrightarrow> explicit A s0 k va l root"
      "r = Inl BlockedByExistingMapping \<Longrightarrow> unlocked s' = unlocked s0"
      "r = Inr () \<Longrightarrow> explicit A s' k va l root"
      "r = Inl OutOfMemory \<Longrightarrow> card (free_ppns (frame_st s0)) < l - k"
      "card (free_ppns (frame_st s0)) \<le> card (free_ppns (frame_st s')) + (l - k)"
      "\<And>x. gran A (tables s') x l root \<le> max (span k) (gran A (tables s0) x l root)"
      "\<And>x. \<lbrakk>r = Inr (); same_path va x k l\<rbrakk> \<Longrightarrow>
         hw_walk A (tables s') x l root = Some (phys, leaf_entry A phys flags k, span k)"
      "\<And>x. \<not> (r = Inr () \<and> same_path va x k l) \<Longrightarrow> hw_view A (tables s') x l root = hw_view A (tables s0) x l root"
      "\<And>x. \<lbrakk>\<not> (r = Inr () \<and> same_path va x k l); \<not> in_split A (tables s0) k va x l root\<rbrakk> \<Longrightarrow>
         hw_walk A (tables s') x l root = hw_walk A (tables s0) x l root"
    have eq: "explicit A s0 k va l root = explicit A s k va l root"
      "explicit A (unlocked s') k va l root = explicit A s' k va l root"
      by (rule explicit_cong; simp add: ue)+
    show thesis
    proof (rule that)
      show "addrspace_map A root va phys flags sz s = Inr (r, unlocked s')"
        using t(1) m(1,2) by (simp add: addrspace_map_def t' drop_cursor_eq)
      show "grows A l root s (unlocked s')"
        by (rule grows_unlocked [OF m(3) u(1) [symmetric]]) (simp add: unlocked_def)
      show "r = Inl BlockedByExistingMapping \<longleftrightarrow> explicit A s k va l root" using m(5) eq by simp
      show "r = Inl BlockedByExistingMapping \<Longrightarrow> unlocked s' = s" using m(6) u by simp
    qed (use m(4,7-13) eq in \<open>simp_all add: ue\<close>)
  qed
qed

lemma addrspace_map_unaligned:
  assumes ok: "space_ok A root s" and rest: "at_rest s"
    and al: "va mod map_size_bytes sz \<noteq> 0 \<or> phys mod map_size_bytes sz \<noteq> 0"
  shows "addrspace_map A root va phys flags sz s = Inr (Inl Unsupported, s)"
proof -
  have d: "\<forall>q \<in> reach A (tables s) (LEVELS A - 1) root. desc_ok q"
    using ok by (simp add: space_ok_def sub_ok_def)
  obtain t where t: "addrspace_lock A root va (usize_add va (map_size_bytes sz)) s = Inr t" "locks_ok t"
      "unlocked (snd t) = s"
    using addrspace_lock_ok [OF d rest] by blast
  have "cursor_map A va phys flags sz t = Inr (Inl Unsupported, t)"
    using al by (cases sz) (simp_all add: cursor_map_def map_size_bytes_def span_eq Let_def)
  then show ?thesis using t by (simp add: addrspace_map_def drop_cursor_eq)
qed

end

end
