(* ===== verification/Kor_Mmu_Unmap.thy ===== *)
theory Kor_Mmu_Unmap
  imports Kor_Mmu_Map
begin

text \<open>
  Unmapping a range, \<^verbatim>\<open>RCursor::unmap\<close>: \<open>hit\<close> says which mappings a range removes, \<open>shrinks\<close>
  what every step does to the subtree it works in.  Table pages that become empty return to the
  frame allocator: \<open>frees\<close> says that exactly the pages that left the subtree did, and \<open>pruned\<close> that
  none is left empty on the way to an address of the range.
\<close>

section \<open>Freeing table pages\<close>

lemma managed_registered:
  assumes "frame_inv f" "c mod PAGE_SIZE = 0" "c div PAGE_SIZE \<in> managed_ppns f"
  shows "frame_registered f c 1"
proof -
  obtain ri where ri: "ri < region_count f" "c div PAGE_SIZE \<in> region_ppns f ri"
    using assms(3) by (auto simp: managed_ppns_def)
  define off where "off = c div PAGE_SIZE - start_ppn (regions f ri)"
  have off: "c div PAGE_SIZE = start_ppn (regions f ri) + off" "off + 1 \<le> r_frames (regions f ri)"
    using ri(2) by (auto simp: region_ppns_def off_def)
  have "frame_locate f (start_ppn (regions f ri) + off) 1 = Some (ri, off)"
    by (rule frame_locate_eq [OF _ ri(1) off(2)]) (use assms(1) in \<open>simp_all add: frame_inv_def\<close>)
  then show ?thesis using assms(2) off(1) by (simp add: frame_registered_def npot_1)
qed

lemma free_page_ok:
  assumes inv: "frame_inv (frame_st s)" and "desc_ok c" "c div PAGE_SIZE \<in> managed_ppns (frame_st s)"
    "c div PAGE_SIZE \<notin> free_ppns (frame_st s)"
  obtains f where "free_frames c 1 s = Inr (s\<lparr>frame_st := f\<rparr>)" "frame_inv f"
    "free_ppns f = insert (c div PAGE_SIZE) (free_ppns (frame_st s))"
    "managed_ppns f = managed_ppns (frame_st s)"
proof -
  have x: "frame_extent c 1 = {c div PAGE_SIZE}" by (simp add: frame_extent_def npot_1)
  have "frame_registered (frame_st s) c 1"
    using assms(2) by (intro managed_registered [OF inv _ assms(3)]) (simp add: desc_ok_def)
  then obtain f where "frame_free_frames (frame_st s) c 1 = Inr f" "frame_inv f"
      "free_ppns f = free_ppns (frame_st s) \<union> frame_extent c 1" "managed_ppns f = managed_ppns (frame_st s)"
    using frames.release_ok [OF inv, of c 1] assms(4) x by auto
  then show thesis using x by (intro that [of f]) (simp_all add: free_frames_def)
qed

section \<open>Shrinking a subtree\<close>

lemma desc_inj: "\<lbrakk>desc_ok q; desc_ok q'; q div PAGE_SIZE = q' div PAGE_SIZE\<rbrakk> \<Longrightarrow> q = q'"
  unfolding desc_ok_def PAGE_SIZE_def by (elim conjE) (rule aligned_div_inj)

text \<open>The children of the root are old children whose subtrees have not grown.\<close>

definition child_mono :: "pte_format \<Rightarrow> nat \<Rightarrow> usize \<Rightarrow> mmu \<Rightarrow> mmu \<Rightarrow> bool" where
  "child_mono A l p s s' \<longleftrightarrow> (\<forall>i < 512. 0 < l \<and> istable A l (tables s' p i) \<longrightarrow> istable A l (tables s p i) \<and>
     entry_phys A (tables s' p i) l = entry_phys A (tables s p i) l \<and>
     reach A (tables s') (l - 1) (entry_phys A (tables s p i) l)
       \<subseteq> reach A (tables s) (l - 1) (entry_phys A (tables s p i) l))"

lemma child_mono_refl [simp]: "child_mono A l p s s"
  by (simp add: child_mono_def)

lemma child_monoD:
  assumes "child_mono A l p s s'" "i < 512" "0 < l" "istable A l (tables s' p i)"
  shows "istable A l (tables s p i)" "entry_phys A (tables s' p i) l = entry_phys A (tables s p i) l"
    "reach A (tables s') (l - 1) (entry_phys A (tables s p i) l)
       \<subseteq> reach A (tables s) (l - 1) (entry_phys A (tables s p i) l)"
  using assms unfolding child_mono_def by simp_all

lemma child_mono_trans:
  assumes a: "child_mono A l p s1 s2" and b: "child_mono A l p s2 s3"
  shows "child_mono A l p s1 s3"
  unfolding child_mono_def
proof (intro allI impI, elim conjE)
  fix i assume i: "i < 512" "0 < l" "istable A l (tables s3 p i)"
  note b = child_monoD [OF b i] note a = child_monoD [OF a i(1,2) b(1)]
  show "istable A l (tables s1 p i) \<and> entry_phys A (tables s3 p i) l = entry_phys A (tables s1 p i) l \<and>
      reach A (tables s3) (l - 1) (entry_phys A (tables s1 p i) l)
        \<subseteq> reach A (tables s1) (l - 1) (entry_phys A (tables s1 p i) l)"
    using a order_trans [OF b(3) [unfolded a(2)] a(3)] b(2) by simp
qed

definition shrinks :: "pte_format \<Rightarrow> nat \<Rightarrow> usize \<Rightarrow> mmu \<Rightarrow> mmu \<Rightarrow> bool" where
  "shrinks A l p s s' \<longleftrightarrow> sys_ok s' \<and> sub_ok A s' l p \<and>
     reach A (tables s') l p \<subseteq> reach A (tables s) l p \<and>
     free_ppns (frame_st s) \<subseteq> free_ppns (frame_st s') \<and>
     free_ppns (frame_st s') \<subseteq> free_ppns (frame_st s)
       \<union> (\<lambda>q. q div PAGE_SIZE) ` (reach A (tables s) l p - {p}) \<and>
     managed_ppns (frame_st s') = managed_ppns (frame_st s) \<and>
     active_root s' = active_root s \<and> page_bytes s' = page_bytes s \<and> child_mono A l p s s' \<and>
     (\<forall>q. desc_ok q \<and> q \<notin> reach A (tables s) l p \<longrightarrow>
        tables s' q = tables s q \<and> stat (metadata s') q = stat (metadata s) q)"

lemma shrinksD:
  assumes "shrinks A l p s s'"
  shows "sys_ok s'" "sub_ok A s' l p" "reach A (tables s') l p \<subseteq> reach A (tables s) l p"
    "free_ppns (frame_st s) \<subseteq> free_ppns (frame_st s')"
    "free_ppns (frame_st s') \<subseteq> free_ppns (frame_st s)
       \<union> (\<lambda>q. q div PAGE_SIZE) ` (reach A (tables s) l p - {p})"
    "managed_ppns (frame_st s') = managed_ppns (frame_st s)"
    "active_root s' = active_root s" "page_bytes s' = page_bytes s"
    "\<lbrakk>desc_ok q; q \<notin> reach A (tables s) l p\<rbrakk> \<Longrightarrow>
       tables s' q = tables s q \<and> stat (metadata s') q = stat (metadata s) q"
    "child_mono A l p s s'"
  using assms unfolding shrinks_def by blast+

lemma shrinks_refl: "sys_ok s \<Longrightarrow> sub_ok A s l p \<Longrightarrow> shrinks A l p s s"
  by (simp add: shrinks_def)

lemma shrinks_trans:
  assumes "shrinks A l p s1 s2" "shrinks A l p s2 s3"
  shows "shrinks A l p s1 s3"
proof -
  note a = shrinksD [OF assms(1)] and b = shrinksD [OF assms(2)]
  have "tables s3 q = tables s1 q \<and> stat (metadata s3) q = stat (metadata s1) q"
    if "desc_ok q" "q \<notin> reach A (tables s1) l p" for q
  proof -
    have "q \<notin> reach A (tables s2) l p" using that(2) a(3) by blast
    then show ?thesis using a(9) [OF that] b(9) [OF that(1)] by simp
  qed
  moreover have "free_ppns (frame_st s3) \<subseteq> free_ppns (frame_st s1)
       \<union> (\<lambda>q. q div PAGE_SIZE) ` (reach A (tables s1) l p - {p})"
    using a(3,5) b(5) by blast
  ultimately show ?thesis
    unfolding shrinks_def using order_trans [OF b(3) a(3)] order_trans [OF a(4) b(4)] a(6-8) b(1,2,6-8)
      child_mono_trans [OF a(10) b(10)]
    by simp
qed

lemma shrinks_unlocked:
  assumes g: "shrinks A l p s s'" and e: "unlocked s = unlocked t" "unlocked s' = unlocked t'"
  shows "shrinks A l p t t'"
  using g unfolding shrinks_def sys_ok_def sub_ok_def child_mono_def
    unlocked_eqD [OF e(1)] unlocked_eqD [OF e(2)] .

definition ppn :: "usize \<Rightarrow> usize" where
  "ppn q = q div PAGE_SIZE"

text \<open>Exactly the pages that left the subtree have become free.\<close>

definition frees :: "pte_format \<Rightarrow> nat \<Rightarrow> usize \<Rightarrow> mmu \<Rightarrow> mmu \<Rightarrow> bool" where
  "frees A l p s s' \<longleftrightarrow> free_ppns (frame_st s') =
     free_ppns (frame_st s) \<union> ppn ` (reach A (tables s) l p - reach A (tables s') l p)"

lemma frees_refl [simp]: "frees A l p s s"
  by (simp add: frees_def)

lemma frees_trans:
  assumes "shrinks A l p s1 s2" "shrinks A l p s2 s3" "frees A l p s1 s2" "frees A l p s2 s3"
  shows "frees A l p s1 s3"
proof -
  have "reach A (tables s1) l p - reach A (tables s3) l p =
      (reach A (tables s1) l p - reach A (tables s2) l p) \<union> (reach A (tables s2) l p - reach A (tables s3) l p)"
    using shrinksD(3) [OF assms(1)] shrinksD(3) [OF assms(2)] by blast
  then show ?thesis using assms(3,4) unfolding frees_def by (simp add: image_Un Un_assoc)
qed

text \<open>No table below the root on the path of \<open>x\<close> is empty.\<close>

primrec pruned :: "pte_format \<Rightarrow> (usize \<Rightarrow> usize \<Rightarrow> usize) \<Rightarrow> usize \<Rightarrow> nat \<Rightarrow> usize \<Rightarrow> bool" where
  "pruned A T x 0 p \<longleftrightarrow> True"
| "pruned A T x (Suc l) p \<longleftrightarrow> (let e = T p (table_index x (Suc l)); c = entry_phys A e (Suc l) in
     istable A (Suc l) e \<longrightarrow> (\<exists>i < 512. T c i \<noteq> 0) \<and> pruned A T x l c)"

lemma pruned_cong:
  assumes "\<And>q. q \<in> reach A T l p \<Longrightarrow> T' q = T q"
  shows "pruned A T' x l p = pruned A T x l p"
  using assms
proof (induction l arbitrary: p)
  case (Suc l)
  let ?i = "table_index x (Suc l)"
  have p: "T' p = T p" using Suc.prems by simp
  let ?c = "entry_phys A (T p ?i) (Suc l)"
  have sub: "T' q = T q" if "istable A (Suc l) (T p ?i)" "q \<in> reach A T l ?c" for q
    by (rule Suc.prems, rule reach_child [OF table_index_less that])
  have "pruned A T' x l ?c = pruned A T x l ?c" "T' ?c = T ?c" if "istable A (Suc l) (T p ?i)"
    using Suc.IH [of ?c] sub [OF that] by blast+
  then show ?case using p by (auto simp: Let_def)
qed simp

lemma pruned_child:
  assumes "T' p (table_index x (Suc l)) = T p (table_index x (Suc l))"
    and "\<And>q. \<lbrakk>istable A (Suc l) (T p (table_index x (Suc l)));
        q \<in> reach A T l (entry_phys A (T p (table_index x (Suc l))) (Suc l))\<rbrakk> \<Longrightarrow> T' q = T q"
  shows "pruned A T' x (Suc l) p = pruned A T x (Suc l) p"
  using pruned_cong [of A T l _ T' x] assms by (auto simp: Let_def)

text \<open>The table pages below the entries \<open>I\<close> of the root belong to the frame allocator.\<close>

definition owned :: "pte_format \<Rightarrow> mmu \<Rightarrow> nat \<Rightarrow> usize \<Rightarrow> nat set \<Rightarrow> bool" where
  "owned A s l p I \<longleftrightarrow> (\<forall>i \<in> I. i < 512 \<and> 0 < l \<and> istable A l (tables s p i) \<longrightarrow>
     (\<forall>q \<in> reach A (tables s) (l - 1) (entry_phys A (tables s p i) l).
        q div PAGE_SIZE \<in> managed_ppns (frame_st s)))"

lemma owned_shrinks:
  assumes "shrinks A l p s s'" "owned A s l p I"
  shows "owned A s' l p I"
  unfolding owned_def shrinksD(6) [OF assms(1)]
proof (intro ballI impI, elim conjE)
  fix i q
  assume i: "i \<in> I" "i < 512" "0 < l" "istable A l (tables s' p i)"
    and q: "q \<in> reach A (tables s') (l - 1) (entry_phys A (tables s' p i) l)"
  note c = child_monoD [OF shrinksD(10) [OF assms(1)] i(2-4)]
  have "q \<in> reach A (tables s) (l - 1) (entry_phys A (tables s p i) l)"
    using subsetD [OF c(3)] q unfolding c(2) .
  then show "q div PAGE_SIZE \<in> managed_ppns (frame_st s)"
    using assms(2) i(1-3) c(1) unfolding owned_def by blast
qed

lemma owned_mono: "owned A s l p I \<Longrightarrow> J \<subseteq> I \<Longrightarrow> owned A s l p J"
  unfolding owned_def by blast

lemma owned_child:
  assumes "owned A s (Suc l) p I" "i \<in> I" "i < 512" "istable A (Suc l) (tables s p i)"
  shows "owned A s l (entry_phys A (tables s p i) (Suc l)) J"
    and "entry_phys A (tables s p i) (Suc l) div PAGE_SIZE \<in> managed_ppns (frame_st s)"
proof -
  have r: "q div PAGE_SIZE \<in> managed_ppns (frame_st s)"
    if "q \<in> reach A (tables s) l (entry_phys A (tables s p i) (Suc l))" for q
    using assms that unfolding owned_def by simp
  show "owned A s l (entry_phys A (tables s p i) (Suc l)) J"
    unfolding owned_def
  proof (intro ballI impI, elim conjE)
    fix j q
    assume "j < 512" "0 < l" "istable A l (tables s (entry_phys A (tables s p i) (Suc l)) j)"
      "q \<in> reach A (tables s) (l - 1) (entry_phys A (tables s (entry_phys A (tables s p i) (Suc l)) j) l)"
    then have "q \<in> reach A (tables s) l (entry_phys A (tables s p i) (Suc l))"
      by (cases l) auto
    then show "q div PAGE_SIZE \<in> managed_ppns (frame_st s)" by (rule r)
  qed
  show "entry_phys A (tables s p i) (Suc l) div PAGE_SIZE \<in> managed_ppns (frame_st s)"
    by (rule r) (rule reach_self)
qed

lemma shrinks_child:
  assumes ok: "sub_ok A s (Suc l) p" and i: "i < 512" "istable A (Suc l) (tables s p i)"
    and c: "entry_phys A (tables s p i) (Suc l) = c" and g: "shrinks A l c s s'"
  shows "shrinks A (Suc l) p s s'"
    and "hw_walk A (tables s') va (Suc l) p = (if table_index va (Suc l) = i
      then hw_walk A (tables s') va l c else hw_walk A (tables s) va (Suc l) p)"
    and "tables s' p = tables s p" "stat (metadata s') p = stat (metadata s) p"
    and "frees A l c s s' \<Longrightarrow> frees A (Suc l) p s s'"
    and "table_index va (Suc l) \<noteq> i \<Longrightarrow> pruned A (tables s') va (Suc l) p = pruned A (tables s) va (Suc l) p"
proof -
  note g = shrinksD [OF g] and s = sub_okD [OF ok]
  note ch = tree_child [OF s(1) i, unfolded c]
  have sub: "reach A (tables s) l c \<subseteq> reach A (tables s) (Suc l) p"
    using c reach_child [where T = "tables s" and p = p, OF i] by blast
  show p: "tables s' p = tables s p" "stat (metadata s') p = stat (metadata s) p"
    using g(9) [of p] s(3) [of p] ch(2) by auto
  have o: "tables s' q = tables s q \<and> stat (metadata s') q = stat (metadata s) q \<and> q \<notin> reach A (tables s') l c"
    if j: "j < 512" "j \<noteq> i" "istable A (Suc l) (tables s p j)"
      and q: "q \<in> reach A (tables s) l (entry_phys A (tables s p j) (Suc l))" for j q
  proof -
    have "q \<in> reach A (tables s) (Suc l) p" using j q by (auto intro: reach_child)
    moreover have "q \<notin> reach A (tables s) l c" using ch(3) [OF j] q by blast
    ultimately show ?thesis using g(9) [of q] s(3) [of q] g(3) by blast
  qed
  note c' = sub_okD [OF g(2)]
  have e: "istable A (Suc l) (tables s' p i)" "entry_phys A (tables s' p i) (Suc l) = c"
    using i(2) c p by simp_all
  have pn: "p \<notin> reach A (tables s') l c" using ch(2) g(3) by blast
  have peq: "\<And>j. j \<noteq> i \<Longrightarrow> tables s' p j = tables s p j" using p by simp
  have r: "tree A (tables s') (Suc l) p"
    "reach A (tables s') (Suc l) p \<subseteq> reach A (tables s) (Suc l) p \<union> reach A (tables s') l c"
    "hw_walk A (tables s') va (Suc l) p = (if table_index va (Suc l) = i
       then hw_walk A (tables s') va l c else hw_walk A (tables s) va (Suc l) p)"
    by (rule replace_child [OF s(1) i(1) _ e c'(1) pn], erule peq, (drule (3) o, blast))+
  have m: "meta_ok A (tables s') (metadata s') (Suc l) p"
  proof (rule meta_replace [OF s(2), where i = i])
    show "is_Mapped (stat (metadata s') p i) \<longrightarrow>
        entry_present A (tables s' p i) \<and> entry_is_leaf A (tables s' p i) (Suc l)"
      using s(2) i(1) p by simp
    show "istable A (Suc l) (tables s' p i) \<longrightarrow>
        meta_ok A (tables s') (metadata s') l (entry_phys A (tables s' p i) (Suc l))"
      using c'(2) e(2) by simp
    show "tables s' p j = tables s p j \<and> stat (metadata s') p j = stat (metadata s) p j" for j
      by (simp add: p)
    show "tables s' q = tables s q \<and> stat (metadata s') q = stat (metadata s) q"
      if "j < 512" "j \<noteq> i" "istable A (Suc l) (tables s p j)"
        "q \<in> reach A (tables s) l (entry_phys A (tables s p j) (Suc l))" for j q
      using o [OF that] by blast
  qed
  have rs: "reach A (tables s') (Suc l) p \<subseteq> reach A (tables s) (Suc l) p"
    using r(2) g(3) sub by blast
  have nf: "q div PAGE_SIZE \<notin> free_ppns (frame_st s')" if q: "q \<in> reach A (tables s') (Suc l) p" for q
  proof (cases "q \<in> reach A (tables s') l c")
    case True
    then show ?thesis using g(2) by (auto simp: sub_ok_def)
  next
    case False
    have qs: "q \<in> reach A (tables s) (Suc l) p" using rs q by blast
    show ?thesis
    proof
      assume "q div PAGE_SIZE \<in> free_ppns (frame_st s')"
      then obtain q' where q': "q' \<in> reach A (tables s) l c - {c}" "q div PAGE_SIZE = q' div PAGE_SIZE"
        using subsetD [OF g(5)] ok qs unfolding sub_ok_def by blast
      have "desc_ok q'" using s(3) [of q'] q'(1) sub by blast
      then have "q' = q" using desc_inj [OF _ s(3) [OF qs]] q'(2) by metis
      then have qc: "q \<in> reach A (tables s) l c" "q \<noteq> p" using q' ch(2) by auto
      from q qc(2) obtain j where j: "j < 512" "istable A (Suc l) (tables s p j)"
          "q \<in> reach A (tables s') l (entry_phys A (tables s p j) (Suc l))" using p by auto
      show False
      proof (cases "j = i")
        case True
        then show False using j(3) c False by simp
      next
        case ji: False
        have "reach A (tables s') l (entry_phys A (tables s p j) (Suc l))
            = reach A (tables s) l (entry_phys A (tables s p j) (Suc l))"
          by (rule walk_cong(2)) (use o [OF j(1) ji j(2)] in blast)
        then show False using ch(3) [OF j(1) ji j(2)] j(3) qc(1) by blast
      qed
    qed
  qed
  have "sub_ok A s' (Suc l) p"
    unfolding sub_ok_def using r(1) m rs s(3) nf by blast
  moreover have "free_ppns (frame_st s') \<subseteq> free_ppns (frame_st s)
       \<union> (\<lambda>q. q div PAGE_SIZE) ` (reach A (tables s) (Suc l) p - {p})"
    using g(5) sub ch(2) by blast
  moreover have "child_mono A (Suc l) p s s'"
  proof -
    have "reach A (tables s') l (entry_phys A (tables s p j) (Suc l))
        \<subseteq> reach A (tables s) l (entry_phys A (tables s p j) (Suc l))"
      if j: "j < 512" "istable A (Suc l) (tables s p j)" for j
    proof (cases "j = i")
      case True
      then show ?thesis using g(3) c by simp
    next
      case False
      have "reach A (tables s') l (entry_phys A (tables s p j) (Suc l))
          = reach A (tables s) l (entry_phys A (tables s p j) (Suc l))"
        by (rule walk_cong(2)) (use o [OF j(1) False j(2)] in blast)
      then show ?thesis by simp
    qed
    then show ?thesis using p(1) unfolding child_mono_def by simp
  qed
  ultimately show "shrinks A (Suc l) p s s'"
    using g rs sub unfolding shrinks_def by blast
  have oth: "reach A (tables s') l (entry_phys A (tables s p j) (Suc l))
      = reach A (tables s) l (entry_phys A (tables s p j) (Suc l))"
    if "j < 512" "j \<noteq> i" "istable A (Suc l) (tables s p j)" for j
    by (rule walk_cong(2)) (use o [OF that] in blast)
  show "frees A (Suc l) p s s'" if fr: "frees A l c s s'"
  proof -
    have "q \<in> reach A (tables s) l c \<and> q \<notin> reach A (tables s') l c"
      if q: "q \<in> reach A (tables s) (Suc l) p" "q \<notin> reach A (tables s') (Suc l) p" for q
    proof -
      from q obtain j where j: "j < 512" "istable A (Suc l) (tables s p j)"
          "q \<in> reach A (tables s) l (entry_phys A (tables s p j) (Suc l))" by auto
      have "j = i"
        using oth [OF j(1) _ j(2)] j(3) q(2) reach_child [of j A l "tables s'" p q] j(1,2) p(1) by auto
      then show ?thesis using j(3) c q(2) reach_child [where T = "tables s'" and p = p, OF i(1) e(1), of q] e(2) by auto
    qed
    moreover have "q \<in> reach A (tables s) (Suc l) p \<and> q \<notin> reach A (tables s') (Suc l) p"
      if q: "q \<in> reach A (tables s) l c" "q \<notin> reach A (tables s') l c" for q
    proof -
      have "q \<notin> reach A (tables s') (Suc l) p"
      proof
        assume "q \<in> reach A (tables s') (Suc l) p"
        then obtain j where j: "j < 512" "istable A (Suc l) (tables s p j)"
            "q \<in> reach A (tables s') l (entry_phys A (tables s p j) (Suc l))" using q(1) ch(2) p(1) by auto
        then have "j \<noteq> i" using q(2) c by auto
        then show False using oth [OF j(1) _ j(2)] ch(3) [OF j(1) _ j(2)] j(3) q(1) by blast
      qed
      then show ?thesis using q(1) sub by blast
    qed
    ultimately have "reach A (tables s) (Suc l) p - reach A (tables s') (Suc l) p
        = reach A (tables s) l c - reach A (tables s') l c" by blast
    then show ?thesis using fr unfolding frees_def by simp
  qed
  show "pruned A (tables s') va (Suc l) p = pruned A (tables s) va (Suc l) p" if "table_index va (Suc l) \<noteq> i"
    by (rule pruned_child) (use p(1) o [OF table_index_less that] in auto)
  show "hw_walk A (tables s') va (Suc l) p = (if table_index va (Suc l) = i
      then hw_walk A (tables s') va l c else hw_walk A (tables s) va (Suc l) p)" by (rule r(3))
qed

section \<open>Clearing entries\<close>

lemma reach_clear:
  assumes t: "tree A T (Suc l) p" and i: "i < 512" "istable A (Suc l) (T p i)"
    and p: "\<And>j. j \<noteq> i \<Longrightarrow> T' p j = T p j" "\<not> istable A (Suc l) (T' p i)"
    and o: "\<And>q. \<lbrakk>q \<in> reach A T (Suc l) p; q \<noteq> p\<rbrakk> \<Longrightarrow> T' q = T q"
  shows "reach A T' (Suc l) p \<inter> reach A T l (entry_phys A (T p i) (Suc l)) = {}"
proof -
  note ch = tree_child [OF t i]
  have "q \<notin> reach A T l (entry_phys A (T p i) (Suc l))"
    if j: "j < 512" "istable A (Suc l) (T' p j)" "q \<in> reach A T' l (entry_phys A (T' p j) (Suc l))" for j q
  proof -
    have ji: "j \<noteq> i" using j(2) p(2) by blast
    have j': "istable A (Suc l) (T p j)" "T' p j = T p j" using j(2) p(1) [OF ji] by simp_all
    have "reach A T' l (entry_phys A (T p j) (Suc l)) = reach A T l (entry_phys A (T p j) (Suc l))"
      by (rule walk_cong(2), rule o)
        (use reach_child [where T = T and p = p, OF j(1) j'(1)] tree_child(2) [OF t j(1) j'(1)] in blast)+
    then show ?thesis using ch(3) [OF j(1) ji j'(1)] j(3) j'(2) by auto
  qed
  then show ?thesis using ch(2) by auto
qed

context pte_encoding
begin

lemma clear_entry_ok:
  assumes sys: "sys_ok s" and ok: "sub_ok A s l p"
    and T: "tables s' = (tables s)(p := (tables s p)(i := 0))"
    and M: "\<And>x. x \<noteq> p div PAGE_SIZE \<Longrightarrow> metadata s' x = metadata s x"
      "\<And>j. j \<noteq> i \<Longrightarrow> stat (metadata s') p j = stat (metadata s) p j" "\<not> is_Mapped (stat (metadata s') p i)"
    and f: "frame_st s' = frame_st s" "active_root s' = active_root s" "page_bytes s' = page_bytes s"
  shows "shrinks A l p s s'"
    and "hw_walk A (tables s') va l p = (if table_index va l = i then None else hw_walk A (tables s) va l p)"
    and "pruned A (tables s') va l p \<longleftrightarrow> table_index va l = i \<or> pruned A (tables s) va l p"
    and "\<not> istable A l (tables s p i) \<Longrightarrow> frees A l p s s'"
proof -
  note sd = sub_okD [OF ok]
  have dp: "desc_ok p" using sd(3) by blast
  have so: "stat (metadata s') q = stat (metadata s) q" if "desc_ok q" "q \<noteq> p" for q
    by (rule stat_other [OF _ dp that]) (rule M(1))
  have T': "\<And>j. j \<noteq> i \<Longrightarrow> tables s' p j = tables s p j" "\<And>q. q \<noteq> p \<Longrightarrow> tables s' q = tables s q"
    using T by simp_all
  have e: "\<not> istable A l (tables s' p i)" using T by (simp add: istable_def)
  have r: "tree A (tables s') l p" "reach A (tables s') l p \<subseteq> reach A (tables s) l p"
    "\<And>va'. table_index va' l \<noteq> i \<Longrightarrow> hw_walk A (tables s') va' l p = hw_walk A (tables s) va' l p"
    by (rule replace_leaf [where T' = "tables s'" and i = i, OF sd(1) e]; blast intro: T')+
  have m: "meta_ok A (tables s') (metadata s') l p"
  proof (cases l)
    case 0
    have "is_Mapped (stat (metadata s') p j) \<longrightarrow> entry_present A (tables s' p j)" if "j < 512" for j
      using sd(2) T'(1) [of j] M(2) [of j] M(3) that by (cases "j = i") (simp_all add: 0)
    then show ?thesis by (simp add: 0)
  next
    case (Suc k)
    show ?thesis unfolding Suc
    proof (rule meta_replace [OF sd(2) [unfolded Suc], where i = i])
      show "tables s' p j = tables s p j \<and> stat (metadata s') p j = stat (metadata s) p j" if "j \<noteq> i" for j
        using that by (simp add: T'(1) M(2))
      show "istable A (Suc k) (tables s' p i) \<longrightarrow>
          meta_ok A (tables s') (metadata s') k (entry_phys A (tables s' p i) (Suc k))"
        using e Suc by simp
      show "tables s' q = tables s q \<and> stat (metadata s') q = stat (metadata s) q"
        if j: "j < 512" "istable A (Suc k) (tables s p j)"
          and q: "q \<in> reach A (tables s) k (entry_phys A (tables s p j) (Suc k))" for j q
      proof -
        have "q \<noteq> p" using tree_child(2) [OF sd(1) [unfolded Suc] j] q by blast
        moreover have "desc_ok q"
          using sd(3) reach_child [where T = "tables s" and p = p, OF j q] by (simp add: Suc)
        ultimately show ?thesis using so [of q] T'(2) [of q] by simp
      qed
    qed (use M(3) in blast)
  qed
  have pn: "p div PAGE_SIZE \<notin> free_ppns (frame_st s)" using ok unfolding sub_ok_def by blast
  then have "clear_meta (metadata s') x" if "x \<in> free_ppns (frame_st s')" for x
    using sys M(1) [of x] that f(1) by (metis sys_ok_def clear_meta_cong)
  then have "sys_ok s'" using sys f(1) by (simp add: sys_ok_def)
  moreover have "sub_ok A s' l p" unfolding sub_ok_def f(1) using r(1,2) m ok unfolding sub_ok_def by blast
  moreover have "tables s' q = tables s q \<and> stat (metadata s') q = stat (metadata s) q"
    if "desc_ok q" "q \<notin> reach A (tables s) l p" for q
  proof -
    have "q \<noteq> p" using that(2) by auto
    then show ?thesis using so [OF that(1)] T'(2) by simp
  qed
  moreover have "child_mono A l p s s'"
    unfolding child_mono_def
  proof (intro allI impI, elim conjE)
    fix j assume j: "j < 512" "0 < l" "istable A l (tables s' p j)"
    then obtain k where k: "l = Suc k" by (cases l) auto
    have ji: "j \<noteq> i" using j(3) e by blast
    have j': "istable A (Suc k) (tables s p j)" using j(3) T'(1) [OF ji] k by simp
    have "reach A (tables s') k (entry_phys A (tables s p j) (Suc k))
        = reach A (tables s) k (entry_phys A (tables s p j) (Suc k))"
      by (rule walk_cong(2), rule T'(2)) (use tree_child(2) [OF sd(1) [unfolded k] j(1) j'] in blast)
    then show "istable A l (tables s p j) \<and> entry_phys A (tables s' p j) l = entry_phys A (tables s p j) l \<and>
        reach A (tables s') (l - 1) (entry_phys A (tables s p j) l)
          \<subseteq> reach A (tables s) (l - 1) (entry_phys A (tables s p j) l)"
      using j' T'(1) [OF ji] k by simp
  qed
  ultimately show "shrinks A l p s s'" unfolding shrinks_def using r(2) f by simp
  show "hw_walk A (tables s') va l p = (if table_index va l = i then None else hw_walk A (tables s) va l p)"
  proof (cases "table_index va l = i")
    case True
    then show ?thesis using T by (cases l) (simp_all add: Let_def)
  qed (simp add: r(3))
  have sub: "T' q = tables s q" if "q \<in> reach A (tables s) k (entry_phys A (tables s p j) (Suc k))"
      "l = Suc k" "j < 512" "istable A (Suc k) (tables s p j)" "T' = tables s'" for T' q j k
    unfolding that(5) by (rule T'(2)) (use that(1) tree_child(2) [OF sd(1) [unfolded that(2)] that(3,4)] in blast)
  show "pruned A (tables s') va l p \<longleftrightarrow> table_index va l = i \<or> pruned A (tables s) va l p"
  proof (cases l)
    case (Suc k)
    show ?thesis
    proof (cases "table_index va l = i")
      case True
      then show ?thesis using e by (simp add: Suc Let_def)
    next
      case False
      have "pruned A (tables s') va (Suc k) p = pruned A (tables s) va (Suc k) p"
        by (rule pruned_child, rule T'(1), use False Suc in simp, erule sub [OF _ Suc table_index_less _ refl])
      then show ?thesis using False by (simp add: Suc del: pruned.simps)
    qed
  qed simp
  show "frees A l p s s'" if "\<not> istable A l (tables s p i)"
  proof -
    have "reach A (tables s') l p = reach A (tables s) l p"
    proof (cases l)
      case (Suc k)
      have eq: "istable A (Suc k) (tables s' p j) \<longleftrightarrow> istable A (Suc k) (tables s p j)" for j
        using e that T'(1) [of j] by (cases "j = i") (simp_all add: Suc)
      have "reach A (tables s') k (entry_phys A (tables s' p j) (Suc k))
          = reach A (tables s) k (entry_phys A (tables s p j) (Suc k))"
        if j: "j < 512" "istable A (Suc k) (tables s p j)" for j
      proof -
        have "j \<noteq> i" using j(2) \<open>\<not> istable A l (tables s p i)\<close> by (auto simp: Suc)
        then have "tables s' p j = tables s p j" by (rule T'(1))
        then show ?thesis using walk_cong(2) [OF sub [OF _ Suc j refl]] by simp
      qed
      then show ?thesis using eq by (auto simp: Suc)
    qed simp
    then show ?thesis by (simp add: frees_def f(1))
  qed
qed

lemma clear_leaf_ok:
  assumes sys: "sys_ok s" and ok: "sub_ok A s l p" and lk: "locks_ok (c, s)" and lf: "\<not> istable A l (tables s p i)"
  obtains n' s' where "clear_leaf p i sp (n, c, s) = Inr (n', c, s')" "locks_ok (c, s')" "shrinks A l p s s'"
    "\<And>va. hw_walk A (tables s') va l p = (if table_index va l = i then None else hw_walk A (tables s) va l p)"
    "\<And>va. pruned A (tables s') va l p \<longleftrightarrow> table_index va l = i \<or> pruned A (tables s) va l p" "frees A l p s s'"
proof -
  define s' where "s' = set_status (p div 4096) i Invalid (set_entry p i 0 s)"
  have dp: "desc_ok p" using sub_okD(3) [OF ok] by blast
  have run: "clear_leaf p i sp (n, c, s) = Inr (usize_add n (sp div PAGE_SIZE), c, s')"
    using descriptor_of_ok [OF dp] by (simp add: clear_leaf_def s'_def Let_def)
  have T: "tables s' = (tables s)(p := (tables s p)(i := 0))"
    by (simp add: s'_def metadata_set_status set_entry_def)
  have st: "stat (metadata s') p = (stat (metadata s) p)(i := Invalid)"
    by (simp add: s'_def stat_set_status) (simp add: set_entry_def)
  have M: "metadata s' x = metadata s x" if "x \<noteq> p div PAGE_SIZE" for x
    using that by (simp add: s'_def metadata_set_status) (simp add: set_entry_def)
  have f: "frame_st s' = frame_st s" "active_root s' = active_root s" "page_bytes s' = page_bytes s"
    "dlock s' = dlock s"
    by (simp_all add: s'_def metadata_set_status set_entry_def)
  have sh: "shrinks A l p s s'" "hw_walk A (tables s') va l p =
      (if table_index va l = i then None else hw_walk A (tables s) va l p)"
      "pruned A (tables s') va l p \<longleftrightarrow> table_index va l = i \<or> pruned A (tables s) va l p"
      "\<not> istable A l (tables s p i) \<Longrightarrow> frees A l p s s'" for va
    by (rule clear_entry_ok [OF sys ok T _ _ _ f(1-3)], erule M, simp add: st, simp add: st, assumption?)+
  have "locks_ok (c, s')" using lk f(4) by (simp add: locks_ok_def)
  then show thesis by (rule that [OF run _ sh(1-3) sh(4) [OF lf]])
qed

lemma reap_child_ok:
  assumes sys: "sys_ok s" and ok: "sub_ok A s (Suc l) p"
    and mg: "ch div PAGE_SIZE \<in> managed_ppns (frame_st s)" and lk: "locks_ok (c, s)" and i: "i < 512" "istable A (Suc l) (tables s p i)"
    and ch: "entry_phys A (tables s p i) (Suc l) = ch"
  obtains c' s' where "reap_child p i ch (n, c, s) = Inr (n, c', s')" "locks_ok (c', s')"
    "space_root c' = space_root c" "shrinks A (Suc l) p s s'"
    "\<And>va. hw_walk A (tables s') va (Suc l) p = hw_walk A (tables s) va (Suc l) p" "frees A (Suc l) p s s'"
    "\<And>va. if table_index va (Suc l) = i then pruned A (tables s) va l ch \<longrightarrow> pruned A (tables s') va (Suc l) p
       else pruned A (tables s') va (Suc l) p = pruned A (tables s) va (Suc l) p"
proof (cases "list_all (\<lambda>i. tables s ch i = 0) [0..<PT_ENTRIES]")
  case False
  then show thesis
    using lk shrinks_refl [OF sys ok] ch
    by (intro that [of c s]) (auto simp: reap_child_def list_all_iff Let_def)
next
  case True
  then have z: "\<And>j. j < 512 \<Longrightarrow> tables s ch j = 0" by (simp add: list_all_iff)
  note sd = sub_okD [OF ok]
  have och: "sub_ok A s l ch" using sub_ok_child [OF ok i] ch by simp
  have dch: "desc_ok ch" using sub_okD(3) [OF och] by blast
  have dp: "desc_ok p" using sd(3) by blast
  have pch: "p \<noteq> ch" using tree_child(2) [OF sd(1) i] ch by auto
  have nf: "ch div PAGE_SIZE \<notin> free_ppns (frame_st s)" using och unfolding sub_ok_def by blast
  have rch: "reach A (tables s) l ch = {ch}" using z by (cases l) (auto simp: istable_def)
  define s1 where "s1 = drop_metadata (ch div 4096) s"
  have inv1: "frame_inv (frame_st s1)" using sys by (simp add: sys_ok_def s1_def drop_metadata_def)
  obtain f where f: "free_frames ch 1 s1 = Inr (s1\<lparr>frame_st := f\<rparr>)" "frame_inv f"
      "free_ppns f = insert (ch div PAGE_SIZE) (free_ppns (frame_st s))"
      "managed_ppns f = managed_ppns (frame_st s)"
    using free_page_ok [OF inv1 dch] mg nf by (auto simp: s1_def drop_metadata_def)
  \<comment> \<open>the parent's entry is cleared, then the child is dropped\<close>
  define s2 where "s2 = set_entry p i 0 s"
  have T2: "tables s2 = (tables s)(p := (tables s p)(i := 0))" "metadata s2 = metadata s"
    by (simp_all add: s2_def set_entry_def)
  have st2: "\<not> is_Mapped (stat (metadata s2) p i)"
    using sd(2) i by (auto simp: T2(2) istable_def)
  have cl: "shrinks A (Suc l) p s s2" "hw_walk A (tables s2) va (Suc l) p =
      (if table_index va (Suc l) = i then None else hw_walk A (tables s) va (Suc l) p)"
      "pruned A (tables s2) va (Suc l) p \<longleftrightarrow> table_index va (Suc l) = i \<or> pruned A (tables s) va (Suc l) p" for va
    by (rule clear_entry_ok [OF sys ok T2(1) _ _ st2]; simp add: T2(2) s2_def set_entry_def)+
  note g = shrinksD [OF cl(1)]
  have nr: "ch \<notin> reach A (tables s2) (Suc l) p"
    using reach_clear [OF sd(1) i, of "tables s2"] rch ch T2(1) by (auto simp: istable_def)
  define s' where "s' = set_entry p i 0 (if ch \<in> set (locked c) then release (ch div 4096) (s1\<lparr>frame_st := f\<rparr>)
      else s1\<lparr>frame_st := f\<rparr>)"
  define c' where "c' = c\<lparr>locked := filter (\<lambda>held. held \<noteq> ch) (locked c)\<rparr>"
  have fs: "frame_st s' = f" "tables s' = tables s2" "metadata s' = (metadata s)(ch div 4096 := None)"
    "active_root s' = active_root s" "page_bytes s' = page_bytes s"
    by (simp_all add: s'_def set_entry_def release_def s1_def drop_metadata_def s2_def)
  have so: "stat (metadata s') q = stat (metadata s2) q" if "desc_ok q" "q \<noteq> ch" for q
    by (rule stat_other [OF _ dch that]) (simp add: fs(3) T2(2))
  have sub': "sub_ok A s' (Suc l) p"
  proof -
    have "meta_ok A (tables s') (metadata s') (Suc l) p = meta_ok A (tables s2) (metadata s2) (Suc l) p"
    proof (rule meta_cong)
      fix q assume q: "q \<in> reach A (tables s2) (Suc l) p"
      then have "desc_ok q" "q \<noteq> ch" using sub_okD(3) [OF g(2)] nr by blast+
      then show "tables s' q = tables s2 q \<and> stat (metadata s') q = stat (metadata s2) q"
        using so by (simp add: fs(2))
    qed
    moreover have "desc_ok q \<and> q div PAGE_SIZE \<notin> free_ppns f"
      if q: "q \<in> reach A (tables s2) (Suc l) p" for q
    proof -
      have d: "desc_ok q" "q \<noteq> ch" using sub_okD(3) [OF g(2)] nr q by blast+
      then have "q div PAGE_SIZE \<noteq> ch div PAGE_SIZE" using desc_inj [OF d(1) dch] by blast
      moreover have "frame_st s2 = frame_st s" by (simp add: s2_def set_entry_def)
      then have "q div PAGE_SIZE \<notin> free_ppns (frame_st s)" using g(2) q unfolding sub_ok_def by auto
      ultimately show ?thesis using f(3) d(1) by simp
    qed
    ultimately show ?thesis
      using g(2) unfolding sub_ok_def fs(1,2) by blast
  qed
  have "sys_ok s'"
    using sys f(2-4) by (auto simp: sys_ok_def fs clear_meta_def)
  moreover have "tables s' q = tables s q \<and> stat (metadata s') q = stat (metadata s) q"
    if q: "desc_ok q" "q \<notin> reach A (tables s) (Suc l) p" for q
  proof -
    have "ch \<in> reach A (tables s) (Suc l) p"
      using reach_child [where T = "tables s" and p = p, OF i, of ch] ch by simp
    then have "q \<noteq> ch" "q \<noteq> p" using q(2) by auto
    then show ?thesis using so [OF q(1)] g(9) [OF q] by (simp add: fs(2))
  qed
  moreover have "ch \<in> reach A (tables s) (Suc l) p - {p}"
    using reach_child [where T = "tables s" and p = p, OF i, of ch] ch pch by simp
  moreover have "child_mono A (Suc l) p s s'" using g(10) unfolding child_mono_def fs(2) .
  ultimately have "shrinks A (Suc l) p s s'"
    unfolding shrinks_def using sub' g(3) fs f(3,4) by auto
  moreover have "frees A (Suc l) p s s'"
  proof -
    have "reach A (tables s) (Suc l) p - reach A (tables s2) (Suc l) p = {ch}"
    proof (intro equalityI subsetI)
      fix q assume "q \<in> {ch}"
      then show "q \<in> reach A (tables s) (Suc l) p - reach A (tables s2) (Suc l) p"
        using nr reach_child [where T = "tables s" and p = p, OF i, of ch] ch by simp
    next
      fix q assume q: "q \<in> reach A (tables s) (Suc l) p - reach A (tables s2) (Suc l) p"
      then have qp: "q \<noteq> p" by auto
      with q obtain j where j: "j < 512" "istable A (Suc l) (tables s p j)"
          "q \<in> reach A (tables s) l (entry_phys A (tables s p j) (Suc l))" by auto
      show "q \<in> {ch}"
      proof (cases "j = i")
        case True
        then show ?thesis using j(3) ch rch by simp
      next
        case False
        have "tables s2 r = tables s r" if "r \<in> reach A (tables s) l (entry_phys A (tables s p j) (Suc l))" for r
        proof -
          have "r \<noteq> p" using tree_child(2) [OF sd(1) j(1,2)] that by blast
          then show ?thesis by (simp add: T2(1))
        qed
        then have "reach A (tables s2) l (entry_phys A (tables s p j) (Suc l))
            = reach A (tables s) l (entry_phys A (tables s p j) (Suc l))" by (rule walk_cong(2))
        then have "q \<in> reach A (tables s2) (Suc l) p"
          using reach_child [of j A l "tables s2" p q] j False by (simp add: T2(1))
        then show ?thesis using q by blast
      qed
    qed
    then show ?thesis using f(3) by (simp add: frees_def fs ppn_def del: reach.simps)
  qed
  moreover have "if table_index va (Suc l) = i then pruned A (tables s) va l ch \<longrightarrow> pruned A (tables s') va (Suc l) p
       else pruned A (tables s') va (Suc l) p = pruned A (tables s) va (Suc l) p" for va
    using cl(3) [of va] by (simp add: fs(2) del: pruned.simps)
  moreover have "hw_walk A (tables s') va (Suc l) p = hw_walk A (tables s) va (Suc l) p" for va
  proof (cases "table_index va (Suc l) = i")
    case True
    have "hw_walk A (tables s) va l ch = None" using z by (cases l) (simp_all add: Let_def)
    then show ?thesis using cl(2) [of va] True i ch by (simp add: fs(2) istable_def Let_def)
  next
    case False
    then show ?thesis using cl(2) [of va] by (simp add: fs(2))
  qed
  moreover have "reap_child p i ch (n, c, s) = Inr (n, c', s')"
    using True descriptor_of_ok [OF dch] f(1)
    by (simp add: reap_child_def Let_def s1_def c'_def s'_def)
  moreover have "locks_ok (c', s')"
  proof -
    have dl: "dlock s' d \<longleftrightarrow> dlock s d \<and> (ch \<in> set (locked c) \<longrightarrow> d \<noteq> ch div 4096)" for d
      by (simp add: s'_def set_entry_def release_def s1_def drop_metadata_def)
    have al: "q mod 4096 = 0" if "q \<in> set (locked c)" for q using lk that by (simp add: locks_ok_def)
    have inj: "q = ch" if "q \<in> set (locked c)" "q div 4096 = ch div 4096" for q
      using aligned_div_inj [OF al [OF that(1)] _ that(2)] dch by (simp add: desc_ok_def)
    show ?thesis
      using lk inj unfolding locks_ok_def fst_conv snd_conv dl c'_def PAGE_SIZE_def by auto
  qed
  moreover have "space_root c' = space_root c" by (simp add: c'_def)
  ultimately show thesis by (intro that [of c' s'])
qed

end

section \<open>Ranges\<close>

text \<open>
  Whether unmapping \<open>[a, b)\<close> removes the mapping of \<open>va\<close>: a base page that meets the range, or
  a larger leaf that lies inside it.
\<close>

definition hit :: "usize \<Rightarrow> usize \<Rightarrow> usize \<Rightarrow> (usize \<times> usize \<times> usize) option \<Rightarrow> bool" where
  "hit a b va w = (case w of None \<Rightarrow> False
     | Some (ph, f, g) \<Rightarrow> let r = va - va mod g in
         if g = span 0 then r < b \<and> a < r + g else a \<le> r \<and> r + g \<le> b)"

definition cut ::
  "usize \<Rightarrow> usize \<Rightarrow> usize \<Rightarrow> (usize \<times> usize \<times> usize) option \<Rightarrow> (usize \<times> usize \<times> usize) option" where
  "cut a b va w = (if hit a b va w then None else w)"

lemma hit_None [simp]: "\<not> hit a b va None" "cut a b va None = None"
  by (simp_all add: hit_def cut_def)

lemma for_list_steps:
  assumes "\<And>i t. \<lbrakk>i \<in> set is; I t\<rbrakk> \<Longrightarrow> \<exists>t'. f i t = Inr t' \<and> I t' \<and>
      (\<forall>x \<in> D. obs t' x = (if key x = i then g x (obs t x) else obs t x))"
    and "distinct is" "I t"
  shows "\<exists>t'. for_list f is t = Inr t' \<and> I t' \<and>
    (\<forall>x \<in> D. obs t' x = (if key x \<in> set is then g x (obs t x) else obs t x))"
  using assms
proof (induction "is" arbitrary: t)
  case (Cons i xs)
  obtain t1 where t1: "f i t = Inr t1" "I t1"
      "\<forall>x \<in> D. obs t1 x = (if key x = i then g x (obs t x) else obs t x)"
    using Cons.prems(1) [of i t] Cons.prems(3) by auto
  obtain t2 where t2: "for_list f xs t1 = Inr t2" "I t2"
      "\<forall>x \<in> D. obs t2 x = (if key x \<in> set xs then g x (obs t1 x) else obs t1 x)"
    using Cons.IH [of t1] Cons.prems(1,2) t1(2) by force
  have "\<forall>x \<in> D. obs t2 x = (if key x \<in> set (i # xs) then g x (obs t x) else obs t x)"
    using t1(3) t2(3) Cons.prems(2) by auto
  then show ?case using t1(1) t2(1,2) by auto
qed auto

text \<open>Indices inside a region of 512 entries that starts at \<open>b\<close>.\<close>

lemma region_index:
  assumes l: "l < 4" and b: "b mod span (Suc l) = 0" and x: "b \<le> x" "x < b + span (Suc l)"
  shows "table_index x l * span l \<le> x - b" "x - b < table_index x l * span l + span l"
    "x - x mod span l = b + table_index x l * span l"
proof -
  obtain q where q: "b = span l * 512 * q"
    using b l unfolding span_Suc [OF l] mod_eq_0_iff_dvd by (metis dvdE mult.commute)
  have S: "0 < span l" using l by (simp add: span_pos)
  define y where "y = x - b"
  have xy: "x = y + b" "y < 512 * span l" using x l by (simp_all add: y_def span_Suc)
  have "x div span l = y div span l + 512 * q" using S by (simp add: xy q mult.assoc)
  moreover have "y div span l < 512" using xy(2) S by (simp add: div_less_iff_less_mult)
  ultimately have i: "table_index x l = y div span l"
    using l by (simp add: table_index_def pn_index_eq span_eq)
  have m: "x mod span l = y mod span l" by (simp add: xy q mult.assoc)
  show "table_index x l * span l \<le> x - b" by (simp add: i y_def [symmetric])
  show "x - b < table_index x l * span l + span l"
    using div_mod_decomp [of y "span l"] mod_less_divisor [OF S, of y]
    unfolding i y_def [symmetric] by linarith
  show "x - x mod span l = b + table_index x l * span l"
    using div_mod_decomp [of y "span l"] xy(1) unfolding m i by linarith
qed

lemma region_range:
  assumes l: "l < 4" and b: "b mod span (Suc l) = 0" and a: "b \<le> a" "a < e" "e \<le> b + span (Suc l)"
  shows "table_index a l \<le> i \<and> i \<le> table_index (e - 1) l \<longleftrightarrow> b + i * span l < e \<and> a < b + i * span l + span l"
proof -
  have S: "0 < span l" using l by (simp add: span_pos)
  have ia: "table_index a l * span l \<le> a - b" "a - b < table_index a l * span l + span l"
    and ie: "table_index (e - 1) l * span l \<le> e - 1 - b" "e - 1 - b < table_index (e - 1) l * span l + span l"
    using region_index [OF l b, of a] region_index [OF l b, of "e - 1"] a by simp_all
  have "table_index a l \<le> i \<longleftrightarrow> a < b + i * span l + span l"
  proof
    assume "table_index a l \<le> i"
    then have "table_index a l * span l \<le> i * span l" by simp
    then show "a < b + i * span l + span l" using ia(2) a(1) by linarith
  next
    assume "a < b + i * span l + span l"
    then have "table_index a l * span l < Suc i * span l" using ia(1) a(1) unfolding mult_Suc by linarith
    then show "table_index a l \<le> i" unfolding mult_less_cancel2 by simp
  qed
  moreover have "i \<le> table_index (e - 1) l \<longleftrightarrow> b + i * span l < e"
  proof
    assume "i \<le> table_index (e - 1) l"
    then have "i * span l \<le> table_index (e - 1) l * span l" by simp
    then show "b + i * span l < e" using ie(1) a by linarith
  next
    assume "b + i * span l < e"
    then have "i * span l < Suc (table_index (e - 1) l) * span l"
      using ie(2) a unfolding mult_Suc by linarith
    then show "i \<le> table_index (e - 1) l" unfolding mult_less_cancel2 by simp
  qed
  ultimately show ?thesis by blast
qed

lemma walk_span: "hw_walk A T va l p = Some (ph, f, g) \<Longrightarrow> \<exists>j \<le> l. g = span j"
proof (induction l arbitrary: p)
  case (Suc l)
  then show ?case by (auto simp: Let_def split: if_splits intro: le_SucI)
qed (auto simp: Let_def split: if_splits)

lemma span_dvd: "j \<le> l \<Longrightarrow> l < 5 \<Longrightarrow> span j dvd span l"
  by (simp add: span_eq le_imp_power_dvd)

text \<open>The leaf that covers \<open>x\<close> lies inside the entry that covers \<open>x\<close>.\<close>

lemma leaf_region:
  assumes l: "l < 4" and b: "b mod span (Suc l) = 0" and x: "b \<le> x" "x < b + span (Suc l)"
    and w: "hw_walk A T x l p = Some (ph, f, g)"
  shows "b + table_index x l * span l \<le> x - x mod g"
    "x - x mod g + g \<le> b + table_index x l * span l + span l"
proof -
  obtain j where j: "j \<le> l" "g = span j" using walk_span [OF w] by blast
  have g: "0 < g" using j l by (simp add: span_pos)
  have dv: "g dvd span l" unfolding j(2) by (rule span_dvd [OF j(1)]) (use l in simp)
  then have "x mod span l mod g = x mod g" by (rule mod_mod_cancel)
  then have "x mod g \<le> x mod span l" by (metis mod_less_eq_dividend)
  then show "b + table_index x l * span l \<le> x - x mod g"
    using region_index(3) [OF l b x] by linarith
  define es where "es = b + table_index x l * span l"
  have "g dvd b" using dv b l span_dvd [of l "Suc l"] by (auto intro: dvd_trans)
  then have "g dvd es + span l" unfolding es_def using dv by (intro dvd_add dvd_mult)
  moreover have "g dvd x - x mod g" by (simp add: minus_mod_eq_div_mult)
  moreover have "x - x mod g < es + span l"
    using region_index(2) [OF l b x] x unfolding es_def by linarith
  ultimately have "x - x mod g + g \<le> es + span l"
    by (elim dvdE) (metis Suc_leI g mult_Suc_right mult_le_mono2 nat_mult_less_cancel_disj add.commute)
  then show "x - x mod g + g \<le> b + table_index x l * span l + span l" by (simp add: es_def)
qed

lemma hit_outside:
  assumes l: "l < 4" and b: "b mod span (Suc l) = 0" and a: "b \<le> a" "a < e" "e \<le> b + span (Suc l)"
    and x: "b \<le> x" "x < b + span (Suc l)"
    and out: "\<not> (table_index a l \<le> table_index x l \<and> table_index x l \<le> table_index (e - 1) l)"
  shows "\<not> hit a e x (hw_walk A T x l p)"
proof (cases "hw_walk A T x l p")
  case (Some w)
  obtain ph f g where w: "w = (ph, f, g)" by (cases w)
  obtain j where "j \<le> l" "g = span j" using walk_span [OF Some [unfolded w]] by blast
  then have g: "0 < g" using l by (simp add: span_pos)
  note r = leaf_region [OF l b x Some [unfolded w]]
  define y where "y = x - x mod g"
  have "\<not> (b + table_index x l * span l < e \<and> a < b + table_index x l * span l + span l)"
    using out region_range [OF l b a, of "table_index x l"] by blast
  then show ?thesis
    using r g unfolding Some w hit_def Let_def option.case prod.case y_def [symmetric] by auto
qed simp

lemma hit_clip:
  assumes l: "l < 4" and b: "b mod span (Suc l) = 0" and x: "b \<le> x" "x < b + span (Suc l)"
    and w: "hw_walk A T x l p = Some (ph, f, g)"
  defines "es \<equiv> b + table_index x l * span l"
  shows "hit (max a es) (min e (es + span l)) x (Some (ph, f, g)) = hit a e x (Some (ph, f, g))"
proof -
  obtain j where "j \<le> l" "g = span j" using walk_span [OF w] by blast
  then have g: "0 < g" using l by (simp add: span_pos)
  have r: "es \<le> x - x mod g" "x - x mod g + g \<le> es + span l"
    using leaf_region [OF l b x w] by (simp_all add: es_def)
  define y where "y = x - x mod g"
  show ?thesis
    using r g unfolding hit_def Let_def option.case prod.case y_def [symmetric] by auto
qed

section \<open>Unmapping a range\<close>

definition va_region :: "nat \<Rightarrow> usize \<Rightarrow> usize set" where
  "va_region l b = {x. b \<le> x \<and> x < b + span (Suc l)}"

definition range_ok :: "nat \<Rightarrow> usize \<Rightarrow> usize \<Rightarrow> usize \<Rightarrow> bool" where
  "range_ok l b a e \<longleftrightarrow> l < 4 \<and> b mod span (Suc l) = 0 \<and> b + span (Suc l) \<le> 2 ^ 48
     \<and> b \<le> a \<and> a < e \<and> e \<le> b + span (Suc l)"

lemma range_okD:
  assumes "range_ok l b a e"
  shows "l < 4" "b mod span (Suc l) = 0" "b \<le> a" "a < e" "e \<le> b + span (Suc l)"
    "usize_sub e 1 = e - 1"
    "i < 512 \<Longrightarrow> usize_add b (usize_mul i (span l)) = b + i * span l"
    "i < 512 \<Longrightarrow> usize_add (b + i * span l) (span l) = b + i * span l + span l"
    "i < 512 \<Longrightarrow> b + i * span l + span l \<le> b + span (Suc l)"
proof -
  show *: "l < 4" "b mod span (Suc l) = 0" "b \<le> a" "a < e" "e \<le> b + span (Suc l)"
    using assms by (simp_all add: range_ok_def)
  have lim: "b + span (Suc l) \<le> 2 ^ 48" using assms by (simp add: range_ok_def)
  have i: "b + i * span l + span l \<le> b + span (Suc l)" if "i < 512" for i
  proof -
    have "Suc i * span l \<le> 512 * span l" using that by (intro mult_le_mono1) simp
    then show ?thesis using *(1) by (simp add: span_Suc)
  qed
  then show "i < 512 \<Longrightarrow> b + i * span l + span l \<le> b + span (Suc l)" .
  show "usize_sub e 1 = e - 1" using * lim by (intro usize_sub_eq) (simp_all add: USIZE_LIM_def)
  show "i < 512 \<Longrightarrow> usize_add b (usize_mul i (span l)) = b + i * span l"
    "i < 512 \<Longrightarrow> usize_add (b + i * span l) (span l) = b + i * span l + span l"
    using i [of i] lim by (simp_all add: usize_add_eq usize_mul_eq USIZE_LIM_def)
qed

lemma range_ok_child:
  assumes r: "range_ok (Suc l) b a e" and i: "i < 512" "table_index a (Suc l) \<le> i" "i \<le> table_index (e - 1) (Suc l)"
  shows "range_ok l (b + i * span (Suc l)) (max a (b + i * span (Suc l)))
    (min e (b + i * span (Suc l) + span (Suc l)))"
proof -
  note d = range_okD [OF r]
  have "b + i * span (Suc l) < e \<and> a < b + i * span (Suc l) + span (Suc l)"
    using region_range [OF d(1-5), of i] i by blast
  moreover have "(b + i * span (Suc l)) mod span (Suc l) = 0"
    using d(2) span_Suc [OF d(1)] by (metis dvd_imp_mod_0 dvd_triv_right mod_0_imp_dvd dvd_add dvd_mult2 dvd_refl mult.commute dvd_trans)
  moreover have "b + i * span (Suc l) + span (Suc l) \<le> 2 ^ 48"
    using d(9) [OF i(1)] r unfolding range_ok_def by linarith
  ultimately show ?thesis
    using d(1,4) span_pos [of "Suc l"] unfolding range_ok_def by auto
qed

context pte_encoding
begin

definition keeps :: "nat set \<Rightarrow> nat \<Rightarrow> usize \<Rightarrow> usize \<Rightarrow> mmu \<Rightarrow> nat \<times> txn \<Rightarrow> bool" where
  "keeps I l p r s t \<longleftrightarrow> locks_ok (snd t) \<and> space_root (fst (snd t)) = r \<and> shrinks A l p s (snd (snd t))
     \<and> frees A l p s (snd (snd t)) \<and> owned A (snd (snd t)) l p I"

definition unmapped ::
  "nat set \<Rightarrow> nat \<Rightarrow> usize \<Rightarrow> usize \<Rightarrow> usize \<Rightarrow> usize \<Rightarrow> txn \<Rightarrow> fault + nat \<times> txn \<Rightarrow> bool" where
  "unmapped I l p b a e t res \<longleftrightarrow> (\<exists>t'. res = Inr t' \<and> keeps I l p (space_root (fst t)) (snd t) t' \<and>
     (\<forall>x \<in> va_region l b. hw_walk A (tables (snd (snd t'))) x l p = cut a e x (hw_walk A (tables (snd t)) x l p) \<and>
        (a \<le> x \<and> x < e \<longrightarrow> pruned A (tables (snd (snd t'))) x l p)))"

text \<open>The entry \<open>i\<close> of the root has been treated.\<close>

definition entry_done ::
  "usize \<Rightarrow> usize \<Rightarrow> usize \<Rightarrow> nat \<Rightarrow> usize \<Rightarrow> nat \<Rightarrow> mmu \<Rightarrow> mmu \<Rightarrow> bool" where
  "entry_done b a e l p i s s' \<longleftrightarrow> (\<forall>x \<in> va_region l b.
     (if table_index x l = i
      then hw_walk A (tables s') x l p = cut a e x (hw_walk A (tables s) x l p) \<and>
        (a \<le> x \<and> x < e \<longrightarrow> pruned A (tables s') x l p)
      else hw_walk A (tables s') x l p = hw_walk A (tables s) x l p \<and>
        pruned A (tables s') x l p = pruned A (tables s) x l p))"

lemma entry_doneI:
  assumes "\<And>x. \<lbrakk>x \<in> va_region l b; table_index x l = i\<rbrakk> \<Longrightarrow>
      hw_walk A (tables s') x l p = cut a e x (hw_walk A (tables s) x l p)"
    "\<And>x. \<lbrakk>x \<in> va_region l b; table_index x l = i; a \<le> x; x < e\<rbrakk> \<Longrightarrow> pruned A (tables s') x l p"
    "\<And>x. \<lbrakk>x \<in> va_region l b; table_index x l \<noteq> i\<rbrakk> \<Longrightarrow> hw_walk A (tables s') x l p = hw_walk A (tables s) x l p"
    "\<And>x. \<lbrakk>x \<in> va_region l b; table_index x l \<noteq> i\<rbrakk> \<Longrightarrow> pruned A (tables s') x l p = pruned A (tables s) x l p"
  shows "entry_done b a e l p i s s'"
  unfolding entry_done_def using assms by simp

lemma entry_done_same:
  assumes "\<And>x. \<lbrakk>x \<in> va_region l b; table_index x l = i\<rbrakk> \<Longrightarrow> \<not> hit a e x (hw_walk A (tables s) x l p)"
    "\<not> istable A l (tables s p i)"
  shows "entry_done b a e l p i s s"
  by (rule entry_doneI) (use assms in \<open>cases l; auto simp: cut_def Let_def simp del: hw_walk.simps\<close>)+

lemma keeps_refl:
  "\<lbrakk>sys_ok (snd t); sub_ok A (snd t) l p; owned A (snd t) l p I; locks_ok t\<rbrakk> \<Longrightarrow>
     keeps I l p (space_root (fst t)) (snd t) (n, t)"
  by (simp add: keeps_def shrinks_refl)

lemma keeps_fields:
  assumes "keeps I l p r s t"
  shows "locks_ok (snd t)" "space_root (fst (snd t)) = r" "sys_ok (snd (snd t))" "sub_ok A (snd (snd t)) l p"
    "owned A (snd (snd t)) l p I" "shrinks A l p s (snd (snd t))" "frees A l p s (snd (snd t))"
  using assms shrinksD [of A l p s "snd (snd t)"] by (simp_all add: keeps_def)

lemma keeps_step:
  assumes "keeps I l p r s t" "shrinks A l p (snd (snd t)) s'" "locks_ok (c', s')" "space_root c' = r"
    "frees A l p (snd (snd t)) s'"
  shows "keeps I l p r s (n, c', s')"
  using frees_trans [OF keeps_fields(6) [OF assms(1)] assms(2) keeps_fields(7) [OF assms(1)] assms(5)] shrinks_trans [OF keeps_fields(6) [OF assms(1)] assms(2)] owned_shrinks [OF assms(2) keeps_fields(5) [OF assms(1)]]
    assms(3,4) by (simp add: keeps_def)

text \<open>From one step per index to the whole range.\<close>

lemma unmapped_loop:
  assumes rg: "range_ok l b a e" and k: "keeps I l p (space_root (fst t)) (snd t) (n, t)"
    and step: "\<And>i t1. \<lbrakk>table_index a l \<le> i; i \<le> table_index (e - 1) l; i < 512;
        keeps I l p (space_root (fst t)) (snd t) t1\<rbrakk> \<Longrightarrow>
      \<exists>t2. F i t1 = Inr t2 \<and> keeps I l p (space_root (fst t)) (snd t) t2 \<and>
        entry_done b a e l p i (snd (snd t1)) (snd (snd t2))"
  shows "unmapped I l p b a e t (for_list F [table_index a l..<Suc (table_index (usize_sub e 1) l)] (n, t))"
proof -
  note d = range_okD [OF rg]
  let ?is = "[table_index a l..<Suc (table_index (e - 1) l)]"
  let ?T = "\<lambda>t. tables (snd (snd t))"
  let ?obs = "\<lambda>t x. (hw_walk A (?T t) x l p, a \<le> x \<and> x < e \<longrightarrow> pruned A (?T t) x l p)"
  have "\<exists>t'. for_list F ?is (n, t) = Inr t' \<and> keeps I l p (space_root (fst t)) (snd t) t' \<and>
      (\<forall>x \<in> va_region l b. ?obs t' x =
        (if table_index x l \<in> set ?is then (\<lambda>x w. (cut a e x (fst w), True)) x (?obs (n, t) x) else ?obs (n, t) x))"
  proof (rule for_list_steps [where obs = ?obs and g = "\<lambda>x w. (cut a e x (fst w), True)"])
    fix i t1 assume i: "i \<in> set ?is" and k1: "keeps I l p (space_root (fst t)) (snd t) t1"
    have "i \<le> table_index (e - 1) l" using i by auto
    moreover have "i < 512" using table_index_less calculation by (rule order_le_less_trans [rotated])
    ultimately obtain t2 where t2: "F i t1 = Inr t2" "keeps I l p (space_root (fst t)) (snd t) t2"
        "entry_done b a e l p i (snd (snd t1)) (snd (snd t2))"
      using step [of i t1] i k1 by auto
    show "\<exists>t2. F i t1 = Inr t2 \<and> keeps I l p (space_root (fst t)) (snd t) t2 \<and>
        (\<forall>x \<in> va_region l b. ?obs t2 x = (if table_index x l = i then (cut a e x (fst (?obs t1 x)), True) else ?obs t1 x))"
      using t2 unfolding entry_done_def by (intro exI [of _ t2]) (auto split: if_splits)
  qed (use k in simp_all)
  then obtain t' where t': "for_list F ?is (n, t) = Inr t'" "keeps I l p (space_root (fst t)) (snd t) t'"
      "\<And>x. x \<in> va_region l b \<Longrightarrow> ?obs t' x =
        (if table_index x l \<in> set ?is then (cut a e x (fst (?obs (n, t) x)), True) else ?obs (n, t) x)"
    by blast
  have "hw_walk A (?T t') x l p = cut a e x (hw_walk A (tables (snd t)) x l p) \<and>
      (a \<le> x \<and> x < e \<longrightarrow> pruned A (?T t') x l p)"
    if x: "x \<in> va_region l b" for x
  proof (cases "table_index x l \<in> set ?is")
    case True
    then show ?thesis using t'(3) [OF x] by simp
  next
    case False
    have xr: "b \<le> x" "x < b + span (Suc l)" using x by (simp_all add: va_region_def)
    have out: "\<not> (table_index a l \<le> table_index x l \<and> table_index x l \<le> table_index (e - 1) l)" using False by auto
    have "\<not> hit a e x (hw_walk A (tables (snd t)) x l p)" by (rule hit_outside [OF d(1-5) xr out])
    moreover have "\<not> (a \<le> x \<and> x < e)"
      using out region_range [OF d(1-5), of "table_index x l"] region_index(1,2) [OF d(1,2) xr] xr(1) by linarith
    ultimately show ?thesis
      using t'(3) [OF x, unfolded if_not_P [OF False] snd_conv prod.inject] unfolding cut_def by auto
  qed
  then show ?thesis using t'(1,2) unfolding unmapped_def d(6) by blast
qed

text \<open>An entry that is absent, or a leaf that is cleared or kept.\<close>

lemma walk_entry:
  assumes "table_index x l = i" "\<not> istable A l (T p i)"
  shows "hw_walk A T x l p = (if entry_present A (T p i)
    then Some (entry_phys A (T p i) l, T p i, span l) else None)"
  using assms by (cases l) (simp_all add: istable_def Let_def)

lemma leaf_step:
  assumes rg: "range_ok l b a e" and k: "keeps I l p r s (n, c, s1)"
    and i: "i < 512" and e: "entry_present A (tables s1 p i)" "entry_is_leaf A (tables s1 p i) l"
    and fl: "fully \<longleftrightarrow> (if l = 0 then b + i * span l < e \<and> a < b + i * span l + span l
       else a \<le> b + i * span l \<and> b + i * span l + span l \<le> e)"
    and run: "F = (if fully then clear_leaf p i (span l) (n, c, s1) else Inr (n, c, s1))"
  shows "\<exists>t2. F = Inr t2 \<and> keeps I l p r s t2 \<and> entry_done b a e l p i s1 (snd (snd t2))"
proof -
  note d = range_okD [OF rg] and kd = keeps_fields [OF k, simplified]
  have nt: "\<not> istable A l (tables s1 p i)" using e by (simp add: istable_def)
  have sp: "span l = span 0 \<longleftrightarrow> l = 0"
  proof -
    have "span l = 2 ^ (12 + 9 * l)" "span 0 = 2 ^ (12 + 9 * 0)" using d(1) by (intro span_eq; simp)+
    then show ?thesis by (simp only: power_inject_exp one_less_numeral_iff semiring_norm) simp
  qed
  have h: "hit a e x (hw_walk A (tables s1) x l p) \<longleftrightarrow> fully" if x: "x \<in> va_region l b" "table_index x l = i" for x
  proof -
    have y: "x - x mod span l = b + i * span l"
      using region_index(3) [OF d(1,2)] x by (simp add: va_region_def)
    have w: "hw_walk A (tables s1) x l p = Some (entry_phys A (tables s1 p i) l, tables s1 p i, span l)"
      using e walk_entry [of x l i "tables s1" p] x(2) nt by simp
    show ?thesis unfolding w hit_def Let_def option.case prod.case y fl sp by (rule refl)
  qed
  show ?thesis
  proof (cases fully)
    case False
    then show ?thesis
      using run k entry_done_same [OF _ nt, of b a e] h by (intro exI [of _ "(n, c, s1)"]) simp
  next
    case True
    obtain n' s2 where s2: "clear_leaf p i (span l) (n, c, s1) = Inr (n', c, s2)" "locks_ok (c, s2)"
        "shrinks A l p s1 s2" "\<And>va. hw_walk A (tables s2) va l p =
          (if table_index va l = i then None else hw_walk A (tables s1) va l p)"
        "\<And>va. pruned A (tables s2) va l p \<longleftrightarrow> table_index va l = i \<or> pruned A (tables s1) va l p" "frees A l p s1 s2"
      using clear_leaf_ok [OF kd(3,4,1) nt] by metis
    have "keeps I l p r s (n', c, s2)" by (rule keeps_step [OF k]) (use s2 kd(2) in simp_all)
    moreover have "F = Inr (n', c, s2)" using run True s2(1) by simp
    moreover have "entry_done b a e l p i s1 s2" by (rule entry_doneI) (use s2(4,5) h True in \<open>simp_all add: cut_def\<close>)
    ultimately show ?thesis by auto
  qed
qed

lemma unmap_in_ok:
  assumes "range_ok l b a e" "sys_ok s" "sub_ok A s l p" "owned A s l p I" "locks_ok (c, s)"
    "{table_index a l..table_index (e - 1) l} \<subseteq> I"
  shows "unmapped I l p b a e (c, s) (unmap_in A l p b a e (n, c, s))"
  using assms
proof (induction l arbitrary: p b a e s c n I)
  case 0
  note d = range_okD [OF 0(1)]
  have k: "keeps I 0 p (space_root (fst (c, s))) (snd (c, s)) (n, (c, s))"
    using 0 by (intro keeps_refl) simp_all
  show ?case
    unfolding unmap_in.simps
  proof (rule unmapped_loop [OF 0(1) k])
    fix i t1 assume i: "table_index a 0 \<le> i" "i \<le> table_index (e - 1) 0" "i < 512"
      and k1: "keeps I 0 p (space_root (fst (c, s))) (snd (c, s)) t1"
    obtain n1 c1 s1 where t1: "t1 = (n1, c1, s1)" by (cases t1)
    note kd = keeps_fields [OF k1 [unfolded t1], simplified]
    have nt: "\<not> istable A 0 (tables s1 p i)" using sub_okD(1) [OF kd(4)] i(3) by simp
    have rgn: "b + i * span 0 < e \<and> a < b + i * span 0 + span 0"
      using region_range [OF d(1-5), of i] i by blast
    show "\<exists>t2. (\<lambda>index (n, c, s). let entry = tables s p index in
          if \<not> entry_present A entry then Inr (n, c, s)
          else if entry_is_leaf A entry 0 then clear_leaf p index (span 0) (n, c, s)
          else Inr (n, c, s)) i t1 = Inr t2 \<and> keeps I 0 p (space_root (fst (c, s))) (snd (c, s)) t2 \<and>
        entry_done b a e 0 p i (snd (snd t1)) (snd (snd t2))"
    proof (cases "entry_present A (tables s1 p i)")
      case False
      then have "entry_done b a e 0 p i s1 s1"
        using walk_entry [of _ 0 i "tables s1" p] nt by (intro entry_done_same) (simp_all del: hw_walk.simps)
      then show ?thesis using k1 False by (simp add: t1)
    next
      case True
      then have lf: "entry_is_leaf A (tables s1 p i) 0" using nt by (simp add: istable_def)
      show ?thesis
        using leaf_step [OF 0(1) k1 [unfolded t1] i(3) True lf, of True] rgn True lf
        unfolding t1 snd_conv by (simp del: hw_walk.simps split del: if_split)
    qed
  qed
next
  case (Suc l)
  note d = range_okD [OF Suc.prems(1)]
  have k: "keeps I (Suc l) p (space_root (fst (c, s))) (snd (c, s)) (n, (c, s))"
    using Suc.prems by (intro keeps_refl) simp_all
  let ?F = "\<lambda>index (n, c, s). let entry = tables s p index in
        if \<not> entry_present A entry then Inr (n, c, s)
        else
          let entry_start = usize_add b (usize_mul index (span (Suc l)));
              entry_end = usize_add entry_start (span (Suc l));
              fully = (a \<le> entry_start \<and> entry_end \<le> e) in
          if entry_is_leaf A entry (Suc l) then
            (if fully then clear_leaf p index (span (Suc l)) (n, c, s) else Inr (n, c, s))
          else
            let child = entry_phys A entry (Suc l);
                lo = max a entry_start;
                hi = min e entry_end in
            bnd (lock_page child (c, s)) (\<lambda>t.
            bnd (unmap_in A l child entry_start lo hi (n, t)) (reap_child p index child))"
  show ?case
    unfolding unmap_in.simps
  proof (rule unmapped_loop [OF Suc.prems(1) k])
    fix i t1 assume i: "table_index a (Suc l) \<le> i" "i \<le> table_index (e - 1) (Suc l)" "i < 512"
      and k1: "keeps I (Suc l) p (space_root (fst (c, s))) (snd (c, s)) t1"
    obtain n1 c1 s1 where t1: "t1 = (n1, c1, s1)" by (cases t1)
    note kd = keeps_fields [OF k1 [unfolded t1], simplified]
    define es where "es = b + i * span (Suc l)"
    note es = d(7,8) [OF i(3), folded es_def]
    show "\<exists>t2. ?F i t1 = Inr t2 \<and> keeps I (Suc l) p (space_root (fst (c, s))) (snd (c, s)) t2 \<and>
        entry_done b a e (Suc l) p i (snd (snd t1)) (snd (snd t2))"
    proof (cases "istable A (Suc l) (tables s1 p i)")
      case False
      show ?thesis
      proof (cases "entry_present A (tables s1 p i)")
        case True
        then have lf: "entry_is_leaf A (tables s1 p i) (Suc l)" using False by (simp add: istable_def)
        show ?thesis
          using leaf_step [OF Suc.prems(1) k1 [unfolded t1] i(3) True lf, of "a \<le> es \<and> es + span (Suc l) \<le> e"]
            True lf es
          unfolding t1 snd_conv es_def [symmetric]
          by (simp add: Let_def del: hw_walk.simps split del: if_split)
      next
        case absent: False
        then have "entry_done b a e (Suc l) p i s1 s1"
          using walk_entry [of _ "Suc l" i "tables s1" p] False by (intro entry_done_same) (simp_all del: hw_walk.simps)
        then show ?thesis using k1 absent by (simp add: t1)
      qed
    next
      case True
      define ch where "ch = entry_phys A (tables s1 p i) (Suc l)"
      have iI: "i \<in> I" using Suc.prems(6) i(1,2) by auto
      have och: "sub_ok A s1 l ch" "owned A s1 l ch UNIV"
        using sub_ok_child [OF kd(4) i(3) True] owned_child(1) [OF kd(5) iI i(3) True] by (simp_all add: ch_def)
      obtain t2 where t2: "lock_page ch (c1, s1) = Inr t2" "locks_ok t2" "same_txn (c1, s1) t2"
        using lock_page_ok [OF sub_okD(3) [OF och(1) reach_self] kd(1)] by blast
      obtain c2 s2 where t2': "t2 = (c2, s2)" by (cases t2)
      have u: "unlocked s2 = unlocked s1" "space_root c2 = space_root c1"
        using t2(3) by (simp_all add: t2' same_txn_def)
      note ue = unlocked_eqD [OF u(1)]
      have "unmapped UNIV l ch es (max a es) (min e (es + span (Suc l))) (c2, s2)
          (unmap_in A l ch es (max a es) (min e (es + span (Suc l))) (n1, c2, s2))"
      proof (rule Suc.IH)
        show "range_ok l es (max a es) (min e (es + span (Suc l)))"
          unfolding es_def by (rule range_ok_child [OF Suc.prems(1) i(3,1,2)])
      qed (use kd(3) och t2(2) in \<open>simp_all add: t2' sys_ok_def sub_ok_def owned_def ue\<close>)
      then obtain n3 c3 s3 where t3: "unmap_in A l ch es (max a es) (min e (es + span (Suc l))) (n1, c2, s2)
            = Inr (n3, c3, s3)" "keeps UNIV l ch (space_root c2) s2 (n3, c3, s3)"
          "\<And>x. x \<in> va_region l es \<Longrightarrow> hw_walk A (tables s3) x l ch =
             cut (max a es) (min e (es + span (Suc l))) x (hw_walk A (tables s1) x l ch)"
          "\<And>x. \<lbrakk>x \<in> va_region l es; max a es \<le> x; x < min e (es + span (Suc l))\<rbrakk> \<Longrightarrow> pruned A (tables s3) x l ch"
        unfolding unmapped_def by (auto simp: ue simp del: hw_walk.simps pruned.simps)
      note k3 = keeps_fields [OF t3(2), simplified]
      have sh: "shrinks A l ch s1 s3" "frees A l ch s1 s3"
        using shrinks_unlocked [OF k3(6) u(1) refl] k3(7) by (simp_all add: frees_def ue)
      note sc = shrinks_child [OF kd(4) i(3) True ch_def [symmetric] sh(1)]
      have i3: "istable A (Suc l) (tables s3 p i)" "entry_phys A (tables s3 p i) (Suc l) = ch"
        using True sc(3) by (simp_all add: ch_def)
      obtain c4 s4 where t4: "reap_child p i ch (n3, c3, s3) = Inr (n3, c4, s4)" "locks_ok (c4, s4)"
          "space_root c4 = space_root c3" "shrinks A (Suc l) p s3 s4"
          "\<And>va. hw_walk A (tables s4) va (Suc l) p = hw_walk A (tables s3) va (Suc l) p" "frees A (Suc l) p s3 s4"
          "\<And>va. if table_index va (Suc l) = i then pruned A (tables s3) va l ch \<longrightarrow> pruned A (tables s4) va (Suc l) p
             else pruned A (tables s4) va (Suc l) p = pruned A (tables s3) va (Suc l) p"
        using reap_child_ok [OF shrinksD(1,2) [OF sc(1)] _ k3(1) i(3) i3]
          owned_child(2) [OF owned_shrinks [OF sc(1) kd(5)] iI i(3) i3(1)] i3(2) by metis
      have K: "keeps I (Suc l) p (space_root c) s (n3, c4, s4)"
        by (rule keeps_step [OF k1 [unfolded t1, simplified]])
          (use shrinks_trans [OF sc(1) t4(4)] frees_trans [OF sc(1) t4(4) sc(5) [OF sh(2)] t4(6)]
             t4(2,3) k3(2) u(2) kd(2) in simp_all)
      have R: "?F i t1 = Inr (n3, c4, s4)"
        using True t2(1) t3(1) t4(1) es
        by (simp add: t1 t2' Let_def istable_def ch_def [symmetric])
      have in_es: "x \<in> va_region l es" if "x \<in> va_region (Suc l) b" "table_index x (Suc l) = i" for x
        using region_index(1,2) [OF d(1,2), of x] that unfolding va_region_def es_def by auto
      have W: "hw_walk A (tables s4) x (Suc l) p = (if table_index x (Suc l) = i
          then cut a e x (hw_walk A (tables s1) x (Suc l) p) else hw_walk A (tables s1) x (Suc l) p)"
        if x: "x \<in> va_region (Suc l) b" for x
      proof (cases "table_index x (Suc l) = i")
        case ix: True
        have xr: "b \<le> x" "x < b + span (Suc (Suc l))" using x by (simp_all add: va_region_def)
        have "hw_walk A (tables s4) x (Suc l) p
            = cut (max a es) (min e (es + span (Suc l))) x (hw_walk A (tables s1) x l ch)"
          using t4(5) sc(2) [of x] ix t3(3) in_es [OF x ix] by (simp del: hw_walk.simps)
        moreover have w: "hw_walk A (tables s1) x (Suc l) p = hw_walk A (tables s1) x l ch"
          using True ix by (simp add: istable_def ch_def Let_def)
        moreover have "cut (max a es) (min e (es + span (Suc l))) x (hw_walk A (tables s1) x l ch)
            = cut a e x (hw_walk A (tables s1) x l ch)"
        proof (cases "hw_walk A (tables s1) x l ch")
          case (Some w')
          then show ?thesis
            using hit_clip [OF d(1,2) xr, of A "tables s1" p "fst w'" "fst (snd w')" "snd (snd w')" a e] w ix
            by (simp add: cut_def es_def del: hw_walk.simps)
        qed simp
        ultimately show ?thesis using ix by (simp del: hw_walk.simps)
      next
        case False
        then show ?thesis using t4(5) sc(2) [of x] by (simp del: hw_walk.simps)
      qed
      have "entry_done b a e (Suc l) p i s1 s4"
      proof (rule entry_doneI)
        fix x assume x: "x \<in> va_region (Suc l) b" "table_index x (Suc l) = i" "a \<le> x" "x < e"
        have "pruned A (tables s3) x l ch"
          using in_es [OF x(1,2)] x(3,4) by (intro t3(4)) (simp_all add: va_region_def)
        then show "pruned A (tables s4) x (Suc l) p" using t4(7) [of x] x(2) by (simp del: pruned.simps)
      next
        fix x assume "table_index x (Suc l) \<noteq> i"
        then show "pruned A (tables s4) x (Suc l) p = pruned A (tables s1) x (Suc l) p"
          using t4(7) [of x] sc(6) [of x] by (simp del: pruned.simps)
      qed (simp_all add: W del: hw_walk.simps)
      then show ?thesis
        by (intro exI [of _ "(n3, c4, s4)"]) (use R K in \<open>simp add: t1 del: unmap_in.simps\<close>)
    qed
  qed
qed

lemma span_levels: "span (LEVELS A) \<le> 2 ^ 48" "LEVELS A - 1 < 4" "Suc (LEVELS A - 1) = LEVELS A"
proof -
  have "(2 :: nat) ^ (12 + 9 * LEVELS A) \<le> 2 ^ 48" using levels by (intro power_increasing) simp_all
  then show "span (LEVELS A) \<le> 2 ^ 48" using levels by (simp add: span_eq)
qed (use levels in simp_all)

lemma addrspace_unmap_absent:
  assumes "space_ok A root s" "at_rest s" "xlate A root va s = None"
  shows "addrspace_unmap A root va sz s = Inr (Inl BlockedByExistingMapping, s)"
  using translate_eq [OF assms(1,2), of va] assms(3) by (simp add: addrspace_unmap_def)

lemma addrspace_unmap_ok:
  fixes sz va defines "stop \<equiv> va + map_size_bytes sz" and "l \<equiv> LEVELS A - 1"
  assumes sys: "sys_ok s" and ok: "space_ok A root s" and ow: "owned A s l root I" and rest: "at_rest s"
    and slots: "{table_index va l..table_index (stop - 1) l} \<subseteq> I"
    and low: "stop \<le> span (LEVELS A)" and here: "xlate A root va s = Some pa"
  obtains s' where "addrspace_unmap A root va sz s = Inr (Inr pa, s')" "at_rest s'"
    "shrinks A l root s s'" "owned A s' l root I"
    "\<And>x. x < span (LEVELS A) \<Longrightarrow>
       hw_walk A (tables s') x l root = cut va stop x (hw_walk A (tables s) x l root)"
    "frees A l root s s'" "\<And>x. va \<le> x \<Longrightarrow> x < stop \<Longrightarrow> pruned A (tables s') x l root"
proof -
  have lv: "l < 4" "Suc l = LEVELS A" using levels by (simp_all add: l_def)
  have b0: "0 < map_size_bytes sz" by (cases sz) (simp_all add: map_size_bytes_def)
  have st: "usize_add va (map_size_bytes sz) = stop"
    using low span_levels(1) by (simp add: stop_def usize_add_eq USIZE_LIM_def)
  have d: "\<forall>q \<in> reach A (tables s) (LEVELS A - 1) root. desc_ok q"
    using ok by (simp add: space_ok_def sub_ok_def)
  obtain t where t: "addrspace_lock A root va stop s = Inr t" "locks_ok t"
      "space_root (fst t) = root" "unlocked (snd t) = s"
    using addrspace_lock_ok [OF d rest] by blast
  obtain c s0 where t': "t = (c, s0)" by (cases t)
  have u: "unlocked s = unlocked s0" using t(4) rest by (simp add: t')
  note ue = unlocked_eqD [OF u]
  have rg: "range_ok l 0 va stop"
    unfolding range_ok_def lv(2) using lv(1) low span_levels(1) b0 by (simp add: stop_def)
  have "unmapped I l root 0 va stop (c, s0) (unmap_in A l root 0 va stop (0, c, s0))"
    by (rule unmap_in_ok [OF rg])
      (use sys ok ow t(2) slots in \<open>simp_all add: t' l_def space_ok_def sys_ok_def sub_ok_def owned_def ue\<close>)
  then obtain n' c' s1 where r: "unmap_in A l root 0 va stop (0, c, s0) = Inr (n', c', s1)"
      "keeps I l root (space_root c) s0 (n', c', s1)"
      "\<And>x. x \<in> va_region l 0 \<Longrightarrow> hw_walk A (tables s1) x l root = cut va stop x (hw_walk A (tables s0) x l root)"
      "\<And>x. \<lbrakk>x \<in> va_region l 0; va \<le> x; x < stop\<rbrakk> \<Longrightarrow> pruned A (tables s1) x l root"
    unfolding unmapped_def by auto
  note k = keeps_fields [OF r(2), simplified]
  define s' where "s' = unlocked (flush_tlb None s1)"
  have f: "unlocked s' = s'" "tables s' = tables s1" "metadata s' = metadata s1" "frame_st s' = frame_st s1"
    "page_bytes s' = page_bytes s1" "active_root s' = active_root s1"
    by (simp_all add: s'_def unlocked_def flush_tlb_def)
  have "shrinks A l root s0 s'" using k(6) unfolding shrinks_def sys_ok_def sub_ok_def child_mono_def f .
  then have sh: "shrinks A l root s s'" by (rule shrinks_unlocked [OF _ u [symmetric] refl])
  have "cursor_unmap A va stop (c, s0) = Inr (Inr n', c', flush_tlb None s1)"
    using r(1) t(3) b0 by (simp add: cursor_unmap_def t' l_def stop_def)
  moreover have "locks_ok (c', flush_tlb None s1)" using k(1) by (simp add: locks_ok_def flush_tlb_def)
  ultimately have run: "addrspace_unmap A root va sz s = Inr (Inr pa, s')"
    using translate_eq [OF ok rest, of va] here st t(1)
    by (simp add: addrspace_unmap_def t' Let_def drop_cursor_eq s'_def)
  have "hw_walk A (tables s') x l root = cut va stop x (hw_walk A (tables s) x l root)"
    if "x < span (LEVELS A)" for x
    using r(3) [of x] that lv(2) by (simp add: va_region_def f(2) ue)
  moreover have "pruned A (tables s') x l root" if "va \<le> x" "x < stop" for x
    using r(4) [of x] that low lv(2) by (simp add: va_region_def f(2))
  moreover have "frees A l root s s'" using k(7) by (simp add: frees_def f ue)
  ultimately show thesis
    by (intro that [OF run _ sh owned_shrinks [OF sh ow]]) (simp_all add: s'_def)
qed

end

section \<open>Destroying an address space\<close>

lemma for_list_done:
  assumes "\<And>i D s. \<lbrakk>i \<in> set is; i \<notin> D; I D s\<rbrakk> \<Longrightarrow> \<exists>s'. f i s = Inr s' \<and> I (insert i D) s'"
    and "distinct is" "set is \<inter> D = {}" "I D s"
  shows "\<exists>s'. for_list f is s = Inr s' \<and> I (D \<union> set is) s'"
  using assms
proof (induction "is" arbitrary: D s)
  case (Cons i xs)
  obtain s1 where s1: "f i s = Inr s1" "I (insert i D) s1"
    using Cons.prems(1) [of i D s] Cons.prems(3,4) by auto
  have "\<exists>s'. for_list f xs s1 = Inr s' \<and> I (insert i D \<union> set xs) s'"
    using Cons.prems(1-3) s1(2) by (intro Cons.IH) auto
  then show ?case using s1(1) by auto
qed auto

text \<open>The state after the pages \<open>R\<close> have been returned.\<close>

definition returned :: "mmu \<Rightarrow> usize set \<Rightarrow> usize set \<Rightarrow> mmu \<Rightarrow> bool" where
  "returned s R D s' \<longleftrightarrow> tables s' = tables s \<and> page_bytes s' = page_bytes s \<and>
     active_root s' = active_root s \<and> dlock s' = dlock s \<and> frame_inv (frame_st s') \<and>
     managed_ppns (frame_st s') = managed_ppns (frame_st s) \<and>
     free_ppns (frame_st s') = free_ppns (frame_st s) \<union> ppn ` R \<and>
     metadata s' = (\<lambda>x. if x \<in> ppn ` D then None else metadata s x)"

definition child_tables :: "pte_format \<Rightarrow> (usize \<Rightarrow> usize \<Rightarrow> usize) \<Rightarrow> nat \<Rightarrow> usize \<Rightarrow> nat set \<Rightarrow> usize set" where
  "child_tables A T l p D = (\<Union>i \<in> {i \<in> D. i < 512 \<and> istable A (Suc l) (T p i)}.
     reach A T l (entry_phys A (T p i) (Suc l)))"

lemma children_insert:
  "child_tables A T l p (insert i D) = (if i < 512 \<and> istable A (Suc l) (T p i)
     then reach A T l (entry_phys A (T p i) (Suc l)) \<union> child_tables A T l p D else child_tables A T l p D)"
  by (auto simp: child_tables_def)

lemma free_subtree_ok:
  assumes "tree A (tables s) l p" "frame_inv (frame_st s)"
    "\<And>q. q \<in> reach A (tables s) l p \<Longrightarrow> desc_ok q"
    "\<And>q. q \<in> reach A (tables s) l p - {p} \<Longrightarrow> ppn q \<in> managed_ppns (frame_st s)
       \<and> ppn q \<notin> free_ppns (frame_st s) \<and> \<not> dlock s (ppn q)"
  shows "\<exists>s'. free_subtree A l p s = Inr s'
    \<and> returned s (reach A (tables s) l p - {p}) (reach A (tables s) l p) s'"
  using assms
proof (induction l arbitrary: p s)
  case 0
  show ?case
    using descriptor_of_ok [OF 0(3) [OF reach_self]] 0(2)
    by (auto simp: returned_def drop_metadata_def ppn_def fun_eq_iff)
next
  case (Suc l)
  let ?T = "tables s" and ?f = "\<lambda>index s.
       let entry = tables s p index in
       if entry_present A entry \<and> \<not> entry_is_leaf A entry (Suc l)
       then let child = entry_phys A entry (Suc l) in
            bnd (descriptor_of child) (\<lambda>d.
            bnd (acquire d s) (\<lambda>s.
            bnd (free_subtree A l child s) (\<lambda>s.
            free_frames child 1 (release d s))))
       else Inr s"
  let ?I = "\<lambda>D s'. returned s (child_tables A ?T l p D) (child_tables A ?T l p D) s'"
  have inj: "q = q'" if "q \<in> reach A ?T (Suc l) p" "q' \<in> reach A ?T (Suc l) p" "ppn q = ppn q'" for q q'
    using desc_inj [OF Suc.prems(3) [OF that(1)] Suc.prems(3) [OF that(2)]] that(3) by (simp only: ppn_def)
  have "\<exists>s'. for_list ?f [0..<PT_ENTRIES] s = Inr s' \<and> ?I ({} \<union> set [0..<PT_ENTRIES]) s'"
  proof (rule for_list_done)
    show "?I {} s" using Suc.prems(2) by (simp add: returned_def child_tables_def)
  next
    fix i D s1 assume i: "i \<in> set [0..<PT_ENTRIES]" "i \<notin> D" and I: "?I D s1"
    have i': "i < 512" using i(1) by simp
    have T1: "tables s1 = ?T" "dlock s1 = dlock s" using I by (simp_all add: returned_def)
    show "\<exists>s2. ?f i s1 = Inr s2 \<and> ?I (insert i D) s2"
    proof (cases "istable A (Suc l) (?T p i)")
      case False
      then show ?thesis using I by (auto simp: T1 children_insert istable_def Let_def)
    next
      case True
      define ch where "ch = entry_phys A (?T p i) (Suc l)"
      note tc = tree_child [OF Suc.prems(1) i' True, folded ch_def]
      have sub: "q \<in> reach A ?T (Suc l) p" "q \<noteq> p" if "q \<in> reach A ?T l ch" for q
        using reach_child [where T = ?T and p = p, OF i' True, folded ch_def, OF that] tc(2) that by auto
      have dch: "desc_ok ch" by (rule Suc.prems(3) [OF sub(1) [OF reach_self]])
      have new: "ppn q \<notin> ppn ` child_tables A ?T l p D" if q: "q \<in> reach A ?T l ch" for q
      proof
        assume "ppn q \<in> ppn ` child_tables A ?T l p D"
        then obtain q' j where j: "j \<in> D" "j < 512" "istable A (Suc l) (?T p j)"
            "q' \<in> reach A ?T l (entry_phys A (?T p j) (Suc l))" "ppn q = ppn q'"
          by (auto simp: child_tables_def)
        have "q = q'"
          using inj [OF sub(1) [OF q] reach_child [where T = ?T and p = p, OF j(2,3,4)] j(5)] .
        then show False using tc(3) [OF j(2) _ j(3)] i(2) j(1,4) q by blast
      qed
      have st: "ppn q \<in> managed_ppns (frame_st s1) \<and> ppn q \<notin> free_ppns (frame_st s1) \<and> \<not> dlock s1 (ppn q)"
        if q: "q \<in> reach A ?T l ch" for q
        using Suc.prems(4) [of q] sub [OF q] new [OF q] I by (auto simp: returned_def)
      define s2 where "s2 = s1\<lparr>dlock := (dlock s1)(ch div 4096 := True)\<rparr>"
      have "\<exists>s3. free_subtree A l ch s2 = Inr s3
          \<and> returned s2 (reach A (tables s2) l ch - {ch}) (reach A (tables s2) l ch) s3"
      proof (rule Suc.IH)
        fix q assume q: "q \<in> reach A (tables s2) l ch - {ch}"
        then have q': "q \<in> reach A ?T l ch" "q \<noteq> ch" by (auto simp: s2_def T1)
        have "ppn q \<noteq> ppn ch" using inj [OF sub(1) [OF q'(1)] sub(1) [OF reach_self]] q'(2) by blast
        then show "ppn q \<in> managed_ppns (frame_st s2) \<and> ppn q \<notin> free_ppns (frame_st s2) \<and> \<not> dlock s2 (ppn q)"
          using st [OF q'(1)] by (simp add: s2_def ppn_def)
      qed (use tc(1) I Suc.prems(3) sub in \<open>auto simp: s2_def T1 returned_def\<close>)
      then obtain s3 where s3: "free_subtree A l ch s2 = Inr s3"
          "returned s2 (reach A ?T l ch - {ch}) (reach A ?T l ch) s3"
        by (auto simp: s2_def T1)
      define s4 where "s4 = release (ch div 4096) s3"
      have dl: "dlock s4 = dlock s"
        using s3(2) st [OF reach_self] T1
        by (auto simp: s4_def release_def returned_def s2_def ppn_def fun_eq_iff)
      have fr: "frame_inv (frame_st s4)" "managed_ppns (frame_st s4) = managed_ppns (frame_st s1)"
        "free_ppns (frame_st s4) = free_ppns (frame_st s1) \<union> ppn ` (reach A ?T l ch - {ch})"
        using s3(2) by (simp_all add: s4_def release_def returned_def s2_def)
      have nch: "ch div PAGE_SIZE \<notin> free_ppns (frame_st s4)"
        using st [OF reach_self] inj [OF sub(1) [OF reach_self]] sub(1) unfolding fr(3) ppn_def by blast
      have mch: "ch div PAGE_SIZE \<in> managed_ppns (frame_st s4)"
        using st [OF reach_self] unfolding fr(2) ppn_def by blast
      obtain f where f: "free_frames ch 1 s4 = Inr (s4\<lparr>frame_st := f\<rparr>)" "frame_inv f"
          "free_ppns f = insert (ch div PAGE_SIZE) (free_ppns (frame_st s4))"
          "managed_ppns f = managed_ppns (frame_st s4)"
        using free_page_ok [OF fr(1) dch mch nch] by blast
      have run: "?f i s1 = Inr (s4\<lparr>frame_st := f\<rparr>)"
        using True descriptor_of_ok [OF dch] st [OF reach_self] s3(1) f(1)
        by (simp add: T1 Let_def istable_def ch_def [symmetric] acquire_def ppn_def s2_def s4_def)
      have "free_ppns f = free_ppns (frame_st s) \<union> ppn ` (reach A ?T l ch \<union> child_tables A ?T l p D)"
        using f(3) fr(3) I by (auto simp: returned_def ppn_def)
      then have "?I (insert i D) (s4\<lparr>frame_st := f\<rparr>)"
        using I s3(2) f(2,4) fr(2) dl True i'
        by (auto simp: children_insert ch_def [symmetric] returned_def s4_def release_def s2_def fun_eq_iff)
      with run show ?thesis by blast
    qed
  qed simp_all
  then obtain s1 where s1: "for_list ?f [0..<PT_ENTRIES] s = Inr s1" "?I {..<512} s1"
    by (auto simp: atLeast0LessThan)
  have ch: "child_tables A ?T l p {..<512} = reach A ?T (Suc l) p - {p}"
    using tree_child(2) [OF Suc.prems(1)] by (auto simp: child_tables_def)
  have "descriptor_of p = Inr (p div 4096)" using descriptor_of_ok [OF Suc.prems(3) [OF reach_self]] by simp
  then have "free_subtree A (Suc l) p s = Inr (drop_metadata (p div 4096) s1)"
    using s1(1) by simp
  moreover have "returned s (reach A ?T (Suc l) p - {p}) (reach A ?T (Suc l) p) (drop_metadata (p div 4096) s1)"
    using s1(2) unfolding ch by (auto simp: returned_def drop_metadata_def ppn_def fun_eq_iff simp del: reach.simps)
  ultimately show ?case by blast
qed

text \<open>Destroying an address space returns its table pages, the root included, and nothing else.\<close>

lemma addrspace_destroy_ok:
  assumes sys: "sys_ok s" and ok: "space_ok A root s" and rest: "at_rest s"
    and ow: "\<And>q. q \<in> reach A (tables s) (LEVELS A - 1) root \<Longrightarrow> ppn q \<in> managed_ppns (frame_st s)"
  obtains s' where "addrspace_destroy A root s = Inr s'" "at_rest s'" "sys_ok s'"
    "free_ppns (frame_st s') = free_ppns (frame_st s) \<union> ppn ` reach A (tables s) (LEVELS A - 1) root"
    "tables s' = tables s" "page_bytes s' = page_bytes s" "active_root s' = active_root s"
proof -
  define R where "R = reach A (tables s) (LEVELS A - 1) root"
  have inv: "frame_inv (frame_st s)" using sys by (simp add: sys_ok_def)
  have d: "desc_ok q" "ppn q \<notin> free_ppns (frame_st s)" if "q \<in> R" for q
    using ok that by (simp_all add: space_ok_def sub_ok_def R_def ppn_def)
  have rt: "root \<in> R" by (simp add: R_def)
  define s1 where "s1 = s\<lparr>dlock := (dlock s)(root div 4096 := True)\<rparr>"
  have R1: "reach A (tables s1) (LEVELS A - 1) root = R" by (simp add: s1_def R_def)
  have "\<exists>s2. free_subtree A (LEVELS A - 1) root s1 = Inr s2 \<and> returned s1 (R - {root}) R s2"
    unfolding R1 [symmetric]
  proof (rule free_subtree_ok)
    fix q assume "q \<in> reach A (tables s1) (LEVELS A - 1) root - {root}"
    then have q: "q \<in> R" "q \<noteq> root" using R1 by auto
    have "ppn q \<noteq> ppn root" using desc_inj [OF d(1) [OF q(1)] d(1) [OF rt]] q(2) by (auto simp: ppn_def)
    then show "ppn q \<in> managed_ppns (frame_st s1) \<and> ppn q \<notin> free_ppns (frame_st s1) \<and> \<not> dlock s1 (ppn q)"
      using d(2) [OF q(1)] ow [of q] q(1) rest by (simp add: s1_def at_rest_def ppn_def R_def)
  qed (use ok inv d R1 in \<open>auto simp: s1_def space_ok_def sub_ok_def R_def\<close>)
  then obtain s2 where s2: "free_subtree A (LEVELS A - 1) root s1 = Inr s2" "returned s1 (R - {root}) R s2" by blast
  define s3 where "s3 = release (root div 4096) s2"
  have f3: "frame_inv (frame_st s3)" "managed_ppns (frame_st s3) = managed_ppns (frame_st s)"
    "free_ppns (frame_st s3) = free_ppns (frame_st s) \<union> ppn ` (R - {root})"
    using s2(2) by (simp_all add: s3_def release_def returned_def s1_def)
  have "ppn root \<notin> ppn ` (R - {root})"
    using desc_inj [OF d(1) [OF rt]] d(1) unfolding ppn_def by blast
  then have n: "root div PAGE_SIZE \<notin> free_ppns (frame_st s3)" using d(2) [OF rt] f3(3) by (simp add: ppn_def)
  have m: "root div PAGE_SIZE \<in> managed_ppns (frame_st s3)" using ow [of root] f3(2) by (simp add: ppn_def)
  obtain f where f: "free_frames root 1 s3 = Inr (s3\<lparr>frame_st := f\<rparr>)" "frame_inv f"
      "free_ppns f = insert (root div PAGE_SIZE) (free_ppns (frame_st s3))"
      "managed_ppns f = managed_ppns (frame_st s3)"
    using free_page_ok [OF f3(1) d(1) [OF rt] m n] by blast
  define s' where "s' = flush_tlb None (s3\<lparr>frame_st := f\<rparr>)"
  have run: "addrspace_destroy A root s = Inr s'"
    using descriptor_of_ok [OF d(1) [OF rt]] rest s2(1) f(1)
    by (simp add: addrspace_destroy_def acquire_def at_rest_def s1_def s3_def s'_def)
  have fr: "free_ppns (frame_st s') = free_ppns (frame_st s) \<union> ppn ` R"
    using f(3) f3(3) rt by (auto simp: s'_def flush_tlb_def ppn_def)
  have md: "metadata s' = (\<lambda>x. if x \<in> ppn ` R then None else metadata s x)"
    using s2(2) by (simp add: s'_def flush_tlb_def s3_def release_def returned_def s1_def cong: if_cong)
  have ot: "tables s' = tables s" "page_bytes s' = page_bytes s" "active_root s' = active_root s"
    using s2(2) by (simp_all add: s'_def flush_tlb_def s3_def release_def returned_def s1_def)
  have "at_rest s'"
    using s2(2) rest by (simp add: s'_def flush_tlb_def s3_def release_def returned_def s1_def at_rest_def fun_eq_iff)
  moreover have "sys_ok s'"
    using sys f(2,4) f3(2) fr md by (auto simp: sys_ok_def s'_def flush_tlb_def clear_meta_def)
  ultimately show thesis using that [OF run] fr ot by (simp add: R_def)
qed

end
