(* ===== verification/Kor_Mmu_Arch.thy ===== *)
theory Kor_Mmu_Arch
  imports Kor_Mmu_Unmap
begin

text \<open>
  The page-table services each architecture provides besides the entry encoding
  (\<^verbatim>\<open>base/kor-arch/src/{riscv64,x86_64,aarch64}/pagetable.rs\<close>): the root register, the boot
  tables, fresh user roots, deep copies and the release of a user address space, and the
  surgery on the boot identity map.  They work on the tables directly, beside the descriptors
  of \<^verbatim>\<open>kor-mmu\<close>.
\<close>

section \<open>The root register\<close>

definition riscv64_satp :: "usize \<Rightarrow> usize" where
  "riscv64_satp root = push_bit 60 8 OR drop_bit 12 root"

definition riscv64_satp_root :: "usize \<Rightarrow> usize" where
  "riscv64_satp_root satp = push_bit 12 (satp AND (push_bit 44 1 - 1)) mod USIZE_LIM"

definition activate :: "usize \<Rightarrow> mmu \<Rightarrow> mmu" where
  "activate root s = flush_tlb None (s\<lparr>active_root := root\<rparr>)"

section \<open>Boot tables\<close>

fun set_entries :: "(nat \<times> usize) list \<Rightarrow> (usize \<Rightarrow> usize) \<Rightarrow> (usize \<Rightarrow> usize)" where
  "set_entries [] t = t"
| "set_entries ((i, e) # es) t = set_entries es (t(i := e))"

definition riscv64_boot_table_identity_high :: "(usize \<Rightarrow> usize) \<Rightarrow> usize \<times> (usize \<Rightarrow> usize)" where
  "riscv64_boot_table_identity_high table =
     (0xFFFFFFC000000000,
      set_entries (concat (map (\<lambda>gib.
        let e = riscv64_leaf_pte (push_bit 30 gib) KERNEL_RWX in [(gib, e), (256 + gib, e)]) [0..<4])) table)"

definition a64_boot_table_identity_512g ::
  "usize \<Rightarrow> (usize \<Rightarrow> usize) \<Rightarrow> (usize \<Rightarrow> usize) \<Rightarrow> usize \<times> (usize \<Rightarrow> usize) \<times> (usize \<Rightarrow> usize)" where
  "a64_boot_table_identity_512g pages l0 l1 =
     (let l1_pa = usize_add pages (512 * 8) in
      (0xFFFF000000000000,
       l0(0 := l1_pa OR A64_VALID OR A64_TABLE),
       set_entries (map (\<lambda>gib. (gib, a64_block_pte (push_bit 30 gib) KERNEL_RWX)) [0..<512]) l1))"

section \<open>User roots\<close>

text \<open>The same code on the three architectures.\<close>

definition new_user :: "mmu \<Rightarrow> fault + (MapError + usize) \<times> mmu" where
  "new_user s =
     (let source = active_root s in
      bnd (alloc_frame s) (\<lambda>(r, s).
      case r of
        None \<Rightarrow> Inr (Inl OutOfMemory, s)
      | Some cloned \<Rightarrow>
          let s = zero_page cloned s in
          Inr (Inr cloned, s\<lparr>tables := (tables s)(cloned :=
            (\<lambda>i. if 256 \<le> i then tables s source i else tables s cloned i))\<rparr>)))"

primrec riscv64_destroy_table :: "nat \<Rightarrow> usize \<Rightarrow> mmu \<Rightarrow> fault + mmu" where
  "riscv64_destroy_table 0 table s =
     bnd (for_list (\<lambda>i s. let entry = tables s table i in
       if \<not> riscv64_is_valid entry then Inr s
       else if riscv64_is_leaf entry then free_frames (riscv64_pte_address entry) 1 s
       else Inr s) [0..<256] s) (free_frames table 1)"
| "riscv64_destroy_table (Suc l) table s =
     bnd (for_list (\<lambda>i s. let entry = tables s table i in
       if \<not> riscv64_is_valid entry then Inr s
       else if riscv64_is_leaf entry then Inr s
       else riscv64_destroy_table l (riscv64_pte_address entry) s) [0..<256] s) (free_frames table 1)"

primrec x86_destroy_table :: "nat \<Rightarrow> usize \<Rightarrow> mmu \<Rightarrow> fault + mmu" where
  "x86_destroy_table 0 table s =
     bnd (for_list (\<lambda>i s. let entry = tables s table i in
       if \<not> x86_is_present entry then Inr s
       else free_frames (x86_pte_address entry) 1 s) [0..<256] s) (free_frames table 1)"
| "x86_destroy_table (Suc l) table s =
     bnd (for_list (\<lambda>i s. let entry = tables s table i in
       if \<not> x86_is_present entry then Inr s
       else if \<not> x86_is_huge entry then x86_destroy_table l (x86_pte_address entry) s
       else Inr s) [0..<256] s) (free_frames table 1)"

primrec a64_destroy_table :: "nat \<Rightarrow> usize \<Rightarrow> mmu \<Rightarrow> fault + mmu" where
  "a64_destroy_table 0 table s =
     bnd (for_list (\<lambda>i s. let entry = tables s table i in
       if \<not> a64_is_valid entry then Inr s
       else free_frames (a64_pte_address entry) 1 s) [0..<256] s) (free_frames table 1)"
| "a64_destroy_table (Suc l) table s =
     bnd (for_list (\<lambda>i s. let entry = tables s table i in
       if \<not> a64_is_valid entry then Inr s
       else if \<not> a64_is_block entry then a64_destroy_table l (a64_pte_address entry) s
       else Inr s) [0..<256] s) (free_frames table 1)"

definition arch_destroy :: "arch \<Rightarrow> usize \<Rightarrow> mmu \<Rightarrow> fault + mmu" where
  "arch_destroy a root s =
     (case a of Riscv64 \<Rightarrow> riscv64_destroy_table 2 root s
      | X86_64 \<Rightarrow> x86_destroy_table 3 root s | Aarch64 \<Rightarrow> a64_destroy_table 3 root s)"

section \<open>Deep copies\<close>

definition copy_page :: "usize \<Rightarrow> usize \<Rightarrow> mmu \<Rightarrow> mmu" where
  "copy_page src dst s = s\<lparr>page_bytes := (page_bytes s)(dst := page_bytes s src)\<rparr>"

text \<open>
  The loop of \<^verbatim>\<open>clone_table\<close>: \<open>body\<close> gives the copy of entry \<open>i\<close>; when it fails the copy made
  so far is destroyed by \<open>undo\<close>.  Below level 0 the level of the Sv39 copy would wrap around;
  the model ends there with \<open>OutOfFuel\<close>, which needs a valid entry without permissions.
\<close>

primrec clone_loop ::
  "(nat \<Rightarrow> mmu \<Rightarrow> fault + (MapError + usize) \<times> mmu) \<Rightarrow> (mmu \<Rightarrow> fault + mmu) \<Rightarrow> usize \<Rightarrow> nat list \<Rightarrow> mmu
     \<Rightarrow> fault + (MapError + usize) \<times> mmu" where
  "clone_loop body undo cloned [] s = Inr (Inr cloned, s)"
| "clone_loop body undo cloned (i # is) s =
     bnd (body i s) (\<lambda>(r, s).
     case r of
       Inl error \<Rightarrow> bnd (undo s) (\<lambda>s. Inr (Inl error, s))
     | Inr e \<Rightarrow> clone_loop body undo cloned is (set_entry cloned i e s))"

definition clone_page :: "(usize \<Rightarrow> usize) \<Rightarrow> usize \<Rightarrow> mmu \<Rightarrow> fault + (MapError + usize) \<times> mmu" where
  "clone_page encode src s =
     bnd (alloc_frame s) (\<lambda>(r, s).
     case r of
       None \<Rightarrow> Inr (Inl OutOfMemory, s)
     | Some page \<Rightarrow> Inr (Inr (encode page), copy_page src page s))"

definition clone_child ::
  "(usize \<Rightarrow> usize) \<Rightarrow> fault + (MapError + usize) \<times> mmu \<Rightarrow> fault + (MapError + usize) \<times> mmu" where
  "clone_child encode res =
     bnd res (\<lambda>(r, s). Inr (case r of Inl e \<Rightarrow> Inl e | Inr child \<Rightarrow> Inr (encode child), s))"

definition clone_start ::
  "(usize \<Rightarrow> mmu \<Rightarrow> fault + (MapError + usize) \<times> mmu) \<Rightarrow> mmu \<Rightarrow> fault + (MapError + usize) \<times> mmu" where
  "clone_start loop s =
     bnd (alloc_frame s) (\<lambda>(r, s).
     case r of
       None \<Rightarrow> Inr (Inl OutOfMemory, s)
     | Some cloned \<Rightarrow> loop cloned (zero_page cloned s))"

primrec riscv64_clone_table :: "nat \<Rightarrow> usize \<Rightarrow> mmu \<Rightarrow> fault + (MapError + usize) \<times> mmu" where
  "riscv64_clone_table 0 source s =
     clone_start (\<lambda>cloned. clone_loop (\<lambda>index s.
       let entry = tables s source index in
       if \<not> riscv64_is_valid entry then Inr (Inr entry, s)
       else if riscv64_is_leaf entry
       then clone_page (\<lambda>page. riscv64_leaf_pte page (riscv64_mapping_flags entry))
              (riscv64_pte_address entry) s
       else Inl OutOfFuel)
       (riscv64_destroy_table 0 cloned) cloned [0..<512]) s"
| "riscv64_clone_table (Suc l) source s =
     clone_start (\<lambda>cloned. clone_loop (\<lambda>index s.
       let entry = tables s source index in
       if \<not> riscv64_is_valid entry \<or> Suc l = 2 \<and> 256 \<le> index then Inr (Inr entry, s)
       else if riscv64_is_leaf entry then Inr (Inr entry, s)
       else clone_child riscv64_table_pte (riscv64_clone_table l (riscv64_pte_address entry) s))
       (riscv64_destroy_table (Suc l) cloned) cloned [0..<512]) s"

primrec x86_clone_table :: "nat \<Rightarrow> usize \<Rightarrow> mmu \<Rightarrow> fault + (MapError + usize) \<times> mmu" where
  "x86_clone_table 0 source s =
     clone_start (\<lambda>cloned. clone_loop (\<lambda>index s.
       let entry = tables s source index in
       if \<not> x86_is_present entry then Inr (Inr entry, s)
       else clone_page (\<lambda>page. page OR (entry AND usize_not 0x000FFFFFFFFFF000))
              (x86_pte_address entry) s)
       (x86_destroy_table 0 cloned) cloned [0..<512]) s"
| "x86_clone_table (Suc l) source s =
     clone_start (\<lambda>cloned. clone_loop (\<lambda>index s.
       let entry = tables s source index in
       if \<not> x86_is_present entry \<or> Suc l = 3 \<and> 256 \<le> index then Inr (Inr entry, s)
       else if x86_is_huge entry then Inr (Inr entry, s)
       else clone_child (\<lambda>child. child OR (entry AND usize_not 0x000FFFFFFFFFF000))
              (x86_clone_table l (x86_pte_address entry) s))
       (x86_destroy_table (Suc l) cloned) cloned [0..<512]) s"

primrec a64_clone_table :: "nat \<Rightarrow> usize \<Rightarrow> mmu \<Rightarrow> fault + (MapError + usize) \<times> mmu" where
  "a64_clone_table 0 source s =
     clone_start (\<lambda>cloned. clone_loop (\<lambda>index s.
       let entry = tables s source index in
       if \<not> a64_is_valid entry then Inr (Inr entry, s)
       else clone_page (\<lambda>page. page OR (entry AND usize_not 0x0000FFFFFFFFF000))
              (a64_pte_address entry) s)
       (a64_destroy_table 0 cloned) cloned [0..<512]) s"
| "a64_clone_table (Suc l) source s =
     clone_start (\<lambda>cloned. clone_loop (\<lambda>index s.
       let entry = tables s source index in
       if \<not> a64_is_valid entry \<or> Suc l = 3 \<and> 256 \<le> index then Inr (Inr entry, s)
       else if a64_is_block entry then Inr (Inr entry, s)
       else clone_child (\<lambda>child. child OR (entry AND usize_not 0x0000FFFFFFFFF000))
              (a64_clone_table l (a64_pte_address entry) s))
       (a64_destroy_table (Suc l) cloned) cloned [0..<512]) s"

definition clone_active :: "arch \<Rightarrow> mmu \<Rightarrow> fault + (MapError + usize) \<times> mmu" where
  "clone_active a s =
     (case a of Riscv64 \<Rightarrow> riscv64_clone_table 2 (active_root s) s
      | X86_64 \<Rightarrow> x86_clone_table 3 (active_root s) s
      | Aarch64 \<Rightarrow> a64_clone_table 3 (active_root s) s)"

section \<open>The boot identity map\<close>

definition alloc_or_panic :: "string \<Rightarrow> mmu \<Rightarrow> fault + usize \<times> mmu" where
  "alloc_or_panic msg s =
     bnd (alloc_frame s) (\<lambda>(r, s). case r of None \<Rightarrow> Inl (Panic msg) | Some p \<Rightarrow> Inr (p, zero_page p s))"

definition riscv64_split_identity :: "mmu \<Rightarrow> fault + mmu" where
  "riscv64_split_identity s =
     (let root = active_root s in
      if tables s root 0 \<noteq> 0 \<and> \<not> riscv64_is_leaf (tables s root 0) then Inr s
      else
        bnd (alloc_or_panic ''OOM: L1 table'' s) (\<lambda>(l1, s).
        let leaf_flags = RV_V OR RV_R OR RV_W OR RV_X OR RV_A OR RV_D;
            s = s\<lparr>tables := (tables s)(l1 := (\<lambda>i. if 1 \<le> i \<and> i < 512
                  then drop_bit 2 (i * (2 * 1024 * 1024)) OR leaf_flags else tables s l1 i))\<rparr> in
        bnd (alloc_or_panic ''OOM: L0 table'' s) (\<lambda>(l0, s).
        let s = s\<lparr>tables := (tables s)(l0 := (\<lambda>i. if i < 512
                  then drop_bit 2 (i * 4096) OR leaf_flags else tables s l0 i))\<rparr>;
            s = set_entry l1 0 (riscv64_table_pte l0) s;
            s = set_entry root 0 (riscv64_table_pte l1) s in
        Inr (flush_tlb None s))))"

primrec x86_split_pdpt ::
  "usize \<Rightarrow> usize \<Rightarrow> nat list \<Rightarrow> mmu \<Rightarrow> fault + mmu" where
  "x86_split_pdpt old_pdpt new_pdpt [] s = Inr s"
| "x86_split_pdpt old_pdpt new_pdpt (i # is) s =
     (let old_entry = tables s old_pdpt i in
      if \<not> x86_is_present old_entry \<or> x86_is_huge old_entry
      then x86_split_pdpt old_pdpt new_pdpt is (set_entry new_pdpt i old_entry s)
      else
        let old_pd = x86_pte_address old_entry in
        bnd (alloc_or_panic ''x86: OOM cloning low PD'' s) (\<lambda>(new_pd, s).
        let s = s\<lparr>tables := (tables s)(new_pd := tables s old_pd)\<rparr> in
        x86_split_pdpt old_pdpt new_pdpt is (set_entry new_pdpt i (new_pd OR (old_entry AND 0xFFF)) s)))"

definition x86_split_identity :: "mmu \<Rightarrow> fault + mmu" where
  "x86_split_identity s =
     (let root = active_root s; low = tables s root 0 in
      if \<not> x86_is_present low \<or> x86_is_huge low then Inr s
      else
        let old_pdpt = x86_pte_address low in
        bnd (alloc_or_panic ''x86: OOM cloning low PDPT'' s) (\<lambda>(new_pdpt, s).
        bnd (x86_split_pdpt old_pdpt new_pdpt [0..<512] s) (\<lambda>s.
        Inr (flush_tlb None (set_entry root 0 (new_pdpt OR (low AND 0xFFF)) s)))))"

definition a64_split_identity :: "mmu \<Rightarrow> fault + mmu" where
  "a64_split_identity s =
     (let root = active_root s in
      if \<not> a64_is_table (tables s root 0) then Inr s
      else
        let l1 = a64_pte_address (tables s root 0) in
        if \<not> a64_is_block (tables s l1 0) then Inr s
        else
          bnd (alloc_or_panic ''OOM: L2 table'' s) (\<lambda>(l2, s).
          let s = s\<lparr>tables := (tables s)(l2 := (\<lambda>i. if i < 512
                    then (i * (2 * 1024 * 1024)) OR A64_VALID OR A64_AF OR A64_ATTR
                    else tables s l2 i))\<rparr>;
              s = set_entry l1 0 (l2 OR A64_VALID OR A64_TABLE) s in
          Inr (flush_tlb None s)))"

end
