(* ===== verification/Kor_BTree.thy ===== *)
theory Kor_BTree
  imports Kor_Prelude "HOL-Library.List_Lexorder" "HOL-Library.Char_ord"
begin

text \<open>
  The standard library's \<^verbatim>\<open>BTreeMap\<close> as a list of key/value pairs in ascending key
  order, with the operations the kernel uses of it.  Strings compare bytewise, which is
  the lexicographic order on character lists.
\<close>

type_synonym ('k, 'v) btree = "('k \<times> 'v) list"

definition bt_wf :: "('k::linorder, 'v) btree \<Rightarrow> bool" where
  "bt_wf t \<longleftrightarrow> sorted_wrt (<) (map fst t)"

definition bt_get :: "('k, 'v) btree \<Rightarrow> 'k \<Rightarrow> 'v option" where
  "bt_get t k = map_of t k"

fun bt_insert :: "'k::linorder \<Rightarrow> 'v \<Rightarrow> ('k, 'v) btree \<Rightarrow> ('k, 'v) btree" where
  "bt_insert k v [] = [(k, v)]"
| "bt_insert k v ((k', v') # t) =
     (if k < k' then (k, v) # (k', v') # t
      else if k = k' then (k, v) # t
      else (k', v') # bt_insert k v t)"

definition bt_remove :: "'k \<Rightarrow> ('k, 'v) btree \<Rightarrow> ('k, 'v) btree" where
  "bt_remove k t = filter (\<lambda>p. fst p \<noteq> k) t"

definition bt_contains :: "('k, 'v) btree \<Rightarrow> 'k \<Rightarrow> bool" where
  "bt_contains t k \<longleftrightarrow> k \<in> set (map fst t)"

definition bt_values :: "('k, 'v) btree \<Rightarrow> 'v list" where
  "bt_values t = map snd t"

definition bt_keys :: "('k, 'v) btree \<Rightarrow> 'k set" where
  "bt_keys t = fst ` set t"

lemma bt_wf_Nil [simp]: "bt_wf []"
  by (simp add: bt_wf_def)

lemma bt_wf_Cons [simp]: "bt_wf ((k, v) # t) \<longleftrightarrow> (\<forall>k' \<in> bt_keys t. k < k') \<and> bt_wf t"
  by (simp add: bt_wf_def bt_keys_def)

lemma bt_keys_simps [simp]:
  "bt_keys [] = {}" "bt_keys ((k, v) # t) = insert k (bt_keys t)"
  by (simp_all add: bt_keys_def)

lemma bt_keys_insert [simp]: "bt_keys (bt_insert k v t) = insert k (bt_keys t)"
  by (induction k v t rule: bt_insert.induct) auto

lemma bt_keys_remove [simp]: "bt_keys (bt_remove k t) = bt_keys t - {k}"
  by (auto simp: bt_keys_def bt_remove_def)

lemma bt_wf_insert [simp]: "bt_wf t \<Longrightarrow> bt_wf (bt_insert k v t)"
  by (induction k v t rule: bt_insert.induct) auto

lemma bt_wf_remove [simp]: "bt_wf t \<Longrightarrow> bt_wf (bt_remove k t)"
  by (simp add: bt_wf_def bt_remove_def sorted_wrt_map sorted_wrt_filter)

lemma bt_wf_distinct: "bt_wf t \<Longrightarrow> distinct (map fst t)"
  by (simp add: bt_wf_def strict_sorted_iff)

lemma bt_get_Nil [simp]: "bt_get [] k = None"
  by (simp add: bt_get_def)

lemma bt_get_insert [simp]: "bt_get (bt_insert k v t) k' = (if k' = k then Some v else bt_get t k')"
  by (induction k v t rule: bt_insert.induct) (auto simp: bt_get_def)

lemma bt_get_remove [simp]: "bt_get (bt_remove k t) k' = (if k' = k then None else bt_get t k')"
  by (induction t) (auto simp: bt_get_def bt_remove_def)

lemma bt_contains_iff [simp]: "bt_contains t k \<longleftrightarrow> bt_get t k \<noteq> None"
  by (simp add: bt_contains_def bt_get_def map_of_eq_None_iff)

lemma bt_get_keys: "bt_get t k = None \<longleftrightarrow> k \<notin> bt_keys t"
  by (simp add: bt_get_def bt_keys_def map_of_eq_None_iff)

lemma bt_get_Some_set: "bt_wf t \<Longrightarrow> bt_get t k = Some v \<longleftrightarrow> (k, v) \<in> set t"
  by (simp add: bt_get_def bt_wf_distinct)

lemma bt_length: "bt_wf t \<Longrightarrow> length t = card (bt_keys t)"
  using distinct_card [of "map fst t"] by (simp add: bt_wf_distinct bt_keys_def)

lemma finite_bt_keys [simp]: "finite (bt_keys t)"
  by (simp add: bt_keys_def)

lemma bt_remove_empty [simp]: "bt_remove k [] = []"
  by (simp add: bt_remove_def)

lemma bt_eq_Nil: "t = [] \<longleftrightarrow> (\<forall>k. bt_get t k = None)"
  by (cases t) (auto simp: bt_get_def dest: spec)

text \<open>Mapping the values keeps keys and order.\<close>

definition bt_map :: "('k \<Rightarrow> 'v \<Rightarrow> 'w) \<Rightarrow> ('k, 'v) btree \<Rightarrow> ('k, 'w) btree" where
  "bt_map f t = map (\<lambda>(k, v). (k, f k v)) t"

lemma bt_keys_map [simp]: "bt_keys (bt_map f t) = bt_keys t"
  by (force simp: bt_keys_def bt_map_def)

lemma bt_wf_map [simp]: "bt_wf (bt_map f t) = bt_wf t"
  by (simp add: bt_wf_def bt_map_def comp_def case_prod_beta)

lemma bt_get_map [simp]: "bt_get (bt_map f t) k = map_option (f k) (bt_get t k)"
  by (induction t) (auto simp: bt_get_def bt_map_def)

lemma length_bt_map [simp]: "length (bt_map f t) = length t"
  by (simp add: bt_map_def)

end
