(* ===== verification/Kor_Vm.thy ===== *)
theory Kor_Vm
  imports Kor_Mmu_Arch Kor_BTree
begin

text \<open>
  User address spaces of korix, \<^verbatim>\<open>apps/korix/src/mm/mod.rs\<close>: a page-table root and the
  authoritative map of user pages (\<open>pages\<close>, a \<^verbatim>\<open>BTreeMap\<close>).  An operation runs with the space
  active (\<open>with_active\<close>) and works on the tables through \<^verbatim>\<open>kor_mmu::active()\<close>; a result
  \<open>Inr (r, ...)\<close> carries the source's \<^verbatim>\<open>Result\<close> as \<open>r\<close>, \<open>Inl\<close> is a panic.  The access paths of
  system calls to user memory (\<^verbatim>\<open>apps/korix/src/syscall/user_mem.rs\<close>) follow.
\<close>

section \<open>State\<close>

record vm_page =
  vp_phys :: usize
  vp_flags :: MappingFlags

record address_space =
  as_root :: usize
  as_owned :: bool
  pages :: "(usize, vm_page) btree"

type_synonym 'a mres = "fault + (MapError + 'a) \<times> mmu"

definition ADDRESS_LIMIT :: "arch \<Rightarrow> usize" where
  "ADDRESS_LIMIT a = (case a of Riscv64 \<Rightarrow> 2 ^ 38 | Aarch64 \<Rightarrow> 2 ^ 48 | X86_64 \<Rightarrow> 2 ^ 47)"

section \<open>Creation, activation and drop\<close>

definition adopt_active :: "mmu \<Rightarrow> address_space" where
  "adopt_active s = \<lparr>as_root = active_root s, as_owned = False, pages = []\<rparr>"

definition as_empty :: "mmu \<Rightarrow> address_space mres" where
  "as_empty s =
     bnd (new_user s) (\<lambda>(r, s).
     Inr (case r of Inl e \<Rightarrow> Inl e
          | Inr root \<Rightarrow> Inr \<lparr>as_root = root, as_owned = True, pages = []\<rparr>, s))"

definition is_active :: "address_space \<Rightarrow> mmu \<Rightarrow> bool" where
  "is_active sp s \<longleftrightarrow> active_root s = as_root sp"

definition as_activate :: "address_space \<Rightarrow> mmu \<Rightarrow> mmu" where
  "as_activate sp s = (if \<not> is_active sp s then activate (as_root sp) s else s)"

definition with_active :: "address_space \<Rightarrow> (mmu \<Rightarrow> 'a mres) \<Rightarrow> mmu \<Rightarrow> 'a mres" where
  "with_active sp operation s =
     (let interrupts_enabled = irq_on s;
          s = s\<lparr>irq_on := False\<rparr>;
          previous = active_root s;
          s = (if previous \<noteq> as_root sp then activate (as_root sp) s else s) in
      bnd (operation s) (\<lambda>(result, s).
      let s = (if previous \<noteq> as_root sp then activate previous s else s) in
      Inr (result, if interrupts_enabled then s\<lparr>irq_on := True\<rparr> else s)))"

definition as_drop :: "arch \<Rightarrow> address_space \<Rightarrow> mmu \<Rightarrow> fault + mmu" where
  "as_drop a sp s =
     (if as_owned sp
      then bnd (assert_that (\<not> is_active sp s) ''dropping active address space'') (\<lambda>_.
           arch_destroy a (as_root sp) s)
      else Inr s)"

section \<open>Lookups\<close>

definition page_of :: "usize \<Rightarrow> usize" where
  "page_of vaddr = vaddr AND usize_not (PAGE_SIZE - 1)"

definition as_translate :: "address_space \<Rightarrow> usize \<Rightarrow> usize option" where
  "as_translate sp vaddr =
     (case bt_get (pages sp) (page_of vaddr) of
        None \<Rightarrow> None
      | Some mapping \<Rightarrow> Some (usize_add (vp_phys mapping) (vaddr AND (PAGE_SIZE - 1))))"

definition is_mapped :: "address_space \<Rightarrow> usize \<Rightarrow> bool" where
  "is_mapped sp vaddr \<longleftrightarrow> bt_contains (pages sp) (page_of vaddr)"

primrec validate_loop :: "nat \<Rightarrow> address_space \<Rightarrow> bool \<Rightarrow> usize \<Rightarrow> usize \<Rightarrow> fault + bool" where
  "validate_loop 0 sp write page lst = Inl OutOfFuel"
| "validate_loop (Suc n) sp write page lst =
     (case bt_get (pages sp) page of
        None \<Rightarrow> Inr False
      | Some mapping \<Rightarrow>
          if write \<and> \<not> contains (vp_flags mapping) FLAG_W then Inr False
          else if page = lst then Inr True
          else (case checked_add page PAGE_SIZE of
                  None \<Rightarrow> Inr False
                | Some next \<Rightarrow> validate_loop n sp write next lst))"

definition validate_range :: "arch \<Rightarrow> address_space \<Rightarrow> usize \<Rightarrow> usize \<Rightarrow> bool \<Rightarrow> fault + bool" where
  "validate_range a sp address len write =
     (if len = 0 then Inr (address < ADDRESS_LIMIT a)
      else case checked_add address len of
        None \<Rightarrow> Inr False
      | Some stop \<Rightarrow>
          if address \<ge> ADDRESS_LIMIT a \<or> stop > ADDRESS_LIMIT a then Inr False
          else let lst = page_of (stop - 1) in
               validate_loop (Suc (lst div PAGE_SIZE)) sp write (page_of address) lst)"

text \<open>\<^verbatim>\<open>(start..end).step_by(PAGE_SIZE)\<close>.\<close>

definition page_steps :: "usize \<Rightarrow> usize \<Rightarrow> usize list" where
  "page_steps start stop = map (\<lambda>k. start + k * PAGE_SIZE) [0..<(stop - start + (PAGE_SIZE - 1)) div PAGE_SIZE]"

definition unaligned :: "usize \<Rightarrow> bool" where
  "unaligned x \<longleftrightarrow> x AND (PAGE_SIZE - 1) \<noteq> 0"

definition range_is_free :: "arch \<Rightarrow> address_space \<Rightarrow> usize \<Rightarrow> usize \<Rightarrow> bool" where
  "range_is_free a sp start len =
     (if unaligned start \<or> len = 0 \<or> unaligned len then False
      else case checked_add start len of
        None \<Rightarrow> False
      | Some stop \<Rightarrow> stop \<le> ADDRESS_LIMIT a \<and>
          list_all (\<lambda>address. \<not> bt_contains (pages sp) address) (page_steps start stop))"

section \<open>Mapping\<close>

definition zero_bytes :: "usize \<Rightarrow> mmu \<Rightarrow> mmu" where
  "zero_bytes p s = s\<lparr>page_bytes := (page_bytes s)(p := (\<lambda>_. 0))\<rparr>"

definition active_map :: "arch \<Rightarrow> usize \<Rightarrow> usize \<Rightarrow> MappingFlags \<Rightarrow> mmu \<Rightarrow> unit mres" where
  "active_map a va phys flags s = addrspace_map (pte a) (active_root s) va phys flags Page4K s"

definition active_unmap :: "arch \<Rightarrow> usize \<Rightarrow> mmu \<Rightarrow> usize mres" where
  "active_unmap a va s = addrspace_unmap (pte a) (active_root s) va Page4K s"

definition map_zeroed ::
  "arch \<Rightarrow> address_space \<Rightarrow> usize \<Rightarrow> MappingFlags \<Rightarrow> mmu
     \<Rightarrow> fault + (MapError + usize) \<times> address_space \<times> mmu" where
  "map_zeroed a sp vaddr flags s =
     (if unaligned vaddr \<or> vaddr \<ge> ADDRESS_LIMIT a \<or> \<not> contains flags FLAG_U
      then Inr (Inl BlockedByExistingMapping, sp, s)
      else if bt_contains (pages sp) vaddr then Inr (Inl BlockedByExistingMapping, sp, s)
      else
        bnd (with_active sp (\<lambda>s.
          bnd (alloc_frame s) (\<lambda>(r, s).
          case r of
            None \<Rightarrow> Inr (Inl OutOfMemory, s)
          | Some paddr \<Rightarrow>
              bnd (active_map a vaddr paddr flags s) (\<lambda>(r, s).
              case r of
                Inr _ \<Rightarrow> Inr (Inr paddr, zero_bytes paddr s)
              | Inl error \<Rightarrow> bnd (free_frames paddr 1 s) (\<lambda>s. Inr (Inl error, s))))) s) (\<lambda>(r, s).
        Inr (r, (case r of
                   Inr phys \<Rightarrow> sp\<lparr>pages := bt_insert vaddr \<lparr>vp_phys = phys, vp_flags = flags\<rparr> (pages sp)\<rparr>
                 | Inl _ \<Rightarrow> sp), s)))"

text \<open>Loops over pages that stop at the first error, and those that ignore errors (\<^verbatim>\<open>let _ =\<close>).\<close>

primrec try_each :: "('x \<Rightarrow> mmu \<Rightarrow> 'a mres) \<Rightarrow> 'x list \<Rightarrow> mmu \<Rightarrow> unit mres" where
  "try_each f [] s = Inr (Inr (), s)"
| "try_each f (x # xs) s =
     bnd (f x s) (\<lambda>(r, s). case r of Inl e \<Rightarrow> Inr (Inl e, s) | Inr _ \<Rightarrow> try_each f xs s)"

definition ignoring :: "('x \<Rightarrow> mmu \<Rightarrow> 'a mres) \<Rightarrow> 'x \<Rightarrow> mmu \<Rightarrow> fault + mmu" where
  "ignoring f x s = bnd (f x s) (\<lambda>(r, s). Inr s)"

primrec alloc_fresh :: "nat \<Rightarrow> usize list \<Rightarrow> mmu \<Rightarrow> (usize list) mres" where
  "alloc_fresh 0 fresh s = Inr (Inr fresh, s)"
| "alloc_fresh (Suc n) fresh s =
     bnd (alloc_frame s) (\<lambda>(r, s).
     case r of
       Some phys \<Rightarrow> alloc_fresh n (fresh @ [phys]) s
     | None \<Rightarrow> bnd (for_list (\<lambda>phys. free_frames phys 1) fresh s) (\<lambda>s. Inr (Inl OutOfMemory, s)))"

text \<open>
  The mapping loop of \<^verbatim>\<open>replace_zeroed\<close>: on an error the pages mapped so far are unmapped and
  the old mappings put back.
\<close>

primrec replace_loop ::
  "arch \<Rightarrow> MappingFlags \<Rightarrow> (usize \<times> vm_page option) list \<Rightarrow> usize list \<Rightarrow> (usize \<times> usize) list \<Rightarrow> mmu \<Rightarrow> unit mres" where
  "replace_loop a flags old mapped [] s = Inr (Inr (), s)"
| "replace_loop a flags old mapped (x # xs) s =
     (let (vaddr, phys) = x in
      bnd (active_map a vaddr phys flags s) (\<lambda>(r, s).
      case r of
        Inr _ \<Rightarrow> replace_loop a flags old (mapped @ [vaddr]) xs (zero_bytes phys s)
      | Inl error \<Rightarrow>
          bnd (for_list (ignoring (active_unmap a)) mapped s) (\<lambda>s.
          bnd (for_list (\<lambda>(old_vaddr, mapping) s.
                 case mapping of None \<Rightarrow> Inr s
                 | Some m \<Rightarrow> ignoring (\<lambda>m. active_map a old_vaddr (vp_phys m) (vp_flags m)) m s) old s) (\<lambda>s.
          Inr (Inl error, s)))))"

definition replace_zeroed ::
  "arch \<Rightarrow> address_space \<Rightarrow> usize \<Rightarrow> usize \<Rightarrow> MappingFlags \<Rightarrow> mmu
     \<Rightarrow> fault + (MapError + unit) \<times> address_space \<times> mmu" where
  "replace_zeroed a sp start len flags s =
     (if unaligned start \<or> len = 0 \<or> unaligned len then Inr (Inl BlockedByExistingMapping, sp, s)
      else case checked_add start len of
        None \<Rightarrow> Inr (Inl BlockedByExistingMapping, sp, s)
      | Some stop \<Rightarrow>
          if stop > ADDRESS_LIMIT a \<or> \<not> contains flags FLAG_U
          then Inr (Inl BlockedByExistingMapping, sp, s)
          else
            bnd (alloc_fresh (len div PAGE_SIZE) [] s) (\<lambda>(r, s).
            case r of
              Inl e \<Rightarrow> Inr (Inl e, sp, s)
            | Inr fresh \<Rightarrow>
                let steps = page_steps start stop in
                bnd (with_active sp (\<lambda>s.
                  let old = map (\<lambda>vaddr. (vaddr, bt_get (pages sp) vaddr)) steps in
                  bnd (try_each (\<lambda>(vaddr, mapping) s.
                         if mapping \<noteq> None then active_unmap a vaddr s else Inr (Inr 0, s)) old s) (\<lambda>(r, s).
                  case r of
                    Inl e \<Rightarrow> Inr (Inl e, s)
                  | Inr _ \<Rightarrow>
                      bnd (replace_loop a flags old [] (zip steps fresh) s) (\<lambda>(r, s).
                      case r of
                        Inl e \<Rightarrow> Inr (Inl e, s)
                      | Inr _ \<Rightarrow>
                          bnd (for_list (\<lambda>m. free_frames (vp_phys m) 1) (List.map_filter snd old) s) (\<lambda>s.
                          Inr (Inr (), s))))) s) (\<lambda>(r, s).
                case r of
                  Inl e \<Rightarrow> Inr (Inl e, sp, s)
                | Inr _ \<Rightarrow>
                    Inr (Inr (), sp\<lparr>pages := fold (\<lambda>(vaddr, phys).
                           bt_insert vaddr \<lparr>vp_phys = phys, vp_flags = flags\<rparr>) (zip steps fresh) (pages sp)\<rparr>, s))))"

primrec protect_loop ::
  "arch \<Rightarrow> MappingFlags \<Rightarrow> (usize \<times> vm_page) list \<Rightarrow> usize list \<Rightarrow> (usize \<times> vm_page) list \<Rightarrow> mmu \<Rightarrow> unit mres" where
  "protect_loop a flags old mapped [] s = Inr (Inr (), s)"
| "protect_loop a flags old mapped (x # xs) s =
     (let (vaddr, page) = x in
      bnd (active_map a vaddr (vp_phys page) flags s) (\<lambda>(r, s).
      case r of
        Inr _ \<Rightarrow> protect_loop a flags old (mapped @ [vaddr]) xs s
      | Inl error \<Rightarrow>
          bnd (for_list (ignoring (active_unmap a)) mapped s) (\<lambda>s.
          bnd (for_list (\<lambda>(rollback, m). ignoring (\<lambda>m. active_map a rollback (vp_phys m) (vp_flags m)) m) old s) (\<lambda>s.
          Inr (Inl error, s)))))"

definition protect_range ::
  "arch \<Rightarrow> address_space \<Rightarrow> usize \<Rightarrow> usize \<Rightarrow> MappingFlags \<Rightarrow> mmu
     \<Rightarrow> fault + (MapError + unit) \<times> address_space \<times> mmu" where
  "protect_range a sp start len flags s =
     (if unaligned start \<or> len = 0 \<or> unaligned len \<or> \<not> contains flags FLAG_U
      then Inr (Inl BlockedByExistingMapping, sp, s)
      else case checked_add start len of
        None \<Rightarrow> Inr (Inl BlockedByExistingMapping, sp, s)
      | Some stop \<Rightarrow>
          if stop > ADDRESS_LIMIT a then Inr (Inl BlockedByExistingMapping, sp, s)
          else
            let found = map (\<lambda>vaddr. (vaddr, bt_get (pages sp) vaddr)) (page_steps start stop) in
            if list_ex (\<lambda>(vaddr, m). m = None) found then Inr (Inl BlockedByExistingMapping, sp, s)
            else
              let old = map (\<lambda>(vaddr, m). (vaddr, the m)) found in
              bnd (with_active sp (\<lambda>s.
                bnd (try_each (\<lambda>(vaddr, _). active_unmap a vaddr) old s) (\<lambda>(r, s).
                case r of
                  Inl e \<Rightarrow> Inr (Inl e, s)
                | Inr _ \<Rightarrow> protect_loop a flags old [] old s)) s) (\<lambda>(r, s).
              case r of
                Inl e \<Rightarrow> Inr (Inl e, sp, s)
              | Inr _ \<Rightarrow>
                  Inr (Inr (), sp\<lparr>pages := fold (\<lambda>(vaddr, page).
                         bt_insert vaddr (page\<lparr>vp_flags := flags\<rparr>)) old (pages sp)\<rparr>, s)))"

definition unmap_range ::
  "arch \<Rightarrow> address_space \<Rightarrow> usize \<Rightarrow> usize \<Rightarrow> mmu
     \<Rightarrow> fault + (MapError + unit) \<times> address_space \<times> mmu" where
  "unmap_range a sp start len s =
     (if unaligned start then Inr (Inl BlockedByExistingMapping, sp, s)
      else case checked_add start len of
        None \<Rightarrow> Inr (Inl BlockedByExistingMapping, sp, s)
      | Some stop \<Rightarrow>
          let found = List.map_filter (\<lambda>vaddr. map_option (Pair vaddr) (bt_get (pages sp) vaddr))
                        (page_steps start stop) in
          bnd (with_active sp (try_each (\<lambda>(vaddr, _). active_unmap a vaddr) found) s) (\<lambda>(r, s).
          case r of
            Inl e \<Rightarrow> Inr (Inl e, sp, s)
          | Inr _ \<Rightarrow>
              bnd (for_list (\<lambda>(vaddr, page). free_frames (vp_phys page) 1) found s) (\<lambda>s.
              Inr (Inr (), sp\<lparr>pages := fold (\<lambda>(vaddr, _). bt_remove vaddr) found (pages sp)\<rparr>, s))))"

section \<open>User memory\<close>

text \<open>Bytes of physical memory at a physical address.\<close>

definition read_phys :: "usize \<Rightarrow> nat \<Rightarrow> mmu \<Rightarrow> bytes" where
  "read_phys paddr n s = map (\<lambda>k. page_bytes s ((paddr + k) div PAGE_SIZE * PAGE_SIZE) ((paddr + k) mod PAGE_SIZE)) [0..<n]"

definition write_phys :: "usize \<Rightarrow> bytes \<Rightarrow> mmu \<Rightarrow> mmu" where
  "write_phys paddr bs s = s\<lparr>page_bytes := (\<lambda>p off.
     if p mod PAGE_SIZE = 0 \<and> off < PAGE_SIZE \<and> paddr \<le> p + off \<and> p + off < paddr + length bs
     then bs ! (p + off - paddr) else page_bytes s p off)\<rparr>"

primrec store_loop :: "nat \<Rightarrow> address_space \<Rightarrow> usize \<Rightarrow> bytes \<Rightarrow> usize \<Rightarrow> mmu \<Rightarrow> unit mres" where
  "store_loop 0 sp vaddr bs written s = Inl OutOfFuel"
| "store_loop (Suc n) sp vaddr bs written s =
     (if written < length bs then
        (case checked_add vaddr written of
           None \<Rightarrow> Inr (Inl BlockedByExistingMapping, s)
         | Some address \<Rightarrow>
             (case as_translate sp address of
                None \<Rightarrow> Inr (Inl BlockedByExistingMapping, s)
              | Some paddr \<Rightarrow>
                  let chunk = min (PAGE_SIZE - (address AND (PAGE_SIZE - 1))) (length bs - written) in
                  store_loop n sp vaddr bs (written + chunk)
                    (write_phys paddr (take chunk (drop written bs)) s)))
      else Inr (Inr (), s))"

definition populate :: "arch \<Rightarrow> address_space \<Rightarrow> usize \<Rightarrow> bytes \<Rightarrow> mmu \<Rightarrow> unit mres" where
  "populate a sp vaddr bs s =
     bnd (validate_range a sp vaddr (length bs) False) (\<lambda>ok.
     if \<not> ok then Inr (Inl BlockedByExistingMapping, s)
     else store_loop (Suc (length bs)) sp vaddr bs 0 s)"

definition as_write :: "arch \<Rightarrow> address_space \<Rightarrow> usize \<Rightarrow> bytes \<Rightarrow> mmu \<Rightarrow> unit mres" where
  "as_write a sp vaddr bs s =
     bnd (validate_range a sp vaddr (length bs) True) (\<lambda>ok.
     if \<not> ok then Inr (Inl BlockedByExistingMapping, s)
     else store_loop (Suc (length bs)) sp vaddr bs 0 s)"

primrec fork_loop ::
  "arch \<Rightarrow> (usize \<times> vm_page) list \<Rightarrow> address_space \<Rightarrow> mmu
     \<Rightarrow> fault + (MapError + address_space) \<times> mmu" where
  "fork_loop a [] child s = Inr (Inr child, s)"
| "fork_loop a (x # xs) child s =
     (let (vaddr, page) = x in
      bnd (map_zeroed a child vaddr (vp_flags page) s) (\<lambda>(r, child, s).
      case r of
        Inl e \<Rightarrow> bnd (as_drop a child s) (\<lambda>s. Inr (Inl e, s))
      | Inr child_phys \<Rightarrow> fork_loop a xs child (copy_page (vp_phys page) child_phys s)))"

definition as_fork :: "arch \<Rightarrow> address_space \<Rightarrow> mmu \<Rightarrow> fault + (MapError + address_space) \<times> mmu" where
  "as_fork a sp s =
     bnd (as_empty s) (\<lambda>(r, s).
     case r of Inl e \<Rightarrow> Inr (Inl e, s) | Inr child \<Rightarrow> fork_loop a (pages sp) child s)"

section \<open>Access from system calls\<close>

text \<open>The current process's address space is the argument \<open>sp\<close>.\<close>

definition current_user_phys :: "arch \<Rightarrow> address_space \<Rightarrow> usize \<Rightarrow> bool \<Rightarrow> fault + usize option" where
  "current_user_phys a sp address write =
     bnd (validate_range a sp address 1 write) (\<lambda>ok. Inr (if ok then as_translate sp address else None))"

definition check_range :: "arch \<Rightarrow> address_space \<Rightarrow> usize \<Rightarrow> usize \<Rightarrow> bool \<Rightarrow> fault + bool" where
  "check_range a sp address len write =
     (if address = 0 then Inr False
      else case checked_add address len of
        None \<Rightarrow> Inr False
      | Some stop \<Rightarrow> validate_range a sp address (stop - address) write)"

primrec copy_from_loop ::
  "nat \<Rightarrow> arch \<Rightarrow> address_space \<Rightarrow> usize \<Rightarrow> nat \<Rightarrow> bytes \<Rightarrow> mmu \<Rightarrow> fault + bytes option" where
  "copy_from_loop 0 a sp address len copied s = Inl OutOfFuel"
| "copy_from_loop (Suc n) a sp address len copied s =
     (if length copied < len then
        (case checked_add address (length copied) of
           None \<Rightarrow> Inr None
         | Some user \<Rightarrow>
             bnd (current_user_phys a sp user False) (\<lambda>p.
             case p of
               None \<Rightarrow> Inr None
             | Some physical \<Rightarrow>
                 let chunk = min (PAGE_SIZE - (user AND (PAGE_SIZE - 1))) (len - length copied) in
                 copy_from_loop n a sp address len (copied @ read_phys physical chunk s) s))
      else Inr (Some copied))"

definition copy_from :: "arch \<Rightarrow> address_space \<Rightarrow> usize \<Rightarrow> nat \<Rightarrow> mmu \<Rightarrow> fault + bytes option" where
  "copy_from a sp address len s =
     bnd (check_range a sp address len False) (\<lambda>ok.
     if \<not> ok then Inr None else copy_from_loop (Suc len) a sp address len [] s)"

primrec copy_to_loop ::
  "nat \<Rightarrow> arch \<Rightarrow> address_space \<Rightarrow> usize \<Rightarrow> bytes \<Rightarrow> nat \<Rightarrow> mmu \<Rightarrow> fault + bool \<times> mmu" where
  "copy_to_loop 0 a sp address source copied s = Inl OutOfFuel"
| "copy_to_loop (Suc n) a sp address source copied s =
     (if copied < length source then
        (case checked_add address copied of
           None \<Rightarrow> Inr (False, s)
         | Some user \<Rightarrow>
             bnd (current_user_phys a sp user True) (\<lambda>p.
             case p of
               None \<Rightarrow> Inr (False, s)
             | Some physical \<Rightarrow>
                 let chunk = min (PAGE_SIZE - (user AND (PAGE_SIZE - 1))) (length source - copied) in
                 copy_to_loop n a sp address source (copied + chunk)
                   (write_phys physical (take chunk (drop copied source)) s)))
      else Inr (True, s))"

definition copy_to :: "arch \<Rightarrow> address_space \<Rightarrow> usize \<Rightarrow> bytes \<Rightarrow> mmu \<Rightarrow> fault + bool \<times> mmu" where
  "copy_to a sp address source s =
     bnd (check_range a sp address (length source) True) (\<lambda>ok.
     if \<not> ok then Inr (False, s) else copy_to_loop (Suc (length source)) a sp address source 0 s)"

text \<open>\<^verbatim>\<open>read_string\<close> up to the conversion \<^verbatim>\<open>String::from_utf8\<close>, which is the argument \<open>utf8\<close>.\<close>

primrec read_string_loop ::
  "nat \<Rightarrow> arch \<Rightarrow> (bytes \<Rightarrow> string option) \<Rightarrow> address_space \<Rightarrow> usize \<Rightarrow> nat \<Rightarrow> bytes \<Rightarrow> mmu \<Rightarrow> fault + string option" where
  "read_string_loop 0 a utf8 sp address offset acc s = Inr None"
| "read_string_loop (Suc n) a utf8 sp address offset acc s =
     (case checked_add address offset of
        None \<Rightarrow> Inr None
      | Some addr \<Rightarrow>
          bnd (copy_from a sp addr 1 s) (\<lambda>r.
          case r of
            None \<Rightarrow> Inr None
          | Some bs \<Rightarrow>
              if hd bs = 0 then Inr (utf8 acc)
              else read_string_loop n a utf8 sp address (offset + 1) (acc @ [hd bs]) s))"

definition read_string ::
  "arch \<Rightarrow> (bytes \<Rightarrow> string option) \<Rightarrow> address_space \<Rightarrow> usize \<Rightarrow> nat \<Rightarrow> mmu \<Rightarrow> fault + string option" where
  "read_string a utf8 sp address mx s = read_string_loop mx a utf8 sp address 0 [] s"

end
