(* ===== verification/Kor_Vm_Inv.thy ===== *)
theory Kor_Vm_Inv
  imports Kor_Vm
begin

text \<open>
  The invariant \<open>vm_inv\<close> of a user address space of korix: the map \<open>pages\<close> is authoritative.  At
  every user address the hardware walk ends in the leaf entry that encodes the frame and the permissions the
  map records there, or nowhere, and its address is what \<open>as_translate\<close> gives; every page of the map
  is a frame of its own, in use and outside the page tables.  The lemmas of the first part say
  what one allocation, release, mapping and unmapping does to it.
\<close>

section \<open>Pages and addresses\<close>

lemma page_of_eq: "x < USIZE_LIM \<Longrightarrow> page_of x = x div 4096 * 4096"
  using and_not_mask [of 12 x] by (simp add: page_of_def)

lemma and_4095: "x AND 4095 = x mod (4096 :: nat)"
  using take_bit_eq_mask [of 12 x] by (simp add: take_bit_eq_mod mask_eq_exp_minus_1)

lemma unaligned_iff: "unaligned x \<longleftrightarrow> x mod 4096 \<noteq> 0"
  by (simp add: unaligned_def and_4095)

lemma limit_bounds: "ADDRESS_LIMIT a \<le> span (LEVELS (pte a))" "ADDRESS_LIMIT a < USIZE_LIM"
  "ADDRESS_LIMIT a mod 4096 = 0" "0 < ADDRESS_LIMIT a"
  by (cases a; simp add: ADDRESS_LIMIT_def pte_def riscv64_def x86_64_def aarch64_def span_eq USIZE_LIM_def)+

lemma page_below:
  assumes "va mod 4096 = (0 :: nat)" "va < b" "b mod 4096 = 0"
  shows "va + 4096 \<le> b"
proof -
  have "va div 4096 < b div 4096"
    using assms by (metis div_mult_mod_eq add.right_neutral mult_less_cancel2)
  then have "(va div 4096 + 1) * 4096 \<le> b div 4096 * 4096" by (intro mult_le_mono1) simp
  then show ?thesis using assms(1,3) by (simp add: div_mod_decomp mult.commute minus_mod_eq_mult_div [symmetric])
qed

lemma same_page:
  assumes "va mod 4096 = (0 :: nat)"
  shows "x div 4096 = va div 4096 \<longleftrightarrow> x div 4096 * 4096 = va"
  using assms by (metis add.right_neutral div_mult_mod_eq nonzero_mult_div_cancel_right zero_neq_numeral)

section \<open>The invariant\<close>

definition slots :: "arch \<Rightarrow> nat set" where
  "slots a = {i. i * span (LEVELS (pte a) - 1) < ADDRESS_LIMIT a}"

definition table_pages :: "arch \<Rightarrow> address_space \<Rightarrow> mmu \<Rightarrow> usize set" where
  "table_pages a sp s = reach (pte a) (tables s) (LEVELS (pte a) - 1) (as_root sp)"

text \<open>A frame in use that is no table page of the space.\<close>

definition held :: "arch \<Rightarrow> address_space \<Rightarrow> mmu \<Rightarrow> usize \<Rightarrow> bool" where
  "held a sp s q \<longleftrightarrow> desc_ok q \<and> ppn q \<in> managed_ppns (frame_st s) \<and> ppn q \<notin> free_ppns (frame_st s) \<and>
     clear_meta (metadata s) (ppn q) \<and> q \<notin> table_pages a sp s"

definition page_ok :: "arch \<Rightarrow> address_space \<Rightarrow> mmu \<Rightarrow> usize \<Rightarrow> vm_page \<Rightarrow> bool" where
  "page_ok a sp s va p \<longleftrightarrow> va mod PAGE_SIZE = 0 \<and> va < ADDRESS_LIMIT a \<and>
     contains (vp_flags p) FLAG_U \<and> flags_ok a (vp_flags p) \<and> held a sp s (vp_phys p)"

definition map_ok :: "arch \<Rightarrow> address_space \<Rightarrow> mmu \<Rightarrow> bool" where
  "map_ok a sp s \<longleftrightarrow> bt_wf (pages sp) \<and>
     (\<forall>va p. bt_get (pages sp) va = Some p \<longrightarrow> page_ok a sp s va p) \<and>
     (\<forall>va va' p p'. bt_get (pages sp) va = Some p \<and> bt_get (pages sp) va' = Some p' \<and>
        vp_phys p = vp_phys p' \<longrightarrow> va = va')"

text \<open>The 4 KiB leaf that encodes a page of the map, as the walk returns it.\<close>

definition page_leaf :: "arch \<Rightarrow> vm_page \<Rightarrow> usize \<times> usize \<times> usize" where
  "page_leaf a p = (vp_phys p, leaf_entry (pte a) (vp_phys p) (vp_flags p) 0, span 0)"

definition hw_agrees :: "arch \<Rightarrow> address_space \<Rightarrow> mmu \<Rightarrow> bool" where
  "hw_agrees a sp s \<longleftrightarrow> (\<forall>x < ADDRESS_LIMIT a.
     gran (pte a) (tables s) x (LEVELS (pte a) - 1) (as_root sp) \<le> span 0 \<and>
     xlate (pte a) (as_root sp) x s = as_translate sp x \<and>
     hw_walk (pte a) (tables s) x (LEVELS (pte a) - 1) (as_root sp)
       = map_option (page_leaf a) (bt_get (pages sp) (x div 4096 * 4096)))"

definition vm_inv :: "arch \<Rightarrow> address_space \<Rightarrow> mmu \<Rightarrow> bool" where
  "vm_inv a sp s \<longleftrightarrow> sys_ok s \<and> at_rest s \<and> space_ok (pte a) (as_root sp) s \<and>
     owned (pte a) s (LEVELS (pte a) - 1) (as_root sp) (slots a) \<and> map_ok a sp s \<and> hw_agrees a sp s"

text \<open>A frame held for the space but not mapped in it.\<close>

definition spare :: "arch \<Rightarrow> address_space \<Rightarrow> mmu \<Rightarrow> usize \<Rightarrow> bool" where
  "spare a sp s q \<longleftrightarrow> held a sp s q \<and> (\<forall>va p. bt_get (pages sp) va = Some p \<longrightarrow> vp_phys p \<noteq> q)"

lemma vm_invD:
  assumes "vm_inv a sp s"
  shows "sys_ok s" "at_rest s" "space_ok (pte a) (as_root sp) s"
    "owned (pte a) s (LEVELS (pte a) - 1) (as_root sp) (slots a)" "map_ok a sp s" "hw_agrees a sp s"
  using assms unfolding vm_inv_def by blast+

lemma map_okD:
  assumes "map_ok a sp s" "bt_get (pages sp) va = Some p"
  shows "va mod 4096 = 0" "va < ADDRESS_LIMIT a" "contains (vp_flags p) FLAG_U"
    "flags_ok a (vp_flags p)" "held a sp s (vp_phys p)"
    "bt_get (pages sp) va' = Some p' \<Longrightarrow> vp_phys p = vp_phys p' \<Longrightarrow> va = va'"
  using assms unfolding map_ok_def page_ok_def PAGE_SIZE_def by blast+

lemma hw_agreesD:
  assumes "hw_agrees a sp s" "x < ADDRESS_LIMIT a"
  shows "gran (pte a) (tables s) x (LEVELS (pte a) - 1) (as_root sp) \<le> span 0"
    "xlate (pte a) (as_root sp) x s = as_translate sp x"
    "hw_walk (pte a) (tables s) x (LEVELS (pte a) - 1) (as_root sp)
       = map_option (page_leaf a) (bt_get (pages sp) (x div 4096 * 4096))"
  using assms unfolding hw_agrees_def by blast+

text \<open>Only the tables, the descriptors, the locks and the frames matter.\<close>

lemma vm_cong:
  assumes "tables s' = tables s" "metadata s' = metadata s" "dlock s' = dlock s" "frame_st s' = frame_st s"
  shows "vm_inv a sp s' = vm_inv a sp s" "held a sp s' q = held a sp s q" "spare a sp s' q = spare a sp s q"
  unfolding vm_inv_def sys_ok_def at_rest_def space_ok_def sub_ok_def owned_def map_ok_def page_ok_def
    hw_agrees_def spare_def held_def table_pages_def xlate_def assms
  by (rule refl)+

text \<open>What holds of the frames survives whenever the tables under the root take and give only other frames.\<close>

lemma map_ok_mono:
  assumes "map_ok a sp s" "\<And>q. held a sp s q \<Longrightarrow> held a sp s' q"
  shows "map_ok a sp s'"
  using assms unfolding map_ok_def page_ok_def by blast

lemma gran_path:
  assumes "gran A T va l p \<le> span 0" "l < 4"
  shows "path_ok A ok T 0 va l p"
  using assms
proof (induction l arbitrary: p)
  case (Suc l)
  define e where "e = T p (table_index va (Suc l))"
  have "(2 :: nat) ^ 12 < 2 ^ (12 + 9 * Suc l)" by (rule power_strict_increasing) simp_all
  then have sp: "span 0 < span (Suc l)" using Suc.prems(2) span_eq [of 0] span_eq [of "Suc l"] by simp
  show ?case
  proof (cases "entry_present A e")
    case True
    then have "\<not> entry_is_leaf A e (Suc l)"
      using Suc.prems(1) sp by (auto simp: gran_def Let_def e_def [symmetric])
    then show ?thesis
      using Suc True by (simp add: gran_def Let_def e_def [symmetric])
  qed (simp add: e_def [symmetric] Let_def)
qed simp

lemma gran_no_split:
  assumes "gran A T va l p \<le> span 0" "l < 4"
  shows "\<not> in_split A T 0 va x l p"
  using assms
proof (induction l arbitrary: p)
  case (Suc l)
  have "(2 :: nat) ^ 12 < 2 ^ (12 + 9 * Suc l)" by (rule power_strict_increasing) simp_all
  then have sp: "span 0 < span (Suc l)" using Suc.prems(2) span_eq [of 0] span_eq [of "Suc l"] by simp
  define e where "e = T p (table_index va (Suc l))"
  show ?case
  proof (cases "entry_present A e \<and> \<not> entry_is_leaf A e (Suc l)")
    case True
    then have "gran A T va l (entry_phys A e (Suc l)) \<le> span 0"
      using Suc.prems(1) by (simp add: gran_def Let_def e_def [symmetric])
    then show ?thesis using Suc.IH Suc.prems(2) True by (simp add: Let_def e_def [symmetric])
  next
    case False
    then show ?thesis using Suc.prems(1) sp by (auto simp: gran_def Let_def e_def [symmetric])
  qed
qed simp

lemma explicit_walk: "explicit A s 0 va l p \<Longrightarrow> hw_walk A (tables s) va l p \<noteq> None"
  by (induction l arbitrary: p) (auto simp: Let_def istable_def)

section \<open>Frames\<close>

lemma held_not_free_page: "held a sp s q \<Longrightarrow> q \<notin> free_pages s"
  by (simp add: held_def free_pages_def ppn_def)

lemma vm_alloc:
  assumes inv: "vm_inv a sp s"
  obtains "alloc_frame s = Inr (None, s)" "free_ppns (frame_st s) = {}"
  | c s' where "alloc_frame s = Inr (Some c, s')" "vm_inv a sp s'" "spare a sp s' c" "c \<in> free_pages s"
      "free_ppns (frame_st s') = free_ppns (frame_st s) - {ppn c}"
      "managed_ppns (frame_st s') = managed_ppns (frame_st s)"
      "\<And>q. spare a sp s q \<Longrightarrow> spare a sp s' q \<and> q \<noteq> c"
      "page_bytes s' = page_bytes s" "active_root s' = active_root s"
proof -
  note i = vm_invD [OF inv]
  show thesis
  proof (cases rule: alloc_frame_cases [OF i(1)])
    case 1
    then show thesis by (rule that(1))
  next
    case (2 c f)
    let ?s = "s\<lparr>frame_st := f\<rparr>"
    have c: "desc_ok c" "ppn c \<in> free_ppns (frame_st s)" using 2(2) by (simp_all add: free_pages_def ppn_def)
    have h: "held a sp ?s q \<and> q \<noteq> c" if "held a sp s q" for q
      using that c 2(4,5) unfolding held_def table_pages_def ppn_def by auto
    have "sys_ok ?s" using i(1) 2(3-5) by (auto simp: sys_ok_def)
    moreover have sub: "space_ok (pte a) (as_root sp) ?s" using i(3) 2(4) by (auto simp: space_ok_def sub_ok_def)
    moreover have "owned (pte a) ?s (LEVELS (pte a) - 1) (as_root sp) (slots a)"
      using i(4) 2(5) by (simp add: owned_def)
    moreover have "map_ok a sp ?s" by (rule map_ok_mono [OF i(5)]) (use h in blast)
    moreover have "hw_agrees a sp ?s" using i(6) by (simp add: hw_agrees_def xlate_def)
    ultimately have "vm_inv a sp ?s" using i(2) by (simp add: vm_inv_def at_rest_def)
    moreover have "held a sp ?s c"
      using c i(1,3) free_ppns_subset [of "frame_st s"] 2(4,5)
      unfolding held_def table_pages_def sys_ok_def space_ok_def sub_ok_def ppn_def by auto
    then have "spare a sp ?s c" unfolding spare_def using h map_okD(5) [OF i(5)] by blast
    ultimately show thesis
      using 2 h by (intro that(2) [of c ?s]) (auto simp: spare_def ppn_def)
  qed
qed

lemma vm_free:
  assumes inv: "vm_inv a sp s" and sp: "spare a sp s c"
  obtains s' where "free_frames c 1 s = Inr s'" "vm_inv a sp s'"
    "free_ppns (frame_st s') = insert (ppn c) (free_ppns (frame_st s))"
    "managed_ppns (frame_st s') = managed_ppns (frame_st s)"
    "\<And>q. spare a sp s q \<Longrightarrow> q \<noteq> c \<Longrightarrow> spare a sp s' q"
    "page_bytes s' = page_bytes s" "active_root s' = active_root s"
proof -
  note i = vm_invD [OF inv]
  have c: "desc_ok c" "ppn c \<in> managed_ppns (frame_st s)" "ppn c \<notin> free_ppns (frame_st s)"
    "clear_meta (metadata s) (ppn c)" "c \<notin> table_pages a sp s"
    using sp unfolding spare_def held_def by blast+
  have fi: "frame_inv (frame_st s)" using i(1) by (simp add: sys_ok_def)
  obtain f where f: "free_frames c 1 s = Inr (s\<lparr>frame_st := f\<rparr>)" "frame_inv f"
      "free_ppns f = insert (ppn c) (free_ppns (frame_st s))" "managed_ppns f = managed_ppns (frame_st s)"
    using free_page_ok [OF fi c(1) c(2,3) [unfolded ppn_def]] unfolding ppn_def by blast
  let ?s = "s\<lparr>frame_st := f\<rparr>"
  have h: "held a sp ?s q" if "held a sp s q" "q \<noteq> c" for q
    using that c(1) f(3,4) desc_inj [of q c] unfolding held_def table_pages_def ppn_def by auto
  have "sys_ok ?s" using i(1) f(2-4) c(4) by (auto simp: sys_ok_def)
  moreover have "desc_ok q \<and> q div PAGE_SIZE \<notin> free_ppns f" if "q \<in> table_pages a sp s" for q
  proof -
    have q: "desc_ok q" "q div PAGE_SIZE \<notin> free_ppns (frame_st s)"
      using that i(3) unfolding table_pages_def space_ok_def sub_ok_def by blast+
    have "q \<noteq> c" using that c(5) by blast
    then show ?thesis using q desc_inj [OF q(1) c(1)] f(3) by (auto simp: ppn_def)
  qed
  then have "space_ok (pte a) (as_root sp) ?s" using i(3) by (simp add: space_ok_def sub_ok_def table_pages_def)
  moreover have "owned (pte a) ?s (LEVELS (pte a) - 1) (as_root sp) (slots a)"
    using i(4) f(4) by (simp add: owned_def)
  moreover have "map_ok a sp ?s"
    using i(5) h sp unfolding map_ok_def page_ok_def spare_def by blast
  moreover have "hw_agrees a sp ?s" using i(6) by (simp add: hw_agrees_def xlate_def)
  ultimately have "vm_inv a sp ?s" using i(2) by (simp add: vm_inv_def at_rest_def)
  then show thesis using f h by (intro that [of ?s]) (auto simp: spare_def)
qed

section \<open>Mapping and unmapping a page\<close>

lemma as_translate_eq:
  "x < USIZE_LIM \<Longrightarrow> as_translate sp x =
     map_option (\<lambda>p. usize_add (vp_phys p) (x mod 4096)) (bt_get (pages sp) (x div 4096 * 4096))"
  by (simp add: as_translate_def page_of_eq and_4095 split: option.split)

lemma frame_offset: "desc_ok q \<Longrightarrow> usize_add q (x mod 4096) = q + x mod 4096"
proof -
  assume "desc_ok q"
  then have "q div 4096 < 1048576" by (simp add: desc_ok_def MAX_TRACKED_FRAMES_def)
  then have "q < 4294967296" by (simp add: div_less_iff_less_mult)
  then show ?thesis using mod_less_divisor [of 4096 x] by (simp add: usize_add_eq USIZE_LIM_def)
qed

lemma owned_grows:
  assumes g: "grows A l p s s'" and o: "owned A s l p I"
  shows "owned A s' l p I"
  unfolding owned_def growsD(5) [OF g]
proof (intro ballI impI, elim conjE)
  fix i q
  assume i: "i \<in> I" "i < 512" "0 < l" "istable A l (tables s' p i)"
    and q: "q \<in> reach A (tables s') (l - 1) (entry_phys A (tables s' p i) l)"
  from subsetD [OF grow_monoD [OF growsD(10) [OF g] i(2-4)] q]
  consider "istable A l (tables s p i)" "q \<in> reach A (tables s) (l - 1) (entry_phys A (tables s p i) l)"
    | "q \<in> free_pages s" by (cases "istable A l (tables s p i)") auto
  then show "q div PAGE_SIZE \<in> managed_ppns (frame_st s)"
  proof cases
    case 1
    then show ?thesis using o i(1-3) unfolding owned_def by blast
  next
    case 2
    then show ?thesis using free_ppns_subset by (auto simp: free_pages_def)
  qed
qed

lemma held_grows:
  assumes g: "grows (pte a) (LEVELS (pte a) - 1) (as_root sp) s s'" and h: "held a sp s q"
  shows "held a sp s' q"
proof -
  note g = growsD [OF g]
  have q: "desc_ok q" "q \<notin> reach (pte a) (tables s) (LEVELS (pte a) - 1) (as_root sp)" "q \<notin> free_pages s"
    using h held_not_free_page [OF h] unfolding held_def table_pages_def by blast+
  have "clear_meta (metadata s') (ppn q)"
    using h g(8) [OF q] by (simp add: held_def ppn_def clear_meta_stat)
  moreover have "q \<notin> table_pages a sp s'" unfolding table_pages_def using g(3) q(2,3) by blast
  ultimately show ?thesis using h g(5,6) unfolding held_def by auto
qed

lemma held_root: "as_root sp' = as_root sp \<Longrightarrow> held a sp' s q = held a sp s q"
  by (simp add: held_def table_pages_def)

abbreviation put :: "usize \<Rightarrow> vm_page \<Rightarrow> address_space \<Rightarrow> address_space" where
  "put va p sp \<equiv> sp\<lparr>pages := bt_insert va p (pages sp)\<rparr>"

lemma vm_map:
  assumes inv: "vm_inv a sp s" and c: "spare a sp s c"
    and va: "va mod 4096 = 0" "va < ADDRESS_LIMIT a" "bt_get (pages sp) va = None"
    and fl: "contains flags FLAG_U" "flags_ok a flags"
  obtains r s' where "addrspace_map (pte a) (as_root sp) va c flags Page4K s = Inr (r, s')"
    "r \<in> {Inr (), Inl OutOfMemory}"
    "vm_inv a (if r = Inr () then put va \<lparr>vp_phys = c, vp_flags = flags\<rparr> sp else sp) s'"
    "r \<noteq> Inr () \<Longrightarrow> spare a sp s' c"
    "r \<noteq> Inr () \<Longrightarrow> card (free_ppns (frame_st s)) < LEVELS (pte a) - 1"
    "\<And>q. spare a sp s q \<Longrightarrow> q \<noteq> c \<Longrightarrow>
       spare a (if r = Inr () then put va \<lparr>vp_phys = c, vp_flags = flags\<rparr> sp else sp) s' q"
    "\<And>q. q \<notin> free_pages s \<Longrightarrow> page_bytes s' q = page_bytes s q" "active_root s' = active_root s"
    "managed_ppns (frame_st s') = managed_ppns (frame_st s)"
    "free_ppns (frame_st s') \<subseteq> free_ppns (frame_st s)"
    "card (free_ppns (frame_st s)) \<le> card (free_ppns (frame_st s')) + (LEVELS (pte a) - 1)"
    "\<And>q. held a sp s q \<Longrightarrow> held a sp s' q"
proof -
  let ?A = "pte a" let ?l = "LEVELS (pte a) - 1" let ?r = "as_root sp"
  note i = vm_invD [OF inv]
  have dc: "desc_ok c" using c by (simp add: spare_def held_def)
  note lim = limit_bounds [of a]
  have l4: "?l < 4" using arch.span_levels(2) .
  have none: "xlate ?A ?r va s = None"
    using hw_agreesD(2) [OF i(6) va(2)] va lim by (simp add: as_translate_eq) (metis add.right_neutral div_mult_mod_eq)
  have path: "path_ok ?A (phys_ok a) (tables s) 0 va ?l ?r"
    using hw_agreesD(1) [OF i(6) va(2)] l4 by (rule gran_path)
  have ph: "phys_ok a 0 c" by (rule arch.phys_ok_base [OF desc_ok_page [OF dc]])
  have s0: "span 0 = 4096" by (simp add: span_eq)
  have k0: "(case Page4K of Page4K \<Rightarrow> 0 | Page2M \<Rightarrow> 1) = (0 :: nat)" by simp
  have m: "\<exists>r s'. addrspace_map ?A ?r va c flags Page4K s = Inr (r, s') \<and> at_rest s' \<and>
      grows ?A ?l ?r s s' \<and> r \<in> {Inr (), Inl OutOfMemory, Inl BlockedByExistingMapping} \<and>
      (r = Inl BlockedByExistingMapping \<longleftrightarrow> explicit ?A s 0 va ?l ?r) \<and>
      (r = Inl OutOfMemory \<longrightarrow> card (free_ppns (frame_st s)) < ?l) \<and>
      card (free_ppns (frame_st s)) \<le> card (free_ppns (frame_st s')) + ?l \<and>
      (\<forall>x. gran ?A (tables s') x ?l ?r \<le> max (span 0) (gran ?A (tables s) x ?l ?r)) \<and>
      (\<forall>x. hw_walk ?A (tables s') x ?l ?r = (if r = Inr () \<and> same_path va x 0 ?l
         then Some (c, leaf_entry ?A c flags 0, span 0) else hw_walk ?A (tables s) x ?l ?r))"
  proof (rule arch.addrspace_map_ok [where a = a and sz = Page4K and va = va and phys = c and flags = flags,
        OF i(1,3,2), unfolded k0], goal_cases)
    case (6 r s')
    have w: "hw_walk ?A (tables s') x ?l ?r = (if r = Inr () \<and> same_path va x 0 ?l
         then Some (c, leaf_entry ?A c flags 0, span 0) else hw_walk ?A (tables s) x ?l ?r)" for x
      using 6(11,13) [of x] gran_no_split [OF hw_agreesD(1) [OF i(6) va(2)] l4] by simp
    show ?case by (intro exI [of _ r] exI [of _ s'] conjI allI impI w) (use 6(1-10) in auto)
  qed (use va(1) dc s0 path ph fl(2) in \<open>simp_all add: desc_ok_def\<close>)
  then obtain r s' where m: "addrspace_map ?A ?r va c flags Page4K s = Inr (r, s')" "at_rest s'"
      "grows ?A ?l ?r s s'" "r \<in> {Inr (), Inl OutOfMemory, Inl BlockedByExistingMapping}"
      "r \<noteq> Inl BlockedByExistingMapping"
      "r = Inl OutOfMemory \<longrightarrow> card (free_ppns (frame_st s)) < ?l"
      "card (free_ppns (frame_st s)) \<le> card (free_ppns (frame_st s')) + ?l"
      "\<And>x. gran ?A (tables s') x ?l ?r \<le> max (span 0) (gran ?A (tables s) x ?l ?r)"
      "\<And>x. hw_walk ?A (tables s') x ?l ?r = (if r = Inr () \<and> same_path va x 0 ?l
         then Some (c, leaf_entry ?A c flags 0, span 0) else hw_walk ?A (tables s) x ?l ?r)"
    using none explicit_walk [of ?A s va ?l ?r] by (auto simp: xlate_def hw_addr_def)
  note g = growsD [OF m(3)]
  define sp' where "sp' = (if r = Inr () then put va \<lparr>vp_phys = c, vp_flags = flags\<rparr> sp else sp)"
  have rt: "as_root sp' = ?r" by (simp add: sp'_def)
  have h: "held a sp' s' q" if "held a sp s q" for q
    using held_grows [OF m(3) that] held_root [OF rt] by blast
  have hc: "held a sp' s' c" using c h by (simp add: spare_def)
  have get: "bt_get (pages sp') x = (if r = Inr () \<and> x = va then Some \<lparr>vp_phys = c, vp_flags = flags\<rparr>
      else bt_get (pages sp) x)" for x by (simp add: sp'_def)
  have get': "x = va \<and> p = \<lparr>vp_phys = c, vp_flags = flags\<rparr> \<or> bt_get (pages sp) x = Some p"
    if "bt_get (pages sp') x = Some p" for x p
    using that unfolding get by (cases "r = Inr () \<and> x = va") (simp_all only: if_True if_False option.inject simp_thms)
  have "map_ok a sp' s'"
    unfolding map_ok_def
  proof (intro conjI allI impI)
    show "bt_wf (pages sp')" using i(5) by (simp add: sp'_def map_ok_def)
    fix x p assume "bt_get (pages sp') x = Some p"
    then consider "x = va" "p = \<lparr>vp_phys = c, vp_flags = flags\<rparr>" | "bt_get (pages sp) x = Some p"
      using get' by blast
    then show "page_ok a sp' s' x p"
    proof cases
      case 1
      show ?thesis unfolding page_ok_def 1 using va(1,2) fl hc by simp
    next
      case 2
      show ?thesis unfolding page_ok_def PAGE_SIZE_def using map_okD [OF i(5) 2] h by blast
    qed
  next
    fix x x' p p'
    assume "bt_get (pages sp') x = Some p \<and> bt_get (pages sp') x' = Some p' \<and> vp_phys p = vp_phys p'"
    moreover have "vp_phys p \<noteq> c" if "bt_get (pages sp) x = Some p" for x p
      using c that unfolding spare_def by blast
    ultimately show "x = x'"
      using map_okD(6) [OF i(5), of x p x' p'] unfolding get by (fastforce split: if_splits)
  qed
  moreover have "hw_agrees a sp' s'"
    unfolding hw_agrees_def rt
  proof (intro allI impI conjI)
    fix x assume x: "x < ADDRESS_LIMIT a"
    show "gran ?A (tables s') x ?l ?r \<le> span 0" using m(8) [of x] hw_agreesD(1) [OF i(6) x] by linarith
    have md: "x mod span (LEVELS ?A) = x" "va mod span (LEVELS ?A) = va" "x < USIZE_LIM"
      using x va(2) lim by simp_all
    have w: "hw_walk ?A (tables s') x ?l ?r = (if r = Inr () \<and> x div 4096 * 4096 = va
        then Some (c, leaf_entry ?A c flags 0, span 0) else hw_walk ?A (tables s) x ?l ?r)"
      using m(9) [of x] same_path_iff [of 0 ?l va x] l4 same_page [OF va(1), of x]
      unfolding arch.span_levels(3) md s0 by (auto simp: eq_commute)
    show "xlate ?A ?r x s' = as_translate sp' x"
      using w hw_agreesD(2) [OF i(6) x] frame_offset [OF dc, of x]
      unfolding xlate_def hw_addr_def as_translate_eq [OF md(3)] get by (simp add: s0)
    show "hw_walk ?A (tables s') x ?l ?r = map_option (page_leaf a) (bt_get (pages sp') (x div 4096 * 4096))"
      using w hw_agreesD(3) [OF i(6) x] unfolding get by (simp add: page_leaf_def)
  qed
  ultimately have "vm_inv a sp' s'"
    using m(2) g(1,2) owned_grows [OF m(3) i(4)] unfolding vm_inv_def rt space_ok_def by blast
  moreover have "spare a sp' s' q" if "spare a sp s q" "q \<noteq> c" for q
    using that h unfolding spare_def get by (auto split: if_splits)
  moreover have "spare a sp s' c" if "r \<noteq> Inr ()"
    using c hc held_root [OF rt] unfolding spare_def by blast
  moreover have "held a sp s' q" if "held a sp s q" for q by (rule held_grows [OF m(3) that])
  ultimately show thesis
    using m(1,4-7) g(5-7,9) by (intro that [of r s']) (auto simp: sp'_def [symmetric])
qed

abbreviation del :: "usize \<Rightarrow> address_space \<Rightarrow> address_space" where
  "del va sp \<equiv> sp\<lparr>pages := bt_remove va (pages sp)\<rparr>"

lemma held_shrinks:
  assumes g: "shrinks (pte a) (LEVELS (pte a) - 1) (as_root sp) s s'" and h: "held a sp s q"
    and ok: "space_ok (pte a) (as_root sp) s"
  shows "held a sp s' q"
proof -
  note g = shrinksD [OF g]
  have q: "desc_ok q" "q \<notin> table_pages a sp s" "ppn q \<notin> free_ppns (frame_st s)"
    using h unfolding held_def by blast+
  have "ppn q \<notin> free_ppns (frame_st s')"
  proof
    assume "ppn q \<in> free_ppns (frame_st s')"
    then obtain t where t: "t \<in> table_pages a sp s" "q div PAGE_SIZE = t div PAGE_SIZE"
      using g(5) q(3) unfolding table_pages_def ppn_def by auto
    have "desc_ok t" using t(1) ok unfolding table_pages_def space_ok_def sub_ok_def by blast
    then show False using desc_inj [OF q(1) _ t(2)] t(1) q(2) by blast
  qed
  moreover have "clear_meta (metadata s') (ppn q)"
    using h g(9) [OF q(1) q(2) [unfolded table_pages_def]] by (simp add: held_def ppn_def clear_meta_stat)
  moreover have "q \<notin> table_pages a sp s'" using g(3) q(2) unfolding table_pages_def by blast
  ultimately show ?thesis using h g(6) unfolding held_def by auto
qed

lemma index_slot:
  assumes "x < ADDRESS_LIMIT a"
  shows "table_index x (LEVELS (pte a) - 1) \<in> slots a"
proof -
  let ?l = "LEVELS (pte a) - 1"
  have "x < span (Suc ?l)" using assms limit_bounds(1) [of a] unfolding arch.span_levels(3) by linarith
  then have "table_index x ?l * span ?l \<le> x"
    using offset_step [OF arch.span_levels(2), of x a] by simp
  then show ?thesis using assms by (simp add: slots_def)
qed

lemma slots_down: "i \<in> slots a \<Longrightarrow> j \<le> i \<Longrightarrow> j \<in> slots a"
  unfolding slots_def mem_Collect_eq by (meson le_less_trans mult_le_mono1)

text \<open>A page of the size of the lowest level is removed exactly from the addresses inside it.\<close>

lemma cut_page:
  assumes g: "gran A T x l p \<le> span 0" and l: "l < 4" and va: "va mod 4096 = 0"
  shows "cut va (va + 4096) x (hw_walk A T x l p) = (if x div 4096 * 4096 = va then None else hw_walk A T x l p)"
proof (cases "hw_walk A T x l p")
  case (Some w)
  obtain ph f gr where w: "w = (ph, f, gr)" by (cases w) auto
  obtain j where j: "j \<le> l" "gr = span j" using walk_span [OF Some [unfolded w]] by blast
  have "span 0 \<le> span j" using dvd_imp_le [OF span_dvd [of 0 j]] span_pos [of j] j(1) l by simp
  then have gr: "gr = 4096" using g Some w j(2) by (simp add: gran_def span_eq)
  have s0: "span 0 = 4096" by (simp add: span_eq)
  define r where "r = x div 4096 * 4096"
  have r: "x - x mod 4096 = r" "r mod 4096 = 0" by (simp_all add: r_def minus_mod_eq_div_mult)
  have "r < va + 4096 \<and> va < r + 4096 \<longleftrightarrow> r = va"
    using page_below [OF r(2), of "va + 4096"] page_below [OF va, of "r + 4096"] va r(2) by auto
  then show ?thesis unfolding Some cut_def hit_def w gr s0 r_def [symmetric] by (simp add: r(1) Let_def)
qed simp

lemma vm_unmap:
  assumes inv: "vm_inv a sp s" and p: "bt_get (pages sp) va = Some p"
  obtains s' where "addrspace_unmap (pte a) (as_root sp) va Page4K s = Inr (Inr (vp_phys p), s')"
    "vm_inv a (del va sp) s'" "spare a (del va sp) s' (vp_phys p)"
    "\<And>q. spare a sp s q \<Longrightarrow> spare a (del va sp) s' q"
    "page_bytes s' = page_bytes s" "active_root s' = active_root s"
    "managed_ppns (frame_st s') = managed_ppns (frame_st s)"
    "free_ppns (frame_st s) \<subseteq> free_ppns (frame_st s')"
    "\<And>q. held a sp s q \<Longrightarrow> held a sp s' q"
proof -
  let ?A = "pte a" let ?l = "LEVELS (pte a) - 1" let ?r = "as_root sp"
  note i = vm_invD [OF inv]
  note pg = map_okD [OF i(5) p]
  note lim = limit_bounds [of a]
  have l4: "?l < 4" using arch.span_levels(2) .
  have up: "va + 4096 \<le> ADDRESS_LIMIT a" using page_below [OF pg(1,2) lim(3)] .
  have dp: "desc_ok (vp_phys p)" using pg(5) by (simp add: held_def)
  have vs: "va div 4096 * 4096 = va" using pg(1) by (metis add.right_neutral div_mult_mod_eq)
  have here: "xlate ?A ?r va s = Some (vp_phys p)"
    using hw_agreesD(2) [OF i(6) pg(2)] pg(1,2) lim p frame_offset [OF dp, of va] vs
    by (simp add: as_translate_eq)
  have sl: "{table_index va ?l..table_index (va + 4096 - 1) ?l} \<subseteq> slots a"
    using slots_down [OF index_slot [of "va + 4096 - 1" a]] up by auto
  have sz: "map_size_bytes Page4K = 4096" by (simp add: map_size_bytes_def)
  have low: "va + 4096 \<le> span (LEVELS ?A)" using up lim(1) by linarith
  obtain s' where m: "addrspace_unmap ?A ?r va Page4K s = Inr (Inr (vp_phys p), s')" "at_rest s'"
      "shrinks ?A ?l ?r s s'" "owned ?A s' ?l ?r (slots a)"
      "\<And>x. x < span (LEVELS ?A) \<Longrightarrow>
         hw_walk ?A (tables s') x ?l ?r = cut va (va + 4096) x (hw_walk ?A (tables s) x ?l ?r)"
    by (rule arch.addrspace_unmap_ok [where a = a and sz = Page4K and va = va, OF i(1,3,4,2),
          unfolded sz, OF sl low here]) blast
  note g = shrinksD [OF m(3)]
  have h: "held a (del va sp) s' q" if "held a sp s q" for q
    using held_shrinks [OF m(3) that i(3)] held_root [of "del va sp" sp] by simp
  have "map_ok a (del va sp) s'"
    using i(5) h unfolding map_ok_def page_ok_def by (simp split: if_splits)
  moreover have "hw_agrees a (del va sp) s'"
    unfolding hw_agrees_def
  proof (intro allI impI)
    fix x assume x: "x < ADDRESS_LIMIT a"
    note ag = hw_agreesD [OF i(6) x]
    have x': "x < span (LEVELS ?A)" "x < USIZE_LIM" using x lim by simp_all
    have w: "hw_walk ?A (tables s') x ?l ?r = (if x div 4096 * 4096 = va then None else hw_walk ?A (tables s) x ?l ?r)"
      using m(5) [OF x'(1)] cut_page [OF ag(1) l4 pg(1)] by simp
    show "gran ?A (tables s') x ?l (as_root (del va sp)) \<le> span 0
        \<and> xlate ?A (as_root (del va sp)) x s' = as_translate (del va sp) x
        \<and> hw_walk ?A (tables s') x ?l (as_root (del va sp))
          = map_option (page_leaf a) (bt_get (pages (del va sp)) (x div 4096 * 4096))"
      using ag w by (simp add: gran_def xlate_def hw_addr_def as_translate_eq [OF x'(2)])
  qed
  ultimately have "vm_inv a (del va sp) s'"
    using m(2,4) g(1,2) unfolding vm_inv_def space_ok_def by simp
  moreover have "spare a (del va sp) s' (vp_phys p)"
    unfolding spare_def using h [OF pg(5)] pg(6) by (auto split: if_splits)
  moreover have "spare a (del va sp) s' q" if "spare a sp s q" for q
    using that h unfolding spare_def by (auto split: if_splits)
  moreover have "held a sp s' q" if "held a sp s q" for q by (rule held_shrinks [OF m(3) that i(3)])
  ultimately show thesis using m(1) g(4,6-8) by (intro that [of s'])
qed

end
