(* ===== verification/Kor_Vm_Ops.thy ===== *)
theory Kor_Vm_Ops
  imports Kor_Vm_Inv
begin

text \<open>
  The operations of a user address space keep \<open>vm_inv\<close>: fresh pages (\<^verbatim>\<open>map_zeroed\<close>) and
  releasing a range (\<^verbatim>\<open>unmap_range\<close>).
\<close>

section \<open>Running with a space active\<close>

definition same_mem :: "mmu \<Rightarrow> mmu \<Rightarrow> bool" where
  "same_mem s s' \<longleftrightarrow> tables s' = tables s \<and> metadata s' = metadata s \<and> dlock s' = dlock s \<and>
     frame_st s' = frame_st s \<and> page_bytes s' = page_bytes s"

lemma same_memD:
  assumes "same_mem s s'"
  shows "vm_inv a sp s' = vm_inv a sp s" "spare a sp s' q = spare a sp s q" "frame_st s' = frame_st s"
    "page_bytes s' = page_bytes s" "free_pages s' = free_pages s"
  using assms vm_cong [of s' s] by (simp_all add: same_mem_def free_pages_def)

lemma with_active_ok:
  assumes run: "\<And>s0. same_mem s s0 \<Longrightarrow> active_root s0 = as_root sp \<Longrightarrow>
      \<exists>r s1. operation s0 = Inr (r, s1) \<and> active_root s1 = as_root sp \<and> P r s1"
    and P: "\<And>r s1 s2. P r s1 \<Longrightarrow> same_mem s1 s2 \<Longrightarrow> P r s2"
  obtains r s' where "with_active sp operation s = Inr (r, s')" "active_root s' = active_root s" "P r s'"
proof -
  define s0 where "s0 = (if active_root s \<noteq> as_root sp then activate (as_root sp) (s\<lparr>irq_on := False\<rparr>)
    else s\<lparr>irq_on := False\<rparr>)"
  have "same_mem s s0" "active_root s0 = as_root sp"
    by (simp_all add: s0_def same_mem_def activate_def flush_tlb_def)
  then obtain r s1 where r: "operation s0 = Inr (r, s1)" "active_root s1 = as_root sp" "P r s1"
    using run by blast
  define s2 where "s2 = (if active_root s \<noteq> as_root sp then activate (active_root s) s1 else s1)"
  define s3 where "s3 = (if irq_on s then s2\<lparr>irq_on := True\<rparr> else s2)"
  have "same_mem s1 s3" "active_root s3 = active_root s"
    using r(2) by (simp_all add: s3_def s2_def same_mem_def activate_def flush_tlb_def)
  moreover have "with_active sp operation s = Inr (r, s3)"
    using r(1) by (simp add: with_active_def Let_def s0_def [symmetric] s2_def s3_def)
  ultimately show thesis using P [OF r(3)] by (intro that)
qed

section \<open>A fresh page\<close>

text \<open>What \<^verbatim>\<open>map_zeroed\<close> leaves behind, for each result.\<close>

definition mapped_fresh ::
  "arch \<Rightarrow> address_space \<Rightarrow> usize \<Rightarrow> MappingFlags \<Rightarrow> mmu \<Rightarrow> MapError + usize \<Rightarrow> mmu \<Rightarrow> bool" where
  "mapped_fresh a sp va flags s r s' \<longleftrightarrow>
     (case r of
        Inr phys \<Rightarrow> vm_inv a (put va \<lparr>vp_phys = phys, vp_flags = flags\<rparr> sp) s' \<and> phys \<in> free_pages s \<and>
          page_bytes s' phys = (\<lambda>_. 0)
      | Inl e \<Rightarrow> e = OutOfMemory \<and> vm_inv a sp s' \<and> card (free_ppns (frame_st s)) \<le> LEVELS (pte a) - 1) \<and>
     free_ppns (frame_st s') \<subseteq> free_ppns (frame_st s) \<and>
     managed_ppns (frame_st s') = managed_ppns (frame_st s) \<and>
     card (free_ppns (frame_st s)) \<le> card (free_ppns (frame_st s')) + LEVELS (pte a) \<and>
     (\<forall>q. q \<notin> free_pages s \<longrightarrow> page_bytes s' q = page_bytes s q)"

lemma mapped_fresh_mem:
  assumes "mapped_fresh a sp va flags s r s1" "same_mem s1 s2"
  shows "mapped_fresh a sp va flags s r s2"
  using assms(1) unfolding mapped_fresh_def same_memD [OF assms(2)] .

lemma mapped_fresh_start: "same_mem s s0 \<Longrightarrow> mapped_fresh a sp va flags s0 r s' = mapped_fresh a sp va flags s r s'"
  by (simp add: mapped_fresh_def same_memD cong: sum.case_cong)

lemma map_zeroed_body:
  assumes inv: "vm_inv a sp s" and act: "active_root s = as_root sp"
    and va: "va mod 4096 = 0" "va < ADDRESS_LIMIT a" "bt_get (pages sp) va = None"
    and fl: "contains flags FLAG_U" "flags_ok a flags"
  shows "\<exists>r s'. bnd (alloc_frame s) (\<lambda>(r, s).
          case r of
            None \<Rightarrow> Inr (Inl OutOfMemory, s)
          | Some paddr \<Rightarrow>
              bnd (active_map a va paddr flags s) (\<lambda>(r, s).
              case r of
                Inr _ \<Rightarrow> Inr (Inr paddr, zero_bytes paddr s)
              | Inl error \<Rightarrow> bnd (free_frames paddr 1 s) (\<lambda>s. Inr (Inl error, s)))) = Inr (r, s')
     \<and> active_root s' = as_root sp \<and> mapped_fresh a sp va flags s r s'"
proof (cases rule: vm_alloc [OF inv])
  case 1
  then show ?thesis using inv act by (simp add: mapped_fresh_def)
next
  case (2 c s1)
  have fin: "finite (free_ppns (frame_st s))" by simp
  from 2(2,3) va fl show ?thesis
  proof (rule vm_map)
    fix r s2
    assume m: "addrspace_map (pte a) (as_root sp) va c flags Page4K s1 = Inr (r, s2)"
      "r \<in> {Inr (), Inl OutOfMemory}"
      "vm_inv a (if r = Inr () then put va \<lparr>vp_phys = c, vp_flags = flags\<rparr> sp else sp) s2"
      "r \<noteq> Inr () \<Longrightarrow> spare a sp s2 c" "r \<noteq> Inr () \<Longrightarrow> card (free_ppns (frame_st s1)) < LEVELS (pte a) - 1"
      "\<And>q. q \<notin> free_pages s1 \<Longrightarrow> page_bytes s2 q = page_bytes s1 q" "active_root s2 = active_root s1"
      "managed_ppns (frame_st s2) = managed_ppns (frame_st s1)"
      "free_ppns (frame_st s2) \<subseteq> free_ppns (frame_st s1)"
      "card (free_ppns (frame_st s1)) \<le> card (free_ppns (frame_st s2)) + (LEVELS (pte a) - 1)"
    have am: "active_map a va c flags s1 = Inr (r, s2)" using m(1) 2(9) act by (simp add: active_map_def)
    have fp: "free_pages s1 \<subseteq> free_pages s" using 2(5) by (auto simp: free_pages_def)
    have pb: "page_bytes s2 q = page_bytes s q" if "q \<notin> free_pages s" for q
      using m(6) [of q] 2(8) fp that by auto
    have c: "ppn c \<in> free_ppns (frame_st s)" using 2(4) by (simp add: free_pages_def ppn_def)
    have c1: "card (free_ppns (frame_st s)) = Suc (card (free_ppns (frame_st s1)))"
      unfolding 2(5) by (rule card_Suc_Diff1 [OF fin c, symmetric])
    have c2: "card (free_ppns (frame_st s)) \<le> card (free_ppns (frame_st s2)) + LEVELS (pte a)"
      using c1 m(10) arch.levels(1) [of a] by linarith
    show ?thesis
    proof (cases "r = Inr ()")
      case True
      have mem: "vm_inv a (put va \<lparr>vp_phys = c, vp_flags = flags\<rparr> sp) (zero_bytes c s2)"
        using m(3) True vm_cong(1) [of "zero_bytes c s2" s2] by (simp add: zero_bytes_def)
      have "mapped_fresh a sp va flags s (Inr c) (zero_bytes c s2)"
        using mem 2(4-6) m(8,9) pb c2 by (auto simp: mapped_fresh_def zero_bytes_def)
      then show ?thesis using 2(1,9) am True m(7) act by (simp add: zero_bytes_def)
    next
      case False
      then have r: "r = Inl OutOfMemory" using m(2) by blast
      have sp: "vm_inv a sp s2" "spare a sp s2 c" using m(3,4) False by simp_all
      obtain s3 where f: "free_frames c 1 s2 = Inr s3" "vm_inv a sp s3"
          "free_ppns (frame_st s3) = insert (ppn c) (free_ppns (frame_st s2))"
          "managed_ppns (frame_st s3) = managed_ppns (frame_st s2)"
          "page_bytes s3 = page_bytes s2" "active_root s3 = active_root s2"
        by (rule vm_free [OF sp])
      have "card (free_ppns (frame_st s)) \<le> LEVELS (pte a) - 1" using c1 m(5) [OF False] by linarith
      moreover have "free_ppns (frame_st s3) \<subseteq> free_ppns (frame_st s)" unfolding f(3) using m(9) 2(5) c by blast
      moreover have "managed_ppns (frame_st s3) = managed_ppns (frame_st s)" unfolding f(4) m(8) 2(6) ..
      moreover have "card (free_ppns (frame_st s)) \<le> card (free_ppns (frame_st s3)) + LEVELS (pte a)"
        using c2 card_insert_le [of "free_ppns (frame_st s2)" "ppn c"] unfolding f(3) by linarith
      ultimately have "mapped_fresh a sp va flags s (Inl OutOfMemory) s3"
        unfolding mapped_fresh_def sum.case f(5) using f(2) pb by blast
      then show ?thesis using 2(1,9) am r f(1,6) m(7) act by simp
    qed
  qed
qed

lemma map_zeroed_run:
  assumes inv: "vm_inv a sp s" and fl: "flags_ok a flags"
  obtains r s' where "map_zeroed a sp va flags s =
      Inr (r, case r of Inr phys \<Rightarrow> put va \<lparr>vp_phys = phys, vp_flags = flags\<rparr> sp | Inl _ \<Rightarrow> sp, s')"
    "active_root s' = active_root s"
    "if va mod 4096 \<noteq> 0 \<or> ADDRESS_LIMIT a \<le> va \<or> \<not> contains flags FLAG_U \<or> is_mapped sp va
     then r = Inl BlockedByExistingMapping \<and> s' = s
     else mapped_fresh a sp va flags s r s'"
proof -
  consider "unaligned va \<or> va \<ge> ADDRESS_LIMIT a \<or> \<not> contains flags FLAG_U"
    | "va mod 4096 = 0" "va < ADDRESS_LIMIT a" "contains flags FLAG_U"
    unfolding unaligned_iff by fastforce
  then show thesis
  proof cases
    case 1
    then show thesis using unaligned_iff [of va]
      by (intro that [of "Inl BlockedByExistingMapping" s]) (auto simp: map_zeroed_def)
  next
    case 2
    have pv: "page_of va = va"
      using 2(1,2) limit_bounds(2) [of a] page_of_eq [of va] by (metis add.right_neutral div_mult_mod_eq order_less_trans)
    show thesis
    proof (cases "bt_get (pages sp) va")
      case None
      show thesis
      proof (rule with_active_ok)
        show "\<exists>r s1. bnd (alloc_frame s0) (\<lambda>(r, s).
          case r of
            None \<Rightarrow> Inr (Inl OutOfMemory, s)
          | Some paddr \<Rightarrow>
              bnd (active_map a va paddr flags s) (\<lambda>(r, s).
              case r of
                Inr _ \<Rightarrow> Inr (Inr paddr, zero_bytes paddr s)
              | Inl error \<Rightarrow> bnd (free_frames paddr 1 s) (\<lambda>s. Inr (Inl error, s)))) = Inr (r, s1)
            \<and> active_root s1 = as_root sp \<and> mapped_fresh a sp va flags s r s1"
          if "same_mem s s0" "active_root s0 = as_root sp" for s0
          using map_zeroed_body [OF _ that(2) 2(1,2) None 2(3) fl] inv
          unfolding same_memD(1) [OF that(1)] mapped_fresh_start [OF that(1)] by blast
      next
        fix r s' assume r: "with_active sp (\<lambda>s. bnd (alloc_frame s) (\<lambda>(r, s).
          case r of
            None \<Rightarrow> Inr (Inl OutOfMemory, s)
          | Some paddr \<Rightarrow>
              bnd (active_map a va paddr flags s) (\<lambda>(r, s).
              case r of
                Inr _ \<Rightarrow> Inr (Inr paddr, zero_bytes paddr s)
              | Inl error \<Rightarrow> bnd (free_frames paddr 1 s) (\<lambda>s. Inr (Inl error, s))))) s = Inr (r, s')"
          "active_root s' = active_root s" "mapped_fresh a sp va flags s r s'"
        show thesis
          using 2 None r pv by (intro that [of r s']) (simp_all add: map_zeroed_def unaligned_iff is_mapped_def)
      qed (rule mapped_fresh_mem)
    next
      case (Some p)
      then show thesis using 2 pv
        by (intro that [of "Inl BlockedByExistingMapping" s]) (simp_all add: map_zeroed_def unaligned_iff is_mapped_def)
    qed
  qed
qed

section \<open>Releasing a range\<close>

lemma page_steps_iff:
  assumes "start mod 4096 = 0"
  shows "x \<in> set (page_steps start stop) \<longleftrightarrow> x mod 4096 = 0 \<and> start \<le> x \<and> x < stop"
proof
  assume "x \<in> set (page_steps start stop)"
  then obtain k where k: "x = start + k * 4096" "k < (stop - start + 4095) div 4096"
    by (auto simp: page_steps_def)
  then have "k * 4096 + 4096 \<le> stop - start + 4095" by (simp add: less_eq_div_iff_mult_less_eq Suc_le_eq [symmetric])
  then show "x mod 4096 = 0 \<and> start \<le> x \<and> x < stop" using k(1) assms by simp
next
  assume x: "x mod 4096 = 0 \<and> start \<le> x \<and> x < stop"
  define k where "k = (x - start) div 4096"
  have "(x - start) mod 4096 = 0" using x assms by (simp add: mod_eq_0_iff_dvd)
  then have k: "x = start + k * 4096" using x by (simp add: k_def minus_mod_eq_div_mult [symmetric])
  have "start + k * 4096 < stop" using x k by blast
  then have "(k + 1) * 4096 \<le> stop - start + 4095" unfolding add_mult_distrib by simp
  then have "k < (stop - start + 4095) div 4096" by (simp add: less_eq_div_iff_mult_less_eq Suc_le_eq [symmetric])
  then show "x \<in> set (page_steps start stop)" using k by (auto simp: page_steps_def)
qed

lemma distinct_page_steps: "distinct (page_steps start stop)"
  by (simp add: page_steps_def distinct_map inj_on_def)

definition dels :: "(usize \<times> 'v) list \<Rightarrow> address_space \<Rightarrow> address_space" where
  "dels found sp = sp\<lparr>pages := fold (\<lambda>(vaddr, _). bt_remove vaddr) found (pages sp)\<rparr>"

lemma dels_simps [simp]: "dels [] sp = sp" "dels ((va, p) # found) sp = dels found (del va sp)"
  "as_root (dels found sp) = as_root sp"
  by (simp_all add: dels_def)

lemma get_dels: "bt_get (pages (dels found sp)) x = (if x \<in> fst ` set found then None else bt_get (pages sp) x)"
proof (induction found arbitrary: sp)
  case (Cons y found)
  then show ?case by (cases y) simp
qed simp

text \<open>What an operation that only gives frames back leaves alone.\<close>

definition gives :: "mmu \<Rightarrow> mmu \<Rightarrow> bool" where
  "gives s s' \<longleftrightarrow> page_bytes s' = page_bytes s \<and> active_root s' = active_root s \<and>
     managed_ppns (frame_st s') = managed_ppns (frame_st s) \<and> free_ppns (frame_st s) \<subseteq> free_ppns (frame_st s')"

lemma gives_trans: "gives s s' \<Longrightarrow> gives s' s'' \<Longrightarrow> gives s s''"
  unfolding gives_def by auto

lemma gives_refl [simp]: "gives s s"
  by (simp add: gives_def)

lemma unmap_each:
  assumes "vm_inv a sp s" "active_root s = as_root sp" "distinct (map fst found)"
    "\<And>va p. (va, p) \<in> set found \<Longrightarrow> bt_get (pages sp) va = Some p"
  shows "\<exists>s'. try_each (\<lambda>(vaddr, _). active_unmap a vaddr) found s = Inr (Inr (), s') \<and>
    vm_inv a (dels found sp) s' \<and> gives s s' \<and>
    (\<forall>q. spare a sp s q \<or> (\<exists>(va, p) \<in> set found. q = vp_phys p) \<longrightarrow> spare a (dels found sp) s' q)"
  using assms
proof (induction found arbitrary: sp s)
  case (Cons x found)
  obtain va p where x: "x = (va, p)" by (cases x)
  have p: "bt_get (pages sp) va = Some p" using Cons.prems(4) x by simp
  from Cons.prems(1) p show ?case
  proof (rule vm_unmap)
    fix s1
    assume u: "addrspace_unmap (pte a) (as_root sp) va Page4K s = Inr (Inr (vp_phys p), s1)"
      "vm_inv a (del va sp) s1" "spare a (del va sp) s1 (vp_phys p)"
      "\<And>q. spare a sp s q \<Longrightarrow> spare a (del va sp) s1 q"
      "page_bytes s1 = page_bytes s" "active_root s1 = active_root s"
      "managed_ppns (frame_st s1) = managed_ppns (frame_st s)" "free_ppns (frame_st s) \<subseteq> free_ppns (frame_st s1)"
    have g: "gives s s1" using u(5-8) by (simp add: gives_def)
    have nv: "va \<notin> fst ` set found" "distinct (map fst found)" using Cons.prems(3) x by simp_all
    have "bt_get (pages (del va sp)) va' = Some p'" if "(va', p') \<in> set found" for va' p'
      using Cons.prems(4) [of va' p'] that nv(1) by force
    from Cons.IH [OF u(2) _ nv(2) this] u(6) Cons.prems(2)
    obtain s' where s': "try_each (\<lambda>(vaddr, _). active_unmap a vaddr) found s1 = Inr (Inr (), s')"
      "vm_inv a (dels found (del va sp)) s'" "gives s1 s'"
      "\<And>q. spare a (del va sp) s1 q \<or> (\<exists>(va, p) \<in> set found. q = vp_phys p) \<Longrightarrow> spare a (dels found (del va sp)) s' q"
      by auto
    have "active_unmap a va s = Inr (Inr (vp_phys p), s1)" using u(1) Cons.prems(2) by (simp add: active_unmap_def)
    then have "try_each (\<lambda>(vaddr, _). active_unmap a vaddr) (x # found) s = Inr (Inr (), s')"
      using s'(1) by (simp add: x)
    moreover have "spare a (dels found (del va sp)) s' q"
      if "spare a sp s q \<or> (\<exists>(va, p) \<in> set (x # found). q = vp_phys p)" for q
      using that s'(4) [of q] u(3,4) by (auto simp: x)
    ultimately show ?thesis using s'(2) gives_trans [OF g s'(3)] unfolding x dels_simps by blast
  qed
qed simp

lemma free_each:
  assumes "vm_inv a sp s" "distinct ps" "\<And>q. q \<in> set ps \<Longrightarrow> spare a sp s q"
  shows "\<exists>s'. for_list (\<lambda>phys. free_frames phys 1) ps s = Inr s' \<and> vm_inv a sp s' \<and> gives s s' \<and>
    free_ppns (frame_st s') = free_ppns (frame_st s) \<union> ppn ` set ps \<and>
    (\<forall>q. spare a sp s q \<and> q \<notin> set ps \<longrightarrow> spare a sp s' q)"
  using assms
proof (induction ps arbitrary: s)
  case (Cons c ps)
  have c: "spare a sp s c" using Cons.prems(3) by simp
  from Cons.prems(1) c show ?case
  proof (rule vm_free)
    fix s1
    assume f: "free_frames c 1 s = Inr s1" "vm_inv a sp s1"
      "free_ppns (frame_st s1) = insert (ppn c) (free_ppns (frame_st s))"
      "managed_ppns (frame_st s1) = managed_ppns (frame_st s)"
      "\<And>q. spare a sp s q \<Longrightarrow> q \<noteq> c \<Longrightarrow> spare a sp s1 q"
      "page_bytes s1 = page_bytes s" "active_root s1 = active_root s"
    have g: "gives s s1" using f(3,4,6,7) by (auto simp: gives_def)
    have "spare a sp s1 q" if "q \<in> set ps" for q
      using f(5) Cons.prems(2,3) that by auto
    from Cons.IH [OF f(2) _ this] Cons.prems(2)
    obtain s' where s': "for_list (\<lambda>phys. free_frames phys 1) ps s1 = Inr s'" "vm_inv a sp s'" "gives s1 s'"
      "free_ppns (frame_st s') = free_ppns (frame_st s1) \<union> ppn ` set ps"
      "\<forall>q. spare a sp s1 q \<and> q \<notin> set ps \<longrightarrow> spare a sp s' q" by auto
    then show ?thesis using f(1,3,5) gives_trans [OF g s'(3)] by auto
  qed
qed simp

lemma for_list_map: "for_list f (map g xs) s = for_list (\<lambda>x. f (g x)) xs s"
  by (induction xs arbitrary: s) (simp_all add: bnd_def split: sum.split)

definition found_pages :: "address_space \<Rightarrow> usize list \<Rightarrow> (usize \<times> vm_page) list" where
  "found_pages sp vas = List.map_filter (\<lambda>vaddr. map_option (Pair vaddr) (bt_get (pages sp) vaddr)) vas"

lemma found_pages_iff: "(va, p) \<in> set (found_pages sp vas) \<longleftrightarrow> va \<in> set vas \<and> bt_get (pages sp) va = Some p"
  by (induction vas) (auto simp: found_pages_def List.map_filter_simps split: option.splits)

lemma distinct_found_pages: "distinct vas \<Longrightarrow> distinct (map fst (found_pages sp vas))"
proof (induction vas)
  case (Cons va vas)
  have "va \<notin> fst ` set (found_pages sp vas)" using Cons.prems found_pages_iff [of _ _ sp vas] by force
  then show ?case using Cons by (auto simp: found_pages_def List.map_filter_simps split: option.splits)
qed (simp add: found_pages_def List.map_filter_simps)

text \<open>The pages of the range \<open>R\<close> leave the map and their frames are free again.\<close>

definition released :: "arch \<Rightarrow> (usize \<Rightarrow> bool) \<Rightarrow> address_space \<Rightarrow> mmu \<Rightarrow> address_space \<Rightarrow> mmu \<Rightarrow> bool" where
  "released a R sp s sp' s' \<longleftrightarrow> vm_inv a sp' s' \<and> as_root sp' = as_root sp \<and> as_owned sp' = as_owned sp \<and>
     (\<forall>x. bt_get (pages sp') x = (if R x then None else bt_get (pages sp) x)) \<and>
     (\<forall>x p. R x \<and> bt_get (pages sp) x = Some p \<longrightarrow> ppn (vp_phys p) \<in> free_ppns (frame_st s')) \<and>
     gives s s'"

lemma unmap_range_run:
  assumes inv: "vm_inv a sp s" and st: "start mod 4096 = 0" "start + len < USIZE_LIM"
  obtains sp' s' where "unmap_range a sp start len s = Inr (Inr (), sp', s')"
    "released a (\<lambda>x. start \<le> x \<and> x < start + len) sp s sp' s'"
proof -
  define found where "found = found_pages sp (page_steps start (start + len))"
  have fi: "(va, p) \<in> set found \<longleftrightarrow> start \<le> va \<and> va < start + len \<and> bt_get (pages sp) va = Some p" for va p
    using map_okD(1) [OF vm_invD(5) [OF inv]] unfolding found_def found_pages_iff page_steps_iff [OF st(1)] by blast
  have df: "distinct (map fst found)" unfolding found_def by (rule distinct_found_pages [OF distinct_page_steps])
  define sp' where "sp' = dels found sp"
  show thesis
  proof (rule with_active_ok)
    show "\<exists>r s1. try_each (\<lambda>(vaddr, _). active_unmap a vaddr) found s0 = Inr (r, s1) \<and> active_root s1 = as_root sp
        \<and> (r = Inr () \<and> vm_inv a sp' s1 \<and> page_bytes s1 = page_bytes s \<and>
           managed_ppns (frame_st s1) = managed_ppns (frame_st s) \<and> free_ppns (frame_st s) \<subseteq> free_ppns (frame_st s1) \<and>
           (\<forall>(va, p) \<in> set found. spare a sp' s1 (vp_phys p)))"
      if s0: "same_mem s s0" "active_root s0 = as_root sp" for s0
    proof -
      obtain s1 where s1: "try_each (\<lambda>(vaddr, _). active_unmap a vaddr) found s0 = Inr (Inr (), s1)"
          "vm_inv a sp' s1" "gives s0 s1"
          "\<forall>q. spare a sp s0 q \<or> (\<exists>(va, p) \<in> set found. q = vp_phys p) \<longrightarrow> spare a sp' s1 q"
        using unmap_each [of a sp s0 found, OF _ s0(2) df] inv fi unfolding sp'_def same_memD(1) [OF s0(1)] by blast
      then show ?thesis using same_memD(3,4) [OF s0(1)] s0(2) unfolding gives_def by fastforce
    qed
  next
    fix r s1
    assume r: "with_active sp (try_each (\<lambda>(vaddr, _). active_unmap a vaddr) found) s = Inr (r, s1)"
      "active_root s1 = active_root s"
      "r = Inr () \<and> vm_inv a sp' s1 \<and> page_bytes s1 = page_bytes s \<and>
           managed_ppns (frame_st s1) = managed_ppns (frame_st s) \<and> free_ppns (frame_st s) \<subseteq> free_ppns (frame_st s1) \<and>
           (\<forall>(va, p) \<in> set found. spare a sp' s1 (vp_phys p))"
    have g: "gives s s1" using r(2,3) by (simp add: gives_def)
    define ps where "ps = map (\<lambda>(vaddr, page). vp_phys page) found"
    have "inj_on (\<lambda>(vaddr, page). vp_phys page) (set found)"
    proof (rule inj_onI, clarsimp)
      fix va p va' p'
      assume "(va, p) \<in> set found" "(va', p') \<in> set found" "vp_phys p = vp_phys p'"
      moreover then have "va = va'" using map_okD(6) [OF vm_invD(5) [OF inv]] fi by blast
      ultimately show "va = va' \<and> p = p'" using fi by simp
    qed
    then have "distinct ps" using df by (simp add: ps_def distinct_map)
    moreover have "spare a sp' s1 q" if "q \<in> set ps" for q using that r(3) by (force simp: ps_def)
    ultimately obtain s' where s': "for_list (\<lambda>phys. free_frames phys 1) ps s1 = Inr s'" "vm_inv a sp' s'" "gives s1 s'"
        "free_ppns (frame_st s') = free_ppns (frame_st s1) \<union> ppn ` set ps"
      using free_each [of a sp' s1 ps] r(3) by blast
    have fr: "for_list (\<lambda>(vaddr, page). free_frames (vp_phys page) 1) found s1 = Inr s'"
      using s'(1) by (simp add: ps_def for_list_map case_prod_unfold)
    show thesis
    proof (rule that)
      show "unmap_range a sp start len s = Inr (Inr (), sp', s')"
        using r(1,3) fr st by (simp add: unmap_range_def unaligned_iff checked_add_def Let_def
            found_pages_def [symmetric] found_def [symmetric] sp'_def dels_def)
      have get: "bt_get (pages sp') x = (if start \<le> x \<and> x < start + len then None else bt_get (pages sp) x)" for x
      proof -
        have "x \<in> fst ` set found \<longleftrightarrow> start \<le> x \<and> x < start + len \<and> bt_get (pages sp) x \<noteq> None"
          using fi [of x] by (auto simp: image_iff) (metis fst_conv)
        then show ?thesis unfolding sp'_def get_dels by auto
      qed
      have "ppn (vp_phys p) \<in> free_ppns (frame_st s')" if "start \<le> x \<and> x < start + len" "bt_get (pages sp) x = Some p" for x p
        using fi [of x p] that unfolding s'(4) ps_def by force
      then show "released a (\<lambda>x. start \<le> x \<and> x < start + len) sp s sp' s'"
        using s'(2) get gives_trans [OF g s'(3)] unfolding released_def by (auto simp: sp'_def dels_def)
    qed
  qed (use same_memD in \<open>fastforce\<close>)
qed

end
