(* ===== verification/Kor_User_Mem.thy ===== *)
theory Kor_User_Mem
  imports Kor_Vm_Ops
begin

text \<open>
  User memory as system calls see it: \<open>user_byte\<close> is the byte at a user address.
  \<^verbatim>\<open>validate_range\<close> decides exactly which ranges are accessible; \<^verbatim>\<open>copy_to\<close> and \<^verbatim>\<open>copy_from\<close>
  write and read those bytes and nothing else.
\<close>

section \<open>Validation\<close>

definition page_access :: "address_space \<Rightarrow> bool \<Rightarrow> usize \<Rightarrow> bool" where
  "page_access sp write page \<longleftrightarrow>
     (\<exists>p. bt_get (pages sp) page = Some p \<and> (write \<longrightarrow> contains (vp_flags p) FLAG_W))"

definition accessible :: "arch \<Rightarrow> address_space \<Rightarrow> bool \<Rightarrow> usize \<Rightarrow> usize \<Rightarrow> bool" where
  "accessible a sp write address len \<longleftrightarrow> address + len \<le> ADDRESS_LIMIT a \<and>
     (\<forall>x. address \<le> x \<and> x < address + len \<longrightarrow> page_access sp write (x div 4096 * 4096))"

lemma validate_loop_eq:
  assumes "page mod 4096 = 0" "lst mod 4096 = 0" "page \<le> lst" "lst < USIZE_LIM" "(lst - page) div 4096 < n"
  shows "validate_loop n sp write page lst =
    Inr (\<forall>k. k mod 4096 = 0 \<and> page \<le> k \<and> k \<le> lst \<longrightarrow> page_access sp write k)"
  using assms
proof (induction n arbitrary: page)
  case (Suc n)
  show ?case
  proof (cases "page_access sp write page \<and> page \<noteq> lst")
    case True
    have up: "page + 4096 \<le> lst" using page_below [OF Suc.prems(1) _ Suc.prems(2)] Suc.prems(3) True by simp
    have n: "(lst - (page + 4096)) div 4096 < n"
    proof -
      define d where "d = lst - (page + 4096)"
      have "lst - page = d + 4096" using up by (simp add: d_def)
      then show ?thesis using Suc.prems(5) unfolding d_def [symmetric] by simp
    qed
    have eq: "(k mod 4096 = 0 \<and> page \<le> k \<and> k \<le> lst) = (k = page \<or> k mod 4096 = 0 \<and> page + 4096 \<le> k \<and> k \<le> lst)" for k
      using page_below [OF Suc.prems(1), of k] Suc.prems(1) up by auto
    have "(page + 4096) mod 4096 = 0" using Suc.prems(1) by simp
    note IH = Suc.IH [OF this Suc.prems(2) up Suc.prems(4) n]
    have "checked_add page PAGE_SIZE = Some (page + 4096)"
      using up Suc.prems(4) by (simp add: checked_add_def)
    then have "validate_loop (Suc n) sp write page lst = validate_loop n sp write (page + 4096) lst"
      using True by (auto simp: page_access_def simp del: checked_add_Some)
    then show ?thesis unfolding IH eq using True by auto
  next
    case False
    have "validate_loop (Suc n) sp write page lst = Inr (page_access sp write page)"
      using False by (auto simp: page_access_def split: option.split)
    moreover have "page_access sp write page \<longleftrightarrow>
        (\<forall>k. k mod 4096 = 0 \<and> page \<le> k \<and> k \<le> lst \<longrightarrow> page_access sp write k)"
    proof
      assume pa: "page_access sp write page"
      then have "page = lst" using False by blast
      then show "\<forall>k. k mod 4096 = 0 \<and> page \<le> k \<and> k \<le> lst \<longrightarrow> page_access sp write k"
        using pa by (metis le_antisym)
    next
      assume "\<forall>k. k mod 4096 = 0 \<and> page \<le> k \<and> k \<le> lst \<longrightarrow> page_access sp write k"
      from spec [OF this, of page] show "page_access sp write page" using Suc.prems(1,3) by simp
    qed
    ultimately show ?thesis by (simp only:)
  qed
qed simp

lemma validate_range_eq:
  "validate_range a sp address len write =
     Inr (if len = 0 then address < ADDRESS_LIMIT a else accessible a sp write address len)"
proof (cases "len = 0 \<or> address + len > ADDRESS_LIMIT a")
  case True
  then show ?thesis
    by (auto simp: validate_range_def accessible_def checked_add_def split: option.split)
next
  case False
  note lim = limit_bounds(2) [of a]
  define stop where "stop = address + len"
  have s: "stop < USIZE_LIM" "address < stop" "stop \<le> ADDRESS_LIMIT a" using False lim by (simp_all add: stop_def)
  define page where "page = address div 4096 * 4096"
  define lst where "lst = (stop - 1) div 4096 * 4096"
  have le: "page \<le> lst" using s(2) unfolding page_def lst_def by (intro mult_le_mono1 div_le_mono) linarith
  have ls: "lst \<le> stop - 1" by (simp add: lst_def)
  have p: "page_of address = page" "page_of (stop - 1) = lst" using s by (simp_all add: page_of_eq page_def lst_def)
  have "(lst - page) div 4096 \<le> lst div 4096" by (rule div_le_mono) simp
  then have n: "(lst - page) div 4096 < Suc (lst div 4096)" by simp
  have "validate_range a sp address len write = validate_loop (Suc (lst div 4096)) sp write page lst"
    using False s p by (simp add: validate_range_def stop_def [symmetric] checked_add_def Let_def)
  also have "\<dots> = Inr (\<forall>k. k mod 4096 = 0 \<and> page \<le> k \<and> k \<le> lst \<longrightarrow> page_access sp write k)"
    using s ls by (intro validate_loop_eq [OF _ _ le _ n]) (simp_all add: page_def lst_def)
  also have "(\<forall>k. k mod 4096 = 0 \<and> page \<le> k \<and> k \<le> lst \<longrightarrow> page_access sp write k)
      \<longleftrightarrow> (\<forall>x. address \<le> x \<and> x < stop \<longrightarrow> page_access sp write (x div 4096 * 4096))" (is "?l \<longleftrightarrow> ?r")
  proof
    assume l: ?l
    show ?r
    proof (intro allI impI)
      fix x assume "address \<le> x \<and> x < stop"
      then have "page \<le> x div 4096 * 4096" "x div 4096 * 4096 \<le> lst"
        unfolding page_def lst_def by (intro mult_le_mono1 div_le_mono; linarith)+
      then show "page_access sp write (x div 4096 * 4096)" using l by simp
    qed
  next
    assume r: ?r
    show ?l
    proof (intro allI impI)
      fix k assume k: "k mod 4096 = 0 \<and> page \<le> k \<and> k \<le> lst"
      define x where "x = max address k"
      have ak: "address < k + 4096"
      proof -
        have "address < page + 4096" unfolding page_def using mod_less_divisor [of 4096 address] div_mult_mod_eq [of address 4096] by linarith
        then show ?thesis using k by linarith
      qed
      have kk: "4096 * (k div 4096) = k" using k by (metis add.right_neutral mult_div_mod_eq)
      have "k \<le> x" "x < k + 4096" using ak by (simp_all add: x_def)
      then have "x div 4096 = k div 4096" using kk by (intro div_nat_eqI) (simp_all add: mult_Suc_right)
      then have "x div 4096 * 4096 = k" using k by (metis add.right_neutral div_mult_mod_eq)
      moreover have "address \<le> x" "x < stop" using k ls s(2) by (auto simp: x_def)
      ultimately show "page_access sp write k" using r by metis
    qed
  qed
  finally show ?thesis using False s(3) by (simp add: accessible_def stop_def)
qed

section \<open>Addresses\<close>

lemma translate_Some:
  assumes m: "map_ok a sp s" and t: "as_translate sp x = Some pa" and x: "x < ADDRESS_LIMIT a"
  obtains p where "bt_get (pages sp) (x div 4096 * 4096) = Some p" "pa = vp_phys p + x mod 4096"
    "vp_phys p mod 4096 = 0" "held a sp s (vp_phys p)"
proof -
  have x': "x < USIZE_LIM" using x limit_bounds(2) [of a] by simp
  obtain p where p: "bt_get (pages sp) (x div 4096 * 4096) = Some p" "pa = usize_add (vp_phys p) (x mod 4096)"
    using t unfolding as_translate_eq [OF x'] by auto
  have h: "held a sp s (vp_phys p)" by (rule map_okD(5) [OF m p(1)])
  then have d: "desc_ok (vp_phys p)" by (simp add: held_def)
  show thesis using p h frame_offset [OF d, of x] d by (intro that [of p]) (simp_all add: desc_ok_def)
qed

lemma translate_inj:
  assumes m: "map_ok a sp s" and x: "as_translate sp x = Some pa" "x < ADDRESS_LIMIT a"
    and y: "as_translate sp y = Some pa" "y < ADDRESS_LIMIT a"
  shows "x = y"
proof -
  obtain p where p: "bt_get (pages sp) (x div 4096 * 4096) = Some p" "pa = vp_phys p + x mod 4096"
    "vp_phys p mod 4096 = 0" by (rule translate_Some [OF m x])
  obtain q where q: "bt_get (pages sp) (y div 4096 * 4096) = Some q" "pa = vp_phys q + y mod 4096"
    "vp_phys q mod 4096 = 0" by (rule translate_Some [OF m y])
  have o: "x mod 4096 = y mod 4096"
    using p(2,3) q(2,3) by (metis add_0 mod_add_left_eq mod_mod_trivial)
  then have "vp_phys p = vp_phys q" using p(2) q(2) by simp
  then have "x div 4096 * 4096 = y div 4096 * 4096" by (rule map_okD(6) [OF m p(1) q(1)])
  then show ?thesis using o by (metis div_mult_mod_eq)
qed

lemma translate_step:
  assumes m: "map_ok a sp s" and x: "as_translate sp x = Some pa" "j < 4096 - x mod 4096"
    and l: "x + j < ADDRESS_LIMIT a"
  shows "as_translate sp (x + j) = Some (pa + j)"
proof -
  have "x < ADDRESS_LIMIT a" using l by simp
  with m x(1) obtain p where p: "bt_get (pages sp) (x div 4096 * 4096) = Some p" "pa = vp_phys p + x mod 4096"
    "held a sp s (vp_phys p)" by (rule translate_Some)
  have dm: "(x + j) div 4096 = x div 4096" "(x + j) mod 4096 = x mod 4096 + j"
  proof -
    define d where "d = x mod 4096 + j"
    have xj: "x + j = d + x div 4096 * 4096" "d < 4096" using x(2) by (simp_all add: d_def)
    show "(x + j) div 4096 = x div 4096" unfolding xj(1) using xj(2) by simp
    show "(x + j) mod 4096 = x mod 4096 + j" unfolding xj(1) d_def [symmetric] using xj(2) by simp
  qed
  have d: "desc_ok (vp_phys p)" using p(3) by (simp add: held_def)
  have "x + j < USIZE_LIM" using l limit_bounds(2) [of a] by simp
  then show ?thesis
    using p(1,2) frame_offset [OF d, of "x + j"] by (simp add: as_translate_eq dm)
qed

lemma access_translate:
  assumes "accessible a sp w address len" "address \<le> x" "x < address + len"
  obtains pa where "as_translate sp x = Some pa" "x < ADDRESS_LIMIT a" "x < USIZE_LIM"
proof -
  have x: "x < ADDRESS_LIMIT a" using assms by (auto simp: accessible_def)
  have "page_access sp w (x div 4096 * 4096)" using assms by (auto simp: accessible_def)
  then obtain p where "bt_get (pages sp) (x div 4096 * 4096) = Some p" by (auto simp: page_access_def)
  then show thesis
    using x limit_bounds(2) [of a] by (intro that [of "usize_add (vp_phys p) (x mod 4096)"]) (simp_all add: as_translate_eq)
qed

lemma current_user_phys_ok:
  assumes "accessible a sp w address len" "address \<le> x" "x < address + len"
  shows "current_user_phys a sp x w = Inr (as_translate sp x)"
proof -
  have "accessible a sp w x 1"
    using assms unfolding accessible_def by (auto simp: le_less_Suc_eq dest!: spec [of _ x])
  then show ?thesis by (simp add: current_user_phys_def validate_range_eq)
qed

section \<open>Bytes\<close>

definition byte_at :: "mmu \<Rightarrow> usize \<Rightarrow> u8" where
  "byte_at s pa = page_bytes s (pa div 4096 * 4096) (pa mod 4096)"

definition user_byte :: "address_space \<Rightarrow> mmu \<Rightarrow> usize \<Rightarrow> u8 option" where
  "user_byte sp s x = map_option (byte_at s) (as_translate sp x)"

definition user_bytes :: "address_space \<Rightarrow> mmu \<Rightarrow> usize \<Rightarrow> nat \<Rightarrow> bytes" where
  "user_bytes sp s address len = map (\<lambda>k. the (user_byte sp s (address + k))) [0..<len]"

lemma byte_at_write:
  "byte_at (write_phys pa bs s) q = (if pa \<le> q \<and> q < pa + length bs then bs ! (q - pa) else byte_at s q)"
  by (simp add: byte_at_def write_phys_def)

lemma read_phys_eq: "read_phys pa n s = map (\<lambda>k. byte_at s (pa + k)) [0..<n]"
  by (simp add: read_phys_def byte_at_def)

text \<open>The bytes that the first \<open>k\<close> addresses from \<open>address\<close> name have been stored, and no others changed.\<close>

definition stored :: "address_space \<Rightarrow> usize \<Rightarrow> bytes \<Rightarrow> nat \<Rightarrow> mmu \<Rightarrow> mmu \<Rightarrow> bool" where
  "stored sp address bs k s s' \<longleftrightarrow> s' = s\<lparr>page_bytes := page_bytes s'\<rparr> \<and>
     (\<forall>j < k. user_byte sp s' (address + j) = Some (bs ! j)) \<and>
     (\<forall>q off. (\<forall>j < k. as_translate sp (address + j) \<noteq> Some (q + off)) \<longrightarrow> page_bytes s' q off = page_bytes s q off)"

lemma stored_refl: "stored sp address bs 0 s s"
  by (simp add: stored_def)

lemma stored_step:
  assumes m: "map_ok a sp s" and acc: "address + length bs \<le> ADDRESS_LIMIT a"
    and st: "stored sp address bs k s s1" and k: "k < length bs"
    and t: "as_translate sp (address + k) = Some pa"
    and n: "n = min (4096 - (address + k) mod 4096) (length bs - k)"
    and pre: "\<And>j. j < k \<Longrightarrow> as_translate sp (address + j) \<noteq> None"
  shows "stored sp address bs (k + n) s (write_phys pa (take n (drop k bs)) s1)"
proof -
  let ?s = "write_phys pa (take n (drop k bs)) s1"
  have ln: "min (length bs - k) n = n" using n by simp
  have nb: "n \<le> 4096 - (address + k) mod 4096" "n \<le> length bs - k" unfolding n by simp_all
  have tr: "as_translate sp (address + (k + j)) = Some (pa + j)" if "j < n" for j
    unfolding add.assoc [symmetric] by (rule translate_step [OF m t]) (use that nb acc k in linarith)+
  have lo: "user_byte sp ?s (address + j) = Some (bs ! j)" if j: "j < k + n" for j
  proof (cases "j < k")
    case True
    obtain q where q: "as_translate sp (address + j) = Some q" using pre [OF True] by auto
    have "\<not> (pa \<le> q \<and> q < pa + n)"
    proof
      assume h: "pa \<le> q \<and> q < pa + n"
      then have "q - pa < n" by linarith
      then have "as_translate sp (address + (k + (q - pa))) = Some q" using tr [of "q - pa"] h by simp
      moreover have "address + (k + (q - pa)) < ADDRESS_LIMIT a" "address + j < ADDRESS_LIMIT a"
        using \<open>q - pa < n\<close> n acc k True by linarith+
      ultimately have "address + j = address + (k + (q - pa))" using translate_inj [OF m q] by blast
      then show False using True by simp
    qed
    then have "byte_at ?s q = byte_at s1 q" by (auto simp: byte_at_write ln)
    then show ?thesis using st True q by (auto simp: stored_def user_byte_def)
  next
    case False
    then obtain i where i: "j = k + i" "i < n" using j by (metis add_less_cancel_left le_Suc_ex not_less)
    show ?thesis using tr [OF i(2)] i n k by (simp add: user_byte_def byte_at_write ln)
  qed
  have out: "page_bytes ?s q off = page_bytes s q off"
    if o: "\<forall>j < k + n. as_translate sp (address + j) \<noteq> Some (q + off)" for q off
  proof -
    have "\<not> (pa \<le> q + off \<and> q + off < pa + n)"
    proof
      assume h: "pa \<le> q + off \<and> q + off < pa + n"
      define j where "j = q + off - pa"
      have j: "j < n" "pa + j = q + off" using h by (simp_all add: j_def) linarith
      then have "as_translate sp (address + (k + j)) = Some (q + off)" using tr [OF j(1)] by simp
      then show False using o j(1) by simp
    qed
    then have "page_bytes ?s q off = page_bytes s1 q off" by (auto simp: write_phys_def ln)
    then show ?thesis using st o unfolding stored_def by simp
  qed
  obtain pb where "s1 = s\<lparr>page_bytes := pb\<rparr>" using st unfolding stored_def by blast
  then have "?s = s\<lparr>page_bytes := page_bytes ?s\<rparr>" by (simp add: write_phys_def)
  then show ?thesis using lo out unfolding stored_def by blast
qed

section \<open>Copies\<close>

text \<open>The loops of \<^verbatim>\<open>copy_to\<close>, \<^verbatim>\<open>copy_from\<close> and of writing into a space, from the position \<open>k\<close>.\<close>

lemma chunk_bounds:
  fixes x k len :: nat
  assumes "k < len"
  shows "0 < min (4096 - x mod 4096) (len - k)" "k + min (4096 - x mod 4096) (len - k) \<le> len"
  using assms mod_less_divisor [of 4096 x] by auto

lemma copy_to_loop_ok:
  assumes m: "map_ok a sp s" and acc: "accessible a sp True address (length bs)"
    and st: "stored sp address bs k s s1" "k \<le> length bs" "length bs < n + k"
  shows "\<exists>s'. copy_to_loop n a sp address bs k s1 = Inr (True, s') \<and> stored sp address bs (length bs) s s'"
  using st
proof (induction n arbitrary: k s1)
  case (Suc n)
  show ?case
  proof (cases "k < length bs")
    case True
    obtain pa where pa: "as_translate sp (address + k) = Some pa" "address + k < USIZE_LIM"
      using access_translate [OF acc, of "address + k"] True by auto
    define c where "c = min (4096 - (address + k) mod 4096) (length bs - k)"
    note cb = chunk_bounds [OF True, of "address + k", folded c_def]
    have "as_translate sp (address + j) \<noteq> None" if "j < k" for j
      using access_translate [OF acc, of "address + j"] that True by auto
    then have st': "stored sp address bs (k + c) s (write_phys pa (take c (drop k bs)) s1)"
      using acc by (intro stored_step [OF m _ Suc.prems(1) True pa(1) c_def]) (simp_all add: accessible_def)
    have "current_user_phys a sp (address + k) True = Inr (Some pa)"
      using current_user_phys_ok [OF acc, of "address + k"] pa(1) True by simp
    then have "copy_to_loop (Suc n) a sp address bs k s1
        = copy_to_loop n a sp address bs (k + c) (write_phys pa (take c (drop k bs)) s1)"
      using True pa(2) by (simp add: checked_add_def and_4095 c_def Let_def)
    then show ?thesis using Suc.IH [OF st'] cb Suc.prems(3) by simp
  next
    case False
    then show ?thesis using Suc.prems by auto
  qed
qed simp

lemma copy_from_loop_ok:
  assumes m: "map_ok a sp s" and acc: "accessible a sp False address len"
    and st: "k \<le> len" "len < n + k"
  shows "copy_from_loop n a sp address len (user_bytes sp s address k) s = Inr (Some (user_bytes sp s address len))"
  using st
proof (induction n arbitrary: k)
  case (Suc n)
  have l: "length (user_bytes sp s address k) = k" for k by (simp add: user_bytes_def)
  show ?case
  proof (cases "k < len")
    case True
    obtain pa where pa: "as_translate sp (address + k) = Some pa" "address + k < USIZE_LIM"
      using access_translate [OF acc, of "address + k"] True by auto
    define c where "c = min (4096 - (address + k) mod 4096) (len - k)"
    note cb = chunk_bounds [OF True, of "address + k", folded c_def]
    have nb: "c \<le> 4096 - (address + k) mod 4096" "c \<le> len - k" unfolding c_def by simp_all
    have lim: "address + len \<le> ADDRESS_LIMIT a" using acc by (simp add: accessible_def)
    have "as_translate sp (address + (k + j)) = Some (pa + j)" if "j < c" for j
      unfolding add.assoc [symmetric] by (rule translate_step [OF m pa(1)]) (use that nb lim True in linarith)+
    then have "read_phys pa c s = map (\<lambda>j. the (user_byte sp s (address + (k + j)))) [0..<c]"
      by (auto simp: read_phys_eq user_byte_def)
    moreover have "map (\<lambda>j. the (user_byte sp s (address + (k + j)))) [0..<c]
        = map (\<lambda>j. the (user_byte sp s (address + j))) [k..<k + c]"
      by (rule nth_equalityI) simp_all
    ultimately have rd: "user_bytes sp s address k @ read_phys pa c s = user_bytes sp s address (k + c)"
      unfolding user_bytes_def upt_add_eq_append [of 0 k c, simplified] by simp
    have "current_user_phys a sp (address + k) False = Inr (Some pa)"
      using current_user_phys_ok [OF acc, of "address + k"] pa(1) True by simp
    then have "copy_from_loop (Suc n) a sp address len (user_bytes sp s address k) s
        = copy_from_loop n a sp address len (user_bytes sp s address (k + c)) s"
      using True pa(2) rd by (simp add: checked_add_def and_4095 c_def Let_def l)
    then show ?thesis using Suc.IH [of "k + c"] cb Suc.prems(2) by simp
  next
    case False
    then show ?thesis using Suc.prems by (simp add: l)
  qed
qed simp

definition user_ok :: "arch \<Rightarrow> address_space \<Rightarrow> bool \<Rightarrow> usize \<Rightarrow> usize \<Rightarrow> bool" where
  "user_ok a sp write address len \<longleftrightarrow> address \<noteq> 0 \<and> address < ADDRESS_LIMIT a \<and> accessible a sp write address len"

lemma check_range_eq: "check_range a sp address len write = Inr (user_ok a sp write address len)"
  using limit_bounds(2) [of a]
  by (auto simp: check_range_def validate_range_eq user_ok_def checked_add_def accessible_def split: option.split)

lemma copy_to_run:
  assumes m: "map_ok a sp s"
  obtains s' where "copy_to a sp address bs s = Inr (user_ok a sp True address (length bs), s')"
    "if user_ok a sp True address (length bs) then stored sp address bs (length bs) s s' else s' = s"
  using copy_to_loop_ok [OF m _ stored_refl, of address bs "Suc (length bs)"]
  by (cases "user_ok a sp True address (length bs)") (auto simp: copy_to_def check_range_eq user_ok_def)

lemma copy_from_run:
  assumes m: "map_ok a sp s"
  shows "copy_from a sp address len s =
    Inr (if user_ok a sp False address len then Some (user_bytes sp s address len) else None)"
  using copy_from_loop_ok [OF m, of address len 0 "Suc len"]
  by (auto simp: copy_from_def check_range_eq user_ok_def user_bytes_def)

text \<open>Writing into a space (\<^verbatim>\<open>populate\<close>, \<^verbatim>\<open>write\<close>): the same loop without the check of each page.\<close>

lemma store_loop_ok:
  assumes m: "map_ok a sp s" and acc: "accessible a sp w address (length bs)"
    and st: "stored sp address bs k s s1" "k \<le> length bs" "length bs < n + k"
  shows "\<exists>s'. store_loop n sp address bs k s1 = Inr (Inr (), s') \<and> stored sp address bs (length bs) s s'"
  using st
proof (induction n arbitrary: k s1)
  case (Suc n)
  show ?case
  proof (cases "k < length bs")
    case True
    obtain pa where pa: "as_translate sp (address + k) = Some pa" "address + k < USIZE_LIM"
      using access_translate [OF acc, of "address + k"] True by auto
    define c where "c = min (4096 - (address + k) mod 4096) (length bs - k)"
    note cb = chunk_bounds [OF True, of "address + k", folded c_def]
    have "as_translate sp (address + j) \<noteq> None" if "j < k" for j
      using access_translate [OF acc, of "address + j"] that True by auto
    then have st': "stored sp address bs (k + c) s (write_phys pa (take c (drop k bs)) s1)"
      using acc by (intro stored_step [OF m _ Suc.prems(1) True pa(1) c_def]) (simp_all add: accessible_def)
    have "store_loop (Suc n) sp address bs k s1
        = store_loop n sp address bs (k + c) (write_phys pa (take c (drop k bs)) s1)"
      using True pa by (simp add: checked_add_def and_4095 c_def Let_def)
    then show ?thesis using Suc.IH [OF st'] cb Suc.prems(3) by simp
  next
    case False
    then show ?thesis using Suc.prems by auto
  qed
qed simp

lemma as_write_run:
  assumes m: "map_ok a sp s"
  obtains s' where "as_write a sp address bs s =
      Inr (if accessible a sp True address (length bs) \<and> address < ADDRESS_LIMIT a
           then Inr () else Inl BlockedByExistingMapping, s')"
    "if accessible a sp True address (length bs) \<and> address < ADDRESS_LIMIT a
     then stored sp address bs (length bs) s s' else s' = s"
proof -
  have v: "validate_range a sp address (length bs) True
      = Inr (accessible a sp True address (length bs) \<and> address < ADDRESS_LIMIT a)"
    by (cases bs) (auto simp: validate_range_eq accessible_def)
  show thesis
    using store_loop_ok [OF m _ stored_refl, of True address bs "Suc (length bs)"] that
    by (cases "accessible a sp True address (length bs) \<and> address < ADDRESS_LIMIT a") (auto simp: as_write_def v)
qed

end
