(* ===== verification/Kor_Vm_Fork.thy ===== *)
theory Kor_Vm_Fork
  imports Kor_Vm_Ops
begin

text \<open>
  New and forked address spaces.  A new root shares the entries of the upper half with the
  active root, so the space starts with the invariant as long as no user address lies there
  (\<open>upper_free\<close>, which only AArch64 does not guarantee: its user range covers the whole root).
\<close>

section \<open>A new root\<close>

definition upper_free :: "arch \<Rightarrow> mmu \<Rightarrow> bool" where
  "upper_free a s \<longleftrightarrow> (\<forall>i. 256 \<le> i \<and> i \<in> slots a \<longrightarrow> \<not> entry_present (pte a) (tables s (active_root s) i))"

lemma slots_lower: "a \<noteq> Aarch64 \<Longrightarrow> i \<in> slots a \<Longrightarrow> i < 256"
  by (cases a) (simp_all add: slots_def ADDRESS_LIMIT_def pte_def riscv64_def x86_64_def span_eq)

lemma upper_free_other: "a \<noteq> Aarch64 \<Longrightarrow> upper_free a s"
  using slots_lower by (force simp: upper_free_def)

lemma root_copy:
  fixes A l p c T T'
  assumes T': "T' = T(c := (\<lambda>i. if 256 \<le> i then T p i else 0))" and z: "\<not> entry_present A 0"
    and t: "tree A T l p" and c: "c \<notin> reach A T l p" and m: "meta_ok A T M l p" and st: "stat M c = (\<lambda>_. Invalid)"
    and l: "0 < l"
  shows "tree A T' l c" "reach A T' l c \<subseteq> insert c (reach A T l p)" "meta_ok A T' M l c"
proof -
  obtain k where k: "l = Suc k" using l by (cases l) auto
  have e: "T' c i = T p i" if "entry_present A (T' c i)" for i using that z by (auto simp: T' split: if_splits)
  have ch: "q \<in> reach A T l p" "q \<noteq> c"
    if "i < 512" "istable A (Suc k) (T p i)" "q \<in> reach A T k (entry_phys A (T p i) (Suc k))" for i q
    using reach_child [of i A k T p q] that c unfolding k by blast+
  have same: "T' q = T q" if "q \<noteq> c" for q using that by (simp add: T')
  have it: "istable A (Suc k) (T p i) \<and> T' c i = T p i" if "istable A (Suc k) (T' c i)" for i
    using that e [of i] by (simp add: istable_def)
  note cong = walk_cong [of A T k "entry_phys A (T p i) (Suc k)" T' for i]
  have w: "reach A T' k (entry_phys A (T p i) (Suc k)) = reach A T k (entry_phys A (T p i) (Suc k))"
    "tree A T' k (entry_phys A (T p i) (Suc k)) = tree A T k (entry_phys A (T p i) (Suc k))"
    "meta_ok A T' M k (entry_phys A (T p i) (Suc k)) = meta_ok A T M k (entry_phys A (T p i) (Suc k))"
    if "i < 512" "istable A (Suc k) (T p i)" for i
    using cong(2,3) [of i] meta_cong [of A T k "entry_phys A (T p i) (Suc k)" T' M M] ch(2) [OF that] same by simp_all
  show "tree A T' l c"
    unfolding k tree.simps
  proof (intro allI impI conjI)
    fix i assume i: "i < 512" "istable A (Suc k) (T' c i)"
    note i' = conjunct1 [OF it [OF i(2)]] conjunct2 [OF it [OF i(2)]]
    note tc = tree_child [OF t [unfolded k] i(1) i'(1)]
    show "tree A T' k (entry_phys A (T' c i) (Suc k))" unfolding i'(2) w(2) [OF i(1) i'(1)] by (rule tc(1))
    show "c \<notin> reach A T' k (entry_phys A (T' c i) (Suc k))"
      unfolding i'(2) w(1) [OF i(1) i'(1)] using ch(2) [OF i(1) i'(1)] by blast
    fix j assume j: "j < 512" "j \<noteq> i \<and> istable A (Suc k) (T' c j)"
    note j' = it [OF conjunct2 [OF j(2)]]
    show "reach A T' k (entry_phys A (T' c i) (Suc k)) \<inter> reach A T' k (entry_phys A (T' c j) (Suc k)) = {}"
      using tc(3) [OF j(1) conjunct1 [OF j(2)] conjunct1 [OF j']]
      unfolding i'(2) conjunct2 [OF j'] w(1) [OF i(1) i'(1)] w(1) [OF j(1) conjunct1 [OF j']] .
  qed
  show "reach A T' l c \<subseteq> insert c (reach A T l p)"
  proof
    fix q assume "q \<in> reach A T' l c"
    then consider "q = c" | i where "i < 512" "istable A (Suc k) (T' c i)"
        "q \<in> reach A T' k (entry_phys A (T' c i) (Suc k))" unfolding k by auto
    then show "q \<in> insert c (reach A T l p)"
    proof cases
      case 2
      note i' = conjunct1 [OF it [OF 2(2)]] conjunct2 [OF it [OF 2(2)]]
      show ?thesis using ch(1) [OF 2(1) i'(1)] 2(3) unfolding i'(2) w(1) [OF 2(1) i'(1)] by blast
    qed simp
  qed
  show "meta_ok A T' M l c"
    unfolding k meta_ok.simps
  proof (intro allI impI conjI)
    fix i :: nat assume i: "i < 512"
    show "entry_present A (T' c i)" "entry_is_leaf A (T' c i) (Suc k)" if "is_Mapped (stat M c i)"
      using that st by simp_all
    assume "istable A (Suc k) (T' c i)"
    then have i': "istable A (Suc k) (T p i)" "T' c i = T p i" using it by blast+
    have "meta_ok A T M k (entry_phys A (T p i) (Suc k))" using m i i'(1) unfolding k by simp
    then show "meta_ok A T' M k (entry_phys A (T' c i) (Suc k))" unfolding i'(2) w(3) [OF i i'(1)] .
  qed
qed

lemma as_empty_run:
  assumes sys: "sys_ok s" and rest: "at_rest s" and ok: "space_ok (pte a) (active_root s) s" and up: "upper_free a s"
  obtains "as_empty s = Inr (Inl OutOfMemory, s)" "free_ppns (frame_st s) = {}"
  | c s' where "as_empty s = Inr (Inr \<lparr>as_root = c, as_owned = True, pages = []\<rparr>, s')"
      "vm_inv a \<lparr>as_root = c, as_owned = True, pages = []\<rparr> s'" "c \<in> free_pages s"
      "free_ppns (frame_st s') = free_ppns (frame_st s) - {ppn c}"
      "managed_ppns (frame_st s') = managed_ppns (frame_st s)" "active_root s' = active_root s"
      "\<And>q. q \<notin> free_pages s \<Longrightarrow> page_bytes s' q = page_bytes s q"
      "\<And>q. q \<noteq> c \<Longrightarrow> tables s' q = tables s q" "metadata s' = metadata s"
proof (cases rule: alloc_frame_cases [OF sys])
  case 1
  then show thesis by (intro that(1)) (simp_all add: as_empty_def new_user_def)
next
  case (2 c f)
  let ?A = "pte a" let ?l = "LEVELS (pte a) - 1" let ?r = "active_root s"
  let ?sp = "\<lparr>as_root = c, as_owned = True, pages = []\<rparr>"
  define T' where "T' = (tables s)(c := (\<lambda>i. if 256 \<le> i then tables s ?r i else 0))"
  have c: "desc_ok c" "ppn c \<in> free_ppns (frame_st s)" using 2(2) by (simp_all add: free_pages_def ppn_def)
  have sub: "tree ?A (tables s) ?l ?r" "meta_ok ?A (tables s) (metadata s) ?l ?r"
    "\<And>q. q \<in> reach ?A (tables s) ?l ?r \<Longrightarrow> desc_ok q \<and> ppn q \<notin> free_ppns (frame_st s)"
    using ok unfolding space_ok_def sub_ok_def ppn_def by blast+
  have cr: "c \<notin> reach ?A (tables s) ?l ?r" using sub(3) [of c] c(2) by blast
  have st: "stat (metadata s) c = (\<lambda>_. Invalid)"
    using sys c(2) by (simp add: clear_meta_stat [symmetric] sys_ok_def ppn_def)
  have l: "0 < ?l" using arch.levels(1) [of a] by simp
  note rc = root_copy [OF T'_def arch.absent_0 sub(1) cr sub(2) st l]
  have cr': "c \<noteq> ?r" using cr by auto
  define s' where "s' = s\<lparr>frame_st := f, tables := T', page_bytes := (page_bytes s)(c := (\<lambda>_. 0))\<rparr>"
  have "sys_ok s'" using sys 2(3-5) by (auto simp: sys_ok_def s'_def)
  moreover have "desc_ok q \<and> q div PAGE_SIZE \<notin> free_ppns f" if "q \<in> reach ?A T' ?l c" for q
    using subsetD [OF rc(2) that] sub(3) [of q] c(1) 2(4) by (auto simp: ppn_def)
  then have "space_ok ?A c s'" using rc(1,3) by (simp add: space_ok_def sub_ok_def s'_def)
  moreover have slot: "\<not> entry_present ?A (T' c i)" if "i \<in> slots a" for i
    using up that by (auto simp: T'_def upper_free_def)
  then have "owned ?A s' ?l c (slots a)" by (auto simp: owned_def istable_def s'_def)
  moreover have "map_ok a ?sp s'" by (simp add: map_ok_def)
  moreover have "hw_agrees a ?sp s'"
  proof -
    obtain k where k: "?l = Suc k" using l by (cases ?l) auto
    have "hw_walk ?A T' x ?l c = None" if "x < ADDRESS_LIMIT a" for x
      using slot [OF index_slot [OF that]] unfolding k by (simp add: Let_def)
    then show ?thesis by (simp add: hw_agrees_def gran_def xlate_def hw_addr_def s'_def as_translate_def)
  qed
  ultimately have "vm_inv a ?sp s'" using rest by (simp add: vm_inv_def at_rest_def s'_def)
  moreover have "as_empty s = Inr (Inr ?sp, s')"
    using 2(1) cr' by (simp add: as_empty_def new_user_def zero_page_def Let_def s'_def T'_def fun_upd_def fun_eq_iff)
  ultimately show thesis
    using 2(2,4,5) by (intro that(2) [of c s']) (auto simp: s'_def T'_def ppn_def)
qed

section \<open>Fork\<close>

lemma copy_page_vm: "vm_inv a sp (copy_page src dst s) = vm_inv a sp s"
  by (rule vm_cong) (simp_all add: copy_page_def)

lemma not_is_mapped:
  assumes "va mod 4096 = 0" "va < ADDRESS_LIMIT a" "bt_get (pages sp) va = None"
  shows "\<not> is_mapped sp va"
proof -
  have "va < USIZE_LIM" using assms(2) limit_bounds(2) [of a] by simp
  then have "page_of va = va" using assms(1) by (metis add.right_neutral div_mult_mod_eq page_of_eq)
  then show ?thesis using assms(3) by (simp add: is_mapped_def)
qed

text \<open>The pages of \<open>xs\<close> have been copied into the space \<open>child'\<close>.\<close>

definition copied ::
  "(usize \<times> vm_page) list \<Rightarrow> address_space \<Rightarrow> mmu \<Rightarrow> address_space \<Rightarrow> mmu \<Rightarrow> bool" where
  "copied xs child s child' s' \<longleftrightarrow>
     (\<forall>x. x \<notin> fst ` set xs \<longrightarrow> bt_get (pages child') x = bt_get (pages child) x) \<and>
     (\<forall>va p. (va, p) \<in> set xs \<longrightarrow> (\<exists>c. bt_get (pages child') va = Some \<lparr>vp_phys = c, vp_flags = vp_flags p\<rparr> \<and>
        c \<in> free_pages s \<and> page_bytes s' c = page_bytes s (vp_phys p))) \<and>
     (\<forall>q. q \<notin> free_pages s \<longrightarrow> page_bytes s' q = page_bytes s q)"

lemma fork_loop_ok:
  assumes "vm_inv a child s" "distinct (map fst xs)" "LEVELS (pte a) * length xs \<le> card (free_ppns (frame_st s))"
    "\<And>va p. (va, p) \<in> set xs \<Longrightarrow> va mod 4096 = 0 \<and> va < ADDRESS_LIMIT a \<and> contains (vp_flags p) FLAG_U \<and>
       flags_ok a (vp_flags p) \<and> bt_get (pages child) va = None \<and> vp_phys p \<notin> free_pages s"
  shows "\<exists>child' s'. fork_loop a xs child s = Inr (Inr child', s') \<and> vm_inv a child' s' \<and>
    as_root child' = as_root child \<and> as_owned child' = as_owned child \<and> copied xs child s child' s'"
  using assms
proof (induction xs arbitrary: child s)
  case Nil
  then show ?case by (simp add: copied_def)
next
  case (Cons x xs)
  obtain va p where x: "x = (va, p)" by (cases x)
  have p: "va mod 4096 = 0" "va < ADDRESS_LIMIT a" "contains (vp_flags p) FLAG_U" "flags_ok a (vp_flags p)"
      "bt_get (pages child) va = None" "vp_phys p \<notin> free_pages s"
    using Cons.prems(4) [of va p] x by simp_all
  have nm: "\<not> is_mapped child va" by (rule not_is_mapped [OF p(1,2,5)])
  from Cons.prems(1) p(4) show ?case
  proof (rule map_zeroed_run [where va = va])
    fix r s1
    assume run: "map_zeroed a child va (vp_flags p) s = Inr (r, case r of
        Inr phys \<Rightarrow> put va \<lparr>vp_phys = phys, vp_flags = vp_flags p\<rparr> child | Inl _ \<Rightarrow> child, s1)"
      and m: "if va mod 4096 \<noteq> 0 \<or> ADDRESS_LIMIT a \<le> va \<or> \<not> contains (vp_flags p) FLAG_U \<or> is_mapped child va
        then r = Inl BlockedByExistingMapping \<and> s1 = s else mapped_fresh a child va (vp_flags p) s r s1"
    have mf: "mapped_fresh a child va (vp_flags p) s r s1" using m p(1-3) nm by simp
    have card: "card (free_ppns (frame_st s)) \<ge> LEVELS (pte a)" using Cons.prems(3) by simp
    obtain c where r: "r = Inr c"
      using mf card arch.levels(1) [of a] by (cases r) (auto simp: mapped_fresh_def)
    let ?ch = "put va \<lparr>vp_phys = c, vp_flags = vp_flags p\<rparr> child"
    define s2 where "s2 = copy_page (vp_phys p) c s1"
    have inv: "vm_inv a ?ch s1" and c: "c \<in> free_pages s"
      and fr: "free_ppns (frame_st s1) \<subseteq> free_ppns (frame_st s)"
      and cd: "card (free_ppns (frame_st s)) \<le> card (free_ppns (frame_st s1)) + LEVELS (pte a)"
      and pb: "\<And>q. q \<notin> free_pages s \<Longrightarrow> page_bytes s1 q = page_bytes s q"
      using mf unfolding r mapped_fresh_def sum.case by blast+
    have fp: "free_pages s2 = free_pages s1" "frame_st s2 = frame_st s1"
      by (simp_all add: s2_def copy_page_def free_pages_def)
    have sub: "free_pages s1 \<subseteq> free_pages s" using fr by (auto simp: free_pages_def)
    have c1: "c \<notin> free_pages s1"
      using held_not_free_page [OF map_okD(5) [OF vm_invD(5) [OF inv]], of va] by simp
    have pb2: "page_bytes s2 c = page_bytes s (vp_phys p)"
      "\<And>q. q \<notin> free_pages s \<Longrightarrow> page_bytes s2 q = page_bytes s q"
      using pb p(6) c by (auto simp: s2_def copy_page_def)
    have nva: "va \<notin> fst ` set xs" "distinct (map fst xs)" using Cons.prems(2) x by simp_all
    have "\<exists>child' s'. fork_loop a xs ?ch s2 = Inr (Inr child', s') \<and> vm_inv a child' s' \<and>
        as_root child' = as_root ?ch \<and> as_owned child' = as_owned ?ch \<and> copied xs ?ch s2 child' s'"
    proof (rule Cons.IH)
      show "vm_inv a ?ch s2" using inv by (simp add: s2_def copy_page_vm)
      show "LEVELS (pte a) * length xs \<le> card (free_ppns (frame_st s2))" using cd Cons.prems(3) fp(2) by simp
      fix va' p' assume "(va', p') \<in> set xs"
      then show "va' mod 4096 = 0 \<and> va' < ADDRESS_LIMIT a \<and> contains (vp_flags p') FLAG_U \<and>
         flags_ok a (vp_flags p') \<and> bt_get (pages ?ch) va' = None \<and> vp_phys p' \<notin> free_pages s2"
        using Cons.prems(4) [of va' p'] nva(1) sub fp(1) by force
    qed (rule nva(2))
    then obtain child' s' where ih: "fork_loop a xs ?ch s2 = Inr (Inr child', s')" "vm_inv a child' s'"
        "as_root child' = as_root child" "as_owned child' = as_owned child" "copied xs ?ch s2 child' s'" by auto
    note cp = ih(5) [unfolded copied_def fp(1)]
    have a1: "bt_get (pages child') y = bt_get (pages child) y" if "y \<notin> fst ` set (x # xs)" for y
      using cp that x by simp
    have a2: "\<exists>c. bt_get (pages child') va' = Some \<lparr>vp_phys = c, vp_flags = vp_flags p'\<rparr> \<and>
        c \<in> free_pages s \<and> page_bytes s' c = page_bytes s (vp_phys p')" if "(va', p') \<in> set (x # xs)" for va' p'
    proof (cases "(va', p') = x")
      case True
      have "page_bytes s' c = page_bytes s2 c" using cp c1 by blast
      then show ?thesis using True x cp nva(1) c pb2(1) by simp
    next
      case False
      then have i: "(va', p') \<in> set xs" using that by simp
      have src: "vp_phys p' \<notin> free_pages s" using Cons.prems(4) [of va' p'] that by blast
      obtain d where d: "bt_get (pages child') va' = Some \<lparr>vp_phys = d, vp_flags = vp_flags p'\<rparr>"
          "d \<in> free_pages s1" "page_bytes s' d = page_bytes s2 (vp_phys p')" using cp i by blast
      then show ?thesis using sub pb2(2) [OF src] by auto
    qed
    have a3: "page_bytes s' q = page_bytes s q" if "q \<notin> free_pages s" for q
      using cp pb2(2) [OF that] that sub by auto
    have "fork_loop a (x # xs) child s = Inr (Inr child', s')"
      using run ih(1) by (simp add: x r s2_def)
    then show ?thesis using ih(2-4) a1 a2 a3 unfolding copied_def by blast
  qed
qed

lemma as_fork_run:
  assumes inv: "vm_inv a sp s" and ok: "space_ok (pte a) (active_root s) s" and up: "upper_free a s"
    and room: "LEVELS (pte a) * length (pages sp) < card (free_ppns (frame_st s))"
  obtains child s' where "as_fork a sp s = Inr (Inr child, s')" "vm_inv a child s'" "as_owned child"
    "copied (pages sp) \<lparr>as_root = 0, as_owned = True, pages = []\<rparr> s child s'"
proof -
  note i = vm_invD [OF inv]
  have wf: "bt_wf (pages sp)" using i(5) by (simp add: map_ok_def)
  from i(1,2) ok up show thesis
  proof (rule as_empty_run)
    assume "free_ppns (frame_st s) = {}"
    then show thesis using room by simp
  next
    fix c s1
    assume e: "as_empty s = Inr (Inr \<lparr>as_root = c, as_owned = True, pages = []\<rparr>, s1)"
      "vm_inv a \<lparr>as_root = c, as_owned = True, pages = []\<rparr> s1" "c \<in> free_pages s"
      "free_ppns (frame_st s1) = free_ppns (frame_st s) - {ppn c}"
      "\<And>q. q \<notin> free_pages s \<Longrightarrow> page_bytes s1 q = page_bytes s q"
    have c: "ppn c \<in> free_ppns (frame_st s)" using e(3) by (simp add: free_pages_def ppn_def)
    have cd: "LEVELS (pte a) * length (pages sp) \<le> card (free_ppns (frame_st s1))"
      using room card_Suc_Diff1 [OF finite_free c] unfolding e(4) by linarith
    have sub: "free_pages s1 \<subseteq> free_pages s" using e(4) by (auto simp: free_pages_def)
    have src: "vp_phys p \<notin> free_pages s" if "(va, p) \<in> set (pages sp)" for va p
      using held_not_free_page [OF map_okD(5) [OF i(5)]] that bt_get_Some_set [OF wf] by blast
    have "\<exists>child s'. fork_loop a (pages sp) \<lparr>as_root = c, as_owned = True, pages = []\<rparr> s1 = Inr (Inr child, s') \<and>
        vm_inv a child s' \<and> as_root child = as_root \<lparr>as_root = c, as_owned = True, pages = []\<rparr> \<and>
        as_owned child = as_owned \<lparr>as_root = c, as_owned = True, pages = []\<rparr> \<and>
        copied (pages sp) \<lparr>as_root = c, as_owned = True, pages = []\<rparr> s1 child s'"
    proof (rule fork_loop_ok [OF e(2) bt_wf_distinct [OF wf] cd])
      fix va p assume m: "(va, p) \<in> set (pages sp)"
      then have "bt_get (pages sp) va = Some p" using bt_get_Some_set [OF wf] by blast
      from map_okD [OF i(5) this] show "va mod 4096 = 0 \<and> va < ADDRESS_LIMIT a \<and> contains (vp_flags p) FLAG_U \<and>
          flags_ok a (vp_flags p) \<and> bt_get (pages \<lparr>as_root = c, as_owned = True, pages = []\<rparr>) va = None \<and>
          vp_phys p \<notin> free_pages s1"
        using src [OF m] sub by auto
    qed
    then obtain child s' where f: "fork_loop a (pages sp) \<lparr>as_root = c, as_owned = True, pages = []\<rparr> s1 = Inr (Inr child, s')"
        "vm_inv a child s'" "as_owned child"
        "copied (pages sp) \<lparr>as_root = c, as_owned = True, pages = []\<rparr> s1 child s'" by auto
    show thesis
    proof (rule that)
      show "as_fork a sp s = Inr (Inr child, s')" using e(1) f(1) by (simp add: as_fork_def)
      show "copied (pages sp) \<lparr>as_root = 0, as_owned = True, pages = []\<rparr> s child s'"
        using f(4) sub e(5) src unfolding copied_def by (auto 0 3 simp: subset_iff)
    qed (use f in blast)+
  qed
qed

end
