(* ===== verification/Kor_Vm_Remap.thy ===== *)
theory Kor_Vm_Remap
  imports Kor_Vm_Ops
begin

text \<open>
  Changing the permissions of a range (\<^verbatim>\<open>protect_range\<close>).  The operation removes the old pages,
  maps them again with the new permissions and undoes that when a table cannot be allocated.
  The proofs follow the pages as a partial map \<open>M\<close> (\<open>vmi\<close>), since the operation changes the
  tables first and the \<^verbatim>\<open>BTreeMap\<close> of the space last.
\<close>

section \<open>The invariant over a partial map\<close>

definition hold :: "arch \<Rightarrow> usize \<Rightarrow> mmu \<Rightarrow> usize \<Rightarrow> bool" where
  "hold a root s q \<longleftrightarrow> held a \<lparr>as_root = root, as_owned = False, pages = []\<rparr> s q"

definition vmi :: "arch \<Rightarrow> usize \<Rightarrow> (usize \<Rightarrow> vm_page option) \<Rightarrow> mmu \<Rightarrow> bool" where
  "vmi a root M s \<longleftrightarrow> active_root s = root \<and> (\<exists>sp. as_root sp = root \<and> bt_get (pages sp) = M \<and> vm_inv a sp s)"

definition loose :: "arch \<Rightarrow> usize \<Rightarrow> (usize \<Rightarrow> vm_page option) \<Rightarrow> mmu \<Rightarrow> usize \<Rightarrow> bool" where
  "loose a root M s q \<longleftrightarrow> hold a root s q \<and> (\<forall>va p. M va = Some p \<longrightarrow> vp_phys p \<noteq> q)"

lemma hold_held: "hold a (as_root sp) s q = held a sp s q"
  by (simp add: hold_def held_def table_pages_def)

lemma loose_spare: "loose a (as_root sp) (bt_get (pages sp)) s q = spare a sp s q"
  by (simp add: loose_def hold_held spare_def)

lemma vm_ext:
  assumes "vm_inv a sp s" "as_root sp' = as_root sp" "bt_wf (pages sp')" "bt_get (pages sp') = bt_get (pages sp)"
  shows "vm_inv a sp' s"
proof -
  have h: "held a sp' s q = held a sp s q" for q using assms(2) by (simp add: held_def table_pages_def)
  have t: "as_translate sp' x = as_translate sp x" for x using assms(4) by (simp add: as_translate_def)
  show ?thesis
    using assms(1,3) unfolding vm_inv_def map_ok_def page_ok_def hw_agrees_def assms(2,4) h t by blast
qed

text \<open>What a step may not disturb: the frames held, and their bytes outside \<open>Z\<close>.\<close>

definition carries :: "arch \<Rightarrow> usize \<Rightarrow> usize set \<Rightarrow> mmu \<Rightarrow> mmu \<Rightarrow> bool" where
  "carries a root Z s s' \<longleftrightarrow> managed_ppns (frame_st s') = managed_ppns (frame_st s) \<and>
     (\<forall>q. hold a root s q \<longrightarrow> hold a root s' q \<and> (q \<notin> Z \<longrightarrow> page_bytes s' q = page_bytes s q))"

lemma carries_refl [simp]: "carries a root Z s s"
  by (simp add: carries_def)

lemma carries_trans: "carries a root Z s s' \<Longrightarrow> carries a root Z s' s'' \<Longrightarrow> carries a root Z s s''"
  unfolding carries_def by auto

lemma carries_mono: "carries a root Z s s' \<Longrightarrow> Z \<subseteq> Z' \<Longrightarrow> carries a root Z' s s'"
  unfolding carries_def by blast

lemma loose_carries: "loose a root M s q \<Longrightarrow> carries a root Z s s' \<Longrightarrow> loose a root M s' q"
  unfolding loose_def carries_def by blast

lemma vmi_map:
  assumes inv: "vmi a root M s" and c: "loose a root M s c"
    and va: "va mod 4096 = 0" "va < ADDRESS_LIMIT a" "M va = None" and fl: "contains flags FLAG_U" "flags_ok a flags"
  obtains r s' where "active_map a va c flags s = Inr (r, s')" "r = Inr () \<or> r = Inl OutOfMemory"
    "vmi a root (if r = Inr () then M(va \<mapsto> \<lparr>vp_phys = c, vp_flags = flags\<rparr>) else M) s'" "carries a root {} s s'"
    "r \<noteq> Inr () \<Longrightarrow> card (free_ppns (frame_st s)) < LEVELS (pte a) - 1"
    "card (free_ppns (frame_st s)) \<le> card (free_ppns (frame_st s')) + (LEVELS (pte a) - 1)"
proof -
  obtain sp where sp: "as_root sp = root" "bt_get (pages sp) = M" "vm_inv a sp s" "active_root s = root"
    using inv unfolding vmi_def by blast
  have c': "spare a sp s c" using c loose_spare [of a sp s c] sp(1,2) by simp
  have v': "bt_get (pages sp) va = None" using va(3) sp(2) by simp
  from sp(3) c' va(1,2) v' fl show thesis
  proof (rule vm_map)
    fix r s'
    assume m: "addrspace_map (pte a) (as_root sp) va c flags Page4K s = Inr (r, s')" "r \<in> {Inr (), Inl OutOfMemory}"
      "vm_inv a (if r = Inr () then put va \<lparr>vp_phys = c, vp_flags = flags\<rparr> sp else sp) s'"
      "\<And>q. q \<notin> free_pages s \<Longrightarrow> page_bytes s' q = page_bytes s q" "active_root s' = active_root s"
      "managed_ppns (frame_st s') = managed_ppns (frame_st s)" "\<And>q. held a sp s q \<Longrightarrow> held a sp s' q"
      "r \<noteq> Inr () \<Longrightarrow> card (free_ppns (frame_st s)) < LEVELS (pte a) - 1"
      "card (free_ppns (frame_st s)) \<le> card (free_ppns (frame_st s')) + (LEVELS (pte a) - 1)"
    have "carries a root {} s s'"
      using m(4,6,7) held_not_free_page unfolding carries_def sp(1) [symmetric] hold_held by blast
    moreover have "vmi a root (if r = Inr () then M(va \<mapsto> \<lparr>vp_phys = c, vp_flags = flags\<rparr>) else M) s'"
      unfolding vmi_def using m(3,5) sp(1,2,4)
      by (intro conjI exI [of _ "if r = Inr () then put va \<lparr>vp_phys = c, vp_flags = flags\<rparr> sp else sp"])
        (auto simp: fun_eq_iff)
    ultimately show thesis using m(1,2,8,9) sp(1,4) by (intro that [of r s']) (auto simp: active_map_def)
  qed
qed

lemma vmi_unmap:
  assumes inv: "vmi a root M s" and p: "M va = Some p"
  obtains s' where "active_unmap a va s = Inr (Inr (vp_phys p), s')" "vmi a root (M(va := None)) s'"
    "carries a root {} s s'" "loose a root (M(va := None)) s' (vp_phys p)"
    "free_ppns (frame_st s) \<subseteq> free_ppns (frame_st s')"
proof -
  obtain sp where sp: "as_root sp = root" "bt_get (pages sp) = M" "vm_inv a sp s" "active_root s = root"
    using inv unfolding vmi_def by blast
  have p': "bt_get (pages sp) va = Some p" using p sp(2) by simp
  from sp(3) p' show thesis
  proof (rule vm_unmap)
    fix s'
    assume m: "addrspace_unmap (pte a) (as_root sp) va Page4K s = Inr (Inr (vp_phys p), s')"
      "vm_inv a (del va sp) s'" "spare a (del va sp) s' (vp_phys p)"
      "page_bytes s' = page_bytes s" "active_root s' = active_root s"
      "managed_ppns (frame_st s') = managed_ppns (frame_st s)" "\<And>q. held a sp s q \<Longrightarrow> held a sp s' q"
      "free_ppns (frame_st s) \<subseteq> free_ppns (frame_st s')"
    have M': "bt_get (pages (del va sp)) = M(va := None)" using sp(2) by (simp add: fun_eq_iff)
    have "carries a root {} s s'"
      using m(4,6,7) unfolding carries_def sp(1) [symmetric] hold_held by simp
    moreover have "vmi a root (M(va := None)) s'"
      unfolding vmi_def using m(2,5) sp(1,4) M' by (intro conjI exI [of _ "del va sp"]) simp_all
    moreover have "loose a root (M(va := None)) s' (vp_phys p)"
      using m(3) loose_spare [of a "del va sp" s' "vp_phys p"] sp(1) unfolding M' by simp
    ultimately show thesis using m(1,8) sp(1,4) by (intro that [of s']) (simp_all add: active_unmap_def)
  qed
qed

section \<open>Undoing\<close>

lemma unmap_back:
  assumes "vmi a root M s" "distinct vas" "\<And>va. va \<in> set vas \<Longrightarrow> M va \<noteq> None"
  shows "\<exists>s'. for_list (ignoring (active_unmap a)) vas s = Inr s' \<and>
    vmi a root (\<lambda>x. if x \<in> set vas then None else M x) s' \<and> carries a root {} s s'"
  using assms
proof (induction vas arbitrary: M s)
  case (Cons va vas)
  obtain p where p: "M va = Some p" using Cons.prems(3) by fastforce
  from Cons.prems(1) p show ?case
  proof (rule vmi_unmap)
    fix s1
    assume u: "active_unmap a va s = Inr (Inr (vp_phys p), s1)" "vmi a root (M(va := None)) s1" "carries a root {} s s1"
    have "(M(va := None)) x \<noteq> None" if "x \<in> set vas" for x using Cons.prems(2,3) that by auto
    from Cons.IH [OF u(2) _ this] Cons.prems(2)
    obtain s' where s': "for_list (ignoring (active_unmap a)) vas s1 = Inr s'"
        "vmi a root (\<lambda>x. if x \<in> set vas then None else (M(va := None)) x) s'" "carries a root {} s1 s'" by auto
    have "(\<lambda>x. if x \<in> set vas then None else (M(va := None)) x) = (\<lambda>x. if x \<in> set (va # vas) then None else M x)"
      by (simp add: fun_eq_iff)
    moreover have "ignoring (active_unmap a) va s = Inr s1" using u(1) by (simp add: ignoring_def)
    ultimately show ?thesis using s'(1,2) carries_trans [OF u(3) s'(3)] by simp
  qed
qed simp

text \<open>Pages that may be mapped: aligned user addresses with frames held for the space and mapped nowhere.\<close>

definition mappable ::
  "arch \<Rightarrow> usize \<Rightarrow> (usize \<Rightarrow> vm_page option) \<Rightarrow> mmu \<Rightarrow> (usize \<times> vm_page) list \<Rightarrow> bool" where
  "mappable a root M s xs \<longleftrightarrow> distinct (map fst xs) \<and> distinct (map (\<lambda>x. vp_phys (snd x)) xs) \<and>
     (\<forall>(va, p) \<in> set xs. va mod 4096 = 0 \<and> va < ADDRESS_LIMIT a \<and> M va = None \<and> contains (vp_flags p) FLAG_U \<and>
        flags_ok a (vp_flags p) \<and> loose a root M s (vp_phys p))"

lemma mappable_Cons:
  assumes "mappable a root M s ((va, p) # xs)"
  shows "va mod 4096 = 0" "va < ADDRESS_LIMIT a" "M va = None" "contains (vp_flags p) FLAG_U" "flags_ok a (vp_flags p)"
    "loose a root M s (vp_phys p)" "va \<notin> fst ` set xs" "vp_phys p \<notin> (\<lambda>x. vp_phys (snd x)) ` set xs"
  using assms unfolding mappable_def by auto

lemma mappable_next:
  assumes "mappable a root M s ((va, p) # xs)" "carries a root {} s s'" "vp_phys p' = vp_phys p"
  shows "mappable a root M s' xs" "mappable a root (M(va \<mapsto> p')) s' xs"
proof -
  note c = mappable_Cons [OF assms(1)]
  have l: "loose a root M s' (vp_phys q)" "loose a root (M(va \<mapsto> p')) s' (vp_phys q)" if "(x, q) \<in> set xs" for x q
  proof -
    have "loose a root M s (vp_phys q)" using assms(1) that unfolding mappable_def by auto
    then show 1: "loose a root M s' (vp_phys q)" by (rule loose_carries [OF _ assms(2)])
    have "vp_phys q \<noteq> vp_phys p'" using c(8) that assms(3) by force
    then show "loose a root (M(va \<mapsto> p')) s' (vp_phys q)" using 1 unfolding loose_def by auto
  qed
  show "mappable a root M s' xs" "mappable a root (M(va \<mapsto> p')) s' xs"
    using assms(1) l c(7) unfolding mappable_def by (force simp: image_iff)+
qed

lemma map_back:
  assumes "vmi a root M s" "mappable a root M s old"
  shows "\<exists>s' kept. for_list (\<lambda>(va, m). ignoring (\<lambda>m. active_map a va (vp_phys m) (vp_flags m)) m) old s = Inr s' \<and>
    set kept \<subseteq> set old \<and> distinct (map fst kept) \<and> vmi a root (M ++ map_of kept) s' \<and> carries a root {} s s'"
  using assms
proof (induction old arbitrary: M s)
  case Nil
  then show ?case by (intro exI [of _ s] exI [of _ "[]"]) simp
next
  case (Cons x old)
  obtain va p where x: "x = (va, p)" by (cases x)
  note c = mappable_Cons [OF Cons.prems(2) [unfolded x]]
  from Cons.prems(1) c(6,1-5) show ?case
  proof (rule vmi_map)
    fix r s1
    assume m: "active_map a va (vp_phys p) (vp_flags p) s = Inr (r, s1)" "r = Inr () \<or> r = Inl OutOfMemory"
      "vmi a root (if r = Inr () then M(va \<mapsto> \<lparr>vp_phys = vp_phys p, vp_flags = vp_flags p\<rparr>) else M) s1" "carries a root {} s s1"
    define M1 where "M1 = (if r = Inr () then M(va \<mapsto> p) else M)"
    have "\<lparr>vp_phys = vp_phys p, vp_flags = vp_flags p\<rparr> = p" by simp
    then have M1: "vmi a root M1 s1" using m(3) unfolding M1_def by (simp only:)
    have "mappable a root M1 s1 old"
      using mappable_next [OF Cons.prems(2) [unfolded x] m(4) refl] by (simp add: M1_def)
    from Cons.IH [OF M1 this]
    obtain s' kept where k: "for_list (\<lambda>(va, m). ignoring (\<lambda>m. active_map a va (vp_phys m) (vp_flags m)) m) old s1 = Inr s'"
        "set kept \<subseteq> set old" "distinct (map fst kept)" "vmi a root (M1 ++ map_of kept) s'" "carries a root {} s1 s'" by blast
    define kept' where "kept' = (if r = Inr () then x # kept else kept)"
    have nv: "va \<notin> fst ` set kept" using c(7) k(2) by auto
    then have "map_of kept va = None" by (simp add: map_of_eq_None_iff)
    then have eq: "M1 ++ map_of kept = M ++ map_of kept'"
      by (cases "r = Inr ()") (auto simp: M1_def kept'_def x fun_eq_iff map_add_def split: option.split)
    have "for_list (\<lambda>(va, m). ignoring (\<lambda>m. active_map a va (vp_phys m) (vp_flags m)) m) (x # old) s = Inr s'"
      using m(1) k(1) by (simp add: x ignoring_def)
    moreover have "set kept' \<subseteq> set (x # old)" "distinct (map fst kept')"
      using k(2,3) nv by (auto simp: kept'_def x)
    ultimately show ?thesis using k(4) carries_trans [OF m(4) k(5)] unfolding eq by blast
  qed
qed

lemma mappable_carries: "mappable a root M s xs \<Longrightarrow> carries a root Z s s' \<Longrightarrow> mappable a root M s' xs"
  unfolding mappable_def using loose_carries by fast

lemma mappable_item:
  assumes "mappable a root M s (mapped @ (va, p) # xs)"
  shows "va mod 4096 = 0" "va < ADDRESS_LIMIT a" "(M ++ map_of mapped) va = None" "contains (vp_flags p) FLAG_U"
    "flags_ok a (vp_flags p)" "loose a root (M ++ map_of mapped) s (vp_phys p)"
    "(M ++ map_of mapped)(va \<mapsto> p) = M ++ map_of (mapped @ [(va, p)])"
proof -
  have n: "map_of mapped va = None" using assms by (auto simp: mappable_def map_of_eq_None_iff)
  have l: "loose a root M s (vp_phys p)" "M va = None" using assms by (simp_all add: mappable_def)
  show "(M ++ map_of mapped) va = None" using n l(2) by (simp add: map_add_None)
  have "vp_phys q \<noteq> vp_phys p" if "map_of mapped x = Some q" for x q
  proof -
    have "vp_phys p \<notin> (\<lambda>y. vp_phys (snd y)) ` set mapped" using assms by (simp add: mappable_def)
    moreover have "vp_phys q \<in> (\<lambda>y. vp_phys (snd y)) ` set mapped"
      using imageI [OF map_of_SomeD [OF that], of "\<lambda>y. vp_phys (snd y)"] by simp
    ultimately show ?thesis by metis
  qed
  then show "loose a root (M ++ map_of mapped) s (vp_phys p)"
    using l(1) unfolding loose_def by (auto simp: map_add_Some_iff)
  show "(M ++ map_of mapped)(va \<mapsto> p) = M ++ map_of (mapped @ [(va, p)])"
  proof (rule ext)
    fix x
    show "((M ++ map_of mapped)(va \<mapsto> p)) x = (M ++ map_of (mapped @ [(va, p)])) x"
      using n by (cases "x = va"; cases "map_of mapped x") (simp_all add: map_add_def)
  qed
qed (use assms in \<open>simp_all add: mappable_def\<close>)

lemma roll_back:
  assumes inv: "vmi a root (M ++ map_of mapped) s" and m: "distinct (map fst mapped)" "\<And>va. va \<in> fst ` set mapped \<Longrightarrow> M va = None"
    and old: "mappable a root M s old"
  shows "\<exists>s' kept. bnd (for_list (ignoring (active_unmap a)) (map fst mapped) s)
      (for_list (\<lambda>(va, m). ignoring (\<lambda>m. active_map a va (vp_phys m) (vp_flags m)) m) old) = Inr s' \<and>
    set kept \<subseteq> set old \<and> distinct (map fst kept) \<and> vmi a root (M ++ map_of kept) s' \<and> carries a root {} s s'"
proof -
  have "(M ++ map_of mapped) va \<noteq> None" if "va \<in> set (map fst mapped)" for va
    using that by (auto simp: map_add_None map_of_eq_None_iff)
  from unmap_back [OF inv m(1) this]
  obtain s1 where s1: "for_list (ignoring (active_unmap a)) (map fst mapped) s = Inr s1"
      "vmi a root (\<lambda>x. if x \<in> set (map fst mapped) then None else (M ++ map_of mapped) x) s1" "carries a root {} s s1" by blast
  have "(\<lambda>x. if x \<in> set (map fst mapped) then None else (M ++ map_of mapped) x) = M"
  proof (rule ext)
    fix x
    show "(if x \<in> set (map fst mapped) then None else (M ++ map_of mapped) x) = M x"
    proof (cases "x \<in> fst ` set mapped")
      case False
      then have "map_of mapped x = None" by (simp add: map_of_eq_None_iff)
      then show ?thesis using False by (simp add: map_add_def)
    qed (simp add: m(2))
  qed
  then have "vmi a root M s1" using s1(2) by simp
  from map_back [OF this mappable_carries [OF old s1(3)]]
  show ?thesis using s1(1) carries_trans [OF s1(3)] by auto
qed

text \<open>How a loop that maps the pages \<open>new\<close>, undoing into \<open>old\<close>, ends.\<close>

definition remapped ::
  "arch \<Rightarrow> usize \<Rightarrow> usize set \<Rightarrow> (usize \<Rightarrow> vm_page option) \<Rightarrow> (usize \<times> vm_page) list \<Rightarrow> (usize \<times> vm_page) list
     \<Rightarrow> mmu \<Rightarrow> MapError + unit \<Rightarrow> mmu \<Rightarrow> bool" where
  "remapped a root Z M old new s r s' \<longleftrightarrow> carries a root Z s s' \<and>
     (r = Inr () \<and> vmi a root (M ++ map_of new) s' \<or>
      r = Inl OutOfMemory \<and> (\<exists>kept. set kept \<subseteq> set old \<and> distinct (map fst kept) \<and> vmi a root (M ++ map_of kept) s'))"

lemma remapped_step:
  "carries a root Z s s1 \<Longrightarrow> remapped a root Z M old new s1 r s' \<Longrightarrow> remapped a root Z M old new s r s'"
  unfolding remapped_def using carries_trans by blast

lemma distinct_mapped: "mappable a root M s (mapped @ xs) \<Longrightarrow> distinct (map fst mapped)"
  "mappable a root M s (mapped @ xs) \<Longrightarrow> va \<in> fst ` set mapped \<Longrightarrow> M va = None"
  by (auto simp: mappable_def)

lemma protect_loop_ok:
  assumes "vmi a root (M ++ map_of mapped) s" "mappable a root M s (mapped @ map (\<lambda>(va, p). (va, p\<lparr>vp_flags := flags\<rparr>)) xs)"
    "mappable a root M s old"
  shows "\<exists>r s'. protect_loop a flags old (map fst mapped) xs s = Inr (r, s') \<and>
    remapped a root {} M old (mapped @ map (\<lambda>(va, p). (va, p\<lparr>vp_flags := flags\<rparr>)) xs) s r s' \<and>
    (r \<noteq> Inr () \<longrightarrow> card (free_ppns (frame_st s)) < (LEVELS (pte a) - 1) * length xs)"
  using assms
proof (induction xs arbitrary: mapped s)
  case Nil
  then show ?case by (simp add: remapped_def)
next
  case (Cons x xs)
  obtain va p where x: "x = (va, p)" by (cases x)
  let ?u = "\<lambda>(va, p). (va, p\<lparr>vp_flags := flags\<rparr>)"
  have eq: "mapped @ map ?u (x # xs) = mapped @ (va, p\<lparr>vp_flags := flags\<rparr>) # map ?u xs"
    "mapped @ map ?u (x # xs) = (mapped @ [(va, p\<lparr>vp_flags := flags\<rparr>)]) @ map ?u xs" by (simp_all add: x)
  note it = mappable_item [OF Cons.prems(2) [unfolded eq(1)]]
  from Cons.prems(1) it(6,1-3) it(4,5) show ?case
  proof (rule vmi_map)
    fix r s1
    assume m: "active_map a va (vp_phys (p\<lparr>vp_flags := flags\<rparr>)) (vp_flags (p\<lparr>vp_flags := flags\<rparr>)) s = Inr (r, s1)"
      "r = Inr () \<or> r = Inl OutOfMemory"
      "vmi a root (if r = Inr () then (M ++ map_of mapped)(va \<mapsto> \<lparr>vp_phys = vp_phys (p\<lparr>vp_flags := flags\<rparr>),
         vp_flags = vp_flags (p\<lparr>vp_flags := flags\<rparr>)\<rparr>) else M ++ map_of mapped) s1"
      "carries a root {} s s1" "r \<noteq> Inr () \<Longrightarrow> card (free_ppns (frame_st s)) < LEVELS (pte a) - 1"
      "card (free_ppns (frame_st s)) \<le> card (free_ppns (frame_st s1)) + (LEVELS (pte a) - 1)"
    have pe: "\<lparr>vp_phys = vp_phys (p\<lparr>vp_flags := flags\<rparr>), vp_flags = vp_flags (p\<lparr>vp_flags := flags\<rparr>)\<rparr> = p\<lparr>vp_flags := flags\<rparr>" by simp
    have am: "active_map a va (vp_phys p) flags s = Inr (r, s1)" using m(1) by simp
    note old1 = mappable_carries [OF Cons.prems(3) m(4)]
    show ?thesis
    proof (cases "r = Inr ()")
      case True
      have v: "vmi a root (M ++ map_of (mapped @ [(va, p\<lparr>vp_flags := flags\<rparr>)])) s1" using m(3) True unfolding pe it(7) by simp
      have "\<exists>r s'. protect_loop a flags old (map fst (mapped @ [(va, p\<lparr>vp_flags := flags\<rparr>)])) xs s1 = Inr (r, s') \<and>
          remapped a root {} M old ((mapped @ [(va, p\<lparr>vp_flags := flags\<rparr>)]) @ map ?u xs) s1 r s' \<and>
          (r \<noteq> Inr () \<longrightarrow> card (free_ppns (frame_st s1)) < (LEVELS (pte a) - 1) * length xs)"
        by (rule Cons.IH [OF v _ old1]) (rule mappable_carries [OF Cons.prems(2) [unfolded eq(2)] m(4)])
      then show ?thesis using am True remapped_step [OF m(4)] m(6) unfolding eq(2) by (fastforce simp: x)
    next
      case False
      then have r: "r = Inl OutOfMemory" and v: "vmi a root (M ++ map_of mapped) s1" using m(2,3) by auto
      from roll_back [OF v distinct_mapped(1) [OF Cons.prems(2)] distinct_mapped(2) [OF Cons.prems(2)] old1]
      obtain s' kept where k: "bnd (for_list (ignoring (active_unmap a)) (map fst mapped) s1)
          (for_list (\<lambda>(va, m). ignoring (\<lambda>m. active_map a va (vp_phys m) (vp_flags m)) m) old) = Inr s'"
        "set kept \<subseteq> set old" "distinct (map fst kept)" "vmi a root (M ++ map_of kept) s'" "carries a root {} s1 s'" by blast
      have "protect_loop a flags old (map fst mapped) (x # xs) s = Inr (Inl OutOfMemory, s')"
        using am k(1) by (auto simp: x r run_simps)
      moreover have "card (free_ppns (frame_st s)) < (LEVELS (pte a) - 1) * length (x # xs)"
        using m(5) [OF False] by simp
      ultimately show ?thesis using k(2-5) carries_trans [OF m(4) k(5)] unfolding remapped_def by blast
    qed
  qed
qed

section \<open>Removing the old pages\<close>

definition vmo :: "arch \<Rightarrow> usize \<Rightarrow> (usize \<Rightarrow> vm_page option) \<Rightarrow> mmu \<Rightarrow> bool" where
  "vmo a root M s \<longleftrightarrow> (\<exists>sp. as_root sp = root \<and> bt_get (pages sp) = M \<and> vm_inv a sp s)"

lemma vmi_vmo: "vmi a root M s \<longleftrightarrow> active_root s = root \<and> vmo a root M s"
  by (simp add: vmi_def vmo_def)

lemma vmo_inv:
  assumes "vmo a (as_root sp) (bt_get (pages sp)) s" "bt_wf (pages sp)"
  shows "vm_inv a sp s"
proof -
  obtain sp1 where "as_root sp1 = as_root sp" "bt_get (pages sp1) = bt_get (pages sp)" "vm_inv a sp1 s"
    using assms(1) unfolding vmo_def by blast
  then show ?thesis using assms(2) by (intro vm_ext [of a sp1 s sp]) simp_all
qed

lemma vmo_self: "vm_inv a sp s \<Longrightarrow> vmo a (as_root sp) (bt_get (pages sp)) s"
  unfolding vmo_def by blast

definition without :: "(usize \<Rightarrow> vm_page option) \<Rightarrow> usize set \<Rightarrow> usize \<Rightarrow> vm_page option" where
  "without M D = (\<lambda>x. if x \<in> D then None else M x)"

lemma unmap_try:
  assumes "vmi a root M s" "distinct (map fst old)" "\<And>va p. (va, p) \<in> set old \<Longrightarrow> M va = Some p"
  shows "\<exists>s'. try_each (\<lambda>(vaddr, _). active_unmap a vaddr) old s = Inr (Inr (), s') \<and>
    vmi a root (without M (fst ` set old)) s' \<and> carries a root {} s s' \<and>
    free_ppns (frame_st s) \<subseteq> free_ppns (frame_st s') \<and>
    (\<forall>q. loose a root M s q \<or> q \<in> (\<lambda>x. vp_phys (snd x)) ` set old \<longrightarrow> loose a root (without M (fst ` set old)) s' q)"
  using assms
proof (induction old arbitrary: M s)
  case Nil
  then show ?case by (simp add: without_def)
next
  case (Cons x old)
  obtain va p where x: "x = (va, p)" by (cases x)
  have p: "M va = Some p" using Cons.prems(3) x by simp
  from Cons.prems(1) p show ?case
  proof (rule vmi_unmap)
    fix s1
    assume u: "active_unmap a va s = Inr (Inr (vp_phys p), s1)" "vmi a root (M(va := None)) s1"
      "carries a root {} s s1" "loose a root (M(va := None)) s1 (vp_phys p)"
      "free_ppns (frame_st s) \<subseteq> free_ppns (frame_st s1)"
    have nv: "va \<notin> fst ` set old" "distinct (map fst old)" using Cons.prems(2) x by simp_all
    have "(M(va := None)) y = Some q" if "(y, q) \<in> set old" for y q
      using Cons.prems(3) [of y q] that nv(1) by force
    from Cons.IH [OF u(2) nv(2) this]
    obtain s' where s': "try_each (\<lambda>(vaddr, _). active_unmap a vaddr) old s1 = Inr (Inr (), s')"
      "vmi a root (without (M(va := None)) (fst ` set old)) s'" "carries a root {} s1 s'"
      "\<And>q. loose a root (M(va := None)) s1 q \<or> q \<in> (\<lambda>x. vp_phys (snd x)) ` set old \<Longrightarrow>
         loose a root (without (M(va := None)) (fst ` set old)) s' q"
      "free_ppns (frame_st s1) \<subseteq> free_ppns (frame_st s')" by blast
    have eq: "without (M(va := None)) (fst ` set old) = without M (fst ` set (x # old))"
      by (auto simp: without_def fun_eq_iff x)
    have "loose a root (without M (fst ` set (x # old))) s' q"
      if q: "loose a root M s q \<or> q \<in> (\<lambda>x. vp_phys (snd x)) ` set (x # old)" for q
    proof -
      have "loose a root M s q \<Longrightarrow> loose a root (M(va := None)) s1 q"
        using loose_carries [OF _ u(3)] unfolding loose_def by auto
      then show ?thesis using q s'(4) [of q] u(4) unfolding eq by (auto simp: x)
    qed
    moreover have "try_each (\<lambda>(vaddr, _). active_unmap a vaddr) (x # old) s = Inr (Inr (), s')"
      using u(1) s'(1) by (simp add: x)
    ultimately show ?thesis using s'(2) carries_trans [OF u(3) s'(3)] order_trans [OF u(5) s'(5)] unfolding eq by blast
  qed
qed

lemma vmi_page:
  assumes "vmi a root M s" "M va = Some p"
  shows "va mod 4096 = 0" "va < ADDRESS_LIMIT a" "contains (vp_flags p) FLAG_U" "flags_ok a (vp_flags p)"
    "hold a root s (vp_phys p)" "M va' = Some p' \<Longrightarrow> vp_phys p = vp_phys p' \<Longrightarrow> va = va'"
proof -
  obtain sp where sp: "as_root sp = root" "bt_get (pages sp) = M" "vm_inv a sp s" using assms(1) unfolding vmi_def by blast
  have g: "bt_get (pages sp) va = Some p" using sp(2) assms(2) by simp
  note m = map_okD [OF vm_invD(5) [OF sp(3)] g]
  show "va mod 4096 = 0" "va < ADDRESS_LIMIT a" "contains (vp_flags p) FLAG_U" "flags_ok a (vp_flags p)"
    "hold a root s (vp_phys p)" "M va' = Some p' \<Longrightarrow> vp_phys p = vp_phys p' \<Longrightarrow> va = va'"
    using m hold_held [of a sp s "vp_phys p"] sp(1,2) by auto
qed

lemma mappable_old:
  assumes inv: "vmi a root M s" and d: "distinct (map fst old)" and o: "\<And>va p. (va, p) \<in> set old \<Longrightarrow> M va = Some p"
    and l: "\<And>q. q \<in> (\<lambda>x. vp_phys (snd x)) ` set old \<Longrightarrow> loose a root (without M (fst ` set old)) s' q"
    and f: "\<And>va p. (va, p) \<in> set old \<Longrightarrow> contains (g (vp_flags p)) FLAG_U \<and> flags_ok a (g (vp_flags p))"
  shows "mappable a root (without M (fst ` set old)) s' (map (\<lambda>(va, p). (va, p\<lparr>vp_flags := g (vp_flags p)\<rparr>)) old)"
proof -
  have "inj_on (\<lambda>x. vp_phys (snd x)) (set old)"
  proof (rule inj_onI)
    fix x y assume xy: "x \<in> set old" "y \<in> set old" "vp_phys (snd x) = vp_phys (snd y)"
    have m: "M (fst x) = Some (snd x)" "M (fst y) = Some (snd y)" using o xy by simp_all
    have "fst x = fst y" by (rule vmi_page(6) [OF inv m(1) m(2) xy(3)])
    then show "x = y" using m by (simp add: prod_eq_iff)
  qed
  then have dp: "distinct (map (\<lambda>x. vp_phys (snd x)) old)" using d by (simp add: distinct_map)
  have e: "map (\<lambda>x. vp_phys (snd x)) (map (\<lambda>(va, p). (va, p\<lparr>vp_flags := g (vp_flags p)\<rparr>)) old) = map (\<lambda>x. vp_phys (snd x)) old"
    "map fst (map (\<lambda>(va, p). (va, p\<lparr>vp_flags := g (vp_flags p)\<rparr>)) old) = map fst old" by auto
  have it: "va mod 4096 = 0 \<and> va < ADDRESS_LIMIT a \<and> without M (fst ` set old) va = None \<and> contains (vp_flags q) FLAG_U \<and>
      flags_ok a (vp_flags q) \<and> loose a root (without M (fst ` set old)) s' (vp_phys q)"
    if vq: "(va, q) \<in> set (map (\<lambda>(va, p). (va, p\<lparr>vp_flags := g (vp_flags p)\<rparr>)) old)" for va q
  proof -
    obtain p where p: "(va, p) \<in> set old" "q = p\<lparr>vp_flags := g (vp_flags p)\<rparr>" using vq by auto
    have "va \<in> fst ` set old" using p(1) by (metis fst_conv imageI)
    then have "without M (fst ` set old) va = None" by (simp add: without_def)
    moreover have "vp_phys p \<in> (\<lambda>x. vp_phys (snd x)) ` set old" using imageI [OF p(1), of "\<lambda>x. vp_phys (snd x)"] by simp
    ultimately show ?thesis using vmi_page(1,2) [OF inv o [OF p(1)]] f [OF p(1)] l [of "vp_phys p"] p(2) by simp
  qed
  show ?thesis
    unfolding mappable_def e
  proof (intro conjI ballI)
    fix x assume x: "x \<in> set (map (\<lambda>(va, p). (va, p\<lparr>vp_flags := g (vp_flags p)\<rparr>)) old)"
    obtain va q where "x = (va, q)" by (cases x)
    then show "case x of (va, p) \<Rightarrow> va mod 4096 = 0 \<and> va < ADDRESS_LIMIT a \<and> without M (fst ` set old) va = None \<and>
        contains (vp_flags p) FLAG_U \<and> flags_ok a (vp_flags p) \<and> loose a root (without M (fst ` set old)) s' (vp_phys p)"
      using it [of va q] x by simp
  qed (rule d, rule dp)
qed

lemma get_fold_insert:
  "distinct (map fst xs) \<Longrightarrow> bt_get (fold (\<lambda>(va, p). bt_insert va (f p)) xs t) = bt_get t ++ map_of (map (\<lambda>(va, p). (va, f p)) xs)"
proof (induction xs arbitrary: t)
  case (Cons x xs)
  obtain va p where x: "x = (va, p)" by (cases x)
  have n: "map_of (map (\<lambda>(va, p). (va, f p)) xs) va = None" using Cons.prems x by (force simp: map_of_eq_None_iff)
  show ?case
  proof (rule ext)
    fix y
    show "bt_get (fold (\<lambda>(va, p). bt_insert va (f p)) (x # xs) t) y = (bt_get t ++ map_of (map (\<lambda>(va, p). (va, f p)) (x # xs))) y"
      using Cons n by (cases "y = va") (simp_all add: x map_add_def split: option.split)
  qed
qed simp

lemma wf_fold_insert: "bt_wf t \<Longrightarrow> bt_wf (fold (\<lambda>(va, p). bt_insert va (f p)) xs t)"
  by (induction xs arbitrary: t) auto

section \<open>Changing permissions\<close>

text \<open>
  How an operation on the range \<open>R\<close> ends whose pages become \<open>M'\<close>: with the pages changed, or out of memory with the
  map of the space unchanged and the hardware translating a part of it, outside \<open>R\<close> all of it.
\<close>

definition remap_ends ::
  "arch \<Rightarrow> (usize \<Rightarrow> bool) \<Rightarrow> address_space \<Rightarrow> (usize \<Rightarrow> vm_page option) \<Rightarrow> MapError + unit \<Rightarrow> address_space \<Rightarrow> mmu \<Rightarrow> bool" where
  "remap_ends a R sp M' r sp' s' \<longleftrightarrow> as_root sp' = as_root sp \<and> as_owned sp' = as_owned sp \<and>
     (r = Inr () \<and> bt_get (pages sp') = M' \<and> vm_inv a sp' s' \<or>
      r = Inl OutOfMemory \<and> sp' = sp \<and>
        (\<exists>rest. as_root rest = as_root sp \<and> vm_inv a rest s' \<and> (\<forall>x. bt_get (pages rest) x =
           bt_get (pages sp) x \<or> R x \<and> bt_get (pages rest) x = None)))"

lemma carries_mem:
  assumes "same_mem s1 s2"
  shows "carries a root Z s s1 = carries a root Z s s2" "carries a root Z s1 s' = carries a root Z s2 s'"
    "vmo a root M s1 = vmo a root M s2"
proof -
  have h: "hold a root s1 q = hold a root s2 q" for q
    using vm_cong(2) [of s2 s1] assms unfolding hold_def same_mem_def by simp
  have f: "frame_st s2 = frame_st s1" "page_bytes s2 = page_bytes s1" using assms by (simp_all add: same_mem_def)
  show "carries a root Z s s1 = carries a root Z s s2" "carries a root Z s1 s' = carries a root Z s2 s'"
    unfolding carries_def h f by (rule refl)+
  show "vmo a root M s1 = vmo a root M s2" unfolding vmo_def same_memD(1) [OF assms] by (rule refl)
qed

lemma without_add:
  "\<lbrakk>D = fst ` set xs\<rbrakk> \<Longrightarrow> without M D ++ map_of xs = M ++ map_of xs"
  by (auto simp: without_def fun_eq_iff map_add_def map_of_eq_None_iff image_iff split: option.split)

lemma without_kept:
  assumes "set kept \<subseteq> set old" "\<And>va p. (va, p) \<in> set old \<Longrightarrow> M va = Some p"
  shows "(without M (fst ` set old) ++ map_of kept) x = M x \<or>
    x \<in> fst ` set old \<and> (without M (fst ` set old) ++ map_of kept) x = None"
proof (cases "map_of kept x")
  case None
  then show ?thesis by (auto simp: map_add_def without_def)
next
  case (Some p)
  then show ?thesis using map_of_SomeD [OF Some] assms by (auto simp: map_add_def)
qed

definition protectable :: "arch \<Rightarrow> address_space \<Rightarrow> usize \<Rightarrow> usize \<Rightarrow> MappingFlags \<Rightarrow> bool" where
  "protectable a sp start len flags \<longleftrightarrow> start mod 4096 = 0 \<and> len \<noteq> 0 \<and> len mod 4096 = 0 \<and> contains flags FLAG_U \<and>
     start + len \<le> ADDRESS_LIMIT a \<and>
     (\<forall>x. x mod 4096 = 0 \<and> start \<le> x \<and> x < start + len \<longrightarrow> bt_get (pages sp) x \<noteq> None)"

lemma length_page_steps: "len mod 4096 = 0 \<Longrightarrow> length (page_steps start (start + len)) = len div 4096"
  by (auto simp: page_steps_def div_add1_eq elim!: dvdE dest!: mod_0_imp_dvd)

lemma protect_range_run:
  assumes inv: "vm_inv a sp s" and fl: "flags_ok a flags"
  obtains r sp' s' where "protect_range a sp start len flags s = Inr (r, sp', s')" "active_root s' = active_root s"
    "if protectable a sp start len flags
     then carries a (as_root sp) {} s s' \<and> remap_ends a (\<lambda>x. start \<le> x \<and> x < start + len) sp
       (\<lambda>x. if start \<le> x \<and> x < start + len then map_option (\<lambda>p. p\<lparr>vp_flags := flags\<rparr>) (bt_get (pages sp) x) else bt_get (pages sp) x)
       r sp' s' \<and> (r \<noteq> Inr () \<longrightarrow> card (free_ppns (frame_st s)) < (LEVELS (pte a) - 1) * (len div 4096))
     else r = Inl BlockedByExistingMapping \<and> sp' = sp \<and> s' = s"
proof (cases "protectable a sp start len flags")
  case False
  have "list_ex (\<lambda>(vaddr, m). m = None) (map (\<lambda>vaddr. (vaddr, bt_get (pages sp) vaddr)) (page_steps start (start + len)))"
    if "start mod 4096 = 0" "len \<noteq> 0" "len mod 4096 = 0" "contains flags FLAG_U" "start + len \<le> ADDRESS_LIMIT a"
    using False that page_steps_iff [OF that(1), of _ "start + len"] by (auto simp: protectable_def list_ex_iff)
  then have "protect_range a sp start len flags s = Inr (Inl BlockedByExistingMapping, sp, s)"
    by (auto simp: protect_range_def unaligned_iff checked_add_def)
  then show thesis using False by (intro that) simp_all
next
  case True
  define R where "R = (\<lambda>x. start \<le> x \<and> x < start + len)"
  define old where "old = map (\<lambda>vaddr. (vaddr, the (bt_get (pages sp) vaddr))) (page_steps start (start + len))"
  define new where "new = map (\<lambda>(va, p). (va, p\<lparr>vp_flags := flags\<rparr>)) old"
  let ?M = "bt_get (pages sp)" and ?r = "as_root sp"
  have st: "start mod 4096 = 0" "len \<noteq> 0" "len mod 4096 = 0" "contains flags FLAG_U" "start + len \<le> ADDRESS_LIMIT a"
      "\<And>x. x mod 4096 = 0 \<Longrightarrow> R x \<Longrightarrow> ?M x \<noteq> None"
    using True by (auto simp: protectable_def R_def)
  have lim: "start + len < USIZE_LIM" using st(5) limit_bounds(2) [of a] by simp
  have keys: "fst ` set old = {x. x mod 4096 = 0 \<and> R x}" "map fst old = page_steps start (start + len)"
    by (auto simp: old_def R_def image_image page_steps_iff [OF st(1)] comp_def)
  have o: "?M va = Some p" if "(va, p) \<in> set old" for va p
  proof -
    have "va \<in> fst ` set old" using that by (metis fst_conv imageI)
    then have "va mod 4096 = 0" "R va" unfolding keys(1) by simp_all
    then show ?thesis using that st(6) by (auto simp: old_def)
  qed
  have d: "distinct (map fst old)" unfolding keys(2) by (rule distinct_page_steps)
  have n: "length old = len div 4096" using st(3) by (simp add: old_def length_page_steps)
  define P where "P r s1 \<longleftrightarrow> carries a ?r {} s s1 \<and>
      (r \<noteq> Inr () \<longrightarrow> card (free_ppns (frame_st s)) < (LEVELS (pte a) - 1) * (len div 4096)) \<and> (r = Inr () \<and> vmo a ?r (?M ++ map_of new) s1 \<or>
      r = Inl OutOfMemory \<and> (\<exists>kept. set kept \<subseteq> set old \<and> vmo a ?r (without ?M (fst ` set old) ++ map_of kept) s1))" for r s1
  let ?op = "\<lambda>s. bnd (try_each (\<lambda>(vaddr, _). active_unmap a vaddr) old s) (\<lambda>(r, s).
                case r of Inl e \<Rightarrow> Inr (Inl e, s) | Inr _ \<Rightarrow> protect_loop a flags old [] old s)"
  show thesis
  proof (rule with_active_ok [where operation = ?op and P = P])
    fix s0 assume s0: "same_mem s s0" "active_root s0 = ?r"
    have v0: "vmi a ?r ?M s0" using inv s0(2) vmo_self carries_mem(3) [OF s0(1)] unfolding vmi_vmo by blast
    from unmap_try [OF v0 d o]
    obtain s1 where s1: "try_each (\<lambda>(vaddr, _). active_unmap a vaddr) old s0 = Inr (Inr (), s1)"
      "vmi a ?r (without ?M (fst ` set old)) s1" "carries a ?r {} s0 s1"
      "\<And>q. q \<in> (\<lambda>x. vp_phys (snd x)) ` set old \<Longrightarrow> loose a ?r (without ?M (fst ` set old)) s1 q"
      "free_ppns (frame_st s0) \<subseteq> free_ppns (frame_st s1)" by blast
    have cd: "card (free_ppns (frame_st s)) \<le> card (free_ppns (frame_st s1))"
      using card_mono [OF finite_free s1(5)] same_memD(3) [OF s0(1)] by simp
    have mo: "mappable a ?r (without ?M (fst ` set old)) s1 old"
      using mappable_old [OF v0 d o s1(4), of "\<lambda>f. f"] vmi_page(3,4) [OF v0 o] by (simp add: map_idI)
    have mn: "mappable a ?r (without ?M (fst ` set old)) s1 ([] @ new)"
      using mappable_old [OF v0 d o s1(4), of "\<lambda>_. flags"] st(4) fl by (simp add: new_def)
    have "vmi a ?r (without ?M (fst ` set old) ++ map_of []) s1" using s1(2) by simp
    from protect_loop_ok [OF this mn [unfolded new_def] mo]
    obtain r s2 where s2: "protect_loop a flags old [] old s1 = Inr (r, s2)"
      "remapped a ?r {} (without ?M (fst ` set old)) old ([] @ new) s1 r s2"
      "r \<noteq> Inr () \<longrightarrow> card (free_ppns (frame_st s1)) < (LEVELS (pte a) - 1) * length old" unfolding new_def list.map by blast
    have kn: "fst ` set old = fst ` set new" by (force simp: new_def image_iff)
    have "P r s2 \<and> active_root s2 = ?r"
      using s2(2,3) cd n carries_trans [OF s1(3)] without_add [OF kn, of ?M] carries_mem(2) [OF s0(1)]
      unfolding P_def remapped_def vmi_vmo by auto
    then show "\<exists>r s1. ?op s0 = Inr (r, s1) \<and> active_root s1 = as_root sp \<and> P r s1" using s1(1) s2(1) by simp
  next
    fix r s1 s2 assume "P r s1" "same_mem s1 s2"
    then show "P r s2" unfolding P_def using carries_mem [of s1 s2] by blast
  next
    fix r s1
    assume w: "with_active sp ?op s = Inr (r, s1)" "active_root s1 = active_root s" "P r s1"
    define sp' where "sp' = (if r = Inr () then sp\<lparr>pages := fold (\<lambda>(vaddr, page).
        bt_insert vaddr (page\<lparr>vp_flags := flags\<rparr>)) old (pages sp)\<rparr> else sp)"
    have wf: "bt_wf (pages sp)" using vm_invD(5) [OF inv] by (simp add: map_ok_def)
    have g': "bt_get (pages sp') = ?M ++ map_of new" if "r = Inr ()"
      using that get_fold_insert [OF d, of "\<lambda>p. p\<lparr>vp_flags := flags\<rparr>"] by (simp add: sp'_def new_def)
    have found: "map (\<lambda>(vaddr, m). (vaddr, the m)) (map (\<lambda>vaddr. (vaddr, ?M vaddr)) (page_steps start (start + len))) = old"
      by (simp add: old_def comp_def)
    have all: "\<not> list_ex (\<lambda>(vaddr, m). m = None) (map (\<lambda>vaddr. (vaddr, ?M vaddr)) (page_steps start (start + len)))"
      using st(6) page_steps_iff [OF st(1), of _ "start + len"] by (auto simp: list_ex_iff R_def)
    have run: "protect_range a sp start len flags s = Inr (r, sp', s1)"
      using st(1-5) lim all w(1) w(3) unfolding protect_range_def
      by (auto simp: unaligned_iff checked_add_def Let_def found [unfolded map_map] sp'_def P_def)
    have new_at: "(?M ++ map_of new) x = (if R x then map_option (\<lambda>p. p\<lparr>vp_flags := flags\<rparr>) (?M x) else ?M x)" for x
    proof (cases "x \<in> fst ` set old")
      case True
      then obtain p where p: "(x, p) \<in> set old" by auto
      have "map_of new x = Some (p\<lparr>vp_flags := flags\<rparr>)"
        using d p by (simp add: new_def map_of_map map_of_is_SomeI) 
      then show ?thesis using o [OF p] keys(1) True by (auto simp: map_add_def)
    next
      case False
      then have "map_of new x = None" by (force simp: new_def map_of_eq_None_iff)
      moreover have "?M x = None" if "R x"
        using False that keys(1) vm_invD(5) [OF inv] map_okD(1) [of a sp s x] by (cases "?M x") auto
      ultimately show ?thesis by (auto simp: map_add_def)
    qed
    have "remap_ends a R sp (\<lambda>x. if R x then map_option (\<lambda>p. p\<lparr>vp_flags := flags\<rparr>) (?M x) else ?M x) r sp' s1"
    proof (cases "r = Inr ()")
      case True
      have "vm_inv a sp' s1"
        using w(3) True g' [OF True] wf_fold_insert [OF wf]
        by (intro vmo_inv) (auto simp: P_def sp'_def)
      then show ?thesis using True g' [OF True] new_at by (simp add: remap_ends_def fun_eq_iff) (simp add: sp'_def)
    next
      case False
      then obtain kept where k: "r = Inl OutOfMemory" "set kept \<subseteq> set old"
          "vmo a ?r (without ?M (fst ` set old) ++ map_of kept) s1" using w(3) unfolding P_def by blast
      obtain rest where rest: "as_root rest = ?r" "vm_inv a rest s1" "bt_get (pages rest) = without ?M (fst ` set old) ++ map_of kept"
        using k(3) unfolding vmo_def by blast
      have "bt_get (pages rest) x = ?M x \<or> R x \<and> bt_get (pages rest) x = None" for x
        using without_kept [of kept old ?M x, OF k(2) o] keys(1) unfolding rest(3) by auto
      then show ?thesis using False k(1) rest(1,2) by (auto simp: remap_ends_def sp'_def)
    qed
    then show thesis
      using w(2,3) run True by (intro that [of r sp' s1]) (simp_all add: R_def P_def)
  qed
qed

end
