(* ===== verification/Kor_Vm_Replace.thy ===== *)
theory Kor_Vm_Replace
  imports Kor_Vm_Remap
begin

text \<open>
  Replacing a range by zeroed pages (\<^verbatim>\<open>replace_zeroed\<close>): fresh frames are taken first, the old pages are
  removed, the fresh frames mapped and zeroed one by one, and the old frames released last.  When a table
  cannot be allocated the pages mapped so far are removed and the old ones put back.
\<close>

section \<open>Fresh frames\<close>

lemma held_cases:
  assumes "vm_inv a sp s" "held a sp s q"
  obtains "spare a sp s q" | va p where "bt_get (pages sp) va = Some p" "vp_phys p = q"
  using assms unfolding spare_def by blast

definition taken :: "arch \<Rightarrow> address_space \<Rightarrow> nat \<Rightarrow> usize list \<Rightarrow> mmu \<Rightarrow> MapError + usize list \<Rightarrow> mmu \<Rightarrow> bool" where
  "taken a sp n fs s r s' \<longleftrightarrow> vm_inv a sp s' \<and> page_bytes s' = page_bytes s \<and> active_root s' = active_root s \<and>
     (case r of
        Inl e \<Rightarrow> e = OutOfMemory \<and> card (free_ppns (frame_st s)) < n \<and> (\<forall>q. spare a sp s q \<and> q \<notin> set fs \<longrightarrow> spare a sp s' q)
      | Inr fs' \<Rightarrow> (\<forall>q. spare a sp s q \<longrightarrow> spare a sp s' q) \<and> (\<exists>new. fs' = fs @ new \<and> length new = n \<and> distinct fs' \<and> set new \<subseteq> free_pages s \<and>
          (\<forall>q \<in> set fs'. spare a sp s' q) \<and> card (free_ppns (frame_st s)) = card (free_ppns (frame_st s')) + n))"

lemma alloc_fresh_ok:
  assumes "vm_inv a sp s" "distinct fs" "\<And>q. q \<in> set fs \<Longrightarrow> spare a sp s q"
  shows "\<exists>r s'. alloc_fresh n fs s = Inr (r, s') \<and> taken a sp n fs s r s'"
  using assms
proof (induction n arbitrary: fs s)
  case 0
  then show ?case by (simp add: taken_def)
next
  case (Suc n)
  from Suc.prems(1) show ?case
  proof (cases rule: vm_alloc)
    case 1
    from free_each [OF Suc.prems]
    obtain s' where s': "for_list (\<lambda>phys. free_frames phys 1) fs s = Inr s'" "vm_inv a sp s'" "gives s s'"
      "\<forall>q. spare a sp s q \<and> q \<notin> set fs \<longrightarrow> spare a sp s' q" by blast
    then show ?thesis using 1 by (simp add: taken_def gives_def)
  next
    case (2 c s1)
    have nc: "c \<notin> set fs" using 2(7) Suc.prems(3) by blast
    have d: "distinct (fs @ [c])" using nc Suc.prems(2) by simp
    have sp: "spare a sp s1 q" if "q \<in> set (fs @ [c])" for q using 2(3,7) Suc.prems(3) that by auto
    obtain r s' where s': "alloc_fresh n (fs @ [c]) s1 = Inr (r, s')" "taken a sp n (fs @ [c]) s1 r s'"
      using Suc.IH [OF 2(2) d sp] by blast
    have pc: "ppn c \<in> free_ppns (frame_st s)" using 2(4) by (simp add: free_pages_def ppn_def)
    have cd: "card (free_ppns (frame_st s)) = Suc (card (free_ppns (frame_st s1)))"
      using card_Suc_Diff1 [OF finite_free pc] unfolding 2(5) by simp
    have sub: "free_pages s1 \<subseteq> free_pages s" using 2(5) by (auto simp: free_pages_def)
    have "taken a sp (Suc n) fs s r s'"
    proof (cases r)
      case (Inl e)
      then show ?thesis using s'(2) cd 2(7-9) by (simp add: taken_def)
    next
      case (Inr fs')
      then obtain new where new: "fs' = (fs @ [c]) @ new" "length new = n" "distinct fs'" "set new \<subseteq> free_pages s1"
          "\<forall>q \<in> set fs'. spare a sp s' q" "card (free_ppns (frame_st s1)) = card (free_ppns (frame_st s')) + n"
        using s'(2) unfolding taken_def by auto
      have "fs' = fs @ (c # new)" "length (c # new) = Suc n" "set (c # new) \<subseteq> free_pages s"
        using new(1,2,4) sub 2(4) by auto
      then show ?thesis using s'(2) new cd 2(7-9) unfolding Inr taken_def sum.case by auto
    qed
    then show ?thesis using 2(1) s'(1) by simp
  qed
qed

section \<open>Mapping and zeroing\<close>

lemma zero_bytes_mem:
  "vmi a root M (zero_bytes c s) = vmi a root M s" "hold a root (zero_bytes c s) q = hold a root s q"
  "frame_st (zero_bytes c s) = frame_st s" "active_root (zero_bytes c s) = active_root s"
proof -
  have e: "tables (zero_bytes c s) = tables s" "metadata (zero_bytes c s) = metadata s" "dlock (zero_bytes c s) = dlock s"
    by (simp_all add: zero_bytes_def)
  show f: "frame_st (zero_bytes c s) = frame_st s" "active_root (zero_bytes c s) = active_root s"
    by (simp_all add: zero_bytes_def)
  show "vmi a root M (zero_bytes c s) = vmi a root M s" unfolding vmi_def vm_cong(1) [OF e f(1)] f(2) by (rule refl)
  show "hold a root (zero_bytes c s) q = hold a root s q" unfolding hold_def vm_cong(2) [OF e f(1)] by (rule refl)
qed

lemma zero_bytes_carries: "carries a root {c} s (zero_bytes c s)"
  by (simp add: carries_def zero_bytes_mem) (simp add: zero_bytes_def)

abbreviation phys_of :: "usize \<times> vm_page \<Rightarrow> usize" where
  "phys_of x \<equiv> vp_phys (snd x)"

lemma replace_loop_ok:
  assumes "vmi a root (M ++ map_of mapped) s" "mappable a root M s (mapped @ xs)" "mappable a root M s old"
    "\<And>x. x \<in> set xs \<Longrightarrow> vp_flags (snd x) = flags"
    and undo: "\<And>s. for_list (\<lambda>(old_vaddr, mapping) s. case mapping of None \<Rightarrow> Inr s
        | Some m \<Rightarrow> ignoring (\<lambda>m. active_map a old_vaddr (vp_phys m) (vp_flags m)) m s) olds s =
      for_list (\<lambda>(va, m). ignoring (\<lambda>m. active_map a va (vp_phys m) (vp_flags m)) m) old s"
  shows "\<exists>r s'. replace_loop a flags olds (map fst mapped) (map (\<lambda>x. (fst x, phys_of x)) xs) s = Inr (r, s') \<and>
    remapped a root (phys_of ` set xs) M old (mapped @ xs) s r s' \<and>
    (r \<noteq> Inr () \<longrightarrow> card (free_ppns (frame_st s)) < (LEVELS (pte a) - 1) * length xs) \<and>
    (r = Inr () \<longrightarrow> (\<forall>x \<in> set xs. page_bytes s' (phys_of x) = (\<lambda>_. 0)))"
  using assms(1-4)
proof (induction xs arbitrary: mapped s)
  case Nil
  then show ?case by (simp add: remapped_def)
next
  case (Cons x xs)
  obtain va p where x: "x = (va, p)" by (cases x)
  have pf: "vp_flags p = flags" using Cons.prems(4) [of x] x by simp
  have eq: "mapped @ x # xs = mapped @ (va, p) # xs" "mapped @ x # xs = (mapped @ [(va, p)]) @ xs" by (simp_all add: x)
  note it = mappable_item [OF Cons.prems(2) [unfolded eq(1)]]
  let ?Z = "phys_of ` set (x # xs)"
  from Cons.prems(1) it(6,1-5) show ?case
  proof (rule vmi_map)
    fix r s1
    assume m: "active_map a va (vp_phys p) (vp_flags p) s = Inr (r, s1)" "r = Inr () \<or> r = Inl OutOfMemory"
      "vmi a root (if r = Inr () then (M ++ map_of mapped)(va \<mapsto> \<lparr>vp_phys = vp_phys p, vp_flags = vp_flags p\<rparr>)
         else M ++ map_of mapped) s1"
      "carries a root {} s s1" "r \<noteq> Inr () \<Longrightarrow> card (free_ppns (frame_st s)) < LEVELS (pte a) - 1"
      "card (free_ppns (frame_st s)) \<le> card (free_ppns (frame_st s1)) + (LEVELS (pte a) - 1)"
    have pe: "\<lparr>vp_phys = vp_phys p, vp_flags = vp_flags p\<rparr> = p" by simp
    have am: "active_map a va (vp_phys p) flags s = Inr (r, s1)" using m(1) pf by simp
    show ?thesis
    proof (cases "r = Inr ()")
      case True
      define s2 where "s2 = zero_bytes (vp_phys p) s1"
      have c2: "carries a root {vp_phys p} s s2"
        unfolding s2_def by (rule carries_trans [OF carries_mono [OF m(4)] zero_bytes_carries]) simp
      have v: "vmi a root (M ++ map_of (mapped @ [(va, p)])) s2"
        using m(3) True unfolding pe it(7) s2_def zero_bytes_mem by simp
      have "\<exists>r s'. replace_loop a flags olds (map fst (mapped @ [(va, p)])) (map (\<lambda>x. (fst x, phys_of x)) xs) s2 = Inr (r, s') \<and>
          remapped a root (phys_of ` set xs) M old ((mapped @ [(va, p)]) @ xs) s2 r s' \<and>
          (r \<noteq> Inr () \<longrightarrow> card (free_ppns (frame_st s2)) < (LEVELS (pte a) - 1) * length xs) \<and>
          (r = Inr () \<longrightarrow> (\<forall>x \<in> set xs. page_bytes s' (phys_of x) = (\<lambda>_. 0)))"
        by (rule Cons.IH [OF v mappable_carries [OF Cons.prems(2) [unfolded eq(2)] c2] mappable_carries [OF Cons.prems(3) c2]])
          (use Cons.prems(4) in simp)
      then obtain r' s' where r': "replace_loop a flags olds (map fst (mapped @ [(va, p)])) (map (\<lambda>x. (fst x, phys_of x)) xs) s2 = Inr (r', s')"
          "remapped a root (phys_of ` set xs) M old ((mapped @ [(va, p)]) @ xs) s2 r' s'"
          "r' \<noteq> Inr () \<longrightarrow> card (free_ppns (frame_st s2)) < (LEVELS (pte a) - 1) * length xs"
          "r' = Inr () \<longrightarrow> (\<forall>x \<in> set xs. page_bytes s' (phys_of x) = (\<lambda>_. 0))" by blast
      have run: "replace_loop a flags olds (map fst mapped) (map (\<lambda>x. (fst x, phys_of x)) (x # xs)) s = Inr (r', s')"
        using am True r'(1) by (simp add: x s2_def)
      have "remapped a root ?Z M old ((mapped @ [(va, p)]) @ xs) s2 r' s'"
        using r'(2) carries_mono [of a root "phys_of ` set xs" s2 s' ?Z] unfolding remapped_def by auto
      then have R: "remapped a root ?Z M old (mapped @ x # xs) s r' s'"
        unfolding eq(2) by (rule remapped_step [rotated]) (rule carries_mono [OF c2], simp add: x)
      have cd: "r' \<noteq> Inr () \<longrightarrow> card (free_ppns (frame_st s)) < (LEVELS (pte a) - 1) * length (x # xs)"
        using r'(3) m(6) unfolding s2_def zero_bytes_mem by auto
      have "hold a root s (vp_phys p)" using it(6) by (simp add: loose_def)
      then have h2: "hold a root s2 (vp_phys p)" using c2 by (simp add: carries_def)
      have "vp_phys p \<notin> phys_of ` set xs" using Cons.prems(2) by (simp add: mappable_def x)
      then have "page_bytes s' (vp_phys p) = page_bytes s2 (vp_phys p)"
        using r'(2) h2 unfolding remapped_def carries_def by blast
      then have "page_bytes s' (vp_phys p) = (\<lambda>_. 0)" by (simp add: s2_def zero_bytes_def)
      then show ?thesis using run R cd r'(4) by (auto simp: x)
    next
      case False
      then have r: "r = Inl OutOfMemory" and v: "vmi a root (M ++ map_of mapped) s1" using m(2,3) by auto
      from roll_back [OF v distinct_mapped(1) [OF Cons.prems(2)] distinct_mapped(2) [OF Cons.prems(2)]
          mappable_carries [OF Cons.prems(3) m(4)]]
      obtain s' kept where k: "bnd (for_list (ignoring (active_unmap a)) (map fst mapped) s1)
          (for_list (\<lambda>(va, m). ignoring (\<lambda>m. active_map a va (vp_phys m) (vp_flags m)) m) old) = Inr s'"
        "set kept \<subseteq> set old" "distinct (map fst kept)" "vmi a root (M ++ map_of kept) s'" "carries a root {} s1 s'" by blast
      have "replace_loop a flags olds (map fst mapped) (map (\<lambda>x. (fst x, phys_of x)) (x # xs)) s = Inr (Inl OutOfMemory, s')"
        using am k(1) by (auto simp: x r undo run_simps)
      moreover have "carries a root ?Z s s'" by (rule carries_mono [OF carries_trans [OF m(4) k(5)]]) simp
      moreover have "card (free_ppns (frame_st s)) < (LEVELS (pte a) - 1) * length (x # xs)"
        using m(5) [OF False] by simp
      ultimately show ?thesis using k(2-4) unfolding remapped_def by blast
    qed
  qed
qed

section \<open>The whole operation\<close>

lemma found_nil [simp]: "found_pages sp [] = []"
  by (simp add: found_pages_def List.map_filter_simps)

lemma found_cons [simp]: "found_pages sp (va # vas) =
    (case bt_get (pages sp) va of None \<Rightarrow> found_pages sp vas | Some p \<Rightarrow> (va, p) # found_pages sp vas)"
  by (simp add: found_pages_def List.map_filter_simps split: option.split)

text \<open>The loops of the source over pages that may be absent are loops over the pages that are there.\<close>

lemma unmap_found:
  "try_each (\<lambda>(vaddr, mapping) s. if mapping \<noteq> None then active_unmap a vaddr s else Inr (Inr 0, s))
     (map (\<lambda>vaddr. (vaddr, bt_get (pages sp) vaddr)) vas) s
   = try_each (\<lambda>(vaddr, _). active_unmap a vaddr) (found_pages sp vas) s"
  by (induction vas arbitrary: s) (auto simp: bnd_def split: option.split sum.split)

lemma map_found:
  "for_list (\<lambda>(old_vaddr, mapping) s. case mapping of None \<Rightarrow> Inr s
       | Some m \<Rightarrow> ignoring (\<lambda>m. active_map a old_vaddr (vp_phys m) (vp_flags m)) m s)
     (map (\<lambda>vaddr. (vaddr, bt_get (pages sp) vaddr)) vas) s
   = for_list (\<lambda>(va, m). ignoring (\<lambda>m. active_map a va (vp_phys m) (vp_flags m)) m) (found_pages sp vas) s"
  by (induction vas arbitrary: s) (auto simp: bnd_def split: option.split sum.split)

lemma free_found:
  "for_list (\<lambda>m. free_frames (vp_phys m) 1) (List.map_filter snd (map (\<lambda>vaddr. (vaddr, bt_get (pages sp) vaddr)) vas)) s
   = for_list (\<lambda>phys. free_frames phys 1) (map phys_of (found_pages sp vas)) s"
  by (induction vas arbitrary: s) (auto simp: List.map_filter_simps bnd_def split: option.split sum.split)

definition replaceable :: "arch \<Rightarrow> usize \<Rightarrow> usize \<Rightarrow> MappingFlags \<Rightarrow> bool" where
  "replaceable a start len flags \<longleftrightarrow> start mod 4096 = 0 \<and> len \<noteq> 0 \<and> len mod 4096 = 0 \<and>
     start + len \<le> ADDRESS_LIMIT a \<and> contains flags FLAG_U"

text \<open>
  How replacing the range \<open>R\<close> ends: with fresh zeroed pages there and the old frames free, or out of
  memory with the map of the space unchanged.
\<close>

definition replaced ::
  "arch \<Rightarrow> (usize \<Rightarrow> bool) \<Rightarrow> MappingFlags \<Rightarrow> address_space \<Rightarrow> mmu \<Rightarrow> MapError + unit \<Rightarrow> address_space \<Rightarrow> mmu \<Rightarrow> bool" where
  "replaced a R flags sp s r sp' s' \<longleftrightarrow> as_root sp' = as_root sp \<and> as_owned sp' = as_owned sp \<and>
     (\<forall>q. held a sp s q \<longrightarrow> page_bytes s' q = page_bytes s q) \<and>
     (case r of
        Inr _ \<Rightarrow> vm_inv a sp' s' \<and> (\<forall>x. \<not> R x \<longrightarrow> bt_get (pages sp') x = bt_get (pages sp) x) \<and>
          (\<forall>x. R x \<and> x mod 4096 = 0 \<longrightarrow> (\<exists>c. bt_get (pages sp') x = Some \<lparr>vp_phys = c, vp_flags = flags\<rparr> \<and>
             c \<in> free_pages s \<and> page_bytes s' c = (\<lambda>_. 0))) \<and>
          (\<forall>x p. R x \<and> bt_get (pages sp) x = Some p \<longrightarrow> ppn (vp_phys p) \<in> free_ppns (frame_st s'))
      | Inl e \<Rightarrow> e = OutOfMemory \<and> sp' = sp \<and>
          (\<exists>rest. as_root rest = as_root sp \<and> vm_inv a rest s' \<and> (\<forall>x. bt_get (pages rest) x =
             bt_get (pages sp) x \<or> R x \<and> bt_get (pages rest) x = None)))"

lemma replacedD:
  assumes "replaced a R flags sp s (Inr u) sp' s'"
  shows "vm_inv a sp' s'" "\<not> R x \<Longrightarrow> bt_get (pages sp') x = bt_get (pages sp) x"
    "\<lbrakk>R x; x mod 4096 = 0\<rbrakk> \<Longrightarrow> \<exists>c. bt_get (pages sp') x = Some \<lparr>vp_phys = c, vp_flags = flags\<rparr> \<and>
       c \<in> free_pages s \<and> page_bytes s' c = (\<lambda>_. 0)"
    "\<lbrakk>R x; bt_get (pages sp) x = Some p\<rbrakk> \<Longrightarrow> ppn (vp_phys p) \<in> free_ppns (frame_st s')"
  using assms by (simp_all add: replaced_def)

text \<open>What runs with the space active, and how it ends.\<close>

definition swap_pages ::
  "arch \<Rightarrow> address_space \<Rightarrow> MappingFlags \<Rightarrow> usize list \<Rightarrow> usize list \<Rightarrow> mmu \<Rightarrow> unit mres" where
  "swap_pages a sp flags steps fs s =
     (let olds = map (\<lambda>vaddr. (vaddr, bt_get (pages sp) vaddr)) steps in
      bnd (try_each (\<lambda>(vaddr, mapping) s.
             if mapping \<noteq> None then active_unmap a vaddr s else Inr (Inr 0, s)) olds s) (\<lambda>(r, s).
      case r of
        Inl e \<Rightarrow> Inr (Inl e, s)
      | Inr _ \<Rightarrow>
          bnd (replace_loop a flags olds [] (zip steps fs) s) (\<lambda>(r, s).
          case r of
            Inl e \<Rightarrow> Inr (Inl e, s)
          | Inr _ \<Rightarrow>
              bnd (for_list (\<lambda>m. free_frames (vp_phys m) 1) (List.map_filter snd olds) s) (\<lambda>s. Inr (Inr (), s)))))"

definition add_pages :: "MappingFlags \<Rightarrow> usize list \<Rightarrow> usize list \<Rightarrow> address_space \<Rightarrow> address_space" where
  "add_pages flags steps fs sp = sp\<lparr>pages := fold (\<lambda>(vaddr, phys).
     bt_insert vaddr \<lparr>vp_phys = phys, vp_flags = flags\<rparr>) (zip steps fs) (pages sp)\<rparr>"

definition swapped ::
  "arch \<Rightarrow> address_space \<Rightarrow> (usize \<times> vm_page) list \<Rightarrow> (usize \<times> vm_page) list \<Rightarrow> mmu \<Rightarrow> MapError + unit \<Rightarrow> mmu \<Rightarrow> bool" where
  "swapped a sp found new s r s' \<longleftrightarrow>
     (\<forall>q. hold a (as_root sp) s q \<and> q \<notin> phys_of ` set new \<longrightarrow> page_bytes s' q = page_bytes s q) \<and>
     (r \<noteq> Inr () \<longrightarrow> card (free_ppns (frame_st s)) < (LEVELS (pte a) - 1) * length new) \<and>
     (r = Inr () \<and> vmo a (as_root sp) (bt_get (pages sp) ++ map_of new) s' \<and>
        (\<forall>x \<in> set new. page_bytes s' (phys_of x) = (\<lambda>_. 0)) \<and> ppn ` phys_of ` set found \<subseteq> free_ppns (frame_st s') \<or>
      r = Inl OutOfMemory \<and> (\<exists>kept. set kept \<subseteq> set found \<and>
        vmo a (as_root sp) (without (bt_get (pages sp)) (fst ` set found) ++ map_of kept) s'))"

lemma replace_body:
  assumes inv: "vm_inv a sp s" and act: "active_root s = as_root sp"
    and ds: "distinct steps" "\<And>va. va \<in> set steps \<Longrightarrow> va mod 4096 = 0 \<and> va < ADDRESS_LIMIT a"
    and fs: "distinct fs" "length fs = length steps" "\<And>c. c \<in> set fs \<Longrightarrow> spare a sp s c"
    and fl: "contains flags FLAG_U" "flags_ok a flags"
  defines "found \<equiv> found_pages sp steps"
    and "new \<equiv> map (\<lambda>(va, c). (va, \<lparr>vp_phys = c, vp_flags = flags\<rparr>)) (zip steps fs)"
  shows "\<exists>r s'. swap_pages a sp flags steps fs s = Inr (r, s') \<and> active_root s' = as_root sp \<and> swapped a sp found new s r s'"
proof -
  define olds where "olds = map (\<lambda>vaddr. (vaddr, bt_get (pages sp) vaddr)) steps"
  let ?M = "bt_get (pages sp)" and ?r = "as_root sp"
  let ?W = "without ?M (fst ` set found)"
  have nl: "map fst new = steps" "map phys_of new = fs" "map (\<lambda>x. (fst x, phys_of x)) new = zip steps fs"
    using fs(2) by (simp_all add: new_def case_prod_unfold comp_def)
  have len: "length new = length steps" using fs(2) by (simp add: new_def)
  have d: "distinct (map fst found)" unfolding found_def by (rule distinct_found_pages [OF ds(1)])
  have o: "?M va = Some p" if "(va, p) \<in> set found" for va p using that by (simp add: found_def found_pages_iff)
  have v0: "vmi a ?r ?M s" using vmo_self [OF inv] act by (simp add: vmi_vmo)
  have lf: "loose a ?r ?M s c" if "c \<in> set fs" for c using fs(3) [OF that] by (simp add: loose_spare)
  from unmap_try [OF v0 d o]
  obtain s1 where s1: "try_each (\<lambda>(vaddr, _). active_unmap a vaddr) found s = Inr (Inr (), s1)"
    "vmi a ?r ?W s1" "carries a ?r {} s s1"
    "\<And>q. loose a ?r ?M s q \<or> q \<in> phys_of ` set found \<Longrightarrow> loose a ?r ?W s1 q"
    "free_ppns (frame_st s) \<subseteq> free_ppns (frame_st s1)" by blast
  have mo: "mappable a ?r ?W s1 found"
    using mappable_old [OF v0 d o s1(4), of "\<lambda>f. f"] vmi_page(3,4) [OF v0 o] by (simp add: map_idI)
  have "va mod 4096 = 0 \<and> va < ADDRESS_LIMIT a \<and> ?W va = None \<and> contains (vp_flags p) FLAG_U \<and> flags_ok a (vp_flags p) \<and>
      loose a ?r ?W s1 (vp_phys p)" if x: "(va, p) \<in> set new" for va p
  proof -
    have va: "va \<in> set steps" using imageI [OF x, of fst] nl(1) by (metis fst_conv set_map)
    have c: "vp_phys p \<in> set fs" using imageI [OF x, of phys_of] nl(2) by (metis snd_conv set_map)
    have "vp_flags p = flags" using x by (auto simp: new_def)
    moreover have "?W va = None"
      using va found_pages_iff [of va _ sp steps] by (cases "?M va") (force simp: without_def found_def)+
    ultimately show ?thesis using ds(2) [OF va] fl s1(4) [of "vp_phys p"] lf [OF c] by simp
  qed
  then have mn: "mappable a ?r ?W s1 ([] @ new)"
    using nl(1,2) ds(1) fs(1) unfolding mappable_def by auto
  have ff: "vp_flags (snd x) = flags" if "x \<in> set new" for x using that by (auto simp: new_def)
  have "vmi a ?r (?W ++ map_of []) s1" using s1(2) by simp
  from replace_loop_ok [OF this mn mo ff map_found [where a = a and sp = sp and vas = steps, folded olds_def found_def]]
  obtain r s2 where s2: "replace_loop a flags olds [] (zip steps fs) s1 = Inr (r, s2)"
    "remapped a ?r (phys_of ` set new) ?W found new s1 r s2"
    "r \<noteq> Inr () \<longrightarrow> card (free_ppns (frame_st s1)) < (LEVELS (pte a) - 1) * length new"
    "r = Inr () \<longrightarrow> (\<forall>x \<in> set new. page_bytes s2 (phys_of x) = (\<lambda>_. 0))"
    unfolding nl(3) by auto
  have cs: "carries a ?r (phys_of ` set new) s s2"
    using carries_trans [OF carries_mono [OF s1(3)], of "phys_of ` set new"] s2(2) unfolding remapped_def by blast
  have pb: "page_bytes s2 q = page_bytes s q" if "hold a ?r s q" "q \<notin> phys_of ` set new" for q
    using cs that unfolding carries_def by blast
  have cd: "card (free_ppns (frame_st s)) \<le> card (free_ppns (frame_st s1))" by (rule card_mono [OF finite_free s1(5)])
  have un: "try_each (\<lambda>(vaddr, mapping) s. if mapping \<noteq> None then active_unmap a vaddr s else Inr (Inr 0, s)) olds s = Inr (Inr (), s1)"
    unfolding olds_def unmap_found using s1(1) by (simp add: found_def)
  show ?thesis
  proof (cases "r = Inr ()")
    case False
    then have "swapped a sp found new s r s2" "active_root s2 = ?r"
      using s2(2,3) pb cd unfolding swapped_def remapped_def vmi_vmo by auto
    moreover obtain e where "r = Inl e" using False by (cases r) auto
    ultimately show ?thesis using un s2(1) by (auto simp: swap_pages_def olds_def [symmetric])
  next
    case True
    have sub: "fst ` set found \<subseteq> fst ` set new"
    proof (rule image_subsetI)
      fix y assume "y \<in> set found"
      then have "fst y \<in> set steps" using found_pages_iff [of "fst y" "snd y" sp steps] by (simp add: found_def)
      then show "fst y \<in> fst ` set new" using nl(1) by (metis set_map)
    qed
    then have WM: "?W ++ map_of new = ?M ++ map_of new"
      by (auto simp: without_def fun_eq_iff map_add_def map_of_eq_None_iff split: option.split)
    obtain sp2 where sp2: "as_root sp2 = ?r" "bt_get (pages sp2) = ?M ++ map_of new" "vm_inv a sp2 s2" "active_root s2 = ?r"
      using s2(2) True WM unfolding remapped_def vmi_def by auto
    have sq: "spare a sp2 s2 q" if q: "q \<in> set (map phys_of found)" for q
    proof -
      obtain va p where p: "(va, p) \<in> set found" "q = vp_phys p" using q by auto
      have h: "hold a ?r s q" using vmi_page(5) [OF v0 o [OF p(1)]] p(2) by simp
      have "vp_phys y \<noteq> q" if y: "(?M ++ map_of new) x = Some y" for x y
      proof (cases "map_of new x")
        case (Some z)
        then have "vp_phys z \<in> set fs" using imageI [OF map_of_SomeD [OF Some], of phys_of] nl(2) by (metis snd_conv set_map)
        then have "vp_phys z \<noteq> q" using lf o [OF p(1)] p(2) unfolding loose_def by metis
        then show ?thesis using y Some by (simp add: map_add_def)
      next
        case None
        then have "?M x = Some y" using y by (simp add: map_add_def)
        moreover have "x \<notin> fst ` set found" using None sub by (auto simp: map_of_eq_None_iff)
        ultimately have "?M x = Some y" "x \<notin> fst ` set found" by blast+
        then show ?thesis using vmi_page(6) [OF v0 _ o [OF p(1)], of x y] p by force
      qed
      then have "loose a ?r (?M ++ map_of new) s2 q" using h cs unfolding loose_def carries_def by blast
      then show ?thesis using loose_spare [of a sp2 s2 q] sp2(1,2) by simp
    qed
    have dq: "distinct (map phys_of found)" using mo by (simp add: mappable_def)
    from free_each [OF sp2(3) dq sq]
    obtain s3 where s3: "for_list (\<lambda>phys. free_frames phys 1) (map phys_of found) s2 = Inr s3" "vm_inv a sp2 s3"
      "gives s2 s3" "free_ppns (frame_st s3) = free_ppns (frame_st s2) \<union> ppn ` set (map phys_of found)" by blast
    have "vmo a ?r (?M ++ map_of new) s3" using s3(2) sp2(1,2) unfolding vmo_def by blast
    moreover have "page_bytes s3 = page_bytes s2" "active_root s3 = ?r" using s3(3) sp2(4) by (simp_all add: gives_def)
    ultimately have "swapped a sp found new s (Inr ()) s3" "active_root s3 = ?r"
      using pb s2(4) True s3(4) unfolding swapped_def by auto
    moreover have "for_list (\<lambda>m. free_frames (vp_phys m) 1) (List.map_filter snd olds) s2 = Inr s3"
      unfolding olds_def free_found using s3(1) by (simp add: found_def)
    ultimately show ?thesis using un s2(1) True by (auto simp: swap_pages_def olds_def [symmetric])
  qed
qed

lemma replace_zeroed_eq:
  assumes "replaceable a start len flags"
  defines "steps \<equiv> page_steps start (start + len)"
  shows "replace_zeroed a sp start len flags s =
    bnd (alloc_fresh (len div 4096) [] s) (\<lambda>(r, s).
    case r of
      Inl e \<Rightarrow> Inr (Inl e, sp, s)
    | Inr fs \<Rightarrow> bnd (with_active sp (swap_pages a sp flags steps fs) s) (\<lambda>(r, s).
        Inr (r, if r = Inr () then add_pages flags steps fs sp else sp, s)))"
proof -
  have st: "\<not> (unaligned start \<or> len = 0 \<or> unaligned len)" "\<not> (ADDRESS_LIMIT a < start + len \<or> \<not> contains flags FLAG_U)"
    using assms by (simp_all add: replaceable_def unaligned_iff)
  have "start + len < USIZE_LIM" using st(2) limit_bounds(2) [of a] by simp
  then have ca: "checked_add start len = Some (start + len)" by (simp add: checked_add_def)
  have out: "(case r of Inl e \<Rightarrow> Inr (Inl e, sp, s) | Inr _ \<Rightarrow> Inr (Inr (), add_pages flags steps fs sp, s))
      = Inr (r, if r = Inr () then add_pages flags steps fs sp else sp, s)" for r :: "MapError + unit" and fs and s :: mmu
    by (cases r) simp_all
  show ?thesis
    unfolding replace_zeroed_def if_not_P [OF st(1)] ca option.case if_not_P [OF st(2)] PAGE_SIZE_def
    unfolding Let_def steps_def [symmetric] add_pages_def [symmetric] out swap_pages_def [abs_def] ..
qed

lemma get_add_pages:
  assumes "distinct steps" "length fs = length steps"
  shows "bt_get (pages (add_pages flags steps fs sp)) = bt_get (pages sp)
    ++ map_of (map (\<lambda>(va, c). (va, \<lparr>vp_phys = c, vp_flags = flags\<rparr>)) (zip steps fs))"
proof -
  have "distinct (map fst (zip steps fs))" using assms by simp
  from get_fold_insert [OF this, of "\<lambda>c. \<lparr>vp_phys = c, vp_flags = flags\<rparr>"] show ?thesis by (simp add: add_pages_def)
qed

text \<open>From the pages swapped to the promise of the operation.\<close>

lemma swapped_replaced:
  assumes inv: "vm_inv a sp s" and sw: "swapped a sp (found_pages sp steps) new s1 r s2"
    and s1: "page_bytes s1 = page_bytes s" "\<And>q. held a sp s q \<Longrightarrow> hold a (as_root sp) s1 q"
    and st: "distinct steps" "\<And>va. va \<in> set steps \<longleftrightarrow> va mod 4096 = 0 \<and> R va"
    and fs: "set fs \<subseteq> free_pages s" "length fs = length steps"
    and new: "new = map (\<lambda>(va, c). (va, \<lparr>vp_phys = c, vp_flags = flags\<rparr>)) (zip steps fs)"
  shows "replaced a R flags sp s r (if r = Inr () then add_pages flags steps fs sp else sp) s2"
proof -
  let ?M = "bt_get (pages sp)" and ?r = "as_root sp" and ?f = "found_pages sp steps"
  have nl: "map fst new = steps" "map phys_of new = fs" using fs(2) by (simp_all add: new case_prod_unfold comp_def)
  have pb: "page_bytes s2 q = page_bytes s q" if q: "held a sp s q" for q
  proof -
    have "q \<notin> set fs" using held_not_free_page [OF q] fs(1) by blast
    then have "q \<notin> phys_of ` set new" using nl(2) by (metis set_map)
    then show ?thesis using sw s1(1) s1(2) [OF q] unfolding swapped_def by auto
  qed
  show ?thesis
  proof (cases "r = Inr ()")
    case ok: True
    define sp' where "sp' = add_pages flags steps fs sp"
    have g: "bt_get (pages sp') = ?M ++ map_of new" unfolding sp'_def new by (rule get_add_pages [OF st(1) fs(2)])
    have rt: "as_root sp' = ?r" "as_owned sp' = as_owned sp" by (simp_all add: sp'_def add_pages_def)
    have "bt_wf (pages sp')"
      using wf_fold_insert [of "pages sp" "\<lambda>c. \<lparr>vp_phys = c, vp_flags = flags\<rparr>"] vm_invD(5) [OF inv]
      by (simp add: sp'_def add_pages_def map_ok_def)
    then have v: "vm_inv a sp' s2" using sw ok g rt(1) by (intro vmo_inv) (auto simp: swapped_def)
    have "bt_get (pages sp') x = ?M x" if "\<not> R x" for x
    proof -
      have "x \<notin> set (map fst new)" using that st(2) nl(1) by simp
      then have "map_of new x = None" by (simp add: map_of_eq_None_iff)
      then show ?thesis by (simp add: g map_add_def)
    qed
    moreover have "\<exists>c. bt_get (pages sp') x = Some \<lparr>vp_phys = c, vp_flags = flags\<rparr> \<and> c \<in> free_pages s \<and>
        page_bytes s2 c = (\<lambda>_. 0)" if x: "R x \<and> x mod 4096 = 0" for x
    proof -
      have "x \<in> set (map fst new)" using x st(2) nl(1) by simp
      then obtain p where p: "map_of new x = Some p" by (metis map_of_eq_None_iff not_None_eq set_map)
      then have i: "(x, p) \<in> set new" by (rule map_of_SomeD)
      have "vp_phys p \<in> set fs" using imageI [OF i, of phys_of] nl(2) by (metis snd_conv set_map)
      moreover have "p = \<lparr>vp_phys = vp_phys p, vp_flags = flags\<rparr>" using i by (auto simp: new)
      moreover have "page_bytes s2 (vp_phys p) = (\<lambda>_. 0)" using sw ok i unfolding swapped_def by auto
      ultimately show ?thesis using fs(1) p unfolding g by (intro exI [of _ "vp_phys p"]) (auto simp: map_add_def)
    qed
    moreover have "ppn (vp_phys p) \<in> free_ppns (frame_st s2)" if x: "R x" "?M x = Some p" for x p
    proof -
      have "x mod 4096 = 0" using map_okD(1) [OF vm_invD(5) [OF inv] x(2)] .
      then have "(x, p) \<in> set ?f" using x st(2) by (simp add: found_pages_iff)
      from imageI [OF this, of phys_of] have "ppn (vp_phys p) \<in> ppn ` phys_of ` set ?f" by simp
      moreover have "ppn ` phys_of ` set ?f \<subseteq> free_ppns (frame_st s2)" using sw ok unfolding swapped_def by auto
      ultimately show ?thesis by blast
    qed
    ultimately have "replaced a R flags sp s (Inr ()) sp' s2"
      using pb v rt unfolding replaced_def sum.case by blast
    then show ?thesis using ok by (simp add: sp'_def)
  next
    case False
    then obtain kept where k: "r = Inl OutOfMemory" "set kept \<subseteq> set ?f"
        "vmo a ?r (without ?M (fst ` set ?f) ++ map_of kept) s2" using sw unfolding swapped_def by auto
    obtain rest where rest: "as_root rest = ?r" "vm_inv a rest s2" "bt_get (pages rest) = without ?M (fst ` set ?f) ++ map_of kept"
      using k(3) unfolding vmo_def by blast
    have o: "?M va = Some p" if "(va, p) \<in> set ?f" for va p using that by (simp add: found_pages_iff)
    have "x \<in> fst ` set ?f \<Longrightarrow> R x" for x using st(2) by (auto simp: found_pages_iff)
    then have "bt_get (pages rest) x = ?M x \<or> R x \<and> bt_get (pages rest) x = None" for x
      using without_kept [of kept ?f ?M x, OF k(2) o] unfolding rest(3) by auto
    then show ?thesis using k(1) rest(1,2) pb by (auto simp: replaced_def)
  qed
qed

lemma swapped_mem:
  assumes "same_mem s s0"
  shows "swapped a sp found new s0 = swapped a sp found new s" "swapped a sp found new s' r s0 = swapped a sp found new s' r s"
proof -
  have "hold a root s0 q = hold a root s q" for root q
    using vm_cong(2) [of s0 s] assms unfolding same_mem_def hold_def by simp
  then show "swapped a sp found new s0 = swapped a sp found new s"
    unfolding swapped_def fun_eq_iff same_memD(3,4) [OF assms] by simp
  show "swapped a sp found new s' r s0 = swapped a sp found new s' r s"
    unfolding swapped_def same_memD(3,4) [OF assms] carries_mem(3) [OF assms] by (rule refl)
qed

lemma replace_zeroed_run:
  assumes inv: "vm_inv a sp s" and fl: "flags_ok a flags"
  obtains r sp' s' where "replace_zeroed a sp start len flags s = Inr (r, sp', s')" "active_root s' = active_root s"
    "if replaceable a start len flags
     then replaced a (\<lambda>x. start \<le> x \<and> x < start + len) flags sp s r sp' s' \<and>
       (r \<noteq> Inr () \<longrightarrow> card (free_ppns (frame_st s)) < LEVELS (pte a) * (len div 4096))
     else r = Inl BlockedByExistingMapping \<and> sp' = sp \<and> s' = s"
proof (cases "replaceable a start len flags")
  case False
  then have "replace_zeroed a sp start len flags s = Inr (Inl BlockedByExistingMapping, sp, s)"
    by (auto simp: replace_zeroed_def replaceable_def unaligned_iff checked_add_def)
  then show thesis using False by (intro that) simp_all
next
  case True
  define R where "R = (\<lambda>x. start \<le> x \<and> x < start + len)"
  define n where "n = len div 4096"
  define steps where "steps = page_steps start (start + len)"
  note run = replace_zeroed_eq [OF True, of sp s, folded n_def steps_def]
  have st: "start mod 4096 = 0" "len mod 4096 = 0" "start + len \<le> ADDRESS_LIMIT a" "contains flags FLAG_U"
    using True by (simp_all add: replaceable_def)
  have ln: "length steps = n" using st(2) by (simp add: steps_def n_def length_page_steps)
  have ds: "distinct steps" unfolding steps_def by (rule distinct_page_steps)
  have si: "va \<in> set steps \<longleftrightarrow> va mod 4096 = 0 \<and> R va" for va
    unfolding steps_def R_def by (rule page_steps_iff [OF st(1)])
  have up: "va < ADDRESS_LIMIT a" if "R va" for va using that st(3) by (simp add: R_def)
  have lv: "n \<le> LEVELS (pte a) * n" "LEVELS (pte a) * n = (LEVELS (pte a) - 1) * n + n"
    using arch.levels(1) [of a] by (simp_all add: diff_mult_distrib)
  from alloc_fresh_ok [OF inv, of "[]" n]
  obtain r0 s1 where s1: "alloc_fresh n [] s = Inr (r0, s1)" "taken a sp n [] s r0 s1" by auto
  have inv1: "vm_inv a sp s1" "page_bytes s1 = page_bytes s" "active_root s1 = active_root s"
    using s1(2) by (simp_all add: taken_def)
  show thesis
  proof (cases r0)
    case (Inl e)
    then have "e = OutOfMemory" "card (free_ppns (frame_st s)) < n" using s1(2) by (simp_all add: taken_def)
    moreover from this(2) lv(1) have "card (free_ppns (frame_st s)) < LEVELS (pte a) * n" by linarith
    moreover have "replaced a R flags sp s (Inl OutOfMemory) sp s1" using inv1 unfolding replaced_def by auto
    ultimately show thesis
      using run s1(1) Inl inv1(3) True by (intro that [of "Inl OutOfMemory" sp s1]) (simp_all add: R_def n_def)
  next
    case (Inr fs)
    then have fs: "length fs = length steps" "distinct fs" "set fs \<subseteq> free_pages s" "\<And>c. c \<in> set fs \<Longrightarrow> spare a sp s1 c"
        "card (free_ppns (frame_st s)) = card (free_ppns (frame_st s1)) + n" "\<And>q. spare a sp s q \<Longrightarrow> spare a sp s1 q"
      using s1(2) ln unfolding taken_def by auto
    define new where "new = map (\<lambda>(va, c). (va, \<lparr>vp_phys = c, vp_flags = flags\<rparr>)) (zip steps fs)"
    have h1: "hold a (as_root sp) s1 q" if "held a sp s q" for q
      using inv that
    proof (cases rule: held_cases)
      case 1
      then show ?thesis using fs(6) by (simp add: hold_held spare_def)
    next
      case (2 va p)
      then show ?thesis using map_okD(5) [OF vm_invD(5) [OF inv1(1)] 2(1)] by (simp add: hold_held)
    qed
    show thesis
    proof (rule with_active_ok [where s = s1 and sp = sp and operation = "swap_pages a sp flags steps fs"
          and P = "swapped a sp (found_pages sp steps) new s1"])
      fix s0 assume s0: "same_mem s1 s0" "active_root s0 = as_root sp"
      show "\<exists>r s2. swap_pages a sp flags steps fs s0 = Inr (r, s2) \<and> active_root s2 = as_root sp \<and>
          swapped a sp (found_pages sp steps) new s1 r s2"
        unfolding swapped_mem(1) [OF s0(1), symmetric] new_def
        by (rule replace_body [OF _ s0(2) ds _ fs(2,1) _ st(4) fl])
          (use inv1(1) fs(4) si up in \<open>simp_all add: same_memD [OF s0(1)]\<close>)
    next
      show "swapped a sp (found_pages sp steps) new s1 r s3"
        if "swapped a sp (found_pages sp steps) new s1 r s2" "same_mem s2 s3" for r s2 s3
        using that(1) swapped_mem(2) [OF that(2)] by blast
    next
      fix r s2
      assume w: "with_active sp (swap_pages a sp flags steps fs) s1 = Inr (r, s2)" "active_root s2 = active_root s1"
        "swapped a sp (found_pages sp steps) new s1 r s2"
      have "replaced a R flags sp s r (if r = Inr () then add_pages flags steps fs sp else sp) s2"
        by (rule swapped_replaced [OF inv w(3) inv1(2) h1 ds si fs(3,1) new_def])
      moreover have "card (free_ppns (frame_st s)) < LEVELS (pte a) * n" if "r \<noteq> Inr ()"
        using w(3) that fs(1,5) lv(2) ln unfolding swapped_def new_def by auto
      ultimately show thesis
        using run s1(1) Inr w(1,2) inv1(3) True
        by (intro that [of r "if r = Inr () then add_pages flags steps fs sp else sp" s2]) (simp_all add: R_def n_def)
    qed
  qed
qed

end
