(* ===== verification/Kor_Mm_Spec.thy ===== *)
theory Kor_Mm_Spec
  imports Kor_User_Mem Kor_Vm_Fork Kor_Vm_Replace
begin

text \<open>
  What the memory manager promises, on all three architectures: mapping, unmapping and
  releasing page tables, the operations of user address spaces and the access of system calls
  to user memory.  The witnesses start from twelve frames of which the first three are in use and
  the third holds an empty root.
\<close>

section \<open>A small machine\<close>

definition small :: mmu where
  "small = \<lparr>tables = (\<lambda>_ _. 0), page_bytes = (\<lambda>_ _. 0), metadata = (\<lambda>_. None), dlock = (\<lambda>_. False),
     frame_st = twelve 7 3 9, active_root = 0x2000, tlb_log = [], irq_on = True\<rparr>"

definition small_space :: address_space where
  "small_space = \<lparr>as_root = 0x2000, as_owned = True, pages = []\<rparr>"

lemma small_free: "free_ppns (twelve 7 3 9) = {3..<12}" "managed_ppns (twelve 7 3 9) = {..<12}"
proof -
  let ?t = "twelve 7 3 9"
  have f: "region_count ?t = Suc 0" "start_ppn (regions ?t 0) = 0" "r_frames (regions ?t 0) = 12"
    "bitmap_base (regions ?t 0) = 0" "allocated ?t 0 = 7" by (simp_all add: twelve_def)
  show "managed_ppns ?t = {..<12}"
    by (simp add: managed_ppns_def region_ppns_def f lessThan_Suc atLeast0LessThan)
  have m: "(7 :: u64) = mask 3" by (simp add: mask_eq_exp_minus_1)
  have "is_set ?t off \<longleftrightarrow> off < 3" if "off < 12" for off
  proof -
    have "off div 64 = 0" "off mod 64 = off" using that by simp_all
    then have "is_set ?t off \<longleftrightarrow> bit (7 :: u64) off" unfolding is_set_def by (simp only: f(5))
    also have "\<dots> \<longleftrightarrow> off < 3" unfolding m bit_mask_iff by auto
    finally show ?thesis .
  qed
  then have "free_at ?t i off \<longleftrightarrow> i = 0 \<and> 3 \<le> off \<and> off < 12" for i off
    unfolding free_at_def f(1) less_Suc0 by (cases "i = 0") (auto simp: f not_less)
  then show "free_ppns ?t = {3..<12}" unfolding free_ppns_def by (auto simp: f)
qed

lemma zero_tables:
  "reach (pte a) (\<lambda>_ _. 0) l p = {p}" "tree (pte a) (\<lambda>_ _. 0) l p" "meta_ok (pte a) (\<lambda>_ _. 0) (\<lambda>_. None) l p"
  "hw_walk (pte a) (\<lambda>_ _. 0) x l p = None" "path_ok (pte a) ok (\<lambda>_ _. 0) k x l p"
  by (cases l; simp add: istable_def stat_def Let_def)+

lemma small_sys: "sys_ok small" "at_rest small" "space_ok (pte a) 0x2000 small" "owned (pte a) small l p I"
proof -
  have f: "frame_st small = twelve 7 3 9" "metadata small = (\<lambda>_. None)" by (simp_all add: small_def)
  show "sys_ok small"
    unfolding sys_ok_def f small_free MAX_TRACKED_FRAMES_def lessThan_subset_iff
    using frame_reach_inv [OF twelve_reach_7] by simp
  show "at_rest small" by (simp add: at_rest_def small_def)
  show "space_ok (pte a) 0x2000 small"
    unfolding space_ok_def sub_ok_def
    by (simp add: small_def zero_tables small_free desc_ok_def MAX_TRACKED_FRAMES_def)
  show "owned (pte a) small l p I" by (simp add: owned_def small_def istable_def)
qed

lemma small_tables: "tables small = (\<lambda>_ _. 0)"
  by (simp add: small_def)

lemma small_xlate: "xlate (pte a) root x small = None"
  by (simp add: xlate_def hw_addr_def small_def zero_tables)

lemma small_inv: "vm_inv a small_space small"
  unfolding vm_inv_def map_ok_def hw_agrees_def small_space_def
  using small_sys(1,2) small_sys(3,4) [of a] small_xlate by (simp add: gran_def small_def zero_tables as_translate_def)

lemma small_card: "card (free_ppns (frame_st small)) = 9"
  by (simp add: small_def small_free)

lemma user_flags: "contains 11 FLAG_U" "flags_ok a 11"
  by (simp_all add: contains_def FLAG_U_def FLAG_R_def flags_ok_def rwx_def any_flags_def split: arch.split)

section \<open>Page tables\<close>

text \<open>
  The rights user code has at an address: those of the leaf entry the walk ends in.  The table entries
  above it restrict nothing in the encodings of \<open>Kor_Pte\<close>.
\<close>

definition user_rights :: "arch \<Rightarrow> usize \<Rightarrow> usize \<Rightarrow> mmu \<Rightarrow> MappingFlags option" where
  "user_rights a root x s = map_option (\<lambda>(ph, e, g). hw_rights a e)
     (hw_walk (pte a) (tables s) x (LEVELS (pte a) - 1) root)"

lemma page_inside:
  assumes "start mod 4096 = (0 :: nat)" "len mod 4096 = 0"
  shows "start \<le> x \<and> x < start + len \<longleftrightarrow> start \<le> x div 4096 * 4096 \<and> x div 4096 * 4096 < start + len"
proof -
  obtain m n where d: "start = 4096 * m" "len = 4096 * n" using assms unfolding mod_eq_0_iff_dvd dvd_def by blast
  define q where "q = x div 4096"
  have x: "4096 * q \<le> x" "x < 4096 * q + 4096"
    using mult_div_mod_eq [of 4096 x] mod_less_divisor [of 4096 x] unfolding q_def by linarith+
  have "4096 * m \<le> x \<longleftrightarrow> m \<le> q" "x < 4096 * m + 4096 * n \<longleftrightarrow> q < m + n" using x by linarith+
  then show ?thesis unfolding q_def [symmetric] d by auto
qed

lemma vm_rights:
  assumes "vm_inv a sp s" "x < ADDRESS_LIMIT a"
  shows "user_rights a (as_root sp) x s =
    map_option (\<lambda>p. granted a (vp_flags p)) (bt_get (pages sp) (x div 4096 * 4096))"
proof -
  note i = vm_invD [OF assms(1)]
  have "hw_rights a (leaf_entry (pte a) (vp_phys p) (vp_flags p) 0) = granted a (vp_flags p)"
    if "bt_get (pages sp) (x div 4096 * 4096) = Some p" for p
    using map_okD(5) [OF i(5) that]
    by (intro hw_rights_leaf arch.phys_ok_base desc_ok_page) (simp add: held_def)
  then show ?thesis
    unfolding user_rights_def hw_agreesD(3) [OF i(6) assms(2)] by (cases "bt_get (pages sp) (x div 4096 * 4096)") (simp_all add: page_leaf_def)
qed

text \<open>Both what the hardware translates to and what it allows, from the map.\<close>

lemma vm_seen:
  assumes "vm_inv a sp s" "x < ADDRESS_LIMIT a"
  shows "user_rights a (as_root sp) x s =
      map_option (\<lambda>p. granted a (vp_flags p)) (bt_get (pages sp) (x div 4096 * 4096))"
    and "xlate (pte a) (as_root sp) x s =
      map_option (\<lambda>p. usize_add (vp_phys p) (x mod 4096)) (bt_get (pages sp) (x div 4096 * 4096))"
proof -
  have "x < USIZE_LIM" using assms(2) limit_bounds(2) [of a] by simp
  then show "xlate (pte a) (as_root sp) x s =
      map_option (\<lambda>p. usize_add (vp_phys p) (x mod 4096)) (bt_get (pages sp) (x div 4096 * 4096))"
    using hw_agreesD(2) [OF vm_invD(6) [OF assms(1)] assms(2)] as_translate_eq by simp
qed (rule vm_rights [OF assms])

text \<open>
  C4: \<^verbatim>\<open>AddrSpace::map\<close> (\<^verbatim>\<open>base/kor-mmu\<close>), for either page size and every architecture, always returns
  and releases every descriptor lock, with the tables sound.  A misaligned address or frame is answered
  \<^verbatim>\<open>Unsupported\<close> and a page that is mapped explicitly (its entry is present and its status recorded)
  \<^verbatim>\<open>BlockedByExistingMapping\<close>, both without any change.  Otherwise the answer is success, or
  \<^verbatim>\<open>OutOfMemory\<close> when fewer frames are free than levels are missing.  On success exactly at the addresses of the
  new page the walk ends in the encoding of the given frame and permissions, so that user code has the rights
  asked for, and the page counts as mapped explicitly.  At every other address, and everywhere on
  \<^verbatim>\<open>OutOfMemory\<close>, the address and the permissions read back are the old ones, and outside the larger leaf
  that had to be split on the way the walk ends in the very same entry.  \<^verbatim>\<open>AddrSpace::translate\<close> afterwards
  agrees with the hardware.  The frame has to be one the entry format can encode when it is aligned.
\<close>

theorem mmu_map_correct:
  assumes "sys_ok s" "space_ok (pte a) root s" "at_rest s" and k: "k = (case sz of Page4K \<Rightarrow> 0 | Page2M \<Rightarrow> 1)"
    and l: "l = LEVELS (pte a) - 1" and "phys mod span k = 0 \<longrightarrow> phys_ok a k phys" "flags_ok a flags"
    and "path_ok (pte a) (phys_ok a) (tables s) k va l root"
  shows "\<exists>r s'. addrspace_map (pte a) root va phys flags sz s = Inr (r, s') \<and>
    at_rest s' \<and> sys_ok s' \<and> space_ok (pte a) root s' \<and>
    (\<forall>x. addrspace_translate (pte a) root x s' = Inr (xlate (pte a) root x s', s')) \<and>
    (k = 0 \<and> xlate (pte a) root va s = None \<longrightarrow> r \<noteq> Inl BlockedByExistingMapping) \<and>
    (if va mod span k \<noteq> 0 \<or> phys mod span k \<noteq> 0 then r = Inl Unsupported \<and> s' = s
     else if explicit (pte a) s k va l root then r = Inl BlockedByExistingMapping \<and> s' = s
     else (r = Inr () \<and> explicit (pte a) s' k va l root \<or>
           r = Inl OutOfMemory \<and> card (free_ppns (frame_st s)) < l - k) \<and>
       (\<forall>x. if r = Inr () \<and> x mod span (LEVELS (pte a)) div span k = va mod span (LEVELS (pte a)) div span k
            then hw_walk (pte a) (tables s') x l root = Some (phys, leaf_entry (pte a) phys flags k, span k) \<and>
              xlate (pte a) root x s' = Some (phys + x mod span k) \<and> user_rights a root x s' = Some (granted a flags)
            else hw_view (pte a) (tables s') x l root = hw_view (pte a) (tables s) x l root \<and>
              xlate (pte a) root x s' = xlate (pte a) root x s \<and>
              (\<not> in_split (pte a) (tables s) k va x l root \<longrightarrow>
                 hw_walk (pte a) (tables s') x l root = hw_walk (pte a) (tables s) x l root)))"
proof (cases "va mod span k \<noteq> 0 \<or> phys mod span k \<noteq> 0")
  case True
  then have "addrspace_map (pte a) root va phys flags sz s = Inr (Inl Unsupported, s)"
    by (intro arch.addrspace_map_unaligned [OF assms(2,3)])
      (cases sz, simp_all add: k map_size_bytes_def span_eq)
  then show ?thesis using True assms(1-3) arch.translate_eq [OF assms(2,3)] by simp
next
  case False
  then have al: "va mod span k = 0" "phys mod span k = 0" by simp_all
  have ph: "phys_ok a k phys" using assms(6) al(2) by simp
  have kl: "k \<le> l" "l < 4" "Suc l = LEVELS (pte a)" using arch.levels [of a] by (cases sz; auto simp: k l)+
  have path: "path_ok (pte a) (phys_ok a) (tables s) k va (LEVELS (pte a) - 1) root" using assms(8) l by simp
  show ?thesis
  proof (rule arch.addrspace_map_ok [where sz = sz and a = a, OF assms(1-3), folded k l, OF al assms(8) ph assms(7)])
    fix r s'
    assume m: "addrspace_map (pte a) root va phys flags sz s = Inr (r, s')" "at_rest s'" "grows (pte a) l root s s'"
      "r \<in> {Inr (), Inl OutOfMemory, Inl BlockedByExistingMapping}"
      "r = Inl BlockedByExistingMapping \<longleftrightarrow> explicit (pte a) s k va l root"
      "r = Inl BlockedByExistingMapping \<Longrightarrow> s' = s" "r = Inr () \<Longrightarrow> explicit (pte a) s' k va l root"
      "r = Inl OutOfMemory \<Longrightarrow> card (free_ppns (frame_st s)) < l - k"
      "\<And>x. \<lbrakk>r = Inr (); same_path va x k l\<rbrakk> \<Longrightarrow>
         hw_walk (pte a) (tables s') x l root = Some (phys, leaf_entry (pte a) phys flags k, span k)"
      "\<And>x. \<not> (r = Inr () \<and> same_path va x k l) \<Longrightarrow>
         hw_view (pte a) (tables s') x l root = hw_view (pte a) (tables s) x l root"
      "\<And>x. \<lbrakk>\<not> (r = Inr () \<and> same_path va x k l); \<not> in_split (pte a) (tables s) k va x l root\<rbrakk> \<Longrightarrow>
         hw_walk (pte a) (tables s') x l root = hw_walk (pte a) (tables s) x l root"
    have sp: "space_ok (pte a) root s'" using growsD(2) [OF m(3)] by (simp add: space_ok_def l)
    have on: "x mod span (LEVELS (pte a)) div span k = va mod span (LEVELS (pte a)) div span k \<longleftrightarrow> same_path va x k l" for x
      using same_path_iff [OF kl(1,2), of va x] unfolding kl(3) by auto
    have new: "xlate (pte a) root x s' = Some (phys + x mod span k) \<and> user_rights a root x s' = Some (granted a flags)"
      if "r = Inr ()" "same_path va x k l" for x
      using m(9) [OF that] hw_rights_leaf [OF ph, of flags] by (simp add: xlate_def hw_addr_def user_rights_def l)
    have old: "xlate (pte a) root x s' = xlate (pte a) root x s" if "\<not> (r = Inr () \<and> same_path va x k l)" for x
      using m(10) [OF that] by (simp add: xlate_def hw_addr_view l)
    have blk: "k = 0 \<and> xlate (pte a) root va s = None \<longrightarrow> r \<noteq> Inl BlockedByExistingMapping"
      using m(5) explicit_walk [of "pte a" s va l root] by (auto simp: xlate_def hw_addr_def l)
    show ?thesis
    proof (rule exI [of _ r], rule exI [of _ s'], intro conjI blk m(1,2) growsD(1) [OF m(3)] sp allI)
      show "addrspace_translate (pte a) root x s' = Inr (xlate (pte a) root x s', s')" for x
        by (rule arch.translate_eq [OF sp m(2)])
      show "if va mod span k \<noteq> 0 \<or> phys mod span k \<noteq> 0 then r = Inl Unsupported \<and> s' = s
        else if explicit (pte a) s k va l root then r = Inl BlockedByExistingMapping \<and> s' = s
        else (r = Inr () \<and> explicit (pte a) s' k va l root \<or>
           r = Inl OutOfMemory \<and> card (free_ppns (frame_st s)) < l - k) \<and>
         (\<forall>x. if r = Inr () \<and> x mod span (LEVELS (pte a)) div span k = va mod span (LEVELS (pte a)) div span k
            then hw_walk (pte a) (tables s') x l root = Some (phys, leaf_entry (pte a) phys flags k, span k) \<and>
              xlate (pte a) root x s' = Some (phys + x mod span k) \<and> user_rights a root x s' = Some (granted a flags)
            else hw_view (pte a) (tables s') x l root = hw_view (pte a) (tables s) x l root \<and>
              xlate (pte a) root x s' = xlate (pte a) root x s \<and>
              (\<not> in_split (pte a) (tables s) k va x l root \<longrightarrow>
                 hw_walk (pte a) (tables s') x l root = hw_walk (pte a) (tables s) x l root))"
        unfolding on using al m(4-11) new old by auto
    qed
  qed
qed

theorem mmu_map_correct_witness:
  "xlate (pte X86_64) 0x2000 0x401234 small = None \<and>
   (\<exists>s'. addrspace_map (pte X86_64) 0x2000 0x401000 0x5000 11 Page4K small = Inr (Inr (), s') \<and>
      addrspace_translate (pte X86_64) 0x2000 0x401234 s' = Inr (Some 0x5234, s') \<and>
      user_rights X86_64 0x2000 0x401234 s' = Some 15) \<and>
   addrspace_map (pte X86_64) 0x2000 0x401001 0x5000 11 Page4K small = Inr (Inl Unsupported, small)"
proof -
  have sp: "span 0 = 4096" "LEVELS (pte X86_64) = 4" "span 4 = 2 ^ 48"
    by (simp_all add: span_eq pte_def x86_64_def)
  have l: "3 = LEVELS (pte X86_64) - 1" by (simp add: sp)
  have p: "0 = (case Page4K of Page4K \<Rightarrow> 0 | Page2M \<Rightarrow> 1)" "0x5000 mod span 0 = 0 \<longrightarrow> phys_ok X86_64 0 0x5000"
    by (simp_all add: phys_ok_def page_addr_def)
  have path: "path_ok (pte X86_64) (phys_ok X86_64) (tables small) 0 x 3 0x2000" for x
    by (simp only: small_tables zero_tables)
  have ex: "\<not> explicit (pte X86_64) small 0 0x401000 3 0x2000"
    using explicit_walk [of "pte X86_64" small "0x401000" 3 "0x2000"] by (auto simp: small_tables zero_tables)
  have gr: "granted X86_64 11 = 15" by (simp add: granted_def FLAG_R_def FLAG_W_def FLAG_X_def FLAG_U_def)
  from mmu_map_correct [OF small_sys(1) small_sys(3) small_sys(2) p(1) l p(2) user_flags(2) path, of "0x401000"]
  have "\<exists>s'. addrspace_map (pte X86_64) 0x2000 0x401000 0x5000 11 Page4K small = Inr (Inr (), s') \<and>
      addrspace_translate (pte X86_64) 0x2000 0x401234 s' = Inr (Some 0x5234, s') \<and>
      user_rights X86_64 0x2000 0x401234 s' = Some 15"
  proof (elim exE conjE, goal_cases)
    case (1 r s')
    note c = 1(7) [unfolded if_not_P [OF ex]]
    have "r \<noteq> Inl OutOfMemory" using c small_card by (simp add: sp)
    then have r: "r = Inr ()" using c by (auto simp: sp split: if_splits)
    then have "xlate (pte X86_64) 0x2000 0x401234 s' = Some 0x5234 \<and> user_rights X86_64 0x2000 0x401234 s' = Some 15"
      using c by (auto simp: sp gr dest!: spec [of _ "0x401234"] split: if_splits)
    then show ?case using 1(1,5) r by (intro exI [of _ s']) simp
  qed
  moreover have "addrspace_map (pte X86_64) 0x2000 0x401001 0x5000 11 Page4K small = Inr (Inl Unsupported, small)"
    using mmu_map_correct [OF small_sys(1) small_sys(3) small_sys(2) p(1) l p(2) user_flags(2) path, of "0x401001"]
    by (auto simp: sp)
  ultimately show ?thesis using small_xlate by blast
qed

text \<open>A page mapped in the small machine.\<close>

lemma small_page:
  obtains c s where
    "map_zeroed a small_space 0x401000 11 small = Inr (Inr c, put 0x401000 \<lparr>vp_phys = c, vp_flags = 11\<rparr> small_space, s)"
    "vm_inv a (put 0x401000 \<lparr>vp_phys = c, vp_flags = 11\<rparr> small_space) s" "c \<in> free_pages small"
    "page_bytes s c = (\<lambda>_. 0)" "9 \<le> card (free_ppns (frame_st s)) + LEVELS (pte a)" "active_root s = 0x2000"
    "managed_ppns (frame_st s) = {..<12}"
proof -
  have lim: "0x401000 < ADDRESS_LIMIT a" by (simp add: ADDRESS_LIMIT_def split: arch.split)
  have nm: "\<not> is_mapped small_space 0x401000" by (simp add: is_mapped_def small_space_def)
  have lv: "LEVELS (pte a) \<le> 4" by (rule arch.levels)
  from small_inv user_flags(2) show thesis
  proof (rule map_zeroed_run [where va = "0x401000" and a = a])
    fix r s
    assume m: "map_zeroed a small_space 0x401000 11 small = Inr (r, case r of
        Inr phys \<Rightarrow> put 0x401000 \<lparr>vp_phys = phys, vp_flags = 11\<rparr> small_space | Inl _ \<Rightarrow> small_space, s)"
      "active_root s = active_root small"
      "if 0x401000 mod 4096 \<noteq> (0 :: nat) \<or> ADDRESS_LIMIT a \<le> 0x401000 \<or> \<not> contains 11 FLAG_U \<or> is_mapped small_space 0x401000
       then r = Inl BlockedByExistingMapping \<and> s = small else mapped_fresh a small_space 0x401000 11 small r s"
    have mf: "mapped_fresh a small_space 0x401000 11 small r s" using m(3) lim nm user_flags(1) by simp
    obtain c where r: "r = Inr c" using mf lv small_card by (cases r) (auto simp: mapped_fresh_def)
    have "active_root small = 0x2000" "managed_ppns (frame_st small) = {..<12}" by (simp_all add: small_def small_free)
    then show thesis using m(1,2) mf small_card unfolding r mapped_fresh_def by (intro that [of c s]) simp_all
  qed
qed

text \<open>
  C5: \<^verbatim>\<open>AddrSpace::unmap\<close> of an address the hardware does not translate is refused and changes nothing.
  Otherwise it answers the address it translated to; for every address below the top of the
  root the walk is then the old one, except that the 4 KiB leaves the range meets and the larger
  leaves it contains are gone.  The tables stay sound.  Table pages that became empty go back to the frame
  allocator: afterwards no table below the root on the way to an address of the range is empty, and the
  frames that became free are exactly those of the table pages that left the tree.
\<close>

theorem mmu_unmap_correct:
  assumes "sys_ok s" "space_ok (pte a) root s" "at_rest s" and l: "l = LEVELS (pte a) - 1"
    and "owned (pte a) s l root I" and st: "stop = va + map_size_bytes sz"
    and "{table_index va l..table_index (stop - 1) l} \<subseteq> I" "stop \<le> span (LEVELS (pte a))"
  shows "case xlate (pte a) root va s of
      None \<Rightarrow> addrspace_unmap (pte a) root va sz s = Inr (Inl BlockedByExistingMapping, s)
    | Some pa \<Rightarrow> \<exists>s'. addrspace_unmap (pte a) root va sz s = Inr (Inr pa, s') \<and>
        at_rest s' \<and> sys_ok s' \<and> space_ok (pte a) root s' \<and>
        (\<forall>x < span (LEVELS (pte a)).
           hw_walk (pte a) (tables s') x l root = cut va stop x (hw_walk (pte a) (tables s) x l root)) \<and>
        reach (pte a) (tables s') l root \<subseteq> reach (pte a) (tables s) l root \<and>
        free_ppns (frame_st s') = free_ppns (frame_st s)
          \<union> ppn ` (reach (pte a) (tables s) l root - reach (pte a) (tables s') l root) \<and>
        (\<forall>x. va \<le> x \<and> x < stop \<longrightarrow> pruned (pte a) (tables s') x l root)"
proof (cases "xlate (pte a) root va s")
  case None
  then show ?thesis using arch.addrspace_unmap_absent [OF assms(2,3)] by simp
next
  case (Some pa)
  obtain s' where u: "addrspace_unmap (pte a) root va sz s = Inr (Inr pa, s')" "at_rest s'"
      "shrinks (pte a) l root s s'"
      "\<And>x. x < span (LEVELS (pte a)) \<Longrightarrow>
         hw_walk (pte a) (tables s') x l root = cut va stop x (hw_walk (pte a) (tables s) x l root)"
      "frees (pte a) l root s s'" "\<And>x. va \<le> x \<Longrightarrow> x < stop \<Longrightarrow> pruned (pte a) (tables s') x l root"
    unfolding l st
    by (rule arch.addrspace_unmap_ok [where sz = sz and va = va, OF assms(1,2) assms(5) [unfolded l] assms(3)
          assms(7,8) [unfolded l st] Some]) blast
  note sh = shrinksD [OF u(3)]
  have "space_ok (pte a) root s'" using sh(2) by (simp add: space_ok_def l)
  then show ?thesis unfolding Some option.case using u(1,2,4,6) u(5) [unfolded frees_def] sh(1,3) by blast
qed

theorem mmu_unmap_correct_witness:
  "\<exists>s c s'. xlate (pte Riscv64) 0x2000 0x401000 s = Some c \<and>
     addrspace_unmap (pte Riscv64) 0x2000 0x401000 Page4K s = Inr (Inr c, s') \<and>
     hw_walk (pte Riscv64) (tables s') 0x401234 2 0x2000 = None \<and>
     free_ppns (frame_st s') = free_ppns (frame_st s)
       \<union> ppn ` (reach (pte Riscv64) (tables s) 2 0x2000 - reach (pte Riscv64) (tables s') 2 0x2000) \<and>
     pruned (pte Riscv64) (tables s') 0x401234 2 0x2000"
proof (rule small_page [where a = Riscv64])
  fix c s
  let ?sp = "put 0x401000 \<lparr>vp_phys = c, vp_flags = 11\<rparr> small_space"
  assume inv: "vm_inv Riscv64 ?sp s"
  note i = vm_invD [OF inv]
  have rt: "as_root ?sp = 0x2000" by (simp add: small_space_def)
  have lv: "LEVELS (pte Riscv64) = 3" "(2 :: nat) = LEVELS (pte Riscv64) - 1" "span 3 = 2 ^ 39" "span 0 = 4096"
    by (simp_all add: pte_def riscv64_def span_eq)
  have lim: "0x401fff < ADDRESS_LIMIT Riscv64" "0x401234 < ADDRESS_LIMIT Riscv64" "0x401000 < ADDRESS_LIMIT Riscv64"
    by (simp_all add: ADDRESS_LIMIT_def)
  have d: "desc_ok c" using map_okD(5) [OF i(5), of "0x401000"] by (simp add: held_def)
  have x: "xlate (pte Riscv64) 0x2000 0x401000 s = Some c"
    using hw_agreesD(2) [OF i(6) lim(3)] frame_offset [OF d, of "0x401000"] unfolding rt
    by (simp add: as_translate_eq USIZE_LIM_def)
  have sl: "{table_index 0x401000 2..table_index (0x402000 - 1) 2} \<subseteq> slots Riscv64"
    using slots_down [OF index_slot [OF lim(1)]] unfolding lv(2) [symmetric] by auto
  have st: "0x402000 = 0x401000 + map_size_bytes Page4K" "0x402000 \<le> span (LEVELS (pte Riscv64))"
    by (simp_all add: map_size_bytes_def lv(1,3))
  from mmu_unmap_correct [OF i(1) i(3) [unfolded rt] i(2) lv(2) i(4) [unfolded rt lv(2) [symmetric]] st(1) sl st(2)] x
  obtain s' where s': "addrspace_unmap (pte Riscv64) 0x2000 0x401000 Page4K s = Inr (Inr c, s')"
    "\<forall>x < span (LEVELS (pte Riscv64)).
       hw_walk (pte Riscv64) (tables s') x 2 0x2000 = cut 0x401000 0x402000 x (hw_walk (pte Riscv64) (tables s) x 2 0x2000)"
    "free_ppns (frame_st s') = free_ppns (frame_st s)
       \<union> ppn ` (reach (pte Riscv64) (tables s) 2 0x2000 - reach (pte Riscv64) (tables s') 2 0x2000)"
    "\<forall>x. 0x401000 \<le> x \<and> x < 0x402000 \<longrightarrow> pruned (pte Riscv64) (tables s') x 2 0x2000"
    unfolding x option.case by blast
  have "cut 0x401000 (0x401000 + 4096) 0x401234 (hw_walk (pte Riscv64) (tables s) 0x401234 2 0x2000) = None"
    using cut_page [OF hw_agreesD(1) [OF i(6) lim(2), unfolded rt lv(2) [symmetric]], of "0x401000"] by simp
  then have "hw_walk (pte Riscv64) (tables s') 0x401234 2 0x2000 = None"
    using s'(2) by (simp add: lv(1,3))
  moreover have "pruned (pte Riscv64) (tables s') 0x401234 2 0x2000" by (rule s'(4) [rule_format]) simp
  ultimately show ?thesis using x s'(1,3) by blast
qed

text \<open>
  C13: \<^verbatim>\<open>AddrSpace::destroy\<close> on a space whose table pages all come from the frame allocator never
  faults, ends with every lock released, and gives back exactly the table pages: the root and every table below it;
  no byte of memory changes.
\<close>

theorem mmu_destroy_correct:
  assumes "sys_ok s" "space_ok (pte a) root s" "at_rest s"
    and "ppn ` reach (pte a) (tables s) (LEVELS (pte a) - 1) root \<subseteq> managed_ppns (frame_st s)"
  shows "\<exists>s'. addrspace_destroy (pte a) root s = Inr s' \<and> at_rest s' \<and> sys_ok s' \<and>
    free_ppns (frame_st s') = free_ppns (frame_st s) \<union> ppn ` reach (pte a) (tables s) (LEVELS (pte a) - 1) root \<and>
    tables s' = tables s \<and> page_bytes s' = page_bytes s"
  by (rule addrspace_destroy_ok [OF assms(1-3)]) (use assms(4) in blast)+

theorem mmu_destroy_correct_witness:
  "\<exists>s s'. xlate (pte Aarch64) 0x2000 0x401000 s \<noteq> None \<and>
     addrspace_destroy (pte Aarch64) 0x2000 s = Inr s' \<and> 2 \<in> free_ppns (frame_st s') \<and>
     page_bytes s' = page_bytes s"
proof (rule small_page [where a = Aarch64])
  fix c s
  let ?sp = "put 0x401000 \<lparr>vp_phys = c, vp_flags = 11\<rparr> small_space"
  let ?l = "LEVELS (pte Aarch64) - 1"
  assume inv: "vm_inv Aarch64 ?sp s" and m: "managed_ppns (frame_st s) = {..<12}"
  note i = vm_invD [OF inv]
  have rt: "as_root ?sp = 0x2000" by (simp add: small_space_def)
  have lim: "0x401000 < ADDRESS_LIMIT Aarch64" by (simp add: ADDRESS_LIMIT_def)
  have x: "xlate (pte Aarch64) 0x2000 0x401000 s \<noteq> None"
    using hw_agreesD(2) [OF i(6) lim] unfolding rt by (simp add: as_translate_eq USIZE_LIM_def)
  have l: "?l = Suc 2" "span (Suc 2) = 2 ^ 39" by (simp_all add: pte_def aarch64_def span_eq)
  have "i \<in> slots Aarch64" if "i < 512" for i
    using that by (simp only: slots_def ADDRESS_LIMIT_def l mem_Collect_eq arch.case) simp
  then have ow: "ppn q \<in> managed_ppns (frame_st s)"
    if "i < 512" "istable (pte Aarch64) ?l (tables s 0x2000 i)"
      "q \<in> reach (pte Aarch64) (tables s) (?l - 1) (entry_phys (pte Aarch64) (tables s 0x2000 i) ?l)" for i q
    using i(4) that unfolding owned_def rt ppn_def by (simp only: l) blast
  have "ppn 0x2000 = 2" by (simp add: ppn_def)
  then have sub: "ppn ` reach (pte Aarch64) (tables s) ?l 0x2000 \<subseteq> managed_ppns (frame_st s)"
  proof (intro image_subsetI)
    fix q assume "q \<in> reach (pte Aarch64) (tables s) ?l 0x2000"
    then consider "q = 0x2000" | i where "i < 512" "istable (pte Aarch64) (Suc 2) (tables s 0x2000 i)"
        "q \<in> reach (pte Aarch64) (tables s) 2 (entry_phys (pte Aarch64) (tables s 0x2000 i) (Suc 2))"
      unfolding l(1) reach.simps by blast
    then show "ppn q \<in> managed_ppns (frame_st s)"
    proof cases
      case 1
      then show ?thesis using m \<open>ppn 0x2000 = 2\<close> by simp
    next
      case 2
      then show ?thesis using ow [unfolded l(1) diff_Suc_1] by blast
    qed
  qed
  from mmu_destroy_correct [OF i(1) i(3) [unfolded rt] i(2) sub]
  obtain s' where s': "addrspace_destroy (pte Aarch64) 0x2000 s = Inr s'" "page_bytes s' = page_bytes s"
    "free_ppns (frame_st s') = free_ppns (frame_st s) \<union> ppn ` reach (pte Aarch64) (tables s) ?l 0x2000" by blast
  have "2 \<in> free_ppns (frame_st s')" unfolding s'(3) using \<open>ppn 0x2000 = 2\<close> reach_self by (metis UnI2 image_eqI)
  then show ?thesis using x s'(1,2) by blast
qed

section \<open>User address spaces\<close>

text \<open>
  C16: \<^verbatim>\<open>AddressSpace::map_zeroed\<close> of korix never faults, keeps the invariant of the address space
  (the map of pages and the hardware agree at every user address, in the frame and in the permissions of
  the leaf entry, and every page is a frame of its own in use) and restores the active root.  A bad address, permissions without \<^verbatim>\<open>U\<close> or a page that is already
  there is refused without any change.  Otherwise a fresh zeroed frame appears at the address, or
  the answer is \<^verbatim>\<open>OutOfMemory\<close> with the map unchanged, which needs fewer free frames than levels.
  No byte of any frame that was in use changes, so no other process sees the operation.
\<close>

theorem vm_map_zeroed_correct:
  assumes inv: "vm_inv a sp s" and fl: "flags_ok a flags"
  shows "\<exists>r sp' s'. map_zeroed a sp va flags s = Inr (r, sp', s') \<and> vm_inv a sp' s' \<and> active_root s' = active_root s \<and>
    (\<forall>q. q \<notin> free_pages s \<longrightarrow> page_bytes s' q = page_bytes s q) \<and>
    (if va mod 4096 \<noteq> 0 \<or> ADDRESS_LIMIT a \<le> va \<or> \<not> contains flags FLAG_U \<or> is_mapped sp va
     then r = Inl BlockedByExistingMapping \<and> sp' = sp \<and> s' = s
     else (case r of
        Inr phys \<Rightarrow> sp' = put va \<lparr>vp_phys = phys, vp_flags = flags\<rparr> sp \<and> phys \<in> free_pages s \<and>
          page_bytes s' phys = (\<lambda>_. 0)
      | Inl e \<Rightarrow> e = OutOfMemory \<and> sp' = sp \<and> card (free_ppns (frame_st s)) \<le> LEVELS (pte a) - 1))"
proof (rule map_zeroed_run [where va = va, OF inv fl])
  fix r :: "MapError + usize" and s'
  define bad where "bad \<longleftrightarrow> va mod 4096 \<noteq> 0 \<or> ADDRESS_LIMIT a \<le> va \<or> \<not> contains flags FLAG_U \<or> is_mapped sp va"
  let ?sp = "case r of Inr phys \<Rightarrow> put va \<lparr>vp_phys = phys, vp_flags = flags\<rparr> sp | Inl _ \<Rightarrow> sp"
  assume m: "map_zeroed a sp va flags s = Inr (r, ?sp, s')" "active_root s' = active_root s"
    "if va mod 4096 \<noteq> 0 \<or> ADDRESS_LIMIT a \<le> va \<or> \<not> contains flags FLAG_U \<or> is_mapped sp va
     then r = Inl BlockedByExistingMapping \<and> s' = s else mapped_fresh a sp va flags s r s'"
  have "vm_inv a ?sp s' \<and> (\<forall>q. q \<notin> free_pages s \<longrightarrow> page_bytes s' q = page_bytes s q) \<and>
    (if bad then r = Inl BlockedByExistingMapping \<and> ?sp = sp \<and> s' = s
     else (case r of
        Inr phys \<Rightarrow> ?sp = put va \<lparr>vp_phys = phys, vp_flags = flags\<rparr> sp \<and> phys \<in> free_pages s \<and>
          page_bytes s' phys = (\<lambda>_. 0)
      | Inl e \<Rightarrow> e = OutOfMemory \<and> ?sp = sp \<and> card (free_ppns (frame_st s)) \<le> LEVELS (pte a) - 1))"
  proof (cases bad)
    case True
    then have "r = Inl BlockedByExistingMapping" "s' = s" using m(3) unfolding bad_def by simp_all
    then show ?thesis using True inv by simp
  next
    case False
    then have "mapped_fresh a sp va flags s r s'" using m(3) unfolding bad_def by simp
    then show ?thesis using False unfolding mapped_fresh_def by (cases r) simp_all
  qed
  then show ?thesis using m(1,2) unfolding bad_def by blast
qed

theorem vm_map_zeroed_correct_witness:
  "\<exists>phys s'. map_zeroed Aarch64 small_space 0x401000 11 small
     = Inr (Inr phys, put 0x401000 \<lparr>vp_phys = phys, vp_flags = 11\<rparr> small_space, s') \<and>
     phys \<in> free_pages small \<and> page_bytes s' phys = (\<lambda>_. 0)"
proof -
  have lim: "0x401000 < ADDRESS_LIMIT Aarch64" by (simp add: ADDRESS_LIMIT_def)
  have nm: "\<not> is_mapped small_space 0x401000" by (simp add: is_mapped_def small_space_def)
  have lv: "LEVELS (pte Aarch64) = 4" by (simp add: pte_def aarch64_def)
  from vm_map_zeroed_correct [where va = "0x401000", OF small_inv user_flags(2), of Aarch64] show ?thesis
  proof (elim exE conjE, goal_cases)
    case (1 r sp' s')
    then show ?case using lim nm user_flags(1) small_card lv by (cases r) auto
  qed
qed

text \<open>
  C19: \<^verbatim>\<open>AddressSpace::unmap_range\<close> with a page-aligned start always succeeds, keeps the invariant, removes exactly the
  pages of the range from the map and from the hardware's translation, makes their frames free
  again, and changes no byte of memory.  A start that is not aligned or a range that wraps around is refused unchanged.
\<close>

theorem vm_unmap_range_correct:
  assumes inv: "vm_inv a sp s"
  shows "if start mod 4096 = 0 \<and> start + len < USIZE_LIM
    then \<exists>sp' s'. unmap_range a sp start len s = Inr (Inr (), sp', s') \<and>
      released a (\<lambda>x. start \<le> x \<and> x < start + len) sp s sp' s' \<and>
      (\<forall>x. start \<le> x \<and> x < start + len \<and> x < ADDRESS_LIMIT a \<longrightarrow> xlate (pte a) (as_root sp) x s' = None)
    else unmap_range a sp start len s = Inr (Inl BlockedByExistingMapping, sp, s)"
proof (cases "start mod 4096 = 0 \<and> start + len < USIZE_LIM")
  case True
  have "\<exists>sp' s'. unmap_range a sp start len s = Inr (Inr (), sp', s') \<and>
      released a (\<lambda>x. start \<le> x \<and> x < start + len) sp s sp' s' \<and>
      (\<forall>x. start \<le> x \<and> x < start + len \<and> x < ADDRESS_LIMIT a \<longrightarrow> xlate (pte a) (as_root sp) x s' = None)"
  proof (rule unmap_range_run [OF inv conjunct1 [OF True] conjunct2 [OF True]])
    fix sp' s'
    assume u: "unmap_range a sp start len s = Inr (Inr (), sp', s')"
      "released a (\<lambda>x. start \<le> x \<and> x < start + len) sp s sp' s'"
    note i = vm_invD [of a sp' s'] and rel = u(2) [unfolded released_def]
    have "xlate (pte a) (as_root sp) x s' = None" if x: "start \<le> x" "x < start + len" "x < ADDRESS_LIMIT a" for x
    proof -
      have "start \<le> x div 4096 * 4096"
        using True x(1) by (metis add.right_neutral div_le_mono div_mult_mod_eq mult_le_mono1)
      moreover have "x div 4096 * 4096 < start + len" using x(2) by (rule le_less_trans [OF div_times_less_eq_dividend])
      ultimately have "bt_get (pages sp') (x div 4096 * 4096) = None" using rel by simp
      then show ?thesis
        using rel hw_agreesD(2) [OF i(6) x(3)] x(3) limit_bounds(2) [of a] by (simp add: as_translate_eq)
    qed
    then show ?thesis using u by blast
  qed
  then show ?thesis using True by simp
next
  case False
  then show ?thesis by (auto simp: unmap_range_def unaligned_iff checked_add_def)
qed

theorem vm_unmap_range_correct_witness:
  "\<exists>sp s sp' s'. is_mapped sp 0x401000 \<and> unmap_range Riscv64 sp 0x400000 0x3000 s = Inr (Inr (), sp', s') \<and>
     \<not> is_mapped sp' 0x401000 \<and> xlate (pte Riscv64) 0x2000 0x401234 s' = None"
proof (rule small_page [where a = Riscv64])
  fix c s
  let ?sp = "put 0x401000 \<lparr>vp_phys = c, vp_flags = 11\<rparr> small_space"
  assume inv: "vm_inv Riscv64 ?sp s"
  have pg: "page_of 0x401000 = 0x401000" by (simp add: page_of_eq USIZE_LIM_def)
  have n: "0x400000 mod 4096 = (0 :: nat) \<and> 0x400000 + 0x3000 < USIZE_LIM" "0x401234 < ADDRESS_LIMIT Riscv64"
    by (simp_all add: USIZE_LIM_def ADDRESS_LIMIT_def)
  from vm_unmap_range_correct [OF inv, of "0x400000" "0x3000", unfolded if_P [OF n(1)]]
  obtain sp' s' where u: "unmap_range Riscv64 ?sp 0x400000 0x3000 s = Inr (Inr (), sp', s')"
    "released Riscv64 (\<lambda>x. 0x400000 \<le> x \<and> x < 0x400000 + 0x3000) ?sp s sp' s'"
    "\<forall>x. 0x400000 \<le> x \<and> x < 0x400000 + 0x3000 \<and> x < ADDRESS_LIMIT Riscv64 \<longrightarrow> xlate (pte Riscv64) (as_root ?sp) x s' = None"
    by blast
  have "is_mapped ?sp 0x401000" "\<not> is_mapped sp' 0x401000" using u(2) by (simp_all add: is_mapped_def pg released_def)
  moreover have "xlate (pte Riscv64) 0x2000 0x401234 s' = None"
    using u(3) n(2) by (simp add: small_space_def)
  ultimately show ?thesis using u(1) by blast
qed



text \<open>
  C37: \<^verbatim>\<open>AddressSpace::replace_zeroed\<close> never panics.  A range that is empty, not page-aligned or beyond the user limit,
  and permissions without user access, are refused without any change.  Otherwise every page of the range becomes a
  frame that was free before, zeroed, with the new permissions in the map and in the hardware, the frames that were mapped there are free
  again and everything outside the range stays; or memory ran out: then the map of the space is unchanged and the hardware
  gives every page outside the range as before, a page inside as before or not at all, which needs fewer free
  frames than one and the levels below the root per page.  In every case no byte of a frame in use outside the page tables changes.
\<close>

theorem vm_replace_zeroed_correct:
  assumes inv: "vm_inv a sp s" and fl: "flags_ok a flags"
  shows "\<exists>r sp' s'. replace_zeroed a sp start len flags s = Inr (r, sp', s') \<and> active_root s' = active_root s \<and>
    (if replaceable a start len flags
     then replaced a (\<lambda>x. start \<le> x \<and> x < start + len) flags sp s r sp' s' \<and>
       (\<forall>x < ADDRESS_LIMIT a.
          if start \<le> x \<and> x < start + len \<and> r = Inr () then user_rights a (as_root sp) x s' = Some (granted a flags)
          else xlate (pte a) (as_root sp) x s' = xlate (pte a) (as_root sp) x s \<and>
              user_rights a (as_root sp) x s' = user_rights a (as_root sp) x s \<or>
            start \<le> x \<and> x < start + len \<and> xlate (pte a) (as_root sp) x s' = None) \<and>
       (r = Inl OutOfMemory \<longrightarrow> card (free_ppns (frame_st s)) < LEVELS (pte a) * (len div 4096))
     else r = Inl BlockedByExistingMapping \<and> sp' = sp \<and> s' = s)"
proof (rule replace_zeroed_run [OF inv fl, of start len])
  fix r sp' s'
  assume p: "replace_zeroed a sp start len flags s = Inr (r, sp', s')" "active_root s' = active_root s"
    "if replaceable a start len flags
     then replaced a (\<lambda>x. start \<le> x \<and> x < start + len) flags sp s r sp' s' \<and>
       (r \<noteq> Inr () \<longrightarrow> card (free_ppns (frame_st s)) < LEVELS (pte a) * (len div 4096))
     else r = Inl BlockedByExistingMapping \<and> sp' = sp \<and> s' = s"
  show ?thesis
  proof (cases "replaceable a start len flags")
    case False
    then show ?thesis using p by (intro exI [of _ r] exI [of _ sp'] exI [of _ s']) simp
  next
    case True
    then have e: "replaced a (\<lambda>x. start \<le> x \<and> x < start + len) flags sp s r sp' s'"
      and o: "r = Inl OutOfMemory \<longrightarrow> card (free_ppns (frame_st s)) < LEVELS (pte a) * (len div 4096)"
      using p(3) by simp_all
    have rt: "as_root sp' = as_root sp" using e by (simp add: replaced_def)
    have "if start \<le> x \<and> x < start + len \<and> r = Inr () then user_rights a (as_root sp) x s' = Some (granted a flags)
        else xlate (pte a) (as_root sp) x s' = xlate (pte a) (as_root sp) x s \<and>
            user_rights a (as_root sp) x s' = user_rights a (as_root sp) x s \<or>
          start \<le> x \<and> x < start + len \<and> xlate (pte a) (as_root sp) x s' = None" if x: "x < ADDRESS_LIMIT a" for x
    proof -
      define b where "b = x div 4096 * 4096"
      have pg: "start \<le> x \<and> x < start + len \<longleftrightarrow> start \<le> b \<and> b < start + len" "b mod 4096 = 0"
        using page_inside [of start len x] True by (auto simp: replaceable_def b_def)
      note v0 = vm_seen [OF inv x, folded b_def]
      show ?thesis
      proof (cases "r = Inr ()")
        case ok: True
        then have v: "vm_inv a sp' s'" using e by (simp add: replaced_def)
        have out: "bt_get (pages sp') b = bt_get (pages sp) b" if "\<not> (start \<le> b \<and> b < start + len)"
          using e ok that by (simp add: replaced_def)
        have ins: "\<exists>c. bt_get (pages sp') b = Some \<lparr>vp_phys = c, vp_flags = flags\<rparr>" if "start \<le> b \<and> b < start + len"
          using replacedD(3) [OF e [unfolded ok] that pg(2)] by blast
        show ?thesis
          using ok v0 vm_seen [OF v x, folded b_def] ins out pg(1) unfolding rt
          by (cases "start \<le> b \<and> b < start + len") auto
      next
        case False
        then obtain f where f: "r = Inl f" by (cases r) auto
        then obtain rest where rest: "as_root rest = as_root sp" "vm_inv a rest s'"
            "bt_get (pages rest) b = bt_get (pages sp) b \<or> (start \<le> b \<and> b < start + len) \<and> bt_get (pages rest) b = None"
          using e unfolding replaced_def by auto
        then show ?thesis using f v0 vm_seen [OF rest(2) x, folded b_def] pg(1) unfolding rest(1) by auto
      qed
    qed
    then show ?thesis using p(1,2) e o True by (intro exI [of _ r] exI [of _ sp'] exI [of _ s']) simp
  qed
qed

theorem vm_replace_zeroed_correct_witness:
  "\<exists>sp s sp' s' c d. bt_get (pages sp) 0x401000 = Some \<lparr>vp_phys = c, vp_flags = 11\<rparr> \<and>
     replace_zeroed Riscv64 sp 0x401000 0x1000 9 s = Inr (Inr (), sp', s') \<and>
     bt_get (pages sp') 0x401000 = Some \<lparr>vp_phys = d, vp_flags = 9\<rparr> \<and> d \<in> free_pages s \<and>
     page_bytes s' d = (\<lambda>_. 0) \<and> ppn c \<in> free_ppns (frame_st s') \<and> user_rights Riscv64 0x2000 0x401234 s' = Some 9"
proof (rule small_page [where a = Riscv64])
  fix c s
  let ?sp = "put 0x401000 \<lparr>vp_phys = c, vp_flags = 11\<rparr> small_space"
  assume inv: "vm_inv Riscv64 ?sp s" and cd: "9 \<le> card (free_ppns (frame_st s)) + LEVELS (pte Riscv64)"
  have lv: "LEVELS (pte Riscv64) = 3" by (simp add: pte_def riscv64_def)
  have gr: "granted Riscv64 9 = 9" by (simp add: granted_def FLAG_R_def FLAG_W_def FLAG_X_def FLAG_U_def)
  have fl: "flags_ok Riscv64 9" "contains 9 FLAG_U"
    by (simp_all add: flags_ok_def rwx_def contains_def FLAG_U_def FLAG_R_def)
  have get: "bt_get (pages ?sp) 0x401000 = Some \<lparr>vp_phys = c, vp_flags = 11\<rparr>" by simp
  have ok: "replaceable Riscv64 0x401000 0x1000 9" using fl(2) by (simp add: replaceable_def ADDRESS_LIMIT_def)
  from vm_replace_zeroed_correct [OF inv fl(1), of "0x401000" "0x1000", unfolded if_P [OF ok]] show ?thesis
  proof (elim exE conjE, goal_cases)
    case (1 r sp' s')
    have "r \<noteq> Inl OutOfMemory" using 1(5) cd lv by auto
    then have r: "r = Inr ()" using 1(3) unfolding replaced_def by (cases r) auto
    have "\<exists>d. bt_get (pages sp') 0x401000 = Some \<lparr>vp_phys = d, vp_flags = 9\<rparr> \<and> d \<in> free_pages s \<and>
        page_bytes s' d = (\<lambda>_. 0)"
      by (rule replacedD(3) [OF 1(3) [unfolded r]]) simp_all
    moreover have "ppn c \<in> free_ppns (frame_st s')"
      using replacedD(4) [OF 1(3) [unfolded r], of "0x401000", OF _ get] by simp
    moreover have "user_rights Riscv64 0x2000 0x401234 s' = Some 9"
      using r 1(4) gr by (auto simp: small_space_def ADDRESS_LIMIT_def dest!: spec [of _ "0x401234"])
    ultimately show ?case using 1(1) get r by blast
  qed
qed

text \<open>
  C24: With one free frame for the root and one per level for each page, \<^verbatim>\<open>AddressSpace::fork\<close>
  succeeds: the child has its own sound tables, the same pages at the same addresses with
  the same permissions, each in a frame that was free before and holding a copy of the parent's bytes,
  and no frame in use changes.  Without room for its root it answers \<^verbatim>\<open>OutOfMemory\<close> unchanged.
\<close>

theorem vm_fork_correct:
  assumes inv: "vm_inv a sp s" and ok: "space_ok (pte a) (active_root s) s" and up: "upper_free a s"
  shows "(free_ppns (frame_st s) = {} \<longrightarrow> as_fork a sp s = Inr (Inl OutOfMemory, s)) \<and>
    (LEVELS (pte a) * length (pages sp) < card (free_ppns (frame_st s)) \<longrightarrow>
     (\<exists>child s'. as_fork a sp s = Inr (Inr child, s') \<and> vm_inv a child s' \<and> as_owned child \<and>
        (\<forall>x. bt_get (pages sp) x = None \<longrightarrow> bt_get (pages child) x = None) \<and>
        (\<forall>x p. bt_get (pages sp) x = Some p \<longrightarrow>
           (\<exists>c. bt_get (pages child) x = Some \<lparr>vp_phys = c, vp_flags = vp_flags p\<rparr> \<and> c \<in> free_pages s \<and>
              page_bytes s' c = page_bytes s (vp_phys p))) \<and>
        (\<forall>q. q \<notin> free_pages s \<longrightarrow> page_bytes s' q = page_bytes s q)))"
proof (intro conjI impI)
  note i = vm_invD [OF inv]
  have wf: "bt_wf (pages sp)" using i(5) by (simp add: map_ok_def)
  assume none: "free_ppns (frame_st s) = {}"
  show "as_fork a sp s = Inr (Inl OutOfMemory, s)"
    by (rule alloc_frame_cases [OF i(1)])
      (use none in \<open>auto simp: as_fork_def as_empty_def new_user_def free_pages_def\<close>)
next
  assume room: "LEVELS (pte a) * length (pages sp) < card (free_ppns (frame_st s))"
  have wf: "bt_wf (pages sp)" using vm_invD(5) [OF inv] by (simp add: map_ok_def)
  have dom: "x \<notin> fst ` set (pages sp)" if "bt_get (pages sp) x = None" for x
    using that by (simp add: bt_get_def map_of_eq_None_iff)
  show "\<exists>child s'. as_fork a sp s = Inr (Inr child, s') \<and> vm_inv a child s' \<and> as_owned child \<and>
        (\<forall>x. bt_get (pages sp) x = None \<longrightarrow> bt_get (pages child) x = None) \<and>
        (\<forall>x p. bt_get (pages sp) x = Some p \<longrightarrow>
           (\<exists>c. bt_get (pages child) x = Some \<lparr>vp_phys = c, vp_flags = vp_flags p\<rparr> \<and> c \<in> free_pages s \<and>
              page_bytes s' c = page_bytes s (vp_phys p))) \<and>
        (\<forall>q. q \<notin> free_pages s \<longrightarrow> page_bytes s' q = page_bytes s q)"
  proof (rule as_fork_run [OF inv ok up room])
    fix child s'
    assume f: "as_fork a sp s = Inr (Inr child, s')" "vm_inv a child s'" "as_owned child"
      "copied (pages sp) \<lparr>as_root = 0, as_owned = True, pages = []\<rparr> s child s'"
    note c = f(4) [unfolded copied_def]
    have "bt_get (pages child) x = None" if "bt_get (pages sp) x = None" for x
      using c dom [OF that] by simp
    moreover have "\<exists>d. bt_get (pages child) x = Some \<lparr>vp_phys = d, vp_flags = vp_flags p\<rparr> \<and> d \<in> free_pages s \<and>
        page_bytes s' d = page_bytes s (vp_phys p)" if "bt_get (pages sp) x = Some p" for x p
      using c that bt_get_Some_set [OF wf] by blast
    ultimately show ?thesis using f(1-3) c by blast
  qed
qed

theorem vm_fork_correct_witness:
  "\<exists>sp s child s' c. is_mapped sp 0x401000 \<and> as_fork X86_64 sp s = Inr (Inr child, s') \<and>
     bt_get (pages child) 0x401000 = Some \<lparr>vp_phys = c, vp_flags = 11\<rparr> \<and> page_bytes s' c = (\<lambda>_. 0)"
proof (rule small_page [where a = X86_64])
  fix c s
  let ?sp = "put 0x401000 \<lparr>vp_phys = c, vp_flags = 11\<rparr> small_space"
  assume inv: "vm_inv X86_64 ?sp s" and z: "page_bytes s c = (\<lambda>_. 0)"
    and cd: "9 \<le> card (free_ppns (frame_st s)) + LEVELS (pte X86_64)" and ar: "active_root s = 0x2000"
  have rt: "as_root ?sp = active_root s" by (simp add: small_space_def ar)
  have lv: "LEVELS (pte X86_64) = 4" by (simp add: pte_def x86_64_def)
  have up: "upper_free X86_64 s" by (rule upper_free_other) simp
  have pg: "pages ?sp = [(0x401000, \<lparr>vp_phys = c, vp_flags = 11\<rparr>)]" by (simp add: small_space_def)
  have room: "LEVELS (pte X86_64) * length (pages ?sp) < card (free_ppns (frame_st s))"
    unfolding pg using cd by (simp add: lv)
  have get: "bt_get (pages ?sp) 0x401000 = Some \<lparr>vp_phys = c, vp_flags = 11\<rparr>" by simp
  from vm_fork_correct [OF inv vm_invD(3) [OF inv, unfolded rt] up] room
  obtain child s' where f: "as_fork X86_64 ?sp s = Inr (Inr child, s')"
    "\<forall>x p. bt_get (pages ?sp) x = Some p \<longrightarrow>
       (\<exists>c. bt_get (pages child) x = Some \<lparr>vp_phys = c, vp_flags = vp_flags p\<rparr> \<and> c \<in> free_pages s \<and>
          page_bytes s' c = page_bytes s (vp_phys p))"
    by blast
  from f(2) get obtain d where "bt_get (pages child) 0x401000 = Some \<lparr>vp_phys = d, vp_flags = 11\<rparr>"
      "page_bytes s' d = page_bytes s c" by fastforce
  moreover have "is_mapped ?sp 0x401000" using get by (simp add: is_mapped_def page_of_eq USIZE_LIM_def)
  ultimately show ?thesis using f(1) z by metis
qed

section \<open>User memory\<close>

lemma accessible_read: "accessible a sp True address len \<Longrightarrow> accessible a sp False address len"
  by (auto simp: accessible_def page_access_def)

lemma stored_inv: "stored sp address bs k s s' \<Longrightarrow> vm_inv a sp' s' = vm_inv a sp' s"
  by (rule vm_cong(1)) (auto simp: stored_def dest: arg_cong [of _ _ tables] arg_cong [of _ _ metadata]
      arg_cong [of _ _ dlock] arg_cong [of _ _ frame_st])

text \<open>After a copy: the bytes of all user addresses, and the frames the copy cannot reach.\<close>

lemma stored_user_byte:
  assumes m: "map_ok a sp s" and acc: "accessible a sp True address (length bs)"
    and st: "stored sp address bs (length bs) s s'" and x: "x < ADDRESS_LIMIT a"
  shows "user_byte sp s' x = (if address \<le> x \<and> x < address + length bs
    then Some (bs ! (x - address)) else user_byte sp s x)"
proof (cases "address \<le> x \<and> x < address + length bs")
  case True
  then obtain j where "x = address + j" "j < length bs" by (metis add_less_cancel_left le_Suc_ex)
  then show ?thesis using st by (simp add: stored_def)
next
  case False
  have "byte_at s' pa = byte_at s pa" if pa: "as_translate sp x = Some pa" for pa
  proof -
    have "as_translate sp (address + j) \<noteq> Some (pa div 4096 * 4096 + pa mod 4096)" if j: "j < length bs" for j
    proof
      assume "as_translate sp (address + j) = Some (pa div 4096 * 4096 + pa mod 4096)"
      moreover have "address + j < ADDRESS_LIMIT a" using acc j by (simp add: accessible_def)
      ultimately have "x = address + j" using translate_inj [OF m pa x] by simp
      then show False using False j by simp
    qed
    then show ?thesis using st unfolding stored_def byte_at_def by simp
  qed
  then show ?thesis using False by (auto simp: user_byte_def split: option.split intro: option.map_cong)
qed

lemma stored_isolated:
  assumes m: "map_ok a sp s" and acc: "accessible a sp True address (length bs)"
    and st: "stored sp address bs (length bs) s s'" and q: "q mod 4096 = 0" "off < 4096"
    and nw: "\<And>va p. bt_get (pages sp) va = Some p \<Longrightarrow> contains (vp_flags p) FLAG_W \<Longrightarrow> vp_phys p \<noteq> q"
  shows "page_bytes s' q off = page_bytes s q off"
proof -
  have "as_translate sp (address + j) \<noteq> Some (q + off)" if j: "j < length bs" for j
  proof
    assume t: "as_translate sp (address + j) = Some (q + off)"
    have x: "address + j < ADDRESS_LIMIT a" using acc j by (simp add: accessible_def)
    obtain p where p: "bt_get (pages sp) ((address + j) div 4096 * 4096) = Some p"
        "q + off = vp_phys p + (address + j) mod 4096" "vp_phys p mod 4096 = 0"
      by (rule translate_Some [OF m t x])
    have "(q + off) div 4096 * 4096 = q" "(vp_phys p + (address + j) mod 4096) div 4096 * 4096 = vp_phys p"
      using q p(3) by (simp_all add: div_add1_eq minus_mod_eq_div_mult [symmetric])
    then have "vp_phys p = q" using p(2) by simp
    moreover have "contains (vp_flags p) FLAG_W"
      using acc p(1) j by (auto simp: accessible_def page_access_def dest!: spec [of _ "address + j"])
    ultimately show False using nw [OF p(1)] by blast
  qed
  then show ?thesis using st unfolding stored_def by blast
qed

text \<open>
  C28: \<^verbatim>\<open>user_mem::copy_to\<close> succeeds exactly when the range is not null, lies below the user limit and every page it
  touches is mapped writable; then exactly the bytes of the range change, at every user address and in
  physical memory only within writable pages of this process, and \<^verbatim>\<open>copy_from\<close> reads them back.  Otherwise
  it fails and changes nothing, and \<^verbatim>\<open>copy_from\<close> likewise succeeds exactly on readable ranges.
\<close>

theorem user_copy_correct:
  assumes inv: "vm_inv a sp s"
  shows "\<exists>s'. copy_to a sp address bs s = Inr (user_ok a sp True address (length bs), s') \<and> vm_inv a sp s' \<and>
    copy_from a sp address (length bs) s = Inr (if user_ok a sp False address (length bs)
      then Some (user_bytes sp s address (length bs)) else None) \<and>
    (if user_ok a sp True address (length bs)
     then copy_from a sp address (length bs) s' = Inr (Some bs) \<and>
       (\<forall>x < ADDRESS_LIMIT a. user_byte sp s' x = (if address \<le> x \<and> x < address + length bs
          then Some (bs ! (x - address)) else user_byte sp s x)) \<and>
       (\<forall>q off. q mod 4096 = 0 \<and> off < 4096 \<and>
          (\<forall>va p. bt_get (pages sp) va = Some p \<and> contains (vp_flags p) FLAG_W \<longrightarrow> vp_phys p \<noteq> q) \<longrightarrow>
          page_bytes s' q off = page_bytes s q off)
     else s' = s)"
proof (rule copy_to_run [OF vm_invD(5) [OF inv], of address bs])
  fix s'
  assume c: "copy_to a sp address bs s = Inr (user_ok a sp True address (length bs), s')"
    "if user_ok a sp True address (length bs) then stored sp address bs (length bs) s s' else s' = s"
  note m = vm_invD(5) [OF inv]
  note cf = copy_from_run [OF m, of address "length bs"]
  show ?thesis
  proof (cases "user_ok a sp True address (length bs)")
    case False
    then show ?thesis using c cf inv by simp
  next
    case True
    then have st: "stored sp address bs (length bs) s s'" using c(2) by simp
    have acc: "accessible a sp True address (length bs)" using True by (simp add: user_ok_def)
    have inv': "vm_inv a sp s'" using inv stored_inv [OF st] by simp
    have rd: "user_ok a sp False address (length bs)" using True accessible_read by (simp add: user_ok_def)
    have "user_bytes sp s' address (length bs) = bs"
      using st by (intro nth_equalityI) (simp_all add: user_bytes_def stored_def)
    then have rb: "copy_from a sp address (length bs) s' = Inr (Some bs)"
      using copy_from_run [OF vm_invD(5) [OF inv'], of address "length bs"] rd by simp
    note ub = stored_user_byte [OF m acc st] and iso = stored_isolated [OF m acc st]
    show ?thesis using c(1) cf inv' rb ub iso True by (intro exI [of _ s']) auto
  qed
qed

theorem user_copy_correct_witness:
  "\<exists>sp s s'. copy_to X86_64 sp 0x401ffe [1, 2] s = Inr (True, s') \<and>
     copy_from X86_64 sp 0x401ffe 2 s' = Inr (Some [1, 2]) \<and> user_byte sp s' 0x401ffd = user_byte sp s 0x401ffd \<and>
     copy_to X86_64 sp 0x401fff [1, 2] s = Inr (False, s)"
proof (rule small_page [where a = X86_64])
  fix c s
  let ?sp = "put 0x401000 \<lparr>vp_phys = c, vp_flags = 11\<rparr> small_space"
  assume inv: "vm_inv X86_64 ?sp s"
  have lim: "0x402000 < ADDRESS_LIMIT X86_64" "0x401fff < ADDRESS_LIMIT X86_64" "0x401ffd < ADDRESS_LIMIT X86_64"
    "0x401ffe < ADDRESS_LIMIT X86_64"
    by (simp_all add: ADDRESS_LIMIT_def)
  have w: "contains 11 FLAG_W" by (simp add: contains_def FLAG_W_def)
  have acc: "page_access ?sp True (x div 4096 * 4096)" if "0x401ffe \<le> x \<and> x < 0x402000" for x
  proof -
    have "x div 4096 = 0x401" by (rule div_nat_eqI) (use that in simp_all)
    then show ?thesis using w by (simp add: page_access_def)
  qed
  have ok: "user_ok X86_64 ?sp True 0x401ffe (length [1, 2 :: u8])"
    using acc lim by (simp add: user_ok_def accessible_def)
  have bad: "\<not> user_ok X86_64 ?sp True 0x401fff (length [1, 2 :: u8])"
  proof
    assume "user_ok X86_64 ?sp True 0x401fff (length [1, 2 :: u8])"
    then have "\<forall>x. 0x401fff \<le> x \<and> x < 0x401fff + length [1, 2 :: u8] \<longrightarrow> page_access ?sp True (x div 4096 * 4096)"
      unfolding user_ok_def accessible_def by blast
    from spec [OF this, of "0x402000"] have "page_access ?sp True 0x402000" by simp
    then show False by (simp add: page_access_def small_space_def bt_get_def)
  qed
  have "copy_to X86_64 ?sp 0x401fff [1, 2] s = Inr (False, s)"
    using user_copy_correct [OF inv, of "0x401fff" "[1, 2]"] bad by auto
  moreover have "\<exists>s'. copy_to X86_64 ?sp 0x401ffe [1, 2] s = Inr (True, s') \<and>
      copy_from X86_64 ?sp 0x401ffe 2 s' = Inr (Some [1, 2]) \<and> user_byte ?sp s' 0x401ffd = user_byte ?sp s 0x401ffd"
    using user_copy_correct [OF inv, of "0x401ffe" "[1, 2]", unfolded if_P [OF ok]]
  proof (elim exE conjE, goal_cases)
    case (1 s')
    have "user_byte ?sp s' 0x401ffd = user_byte ?sp s 0x401ffd" using 1(5) lim(3) by simp
    moreover have "length [1, 2 :: u8] = 2" by simp
    ultimately show ?case using 1(1,4) ok by (intro exI [of _ s']) (simp only: simp_thms)
  qed
  ultimately show ?thesis by blast
qed

end
