(* ===== verification/Kor_Vfs.thy ===== *)
theory Kor_Vfs
  imports Kor_BTree
begin

text \<open>
  The vocabulary of the virtual file system: error and file types, metadata
  (\<^verbatim>\<open>kor/src/vfs.rs\<close>) and the block-device trait (\<^verbatim>\<open>kor/src/block.rs\<close>).  A device is
  a record of its operations over a state of any type; \<open>device_ok\<close> states what the trait's
  documentation promises of an implementation.
\<close>

section \<open>Types of the file system layer\<close>

datatype file_type = Regular | Directory | Symlink | BlockDevice | CharDevice | Fifo | Socket

datatype fs_error = NotFound | PermissionDenied | AlreadyExists | NotDirectory | IsDirectory
  | InvalidInput | IoError | NoSpace | NotEmpty | Unsupported | ReadOnlyFs | TooManyLinks | CrossDevice

record metadata =
  md_size :: usize
  md_mode :: u32
  md_uid :: u32
  md_gid :: u32
  md_atime :: u64
  md_mtime :: u64
  md_ctime :: u64
  md_file_type :: file_type

record fs_info =
  total_blocks :: usize
  free_blocks :: usize
  total_inodes :: usize
  free_inodes :: usize
  fi_block_size :: usize

section \<open>Results and errors\<close>

text \<open>An operation of the file system layer returns a value, an error code, or faults.\<close>

datatype crash = FsErr fs_error | Crash fault

type_synonym 'a fsres = "crash + 'a"

definition ensure :: "bool \<Rightarrow> fs_error \<Rightarrow> unit fsres" where
  "ensure b e = (if b then Inr () else Inl (FsErr e))"

lemma ensure_iff [run_simps]: "ensure b e = Inr u \<longleftrightarrow> b" "ensure b e = Inl x \<longleftrightarrow> \<not> b \<and> x = FsErr e"
  by (auto simp: ensure_def)

lemma ensure_simps [simp]: "ensure True e = Inr ()" "ensure False e = Inl (FsErr e)"
  by (simp_all add: ensure_def)

section \<open>Strings as bytes\<close>

text \<open>
  Rust strings are lists of bytes, written as HOL strings; \<open>utf8_valid\<close> is the check of
  \<^verbatim>\<open>String::from_utf8\<close>.
\<close>

definition str_bytes :: "string \<Rightarrow> bytes" where
  "str_bytes s = map of_char s"

definition bytes_str :: "bytes \<Rightarrow> string" where
  "bytes_str b = map (\<lambda>w. char_of (unat w)) b"

definition cont :: "u8 \<Rightarrow> bool" where
  "cont b \<longleftrightarrow> 0x80 \<le> b \<and> b \<le> 0xBF"

fun utf8_valid :: "bytes \<Rightarrow> bool" where
  "utf8_valid [] = True"
| "utf8_valid (a # bs) =
     (if a \<le> 0x7F then utf8_valid bs
      else if 0xC2 \<le> a \<and> a \<le> 0xDF then
        (case bs of b # r \<Rightarrow> cont b \<and> utf8_valid r | _ \<Rightarrow> False)
      else if 0xE0 \<le> a \<and> a \<le> 0xEF then
        (case bs of b # c # r \<Rightarrow> cont b \<and> cont c \<and> (a = 0xE0 \<longrightarrow> 0xA0 \<le> b) \<and> (a = 0xED \<longrightarrow> b \<le> 0x9F)
             \<and> utf8_valid r | _ \<Rightarrow> False)
      else if 0xF0 \<le> a \<and> a \<le> 0xF4 then
        (case bs of b # c # d # r \<Rightarrow> cont b \<and> cont c \<and> cont d \<and> (a = 0xF0 \<longrightarrow> 0x90 \<le> b)
             \<and> (a = 0xF4 \<longrightarrow> b \<le> 0x8F) \<and> utf8_valid r | _ \<Rightarrow> False)
      else False)"

lemma unat_of_char: "unat (of_char c :: u8) = of_char c"
proof -
  have "(of_char c :: u8) = of_nat (of_char c)" by (simp add: of_nat_of_char)
  then have "unat (of_char c :: u8) = take_bit 8 (of_char c)" by (simp add: unat_of_nat take_bit_eq_mod)
  then show ?thesis by (simp add: take_bit_eq_mod)
qed

lemma bytes_str_inverse [simp]: "bytes_str (str_bytes s) = s"
  by (induction s) (simp_all add: bytes_str_def str_bytes_def unat_of_char)

section \<open>Block devices\<close>

datatype block_error = BlkIoError | InvalidBlock | BlkReadOnly | DeviceError

text \<open>
  \<open>bd_read dev d blk n\<close> fills a buffer of \<open>n\<close> bytes; a write or a flush may change the
  device even when it fails.
\<close>

record 'd block_device =
  bd_read :: "'d \<Rightarrow> usize \<Rightarrow> usize \<Rightarrow> block_error + bytes"
  bd_write :: "'d \<Rightarrow> usize \<Rightarrow> bytes \<Rightarrow> (block_error + unit) \<times> 'd"
  bd_flush :: "'d \<Rightarrow> (block_error + unit) \<times> 'd"
  bd_block_size :: usize
  bd_total_blocks :: usize

text \<open>The lengths of the pieces of \<^verbatim>\<open>chunks(bs)\<close> of a buffer of \<open>n\<close> bytes.\<close>

definition chunk_lens :: "usize \<Rightarrow> usize \<Rightarrow> usize list" where
  "chunk_lens bs n = replicate (n div bs) bs @ (if n mod bs = 0 then [] else [n mod bs])"

fun read_chunks :: "'d block_device \<Rightarrow> 'd \<Rightarrow> usize \<Rightarrow> usize list \<Rightarrow> block_error + bytes" where
  "read_chunks dev d blk [] = Inr []"
| "read_chunks dev d blk (n # ns) =
     bnd (bd_read dev d blk n) (\<lambda>chunk.
     bnd (read_chunks dev d (usize_add blk 1) ns) (\<lambda>rest. Inr (chunk @ rest)))"

definition read_blocks :: "'d block_device \<Rightarrow> 'd \<Rightarrow> usize \<Rightarrow> usize \<Rightarrow> block_error + bytes" where
  "read_blocks dev d start_block n = read_chunks dev d start_block (chunk_lens (bd_block_size dev) n)"

fun write_chunks ::
  "'d block_device \<Rightarrow> 'd \<Rightarrow> usize \<Rightarrow> usize list \<Rightarrow> bytes \<Rightarrow> (block_error + unit) \<times> 'd" where
  "write_chunks dev d blk [] buf = (Inr (), d)"
| "write_chunks dev d blk (n # ns) buf =
     (case bd_write dev d blk (take n buf) of
        (Inl e, d') \<Rightarrow> (Inl e, d')
      | (Inr _, d') \<Rightarrow> write_chunks dev d' (usize_add blk 1) ns (drop n buf))"

definition write_blocks ::
  "'d block_device \<Rightarrow> 'd \<Rightarrow> usize \<Rightarrow> bytes \<Rightarrow> (block_error + unit) \<times> 'd" where
  "write_blocks dev d start_block buf =
     write_chunks dev d start_block (chunk_lens (bd_block_size dev) (length buf)) buf"

text \<open>
  What the trait documents: reads deliver the current content of a block, a completed
  write replaces the content of its block and no other, a failed write touches no other
  block, and a completed flush makes the current content persistent (\<open>durable\<close>).
\<close>

definition device_ok ::
  "'d block_device \<Rightarrow> ('d \<Rightarrow> usize \<Rightarrow> bytes) \<Rightarrow> ('d \<Rightarrow> usize \<Rightarrow> bytes) \<Rightarrow> bool" where
  "device_ok dev content durable \<longleftrightarrow>
     0 < bd_block_size dev
   \<and> (\<forall>d blk b. bd_read dev d blk (bd_block_size dev) = Inr b \<longrightarrow>
        b = content d blk \<and> length b = bd_block_size dev)
   \<and> (\<forall>d blk buf d'. bd_write dev d blk buf = (Inr (), d') \<and> length buf = bd_block_size dev \<longrightarrow>
        content d' = (content d)(blk := buf))
   \<and> (\<forall>d blk buf e d'. bd_write dev d blk buf = (Inl e, d') \<longrightarrow>
        (\<forall>j. j \<noteq> blk \<longrightarrow> content d' j = content d j))
   \<and> (\<forall>d r d'. bd_flush dev d = (r, d') \<longrightarrow> content d' = content d)
   \<and> (\<forall>d d'. bd_flush dev d = (Inr (), d') \<longrightarrow> durable d' = content d')"

lemma device_okD:
  assumes "device_ok dev content durable"
  shows "0 < bd_block_size dev"
    and "bd_read dev d blk (bd_block_size dev) = Inr b \<Longrightarrow> b = content d blk \<and> length b = bd_block_size dev"
    and "\<lbrakk>bd_write dev d blk buf = (Inr (), d'); length buf = bd_block_size dev\<rbrakk> \<Longrightarrow>
       content d' = (content d)(blk := buf)"
    and "\<lbrakk>bd_write dev d blk buf = (Inl e, d'); j \<noteq> blk\<rbrakk> \<Longrightarrow> content d' j = content d j"
    and "bd_flush dev d = (r, d') \<Longrightarrow> content d' = content d"
    and "bd_flush dev d = (Inr (), d') \<Longrightarrow> durable d' = content d'"
  using assms unfolding device_ok_def by blast+

text \<open>
  A disk in memory with a volatile and a persistent image; writes outside its blocks fail.
  It satisfies \<open>device_ok\<close>.
\<close>

definition ram_disk :: "usize \<Rightarrow> usize \<Rightarrow> ((usize \<Rightarrow> bytes) \<times> (usize \<Rightarrow> bytes)) block_device" where
  "ram_disk bs nblocks = \<lparr>
     bd_read = (\<lambda>d blk n. if blk < nblocks \<and> length (fst d blk) = n then Inr (fst d blk) else Inl InvalidBlock),
     bd_write = (\<lambda>d blk buf. if blk < nblocks then (Inr (), (fst d)(blk := buf), snd d) else (Inl InvalidBlock, d)),
     bd_flush = (\<lambda>d. (Inr (), fst d, fst d)),
     bd_block_size = bs, bd_total_blocks = nblocks\<rparr>"

lemma ram_disk_ok: "0 < bs \<Longrightarrow> device_ok (ram_disk bs nblocks) fst snd"
  by (auto simp: device_ok_def ram_disk_def split: if_splits)

end
