(* ===== verification/Kor_Cache.thy ===== *)
theory Kor_Cache
  imports Kor_Vfs
begin

text \<open>
  The write-back block cache, \<^verbatim>\<open>filesystems/kor-fs/src/block_cache.rs\<close>.  An operation
  returns its result together with the cache it leaves, also on the error paths.  The
  invariant: the keys of the map are the entries of the access order, each once; a clean
  entry equals the device's content.  \<open>cache_view\<close> is what a client sees: the cached bytes
  of a block, else the device's.
\<close>

section \<open>State and operations\<close>

record cached_block =
  cb_block_id :: usize
  cb_data :: bytes
  cb_dirty :: bool

record 'd block_cache =
  bc_device :: "'d block_device"
  bc_disk :: 'd
  bc_cache :: "(usize, cached_block) btree"
  bc_max_blocks :: usize
  bc_order :: "usize list"

definition cache_new :: "'d block_device \<Rightarrow> 'd \<Rightarrow> usize \<Rightarrow> 'd block_cache" where
  "cache_new dev d max_blocks =
     \<lparr>bc_device = dev, bc_disk = d, bc_cache = [], bc_max_blocks = max_blocks, bc_order = []\<rparr>"

text \<open>\<^verbatim>\<open>iter().position\<close> followed by \<^verbatim>\<open>remove\<close>: the first occurrence goes.\<close>

definition touch :: "usize list \<Rightarrow> usize \<Rightarrow> usize list" where
  "touch ord block_id = remove1 block_id ord @ [block_id]"

fun evict_loop ::
  "'d block_device \<Rightarrow> usize \<Rightarrow> 'd \<Rightarrow> (usize, cached_block) btree \<Rightarrow> usize list \<Rightarrow>
   (block_error + unit) \<times> 'd \<times> (usize, cached_block) btree \<times> usize list" where
  "evict_loop dev max_blocks d c [] = (Inr (), d, c, [])"
| "evict_loop dev max_blocks d c (victim # ord) =
     (if length c > max_blocks then
        case bt_get c victim of
          Some e \<Rightarrow>
            if cb_dirty e then
              (case bd_write dev d (cb_block_id e) (cb_data e) of
                 (Inl err, d1) \<Rightarrow> (Inl err, d1, c, victim # ord)
               | (Inr _, d1) \<Rightarrow>
                   (case bd_flush dev d1 of
                      (Inl err, d2) \<Rightarrow> (Inl err, d2, c, victim # ord)
                    | (Inr _, d2) \<Rightarrow> evict_loop dev max_blocks d2 (bt_remove victim c) ord))
            else evict_loop dev max_blocks d (bt_remove victim c) ord
        | None \<Rightarrow> evict_loop dev max_blocks d (bt_remove victim c) ord
      else (Inr (), d, c, victim # ord))"

definition evict_if_needed :: "'d block_cache \<Rightarrow> (block_error + unit) \<times> 'd block_cache" where
  "evict_if_needed b =
     (let (r, d, c, ord) = evict_loop (bc_device b) (bc_max_blocks b) (bc_disk b) (bc_cache b) (bc_order b) in
      (r, b\<lparr>bc_disk := d, bc_cache := c, bc_order := ord\<rparr>))"

definition cache_insert :: "'d block_cache \<Rightarrow> usize \<Rightarrow> bytes \<Rightarrow> bool \<Rightarrow> 'd block_cache" where
  "cache_insert b block_id data dirty =
     b\<lparr>bc_cache := bt_insert block_id \<lparr>cb_block_id = block_id, cb_data = data, cb_dirty = dirty\<rparr> (bc_cache b),
       bc_order := bc_order b @ [block_id]\<rparr>"

definition read_block_cached ::
  "'d block_cache \<Rightarrow> usize \<Rightarrow> usize \<Rightarrow> (block_error + bytes) \<times> 'd block_cache" where
  "read_block_cached b block_id buf_len =
     (if buf_len \<noteq> bd_block_size (bc_device b) then (Inl InvalidBlock, b)
      else case bt_get (bc_cache b) block_id of
        Some e \<Rightarrow> (Inr (cb_data e), b\<lparr>bc_order := touch (bc_order b) block_id\<rparr>)
      | None \<Rightarrow>
          (case bd_read (bc_device b) (bc_disk b) block_id buf_len of
             Inl err \<Rightarrow> (Inl err, b)
           | Inr data \<Rightarrow>
               let (r, b') = evict_if_needed (cache_insert b block_id data False) in
               (bnd r (\<lambda>_. Inr data), b')))"

definition write_block_cached ::
  "'d block_cache \<Rightarrow> usize \<Rightarrow> bytes \<Rightarrow> (block_error + unit) \<times> 'd block_cache" where
  "write_block_cached b block_id buf =
     (if length buf \<noteq> bd_block_size (bc_device b) then (Inl InvalidBlock, b)
      else case bt_get (bc_cache b) block_id of
        Some e \<Rightarrow>
          (Inr (), b\<lparr>bc_cache := bt_insert block_id (e\<lparr>cb_data := buf, cb_dirty := True\<rparr>) (bc_cache b),
                     bc_order := touch (bc_order b) block_id\<rparr>)
      | None \<Rightarrow> evict_if_needed (cache_insert b block_id buf True))"

fun write_dirty :: "'d block_device \<Rightarrow> 'd \<Rightarrow> (usize \<times> cached_block) list \<Rightarrow> (block_error + unit) \<times> 'd" where
  "write_dirty dev d [] = (Inr (), d)"
| "write_dirty dev d ((blk, e) # es) =
     (if cb_dirty e then
        (case bd_write dev d blk (cb_data e) of
           (Inl err, d') \<Rightarrow> (Inl err, d')
         | (Inr _, d') \<Rightarrow> write_dirty dev d' es)
      else write_dirty dev d es)"

text \<open>The pairs \<open>(blk, entry)\<close> a range of block numbers finds in the cache.\<close>

definition cached_in :: "(usize, cached_block) btree \<Rightarrow> usize list \<Rightarrow> (usize \<times> cached_block) list" where
  "cached_in c ids = List.map_filter (\<lambda>blk. map_option (Pair blk) (bt_get c blk)) ids"

text \<open>
  The common body of \<open>flush_range\<close> and \<open>sync\<close>: write the dirty entries among \<open>es\<close>, raise
  the persistence barrier, and only then clear the dirty flags of the blocks in \<open>sel\<close>.
\<close>

definition write_back ::
  "'d block_cache \<Rightarrow> (usize \<times> cached_block) list \<Rightarrow> (usize \<Rightarrow> bool) \<Rightarrow>
   (block_error + unit) \<times> 'd block_cache" where
  "write_back b es sel =
     (case write_dirty (bc_device b) (bc_disk b) es of
        (Inl err, d1) \<Rightarrow> (Inl err, b\<lparr>bc_disk := d1\<rparr>)
      | (Inr _, d1) \<Rightarrow>
          (case bd_flush (bc_device b) d1 of
             (Inl err, d2) \<Rightarrow> (Inl err, b\<lparr>bc_disk := d2\<rparr>)
           | (Inr _, d2) \<Rightarrow>
               (Inr (), b\<lparr>bc_disk := d2,
                          bc_cache := bt_map (\<lambda>k e. if sel k then e\<lparr>cb_dirty := False\<rparr> else e)
                                        (bc_cache b)\<rparr>)))"

definition flush_range ::
  "'d block_cache \<Rightarrow> usize \<Rightarrow> usize \<Rightarrow> (block_error + unit) \<times> 'd block_cache" where
  "flush_range b start_block count =
     (let ids = [start_block..<usize_add start_block count] in
      write_back b (cached_in (bc_cache b) ids) (\<lambda>k. k \<in> set ids))"

fun invalidate_ids :: "'d block_cache \<Rightarrow> usize list \<Rightarrow> 'd block_cache" where
  "invalidate_ids b [] = b"
| "invalidate_ids b (blk # ids) =
     invalidate_ids
       (if bt_contains (bc_cache b) blk
        then b\<lparr>bc_cache := bt_remove blk (bc_cache b), bc_order := remove1 blk (bc_order b)\<rparr> else b) ids"

definition invalidate_range :: "'d block_cache \<Rightarrow> usize \<Rightarrow> usize \<Rightarrow> 'd block_cache" where
  "invalidate_range b start_block count = invalidate_ids b [start_block..<usize_add start_block count]"

definition cache_sync :: "'d block_cache \<Rightarrow> (block_error + unit) \<times> 'd block_cache" where
  "cache_sync b =
     write_back b (map (\<lambda>e. (cb_block_id e, e)) (bt_values (bc_cache b))) (\<lambda>_. True)"

section \<open>Invariant and view\<close>

definition vw :: "('d \<Rightarrow> usize \<Rightarrow> bytes) \<Rightarrow> 'd \<Rightarrow> (usize, cached_block) btree \<Rightarrow> usize \<Rightarrow> bytes" where
  "vw content d c blk = (case bt_get c blk of Some e \<Rightarrow> cb_data e | None \<Rightarrow> content d blk)"

definition entry_ok :: "usize \<Rightarrow> ('d \<Rightarrow> usize \<Rightarrow> bytes) \<Rightarrow> 'd \<Rightarrow> usize \<Rightarrow> cached_block \<Rightarrow> bool" where
  "entry_ok bs content d k e \<longleftrightarrow>
     cb_block_id e = k \<and> length (cb_data e) = bs \<and> (\<not> cb_dirty e \<longrightarrow> cb_data e = content d k)"

definition cinv ::
  "usize \<Rightarrow> ('d \<Rightarrow> usize \<Rightarrow> bytes) \<Rightarrow> 'd \<Rightarrow> (usize, cached_block) btree \<Rightarrow> usize list \<Rightarrow> bool" where
  "cinv bs content d c ord \<longleftrightarrow> bt_wf c \<and> distinct ord \<and> set ord = bt_keys c
     \<and> (\<forall>k e. bt_get c k = Some e \<longrightarrow> entry_ok bs content d k e)"

definition cache_view :: "('d \<Rightarrow> usize \<Rightarrow> bytes) \<Rightarrow> 'd block_cache \<Rightarrow> usize \<Rightarrow> bytes" where
  "cache_view content b = vw content (bc_disk b) (bc_cache b)"

definition cache_inv ::
  "('d \<Rightarrow> usize \<Rightarrow> bytes) \<Rightarrow> ('d \<Rightarrow> usize \<Rightarrow> bytes) \<Rightarrow> 'd block_cache \<Rightarrow> bool" where
  "cache_inv content durable b \<longleftrightarrow> device_ok (bc_device b) content durable
     \<and> cinv (bd_block_size (bc_device b)) content (bc_disk b) (bc_cache b) (bc_order b)"

lemma cinv_entry: "\<lbrakk>cinv bs content d c ord; bt_get c k = Some e\<rbrakk> \<Longrightarrow> entry_ok bs content d k e"
  by (simp add: cinv_def)

lemma cinv_remove:
  assumes "cinv bs content d c (v # ord)" "\<And>k. k \<noteq> v \<Longrightarrow> content d' k = content d k"
  shows "cinv bs content d' (bt_remove v c) ord"
  using assms by (auto simp: cinv_def entry_ok_def)

lemma cinv_dirty:
  assumes "cinv bs content d c ord" "bt_get c v = Some e" "cb_dirty e"
    and "\<And>k. k \<noteq> v \<Longrightarrow> content d' k = content d k"
  shows "cinv bs content d' c ord" "vw content d' c = vw content d c"
proof -
  have "entry_ok bs content d' k e'" if k: "bt_get c k = Some e'" for k e'
    using cinv_entry [OF assms(1) k] assms(2-4) k by (cases "k = v") (auto simp: entry_ok_def)
  then show "cinv bs content d' c ord" using assms(1) by (simp add: cinv_def)
  have "vw content d' c k = vw content d c k" for k
    using assms(2,4) by (cases "k = v") (simp_all add: vw_def split: option.split)
  then show "vw content d' c = vw content d c" by blast
qed

lemma vw_remove:
  assumes "bt_get c v = Some e" "content d' v = cb_data e" "\<And>k. k \<noteq> v \<Longrightarrow> content d' k = content d k"
  shows "vw content d' (bt_remove v c) = vw content d c"
  using assms by (auto simp: vw_def fun_eq_iff split: option.splits)

lemma evict_loop_inv:
  assumes dev: "device_ok dev content durable"
    and "cinv (bd_block_size dev) content d c ord" "evict_loop dev m d c ord = (r, d', c', ord')"
  shows "cinv (bd_block_size dev) content d' c' ord' \<and> vw content d' c' = vw content d c
    \<and> (r = Inr () \<longrightarrow> length c' \<le> m)"
  using assms(2,3)
proof (induction ord arbitrary: d c)
  case Nil
  then show ?case using bt_length [of c] by (auto simp: cinv_def)
next
  case (Cons v ord)
  note dk = device_okD [OF dev]
  have v: "v \<in> bt_keys c" using Cons.prems(1) by (auto simp: cinv_def)
  then obtain e where e: "bt_get c v = Some e" by (metis bt_get_keys option.exhaust)
  have ok: "cb_block_id e = v" "length (cb_data e) = bd_block_size dev" "\<not> cb_dirty e \<longrightarrow> cb_data e = content d v"
    using cinv_entry [OF Cons.prems(1) e] by (simp_all add: entry_ok_def)
  consider (fit) "length c \<le> m" | (clean) "length c > m" "\<not> cb_dirty e" | (dirty) "length c > m" "cb_dirty e"
    by linarith
  then show ?case
  proof cases
    case fit
    then show ?thesis using Cons.prems by auto
  next
    case clean
    have "evict_loop dev m d (bt_remove v c) ord = (r, d', c', ord')" using Cons.prems(2) clean e by simp
    from Cons.IH [OF cinv_remove [OF Cons.prems(1)] this]
    show ?thesis using vw_remove [OF e, of content d d] ok clean(2) by simp
  next
    case dirty
    obtain r1 d1 where w: "bd_write dev d v (cb_data e) = (r1, d1)" by force
    obtain r2 d2 where f: "bd_flush dev d1 = (r2, d2)" by force
    have fc: "content d2 = content d1" using dk(5) [OF f] .
    show ?thesis
    proof (cases r1)
      case (Inl err)
      have "content d1 k = content d k" if "k \<noteq> v" for k using dk(4) [OF w [unfolded Inl] that] .
      note cd = cinv_dirty [OF Cons.prems(1) e dirty(2) this]
      have "evict_loop dev m d c (v # ord) = (Inl err, d1, c, v # ord)" using dirty e w Inl ok(1) by simp
      then have "(r, d', c', ord') = (Inl err, d1, c, v # ord)" using Cons.prems(2) by (simp only:)
      then show ?thesis using cd by auto
    next
      case (Inr u)
      then have r1: "r1 = Inr ()" by simp
      have wc: "content d1 = (content d)(v := cb_data e)" using dk(3) [of d v _ d1] w r1 ok(2) by simp
      have other: "content d2 k = content d k" if "k \<noteq> v" for k using fc wc that by simp
      show ?thesis
      proof (cases r2)
        case (Inl err)
        note cd = cinv_dirty [OF Cons.prems(1) e dirty(2) other]
        have "evict_loop dev m d c (v # ord) = (Inl err, d2, c, v # ord)"
          using dirty e w r1 f Inl ok(1) by simp
        then have "(r, d', c', ord') = (Inl err, d2, c, v # ord)" using Cons.prems(2) by (simp only:)
        then show ?thesis using cd by auto
      next
        case (Inr u')
        have "evict_loop dev m d2 (bt_remove v c) ord = (r, d', c', ord')"
          using Cons.prems(2) dirty e w r1 f Inr ok(1) by simp
        from Cons.IH [OF cinv_remove [OF Cons.prems(1) other] this]
        show ?thesis using vw_remove [of c v e content d2 d] e other fc wc by simp
      qed
    qed
  qed
qed

lemma evict_if_needed_inv:
  assumes "cache_inv content durable b" "evict_if_needed b = (r, b')"
  shows "cache_inv content durable b'" "cache_view content b' = cache_view content b"
    "r = Inr () \<longrightarrow> length (bc_cache b') \<le> bc_max_blocks b"
    "bc_device b' = bc_device b" "bc_max_blocks b' = bc_max_blocks b"
proof -
  obtain r0 d c ord where e: "evict_loop (bc_device b) (bc_max_blocks b) (bc_disk b) (bc_cache b) (bc_order b)
      = (r0, d, c, ord)" by (metis prod_cases4)
  then have b': "b' = b\<lparr>bc_disk := d, bc_cache := c, bc_order := ord\<rparr>" "r0 = r"
    using assms(2) by (auto simp: evict_if_needed_def)
  note i = evict_loop_inv [OF _ _ e, of content durable]
  show "cache_inv content durable b'" "cache_view content b' = cache_view content b"
    "r = Inr () \<longrightarrow> length (bc_cache b') \<le> bc_max_blocks b"
    "bc_device b' = bc_device b" "bc_max_blocks b' = bc_max_blocks b"
    using i assms(1) b' by (auto simp: cache_inv_def cache_view_def)
qed

lemma touch_props: "\<lbrakk>distinct ord; k \<in> set ord\<rbrakk> \<Longrightarrow> distinct (touch ord k) \<and> set (touch ord k) = set ord"
  by (auto simp: touch_def)

lemma cache_insert_inv:
  assumes "cache_inv content durable b" "bt_get (bc_cache b) k = None"
    and "length data = bd_block_size (bc_device b)" "\<not> dirty \<longrightarrow> data = content (bc_disk b) k"
  shows "cache_inv content durable (cache_insert b k data dirty)"
    and "cache_view content (cache_insert b k data dirty) = (cache_view content b)(k := data)"
  using assms
  by (auto simp: cache_inv_def cinv_def cache_insert_def entry_ok_def bt_get_keys cache_view_def vw_def
      fun_eq_iff split: if_splits)

section \<open>The operations on the view\<close>

lemma cache_hit:
  assumes "cache_inv content durable b" "bt_get (bc_cache b) k = Some e"
  shows "cache_inv content durable (b\<lparr>bc_order := touch (bc_order b) k\<rparr>)"
    and "cache_view content b k = cb_data e"
    and "length (cb_data e) = bd_block_size (bc_device b)"
proof -
  have "k \<in> set (bc_order b)" "distinct (bc_order b)"
    using assms by (auto simp: cache_inv_def cinv_def bt_get_keys)
      (metis bt_get_keys option.distinct(1))
  from touch_props [OF this(2,1)] show "cache_inv content durable (b\<lparr>bc_order := touch (bc_order b) k\<rparr>)"
    using assms(1) by (simp add: cache_inv_def cinv_def)
  show "cache_view content b k = cb_data e" using assms(2) by (simp add: cache_view_def vw_def)
  show "length (cb_data e) = bd_block_size (bc_device b)"
    using assms by (auto simp: cache_inv_def dest: cinv_entry simp: entry_ok_def)
qed

lemma read_cached_law:
  assumes inv: "cache_inv content durable b" and r: "read_block_cached b k n = (r, b')"
  shows "cache_inv content durable b' \<and> cache_view content b' = cache_view content b
    \<and> bc_device b' = bc_device b \<and> bc_max_blocks b' = bc_max_blocks b
    \<and> (\<forall>data. r = Inr data \<longrightarrow> data = cache_view content b k \<and> length data = n)"
proof -
  consider (bad) "n \<noteq> bd_block_size (bc_device b)"
    | (hit) e where "n = bd_block_size (bc_device b)" "bt_get (bc_cache b) k = Some e"
    | (miss) "n = bd_block_size (bc_device b)" "bt_get (bc_cache b) k = None" by fastforce
  then show ?thesis
  proof cases
    case bad
    then show ?thesis using inv r by (auto simp: read_block_cached_def)
  next
    case hit
    then show ?thesis using cache_hit [OF inv hit(2)] r
      by (auto simp: read_block_cached_def cache_view_def)
  next
    case miss
    have dev: "device_ok (bc_device b) content durable" using inv by (simp add: cache_inv_def)
    show ?thesis
    proof (cases "bd_read (bc_device b) (bc_disk b) k n")
      case (Inl err)
      then show ?thesis using miss inv r by (auto simp: read_block_cached_def)
    next
      case (Inr data)
      have d: "data = content (bc_disk b) k" "length data = bd_block_size (bc_device b)"
        using device_okD(2) [OF dev] Inr miss(1) by auto
      then have v: "cache_view content b k = data" using miss(2) by (simp add: cache_view_def vw_def)
      obtain r1 b1 where e: "evict_if_needed (cache_insert b k data False) = (r1, b1)" by force
      note ins = cache_insert_inv [OF inv miss(2) d(2), of False]
      have ci: "cache_inv content durable (cache_insert b k data False)" using ins(1) d(1) by simp
      note ev = evict_if_needed_inv [OF ci e]
      have "r = bnd r1 (\<lambda>_. Inr data)" "b' = b1" using r miss Inr e by (simp_all add: read_block_cached_def)
      moreover have "cache_view content (cache_insert b k data False) = cache_view content b"
        using ins(2) d(1) v by (simp add: fun_upd_idem)
      ultimately show ?thesis
        using ev d v miss(1) by (auto simp: run_simps cache_insert_def)
    qed
  qed
qed

lemma write_cached_law:
  assumes inv: "cache_inv content durable b" and r: "write_block_cached b k buf = (r, b')"
  shows "cache_inv content durable b' \<and> bc_device b' = bc_device b \<and> bc_max_blocks b' = bc_max_blocks b
    \<and> (if length buf = bd_block_size (bc_device b)
       then cache_view content b' = (cache_view content b)(k := buf)
       else r = Inl InvalidBlock \<and> b' = b)"
proof -
  consider (bad) "length buf \<noteq> bd_block_size (bc_device b)"
    | (hit) e where "length buf = bd_block_size (bc_device b)" "bt_get (bc_cache b) k = Some e"
    | (miss) "length buf = bd_block_size (bc_device b)" "bt_get (bc_cache b) k = None" by fastforce
  then show ?thesis
  proof cases
    case bad
    then show ?thesis using inv r by (auto simp: write_block_cached_def)
  next
    case hit
    let ?b = "b\<lparr>bc_cache := bt_insert k (e\<lparr>cb_data := buf, cb_dirty := True\<rparr>) (bc_cache b),
                bc_order := touch (bc_order b) k\<rparr>"
    have b': "b' = ?b" using r hit by (simp add: write_block_cached_def)
    have t: "distinct (touch (bc_order b) k)" "set (touch (bc_order b) k) = bt_keys (bc_cache b)"
      using cache_hit(1) [OF inv hit(2)] by (simp_all add: cache_inv_def cinv_def)
    have k: "k \<in> bt_keys (bc_cache b)" using hit(2) bt_get_keys [of "bc_cache b" k] by auto
    have "cb_block_id e = k" using cinv_entry [of _ content "bc_disk b" "bc_cache b"] inv hit(2)
      by (auto simp: cache_inv_def entry_ok_def)
    then have "cache_inv content durable ?b"
      using inv t k hit(1) by (auto simp: cache_inv_def cinv_def entry_ok_def)
    moreover have "cache_view content ?b = (cache_view content b)(k := buf)"
      by (auto simp: cache_view_def vw_def fun_eq_iff)
    ultimately show ?thesis using b' hit(1) by simp
  next
    case miss
    note ins = cache_insert_inv [OF inv miss(2,1), of True]
    have "evict_if_needed (cache_insert b k buf True) = (r, b')"
      using r miss by (simp add: write_block_cached_def)
    from evict_if_needed_inv [OF ins(1) this] ins(2) miss(1) show ?thesis by (simp add: cache_insert_def)
  qed
qed

lemma write_dirty_law:
  assumes dev: "device_ok dev content durable"
    and "write_dirty dev d es = (r, d')" "distinct (map fst es)"
    and "\<forall>(k, e) \<in> set es. length (cb_data e) = bd_block_size dev"
  shows "(\<forall>k. (\<forall>e. (k, e) \<in> set es \<longrightarrow> \<not> cb_dirty e) \<longrightarrow> content d' k = content d k)
    \<and> (r = Inr () \<longrightarrow> (\<forall>k e. (k, e) \<in> set es \<longrightarrow> cb_dirty e \<longrightarrow> content d' k = cb_data e))"
  using assms(2-4)
proof (induction es arbitrary: d)
  case Nil
  then show ?case by simp
next
  case (Cons p es)
  obtain k e where p: "p = (k, e)" by force
  have nk: "(k, e') \<notin> set es" for e' using Cons.prems(2) p by force
  note dk = device_okD [OF dev]
  have pre: "distinct (map fst es)" "\<forall>(k, e) \<in> set es. length (cb_data e) = bd_block_size dev"
    "length (cb_data e) = bd_block_size dev" using Cons.prems(2,3) p by auto
  show ?case
  proof (cases "cb_dirty e")
    case False
    then have "write_dirty dev d es = (r, d')" using Cons.prems(1) p by simp
    from Cons.IH [OF this pre(1,2)] show ?thesis using False p by auto
  next
    case True
    obtain r1 d1 where w: "bd_write dev d k (cb_data e) = (r1, d1)" by force
    show ?thesis
    proof (cases r1)
      case (Inl err)
      then have "r = Inl err" "d' = d1" using Cons.prems(1) p True w by simp_all
      moreover have "content d1 j = content d j" if "j \<noteq> k" for j using dk(4) w Inl that by blast
      ultimately show ?thesis using True p by auto
    next
      case (Inr u)
      then have u: "r1 = Inr ()" by simp
      have wc: "content d1 = (content d)(k := cb_data e)" using dk(3) w u pre(3) by blast
      have "write_dirty dev d1 es = (r, d')" using Cons.prems(1) p True w u by simp
      note IH = Cons.IH [OF this pre(1,2)]
      have "content d' k = cb_data e" using IH nk wc by simp
      moreover have "content d' j = content d j"
        if "\<forall>e. (j, e) \<in> set (p # es) \<longrightarrow> \<not> cb_dirty e" for j
      proof -
        have "j \<noteq> k" using that p True by auto
        moreover have "content d' j = content d1 j" using IH that by simp
        ultimately show ?thesis using wc by simp
      qed
      moreover have "content d' j = cb_data e'" if "r = Inr ()" "(j, e') \<in> set es" "cb_dirty e'" for j e'
        using IH that by blast
      ultimately show ?thesis using p by (metis prod.inject set_ConsD)
    qed
  qed
qed

text \<open>Clearing the dirty flags of entries the device now agrees with.\<close>

lemma clean_some:
  assumes "cinv bs content d0 c ord"
    and "\<And>k e. bt_get c k = Some e \<Longrightarrow> (P k \<or> \<not> cb_dirty e) \<Longrightarrow> content d k = cb_data e"
    and "\<And>k. bt_get c k = None \<Longrightarrow> content d k = content d0 k"
  shows "cinv bs content d (bt_map (\<lambda>k e. if P k then e\<lparr>cb_dirty := False\<rparr> else e) c) ord"
    and "vw content d (bt_map (\<lambda>k e. if P k then e\<lparr>cb_dirty := False\<rparr> else e) c) = vw content d0 c"
proof -
  show "cinv bs content d (bt_map (\<lambda>k e. if P k then e\<lparr>cb_dirty := False\<rparr> else e) c) ord"
    using assms(1,2) by (auto simp: cinv_def entry_ok_def)
  have "vw content d (bt_map (\<lambda>k e. if P k then e\<lparr>cb_dirty := False\<rparr> else e) c) k = vw content d0 c k" for k
    using assms(3) [of k] by (cases "bt_get c k") (simp_all add: vw_def)
  then show "vw content d (bt_map (\<lambda>k e. if P k then e\<lparr>cb_dirty := False\<rparr> else e) c) = vw content d0 c"
    by blast
qed

text \<open>A failed write-back leaves the cache coherent: what it may have touched is dirty.\<close>

lemma dirty_writes_inv:
  assumes "cinv bs content d0 c ord"
    and "\<And>k. (\<And>e. bt_get c k = Some e \<Longrightarrow> \<not> cb_dirty e) \<Longrightarrow> content d k = content d0 k"
  shows "cinv bs content d c ord" "vw content d c = vw content d0 c"
proof -
  have "entry_ok bs content d k e" if "bt_get c k = Some e" for k e
    using cinv_entry [OF assms(1) that] assms(2) [of k] that by (auto simp: entry_ok_def)
  then show "cinv bs content d c ord" using assms(1) by (simp add: cinv_def)
  have "vw content d c k = vw content d0 c k" for k
    using assms(2) [of k] by (cases "bt_get c k") (simp_all add: vw_def)
  then show "vw content d c = vw content d0 c" by blast
qed

lemma cached_in_set: "(k, e) \<in> set (cached_in c ids) \<longleftrightarrow> k \<in> set ids \<and> bt_get c k = Some e"
  by (induction ids) (auto simp: cached_in_def List.map_filter_simps split: option.splits)

lemma cached_in_distinct: "distinct ids \<Longrightarrow> distinct (map fst (cached_in c ids))"
proof (induction ids)
  case (Cons i ids)
  have "i \<notin> fst ` set (cached_in c ids)" using Cons.prems cached_in_set [of i _ c ids] by force
  then show ?case using Cons
    by (auto simp: cached_in_def List.map_filter_simps split: option.splits)
qed (simp add: cached_in_def List.map_filter_simps)

text \<open>
  Both write-back operations have this shape: the dirty entries among \<open>es\<close> go to the
  device, then a flush, then the flags of the blocks in \<open>P\<close> are cleared.
\<close>

lemma write_back_law:
  assumes inv: "cache_inv content durable b"
    and es: "distinct (map fst es)" "\<And>k e. (k, e) \<in> set es \<longleftrightarrow> P k \<and> bt_get (bc_cache b) k = Some e"
    and r: "write_back b es P = (r, b')"
  shows "cache_inv content durable b' \<and> cache_view content b' = cache_view content b
    \<and> bc_device b' = bc_device b \<and> bc_max_blocks b' = bc_max_blocks b
    \<and> (r = Inr () \<longrightarrow> durable (bc_disk b') = content (bc_disk b')
         \<and> (\<forall>k. P k \<longrightarrow> content (bc_disk b') k = cache_view content b k))"
proof -
  let ?dev = "bc_device b" and ?c = "bc_cache b" and ?d = "bc_disk b"
  have dev: "device_ok ?dev content durable" and ci: "cinv (bd_block_size ?dev) content ?d ?c (bc_order b)"
    using inv by (simp_all add: cache_inv_def)
  note dk = device_okD [OF dev]
  obtain r1 d1 where w: "write_dirty ?dev ?d es = (r1, d1)" by force
  obtain r2 d2 where f: "bd_flush ?dev d1 = (r2, d2)" by force
  have fc: "content d2 = content d1" using dk(5) [OF f] .
  have len: "\<forall>(k, e) \<in> set es. length (cb_data e) = bd_block_size ?dev"
    using es(2) cinv_entry [OF ci] by (auto simp: entry_ok_def)
  note wd = write_dirty_law [OF dev w es(1) len]
  have safe: "content d1 k = content ?d k" if "\<And>e. bt_get ?c k = Some e \<Longrightarrow> \<not> cb_dirty e" for k
    using wd es(2) that by blast
  show ?thesis
  proof (cases "r1 = Inr () \<and> r2 = Inr ()")
    case False
    then have "b' = b\<lparr>bc_disk := d1\<rparr> \<or> b' = b\<lparr>bc_disk := d2\<rparr>" "r \<noteq> Inr ()"
      using r w f by (auto simp: write_back_def split: sum.splits)
    moreover have "cinv (bd_block_size ?dev) content d (bc_cache b) (bc_order b)"
      "vw content d ?c = vw content ?d ?c" if "content d = content d1" for d
      using dirty_writes_inv [OF ci, of d] safe that by auto
    ultimately show ?thesis using fc dev by (auto simp: cache_inv_def cache_view_def)
  next
    case True
    let ?c' = "bt_map (\<lambda>k e. if P k then e\<lparr>cb_dirty := False\<rparr> else e) ?c"
    have b': "b' = b\<lparr>bc_disk := d2, bc_cache := ?c'\<rparr>" using r w f True by (simp add: write_back_def)
    have data: "content d2 k = cb_data e" if "bt_get ?c k = Some e" "P k \<or> \<not> cb_dirty e" for k e
    proof (cases "cb_dirty e")
      case False
      have "content d1 k = content ?d k" by (rule safe) (use that(1) False in simp)
      then show ?thesis using cinv_entry [OF ci that(1)] False fc by (simp add: entry_ok_def)
    next
      case dirty: True
      then show ?thesis using wd True es(2) that fc by auto
    qed
    have none: "content d2 k = content ?d k" if "bt_get ?c k = None" for k
      unfolding fc by (rule safe) (use that in simp)
    note cs = clean_some [OF ci data none, of P]
    have "content d2 k = cache_view content b k" if "P k" for k
      using data [of k] none [of k] that by (cases "bt_get ?c k") (auto simp: cache_view_def vw_def)
    then show ?thesis
      using cs b' dev dk(6) [of d1 d2] f True by (simp add: cache_inv_def cache_view_def)
  qed
qed

lemma flush_range_law:
  assumes inv: "cache_inv content durable b" and r: "flush_range b s n = (r, b')"
  shows "cache_inv content durable b' \<and> cache_view content b' = cache_view content b
    \<and> bc_device b' = bc_device b \<and> bc_max_blocks b' = bc_max_blocks b
    \<and> (r = Inr () \<longrightarrow> durable (bc_disk b') = content (bc_disk b')
         \<and> (\<forall>k. s \<le> k \<and> k < usize_add s n \<longrightarrow> content (bc_disk b') k = cache_view content b k))"
proof -
  let ?ids = "[s..<usize_add s n]"
  have "distinct (map fst (cached_in (bc_cache b) ?ids))" by (rule cached_in_distinct) simp
  note wb = write_back_law [OF inv this, where P = "\<lambda>k. k \<in> set ?ids", OF cached_in_set]
  from r have "write_back b (cached_in (bc_cache b) ?ids) (\<lambda>k. k \<in> set ?ids) = (r, b')"
    by (simp add: flush_range_def Let_def)
  from wb [OF this] show ?thesis by simp
qed

lemma sync_law:
  assumes inv: "cache_inv content durable b" and r: "cache_sync b = (r, b')"
  shows "cache_inv content durable b' \<and> cache_view content b' = cache_view content b
    \<and> bc_device b' = bc_device b \<and> bc_max_blocks b' = bc_max_blocks b
    \<and> (r = Inr () \<longrightarrow> durable (bc_disk b') = cache_view content b)"
proof -
  have wf: "bt_wf (bc_cache b)" using inv by (simp add: cache_inv_def cinv_def)
  have id: "cb_block_id e = k" if "(k, e) \<in> set (bc_cache b)" for k e
    using inv wf that by (auto simp: cache_inv_def cinv_def entry_ok_def bt_get_Some_set)
  have es: "map (\<lambda>e. (cb_block_id e, e)) (bt_values (bc_cache b)) = bc_cache b"
    using id by (induction "bc_cache b" arbitrary: b) (auto simp: bt_values_def intro!: map_idI)
  have "distinct (map fst (bc_cache b))" using wf by (rule bt_wf_distinct)
  note wb = write_back_law [OF inv this, where P = "\<lambda>_. True"]
  from r have "write_back b (bc_cache b) (\<lambda>_. True) = (r, b')" by (simp add: cache_sync_def es)
  from wb [OF _ this] show ?thesis by (simp add: bt_get_Some_set [OF wf] fun_eq_iff)
qed

text \<open>Invalidation drops cached copies: the range reads as the device has it.\<close>

lemma invalidate_ids_law:
  assumes "cache_inv content durable b"
  shows "cache_inv content durable (invalidate_ids b ids)
    \<and> bc_disk (invalidate_ids b ids) = bc_disk b
    \<and> (\<forall>k. cache_view content (invalidate_ids b ids) k =
         (if k \<in> set ids then content (bc_disk b) k else cache_view content b k))"
  using assms
proof (induction ids arbitrary: b)
  case (Cons i ids)
  define b1 where "b1 = (if bt_contains (bc_cache b) i
    then b\<lparr>bc_cache := bt_remove i (bc_cache b), bc_order := remove1 i (bc_order b)\<rparr> else b)"
  have 1: "cache_inv content durable b1" "bc_disk b1 = bc_disk b"
    using Cons.prems by (auto simp: b1_def cache_inv_def cinv_def entry_ok_def)
  have 2: "cache_view content b1 k = (if k = i then content (bc_disk b) k else cache_view content b k)" for k
    by (simp add: b1_def cache_view_def vw_def split: option.split)
  have "invalidate_ids b (i # ids) = invalidate_ids b1 ids" by (simp add: b1_def)
  then show ?case using Cons.IH [OF 1(1)] 1(2) 2 by simp
qed simp

section \<open>The interface of a block store\<close>

datatype store_op = SRead usize | SWrite usize bytes | SFlush usize usize | SSync

text \<open>
  A client of a block store, run against the store and against a plain array of blocks;
  the lists are the answers to its reads.
\<close>

fun run_store ::
  "('s \<Rightarrow> usize \<Rightarrow> usize \<Rightarrow> (block_error + bytes) \<times> 's) \<Rightarrow> ('s \<Rightarrow> usize \<Rightarrow> bytes \<Rightarrow> (block_error + unit) \<times> 's) \<Rightarrow>
   ('s \<Rightarrow> usize \<Rightarrow> usize \<Rightarrow> (block_error + unit) \<times> 's) \<Rightarrow> ('s \<Rightarrow> (block_error + unit) \<times> 's) \<Rightarrow> usize \<Rightarrow>
   's \<Rightarrow> store_op list \<Rightarrow> (block_error + bytes) list \<times> 's" where
  "run_store rd wr fl sy bs s [] = ([], s)"
| "run_store rd wr fl sy bs s (SRead k # ops) =
     (let (r, s1) = rd s k bs; (rs, s2) = run_store rd wr fl sy bs s1 ops in (r # rs, s2))"
| "run_store rd wr fl sy bs s (SWrite k buf # ops) = run_store rd wr fl sy bs (snd (wr s k buf)) ops"
| "run_store rd wr fl sy bs s (SFlush k n # ops) = run_store rd wr fl sy bs (snd (fl s k n)) ops"
| "run_store rd wr fl sy bs s (SSync # ops) = run_store rd wr fl sy bs (snd (sy s)) ops"

fun run_plain :: "usize \<Rightarrow> (usize \<Rightarrow> bytes) \<Rightarrow> store_op list \<Rightarrow> bytes list \<times> (usize \<Rightarrow> bytes)" where
  "run_plain bs m [] = ([], m)"
| "run_plain bs m (SRead k # ops) = (let (rs, m') = run_plain bs m ops in (m k # rs, m'))"
| "run_plain bs m (SWrite k buf # ops) =
     run_plain bs (if length buf = bs then m(k := buf) else m) ops"
| "run_plain bs m (SFlush _ _ # ops) = run_plain bs m ops"
| "run_plain bs m (SSync # ops) = run_plain bs m ops"

definition answers_agree :: "(block_error + bytes) list \<Rightarrow> bytes list \<Rightarrow> bool" where
  "answers_agree rs bs \<longleftrightarrow> list_all2 (\<lambda>r b. case r of Inl _ \<Rightarrow> True | Inr x \<Rightarrow> x = b) rs bs"

locale block_store =
  fixes inv :: "'s \<Rightarrow> bool"
    and view :: "'s \<Rightarrow> usize \<Rightarrow> bytes"
    and bsize :: "'s \<Rightarrow> usize"
    and rd :: "'s \<Rightarrow> usize \<Rightarrow> usize \<Rightarrow> (block_error + bytes) \<times> 's"
    and wr :: "'s \<Rightarrow> usize \<Rightarrow> bytes \<Rightarrow> (block_error + unit) \<times> 's"
    and fl :: "'s \<Rightarrow> usize \<Rightarrow> usize \<Rightarrow> (block_error + unit) \<times> 's"
    and sy :: "'s \<Rightarrow> (block_error + unit) \<times> 's"
  assumes read_law: "inv s \<Longrightarrow> rd s k n = (r, s') \<Longrightarrow>
      inv s' \<and> view s' = view s \<and> bsize s' = bsize s \<and> (\<forall>b. r = Inr b \<longrightarrow> b = view s k)"
    and write_law: "inv s \<Longrightarrow> wr s k buf = (u, s') \<Longrightarrow>
      inv s' \<and> bsize s' = bsize s
        \<and> view s' = (if length buf = bsize s then (view s)(k := buf) else view s)"
    and flush_law: "inv s \<Longrightarrow> fl s k n = (u, s') \<Longrightarrow> inv s' \<and> view s' = view s \<and> bsize s' = bsize s"
    and sync_law: "inv s \<Longrightarrow> sy s = (u, s') \<Longrightarrow> inv s' \<and> view s' = view s \<and> bsize s' = bsize s"
begin

lemma run_refines:
  assumes "inv s" "run_store rd wr fl sy (bsize s) s ops = (rs, s')"
  shows "inv s' \<and> view s' = snd (run_plain (bsize s) (view s) ops)
    \<and> answers_agree rs (fst (run_plain (bsize s) (view s) ops))"
  using assms
proof (induction ops arbitrary: s rs)
  case Nil
  then show ?case by (simp add: answers_agree_def)
next
  case (Cons op ops)
  show ?case
  proof (cases op)
    case (SRead k)
    obtain r s1 where r: "rd s k (bsize s) = (r, s1)" by force
    note l = read_law [OF Cons.prems(1) r]
    obtain rs1 where rs: "run_store rd wr fl sy (bsize s1) s1 ops = (rs1, s')" "rs = r # rs1"
      using Cons.prems(2) SRead r l by (auto split: prod.splits)
    obtain pr pm where pl: "run_plain (bsize s) (view s) ops = (pr, pm)" by force
    have IH: "inv s'" "view s' = pm" "answers_agree rs1 pr" using Cons.IH [OF _ rs(1)] l pl by simp_all
    have "answers_agree (r # rs1) (view s k # pr)"
      using IH(3) l by (cases r) (simp_all add: answers_agree_def)
    then show ?thesis using IH pl rs(2) SRead by simp
  next
    case (SWrite k buf)
    obtain r s1 where r: "wr s k buf = (r, s1)" by force
    note l = write_law [OF Cons.prems(1) r]
    show ?thesis using Cons.IH [of s1 rs] Cons.prems(2) l r SWrite by simp
  next
    case (SFlush k n)
    obtain r s1 where r: "fl s k n = (r, s1)" by force
    show ?thesis using Cons.IH [of s1 rs] Cons.prems(2) flush_law [OF Cons.prems(1) r] r SFlush by simp
  next
    case SSync
    obtain r s1 where r: "sy s = (r, s1)" by force
    show ?thesis using Cons.IH [of s1 rs] Cons.prems(2) sync_law [OF Cons.prems(1) r] r SSync by simp
  qed
qed

end

interpretation cached: block_store "cache_inv content durable" "cache_view content"
  "\<lambda>b. bd_block_size (bc_device b)" read_block_cached write_block_cached flush_range cache_sync
  for content durable
proof unfold_locales
  fix s :: "'a block_cache" and k n r s'
  assume a: "cache_inv content durable s" "read_block_cached s k n = (r, s')"
  show "cache_inv content durable s' \<and> cache_view content s' = cache_view content s
      \<and> bd_block_size (bc_device s') = bd_block_size (bc_device s) \<and> (\<forall>b. r = Inr b \<longrightarrow> b = cache_view content s k)"
    using read_cached_law [OF a] by simp
next
  fix s :: "'a block_cache" and k buf r s'
  assume a: "cache_inv content durable s" "write_block_cached s k buf = (r, s')"
  show "cache_inv content durable s' \<and> bd_block_size (bc_device s') = bd_block_size (bc_device s)
      \<and> cache_view content s' = (if length buf = bd_block_size (bc_device s)
           then (cache_view content s)(k := buf) else cache_view content s)"
    using write_cached_law [OF a] by (simp split: if_splits)
next
  fix s :: "'a block_cache" and k n r s'
  assume a: "cache_inv content durable s" "flush_range s k n = (r, s')"
  show "cache_inv content durable s' \<and> cache_view content s' = cache_view content s
      \<and> bd_block_size (bc_device s') = bd_block_size (bc_device s)"
    using flush_range_law [OF a] by simp
next
  fix s :: "'a block_cache" and r s'
  assume a: "cache_inv content durable s" "cache_sync s = (r, s')"
  show "cache_inv content durable s' \<and> cache_view content s' = cache_view content s
      \<and> bd_block_size (bc_device s') = bd_block_size (bc_device s)"
    using Kor_Cache.sync_law [OF a] by simp
qed

section \<open>Capacity and total devices\<close>

lemma bt_insert_length: "length (bt_insert k v t) \<le> Suc (length t)"
  by (induction k v t rule: bt_insert.induct) auto

lemma bt_insert_length_hit: "\<lbrakk>bt_wf t; bt_get t k = Some e\<rbrakk> \<Longrightarrow> length (bt_insert k v t) = length t"
  using bt_length [of t] bt_length [of "bt_insert k v t"] bt_get_keys [of t k]
  by (simp add: insert_absorb)

definition never_fails :: "'d block_device \<Rightarrow> bool" where
  "never_fails dev \<longleftrightarrow> (\<forall>d k n. \<exists>b. bd_read dev d k n = Inr b)
     \<and> (\<forall>d k buf. \<exists>d'. bd_write dev d k buf = (Inr (), d')) \<and> (\<forall>d. \<exists>d'. bd_flush dev d = (Inr (), d'))"

lemma never_failsD:
  assumes "never_fails dev"
  obtains d1 d2 where "bd_write dev d k buf = (Inr (), d1)" "bd_flush dev d1 = (Inr (), d2)"
  using assms unfolding never_fails_def by metis

lemma evict_loop_total: "never_fails dev \<Longrightarrow> fst (evict_loop dev m d c ord) = Inr ()"
proof (induction ord arbitrary: d c)
  case (Cons v ord)
  show ?case
  proof (cases "bt_get c v")
    case (Some e)
    obtain d1 d2 where "bd_write dev d (cb_block_id e) (cb_data e) = (Inr (), d1)"
      "bd_flush dev d1 = (Inr (), d2)" using Cons.prems by (rule never_failsD)
    then show ?thesis using Some Cons by simp
  qed (use Cons in simp)
qed simp

lemma evict_if_needed_total: "never_fails (bc_device b) \<Longrightarrow> \<exists>b'. evict_if_needed b = (Inr (), b')"
  using evict_loop_total [of "bc_device b" "bc_max_blocks b" "bc_disk b" "bc_cache b" "bc_order b"]
  by (auto simp: evict_if_needed_def split: prod.splits)

lemma never_fails_read: "never_fails dev \<Longrightarrow> \<exists>b. bd_read dev d k n = Inr b"
  by (simp add: never_fails_def)

lemma read_cached_total:
  assumes "never_fails (bc_device b)"
  shows "\<exists>data b'. read_block_cached b k (bd_block_size (bc_device b)) = (Inr data, b')"
proof -
  obtain data where d: "bd_read (bc_device b) (bc_disk b) k (bd_block_size (bc_device b)) = Inr data"
    using never_fails_read [OF assms] by blast
  have "never_fails (bc_device (cache_insert b k data False))" using assms by (simp add: cache_insert_def)
  from evict_if_needed_total [OF this] obtain b' where "evict_if_needed (cache_insert b k data False) = (Inr (), b')" ..
  with d show ?thesis by (simp add: read_block_cached_def split: option.split)
qed

lemma write_cached_total:
  "\<lbrakk>never_fails (bc_device b); length buf = bd_block_size (bc_device b)\<rbrakk> \<Longrightarrow> \<exists>b'. write_block_cached b k buf = (Inr (), b')"
  using evict_if_needed_total [of "cache_insert b k buf True"]
  by (auto simp: write_block_cached_def cache_insert_def split: option.split)

lemma write_dirty_total: "never_fails dev \<Longrightarrow> \<exists>d'. write_dirty dev d es = (Inr (), d')"
proof (induction es arbitrary: d)
  case (Cons p es)
  obtain k e where p: "p = (k, e)" by force
  obtain d1 d2 where "bd_write dev d k (cb_data e) = (Inr (), d1)" by (rule never_failsD [OF Cons.prems])
  then show ?case using Cons p by simp
qed simp

lemma write_back_total: "never_fails (bc_device b) \<Longrightarrow> \<exists>b'. write_back b es P = (Inr (), b')"
proof -
  assume nf: "never_fails (bc_device b)"
  obtain d1 where "write_dirty (bc_device b) (bc_disk b) es = (Inr (), d1)" using write_dirty_total [OF nf] by blast
  moreover obtain d2 where "bd_flush (bc_device b) d1 = (Inr (), d2)" using nf unfolding never_fails_def by blast
  ultimately show ?thesis by (simp add: write_back_def)
qed

section \<open>Properties\<close>

text \<open>
  C11.  Seen through the cache, a device is a plain array of blocks: for every sequence of
  reads, writes, range flushes and syncs, on a device that keeps the documented contract
  but may fail at any time, every read that succeeds returns what the plain array holds,
  and the blocks the client sees at the end are those of the plain array.
\<close>

theorem cache_refines_disk:
  assumes "cache_inv content durable b" "bd_block_size (bc_device b) = bs"
    and "run_store read_block_cached write_block_cached flush_range cache_sync bs b ops = (rs, b')"
  shows "cache_inv content durable b' \<and> cache_view content b' = snd (run_plain bs (cache_view content b) ops)
    \<and> answers_agree rs (fst (run_plain bs (cache_view content b) ops))"
  using cached.run_refines [OF assms(1), of ops rs b'] assms(2,3) by simp

definition sample_cache :: "((usize \<Rightarrow> bytes) \<times> (usize \<Rightarrow> bytes)) block_cache" where
  "sample_cache = cache_new (ram_disk 1 8) ((\<lambda>_. [0]), (\<lambda>_. [0])) 2"

lemma sample_cache_inv: "cache_inv fst snd sample_cache"
  using ram_disk_ok [of 1 8]
  by (simp add: sample_cache_def cache_new_def cache_inv_def cinv_def ram_disk_def)

theorem cache_refines_disk_witness:
  "answers_agree (fst (run_store read_block_cached write_block_cached flush_range cache_sync 1 sample_cache
      [SWrite 3 [7], SWrite 4 [8], SWrite 5 [9], SSync, SRead 3, SRead 9])) [[7], [0]]"
proof -
  let ?ops = "[SWrite 3 [7], SWrite 4 [8], SWrite 5 [9], SSync, SRead 3, SRead 9]"
  let ?run = "run_store read_block_cached write_block_cached flush_range cache_sync 1 sample_cache ?ops"
  obtain rs b' where run: "?run = (rs, b')" by force
  have "bd_block_size (bc_device sample_cache) = 1" "cache_view fst sample_cache = (\<lambda>_. [0])"
    by (simp_all add: sample_cache_def cache_new_def ram_disk_def cache_view_def vw_def fun_eq_iff)
  with cache_refines_disk [OF sample_cache_inv _ run] have "answers_agree rs [[7], [0]]" by simp
  then show ?thesis unfolding run by simp
qed

text \<open>
  C12.  A successful \<open>sync\<close> makes persistent exactly what the client sees, and a
  successful \<open>flush_range\<close> brings the device up to date on the range; a failure of either
  loses nothing, because dirty flags are cleared only after the barrier.
\<close>

theorem cache_sync_durable:
  assumes "cache_inv content durable b"
  shows "(case cache_sync b of (r, b') \<Rightarrow> cache_inv content durable b'
      \<and> cache_view content b' = cache_view content b
      \<and> (r = Inr () \<longrightarrow> durable (bc_disk b') = cache_view content b))
    \<and> (case flush_range b start count of (r, b') \<Rightarrow> cache_inv content durable b'
      \<and> cache_view content b' = cache_view content b
      \<and> (r = Inr () \<longrightarrow> (\<forall>k. start \<le> k \<and> k < usize_add start count \<longrightarrow>
           content (bc_disk b') k = cache_view content b k \<and> durable (bc_disk b') k = cache_view content b k)))"
proof -
  obtain r1 b1 where 1: "cache_sync b = (r1, b1)" by force
  obtain r2 b2 where 2: "flush_range b start count = (r2, b2)" by force
  show ?thesis
    unfolding 1 2 prod.case using Kor_Cache.sync_law [OF assms 1] flush_range_law [OF assms 2] by simp
qed

definition sample_dirty :: "((usize \<Rightarrow> bytes) \<times> (usize \<Rightarrow> bytes)) block_cache" where
  "sample_dirty = sample_cache
     \<lparr>bc_cache := [(3, \<lparr>cb_block_id = 3, cb_data = [7], cb_dirty = True\<rparr>)], bc_order := [3]\<rparr>"

lemma sample_dirty_write: "write_block_cached sample_cache 3 [7] = (Inr (), sample_dirty)"
  by (simp add: sample_dirty_def sample_cache_def cache_new_def write_block_cached_def cache_insert_def
      evict_if_needed_def ram_disk_def)

lemma sample_dirty_inv: "cache_inv fst snd sample_dirty"
  using write_cached_law [OF sample_cache_inv sample_dirty_write] by simp

lemma sample_dirty_sync: "fst (cache_sync sample_dirty) = Inr ()"
  by (simp add: sample_dirty_def sample_cache_def cache_new_def ram_disk_def cache_sync_def
      write_back_def bt_values_def)

theorem cache_sync_durable_witness:
  "snd (bc_disk (snd (cache_sync (snd (write_block_cached sample_cache 3 [7]))))) 3 = [7]"
proof -
  have "cache_view fst sample_dirty 3 = [7]"
    by (simp add: sample_dirty_def cache_view_def vw_def bt_get_def)
  then show ?thesis
    using cache_sync_durable [OF sample_dirty_inv] sample_dirty_sync unfolding sample_dirty_write snd_conv
    by (cases "cache_sync sample_dirty") simp
qed

text \<open>
  On a device that never fails the cached operations succeed for full blocks, and
  after each of them the cache holds at most \<open>max_blocks\<close> entries.
\<close>

lemma cache_capacity:
  assumes "cache_inv content durable b" "never_fails (bc_device b)"
    and "length (bc_cache b) \<le> bc_max_blocks b" "length buf = bd_block_size (bc_device b)"
  shows "(\<exists>data b'. read_block_cached b k (bd_block_size (bc_device b)) = (Inr data, b')
      \<and> length (bc_cache b') \<le> bc_max_blocks b')
    \<and> (\<exists>b'. write_block_cached b k buf = (Inr (), b') \<and> length (bc_cache b') \<le> bc_max_blocks b')"
proof (intro conjI)
  have wf: "bt_wf (bc_cache b)" and dev: "device_ok (bc_device b) content durable"
    using assms(1) by (simp_all add: cache_inv_def cinv_def)
  have miss: "\<exists>b'. evict_if_needed (cache_insert b k data dirty) = (Inr (), b')
      \<and> length (bc_cache b') \<le> bc_max_blocks b'"
    if "bt_get (bc_cache b) k = None" "length data = bd_block_size (bc_device b)"
      "\<not> dirty \<longrightarrow> data = content (bc_disk b) k" for data dirty
  proof -
    have "never_fails (bc_device (cache_insert b k data dirty))" using assms(2) by (simp add: cache_insert_def)
    from evict_if_needed_total [OF this] obtain b' where
      e: "evict_if_needed (cache_insert b k data dirty) = (Inr (), b')" by blast
    from evict_if_needed_inv(3,5) [OF cache_insert_inv(1) [OF assms(1) that] e] show ?thesis using e by simp
  qed
  show "\<exists>data b'. read_block_cached b k (bd_block_size (bc_device b)) = (Inr data, b')
      \<and> length (bc_cache b') \<le> bc_max_blocks b'"
  proof (cases "bt_get (bc_cache b) k")
    case None
    obtain data where d: "bd_read (bc_device b) (bc_disk b) k (bd_block_size (bc_device b)) = Inr data"
      using assms(2) unfolding never_fails_def by blast
    from miss [OF None, of data False] device_okD(2) [OF dev d]
    show ?thesis using None d by (auto simp: read_block_cached_def)
  qed (use assms(3) in \<open>simp add: read_block_cached_def\<close>)
  show "\<exists>b'. write_block_cached b k buf = (Inr (), b') \<and> length (bc_cache b') \<le> bc_max_blocks b'"
  proof (cases "bt_get (bc_cache b) k")
    case None
    from miss [OF None assms(4), of True] show ?thesis using None assms(4) by (auto simp: write_block_cached_def)
  next
    case (Some e)
    then show ?thesis using assms(3,4) bt_insert_length_hit [OF wf Some] by (simp add: write_block_cached_def)
  qed
qed

text \<open>A disk that pads short blocks and never fails.\<close>

definition pad :: "usize \<Rightarrow> bytes \<Rightarrow> bytes" where
  "pad n b = take n (b @ replicate n 0)"

definition total_disk :: "usize \<Rightarrow> (usize \<Rightarrow> bytes) block_device" where
  "total_disk bs = \<lparr>bd_read = (\<lambda>d k n. Inr (pad n (d k))), bd_write = (\<lambda>d k buf. (Inr (), d(k := buf))),
     bd_flush = (\<lambda>d. (Inr (), d)), bd_block_size = bs, bd_total_blocks = 0\<rparr>"

lemma total_disk_ok:
  "0 < bs \<Longrightarrow> device_ok (total_disk bs) (\<lambda>d k. pad bs (d k)) (\<lambda>d k. pad bs (d k))"
  by (auto simp: device_ok_def total_disk_def pad_def fun_eq_iff)

lemma cache_capacity_witness:
  "\<exists>b'. write_block_cached (cache_new (total_disk 2) (\<lambda>_. []) 1) 5 [1, 2] = (Inr (), b')
     \<and> length (bc_cache b') \<le> bc_max_blocks b'"
proof -
  let ?b = "cache_new (total_disk 2) (\<lambda>_. []) 1"
  have "cache_inv (\<lambda>d k. pad 2 (d k)) (\<lambda>d k. pad 2 (d k)) ?b"
    using total_disk_ok [of 2] by (simp add: cache_new_def cache_inv_def cinv_def total_disk_def)
  moreover have "never_fails (bc_device ?b)" by (simp add: cache_new_def total_disk_def never_fails_def)
  ultimately show ?thesis
    using cache_capacity [where b = ?b and buf = "[1, 2]" and k = 5] by (simp add: cache_new_def total_disk_def)
qed

end
