(* ===== verification/Kor_RamFs.thy ===== *)
theory Kor_RamFs
  imports Kor_Vfs
begin

text \<open>
  The in-memory file system, \<^verbatim>\<open>filesystems/kor-ramfs/src/lib.rs\<close>.  Nodes live in a store
  indexed by node identity (the address an \<^verbatim>\<open>Arc\<close> points to); directory entries and parent
  links are identities.  \<open>rf_dead\<close> holds the nodes whose last strong reference is gone, to
  which a \<^verbatim>\<open>Weak\<close> no longer upgrades: \<open>ram_drop\<close> is the step by which the owner of the last
  handle lets go of a node no live directory lists.
\<close>

section \<open>State\<close>

type_synonym nid = nat

record ram_inode =
  ri_ino :: u32
  ri_file_type :: file_type
  ri_content :: bytes
  ri_children :: "(string, nid) btree"
  ri_metadata :: metadata
  ri_self_ref :: "nid option"
  ri_parent :: "nid option"

record ram_fs =
  rf_node :: "nid \<Rightarrow> ram_inode"
  rf_next :: nid
  rf_next_ino :: u32
  rf_root :: nid
  rf_dead :: "nid set"

text \<open>The argument of \<open>link\<close> and \<open>rename\<close>: a node of this file system, or one of another type.\<close>

datatype inode_ref = RamRef nid | ForeignRef

definition new_meta :: "usize \<Rightarrow> u32 \<Rightarrow> file_type \<Rightarrow> metadata" where
  "new_meta sz mode ft = \<lparr>md_size = sz, md_mode = mode, md_uid = 0, md_gid = 0,
     md_atime = 0, md_mtime = 0, md_ctime = 0, md_file_type = ft\<rparr>"

section \<open>Constructors\<close>

definition alloc_node :: "ram_fs \<Rightarrow> ram_inode \<Rightarrow> nid \<times> ram_fs" where
  "alloc_node fs i =
     (rf_next fs, fs\<lparr>rf_node := (rf_node fs)(rf_next fs :=
                     i\<lparr>ri_ino := rf_next_ino fs, ri_self_ref := Some (rf_next fs)\<rparr>),
                    rf_next := Suc (rf_next fs), rf_next_ino := rf_next_ino fs + 1\<rparr>)"

definition new_dir :: "ram_fs \<Rightarrow> nid option \<Rightarrow> u32 \<Rightarrow> nid \<times> ram_fs" where
  "new_dir fs parent mode =
     alloc_node fs \<lparr>ri_ino = 0, ri_file_type = Directory, ri_content = [], ri_children = [],
       ri_metadata = new_meta 0 mode Directory, ri_self_ref = None, ri_parent = parent\<rparr>"

definition new_file :: "ram_fs \<Rightarrow> nid \<Rightarrow> u32 \<Rightarrow> nid \<times> ram_fs" where
  "new_file fs parent mode =
     alloc_node fs \<lparr>ri_ino = 0, ri_file_type = Regular, ri_content = [], ri_children = [],
       ri_metadata = new_meta 0 mode Regular, ri_self_ref = None, ri_parent = Some parent\<rparr>"

definition new_symlink :: "ram_fs \<Rightarrow> nid \<Rightarrow> string \<Rightarrow> nid \<times> ram_fs" where
  "new_symlink fs parent target =
     alloc_node fs \<lparr>ri_ino = 0, ri_file_type = Symlink, ri_content = str_bytes target, ri_children = [],
       ri_metadata = new_meta (length target) 0x1FF Symlink, ri_self_ref = None, ri_parent = Some parent\<rparr>"

text \<open>\<^verbatim>\<open>Weak::upgrade\<close>.\<close>

definition upgrade :: "ram_fs \<Rightarrow> nid \<Rightarrow> nid option" where
  "upgrade fs w = (if w \<in> rf_dead fs then None else Some w)"

definition self_inode :: "ram_fs \<Rightarrow> nid \<Rightarrow> nid fsres" where
  "self_inode fs n = ok_or (Option.bind (ri_self_ref (rf_node fs n)) (upgrade fs)) (FsErr IoError)"

definition is_dir :: "ram_fs \<Rightarrow> nid \<Rightarrow> bool" where
  "is_dir fs n \<longleftrightarrow> ri_file_type (rf_node fs n) = Directory"

definition children :: "ram_fs \<Rightarrow> nid \<Rightarrow> (string, nid) btree" where
  "children fs n = ri_children (rf_node fs n)"

definition set_children :: "ram_fs \<Rightarrow> nid \<Rightarrow> (string, nid) btree \<Rightarrow> ram_fs" where
  "set_children fs n t = fs\<lparr>rf_node := (rf_node fs)(n := (rf_node fs n)\<lparr>ri_children := t\<rparr>)\<rparr>"

section \<open>The inode operations\<close>

definition ISIZE_MAX :: nat where "ISIZE_MAX = 2 ^ 63 - 1"

definition ram_read_at :: "ram_fs \<Rightarrow> nid \<Rightarrow> usize \<Rightarrow> usize \<Rightarrow> bytes fsres" where
  "ram_read_at fs n off buf_len =
     bnd (ensure (ri_file_type (rf_node fs n) = Regular) InvalidInput) (\<lambda>_.
     let content = ri_content (rf_node fs n) in
     if off \<ge> length content then Inr []
     else
       let stop = min (usize_add off buf_len) (length content) in
       if stop < off then Inl (Crash (Panic ''slice index''))
       else Inr (take (stop - off) (drop off content)))"

definition ram_write_at :: "ram_fs \<Rightarrow> nid \<Rightarrow> usize \<Rightarrow> bytes \<Rightarrow> (usize \<times> ram_fs) fsres" where
  "ram_write_at fs n off buf =
     bnd (ensure (ri_file_type (rf_node fs n) = Regular) InvalidInput) (\<lambda>_.
     let content = ri_content (rf_node fs n);
         stop = usize_add off (length buf) in
     if stop > length content \<and> stop > ISIZE_MAX then Inl (Crash (Panic ''capacity overflow''))
     else
       let content = (if stop > length content then content @ replicate (stop - length content) 0
                      else content) in
       if stop < off then Inl (Crash (Panic ''slice index''))
       else
         let content = take off content @ buf @ drop stop content;
             i = rf_node fs n;
             i = i\<lparr>ri_content := content, ri_metadata := (ri_metadata i)\<lparr>md_size := length content\<rparr>\<rparr> in
         Inr (length buf, fs\<lparr>rf_node := (rf_node fs)(n := i)\<rparr>))"

definition ram_lookup :: "ram_fs \<Rightarrow> nid \<Rightarrow> string \<Rightarrow> nid fsres" where
  "ram_lookup fs n name =
     bnd (ensure (is_dir fs n) NotDirectory) (\<lambda>_.
     if name = ''.'' then self_inode fs n
     else if name = ''..'' then
       (case ri_parent (rf_node fs n) of
          Some w \<Rightarrow> ok_or (upgrade fs w) (FsErr IoError)
        | None \<Rightarrow> self_inode fs n)
     else ok_or (bt_get (children fs n) name) (FsErr NotFound))"

text \<open>The common tail of \<open>create\<close>, \<open>mkdir\<close> and \<open>symlink\<close>: insert the fresh child.\<close>

definition add_child :: "nid \<Rightarrow> string \<Rightarrow> nid \<times> ram_fs \<Rightarrow> nid \<times> ram_fs" where
  "add_child n name cf = (case cf of (c, fs) \<Rightarrow> (c, set_children fs n (bt_insert name c (children fs n))))"

definition ram_create :: "ram_fs \<Rightarrow> nid \<Rightarrow> string \<Rightarrow> file_type \<Rightarrow> u32 \<Rightarrow> (nid \<times> ram_fs) fsres" where
  "ram_create fs n name ft mode =
     bnd (ensure (is_dir fs n) NotDirectory) (\<lambda>_.
     bnd (ok_or (ri_self_ref (rf_node fs n)) (FsErr IoError)) (\<lambda>self_weak.
     bnd (ensure (\<not> bt_contains (children fs n) name) AlreadyExists) (\<lambda>_.
     case ft of
       Regular \<Rightarrow> Inr (add_child n name (new_file fs self_weak mode))
     | Directory \<Rightarrow> Inr (add_child n name (new_dir fs (Some self_weak) mode))
     | _ \<Rightarrow> Inl (FsErr InvalidInput))))"

definition ram_unlink :: "ram_fs \<Rightarrow> nid \<Rightarrow> string \<Rightarrow> ram_fs fsres" where
  "ram_unlink fs n name =
     bnd (ensure (is_dir fs n) NotDirectory) (\<lambda>_.
     bnd (ok_or (bt_get (children fs n) name) (FsErr NotFound)) (\<lambda>child.
     bnd (ensure (\<not> is_dir fs child) IsDirectory) (\<lambda>_.
     Inr (set_children fs n (bt_remove name (children fs n))))))"

definition ram_mkdir :: "ram_fs \<Rightarrow> nid \<Rightarrow> string \<Rightarrow> u32 \<Rightarrow> (nid \<times> ram_fs) fsres" where
  "ram_mkdir fs n name mode =
     bnd (ensure (is_dir fs n) NotDirectory) (\<lambda>_.
     bnd (ok_or (ri_self_ref (rf_node fs n)) (FsErr IoError)) (\<lambda>self_weak.
     bnd (ensure (\<not> bt_contains (children fs n) name) AlreadyExists) (\<lambda>_.
     Inr (add_child n name (new_dir fs (Some self_weak) mode)))))"

text \<open>
  \<open>child.children.lock().is_empty()\<close> while the children lock of \<open>held\<close> is taken: the lock is
  not reentrant, so a directory listed in itself makes the caller spin for ever.
\<close>

definition locked_empty :: "ram_fs \<Rightarrow> nid \<Rightarrow> nid \<Rightarrow> bool fsres" where
  "locked_empty fs held m = (if m = held then Inl (Crash Deadlock) else Inr (children fs m = []))"

definition ram_rmdir :: "ram_fs \<Rightarrow> nid \<Rightarrow> string \<Rightarrow> ram_fs fsres" where
  "ram_rmdir fs n name =
     bnd (ensure (is_dir fs n) NotDirectory) (\<lambda>_.
     bnd (ok_or (bt_get (children fs n) name) (FsErr NotFound)) (\<lambda>child.
     bnd (ensure (is_dir fs child) NotDirectory) (\<lambda>_.
     bnd (locked_empty fs n child) (\<lambda>empty.
     bnd (ensure empty NotEmpty) (\<lambda>_.
     Inr (set_children fs n (bt_remove name (children fs n))))))))"

definition ram_getattr :: "ram_fs \<Rightarrow> nid \<Rightarrow> metadata fsres" where
  "ram_getattr fs n = Inr (ri_metadata (rf_node fs n))"

definition ram_setattr :: "ram_fs \<Rightarrow> nid \<Rightarrow> metadata \<Rightarrow> ram_fs fsres" where
  "ram_setattr fs n md =
     Inr (fs\<lparr>rf_node := (rf_node fs)(n := (rf_node fs n)\<lparr>ri_metadata := md\<rparr>)\<rparr>)"

definition ram_list :: "ram_fs \<Rightarrow> nid \<Rightarrow> (string \<times> u32) list fsres" where
  "ram_list fs n =
     bnd (ensure (is_dir fs n) NotDirectory) (\<lambda>_.
     Inr (map (\<lambda>(name, c). (name, ri_ino (rf_node fs c))) (children fs n)))"

definition ram_symlink :: "ram_fs \<Rightarrow> nid \<Rightarrow> string \<Rightarrow> string \<Rightarrow> (nid \<times> ram_fs) fsres" where
  "ram_symlink fs n name target =
     bnd (ensure (is_dir fs n) NotDirectory) (\<lambda>_.
     bnd (ok_or (ri_self_ref (rf_node fs n)) (FsErr IoError)) (\<lambda>self_weak.
     bnd (ensure (\<not> bt_contains (children fs n) name) AlreadyExists) (\<lambda>_.
     Inr (add_child n name (new_symlink fs self_weak target)))))"

definition ram_link :: "ram_fs \<Rightarrow> nid \<Rightarrow> string \<Rightarrow> inode_ref \<Rightarrow> ram_fs fsres" where
  "ram_link fs n name tgt =
     bnd (ensure (is_dir fs n) NotDirectory) (\<lambda>_.
     case tgt of
       ForeignRef \<Rightarrow> Inl (FsErr InvalidInput)
     | RamRef t \<Rightarrow>
         bnd (ensure (\<not> is_dir fs t) IsDirectory) (\<lambda>_.
         bnd (self_inode fs t) (\<lambda>target.
         bnd (ensure (\<not> bt_contains (children fs n) name) AlreadyExists) (\<lambda>_.
         Inr (set_children fs n (bt_insert name target (children fs n)))))))"

definition set_parent :: "ram_fs \<Rightarrow> nid \<Rightarrow> nid \<Rightarrow> ram_fs" where
  "set_parent fs c p = fs\<lparr>rf_node := (rf_node fs)(c := (rf_node fs c)\<lparr>ri_parent := Some p\<rparr>)\<rparr>"

definition ram_rename :: "ram_fs \<Rightarrow> nid \<Rightarrow> string \<Rightarrow> inode_ref \<Rightarrow> string \<Rightarrow> ram_fs fsres" where
  "ram_rename fs n old_name new_parent new_name =
     bnd (ensure (is_dir fs n) NotDirectory) (\<lambda>_.
     case new_parent of
       ForeignRef \<Rightarrow> Inl (FsErr InvalidInput)
     | RamRef np \<Rightarrow>
         bnd (ensure (is_dir fs np) NotDirectory) (\<lambda>_.
         bnd (ok_or (bt_get (children fs n) old_name) (FsErr NotFound)) (\<lambda>child.
         bnd (case bt_get (children fs np) new_name of
                Some existing \<Rightarrow>
                  if is_dir fs existing
                  then bnd (locked_empty fs np existing) (\<lambda>empty. ensure empty NotEmpty)
                  else Inr ()
              | None \<Rightarrow> Inr ()) (\<lambda>_.
         let fs1 =
           (if n \<noteq> np then
              let g = set_children fs np (bt_insert new_name child (children fs np)) in
              set_children g n (bt_remove old_name (children g n))
            else
              let g = set_children fs n (bt_remove old_name (children fs n)) in
              set_children g n (bt_insert new_name child (children g n))) in
         if is_dir fs1 child then
           bnd (ok_or (ri_self_ref (rf_node fs1 np)) (FsErr IoError)) (\<lambda>w.
           Inr (set_parent fs1 child w))
         else Inr fs1))))"

definition ram_readlink :: "ram_fs \<Rightarrow> nid \<Rightarrow> string fsres" where
  "ram_readlink fs n =
     bnd (ensure (ri_file_type (rf_node fs n) = Symlink) InvalidInput) (\<lambda>_.
     let content = ri_content (rf_node fs n) in
     if utf8_valid content then Inr (bytes_str content) else Inl (FsErr IoError))"

section \<open>The super block\<close>

definition ram_new :: "u32 \<Rightarrow> ram_fs" where
  "ram_new next_ino = snd (new_dir
     \<lparr>rf_node = (\<lambda>_. \<lparr>ri_ino = 0, ri_file_type = Socket, ri_content = [], ri_children = [],
        ri_metadata = new_meta 0 0 Socket, ri_self_ref = None, ri_parent = None\<rparr>),
      rf_next = 0, rf_next_ino = next_ino, rf_root = 0, rf_dead = {}\<rparr> None 0x1ED)"

definition ram_info :: "ram_fs \<Rightarrow> fs_info" where
  "ram_info fs = \<lparr>total_blocks = 0, free_blocks = 0, total_inodes = unat (rf_next_ino fs),
     free_inodes = 0, fi_block_size = 4096\<rparr>"

definition ram_drop :: "ram_fs \<Rightarrow> nid \<Rightarrow> ram_fs" where
  "ram_drop fs n =
     (if n < rf_next fs \<and> n \<noteq> rf_root fs \<and> (\<forall>m < rf_next fs. m \<notin> rf_dead fs \<longrightarrow> n \<notin> snd ` set (children fs m))
      then fs\<lparr>rf_dead := insert n (rf_dead fs)\<rparr> else fs)"

section \<open>Invariant\<close>

definition live :: "ram_fs \<Rightarrow> nid \<Rightarrow> bool" where
  "live fs n \<longleftrightarrow> n < rf_next fs \<and> n \<notin> rf_dead fs"

definition parent_of :: "ram_fs \<Rightarrow> nid \<Rightarrow> nid option" where
  "parent_of fs n = ri_parent (rf_node fs n)"

abbreviation entry :: "ram_fs \<Rightarrow> nid \<Rightarrow> string \<Rightarrow> nid option" where
  "entry fs n name \<equiv> bt_get (children fs n) name"

definition ram_inv :: "ram_fs \<Rightarrow> bool" where
  "ram_inv fs \<longleftrightarrow> rf_dead fs \<subseteq> {..<rf_next fs}
   \<and> live fs (rf_root fs) \<and> is_dir fs (rf_root fs) \<and> parent_of fs (rf_root fs) = None
   \<and> (\<forall>n < rf_next fs. ri_self_ref (rf_node fs n) = Some n \<and> bt_wf (children fs n)
        \<and> (\<not> is_dir fs n \<longrightarrow> children fs n = []))
   \<and> (\<forall>n name c. live fs n \<longrightarrow> entry fs n name = Some c \<longrightarrow>
        live fs c \<and> c \<noteq> rf_root fs \<and> (is_dir fs c \<longrightarrow> parent_of fs c = Some n))
   \<and> (\<forall>n name name' c. live fs n \<longrightarrow> entry fs n name = Some c \<longrightarrow> entry fs n name' = Some c \<longrightarrow>
        is_dir fs c \<longrightarrow> name = name')"

lemma ram_inv_dead: "ram_inv fs \<Longrightarrow> rf_next fs \<notin> rf_dead fs"
  by (auto simp: ram_inv_def)

lemma ram_invD:
  assumes "ram_inv fs"
  shows "live fs (rf_root fs)" "is_dir fs (rf_root fs)" "parent_of fs (rf_root fs) = None"
    and "n < rf_next fs \<Longrightarrow> ri_self_ref (rf_node fs n) = Some n"
    and "n < rf_next fs \<Longrightarrow> bt_wf (children fs n)"
    and "\<lbrakk>n < rf_next fs; \<not> is_dir fs n\<rbrakk> \<Longrightarrow> children fs n = []"
    and "\<lbrakk>live fs n; entry fs n name = Some c\<rbrakk> \<Longrightarrow> live fs c \<and> c \<noteq> rf_root fs"
    and "\<lbrakk>live fs n; entry fs n name = Some c; is_dir fs c\<rbrakk> \<Longrightarrow> parent_of fs c = Some n"
    and "\<lbrakk>live fs n; entry fs n name = Some c; entry fs n name' = Some c; is_dir fs c\<rbrakk> \<Longrightarrow> name = name'"
  using assms unfolding ram_inv_def by blast+

lemma set_children_simps [simp]:
  "children (set_children fs n t) m = (if m = n then t else children fs m)"
  "is_dir (set_children fs n t) m = is_dir fs m"
  "parent_of (set_children fs n t) m = parent_of fs m"
  "live (set_children fs n t) m = live fs m"
  "ri_self_ref (rf_node (set_children fs n t) m) = ri_self_ref (rf_node fs m)"
  "rf_root (set_children fs n t) = rf_root fs" "rf_next (set_children fs n t) = rf_next fs"
  "rf_dead (set_children fs n t) = rf_dead fs"
  by (simp_all add: set_children_def children_def is_dir_def parent_of_def live_def)

lemma set_parent_simps [simp]:
  "children (set_parent fs c p) m = children fs m"
  "is_dir (set_parent fs c p) m = is_dir fs m"
  "parent_of (set_parent fs c p) m = (if m = c then Some p else parent_of fs m)"
  "live (set_parent fs c p) m = live fs m"
  "ri_self_ref (rf_node (set_parent fs c p) m) = ri_self_ref (rf_node fs m)"
  "rf_root (set_parent fs c p) = rf_root fs" "rf_next (set_parent fs c p) = rf_next fs"
  "rf_dead (set_parent fs c p) = rf_dead fs"
  by (simp_all add: set_parent_def children_def is_dir_def parent_of_def live_def)

text \<open>Four ways a directory changes.\<close>

lemma remove_entry_inv:
  assumes "ram_inv fs"
  shows "ram_inv (set_children fs n (bt_remove name (children fs n)))"
  using assms unfolding ram_inv_def by simp

lemma link_entry_inv:
  assumes "ram_inv fs" "live fs n" "is_dir fs n" "live fs t" "\<not> is_dir fs t"
  shows "ram_inv (set_children fs n (bt_insert name t (children fs n)))"
proof -
  have "t \<noteq> rf_root fs" using ram_invD(2) [OF assms(1)] assms(5) by auto
  then show ?thesis using assms unfolding ram_inv_def by simp
qed

definition with_new :: "ram_fs \<Rightarrow> nid \<Rightarrow> string \<Rightarrow> ram_inode \<Rightarrow> ram_fs" where
  "with_new fs n name i = snd (add_child n name (alloc_node fs i))"

lemma add_child_alloc: "add_child n name (alloc_node fs i) = (rf_next fs, with_new fs n name i)"
  by (simp add: with_new_def add_child_def alloc_node_def)

lemma with_new_simps:
  assumes "n < rf_next fs" "ri_children i = []"
  shows "children (with_new fs n name i) m = (if m = n then bt_insert name (rf_next fs) (children fs n)
      else if m = rf_next fs then [] else children fs m)"
    and "is_dir (with_new fs n name i) m = (if m = rf_next fs then ri_file_type i = Directory else is_dir fs m)"
    and "parent_of (with_new fs n name i) m = (if m = rf_next fs then ri_parent i else parent_of fs m)"
    and "live (with_new fs n name i) m \<longleftrightarrow> live fs m \<or> m = rf_next fs \<and> m \<notin> rf_dead fs"
    and "ri_self_ref (rf_node (with_new fs n name i) m) =
      (if m = rf_next fs then Some m else ri_self_ref (rf_node fs m))"
    and "rf_root (with_new fs n name i) = rf_root fs" "rf_next (with_new fs n name i) = Suc (rf_next fs)"
    and "rf_dead (with_new fs n name i) = rf_dead fs"
  using assms
  by (auto simp: with_new_def add_child_def alloc_node_def set_children_def children_def is_dir_def
      parent_of_def live_def)

lemma new_entry_inv:
  assumes inv: "ram_inv fs" and n: "live fs n" "is_dir fs n" and fresh: "entry fs n name = None"
    and i: "ri_children i = []" "ri_file_type i = Directory \<longrightarrow> ri_parent i = Some n"
  shows "ram_inv (with_new fs n name i)"
proof -
  have lt: "n < rf_next fs" using n(1) by (simp add: live_def)
  note w = with_new_simps [OF lt i(1)]
  let ?g = "with_new fs n name i" and ?c = "rf_next fs"
  have dead: "?c \<notin> rf_dead fs" "rf_dead ?g = rf_dead fs"
    using ram_inv_dead [OF inv] by (simp_all add: with_new_def add_child_def alloc_node_def set_children_def)
  have liveD: "m < ?c" if "live fs m" for m using that by (simp add: live_def)
  have root: "rf_root fs < ?c" using ram_invD(1) [OF inv] by (simp add: live_def)
  have old: "live fs c \<and> c \<noteq> rf_root fs \<and> c \<noteq> ?c" if "live fs m" "entry fs m nm = Some c" for m nm c
    using ram_invD(7) [OF inv that] by (auto simp: live_def)
  have ent: "m = n \<and> nm = name \<and> c = ?c \<or> live fs m \<and> m \<noteq> ?c \<and> entry fs m nm = Some c \<and> c \<noteq> ?c"
    if "live ?g m" "entry ?g m nm = Some c" for m nm c
    using that lt old [of m nm c] liveD [of m] by (auto simp: w split: if_splits)
  have A: "live ?g c \<and> c \<noteq> rf_root ?g \<and> (is_dir ?g c \<longrightarrow> parent_of ?g c = Some m)"
    if "live ?g m" "entry ?g m nm = Some c" for m nm c
    using ent [OF that]
  proof (elim disjE conjE)
    assume "m = n" "c = ?c"
    then show ?thesis using dead(1) root i(2) by (simp add: w)
  next
    assume "live fs m" "entry fs m nm = Some c" "c \<noteq> ?c"
    then show ?thesis using old ram_invD(8) [OF inv] by (simp add: w)
  qed
  have B: "nm = nm'" if "live ?g m" "entry ?g m nm = Some c" "entry ?g m nm' = Some c" "is_dir ?g c" for m nm nm' c
    using ent [OF that(1,2)] ent [OF that(1,3)] ram_invD(9) [OF inv] that(4) by (auto simp: w)
  have C: "ri_self_ref (rf_node ?g m) = Some m \<and> bt_wf (children ?g m)
      \<and> (\<not> is_dir ?g m \<longrightarrow> children ?g m = [])" if "m < rf_next ?g" for m
    using that ram_invD(4-6) [OF inv] lt n(2) by (auto simp: w less_Suc_eq)
  have "rf_dead ?g \<subseteq> {..<rf_next ?g}" using inv dead by (auto simp: w ram_inv_def)
  moreover have "live ?g (rf_root ?g)" "is_dir ?g (rf_root ?g)" "parent_of ?g (rf_root ?g) = None"
    using ram_invD(1-3) [OF inv] root by (simp_all add: w)
  ultimately show ?thesis unfolding ram_inv_def using A B C by blast
qed

text \<open>Moving the entry \<open>(n, old)\<close> to \<open>(np, new)\<close>.\<close>

definition moved :: "ram_fs \<Rightarrow> nid \<Rightarrow> string \<Rightarrow> nid \<Rightarrow> string \<Rightarrow> nid \<Rightarrow> ram_fs" where
  "moved fs n old np new c =
     (let g = set_children fs n (bt_remove old (children fs n));
          g = set_children g np (bt_insert new c (children g np)) in
      if is_dir fs c then set_parent g c np else g)"

lemma moved_simps:
  shows "is_dir (moved fs n old np new c) m = is_dir fs m"
    and "live (moved fs n old np new c) m = live fs m"
    and "ri_self_ref (rf_node (moved fs n old np new c) m) = ri_self_ref (rf_node fs m)"
    and "rf_root (moved fs n old np new c) = rf_root fs" "rf_next (moved fs n old np new c) = rf_next fs"
    and "rf_dead (moved fs n old np new c) = rf_dead fs"
    and "parent_of (moved fs n old np new c) m = (if m = c \<and> is_dir fs c then Some np else parent_of fs m)"
    and "entry (moved fs n old np new c) m nm = (if m = np \<and> nm = new then Some c
      else if m = n \<and> nm = old then None else entry fs m nm)"
  by (simp_all add: moved_def Let_def)

lemma moved_inv:
  assumes inv: "ram_inv fs" and n: "live fs n" "is_dir fs n" and np: "live fs np" "is_dir fs np"
    and c: "entry fs n old = Some c"
  shows "ram_inv (moved fs n old np new c)"
proof -
  let ?g = "moved fs n old np new c"
  note m = moved_simps
  have cl: "live fs c" "c \<noteq> rf_root fs" using ram_invD(7) [OF inv n(1) c] by simp_all
  have only: "x = n \<and> nm = old" if "live fs x" "entry fs x nm = Some c" "is_dir fs c" for x nm
    using ram_invD(8) [OF inv that] ram_invD(8) [OF inv n(1) c that(3)] ram_invD(9) [OF inv] that c by auto
  have wf: "bt_wf (children ?g x)" if "x < rf_next fs" for x
    using ram_invD(5) [OF inv] that by (simp add: moved_def Let_def)
  have emp: "children ?g x = []" if "x < rf_next fs" "\<not> is_dir fs x" for x
    using ram_invD(6) [OF inv that] that n(2) np(2) by (auto simp: moved_def Let_def)
  have ent: "x = np \<and> nm = new \<and> d = c \<or> entry fs x nm = Some d \<and> \<not> (x = n \<and> nm = old)"
    if "entry ?g x nm = Some d" for x nm d using that by (auto simp: m split: if_splits)
  have A: "live ?g d \<and> d \<noteq> rf_root ?g \<and> (is_dir ?g d \<longrightarrow> parent_of ?g d = Some x)"
    if "live ?g x" "entry ?g x nm = Some d" for x nm d
    using ent [OF that(2)]
  proof (elim disjE conjE)
    assume "x = np" "d = c"
    then show ?thesis using cl by (simp add: m)
  next
    assume d: "entry fs x nm = Some d" "\<not> (x = n \<and> nm = old)"
    have x: "live fs x" using that(1) by (simp add: m)
    have "\<not> (d = c \<and> is_dir fs c)" using only [OF x] d by blast
    then show ?thesis using ram_invD(7,8) [OF inv x d(1)] by (auto simp: m)
  qed
  have B: "nm = nm'" if "live ?g x" "entry ?g x nm = Some d" "entry ?g x nm' = Some d" "is_dir ?g d" for x nm nm' d
  proof -
    have x: "live fs x" "is_dir fs d" using that(1,4) by (simp_all add: m)
    show ?thesis using ent [OF that(2)] ent [OF that(3)] only [OF x(1)] ram_invD(9) [OF inv x(1)] x(2) by blast
  qed
  have C: "ri_self_ref (rf_node ?g x) = Some x \<and> bt_wf (children ?g x)
      \<and> (\<not> is_dir ?g x \<longrightarrow> children ?g x = [])" if "x < rf_next ?g" for x
    using that ram_invD(4) [OF inv] wf emp by (simp add: m)
  have "rf_dead ?g \<subseteq> {..<rf_next ?g}" using inv by (simp add: m ram_inv_def)
  moreover have "live ?g (rf_root ?g)" "is_dir ?g (rf_root ?g)" "parent_of ?g (rf_root ?g) = None"
    using ram_invD(1-3) [OF inv] cl by (simp_all add: m)
  ultimately show ?thesis unfolding ram_inv_def using A B C by blast
qed

lemma set_children_twist:
  "a \<noteq> b \<Longrightarrow> set_children (set_children fs a s) b t = set_children (set_children fs b t) a s"
  by (simp add: set_children_def fun_upd_twist)

lemma ram_rename_Inr:
  assumes inv: "ram_inv fs" and live: "live fs n" "live fs np"
  shows "ram_rename fs n old (RamRef np) new = Inr fs' \<longleftrightarrow>
    is_dir fs n \<and> is_dir fs np \<and> (\<exists>c. entry fs n old = Some c \<and> fs' = moved fs n old np new c)
    \<and> (\<forall>e. entry fs np new = Some e \<longrightarrow> is_dir fs e \<longrightarrow> e \<noteq> np \<and> children fs e = [])"
proof -
  define mv where "mv c =
     (if n \<noteq> np then
        let g = set_children fs np (bt_insert new c (children fs np)) in
        set_children g n (bt_remove old (children g n))
      else
        let g = set_children fs n (bt_remove old (children fs n)) in
        set_children g n (bt_insert new c (children g n)))" for c
  have mv: "mv c = set_children (set_children fs n (bt_remove old (children fs n))) np
      (bt_insert new c (children (set_children fs n (bt_remove old (children fs n))) np))" for c
    by (simp add: mv_def set_children_twist [of n np])
  have self: "ri_self_ref (rf_node (mv c) np) = Some np" for c
    using ram_invD(4) [OF inv, of np] live(2) by (simp add: mv live_def)
  have fin: "(if is_dir (mv c) c then bnd (ok_or (ri_self_ref (rf_node (mv c) np)) (FsErr IoError))
      (\<lambda>w. Inr (set_parent (mv c) c w)) else Inr (mv c)) = Inr (moved fs n old np new c)" for c
    unfolding self by (simp add: moved_def mv Let_def)
  show ?thesis
    unfolding ram_rename_def mv_def [symmetric] Let_def [of "mv _"] inode_ref.case fin
    by (auto simp: run_simps locked_empty_def split: option.splits if_splits)
qed

lemma node_upd_inv:
  assumes "ram_inv fs" "ri_file_type i = ri_file_type (rf_node fs n)" "ri_children i = ri_children (rf_node fs n)"
    "ri_self_ref i = ri_self_ref (rf_node fs n)" "ri_parent i = ri_parent (rf_node fs n)"
  shows "ram_inv (fs\<lparr>rf_node := (rf_node fs)(n := i)\<rparr>)"
proof -
  let ?g = "fs\<lparr>rf_node := (rf_node fs)(n := i)\<rparr>"
  have "children ?g = children fs" "is_dir ?g = is_dir fs" "parent_of ?g = parent_of fs"
    "live ?g = live fs" "\<And>m. ri_self_ref (rf_node ?g m) = ri_self_ref (rf_node fs m)"
    using assms(2-5) by (auto simp: children_def is_dir_def parent_of_def live_def fun_eq_iff)
  then show ?thesis using assms(1) by (simp add: ram_inv_def)
qed

lemma ram_create_Inr:
  assumes "ram_inv fs" "live fs n"
  shows "ram_create fs n name ft mode = Inr (c, fs') \<longleftrightarrow>
    is_dir fs n \<and> entry fs n name = None \<and> (ft = Regular \<or> ft = Directory) \<and> c = rf_next fs
    \<and> fs' = snd (add_child n name (if ft = Regular then new_file fs n mode else new_dir fs (Some n) mode))"
proof -
  have "ri_self_ref (rf_node fs n) = Some n" using ram_invD(4) [OF assms(1)] assms(2) by (simp add: live_def)
  then show ?thesis
    by (cases ft) (auto simp: ram_create_def run_simps new_file_def new_dir_def add_child_alloc)
qed

lemma ram_mkdir_create: "ram_mkdir fs n name mode = ram_create fs n name Directory mode"
  by (simp add: ram_mkdir_def ram_create_def)

section \<open>Reachable file systems\<close>

inductive ram_reach :: "ram_fs \<Rightarrow> bool" where
  new: "ram_reach (ram_new ino)"
| create: "\<lbrakk>ram_reach fs; live fs n; ram_create fs n name ft mode = Inr (c, fs')\<rbrakk> \<Longrightarrow> ram_reach fs'"
| mkdir: "\<lbrakk>ram_reach fs; live fs n; ram_mkdir fs n name mode = Inr (c, fs')\<rbrakk> \<Longrightarrow> ram_reach fs'"
| symlink: "\<lbrakk>ram_reach fs; live fs n; ram_symlink fs n name target = Inr (c, fs')\<rbrakk> \<Longrightarrow> ram_reach fs'"
| unlink: "\<lbrakk>ram_reach fs; live fs n; ram_unlink fs n name = Inr fs'\<rbrakk> \<Longrightarrow> ram_reach fs'"
| rmdir: "\<lbrakk>ram_reach fs; live fs n; ram_rmdir fs n name = Inr fs'\<rbrakk> \<Longrightarrow> ram_reach fs'"
| link: "\<lbrakk>ram_reach fs; live fs n; live fs t; ram_link fs n name (RamRef t) = Inr fs'\<rbrakk> \<Longrightarrow> ram_reach fs'"
| rename: "\<lbrakk>ram_reach fs; live fs n; live fs np; ram_rename fs n old (RamRef np) new = Inr fs'\<rbrakk>
    \<Longrightarrow> ram_reach fs'"
| write_at: "\<lbrakk>ram_reach fs; live fs n; ram_write_at fs n off buf = Inr (k, fs')\<rbrakk> \<Longrightarrow> ram_reach fs'"
| setattr: "\<lbrakk>ram_reach fs; live fs n; ram_setattr fs n md = Inr fs'\<rbrakk> \<Longrightarrow> ram_reach fs'"
| drop: "ram_reach fs \<Longrightarrow> ram_reach (ram_drop fs n)"

lemma ram_new_inv: "ram_inv (ram_new ino)"
  by (simp add: ram_inv_def ram_new_def new_dir_def alloc_node_def live_def is_dir_def parent_of_def
      children_def)

lemma ram_drop_inv:
  assumes "ram_inv fs"
  shows "ram_inv (ram_drop fs n)"
proof (cases "n < rf_next fs \<and> n \<noteq> rf_root fs \<and>
    (\<forall>m < rf_next fs. m \<notin> rf_dead fs \<longrightarrow> n \<notin> snd ` set (children fs m))")
  case False
  show ?thesis unfolding ram_drop_def if_not_P [OF False] by (rule assms)
next
  case True
  let ?g = "fs\<lparr>rf_dead := insert n (rf_dead fs)\<rparr>"
  have g: "ram_drop fs n = ?g" using True unfolding ram_drop_def by simp
  have same: "children ?g = children fs" "is_dir ?g = is_dir fs" "parent_of ?g = parent_of fs"
    "\<And>m. live ?g m \<longleftrightarrow> live fs m \<and> m \<noteq> n"
    by (auto simp: children_def is_dir_def parent_of_def live_def fun_eq_iff)
  have "c \<noteq> n" if "live fs m" "entry fs m nm = Some c" for m nm c
  proof -
    have "(nm, c) \<in> set (children fs m)" using that(2) by (simp add: bt_get_def map_of_SomeD)
    then have "c \<in> snd ` set (children fs m)" by force
    then show ?thesis using True that(1) by (auto simp: live_def)
  qed
  then show ?thesis using assms True unfolding g ram_inv_def same by auto
qed

lemma ram_reach_inv: "ram_reach fs \<Longrightarrow> ram_inv fs"
proof (induction rule: ram_reach.induct)
  case (new ino)
  show ?case by (rule ram_new_inv)
next
  case (create fs n name ft mode c fs')
  then show ?case
    by (auto simp: ram_create_Inr new_file_def new_dir_def add_child_alloc
        intro!: new_entry_inv split: if_splits)
next
  case (mkdir fs n name mode c fs')
  then show ?case
    by (auto simp: ram_mkdir_create ram_create_Inr new_dir_def add_child_alloc intro!: new_entry_inv)
next
  case (symlink fs n name target c fs')
  then show ?case
    by (auto simp: ram_symlink_def run_simps new_symlink_def add_child_alloc intro!: new_entry_inv)
next
  case (unlink fs n name fs')
  then show ?case by (auto simp: ram_unlink_def run_simps intro: remove_entry_inv)
next
  case (rmdir fs n name fs')
  then show ?case by (auto simp: ram_rmdir_def run_simps locked_empty_def split: if_splits intro: remove_entry_inv)
next
  case (link fs n t name fs')
  have "ri_self_ref (rf_node fs t) = Some t"
    using ram_invD(4) [OF link.IH] link.hyps(3) by (simp add: live_def)
  then have "self_inode fs t = Inr t" using link.hyps(3) by (simp add: self_inode_def upgrade_def live_def)
  then show ?case using link by (auto simp: ram_link_def run_simps intro: link_entry_inv)
next
  case (rename fs n np old new fs')
  then show ?case by (auto simp: ram_rename_Inr intro: moved_inv)
next
  case (write_at fs n off buf k fs')
  then show ?case
    by (auto simp: ram_write_at_def run_simps Let_def split: if_splits intro!: node_upd_inv)
next
  case (setattr fs n md fs')
  then show ?case by (auto simp: ram_setattr_def intro!: node_upd_inv)
next
  case (drop fs n)
  then show ?case by (simp add: ram_drop_inv)
qed

section \<open>Properties\<close>

lemma self_inode_live: "\<lbrakk>ram_inv fs; live fs n\<rbrakk> \<Longrightarrow> self_inode fs n = Inr n"
  using ram_invD(4) [of fs n] by (simp add: self_inode_def upgrade_def live_def)

lemma ram_lookup_child:
  assumes inv: "ram_inv fs" and d: "live fs d" and nm: "name \<notin> {''.'', ''..''}" and l: "ram_lookup fs d name = Inr c"
  shows "live fs c" "is_dir fs c \<Longrightarrow> ram_lookup fs c ''.'' = Inr c" "is_dir fs c \<Longrightarrow> ram_lookup fs c ''..'' = Inr d"
proof -
  have e: "entry fs d name = Some c" using nm l by (auto simp: ram_lookup_def run_simps)
  show c: "live fs c" using ram_invD(7) [OF inv d e] by simp
  show "ram_lookup fs c ''..'' = Inr d" if "is_dir fs c"
    using ram_invD(8) [OF inv d e that] that d
    by (simp add: ram_lookup_def parent_of_def upgrade_def live_def)
  show "ram_lookup fs c ''.'' = Inr c" if "is_dir fs c" using self_inode_live [OF inv c] that by (simp add: ram_lookup_def)
qed

text \<open>
  C14.  In every reachable file system a successful lookup yields a live node, and the
  directory structure is consistent: \<open>.\<close> of a child directory is the child, and its \<open>..\<close>
  is the directory it was looked up in.
\<close>

theorem ram_dotdot:
  assumes "ram_reach fs" "live fs d" "name \<notin> {''.'', ''..''}" "ram_lookup fs d name = Inr c"
  shows "live fs c \<and> (is_dir fs c \<longrightarrow> ram_lookup fs c ''.'' = Inr c \<and> ram_lookup fs c ''..'' = Inr d)"
  using ram_lookup_child [OF ram_reach_inv [OF assms(1)] assms(2-4)] by blast

text \<open>A file system with the directories \<open>/a\<close> (node 1) and \<open>/a/b\<close> (node 2).\<close>

definition ram_a :: ram_fs where
  "ram_a = snd (projr (ram_mkdir (ram_new 1) 0 ''a'' 0))"

definition ram_ab :: ram_fs where
  "ram_ab = snd (projr (ram_mkdir ram_a 1 ''b'' 0))"

lemmas ram_eval = ram_mkdir_def new_dir_def alloc_node_def add_child_def set_children_def children_def
  is_dir_def ram_new_def bt_get_def

lemma ram_a_mkdir: "ram_mkdir (ram_new 1) 0 ''a'' 0 = Inr (1, ram_a)"
  by (simp add: ram_a_def ram_eval)

lemma ram_a_eval:
  "children ram_a 0 = [(''a'', 1)]" "children ram_a 1 = []" "is_dir ram_a 1" "rf_next ram_a = 2"
  "rf_dead ram_a = {}" "ri_self_ref (rf_node ram_a 1) = Some 1" "is_dir ram_a 0" "rf_root ram_a = 0"
  "parent_of ram_a 1 = Some 0"
  by (simp_all add: ram_a_def ram_eval parent_of_def)

lemma ram_ab_mkdir: "ram_mkdir ram_a 1 ''b'' 0 = Inr (2, ram_ab)"
  using ram_a_eval by (simp add: ram_ab_def ram_mkdir_def new_dir_def add_child_def alloc_node_def)

lemma ram_ab_alt: "ram_ab = with_new ram_a 1 ''b'' \<lparr>ri_ino = 0, ri_file_type = Directory, ri_content = [],
    ri_children = [], ri_metadata = new_meta 0 0 Directory, ri_self_ref = None, ri_parent = Some 1\<rparr>"
  using ram_a_eval by (simp add: ram_ab_def ram_mkdir_def new_dir_def with_new_def)

lemma ram_ab_eval:
  "children ram_ab 0 = [(''a'', 1)]" "children ram_ab 1 = [(''b'', 2)]" "children ram_ab 2 = []"
  "is_dir ram_ab 0" "is_dir ram_ab 1" "is_dir ram_ab 2" "live ram_ab 0" "live ram_ab 1" "live ram_ab 2"
  "parent_of ram_ab 1 = Some 0" "parent_of ram_ab 2 = Some 1" "rf_dead ram_ab = {}"
  "ri_self_ref (rf_node ram_ab 2) = Some 2"
  using ram_a_eval
  by (simp_all add: ram_ab_alt with_new_simps live_def)

lemma ram_ab_reach: "ram_reach ram_ab"
proof -
  have "live (ram_new 1) 0" "live ram_a 1"
    using ram_a_eval by (simp_all add: live_def ram_new_def new_dir_def alloc_node_def)
  then show ?thesis
    using ram_reach.mkdir [OF ram_reach.new _ ram_a_mkdir] ram_reach.mkdir [OF _ _ ram_ab_mkdir] by blast
qed

theorem ram_dotdot_witness:
  "ram_lookup ram_ab 1 ''b'' = Inr 2 \<and> ram_lookup ram_ab 2 ''..'' = Inr 1"
proof -
  have l: "ram_lookup ram_ab 1 ''b'' = Inr 2" by (simp add: ram_lookup_def ram_ab_eval bt_get_def del: One_nat_def)
  then show ?thesis using ram_dotdot [OF ram_ab_reach _ _ l] by (simp add: ram_ab_eval del: One_nat_def)
qed

text \<open>The content of a file after \<open>write_at\<close>: old bytes, zeros in a gap, the new bytes.\<close>

definition overwrite :: "bytes \<Rightarrow> nat \<Rightarrow> bytes \<Rightarrow> bytes" where
  "overwrite c off buf = map (\<lambda>k. if off \<le> k \<and> k < off + length buf then buf ! (k - off)
     else if k < length c then c ! k else 0) [0..<max (length c) (off + length buf)]"

lemma overwrite_splice:
  assumes "c' = (if off + length buf > length c then c @ replicate (off + length buf - length c) 0 else c)"
  shows "take off c' @ buf @ drop (off + length buf) c' = overwrite c off buf"
proof (rule nth_equalityI)
  have len: "length c' = max (length c) (off + length buf)" using assms by (simp add: max_def)
  then show "length (take off c' @ buf @ drop (off + length buf) c') = length (overwrite c off buf)"
    by (simp add: overwrite_def)
  fix k assume k: "k < length (take off c' @ buf @ drop (off + length buf) c')"
  have nth: "c' ! j = (if j < length c then c ! j else 0)" if "j < length c'" for j
    using that assms by (auto simp: nth_append)
  have lc: "off + length buf \<le> length c'" using len by simp
  have kl: "k < length c'" using k len by simp
  consider "k < off" | "off \<le> k" "k < off + length buf" | "off + length buf \<le> k" by linarith
  then show "(take off c' @ buf @ drop (off + length buf) c') ! k = overwrite c off buf ! k"
    using kl lc nth [OF kl] len by cases (auto simp: nth_append overwrite_def min_def)
qed

lemma ram_write_at_ok:
  assumes "ri_file_type (rf_node fs n) = Regular" "off + length buf \<le> ISIZE_MAX"
  shows "\<exists>fs'. ram_write_at fs n off buf = Inr (length buf, fs')
    \<and> rf_node fs' n = (rf_node fs n)\<lparr>ri_content := overwrite (ri_content (rf_node fs n)) off buf,
        ri_metadata := (ri_metadata (rf_node fs n))\<lparr>md_size :=
          max (length (ri_content (rf_node fs n))) (off + length buf)\<rparr>\<rparr>
    \<and> (\<forall>m. m \<noteq> n \<longrightarrow> rf_node fs' m = rf_node fs m)"
proof -
  have add: "usize_add off (length buf) = off + length buf"
    using assms(2) by (intro usize_add_eq) (simp add: ISIZE_MAX_def USIZE_LIM_def)
  have len: "length (overwrite c off buf) = max (length c) (off + length buf)" for c
    by (simp add: overwrite_def)
  show ?thesis
    unfolding ram_write_at_def add Let_def overwrite_splice [OF refl] using assms by (simp add: len)
qed

text \<open>
  C15.  Writing to a regular file, at any offset up to \<^verbatim>\<open>isize::MAX\<close>: the write is complete,
  a gap reads as zeros, the recorded size is the length of the content, no other node
  changes, and reading the range back gives the bytes written.
\<close>

theorem ram_file_io:
  assumes "ri_file_type (rf_node fs n) = Regular" "off + length buf \<le> ISIZE_MAX"
  shows "\<exists>fs'. ram_write_at fs n off buf = Inr (length buf, fs')
    \<and> ri_content (rf_node fs' n) = overwrite (ri_content (rf_node fs n)) off buf
    \<and> md_size (ri_metadata (rf_node fs' n)) = length (ri_content (rf_node fs' n))
    \<and> (\<forall>m. m \<noteq> n \<longrightarrow> rf_node fs' m = rf_node fs m)
    \<and> ram_read_at fs' n off (length buf) = Inr buf"
proof -
  let ?c = "ri_content (rf_node fs n)"
  obtain fs' where w: "ram_write_at fs n off buf = Inr (length buf, fs')"
    "rf_node fs' n = (rf_node fs n)\<lparr>ri_content := overwrite ?c off buf,
        ri_metadata := (ri_metadata (rf_node fs n))\<lparr>md_size := max (length ?c) (off + length buf)\<rparr>\<rparr>"
    "\<forall>m. m \<noteq> n \<longrightarrow> rf_node fs' m = rf_node fs m" using ram_write_at_ok [OF assms] by blast
  have len: "length (overwrite ?c off buf) = max (length ?c) (off + length buf)" by (simp add: overwrite_def)
  have "take (length buf) (drop off (overwrite ?c off buf)) = buf"
    by (rule nth_equalityI) (simp_all add: len, simp add: overwrite_def)
  moreover have "usize_add off (length buf) = off + length buf"
    using assms(2) by (intro usize_add_eq) (simp add: ISIZE_MAX_def USIZE_LIM_def)
  ultimately have "ram_read_at fs' n off (length buf) = Inr buf"
    using w(2) assms(1) len by (auto simp: ram_read_at_def Let_def min_def max_def)
  then show ?thesis using w len by auto
qed

definition ram_file :: ram_fs where
  "ram_file = snd (projr (ram_create (ram_new 1) 0 ''f'' Regular 0))"

theorem ram_file_io_witness:
  "\<exists>fs'. ram_write_at ram_file 1 2 [7, 8] = Inr (2, fs') \<and> ri_content (rf_node fs' 1) = [0, 0, 7, 8]
     \<and> ram_read_at fs' 1 2 2 = Inr [7, 8]"
proof -
  have "ri_file_type (rf_node ram_file 1) = Regular" "ri_content (rf_node ram_file 1) = []"
    by (simp_all add: ram_file_def ram_create_def new_file_def ram_eval)
  moreover have "overwrite [] 2 [7, 8] = [0, 0, 7, 8]"
    by (simp add: overwrite_def upt_rec_numeral upt_conv_Cons)
  moreover have "2 + length [7, 8 :: u8] \<le> ISIZE_MAX" by (simp add: ISIZE_MAX_def)
  ultimately show ?thesis
    using ram_file_io [of ram_file 1 2 "[7, 8]"] by (auto simp: numeral_2_eq_2)
qed

lemma ram_create_entries:
  assumes "ram_inv fs" "live fs n" "ram_create fs n name ft mode = Inr (c, fs')"
  shows "c = rf_next fs" "is_dir fs n" "entry fs n name = None" "ft = Regular \<or> ft = Directory"
    and "entry fs' m nm = (if m = n \<and> nm = name then Some c else if m = c then None else entry fs m nm)"
    and "is_dir fs' m = (if m = c then ft = Directory else is_dir fs m)"
    and "children fs' c = []" "live fs' n"
proof -
  have lt: "n < rf_next fs" using assms(2) by (simp add: live_def)
  note r = assms(3) [unfolded ram_create_Inr [OF assms(1,2)]]
  then show c: "c = rf_next fs" "is_dir fs n" "entry fs n name = None" "ft = Regular \<or> ft = Directory"
    by auto
  obtain i where i: "fs' = with_new fs n name i" "ri_children i = []" "ri_file_type i = ft"
    using r by (auto simp: new_file_def new_dir_def add_child_alloc split: if_splits)
  note w = with_new_simps [OF lt i(2), where name = name, folded i(1)]
  show "entry fs' m nm = (if m = n \<and> nm = name then Some c else if m = c then None else entry fs m nm)"
    using lt by (auto simp: w c)
  show "is_dir fs' m = (if m = c then ft = Directory else is_dir fs m)" by (simp add: w c i(3))
  show "children fs' c = []" using lt by (simp add: w c)
  show "live fs' n" using assms(2) by (simp add: w)
qed

text \<open>
  Creating an entry and removing it again: \<open>create\<close> under an unused name gives a fresh
  node, found by \<open>lookup\<close> and listed nowhere else; \<open>unlink\<close> (or \<open>rmdir\<close> for a directory)
  then succeeds, the name is \<open>NotFound\<close>, and every directory lists what it did before.
\<close>

lemma ram_create_remove:
  assumes "ram_reach fs" "live fs n" "name \<notin> {''.'', ''..''}" "ram_create fs n name ft mode = Inr (c, fs1)"
  shows "\<not> live fs c \<and> ram_lookup fs1 n name = Inr c \<and>
    (\<exists>fs2. (if ft = Directory then ram_rmdir fs1 n name else ram_unlink fs1 n name) = Inr fs2
       \<and> ram_lookup fs2 n name = Inl (FsErr NotFound)
       \<and> (\<forall>m nm. m \<noteq> c \<longrightarrow> entry fs2 m nm = entry fs m nm))"
proof -
  note e = ram_create_entries [OF ram_reach_inv [OF assms(1)] assms(2,4)]
  have nc: "n \<noteq> c" using e(1) assms(2) by (auto simp: live_def)
  let ?fs2 = "set_children fs1 n (bt_remove name (children fs1 n))"
  have en: "entry fs1 n name = Some c" "is_dir fs1 n" using e nc by auto
  have "(if ft = Directory then ram_rmdir fs1 n name else ram_unlink fs1 n name) = Inr ?fs2"
    using en e nc by (simp add: ram_rmdir_def ram_unlink_def locked_empty_def)
  moreover have "ram_lookup ?fs2 n name = Inl (FsErr NotFound)"
    using en assms(3) by (simp add: ram_lookup_def)
  moreover have "entry ?fs2 m nm = entry fs m nm" if "m \<noteq> c" for m nm
    using e(3) e(5) [of m nm] that by auto
  moreover have "ram_lookup fs1 n name = Inr c" using en assms(3) by (simp add: ram_lookup_def)
  moreover have "\<not> live fs c" using e(1) by (simp add: live_def)
  ultimately show ?thesis by blast
qed

lemma ram_file_create: "ram_create (ram_new 1) 0 ''f'' Regular 0 = Inr (1, ram_file)"
  by (simp add: ram_file_def ram_create_def new_file_def ram_eval)

lemma ram_new_live: "live (ram_new ino) 0"
  by (simp add: live_def ram_new_def new_dir_def alloc_node_def)

lemma ram_create_remove_witness:
  "ram_lookup ram_file 0 ''f'' = Inr 1 \<and> (\<exists>fs2. ram_unlink ram_file 0 ''f'' = Inr fs2
     \<and> ram_lookup fs2 0 ''f'' = Inl (FsErr NotFound))"
  using ram_create_remove [OF ram_reach.new ram_new_live _ ram_file_create] by auto

text \<open>
  C17.  The outcome of \<open>rename\<close> of an existing entry between two live directories, in every
  case.  When the new name leads to the target directory itself (a directory renamed into
  itself) the call never returns: it takes the children lock of that directory while it
  holds it.  Otherwise, when the new name leads to a directory with entries the answer is
  \<open>NotEmpty\<close>.  In every other case it succeeds and moves exactly one entry: afterwards the
  new name leads to the node the old name led to, the old name is gone (unless it is the new
  one), a moved directory has the new directory as its \<open>..\<close>, and no other entry changes.
\<close>

theorem ram_rename_correct:
  assumes "ram_reach fs" "live fs n" "live fs np" "is_dir fs n" "is_dir fs np"
    and "entry fs n old = Some c" "new \<notin> {''.'', ''..''}"
  shows "if entry fs np new = Some np then ram_rename fs n old (RamRef np) new = Inl (Crash Deadlock)
    else if \<exists>d. entry fs np new = Some d \<and> is_dir fs d \<and> children fs d \<noteq> []
    then ram_rename fs n old (RamRef np) new = Inl (FsErr NotEmpty)
    else \<exists>fs'. ram_rename fs n old (RamRef np) new = Inr fs' \<and> ram_lookup fs' np new = Inr c
        \<and> (is_dir fs c \<longrightarrow> ram_lookup fs' c ''..'' = Inr np)
        \<and> (\<forall>m nm. (m, nm) \<noteq> (np, new) \<longrightarrow>
             entry fs' m nm = (if (m, nm) = (n, old) then None else entry fs m nm))"
proof -
  have "ram_rename fs n old (RamRef np) new = Inl (Crash Deadlock)" if "entry fs np new = Some np"
    using assms(4-6) that by (auto simp: ram_rename_def locked_empty_def)
  moreover have "ram_rename fs n old (RamRef np) new = Inl (FsErr NotEmpty)"
    if "entry fs np new = Some d" "is_dir fs d" "children fs d \<noteq> []" "d \<noteq> np" for d
    using assms(4-6) that by (auto simp: ram_rename_def locked_empty_def)
  moreover have "\<exists>fs'. ram_rename fs n old (RamRef np) new = Inr fs' \<and> ram_lookup fs' np new = Inr c
        \<and> (is_dir fs c \<longrightarrow> ram_lookup fs' c ''..'' = Inr np)
        \<and> (\<forall>m nm. (m, nm) \<noteq> (np, new) \<longrightarrow>
             entry fs' m nm = (if (m, nm) = (n, old) then None else entry fs m nm))"
    if free: "entry fs np new \<noteq> Some np"
      "\<nexists>d. entry fs np new = Some d \<and> is_dir fs d \<and> children fs d \<noteq> []"
  proof (intro exI conjI impI)
    let ?g = "moved fs n old np new c"
    show "ram_rename fs n old (RamRef np) new = Inr ?g"
      using assms(4-6) free by (auto simp: ram_rename_Inr [OF ram_reach_inv [OF assms(1)] assms(2,3)])
    show "ram_lookup ?g np new = Inr c"
      using assms(5,7) by (simp add: ram_lookup_def moved_simps)
    show "ram_lookup ?g c ''..'' = Inr np" if "is_dir fs c"
    proof -
      have "ri_parent (rf_node ?g c) = Some np" using that moved_simps(7) [of fs n old np new c c]
        by (simp add: parent_of_def)
      then show ?thesis using that assms(3) by (simp add: ram_lookup_def moved_simps upgrade_def live_def)
    qed
    show "\<forall>m nm. (m, nm) \<noteq> (np, new) \<longrightarrow>
        entry ?g m nm = (if (m, nm) = (n, old) then None else entry fs m nm)"
      by (simp add: moved_simps)
  qed
  ultimately show ?thesis by auto
qed

theorem ram_rename_correct_witness:
  "\<exists>fs'. ram_rename ram_ab 1 ''b'' (RamRef 0) ''z'' = Inr fs' \<and> ram_lookup fs' 0 ''z'' = Inr 2
     \<and> ram_lookup fs' 2 ''..'' = Inr 0 \<and> entry fs' 1 ''b'' = None"
proof -
  have "entry ram_ab 1 ''b'' = Some 2" "entry ram_ab 0 ''z'' = None" "entry ram_ab 0 ''b'' = None"
    by (simp_all add: ram_ab_eval bt_get_def del: One_nat_def)
  then show ?thesis
    using ram_rename_correct [OF ram_ab_reach, of 1 0 "''b''" 2 "''z''"]
    by (auto simp: ram_ab_eval split: sum.splits simp del: One_nat_def)
qed

text \<open>
  C18.  \<open>rename\<close> does not notice that the target directory lies inside the directory it
  moves: moving \<open>/a\<close> to \<open>/a/b/a\<close> succeeds, after which the root is empty and the two
  directories are each other's parent, unreachable from the root.
\<close>

theorem ram_rename_makes_cycle:
  "\<exists>fs fs' a b. ram_reach fs \<and> ram_lookup fs (rf_root fs) ''a'' = Inr a \<and> ram_lookup fs a ''b'' = Inr b
     \<and> ram_rename fs (rf_root fs) ''a'' (RamRef b) ''a'' = Inr fs' \<and> ram_reach fs'
     \<and> ram_lookup fs' a ''..'' = Inr b \<and> ram_lookup fs' b ''..'' = Inr a
     \<and> ram_list fs' (rf_root fs') = Inr []"
proof -
  have root: "rf_root ram_ab = 0" using ram_a_eval by (simp add: ram_ab_alt with_new_simps)
  have e: "entry ram_ab 0 ''a'' = Some 1" "entry ram_ab 2 ''a'' = None" "entry ram_ab 1 ''b'' = Some 2"
    by (simp_all add: ram_ab_eval bt_get_def del: One_nat_def)
  let ?g = "moved ram_ab 0 ''a'' 2 ''a'' 1"
  have l: "ram_lookup ram_ab 0 ''a'' = Inr 1" "ram_lookup ram_ab 1 ''b'' = Inr 2"
    using e by (simp_all add: ram_lookup_def ram_ab_eval del: One_nat_def)
  have mv: "ram_rename ram_ab 0 ''a'' (RamRef 2) ''a'' = Inr ?g"
    unfolding ram_rename_Inr [OF ram_reach_inv [OF ram_ab_reach] ram_ab_eval(7,9)]
    using e by (simp add: ram_ab_eval del: One_nat_def)
  have "ram_reach ?g" using ram_reach.rename [OF ram_ab_reach ram_ab_eval(7,9) mv] .
  moreover have "parent_of ?g 1 = Some 2" "parent_of ?g 2 = Some 1"
    using ram_ab_eval by (simp_all add: moved_simps del: One_nat_def)
  then have "ram_lookup ?g 1 ''..'' = Inr 2" "ram_lookup ?g 2 ''..'' = Inr 1"
    by (simp_all add: ram_lookup_def moved_simps ram_ab_eval upgrade_def parent_of_def del: One_nat_def)
  moreover have "children ?g 0 = []"
    by (simp add: moved_def Let_def ram_ab_eval bt_remove_def del: One_nat_def)
  then have "ram_list ?g 0 = Inr []" by (simp add: ram_list_def moved_simps ram_ab_eval)
  ultimately show ?thesis using ram_ab_reach l mv root by (metis moved_simps(4))
qed

text \<open>
  A write that ends beyond \<^verbatim>\<open>isize::MAX\<close> is not refused with an error: growing the
  content vector panics.  The seek that precedes it is unchecked, so the offset
  \<open>2 ^ 63 - 1\<close> with one byte is enough.
\<close>

lemma ram_write_huge_offset_panics:
  assumes "ri_file_type (rf_node fs n) = Regular" "length (ri_content (rf_node fs n)) \<le> ISIZE_MAX"
    and "ISIZE_MAX < off + length buf" "off + length buf < USIZE_LIM"
  shows "ram_write_at fs n off buf = Inl (Crash (Panic ''capacity overflow''))"
  using assms by (simp add: ram_write_at_def usize_add_eq)

lemma ram_write_huge_offset_panics_witness:
  "ram_write_at ram_file 1 (2 ^ 63 - 1) [0] = Inl (Crash (Panic ''capacity overflow''))"
proof -
  have "ri_file_type (rf_node ram_file 1) = Regular" "ri_content (rf_node ram_file 1) = []"
    by (simp_all add: ram_file_def ram_create_def new_file_def ram_eval)
  then show ?thesis
    using ram_write_huge_offset_panics [of ram_file 1 "2 ^ 63 - 1" "[0]"]
    by (simp add: ISIZE_MAX_def USIZE_LIM_def)
qed

end
