(* ===== verification/Kor_Path.thy ===== *)
theory Kor_Path
  imports Kor_RamFs
begin

text \<open>
  Path parsing and resolution, \<^verbatim>\<open>filesystems/kor-fs/src/path.rs\<close>, over any inode type: the
  three inode operations the resolver calls are its argument.  \<open>walk\<close> is the loop of
  \<open>resolve_inner\<close> with its recursive call for a symbolic link, threading the shared depth
  counter; \<open>expand\<close> is the specification that splices a link's target into the remaining
  components, and the two agree.
\<close>

section \<open>Components\<close>

definition slash :: char where [simp]: "slash = CHR ''/''"

definition comp_next :: "string \<Rightarrow> (string \<times> string) option" where
  "comp_next remaining =
     (let remaining = dropWhile (\<lambda>c. c = slash) remaining in
      if remaining = [] then None
      else Some (takeWhile (\<lambda>c. c \<noteq> slash) remaining, dropWhile (\<lambda>c. c \<noteq> slash) remaining))"

lemma comp_next_shorter: "comp_next r = Some (c, r') \<Longrightarrow> length r' < length r"
proof -
  assume a: "comp_next r = Some (c, r')"
  let ?d = "dropWhile (\<lambda>c. c = slash) r"
  have "?d \<noteq> []" "r' = dropWhile (\<lambda>c. c \<noteq> slash) ?d" using a by (auto simp: comp_next_def Let_def split: if_splits)
  moreover have "hd ?d \<noteq> slash" using hd_dropWhile [OF calculation(1)] by simp
  ultimately have "length r' < length ?d"
    by (cases ?d) (auto simp: length_dropWhile_le le_imp_less_Suc)
  then show ?thesis using length_dropWhile_le [of "\<lambda>c. c = slash" r] by linarith
qed

function components :: "string \<Rightarrow> string list" where
  "components remaining =
     (case comp_next remaining of None \<Rightarrow> [] | Some (c, r) \<Rightarrow> c # components r)"
  by pat_completeness auto
termination
  by (relation "measure length") (auto dest: comp_next_shorter)

declare components.simps [simp del]

definition is_absolute :: "string \<Rightarrow> bool" where
  "is_absolute p \<longleftrightarrow> (case p of [] \<Rightarrow> False | c # _ \<Rightarrow> c = slash)"

text \<open>Where the walk along a path begins: at the root when it is absolute.\<close>

definition origin :: "'n \<Rightarrow> 'n \<Rightarrow> string \<Rightarrow> 'n" where
  "origin root start path = (if is_absolute path then root else start)"

definition good_name :: "string \<Rightarrow> bool" where
  "good_name s \<longleftrightarrow> s \<noteq> [] \<and> slash \<notin> set s"

fun join_path :: "string list \<Rightarrow> string" where
  "join_path [] = []"
| "join_path (c # cs) = slash # c @ join_path cs"

lemma components_slash [simp]: "components (slash # p) = components p"
proof -
  have "comp_next (slash # p) = comp_next p" by (simp add: comp_next_def)
  then show ?thesis unfolding components.simps [of "slash # p"] components.simps [of p] by simp
qed

lemma components_Nil [simp]: "components [] = []"
  by (subst components.simps) (simp add: comp_next_def)

lemma comp_next_name:
  assumes "good_name c" "p = [] \<or> hd p = slash"
  shows "comp_next (c @ p) = Some (c, p)"
proof -
  have n: "\<forall>x \<in> set c. x \<noteq> slash" "c \<noteq> []" using assms(1) by (auto simp: good_name_def)
  have d: "dropWhile (\<lambda>x. x = slash) (c @ p) = c @ p" using n by (cases c) auto
  have "takeWhile (\<lambda>x. x \<noteq> slash) (c @ p) = c" using n assms(2) by (subst takeWhile_append2) (cases p; auto)+
  moreover have "dropWhile (\<lambda>x. x \<noteq> slash) (c @ p) = p" using n assms(2) by (subst dropWhile_append2) (cases p; auto)+
  ultimately show ?thesis using n(2) unfolding comp_next_def Let_def d by simp
qed

lemma components_name:
  "\<lbrakk>good_name c; p = [] \<or> hd p = slash\<rbrakk> \<Longrightarrow> components (c @ p) = c # components p"
  by (subst components.simps) (simp add: comp_next_name)

lemma components_join: "list_all good_name cs \<Longrightarrow> components (join_path cs) = cs"
proof (induction cs)
  case (Cons c cs)
  have "components (join_path (c # cs)) = components (c @ join_path cs)"
    using components_slash by (simp del: slash_def)
  moreover have "join_path cs = [] \<or> hd (join_path cs) = slash" by (cases cs) simp_all
  ultimately show ?case using Cons components_name [of c "join_path cs"] by simp
qed simp

lemma components_good: "list_all good_name (components p)"
proof (induction p rule: components.induct)
  case (1 p)
  show ?case
  proof (cases "comp_next p")
    case None
    then show ?thesis by (subst components.simps) simp
  next
    case (Some x)
    obtain c r where x: "x = (c, r)" by force
    let ?d = "dropWhile (\<lambda>c. c = slash) p"
    have d: "?d \<noteq> []" "c = takeWhile (\<lambda>c. c \<noteq> slash) ?d"
      using Some x by (auto simp: comp_next_def Let_def split: if_splits)
    have "hd ?d \<noteq> slash" using hd_dropWhile [OF d(1)] by simp
    then have "good_name c" using d by (cases ?d) (auto simp: good_name_def dest: set_takeWhileD)
    then show ?thesis using 1 Some x by (subst components.simps) simp
  qed
qed

section \<open>Resolution\<close>

definition MAX_SYMLINK_DEPTH :: usize where [simp]: "MAX_SYMLINK_DEPTH = 40"

record 'n inode_ops =
  io_lookup :: "'n \<Rightarrow> string \<Rightarrow> 'n fsres"
  io_getattr :: "'n \<Rightarrow> metadata fsres"
  io_readlink :: "'n \<Rightarrow> string fsres"

definition lookup_entry :: "('n, 'x) inode_ops_scheme \<Rightarrow> 'n \<Rightarrow> string \<Rightarrow> 'n fsres" where
  "lookup_entry io dir name = io_lookup io dir name"

definition is_symlink :: "('n, 'x) inode_ops_scheme \<Rightarrow> 'n \<Rightarrow> bool fsres" where
  "is_symlink io n = bnd (io_getattr io n) (\<lambda>md. Inr (md_file_type md = Symlink))"

text \<open>
  One round of the component loop up to the test for a link: \<open>At\<close> the inode the round ends
  at, or the symbolic \<open>Link\<close> that has to be followed.
\<close>

datatype 'n hop = At 'n | Link 'n

definition hop :: "('n, 'x) inode_ops_scheme \<Rightarrow> 'n \<Rightarrow> string \<Rightarrow> 'n hop fsres" where
  "hop io current name =
     (if name = ''.'' then Inr (At current)
      else if name = ''..'' then bnd (lookup_entry io current ''..'') (\<lambda>up. Inr (At up))
      else
        bnd (lookup_entry io current name) (\<lambda>nxt.
        bnd (is_symlink io nxt) (\<lambda>link. Inr (if link then Link nxt else At nxt))))"

text \<open>
  The component loop of \<open>resolve_inner\<close>; the result carries the depth counter.  The guard
  \<open>depth' \<le> depth\<close> after the recursive call never holds (\<open>walk_depth\<close>) and makes the
  recursion visibly well-founded.
\<close>

function walk :: "('n, 'x) inode_ops_scheme \<Rightarrow> 'n \<Rightarrow> 'n \<Rightarrow> string list \<Rightarrow> usize \<Rightarrow> ('n \<times> usize) fsres" where
  "walk io root current [] depth = Inr (current, depth)"
| "walk io root current (name # names) depth =
     (case hop io current name of
        Inl e \<Rightarrow> Inl e
      | Inr (At n) \<Rightarrow> walk io root n names depth
      | Inr (Link nxt) \<Rightarrow>
          if depth + 1 > MAX_SYMLINK_DEPTH then Inl (FsErr TooManyLinks)
          else
            (case io_readlink io nxt of
               Inl e \<Rightarrow> Inl e
             | Inr target \<Rightarrow>
                 (case walk io root (origin root current target)
                         (components target) (depth + 1) of
                    Inl e \<Rightarrow> Inl e
                  | Inr (found, depth') \<Rightarrow>
                      if depth' \<le> depth then Inl (Crash OutOfFuel)
                      else walk io root found names depth')))"
  by pat_completeness auto
termination
  by (relation "inv_image (less_than <*lex*> less_than)
        (\<lambda>(io, root, cur, names, depth). (MAX_SYMLINK_DEPTH + 1 - depth, length names))") auto

declare walk.simps(2) [simp del]

definition resolve_inner :: "('n, 'x) inode_ops_scheme \<Rightarrow> 'n \<Rightarrow> 'n \<Rightarrow> string \<Rightarrow> usize \<Rightarrow> ('n \<times> usize) fsres" where
  "resolve_inner io root start path depth =
     walk io root (origin root start path) (components path) depth"

definition resolve_path :: "('n, 'x) inode_ops_scheme \<Rightarrow> 'n \<Rightarrow> string \<Rightarrow> 'n fsres" where
  "resolve_path io start_inode path =
     bnd (resolve_inner io start_inode start_inode path 0) (\<lambda>(n, _). Inr n)"

section \<open>The specification: splicing link targets\<close>

function expand :: "('n, 'x) inode_ops_scheme \<Rightarrow> 'n \<Rightarrow> 'n \<Rightarrow> string list \<Rightarrow> nat \<Rightarrow> ('n \<times> nat) fsres" where
  "expand io root current [] links = Inr (current, links)"
| "expand io root current (name # names) links =
     (case hop io current name of
        Inl e \<Rightarrow> Inl e
      | Inr (At n) \<Rightarrow> expand io root n names links
      | Inr (Link nxt) \<Rightarrow>
          if links \<ge> MAX_SYMLINK_DEPTH then Inl (FsErr TooManyLinks)
          else
            (case io_readlink io nxt of
               Inl e \<Rightarrow> Inl e
             | Inr target \<Rightarrow>
                 expand io root (origin root current target)
                   (components target @ names) (links + 1)))"
  by pat_completeness auto
termination
  by (relation "inv_image (less_than <*lex*> less_than)
        (\<lambda>(io, root, cur, names, links). (MAX_SYMLINK_DEPTH - links, length names))") auto

declare expand.simps(2) [simp del]

lemmas walk_splits = sum.splits hop.splits if_splits prod.splits

lemma walk_depth: "walk io root cur names depth = Inr (n, depth') \<Longrightarrow> depth \<le> depth'"
proof (induction io root cur names depth arbitrary: n depth' rule: walk.induct)
  case (2 io root cur name names depth)
  from 2(4) consider (at) m where "hop io cur name = Inr (At m)" "walk io root m names depth = Inr (n, depth')"
    | (link) l t m d where "hop io cur name = Inr (Link l)" "\<not> depth + 1 > MAX_SYMLINK_DEPTH"
      "io_readlink io l = Inr t" "\<not> d \<le> depth"
      "walk io root (origin root cur t) (components t) (depth + 1) = Inr (m, d)"
      "walk io root m names d = Inr (n, depth')"
    by (auto simp: walk.simps(2) not_le split: walk_splits)
  then show ?case
  proof cases
    case at
    then show ?thesis using 2(1) by simp
  next
    case link
    have "d \<le> depth'" using 2(3) [OF link(1) refl link(2,3,5) refl _ link(6)] link(4) by simp
    then show ?thesis using link(4) by simp
  qed
qed simp

lemma walk_Cons:
  "walk io root cur (name # names) depth =
     bnd (hop io cur name) (\<lambda>h. case h of
       At n \<Rightarrow> walk io root n names depth
     | Link nxt \<Rightarrow>
         if depth \<ge> MAX_SYMLINK_DEPTH then Inl (FsErr TooManyLinks)
         else bnd (io_readlink io nxt) (\<lambda>target.
              bnd (walk io root (origin root cur target) (components target) (depth + 1))
                (\<lambda>(found, d). walk io root found names d)))"
  using walk_depth [where io = io and root = root and depth = "depth + 1"]
  by (auto simp: walk.simps(2) bnd_def split: sum.split hop.split prod.split) (fastforce+)

lemma walk_append:
  "walk io root cur (xs @ ys) depth = bnd (walk io root cur xs depth) (\<lambda>(n, d). walk io root n ys d)"
proof (induction xs arbitrary: cur depth)
  case (Cons x xs)
  show ?case
    by (simp add: walk_Cons Cons.IH bnd_def split: sum.split hop.split prod.split)
qed (simp add: bnd_def)

lemma walk_expand: "walk io root cur names depth = expand io root cur names depth"
proof (induction io root cur names depth rule: expand.induct)
  case (2 io root cur name names links)
  show ?case
  proof (cases "hop io cur name")
    case (Inr h)
    then show ?thesis
    proof (cases h)
      case (At n)
      then show ?thesis using 2(1) Inr by (simp add: walk_Cons expand.simps(2))
    next
      case (Link l)
      show ?thesis
      proof (cases "links \<ge> MAX_SYMLINK_DEPTH")
        case False
        show ?thesis
        proof (cases "io_readlink io l")
          case (Inr t)
          then show ?thesis
            using False Link 2(2) [OF \<open>hop io cur name = Inr h\<close> Link False Inr] \<open>hop io cur name = Inr h\<close>
            by (simp add: walk_Cons expand.simps(2) walk_append)
        qed (use False Link Inr in \<open>simp add: walk_Cons expand.simps(2)\<close>)
      qed (use Link Inr in \<open>simp add: walk_Cons expand.simps(2)\<close>)
    qed
  qed (simp add: walk_Cons expand.simps(2))
qed simp

lemma expand_links: "expand io root cur names links = Inr (n, k) \<Longrightarrow> links \<le> MAX_SYMLINK_DEPTH \<Longrightarrow> k \<le> MAX_SYMLINK_DEPTH"
proof (induction io root cur names links rule: expand.induct)
  case (2 io root cur name names links)
  from 2(3) show ?case
    using 2(1,2,4) by (auto simp: expand.simps(2) split: sum.splits hop.splits if_splits)
qed simp

lemma resolve_path_expand:
  "resolve_path io start path = bnd (expand io start start (components path) 0) (\<lambda>(n, _). Inr n)"
  by (simp add: resolve_path_def resolve_inner_def walk_expand origin_def)

section \<open>Trees of directories\<close>

fun descend :: "('n, 'x) inode_ops_scheme \<Rightarrow> ('n \<Rightarrow> bool) \<Rightarrow> 'n \<Rightarrow> string list \<Rightarrow> 'n \<Rightarrow> bool" where
  "descend io dir d [] c \<longleftrightarrow> c = d"
| "descend io dir d (name # names) c \<longleftrightarrow>
     good_name name \<and> name \<notin> {''.'', ''..''} \<and>
     (case lookup_entry io d name of Inl _ \<Rightarrow> False | Inr n \<Rightarrow> dir n \<and> descend io dir n names c)"

locale inode_tree =
  fixes io :: "'s \<Rightarrow> ('n, 'x) inode_ops_scheme" and ok :: "'s \<Rightarrow> bool"
    and node :: "'s \<Rightarrow> 'n \<Rightarrow> bool" and dir :: "'s \<Rightarrow> 'n \<Rightarrow> bool"
  assumes child_node: "\<lbrakk>ok s; node s d; name \<notin> {''.'', ''..''}; lookup_entry (io s) d name = Inr c\<rbrakk> \<Longrightarrow> node s c"
    and child_parent: "\<lbrakk>ok s; node s d; name \<notin> {''.'', ''..''}; lookup_entry (io s) d name = Inr c; dir s c\<rbrakk>
      \<Longrightarrow> lookup_entry (io s) c ''..'' = Inr d"
    and dir_no_link: "\<lbrakk>ok s; node s c; dir s c\<rbrakk> \<Longrightarrow> is_symlink (io s) c = Inr False"
begin

lemma descend_walk:
  "\<lbrakk>ok s; node s d; descend (io s) (dir s) d names c\<rbrakk> \<Longrightarrow> walk (io s) root d names depth = Inr (c, depth)"
proof (induction names arbitrary: d)
  case (Cons name names)
  from Cons.prems(3) obtain n where n: "lookup_entry (io s) d name = Inr n" "name \<notin> {''.'', ''..''}" "dir s n"
      "descend (io s) (dir s) n names c"
    by (auto split: sum.splits)
  have "node s n" using child_node Cons.prems(1,2) n(1,2) by blast
  with Cons.IH Cons.prems(1) n dir_no_link show ?case by (simp add: walk_Cons hop_def)
qed simp

lemma descend_good: "descend (io s) (dir s) d names c \<Longrightarrow> list_all good_name names"
  by (induction names arbitrary: d) (auto split: sum.splits)

lemma down_up_walk:
  "\<lbrakk>ok s; node s d; descend (io s) (dir s) d names c\<rbrakk>
     \<Longrightarrow> walk (io s) root d (names @ replicate (length names) ''..'') depth = Inr (d, depth)"
proof (induction names arbitrary: d)
  case (Cons name names)
  from Cons.prems(3) obtain n where n: "lookup_entry (io s) d name = Inr n" "name \<notin> {''.'', ''..''}" "dir s n"
      "descend (io s) (dir s) n names c"
    by (auto split: sum.splits)
  have node: "node s n" using child_node Cons.prems(1,2) n(1,2) by blast
  have up: "hop (io s) n ''..'' = Inr (At d)"
    using child_parent [OF Cons.prems(1,2) n(2,1,3)] by (simp add: hop_def)
  have "walk (io s) root n (names @ replicate (length names) ''..'' @ [''..'']) depth = Inr (d, depth)"
    using Cons.IH [OF Cons.prems(1) node n(4)] up by (simp add: walk_append walk_Cons flip: append_assoc)
  moreover have "hop (io s) d name = Inr (At n)" using n dir_no_link [OF Cons.prems(1) node] by (simp add: hop_def)
  ultimately show ?case by (simp add: walk_Cons replicate_append_same)
qed simp

lemma resolve_down_up:
  assumes "ok s" "node s d" "descend (io s) (dir s) d names c"
  shows "resolve_path (io s) d (join_path names) = Inr c"
    and "resolve_path (io s) d (join_path (names @ replicate (length names) ''..'')) = Inr d"
proof -
  have "list_all good_name names" using descend_good assms(3) by blast
  then have g: "components (join_path names) = names"
    "components (join_path (names @ replicate (length names) ''..'')) = names @ replicate (length names) ''..''"
    by (auto intro!: components_join simp: list_all_iff good_name_def)
  show "resolve_path (io s) d (join_path names) = Inr c"
    "resolve_path (io s) d (join_path (names @ replicate (length names) ''..'')) = Inr d"
    using assms by (simp_all add: resolve_path_def resolve_inner_def g origin_def descend_walk down_up_walk)
qed

end

text \<open>The inodes of the in-memory file system, as the resolver sees them.\<close>

definition ram_io :: "ram_fs \<Rightarrow> nid inode_ops" where
  "ram_io fs = \<lparr>io_lookup = ram_lookup fs, io_getattr = ram_getattr fs, io_readlink = ram_readlink fs\<rparr>"

definition ram_dir :: "ram_fs \<Rightarrow> nid \<Rightarrow> bool" where
  "ram_dir fs n \<longleftrightarrow> is_dir fs n \<and> md_file_type (ri_metadata (rf_node fs n)) = Directory"

interpretation ramtree: inode_tree ram_io ram_inv live ram_dir
  using ram_lookup_child
  by unfold_locales (auto simp: ram_io_def ram_dir_def lookup_entry_def is_symlink_def ram_getattr_def)

section \<open>Properties\<close>

text \<open>
  C20.  Resolving a path is splicing: the recursive resolver with its shared depth counter
  returns exactly what a single pass returns that replaces every symbolic link by the
  components of its target, and fails with \<open>TooManyLinks\<close> at the 41st link.  It always
  terminates, and a successful resolution has followed at most 40 links.
\<close>

theorem resolve_path_spec:
  "resolve_path io start path = bnd (expand io start start (components path) 0) (\<lambda>(n, _). Inr n)
    \<and> (\<forall>n k. walk io start start (components path) 0 = Inr (n, k) \<longrightarrow> k \<le> MAX_SYMLINK_DEPTH)"
  using resolve_path_expand [of io start path] expand_links [of io start start "components path" 0]
  by (simp add: walk_expand)

definition self_link :: "nat inode_ops" where
  "self_link = \<lparr>io_lookup = (\<lambda>n name. if n = 0 \<and> name = ''l'' then Inr 1 else Inl (FsErr NotFound)),
     io_getattr = (\<lambda>n. Inr (new_meta n 0 (if n = 1 then Symlink else Directory))),
     io_readlink = (\<lambda>n. Inr ''l'')\<rparr>"

lemma expand_loop:
  assumes "hop io cur name = Inr (Link l)" "io_readlink io l = Inr target"
    and "origin root cur target = cur" "components target = name # rest"
  shows "expand io root cur (name # names) links = Inl (FsErr TooManyLinks)"
proof (induction "MAX_SYMLINK_DEPTH - links" arbitrary: links names)
  case 0
  then show ?case using assms(1) by (simp add: expand.simps(2))
next
  case (Suc m)
  have "expand io root cur (components target @ names) (links + 1) = Inl (FsErr TooManyLinks)"
    using Suc(2) unfolding assms(4) append_Cons by (intro Suc(1)) simp
  then show ?case using Suc(2) assms by (simp add: expand.simps(2))
qed

theorem resolve_path_spec_witness:
  "resolve_path self_link 0 ''l'' = Inl (FsErr TooManyLinks)
    \<and> (\<exists>n k. walk self_link 0 0 (components ''.'') 0 = Inr (n, k) \<and> k \<le> MAX_SYMLINK_DEPTH)"
proof -
  have c: "components ''l'' = [''l'']" using components_name [of "''l''" "[]"] by (simp add: good_name_def)
  have "hop self_link 0 ''l'' = Inr (Link 1)" "io_readlink self_link 1 = Inr ''l''"
    by (simp_all add: hop_def lookup_entry_def is_symlink_def self_link_def new_meta_def)
  from expand_loop [OF this, of 0 "[]" "[]" 0] c
  have "expand self_link 0 0 (components ''l'') 0 = Inl (FsErr TooManyLinks)"
    by (simp add: origin_def is_absolute_def)
  moreover have "walk self_link 0 0 (components ''.'') 0 = Inr (0, 0)"
    using components_name [of "''.''" "[]"] by (simp add: good_name_def hop_def walk.simps)
  ultimately show ?thesis
    using resolve_path_spec [of self_link 0 "''l''"] resolve_path_spec [of self_link 0 "''.''"] by auto
qed

text \<open>
  C21.  On every reachable in-memory file system, a path of names that leads from a live
  directory down through directories resolves to the last of them, and appending as many
  \<open>..\<close> components as it has names resolves back to the directory it started from.
\<close>

theorem ram_resolve_down_up:
  assumes "ram_reach fs" "live fs d" "descend (ram_io fs) (ram_dir fs) d names c"
  shows "resolve_path (ram_io fs) d (join_path names) = Inr c
    \<and> resolve_path (ram_io fs) d (join_path (names @ replicate (length names) ''..'')) = Inr d"
  using ramtree.resolve_down_up [OF ram_reach_inv [OF assms(1)] assms(2,3)] by blast

theorem ram_resolve_down_up_witness:
  "resolve_path (ram_io ram_ab) 0 ''/a/b'' = Inr 2 \<and> resolve_path (ram_io ram_ab) 0 ''/a/b/../..'' = Inr 0"
proof -
  have "md_file_type (ri_metadata (rf_node ram_ab 1)) = Directory" "md_file_type (ri_metadata (rf_node ram_ab 2)) = Directory"
    by (simp_all add: ram_ab_def ram_a_def ram_eval new_meta_def)
  then have "ram_lookup ram_ab 0 ''a'' = Inr 1" "ram_lookup ram_ab 1 ''b'' = Inr 2" "ram_dir ram_ab 1" "ram_dir ram_ab 2"
    by (simp_all add: ram_ab_eval ram_lookup_def bt_get_def ram_dir_def del: One_nat_def)
  then have "descend (ram_io ram_ab) (ram_dir ram_ab) 0 [''a'', ''b''] 2"
    by (simp add: lookup_entry_def ram_io_def good_name_def)
  from ram_resolve_down_up [OF ram_ab_reach _ this] show ?thesis
    by (simp add: ram_ab_eval numeral_2_eq_2)
qed

end
