(* ===== verification/Kor_Mount.thy ===== *)
theory Kor_Mount
  imports Kor_Path "HOL-Library.Sublist"
begin

text \<open>
  The mount table and the registry of file system drivers,
  \<^verbatim>\<open>filesystems/kor-fs/src/mount.rs\<close> and \<^verbatim>\<open>registry.rs\<close>.  A mounted instance is a value of
  an arbitrary type; the methods of the \<^verbatim>\<open>SuperBlock\<close> trait are a record of operations over
  a world that holds the state of all instances.
\<close>

section \<open>Mount paths\<close>

definition trim_end :: "string \<Rightarrow> string" where
  "trim_end p = rev (dropWhile (\<lambda>c. c = slash) (rev p))"

definition trim_start :: "string \<Rightarrow> string" where
  "trim_start p = dropWhile (\<lambda>c. c = slash) p"

definition canonicalize_mount_path :: "string \<Rightarrow> string" where
  "canonicalize_mount_path path =
     (let trimmed = trim_end path in
      if trimmed = [] then [slash]
      else if is_absolute trimmed then trimmed
      else slash # trimmed)"

definition is_mount_prefix :: "string \<Rightarrow> string \<Rightarrow> bool" where
  "is_mount_prefix mount_path canonical \<longleftrightarrow>
     canonical = mount_path \<or>
     prefix mount_path canonical \<and>
       (mount_path \<noteq> [] \<and> last mount_path = slash \<or>
        length mount_path < length canonical \<and> canonical ! length mount_path = slash)"

definition strip_mount :: "string \<Rightarrow> string \<Rightarrow> string" where
  "strip_mount mount_path canonical =
     trim_start (if prefix mount_path canonical then drop (length mount_path) canonical else canonical)"

section \<open>The mount table\<close>

record 'fs mount_table =
  mt_table :: "(string, 'fs) btree"

definition mt_new :: "'fs mount_table" where
  "mt_new = \<lparr>mt_table = []\<rparr>"

definition mt_mount :: "'fs mount_table \<Rightarrow> string \<Rightarrow> 'fs \<Rightarrow> 'fs mount_table fsres" where
  "mt_mount t path fs =
     (let canonical = canonicalize_mount_path path in
      if bt_contains (mt_table t) canonical then Inl (FsErr AlreadyExists)
      else Inr (t\<lparr>mt_table := bt_insert canonical fs (mt_table t)\<rparr>))"

definition mt_unmount :: "'fs mount_table \<Rightarrow> string \<Rightarrow> 'fs mount_table fsres" where
  "mt_unmount t path =
     (let canonical = canonicalize_mount_path path in
      if bt_contains (mt_table t) canonical then Inr (t\<lparr>mt_table := bt_remove canonical (mt_table t)\<rparr>)
      else Inl (FsErr NotFound))"

text \<open>\<^verbatim>\<open>range(..=canonical).rfind(..)\<close>: the last matching entry among the keys up to the path.\<close>

definition best_mount :: "'fs mount_table \<Rightarrow> string \<Rightarrow> (string \<times> 'fs) option" where
  "best_mount t canonical =
     find (\<lambda>(mount_path, _). is_mount_prefix mount_path canonical)
       (rev (filter (\<lambda>(k, _). k \<le> canonical) (mt_table t)))"

definition resolve_mount :: "'fs mount_table \<Rightarrow> string \<Rightarrow> 'fs option" where
  "resolve_mount t path = map_option snd (best_mount t (canonicalize_mount_path path))"

definition longest_prefix :: "'fs mount_table \<Rightarrow> string \<Rightarrow> string option" where
  "longest_prefix t path = map_option fst (best_mount t (canonicalize_mount_path path))"

section \<open>Mounting instances\<close>

record ('w, 'fs, 'n) super_block =
  sb_root_inode :: "'w \<Rightarrow> 'fs \<Rightarrow> 'n"
  sb_sync :: "'w \<Rightarrow> 'fs \<Rightarrow> unit fsres \<times> 'w"
  sb_on_mount :: "'w \<Rightarrow> 'fs \<Rightarrow> unit fsres \<times> 'w"
  sb_on_unmount :: "'w \<Rightarrow> 'fs \<Rightarrow> unit fsres \<times> 'w"
  sb_inodes :: "'w \<Rightarrow> 'n inode_ops"

definition mount_fs ::
  "('w, 'fs, 'n) super_block \<Rightarrow> 'w \<Rightarrow> 'fs mount_table \<Rightarrow> string \<Rightarrow> 'fs \<Rightarrow> unit fsres \<times> 'w \<times> 'fs mount_table" where
  "mount_fs sb w t path fs =
     (case mt_mount t path fs of
        Inl e \<Rightarrow> (Inl e, w, t)
      | Inr t1 \<Rightarrow>
          (case sb_on_mount sb w fs of
             (Inl error, w1) \<Rightarrow>
               (Inl error, w1, case mt_unmount t1 path of Inr t2 \<Rightarrow> t2 | Inl _ \<Rightarrow> t1)
           | (Inr _, w1) \<Rightarrow> (Inr (), w1, t1)))"

definition unmount_fs ::
  "('w, 'fs, 'n) super_block \<Rightarrow> 'w \<Rightarrow> 'fs mount_table \<Rightarrow> string \<Rightarrow> unit fsres \<times> 'w \<times> 'fs mount_table" where
  "unmount_fs sb w t path =
     (case bt_get (mt_table t) (canonicalize_mount_path path) of
        None \<Rightarrow> (Inl (FsErr NotFound), w, t)
      | Some fs \<Rightarrow>
          (case sb_on_unmount sb w fs of
             (Inl e, w1) \<Rightarrow> (Inl e, w1, t)
           | (Inr _, w1) \<Rightarrow>
               (case mt_unmount t path of
                  Inl e \<Rightarrow> (Inl e, w1, t)
                | Inr t1 \<Rightarrow> (Inr (), w1, t1))))"

definition mount_resolve :: "('w, 'fs, 'n) super_block \<Rightarrow> 'w \<Rightarrow> 'fs mount_table \<Rightarrow> string \<Rightarrow> 'n fsres" where
  "mount_resolve sb w t path =
     bnd (ok_or (resolve_mount t path) (FsErr NotFound)) (\<lambda>fs.
     let mount_path = (case longest_prefix t path of Some m \<Rightarrow> m | None \<Rightarrow> [slash]);
         relative = strip_mount mount_path (canonicalize_mount_path path) in
     resolve_path (sb_inodes sb w) (sb_root_inode sb w fs) relative)"

fun sync_each :: "('w, 'fs, 'n) super_block \<Rightarrow> 'w \<Rightarrow> 'fs list \<Rightarrow> unit fsres \<times> 'w" where
  "sync_each sb w [] = (Inr (), w)"
| "sync_each sb w (fs # rest) =
     (case sb_sync sb w fs of
        (Inl e, w1) \<Rightarrow> (Inl e, w1)
      | (Inr _, w1) \<Rightarrow> sync_each sb w1 rest)"

definition sync_all :: "('w, 'fs, 'n) super_block \<Rightarrow> 'w \<Rightarrow> 'fs mount_table \<Rightarrow> unit fsres \<times> 'w" where
  "sync_all sb w t = sync_each sb w (bt_values (mt_table t))"

section \<open>The driver registry\<close>

record ('w, 'dev, 'fs) fs_driver =
  drv_name :: string
  drv_mount :: "'w \<Rightarrow> 'dev option \<Rightarrow> 'fs fsres \<times> 'w"

definition register_filesystem ::
  "('w, 'dev, 'fs) fs_driver list \<Rightarrow> ('w, 'dev, 'fs) fs_driver \<Rightarrow> ('w, 'dev, 'fs) fs_driver list" where
  "register_filesystem drivers driver = drivers @ [driver]"

definition find_filesystem :: "('w, 'dev, 'fs) fs_driver list \<Rightarrow> string \<Rightarrow> ('w, 'dev, 'fs) fs_driver option" where
  "find_filesystem drivers name = find (\<lambda>d. drv_name d = name) drivers"

definition mount_named ::
  "('w, 'fs, 'n) super_block \<Rightarrow> ('w, 'dev, 'fs) fs_driver list \<Rightarrow> 'w \<Rightarrow> 'fs mount_table \<Rightarrow>
   string \<Rightarrow> 'dev option \<Rightarrow> string \<Rightarrow> 'fs fsres \<times> 'w \<times> 'fs mount_table" where
  "mount_named sb drivers w t name device path =
     (case find_filesystem drivers name of
        None \<Rightarrow> (Inl (FsErr NotFound), w, t)
      | Some driver \<Rightarrow>
          (case drv_mount driver w device of
             (Inl e, w1) \<Rightarrow> (Inl e, w1, t)
           | (Inr fs, w1) \<Rightarrow>
               (case mount_fs sb w1 t path fs of
                  (Inl e, w2, t2) \<Rightarrow> (Inl e, w2, t2)
                | (Inr _, w2, t2) \<Rightarrow> (Inr fs, w2, t2))))"

section \<open>Longest prefixes\<close>

definition mounts_wf :: "'fs mount_table \<Rightarrow> bool" where
  "mounts_wf t \<longleftrightarrow> bt_wf (mt_table t)"

lemma prefix_le: "prefix p q \<Longrightarrow> p \<le> (q :: string)"
proof -
  assume "prefix p q"
  then obtain r where "q = p @ r" by (auto simp: prefix_def)
  then show ?thesis by (induction p arbitrary: q) auto
qed

lemma is_mount_prefix_prefix: "is_mount_prefix k c \<Longrightarrow> prefix k c"
  by (auto simp: is_mount_prefix_def)

lemma find_rev_last:
  assumes "find P (rev xs) = Some x"
  obtains ys zs where "xs = ys @ x # zs" "P x" "\<forall>z \<in> set zs. \<not> P z"
proof -
  from assms obtain i where i: "i < length xs" "P (rev xs ! i)" "x = rev xs ! i" "\<forall>j<i. \<not> P (rev xs ! j)"
    by (auto simp: find_Some_iff)
  have "rev xs = take i (rev xs) @ x # drop (Suc i) (rev xs)" using i(1,3) by (simp add: id_take_nth_drop)
  then have "xs = rev (drop (Suc i) (rev xs)) @ x # rev (take i (rev xs))"
    by (metis append.assoc append_Cons append_Nil rev_append rev_rev_ident rev_singleton_conv rev.simps(2))
  moreover have "\<forall>z \<in> set (rev (take i (rev xs))). \<not> P z"
    using i(1,4) by (auto simp: in_set_conv_nth)
  ultimately show ?thesis using that i(2,3) by blast
qed

lemma best_mount_Some:
  assumes "mounts_wf t" "best_mount t c = Some (m, fs)"
  shows "bt_get (mt_table t) m = Some fs" "is_mount_prefix m c"
    and "\<lbrakk>k \<in> bt_keys (mt_table t); is_mount_prefix k c\<rbrakk> \<Longrightarrow> prefix k m"
proof -
  let ?P = "\<lambda>(mount_path, _). is_mount_prefix mount_path c"
  let ?f = "filter (\<lambda>(k, _). k \<le> c) (mt_table t)"
  obtain ys zs where f: "?f = ys @ (m, fs) # zs" "is_mount_prefix m c" "\<forall>z \<in> set zs. \<not> ?P z"
    using find_rev_last [OF assms(2) [unfolded best_mount_def]] by (metis (mono_tags, lifting) case_prod_conv)
  have wf: "bt_wf (mt_table t)" using assms(1) by (simp add: mounts_wf_def)
  have "(m, fs) \<in> set ?f" by (simp add: f(1))
  then show "bt_get (mt_table t) m = Some fs" by (simp add: bt_get_Some_set [OF wf])
  show "is_mount_prefix m c" by (rule f(2))
  assume k: "k \<in> bt_keys (mt_table t)" "is_mount_prefix k c"
  obtain v where v: "(k, v) \<in> set (mt_table t)" using k(1) by (auto simp: bt_keys_def)
  have "(k, v) \<in> set ?f" using v k(2) by (auto dest: is_mount_prefix_prefix prefix_le)
  then consider "(k, v) \<in> set ys" | "(k, v) = (m, fs)" using f(1,3) k(2) by auto
  then have "k \<le> m"
  proof cases
    case 1
    have "sorted_wrt (\<lambda>x y. fst x < fst y) ?f" using wf by (simp add: bt_wf_def sorted_wrt_map sorted_wrt_filter)
    then show ?thesis using 1 unfolding f(1) by (force simp: sorted_wrt_append)
  qed simp
  moreover have "prefix k m \<or> prefix m k"
    using k(2) f(2) by (meson is_mount_prefix_prefix prefix_same_cases)
  ultimately show "prefix k m" using prefix_le [of m k] by force
qed

lemma best_mount_None:
  "best_mount t c = None \<Longrightarrow> k \<in> bt_keys (mt_table t) \<Longrightarrow> \<not> is_mount_prefix k c"
  using prefix_le [OF is_mount_prefix_prefix]
  by (fastforce simp: best_mount_def find_None_iff bt_keys_def)

section \<open>Paths built from names\<close>

lemma join_path_append: "join_path (xs @ ys) = join_path xs @ join_path ys"
  by (induction xs) simp_all

lemma join_path_Nil_iff [simp]: "join_path cs = [] \<longleftrightarrow> cs = []"
  by (cases cs) simp_all

lemma join_path_head: "cs \<noteq> [] \<Longrightarrow> \<exists>p. join_path cs = slash # p"
  by (cases cs) simp_all

lemma join_path_last: "\<lbrakk>list_all good_name cs; cs \<noteq> []\<rbrakk> \<Longrightarrow> last (join_path cs) \<noteq> slash"
proof (induction cs rule: rev_induct)
  case (snoc c cs)
  then have "c \<noteq> []" "slash \<notin> set c" by (simp_all add: good_name_def)
  then have "last c \<noteq> slash" by (metis last_in_set)
  then show ?case using \<open>c \<noteq> []\<close> by (simp add: join_path_append)
qed simp

lemma trim_end_id: "p = [] \<or> last p \<noteq> slash \<Longrightarrow> trim_end p = p"
  by (cases p rule: rev_cases) (auto simp: trim_end_def)

lemma canonical_join:
  assumes "list_all good_name cs"
  shows "canonicalize_mount_path (join_path cs) = (if cs = [] then [slash] else join_path cs)"
proof -
  have "trim_end (join_path cs) = join_path cs"
    using join_path_last [OF assms] by (intro trim_end_id) auto
  moreover have "is_absolute (join_path cs)" if "cs \<noteq> []"
    using join_path_head [OF that] by (auto simp: is_absolute_def)
  ultimately show ?thesis by (auto simp: canonicalize_mount_path_def Let_def)
qed

lemma components_trim: "components (trim_start p) = components p"
proof -
  have "comp_next (trim_start p) = comp_next p" by (simp add: comp_next_def trim_start_def)
  then show ?thesis by (metis components.simps)
qed

lemma mount_prefix_join:
  assumes "list_all good_name ms" "list_all good_name rest"
  defines "m \<equiv> canonicalize_mount_path (join_path ms)" and "c \<equiv> canonicalize_mount_path (join_path (ms @ rest))"
  shows "is_mount_prefix m c" and "components (strip_mount m c) = rest"
proof -
  have c: "c = (if ms @ rest = [] then [slash] else join_path ms @ join_path rest)"
    unfolding c_def using assms(1,2) by (subst canonical_join) (simp_all add: join_path_append)
  have m: "m = (if ms = [] then [slash] else join_path ms)" unfolding m_def using assms(1) by (rule canonical_join)
  have pre: "prefix m c" using m c join_path_head [of rest] by auto
  show "is_mount_prefix m c"
    using m c pre join_path_head [of rest] by (cases rest; cases ms) (auto simp: is_mount_prefix_def nth_append)
  have r: "components (join_path rest) = rest" using components_join assms(2) by blast
  show "components (strip_mount m c) = rest"
  proof (cases "ms = []")
    case True
    then have "components (drop (length m) c) = components c"
      using m c join_path_head [of rest] components_slash by (cases rest) auto
    then show ?thesis using True c r m components_slash [of "[]"] pre by (simp add: strip_mount_def components_trim split: if_splits)
  next
    case False
    then show ?thesis using m c r pre by (simp add: strip_mount_def components_trim)
  qed
qed

lemma resolve_path_cong: "components p = components q \<Longrightarrow> resolve_path io r p = resolve_path io r q"
  by (simp add: resolve_path_expand)

lemma bt_remove_fresh_insert: "k \<notin> bt_keys t \<Longrightarrow> bt_remove k (bt_insert k v t) = t"
proof (induction k v t rule: bt_insert.induct)
  case (2 k v k' v' t)
  then have "bt_remove k t = t" by (auto simp: bt_remove_def bt_keys_def filter_id_conv)
  then show ?case using 2 by (auto simp: bt_remove_def)
qed (simp add: bt_remove_def)

section \<open>Properties\<close>

text \<open>
  C22.  The table answers a path with its longest mount point: \<open>longest_prefix\<close> returns a
  mount point that is a prefix of the path at a component boundary and that every other
  such mount point is a prefix of, \<open>resolve_mount\<close> returns the instance mounted there, and
  both return nothing only when no mount point matches.
\<close>

theorem resolve_mount_longest:
  assumes "mounts_wf t" and c: "c = canonicalize_mount_path path"
  shows "case longest_prefix t path of
      Some m \<Rightarrow> m \<in> bt_keys (mt_table t) \<and> is_mount_prefix m c \<and> resolve_mount t path = bt_get (mt_table t) m
        \<and> (\<forall>k \<in> bt_keys (mt_table t). is_mount_prefix k c \<longrightarrow> prefix k m)
    | None \<Rightarrow> resolve_mount t path = None \<and> (\<forall>k \<in> bt_keys (mt_table t). \<not> is_mount_prefix k c)"
proof (cases "best_mount t c")
  case None
  then show ?thesis using best_mount_None c by (auto simp: longest_prefix_def resolve_mount_def)
next
  case (Some x)
  obtain m fs where x: "x = (m, fs)" by force
  note b = best_mount_Some [OF assms(1) Some [unfolded x]]
  have "m \<in> bt_keys (mt_table t)" using b(1) by (metis bt_get_keys option.distinct(1))
  then show ?thesis using Some x b c by (auto simp: longest_prefix_def resolve_mount_def)
qed

definition two_mounts :: "nat mount_table" where
  "two_mounts = \<lparr>mt_table = [(''/'', 0), (''/mnt'', 1), (''/mnt/usb'', 2)]\<rparr>"

lemma two_mounts_wf: "mounts_wf two_mounts"
  by (simp add: mounts_wf_def two_mounts_def less_char_def)

theorem resolve_mount_longest_witness:
  "longest_prefix two_mounts ''/mnt/usb2'' = Some ''/mnt'' \<and> resolve_mount two_mounts ''/mnt/usb2'' = Some 1"
proof -
  have c: "canonicalize_mount_path ''/mnt/usb2'' = ''/mnt/usb2''"
    by (simp add: canonicalize_mount_path_def trim_end_def is_absolute_def)
  have l: "longest_prefix two_mounts ''/mnt/usb2'' = Some ''/mnt''"
    unfolding longest_prefix_def c
    by (simp add: best_mount_def two_mounts_def is_mount_prefix_def less_char_def)
  then show ?thesis using resolve_mount_longest [OF two_mounts_wf refl, of "''/mnt/usb2''"] by (simp add: two_mounts_def bt_get_def)
qed

text \<open>
  C23.  After a successful mount at a path of names, every path below it is resolved in the
  mounted instance, starting at its root with the names that remain, unless some deeper
  mount point lies on the path.
\<close>

theorem mount_then_resolve:
  assumes "mounts_wf t" "list_all good_name ms" "list_all good_name rest"
    and "mount_fs sb w t (join_path ms) fs = (Inr (), w', t')"
    and deeper: "\<forall>k \<in> bt_keys (mt_table t). is_mount_prefix k (canonicalize_mount_path (join_path (ms @ rest)))
      \<longrightarrow> prefix k (canonicalize_mount_path (join_path ms))"
  shows "mount_resolve sb w' t' (join_path (ms @ rest))
    = resolve_path (sb_inodes sb w') (sb_root_inode sb w' fs) (join_path rest)"
proof -
  let ?m = "canonicalize_mount_path (join_path ms)" and ?c = "canonicalize_mount_path (join_path (ms @ rest))"
  have t': "mt_table t' = bt_insert ?m fs (mt_table t)"
    using assms(4) by (auto simp: mount_fs_def mt_mount_def Let_def split: sum.splits prod.splits if_splits)
  have wf: "mounts_wf t'" using assms(1) t' by (simp add: mounts_wf_def)
  note j = mount_prefix_join [OF assms(2,3)]
  obtain m f where b: "best_mount t' ?c = Some (m, f)"
    using best_mount_None [of t' ?c ?m] j(1) t' by (cases "best_mount t' ?c") auto
  note bb = best_mount_Some [OF wf b]
  have "prefix ?m m" using bb(3) [of ?m] j(1) t' by simp
  moreover have "m \<in> bt_keys (mt_table t')" using bb(1) by (metis bt_get_keys option.distinct(1))
  then have "prefix m ?m" using deeper bb(2) t' by auto
  ultimately have m: "m = ?m" by (simp add: prefix_order.order_antisym)
  then have "f = fs" using bb(1) t' by simp
  with b m have "mount_resolve sb w' t' (join_path (ms @ rest))
      = resolve_path (sb_inodes sb w') (sb_root_inode sb w' fs) (strip_mount ?m ?c)"
    by (simp add: mount_resolve_def resolve_mount_def longest_prefix_def)
  also have "\<dots> = resolve_path (sb_inodes sb w') (sb_root_inode sb w' fs) (join_path rest)"
    using j(2) components_join [OF assms(3)] by (intro resolve_path_cong) simp
  finally show ?thesis .
qed

text \<open>The in-memory file system as a mounted instance: mounting and syncing do nothing.\<close>

definition ram_sb :: "(ram_fs, unit, nid) super_block" where
  "ram_sb = \<lparr>sb_root_inode = (\<lambda>w _. rf_root w), sb_sync = (\<lambda>w _. (Inr (), w)),
     sb_on_mount = (\<lambda>w _. (Inr (), w)), sb_on_unmount = (\<lambda>w _. (Inr (), w)), sb_inodes = ram_io\<rparr>"

theorem mount_then_resolve_witness:
  "mount_resolve ram_sb ram_ab (snd (snd (mount_fs ram_sb ram_ab mt_new ''/m'' ()))) ''/m/a'' = Inr 1"
proof -
  let ?t = "\<lparr>mt_table = [(''/m'', ())]\<rparr>"
  have "canonicalize_mount_path ''/m'' = ''/m''"
    by (simp add: canonicalize_mount_path_def trim_end_def is_absolute_def)
  then have m: "mount_fs ram_sb ram_ab mt_new ''/m'' () = (Inr (), ram_ab, ?t)"
    by (simp add: mount_fs_def mt_mount_def mt_new_def ram_sb_def)
  have root: "rf_root ram_ab = 0" using ram_a_eval by (simp add: ram_ab_alt with_new_simps)
  have "mount_resolve ram_sb ram_ab ?t ''/m/a'' = resolve_path (ram_io ram_ab) 0 ''/a''"
    using mount_then_resolve [of mt_new "[''m'']" "[''a'']" ram_sb ram_ab "()" ram_ab ?t] m root
    by (simp add: good_name_def mounts_wf_def mt_new_def ram_sb_def)
  also have "\<dots> = Inr 1"
  proof -
    have "md_file_type (ri_metadata (rf_node ram_ab 1)) = Directory"
      by (simp add: ram_ab_def ram_a_def ram_eval new_meta_def)
    then have "descend (ram_io ram_ab) (ram_dir ram_ab) 0 [''a''] 1"
      by (simp add: lookup_entry_def ram_io_def good_name_def ram_lookup_def ram_ab_eval bt_get_def ram_dir_def
          del: One_nat_def)
    from ramtree.resolve_down_up(1) [OF ram_reach_inv [OF ram_ab_reach] _ this] show ?thesis
      by (simp add: ram_ab_eval)
  qed
  finally show ?thesis using m by simp
qed

text \<open>
  Failures keep the table as it was: a mount whose path is taken or whose \<open>on_mount\<close>
  hook fails leaves the table unchanged, an unmount whose hook fails keeps the instance
  attached, and unmounting after a successful mount restores the table.
\<close>

lemma mount_failure_keeps_table:
  "(case mount_fs sb w t path fs of
      (Inl e, w', t') \<Rightarrow> t' = t
    | (Inr _, w', t') \<Rightarrow> bt_get (mt_table t') (canonicalize_mount_path path) = Some fs \<and>
        (case unmount_fs sb w' t' path of
           (Inl e, w'', t'') \<Rightarrow> t'' = t' \<and> sb_on_unmount sb w' fs = (Inl e, w'')
         | (Inr _, w'', t'') \<Rightarrow> t'' = t))"
proof -
  let ?c = "canonicalize_mount_path path"
  let ?t1 = "t\<lparr>mt_table := bt_insert ?c fs (mt_table t)\<rparr>"
  show ?thesis
  proof (cases "bt_contains (mt_table t) ?c")
    case True
    then show ?thesis by (auto simp: mount_fs_def mt_mount_def Let_def)
  next
    case False
    then have undo: "bt_remove ?c (bt_insert ?c fs (mt_table t)) = mt_table t"
      by (intro bt_remove_fresh_insert) (simp add: bt_get_keys)
    then have un: "mt_unmount ?t1 path = Inr t" by (simp add: mt_unmount_def Let_def)
    have m: "mt_mount t path fs = Inr ?t1" using False by (simp add: mt_mount_def Let_def)
    show ?thesis
      by (simp add: mount_fs_def unmount_fs_def m un split: prod.split sum.split)
  qed
qed

end
