(* ===== verification/Kor_Fd.thy ===== *)
theory Kor_Fd
  imports Kor_RamFs
begin

text \<open>
  Open files, \<^verbatim>\<open>filesystems/kor-fs/src/fd.rs\<close>: flags, the seek position, reading, writing
  and seeking through an inode.  \<open>cursor\<close> is the specification, a byte sequence with a
  position; the locale \<open>byte_file\<close> states what a descriptor relies on of the inode, and the
  in-memory file system provides it.
\<close>

unbundle bit_operations_syntax

section \<open>Flags\<close>

record open_flags =
  of_bits :: u32

definition OF_READ :: open_flags where "OF_READ = \<lparr>of_bits = push_bit 0 1\<rparr>"
definition OF_WRITE :: open_flags where "OF_WRITE = \<lparr>of_bits = push_bit 1 1\<rparr>"
definition OF_APPEND :: open_flags where "OF_APPEND = \<lparr>of_bits = push_bit 2 1\<rparr>"
definition OF_CREATE :: open_flags where "OF_CREATE = \<lparr>of_bits = push_bit 3 1\<rparr>"
definition OF_TRUNCATE :: open_flags where "OF_TRUNCATE = \<lparr>of_bits = push_bit 4 1\<rparr>"

definition of_empty :: open_flags where "of_empty = \<lparr>of_bits = 0\<rparr>"

definition of_contains :: "open_flags \<Rightarrow> open_flags \<Rightarrow> bool" where
  "of_contains f flag \<longleftrightarrow> of_bits f AND of_bits flag = of_bits flag"

definition of_is_empty :: "open_flags \<Rightarrow> bool" where
  "of_is_empty f \<longleftrightarrow> of_bits f = 0"

definition of_bitor :: "open_flags \<Rightarrow> open_flags \<Rightarrow> open_flags" where
  "of_bitor f g = \<lparr>of_bits = of_bits f OR of_bits g\<rparr>"

text \<open>The writer of \<^verbatim>\<open>Display\<close>: the text so far and whether nothing has been written yet.\<close>

definition show_flag :: "open_flags \<Rightarrow> string \<times> open_flags \<Rightarrow> string \<times> bool \<Rightarrow> string \<times> bool" where
  "show_flag f = (\<lambda>(name, bit) (out, first).
     if of_bits f AND of_bits bit \<noteq> 0 then (out @ (if first then [] else '' | '') @ name, False)
     else (out, first))"

definition of_display :: "open_flags \<Rightarrow> string" where
  "of_display f =
     (let (out, first) = fold (show_flag f)
        [(''READ'', OF_READ), (''WRITE'', OF_WRITE), (''APPEND'', OF_APPEND), (''CREATE'', OF_CREATE),
         (''TRUNCATE'', OF_TRUNCATE)] ([], True) in
      if first then out @ ''NONE'' else out)"

section \<open>Descriptors\<close>

datatype seek_from = SeekStart usize | SeekCurrent int | SeekEnd int

record 'n file_descriptor =
  fd_inode :: 'n
  fd_position :: usize
  fd_flags :: open_flags
  fd_mode :: u32

record ('s, 'n) file_ops =
  fo_read_at :: "'s \<Rightarrow> 'n \<Rightarrow> usize \<Rightarrow> usize \<Rightarrow> bytes fsres"
  fo_write_at :: "'s \<Rightarrow> 'n \<Rightarrow> usize \<Rightarrow> bytes \<Rightarrow> usize fsres \<times> 's"
  fo_getattr :: "'s \<Rightarrow> 'n \<Rightarrow> metadata fsres"

definition fd_new :: "'n \<Rightarrow> open_flags \<Rightarrow> u32 \<Rightarrow> 'n file_descriptor" where
  "fd_new inode flags mode = \<lparr>fd_inode = inode, fd_position = 0, fd_flags = flags, fd_mode = mode\<rparr>"

definition fd_read :: "('s, 'n) file_ops \<Rightarrow> 's \<Rightarrow> 'n file_descriptor \<Rightarrow> usize \<Rightarrow> (bytes \<times> 'n file_descriptor) fsres" where
  "fd_read fo s fd len =
     bnd (fo_read_at fo s (fd_inode fd) (fd_position fd) len) (\<lambda>bs.
     Inr (bs, fd\<lparr>fd_position := usize_add (fd_position fd) (length bs)\<rparr>))"

definition fd_write ::
  "('s, 'n) file_ops \<Rightarrow> 's \<Rightarrow> 'n file_descriptor \<Rightarrow> bytes \<Rightarrow> usize fsres \<times> 'n file_descriptor \<times> 's" where
  "fd_write fo s fd buf =
     (case (if of_contains (fd_flags fd) OF_APPEND
            then bnd (fo_getattr fo s (fd_inode fd)) (\<lambda>meta. Inr (fd\<lparr>fd_position := md_size meta\<rparr>))
            else Inr fd) of
        Inl e \<Rightarrow> (Inl e, fd, s)
      | Inr fd \<Rightarrow>
          (case fo_write_at fo s (fd_inode fd) (fd_position fd) buf of
             (Inl e, s1) \<Rightarrow> (Inl e, fd, s1)
           | (Inr n, s1) \<Rightarrow> (Inr n, fd\<lparr>fd_position := usize_add (fd_position fd) n\<rparr>, s1)))"

text \<open>
  An \<^verbatim>\<open>isize\<close> is an integer in \<open>[-2 ^ 63, 2 ^ 63)\<close>; the cast of its absolute value to \<^verbatim>\<open>usize\<close>
  is exact, also for the smallest one, whose negation wraps to itself.
\<close>

definition seek_rel :: "usize \<Rightarrow> int \<Rightarrow> usize fsres" where
  "seek_rel base delta =
     (if delta \<ge> 0 then Inr (usize_add base (nat delta))
      else let abs = nat (- delta) in
        if abs > base then Inl (FsErr InvalidInput) else Inr (base - abs))"

definition fd_seek :: "('s, 'n) file_ops \<Rightarrow> 's \<Rightarrow> 'n file_descriptor \<Rightarrow> seek_from \<Rightarrow> (usize \<times> 'n file_descriptor) fsres" where
  "fd_seek fo s fd whence =
     bnd (case whence of
            SeekStart pos \<Rightarrow> Inr pos
          | SeekCurrent delta \<Rightarrow> seek_rel (fd_position fd) delta
          | SeekEnd delta \<Rightarrow> bnd (fo_getattr fo s (fd_inode fd)) (\<lambda>meta. seek_rel (md_size meta) delta))
       (\<lambda>pos. Inr (pos, fd\<lparr>fd_position := pos\<rparr>))"

definition fd_close :: "'n file_descriptor \<Rightarrow> unit fsres" where
  "fd_close fd = Inr ()"

section \<open>The specification: a cursor in a byte sequence\<close>

datatype file_op = FRead usize | FWrite bytes | FSeek seek_from

datatype file_answer = Bytes bytes | Count usize | Failed crash

definition seek_to :: "nat \<Rightarrow> nat \<Rightarrow> seek_from \<Rightarrow> int" where
  "seek_to len pos whence =
     (case whence of SeekStart p \<Rightarrow> int p | SeekCurrent d \<Rightarrow> int pos + d | SeekEnd d \<Rightarrow> int len + d)"

fun cursor_step :: "bool \<Rightarrow> bytes \<Rightarrow> nat \<Rightarrow> file_op \<Rightarrow> file_answer \<times> bytes \<times> nat" where
  "cursor_step app c p (FRead n) =
     (let bs = take n (drop p c) in (Bytes bs, c, p + length bs))"
| "cursor_step app c p (FWrite buf) =
     (let q = (if app then length c else p) in (Count (length buf), overwrite c q buf, q + length buf))"
| "cursor_step app c p (FSeek wh) =
     (let t = seek_to (length c) p wh in
      if t < 0 then (Failed (FsErr InvalidInput), c, p) else (Count (nat t), c, nat t))"

fun cursor_run :: "bool \<Rightarrow> bytes \<Rightarrow> nat \<Rightarrow> file_op list \<Rightarrow> file_answer list \<times> bytes \<times> nat" where
  "cursor_run app c p [] = ([], c, p)"
| "cursor_run app c p (x # xs) =
     (let (a, c1, p1) = cursor_step app c p x; (as, c2, p2) = cursor_run app c1 p1 xs in (a # as, c2, p2))"

text \<open>No operation of the sequence moves the cursor beyond \<open>lim\<close> or asks for more than \<open>lim\<close> bytes.\<close>

fun within :: "nat \<Rightarrow> bool \<Rightarrow> bytes \<Rightarrow> nat \<Rightarrow> file_op list \<Rightarrow> bool" where
  "within lim app c p [] \<longleftrightarrow> p \<le> lim"
| "within lim app c p (x # xs) \<longleftrightarrow>
     p \<le> lim \<and> (case x of FRead n \<Rightarrow> n \<le> lim | _ \<Rightarrow> True) \<and>
     (case cursor_step app c p x of (a, c1, p1) \<Rightarrow> within lim app c1 p1 xs)"

fun fd_step ::
  "('s, 'n) file_ops \<Rightarrow> 's \<Rightarrow> 'n file_descriptor \<Rightarrow> file_op \<Rightarrow> file_answer \<times> 'n file_descriptor \<times> 's" where
  "fd_step fo s fd (FRead n) =
     (case fd_read fo s fd n of Inl e \<Rightarrow> (Failed e, fd, s) | Inr (bs, fd1) \<Rightarrow> (Bytes bs, fd1, s))"
| "fd_step fo s fd (FWrite buf) =
     (case fd_write fo s fd buf of
        (Inl e, fd1, s1) \<Rightarrow> (Failed e, fd1, s1)
      | (Inr n, fd1, s1) \<Rightarrow> (Count n, fd1, s1))"
| "fd_step fo s fd (FSeek wh) =
     (case fd_seek fo s fd wh of Inl e \<Rightarrow> (Failed e, fd, s) | Inr (p, fd1) \<Rightarrow> (Count p, fd1, s))"

fun fd_run ::
  "('s, 'n) file_ops \<Rightarrow> 's \<Rightarrow> 'n file_descriptor \<Rightarrow> file_op list \<Rightarrow> file_answer list \<times> 'n file_descriptor \<times> 's" where
  "fd_run fo s fd [] = ([], fd, s)"
| "fd_run fo s fd (x # xs) =
     (let (a, fd1, s1) = fd_step fo s fd x; (as, fd2, s2) = fd_run fo s1 fd1 xs in (a # as, fd2, s2))"

section \<open>What a descriptor relies on\<close>

locale byte_file =
  fixes fo :: "('s, 'n) file_ops" and isfile :: "'s \<Rightarrow> 'n \<Rightarrow> bool" and content :: "'s \<Rightarrow> 'n \<Rightarrow> bytes" and lim :: nat
  assumes read_law: "\<lbrakk>isfile s n; off \<le> lim; len \<le> lim\<rbrakk> \<Longrightarrow> fo_read_at fo s n off len = Inr (take len (drop off (content s n)))"
    and write_law: "\<lbrakk>isfile s n; off + length buf \<le> lim\<rbrakk> \<Longrightarrow>
      \<exists>s'. fo_write_at fo s n off buf = (Inr (length buf), s') \<and> isfile s' n \<and> content s' n = overwrite (content s n) off buf"
    and size_law: "isfile s n \<Longrightarrow> \<exists>md. fo_getattr fo s n = Inr md \<and> md_size md = length (content s n)"
    and lim_law: "2 * lim < USIZE_LIM"
begin

lemma step_refines:
  assumes "isfile s (fd_inode fd)" "content s (fd_inode fd) = c" "fd_position fd = p"
    and "app = of_contains (fd_flags fd) OF_APPEND"
    and "cursor_step app c p x = (a, c1, p1)" "p \<le> lim" "p1 \<le> lim" "case x of FRead n \<Rightarrow> n \<le> lim | _ \<Rightarrow> True"
  shows "\<exists>s1. fd_step fo s fd x = (a, fd\<lparr>fd_position := p1\<rparr>, s1) \<and> isfile s1 (fd_inode fd) \<and> content s1 (fd_inode fd) = c1"
proof (cases x)
  case (FRead n)
  have "usize_add p (length (take n (drop p c))) = p + length (take n (drop p c))"
    using assms(5-8) lim_law FRead by (intro usize_add_eq) (auto simp: Let_def)
  then show ?thesis using FRead assms read_law [OF assms(1), of p n] by (auto simp: fd_read_def Let_def)
next
  case (FWrite buf)
  let ?q = "if app then length c else p"
  have r: "?q + length buf = p1" "a = Count (length buf)" "c1 = overwrite c ?q buf"
    using assms(5) FWrite by (auto simp: Let_def)
  obtain s1 where w: "fo_write_at fo s (fd_inode fd) ?q buf = (Inr (length buf), s1)" "isfile s1 (fd_inode fd)"
    "content s1 (fd_inode fd) = c1"
    using write_law [OF assms(1), of ?q buf] r assms(2,7) by auto
  obtain md where "fo_getattr fo s (fd_inode fd) = Inr md" "md_size md = length c"
    using size_law [OF assms(1)] assms(2) by auto
  moreover have "usize_add ?q (length buf) = p1"
    using r(1) assms(7) lim_law by (subst usize_add_eq) auto
  ultimately show ?thesis using FWrite w r assms(3,4) by (auto simp: fd_write_def)
next
  case (FSeek wh)
  obtain md where md: "fo_getattr fo s (fd_inode fd) = Inr md" "md_size md = length c"
    using size_law [OF assms(1)] assms(2) by auto
  have rel: "seek_rel b d = (if int b + d < 0 then Inl (FsErr InvalidInput) else Inr (nat (int b + d)))"
    if "int b + d < 0 \<or> nat (int b + d) \<le> lim" for b d
    using that lim_law by (auto simp: seek_rel_def Let_def usize_add_eq nat_add_distrib nat_diff_distrib')
  have "seek_to (length c) p wh < 0 \<or> nat (seek_to (length c) p wh) \<le> lim"
    using assms(5,7) FSeek by (auto simp: Let_def split: if_splits)
  then show ?thesis
    using FSeek assms(1-5) md rel
    by (cases wh) (auto simp: fd_seek_def seek_to_def Let_def split: if_splits)
qed

lemma run_refines:
  "\<lbrakk>isfile s (fd_inode fd); within lim app (content s (fd_inode fd)) (fd_position fd) xs;
    app = of_contains (fd_flags fd) OF_APPEND; cursor_run app (content s (fd_inode fd)) (fd_position fd) xs = (as, c', p')\<rbrakk>
   \<Longrightarrow> \<exists>s'. fd_run fo s fd xs = (as, fd\<lparr>fd_position := p'\<rparr>, s') \<and> isfile s' (fd_inode fd) \<and> content s' (fd_inode fd) = c'"
proof (induction xs arbitrary: s fd as)
  case (Cons x xs)
  obtain a c1 p1 where x: "cursor_step app (content s (fd_inode fd)) (fd_position fd) x = (a, c1, p1)"
    by (cases "cursor_step app (content s (fd_inode fd)) (fd_position fd) x") auto
  obtain as1 where r: "cursor_run app c1 p1 xs = (as1, c', p')" "as = a # as1"
    using Cons.prems(4) x by (auto simp: Let_def split: prod.splits)
  have "within lim app c1 p1 xs" using Cons.prems(2) x by simp
  moreover from this have "p1 \<le> lim" by (cases xs) auto
  ultimately obtain s1 where s1: "fd_step fo s fd x = (a, fd\<lparr>fd_position := p1\<rparr>, s1)" "isfile s1 (fd_inode fd)"
      "content s1 (fd_inode fd) = c1"
    using step_refines [OF Cons.prems(1) refl refl Cons.prems(3) x] Cons.prems(2) by auto
  then show ?case
    using Cons.IH [of s1 "fd\<lparr>fd_position := p1\<rparr>" as1] \<open>within lim app c1 p1 xs\<close> r Cons.prems(3) by (auto simp: Let_def)
qed auto

end

section \<open>Descriptors on the in-memory file system\<close>

definition ram_fo :: "(ram_fs, nid) file_ops" where
  "ram_fo = \<lparr>fo_read_at = ram_read_at,
     fo_write_at = (\<lambda>fs n off buf. case ram_write_at fs n off buf of Inl e \<Rightarrow> (Inl e, fs) | Inr (k, fs1) \<Rightarrow> (Inr k, fs1)),
     fo_getattr = ram_getattr\<rparr>"

definition ram_is_file :: "ram_fs \<Rightarrow> nid \<Rightarrow> bool" where
  "ram_is_file fs n \<longleftrightarrow> ri_file_type (rf_node fs n) = Regular
     \<and> md_size (ri_metadata (rf_node fs n)) = length (ri_content (rf_node fs n))"

definition ram_content :: "ram_fs \<Rightarrow> nid \<Rightarrow> bytes" where
  "ram_content fs n = ri_content (rf_node fs n)"

lemma ram_read_at_ok:
  assumes "ri_file_type (rf_node fs n) = Regular" "off + len < USIZE_LIM"
  shows "ram_read_at fs n off len = Inr (take len (drop off (ri_content (rf_node fs n))))"
  using assms by (auto simp: ram_read_at_def Let_def usize_add_eq min_def)

lemma length_overwrite: "length (overwrite c off buf) = max (length c) (off + length buf)"
  by (simp add: overwrite_def)

interpretation ramfile: byte_file ram_fo ram_is_file ram_content ISIZE_MAX
proof unfold_locales
  fix fs n off and len :: nat assume "ram_is_file fs n" "off \<le> ISIZE_MAX" "len \<le> ISIZE_MAX"
  then show "fo_read_at ram_fo fs n off len = Inr (take len (drop off (ram_content fs n)))"
    by (simp add: ram_fo_def ram_read_at_ok ram_is_file_def ram_content_def ISIZE_MAX_def USIZE_LIM_def)
next
  fix fs n off and buf :: bytes assume a: "ram_is_file fs n" "off + length buf \<le> ISIZE_MAX"
  then obtain fs' where "ram_write_at fs n off buf = Inr (length buf, fs')"
    "rf_node fs' n = (rf_node fs n)\<lparr>ri_content := overwrite (ri_content (rf_node fs n)) off buf,
        ri_metadata := (ri_metadata (rf_node fs n))\<lparr>md_size :=
          max (length (ri_content (rf_node fs n))) (off + length buf)\<rparr>\<rparr>"
    using ram_write_at_ok [of fs n off buf] by (auto simp: ram_is_file_def)
  then show "\<exists>s'. fo_write_at ram_fo fs n off buf = (Inr (length buf), s') \<and> ram_is_file s' n
      \<and> ram_content s' n = overwrite (ram_content fs n) off buf"
    using a by (auto simp: ram_fo_def ram_is_file_def ram_content_def length_overwrite)
qed (auto simp: ram_fo_def ram_is_file_def ram_content_def ram_getattr_def ISIZE_MAX_def USIZE_LIM_def)

section \<open>Properties\<close>

text \<open>
  C25.  A descriptor on a regular file is a cursor in a byte sequence: every sequence of
  reads, writes (at the end for an append descriptor) and seeks gives the answers of the
  cursor, leaves the position it leaves and the content it leaves, as long as the cursor
  stays within \<^verbatim>\<open>isize::MAX\<close>; a seek to before the start is refused and moves nothing.
\<close>

theorem fd_refines_cursor:
  assumes "ram_is_file fs (fd_inode fd)" "app = of_contains (fd_flags fd) OF_APPEND"
    and "within ISIZE_MAX app (ram_content fs (fd_inode fd)) (fd_position fd) ops"
    and "cursor_run app (ram_content fs (fd_inode fd)) (fd_position fd) ops = (as, c', p')"
  shows "\<exists>fs'. fd_run ram_fo fs fd ops = (as, fd\<lparr>fd_position := p'\<rparr>, fs') \<and> ram_content fs' (fd_inode fd) = c'"
  using ramfile.run_refines [OF assms(1,3,2,4)] by blast

theorem fd_refines_cursor_witness:
  "fst (fd_run ram_fo ram_file (fd_new 1 (of_bitor OF_WRITE OF_APPEND) 0)
     [FWrite [1, 2], FSeek (SeekCurrent (- 3)), FSeek (SeekStart 0), FWrite [3], FSeek (SeekEnd (- 2)), FRead 9])
   = [Count 2, Failed (FsErr InvalidInput), Count 0, Count 1, Count 1, Bytes [2, 3]]"
  (is "fst (fd_run _ _ ?fd ?ops) = ?as")
proof -
  have f: "ram_is_file ram_file 1" "ram_content ram_file 1 = []"
    by (simp_all add: ram_is_file_def ram_content_def ram_file_def ram_create_def new_file_def new_meta_def ram_eval)
  have app: "of_contains (of_bitor OF_WRITE OF_APPEND) OF_APPEND"
    by (simp add: of_contains_def of_bitor_def OF_WRITE_def OF_APPEND_def)
  have run: "cursor_run True [] 0 ?ops = (?as, [1, 2, 3], 3)"
    by (simp add: seek_to_def overwrite_def Let_def)
  have "within ISIZE_MAX True [] 0 ?ops"
    by (simp add: seek_to_def overwrite_def Let_def ISIZE_MAX_def)
  then show ?thesis
    using fd_refines_cursor [of ram_file ?fd True ?ops ?as "[1, 2, 3]" 3] f app run by (auto simp: fd_new_def)
qed

end
