(* ===== verification/Kor_Act.thy ===== *)
theory Kor_Act
  imports Kor_Vfs
begin

text \<open>
  Actions: fallible operations on a mutable state.  An action maps a state to a result and
  the state it leaves, also when it fails, so what an error path has already written stays
  written.  \<open>thn\<close> is the \<^verbatim>\<open>?\<close> operator in sequence; \<open>wp\<close> is the weakest precondition, the
  device by which the specifications of actions compose.
\<close>

type_synonym ('s, 'a) act = "'s \<Rightarrow> 'a fsres \<times> 's"

definition ret :: "'a \<Rightarrow> ('s, 'a) act" where
  "ret x s = (Inr x, s)"

definition fail :: "fs_error \<Rightarrow> ('s, 'a) act" where
  "fail e s = (Inl (FsErr e), s)"

definition die :: "fault \<Rightarrow> ('s, 'a) act" where
  "die f s = (Inl (Crash f), s)"

definition lift :: "'a fsres \<Rightarrow> ('s, 'a) act" where
  "lift r s = (r, s)"

definition gets :: "('s \<Rightarrow> 'a) \<Rightarrow> ('s, 'a) act" where
  "gets f s = (Inr (f s), s)"

definition upd :: "('s \<Rightarrow> 's) \<Rightarrow> ('s, unit) act" where
  "upd f s = (Inr (), f s)"

definition thn :: "('s, 'a) act \<Rightarrow> ('a \<Rightarrow> ('s, 'b) act) \<Rightarrow> ('s, 'b) act" where
  "thn m f s = (case m s of (Inl e, s') \<Rightarrow> (Inl e, s') | (Inr x, s') \<Rightarrow> f x s')"

text \<open>
  A call returns unless it ended in a fault.  A panic stops the kernel and a spin on a held lock
  never ends: there is no unwinding, so nothing after such a call runs, no guard or \<^verbatim>\<open>Arc\<close> of
  an enclosing scope is dropped.
\<close>

definition returns :: "'a fsres \<Rightarrow> bool" where
  "returns r \<longleftrightarrow> (case r of Inl (Crash _) \<Rightarrow> False | _ \<Rightarrow> True)"

lemma returns_simps [simp]: "returns (Inr x)" "returns (Inl (FsErr e))" "\<not> returns (Inl (Crash f))"
  by (simp_all add: returns_def)

text \<open>A guard: the early return \<^verbatim>\<open>if !b { return Err(e) }\<close>.\<close>

definition guard :: "bool \<Rightarrow> fs_error \<Rightarrow> ('s, unit) act" where
  "guard b e = (if b then ret () else fail e)"

text \<open>\<open>attempt m\<close> hands an error code to the caller; a fault is not caught.\<close>

definition attempt :: "('s, 'a) act \<Rightarrow> ('s, fs_error + 'a) act" where
  "attempt m s = (case m s of
       (Inl (FsErr e), s') \<Rightarrow> (Inr (Inl e), s')
     | (Inl (Crash f), s') \<Rightarrow> (Inl (Crash f), s')
     | (Inr x, s') \<Rightarrow> (Inr (Inr x), s'))"

text \<open>\<^verbatim>\<open>let _ = m;\<close>\<close>

definition ignore :: "('s, 'a) act \<Rightarrow> ('s, unit) act" where
  "ignore m = thn (attempt m) (\<lambda>_. ret ())"

text \<open>\<^verbatim>\<open>if let Err(e) = m { let _ = undo; return Err(e); }\<close>\<close>

definition or_undo :: "('s, 'a) act \<Rightarrow> ('s, 'b) act \<Rightarrow> ('s, 'a) act" where
  "or_undo m undo = thn (attempt m) (\<lambda>r. case r of
       Inl e \<Rightarrow> thn (ignore undo) (\<lambda>_. fail e)
     | Inr x \<Rightarrow> ret x)"

fun for_each :: "('x \<Rightarrow> ('s, unit) act) \<Rightarrow> 'x list \<Rightarrow> ('s, unit) act" where
  "for_each f [] = ret ()"
| "for_each f (x # xs) = thn (f x) (\<lambda>_. for_each f xs)"

lemma for_each_cong: "\<lbrakk>xs = ys; \<And>x. x \<in> set ys \<Longrightarrow> f x = g x\<rbrakk> \<Longrightarrow> for_each f xs = for_each g ys"
  by (induction xs arbitrary: ys) auto

lemma thn_simps [simp]:
  "thn (ret x) f = f x" "thn (lift (Inr x)) f = f x" "thn (gets h) f s = f (h s) s" "thn (upd g) k s = k () (g s)"
  "thn (fail e) f = fail e" "thn (die c) f = die c"
  by (simp_all add: fun_eq_iff thn_def ret_def lift_def gets_def upd_def fail_def die_def)

section \<open>Weakest preconditions\<close>

definition wp :: "('s, 'a) act \<Rightarrow> ('a fsres \<Rightarrow> 's \<Rightarrow> bool) \<Rightarrow> 's \<Rightarrow> bool" where
  "wp m Q s \<longleftrightarrow> Q (fst (m s)) (snd (m s))"

named_theorems wp_simps \<open>weakest preconditions of the combinators\<close>

lemma wp_basic [wp_simps]:
  "wp (ret x) Q s \<longleftrightarrow> Q (Inr x) s" "wp (fail e) Q s \<longleftrightarrow> Q (Inl (FsErr e)) s"
  "wp (die f) Q s \<longleftrightarrow> Q (Inl (Crash f)) s" "wp (lift r) Q s \<longleftrightarrow> Q r s"
  "wp (gets h) Q s \<longleftrightarrow> Q (Inr (h s)) s"
  by (simp_all add: wp_def ret_def fail_def die_def lift_def gets_def)

lemma wp_upd [wp_simps]: "wp (upd g) Q s \<longleftrightarrow> Q (Inr ()) (g s)"
  by (simp add: wp_def upd_def)

lemma wp_thn [wp_simps]:
  "wp (thn m f) Q s \<longleftrightarrow> wp m (\<lambda>r s'. case r of Inl e \<Rightarrow> Q (Inl e) s' | Inr x \<Rightarrow> wp (f x) Q s') s"
  by (auto simp: wp_def thn_def split: prod.split sum.split)

lemma wp_guard [wp_simps]: "wp (guard b e) Q s \<longleftrightarrow> (if b then Q (Inr ()) s else Q (Inl (FsErr e)) s)"
  by (simp add: guard_def wp_simps)

lemma wp_attempt [wp_simps]:
  "wp (attempt m) Q s \<longleftrightarrow> wp m (\<lambda>r s'. case r of Inl (FsErr e) \<Rightarrow> Q (Inr (Inl e)) s'
       | Inl (Crash f) \<Rightarrow> Q (Inl (Crash f)) s' | Inr x \<Rightarrow> Q (Inr (Inr x)) s') s"
  by (auto simp: wp_def attempt_def split: prod.split sum.split crash.split)

lemma wp_cong: "m s = m' s \<Longrightarrow> wp m Q s = wp m' Q s"
  by (simp add: wp_def)

lemma wp_eqI: "\<lbrakk>wp m' Q s; m s = m' s\<rbrakk> \<Longrightarrow> wp m Q s"
  by (simp add: wp_def)

lemma wp_mono: "\<lbrakk>wp m Q s; \<And>r s'. Q r s' \<Longrightarrow> R r s'\<rbrakk> \<Longrightarrow> wp m R s"
  by (simp add: wp_def)

lemma wp_conj: "wp m (\<lambda>r s'. Q r s' \<and> R r s') s \<longleftrightarrow> wp m Q s \<and> wp m R s"
  by (simp add: wp_def)

lemma wp_run: "wp m Q s \<Longrightarrow> m s = (r, s') \<Longrightarrow> Q r s'"
  by (simp add: wp_def)

lemma wpI: "(\<And>r s'. m s = (r, s') \<Longrightarrow> Q r s') \<Longrightarrow> wp m Q s"
  by (simp add: wp_def)

lemma wp_seq:
  assumes "wp m R s" "\<And>e s'. R (Inl e) s' \<Longrightarrow> Q (Inl e) s'" "\<And>x s'. R (Inr x) s' \<Longrightarrow> wp (f x) Q s'"
  shows "wp (thn m f) Q s"
  unfolding wp_thn using assms(1) by (rule wp_mono) (use assms(2,3) in \<open>auto split: sum.split\<close>)

lemma wp_for_each:
  assumes "I s" "\<And>x s'. \<lbrakk>x \<in> set xs; I s'\<rbrakk> \<Longrightarrow> wp (f x) (\<lambda>r t. I t \<and> (\<forall>e. r = Inl e \<longrightarrow> Q (Inl e) t)) s'"
    and "\<And>s'. I s' \<Longrightarrow> Q (Inr ()) s'"
  shows "wp (for_each f xs) Q s"
  using assms
proof (induction xs arbitrary: s)
  case (Cons x xs)
  have "wp (f x) (\<lambda>r t. I t \<and> (\<forall>e. r = Inl e \<longrightarrow> Q (Inl e) t)) s" using Cons.prems(1,2) by simp
  then show ?case
    unfolding for_each.simps
  proof (rule wp_seq)
    fix u s' assume "I s' \<and> (\<forall>e. Inr u = Inl e \<longrightarrow> Q (Inl e) s')"
    then show "wp (for_each f xs) Q s'" using Cons.prems(2,3) by (intro Cons.IH) auto
  qed simp
qed (simp add: wp_simps)

end
