(* ===== verification/Kor_Bytes.thy ===== *)
theory Kor_Bytes
  imports Kor_Prelude
begin

text \<open>
  Byte buffers: little-endian integers, reading and replacing a slice.  A u16 or u32 of an
  on-disk structure is a natural number; \<open>le_bytes\<close> truncates it to its width as
  \<^verbatim>\<open>to_le_bytes\<close> of the fixed-width type does.
\<close>

named_theorems buf_simps \<open>slices of byte buffers\<close>

fun le_bytes :: "nat \<Rightarrow> nat \<Rightarrow> bytes" where
  "le_bytes 0 n = []"
| "le_bytes (Suc k) n = word_of_nat n # le_bytes k (n div 256)"

fun from_le :: "bytes \<Rightarrow> nat" where
  "from_le [] = 0"
| "from_le (b # bs) = unat b + 256 * from_le bs"

lemma length_le_bytes [simp, buf_simps]: "length (le_bytes k n) = k"
  by (induction k n rule: le_bytes.induct) simp_all

lemma from_le_bytes [simp]: "from_le (le_bytes k n) = n mod 256 ^ k"
proof (induction k n rule: le_bytes.induct)
  case (2 k n)
  have "unat (word_of_nat n :: u8) = n mod 256" by (simp add: unat_of_nat)
  then show ?case using 2 by (simp add: mod_mult2_eq)
qed simp

lemma unat_u8: "unat (b :: u8) < 256"
  using unsigned_less [of b] by simp

lemma from_le_bound: "from_le bs < 256 ^ length bs"
proof (induction bs)
  case (Cons b bs)
  have "unat b < 256" by (rule unat_u8)
  then have "unat b + 256 * from_le bs < 256 * Suc (from_le bs)" by simp
  also have "\<dots> \<le> 256 * 256 ^ length bs" using Cons by (intro mult_left_mono) simp_all
  finally show ?case by simp
qed simp

lemma le_bytes_from_le: "le_bytes (length bs) (from_le bs) = bs"
proof (induction bs)
  case (Cons b bs)
  have u: "unat b < 256" by (rule unat_u8)
  have "(unat b + 256 * from_le bs) div 256 = from_le bs" using u by simp
  moreover have "word_of_nat (unat b + 256 * from_le bs) = b"
  proof -
    have "unat (word_of_nat (unat b + 256 * from_le bs) :: u8) = unat b" unfolding unat_of_nat using u by simp
    then show ?thesis by (metis word_unat_eq_iff)
  qed
  ultimately show ?case using Cons by simp
qed simp

section \<open>Slices\<close>

definition slice :: "bytes \<Rightarrow> nat \<Rightarrow> nat \<Rightarrow> bytes" where
  "slice buf off n = take n (drop off buf)"

definition field :: "bytes \<Rightarrow> nat \<Rightarrow> nat \<Rightarrow> nat" where
  "field buf off n = from_le (slice buf off n)"

text \<open>\<^verbatim>\<open>buf[off..off + n].copy_from_slice(bs)\<close> for a range inside the buffer.\<close>

definition put :: "bytes \<Rightarrow> nat \<Rightarrow> bytes \<Rightarrow> bytes" where
  "put buf off bs = take off buf @ bs @ drop (off + length bs) buf"

lemma length_slice [buf_simps]: "length (slice buf off n) = min n (length buf - off)"
  by (simp add: slice_def)

lemma nth_slice: "\<lbrakk>i < n; off + i < length buf\<rbrakk> \<Longrightarrow> slice buf off n ! i = buf ! (off + i)"
  by (simp add: slice_def add.commute)

lemma length_put [buf_simps]: "off + length bs \<le> length buf \<Longrightarrow> length (put buf off bs) = length buf"
  by (simp add: put_def)

lemma nth_put:
  assumes "off + length bs \<le> length buf" "i < length buf"
  shows "put buf off bs ! i = (if off \<le> i \<and> i < off + length bs then bs ! (i - off) else buf ! i)"
  using assms by (auto simp: put_def nth_append min_def)

lemma slice_put_same [buf_simps]: "off + length bs \<le> length buf \<Longrightarrow> slice (put buf off bs) off (length bs) = bs"
  by (simp add: slice_def put_def)

lemma slice_put_other [buf_simps]:
  assumes "off + length bs \<le> length buf" "i + n \<le> off \<or> off + length bs \<le> i"
  shows "slice (put buf off bs) i n = slice buf i n"
proof (rule nth_equalityI)
  show l: "length (slice (put buf off bs) i n) = length (slice buf i n)"
    using assms(1) by (simp add: length_slice length_put)
  fix j assume j: "j < length (slice (put buf off bs) i n)"
  then have "j < n" "i + j < length buf" using assms(1) l by (auto simp: length_slice length_put)
  then show "slice (put buf off bs) i n ! j = slice buf i n ! j"
    using assms by (auto simp: nth_slice length_put nth_put)
qed

lemma slice_put_within [buf_simps]:
  assumes "off + length bs \<le> length buf" "off \<le> i" "i + n \<le> off + length bs"
  shows "slice (put buf off bs) i n = slice bs (i - off) n"
proof (rule nth_equalityI)
  show "length (slice (put buf off bs) i n) = length (slice bs (i - off) n)"
    using assms by (simp add: length_slice length_put)
  fix j assume "j < length (slice (put buf off bs) i n)"
  then have "j < n" using assms by (simp add: length_slice length_put)
  then show "slice (put buf off bs) i n ! j = slice bs (i - off) n ! j"
    using assms by (auto simp: nth_slice length_put nth_put)
qed

lemma field_put_same [buf_simps]:
  "\<lbrakk>off + k \<le> length buf\<rbrakk> \<Longrightarrow> field (put buf off (le_bytes k n)) off k = n mod 256 ^ k"
  using slice_put_same [of off "le_bytes k n" buf] by (simp add: field_def)

lemma field_put_other [buf_simps]:
  "\<lbrakk>off + length bs \<le> length buf; i + n \<le> off \<or> off + length bs \<le> i\<rbrakk> \<Longrightarrow> field (put buf off bs) i n = field buf i n"
  by (simp add: field_def slice_put_other)

lemma field_bound: "field buf off n < 256 ^ n"
proof -
  have "from_le (slice buf off n) < 256 ^ length (slice buf off n)" by (rule from_le_bound)
  also have "\<dots> \<le> 256 ^ n" by (intro power_increasing) (simp_all add: length_slice)
  finally show ?thesis by (simp add: field_def)
qed

lemma put_slice_id [buf_simps]: "off + n \<le> length buf \<Longrightarrow> put buf off (slice buf off n) = buf"
  by (simp add: put_def slice_def)
    (metis append_take_drop_id drop_drop add.commute)

lemma slice_append_left: "off + n \<le> length a \<Longrightarrow> slice (a @ b) off n = slice a off n"
  by (simp add: slice_def)

lemma slice_append_right: "length a \<le> off \<Longrightarrow> slice (a @ b) off n = slice b (off - length a) n"
  by (simp add: slice_def)

lemma slice_all: "slice a 0 (length a) = a"
  by (simp add: slice_def)

lemma slice_slice: "i + n \<le> m \<Longrightarrow> slice (slice buf off m) i n = slice buf (off + i) n"
  by (simp add: slice_def take_drop drop_drop add.commute min_def)

section \<open>Arithmetic at a width\<close>

definition u32_add :: "nat \<Rightarrow> nat \<Rightarrow> nat" where "u32_add a b = (a + b) mod 2 ^ 32"
definition u32_sub :: "nat \<Rightarrow> nat \<Rightarrow> nat" where "u32_sub a b = (a + 2 ^ 32 - b) mod 2 ^ 32"
definition u32_mul :: "nat \<Rightarrow> nat \<Rightarrow> nat" where "u32_mul a b = (a * b) mod 2 ^ 32"
definition u16_add :: "nat \<Rightarrow> nat \<Rightarrow> nat" where "u16_add a b = (a + b) mod 2 ^ 16"
definition u16_sub :: "nat \<Rightarrow> nat \<Rightarrow> nat" where "u16_sub a b = (a + 2 ^ 16 - b) mod 2 ^ 16"

lemma u32_add_eq [usize_simps]: "a + b < 2 ^ 32 \<Longrightarrow> u32_add a b = a + b"
  by (simp add: u32_add_def)

lemma u32_sub_eq [usize_simps]: "\<lbrakk>b \<le> a; a < 2 ^ 32\<rbrakk> \<Longrightarrow> u32_sub a b = a - b"
proof -
  assume "b \<le> a" "a < 2 ^ 32"
  then have "a + 2 ^ 32 - b = (a - b) + 2 ^ 32" "a - b < 2 ^ 32" by simp_all
  then show ?thesis unfolding u32_sub_def by (metis mod_add_self2 mod_less)
qed

lemma u32_mul_eq [usize_simps]: "a * b < 2 ^ 32 \<Longrightarrow> u32_mul a b = a * b"
  by (simp add: u32_mul_def)

lemma u16_add_eq [usize_simps]: "a + b < 2 ^ 16 \<Longrightarrow> u16_add a b = a + b"
  by (simp add: u16_add_def)

lemma u16_sub_eq [usize_simps]: "\<lbrakk>b \<le> a; a < 2 ^ 16\<rbrakk> \<Longrightarrow> u16_sub a b = a - b"
proof -
  assume "b \<le> a" "a < 2 ^ 16"
  then have "a + 2 ^ 16 - b = (a - b) + 2 ^ 16" "a - b < 2 ^ 16" by simp_all
  then show ?thesis unfolding u16_sub_def by (metis mod_add_self2 mod_less)
qed

definition div_ceil :: "nat \<Rightarrow> nat \<Rightarrow> nat" where
  "div_ceil a b = (a + (b - 1)) div b"

lemma div_ceil_le: "0 < b \<Longrightarrow> a \<le> div_ceil a b * b"
proof -
  assume "0 < b"
  then have "a + (b - 1) = div_ceil a b * b + (a + (b - 1)) mod b" "(a + (b - 1)) mod b < b"
    by (simp_all add: div_ceil_def)
  then show ?thesis using \<open>0 < b\<close> by linarith
qed

end
