(* ===== verification/Kor_Ext2_Layout.thy ===== *)
theory Kor_Ext2_Layout
  imports Kor_Vfs Kor_Bytes
begin

text \<open>
  The on-disk structures of ext2, \<^verbatim>\<open>filesystems/kor-ext2/src\<close>: the superblock
  (\<^verbatim>\<open>super_block.rs\<close>), the block group descriptor (\<^verbatim>\<open>block_group.rs\<close>), the inode
  (\<^verbatim>\<open>inode.rs\<close>), with the packed byte layout of each, and the allocation bitmap
  (\<^verbatim>\<open>bitmap.rs\<close>).  Fixed-width fields are natural numbers.
\<close>

unbundle bit_operations_syntax

section \<open>Superblock\<close>

definition EXT2_MAGIC :: nat where [simp]: "EXT2_MAGIC = 0xEF53"
definition INCOMPAT_FILETYPE :: nat where [simp]: "INCOMPAT_FILETYPE = 2"
definition SUPPORTED_INCOMPAT :: nat where [simp]: "SUPPORTED_INCOMPAT = INCOMPAT_FILETYPE"
definition RO_COMPAT_SPARSE_SUPER :: nat where [simp]: "RO_COMPAT_SPARSE_SUPER = 1"
definition RO_COMPAT_LARGE_FILE :: nat where [simp]: "RO_COMPAT_LARGE_FILE = 2"
definition SUPPORTED_RO_COMPAT :: nat where [simp]: "SUPPORTED_RO_COMPAT = (RO_COMPAT_SPARSE_SUPER OR RO_COMPAT_LARGE_FILE)"
definition EXT2_VALID_FS :: nat where [simp]: "EXT2_VALID_FS = 1"
definition OFF_FREE_BLOCKS_COUNT :: nat where [simp]: "OFF_FREE_BLOCKS_COUNT = 12"
definition OFF_FREE_INODES_COUNT :: nat where [simp]: "OFF_FREE_INODES_COUNT = 16"
definition OFF_MNT_COUNT :: nat where [simp]: "OFF_MNT_COUNT = 52"
definition OFF_WTIME :: nat where [simp]: "OFF_WTIME = 48"
definition OFF_STATE :: nat where [simp]: "OFF_STATE = 58"
definition OFF_BLOCK_GROUP_NR :: nat where [simp]: "OFF_BLOCK_GROUP_NR = 90"
definition EXT2_GOOD_OLD_FIRST_INO :: nat where [simp]: "EXT2_GOOD_OLD_FIRST_INO = 11"
definition EXT2_GOOD_OLD_INODE_SIZE :: nat where [simp]: "EXT2_GOOD_OLD_INODE_SIZE = 128"
definition MAX_LOG_BLOCK_SIZE :: nat where [simp]: "MAX_LOG_BLOCK_SIZE = 6"

record raw_super_block =
  rs_inodes_count :: nat
  rs_blocks_count :: nat
  rs_r_blocks_count :: nat
  rs_free_blocks_count :: nat
  rs_free_inodes_count :: nat
  rs_first_data_block :: nat
  rs_log_block_size :: nat
  rs_log_frag_size :: nat
  rs_blocks_per_group :: nat
  rs_frags_per_group :: nat
  rs_inodes_per_group :: nat
  rs_mtime :: nat
  rs_wtime :: nat
  rs_mnt_count :: nat
  rs_max_mnt_count :: nat
  rs_magic :: nat
  rs_state :: nat
  rs_errors :: nat
  rs_minor_rev_level :: nat
  rs_lastcheck :: nat
  rs_checkinterval :: nat
  rs_creator_os :: nat
  rs_rev_level :: nat
  rs_def_resuid :: nat
  rs_def_resgid :: nat
  rs_first_ino :: nat
  rs_inode_size :: nat
  rs_block_group_nr :: nat
  rs_feature_compat :: nat
  rs_feature_incompat :: nat
  rs_feature_ro_compat :: nat
  rs_uuid :: bytes
  rs_volume_name :: bytes
  rs_last_mounted :: bytes
  rs_algo_bitmap :: nat

definition RAW_SB_SIZE :: nat where [simp]: "RAW_SB_SIZE = 204"

definition raw_sb_of_bytes :: "bytes \<Rightarrow> raw_super_block" where
  "raw_sb_of_bytes b =
    \<lparr>rs_inodes_count = field b 0 4, rs_blocks_count = field b 4 4, rs_r_blocks_count = field b 8 4,
     rs_free_blocks_count = field b 12 4, rs_free_inodes_count = field b 16 4, rs_first_data_block = field b 20 4,
     rs_log_block_size = field b 24 4, rs_log_frag_size = field b 28 4, rs_blocks_per_group = field b 32 4,
     rs_frags_per_group = field b 36 4, rs_inodes_per_group = field b 40 4, rs_mtime = field b 44 4,
     rs_wtime = field b 48 4, rs_mnt_count = field b 52 2, rs_max_mnt_count = field b 54 2, rs_magic = field b 56 2,
     rs_state = field b 58 2, rs_errors = field b 60 2, rs_minor_rev_level = field b 62 2, rs_lastcheck = field b 64 4,
     rs_checkinterval = field b 68 4, rs_creator_os = field b 72 4, rs_rev_level = field b 76 4,
     rs_def_resuid = field b 80 2, rs_def_resgid = field b 82 2, rs_first_ino = field b 84 4,
     rs_inode_size = field b 88 2, rs_block_group_nr = field b 90 2, rs_feature_compat = field b 92 4,
     rs_feature_incompat = field b 96 4, rs_feature_ro_compat = field b 100 4, rs_uuid = slice b 104 16,
     rs_volume_name = slice b 120 16, rs_last_mounted = slice b 136 64, rs_algo_bitmap = field b 200 4\<rparr>"

record ext2_sb =
  es_inodes_count :: nat
  es_blocks_count :: nat
  es_free_blocks_count :: nat
  es_free_inodes_count :: nat
  es_first_data_block :: nat
  es_log_block_size :: nat
  es_blocks_per_group :: nat
  es_inodes_per_group :: nat
  es_inode_size :: nat
  es_magic :: nat
  es_rev_level :: nat
  es_first_ino :: nat
  es_feature_compat :: nat
  es_feature_incompat :: nat
  es_feature_ro_compat :: nat
  es_state :: nat
  es_mnt_count :: nat

definition is_power_of_two :: "nat \<Rightarrow> bool" where
  "is_power_of_two n \<longleftrightarrow> n \<in> set (map (\<lambda>k. 2 ^ k) [0..<16])"

definition sb_from_raw :: "raw_super_block \<Rightarrow> ext2_sb fsres" where
  "sb_from_raw raw =
     (if rs_magic raw \<noteq> EXT2_MAGIC then Inl (FsErr InvalidInput)
      else if rs_log_block_size raw > MAX_LOG_BLOCK_SIZE \<or> rs_blocks_per_group raw = 0 \<or> rs_inodes_per_group raw = 0
        \<or> rs_blocks_count raw = 0 \<or> rs_inodes_count raw = 0 then Inl (FsErr InvalidInput)
      else
        let block_size = 1024 * 2 ^ rs_log_block_size raw;
            (inode_size, first_ino) =
              (if rs_rev_level raw = 0 then (EXT2_GOOD_OLD_INODE_SIZE, EXT2_GOOD_OLD_FIRST_INO)
               else (if rs_inode_size raw = 0 then EXT2_GOOD_OLD_INODE_SIZE else rs_inode_size raw,
                     if rs_first_ino raw = 0 then EXT2_GOOD_OLD_FIRST_INO else rs_first_ino raw)) in
        if inode_size < EXT2_GOOD_OLD_INODE_SIZE \<or> \<not> is_power_of_two inode_size \<or> inode_size > block_size
        then Inl (FsErr InvalidInput)
        else Inr \<lparr>es_inodes_count = rs_inodes_count raw, es_blocks_count = rs_blocks_count raw,
               es_free_blocks_count = rs_free_blocks_count raw, es_free_inodes_count = rs_free_inodes_count raw,
               es_first_data_block = rs_first_data_block raw, es_log_block_size = rs_log_block_size raw,
               es_blocks_per_group = rs_blocks_per_group raw, es_inodes_per_group = rs_inodes_per_group raw,
               es_inode_size = inode_size, es_magic = rs_magic raw, es_rev_level = rs_rev_level raw,
               es_first_ino = first_ino, es_feature_compat = rs_feature_compat raw,
               es_feature_incompat = rs_feature_incompat raw, es_feature_ro_compat = rs_feature_ro_compat raw,
               es_state = rs_state raw, es_mnt_count = rs_mnt_count raw\<rparr>)"

definition sb_block_size :: "ext2_sb \<Rightarrow> usize" where
  "sb_block_size sb = 1024 * 2 ^ es_log_block_size sb"

definition block_group_count :: "ext2_sb \<Rightarrow> nat" where
  "block_group_count sb = div_ceil (es_blocks_count sb) (es_blocks_per_group sb)"

definition sb_has_filetype :: "ext2_sb \<Rightarrow> bool" where
  "sb_has_filetype sb \<longleftrightarrow> es_feature_incompat sb AND INCOMPAT_FILETYPE \<noteq> 0"

definition sb_has_large_file :: "ext2_sb \<Rightarrow> bool" where
  "sb_has_large_file sb \<longleftrightarrow> es_feature_ro_compat sb AND RO_COMPAT_LARGE_FILE \<noteq> 0"

definition has_sparse_super :: "ext2_sb \<Rightarrow> bool" where
  "has_sparse_super sb \<longleftrightarrow> es_feature_ro_compat sb AND RO_COMPAT_SPARSE_SUPER \<noteq> 0"

definition unsupported_incompat :: "ext2_sb \<Rightarrow> nat" where
  "unsupported_incompat sb = (es_feature_incompat sb AND (0xFFFFFFFF - SUPPORTED_INCOMPAT))"

definition unsupported_ro_compat :: "ext2_sb \<Rightarrow> nat" where
  "unsupported_ro_compat sb = (es_feature_ro_compat sb AND (0xFFFFFFFF - SUPPORTED_RO_COMPAT))"

definition patch_into :: "ext2_sb \<Rightarrow> bytes \<Rightarrow> nat \<Rightarrow> nat \<Rightarrow> bytes" where
  "patch_into sb buf block_group_nr wtime =
     (let buf = put buf OFF_FREE_BLOCKS_COUNT (le_bytes 4 (es_free_blocks_count sb));
          buf = put buf OFF_FREE_INODES_COUNT (le_bytes 4 (es_free_inodes_count sb));
          buf = put buf OFF_MNT_COUNT (le_bytes 2 (es_mnt_count sb));
          buf = put buf OFF_WTIME (le_bytes 4 wtime);
          buf = put buf OFF_STATE (le_bytes 2 (es_state sb)) in
      if es_rev_level sb > 0 then put buf OFF_BLOCK_GROUP_NR (le_bytes 2 block_group_nr) else buf)"

section \<open>Block group descriptors\<close>

record bg_desc =
  bg_block_bitmap :: nat
  bg_inode_bitmap :: nat
  bg_inode_table :: nat
  bg_free_blocks_count :: nat
  bg_free_inodes_count :: nat
  bg_used_dirs_count :: nat
  bg_pad :: nat
  bg_reserved :: "nat list"

definition BGD_SIZE :: nat where [simp]: "BGD_SIZE = 32"

definition bgd_of_bytes :: "bytes \<Rightarrow> bg_desc" where
  "bgd_of_bytes b =
    \<lparr>bg_block_bitmap = field b 0 4, bg_inode_bitmap = field b 4 4, bg_inode_table = field b 8 4,
     bg_free_blocks_count = field b 12 2, bg_free_inodes_count = field b 14 2, bg_used_dirs_count = field b 16 2,
     bg_pad = field b 18 2, bg_reserved = map (\<lambda>i. field b (20 + i * 4) 4) [0..<3]\<rparr>"

definition bgd_bytes :: "bg_desc \<Rightarrow> bytes" where
  "bgd_bytes g = le_bytes 4 (bg_block_bitmap g) @ le_bytes 4 (bg_inode_bitmap g) @ le_bytes 4 (bg_inode_table g)
     @ le_bytes 2 (bg_free_blocks_count g) @ le_bytes 2 (bg_free_inodes_count g) @ le_bytes 2 (bg_used_dirs_count g)
     @ le_bytes 2 (bg_pad g) @ concat (map (le_bytes 4) (bg_reserved g))"

definition parse_block_group_descriptors :: "bytes \<Rightarrow> nat \<Rightarrow> bg_desc list" where
  "parse_block_group_descriptors buf count =
     map (\<lambda>i. bgd_of_bytes (slice buf (i * BGD_SIZE) BGD_SIZE))
       (takeWhile (\<lambda>i. i * BGD_SIZE + BGD_SIZE \<le> length buf) [0..<count])"

text \<open>The loop divides as long as it can; the callers pass 3, 5 and 7.\<close>

function is_power_of :: "nat \<Rightarrow> nat \<Rightarrow> bool" where
  "is_power_of n base =
     (if n = 0 then False else if base > 1 \<and> n mod base = 0 then is_power_of (n div base) base else n = 1)"
  by pat_completeness auto
termination
  by (relation "measure fst") auto

declare is_power_of.simps [simp del]

definition group_has_super_backup :: "nat \<Rightarrow> bool" where
  "group_has_super_backup g \<longleftrightarrow> g \<le> 1 \<or> is_power_of g 3 \<or> is_power_of g 5 \<or> is_power_of g 7"

section \<open>Inodes\<close>

definition DIRECT_BLOCKS :: nat where [simp]: "DIRECT_BLOCKS = 12"
definition MAX_BULK_BLOCKS :: nat where [simp]: "MAX_BULK_BLOCKS = 128"
definition EXT2_S_IFMT :: nat where [simp]: "EXT2_S_IFMT = 0xF000"
definition EXT2_S_IFSOCK :: nat where [simp]: "EXT2_S_IFSOCK = 0xC000"
definition EXT2_S_IFLNK :: nat where [simp]: "EXT2_S_IFLNK = 0xA000"
definition EXT2_S_IFREG :: nat where [simp]: "EXT2_S_IFREG = 0x8000"
definition EXT2_S_IFBLK :: nat where [simp]: "EXT2_S_IFBLK = 0x6000"
definition EXT2_S_IFDIR :: nat where [simp]: "EXT2_S_IFDIR = 0x4000"
definition EXT2_S_IFCHR :: nat where [simp]: "EXT2_S_IFCHR = 0x2000"
definition EXT2_S_IFIFO :: nat where [simp]: "EXT2_S_IFIFO = 0x1000"
definition FAST_SYMLINK_MAX :: nat where [simp]: "FAST_SYMLINK_MAX = 60"
definition EXT2_INDEX_FL :: nat where [simp]: "EXT2_INDEX_FL = 0x1000"
definition EXT2_XATTR_MAGIC :: nat where [simp]: "EXT2_XATTR_MAGIC = 0xEA020000"
definition XATTR_REFCOUNT_OFFSET :: nat where [simp]: "XATTR_REFCOUNT_OFFSET = 4"

record raw_inode =
  i_mode :: nat
  i_uid :: nat
  i_size :: nat
  i_atime :: nat
  i_ctime :: nat
  i_mtime :: nat
  i_dtime :: nat
  i_gid :: nat
  i_links_count :: nat
  i_blocks :: nat
  i_flags :: nat
  i_osd1 :: nat
  i_block :: "nat list"
  i_generation :: nat
  i_file_acl :: nat
  i_dir_acl :: nat
  i_faddr :: nat
  i_osd2 :: bytes

definition RAW_INODE_SIZE :: nat where [simp]: "RAW_INODE_SIZE = 128"

definition inode_of_bytes :: "bytes \<Rightarrow> raw_inode" where
  "inode_of_bytes b =
    \<lparr>i_mode = field b 0 2, i_uid = field b 2 2, i_size = field b 4 4, i_atime = field b 8 4, i_ctime = field b 12 4,
     i_mtime = field b 16 4, i_dtime = field b 20 4, i_gid = field b 24 2, i_links_count = field b 26 2,
     i_blocks = field b 28 4, i_flags = field b 32 4, i_osd1 = field b 36 4,
     i_block = map (\<lambda>i. field b (40 + i * 4) 4) [0..<15], i_generation = field b 100 4, i_file_acl = field b 104 4,
     i_dir_acl = field b 108 4, i_faddr = field b 112 4, i_osd2 = slice b 116 12\<rparr>"

definition ptr_bytes :: "nat list \<Rightarrow> bytes" where
  "ptr_bytes ps = concat (map (le_bytes 4) ps)"

definition inode_bytes :: "raw_inode \<Rightarrow> bytes" where
  "inode_bytes r = le_bytes 2 (i_mode r) @ le_bytes 2 (i_uid r) @ le_bytes 4 (i_size r) @ le_bytes 4 (i_atime r)
     @ le_bytes 4 (i_ctime r) @ le_bytes 4 (i_mtime r) @ le_bytes 4 (i_dtime r) @ le_bytes 2 (i_gid r)
     @ le_bytes 2 (i_links_count r) @ le_bytes 4 (i_blocks r) @ le_bytes 4 (i_flags r) @ le_bytes 4 (i_osd1 r)
     @ ptr_bytes (i_block r) @ le_bytes 4 (i_generation r) @ le_bytes 4 (i_file_acl r) @ le_bytes 4 (i_dir_acl r)
     @ le_bytes 4 (i_faddr r) @ i_osd2 r"

definition inode_wf :: "raw_inode \<Rightarrow> bool" where
  "inode_wf r \<longleftrightarrow> i_mode r < 2 ^ 16 \<and> i_uid r < 2 ^ 16 \<and> i_size r < 2 ^ 32 \<and> i_atime r < 2 ^ 32 \<and> i_ctime r < 2 ^ 32
     \<and> i_mtime r < 2 ^ 32 \<and> i_dtime r < 2 ^ 32 \<and> i_gid r < 2 ^ 16 \<and> i_links_count r < 2 ^ 16 \<and> i_blocks r < 2 ^ 32
     \<and> i_flags r < 2 ^ 32 \<and> i_osd1 r < 2 ^ 32 \<and> length (i_block r) = 15 \<and> list_all (\<lambda>p. p < 2 ^ 32) (i_block r)
     \<and> i_generation r < 2 ^ 32 \<and> i_file_acl r < 2 ^ 32 \<and> i_dir_acl r < 2 ^ 32 \<and> i_faddr r < 2 ^ 32
     \<and> length (i_osd2 r) = 12"

fun file_type_to_mode :: "file_type \<Rightarrow> nat \<Rightarrow> nat" where
  "file_type_to_mode ft mode =
     ((case ft of Regular \<Rightarrow> EXT2_S_IFREG | Directory \<Rightarrow> EXT2_S_IFDIR | Symlink \<Rightarrow> EXT2_S_IFLNK
       | BlockDevice \<Rightarrow> EXT2_S_IFBLK | CharDevice \<Rightarrow> EXT2_S_IFCHR | Fifo \<Rightarrow> EXT2_S_IFIFO | Socket \<Rightarrow> EXT2_S_IFSOCK)
      OR (mode mod 2 ^ 16 AND 0x0FFF))"

definition mode_to_file_type :: "nat \<Rightarrow> file_type" where
  "mode_to_file_type mode =
     (let m = (mode AND EXT2_S_IFMT) in
      if m = EXT2_S_IFREG then Regular else if m = EXT2_S_IFDIR then Directory else if m = EXT2_S_IFLNK then Symlink
      else if m = EXT2_S_IFBLK then BlockDevice else if m = EXT2_S_IFCHR then CharDevice
      else if m = EXT2_S_IFIFO then Fifo else if m = EXT2_S_IFSOCK then Socket else Regular)"

definition TYPE_REGULAR :: nat where [simp]: "TYPE_REGULAR = 1"
definition TYPE_DIRECTORY :: nat where [simp]: "TYPE_DIRECTORY = 2"
definition TYPE_CHAR_DEVICE :: nat where [simp]: "TYPE_CHAR_DEVICE = 3"
definition TYPE_BLOCK_DEVICE :: nat where [simp]: "TYPE_BLOCK_DEVICE = 4"
definition TYPE_FIFO :: nat where [simp]: "TYPE_FIFO = 5"
definition TYPE_SOCKET :: nat where [simp]: "TYPE_SOCKET = 6"
definition TYPE_SYMLINK :: nat where [simp]: "TYPE_SYMLINK = 7"

fun file_type_to_dir_byte :: "file_type \<Rightarrow> nat" where
  "file_type_to_dir_byte Regular = TYPE_REGULAR"
| "file_type_to_dir_byte Directory = TYPE_DIRECTORY"
| "file_type_to_dir_byte Symlink = TYPE_SYMLINK"
| "file_type_to_dir_byte BlockDevice = TYPE_BLOCK_DEVICE"
| "file_type_to_dir_byte CharDevice = TYPE_CHAR_DEVICE"
| "file_type_to_dir_byte Fifo = TYPE_FIFO"
| "file_type_to_dir_byte Socket = TYPE_SOCKET"

definition dir_byte_for_mode :: "nat \<Rightarrow> nat" where
  "dir_byte_for_mode mode = file_type_to_dir_byte (mode_to_file_type mode)"

definition encode_dev :: "nat \<Rightarrow> nat \<times> nat" where
  "encode_dev rdev =
     (let major = drop_bit 20 rdev; minor = (rdev AND 0x000FFFFF) in
      if major < 256 \<and> minor < 256 then (push_bit 8 major OR minor, 0)
      else (0, ((minor AND 0xFF) OR (push_bit 8 major mod 2 ^ 32)) OR (push_bit 12 (minor AND (2 ^ 32 - 1 - 0xFF)) mod 2 ^ 32)))"

section \<open>Bitmaps\<close>

record bitmap =
  bm_data :: bytes
  bm_size :: usize

definition bm_from_bytes :: "bytes \<Rightarrow> usize \<Rightarrow> bitmap" where
  "bm_from_bytes data n = \<lparr>bm_data = data, bm_size = n\<rparr>"

definition bm_get :: "bitmap \<Rightarrow> usize \<Rightarrow> bool fsres" where
  "bm_get b index =
     (if index \<ge> bm_size b \<or> index div 8 \<ge> length (bm_data b) then Inl (FsErr InvalidInput)
      else Inr (drop_bit (index mod 8) (bm_data b ! (index div 8)) AND 1 \<noteq> 0))"

definition bm_set :: "bitmap \<Rightarrow> usize \<Rightarrow> bitmap fsres" where
  "bm_set b index =
     (if index \<ge> bm_size b \<or> index div 8 \<ge> length (bm_data b) then Inl (FsErr InvalidInput)
      else Inr (b\<lparr>bm_data := (bm_data b)[index div 8 := bm_data b ! (index div 8) OR push_bit (index mod 8) 1]\<rparr>))"

definition bm_clear :: "bitmap \<Rightarrow> usize \<Rightarrow> bitmap fsres" where
  "bm_clear b index =
     (if index \<ge> bm_size b \<or> index div 8 \<ge> length (bm_data b) then Inl (FsErr InvalidInput)
      else Inr (b\<lparr>bm_data := (bm_data b)[index div 8 := bm_data b ! (index div 8) AND NOT (push_bit (index mod 8) 1)]\<rparr>))"

text \<open>The two loops of \<open>find_first_clear\<close>: \<open>Inr None\<close> is the early \<open>return None\<close>, \<open>Inl ()\<close> no find.\<close>

fun clear_in_byte :: "usize \<Rightarrow> usize \<Rightarrow> u8 \<Rightarrow> nat list \<Rightarrow> unit + usize option" where
  "clear_in_byte n byte_idx byte [] = Inl ()"
| "clear_in_byte n byte_idx byte (k # bits) =
     (let index = byte_idx * 8 + k in
      if index \<ge> n then Inr None
      else if drop_bit k byte AND 1 = 0 then Inr (Some index)
      else clear_in_byte n byte_idx byte bits)"

fun clear_in_bytes :: "usize \<Rightarrow> usize \<Rightarrow> bytes \<Rightarrow> usize option" where
  "clear_in_bytes n byte_idx [] = None"
| "clear_in_bytes n byte_idx (byte # rest) =
     (case (if byte \<noteq> 0xFF then clear_in_byte n byte_idx byte [0..<8] else Inl ()) of
        Inl _ \<Rightarrow> clear_in_bytes n (byte_idx + 1) rest
      | Inr r \<Rightarrow> r)"

definition find_first_clear :: "bitmap \<Rightarrow> usize option" where
  "find_first_clear b = clear_in_bytes (bm_size b) 0 (bm_data b)"

section \<open>Facts about the layout\<close>

text \<open>The bit of a bitmap that stands for item \<open>i\<close>.\<close>

definition bit_at :: "bytes \<Rightarrow> nat \<Rightarrow> bool" where
  "bit_at data i \<longleftrightarrow> bit (data ! (i div 8)) (i mod 8)"

lemma drop_bit_and_1: "(drop_bit k (w :: u8) AND 1 \<noteq> 0) \<longleftrightarrow> bit w k"
  by (simp add: and_one_eq odd_iff_mod_2_eq_one [symmetric] bit_iff_odd_drop_bit)

lemma bm_get_eq: "\<lbrakk>i < bm_size b; i div 8 < length (bm_data b)\<rbrakk> \<Longrightarrow> bm_get b i = Inr (bit_at (bm_data b) i)"
  by (simp add: bm_get_def bit_at_def drop_bit_and_1)

lemma set_bit_at:
  assumes "i div 8 < length d" "k div 8 < length d"
  shows "bit_at (d[i div 8 := d ! (i div 8) OR push_bit (i mod 8) 1]) k \<longleftrightarrow> bit_at d k \<or> k = i"
proof (cases "i div 8 = k div 8")
  case True
  then have "k = i \<longleftrightarrow> k mod 8 = i mod 8" by (metis div_mult_mod_eq)
  then show ?thesis using True assms
    by (auto simp: bit_at_def bit_or_iff bit_exp_iff)
qed (auto simp: bit_at_def)

lemma clear_bit_at:
  assumes "i div 8 < length d" "k div 8 < length d"
  shows "bit_at (d[i div 8 := d ! (i div 8) AND NOT (push_bit (i mod 8) 1)]) k \<longleftrightarrow> bit_at d k \<and> k \<noteq> i"
proof (cases "i div 8 = k div 8")
  case True
  then have "k = i \<longleftrightarrow> k mod 8 = i mod 8" by (metis div_mult_mod_eq)
  then show ?thesis using True assms
    by (auto simp: bit_at_def bit_and_iff bit_not_iff bit_exp_iff)
qed (auto simp: bit_at_def)

lemma clear_in_byte_spec:
  "a \<le> 8 \<Longrightarrow> case clear_in_byte n b w [a..<8] of
     Inl _ \<Rightarrow> \<forall>k \<in> {a..<8}. b * 8 + k < n \<and> bit w k
   | Inr None \<Rightarrow> \<exists>k \<in> {a..<8}. n \<le> b * 8 + k \<and> (\<forall>j \<in> {a..<k}. bit w j)
   | Inr (Some i) \<Rightarrow> \<exists>k \<in> {a..<8}. i = b * 8 + k \<and> i < n \<and> \<not> bit w k \<and> (\<forall>j \<in> {a..<k}. bit w j)"
proof (induction "8 - a" arbitrary: a)
  case (Suc m)
  have eq: "[a..<8] = a # [Suc a..<8]" using Suc(2) by (simp add: upt_conv_Cons)
  have d: "(drop_bit a w AND 1 = 0) \<longleftrightarrow> \<not> bit w a" using drop_bit_and_1 by blast
  have ext: "(\<forall>j \<in> {a..<k}. bit w j) \<longleftrightarrow> (\<forall>j \<in> {Suc a..<k}. bit w j)" if "bit w a" for k
    using that by (auto simp: Suc_le_eq order_le_less)
  show ?case
  proof (cases "b * 8 + a < n \<and> bit w a")
    case True
    then have "clear_in_byte n b w [a..<8] = clear_in_byte n b w [Suc a..<8]" by (simp add: eq d Let_def)
    moreover have "case clear_in_byte n b w [Suc a..<8] of
        Inl _ \<Rightarrow> \<forall>k \<in> {Suc a..<8}. b * 8 + k < n \<and> bit w k
      | Inr None \<Rightarrow> \<exists>k \<in> {Suc a..<8}. n \<le> b * 8 + k \<and> (\<forall>j \<in> {Suc a..<k}. bit w j)
      | Inr (Some i) \<Rightarrow> \<exists>k \<in> {Suc a..<8}. i = b * 8 + k \<and> i < n \<and> \<not> bit w k \<and> (\<forall>j \<in> {Suc a..<k}. bit w j)"
      using Suc(1) [of "Suc a"] Suc(2) by simp
    ultimately show ?thesis
      using True ext by (auto split: sum.splits option.splits simp: Suc_le_eq dest: le_neq_implies_less)
  next
    case False
    then show ?thesis using Suc(2) by (auto simp: eq d Let_def not_less intro!: bexI [of _ a])
  qed
qed simp

lemma byte_ff: "(w :: u8) = 0xFF \<Longrightarrow> k < 8 \<Longrightarrow> bit w k"
proof -
  assume k: "w = 0xFF" "k < 8"
  have "(0xFF :: u8) = mask 8" by (simp add: mask_eq_exp_minus_1)
  then have "w = mask 8" using k(1) by simp
  then show ?thesis using k(2) unfolding \<open>w = mask 8\<close> bit_mask_iff by simp
qed

lemma clear_in_bytes_spec:
  "case clear_in_bytes n b d of
     Some i \<Rightarrow> b * 8 \<le> i \<and> i < n \<and> i div 8 < b + length d \<and> \<not> bit (d ! (i div 8 - b)) (i mod 8)
       \<and> (\<forall>j \<in> {b * 8..<i}. bit (d ! (j div 8 - b)) (j mod 8))
   | None \<Rightarrow> \<forall>j \<in> {b * 8..<n}. j div 8 < b + length d \<longrightarrow> bit (d ! (j div 8 - b)) (j mod 8)"
proof (induction n b d rule: clear_in_bytes.induct)
  case (2 n b w d)
  have here: "(w # d) ! (j div 8 - b) = w \<and> j mod 8 = j - b * 8" if "b * 8 \<le> j" "j < b * 8 + 8" for j
  proof -
    have "j div 8 = b" using that by auto
    then show ?thesis using div_mult_mod_eq [of j 8] by simp
  qed
  have there: "(w # d) ! (j div 8 - b) = d ! (j div 8 - Suc b)" if "b * 8 + 8 \<le> j" for j
  proof -
    have "j div 8 \<ge> Suc b" using div_le_mono [OF that, of 8] by simp
    then have "j div 8 - b = Suc (j div 8 - Suc b)" by simp
    then show ?thesis by simp
  qed
  let ?r = "if w \<noteq> 0xFF then clear_in_byte n b w [0..<8] else Inl ()"
  show ?case
  proof (cases ?r)
    case (Inl u)
    have all: "bit w k" if "k < 8" for k
      using Inl byte_ff [of w k] clear_in_byte_spec [where a = 0 and n = n and b = b and w = w] that by (auto split: if_splits)
    have low: "bit ((w # d) ! (j div 8 - b)) (j mod 8)" if "b * 8 \<le> j" "j < b * 8 + 8" for j
      using here [OF that] all [of "j - b * 8"] that by simp
    have up: "bit ((w # d) ! (j div 8 - b)) (j mod 8)"
      if "b * 8 \<le> j" "Suc b * 8 \<le> j \<Longrightarrow> bit (d ! (j div 8 - Suc b)) (j mod 8)" for j
      using low [OF that(1)] there [of j] that(2) by (cases "j < b * 8 + 8") auto
    have step: "clear_in_bytes n b (w # d) = clear_in_bytes n (Suc b) d" using Inl by simp
    show ?thesis
    proof (cases "clear_in_bytes n (Suc b) d")
      case None
      then have "\<forall>j \<in> {Suc b * 8..<n}. j div 8 < Suc b + length d \<longrightarrow> bit (d ! (j div 8 - Suc b)) (j mod 8)"
        using 2 Inl by simp
      then show ?thesis using None step up by simp
    next
      case (Some i)
      then have i: "Suc b * 8 \<le> i" "i < n" "i div 8 < Suc b + length d" "\<not> bit (d ! (i div 8 - Suc b)) (i mod 8)"
        "\<forall>j \<in> {Suc b * 8..<i}. bit (d ! (j div 8 - Suc b)) (j mod 8)"
        using 2 Inl by simp_all
      then show ?thesis using Some step up there [of i] by simp
    qed
  next
    case (Inr r)
    then have r: "clear_in_byte n b w [0..<8] = Inr r" "clear_in_bytes n b (w # d) = r" by (auto split: if_splits)
    then show ?thesis
    proof (cases r)
      case None
      then obtain k where k: "k < 8" "n \<le> b * 8 + k" "\<forall>j<k. bit w j"
        using clear_in_byte_spec [where a = 0 and n = n and b = b and w = w] r(1) by auto
      have "bit ((w # d) ! (j div 8 - b)) (j mod 8)" if "b * 8 \<le> j" "j < n" for j
      proof -
        have "j < b * 8 + 8" "j - b * 8 < k" using that k(1,2) by linarith+
        then show ?thesis using here that(1) k(3) by simp
      qed
      then show ?thesis using None r(2) by auto
    next
      case (Some i)
      then obtain k where k: "k < 8" "i = b * 8 + k" "i < n" "\<not> bit w k" "\<forall>j<k. bit w j"
        using clear_in_byte_spec [where a = 0 and n = n and b = b and w = w] r(1) by auto
      have "bit ((w # d) ! (j div 8 - b)) (j mod 8)" if "b * 8 \<le> j" "j < i" for j
      proof -
        have "j < b * 8 + 8" "j - b * 8 < k" using that k(1,2) by linarith+
        then show ?thesis using here that(1) k(5) by simp
      qed
      then show ?thesis using Some r(2) k here [of i] by auto
    qed
  qed
qed (auto simp: div_less_iff_less_mult)

lemma find_first_clear_Some:
  assumes "find_first_clear b = Some i"
  shows "i < bm_size b" "i div 8 < length (bm_data b)" "\<not> bit_at (bm_data b) i" "\<forall>j<i. bit_at (bm_data b) j"
  using clear_in_bytes_spec [where n = "bm_size b" and b = 0 and d = "bm_data b"] assms
  by (auto simp: find_first_clear_def bit_at_def)

lemma find_first_clear_None:
  "\<lbrakk>find_first_clear b = None; j < bm_size b; j div 8 < length (bm_data b)\<rbrakk> \<Longrightarrow> bit_at (bm_data b) j"
  using clear_in_bytes_spec [where n = "bm_size b" and b = 0 and d = "bm_data b"]
  by (auto simp: find_first_clear_def bit_at_def)

section \<open>Round trips\<close>

lemma length_ptr_bytes [buf_simps]: "length (ptr_bytes ps) = 4 * length ps"
  by (induction ps) (simp_all add: ptr_bytes_def)

lemma field_ptr_bytes: "i < length ps \<Longrightarrow> field (ptr_bytes ps) (i * 4) 4 = ps ! i mod 2 ^ 32"
proof (induction ps arbitrary: i)
  case (Cons p ps)
  show ?case
  proof (cases i)
    case 0
    then show ?thesis by (simp add: field_def slice_def ptr_bytes_def)
  next
    case (Suc j)
    then have "slice (ptr_bytes (p # ps)) (i * 4) 4 = slice (ptr_bytes ps) (j * 4) 4"
      by (simp add: ptr_bytes_def slice_def)
    then show ?thesis using Cons Suc by (simp add: field_def)
  qed
qed simp

lemma field_skip: "length a = k \<Longrightarrow> k \<le> off \<Longrightarrow> field (a @ b) off n = field b (off - k) n"
  by (simp add: field_def slice_append_right)

lemma field_here: "field (le_bytes k v @ b) 0 k = v mod 256 ^ k"
  by (simp add: field_def slice_def)

lemma field_in: "off + n \<le> length a \<Longrightarrow> field (a @ b) off n = field a off n"
  by (simp add: field_def slice_append_left)

lemma slice_skip: "length a = k \<Longrightarrow> k \<le> off \<Longrightarrow> slice (a @ b) off n = slice b (off - k) n"
  by (simp add: slice_append_right)

lemma slice_here: "length a = n \<Longrightarrow> slice (a @ b) 0 n = a"
  by (simp add: slice_def)

lemmas field_le = field_skip [OF length_le_bytes] slice_skip [OF length_le_bytes] field_here

lemma length_inode_bytes: "inode_wf r \<Longrightarrow> length (inode_bytes r) = RAW_INODE_SIZE"
  by (simp add: inode_bytes_def inode_wf_def length_ptr_bytes)

lemma inode_of_bytes_inverse: "inode_wf r \<Longrightarrow> inode_of_bytes (inode_bytes r @ rest) = r"
proof -
  assume wf: "inode_wf r"
  have lp: "length (ptr_bytes (i_block r)) = 60" using wf by (simp add: length_ptr_bytes inode_wf_def)
  have "map (\<lambda>i. field (ptr_bytes (i_block r) @ b) (i * 4) 4) [0..<15] = i_block r" for b
    using wf by (intro nth_equalityI) (auto simp: field_in lp field_ptr_bytes inode_wf_def list_all_length)
  then show ?thesis
    using wf by (intro raw_inode.equality) (simp_all add: inode_of_bytes_def inode_bytes_def field_le field_skip [OF lp]
        slice_skip [OF lp] inode_wf_def slice_here del: upt_rec_numeral)
qed

definition bgd_wf :: "bg_desc \<Rightarrow> bool" where
  "bgd_wf g \<longleftrightarrow> bg_block_bitmap g < 2 ^ 32 \<and> bg_inode_bitmap g < 2 ^ 32 \<and> bg_inode_table g < 2 ^ 32
     \<and> bg_free_blocks_count g < 2 ^ 16 \<and> bg_free_inodes_count g < 2 ^ 16 \<and> bg_used_dirs_count g < 2 ^ 16
     \<and> bg_pad g < 2 ^ 16 \<and> length (bg_reserved g) = 3 \<and> list_all (\<lambda>p. p < 2 ^ 32) (bg_reserved g)"

lemma length_bgd_bytes: "bgd_wf g \<Longrightarrow> length (bgd_bytes g) = BGD_SIZE"
  using length_ptr_bytes [of "bg_reserved g"] by (simp add: bgd_bytes_def bgd_wf_def ptr_bytes_def)

lemma bgd_of_bytes_inverse: "bgd_wf g \<Longrightarrow> bgd_of_bytes (bgd_bytes g @ rest) = g"
proof -
  assume wf: "bgd_wf g"
  have lp: "length (ptr_bytes (bg_reserved g)) = 12" using wf by (simp add: length_ptr_bytes bgd_wf_def)
  have r: "map (\<lambda>i. field (ptr_bytes (bg_reserved g) @ b) (i * 4) 4) [0..<3] = bg_reserved g" for b
    using wf by (intro nth_equalityI) (auto simp: field_in lp field_ptr_bytes bgd_wf_def list_all_length)
  show ?thesis
    using wf r by (intro bg_desc.equality)
      (simp_all add: bgd_of_bytes_def bgd_bytes_def field_le bgd_wf_def ptr_bytes_def [symmetric] del: upt_rec_numeral)
qed

lemma is_power_of_iff: "1 < b \<Longrightarrow> is_power_of n b \<longleftrightarrow> (\<exists>k. n = b ^ k)"
proof (induction n b rule: is_power_of.induct)
  case (1 n b)
  show ?case
  proof (cases "n \<noteq> 0 \<and> n mod b = 0")
    case True
    then obtain m where m: "n = b * m" by auto
    have "is_power_of n b \<longleftrightarrow> (\<exists>k. m = b ^ k)"
      using 1 True m by (subst is_power_of.simps) simp
    also have "\<dots> \<longleftrightarrow> (\<exists>k. n = b ^ k)"
    proof
      assume "\<exists>k. m = b ^ k"
      then obtain k where "m = b ^ k" ..
      then show "\<exists>k. n = b ^ k" using m by (intro exI [of _ "Suc k"]) simp
    next
      assume "\<exists>k. n = b ^ k"
      then obtain k where k: "n = b ^ k" ..
      then have "k \<noteq> 0" using True 1(2) by (cases k) auto
      then show "\<exists>k. m = b ^ k" using k m 1(2) by (cases k) auto
    qed
    finally show ?thesis .
  next
    case False
    have "(\<exists>k. n = b ^ k) \<longleftrightarrow> n = 1"
    proof
      assume "\<exists>k. n = b ^ k"
      then obtain k where k: "n = b ^ k" ..
      then have "k = 0" using False 1(2) by (cases k) auto
      then show "n = 1" using k by simp
    next
      assume "n = 1"
      then show "\<exists>k. n = b ^ k" by (intro exI [of _ 0]) simp
    qed
    then show ?thesis using False 1(2) by (subst is_power_of.simps) auto
  qed
qed

lemma length_patch_into: "length buf \<ge> 1024 \<Longrightarrow> length (patch_into sb buf g w) = length buf"
  by (simp add: patch_into_def Let_def length_put)

lemma raw_sb_patch:
  assumes "length buf \<ge> 1024"
  shows "raw_sb_of_bytes (patch_into sb buf g w) = (raw_sb_of_bytes buf)\<lparr>
     rs_free_blocks_count := es_free_blocks_count sb mod 2 ^ 32, rs_free_inodes_count := es_free_inodes_count sb mod 2 ^ 32,
     rs_mnt_count := es_mnt_count sb mod 2 ^ 16, rs_wtime := w mod 2 ^ 32, rs_state := es_state sb mod 2 ^ 16,
     rs_block_group_nr := if es_rev_level sb > 0 then g mod 2 ^ 16 else field buf 90 2\<rparr>"
  using assms by (cases "es_rev_level sb > 0") (simp_all add: patch_into_def Let_def raw_sb_of_bytes_def buf_simps)

lemma sb_from_raw_InrD:
  assumes "sb_from_raw raw = Inr sb"
  shows "es_log_block_size sb \<le> 6" "es_inode_size sb \<le> sb_block_size sb" "is_power_of_two (es_inode_size sb)"
    "es_blocks_per_group sb > 0" "es_inodes_per_group sb > 0" "es_inode_size sb \<ge> 128"
    "es_blocks_count sb > 0" "es_inodes_count sb > 0"
  using assms by (auto simp: sb_from_raw_def Let_def sb_block_size_def split: if_splits)

lemma sb_patch_parse:
  assumes "length buf \<ge> 1024" "sb_from_raw (raw_sb_of_bytes buf) = Inr old"
    and "fb < 2 ^ 32" "fi < 2 ^ 32" "st < 2 ^ 16" "mc < 2 ^ 16"
    and "new = old\<lparr>es_free_blocks_count := fb, es_free_inodes_count := fi, es_state := st, es_mnt_count := mc\<rparr>"
  shows "sb_from_raw (raw_sb_of_bytes (patch_into new buf g wtime)) = Inr new"
  unfolding raw_sb_patch [OF assms(1)] using assms(2-7)
  by (auto simp: sb_from_raw_def Let_def split: if_splits)

lemma power_of_two_dvd:
  assumes "is_power_of_two n" "n \<le> 1024 * 2 ^ m"
  shows "n dvd 1024 * 2 ^ m"
proof -
  obtain k where k: "n = 2 ^ k" using assms(1) by (auto simp: is_power_of_two_def)
  have "(1024 :: nat) * 2 ^ m = 2 ^ (10 + m)" by (simp add: power_add)
  moreover from this have "k \<le> 10 + m" using assms(2) k by (metis nat_power_less_imp_less not_le one_less_numeral_iff
      power_strict_increasing_iff semiring_norm(76))
  ultimately show ?thesis using k by (simp add: le_imp_power_dvd)
qed

section \<open>Properties\<close>

text \<open>
  C26.  Writing back a superblock and reading it again: when the counters, the state and
  the mount count of an accepted superblock are patched into the image it was read from,
  the new image is accepted and parses to exactly the patched superblock.  Every accepted superblock has a block size of 1 to 64 KiB
  that its inode size divides.
\<close>

theorem superblock_roundtrip:
  assumes "length buf \<ge> 1024" "sb_from_raw (raw_sb_of_bytes buf) = Inr old"
    and "fb < 2 ^ 32" "fi < 2 ^ 32" "st < 2 ^ 16" "mc < 2 ^ 16"
  defines "new \<equiv> old\<lparr>es_free_blocks_count := fb, es_free_inodes_count := fi, es_state := st, es_mnt_count := mc\<rparr>"
  shows "sb_from_raw (raw_sb_of_bytes (patch_into new buf g wtime)) = Inr new
    \<and> es_inode_size new dvd sb_block_size new \<and> sb_block_size new \<in> {1024..65536}"
proof -
  note d = sb_from_raw_InrD [OF assms(2)]
  have "(2 :: nat) ^ es_log_block_size old \<le> 2 ^ 6" using d(1) by (intro power_increasing) simp_all
  moreover have "es_inode_size old dvd 1024 * 2 ^ es_log_block_size old"
    using d(2,3) by (intro power_of_two_dvd) (simp_all add: sb_block_size_def)
  moreover have "sb_from_raw (raw_sb_of_bytes (patch_into new buf g wtime)) = Inr new"
    using sb_patch_parse [OF assms(1-6)] by (simp add: new_def)
  ultimately show ?thesis by (simp add: new_def sb_block_size_def)
qed

text \<open>A superblock image with two groups of 8192 blocks of 1 KiB.\<close>

definition sample_sb_image :: bytes where
  "sample_sb_image = le_bytes 4 128 @ le_bytes 4 16384 @ le_bytes 4 0 @ le_bytes 4 16000 @ le_bytes 4 100
     @ le_bytes 4 1 @ le_bytes 4 0 @ le_bytes 4 0 @ le_bytes 4 8192 @ le_bytes 4 8192 @ le_bytes 4 64 @ replicate 12 0
     @ le_bytes 2 0xEF53 @ le_bytes 2 1 @ replicate 964 0"

definition sample_sb :: ext2_sb where
  "sample_sb = \<lparr>es_inodes_count = 128, es_blocks_count = 16384, es_free_blocks_count = 16000,
     es_free_inodes_count = 100, es_first_data_block = 1, es_log_block_size = 0, es_blocks_per_group = 8192,
     es_inodes_per_group = 64, es_inode_size = 128, es_magic = 0xEF53, es_rev_level = 0, es_first_ino = 11,
     es_feature_compat = 0, es_feature_incompat = 0, es_feature_ro_compat = 0, es_state = 1, es_mnt_count = 0\<rparr>"

lemma from_le_zeros: "from_le (replicate n 0) = 0"
  by (induction n) simp_all

lemma field_zeros: "field (replicate m 0) off n = 0"
  by (simp add: field_def slice_def from_le_zeros)

lemma sample_sb_parse: "sb_from_raw (raw_sb_of_bytes sample_sb_image) = Inr sample_sb"
proof -
  have "field sample_sb_image 0 4 = 128" "field sample_sb_image 4 4 = 16384" "field sample_sb_image 12 4 = 16000"
    "field sample_sb_image 16 4 = 100" "field sample_sb_image 20 4 = 1" "field sample_sb_image 24 4 = 0"
    "field sample_sb_image 32 4 = 8192" "field sample_sb_image 40 4 = 64" "field sample_sb_image 56 2 = 0xEF53"
    "field sample_sb_image 58 2 = 1" "field sample_sb_image 76 4 = 0" "field sample_sb_image 92 4 = 0"
    "field sample_sb_image 96 4 = 0" "field sample_sb_image 100 4 = 0" "field sample_sb_image 52 2 = 0"
    by (simp_all add: sample_sb_image_def field_le field_skip [OF length_replicate] field_zeros field_in
        del: le_bytes.simps replicate.simps)
  moreover have "is_power_of_two 128" by (auto simp: is_power_of_two_def intro!: image_eqI [of _ _ 7])
  ultimately show ?thesis by (simp add: sb_from_raw_def raw_sb_of_bytes_def sample_sb_def Let_def)
qed

theorem superblock_roundtrip_witness:
  "sb_from_raw (raw_sb_of_bytes (patch_into (sample_sb\<lparr>es_free_blocks_count := 15999, es_free_inodes_count := 100,
      es_state := 0, es_mnt_count := 1\<rparr>) sample_sb_image 0 0))
    = Inr (sample_sb\<lparr>es_free_blocks_count := 15999, es_free_inodes_count := 100, es_state := 0, es_mnt_count := 1\<rparr>)"
  using superblock_roundtrip [OF _ sample_sb_parse, of 15999 100 0 1 0 0]
  by (simp add: sample_sb_image_def del: le_bytes.simps replicate.simps)

end
