(* ===== verification/Kor_Ext2_Fs.thy ===== *)
theory Kor_Ext2_Fs
  imports Kor_Act Kor_Cache Kor_Ext2_Layout
begin

text \<open>
  The mounted ext2 instance, \<^verbatim>\<open>filesystems/kor-ext2/src/lib.rs\<close>, and its block and inode
  allocation, \<^verbatim>\<open>bitmap.rs\<close>.  The state holds the block cache (with the device), the
  in-memory superblock and group descriptors, and the inode objects: \<open>x_objs\<close> is the store of
  all \<^verbatim>\<open>Ext2INode\<close> values, a position in it is the identity of an \<^verbatim>\<open>Arc\<close>, and \<open>xi_live\<close> says
  whether a strong reference is left (\<open>drop_inode\<close> is the end of the last one).  The spin lock
  of the superblock is in the state, since one function keeps it across calls that take it
  again; every other lock is free whenever an operation starts.
\<close>

section \<open>State\<close>

definition SUPERBLOCK_OFFSET :: usize where [simp]: "SUPERBLOCK_OFFSET = 1024"
definition EXT2_ROOT_INO :: nat where [simp]: "EXT2_ROOT_INO = 2"
definition BLOCK_CACHE_CAPACITY :: usize where [simp]: "BLOCK_CACHE_CAPACITY = 1024"
definition INODE_CACHE_PRUNE_THRESHOLD :: usize where [simp]: "INODE_CACHE_PRUNE_THRESHOLD = 256"

record iobj =
  xi_num :: nat
  xi_raw :: raw_inode
  xi_live :: bool

record 'd ext2 =
  x_cache :: "'d block_cache"
  x_sb :: ext2_sb
  x_sb_held :: bool
  x_groups :: "bg_desc list"
  x_block_size :: usize
  x_read_only :: bool
  x_icache :: "(nat, nat) btree"
  x_objs :: "iobj list"

definition x_dev_bs :: "'d ext2 \<Rightarrow> usize" where
  "x_dev_bs s = bd_block_size (bc_device (x_cache s))"

definition x_per :: "'d ext2 \<Rightarrow> usize" where
  "x_per s = x_block_size s div x_dev_bs s"

text \<open>\<^verbatim>\<open>self.super_block.lock()\<close> for reading and for an update in place.\<close>

definition get_sb :: "('d ext2, ext2_sb) act" where
  "get_sb s = (if x_sb_held s then die Deadlock s else ret (x_sb s) s)"

definition upd_sb :: "(ext2_sb \<Rightarrow> ext2_sb) \<Rightarrow> ('d ext2, unit) act" where
  "upd_sb f s = (if x_sb_held s then die Deadlock s else upd (x_sb_update f) s)"

definition x_has_filetype :: "('d ext2, bool) act" where
  "x_has_filetype = thn get_sb (\<lambda>sb. ret (sb_has_filetype sb))"

definition x_has_large_file :: "('d ext2, bool) act" where
  "x_has_large_file = thn get_sb (\<lambda>sb. ret (sb_has_large_file sb))"

section \<open>Opening\<close>

definition io_err :: "block_error + 'a \<Rightarrow> 'a fsres" where
  "io_err r = (case r of Inl _ \<Rightarrow> Inl (FsErr IoError) | Inr x \<Rightarrow> Inr x)"

fun read_each :: "'d block_device \<Rightarrow> 'd \<Rightarrow> usize list \<Rightarrow> bytes fsres" where
  "read_each dev d [] = Inr []"
| "read_each dev d (blk # blks) =
     bnd (io_err (bd_read dev d blk (bd_block_size dev))) (\<lambda>b.
     bnd (read_each dev d blks) (\<lambda>bs. Inr (b @ bs)))"

definition ext2_open :: "'d block_device \<Rightarrow> 'd \<Rightarrow> 'd ext2 fsres" where
  "ext2_open dev d =
     (let dev_block_size = bd_block_size dev in
      if dev_block_size = 0 then Inl (Crash (Panic ''attempt to divide by zero'')) else
      let sb_block = SUPERBLOCK_OFFSET div dev_block_size;
          sb_offset_in_block = SUPERBLOCK_OFFSET mod dev_block_size;
          blocks_needed = div_ceil (1024 + sb_offset_in_block) dev_block_size in
      bnd (read_each dev d (map (\<lambda>i. sb_block + i) [0..<blocks_needed])) (\<lambda>sb_buf.
      bnd (sb_from_raw (raw_sb_of_bytes (drop sb_offset_in_block sb_buf))) (\<lambda>super_block.
      let block_size = sb_block_size super_block in
      bnd (ensure (\<not> (block_size < dev_block_size \<or> block_size mod dev_block_size \<noteq> 0)) InvalidInput) (\<lambda>_.
      let bgdt_block = (if block_size = 1024 then 2 else 1);
          bg_count = block_group_count super_block;
          bgdt_blocks = div_ceil (bg_count * BGD_SIZE) block_size;
          fs_per_dev = block_size div dev_block_size in
      bnd (read_each dev d (concat (map (\<lambda>i. map (\<lambda>j. (bgdt_block + i) * fs_per_dev + j) [0..<fs_per_dev])
             [0..<bgdt_blocks]))) (\<lambda>bgdt_buf.
      bnd (ensure (unsupported_incompat super_block = 0) InvalidInput) (\<lambda>_.
      Inr \<lparr>x_cache = cache_new dev d BLOCK_CACHE_CAPACITY, x_sb = super_block, x_sb_held = False,
           x_groups = parse_block_group_descriptors bgdt_buf bg_count, x_block_size = block_size,
           x_read_only = (unsupported_ro_compat super_block \<noteq> 0), x_icache = [], x_objs = []\<rparr>))))))"

section \<open>Block input and output\<close>

definition cached_io :: "('d block_cache \<Rightarrow> (block_error + 'a) \<times> 'd block_cache) \<Rightarrow> ('d ext2, 'a) act" where
  "cached_io f s = (let (r, c) = f (x_cache s) in (io_err r, s\<lparr>x_cache := c\<rparr>))"

fun read_parts :: "usize \<Rightarrow> usize \<Rightarrow> nat list \<Rightarrow> ('d ext2, bytes) act" where
  "read_parts dev_start dev_bs [] = ret []"
| "read_parts dev_start dev_bs (i # is) =
     thn (cached_io (\<lambda>c. read_block_cached c (usize_add dev_start i) dev_bs)) (\<lambda>d.
     thn (read_parts dev_start dev_bs is) (\<lambda>ds. ret (d @ ds)))"

text \<open>A buffer of \<^verbatim>\<open>block_size\<close> bytes is filled; every caller passes one.\<close>

definition read_fs_block :: "usize \<Rightarrow> ('d ext2, bytes) act" where
  "read_fs_block fs_block s = read_parts (usize_mul fs_block (x_per s)) (x_dev_bs s) [0..<x_per s] s"

fun write_parts :: "usize \<Rightarrow> usize \<Rightarrow> bytes \<Rightarrow> nat list \<Rightarrow> ('d ext2, unit) act" where
  "write_parts dev_start dev_bs buf [] = ret ()"
| "write_parts dev_start dev_bs buf (i # is) =
     (if i * dev_bs + dev_bs > length buf then die (Panic ''range end index out of range'')
      else thn (cached_io (\<lambda>c. write_block_cached c (usize_add dev_start i) (slice buf (i * dev_bs) dev_bs)))
             (\<lambda>_. write_parts dev_start dev_bs buf is))"

definition write_fs_block :: "usize \<Rightarrow> bytes \<Rightarrow> ('d ext2, unit) act" where
  "write_fs_block fs_block buf s =
     (if x_read_only s then fail ReadOnlyFs s
      else write_parts (usize_mul fs_block (x_per s)) (x_dev_bs s) buf [0..<x_per s] s)"

definition read_fs_blocks :: "usize \<Rightarrow> usize \<Rightarrow> usize \<Rightarrow> ('d ext2, bytes) act" where
  "read_fs_blocks start_fs_block count n s =
     (let dev_start = usize_mul start_fs_block (x_per s) in
      thn (cached_io (\<lambda>c. flush_range c dev_start (usize_mul count (x_per s)))) (\<lambda>_.
      thn (gets x_cache) (\<lambda>c.
      lift (io_err (read_blocks (bc_device c) (bc_disk c) dev_start n)))) s)"

definition write_fs_blocks :: "usize \<Rightarrow> usize \<Rightarrow> bytes \<Rightarrow> ('d ext2, unit) act" where
  "write_fs_blocks start_fs_block count buf s =
     (if x_read_only s then fail ReadOnlyFs s
      else let dev_start = usize_mul start_fs_block (x_per s) in
        thn (upd (x_cache_update (\<lambda>c. invalidate_range c dev_start (usize_mul count (x_per s))))) (\<lambda>_.
        cached_io (\<lambda>c. let (r, d) = write_blocks (bc_device c) (bc_disk c) dev_start buf in
                        (r, c\<lparr>bc_disk := d\<rparr>))) s)"

section \<open>Metadata persistence\<close>

text \<open>The block size of an opened instance is at least 1024, so the patched range is in bounds.\<close>

definition patch_super_block_copy :: "ext2_sb \<Rightarrow> usize \<Rightarrow> usize \<Rightarrow> nat \<Rightarrow> ('d ext2, unit) act" where
  "patch_super_block_copy sb fs_block offset_in_block group_nr =
     thn (read_fs_block fs_block) (\<lambda>buf.
     write_fs_block fs_block
       (put buf offset_in_block (patch_into sb (slice buf offset_in_block 1024) group_nr 0)))"

definition backup_groups :: "ext2_sb \<Rightarrow> nat list" where
  "backup_groups sb =
     filter (\<lambda>g. \<not> (has_sparse_super sb \<and> \<not> group_has_super_backup g)) [1..<block_group_count sb]"

definition group_block :: "ext2_sb \<Rightarrow> nat \<Rightarrow> nat" where
  "group_block sb g = u32_add (es_first_data_block sb) (u32_mul g (es_blocks_per_group sb))"

definition write_super_block :: "('d ext2, unit) act" where
  "write_super_block s =
     (if x_read_only s then ret () s
      else thn get_sb (\<lambda>sb.
           let (primary_block, primary_off) = (if x_block_size s = 1024 then (1, 0) else (0, 1024)) in
           thn (patch_super_block_copy sb primary_block primary_off 0) (\<lambda>_.
           for_each (\<lambda>g. patch_super_block_copy sb (group_block sb g) 0 (g mod 2 ^ 16)) (backup_groups sb))) s)"

definition put_descriptors :: "usize \<Rightarrow> usize \<Rightarrow> bg_desc list \<Rightarrow> bytes \<Rightarrow> bytes" where
  "put_descriptors block_size i groups buf =
     (let block_first = i * block_size in
      fold (\<lambda>(gi, bg) buf.
              let goff = gi * BGD_SIZE in
              if goff + BGD_SIZE \<le> block_first \<or> goff \<ge> block_first + block_size then buf
              else put buf (goff - block_first) (bgd_bytes bg))
        (enumerate 0 groups) buf)"

definition write_bgdt_at :: "usize \<Rightarrow> ('d ext2, unit) act" where
  "write_bgdt_at start_block s =
     (let groups = x_groups s; block_size = x_block_size s;
          nblocks = div_ceil (length groups * BGD_SIZE) block_size in
      for_each (\<lambda>i. thn (read_fs_block (start_block + i)) (\<lambda>buf.
                    write_fs_block (start_block + i) (put_descriptors block_size i groups buf)))
        [0..<nblocks] s)"

definition write_block_group_descriptors :: "('d ext2, unit) act" where
  "write_block_group_descriptors s =
     (if x_read_only s then ret () s
      else thn get_sb (\<lambda>sb.
           thn (write_bgdt_at (es_first_data_block sb + 1)) (\<lambda>_.
           for_each (\<lambda>g. write_bgdt_at (group_block sb g + 1)) (backup_groups sb))) s)"

section \<open>Inode objects\<close>

text \<open>
  The block and the offset in it where inode \<open>inode_num\<close> is stored.  The inode size of an
  accepted superblock divides its block size and is at least 128.
\<close>

definition inode_slot :: "ext2_sb \<Rightarrow> bg_desc list \<Rightarrow> usize \<Rightarrow> nat \<Rightarrow> (usize \<times> usize) fsres" where
  "inode_slot sb groups block_size inode_num =
     (let idx = (u32_sub inode_num 1) div es_inodes_per_group sb;
          local = (u32_sub inode_num 1) mod es_inodes_per_group sb in
      if idx < length groups then
        let offset_in_table = local * es_inode_size sb in
        Inr (bg_inode_table (groups ! idx) + offset_in_table div block_size, offset_in_table mod block_size)
      else Inl (FsErr InvalidInput))"

definition inode_at :: "nat \<Rightarrow> ('d ext2, usize \<times> usize) act" where
  "inode_at inode_num =
     thn get_sb (\<lambda>sb. thn (gets (\<lambda>s. (x_groups s, x_block_size s))) (\<lambda>(groups, block_size).
     lift (inode_slot sb groups block_size inode_num)))"

definition inode_read :: "nat \<Rightarrow> ('d ext2, raw_inode) act" where
  "inode_read inode_num =
     thn (guard (inode_num \<noteq> 0) InvalidInput) (\<lambda>_.
     thn (inode_at inode_num) (\<lambda>(fs_block, offset_in_block).
     thn (read_fs_block fs_block) (\<lambda>block_buf.
     if length block_buf < offset_in_block + RAW_INODE_SIZE then die (Panic ''assertion failed'')
     else ret (inode_of_bytes (drop offset_in_block block_buf)))))"

definition obj_live :: "'d ext2 \<Rightarrow> nat \<Rightarrow> bool" where
  "obj_live s oid \<longleftrightarrow> oid < length (x_objs s) \<and> xi_live (x_objs s ! oid)"

definition drop_inode :: "nat \<Rightarrow> 'd ext2 \<Rightarrow> 'd ext2" where
  "drop_inode oid s = s\<lparr>x_objs := (x_objs s)[oid := (x_objs s ! oid)\<lparr>xi_live := False\<rparr>]\<rparr>"

definition cache_new_inode :: "nat \<Rightarrow> raw_inode \<Rightarrow> 'd ext2 \<Rightarrow> 'd ext2" where
  "cache_new_inode inode_num raw s =
     (let oid = length (x_objs s);
          icache = (if length (x_icache s) \<ge> INODE_CACHE_PRUNE_THRESHOLD
                    then filter (\<lambda>(_, w). obj_live s w) (x_icache s) else x_icache s) in
      s\<lparr>x_objs := x_objs s @ [\<lparr>xi_num = inode_num, xi_raw = raw, xi_live = True\<rparr>],
        x_icache := bt_insert inode_num oid icache\<rparr>)"

text \<open>The cached object, when its weak reference can still be upgraded.\<close>

definition live_inode :: "'d ext2 \<Rightarrow> nat \<Rightarrow> nat option" where
  "live_inode s inode_num =
     (case bt_get (x_icache s) inode_num of
        Some oid \<Rightarrow> if obj_live s oid then Some oid else None
      | None \<Rightarrow> None)"

definition get_inode :: "nat \<Rightarrow> ('d ext2, nat) act" where
  "get_inode inode_num s =
     (case live_inode s inode_num of
        Some oid \<Rightarrow> ret oid s
      | None \<Rightarrow>
          thn (inode_read inode_num) (\<lambda>raw. thn (gets (\<lambda>s. length (x_objs s))) (\<lambda>oid.
          thn (upd (cache_new_inode inode_num raw)) (\<lambda>_. ret oid))) s)"

definition invalidate_inode :: "nat \<Rightarrow> ('d ext2, unit) act" where
  "invalidate_inode inode_num = upd (x_icache_update (bt_remove inode_num))"

definition adjust_used_dirs :: "nat \<Rightarrow> int \<Rightarrow> ('d ext2, unit) act" where
  "adjust_used_dirs inode_num delta =
     thn get_sb (\<lambda>sb.
     if es_inodes_per_group sb = 0 then ret ()
     else let gi = (u32_sub inode_num 1) div es_inodes_per_group sb in
       upd (\<lambda>s. if gi < length (x_groups s) then
            s\<lparr>x_groups := (x_groups s)[gi := (x_groups s ! gi)\<lparr>bg_used_dirs_count :=
               (if delta \<ge> 0 then min (bg_used_dirs_count (x_groups s ! gi) + nat delta mod 2 ^ 16) (2 ^ 16 - 1)
                else bg_used_dirs_count (x_groups s ! gi) - nat (- delta) mod 2 ^ 16)\<rparr>]\<rparr> else s))"

section \<open>Allocation of blocks\<close>

definition take_block :: "nat \<Rightarrow> 'd ext2 \<Rightarrow> 'd ext2" where
  "take_block gi s =
     s\<lparr>x_groups := (x_groups s)[gi := (x_groups s ! gi)\<lparr>bg_free_blocks_count :=
           u16_sub (bg_free_blocks_count (x_groups s ! gi)) 1\<rparr>],
       x_sb := (x_sb s)\<lparr>es_free_blocks_count := u32_sub (es_free_blocks_count (x_sb s)) 1\<rparr>\<rparr>"

text \<open>One round of the search: a block of group \<open>gi\<close>, or \<open>None\<close> to go on.\<close>

definition alloc_block_in :: "nat \<Rightarrow> ('d ext2, nat option) act" where
  "alloc_block_in gi =
     thn (gets (\<lambda>s. (x_groups s ! gi, x_sb s))) (\<lambda>(bg, sb).
     if bg_free_blocks_count bg = 0 then ret None
     else
       let group_first = group_block sb gi;
           blocks_in_group = min (es_blocks_per_group sb) (u32_sub (es_blocks_count sb) group_first) in
       thn (read_fs_block (bg_block_bitmap bg)) (\<lambda>bitmap_buf.
       let bitmap = bm_from_bytes bitmap_buf blocks_in_group in
       case find_first_clear bitmap of
         None \<Rightarrow> ret None
       | Some local_idx \<Rightarrow>
           thn (lift (bm_set bitmap local_idx)) (\<lambda>bitmap.
           thn (write_fs_block (bg_block_bitmap bg) (bm_data bitmap)) (\<lambda>_.
           thn (upd (take_block gi)) (\<lambda>_.
           ret (Some (u32_add (u32_add (u32_mul gi (es_blocks_per_group sb)) local_idx)
                         (es_first_data_block sb))))))))"

fun alloc_block_scan :: "nat list \<Rightarrow> ('d ext2, nat option) act" where
  "alloc_block_scan [] = ret None"
| "alloc_block_scan (gi # gis) =
     thn (alloc_block_in gi) (\<lambda>r. case r of Some b \<Rightarrow> ret (Some b) | None \<Rightarrow> alloc_block_scan gis)"

definition alloc_block_goal :: "nat \<Rightarrow> ('d ext2, nat) act" where
  "alloc_block_goal goal_group s =
     (if x_read_only s then fail ReadOnlyFs s
      else thn get_sb (\<lambda>_.
           let ngroups = length (x_groups s) in
           thn (alloc_block_scan (map (\<lambda>step. (goal_group + step) mod ngroups) [0..<ngroups])) (\<lambda>r.
           lift (ok_or r (FsErr NoSpace)))) s)"

definition give_block :: "nat \<Rightarrow> 'd ext2 \<Rightarrow> 'd ext2" where
  "give_block gi s =
     s\<lparr>x_groups := (x_groups s)[gi := (x_groups s ! gi)\<lparr>bg_free_blocks_count :=
           u16_add (bg_free_blocks_count (x_groups s ! gi)) 1\<rparr>],
       x_sb := (x_sb s)\<lparr>es_free_blocks_count := u32_add (es_free_blocks_count (x_sb s)) 1\<rparr>\<rparr>"

definition free_block :: "nat \<Rightarrow> ('d ext2, unit) act" where
  "free_block block_id s =
     (if x_read_only s then fail ReadOnlyFs s
      else thn get_sb (\<lambda>sb.
           thn (lift (ok_or (checked_sub block_id (es_first_data_block sb)) (FsErr InvalidInput))) (\<lambda>local_id.
           let gi = local_id div es_blocks_per_group sb;
               local_idx = local_id mod es_blocks_per_group sb in
           thn (guard (gi < length (x_groups s)) InvalidInput) (\<lambda>_.
           let bitmap_block = bg_block_bitmap (x_groups s ! gi) in
           thn (read_fs_block bitmap_block) (\<lambda>bitmap_buf.
           thn (lift (bm_clear (bm_from_bytes bitmap_buf (es_blocks_per_group sb)) local_idx)) (\<lambda>bitmap.
           thn (write_fs_block bitmap_block (bm_data bitmap)) (\<lambda>_.
           upd (give_block gi))))))) s)"

section \<open>Allocation of inodes\<close>

definition take_inode :: "nat \<Rightarrow> 'd ext2 \<Rightarrow> 'd ext2" where
  "take_inode gi s =
     s\<lparr>x_groups := (x_groups s)[gi := (x_groups s ! gi)\<lparr>bg_free_inodes_count :=
           u16_sub (bg_free_inodes_count (x_groups s ! gi)) 1\<rparr>],
       x_sb := (x_sb s)\<lparr>es_free_inodes_count := u32_sub (es_free_inodes_count (x_sb s)) 1\<rparr>\<rparr>"

definition alloc_inode_in :: "nat \<Rightarrow> ('d ext2, nat option) act" where
  "alloc_inode_in gi =
     thn (gets (\<lambda>s. (x_groups s ! gi, x_sb s))) (\<lambda>(bg, sb).
     if bg_free_inodes_count bg = 0 then ret None
     else
       thn (read_fs_block (bg_inode_bitmap bg)) (\<lambda>bitmap_buf.
       let bg_count = block_group_count sb;
           inodes_in_this_group =
             (if gi = bg_count - 1
              then u32_sub (es_inodes_count sb) (u32_mul (bg_count - 1) (es_inodes_per_group sb))
              else es_inodes_per_group sb);
           bitmap = bm_from_bytes bitmap_buf inodes_in_this_group in
       case find_first_clear bitmap of
         None \<Rightarrow> ret None
       | Some local_idx \<Rightarrow>
           thn (lift (bm_set bitmap local_idx)) (\<lambda>bitmap.
           thn (write_fs_block (bg_inode_bitmap bg) (bm_data bitmap)) (\<lambda>_.
           thn (upd (take_inode gi)) (\<lambda>_.
           ret (Some (u32_add (u32_add (u32_mul gi (es_inodes_per_group sb)) local_idx) 1)))))))"

fun alloc_inode_scan :: "nat list \<Rightarrow> ('d ext2, nat option) act" where
  "alloc_inode_scan [] = ret None"
| "alloc_inode_scan (gi # gis) =
     thn (alloc_inode_in gi) (\<lambda>r. case r of Some i \<Rightarrow> ret (Some i) | None \<Rightarrow> alloc_inode_scan gis)"

definition alloc_inode :: "('d ext2, nat) act" where
  "alloc_inode s =
     (if x_read_only s then fail ReadOnlyFs s
      else thn get_sb (\<lambda>_.
           thn (alloc_inode_scan [0..<length (x_groups s)]) (\<lambda>r.
           lift (ok_or r (FsErr NoSpace)))) s)"

definition give_inode :: "nat \<Rightarrow> 'd ext2 \<Rightarrow> 'd ext2" where
  "give_inode gi s =
     s\<lparr>x_groups := (x_groups s)[gi := (x_groups s ! gi)\<lparr>bg_free_inodes_count :=
           u16_add (bg_free_inodes_count (x_groups s ! gi)) 1\<rparr>],
       x_sb := (x_sb s)\<lparr>es_free_inodes_count := u32_add (es_free_inodes_count (x_sb s)) 1\<rparr>\<rparr>"

definition free_inode :: "nat \<Rightarrow> ('d ext2, unit) act" where
  "free_inode inode_num s =
     (if inode_num = 0 then fail InvalidInput s
      else if x_read_only s then fail ReadOnlyFs s
      else thn get_sb (\<lambda>sb.
           let gi = (inode_num - 1) div es_inodes_per_group sb;
               local_idx = (inode_num - 1) mod es_inodes_per_group sb in
           thn (guard (gi < length (x_groups s)) InvalidInput) (\<lambda>_.
           let bitmap_block = bg_inode_bitmap (x_groups s ! gi) in
           thn (read_fs_block bitmap_block) (\<lambda>bitmap_buf.
           thn (lift (bm_clear (bm_from_bytes bitmap_buf (es_inodes_per_group sb)) local_idx)) (\<lambda>bitmap.
           thn (write_fs_block bitmap_block (bm_data bitmap)) (\<lambda>_.
           thn (upd (give_inode gi)) (\<lambda>_.
           invalidate_inode inode_num)))))) s)"

definition init_inode :: "nat \<Rightarrow> nat \<Rightarrow> ('d ext2, unit) act" where
  "init_inode inode_num mode =
     thn (guard (inode_num \<noteq> 0) InvalidInput) (\<lambda>_.
     thn get_sb (\<lambda>sb.
     thn (inode_at inode_num) (\<lambda>(fs_block, offset_in_block).
     thn (read_fs_block fs_block) (\<lambda>block_buf.
     let inode_bytes = put (put (replicate (es_inode_size sb) 0) 0 (le_bytes 2 mode)) 26 (le_bytes 2 1) in
     write_fs_block fs_block (put block_buf offset_in_block inode_bytes)))))"

section \<open>The mount interface\<close>

definition x_cache_sync :: "('d ext2, unit) act" where
  "x_cache_sync = cached_io cache_sync"

definition ext2_sync :: "('d ext2, unit) act" where
  "ext2_sync =
     thn write_super_block (\<lambda>_. thn write_block_group_descriptors (\<lambda>_. x_cache_sync))"

definition ext2_on_mount :: "('d ext2, unit) act" where
  "ext2_on_mount s =
     (if x_read_only s then ret () s
      else thn get_sb (\<lambda>previous.
           thn (upd_sb (\<lambda>sb. sb\<lparr>es_state := (es_state sb AND (0xFFFF - EXT2_VALID_FS)),
                                es_mnt_count := min (es_mnt_count sb + 1) (2 ^ 16 - 1)\<rparr>)) (\<lambda>_.
           thn (attempt (thn write_super_block (\<lambda>_. x_cache_sync))) (\<lambda>result.
           case result of
             Inr _ \<Rightarrow> ret ()
           | Inl e \<Rightarrow>
               thn (upd_sb (\<lambda>sb. sb\<lparr>es_state := es_state previous, es_mnt_count := es_mnt_count previous\<rparr>)) (\<lambda>_.
               thn (ignore write_super_block) (\<lambda>_. fail e))))) s)"

definition ext2_on_unmount :: "('d ext2, unit) act" where
  "ext2_on_unmount =
     thn write_super_block (\<lambda>_.
     thn write_block_group_descriptors (\<lambda>_.
     thn x_cache_sync (\<lambda>_.
     thn (gets x_read_only) (\<lambda>read_only.
     if read_only then ret ()
     else thn get_sb (\<lambda>previous.
          thn (upd_sb (\<lambda>sb. sb\<lparr>es_state := (es_state sb OR EXT2_VALID_FS)\<rparr>)) (\<lambda>_.
          thn (attempt (thn write_super_block (\<lambda>_. x_cache_sync))) (\<lambda>result.
          case result of
            Inr _ \<Rightarrow> ret ()
          | Inl e \<Rightarrow>
              thn (upd_sb (\<lambda>sb. sb\<lparr>es_state := es_state previous\<rparr>)) (\<lambda>_.
              thn (ignore write_super_block) (\<lambda>_. fail e)))))))))"

definition ext2_info :: "'d ext2 \<Rightarrow> fs_info" where
  "ext2_info s = \<lparr>total_blocks = es_blocks_count (x_sb s), free_blocks = es_free_blocks_count (x_sb s),
     total_inodes = es_inodes_count (x_sb s), free_inodes = es_free_inodes_count (x_sb s),
     fi_block_size = x_block_size s\<rparr>"

text \<open>\<^verbatim>\<open>expect\<close> turns a failure into a panic.\<close>

definition ext2_root_inode :: "('d ext2, nat) act" where
  "ext2_root_inode =
     thn (attempt (get_inode EXT2_ROOT_INO)) (\<lambda>r. case r of
       Inl _ \<Rightarrow> die (Panic ''ext2 root inode (2) must be readable'') | Inr oid \<Rightarrow> ret oid)"

definition ext2_driver_mount :: "('d block_device \<times> 'd) option \<Rightarrow> 'd ext2 fsres" where
  "ext2_driver_mount device =
     bnd (ok_or device (FsErr InvalidInput)) (\<lambda>(dev, d). ext2_open dev d)"

end
