(* ===== verification/Kor_Ext2_Inode.thy ===== *)
theory Kor_Ext2_Inode
  imports Kor_Ext2_Fs
begin

text \<open>
  The data of an ext2 inode, \<^verbatim>\<open>filesystems/kor-ext2/src/inode.rs\<close>: the tree of block pointers,
  its growth, counting, pruning and release, the size fields, reading and writing at an
  offset.  Every operation acts on the object \<open>oid\<close> of the instance; its raw inode is the
  value behind the object's lock.  An accepted superblock has blocks of at most 64 KiB, so
  the limits of the pointer levels stay below \<open>2 ^ 32\<close>; block numbers and logical numbers
  are kept at 32 bits.
\<close>

unbundle bit_operations_syntax

section \<open>Objects\<close>

definition raw_of :: "'d ext2 \<Rightarrow> nat \<Rightarrow> raw_inode" where
  "raw_of s oid = xi_raw (x_objs s ! oid)"

definition num_of :: "'d ext2 \<Rightarrow> nat \<Rightarrow> nat" where
  "num_of s oid = xi_num (x_objs s ! oid)"

definition get_raw :: "nat \<Rightarrow> ('d ext2, raw_inode) act" where
  "get_raw oid = gets (\<lambda>s. raw_of s oid)"

definition upd_raw :: "nat \<Rightarrow> (raw_inode \<Rightarrow> raw_inode) \<Rightarrow> ('d ext2, unit) act" where
  "upd_raw oid f = upd (\<lambda>s. s\<lparr>x_objs := (x_objs s)[oid := (x_objs s ! oid)\<lparr>xi_raw := f (xi_raw (x_objs s ! oid))\<rparr>]\<rparr>)"

text \<open>
  \<open>finally_do\<close> runs a release also when the action fails with an error, as the end of a scope does;
  a call that does not return never reaches the end of the scope.
\<close>

definition finally_do :: "('s, 'a) act \<Rightarrow> ('s \<Rightarrow> 's) \<Rightarrow> ('s, 'a) act" where
  "finally_do m g s = (case m s of (r, t) \<Rightarrow> (r, if returns r then g t else t))"

text \<open>
  A local \<^verbatim>\<open>Arc\<close>: an object that \<open>get_inode\<close> has created loses its last reference at the end
  of the scope; one that existed before is held elsewhere.
\<close>

definition with_inode :: "nat \<Rightarrow> (nat \<Rightarrow> ('d ext2, 'a) act) \<Rightarrow> ('d ext2, 'a) act" where
  "with_inode inode_num f s =
     (let n = length (x_objs s) in
      thn (get_inode inode_num) (\<lambda>oid.
      finally_do (f oid) (\<lambda>t. if n \<le> oid then drop_inode oid t else t)) s)"

text \<open>An \<^verbatim>\<open>Arc\<close> that is returned to the caller unless a later step fails.\<close>

definition keep_inode :: "nat \<Rightarrow> ('d ext2, nat) act \<Rightarrow> (nat \<Rightarrow> ('d ext2, unit) act) \<Rightarrow> ('d ext2, nat) act" where
  "keep_inode n m f =
     thn m (\<lambda>oid s. case f oid s of
       (Inr _, t) \<Rightarrow> (Inr oid, t)
     | (Inl (FsErr e), t) \<Rightarrow> (Inl (FsErr e), if n \<le> oid then drop_inode oid t else t)
     | (Inl (Crash c), t) \<Rightarrow> (Inl (Crash c), t))"

section \<open>The tree of block pointers\<close>

definition ptrs_per_block :: "'d ext2 \<Rightarrow> nat" where
  "ptrs_per_block s = x_block_size s div 4"

definition read_indirect_entry :: "nat \<Rightarrow> nat \<Rightarrow> ('d ext2, nat) act" where
  "read_indirect_entry block_id index =
     thn (gets x_block_size) (\<lambda>block_size.
     thn (read_fs_block block_id) (\<lambda>buf.
     let byte_offset = index * 4 in
     if byte_offset + 4 > block_size then fail InvalidInput
     else ret (field buf byte_offset 4)))"

definition write_indirect_entry :: "nat \<Rightarrow> nat \<Rightarrow> nat \<Rightarrow> ('d ext2, unit) act" where
  "write_indirect_entry block_id index v =
     thn (gets x_block_size) (\<lambda>block_size.
     thn (read_fs_block block_id) (\<lambda>buf.
     let byte_offset = index * 4 in
     if byte_offset + 4 > block_size then fail InvalidInput
     else write_fs_block block_id (put buf byte_offset (le_bytes 4 v))))"

definition read_indirect_block :: "nat \<Rightarrow> ('d ext2, nat list) act" where
  "read_indirect_block block_id =
     thn (gets x_block_size) (\<lambda>block_size.
     thn (read_fs_block block_id) (\<lambda>buf.
     ret (map (\<lambda>i. field buf (i * 4) 4) [0..<block_size div 4])))"

text \<open>One step down: a zero pointer is a hole.\<close>

definition follow :: "nat \<Rightarrow> nat \<Rightarrow> (nat \<Rightarrow> ('d ext2, nat) act) \<Rightarrow> ('d ext2, nat) act" where
  "follow block idx k = (if block = 0 then ret 0 else thn (read_indirect_entry block idx) k)"

definition resolve_block_id :: "nat \<Rightarrow> nat \<Rightarrow> ('d ext2, nat) act" where
  "resolve_block_id oid logical_block =
     thn (gets ptrs_per_block) (\<lambda>ppb.
     thn (get_raw oid) (\<lambda>raw.
     let direct_limit = DIRECT_BLOCKS;
         indirect_limit = direct_limit + ppb;
         double_limit = indirect_limit + ppb * ppb in
     if logical_block < direct_limit then ret (i_block raw ! logical_block)
     else if logical_block < indirect_limit then
       follow (i_block raw ! 12) (logical_block - direct_limit) ret
     else if logical_block < double_limit then
       let remaining = logical_block - indirect_limit in
       follow (i_block raw ! 13) (remaining div ppb) (\<lambda>indirect_block.
       follow indirect_block (remaining mod ppb) ret)
     else
       let remaining = logical_block - double_limit in
       follow (i_block raw ! 14) (remaining div (ppb * ppb)) (\<lambda>double_block.
       follow double_block (remaining div ppb mod ppb) (\<lambda>indirect_block.
       follow indirect_block (remaining mod ppb) ret))))"

section \<open>Growing the tree\<close>

definition ino_group :: "nat \<Rightarrow> ('d ext2, nat) act" where
  "ino_group oid =
     thn get_sb (\<lambda>sb. thn (gets (\<lambda>s. num_of s oid)) (\<lambda>inode_num.
     ret (if es_inodes_per_group sb = 0 then 0 else (u32_sub inode_num 1) div es_inodes_per_group sb)))"

definition zero_block :: "nat \<Rightarrow> ('d ext2, unit) act" where
  "zero_block b =
     thn (gets x_block_size) (\<lambda>block_size.
     or_undo (write_fs_block b (replicate block_size 0)) (free_block b))"

definition alloc_and_zero_block :: "nat \<Rightarrow> ('d ext2, nat) act" where
  "alloc_and_zero_block oid =
     thn (ino_group oid) (\<lambda>g.
     thn (alloc_block_goal g) (\<lambda>b.
     thn (zero_block b) (\<lambda>_. ret b)))"

definition set_block :: "nat \<Rightarrow> nat \<Rightarrow> nat \<Rightarrow> ('d ext2, unit) act" where
  "set_block oid k b = upd_raw oid (\<lambda>raw. raw\<lparr>i_block := (i_block raw)[k := b]\<rparr>)"

text \<open>
  The indirect block behind a top-level pointer, and behind an entry of an indirect block;
  both are allocated on demand and return how many blocks they have allocated.
\<close>

definition ensure_top :: "nat \<Rightarrow> nat \<Rightarrow> ('d ext2, nat \<times> nat) act" where
  "ensure_top oid slot =
     thn (get_raw oid) (\<lambda>raw.
     let b = i_block raw ! slot in
     if b = 0 then
       thn (alloc_and_zero_block oid) (\<lambda>allocated.
       thn (set_block oid slot allocated) (\<lambda>_. ret (allocated, 1)))
     else ret (b, 0))"

definition ensure_entry :: "nat \<Rightarrow> nat \<Rightarrow> nat \<Rightarrow> ('d ext2, nat \<times> nat) act" where
  "ensure_entry oid block idx =
     thn (read_indirect_entry block idx) (\<lambda>entry.
     if entry = 0 then
       thn (alloc_and_zero_block oid) (\<lambda>allocated.
       thn (write_indirect_entry block idx allocated) (\<lambda>_. ret (allocated, 1)))
     else ret (entry, 0))"

definition allocate_block_for_offset :: "nat \<Rightarrow> nat \<Rightarrow> bool \<Rightarrow> ('d ext2, nat \<times> nat) act" where
  "allocate_block_for_offset oid logical_block zero_data =
     thn (resolve_block_id oid logical_block) (\<lambda>existing.
     if existing \<noteq> 0 then ret (existing, 0)
     else
       thn (gets ptrs_per_block) (\<lambda>ppb.
       let direct_limit = DIRECT_BLOCKS;
           indirect_limit = direct_limit + ppb;
           double_limit = indirect_limit + ppb * ppb in
       thn (ino_group oid) (\<lambda>g.
       thn (alloc_block_goal g) (\<lambda>new_block.
       thn (if zero_data then zero_block new_block else ret ()) (\<lambda>_.
       if logical_block < direct_limit then
         thn (set_block oid logical_block new_block) (\<lambda>_. ret (new_block, 1))
       else if logical_block < indirect_limit then
         thn (ensure_top oid 12) (\<lambda>(indirect_block, n1).
         thn (write_indirect_entry indirect_block (logical_block - direct_limit) new_block) (\<lambda>_.
         ret (new_block, 1 + n1)))
       else if logical_block < double_limit then
         let remaining = logical_block - indirect_limit in
         thn (ensure_top oid 13) (\<lambda>(l1_block, n1).
         thn (ensure_entry oid l1_block (remaining div ppb)) (\<lambda>(l2_block, n2).
         thn (write_indirect_entry l2_block (remaining mod ppb) new_block) (\<lambda>_.
         ret (new_block, 1 + n1 + n2))))
       else
         let remaining = logical_block - double_limit in
         thn (ensure_top oid 14) (\<lambda>(l1_block, n1).
         thn (ensure_entry oid l1_block (remaining div (ppb * ppb))) (\<lambda>(l2_block, n2).
         thn (ensure_entry oid l2_block (remaining div ppb mod ppb)) (\<lambda>(l3_block, n3).
         thn (write_indirect_entry l3_block (remaining mod ppb) new_block) (\<lambda>_.
         ret (new_block, 1 + n1 + n2 + n3))))))))))"

section \<open>The inode on disk and its size\<close>

definition write_inode_to_disk :: "nat \<Rightarrow> ('d ext2, unit) act" where
  "write_inode_to_disk oid =
     thn (get_raw oid) (\<lambda>raw_copy.
     thn (gets (\<lambda>s. num_of s oid)) (\<lambda>inode_num.
     thn (inode_at inode_num) (\<lambda>(fs_block, offset_in_block).
     thn (read_fs_block fs_block) (\<lambda>block_buf.
     if length block_buf < offset_in_block + RAW_INODE_SIZE then die (Panic ''range end index out of range'')
     else write_fs_block fs_block (put block_buf offset_in_block (inode_bytes raw_copy))))))"

definition has_type :: "raw_inode \<Rightarrow> nat \<Rightarrow> bool" where
  "has_type raw t \<longleftrightarrow> (i_mode raw AND EXT2_S_IFMT) = t"

definition uses_large :: "raw_inode \<Rightarrow> ('d ext2, bool) act" where
  "uses_large raw = (if has_type raw EXT2_S_IFREG then x_has_large_file else ret False)"

definition ino_size :: "nat \<Rightarrow> ('d ext2, nat) act" where
  "ino_size oid =
     thn (get_raw oid) (\<lambda>raw. thn (uses_large raw) (\<lambda>large.
     ret (if large then i_dir_acl raw * 2 ^ 32 + i_size raw else i_size raw)))"

definition set_size :: "nat \<Rightarrow> nat \<Rightarrow> ('d ext2, unit) act" where
  "set_size oid n =
     thn (upd_raw oid (\<lambda>raw. raw\<lparr>i_size := n mod 2 ^ 32\<rparr>)) (\<lambda>_.
     thn (get_raw oid) (\<lambda>raw. thn (uses_large raw) (\<lambda>large.
     if large then upd_raw oid (\<lambda>raw. raw\<lparr>i_dir_acl := n div 2 ^ 32 mod 2 ^ 32\<rparr>) else ret ())))"

definition sectors_per_block :: "'d ext2 \<Rightarrow> nat" where
  "sectors_per_block s = x_block_size s div 512"

definition u32_sat_add :: "nat \<Rightarrow> nat \<Rightarrow> nat" where
  "u32_sat_add a b = min (a + b) (2 ^ 32 - 1)"

section \<open>Counting, freeing and pruning\<close>

text \<open>
  The recursions over an indirect tree take the number of levels below the block: 0 for a
  single indirect block (\<^verbatim>\<open>level == 1\<close>), 1 and 2 for double and triple indirect ones.
\<close>

primrec sum_ptrs :: "(nat \<Rightarrow> ('d ext2, nat) act) \<Rightarrow> nat list \<Rightarrow> nat \<Rightarrow> ('d ext2, nat) act" where
  "sum_ptrs f [] c = ret c"
| "sum_ptrs f (p # ps) c =
     (if p = 0 then sum_ptrs f ps c else thn (f p) (\<lambda>n. sum_ptrs f ps (u32_add c n)))"

definition count_block :: "(nat \<Rightarrow> ('d ext2, nat) act) \<Rightarrow> nat \<Rightarrow> ('d ext2, nat) act" where
  "count_block f block = (if block = 0 then ret 0 else thn (read_indirect_block block) (\<lambda>ptrs. sum_ptrs f ptrs 1))"

primrec count_indirect :: "nat \<Rightarrow> nat \<Rightarrow> ('d ext2, nat) act" where
  "count_indirect 0 = count_block (\<lambda>_. ret 1)"
| "count_indirect (Suc l) = count_block (count_indirect l)"

definition recompute_i_blocks :: "nat \<Rightarrow> ('d ext2, unit) act" where
  "recompute_i_blocks oid =
     thn (get_raw oid) (\<lambda>raw.
     let direct = i_block raw; n0 = length (filter (\<lambda>b. b \<noteq> 0) (take DIRECT_BLOCKS direct)) in
     thn (count_indirect 0 (direct ! 12)) (\<lambda>n1.
     thn (count_indirect 1 (direct ! 13)) (\<lambda>n2.
     thn (count_indirect 2 (direct ! 14)) (\<lambda>n3.
     thn (gets sectors_per_block) (\<lambda>spb.
     let blocks = u32_add (u32_add (u32_add n0 n1) n2) n3;
         blocks = (if i_file_acl raw \<noteq> 0 then u32_add blocks 1 else blocks) in
     upd_raw oid (\<lambda>raw. raw\<lparr>i_blocks := u32_mul blocks spb\<rparr>))))))"

definition write_indirect_full :: "nat \<Rightarrow> nat list \<Rightarrow> ('d ext2, unit) act" where
  "write_indirect_full block ptrs =
     thn (gets x_block_size) (\<lambda>block_size.
     write_fs_block block (put (replicate block_size 0) 0 (ptr_bytes (take (block_size div 4) ptrs))))"

definition free_tree :: "(nat \<Rightarrow> ('d ext2, unit) act) \<Rightarrow> nat \<Rightarrow> ('d ext2, unit) act" where
  "free_tree f block =
     (if block = 0 then ret ()
      else thn (read_indirect_block block) (\<lambda>ptrs.
           thn (for_each (\<lambda>p. if p = 0 then ret () else f p) ptrs) (\<lambda>_.
           free_block block)))"

primrec free_indirect :: "nat \<Rightarrow> nat \<Rightarrow> ('d ext2, unit) act" where
  "free_indirect 0 = free_tree free_block"
| "free_indirect (Suc l) = free_tree (free_indirect l)"

definition free_all_blocks :: "nat \<Rightarrow> ('d ext2, unit) act" where
  "free_all_blocks oid =
     thn (get_raw oid) (\<lambda>raw.
     let direct = i_block raw in
     thn (for_each (\<lambda>b. if b \<noteq> 0 then free_block b else ret ()) (take DIRECT_BLOCKS direct)) (\<lambda>_.
     thn (free_indirect 0 (direct ! 12)) (\<lambda>_.
     thn (free_indirect 1 (direct ! 13)) (\<lambda>_.
     thn (free_indirect 2 (direct ! 14)) (\<lambda>_.
     upd_raw oid (\<lambda>raw. raw\<lparr>i_block := replicate 15 0, i_blocks := 0\<rparr>))))))"

definition free_and_clear_logical :: "nat \<Rightarrow> nat \<Rightarrow> ('d ext2, unit) act" where
  "free_and_clear_logical oid logical_block =
     thn (resolve_block_id oid logical_block) (\<lambda>phys.
     thn (if phys \<noteq> 0 then free_block phys else ret ()) (\<lambda>_.
     thn (gets ptrs_per_block) (\<lambda>ppb.
     thn (get_raw oid) (\<lambda>raw.
     let direct_limit = DIRECT_BLOCKS;
         indirect_limit = direct_limit + ppb;
         double_limit = indirect_limit + ppb * ppb in
     if logical_block < direct_limit then set_block oid logical_block 0
     else if logical_block < indirect_limit then
       let ib = i_block raw ! 12 in
       if ib \<noteq> 0 then write_indirect_entry ib (logical_block - direct_limit) 0 else ret ()
     else if logical_block < double_limit then
       let l1 = i_block raw ! 13; rem = logical_block - indirect_limit in
       if l1 = 0 then ret ()
       else thn (read_indirect_entry l1 (rem div ppb)) (\<lambda>l2.
            if l2 = 0 then ret () else write_indirect_entry l2 (rem mod ppb) 0)
     else
       let l1 = i_block raw ! 14; rem = logical_block - double_limit in
       if l1 = 0 then ret ()
       else thn (read_indirect_entry l1 (rem div (ppb * ppb))) (\<lambda>l2.
            if l2 = 0 then ret ()
            else thn (read_indirect_entry l2 (rem div ppb mod ppb)) (\<lambda>l3.
                 if l3 = 0 then ret () else write_indirect_entry l3 (rem mod ppb) 0))))))"

primrec prune_ptrs :: "(nat \<Rightarrow> ('d ext2, bool) act) \<Rightarrow> nat list \<Rightarrow> ('d ext2, nat list \<times> bool) act" where
  "prune_ptrs f [] = ret ([], False)"
| "prune_ptrs f (p # ps) =
     thn (if p \<noteq> 0 then f p else ret False) (\<lambda>emptied.
     thn (if emptied then free_block p else ret ()) (\<lambda>_.
     thn (prune_ptrs f ps) (\<lambda>(qs, changed).
     ret ((if emptied then 0 else p) # qs, emptied \<or> changed))))"

primrec prune_indirect :: "nat \<Rightarrow> nat \<Rightarrow> ('d ext2, bool) act" where
  "prune_indirect 0 = (\<lambda>block.
     if block = 0 then ret True
     else thn (read_indirect_block block) (\<lambda>ptrs. ret (list_all (\<lambda>p. p = 0) ptrs)))"
| "prune_indirect (Suc l) = (\<lambda>block.
     if block = 0 then ret True
     else thn (read_indirect_block block) (\<lambda>ptrs.
          thn (prune_ptrs (prune_indirect l) ptrs) (\<lambda>(ptrs, changed).
          thn (if changed then write_indirect_full block ptrs else ret ()) (\<lambda>_.
          ret (list_all (\<lambda>p. p = 0) ptrs)))))"

definition prune_slot :: "nat \<Rightarrow> nat \<Rightarrow> ('d ext2, unit) act" where
  "prune_slot oid slot =
     thn (get_raw oid) (\<lambda>raw.
     let block = i_block raw ! slot in
     thn (if block \<noteq> 0 then prune_indirect (slot - 12) block else ret False) (\<lambda>emptied.
     if emptied then thn (free_block block) (\<lambda>_. set_block oid slot 0) else ret ()))"

definition prune_empty_indirects :: "nat \<Rightarrow> ('d ext2, unit) act" where
  "prune_empty_indirects oid = for_each (prune_slot oid) [12, 13, 14]"

definition truncate_to :: "nat \<Rightarrow> nat \<Rightarrow> ('d ext2, unit) act" where
  "truncate_to oid new_size =
     thn (ino_size oid) (\<lambda>cur.
     thn (gets x_block_size) (\<lambda>block_size.
     thn (if new_size = 0 then thn (free_all_blocks oid) (\<lambda>_. set_size oid 0)
          else if new_size \<ge> cur then set_size oid new_size
          else
            let keep = div_ceil new_size block_size mod 2 ^ 32; old = div_ceil cur block_size mod 2 ^ 32 in
            thn (for_each (free_and_clear_logical oid) [keep..<old]) (\<lambda>_.
            thn (prune_empty_indirects oid) (\<lambda>_.
            thn (set_size oid new_size) (\<lambda>_.
            recompute_i_blocks oid)))) (\<lambda>_.
     thn (upd_raw oid (\<lambda>raw. raw\<lparr>i_mtime := 0\<rparr>)) (\<lambda>_.
     write_inode_to_disk oid))))"

section \<open>Reading and writing at an offset\<close>

text \<open>
  The inner loop of \<^verbatim>\<open>read_at\<close>: it extends a run of physically contiguous blocks; the first
  argument is the number of rounds left before \<^verbatim>\<open>max_run\<close>.
\<close>

primrec read_run :: "nat \<Rightarrow> nat \<Rightarrow> nat \<Rightarrow> nat \<Rightarrow> nat \<Rightarrow> ('d ext2, nat) act" where
  "read_run 0 oid logical phys run = ret run"
| "read_run (Suc n) oid logical phys run =
     thn (resolve_block_id oid (u32_add (logical mod 2 ^ 32) run)) (\<lambda>np.
     if np = u32_add phys run then read_run n oid logical phys (run + 1) else ret run)"

text \<open>
  The outer loop; it returns the bytes it has put into the buffer.  Every round reads at
  least one byte, so as many rounds as bytes are wanted are enough.
\<close>

primrec read_loop :: "nat \<Rightarrow> nat \<Rightarrow> usize \<Rightarrow> usize \<Rightarrow> bytes \<Rightarrow> ('d ext2, bytes) act" where
  "read_loop 0 oid off want acc = (if length acc < want then die OutOfFuel else ret acc)"
| "read_loop (Suc fuel) oid off want acc =
     (if \<not> length acc < want then ret acc
      else
        thn (gets x_block_size) (\<lambda>block_size.
        let file_offset = off + length acc;
            logical_block = file_offset div block_size;
            block_offset = file_offset mod block_size;
            remaining = want - length acc;
            chunk = min remaining (block_size - block_offset) in
        thn (if block_offset = 0 \<and> remaining \<ge> block_size
             then resolve_block_id oid (logical_block mod 2 ^ 32) else ret 0) (\<lambda>phys.
        if phys \<noteq> 0 then
          thn (read_run (min (remaining div block_size) MAX_BULK_BLOCKS - 1) oid logical_block phys 1) (\<lambda>run.
          thn (read_fs_blocks phys run (run * block_size)) (\<lambda>d.
          read_loop fuel oid off want (acc @ d)))
        else
          thn (resolve_block_id oid (logical_block mod 2 ^ 32)) (\<lambda>phys_block.
          if phys_block = 0 then read_loop fuel oid off want (acc @ replicate chunk 0)
          else thn (read_fs_block phys_block) (\<lambda>block_buf.
               read_loop fuel oid off want (acc @ slice block_buf block_offset chunk))))))"

definition ext2_read_at :: "nat \<Rightarrow> usize \<Rightarrow> usize \<Rightarrow> ('d ext2, bytes) act" where
  "ext2_read_at oid off n =
     thn (ino_size oid) (\<lambda>file_size.
     if off \<ge> file_size \<or> n = 0 then ret []
     else let want = min n (file_size - off) in read_loop want oid off want [])"

text \<open>A buffer of \<open>n\<close> zeros after \<^verbatim>\<open>read_at(0, &mut buf)\<close>.\<close>

definition read_into_zeros :: "nat \<Rightarrow> usize \<Rightarrow> ('d ext2, bytes) act" where
  "read_into_zeros oid n = thn (ext2_read_at oid 0 n) (\<lambda>d. ret (d @ replicate (n - length d) 0))"

text \<open>
  The inner loop of \<^verbatim>\<open>write_at_locked\<close>.  Each round adds one to \<^verbatim>\<open>done_in_region + run_len\<close>,
  the first argument is what is left to \<^verbatim>\<open>max_run\<close>.
\<close>

primrec write_run ::
  "nat \<Rightarrow> nat \<Rightarrow> bytes \<Rightarrow> usize \<Rightarrow> nat \<Rightarrow> nat \<times> nat \<times> nat \<Rightarrow> nat \<Rightarrow> ('d ext2, (nat \<times> nat \<times> nat) \<times> nat) act" where
  "write_run 0 oid buf written logical st newb = ret (st, newb)"
| "write_run (Suc n) oid buf written logical st newb =
     (case st of (done_in_region, run_start, run_len) \<Rightarrow>
     thn (allocate_block_for_offset oid ((logical + done_in_region + run_len) mod 2 ^ 32) False) (\<lambda>(next_physical, allocated).
     let newb = u32_add newb allocated in
     if next_physical = u32_add run_start run_len
     then write_run n oid buf written logical (done_in_region, run_start, run_len + 1) newb
     else
       thn (gets x_block_size) (\<lambda>block_size.
       thn (write_fs_blocks run_start run_len (slice buf (written + done_in_region * block_size) (run_len * block_size))) (\<lambda>_.
       write_run n oid buf written logical (done_in_region + run_len, next_physical, 1) newb))))"

primrec write_loop :: "nat \<Rightarrow> nat \<Rightarrow> usize \<Rightarrow> bytes \<Rightarrow> usize \<Rightarrow> nat \<Rightarrow> ('d ext2, usize \<times> nat) act" where
  "write_loop 0 oid off buf written newb = (if written < length buf then die OutOfFuel else ret (written, newb))"
| "write_loop (Suc fuel) oid off buf written newb =
     (if \<not> written < length buf then ret (written, newb)
      else
        thn (gets x_block_size) (\<lambda>block_size.
        let file_offset = usize_add off written;
            logical_block = file_offset div block_size;
            block_offset = file_offset mod block_size;
            remaining = length buf - written in
        if block_offset = 0 \<and> remaining \<ge> block_size then
          thn (allocate_block_for_offset oid (logical_block mod 2 ^ 32) False) (\<lambda>(first_phys, allocated).
          thn (write_run (min (remaining div block_size) MAX_BULK_BLOCKS - 1) oid buf written logical_block
                 (0, first_phys, 1) (u32_add newb allocated)) (\<lambda>((done_in_region, run_start, run_len), newb).
          thn (write_fs_blocks run_start run_len (slice buf (written + done_in_region * block_size) (run_len * block_size))) (\<lambda>_.
          write_loop fuel oid off buf (written + (done_in_region + run_len) * block_size) newb)))
        else
          let chunk = min remaining (block_size - block_offset) in
          thn (allocate_block_for_offset oid (logical_block mod 2 ^ 32) True) (\<lambda>(physical_block, allocated).
          thn (read_fs_block physical_block) (\<lambda>block_buf.
          thn (write_fs_block physical_block (put block_buf block_offset (slice buf written chunk))) (\<lambda>_.
          write_loop fuel oid off buf (written + chunk) (u32_add newb allocated))))))"

definition write_at_locked :: "nat \<Rightarrow> usize \<Rightarrow> bytes \<Rightarrow> ('d ext2, usize) act" where
  "write_at_locked oid off buf =
     (if buf = [] then ret 0
      else
        let end_offset = usize_add off (length buf) in
        thn (write_loop (length buf) oid off buf 0 0) (\<lambda>(bytes_written, new_fs_blocks).
        thn (ino_size oid) (\<lambda>cur.
        thn (if end_offset > cur then set_size oid end_offset else ret ()) (\<lambda>_.
        thn (gets sectors_per_block) (\<lambda>spb.
        thn (upd_raw oid (\<lambda>raw. raw\<lparr>i_mtime := 0, i_blocks :=
               (if new_fs_blocks > 0 then u32_sat_add (i_blocks raw) (u32_mul new_fs_blocks spb) else i_blocks raw)\<rparr>)) (\<lambda>_.
        thn (write_inode_to_disk oid) (\<lambda>_. ret bytes_written)))))))"

section \<open>Symbolic links\<close>

definition inline_target :: "bytes \<Rightarrow> nat list" where
  "inline_target b = (let buf = put (replicate FAST_SYMLINK_MAX 0) 0 b in map (\<lambda>i. field buf (i * 4) 4) [0..<15])"

definition read_symlink :: "nat \<Rightarrow> ('d ext2, string) act" where
  "read_symlink oid =
     thn (get_raw oid) (\<lambda>raw.
     thn (guard (has_type raw EXT2_S_IFLNK) InvalidInput) (\<lambda>_.
     thn (if i_blocks raw = 0 \<and> i_size raw \<le> FAST_SYMLINK_MAX
          then ret (take (i_size raw) (ptr_bytes (i_block raw)))
          else read_into_zeros oid (i_size raw)) (\<lambda>b.
     if utf8_valid b then ret (bytes_str b) else fail InvalidInput)))"

definition write_symlink_target :: "nat \<Rightarrow> string \<Rightarrow> ('d ext2, unit) act" where
  "write_symlink_target oid target =
     (let b = str_bytes target in
      if length b \<le> FAST_SYMLINK_MAX then
        thn (upd_raw oid (\<lambda>raw. raw\<lparr>i_block := inline_target b, i_size := length b\<rparr>)) (\<lambda>_.
        write_inode_to_disk oid)
      else thn (write_at_locked oid 0 b) (\<lambda>_. ret ()))"

section \<open>The attribute block of an inode\<close>

definition set_file_acl :: "nat \<Rightarrow> nat \<Rightarrow> ('d ext2, unit) act" where
  "set_file_acl oid b = upd_raw oid (\<lambda>raw. raw\<lparr>i_file_acl := b\<rparr>)"

definition release_xattr_block :: "nat \<Rightarrow> ('d ext2, unit) act" where
  "release_xattr_block oid =
     thn (get_raw oid) (\<lambda>raw.
     let acl = i_file_acl raw in
     if acl = 0 then ret ()
     else
       thn (read_fs_block acl) (\<lambda>buf.
       let magic = field buf 0 4; refcount = field buf XATTR_REFCOUNT_OFFSET 4 in
       if magic = EXT2_XATTR_MAGIC \<and> refcount > 1 then
         thn (write_fs_block acl (put buf XATTR_REFCOUNT_OFFSET (le_bytes 4 (refcount - 1)))) (\<lambda>_.
         set_file_acl oid 0)
       else thn (free_block acl) (\<lambda>_. set_file_acl oid 0)))"

definition demote_from_htree :: "nat \<Rightarrow> ('d ext2, unit) act" where
  "demote_from_htree oid =
     thn (get_raw oid) (\<lambda>raw.
     if (i_flags raw AND EXT2_INDEX_FL) \<noteq> 0 then
       thn (upd_raw oid (\<lambda>raw. raw\<lparr>i_flags := (i_flags raw AND (2 ^ 32 - 1 - EXT2_INDEX_FL))\<rparr>)) (\<lambda>_.
       write_inode_to_disk oid)
     else ret ())"

end
