(* ===== verification/Kor_Ext2_Dir.thy ===== *)
theory Kor_Ext2_Dir
  imports Kor_Ext2_Layout "HOL-Library.Multiset"
begin

text \<open>
  Directory contents of ext2, \<^verbatim>\<open>filesystems/kor-ext2/src/dir.rs\<close>: parsing entries, iterating,
  looking up, and what adding or removing an entry does to the bytes of a directory.  The
  functions \<open>add_plan\<close> and \<open>remove_plan\<close> are the bodies of \<open>add_dir_entry\<close> and
  \<open>remove_dir_entry\<close> between reading the directory and writing one block back: they return
  the offset and the bytes of that write.
\<close>

unbundle bit_operations_syntax

definition DIR_ENTRY_HEADER_SIZE :: usize where [simp]: "DIR_ENTRY_HEADER_SIZE = 8"

section \<open>Reading entries\<close>

record dir_entry =
  de_inode :: nat
  de_rec_len :: nat
  de_file_type :: nat
  de_name :: bytes

definition dirent_from_bytes :: "bytes \<Rightarrow> dir_entry option" where
  "dirent_from_bytes data =
     (if length data < DIR_ENTRY_HEADER_SIZE then None
      else
        let inode = field data 0 4; rec_len = field data 4 2; name_len = unat (data ! 6) in
        if rec_len < DIR_ENTRY_HEADER_SIZE \<or> rec_len > length data then None
        else if DIR_ENTRY_HEADER_SIZE + name_len > rec_len then None
        else if inode = 0 then None
        else Some \<lparr>de_inode = inode, de_rec_len = rec_len, de_file_type = unat (data ! 7), de_name = slice data 8 name_len\<rparr>)"

definition vfs_file_type :: "nat \<Rightarrow> file_type" where
  "vfs_file_type ft =
     (if ft = TYPE_REGULAR then Regular else if ft = TYPE_DIRECTORY then Directory
      else if ft = TYPE_CHAR_DEVICE then CharDevice else if ft = TYPE_BLOCK_DEVICE then BlockDevice
      else if ft = TYPE_SYMLINK then Symlink else Regular)"

text \<open>
  All items the iterator yields from an offset on.  A name that is not UTF-8 ends the
  iteration; unused and malformed records are skipped.
\<close>

function dir_entries :: "bytes \<Rightarrow> usize \<Rightarrow> (nat \<times> nat \<times> string) list" where
  "dir_entries data off =
     (if off \<ge> length data then []
      else
        let remaining = drop off data in
        case dirent_from_bytes remaining of
          Some e \<Rightarrow>
            if utf8_valid (de_name e)
            then (de_inode e, de_file_type e, bytes_str (de_name e)) # dir_entries data (off + max 8 (de_rec_len e))
            else []
        | None \<Rightarrow>
            if length remaining < DIR_ENTRY_HEADER_SIZE then []
            else
              let rec_len = field remaining 4 2 in
              dir_entries data (off + (if rec_len < DIR_ENTRY_HEADER_SIZE then DIR_ENTRY_HEADER_SIZE else rec_len)))"
  by pat_completeness auto
termination
  by (relation "measure (\<lambda>(data, off). length data - off)") auto

declare dir_entries.simps [simp del]

definition dir_lookup :: "bytes \<Rightarrow> string \<Rightarrow> nat fsres" where
  "dir_lookup data name =
     (case find (\<lambda>(ino, ft, n). n = name) (dir_entries data 0) of
        Some (ino, ft, n) \<Rightarrow> Inr ino | None \<Rightarrow> Inl (FsErr NotFound))"

definition dir_list :: "bytes \<Rightarrow> (string \<times> nat) list" where
  "dir_list data = map (\<lambda>(ino, ft, n). (n, ino)) (dir_entries data 0)"

section \<open>Changing a directory\<close>

definition write_dir_entry_in_buf :: "bytes \<Rightarrow> usize \<Rightarrow> nat \<Rightarrow> nat \<Rightarrow> bytes \<Rightarrow> nat \<Rightarrow> bytes fsres" where
  "write_dir_entry_in_buf buf off ino file_type name rec_len =
     (if off + DIR_ENTRY_HEADER_SIZE + length name > length buf then Inl (Crash (Panic ''slice index''))
      else
        let buf = put buf off (le_bytes 4 ino);
            buf = put buf (off + 4) (le_bytes 2 rec_len);
            buf = put buf (off + 6) [word_of_nat (length name)];
            buf = put buf (off + 7) [word_of_nat file_type] in
        Inr (put buf (off + DIR_ENTRY_HEADER_SIZE) name))"

definition entry_size :: "usize \<Rightarrow> usize" where
  "entry_size name_len = max ((DIR_ENTRY_HEADER_SIZE + name_len + 3) div 4 * 4) 12"

text \<open>
  The scan of \<open>add_dir_entry\<close>: \<open>Inl\<close> an unused record that is large enough, \<open>Inr\<close> the start
  and the used size of the last record.
\<close>

function slot_scan :: "bytes \<Rightarrow> usize \<Rightarrow> usize \<Rightarrow> usize \<Rightarrow> usize \<Rightarrow> (usize \<times> usize) + (usize \<times> usize)" where
  "slot_scan data needed off last_start last_actual =
     (if off + DIR_ENTRY_HEADER_SIZE \<le> length data then
        let ent_ino = field data off 4; rec_len = field data (off + 4) 2; ent_name_len = unat (data ! (off + 6)) in
        if rec_len < DIR_ENTRY_HEADER_SIZE \<or> off + rec_len > length data then Inr (last_start, last_actual)
        else if ent_ino = 0 \<and> rec_len \<ge> needed then Inl (off, rec_len)
        else slot_scan data needed (off + rec_len) off (entry_size ent_name_len)
      else Inr (last_start, last_actual))"
  by pat_completeness auto
termination
  by (relation "measure (\<lambda>(data, needed, off, ls, la). length data - off)") auto

declare slot_scan.simps [simp del]

definition block_of :: "usize \<Rightarrow> bytes \<Rightarrow> usize \<Rightarrow> (usize \<times> bytes) fsres" where
  "block_of bs data off =
     (let block_start = off div bs * bs in
      if block_start + bs > length data then Inl (Crash (Panic ''slice index''))
      else Inr (block_start, slice data block_start bs))"

definition add_in_slot :: "usize \<Rightarrow> bytes \<Rightarrow> usize \<Rightarrow> usize \<Rightarrow> bytes \<Rightarrow> nat \<Rightarrow> nat \<Rightarrow> (usize \<times> bytes) fsres" where
  "add_in_slot bs data off rec_len name child file_type =
     (let needed = entry_size (length name); leftover = rec_len - needed;
          rec = (if leftover \<ge> DIR_ENTRY_HEADER_SIZE then needed else rec_len) in
      bnd (write_dir_entry_in_buf data off child file_type name rec) (\<lambda>data.
      let data = (if leftover \<ge> DIR_ENTRY_HEADER_SIZE
                  then put (put data (off + needed) (le_bytes 4 0)) (off + needed + 4) (le_bytes 2 leftover) else data) in
      block_of bs data off))"

definition add_new_block :: "usize \<Rightarrow> usize \<Rightarrow> bytes \<Rightarrow> nat \<Rightarrow> nat \<Rightarrow> (usize \<times> bytes) fsres" where
  "add_new_block bs dir_size name child file_type =
     bnd (write_dir_entry_in_buf (replicate bs 0) 0 child file_type name bs) (\<lambda>blk.
     Inr (dir_size div bs * bs, blk))"

definition add_plan :: "usize \<Rightarrow> bytes \<Rightarrow> bytes \<Rightarrow> nat \<Rightarrow> nat \<Rightarrow> (usize \<times> bytes) fsres" where
  "add_plan bs data name child file_type =
     (let needed = entry_size (length name) in
      if length data > 0 then
        (case slot_scan data needed 0 0 0 of
           Inl (off, rec_len) \<Rightarrow> add_in_slot bs data off rec_len name child file_type
         | Inr (last_start, last_actual) \<Rightarrow>
             if last_actual > 0 then
               let last_rec = field data (last_start + 4) 2; extra = usize_sub last_rec last_actual in
               if extra \<ge> needed then
                 bnd (write_dir_entry_in_buf (put data (last_start + 4) (le_bytes 2 last_actual))
                        (last_start + last_actual) child file_type name extra) (\<lambda>data.
                 block_of bs data last_start)
               else add_new_block bs (length data) name child file_type
             else add_new_block bs (length data) name child file_type)
      else add_new_block bs (length data) name child file_type)"

function remove_scan :: "bytes \<Rightarrow> bytes \<Rightarrow> usize \<Rightarrow> (usize \<times> usize) option fsres" where
  "remove_scan data name off =
     (if off + DIR_ENTRY_HEADER_SIZE \<le> length data then
        let ent_ino = field data off 4; rec_len = field data (off + 4) 2; name_len = unat (data ! (off + 6)) in
        if rec_len < DIR_ENTRY_HEADER_SIZE \<or> off + rec_len > length data then Inr None
        else if ent_ino \<noteq> 0 \<and> name_len = length name then
          if off + DIR_ENTRY_HEADER_SIZE + name_len > length data then Inl (Crash (Panic ''slice index''))
          else if slice data (off + DIR_ENTRY_HEADER_SIZE) name_len = name then Inr (Some (off, rec_len))
          else remove_scan data name (off + rec_len)
        else remove_scan data name (off + rec_len)
      else Inr None)"
  by pat_completeness auto
termination
  by (relation "measure (\<lambda>(data, name, off). length data - off)") auto

declare remove_scan.simps [simp del]

definition remove_plan :: "usize \<Rightarrow> bytes \<Rightarrow> bytes \<Rightarrow> (usize \<times> bytes) fsres" where
  "remove_plan bs data name =
     bnd (remove_scan data name 0) (\<lambda>found.
     case found of
       None \<Rightarrow> Inl (FsErr NotFound)
     | Some (off, rec_len) \<Rightarrow>
         let data = put data off (le_bytes 4 0);
             nxt = off + rec_len;
             next_ino = field data nxt 4; next_rec = field data (nxt + 4) 2;
             data = (if off div bs = nxt div bs \<and> nxt + DIR_ENTRY_HEADER_SIZE \<le> length data
                        \<and> next_ino = 0 \<and> next_rec \<ge> DIR_ENTRY_HEADER_SIZE \<and> nxt + next_rec \<le> length data
                        \<and> off div bs = (nxt + next_rec - 1) div bs
                     then put data (off + 4) (le_bytes 2 (rec_len + next_rec)) else data) in
         block_of bs data off)"

section \<open>Directories as lists of records\<close>

text \<open>A record as it lies in a directory: the name is the front of the body, the rest is padding.\<close>

record drec =
  r_ino :: nat
  r_nl :: nat
  r_ft :: nat
  r_body :: bytes

definition rlen :: "drec \<Rightarrow> nat" where
  "rlen r = 8 + length (r_body r)"

definition head :: "nat \<Rightarrow> nat \<Rightarrow> nat \<Rightarrow> nat \<Rightarrow> bytes" where
  "head ino rl nl ft = le_bytes 4 ino @ le_bytes 2 rl @ [word_of_nat nl, word_of_nat ft]"

definition enc :: "drec \<Rightarrow> bytes" where
  "enc r = head (r_ino r) (rlen r) (r_nl r) (r_ft r) @ r_body r"

definition flat :: "drec list \<Rightarrow> bytes" where
  "flat rs = concat (map enc rs)"

definition rec_ok :: "drec \<Rightarrow> bool" where
  "rec_ok r \<longleftrightarrow> r_ino r < 2 ^ 32 \<and> r_nl r < 256 \<and> r_ft r < 256 \<and> rlen r < 65536
     \<and> (r_ino r \<noteq> 0 \<longrightarrow> r_nl r \<le> length (r_body r) \<and> utf8_valid (take (r_nl r) (r_body r)))"

definition r_item :: "drec \<Rightarrow> nat \<times> nat \<times> string" where
  "r_item r = (r_ino r, r_ft r, bytes_str (take (r_nl r) (r_body r)))"

definition items :: "drec list \<Rightarrow> (nat \<times> nat \<times> string) list" where
  "items rs = map r_item (filter (\<lambda>r. r_ino r \<noteq> 0) rs)"

lemma items_simps [simp]:
  "items [] = []" "items (r # rs) = (if r_ino r \<noteq> 0 then r_item r # items rs else items rs)"
  "items (xs @ ys) = items xs @ items ys"
  by (simp_all add: items_def)

lemma length_head [simp]: "length (head ino rl nl ft) = 8"
  by (simp add: head_def)

lemma length_enc [simp]: "length (enc r) = rlen r"
  by (simp add: enc_def rlen_def)

lemma enc_ne [simp]: "enc r \<noteq> []"
  by (simp add: enc_def head_def)

lemma flat_simps [simp]: "flat [] = []" "flat (r # rs) = enc r @ flat rs" "flat (xs @ ys) = flat xs @ flat ys"
  by (simp_all add: flat_def)

lemma rlen_ge: "8 \<le> rlen r"
  by (simp add: rlen_def)

lemma head_fields:
  assumes "ino < 2 ^ 32" "rl < 65536" "nl < 256" "ft < 256"
  shows "field (head ino rl nl ft @ b) 0 4 = ino" "field (head ino rl nl ft @ b) 4 2 = rl"
    "unat ((head ino rl nl ft @ b) ! 6) = nl" "unat ((head ino rl nl ft @ b) ! 7) = ft"
    "slice (head ino rl nl ft @ b) 8 n = slice b 0 n"
  using assms by (simp_all add: head_def field_def slice_def nth_append unat_of_nat)

lemma at_offset:
  "field (a @ b) (length a + k) n = field b k n" "slice (a @ b) (length a + k) n = slice b k n"
  "(a @ b) ! (length a + k) = b ! k" "drop (length a) (a @ b) = b"
  "field (a @ b) (length a) n = field b 0 n" "slice (a @ b) (length a) n = slice b 0 n"
  by (simp_all add: field_def slice_def nth_append)

lemma rec_fields:
  assumes "rec_ok r"
  shows "field (enc r @ b) 0 4 = r_ino r" "field (enc r @ b) 4 2 = rlen r" "unat ((enc r @ b) ! 6) = r_nl r"
    "unat ((enc r @ b) ! 7) = r_ft r" "r_ino r \<noteq> 0 \<Longrightarrow> slice (enc r @ b) 8 (r_nl r) = take (r_nl r) (r_body r)"
  using assms by (simp_all add: enc_def rec_ok_def head_fields slice_def)

lemma dirent_enc:
  assumes "rec_ok r"
  shows "dirent_from_bytes (enc r @ b) = (if r_ino r = 0 then None
    else Some \<lparr>de_inode = r_ino r, de_rec_len = rlen r, de_file_type = r_ft r, de_name = take (r_nl r) (r_body r)\<rparr>)"
proof -
  have "8 + r_nl r \<le> rlen r" if "r_ino r \<noteq> 0" using assms that by (simp add: rec_ok_def rlen_def)
  then show ?thesis
    using rlen_ge [of r] by (cases "r_ino r = 0") (auto simp: dirent_from_bytes_def rec_fields [OF assms] Let_def)
qed

lemma dir_entries_flat:
  "list_all rec_ok rs \<Longrightarrow> dir_entries (flat pre @ flat rs) (length (flat pre)) = items rs"
proof (induction rs arbitrary: pre)
  case Nil
  then show ?case by (subst dir_entries.simps) simp
next
  case (Cons r rs)
  have ok: "rec_ok r" using Cons.prems by simp
  have IH: "dir_entries (flat pre @ enc r @ flat rs) (length (flat pre) + rlen r) = items rs"
    using Cons.IH [of "pre @ [r]"] Cons.prems by simp
  have "max 8 (rlen r) = rlen r" "\<not> rlen r < 8" using rlen_ge [of r] by simp_all
  moreover have "utf8_valid (take (r_nl r) (r_body r))" if "r_ino r \<noteq> 0" using ok that by (simp add: rec_ok_def)
  ultimately show ?case
    by (subst dir_entries.simps) (simp add: at_offset dirent_enc [OF ok] rec_fields [OF ok] IH r_item_def Let_def)
qed

lemma dir_entries_items: "list_all rec_ok rs \<Longrightarrow> dir_entries (flat rs) 0 = items rs"
  using dir_entries_flat [of rs "[]"] by simp

lemma slot_scan_flat:
  "list_all rec_ok rs \<Longrightarrow>
   case slot_scan (flat pre @ flat rs) needed (length (flat pre)) ls la of
     Inl (off, rl) \<Rightarrow> \<exists>xs r ys. rs = xs @ r # ys \<and> off = length (flat (pre @ xs)) \<and> rl = rlen r \<and> r_ino r = 0 \<and> needed \<le> rl
   | Inr (s, a) \<Rightarrow> (if rs = [] then s = ls \<and> a = la
        else s = length (flat (pre @ butlast rs)) \<and> a = entry_size (r_nl (last rs)))
        \<and> (\<forall>x \<in> set rs. r_ino x = 0 \<longrightarrow> rlen x < needed)"
proof (induction rs arbitrary: pre ls la)
  case Nil
  then show ?case by (subst slot_scan.simps) simp
next
  case (Cons r rs)
  have ok: "rec_ok r" using Cons.prems by simp
  note f = at_offset rec_fields [OF ok]
  show ?case
  proof (cases "r_ino r = 0 \<and> needed \<le> rlen r")
    case True
    then have "slot_scan (flat pre @ flat (r # rs)) needed (length (flat pre)) ls la = Inl (length (flat pre), rlen r)"
      using rlen_ge [of r] by (subst slot_scan.simps) (simp add: f Let_def)
    then show ?thesis using True by (auto intro!: exI [of _ "[]"])
  next
    case False
    then have "slot_scan (flat pre @ flat (r # rs)) needed (length (flat pre)) ls la
        = slot_scan (flat (pre @ [r]) @ flat rs) needed (length (flat (pre @ [r]))) (length (flat pre)) (entry_size (r_nl r))"
      using rlen_ge [of r] by (subst slot_scan.simps) (auto simp: f Let_def)
    moreover have "list_all rec_ok rs" using Cons.prems by simp
    note IH = Cons.IH [OF this, of "pre @ [r]" "length (flat pre)" "entry_size (r_nl r)"]
    show ?thesis
    proof (cases "slot_scan (flat (pre @ [r]) @ flat rs) needed (length (flat (pre @ [r]))) (length (flat pre)) (entry_size (r_nl r))")
      case (Inl p)
      obtain off rl where p: "p = (off, rl)" by force
      obtain xs q ys where q: "rs = xs @ q # ys" "off = length (flat ((pre @ [r]) @ xs))" "rl = rlen q" "r_ino q = 0" "needed \<le> rl"
        using IH unfolding Inl p by auto
      show ?thesis unfolding calculation Inl p
        using q by (auto intro!: exI [of _ "r # xs"])
    next
      case (Inr p)
      obtain st la' where p: "p = (st, la')" by force
      have "(if rs = [] then st = length (flat pre) \<and> la' = entry_size (r_nl r)
        else st = length (flat ((pre @ [r]) @ butlast rs)) \<and> la' = entry_size (r_nl (last rs)))
        \<and> (\<forall>x \<in> set rs. r_ino x = 0 \<longrightarrow> rlen x < needed)"
        using IH unfolding Inr p by simp
      then show ?thesis unfolding calculation Inr p using False by (auto split: if_splits)
    qed
  qed
qed

lemma put_mid: "k + length bs \<le> length m \<Longrightarrow> put (a @ m @ b) (length a + k) bs = a @ put m k bs @ b"
  by (simp add: put_def)

lemma put_mid0: "length bs \<le> length m \<Longrightarrow> put (a @ m @ b) (length a) bs = a @ put m 0 bs @ b"
  using put_mid [of 0] by simp

lemma put_head:
  assumes "8 + length name \<le> length m"
  shows "put (put (put (put (put m 0 (le_bytes 4 ino)) 4 (le_bytes 2 rl)) 6 [x]) 7 [y]) 8 name
    = le_bytes 4 ino @ le_bytes 2 rl @ [x, y] @ name @ drop (8 + length name) m"
  using assms by (simp add: put_def add.commute)

lemma write_entry_mid:
  assumes "8 + length name \<le> length m"
  shows "write_dir_entry_in_buf (a @ m @ b) (length a) ino ft name rl
    = Inr (a @ (head ino rl (length name) ft @ name @ drop (8 + length name) m) @ b)"
proof -
  have len: "length (put m k bs) = length m" if "k + length bs \<le> length m" for m :: bytes and k bs
    using that by (rule length_put)
  show ?thesis
    using assms put_head [OF assms, of ino rl "word_of_nat (length name)" "word_of_nat ft"]
    by (simp add: write_dir_entry_in_buf_def Let_def put_mid0 put_mid len head_def)
qed

lemma block_write_mid:
  assumes "off = length a" "length m = length m'" "m \<noteq> []" "off div bs = (off + length m - 1) div bs"
    and "bs dvd length (a @ m @ b)" "0 < bs"
  shows "\<exists>w blk. block_of bs (a @ m' @ b) off = Inr (w, blk) \<and> bs dvd w \<and> length blk = bs
    \<and> w + bs \<le> length (a @ m @ b) \<and> put (a @ m @ b) w blk = a @ m' @ b"
proof -
  let ?w = "off div bs * bs" and ?d = "a @ m @ b" and ?d' = "a @ m' @ b"
  have lo: "?w \<le> off" by simp
  have hi: "off + length m \<le> ?w + bs"
  proof -
    have "off + length m - 1 < (off div bs + 1) * bs"
      using assms(4,6) by (metis dividend_less_div_times mult.commute add.commute Suc_eq_plus1 mult_Suc)
    then show ?thesis using assms(3) by (cases m) auto
  qed
  have "?w + bs \<le> length ?d"
  proof -
    obtain q where q: "length ?d = bs * q" using assms(5) ..
    have "off < bs * q" using q assms(1,3) by (cases m) auto
    then have "off div bs < q" using assms(6) by (simp add: div_less_iff_less_mult mult.commute)
    then have "(off div bs + 1) * bs \<le> q * bs" by (intro mult_right_mono) simp_all
    then show ?thesis using q by (simp add: mult.commute)
  qed
  moreover have "put ?d ?w (slice ?d' ?w bs) = ?d'"
  proof (rule nth_equalityI)
    have l: "length (slice ?d' ?w bs) = bs" using calculation assms(2) by (simp add: length_slice)
    show "length (put ?d ?w (slice ?d' ?w bs)) = length ?d'" using calculation assms(2) l by (simp add: length_put)
    fix i assume "i < length (put ?d ?w (slice ?d' ?w bs))"
    then have i: "i < length ?d" using calculation l by (simp add: length_put)
    show "put ?d ?w (slice ?d' ?w bs) ! i = ?d' ! i"
    proof (cases "?w \<le> i \<and> i < ?w + bs")
      case True
      then have "i - ?w < bs" by linarith
      then show ?thesis
        using True i calculation l assms(2) nth_slice [of "i - ?w" bs ?w ?d'] by (simp add: nth_put)
    next
      case False
      then have "i < length a \<or> length a + length m \<le> i" using lo hi assms(1) by linarith
      then have "?d ! i = ?d' ! i" using assms(2) by (auto simp: nth_append)
      then show ?thesis using False i calculation l by (subst nth_put) auto
    qed
  qed
  ultimately show ?thesis using assms(2) by (simp add: block_of_def Let_def length_slice)
qed

lemma entry_size_ge: "8 + n \<le> entry_size n" "12 \<le> entry_size n"
  by (simp_all add: entry_size_def)

fun tiles :: "usize \<Rightarrow> usize \<Rightarrow> drec list \<Rightarrow> bool" where
  "tiles bs off [] \<longleftrightarrow> True"
| "tiles bs off (r # rs) \<longleftrightarrow> off div bs = (off + rlen r - 1) div bs \<and> tiles bs (off + rlen r) rs"

lemma tiles_append: "tiles bs off (xs @ ys) \<longleftrightarrow> tiles bs off xs \<and> tiles bs (off + length (flat xs)) ys"
  by (induction xs arbitrary: off) (simp_all add: add.assoc)

lemma div_between: "\<lbrakk>a \<le> b; b \<le> c; a div m = c div m\<rbrakk> \<Longrightarrow> b div m = (a :: nat) div m"
  by (metis div_le_mono dual_order.antisym)

lemma tiles_split:
  assumes "off div bs = (off + rlen r - 1) div bs" "rlen r1 + rlen r2 = rlen r"
  shows "tiles bs off [r1, r2]"
proof -
  have "8 \<le> rlen r1" "8 \<le> rlen r2" by (rule rlen_ge)+
  moreover have same: "x div bs = off div bs" if "off \<le> x" "x \<le> off + rlen r - 1" for x
    using div_between [OF that assms(1)] .
  ultimately have "(off + rlen r1 - 1) div bs = off div bs" "(off + rlen r1) div bs = off div bs"
      "(off + rlen r1 + rlen r2 - 1) div bs = off div bs"
    using assms(2) by (intro same; linarith)+
  then show ?thesis by simp
qed

definition new_rec :: "nat \<Rightarrow> nat \<Rightarrow> bytes \<Rightarrow> bytes \<Rightarrow> drec" where
  "new_rec child ft name pad = \<lparr>r_ino = child, r_nl = length name, r_ft = ft, r_body = name @ pad\<rparr>"

definition name_ok :: "bytes \<Rightarrow> bool" where
  "name_ok name \<longleftrightarrow> name \<noteq> [] \<and> length name < 256 \<and> utf8_valid name"

lemma new_rec_simps [simp]:
  "r_ino (new_rec child ft name pad) = child" "r_item (new_rec child ft name pad) = (child, ft, bytes_str name)"
  by (simp_all add: new_rec_def r_item_def)

lemma new_rec_ok:
  assumes "name_ok name" "0 < child" "child < 2 ^ 32" "ft < 256" "8 + length name + length pad < 65536"
  shows "rec_ok (new_rec child ft name pad)"
    "rlen (new_rec child ft name pad) = 8 + length name + length pad"
  using assms by (simp_all add: rec_ok_def new_rec_def name_ok_def rlen_def)

lemma enc_new_rec: "enc (new_rec child ft name pad) = head child (8 + length name + length pad) (length name) ft @ name @ pad"
  by (simp add: enc_def new_rec_def rlen_def add.assoc)

lemma split_tail:
  assumes "k + 8 \<le> length m" "length m - k < 65536"
  obtains t where "put (put m k (le_bytes 4 0)) (k + 4) (le_bytes 2 (length m - k)) = take k m @ enc t"
    "rec_ok t" "r_ino t = 0" "rlen t = length m - k"
proof -
  define t where "t = \<lparr>r_ino = 0, r_nl = unat (m ! (k + 6)), r_ft = unat (m ! (k + 7)), r_body = drop (k + 8) m\<rparr>"
  have d: "drop (k + 6) m = m ! (k + 6) # m ! (k + 7) # drop (k + 8) m"
    using assms(1) Cons_nth_drop_Suc [of "k + 6" m] Cons_nth_drop_Suc [of "k + 7" m] by (simp add: numeral_eq_Suc)
  have "rlen t = length m - k" using assms(1) by (simp add: t_def rlen_def)
  moreover have "put (put m k (le_bytes 4 0)) (k + 4) (le_bytes 2 (length m - k)) = take k m @ enc t"
    using assms(1) calculation d by (simp add: put_def enc_def head_def t_def add.commute)
  moreover have "rec_ok t" using calculation(1) assms(2) unat_u8 by (simp add: rec_ok_def t_def)
  ultimately show ?thesis using that by (simp add: t_def)
qed

text \<open>The outcome of a change: one block to write, after which the directory is \<open>rs'\<close>.\<close>

definition dir_write :: "usize \<Rightarrow> bytes \<Rightarrow> (usize \<times> bytes) fsres \<Rightarrow> drec list \<Rightarrow> bool" where
  "dir_write bs data plan rs' \<longleftrightarrow> (\<exists>w blk. plan = Inr (w, blk) \<and> bs dvd w \<and> length blk = bs \<and> w \<le> length data
     \<and> put data w blk = flat rs' \<and> list_all rec_ok rs' \<and> tiles bs 0 rs')"

lemma add_in_slot_ok:
  assumes rs: "rs = xs @ r # ys" "list_all rec_ok rs" "tiles bs 0 rs" "bs dvd length (flat rs)" "0 < bs"
    and nm: "name_ok name" "0 < child" "child < 2 ^ 32" "ft < 256" and fit: "entry_size (length name) \<le> rlen r" "r_ino r = 0"
  shows "\<exists>news. dir_write bs (flat rs) (add_in_slot bs (flat rs) (length (flat xs)) (rlen r) name child ft) (xs @ news @ ys)
    \<and> items news = [(child, ft, bytes_str name)]
    \<and> (rlen r - entry_size (length name) \<ge> 8 \<longrightarrow>
         (\<exists>n t. news = [n, t] \<and> r_ino n = child \<and> r_ino t = 0 \<and> rlen t = rlen r - entry_size (length name)))"
proof -
  define needed where "needed = entry_size (length name)"
  define left where "left = rlen r - needed"
  have es: "8 + length name \<le> needed" using entry_size_ge by (simp add: needed_def)
  have rl: "rlen r < 65536" using rs(1,2) by (simp add: rec_ok_def)
  have t: "length (flat xs) div bs = (length (flat xs) + rlen r - 1) div bs"
    using rs(1,3) by (simp add: tiles_append)
  obtain news where n: "(bnd (write_dir_entry_in_buf (flat rs) (length (flat xs)) child ft name (if left \<ge> 8 then needed else rlen r)) (\<lambda>data.
      Inr (if left \<ge> 8 then put (put data (length (flat xs) + needed) (le_bytes 4 0)) (length (flat xs) + needed + 4) (le_bytes 2 left)
           else data)) = (Inr (flat xs @ flat news @ flat ys) :: bytes fsres))"
    "list_all rec_ok news" "items news = [(child, ft, bytes_str name)]" "length (flat news) = rlen r"
    "tiles bs (length (flat xs)) news"
    "left \<ge> 8 \<longrightarrow> (\<exists>n t. news = [n, t] \<and> r_ino n = child \<and> r_ino t = 0 \<and> rlen t = left)"
  proof (cases "left \<ge> 8")
    case False
    let ?n = "new_rec child ft name (drop (8 + length name) (enc r))"
    have pl: "8 + length name + length (drop (8 + length name) (enc r)) = rlen r" using es fit needed_def by simp
    have "write_dir_entry_in_buf (flat rs) (length (flat xs)) child ft name (rlen r) = Inr (flat xs @ enc ?n @ flat ys)"
      using es fit write_entry_mid [of name "enc r" "flat xs" "flat ys" child ft "rlen r"]
      by (simp add: rs(1) needed_def enc_new_rec)
    then show ?thesis
      using False new_rec_ok [OF nm, of "drop (8 + length name) (enc r)"] rl pl t nm(2)
      by (intro that [of "[?n]"]) auto
  next
    case True
    let ?m = "head child needed (length name) ft @ name @ drop (8 + length name) (enc r)"
    let ?n = "new_rec child ft name (take (needed - 8 - length name) (drop (8 + length name) (enc r)))"
    have lm: "length ?m = rlen r" using es fit needed_def by simp
    have pl: "8 + length name + length (take (needed - 8 - length name) (drop (8 + length name) (enc r))) = needed"
      using es fit needed_def by simp
    have ll: "length ?m - needed = left" using lm by (simp add: left_def)
    have "needed + 8 \<le> length ?m" "length ?m - needed < 65536" using True lm rl by (simp_all add: left_def)
    from split_tail [OF this] obtain tl where
        tl: "put (put ?m needed (le_bytes 4 0)) (needed + 4) (le_bytes 2 left) = take needed ?m @ enc tl"
        "rec_ok tl" "r_ino tl = 0" "rlen tl = left"
      unfolding ll by blast
    have tk: "take needed ?m = enc ?n" unfolding enc_new_rec pl using es by simp
    have w: "write_dir_entry_in_buf (flat rs) (length (flat xs)) child ft name needed = Inr (flat xs @ ?m @ flat ys)"
      using es fit write_entry_mid [of name "enc r" "flat xs" "flat ys" child ft needed]
      by (simp add: rs(1) needed_def)
    have "put (put (flat xs @ ?m @ flat ys) (length (flat xs) + needed) (le_bytes 4 0)) (length (flat xs) + needed + 4) (le_bytes 2 left)
        = flat xs @ (enc ?n @ enc tl) @ flat ys"
      using True lm tl(1) tk unfolding left_def
      by (subst put_mid, simp, subst add.assoc, subst put_mid) (simp_all add: length_put)
    moreover have "rlen ?n + rlen tl = rlen r" using pl tl(4) True fit needed_def new_rec_ok(2) [OF nm] rl by (simp add: left_def)
    moreover from this have "tiles bs (length (flat xs)) [?n, tl]" using t by (intro tiles_split)
    ultimately show ?thesis
      using True w tl(2-4) new_rec_ok(1) [OF nm, of "take (needed - 8 - length name) (drop (8 + length name) (enc r))"] rl pl fit needed_def nm(2)
      by (intro that [of "[?n, tl]"]) auto
  qed
  obtain w blk where b: "block_of bs (flat xs @ flat news @ flat ys) (length (flat xs)) = Inr (w, blk)" "bs dvd w" "length blk = bs"
    "w + bs \<le> length (flat xs @ enc r @ flat ys)" "put (flat xs @ enc r @ flat ys) w blk = flat xs @ flat news @ flat ys"
    using block_write_mid [of "length (flat xs)" "flat xs" "enc r" "flat news" bs "flat ys"] n(4) t rs(1,4,5) rlen_ge [of r]
    by (auto simp flip: length_enc)
  have "add_in_slot bs (flat rs) (length (flat xs)) (rlen r) name child ft = Inr (w, blk)"
  proof -
    have "add_in_slot bs (flat rs) (length (flat xs)) (rlen r) name child ft
      = bnd (bnd (write_dir_entry_in_buf (flat rs) (length (flat xs)) child ft name (if left \<ge> 8 then needed else rlen r)) (\<lambda>data.
          Inr (if left \<ge> 8 then put (put data (length (flat xs) + needed) (le_bytes 4 0)) (length (flat xs) + needed + 4) (le_bytes 2 left)
               else data))) (\<lambda>data. block_of bs data (length (flat xs)))"
      by (simp add: add_in_slot_def Let_def bnd_assoc needed_def [symmetric] left_def [symmetric])
    then show ?thesis unfolding n(1) using b(1) by simp
  qed
  then show ?thesis
    using b n(2-6) rs(1-3) by (intro exI [of _ news]) (auto simp: dir_write_def tiles_append left_def needed_def)
qed

lemma add_at_end_ok:
  assumes rs: "rs = xs @ [r]" "list_all rec_ok rs" "tiles bs 0 rs" "bs dvd length (flat rs)" "0 < bs"
    and nm: "name_ok name" "0 < child" "child < 2 ^ 32" "ft < 256"
    and la: "la = entry_size (r_nl r)" "la \<le> rlen r" and fit: "entry_size (length name) \<le> rlen r - la"
  shows "\<exists>news. dir_write bs (flat rs)
      (bnd (write_dir_entry_in_buf (put (flat rs) (length (flat xs) + 4) (le_bytes 2 la)) (length (flat xs) + la) child ft name
              (rlen r - la)) (\<lambda>data. block_of bs data (length (flat xs)))) (xs @ news)
    \<and> mset (items news) = add_mset (child, ft, bytes_str name) (mset (items [r]))"
proof -
  let ?pad = "drop (8 + length name) (drop (la - 8) (r_body r))"
  let ?r1 = "r\<lparr>r_body := take (la - 8) (r_body r)\<rparr>" and ?n = "new_rec child ft name ?pad"
  have es: "8 + length name \<le> rlen r - la" "8 + r_nl r \<le> la" "12 \<le> la"
    using entry_size_ge [of "length name"] entry_size_ge [of "r_nl r"] fit la(1) by simp_all
  have okr: "rec_ok r" using rs(1,2) by simp
  have lb: "la - 8 \<le> length (r_body r)" "rlen ?r1 = la" using la(2) es(3) by (simp_all add: rlen_def)
  have pl: "8 + length name + length ?pad = rlen r - la" using es by (simp add: rlen_def)
  have "put (enc r) 4 (le_bytes 2 la) = enc ?r1 @ drop (la - 8) (r_body r)"
    using lb by (simp add: put_def enc_def head_def rlen_def)
  then have p1: "put (flat rs) (length (flat xs) + 4) (le_bytes 2 la) = (flat xs @ enc ?r1) @ drop (la - 8) (r_body r) @ []"
    using put_mid [of 4 "le_bytes 2 la" "enc r" "flat xs" "[]"] rlen_ge [of r] by (simp add: rs(1))
  have "write_dir_entry_in_buf ((flat xs @ enc ?r1) @ drop (la - 8) (r_body r) @ []) (length (flat xs @ enc ?r1)) child ft name (rlen r - la)
      = Inr ((flat xs @ enc ?r1) @ enc ?n @ [])"
    using es write_entry_mid [of name "drop (la - 8) (r_body r)" "flat xs @ enc ?r1" "[]" child ft "rlen r - la"]
    unfolding enc_new_rec pl by (simp add: rlen_def)
  then have w: "write_dir_entry_in_buf (put (flat rs) (length (flat xs) + 4) (le_bytes 2 la)) (length (flat xs) + la) child ft name (rlen r - la)
      = Inr (flat xs @ (enc ?r1 @ enc ?n) @ [])"
    unfolding p1 using lb(2) by simp
  have rl: "rlen r < 65536" using okr by (simp add: rec_ok_def)
  have n: "rec_ok ?n" "rlen ?n = rlen r - la" using new_rec_ok [OF nm, of ?pad] pl rl by simp_all
  have "r_nl r \<le> la - 8" using es(2) by linarith
  then have r1: "rec_ok ?r1" using okr lb(2) la(2) rl by (auto simp: rec_ok_def min_absorb1 min_absorb2 lb(1))
  have "r_nl r \<le> la - 8" using es(2) by linarith
  then have i1: "r_item ?r1 = r_item r" by (simp add: r_item_def min_absorb1)
  have t: "length (flat xs) div bs = (length (flat xs) + rlen r - 1) div bs" using rs(1,3) by (simp add: tiles_append)
  obtain wo blk where b: "block_of bs (flat xs @ (enc ?r1 @ enc ?n) @ []) (length (flat xs)) = Inr (wo, blk)" "bs dvd wo" "length blk = bs"
    "wo + bs \<le> length (flat xs @ enc r @ [])" "put (flat xs @ enc r @ []) wo blk = flat xs @ (enc ?r1 @ enc ?n) @ []"
    using block_write_mid [of "length (flat xs)" "flat xs" "enc r" "enc ?r1 @ enc ?n" bs "[]"] t rs(1,4,5) lb(2) n(2) la(2) by auto
  have "tiles bs (length (flat xs)) [?r1, ?n]" using t lb(2) n(2) la(2) by (intro tiles_split [where r = r]) simp_all
  then show ?thesis
    using w b n(1) r1 i1 rs(1-3) nm(2)
    by (intro exI [of _ "[?r1, ?n]"]) (auto simp: dir_write_def tiles_append)
qed

lemma add_new_block_ok:
  assumes "list_all rec_ok rs" "tiles bs 0 rs" "bs dvd length (flat rs)" "0 < bs" "bs < 65536"
    and nm: "name_ok name" "0 < child" "child < 2 ^ 32" "ft < 256" and fit: "entry_size (length name) \<le> bs"
  shows "\<exists>news. dir_write bs (flat rs) (add_new_block bs (length (flat rs)) name child ft) (rs @ news)
    \<and> items news = [(child, ft, bytes_str name)]"
proof -
  let ?pad = "replicate (bs - 8 - length name) 0"
  let ?n = "new_rec child ft name ?pad"
  have es: "8 + length name \<le> bs" using entry_size_ge [of "length name"] fit by simp
  have pl: "8 + length name + length ?pad = bs" using es by simp
  have w: "write_dir_entry_in_buf (replicate bs 0) 0 child ft name bs = Inr (enc ?n)"
    using es write_entry_mid [of name "replicate bs 0" "[]" "[]" child ft bs]
    unfolding enc_new_rec pl by simp
  have "length (flat rs) div bs * bs = length (flat rs)" using assms(3) by simp
  moreover have "put (flat rs) (length (flat rs)) (enc ?n) = flat (rs @ [?n])" by (simp add: put_def)
  moreover have "rec_ok ?n" "rlen ?n = bs" using new_rec_ok [OF nm, of ?pad] pl assms(5) by simp_all
  moreover have "length (flat rs) div bs = (length (flat rs) + bs - 1) div bs"
  proof -
    obtain q where q: "length (flat rs) = bs * q" using assms(3) ..
    have "(bs * q + bs - 1) div bs = ((bs - 1) + bs * q) div bs" using assms(4) by (intro arg_cong2 [where f = "(div)"]) simp_all
    also have "((bs - 1) + bs * q) div bs = q" using assms(4) by (subst div_mult_self2) auto
    finally have "(bs * q + bs - 1) div bs = q" by simp
    then show ?thesis using q assms(4) by simp
  qed
  ultimately show ?thesis
    using w assms(1-3) nm(2)
    by (intro exI [of _ "[?n]"]) (auto simp: add_new_block_def dir_write_def tiles_append)
qed

definition dir_ok :: "usize \<Rightarrow> drec list \<Rightarrow> bool" where
  "dir_ok bs rs \<longleftrightarrow> list_all rec_ok rs \<and> tiles bs 0 rs \<and> bs dvd length (flat rs) \<and> 0 < bs \<and> bs < 65536"

lemma dir_write_ok:
  assumes "dir_ok bs rs" "dir_write bs (flat rs) plan rs'"
  shows "dir_ok bs rs'"
proof -
  obtain w blk where w: "bs dvd w" "length blk = bs" "w \<le> length (flat rs)" "put (flat rs) w blk = flat rs'"
    "list_all rec_ok rs'" "tiles bs 0 rs'"
    using assms(2) unfolding dir_write_def by blast
  have "length (flat rs') = w + (bs + (length (flat rs) - (w + bs)))"
    using w(2,3) unfolding w(4) [symmetric] by (simp add: put_def)
  moreover have "bs dvd w + (bs + (length (flat rs) - (w + bs)))"
    using assms(1) w(1) unfolding dir_ok_def by (intro dvd_add dvd_diff_nat) simp_all
  ultimately show ?thesis using assms(1) w(5,6) by (simp add: dir_ok_def)
qed

text \<open>The last record is long enough for its own name (what \<open>actual\<close> of \<^verbatim>\<open>add_entry\<close> takes for granted).\<close>

definition last_fits :: "drec list \<Rightarrow> bool" where
  "last_fits rs \<longleftrightarrow> rs = [] \<or> entry_size (r_nl (last rs)) \<le> rlen (last rs)"

lemma add_plan_ok:
  assumes ok: "dir_ok bs rs" "last_fits rs"
    and nm: "name_ok name" "0 < child" "child < 2 ^ 32" "ft < 256" and fit: "entry_size (length name) \<le> bs"
  shows "\<exists>rs'. dir_write bs (flat rs) (add_plan bs (flat rs) name child ft) rs'
    \<and> mset (items rs') = add_mset (child, ft, bytes_str name) (mset (items rs))"
proof -
  have d: "list_all rec_ok rs" "tiles bs 0 rs" "bs dvd length (flat rs)" "0 < bs" "bs < 65536"
    using ok(1) by (simp_all add: dir_ok_def)
  let ?needed = "entry_size (length name)"
  have nb: ?thesis if "add_plan bs (flat rs) name child ft = add_new_block bs (length (flat rs)) name child ft"
    using add_new_block_ok [OF d nm fit] that by force
  show ?thesis
  proof (cases "slot_scan (flat rs) ?needed 0 0 0")
    case (Inl p)
    obtain off rl where p: "p = (off, rl)" by force
    obtain xs r ys where r: "rs = xs @ r # ys" "off = length (flat xs)" "rl = rlen r" "r_ino r = 0" "?needed \<le> rl"
      using slot_scan_flat [OF d(1), of "[]" ?needed 0 0] Inl p by auto
    have "flat rs \<noteq> []" by (simp add: r(1))
    then have "add_plan bs (flat rs) name child ft = add_in_slot bs (flat rs) off rl name child ft"
      using Inl p by (simp add: add_plan_def)
    moreover obtain news where "dir_write bs (flat rs) (add_in_slot bs (flat rs) off rl name child ft) (xs @ news @ ys)"
      "items news = [(child, ft, bytes_str name)]"
      using add_in_slot_ok [OF r(1) d(1-4) nm, folded r(2)] r(3-5) by blast
    ultimately show ?thesis using r(1,4) by (intro exI [of _ "xs @ news @ ys"]) simp
  next
    case (Inr p)
    obtain st la where p: "p = (st, la)" by force
    show ?thesis
    proof (cases "rs = []")
      case True
      then show ?thesis by (intro nb) (simp add: add_plan_def)
    next
      case False
      let ?xs = "butlast rs" and ?r = "last rs"
      have split: "rs = ?xs @ [?r]" using False by simp
      have st: "st = length (flat ?xs)" "la = entry_size (r_nl ?r)"
        using slot_scan_flat [OF d(1), of "[]" ?needed 0 0] Inr p False by auto
      have okr: "rec_ok ?r" using d(1) False by (simp add: list_all_iff)
      have le: "la \<le> rlen ?r" using ok(2) False st(2) by (simp add: last_fits_def)
      have "field (flat ?xs @ enc ?r @ []) (length (flat ?xs) + 4) 2 = rlen ?r"
        using rec_fields(2) [OF okr, of "[]"] by (simp only: at_offset)
      moreover have fl: "flat rs = flat ?xs @ enc ?r @ []" by (subst split) simp
      ultimately have lr: "field (flat rs) (st + 4) 2 = rlen ?r" by (simp add: st)
      have sub: "usize_sub (rlen ?r) la = rlen ?r - la"
        using le okr by (intro usize_sub_eq) (simp_all add: rec_ok_def USIZE_LIM_def)
      have ne: "flat rs \<noteq> []" "0 < la" using fl entry_size_ge(2) [of "r_nl ?r"] st(2) by simp_all
      show ?thesis
      proof (cases "rlen ?r - la \<ge> ?needed")
        case True
        then have "add_plan bs (flat rs) name child ft =
          bnd (write_dir_entry_in_buf (put (flat rs) (st + 4) (le_bytes 2 la)) (st + la) child ft name (rlen ?r - la))
            (\<lambda>data. block_of bs data st)"
          using Inr p ne lr sub by (simp add: add_plan_def Let_def)
        moreover obtain news where "dir_write bs (flat rs)
            (bnd (write_dir_entry_in_buf (put (flat rs) (st + 4) (le_bytes 2 la)) (st + la) child ft name (rlen ?r - la))
              (\<lambda>data. block_of bs data st)) (?xs @ news)"
            "mset (items news) = add_mset (child, ft, bytes_str name) (mset (items [?r]))"
          using add_at_end_ok [OF split d(1-4) nm st(2) le True, folded st(1)] by blast
        moreover have "mset (items rs) = mset (items ?xs) + mset (items [?r])" by (subst split) (simp only: items_simps mset_append)
        ultimately show ?thesis by (intro exI [of _ "?xs @ news"]) simp
      next
        case False
        then show ?thesis using Inr p ne lr sub by (intro nb) (simp add: add_plan_def Let_def)
      qed
    qed
  qed
qed

text \<open>The record a removal looks for.\<close>

definition matches :: "bytes \<Rightarrow> drec \<Rightarrow> bool" where
  "matches name r \<longleftrightarrow> r_ino r \<noteq> 0 \<and> take (r_nl r) (r_body r) = name"

lemma remove_scan_flat:
  "list_all rec_ok rs \<Longrightarrow>
   remove_scan (flat pre @ flat rs) name (length (flat pre)) =
     (case dropWhile (\<lambda>r. \<not> matches name r) rs of
        [] \<Rightarrow> Inr None
      | r # _ \<Rightarrow> Inr (Some (length (flat (pre @ takeWhile (\<lambda>r. \<not> matches name r) rs)), rlen r)))"
proof (induction rs arbitrary: pre)
  case Nil
  then show ?case by (subst remove_scan.simps) simp
next
  case (Cons r rs)
  have ok: "rec_ok r" using Cons.prems by simp
  have nl: "r_nl r \<le> length (r_body r)" if "r_ino r \<noteq> 0" using ok that by (simp add: rec_ok_def)
  have m: "matches name r \<longleftrightarrow> r_ino r \<noteq> 0 \<and> r_nl r = length name \<and> slice (enc r @ flat rs) 8 (r_nl r) = name"
    using rec_fields(5) [OF ok, of "flat rs"] nl by (auto simp: matches_def)
  note f = at_offset rec_fields(1-4) [OF ok]
  show ?case
  proof (cases "matches name r")
    case True
    then have "remove_scan (flat pre @ flat (r # rs)) name (length (flat pre)) = Inr (Some (length (flat pre), rlen r))"
      using rlen_ge [of r] m nl by (subst remove_scan.simps) (auto simp: f Let_def rlen_def)
    then show ?thesis using True by simp
  next
    case False
    then have "remove_scan (flat pre @ flat (r # rs)) name (length (flat pre))
        = remove_scan (flat (pre @ [r]) @ flat rs) name (length (flat (pre @ [r])))"
      using rlen_ge [of r] m nl by (subst remove_scan.simps) (auto simp: f Let_def rlen_def)
    then show ?thesis using False Cons.IH [of "pre @ [r]"] Cons.prems
      by (cases "dropWhile (\<lambda>r. \<not> matches name r) rs") (simp_all del: dropWhile_eq_Nil_conv)
  qed
qed

lemma remove_plan_ok:
  assumes ok: "dir_ok bs rs" and rs: "rs = xs @ r # ys" "matches name r" "\<forall>x \<in> set xs. \<not> matches name x"
  shows "\<exists>rs'. dir_write bs (flat rs) (remove_plan bs (flat rs) name) rs' \<and> items rs' = items xs @ items ys"
proof -
  have d: "list_all rec_ok rs" "tiles bs 0 rs" "bs dvd length (flat rs)" "0 < bs" "bs < 65536"
    using ok(1) by (simp_all add: dir_ok_def)
  let ?r0 = "r\<lparr>r_ino := 0\<rparr>" and ?off = "length (flat xs)"
  have okr: "rec_ok r" "rec_ok ?r0" using d(1) rs(1) by (auto simp: rec_ok_def rlen_def)
  have l0: "rlen ?r0 = rlen r" by (simp add: rlen_def)
  have scan: "remove_scan (flat rs) name 0 = Inr (Some (?off, rlen r))"
    using remove_scan_flat [OF d(1), of "[]" name] rs by (simp add: dropWhile_append2 takeWhile_append2)
  have "put (enc r) 0 (le_bytes 4 0) = enc ?r0" by (simp add: put_def enc_def head_def rlen_def)
  then have p0: "put (flat rs) ?off (le_bytes 4 0) = flat xs @ enc ?r0 @ flat ys"
    using put_mid0 [of "le_bytes 4 0" "enc r" "flat xs" "flat ys"] rlen_ge [of r] by (simp add: rs(1))
  let ?d = "flat xs @ enc ?r0 @ flat ys"
  define go where "go \<longleftrightarrow> ?off div bs = (?off + rlen r) div bs \<and> ?off + rlen r + 8 \<le> length ?d
    \<and> field ?d (?off + rlen r) 4 = 0 \<and> field ?d (?off + rlen r + 4) 2 \<ge> 8
    \<and> ?off + rlen r + field ?d (?off + rlen r + 4) 2 \<le> length ?d
    \<and> ?off div bs = (?off + rlen r + field ?d (?off + rlen r + 4) 2 - 1) div bs"
  have plan: "remove_plan bs (flat rs) name = block_of bs
     (if go then put ?d (?off + 4) (le_bytes 2 (rlen r + field ?d (?off + rlen r + 4) 2)) else ?d) ?off"
    by (simp add: remove_plan_def scan p0 Let_def go_def)
  have t: "?off div bs = (?off + rlen r - 1) div bs" using rs(1) d(2) by (simp add: tiles_append)
  show ?thesis
  proof (cases go)
    case False
    obtain w blk where "block_of bs ?d ?off = Inr (w, blk)" "bs dvd w" "length blk = bs"
      "w + bs \<le> length (flat xs @ enc r @ flat ys)" "put (flat xs @ enc r @ flat ys) w blk = ?d"
      using block_write_mid [of ?off "flat xs" "enc r" "enc ?r0" bs "flat ys"] t d(3,4) rs(1) l0 by auto
    moreover have "tiles bs 0 (xs @ ?r0 # ys)" "list_all rec_ok (xs @ ?r0 # ys)"
      using d(1,2) rs(1) l0 okr(2) by (simp_all add: tiles_append)
    ultimately show ?thesis
      using plan False rs(1) by (intro exI [of _ "xs @ ?r0 # ys"]) (auto simp: dir_write_def)
  next
    case True
    then obtain q zs where ys: "ys = q # zs" using l0 by (cases ys) (auto simp: go_def)
    have okq: "rec_ok q" using d(1) rs(1) ys by simp
    have f: "field ?d (?off + rlen r) 4 = r_ino q" "field ?d (?off + rlen r + 4) 2 = rlen q"
      using at_offset(1) [of "flat xs @ enc ?r0" "flat ys" 4 2] at_offset(5) [of "flat xs @ enc ?r0" "flat ys" 4]
        rec_fields(1,2) [OF okq] l0 by (simp_all add: ys)
    have q: "r_ino q = 0" "?off div bs = (?off + rlen r + rlen q - 1) div bs" using True f by (auto simp: go_def)
    let ?m = "\<lparr>r_ino = 0, r_nl = r_nl r, r_ft = r_ft r, r_body = r_body r @ enc q\<rparr>"
    have lm: "rlen ?m = rlen r + rlen q" by (simp add: rlen_def)
    have "put (enc ?r0) 4 (le_bytes 2 (rlen r + rlen q)) @ enc q = enc ?m"
      using lm by (simp add: put_def enc_def head_def)
    then have p1: "put ?d (?off + 4) (le_bytes 2 (rlen r + rlen q)) = flat xs @ enc ?m @ flat zs"
      using put_mid [of 4 "le_bytes 2 (rlen r + rlen q)" "enc ?r0" "flat xs" "flat ys"] rlen_ge [of r] l0 by (simp add: ys)
    have "rlen r + rlen q \<le> bs"
    proof -
      have "?off + rlen r + rlen q - 1 < (?off div bs + 1) * bs"
        using q(2) d(4) by (metis dividend_less_div_times mult.commute add.commute Suc_eq_plus1 mult_Suc)
      moreover have "(?off div bs + 1) * bs \<le> ?off + bs" by simp
      ultimately show ?thesis using rlen_ge [of r] by linarith
    qed
    then have okm: "rec_ok ?m" using okr(1) lm d(5) by (simp add: rec_ok_def)
    obtain w blk where b: "block_of bs (flat xs @ enc ?m @ flat zs) ?off = Inr (w, blk)" "bs dvd w" "length blk = bs"
      "w + bs \<le> length (flat xs @ (enc r @ enc q) @ flat zs)" "put (flat xs @ (enc r @ enc q) @ flat zs) w blk = flat xs @ enc ?m @ flat zs"
      using block_write_mid [of ?off "flat xs" "enc r @ enc q" "enc ?m" bs "flat zs"] q(2) d(3,4) rs(1) lm
      by (auto simp: ys add.assoc)
    have "tiles bs 0 (xs @ ?m # zs)" "list_all rec_ok (xs @ ?m # zs)"
      using d(1,2) rs(1) lm okm q(2) ys by (simp_all add: tiles_append add.assoc)
    then show ?thesis
      using plan True p1 f b rs(1) ys q(1) by (intro exI [of _ "xs @ ?m # zs"]) (auto simp: dir_write_def)
  qed
qed

lemma str_bytes_inverse: "str_bytes (bytes_str b) = b"
proof (induction b)
  case (Cons x b)
  have "(of_char (char_of (unat x) :: char) :: u8) = x"
  proof -
    have "(of_char (char_of (unat x) :: char) :: u8) = of_nat (of_char (char_of (unat x) :: char) :: nat)" by (simp only: of_nat_of_char)
    also have "\<dots> = of_nat (unat x mod 256)" by (simp only: of_char_of)
    also have "\<dots> = x" using unat_u8 [of x] by simp
    finally show ?thesis .
  qed
  then show ?case using Cons by (simp add: str_bytes_def bytes_str_def)
qed (simp add: str_bytes_def bytes_str_def)

lemma bytes_str_inj: "bytes_str a = bytes_str b \<longleftrightarrow> a = b"
  by (metis str_bytes_inverse)

lemma find_append: "find P (xs @ ys) = (case find P xs of None \<Rightarrow> find P ys | Some x \<Rightarrow> Some x)"
  by (induction xs) simp_all

lemma dir_lookup_Inl: "dir_lookup data nm = Inl e \<longleftrightarrow> e = FsErr NotFound \<and> (\<forall>(i, f, n) \<in> set (dir_entries data 0). n \<noteq> nm)"
proof (cases "find (\<lambda>(ino, ft, n). n = nm) (dir_entries data 0)")
  case None
  from None have a: "\<not> (\<exists>x. x \<in> set (dir_entries data 0) \<and> (case x of (ino, ft, n) \<Rightarrow> n = nm))" unfolding find_None_iff .
  show ?thesis unfolding dir_lookup_def None using a by auto
next
  case (Some x)
  then have "x \<in> set (dir_entries data 0)" "snd (snd x) = nm" by (auto simp: find_Some_iff case_prod_beta)
  then show ?thesis using Some by (auto simp: dir_lookup_def case_prod_beta)
qed

lemma dir_lookup_InrD: "dir_lookup data nm = Inr i \<Longrightarrow> \<exists>f. (i, f, nm) \<in> set (dir_entries data 0)"
  by (auto simp: dir_lookup_def find_Some_iff split: option.splits) (metis nth_mem)

lemma dir_lookup_new:
  assumes "mset (dir_entries d' 0) = add_mset (child, ft, nm) (mset (dir_entries d 0))" "dir_lookup d nm = Inl e"
  shows "dir_lookup d' nm = Inr child"
proof (cases "dir_lookup d' nm")
  case (Inl x)
  have "(child, ft, nm) \<in> set (dir_entries d' 0)" using assms(1) by (metis set_mset_mset union_single_eq_member)
  then show ?thesis using Inl by (auto simp: dir_lookup_Inl)
next
  case (Inr i)
  then obtain f where "(i, f, nm) \<in> set (dir_entries d' 0)" using dir_lookup_InrD by blast
  then have "(i, f, nm) = (child, ft, nm) \<or> (i, f, nm) \<in> set (dir_entries d 0)"
    using assms(1) by (metis insert_iff set_mset_add_mset_insert set_mset_mset)
  then show ?thesis using assms(2) Inr by (auto simp: dir_lookup_Inl)
qed

section \<open>Properties\<close>

text \<open>
  C29.  Adding an entry to a well-formed directory whose last record is long enough for its
  own name writes one aligned block, and afterwards the directory is again a whole number of
  blocks tiled by well-formed records, and lists exactly what it listed before and the new
  entry; if the name was free, looking it up gives the new inode.  This holds whether the
  entry reuses an unused record, goes behind the last one or into a new block.
\<close>

theorem dir_add_correct:
  assumes "dir_ok bs rs" "last_fits rs" "data = flat rs" "name_ok name"
    and "0 < child" "child < 2 ^ 32" "ft < 256" "entry_size (length name) \<le> bs"
  shows "\<exists>w blk. add_plan bs data name child ft = Inr (w, blk) \<and> bs dvd w \<and> length blk = bs \<and> w \<le> length data
    \<and> (\<exists>rs'. put data w blk = flat rs' \<and> dir_ok bs rs')
    \<and> mset (dir_entries (put data w blk) 0) = add_mset (child, ft, bytes_str name) (mset (dir_entries data 0))
    \<and> (dir_lookup data (bytes_str name) = Inl (FsErr NotFound) \<longrightarrow> dir_lookup (put data w blk) (bytes_str name) = Inr child)"
proof -
  obtain rs' where r: "dir_write bs (flat rs) (add_plan bs (flat rs) name child ft) rs'"
    "mset (items rs') = add_mset (child, ft, bytes_str name) (mset (items rs))"
    using add_plan_ok [OF assms(1,2,4-8)] by blast
  then obtain w blk where w: "add_plan bs data name child ft = Inr (w, blk)" "bs dvd w" "length blk = bs" "w \<le> length data"
    "put data w blk = flat rs'" "list_all rec_ok rs'"
    by (auto simp: dir_write_def assms(3))
  have "dir_entries (put data w blk) 0 = items rs'" "dir_entries data 0 = items rs"
    using w(5,6) assms(1,3) by (simp_all add: dir_entries_items dir_ok_def)
  moreover have "\<exists>rs'. put data w blk = flat rs' \<and> dir_ok bs rs'"
    using w(5) dir_write_ok [OF assms(1) r(1)] by blast
  ultimately show ?thesis
    using w(1-4) r(2) dir_lookup_new [of "put data w blk" child ft "bytes_str name" data]
    by (intro exI [of _ w] exI [of _ blk]) simp
qed

text \<open>A directory of one 64-byte block with the entries \<open>.\<close> and \<open>..\<close>.\<close>

definition sample_dir :: "drec list" where
  "sample_dir = [new_rec 2 2 (str_bytes ''.'') [0, 0, 0], new_rec 2 2 (str_bytes ''..'') (replicate 42 0)]"

lemma sample_dir_ok: "dir_ok 64 sample_dir" "last_fits sample_dir"
  by (simp_all add: dir_ok_def last_fits_def sample_dir_def new_rec_def rec_ok_def rlen_def entry_size_def str_bytes_def)

theorem dir_add_correct_witness:
  "\<exists>w blk. add_plan 64 (flat sample_dir) (str_bytes ''f'') 12 1 = Inr (w, blk) \<and> dir_lookup (put (flat sample_dir) w blk) ''f'' = Inr 12"
proof -
  have e: "dir_entries (flat sample_dir) 0 = [(2, 2, ''.''), (2, 2, ''..'')]"
    using sample_dir_ok(1) by (simp add: dir_ok_def dir_entries_items) (simp add: sample_dir_def)
  have "dir_lookup (flat sample_dir) ''f'' = Inl (FsErr NotFound)" by (simp add: dir_lookup_def e)
  moreover have "name_ok (str_bytes ''f'')" "entry_size (length (str_bytes ''f'')) \<le> 64"
    by (simp_all add: name_ok_def str_bytes_def entry_size_def)
  ultimately show ?thesis
    using dir_add_correct [OF sample_dir_ok refl, of "str_bytes ''f''" 12 1] by auto
qed

text \<open>
  C30.  Removing a name from a well-formed directory removes exactly the entry that looking
  it up finds, keeps every other, and leaves the directory well-formed; a name that is not
  there is \<open>NotFound\<close>.
\<close>

theorem dir_remove_correct:
  assumes "dir_ok bs rs" "data = flat rs"
  shows "case dir_lookup data (bytes_str name) of
      Inr ino \<Rightarrow> \<exists>w blk ft. remove_plan bs data name = Inr (w, blk) \<and> bs dvd w \<and> length blk = bs \<and> w \<le> length data
        \<and> (\<exists>rs'. put data w blk = flat rs' \<and> dir_ok bs rs')
        \<and> mset (dir_entries data 0) = add_mset (ino, ft, bytes_str name) (mset (dir_entries (put data w blk) 0))
    | Inl e \<Rightarrow> remove_plan bs data name = Inl (FsErr NotFound)"
proof -
  have ok: "list_all rec_ok rs" using assms(1) by (simp add: dir_ok_def)
  have ent: "dir_entries data 0 = items rs" using ok assms(2) by (simp add: dir_entries_items)
  have m: "matches name r \<longleftrightarrow> r_ino r \<noteq> 0 \<and> snd (snd (r_item r)) = bytes_str name" for r
    by (simp add: matches_def r_item_def bytes_str_inj)
  show ?thesis
  proof (cases "\<exists>r \<in> set rs. matches name r")
    case False
    then have "dropWhile (\<lambda>r. \<not> matches name r) rs = []" by simp
    then have "remove_scan data name 0 = Inr None"
      using remove_scan_flat [OF ok, of "[]" name] assms(2) by (simp del: dropWhile_eq_Nil_conv)
    then have "remove_plan bs data name = Inl (FsErr NotFound)" by (simp add: remove_plan_def)
    moreover have "dir_lookup data (bytes_str name) = Inl (FsErr NotFound)"
      using False m by (auto simp: dir_lookup_Inl ent items_def r_item_def)
    ultimately show ?thesis by simp
  next
    case True
    then obtain xs r ys where r: "rs = xs @ r # ys" "matches name r" "\<forall>x \<in> set xs. \<not> matches name x"
      by (metis split_list_first_prop)
    obtain rs' where w': "dir_write bs data (remove_plan bs data name) rs'" "items rs' = items xs @ items ys"
      using remove_plan_ok [OF assms(1) r] assms(2) by blast
    from w'(1) obtain w blk where wr: "remove_plan bs data name = Inr (w, blk)" "bs dvd w" "length blk = bs" "w \<le> length data"
      "put data w blk = flat rs'" "list_all rec_ok rs'"
      unfolding dir_write_def by blast
    then have w: "dir_entries (put data w blk) 0 = items xs @ items ys" using w'(2) by (simp add: dir_entries_items)
    have "snd (snd e) \<noteq> bytes_str name" if "e \<in> set (items xs)" for e
      using that r(3) m by (auto simp: items_def)
    then have none: "find (\<lambda>(ino, ft, n). n = bytes_str name) (items xs) = None"
      unfolding find_None_iff by (fastforce simp: case_prod_beta)
    have "items rs = items xs @ r_item r # items ys" using r(1,2) by (simp add: matches_def)
    then have "dir_lookup data (bytes_str name) = Inr (r_ino r)"
      using m [of r] r(2) none by (simp add: dir_lookup_def ent r_item_def find_append)
    moreover have "mset (dir_entries data 0) = add_mset (r_ino r, r_ft r, bytes_str name) (mset (items xs @ items ys))"
      using r(1,2) m [of r] by (simp add: ent matches_def r_item_def)
    moreover have "\<exists>rs'. put data w blk = flat rs' \<and> dir_ok bs rs'"
      using wr(5) dir_write_ok [OF assms(1)] w'(1) assms(2) by blast
    ultimately show ?thesis using wr(1-4) w by auto
  qed
qed

theorem dir_remove_correct_witness:
  "\<exists>w blk ft. remove_plan 64 (flat sample_dir) (str_bytes ''..'') = Inr (w, blk)
     \<and> mset (dir_entries (flat sample_dir) 0) = add_mset (2, ft, ''..'') (mset (dir_entries (put (flat sample_dir) w blk) 0))"
proof -
  have e: "dir_entries (flat sample_dir) 0 = [(2, 2, ''.''), (2, 2, ''..'')]"
    using sample_dir_ok(1) by (simp add: dir_ok_def dir_entries_items) (simp add: sample_dir_def)
  then have "dir_lookup (flat sample_dir) ''..'' = Inr 2" by (simp add: dir_lookup_def)
  then show ?thesis
    using dir_remove_correct [OF sample_dir_ok(1) refl, of "str_bytes ''..''"] by auto
qed

text \<open>
  C31.  Splitting an unused record can leave one of 8 bytes, smaller than any entry the
  code accounts for.  When that happens in the last record of a directory the next call
  panics: the space behind the last entry is computed as \<open>8 - actual\<close>, which wraps around,
  and the new entry is written beyond the end of the buffer.
\<close>

theorem dir_add_panics:
  assumes "dir_ok bs (xs @ [r])" "\<forall>x \<in> set xs. r_ino x \<noteq> 0" "r_ino r = 0" "rlen r = 20"
    and "name_ok name" "length name \<le> 4" "0 < child" "child < 2 ^ 32" "ft < 256"
    and "name2 \<noteq> []" "length name2 < 256"
  shows "\<exists>w blk. add_plan bs (flat (xs @ [r])) name child ft = Inr (w, blk)
    \<and> add_plan bs (put (flat (xs @ [r])) w blk) name2 child2 ft2 = Inl (Crash (Panic ''slice index''))"
proof -
  let ?rs = "xs @ [r]"
  have ok: "list_all rec_ok ?rs" "tiles bs 0 ?rs" "bs dvd length (flat ?rs)" "0 < bs"
    using assms(1) unfolding dir_ok_def by blast+
  have es: "entry_size (length name) = 12" using assms(5,6) by (cases name) (auto simp: entry_size_def name_ok_def)
  have "slot_scan (flat ?rs) 12 0 0 0 = Inl (length (flat xs), rlen r)"
  proof (cases "slot_scan (flat ?rs) 12 0 0 0")
    case (Inl p)
    then obtain xs' r' ys' where q: "?rs = xs' @ r' # ys'" "p = (length (flat xs'), rlen r')" "r_ino r' = 0"
      using slot_scan_flat [OF ok(1), of "[]" 12 0 0] by (cases p) auto
    have "r' \<notin> set xs" using q(3) assms(2) by auto
    then have "ys' = []" using q(1) by (cases ys' rule: rev_cases) auto
    then show ?thesis using q(1,2) Inl by simp
  next
    case (Inr p)
    then show ?thesis using slot_scan_flat [OF ok(1), of "[]" 12 0 0] assms(3,4) by (cases p) auto
  qed
  then have plan: "add_plan bs (flat ?rs) name child ft = add_in_slot bs (flat ?rs) (length (flat xs)) (rlen r) name child ft"
    using assms(4) by (simp add: add_plan_def es)
  obtain n t where nt: "dir_write bs (flat ?rs) (add_plan bs (flat ?rs) name child ft) (xs @ [n, t])"
    "r_ino n = child" "r_ino t = 0" "rlen t = 8"
    using add_in_slot_ok [OF refl ok assms(5,7-9)] es assms(3,4) plan by auto
  then obtain w blk where w: "add_plan bs (flat ?rs) name child ft = Inr (w, blk)" "put (flat ?rs) w blk = flat (xs @ [n, t])"
    "list_all rec_ok (xs @ [n, t])"
    unfolding dir_write_def by blast
  let ?rs2 = "xs @ [n, t]" and ?la = "entry_size (r_nl t)" and ?needed = "entry_size (length name2)"
  have la: "12 \<le> ?la" "?la \<le> 300" "?needed \<le> 300" "12 \<le> ?needed"
    using w(3) assms(11) entry_size_ge(2) by (auto simp: rec_ok_def entry_size_def)
  have scan2: "slot_scan (flat ?rs2) ?needed 0 0 0 = Inr (length (flat (xs @ [n])), ?la)"
  proof (cases "slot_scan (flat ?rs2) ?needed 0 0 0")
    case (Inl p)
    then obtain xs' r' ys' where q: "?rs2 = xs' @ r' # ys'" "r_ino r' = 0" "?needed \<le> rlen r'"
      using slot_scan_flat [OF w(3), of "[]" ?needed 0 0] by (cases p) auto
    then have "r' \<in> set ?rs2" by simp
    then have "r' = t" using q(2) nt(2) assms(2,7) by auto
    then show ?thesis using q(3) nt(4) la(4) by simp
  next
    case (Inr p)
    then show ?thesis using slot_scan_flat [OF w(3), of "[]" ?needed 0 0] by (cases p) (auto simp: butlast_append)
  qed
  have okt: "rec_ok t" using w(3) by simp
  have lr: "field (flat ?rs2) (length (flat (xs @ [n])) + 4) 2 = 8"
    using at_offset(1) [of "flat (xs @ [n])" "enc t @ []" 4 2] rec_fields(2) [OF okt, of "[]"] nt(4) by simp
  have "usize_sub 8 ?la \<ge> ?needed" using la by (simp add: usize_sub_def USIZE_LIM_def)
  moreover have "length (put (flat ?rs2) (length (flat (xs @ [n])) + 4) (le_bytes 2 ?la)) = length (flat (xs @ [n])) + 8"
    using nt(4) by (subst length_put) simp_all
  ultimately have "add_plan bs (flat ?rs2) name2 child2 ft2 = Inl (Crash (Panic ''slice index''))"
    using scan2 lr la nt(4) by (simp add: add_plan_def Let_def write_dir_entry_in_buf_def)
  then show ?thesis using w(1,2) by auto
qed

text \<open>The block of \<open>sample_dir\<close> with the entry \<open>..\<close> followed by an unused record of 20 bytes.\<close>

definition tight_dir :: "drec list" where
  "tight_dir = [new_rec 2 2 (str_bytes ''.'') [0, 0, 0], new_rec 2 2 (str_bytes ''..'') (replicate 22 0)]"

definition free_rec :: drec where
  "free_rec = \<lparr>r_ino = 0, r_nl = 0, r_ft = 0, r_body = replicate 12 0\<rparr>"

theorem dir_add_panics_witness:
  "\<exists>w blk. add_plan 64 (flat (tight_dir @ [free_rec])) (str_bytes ''a'') 12 1 = Inr (w, blk)
     \<and> add_plan 64 (put (flat (tight_dir @ [free_rec])) w blk) (str_bytes ''b'') 13 1 = Inl (Crash (Panic ''slice index''))"
proof -
  have "dir_ok 64 (tight_dir @ [free_rec])"
    by (simp add: dir_ok_def tight_dir_def free_rec_def new_rec_def rec_ok_def rlen_def str_bytes_def)
  then show ?thesis
    by (intro dir_add_panics) (simp_all add: tight_dir_def free_rec_def rlen_def name_ok_def str_bytes_def)
qed

end
