(* ===== verification/Kor_Ext2_Xattr.thy ===== *)
theory Kor_Ext2_Xattr
  imports Kor_Ext2_Layout "HOL-Library.Product_Lexorder" "HOL-Library.Sublist" "HOL-Library.Multiset"
begin

text \<open>
  The external extended-attribute block of ext2, \<^verbatim>\<open>filesystems/kor-ext2/src/xattr.rs\<close>: the
  attribute namespaces, the parser, the serialiser with its hashes.
\<close>

unbundle bit_operations_syntax

section \<open>Format\<close>

definition XATTR_MAGIC :: nat where [simp]: "XATTR_MAGIC = 0xEA020000"
definition HEADER_SIZE :: usize where [simp]: "HEADER_SIZE = 32"
definition ENTRY_HEADER_SIZE :: usize where [simp]: "ENTRY_HEADER_SIZE = 16"
definition XATTR_PAD :: usize where [simp]: "XATTR_PAD = 4"
definition IDX_USER :: nat where [simp]: "IDX_USER = 1"
definition IDX_ACL_ACCESS :: nat where [simp]: "IDX_ACL_ACCESS = 2"
definition IDX_ACL_DEFAULT :: nat where [simp]: "IDX_ACL_DEFAULT = 3"
definition IDX_TRUSTED :: nat where [simp]: "IDX_TRUSTED = 4"
definition IDX_SECURITY :: nat where [simp]: "IDX_SECURITY = 6"
definition IDX_SYSTEM :: nat where [simp]: "IDX_SYSTEM = 7"

record attr =
  at_index :: nat
  at_name :: bytes
  at_value :: bytes

definition entry_len :: "usize \<Rightarrow> usize" where
  "entry_len name_len = next_multiple_of (ENTRY_HEADER_SIZE + name_len) XATTR_PAD"

definition strip_prefix :: "string \<Rightarrow> string \<Rightarrow> string option" where
  "strip_prefix p s = (if prefix p s then Some (drop (length p) s) else None)"

definition nonempty :: "nat \<Rightarrow> string \<Rightarrow> (nat \<times> string) option" where
  "nonempty idx s = (if s \<noteq> [] then Some (idx, s) else None)"

definition split_name :: "string \<Rightarrow> (nat \<times> string) option" where
  "split_name full =
     (case strip_prefix ''user.'' full of
        Some s \<Rightarrow> nonempty IDX_USER s
      | None \<Rightarrow>
          if full = ''system.posix_acl_access'' then Some (IDX_ACL_ACCESS, [])
          else if full = ''system.posix_acl_default'' then Some (IDX_ACL_DEFAULT, [])
          else (case strip_prefix ''trusted.'' full of
             Some s \<Rightarrow> nonempty IDX_TRUSTED s
           | None \<Rightarrow>
               (case strip_prefix ''security.'' full of
                  Some s \<Rightarrow> nonempty IDX_SECURITY s
                | None \<Rightarrow>
                    (case strip_prefix ''system.'' full of
                       Some s \<Rightarrow> nonempty IDX_SYSTEM s
                     | None \<Rightarrow> None))))"

definition full_name :: "nat \<Rightarrow> bytes \<Rightarrow> string option" where
  "full_name index sfx =
     (if index = IDX_ACL_ACCESS then Some ''system.posix_acl_access''
      else if index = IDX_ACL_DEFAULT then Some ''system.posix_acl_default''
      else
        case (if index = IDX_USER then Some ''user.''
              else if index = IDX_TRUSTED then Some ''trusted.''
              else if index = IDX_SECURITY then Some ''security.''
              else if index = IDX_SYSTEM then Some ''system.'' else None) of
          None \<Rightarrow> None
        | Some p \<Rightarrow> if utf8_valid sfx then Some (p @ bytes_str sfx) else None)"

definition xattr_refcount :: "bytes \<Rightarrow> nat" where
  "xattr_refcount buf = field buf 4 4"

definition set_refcount :: "bytes \<Rightarrow> nat \<Rightarrow> bytes" where
  "set_refcount buf v = put buf 4 (le_bytes 4 v)"

section \<open>Parsing\<close>

lemma entry_len_bounds: "ENTRY_HEADER_SIZE + n \<le> entry_len n" "entry_len n < ENTRY_HEADER_SIZE + n + 4" "4 dvd entry_len n"
  using next_multiple_of_ge [of 4 "16 + n"] next_multiple_of_less [of 4 "16 + n"] next_multiple_of_dvd [of 4 "16 + n"]
  by (simp_all add: entry_len_def)

function parse_entries :: "bytes \<Rightarrow> usize \<Rightarrow> attr list fsres" where
  "parse_entries buf off =
     (if off + ENTRY_HEADER_SIZE > length buf then Inr []
      else
        let name_len = unat (buf ! off) in
        if name_len = 0 then Inr []
        else
          let index = unat (buf ! (off + 1)); value_offs = field buf (off + 2) 2;
              value_block = field buf (off + 4) 4; value_size = field buf (off + 8) 4 in
          if value_block \<noteq> 0 then Inl (FsErr Unsupported)
          else
            let name_start = off + ENTRY_HEADER_SIZE in
            if name_start + name_len > length buf \<or> value_offs + value_size > length buf then Inl (FsErr InvalidInput)
            else
              let a = \<lparr>at_index = index, at_name = slice buf name_start name_len,
                       at_value = slice buf value_offs value_size\<rparr> in
              bnd (parse_entries buf (off + entry_len name_len)) (\<lambda>as. Inr (a # as)))"
  by pat_completeness auto
termination
proof (relation "measure (\<lambda>(buf, off). length buf - off)")
  fix buf :: bytes and off n
  assume "\<not> off + ENTRY_HEADER_SIZE > length buf"
  moreover have "entry_len n \<ge> 16" using entry_len_bounds(1) [of n] by simp
  ultimately show "((buf, off + entry_len n), buf, off) \<in> measure (\<lambda>(buf, off). length buf - off)" by simp
qed simp

declare parse_entries.simps [simp del]

definition parse_block :: "bytes \<Rightarrow> attr list fsres" where
  "parse_block buf =
     (if length buf < HEADER_SIZE then Inl (FsErr InvalidInput)
      else if field buf 0 4 \<noteq> XATTR_MAGIC then Inl (FsErr InvalidInput)
      else parse_entries buf HEADER_SIZE)"

section \<open>Serialising\<close>

definition hash_step :: "nat \<Rightarrow> u32 \<Rightarrow> u32 \<Rightarrow> u32" where
  "hash_step shift h v = (push_bit shift h XOR drop_bit (32 - shift) h) XOR v"

fun value_words :: "bytes \<Rightarrow> u32 list" where
  "value_words [] = []"
| "value_words (a # r) = word_of_nat (from_le (take 4 (a # r))) # value_words (drop 3 r)"

definition hash_entry :: "bytes \<Rightarrow> bytes \<Rightarrow> u32" where
  "hash_entry name val =
     fold (\<lambda>v h. hash_step 16 h v) (value_words val) (fold (\<lambda>c h. hash_step 5 h (ucast c)) name 0)"

fun block_hash :: "u32 list \<Rightarrow> u32 \<Rightarrow> u32" where
  "block_hash [] h = h"
| "block_hash (eh # ehs) h = (if eh = 0 then 0 else block_hash ehs (hash_step 16 h eh))"

definition put_entry :: "bytes \<Rightarrow> usize \<Rightarrow> attr \<Rightarrow> usize \<Rightarrow> bytes" where
  "put_entry buf entry_off a value_offs =
     (let buf = put buf entry_off [word_of_nat (length (at_name a))];
          buf = put buf (entry_off + 1) [word_of_nat (at_index a)];
          buf = put buf (entry_off + 2) (le_bytes 2 value_offs);
          buf = put buf (entry_off + 8) (le_bytes 4 (length (at_value a)));
          buf = put buf (entry_off + 12) (le_bytes 4 (unat (hash_entry (at_name a) (at_value a)))) in
      put buf (entry_off + ENTRY_HEADER_SIZE) (at_name a))"

fun serialize_loop :: "attr list \<Rightarrow> bytes \<Rightarrow> usize \<Rightarrow> usize \<Rightarrow> bytes fsres" where
  "serialize_loop [] buf entry_off value_end = Inr buf"
| "serialize_loop (a # as) buf entry_off value_end =
     (let elen = entry_len (length (at_name a)); vlen = length (at_value a);
          vpad = next_multiple_of vlen XATTR_PAD in
      if vlen \<noteq> 0 \<and> value_end < HEADER_SIZE + vpad then Inl (FsErr NoSpace)
      else
        let value_end = (if vlen = 0 then value_end else value_end - vpad);
            value_offs = (if vlen = 0 then 0 else value_end) in
        if entry_off + elen + XATTR_PAD > value_end then Inl (FsErr NoSpace)
        else
          let buf = (if vlen \<noteq> 0 then put buf value_offs (at_value a) else buf);
              buf = put_entry buf entry_off a value_offs in
          serialize_loop as buf (entry_off + elen) value_end)"

definition sort_attrs :: "attr list \<Rightarrow> attr list" where
  "sort_attrs attrs = sort_key (\<lambda>a. (at_index a, at_name a)) attrs"

definition serialize_block :: "attr list \<Rightarrow> usize \<Rightarrow> bytes fsres" where
  "serialize_block attrs block_size =
     (let attrs = sort_attrs attrs;
          buf = replicate block_size 0;
          buf = put buf 0 (le_bytes 4 XATTR_MAGIC);
          buf = put buf 4 (le_bytes 4 1);
          buf = put buf 8 (le_bytes 4 1) in
      bnd (serialize_loop attrs buf HEADER_SIZE block_size) (\<lambda>buf.
      Inr (put buf 12 (le_bytes 4 (unat
        (block_hash (map (\<lambda>a. hash_entry (at_name a) (at_value a)) attrs) 0))))))"

section \<open>Reading back what was written\<close>

lemma slice_agree:
  assumes "length a = length b" "\<And>i. off \<le> i \<Longrightarrow> i < off + n \<Longrightarrow> i < length b \<Longrightarrow> a ! i = b ! i"
  shows "slice a off n = slice b off n"
  using assms by (intro nth_equalityI) (auto simp: length_slice nth_slice)

definition attr_ok :: "attr \<Rightarrow> bool" where
  "attr_ok a \<longleftrightarrow> length (at_name a) < 256 \<and> at_index a < 256"

lemma length_put_entry [buf_simps]:
  "eo + 16 + length (at_name a) \<le> length buf \<Longrightarrow> length (put_entry buf eo a vo) = length buf"
  by (simp add: put_entry_def Let_def length_put)

lemma nth_put_entry:
  assumes "eo + 16 + length (at_name a) \<le> length buf" "i < length buf" "i < eo \<or> eo + 16 + length (at_name a) \<le> i"
  shows "put_entry buf eo a vo ! i = buf ! i"
  using assms by (auto simp: put_entry_def Let_def nth_put length_put)

lemma put_entry_fields:
  assumes "eo + 16 + length (at_name a) \<le> length buf" "attr_ok a" "vo < 2 ^ 16" "length (at_value a) < 2 ^ 32"
  defines "b \<equiv> put_entry buf eo a vo"
  shows "unat (b ! eo) = length (at_name a)" "unat (b ! (eo + 1)) = at_index a" "field b (eo + 2) 2 = vo"
    "field b (eo + 4) 4 = field buf (eo + 4) 4" "field b (eo + 8) 4 = length (at_value a)"
    "slice b (eo + 16) (length (at_name a)) = at_name a"
proof -
  show "unat (b ! eo) = length (at_name a)" "unat (b ! (eo + 1)) = at_index a"
    using assms by (simp_all add: put_entry_def Let_def nth_put length_put unat_of_nat attr_ok_def)
  show "field b (eo + 2) 2 = vo" "field b (eo + 4) 4 = field buf (eo + 4) 4" "field b (eo + 8) 4 = length (at_value a)"
    "slice b (eo + 16) (length (at_name a)) = at_name a"
    using assms by (simp_all add: put_entry_def Let_def buf_simps slice_all)
qed

lemma serialize_loop_spec:
  "\<lbrakk>serialize_loop as buf eo ve = Inr buf'; eo + 4 \<le> ve; ve \<le> length buf; length buf \<le> 65536;
    \<forall>i. eo \<le> i \<and> i < ve \<longrightarrow> buf ! i = 0; list_all attr_ok as\<rbrakk>
   \<Longrightarrow> length buf' = length buf \<and> (\<forall>i. i < eo \<or> ve \<le> i \<and> i < length buf \<longrightarrow> buf' ! i = buf ! i)
     \<and> (\<forall>b. length b = length buf \<and> (\<forall>i. eo \<le> i \<and> i < length buf \<longrightarrow> b ! i = buf' ! i) \<longrightarrow>
         parse_entries b eo = Inr (takeWhile (\<lambda>a. at_name a \<noteq> []) as))"
proof (induction as arbitrary: buf eo ve)
  case Nil
  have "parse_entries b eo = Inr []" if "length b = length buf" "\<forall>i. eo \<le> i \<and> i < length buf \<longrightarrow> b ! i = buf' ! i" for b
    using Nil that by (subst parse_entries.simps) (auto simp: Let_def)
  then show ?case using Nil by simp
next
  case (Cons a as)
  define elen where "elen = entry_len (length (at_name a))"
  define vlen where "vlen = length (at_value a)"
  define vpad where "vpad = next_multiple_of vlen XATTR_PAD"
  define ve1 where "ve1 = (if vlen = 0 then ve else ve - vpad)"
  define vo where "vo = (if vlen = 0 then 0 else ve1)"
  define buf1 where "buf1 = (if vlen \<noteq> 0 then put buf vo (at_value a) else buf)"
  define buf2 where "buf2 = put_entry buf1 eo a vo"
  have vp: "vlen \<le> vpad" using next_multiple_of_ge [of 4 vlen] by (simp add: vpad_def)
  have "vlen = 0 \<or> HEADER_SIZE + vpad \<le> ve" and fit: "eo + elen + 4 \<le> ve1"
    and rec: "serialize_loop as buf2 (eo + elen) ve1 = Inr buf'"
    using Cons.prems(1) by (auto simp: Let_def elen_def vlen_def vpad_def ve1_def vo_def buf1_def buf2_def split: if_splits)
  have el: "16 + length (at_name a) \<le> elen" using entry_len_bounds(1) [of "length (at_name a)"] by (simp add: elen_def)
  have ve1: "ve1 \<le> ve" "vlen \<noteq> 0 \<Longrightarrow> vo = ve1 \<and> vo + vlen \<le> ve" "vo + vlen \<le> length buf"
    using vp \<open>vlen = 0 \<or> _\<close> Cons.prems(3) by (auto simp: ve1_def vo_def)
  have l1: "length buf1 = length buf" using ve1 by (cases "vlen = 0") (auto simp: buf1_def length_put vlen_def)
  have n1: "buf1 ! i = buf ! i" if "i < ve1 \<or> ve \<le> i" "i < length buf" for i
    using that ve1 by (auto simp: buf1_def nth_put vlen_def)
  have eb: "eo + 16 + length (at_name a) \<le> length buf1" using el fit ve1(1) Cons.prems(3) l1 by linarith
  have l2: "length buf2 = length buf" using eb l1 by (simp add: buf2_def length_put_entry)
  have n2: "buf2 ! i = buf ! i" if "i < eo \<or> eo + elen \<le> i \<and> i < ve1 \<or> ve \<le> i" "i < length buf" for i
  proof -
    have "buf2 ! i = buf1 ! i"
      unfolding buf2_def using that el fit ve1(1) eb l1 by (intro nth_put_entry) auto
    moreover have "i < ve1 \<or> ve \<le> i" using that fit by linarith
    ultimately show ?thesis using n1 [of i] that by simp
  qed
  have IH: "length buf' = length buf2" "\<forall>i. i < eo + elen \<or> ve1 \<le> i \<and> i < length buf2 \<longrightarrow> buf' ! i = buf2 ! i"
    "\<forall>b. length b = length buf2 \<and> (\<forall>i. eo + elen \<le> i \<and> i < length buf2 \<longrightarrow> b ! i = buf' ! i) \<longrightarrow>
       parse_entries b (eo + elen) = Inr (takeWhile (\<lambda>a. at_name a \<noteq> []) as)"
    using Cons.IH [OF rec fit] Cons.prems(3-6) ve1(1) l2 n2 fit by auto
  have ok: "attr_ok a" using Cons.prems(6) by simp
  have vo16: "vo < 2 ^ 16" "length (at_value a) < 2 ^ 32"
    using ve1 fit el Cons.prems(3,4) by (cases "at_value a"; auto simp: vo_def vlen_def)+
  note f = put_entry_fields [OF eb ok vo16, folded buf2_def]
  have vb: "field buf1 (eo + 4) 4 = 0"
  proof -
    have "slice buf1 (eo + 4) 4 = replicate 4 0"
      using n1 Cons.prems(3,5) fit el ve1(1) l1 by (intro nth_equalityI) (auto simp: length_slice nth_slice)
    then show ?thesis by (simp add: field_def numeral_eq_Suc)
  qed
  have val: "slice buf2 vo vlen = at_value a"
  proof (cases "vlen = 0")
    case False
    have "slice buf2 vo vlen = slice buf1 vo vlen"
      unfolding buf2_def using ve1 False fit el l1 eb
      by (intro slice_agree) (auto simp: length_put_entry intro!: nth_put_entry)
    also have "\<dots> = at_value a" using False ve1(3) by (simp add: buf1_def vlen_def slice_put_same)
    finally show ?thesis .
  qed (simp add: slice_def vlen_def)
  have "parse_entries b eo = Inr (takeWhile (\<lambda>a. at_name a \<noteq> []) (a # as))"
    if b: "length b = length buf" "\<forall>i. eo \<le> i \<and> i < length buf \<longrightarrow> b ! i = buf' ! i" for b
  proof -
    have bb: "b ! i = buf2 ! i" if "eo \<le> i" "i < eo + elen \<or> ve1 \<le> i" "i < length buf" for i
      using that b(2) IH(2) l2 by auto
    have ag: "slice b off n = slice buf2 off n" if "eo \<le> off" "off + n \<le> eo + elen \<or> ve1 \<le> off" for off n
      using that bb b(1) l2 by (intro slice_agree) auto
    have fg: "field b off n = field buf2 off n" if "eo \<le> off" "off + n \<le> eo + elen" for off n
      using ag that by (simp add: field_def)
    have val': "slice b vo vlen = at_value a"
      using val ag [of vo vlen] fit by (cases "vlen = 0") (auto simp: vo_def slice_def)
    have "eo + elen \<le> length buf" using fit ve1(1) Cons.prems(3) by linarith
    then have hd: "unat (b ! eo) = length (at_name a)" "unat (b ! (eo + 1)) = at_index a"
      using bb [of eo] bb [of "eo + 1"] f(1,2) el by auto
    have rest: "parse_entries b (eo + elen) = Inr (takeWhile (\<lambda>a. at_name a \<noteq> []) as)"
      using IH(3) b l2 by auto
    show ?thesis
    proof (cases "at_name a = []")
      case True
      then show ?thesis using hd by (subst parse_entries.simps) (simp add: Let_def)
    next
      case False
      then show ?thesis
        using hd f vb val' rest eb l1 el ve1(3) b(1)
        by (subst parse_entries.simps)
          (simp add: Let_def fg ag elen_def [symmetric] vlen_def [symmetric])
    qed
  qed
  moreover have "buf' ! i = buf ! i" if "i < eo \<or> ve \<le> i \<and> i < length buf" for i
    using IH(2) n2 [of i] that ve1(1) l2 fit Cons.prems(3) by auto
  ultimately show ?case using IH(1) l2 by auto
qed

lemma serialize_parse:
  assumes "serialize_block attrs bs = Inr buf" "36 \<le> bs" "bs \<le> 65536" "list_all attr_ok attrs"
  shows "parse_block buf = Inr (takeWhile (\<lambda>a. at_name a \<noteq> []) (sort_attrs attrs))
    \<and> length buf = bs \<and> xattr_refcount buf = 1"
proof -
  define b0 where "b0 = put (put (put (replicate bs 0) 0 (le_bytes 4 XATTR_MAGIC)) 4 (le_bytes 4 1)) 8 (le_bytes 4 1)"
  obtain b1 h where b1: "serialize_loop (sort_attrs attrs) b0 32 bs = Inr b1" "buf = put b1 12 (le_bytes 4 h)"
    using assms(1) by (auto simp: serialize_block_def Let_def b0_def run_simps)
  have l0: "length b0 = bs" using assms(2) by (simp add: b0_def length_put)
  have z: "\<forall>i. 32 \<le> i \<and> i < bs \<longrightarrow> b0 ! i = 0" using assms(2) by (auto simp: b0_def nth_put length_put)
  have ok: "list_all attr_ok (sort_attrs attrs)" using assms(4) by (simp add: list_all_iff sort_attrs_def)
  have sp: "length b1 = bs" "\<forall>i. i < 32 \<longrightarrow> b1 ! i = b0 ! i"
    "\<forall>b. length b = bs \<and> (\<forall>i. 32 \<le> i \<and> i < bs \<longrightarrow> b ! i = b1 ! i) \<longrightarrow>
       parse_entries b 32 = Inr (takeWhile (\<lambda>a. at_name a \<noteq> []) (sort_attrs attrs))"
    using serialize_loop_spec [OF b1(1) _ _ _ _ ok] assms(2,3) l0 z by auto
  have lb: "length buf = bs" using sp(1) assms(2) by (simp add: b1(2) length_put)
  have "slice buf off 4 = slice b0 off 4" if "off + 4 \<le> 12" for off
    using sp(1,2) l0 assms(2) that
    by (subst b1(2)) (auto simp: slice_put_other intro!: slice_agree)
  then have "field buf 0 4 = field b0 0 4" "field buf 4 4 = field b0 4 4" by (simp_all add: field_def)
  moreover have "field b0 0 4 = XATTR_MAGIC" "field b0 4 4 = 1"
    using assms(2) by (simp_all add: b0_def buf_simps)
  moreover have "parse_entries buf 32 = Inr (takeWhile (\<lambda>a. at_name a \<noteq> []) (sort_attrs attrs))"
    using sp(1,3) lb assms(2) by (auto simp: b1(2) nth_put)
  ultimately show ?thesis using lb assms(2) by (simp add: parse_block_def xattr_refcount_def)
qed

lemma split_full_name:
  assumes "split_name full = Some (idx, s)" "utf8_valid (str_bytes s)"
  shows "full_name idx (str_bytes s) = Some full"
  using assms
  by (auto simp: split_name_def full_name_def strip_prefix_def nonempty_def prefix_def
      split: option.splits if_splits)

lemma takeWhile_before:
  assumes "sorted (map f xs)" "x \<in> set xs" "\<not> P x" "y \<in> set (takeWhile P xs)"
  shows "f y \<le> f x"
proof -
  obtain zs where xs: "xs = takeWhile P xs @ zs" by (metis takeWhile_dropWhile_id)
  have "x \<in> set zs" using assms(2,3) xs by (metis Un_iff set_append set_takeWhileD)
  moreover have "sorted (map f (takeWhile P xs) @ map f zs)" using assms(1) xs by (metis map_append)
  ultimately show ?thesis using assms(4) by (auto simp: sorted_append)
qed

section \<open>Properties\<close>

text \<open>
  C27.  Attributes survive the block: whatever attributes with names of 1 to 255 bytes (and a
  namespace index that fits its byte) are serialised, parsing the block gives them back,
  sorted by namespace and name, in a block of the requested size with reference count one;
  and the full name of an attribute is recovered from its namespace index and suffix.  The
  bounds on the name are needed: the code checks neither, see \<open>xattr_acl_lost\<close> for empty
  names and \<open>xattr_long_name_lost\<close> for names of 256 bytes.
\<close>

theorem xattr_roundtrip:
  assumes "serialize_block attrs bs = Inr buf" "36 \<le> bs" "bs \<le> 65536"
    and "list_all (\<lambda>a. attr_ok a \<and> at_name a \<noteq> []) attrs"
    and "split_name full = Some (idx, s)" "utf8_valid (str_bytes s)"
  shows "parse_block buf = Inr (sort_attrs attrs) \<and> mset (sort_attrs attrs) = mset attrs
    \<and> length buf = bs \<and> xattr_refcount buf = 1 \<and> full_name idx (str_bytes s) = Some full"
proof -
  have "list_all attr_ok attrs" using assms(4) by (simp add: list_all_iff)
  moreover have "takeWhile (\<lambda>a. at_name a \<noteq> []) (sort_attrs attrs) = sort_attrs attrs"
    using assms(4) by (simp add: takeWhile_eq_all_conv list_all_iff sort_attrs_def)
  ultimately show ?thesis
    using serialize_parse [OF assms(1-3)] split_full_name [OF assms(5,6)] by (simp add: sort_attrs_def)
qed

definition sample_attrs :: "attr list" where
  "sample_attrs = [\<lparr>at_index = 1, at_name = [98], at_value = [1, 2, 3, 4, 5]\<rparr>, \<lparr>at_index = 1, at_name = [97], at_value = []\<rparr>]"

lemma sample_attrs_serialize: "\<exists>buf. serialize_block sample_attrs 128 = Inr buf"
  by (simp add: serialize_block_def sample_attrs_def sort_attrs_def entry_len_def next_multiple_of_def Let_def)

theorem xattr_roundtrip_witness:
  "\<exists>buf. serialize_block sample_attrs 128 = Inr buf \<and> parse_block buf = Inr (rev sample_attrs)
     \<and> full_name 1 (str_bytes ''a'') = Some ''user.a''"
proof -
  obtain buf where b: "serialize_block sample_attrs 128 = Inr buf" using sample_attrs_serialize ..
  have "split_name ''user.a'' = Some (1, ''a'')" by (simp add: split_name_def strip_prefix_def nonempty_def)
  moreover have "utf8_valid (str_bytes ''a'')" by (simp add: str_bytes_def)
  moreover have "list_all (\<lambda>a. attr_ok a \<and> at_name a \<noteq> []) sample_attrs" by (simp add: sample_attrs_def attr_ok_def)
  moreover have "sort_attrs sample_attrs = rev sample_attrs" by (simp add: sort_attrs_def sample_attrs_def)
  ultimately show ?thesis using xattr_roundtrip [OF b] b by auto
qed

text \<open>
  A POSIX access ACL cannot be read back: its suffix is empty, so its entry has name
  length zero, which the parser takes for the end of the list.  After storing it, reading
  the block returns neither the ACL nor any attribute of a later namespace (default ACL,
  trusted, security, system), which are therefore lost at the next update.
\<close>

lemma xattr_acl_lost:
  assumes "serialize_block attrs bs = Inr buf" "36 \<le> bs" "bs \<le> 65536" "list_all attr_ok attrs"
    and "split_name ''system.posix_acl_access'' = Some (at_index acl, bytes_str (at_name acl))" "acl \<in> set attrs"
  shows "\<exists>as. parse_block buf = Inr as \<and> (\<forall>a \<in> set as. at_index a < IDX_ACL_ACCESS)"
proof -
  let ?as = "takeWhile (\<lambda>a. at_name a \<noteq> []) (sort_attrs attrs)"
  have acl: "at_index acl = 2" "at_name acl = []"
    using assms(5) by (simp_all add: split_name_def strip_prefix_def bytes_str_def)
  have "at_index a < 2" if "a \<in> set ?as" for a
  proof -
    have "(at_index a, at_name a) \<le> (at_index acl, at_name acl)"
      using that acl assms(6)
      by (intro takeWhile_before [where xs = "sort_attrs attrs" and P = "\<lambda>a. at_name a \<noteq> []"])
        (auto simp: sort_attrs_def)
    moreover have "at_name a \<noteq> []" using that by (auto dest: set_takeWhileD)
    ultimately show ?thesis using acl by (auto simp: less_eq_prod_def)
  qed
  then show ?thesis using serialize_parse [OF assms(1-4)] by (intro exI [of _ ?as]) simp
qed

definition acl_attrs :: "attr list" where
  "acl_attrs = [\<lparr>at_index = 1, at_name = [97], at_value = [7]\<rparr>, \<lparr>at_index = 2, at_name = [], at_value = [9]\<rparr>]"

lemma xattr_acl_lost_witness:
  "\<exists>buf as. serialize_block acl_attrs 128 = Inr buf \<and> parse_block buf = Inr as \<and> (\<forall>a \<in> set as. at_index a < 2)"
proof -
  obtain buf where b: "serialize_block acl_attrs 128 = Inr buf"
    by (simp add: serialize_block_def acl_attrs_def sort_attrs_def entry_len_def next_multiple_of_def Let_def)
  have "split_name ''system.posix_acl_access'' = Some (2, bytes_str [])"
    by (simp add: split_name_def strip_prefix_def bytes_str_def)
  then show ?thesis
    using xattr_acl_lost [OF b, of "\<lparr>at_index = 2, at_name = [], at_value = [9]\<rparr>"] b by (auto simp: acl_attrs_def attr_ok_def)
qed

text \<open>
  Neither \<^verbatim>\<open>setxattr\<close> nor \<^verbatim>\<open>serialize_block\<close> bounds the length of a name, and its length byte is
  \<^verbatim>\<open>name_len as u8\<close>: a name of 256 bytes is stored with length zero, so the block reads back
  empty.
\<close>

lemma xattr_long_name_lost:
  assumes "serialize_block [a] bs = Inr buf" "length (at_name a) = 256"
  shows "parse_block buf = Inr []"
proof -
  define b0 where "b0 = put (put (put (replicate bs 0) 0 (le_bytes 4 XATTR_MAGIC)) 4 (le_bytes 4 1)) 8 (le_bytes 4 1)"
  define vlen where "vlen = length (at_value a)"
  define vpad where "vpad = next_multiple_of vlen XATTR_PAD"
  define ve where "ve = (if vlen = 0 then bs else bs - vpad)"
  define vo where "vo = (if vlen = 0 then 0 else ve)"
  define b1 where "b1 = (if vlen \<noteq> 0 then put b0 vo (at_value a) else b0)"
  obtain h where fit: "vlen = 0 \<or> 32 + vpad \<le> bs" "32 + entry_len 256 + 4 \<le> ve"
    and buf: "buf = put (put_entry b1 32 a vo) 12 (le_bytes 4 h)"
    using assms by (auto simp: serialize_block_def sort_attrs_def Let_def b0_def vlen_def vpad_def ve_def vo_def
        b1_def run_simps split: if_splits)
  have vp: "vlen \<le> vpad" using next_multiple_of_ge [of 4 vlen] by (simp add: vpad_def)
  have bs: "308 \<le> ve" "ve \<le> bs" using fit(2) by (simp_all add: ve_def entry_len_def next_multiple_of_def split: if_splits)
  have l0: "length b0 = bs" using bs by (simp add: b0_def length_put)
  have l1: "length b1 = bs" using fit(1) vp bs l0 by (auto simp: b1_def vo_def ve_def length_put vlen_def)
  have n1: "b1 ! i = b0 ! i" if "i < 4" for i
    using that fit(1) vp bs l0 by (auto simp: b1_def vo_def ve_def vlen_def nth_put)
  have lb: "length buf = bs" using l1 bs assms(2) by (simp add: buf length_put length_put_entry)
  have "slice buf 0 4 = slice b0 0 4"
    using l0 l1 n1 lb bs assms(2)
    by (intro slice_agree) (auto simp: buf nth_put length_put_entry nth_put_entry)
  then have "field buf 0 4 = field b0 0 4" by (simp add: field_def)
  moreover have "field b0 0 4 = XATTR_MAGIC" using bs by (simp add: b0_def buf_simps)
  moreover have "unat (buf ! 32) = 0"
    using l1 bs assms(2) by (simp add: buf nth_put length_put_entry put_entry_def Let_def length_put)
  then have "parse_entries buf 32 = Inr []" by (subst parse_entries.simps) simp
  ultimately show ?thesis using lb bs by (simp add: parse_block_def)
qed

lemma xattr_long_name_lost_witness:
  "\<exists>buf. serialize_block [\<lparr>at_index = 1, at_name = replicate 256 97, at_value = [7]\<rparr>] 1024 = Inr buf
     \<and> parse_block buf = Inr []"
proof -
  obtain buf where b: "serialize_block [\<lparr>at_index = 1, at_name = replicate 256 97, at_value = [7]\<rparr>] 1024 = Inr buf"
    by (simp add: serialize_block_def sort_attrs_def entry_len_def next_multiple_of_def Let_def)
  then show ?thesis using xattr_long_name_lost [OF b] by simp
qed

end
