(* ===== verification/Kor_Ext2_Ops.thy ===== *)
theory Kor_Ext2_Ops
  imports Kor_Ext2_Inode Kor_Ext2_Dir Kor_Ext2_Xattr
begin

text \<open>
  The name space of ext2: the directory functions of \<^verbatim>\<open>filesystems/kor-ext2/src/dir.rs\<close> on an
  inode, and the \<^verbatim>\<open>INode\<close> implementation of \<^verbatim>\<open>inode.rs\<close>.  The metadata transaction lock is
  free when an operation starts and is not taken again inside one, so it is not part of the
  state.  Where the code takes a reference to another inode, \<open>Elsewhere\<close> is one that is not an
  ext2 inode of this instance.
\<close>

unbundle bit_operations_syntax

section \<open>Directories of the instance\<close>

definition dir_iterator_new :: "nat \<Rightarrow> ('d ext2, bytes) act" where
  "dir_iterator_new oid =
     thn (get_raw oid) (\<lambda>raw.
     thn (guard ((i_mode raw AND 0xF000) = 0x4000) NotDirectory) (\<lambda>_.
     if i_size raw > 0 then read_into_zeros oid (i_size raw) else ret []))"

definition ino_lookup :: "nat \<Rightarrow> string \<Rightarrow> ('d ext2, nat) act" where
  "ino_lookup oid name = thn (dir_iterator_new oid) (\<lambda>data. lift (dir_lookup data name))"

definition ino_list :: "nat \<Rightarrow> ('d ext2, (string \<times> nat) list) act" where
  "ino_list oid = thn (dir_iterator_new oid) (\<lambda>data. ret (dir_list data))"

definition add_dir_entry :: "nat \<Rightarrow> string \<Rightarrow> nat \<Rightarrow> nat \<Rightarrow> ('d ext2, unit) act" where
  "add_dir_entry oid name child_inode file_type =
     (let name_bytes = str_bytes name; name_len = length name_bytes in
      thn (guard (\<not> (name_len = 0 \<or> name_len > 255)) InvalidInput) (\<lambda>_.
      thn (demote_from_htree oid) (\<lambda>_.
      thn x_has_filetype (\<lambda>has_filetype.
      let file_type = (if has_filetype then file_type else 0) in
      thn (gets x_block_size) (\<lambda>block_size.
      thn (get_raw oid) (\<lambda>raw.
      thn (if i_size raw > 0 then read_into_zeros oid (i_size raw) else ret []) (\<lambda>data.
      thn (lift (add_plan block_size data name_bytes child_inode file_type)) (\<lambda>(block_start, blk).
      thn (write_at_locked oid block_start blk) (\<lambda>_. ret ())))))))))"

definition remove_dir_entry :: "nat \<Rightarrow> string \<Rightarrow> ('d ext2, unit) act" where
  "remove_dir_entry oid name =
     thn (demote_from_htree oid) (\<lambda>_.
     thn (gets x_block_size) (\<lambda>block_size.
     thn (get_raw oid) (\<lambda>raw.
     if i_size raw = 0 then fail NotFound
     else
       thn (read_into_zeros oid (i_size raw)) (\<lambda>data.
       thn (lift (remove_plan block_size data (str_bytes name))) (\<lambda>(block_start, blk).
       thn (write_at_locked oid block_start blk) (\<lambda>_. ret ()))))))"

definition not_empty :: "(string \<times> nat) list \<Rightarrow> bool" where
  "not_empty entries \<longleftrightarrow> list_ex (\<lambda>(n, _). n \<noteq> ''.'' \<and> n \<noteq> ''..'') entries"

section \<open>Ancestors\<close>

text \<open>
  The range of the \<^verbatim>\<open>for\<close> loop is computed from a lock guard on the superblock, a temporary
  that lives until the loop ends: the superblock stays locked during every round.
\<close>

definition with_sb_held :: "('d ext2, 'a) act \<Rightarrow> ('d ext2, 'a) act" where
  "with_sb_held m s = finally_do m (x_sb_held_update (\<lambda>_. False)) (s\<lparr>x_sb_held := True\<rparr>)"

primrec ancestor_loop :: "nat \<Rightarrow> nat \<Rightarrow> nat \<Rightarrow> ('d ext2, bool) act" where
  "ancestor_loop 0 ancestor_ino cur = ret True"
| "ancestor_loop (Suc n) ancestor_ino cur =
     (if cur = ancestor_ino then ret True
      else if cur = EXT2_ROOT_INO then ret False
      else thn (with_inode cur (\<lambda>dir. ino_lookup dir ''..'')) (\<lambda>parent.
           if parent = cur then ret False else ancestor_loop n ancestor_ino parent))"

definition dir_is_ancestor_or_self :: "nat \<Rightarrow> nat \<Rightarrow> ('d ext2, bool) act" where
  "dir_is_ancestor_or_self ancestor_ino start_ino =
     thn get_sb (\<lambda>sb. with_sb_held (ancestor_loop (es_inodes_count sb + 1) ancestor_ino start_ino))"

section \<open>Creating\<close>

definition exists_name :: "nat \<Rightarrow> string \<Rightarrow> ('d ext2, unit) act" where
  "exists_name oid name =
     thn (attempt (ino_lookup oid name)) (\<lambda>r. case r of Inr _ \<Rightarrow> fail AlreadyExists | Inl _ \<Rightarrow> ret ())"

definition new_inode :: "nat \<Rightarrow> ('d ext2, nat) act" where
  "new_inode ext2_mode =
     thn alloc_inode (\<lambda>num. thn (or_undo (init_inode num ext2_mode) (free_inode num)) (\<lambda>_. ret num))"

definition create_child :: "nat \<Rightarrow> string \<Rightarrow> file_type \<Rightarrow> nat \<Rightarrow> nat \<Rightarrow> ('d ext2, nat) act" where
  "create_child oid name file_type mode rdev s =
     (let n = length (x_objs s) in
      thn (exists_name oid name) (\<lambda>_.
      thn (new_inode (file_type_to_mode file_type mode)) (\<lambda>new_inode_num.
      thn (add_dir_entry oid name new_inode_num (file_type_to_dir_byte file_type)) (\<lambda>_.
      keep_inode n (get_inode new_inode_num) (\<lambda>new_oid.
      if file_type = BlockDevice \<or> file_type = CharDevice then
        let (b0, b1) = encode_dev rdev in
        thn (upd_raw new_oid (\<lambda>raw. raw\<lparr>i_block := (i_block raw)[0 := b0, 1 := b1]\<rparr>)) (\<lambda>_.
        write_inode_to_disk new_oid)
      else ret ())))) s)"

definition ext2_create :: "nat \<Rightarrow> string \<Rightarrow> file_type \<Rightarrow> nat \<Rightarrow> ('d ext2, nat) act" where
  "ext2_create oid name file_type mode =
     (if file_type = Directory then fail InvalidInput else create_child oid name file_type mode 0)"

definition ext2_mknod :: "nat \<Rightarrow> string \<Rightarrow> file_type \<Rightarrow> nat \<Rightarrow> nat \<Rightarrow> ('d ext2, nat) act" where
  "ext2_mknod oid name file_type mode rdev =
     (if file_type \<in> {BlockDevice, CharDevice, Fifo, Socket} then create_child oid name file_type mode rdev
      else fail InvalidInput)"

definition ext2_symlink :: "nat \<Rightarrow> string \<Rightarrow> string \<Rightarrow> ('d ext2, nat) act" where
  "ext2_symlink oid name target s =
     keep_inode (length (x_objs s)) (create_child oid name Symlink 0x1FF 0)
       (\<lambda>node. write_symlink_target node target) s"

definition set_links :: "nat \<Rightarrow> (nat \<Rightarrow> nat) \<Rightarrow> ('d ext2, unit) act" where
  "set_links oid f = upd_raw oid (\<lambda>raw. raw\<lparr>i_links_count := f (i_links_count raw)\<rparr>)"

definition u16_sat_add :: "nat \<Rightarrow> nat \<Rightarrow> nat" where
  "u16_sat_add a b = min (a + b) (2 ^ 16 - 1)"

definition ext2_mkdir :: "nat \<Rightarrow> string \<Rightarrow> nat \<Rightarrow> ('d ext2, nat) act" where
  "ext2_mkdir oid name mode s =
     (let n = length (x_objs s); self_num = num_of s oid in
      thn (exists_name oid name) (\<lambda>_.
      thn (new_inode (EXT2_S_IFDIR OR (mode mod 2 ^ 16 AND 0x0FFF))) (\<lambda>new_inode_num.
      thn (or_undo (add_dir_entry oid name new_inode_num TYPE_DIRECTORY) (free_inode new_inode_num)) (\<lambda>_.
      keep_inode n (get_inode new_inode_num) (\<lambda>new_oid.
      thn (add_dir_entry new_oid ''.'' new_inode_num TYPE_DIRECTORY) (\<lambda>_.
      thn (add_dir_entry new_oid ''..'' self_num TYPE_DIRECTORY) (\<lambda>_.
      thn (set_links new_oid (\<lambda>_. 2)) (\<lambda>_.
      thn (write_inode_to_disk new_oid) (\<lambda>_.
      thn (set_links oid (\<lambda>l. u16_add l 1)) (\<lambda>_.
      thn (write_inode_to_disk oid) (\<lambda>_.
      adjust_used_dirs new_inode_num 1)))))))))) s)"

section \<open>Removing\<close>

definition unlink_locked :: "nat \<Rightarrow> string \<Rightarrow> ('d ext2, unit) act" where
  "unlink_locked oid name =
     thn (ino_lookup oid name) (\<lambda>child_inode_num.
     with_inode child_inode_num (\<lambda>child.
     thn (get_raw child) (\<lambda>raw.
     thn (guard (\<not> has_type raw EXT2_S_IFDIR) IsDirectory) (\<lambda>_.
     thn (remove_dir_entry oid name) (\<lambda>_.
     thn (set_links child (\<lambda>l. l - 1)) (\<lambda>_.
     thn (get_raw child) (\<lambda>raw.
     if i_links_count raw = 0 then
       thn (if \<not> has_type raw EXT2_S_IFLNK \<or> i_blocks raw \<noteq> 0 then free_all_blocks child else ret ()) (\<lambda>_.
       thn (release_xattr_block child) (\<lambda>_.
       thn (upd_raw child (\<lambda>raw. raw\<lparr>i_dtime := 0\<rparr>)) (\<lambda>_.
       thn (write_inode_to_disk child) (\<lambda>_.
       free_inode child_inode_num))))
     else write_inode_to_disk child)))))))"

definition rmdir_locked :: "nat \<Rightarrow> string \<Rightarrow> ('d ext2, unit) act" where
  "rmdir_locked oid name =
     thn (guard (\<not> (name = ''.'' \<or> name = ''..'')) InvalidInput) (\<lambda>_.
     thn (ino_lookup oid name) (\<lambda>child_inode_num.
     with_inode child_inode_num (\<lambda>child.
     thn (get_raw child) (\<lambda>raw.
     thn (guard (has_type raw EXT2_S_IFDIR) NotDirectory) (\<lambda>_.
     thn (ino_list child) (\<lambda>entries.
     thn (guard (\<not> not_empty entries) NotEmpty) (\<lambda>_.
     thn (remove_dir_entry oid name) (\<lambda>_.
     thn (set_links oid (\<lambda>l. l - 1)) (\<lambda>_.
     thn (write_inode_to_disk oid) (\<lambda>_.
     thn (free_all_blocks child) (\<lambda>_.
     thn (release_xattr_block child) (\<lambda>_.
     thn (upd_raw child (\<lambda>raw. raw\<lparr>i_links_count := 0, i_dtime := 0\<rparr>)) (\<lambda>_.
     thn (write_inode_to_disk child) (\<lambda>_.
     thn (adjust_used_dirs child_inode_num (- 1)) (\<lambda>_.
     free_inode child_inode_num)))))))))))))))"

section \<open>Linking and renaming\<close>

datatype target = Here nat | Elsewhere

definition here :: "target \<Rightarrow> ('d ext2, nat) act" where
  "here t = (case t of Here oid \<Rightarrow> ret oid | Elsewhere \<Rightarrow> fail CrossDevice)"

definition ext2_link :: "nat \<Rightarrow> string \<Rightarrow> target \<Rightarrow> ('d ext2, unit) act" where
  "ext2_link oid name target =
     thn (exists_name oid name) (\<lambda>_.
     thn (here target) (\<lambda>tgt.
     thn (get_raw tgt) (\<lambda>raw.
     thn (guard (\<not> has_type raw EXT2_S_IFDIR) IsDirectory) (\<lambda>_.
     thn (gets (\<lambda>s. num_of s tgt)) (\<lambda>target_ino.
     thn (add_dir_entry oid name target_ino (dir_byte_for_mode (i_mode raw))) (\<lambda>_.
     thn (set_links tgt (\<lambda>l. u16_sat_add l 1)) (\<lambda>_.
     write_inode_to_disk tgt)))))))"

text \<open>Removal of an existing destination; \<open>True\<close> when it is the renamed inode itself.\<close>

definition clear_destination :: "nat \<Rightarrow> string \<Rightarrow> nat \<Rightarrow> ('d ext2, bool) act" where
  "clear_destination new_dir new_name child_ino =
     thn (attempt (ino_lookup new_dir new_name)) (\<lambda>r. case r of
       Inl _ \<Rightarrow> ret False
     | Inr existing_ino \<Rightarrow>
         if existing_ino = child_ino then ret True
         else with_inode existing_ino (\<lambda>existing.
              thn (get_raw existing) (\<lambda>raw.
              if has_type raw EXT2_S_IFDIR then
                thn (ino_list existing) (\<lambda>entries.
                thn (guard (\<not> not_empty entries) NotEmpty) (\<lambda>_.
                thn (rmdir_locked new_dir new_name) (\<lambda>_. ret False)))
              else thn (unlink_locked new_dir new_name) (\<lambda>_. ret False))))"

definition reparent :: "nat \<Rightarrow> nat \<Rightarrow> nat \<Rightarrow> ('d ext2, unit) act" where
  "reparent oid new_dir child =
     thn (gets (\<lambda>s. (num_of s oid, num_of s new_dir))) (\<lambda>(self_num, new_num).
     thn (remove_dir_entry child ''..'') (\<lambda>_.
     thn (add_dir_entry child ''..'' new_num TYPE_DIRECTORY) (\<lambda>_.
     thn (set_links oid (\<lambda>l. l - 1)) (\<lambda>_.
     thn (write_inode_to_disk oid) (\<lambda>_.
     thn (set_links new_dir (\<lambda>l. u16_sat_add l 1)) (\<lambda>_.
     thn (write_inode_to_disk new_dir) (\<lambda>_.
     thn (adjust_used_dirs self_num (- 1)) (\<lambda>_.
     adjust_used_dirs new_num 1))))))))"

definition ext2_rename :: "nat \<Rightarrow> string \<Rightarrow> target \<Rightarrow> string \<Rightarrow> ('d ext2, unit) act" where
  "ext2_rename oid old_name new_parent new_name =
     thn (here new_parent) (\<lambda>new_dir.
     thn (ino_lookup oid old_name) (\<lambda>child_ino.
     with_inode child_ino (\<lambda>child.
     thn (get_raw child) (\<lambda>raw.
     thn (gets (\<lambda>s. num_of s new_dir)) (\<lambda>new_num.
     let dir_ft = dir_byte_for_mode (i_mode raw); child_is_dir = has_type raw EXT2_S_IFDIR in
     thn (if child_is_dir then dir_is_ancestor_or_self child_ino new_num else ret False) (\<lambda>cyclic.
     thn (guard (\<not> cyclic) InvalidInput) (\<lambda>_.
     thn (clear_destination new_dir new_name child_ino) (\<lambda>same.
     if same then ret ()
     else
       thn (add_dir_entry new_dir new_name child_ino dir_ft) (\<lambda>_.
       thn (remove_dir_entry oid old_name) (\<lambda>_.
       if child_is_dir \<and> oid \<noteq> new_dir then reparent oid new_dir child else ret ()))))))))))"

section \<open>Attributes\<close>

definition ext2_getattr :: "nat \<Rightarrow> ('d ext2, metadata) act" where
  "ext2_getattr oid =
     thn (ino_size oid) (\<lambda>n. thn (get_raw oid) (\<lambda>raw.
     ret \<lparr>md_size = n, md_mode = word_of_nat (i_mode raw), md_uid = word_of_nat (i_uid raw),
          md_gid = word_of_nat (i_gid raw), md_atime = word_of_nat (i_atime raw),
          md_mtime = word_of_nat (i_mtime raw), md_ctime = word_of_nat (i_ctime raw),
          md_file_type = mode_to_file_type (i_mode raw)\<rparr>))"

definition ext2_setattr :: "nat \<Rightarrow> metadata \<Rightarrow> ('d ext2, unit) act" where
  "ext2_setattr oid md =
     thn (gets x_block_size) (\<lambda>block_size.
     thn (upd_raw oid (\<lambda>raw.
       let raw = raw\<lparr>i_mode := unat (md_mode md) mod 2 ^ 16, i_uid := unat (md_uid md) mod 2 ^ 16,
             i_gid := unat (md_gid md) mod 2 ^ 16, i_atime := unat (md_atime md) mod 2 ^ 32,
             i_mtime := unat (md_mtime md) mod 2 ^ 32, i_ctime := unat (md_ctime md) mod 2 ^ 32\<rparr> in
       if has_type raw EXT2_S_IFREG then
         raw\<lparr>i_size := md_size md mod 2 ^ 32,
             i_blocks := usize_mul (div_ceil (md_size md) block_size) (block_size div 512) mod 2 ^ 32\<rparr>
       else raw)) (\<lambda>_.
     write_inode_to_disk oid))"

definition ext2_truncate :: "nat \<Rightarrow> usize \<Rightarrow> ('d ext2, unit) act" where
  "ext2_truncate oid n =
     thn (get_raw oid) (\<lambda>raw.
     thn (guard (has_type raw EXT2_S_IFREG) InvalidInput) (\<lambda>_.
     truncate_to oid n))"

definition ext2_lookup :: "nat \<Rightarrow> string \<Rightarrow> ('d ext2, nat) act" where
  "ext2_lookup oid name = thn (ino_lookup oid name) get_inode"

section \<open>Extended attributes\<close>

definition decrement_xattr_refcount :: "nat \<Rightarrow> ('d ext2, unit) act" where
  "decrement_xattr_refcount block =
     thn (read_fs_block block) (\<lambda>buf.
     write_fs_block block (set_refcount buf (xattr_refcount buf - 1)))"

definition store_xattr_block :: "nat \<Rightarrow> nat \<Rightarrow> bool \<Rightarrow> bytes \<Rightarrow> ('d ext2, unit) act" where
  "store_xattr_block oid acl shared new_buf =
     (if acl = 0 then
        thn (ino_group oid) (\<lambda>g. thn (alloc_block_goal g) (\<lambda>block.
        thn (write_fs_block block new_buf) (\<lambda>_.
        thn (gets sectors_per_block) (\<lambda>sectors.
        upd_raw oid (\<lambda>raw. raw\<lparr>i_file_acl := block, i_blocks := u32_sat_add (i_blocks raw) sectors\<rparr>)))))
      else if shared then
        thn (ino_group oid) (\<lambda>g. thn (alloc_block_goal g) (\<lambda>block.
        thn (write_fs_block block new_buf) (\<lambda>_.
        thn (decrement_xattr_refcount acl) (\<lambda>_.
        set_file_acl oid block))))
      else write_fs_block acl new_buf)"

definition is_attr :: "nat \<Rightarrow> string \<Rightarrow> attr \<Rightarrow> bool" where
  "is_attr index sfx a \<longleftrightarrow> at_index a = index \<and> at_name a = str_bytes sfx"

definition ext2_getxattr :: "nat \<Rightarrow> string \<Rightarrow> ('d ext2, bytes) act" where
  "ext2_getxattr oid name =
     thn (lift (ok_or (split_name name) (FsErr InvalidInput))) (\<lambda>(index, sfx).
     thn (get_raw oid) (\<lambda>raw.
     let acl = i_file_acl raw in
     thn (guard (acl \<noteq> 0) NotFound) (\<lambda>_.
     thn (read_fs_block acl) (\<lambda>buf.
     thn (lift (parse_block buf)) (\<lambda>attrs.
     case find (is_attr index sfx) attrs of
       Some a \<Rightarrow> ret (at_value a) | None \<Rightarrow> fail NotFound)))))"

definition ext2_listxattr :: "nat \<Rightarrow> ('d ext2, string list) act" where
  "ext2_listxattr oid =
     thn (get_raw oid) (\<lambda>raw.
     let acl = i_file_acl raw in
     if acl = 0 then ret []
     else
       thn (read_fs_block acl) (\<lambda>buf.
       thn (lift (parse_block buf)) (\<lambda>attrs.
       ret (List.map_filter (\<lambda>a. full_name (at_index a) (at_name a)) attrs))))"

definition ext2_setxattr :: "nat \<Rightarrow> string \<Rightarrow> bytes \<Rightarrow> ('d ext2, unit) act" where
  "ext2_setxattr oid name val =
     thn (lift (ok_or (split_name name) (FsErr InvalidInput))) (\<lambda>(index, sfx).
     thn (gets x_block_size) (\<lambda>block_size.
     thn (get_raw oid) (\<lambda>raw.
     let acl = i_file_acl raw in
     thn (if acl \<noteq> 0 then
            thn (read_fs_block acl) (\<lambda>buf.
            thn (lift (parse_block buf)) (\<lambda>attrs. ret (attrs, xattr_refcount buf > 1)))
          else ret ([], False)) (\<lambda>(attrs, shared).
     let attrs = filter (\<lambda>a. \<not> is_attr index sfx a) attrs
                   @ [\<lparr>at_index = index, at_name = str_bytes sfx, at_value = val\<rparr>] in
     thn (lift (serialize_block attrs block_size)) (\<lambda>new_buf.
     thn (store_xattr_block oid acl shared new_buf) (\<lambda>_.
     write_inode_to_disk oid))))))"

definition ext2_removexattr :: "nat \<Rightarrow> string \<Rightarrow> ('d ext2, unit) act" where
  "ext2_removexattr oid name =
     thn (lift (ok_or (split_name name) (FsErr InvalidInput))) (\<lambda>(index, sfx).
     thn (gets x_block_size) (\<lambda>block_size.
     thn (get_raw oid) (\<lambda>raw.
     let acl = i_file_acl raw in
     thn (guard (acl \<noteq> 0) NotFound) (\<lambda>_.
     thn (read_fs_block acl) (\<lambda>buf.
     let shared = xattr_refcount buf > 1 in
     thn (lift (parse_block buf)) (\<lambda>attrs.
     let left = filter (\<lambda>a. \<not> is_attr index sfx a) attrs in
     thn (guard (length left \<noteq> length attrs) NotFound) (\<lambda>_.
     thn (if left = [] then
            thn (if shared then decrement_xattr_refcount acl else free_block acl) (\<lambda>_.
            thn (gets sectors_per_block) (\<lambda>sectors.
            upd_raw oid (\<lambda>raw. raw\<lparr>i_file_acl := 0, i_blocks := i_blocks raw - sectors\<rparr>)))
          else
            thn (lift (serialize_block left block_size)) (\<lambda>new_buf.
            store_xattr_block oid acl shared new_buf)) (\<lambda>_.
     write_inode_to_disk oid))))))))"

end
