(* ===== verification/Kor_Ext2_View.thy ===== *)
theory Kor_Ext2_View
  imports Kor_Ext2_Fs
begin

text \<open>
  What the layers above see of an ext2 instance: an array of file system blocks.  \<open>fsv\<close> reads
  a block through the cache, \<open>x_inv\<close> is the invariant of the block layer, \<open>x_frame\<close> says that
  only the cache changed.  The laws of single-block and multi-block transfers hold on a device
  that may fail at any moment; they are stated once as the interface \<open>fs_blocks\<close>, whose
  clients modify blocks in place.
\<close>

section \<open>View and invariant\<close>

definition fsv :: "('d \<Rightarrow> usize \<Rightarrow> bytes) \<Rightarrow> 'd ext2 \<Rightarrow> usize \<Rightarrow> bytes" where
  "fsv content s b = concat (map (\<lambda>i. cache_view content (x_cache s) (b * x_per s + i)) [0..<x_per s])"

definition x_inv :: "('d \<Rightarrow> usize \<Rightarrow> bytes) \<Rightarrow> ('d \<Rightarrow> usize \<Rightarrow> bytes) \<Rightarrow> 'd ext2 \<Rightarrow> bool" where
  "x_inv content durable s \<longleftrightarrow> cache_inv content durable (x_cache s)
     \<and> x_block_size s = x_per s * x_dev_bs s \<and> 1024 \<le> x_block_size s \<and> x_block_size s \<le> 65536"

definition x_frame :: "'d ext2 \<Rightarrow> 'd ext2 \<Rightarrow> bool" where
  "x_frame s t \<longleftrightarrow> t = s\<lparr>x_cache := x_cache t\<rparr> \<and> bc_device (x_cache t) = bc_device (x_cache s)"

text \<open>Block numbers are 32-bit values or sums of two of them.\<close>

definition BLOCK_LIM :: nat where "BLOCK_LIM = 2 ^ 40"

lemma x_frame_refl [simp]: "x_frame s s"
  by (simp add: x_frame_def)

lemma x_frame_trans: "\<lbrakk>x_frame s t; x_frame t u\<rbrakk> \<Longrightarrow> x_frame s u"
  by (cases s, cases t, cases u) (simp add: x_frame_def)

lemma x_frame_cache: "bc_device c = bc_device (x_cache s) \<Longrightarrow> x_frame s (s\<lparr>x_cache := c\<rparr>)"
  by (simp add: x_frame_def)

lemma x_frameD:
  assumes "x_frame s t"
  shows "x_sb t = x_sb s" "x_groups t = x_groups s" "x_block_size t = x_block_size s" "x_read_only t = x_read_only s"
    "x_sb_held t = x_sb_held s" "x_objs t = x_objs s" "x_icache t = x_icache s" "x_per t = x_per s" "x_dev_bs t = x_dev_bs s"
proof -
  have t: "t = s\<lparr>x_cache := x_cache t\<rparr>" "bc_device (x_cache t) = bc_device (x_cache s)"
    using assms by (simp_all add: x_frame_def)
  show "x_sb t = x_sb s" "x_groups t = x_groups s" "x_block_size t = x_block_size s" "x_read_only t = x_read_only s"
    "x_sb_held t = x_sb_held s" "x_objs t = x_objs s" "x_icache t = x_icache s"
    by (subst t(1), simp)+
  then show "x_per t = x_per s" "x_dev_bs t = x_dev_bs s" using t(2) by (simp_all add: x_per_def x_dev_bs_def)
qed

lemma x_invD:
  assumes "x_inv content durable s"
  shows "0 < x_per s" "0 < x_dev_bs s" "x_per s \<le> 65536" "x_block_size s = x_per s * x_dev_bs s"
proof -
  have "0 < x_dev_bs s" using assms by (auto simp: x_inv_def cache_inv_def x_dev_bs_def dest: device_okD(1))
  moreover have b: "1024 \<le> x_per s * x_dev_bs s" "x_per s * x_dev_bs s \<le> 65536" using assms by (simp_all add: x_inv_def)
  moreover have "x_per s * 1 \<le> x_per s * x_dev_bs s" using \<open>0 < x_dev_bs s\<close> by (intro mult_le_mono) simp_all
  ultimately show "0 < x_per s" "0 < x_dev_bs s" "x_per s \<le> 65536" by (linarith | (auto intro: gr0I; fail))+
  show "x_block_size s = x_per s * x_dev_bs s" using assms by (simp add: x_inv_def)
qed

lemma x_inv_frame:
  assumes "x_inv content durable s" "x_frame s t" "cache_inv content durable (x_cache t)"
  shows "x_inv content durable t"
  using assms x_frameD [OF assms(2)] by (simp add: x_inv_def)

lemma thn_get_sb: "\<not> x_sb_held s \<Longrightarrow> thn get_sb f s = f (x_sb s) s"
  by (simp add: thn_def get_sb_def ret_def)

section \<open>Device blocks of a file system block\<close>

lemma dev_block:
  assumes "x_inv content durable s" "b < BLOCK_LIM" "i \<le> n * x_per s" "n < BLOCK_LIM"
  shows "usize_mul b (x_per s) = b * x_per s" "usize_add (usize_mul b (x_per s)) i = b * x_per s + i"
proof -
  note p = x_invD(1,3) [OF assms(1)]
  have "b * x_per s \<le> 2 ^ 40 * 65536" using assms(2) p(2) unfolding BLOCK_LIM_def by (intro mult_le_mono) simp_all
  moreover have "n * x_per s \<le> 2 ^ 40 * 65536" using assms(4) p(2) unfolding BLOCK_LIM_def by (intro mult_le_mono) simp_all
  ultimately have "b * x_per s + i < USIZE_LIM" using assms(3) by (simp add: USIZE_LIM_def)
  then show "usize_mul b (x_per s) = b * x_per s" "usize_add (usize_mul b (x_per s)) i = b * x_per s + i"
    by (simp_all add: usize_simps)
qed

lemma concat_slices: "concat (map (\<lambda>i. slice buf (i * k) k) [0..<n]) = take (n * k) buf"
proof (induction n)
  case (Suc n)
  have "take (n * k) buf @ slice buf (n * k) k = take (n * k + k) buf" by (simp add: slice_def take_add)
  then show ?case using Suc by (simp add: add.commute)
qed simp

lemma blocks_disjoint: "\<lbrakk>b * n + i = c * n + j; i < n; j < n\<rbrakk> \<Longrightarrow> b = (c :: nat)"
  by (metis add.commute div_mult_self3 div_less gr_zeroI less_nat_zero_code add.right_neutral)

section \<open>Single blocks\<close>

lemma wp_cached_io:
  "wp (cached_io f) Q s \<longleftrightarrow> Q (io_err (fst (f (x_cache s)))) (s\<lparr>x_cache := snd (f (x_cache s))\<rparr>)"
  by (simp add: wp_def cached_io_def split: prod.split)

lemma io_err_simps [simp]: "io_err (Inr x) = Inr x" "io_err (Inl e) = Inl (FsErr IoError)"
  by (simp_all add: io_err_def)

lemma io_err_iff: "io_err r = Inr x \<longleftrightarrow> r = Inr x" "io_err r = Inl e \<longleftrightarrow> (\<exists>d. r = Inl d) \<and> e = FsErr IoError"
  by (cases r; auto)+

text \<open>An operation may fail with an input/output error, but only on a device that can fail.\<close>

definition reliable :: "'d ext2 \<Rightarrow> bool" where
  "reliable s \<longleftrightarrow> never_fails (bc_device (x_cache s))"

definition io_fault :: "'d ext2 \<Rightarrow> crash \<Rightarrow> bool" where
  "io_fault s e \<longleftrightarrow> e = FsErr IoError \<and> \<not> reliable s"

lemma io_fault_frame: "x_frame s t \<Longrightarrow> io_fault t = io_fault s" "x_frame s t \<Longrightarrow> reliable t = reliable s"
  by (simp_all add: io_fault_def fun_eq_iff reliable_def x_frame_def)

definition unchanged :: "('d \<Rightarrow> usize \<Rightarrow> bytes) \<Rightarrow> ('d \<Rightarrow> usize \<Rightarrow> bytes) \<Rightarrow> 'd ext2 \<Rightarrow> 'd ext2 \<Rightarrow> bool" where
  "unchanged content durable s t \<longleftrightarrow> x_frame s t \<and> cache_inv content durable (x_cache t)
     \<and> cache_view content (x_cache t) = cache_view content (x_cache s)"

lemma read_parts_law:
  assumes "cache_inv content durable (x_cache s)" "x_dev_bs s = n"
  shows "wp (read_parts st n is) (\<lambda>r t. unchanged content durable s t
    \<and> (case r of Inr buf \<Rightarrow> buf = concat (map (\<lambda>i. cache_view content (x_cache s) (usize_add st i)) is)
                   \<and> length buf = length is * n
       | Inl e \<Rightarrow> io_fault s e)) s"
  using assms
proof (induction "is" arbitrary: s)
  case Nil
  then show ?case by (simp add: wp_simps unchanged_def)
next
  case (Cons i "is")
  obtain r c where rc: "read_block_cached (x_cache s) (usize_add st i) n = (r, c)" by force
  note law = read_cached_law [OF Cons.prems(1) rc]
  let ?t = "s\<lparr>x_cache := c\<rparr>"
  have t: "unchanged content durable s ?t" using law by (simp add: unchanged_def x_frame_cache)
  then have f: "x_frame s ?t" by (simp add: unchanged_def)
  show ?case
  proof (cases r)
    case (Inl e)
    then have "\<not> reliable s" using read_cached_total [of "x_cache s" "usize_add st i"] rc Cons.prems(2)
      by (auto simp: reliable_def x_dev_bs_def)
    then show ?thesis using Inl t rc by (simp add: wp_simps wp_cached_io io_fault_def)
  next
    case (Inr d)
    have ih: "wp (read_parts st n is) (\<lambda>r u. unchanged content durable ?t u
      \<and> (case r of Inr buf \<Rightarrow> buf = concat (map (\<lambda>i. cache_view content (x_cache ?t) (usize_add st i)) is)
                     \<and> length buf = length is * n
         | Inl e \<Rightarrow> io_fault ?t e)) ?t"
      using law Cons.prems by (intro Cons.IH) (simp_all add: x_dev_bs_def)
    have trans: "unchanged content durable s u" if "unchanged content durable ?t u" for u
      using t that x_frame_trans [of s ?t u] by (simp add: unchanged_def)
    show ?thesis
      using Inr rc law t unfolding read_parts.simps wp_thn wp_cached_io
      by simp (rule wp_mono [OF ih], auto simp: wp_simps trans io_fault_frame [of s ?t, OF f] split: sum.splits)
  qed
qed

lemma read_fs_block_law:
  assumes "x_inv content durable s" "b < BLOCK_LIM"
  shows "wp (read_fs_block b) (\<lambda>r t. x_frame s t \<and> x_inv content durable t \<and> fsv content t = fsv content s
    \<and> (case r of Inr buf \<Rightarrow> buf = fsv content s b \<and> length buf = x_block_size s | Inl e \<Rightarrow> io_fault s e)) s"
proof -
  let ?p = "x_per s" let ?st = "usize_mul b ?p"
  have m: "map (\<lambda>i. cache_view content (x_cache s) (usize_add ?st i)) [0..<?p]
      = map (\<lambda>i. cache_view content (x_cache s) (b * ?p + i)) [0..<?p]"
    by (intro map_cong refl arg_cong [where f = "cache_view content (x_cache s)"] dev_block(2) [OF assms, where n = 1])
      (simp_all add: BLOCK_LIM_def)
  have "wp (read_parts ?st (x_dev_bs s) [0..<?p]) (\<lambda>r t. x_frame s t \<and> x_inv content durable t
      \<and> fsv content t = fsv content s
      \<and> (case r of Inr buf \<Rightarrow> buf = fsv content s b \<and> length buf = x_block_size s | Inl e \<Rightarrow> io_fault s e)) s"
  proof (rule wp_mono [OF read_parts_law])
    show "cache_inv content durable (x_cache s)" using assms(1) by (simp add: x_inv_def)
    fix r t assume a: "unchanged content durable s t
      \<and> (case r of Inr buf \<Rightarrow> buf = concat (map (\<lambda>i. cache_view content (x_cache s) (usize_add ?st i)) [0..<?p])
                   \<and> length buf = length [0..<?p] * x_dev_bs s
         | Inl e \<Rightarrow> io_fault s e)"
    then have f: "x_frame s t" and v: "cache_view content (x_cache t) = cache_view content (x_cache s)"
      and i: "x_inv content durable t"
      using x_inv_frame [OF assms(1)] by (auto simp: unchanged_def)
    have "fsv content t = fsv content s" unfolding fsv_def fun_eq_iff using v x_frameD(8) [OF f] by simp
    then show "x_frame s t \<and> x_inv content durable t \<and> fsv content t = fsv content s
      \<and> (case r of Inr buf \<Rightarrow> buf = fsv content s b \<and> length buf = x_block_size s | Inl e \<Rightarrow> io_fault s e)"
      using a f i x_invD(4) [OF assms(1)] unfolding m by (auto simp: fsv_def split: sum.splits)
  qed simp
  then show ?thesis by (simp add: wp_def read_fs_block_def)
qed

definition written ::
  "('d \<Rightarrow> usize \<Rightarrow> bytes) \<Rightarrow> ('d \<Rightarrow> usize \<Rightarrow> bytes) \<Rightarrow> (usize \<Rightarrow> bytes) \<Rightarrow> usize set \<Rightarrow>
   unit fsres \<Rightarrow> 'd ext2 \<Rightarrow> 'd ext2 \<Rightarrow> bool" where
  "written content durable new D r s t \<longleftrightarrow> x_frame s t \<and> cache_inv content durable (x_cache t)
     \<and> (\<forall>k. k \<notin> D \<longrightarrow> cache_view content (x_cache t) k = cache_view content (x_cache s) k)
     \<and> (case r of Inr _ \<Rightarrow> \<forall>k \<in> D. cache_view content (x_cache t) k = new k | Inl e \<Rightarrow> io_fault s e)"

lemma write_parts_law:
  assumes "cache_inv content durable (x_cache s)" "x_dev_bs s = n"
    and "\<forall>i \<in> set is. i * n + n \<le> length buf" "distinct (map (usize_add st) is)"
    and "\<forall>i \<in> set is. new (usize_add st i) = slice buf (i * n) n"
  shows "wp (write_parts st n buf is) (\<lambda>r t. written content durable new (usize_add st ` set is) r s t) s"
  using assms
proof (induction "is" arbitrary: s)
  case Nil
  then show ?case by (simp add: wp_simps written_def)
next
  case (Cons i "is")
  let ?k = "usize_add st i" let ?d = "slice buf (i * n) n"
  obtain r c where rc: "write_block_cached (x_cache s) ?k ?d = (r, c)" by force
  have "i * n + n \<le> length buf" using Cons.prems(3) by simp
  then have len: "length ?d = n" by (simp add: length_slice)
  note law = write_cached_law [OF Cons.prems(1) rc]
  have v: "cache_view content c = (cache_view content (x_cache s))(?k := ?d)" "cache_inv content durable c"
    "bc_device c = bc_device (x_cache s)"
    using law len Cons.prems(2) by (simp_all add: x_dev_bs_def)
  let ?t = "s\<lparr>x_cache := c\<rparr>"
  have f: "x_frame s ?t" using v(3) by (rule x_frame_cache)
  have b: "\<not> i * n + n > length buf" using Cons.prems(3) by simp
  show ?case
  proof (cases r)
    case (Inl e)
    then have "\<not> reliable s" using write_cached_total [of "x_cache s" ?d ?k] rc len Cons.prems(2)
      by (auto simp: reliable_def x_dev_bs_def)
    then show ?thesis using Inl f rc v b by (simp add: wp_simps wp_cached_io written_def io_fault_def)
  next
    case (Inr u)
    have ih: "wp (write_parts st n buf is) (\<lambda>r w. written content durable new (usize_add st ` set is) r ?t w) ?t"
      using v Cons.prems by (intro Cons.IH) (simp_all add: x_dev_bs_def)
    have "written content durable new (usize_add st ` set (i # is)) r' s w"
      if w: "written content durable new (usize_add st ` set is) r' ?t w" for r' w
    proof -
      have k: "?k \<notin> usize_add st ` set is" using Cons.prems(4) by simp
      have "x_frame s w" using f w x_frame_trans by (auto simp: written_def)
      then show ?thesis using w v k Cons.prems(5) io_fault_frame(1) [OF f] by (auto simp: written_def split: sum.splits)
    qed
    then have "wp (write_parts st n buf is) (\<lambda>r w. written content durable new (usize_add st ` set (i # is)) r s w) ?t"
      by (rule wp_mono [OF ih])
    then show ?thesis using Inr rc b by (simp add: wp_thn wp_cached_io)
  qed
qed

text \<open>How a write of the blocks in \<open>B\<close> changes the view.\<close>

definition fs_written ::
  "('d \<Rightarrow> usize \<Rightarrow> bytes) \<Rightarrow> ('d \<Rightarrow> usize \<Rightarrow> bytes) \<Rightarrow> (usize \<Rightarrow> bytes) \<Rightarrow> usize set \<Rightarrow>
   unit fsres \<Rightarrow> 'd ext2 \<Rightarrow> 'd ext2 \<Rightarrow> bool" where
  "fs_written content durable new B r s t \<longleftrightarrow> x_frame s t \<and> x_inv content durable t
     \<and> (\<forall>b. b \<notin> B \<longrightarrow> fsv content t b = fsv content s b)
     \<and> (case r of Inr _ \<Rightarrow> \<forall>b \<in> B. fsv content t b = new b | Inl e \<Rightarrow> io_fault s e)"

lemma written_fs:
  assumes "x_inv content durable s" "written content durable new D r s t"
    and "D = {k. k div x_per s \<in> B}" "\<And>b. b \<in> B \<Longrightarrow> concat (map (\<lambda>i. new (b * x_per s + i)) [0..<x_per s]) = newb b"
  shows "fs_written content durable newb B r s t"
proof -
  let ?p = "x_per s"
  have p: "0 < ?p" using x_invD(1) [OF assms(1)] .
  have f: "x_frame s t" and ci: "cache_inv content durable (x_cache t)" using assms(2) by (simp_all add: written_def)
  have per: "x_per t = ?p" using x_frameD(8) [OF f] .
  have dv: "(b * ?p + i) div ?p = b" if "i < ?p" for b i using that by simp
  have "fsv content t b = fsv content s b" if "b \<notin> B" for b
    unfolding fsv_def per
    using assms(2,3) dv that by (intro arg_cong [where f = concat] map_cong) (auto simp: written_def)
  moreover have "fsv content t b = newb b" if "b \<in> B" "r = Inr u" for b u
  proof -
    have "fsv content t b = concat (map (\<lambda>i. new (b * ?p + i)) [0..<?p])"
      unfolding fsv_def per
      using assms(2,3) dv that by (intro arg_cong [where f = concat] map_cong) (auto simp: written_def)
    then show ?thesis using assms(4) that(1) by simp
  qed
  ultimately show ?thesis
    using assms(2) f x_inv_frame [OF assms(1) f ci] by (auto simp: fs_written_def written_def split: sum.splits)
qed

lemma div_range: "0 < p \<Longrightarrow> (\<lambda>i. b * p + i) ` {0..<n * p} = {k. b \<le> k div p \<and> k div p < b + (n :: nat)}"
proof (intro equalityI subsetI)
  fix k assume p: "0 < p" and k: "k \<in> {k. b \<le> k div p \<and> k div p < b + n}"
  have "b * p \<le> k" "k < (b + n) * p"
    using p k by (simp_all add: less_eq_div_iff_mult_less_eq div_less_iff_less_mult)
  then show "k \<in> (\<lambda>i. b * p + i) ` {0..<n * p}"
    by (intro image_eqI [of _ _ "k - b * p"]) (simp_all add: add_mult_distrib)
next
  fix k assume p: "0 < p" and k: "k \<in> (\<lambda>i. b * p + i) ` {0..<n * p}"
  then obtain i where i: "k = b * p + i" "i < n * p" by (auto simp del: image_add_atLeastLessThan)
  have "b * p \<le> k" "k < (b + n) * p" using i by (simp_all add: add_mult_distrib)
  then show "k \<in> {k. b \<le> k div p \<and> k div p < b + n}"
    using p by (simp add: less_eq_div_iff_mult_less_eq div_less_iff_less_mult)
qed

lemma write_fs_block_law:
  assumes "x_inv content durable s" "b < BLOCK_LIM" "\<not> x_read_only s" "length buf = x_block_size s"
  shows "wp (write_fs_block b buf) (\<lambda>r t. fs_written content durable (\<lambda>_. buf) {b} r s t) s"
proof -
  let ?p = "x_per s" let ?st = "usize_mul b ?p" let ?n = "x_dev_bs s"
  note p = x_invD [OF assms(1)]
  have st: "usize_add ?st i = b * ?p + i" if "i < ?p" for i
    using dev_block(2) [OF assms(1,2), of i 1] that by (simp add: BLOCK_LIM_def)
  define new where "new k = slice buf ((k - b * ?p) * ?n) ?n" for k
  have m: "map (usize_add ?st) [0..<?p] = map (\<lambda>i. b * ?p + i) [0..<?p]" using st by simp
  have D: "usize_add ?st ` set [0..<?p] = {k. k div ?p \<in> {b}}"
    using div_range [of ?p b 1] p(1) st by (auto simp: image_iff)
  have buf: "concat (map (\<lambda>i. new (b * ?p + i)) [0..<?p]) = buf"
    using concat_slices [of buf ?n ?p] assms(4) p(4) by (simp add: new_def)
  have fits: "\<forall>i \<in> set [0..<?p]. i * ?n + ?n \<le> length buf"
  proof
    fix i assume "i \<in> set [0..<?p]"
    then have "(i + 1) * ?n \<le> ?p * ?n" by (intro mult_le_mono) auto
    then show "i * ?n + ?n \<le> length buf" using assms(4) p(4) by simp
  qed
  have "wp (write_parts ?st ?n buf [0..<?p]) (\<lambda>r t. written content durable new (usize_add ?st ` set [0..<?p]) r s t) s"
  proof (rule write_parts_law [OF _ refl fits])
    show "cache_inv content durable (x_cache s)" using assms(1) by (simp add: x_inv_def)
    show "distinct (map (usize_add ?st) [0..<?p])" unfolding m by (simp add: distinct_map)
    show "\<forall>i \<in> set [0..<?p]. new (usize_add ?st i) = slice buf (i * ?n) ?n" using st by (simp add: new_def)
  qed
  then have "wp (write_parts ?st ?n buf [0..<?p]) (\<lambda>r t. fs_written content durable (\<lambda>_. buf) {b} r s t) s"
    using buf by (intro wp_mono [OF _ written_fs [OF assms(1) _ D]]) simp_all
  then show ?thesis using assms(3) by (simp add: wp_def write_fs_block_def)
qed

section \<open>Runs of blocks\<close>

lemma concat_blocks:
  "concat (map f [0..<n * p]) = concat (map (\<lambda>j. concat (map (\<lambda>i. f (j * p + i)) [0..<p])) [0..<n])"
proof (induction n)
  case (Suc n)
  have "[0..<Suc n * p] = [0..<n * p] @ [n * p..<n * p + p]"
    using upt_add_eq_append [of 0 "n * p" p] by (simp add: add.commute)
  moreover have "map f [n * p..<n * p + p] = map (\<lambda>i. f (n * p + i)) [0..<p]"
    using map_add_upt [of "n * p" p] by (simp add: map_add_upt [symmetric] add.commute comp_def)
  ultimately show ?case using Suc by simp
qed simp

lemma chunk_lens_blocks: "0 < n \<Longrightarrow> chunk_lens n (m * n) = replicate m n"
  by (simp add: chunk_lens_def)

lemma read_chunks_law:
  assumes "device_ok dev content durable" "n = bd_block_size dev" "blk + m < USIZE_LIM"
    and "read_chunks dev d blk (replicate m n) = Inr buf"
  shows "buf = concat (map (\<lambda>i. content d (blk + i)) [0..<m]) \<and> length buf = m * n \<and> (\<forall>i < m. length (content d (blk + i)) = n)"
  using assms(3,4)
proof (induction m arbitrary: blk buf)
  case (Suc m)
  then obtain b rest where b: "bd_read dev d blk n = Inr b" "buf = b @ rest"
    and rest: "read_chunks dev d (usize_add blk 1) (replicate m n) = Inr rest"
    by (auto simp: run_simps)
  have "usize_add blk 1 = Suc blk" using Suc.prems(1) by (simp add: usize_simps)
  then have "rest = concat (map (\<lambda>i. content d (Suc blk + i)) [0..<m]) \<and> length rest = m * n
      \<and> (\<forall>i < m. length (content d (Suc blk + i)) = n)"
    using Suc.prems(1) rest by (intro Suc.IH) simp_all
  moreover have "[0..<Suc m] = 0 # map Suc [0..<m]" by (simp add: upt_conv_Cons map_Suc_upt del: upt_Suc)
  moreover have "b = content d blk \<and> length b = n" using device_okD(2) [OF assms(1)] b(1) assms(2) by simp
  ultimately show ?case using b(2) by (auto simp: comp_def less_Suc_eq_0_disj simp del: upt_Suc length_concat)
qed simp

lemma write_chunks_law:
  assumes "device_ok dev content durable" "n = bd_block_size dev" "blk + m < USIZE_LIM" "length buf = m * n"
    and "write_chunks dev d blk (replicate m n) buf = (r, d')"
  shows "(\<forall>k. k \<notin> {blk..<blk + m} \<longrightarrow> content d' k = content d k)
    \<and> (r = Inr () \<longrightarrow> (\<forall>i < m. content d' (blk + i) = slice buf (i * n) n))"
  using assms(3-5)
proof (induction m arbitrary: blk buf d)
  case (Suc m)
  obtain w d1 where w: "bd_write dev d blk (take n buf) = (w, d1)" by force
  have len: "length (take n buf) = n" using Suc.prems(2) by simp
  show ?case
  proof (cases w)
    case (Inl e)
    then have "content d1 k = content d k" if "k \<noteq> blk" for k
      using device_okD(4) [OF assms(1)] w that by blast
    then show ?thesis using Suc.prems(3) w Inl by auto
  next
    case (Inr u)
    have c: "content d1 = (content d)(blk := take n buf)"
      using device_okD(3) [OF assms(1)] w Inr len assms(2) by simp
    have "usize_add blk 1 = Suc blk" using Suc.prems(1) by (simp add: usize_simps)
    then have "write_chunks dev d1 (Suc blk) (replicate m n) (drop n buf) = (r, d')" using Suc.prems(3) w Inr by simp
    from Suc.IH [OF _ _ this] have ih:
      "\<forall>k. k \<notin> {Suc blk..<Suc blk + m} \<longrightarrow> content d' k = content d1 k"
      "r = Inr () \<longrightarrow> (\<forall>i < m. content d' (Suc blk + i) = slice (drop n buf) (i * n) n)"
      using Suc.prems(1,2) by simp_all
    have "content d' (blk + i) = slice buf (i * n) n" if "r = Inr ()" "i < Suc m" for i
    proof (cases i)
      case 0
      then show ?thesis using ih(1) c by (simp add: slice_def)
    next
      case (Suc j)
      then have "content d' (Suc blk + j) = slice (drop n buf) (j * n) n" using ih(2) that by simp
      then show ?thesis using Suc by (simp add: slice_def add.commute)
    qed
    moreover have "content d' k = content d k" if "k \<notin> {blk..<blk + Suc m}" for k
    proof -
      have "k \<notin> {Suc blk..<Suc blk + m}" "k \<noteq> blk" using that by auto
      then show ?thesis using ih(1) c by simp
    qed
    ultimately show ?thesis by blast
  qed
qed simp

lemma invalidate_ids_gone:
  "bc_device (invalidate_ids b ids) = bc_device b"
  "k \<in> set ids \<or> bt_get (bc_cache b) k = None \<Longrightarrow> bt_get (bc_cache (invalidate_ids b ids)) k = None"
  by (induction ids arbitrary: b) auto

lemma read_chunks_total: "never_fails dev \<Longrightarrow> \<exists>buf. read_chunks dev d blk ns = Inr buf"
proof (induction ns arbitrary: blk)
  case (Cons n ns)
  obtain b where "bd_read dev d blk n = Inr b" using never_fails_read [OF Cons.prems] by blast
  moreover obtain r where "read_chunks dev d (usize_add blk 1) ns = Inr r" using Cons by blast
  ultimately show ?case by simp
qed simp

lemma write_chunks_total: "never_fails dev \<Longrightarrow> \<exists>d'. write_chunks dev d blk ns buf = (Inr (), d')"
proof (induction ns arbitrary: blk d buf)
  case (Cons n ns)
  obtain d1 d2 where "bd_write dev d blk (take n buf) = (Inr (), d1)" by (rule never_failsD [OF Cons.prems])
  then show ?case using Cons by simp
qed simp

lemma read_fs_blocks_law:
  assumes "x_inv content durable s" "start < BLOCK_LIM" "count < BLOCK_LIM" "n = count * x_block_size s"
  shows "wp (read_fs_blocks start count n) (\<lambda>r t. x_frame s t \<and> x_inv content durable t \<and> fsv content t = fsv content s
    \<and> (case r of Inr buf \<Rightarrow> buf = concat (map (\<lambda>j. fsv content s (start + j)) [0..<count]) \<and> length buf = n
           \<and> (\<forall>j < count. length (fsv content s (start + j)) = x_block_size s)
       | Inl e \<Rightarrow> io_fault s e)) s"
proof -
  let ?p = "x_per s" let ?st = "start * ?p" let ?m = "count * ?p" let ?n = "x_dev_bs s"
  note p = x_invD [OF assms(1)]
  have ci: "cache_inv content durable (x_cache s)" using assms(1) by (simp add: x_inv_def)
  have st: "usize_mul start ?p = ?st" "usize_mul count ?p = ?m" "usize_add ?st ?m = ?st + ?m"
    using dev_block [OF assms(1,2), of ?m count] dev_block(1) [OF assms(1,3), of 0 0] assms(3)
    by (simp_all add: BLOCK_LIM_def)
  obtain r c where rc: "flush_range (x_cache s) ?st ?m = (r, c)" by force
  note law = flush_range_law [OF ci rc]
  let ?t = "s\<lparr>x_cache := c\<rparr>"
  have f: "x_frame s ?t" using law by (intro x_frame_cache) simp
  have i: "x_inv content durable ?t" using x_inv_frame [OF assms(1) f] law by simp
  have v: "fsv content ?t = fsv content s" unfolding fsv_def fun_eq_iff using law x_frameD(8) [OF f] by simp
  have dev: "device_ok (bc_device c) content durable" using law unfolding cache_inv_def by blast
  have bs: "bd_block_size (bc_device c) = ?n" using law by (simp add: x_dev_bs_def)
  have lens: "chunk_lens ?n n = replicate ?m ?n" using chunk_lens_blocks [OF p(2), of ?m] assms(4) p(4) by (simp add: mult.assoc)
  have lim: "?st + ?m < USIZE_LIM"
    using st(3) usize_add_less [of ?st ?m] by simp
  show ?thesis
  proof (cases r)
    case (Inl e)
    then have "\<not> reliable s" using write_back_total [of "x_cache s"] rc
      unfolding reliable_def flush_range_def Let_def by (metis Inl_Inr_False prod.inject)
    then show ?thesis using Inl rc st f i v by (simp add: wp_def read_fs_blocks_def thn_def cached_io_def io_fault_def)
  next
    case (Inr u)
    have "buf = concat (map (\<lambda>j. fsv content s (start + j)) [0..<count]) \<and> length buf = n
        \<and> (\<forall>j < count. length (fsv content s (start + j)) = x_block_size s)"
      if buf: "read_blocks (bc_device c) (bc_disk c) ?st n = Inr buf" for buf
    proof -
      have "read_chunks (bc_device c) (bc_disk c) ?st (replicate ?m ?n) = Inr buf"
        using buf by (simp add: read_blocks_def bs lens)
      from read_chunks_law [OF dev bs [symmetric] lim this]
      have b: "buf = concat (map (\<lambda>i. content (bc_disk c) (?st + i)) [0..<?m])" "length buf = ?m * ?n"
        "\<And>i. i < ?m \<Longrightarrow> length (content (bc_disk c) (?st + i)) = ?n" by blast+
      have v: "content (bc_disk c) (?st + i) = cache_view content (x_cache s) (?st + i)" if "i < ?m" for i
        using law Inr st(3) that by auto
      have lens: "length (fsv content s (start + j)) = x_block_size s" if "j < count" for j
      proof -
        have "length (cache_view content (x_cache s) ((start + j) * ?p + i)) = ?n" if "i < ?p" for i
        proof -
          have "j * ?p + i < Suc j * ?p" using that by simp
          also have "\<dots> \<le> count * ?p" using \<open>j < count\<close> by (intro mult_le_mono) simp_all
          finally have "j * ?p + i < ?m" .
          from b(3) [OF this] v [OF this] show ?thesis by (simp add: add_mult_distrib add.assoc)
        qed
        then have m: "map (\<lambda>i. length (cache_view content (x_cache s) ((start + j) * ?p + i))) [0..<?p] = map (\<lambda>_. ?n) [0..<?p]"
          by (intro map_cong) simp_all
        show ?thesis unfolding fsv_def length_concat map_map comp_def m using p(4) by (simp add: sum_list_triv)
      qed
      have m: "map (\<lambda>i. content (bc_disk c) (?st + i)) [0..<?m] = map (\<lambda>i. cache_view content (x_cache s) (?st + i)) [0..<?m]"
        using v by (intro map_cong) auto
      have "buf = concat (map (\<lambda>j. fsv content s (start + j)) [0..<count])"
        unfolding b(1) m concat_blocks fsv_def by (simp add: add_mult_distrib add.assoc)
      then show ?thesis using b(2) lens assms(4) p(4) by (simp add: mult.assoc)
    qed
    moreover have "\<not> reliable s" if "read_blocks (bc_device c) (bc_disk c) ?st n = Inl e" for e
      using read_chunks_total [of "bc_device c" "bc_disk c" ?st] law that unfolding reliable_def read_blocks_def by (metis Inl_Inr_False)
    ultimately show ?thesis using rc Inr st f i v
      by (auto simp: wp_def read_fs_blocks_def thn_def cached_io_def gets_def lift_def io_err_iff io_fault_def
          split: sum.split)
  qed
qed

lemma write_fs_blocks_law:
  assumes "x_inv content durable s" "start < BLOCK_LIM" "count < BLOCK_LIM" "\<not> x_read_only s"
    and len: "length buf = count * x_block_size s"
  shows "wp (write_fs_blocks start count buf) (\<lambda>r t.
    fs_written content durable (\<lambda>b. slice buf ((b - start) * x_block_size s) (x_block_size s)) {start..<start + count} r s t) s"
proof -
  let ?p = "x_per s" let ?st = "start * ?p" let ?m = "count * ?p" let ?n = "x_dev_bs s" let ?bs = "x_block_size s"
  note p = x_invD [OF assms(1)]
  have ci: "cache_inv content durable (x_cache s)" using assms(1) by (simp add: x_inv_def)
  have st: "usize_mul start ?p = ?st" "usize_mul count ?p = ?m" "usize_add ?st ?m = ?st + ?m"
    using dev_block [OF assms(1,2), of ?m count] dev_block(1) [OF assms(1,3), of 0 0] assms(3)
    by (simp_all add: BLOCK_LIM_def)
  let ?ids = "[?st..<?st + ?m]"
  define c where "c = invalidate_ids (x_cache s) ?ids"
  note law = invalidate_ids_law [OF ci, of ?ids, folded c_def]
  have gone: "bt_get (bc_cache c) k = None" if "k \<in> set ?ids" for k
    using invalidate_ids_gone(2) that unfolding c_def by blast
  have dev: "bc_device c = bc_device (x_cache s)" by (simp add: c_def invalidate_ids_gone(1))
  have dok: "device_ok (bc_device (x_cache s)) content durable" using ci by (simp add: cache_inv_def)
  have bs: "?n = bd_block_size (bc_device (x_cache s))" by (simp add: x_dev_bs_def)
  have lim: "?st + ?m < USIZE_LIM" using st(3) usize_add_less [of ?st ?m] by simp
  have bl: "length buf = ?m * ?n" using len p(4) by (simp add: mult.assoc)
  obtain r d' where w: "write_blocks (bc_device c) (bc_disk c) ?st buf = (r, d')" by force
  then have "write_chunks (bc_device (x_cache s)) (bc_disk c) ?st (replicate ?m ?n) buf = (r, d')"
    using chunk_lens_blocks [OF p(2), of ?m] by (simp add: write_blocks_def dev bs [symmetric] bl)
  note wl = write_chunks_law [OF dok bs lim bl this]
  let ?t = "s\<lparr>x_cache := c\<lparr>bc_disk := d'\<rparr>\<rparr>"
  have out: "content d' k = content (bc_disk c) k" if "k \<notin> set ?ids" for k
    using wl that by simp
  have "cinv (bd_block_size (bc_device c)) content d' (bc_cache c) (bc_order c)"
  proof -
    have "entry_ok (bd_block_size (bc_device c)) content d' k e" if e: "bt_get (bc_cache c) k = Some e" for k e
    proof -
      have "k \<notin> set ?ids" using gone e by force
      moreover have "entry_ok (bd_block_size (bc_device c)) content (bc_disk c) k e"
        using law e by (auto simp: cache_inv_def cinv_def)
      ultimately show ?thesis using out by (simp add: entry_ok_def)
    qed
    then show ?thesis using law by (auto simp: cache_inv_def cinv_def)
  qed
  then have ci': "cache_inv content durable (x_cache ?t)" using dok dev by (simp add: cache_inv_def)
  have f: "x_frame s ?t" using dev by (intro x_frame_cache) simp
  have view: "cache_view content (x_cache ?t) k = (if k \<in> set ?ids then content d' k else cache_view content (x_cache s) k)" for k
  proof (cases "k \<in> set ?ids")
    case True
    then show ?thesis using gone by (simp add: cache_view_def vw_def)
  next
    case False
    have "cache_view content (x_cache ?t) k = cache_view content c k"
      using out [OF False] by (simp add: cache_view_def vw_def split: option.split)
    also have "\<dots> = cache_view content (x_cache s) k" using law False by presburger
    finally show ?thesis using False by presburger
  qed
  have new: "content d' k = slice buf ((k - ?st) * ?n) ?n" if "k \<in> set ?ids" "r = Inr ()" for k
  proof -
    have "\<forall>i < ?m. content d' (?st + i) = slice buf (i * ?n) ?n" using wl that(2) by blast
    from this [rule_format, of "k - ?st"] show ?thesis using that(1) by auto
  qed
  have rel: "\<not> reliable s" if "r = Inl e" for e
    using write_chunks_total [of "bc_device c" "bc_disk c" ?st] w that dev unfolding reliable_def write_blocks_def by (metis Inl_Inr_False prod.inject)
  have "written content durable (\<lambda>k. slice buf ((k - ?st) * ?n) ?n) (set ?ids) (io_err r) s ?t"
    unfolding written_def view using f ci' new rel by (cases r) (simp_all add: io_fault_def)
  moreover have "set ?ids = {k. k div ?p \<in> {start..<start + count}}"
    using div_range [OF p(1), of start count] by (auto simp: add.commute)
  moreover have "concat (map (\<lambda>i. slice buf ((b * ?p + i - ?st) * ?n) ?n) [0..<?p]) = slice buf ((b - start) * ?bs) ?bs"
    if "b \<in> {start..<start + count}" for b
  proof -
    have "b * ?p + i - ?st = (b - start) * ?p + i" for i
      using that by (simp add: diff_mult_distrib)
    then have m: "map (\<lambda>i. slice buf ((b * ?p + i - ?st) * ?n) ?n) [0..<?p]
        = map (\<lambda>i. slice (drop ((b - start) * ?bs) buf) (i * ?n) ?n) [0..<?p]"
      using p(4) by (simp add: slice_def add_mult_distrib mult.assoc add.commute)
    show ?thesis unfolding m concat_slices using p(4) by (simp add: slice_def)
  qed
  ultimately have "fs_written content durable (\<lambda>b. slice buf ((b - start) * ?bs) ?bs) {start..<start + count} (io_err r) s ?t"
    by (rule written_fs [OF assms(1)])
  then show ?thesis
    using w assms(4) st by (simp add: wp_def write_fs_blocks_def thn_def upd_def cached_io_def invalidate_range_def c_def Let_def)
qed

section \<open>The interface of the block layer\<close>

text \<open>
  What the layers above rely on: reads deliver the view, writes replace one block of it, a
  failure is one of \<open>bad\<close> and touches at most the block it was about.
\<close>

locale fs_blocks =
  fixes inv :: "'s \<Rightarrow> bool" and view :: "'s \<Rightarrow> usize \<Rightarrow> bytes" and frm :: "'s \<Rightarrow> 's \<Rightarrow> bool"
    and bad :: "'s \<Rightarrow> crash \<Rightarrow> bool" and writable :: "'s \<Rightarrow> bool" and bsize :: "'s \<Rightarrow> usize"
    and rd :: "usize \<Rightarrow> ('s, bytes) act" and wr :: "usize \<Rightarrow> bytes \<Rightarrow> ('s, unit) act"
  assumes rd_law: "\<lbrakk>inv s; b < BLOCK_LIM\<rbrakk> \<Longrightarrow> wp (rd b) (\<lambda>r t. frm s t \<and> inv t \<and> view t = view s
        \<and> (case r of Inr buf \<Rightarrow> buf = view s b \<and> length buf = bsize s | Inl e \<Rightarrow> bad s e)) s"
    and wr_law: "\<lbrakk>inv s; b < BLOCK_LIM; writable s; length buf = bsize s\<rbrakk> \<Longrightarrow> wp (wr b buf) (\<lambda>r t. frm s t \<and> inv t
        \<and> (\<forall>c. c \<noteq> b \<longrightarrow> view t c = view s c) \<and> (case r of Inr _ \<Rightarrow> view t b = buf | Inl e \<Rightarrow> bad s e)) s"
    and frm_refl: "frm s s"
    and frm_trans: "\<lbrakk>frm s t; frm t u\<rbrakk> \<Longrightarrow> frm s u"
    and frm_keeps: "frm s t \<Longrightarrow> writable t = writable s \<and> bsize t = bsize s \<and> bad t = bad s"
begin

lemma wr_success:
  assumes "inv s" "b < BLOCK_LIM" "writable s" "length buf = bsize s"
  shows "wp (wr b buf) (\<lambda>r t. frm s t \<and> inv t
    \<and> (case r of Inr _ \<Rightarrow> view t = (view s)(b := buf) | Inl e \<Rightarrow> bad s e \<and> (\<forall>c. c \<noteq> b \<longrightarrow> view t c = view s c))) s"
  by (rule wp_mono [OF wr_law [OF assms]]) (auto simp: fun_eq_iff split: sum.splits)

text \<open>Read, modify, write: the shape of every in-place update of a block.\<close>

lemma modify_block:
  assumes "inv s" "b < BLOCK_LIM" "writable s" "\<And>buf. length buf = bsize s \<Longrightarrow> length (f buf) = bsize s"
  shows "wp (thn (rd b) (\<lambda>buf. wr b (f buf))) (\<lambda>r t. frm s t \<and> inv t
    \<and> (case r of Inr _ \<Rightarrow> view t = (view s)(b := f (view s b)) \<and> length (view s b) = bsize s
        | Inl e \<Rightarrow> bad s e \<and> (\<forall>c. c \<noteq> b \<longrightarrow> view t c = view s c))) s"
proof (rule wp_seq [OF rd_law [OF assms(1,2)]])
  fix e t
  assume "frm s t \<and> inv t \<and> view t = view s \<and> (case Inl e of Inr buf \<Rightarrow> buf = view s b \<and> length buf = bsize s | Inl e \<Rightarrow> bad s e)"
  then show "frm s t \<and> inv t \<and> (case Inl e of Inr _ \<Rightarrow> view t = (view s)(b := f (view s b)) \<and> length (view s b) = bsize s
      | Inl e \<Rightarrow> bad s e \<and> (\<forall>c. c \<noteq> b \<longrightarrow> view t c = view s c))" by simp
next
  fix buf t
  assume a: "frm s t \<and> inv t \<and> view t = view s \<and> (case Inr buf of Inr buf \<Rightarrow> buf = view s b \<and> length buf = bsize s | Inl e \<Rightarrow> bad s e)"
  then have t: "inv t" "writable t" "length (f buf) = bsize t" using assms(3,4) frm_keeps by auto
  show "wp (wr b (f buf)) (\<lambda>r t. frm s t \<and> inv t \<and> (case r of Inr _ \<Rightarrow> view t = (view s)(b := f (view s b)) \<and> length (view s b) = bsize s
      | Inl e \<Rightarrow> bad s e \<and> (\<forall>c. c \<noteq> b \<longrightarrow> view t c = view s c))) t"
    by (rule wp_mono [OF wr_success [OF t(1) assms(2) t(2,3)]]) (use a frm_trans frm_keeps [of s t] in \<open>auto split: sum.splits\<close>)
qed

text \<open>Modifying several blocks one after the other.\<close>

lemma modify_blocks:
  assumes "inv s" "\<forall>x \<in> set xs. blk x < BLOCK_LIM" "writable s"
    and "\<And>x buf. \<lbrakk>x \<in> set xs; length buf = bsize s\<rbrakk> \<Longrightarrow> length (f x buf) = bsize s"
  shows "wp (for_each (\<lambda>x. thn (rd (blk x)) (\<lambda>buf. wr (blk x) (f x buf))) xs) (\<lambda>r t. frm s t \<and> inv t
    \<and> (\<forall>c. c \<notin> blk ` set xs \<longrightarrow> view t c = view s c)
    \<and> (case r of Inr _ \<Rightarrow> distinct (map blk xs) \<longrightarrow>
          (\<forall>x \<in> set xs. view t (blk x) = f x (view s (blk x)) \<and> length (view s (blk x)) = bsize s)
        | Inl e \<Rightarrow> bad s e)) s"
  using assms
proof (induction xs arbitrary: s)
  case Nil
  then show ?case using frm_refl by (simp add: wp_simps)
next
  case (Cons x xs)
  have m: "wp (thn (rd (blk x)) (\<lambda>buf. wr (blk x) (f x buf))) (\<lambda>r t. frm s t \<and> inv t
    \<and> (case r of Inr _ \<Rightarrow> view t = (view s)(blk x := f x (view s (blk x))) \<and> length (view s (blk x)) = bsize s
        | Inl e \<Rightarrow> bad s e \<and> (\<forall>c. c \<noteq> blk x \<longrightarrow> view t c = view s c))) s"
    using Cons.prems by (intro modify_block) auto
  show ?case
    unfolding for_each.simps
  proof (rule wp_seq [OF m], goal_cases)
    case (1 e t)
    then show ?case by auto
  next
    case (2 u t)
    then have t: "frm s t" "inv t" "view t = (view s)(blk x := f x (view s (blk x)))" "length (view s (blk x)) = bsize s" by auto
    note k = frm_keeps [OF t(1)]
    have "wp (for_each (\<lambda>x. thn (rd (blk x)) (\<lambda>buf. wr (blk x) (f x buf))) xs) (\<lambda>r w. frm t w \<and> inv w
      \<and> (\<forall>c. c \<notin> blk ` set xs \<longrightarrow> view w c = view t c)
      \<and> (case r of Inr _ \<Rightarrow> distinct (map blk xs) \<longrightarrow>
            (\<forall>x \<in> set xs. view w (blk x) = f x (view t (blk x)) \<and> length (view t (blk x)) = bsize t)
          | Inl e \<Rightarrow> bad t e)) t"
      using Cons.prems t k by (intro Cons.IH) auto
    then show ?case
    proof (rule wp_mono, goal_cases)
      case (1 r w)
      have "view w c = view s c" if "c \<notin> blk ` set (x # xs)" for c using 1 that t(3) by auto
      moreover have "frm s w" using 1 frm_trans t(1) by blast
      moreover have "view w (blk y) = f y (view s (blk y)) \<and> length (view s (blk y)) = bsize s"
        if "r = Inr ()" "distinct (map blk (x # xs))" "y \<in> set (x # xs)" for y
      proof (cases "y = x")
        case True
        then show ?thesis using 1 that t by simp
      next
        case False
        then have "blk y \<noteq> blk x" using that by (auto simp: image_iff)
        moreover have "view w (blk y) = f y (view t (blk y)) \<and> length (view t (blk y)) = bsize t"
          using 1 that False by simp
        ultimately show ?thesis using t(3) k by simp
      qed
      ultimately show ?case using 1 k by (auto split: sum.splits)
    qed
  qed
qed

end

interpretation xb: fs_blocks "x_inv content durable" "fsv content" x_frame io_fault "\<lambda>s. \<not> x_read_only s" x_block_size
  read_fs_block write_fs_block for content durable
proof unfold_locales
  fix s :: "'a ext2" and b
  assume a: "x_inv content durable s" "b < BLOCK_LIM"
  show "wp (read_fs_block b) (\<lambda>r t. x_frame s t \<and> x_inv content durable t \<and> fsv content t = fsv content s
    \<and> (case r of Inr buf \<Rightarrow> buf = fsv content s b \<and> length buf = x_block_size s | Inl e \<Rightarrow> io_fault s e)) s"
    by (rule read_fs_block_law [OF a])
next
  fix s :: "'a ext2" and b and buf :: bytes
  assume a: "x_inv content durable s" "b < BLOCK_LIM" "\<not> x_read_only s" "length buf = x_block_size s"
  show "wp (write_fs_block b buf) (\<lambda>r t. x_frame s t \<and> x_inv content durable t
    \<and> (\<forall>c. c \<noteq> b \<longrightarrow> fsv content t c = fsv content s c)
    \<and> (case r of Inr _ \<Rightarrow> fsv content t b = buf | Inl e \<Rightarrow> io_fault s e)) s"
    by (rule wp_mono [OF write_fs_block_law [OF a]]) (auto simp: fs_written_def split: sum.splits)
qed (auto simp: x_frameD io_fault_frame intro: x_frame_trans)

end
