(* ===== verification/Kor_Ext2_Alloc.thy ===== *)
theory Kor_Ext2_Alloc
  imports Kor_Ext2_View
begin

text \<open>
  Block and inode allocation of ext2 (\<^verbatim>\<open>bitmap.rs\<close>) on the view of the block layer.  \<open>geo\<close> is
  the geometry of a sound image, \<open>alloc_inv\<close> ties the free counters of the descriptors and of
  the superblock to the clear bits of the bitmaps.
\<close>

section \<open>Bitmaps as sets\<close>

definition free_bits :: "bytes \<Rightarrow> nat \<Rightarrow> nat set" where
  "free_bits data n = {i. i < n \<and> \<not> bit_at data i}"

definition mark_bit :: "bytes \<Rightarrow> nat \<Rightarrow> bytes" where
  "mark_bit data i = data[i div 8 := data ! (i div 8) OR push_bit (i mod 8) 1]"

definition unmark_bit :: "bytes \<Rightarrow> nat \<Rightarrow> bytes" where
  "unmark_bit data i = data[i div 8 := data ! (i div 8) AND NOT (push_bit (i mod 8) 1)]"

lemma finite_free_bits [simp]: "finite (free_bits data n)"
  by (simp add: free_bits_def)

lemma free_bits_bound: "card (free_bits data n) \<le> n"
proof -
  have "card (free_bits data n) \<le> card {..<n}" by (rule card_mono) (auto simp: free_bits_def)
  then show ?thesis by simp
qed

lemma bit_index: "\<lbrakk>i < n; n \<le> 8 * length data\<rbrakk> \<Longrightarrow> i div 8 < length (data :: bytes)"
  by (simp add: div_less_iff_less_mult mult.commute)

lemma find_first_clear_free:
  assumes "n \<le> 8 * length data"
  shows "case find_first_clear (bm_from_bytes data n) of Some i \<Rightarrow> i \<in> free_bits data n | None \<Rightarrow> free_bits data n = {}"
  using find_first_clear_Some [of "bm_from_bytes data n"] find_first_clear_None [of "bm_from_bytes data n"] bit_index [OF _ assms]
  by (auto simp: free_bits_def bm_from_bytes_def split: option.split)

lemma bm_set_eq:
  "\<lbrakk>i < n; n \<le> 8 * length data\<rbrakk> \<Longrightarrow> bm_set (bm_from_bytes data n) i = Inr \<lparr>bm_data = mark_bit data i, bm_size = n\<rparr>"
  using bit_index by (fastforce simp: bm_set_def bm_from_bytes_def mark_bit_def not_less)

lemma bm_clear_eq:
  "\<lbrakk>i < n; n \<le> 8 * length data\<rbrakk> \<Longrightarrow> bm_clear (bm_from_bytes data n) i = Inr \<lparr>bm_data = unmark_bit data i, bm_size = n\<rparr>"
  using bit_index by (fastforce simp: bm_clear_def bm_from_bytes_def unmark_bit_def not_less)

lemma length_mark [simp]: "length (mark_bit data i) = length data" "length (unmark_bit data i) = length data"
  by (simp_all add: mark_bit_def unmark_bit_def)

lemma free_bits_mark:
  assumes "i < n" "n \<le> 8 * length data"
  shows "free_bits (mark_bit data i) n = free_bits data n - {i}" "free_bits (unmark_bit data i) n = insert i (free_bits data n)"
  using set_bit_at [OF bit_index [OF assms]] clear_bit_at [OF bit_index [OF assms]] bit_index [OF _ assms(2)] assms(1)
  by (auto simp: free_bits_def mark_bit_def unmark_bit_def)

section \<open>Geometry and invariant\<close>

definition blocks_in :: "ext2_sb \<Rightarrow> nat \<Rightarrow> nat" where
  "blocks_in sb gi = min (es_blocks_per_group sb)
     (es_blocks_count sb - (es_first_data_block sb + gi * es_blocks_per_group sb))"

definition geo :: "ext2_sb \<Rightarrow> bg_desc list \<Rightarrow> usize \<Rightarrow> bool" where
  "geo sb groups bs \<longleftrightarrow> 0 < es_blocks_per_group sb \<and> es_blocks_per_group sb < 2 ^ 16 \<and> es_blocks_per_group sb \<le> 8 * bs
     \<and> es_first_data_block sb + length groups * es_blocks_per_group sb < 2 ^ 32 \<and> es_blocks_count sb < 2 ^ 32
     \<and> (\<forall>gi < length groups. es_first_data_block sb + gi * es_blocks_per_group sb \<le> es_blocks_count sb)
     \<and> list_all bgd_wf groups \<and> distinct (map bg_block_bitmap groups)"

definition bmp :: "'d ext2 \<Rightarrow> nat \<Rightarrow> usize" where
  "bmp s gi = bg_block_bitmap (x_groups s ! gi)"

definition gfree :: "('d \<Rightarrow> usize \<Rightarrow> bytes) \<Rightarrow> 'd ext2 \<Rightarrow> nat \<Rightarrow> nat set" where
  "gfree content s gi = free_bits (fsv content s (bmp s gi)) (blocks_in (x_sb s) gi)"

text \<open>The block numbers the bitmaps show as free.\<close>

definition free_blks :: "('d \<Rightarrow> usize \<Rightarrow> bytes) \<Rightarrow> 'd ext2 \<Rightarrow> nat set" where
  "free_blks content s = {b. es_first_data_block (x_sb s) \<le> b
     \<and> (b - es_first_data_block (x_sb s)) div es_blocks_per_group (x_sb s) < length (x_groups s)
     \<and> (b - es_first_data_block (x_sb s)) mod es_blocks_per_group (x_sb s)
         \<in> gfree content s ((b - es_first_data_block (x_sb s)) div es_blocks_per_group (x_sb s))}"

definition alloc_inv :: "('d \<Rightarrow> usize \<Rightarrow> bytes) \<Rightarrow> ('d \<Rightarrow> usize \<Rightarrow> bytes) \<Rightarrow> 'd ext2 \<Rightarrow> bool" where
  "alloc_inv content durable s \<longleftrightarrow> x_inv content durable s \<and> \<not> x_sb_held s \<and> \<not> x_read_only s
     \<and> geo (x_sb s) (x_groups s) (x_block_size s)
     \<and> (\<forall>gi < length (x_groups s). length (fsv content s (bmp s gi)) = x_block_size s
          \<and> bg_free_blocks_count (x_groups s ! gi) = card (gfree content s gi))
     \<and> es_free_blocks_count (x_sb s) = (\<Sum>gi < length (x_groups s). card (gfree content s gi))"

lemma geoD:
  assumes "geo sb groups bs" "gi < length groups"
  shows "group_block sb gi = es_first_data_block sb + gi * es_blocks_per_group sb"
    "min (es_blocks_per_group sb) (u32_sub (es_blocks_count sb) (group_block sb gi)) = blocks_in sb gi"
    "u32_mul gi (es_blocks_per_group sb) = gi * es_blocks_per_group sb"
    "es_first_data_block sb + gi * es_blocks_per_group sb + es_blocks_per_group sb < 2 ^ 32"
    "blocks_in sb gi \<le> 8 * bs" "bgd_wf (groups ! gi)" "bg_block_bitmap (groups ! gi) < BLOCK_LIM"
proof -
  let ?p = "es_blocks_per_group sb" and ?f = "es_first_data_block sb"
  have "(gi + 1) * ?p \<le> length groups * ?p" using assms(2) by (intro mult_le_mono) simp_all
  then have l: "?f + gi * ?p + ?p < 2 ^ 32" using assms(1) by (simp add: geo_def)
  then show "u32_mul gi ?p = gi * ?p" "?f + gi * ?p + ?p < 2 ^ 32" by (simp_all add: usize_simps)
  then show g: "group_block sb gi = ?f + gi * ?p" using l by (simp add: group_block_def usize_simps)
  have "?f + gi * ?p \<le> es_blocks_count sb" "es_blocks_count sb < 2 ^ 32" using assms by (simp_all add: geo_def)
  then show "min ?p (u32_sub (es_blocks_count sb) (group_block sb gi)) = blocks_in sb gi"
    unfolding g blocks_in_def by (simp add: usize_simps)
  show "blocks_in sb gi \<le> 8 * bs" using assms(1) by (auto simp: geo_def blocks_in_def min_def)
  show w: "bgd_wf (groups ! gi)" using assms by (simp add: geo_def list_all_length)
  then have "bg_block_bitmap (groups ! gi) < 2 ^ 32" by (simp add: bgd_wf_def)
  then show "bg_block_bitmap (groups ! gi) < BLOCK_LIM" by (simp add: BLOCK_LIM_def)
qed

lemma block_split: "\<lbrakk>i < p\<rbrakk> \<Longrightarrow> (f + gi * p + i - f) div p = gi \<and> (f + gi * p + i - f) mod p = (i :: nat)"
  by simp

lemma gfree_lt: "i \<in> gfree content s gi \<Longrightarrow> i < es_blocks_per_group (x_sb s) \<and> i < blocks_in (x_sb s) gi"
  by (simp add: gfree_def free_bits_def blocks_in_def)

lemma free_blks_mem:
  assumes "gi < length (x_groups s)" "i < es_blocks_per_group (x_sb s)"
  shows "es_first_data_block (x_sb s) + gi * es_blocks_per_group (x_sb s) + i \<in> free_blks content s \<longleftrightarrow> i \<in> gfree content s gi"
  using assms by (simp add: free_blks_def)

text \<open>The invariant depends on the cache only through the view.\<close>

lemma alloc_inv_frame:
  assumes "alloc_inv content durable s" "x_frame s t" "x_inv content durable t" "fsv content t = fsv content s"
  shows "alloc_inv content durable t" "gfree content t = gfree content s" "bmp t = bmp s" "free_blks content t = free_blks content s"
proof -
  note f = x_frameD [OF assms(2)]
  show b: "bmp t = bmp s" by (simp add: fun_eq_iff bmp_def f)
  show g: "gfree content t = gfree content s" by (simp add: fun_eq_iff gfree_def f b assms(4))
  show "free_blks content t = free_blks content s" by (simp add: free_blks_def f g)
  show "alloc_inv content durable t" using assms(1,3) by (simp add: alloc_inv_def f g b assms(4))
qed

section \<open>One group\<close>

definition taken :: "('d \<Rightarrow> usize \<Rightarrow> bytes) \<Rightarrow> ('d \<Rightarrow> usize \<Rightarrow> bytes) \<Rightarrow> nat \<Rightarrow> nat \<Rightarrow> 'd ext2 \<Rightarrow> 'd ext2 \<Rightarrow> bool" where
  "taken content durable gi i s t \<longleftrightarrow> (\<exists>u. x_frame s u \<and> x_inv content durable u \<and> t = take_block gi u
     \<and> fsv content u = (fsv content s)(bmp s gi := mark_bit (fsv content s (bmp s gi)) i))"

definition kept :: "('d \<Rightarrow> usize \<Rightarrow> bytes) \<Rightarrow> ('d \<Rightarrow> usize \<Rightarrow> bytes) \<Rightarrow> usize set \<Rightarrow> 'd ext2 \<Rightarrow> 'd ext2 \<Rightarrow> bool" where
  "kept content durable B s t \<longleftrightarrow> x_frame s t \<and> x_inv content durable t \<and> (\<forall>c. c \<notin> B \<longrightarrow> fsv content t c = fsv content s c)"

lemma alloc_block_in_law:
  assumes inv: "alloc_inv content durable s" and gi: "gi < length (x_groups s)"
  shows "wp (alloc_block_in gi) (\<lambda>r t. case r of
      Inr None \<Rightarrow> kept content durable {} s t \<and> gfree content s gi = {}
    | Inr (Some b) \<Rightarrow> \<exists>i \<in> gfree content s gi. taken content durable gi i s t
        \<and> b = es_first_data_block (x_sb s) + gi * es_blocks_per_group (x_sb s) + i
    | Inl e \<Rightarrow> io_fault s e \<and> kept content durable {bmp s gi} s t) s"
    (is "wp _ ?Q s")
proof -
  let ?bg = "x_groups s ! gi" and ?sb = "x_sb s" and ?b = "bmp s gi" and ?n = "blocks_in (x_sb s) gi"
  have xi: "x_inv content durable s" and g: "geo ?sb (x_groups s) (x_block_size s)" and ro: "\<not> x_read_only s"
    and cnt: "bg_free_blocks_count ?bg = card (gfree content s gi)"
    and len: "length (fsv content s ?b) = x_block_size s"
    using inv gi by (simp_all add: alloc_inv_def)
  note gd = geoD [OF g gi]
  have b: "?b < BLOCK_LIM" using gd(7) by (simp add: bmp_def)
  let ?d = "fsv content s ?b"
  have n8: "?n \<le> 8 * length ?d" using gd(5) len by simp
  show ?thesis
  proof (cases "bg_free_blocks_count ?bg = 0")
    case True
    then have "gfree content s gi = {}" using cnt by (simp add: gfree_def)
    then show ?thesis using True xi by (simp add: alloc_block_in_def wp_simps kept_def)
  next
    case False
    have "wp (thn (read_fs_block ?b) (\<lambda>bitmap_buf.
       let bitmap = bm_from_bytes bitmap_buf ?n in
       case find_first_clear bitmap of
         None \<Rightarrow> ret None
       | Some local_idx \<Rightarrow>
           thn (lift (bm_set bitmap local_idx)) (\<lambda>bitmap.
           thn (write_fs_block ?b (bm_data bitmap)) (\<lambda>_.
           thn (upd (take_block gi)) (\<lambda>_.
           ret (Some (u32_add (u32_add (u32_mul gi (es_blocks_per_group ?sb)) local_idx)
                         (es_first_data_block ?sb)))))))) ?Q s"
    proof (rule wp_seq [OF xb.rd_law [OF xi b]], goal_cases)
      case (1 e t)
      then show ?case by (simp add: kept_def)
    next
      case (2 buf t)
      then have t: "x_frame s t" "x_inv content durable t" "fsv content t = fsv content s" "buf = ?d" by auto
      show ?case
      proof (cases "find_first_clear (bm_from_bytes ?d ?n)")
        case None
        then have "gfree content s gi = {}" using find_first_clear_free [OF n8] by (simp add: gfree_def)
        then show ?thesis using None t by (simp add: wp_simps kept_def)
      next
        case (Some i)
        then have i: "i \<in> gfree content s gi" using find_first_clear_free [OF n8] by (simp add: gfree_def)
        note lt = gfree_lt [OF i]
        have res: "u32_add (u32_add (u32_mul gi (es_blocks_per_group ?sb)) i) (es_first_data_block ?sb)
            = es_first_data_block ?sb + gi * es_blocks_per_group ?sb + i"
          using gd(4) lt unfolding gd(3) by (simp add: usize_simps)
        have "length (mark_bit ?d i) = x_block_size t" using len x_frameD(3) [OF t(1)] by simp
        moreover have "\<not> x_read_only t" using ro x_frameD(4) [OF t(1)] by simp
        ultimately have w: "wp (write_fs_block ?b (mark_bit ?d i)) (\<lambda>r u. x_frame t u \<and> x_inv content durable u
          \<and> (case r of Inr _ \<Rightarrow> fsv content u = (fsv content t)(?b := mark_bit ?d i)
              | Inl e \<Rightarrow> io_fault t e \<and> (\<forall>c. c \<noteq> ?b \<longrightarrow> fsv content u c = fsv content t c))) t"
          using xb.wr_success [OF t(2) b] by blast
        have set: "bm_set (bm_from_bytes ?d ?n) i = Inr \<lparr>bm_data = mark_bit ?d i, bm_size = ?n\<rparr>"
          using bm_set_eq n8 lt by blast
        show ?thesis
          unfolding t(4) Let_def Some option.case set wp_thn wp_basic(4) sum.case bitmap.select_convs
          by (rule wp_mono [OF w])
            (use t i x_frame_trans [OF t(1)] io_fault_frame(1) [OF t(1)] in
              \<open>auto simp: wp_simps res taken_def kept_def split: sum.splits\<close>)
      qed
    qed
    then show ?thesis
      using False by (subst wp_cong [where m' = "thn _ _"]) (simp_all add: alloc_block_in_def gd(2) Let_def bmp_def cong del: option.case_cong_weak)
  qed
qed

section \<open>Changing one bitmap\<close>

text \<open>
  A step that replaces the bitmap of group \<open>gi\<close> and adjusts both counters by the change of
  its number of clear bits keeps the invariant.
\<close>

definition recounted :: "('d \<Rightarrow> usize \<Rightarrow> bytes) \<Rightarrow> nat \<Rightarrow> bytes \<Rightarrow> 'd ext2 \<Rightarrow> 'd ext2 \<Rightarrow> bool" where
  "recounted content gi d s t \<longleftrightarrow> fsv content t = (fsv content s)(bmp s gi := d) \<and> (\<exists>c k.
     x_groups t = (x_groups s)[gi := (x_groups s ! gi)\<lparr>bg_free_blocks_count := c\<rparr>]
     \<and> x_sb t = (x_sb s)\<lparr>es_free_blocks_count := k\<rparr>
     \<and> x_block_size t = x_block_size s \<and> x_read_only t = x_read_only s \<and> x_sb_held t = x_sb_held s
     \<and> x_objs t = x_objs s \<and> x_icache t = x_icache s
     \<and> c = card (free_bits d (blocks_in (x_sb s) gi)) \<and> c < 2 ^ 16
     \<and> k + card (gfree content s gi) = es_free_blocks_count (x_sb s) + c)"

lemma recounted_gfree:
  assumes inv: "alloc_inv content durable s" and gi: "gi < length (x_groups s)" and r: "recounted content gi d s t"
  shows "bmp t = bmp s" "gj < length (x_groups s) \<Longrightarrow>
    gfree content t gj = (if gj = gi then free_bits d (blocks_in (x_sb s) gi) else gfree content s gj)"
proof -
  obtain c k where t: "x_groups t = (x_groups s)[gi := (x_groups s ! gi)\<lparr>bg_free_blocks_count := c\<rparr>]"
    "x_sb t = (x_sb s)\<lparr>es_free_blocks_count := k\<rparr>" and v: "fsv content t = (fsv content s)(bmp s gi := d)"
    using r by (auto simp: recounted_def)
  show b: "bmp t = bmp s"
    using gi by (auto simp: fun_eq_iff bmp_def t(1) nth_list_update)
  have bi: "blocks_in (x_sb t) = blocks_in (x_sb s)" by (simp add: fun_eq_iff blocks_in_def t(2))
  have "bmp s gj \<noteq> bmp s gi" if "gj \<noteq> gi" "gj < length (x_groups s)"
  proof -
    have "distinct (map bg_block_bitmap (x_groups s))" using inv by (simp add: alloc_inv_def geo_def)
    then show ?thesis using that gi by (simp add: bmp_def distinct_conv_nth)
  qed
  then show "gj < length (x_groups s) \<Longrightarrow>
    gfree content t gj = (if gj = gi then free_bits d (blocks_in (x_sb s) gi) else gfree content s gj)"
    by (simp add: gfree_def b bi v)
qed

lemma recounted_inv:
  assumes inv: "alloc_inv content durable s" and gi: "gi < length (x_groups s)" and r: "recounted content gi d s t"
    and x: "x_inv content durable t" "length d = x_block_size s"
  shows "alloc_inv content durable t"
proof -
  let ?gs = "x_groups s" let ?n = "length ?gs"
  obtain c k where t: "x_groups t = ?gs[gi := (?gs ! gi)\<lparr>bg_free_blocks_count := c\<rparr>]"
    "x_sb t = (x_sb s)\<lparr>es_free_blocks_count := k\<rparr>" "x_block_size t = x_block_size s" "x_read_only t = x_read_only s"
    "x_sb_held t = x_sb_held s" and c: "c = card (free_bits d (blocks_in (x_sb s) gi))" "c < 2 ^ 16"
    and k: "k + card (gfree content s gi) = es_free_blocks_count (x_sb s) + c"
    and v: "fsv content t = (fsv content s)(bmp s gi := d)"
    using r unfolding recounted_def by blast
  note g = recounted_gfree [OF inv gi r]
  have geo: "geo (x_sb s) ?gs (x_block_size s)" using inv by (simp add: alloc_inv_def)
  have "list_all bgd_wf (x_groups t)"
    using geo gi c(2) by (auto simp: geo_def t(1) list_all_length nth_list_update bgd_wf_def)
  moreover have "map bg_block_bitmap (x_groups t) = map bg_block_bitmap ?gs"
    using gi by (simp add: t(1) map_update list_update_same_conv)
  ultimately have geo': "geo (x_sb t) (x_groups t) (x_block_size t)"
    using geo by (simp add: geo_def t)
  have cnt: "bg_free_blocks_count (x_groups t ! gj) = card (gfree content t gj)" if "gj < ?n" for gj
    using inv gi that c(1) g(2) [OF that] by (cases "gj = gi") (simp_all add: t(1) alloc_inv_def)
  have len: "length (fsv content t (bmp t gj)) = x_block_size t" if "gj < ?n" for gj
    using inv that x(2) by (simp add: g(1) v t(3) alloc_inv_def)
  have "(\<Sum>gj < ?n. card (gfree content t gj)) + card (gfree content s gi) = (\<Sum>gj < ?n. card (gfree content s gj)) + c"
  proof -
    have "(\<Sum>gj < ?n. card (gfree content t gj)) = card (gfree content t gi) + (\<Sum>gj \<in> {..<?n} - {gi}. card (gfree content t gj))"
      using gi by (subst sum.remove [of _ gi]) simp_all
    also have "(\<Sum>gj \<in> {..<?n} - {gi}. card (gfree content t gj)) = (\<Sum>gj \<in> {..<?n} - {gi}. card (gfree content s gj))"
      using g(2) by (intro sum.cong) auto
    finally show ?thesis using gi g(2) [OF gi] c(1) sum.remove [of "{..<?n}" gi "\<lambda>gj. card (gfree content s gj)"] by simp
  qed
  then have "k = (\<Sum>gj < ?n. card (gfree content t gj))" using inv k by (simp add: alloc_inv_def)
  then show ?thesis using inv x(1) geo' cnt len t by (simp add: alloc_inv_def)
qed

lemma recounted_free_blks:
  assumes "alloc_inv content durable s" "gi < length (x_groups s)" "recounted content gi d s t"
    and "i < es_blocks_per_group (x_sb s)" "op = (\<lambda>S x. S - {x}) \<or> op = (\<lambda>S x. insert x S)"
    and "free_bits d (blocks_in (x_sb s) gi) = op (gfree content s gi) i"
  shows "free_blks content t = op (free_blks content s)
    (es_first_data_block (x_sb s) + gi * es_blocks_per_group (x_sb s) + i)"
proof -
  let ?f = "es_first_data_block (x_sb s)" and ?p = "es_blocks_per_group (x_sb s)"
  have t: "es_first_data_block (x_sb t) = ?f" "es_blocks_per_group (x_sb t) = ?p" "length (x_groups t) = length (x_groups s)"
    using assms(3) by (auto simp: recounted_def)
  have p: "0 < ?p" using assms(4) by simp
  note g = recounted_gfree(2) [OF assms(1-3)]
  have eq: "b = ?f + gi * ?p + i \<longleftrightarrow> ?f \<le> b \<and> (b - ?f) div ?p = gi \<and> (b - ?f) mod ?p = i" for b
  proof
    assume "?f \<le> b \<and> (b - ?f) div ?p = gi \<and> (b - ?f) mod ?p = i"
    moreover from this have "b - ?f = gi * ?p + i" using div_mult_mod_eq [of "b - ?f" ?p] by simp
    ultimately show "b = ?f + gi * ?p + i" by linarith
  qed (use assms(4) in simp)
  show ?thesis
    using assms(5)
  proof
    assume op: "op = (\<lambda>S x. S - {x})"
    show ?thesis unfolding op set_eq_iff
      using g assms(2,6) by (auto simp: free_blks_def t eq op split: if_splits)
  next
    assume op: "op = (\<lambda>S x. insert x S)"
    show ?thesis unfolding op set_eq_iff
      using g assms(2,6) by (auto simp: free_blks_def t eq op split: if_splits)
  qed
qed

section \<open>Taking and giving back a block\<close>

lemma take_block_view [simp]:
  "fsv content (take_block gi u) = fsv content u" "x_inv content durable (take_block gi u) = x_inv content durable u"
  "fsv content (give_block gi u) = fsv content u" "x_inv content durable (give_block gi u) = x_inv content durable u"
  by (simp_all add: fun_eq_iff take_block_def give_block_def fsv_def x_inv_def x_per_def x_dev_bs_def)

lemma es_free_bound:
  assumes "alloc_inv content durable s"
  shows "es_free_blocks_count (x_sb s) < 2 ^ 32"
proof -
  let ?n = "length (x_groups s)"
  have "(\<Sum>gi < ?n. card (gfree content s gi)) \<le> (\<Sum>gi < ?n. es_blocks_per_group (x_sb s))"
    using free_bits_bound le_trans by (intro sum_mono) (auto simp: gfree_def blocks_in_def intro: min.boundedE)
  also have "\<dots> < 2 ^ 32" using assms by (simp add: alloc_inv_def geo_def)
  finally show ?thesis using assms by (simp add: alloc_inv_def)
qed

lemma card_gfree_bound: "alloc_inv content durable s \<Longrightarrow> card (gfree content s gi) < 2 ^ 16"
  using free_bits_bound [of "fsv content s (bmp s gi)" "blocks_in (x_sb s) gi"]
  by (auto simp: alloc_inv_def geo_def gfree_def blocks_in_def)

lemma taken_recounted:
  assumes inv: "alloc_inv content durable s" and gi: "gi < length (x_groups s)" and i: "i \<in> gfree content s gi"
    and t: "taken content durable gi i s t"
  shows "recounted content gi (mark_bit (fsv content s (bmp s gi)) i) s t" "x_inv content durable t"
    "free_bits (mark_bit (fsv content s (bmp s gi)) i) (blocks_in (x_sb s) gi) = gfree content s gi - {i}"
proof -
  let ?d = "fsv content s (bmp s gi)" and ?n = "blocks_in (x_sb s) gi"
  obtain u where u: "x_frame s u" "x_inv content durable u" "t = take_block gi u" "fsv content u = (fsv content s)(bmp s gi := mark_bit ?d i)"
    using t by (auto simp: taken_def)
  note f = x_frameD [OF u(1)]
  have geo: "geo (x_sb s) (x_groups s) (x_block_size s)" and len: "length ?d = x_block_size s"
    and cnt: "bg_free_blocks_count (x_groups s ! gi) = card (gfree content s gi)"
    using inv gi by (simp_all add: alloc_inv_def)
  show fb: "free_bits (mark_bit ?d i) ?n = gfree content s gi - {i}"
    using free_bits_mark(1) [of i ?n ?d] gfree_lt [OF i] geoD(5) [OF geo gi] len by (simp add: gfree_def)
  have fin: "finite (gfree content s gi)" by (simp add: gfree_def)
  then have c: "card (gfree content s gi - {i}) = card (gfree content s gi) - 1" "0 < card (gfree content s gi)"
    using i by (auto simp: card_gt_0_iff)
  have "card (gfree content s gi) \<le> es_free_blocks_count (x_sb s)"
    using inv gi member_le_sum [of gi "{..<length (x_groups s)}" "\<lambda>g. card (gfree content s g)"] by (simp add: alloc_inv_def)
  then have k: "u16_sub (card (gfree content s gi)) 1 = card (gfree content s gi) - 1"
    "u32_sub (es_free_blocks_count (x_sb s)) 1 + card (gfree content s gi) = es_free_blocks_count (x_sb s) + (card (gfree content s gi) - 1)"
    using c(2) es_free_bound [OF inv] card_gfree_bound [OF inv, of gi] by (simp_all add: u16_sub_eq u32_sub_eq)
  have "fsv content t = (fsv content s)(bmp s gi := mark_bit ?d i)" using u(3,4) by simp
  moreover have "x_groups t = (x_groups s)[gi := (x_groups s ! gi)\<lparr>bg_free_blocks_count := card (gfree content s gi) - 1\<rparr>]"
    unfolding u(3) take_block_def using k(1) by (simp add: f cnt)
  moreover have "x_sb t = (x_sb s)\<lparr>es_free_blocks_count := u32_sub (es_free_blocks_count (x_sb s)) 1\<rparr>"
    unfolding u(3) take_block_def by (simp add: f)
  moreover have "x_block_size t = x_block_size s" "x_read_only t = x_read_only s" "x_sb_held t = x_sb_held s"
    "x_objs t = x_objs s" "x_icache t = x_icache s"
    unfolding u(3) take_block_def by (simp_all add: f)
  moreover have "card (gfree content s gi) - 1 = card (free_bits (mark_bit ?d i) ?n)" using fb c(1) by simp
  moreover have "card (gfree content s gi) - 1 < 2 ^ 16" using card_gfree_bound [OF inv, of gi] by simp
  ultimately show "recounted content gi (mark_bit ?d i) s t" unfolding recounted_def using k(2) by blast
  show "x_inv content durable t" using u by simp
qed

definition given :: "('d \<Rightarrow> usize \<Rightarrow> bytes) \<Rightarrow> ('d \<Rightarrow> usize \<Rightarrow> bytes) \<Rightarrow> nat \<Rightarrow> nat \<Rightarrow> 'd ext2 \<Rightarrow> 'd ext2 \<Rightarrow> bool" where
  "given content durable gi i s t \<longleftrightarrow> (\<exists>u. x_frame s u \<and> x_inv content durable u \<and> t = give_block gi u
     \<and> fsv content u = (fsv content s)(bmp s gi := unmark_bit (fsv content s (bmp s gi)) i))"

lemma given_recounted:
  assumes inv: "alloc_inv content durable s" and gi: "gi < length (x_groups s)"
    and i: "i \<notin> gfree content s gi" "i < blocks_in (x_sb s) gi"
    and t: "given content durable gi i s t"
  shows "recounted content gi (unmark_bit (fsv content s (bmp s gi)) i) s t" "x_inv content durable t"
    "free_bits (unmark_bit (fsv content s (bmp s gi)) i) (blocks_in (x_sb s) gi) = insert i (gfree content s gi)"
    "x_groups t = (x_groups s)[gi := (x_groups s ! gi)\<lparr>bg_free_blocks_count := Suc (bg_free_blocks_count (x_groups s ! gi))\<rparr>]"
    "x_sb t = (x_sb s)\<lparr>es_free_blocks_count := Suc (es_free_blocks_count (x_sb s))\<rparr>"
proof -
  let ?d = "fsv content s (bmp s gi)" and ?n = "blocks_in (x_sb s) gi"
  obtain u where u: "x_frame s u" "x_inv content durable u" "t = give_block gi u" "fsv content u = (fsv content s)(bmp s gi := unmark_bit ?d i)"
    using t by (auto simp: given_def)
  note f = x_frameD [OF u(1)]
  have geo: "geo (x_sb s) (x_groups s) (x_block_size s)" and len: "length ?d = x_block_size s"
    and cnt: "bg_free_blocks_count (x_groups s ! gi) = card (gfree content s gi)"
    and ef: "es_free_blocks_count (x_sb s) = (\<Sum>gi < length (x_groups s). card (gfree content s gi))"
    using inv gi by (simp_all add: alloc_inv_def)
  show fb: "free_bits (unmark_bit ?d i) ?n = insert i (gfree content s gi)"
    using free_bits_mark(2) [of i ?n ?d] i(2) geoD(5) [OF geo gi] len by (simp add: gfree_def)
  have fin: "finite (gfree content s gi)" by (simp add: gfree_def)
  then have c: "card (insert i (gfree content s gi)) = Suc (card (gfree content s gi))" using i(1) by simp
  have n16: "?n < 2 ^ 16" using geo by (auto simp: geo_def blocks_in_def min_def)
  have c16: "Suc (card (gfree content s gi)) < 2 ^ 16"
    using free_bits_bound [of "unmark_bit ?d i" ?n] n16 unfolding fb c by linarith
  have "es_free_blocks_count (x_sb s) < es_blocks_per_group (x_sb s) * length (x_groups s)"
  proof -
    have "card (gfree content s g) \<le> es_blocks_per_group (x_sb s)" for g
      using free_bits_bound [of "fsv content s (bmp s g)" "blocks_in (x_sb s) g"] by (simp add: gfree_def blocks_in_def)
    moreover have "card (gfree content s gi) < es_blocks_per_group (x_sb s)"
      using free_bits_bound [of "unmark_bit ?d i" ?n] unfolding fb c by (simp add: blocks_in_def)
    ultimately have "(\<Sum>gi < length (x_groups s). card (gfree content s gi)) < (\<Sum>gi < length (x_groups s). es_blocks_per_group (x_sb s))"
      using gi by (intro sum_strict_mono_ex1) auto
    then show ?thesis using ef by (simp add: mult.commute)
  qed
  then have e32: "Suc (es_free_blocks_count (x_sb s)) < 2 ^ 32" using geo by (simp add: geo_def mult.commute)
  have k: "u16_add (card (gfree content s gi)) 1 = Suc (card (gfree content s gi))"
    "u32_add (es_free_blocks_count (x_sb s)) 1 = Suc (es_free_blocks_count (x_sb s))"
    using c16 e32 by (simp_all add: u16_add_eq u32_add_eq)
  show gs: "x_groups t = (x_groups s)[gi := (x_groups s ! gi)\<lparr>bg_free_blocks_count := Suc (bg_free_blocks_count (x_groups s ! gi))\<rparr>]"
    unfolding u(3) give_block_def using k(1) by (simp add: f cnt)
  show sb: "x_sb t = (x_sb s)\<lparr>es_free_blocks_count := Suc (es_free_blocks_count (x_sb s))\<rparr>"
    unfolding u(3) give_block_def using k(2) by (simp add: f)
  have "fsv content t = (fsv content s)(bmp s gi := unmark_bit ?d i)" using u(3,4) by simp
  moreover have "x_block_size t = x_block_size s" "x_read_only t = x_read_only s" "x_sb_held t = x_sb_held s"
    "x_objs t = x_objs s" "x_icache t = x_icache s"
    unfolding u(3) give_block_def by (simp_all add: f)
  moreover have "Suc (card (gfree content s gi)) = card (free_bits (unmark_bit ?d i) ?n)" using fb c by simp
  moreover have "Suc (es_free_blocks_count (x_sb s)) + card (gfree content s gi) = es_free_blocks_count (x_sb s) + Suc (card (gfree content s gi))"
    by simp
  ultimately show "recounted content gi (unmark_bit ?d i) s t"
    unfolding recounted_def using gs sb c16 cnt by metis
  show "x_inv content durable t" using u by simp
qed

lemma kept_trans: "\<lbrakk>kept content durable {} s t; kept content durable B t u\<rbrakk> \<Longrightarrow> kept content durable B s u"
  by (auto simp: kept_def intro: x_frame_trans)

lemma kept_view: "kept content durable {} s t \<Longrightarrow> fsv content t = fsv content s"
  by (simp add: kept_def fun_eq_iff)

lemma taken_kept:
  assumes "kept content durable {} s t" "bmp t = bmp s" "taken content durable gi i t u"
  shows "taken content durable gi i s u"
  using assms kept_view [OF assms(1)] x_frame_trans unfolding taken_def kept_def by fastforce

lemma alloc_block_scan_law:
  assumes "alloc_inv content durable s" "\<forall>gi \<in> set gis. gi < length (x_groups s)"
  shows "wp (alloc_block_scan gis) (\<lambda>r t. case r of
      Inr None \<Rightarrow> kept content durable {} s t \<and> (\<forall>gi \<in> set gis. gfree content s gi = {})
    | Inr (Some b) \<Rightarrow> \<exists>pre gi post. gis = pre @ gi # post \<and> (\<forall>g \<in> set pre. gfree content s g = {})
        \<and> (\<exists>i \<in> gfree content s gi. taken content durable gi i s t
            \<and> b = es_first_data_block (x_sb s) + gi * es_blocks_per_group (x_sb s) + i)
    | Inl e \<Rightarrow> io_fault s e \<and> (\<exists>gi \<in> set gis. kept content durable {bmp s gi} s t)) s"
  using assms
proof (induction gis arbitrary: s)
  case Nil
  then show ?case by (simp add: wp_simps kept_def alloc_inv_def)
next
  case (Cons gi gis)
  have "gi < length (x_groups s)" using Cons.prems(2) by simp
  then show ?case
    unfolding alloc_block_scan.simps
  proof (rule wp_seq [OF alloc_block_in_law [OF Cons.prems(1)]], goal_cases)
    case (1 e t)
    then show ?case by simp
  next
    case (2 r t)
    show ?case
    proof (cases r)
      case (Some b)
      then show ?thesis using 2 by (auto simp: wp_simps intro!: exI [of _ "[]"])
    next
      case None
      then have k: "kept content durable {} s t" "gfree content s gi = {}" using 2 by simp_all
      then have f: "x_frame s t" "x_inv content durable t" by (simp_all add: kept_def)
      note a = alloc_inv_frame [OF Cons.prems(1) f kept_view [OF k(1)]]
      have ih: "wp (alloc_block_scan gis) (\<lambda>r u. case r of
          Inr None \<Rightarrow> kept content durable {} t u \<and> (\<forall>gi \<in> set gis. gfree content t gi = {})
        | Inr (Some b) \<Rightarrow> \<exists>pre gi post. gis = pre @ gi # post \<and> (\<forall>g \<in> set pre. gfree content t g = {})
            \<and> (\<exists>i \<in> gfree content t gi. taken content durable gi i t u
                \<and> b = es_first_data_block (x_sb t) + gi * es_blocks_per_group (x_sb t) + i)
        | Inl e \<Rightarrow> io_fault t e \<and> (\<exists>gi \<in> set gis. kept content durable {bmp t gi} t u)) t"
        using Cons.prems(2) x_frameD(2) [OF f(1)] by (intro Cons.IH [OF a(1)]) simp
      show ?thesis unfolding None option.case
      proof (rule wp_mono [OF ih], unfold a(2,3) x_frameD(1) [OF f(1)] io_fault_frame(1) [OF f(1)], goal_cases)
        case (1 r u)
        show ?case
        proof (cases r)
          case (Inl e)
          then show ?thesis using 1 kept_trans [OF k(1)] by auto
        next
          case (Inr o')
          show ?thesis
          proof (cases o')
            case None
            then show ?thesis using 1 Inr kept_trans [OF k(1)] k(2) by auto
          next
            case (Some b)
            then obtain pre gj post i where p: "gis = pre @ gj # post" "\<forall>g \<in> set pre. gfree content s g = {}"
              "i \<in> gfree content s gj" "taken content durable gj i t u" "b = es_first_data_block (x_sb s) + gj * es_blocks_per_group (x_sb s) + i"
              using 1 Inr by auto
            have "taken content durable gj i s u" using taken_kept [OF k(1) a(3) p(4)] .
            then show ?thesis
              using p k(2) Inr Some by (auto intro!: exI [of _ "gi # pre"])
          qed
        qed
      qed
    qed
  qed
qed

text \<open>The bitmap blocks of all groups.\<close>

definition bitmaps :: "'d ext2 \<Rightarrow> usize set" where
  "bitmaps s = bg_block_bitmap ` set (x_groups s)"

lemma bmp_bitmaps: "gi < length (x_groups s) \<Longrightarrow> bmp s gi \<in> bitmaps s"
  by (simp add: bmp_def bitmaps_def)

lemma no_group_free: "(\<forall>gi < length (x_groups s). gfree content s gi = {}) \<Longrightarrow> free_blks content s = {}"
  by (auto simp: free_blks_def)

lemma goal_order:
  assumes "0 < n"
  shows "set (map (\<lambda>step. (goal + step) mod n) [0..<n]) = {..<n}"
proof (intro equalityI subsetI)
  fix gi assume "gi \<in> {..<n}"
  then have gi: "gi < n" by simp
  let ?step = "(gi + (n - goal mod n)) mod n"
  have "goal mod n < n" using assms by simp
  then have "goal + (gi + (n - goal mod n)) = gi + n * (goal div n + 1)"
    using mult_div_mod_eq [of n goal] unfolding add_mult_distrib2 by linarith
  then have "(goal + (gi + (n - goal mod n))) mod n = gi" using gi by (simp only: mod_mult_self2 mod_less)
  then have "(goal + ?step) mod n = gi" by (simp only: mod_add_right_eq)
  moreover have "?step < n" using assms by simp
  ultimately show "gi \<in> set (map (\<lambda>step. (goal + step) mod n) [0..<n])" by force
qed (use assms in auto)

lemma alloc_block_law:
  assumes inv: "alloc_inv content durable s"
  shows "wp (alloc_block_goal goal) (\<lambda>r t. case r of
      Inr b \<Rightarrow> \<exists>gi i. gi < length (x_groups s) \<and> i \<in> gfree content s gi \<and> taken content durable gi i s t
        \<and> b = es_first_data_block (x_sb s) + gi * es_blocks_per_group (x_sb s) + i
        \<and> (gfree content s (goal mod length (x_groups s)) \<noteq> {} \<longrightarrow> gi = goal mod length (x_groups s))
    | Inl e \<Rightarrow> e = FsErr NoSpace \<and> kept content durable {} s t \<and> free_blks content s = {}
        \<or> io_fault s e \<and> kept content durable (bitmaps s) s t) s"
    (is "wp _ ?Q s")
proof -
  let ?n = "length (x_groups s)" let ?gis = "map (\<lambda>step. (goal + step) mod ?n) [0..<?n]"
  have all: "\<forall>gi \<in> set ?gis. gi < ?n" by (auto intro!: mod_less_divisor)
  have eq: "alloc_block_goal goal s = thn (alloc_block_scan ?gis) (\<lambda>r. lift (ok_or r (FsErr NoSpace))) s"
    using inv by (simp add: alloc_block_goal_def alloc_inv_def thn_get_sb Let_def)
  have "wp (thn (alloc_block_scan ?gis) (\<lambda>r. lift (ok_or r (FsErr NoSpace)))) ?Q s"
  proof (rule wp_seq [OF alloc_block_scan_law [OF inv all]], goal_cases)
    case (1 e t)
    then obtain gi where gi: "gi \<in> set ?gis" "io_fault s e" "kept content durable {bmp s gi} s t" by auto
    then have "gi < ?n" using all by blast
    then have "bmp s gi \<in> bitmaps s" by (rule bmp_bitmaps)
    then have "kept content durable (bitmaps s) s t" using gi(3) unfolding kept_def by force
    then show ?case using gi(2) by simp
  next
    case (2 r t)
    show ?case
    proof (cases r)
      case None
      have "gfree content s gi = {}" if "gi < ?n" for gi
      proof -
        have "0 < ?n" using that by linarith
        then have "gi \<in> set ?gis" using goal_order [of ?n goal] that by blast
        then show ?thesis using 2 unfolding None sum.case option.case by blast
      qed
      then have "free_blks content s = {}" by (intro no_group_free) simp
      then show ?thesis using 2 None by (simp add: wp_simps)
    next
      case (Some b)
      then obtain pre gi post i where p: "?gis = pre @ gi # post" "\<forall>g \<in> set pre. gfree content s g = {}"
        "i \<in> gfree content s gi" "taken content durable gi i s t"
        "b = es_first_data_block (x_sb s) + gi * es_blocks_per_group (x_sb s) + i" using 2 by auto
      have "gi < ?n" using all p(1) by (metis in_set_conv_decomp)
      moreover from this have "0 < ?n" by linarith
      then have "?gis = goal mod ?n # map (\<lambda>step. (goal + step) mod ?n) [Suc 0..<?n]" by (simp only: upt_conv_Cons) simp
      then have first: "pre @ gi # post = goal mod ?n # map (\<lambda>step. (goal + step) mod ?n) [Suc 0..<?n]" using p(1) by simp
      have "gi = goal mod ?n" if "gfree content s (goal mod ?n) \<noteq> {}"
        using first p(2) that by (cases pre) auto
      ultimately show ?thesis using Some p(3-5) by (auto simp: wp_simps)
    qed
  qed
  then show ?thesis by (rule wp_eqI) (rule eq)
qed

lemma taken_reliable: "taken content durable gi i s t \<Longrightarrow> reliable t = reliable s"
  by (auto simp: taken_def take_block_def reliable_def x_frame_def)

lemma taken_inv:
  assumes inv: "alloc_inv content durable s" and gi: "gi < length (x_groups s)" and i: "i \<in> gfree content s gi"
    and t: "taken content durable gi i s t"
    and b: "b = es_first_data_block (x_sb s) + gi * es_blocks_per_group (x_sb s) + i"
  shows "alloc_inv content durable t" "free_blks content t = free_blks content s - {b}" "b \<in> free_blks content s"
    "b < es_blocks_count (x_sb s)" "c \<notin> bitmaps s \<Longrightarrow> fsv content t c = fsv content s c"
proof -
  note r = taken_recounted [OF inv gi i t] and lt = gfree_lt [OF i]
  have len: "length (fsv content s (bmp s gi)) = x_block_size s" using inv gi by (simp add: alloc_inv_def)
  show "alloc_inv content durable t" using recounted_inv [OF inv gi r(1,2)] len by simp
  show "free_blks content t = free_blks content s - {b}"
    unfolding b by (rule recounted_free_blks [OF inv gi r(1), where op = "\<lambda>S x. S - {x}"]) (use lt r(3) in simp_all)
  show "b \<in> free_blks content s" using free_blks_mem [OF gi] lt i b by simp
  show "b < es_blocks_count (x_sb s)" using lt unfolding b blocks_in_def by linarith
  show "c \<notin> bitmaps s \<Longrightarrow> fsv content t c = fsv content s c"
    using r(1) bmp_bitmaps [OF gi] by (auto simp: recounted_def)
qed

lemma free_block_law:
  assumes inv: "alloc_inv content durable s" and gi: "gi < length (x_groups s)"
    and i: "i < blocks_in (x_sb s) gi"
    and b: "b = es_first_data_block (x_sb s) + gi * es_blocks_per_group (x_sb s) + i"
  shows "wp (free_block b) (\<lambda>r t. case r of
      Inr _ \<Rightarrow> given content durable gi i s t
    | Inl e \<Rightarrow> io_fault s e \<and> kept content durable {bmp s gi} s t) s"
    (is "wp _ ?Q s")
proof -
  let ?b = "bmp s gi" and ?p = "es_blocks_per_group (x_sb s)" and ?f = "es_first_data_block (x_sb s)"
  have xi: "x_inv content durable s" and g: "geo (x_sb s) (x_groups s) (x_block_size s)" and ro: "\<not> x_read_only s"
    and held: "\<not> x_sb_held s" and len: "length (fsv content s ?b) = x_block_size s"
    using inv gi by (simp_all add: alloc_inv_def)
  note gd = geoD [OF g gi]
  have bl: "?b < BLOCK_LIM" using gd(7) by (simp add: bmp_def)
  have ip: "i < ?p" using i by (simp add: blocks_in_def)
  have p8: "?p \<le> 8 * x_block_size s" using g by (simp add: geo_def)
  have sp: "(b - ?f) div ?p = gi" "(b - ?f) mod ?p = i" "?f \<le> b" using b ip by simp_all
  let ?f = "\<lambda>buf. unmark_bit buf i"
  let ?m = "thn (read_fs_block ?b) (\<lambda>buf. thn (lift (bm_clear (bm_from_bytes buf ?p) i)) (\<lambda>bitmap.
      thn (write_fs_block ?b (bm_data bitmap)) (\<lambda>_. upd (give_block gi))))"
  have eq: "free_block b s = ?m s"
    using ro held sp gi by (simp add: free_block_def thn_get_sb guard_def bmp_def checked_sub_def Let_def)
  have "wp ?m ?Q s"
  proof (rule wp_seq [OF xb.rd_law [OF xi bl]], goal_cases)
    case (1 e t)
    then show ?case by (simp add: kept_def)
  next
    case (2 buf t)
    then have t: "x_frame s t" "x_inv content durable t" "fsv content t = fsv content s" "buf = fsv content s ?b" by auto
    have "length (?f buf) = x_block_size t" "\<not> x_read_only t" using t len ro x_frameD [OF t(1)] by simp_all
    from xb.wr_success [OF t(2) bl this(2,1)]
    have w: "wp (write_fs_block ?b (?f buf)) (\<lambda>r u. x_frame t u \<and> x_inv content durable u
        \<and> (case r of Inr _ \<Rightarrow> fsv content u = (fsv content t)(?b := ?f buf)
            | Inl e \<Rightarrow> io_fault t e \<and> (\<forall>c. c \<noteq> ?b \<longrightarrow> fsv content u c = fsv content t c))) t" .
    have "bm_clear (bm_from_bytes buf ?p) i = Inr \<lparr>bm_data = ?f buf, bm_size = ?p\<rparr>"
      using bm_clear_eq [OF ip, of buf] p8 t(4) len by simp
    then show ?case
      unfolding wp_thn wp_basic(4)
      by simp (rule wp_mono [OF w], use t x_frame_trans [OF t(1)] io_fault_frame(1) [OF t(1)] in
          \<open>auto simp: wp_simps given_def kept_def split: sum.splits\<close>)
  qed
  then show ?thesis by (rule wp_eqI) (rule eq)
qed

lemma unmark_mark:
  assumes "\<not> bit_at d i" "i div 8 < length d"
  shows "unmark_bit (mark_bit d i) i = d"
proof -
  let ?w = "d ! (i div 8)"
  have "(?w OR push_bit (i mod 8) 1) AND NOT (push_bit (i mod 8) 1) = ?w"
  proof (rule bit_word_eqI)
    fix n assume "n < LENGTH(8)"
    then show "bit ((?w OR push_bit (i mod 8) 1) AND NOT (push_bit (i mod 8) 1)) n = bit ?w n"
      using assms(1) by (auto simp: bit_at_def bit_and_iff bit_or_iff bit_not_iff bit_exp_iff)
  qed
  then show ?thesis using assms(2) by (simp add: unmark_bit_def mark_bit_def)
qed

section \<open>A sample image\<close>

text \<open>
  Sixty-four blocks of 1 KiB in one group: the bitmaps in blocks 3 and 4, the inode table of
  sixteen inodes in blocks 5 and 6, the root directory in block 7; eleven inodes are in use.
\<close>

definition sample_root :: raw_inode where
  "sample_root = \<lparr>i_mode = 0x41ED, i_uid = 0, i_size = 1024, i_atime = 0, i_ctime = 0, i_mtime = 0, i_dtime = 0, i_gid = 0,
     i_links_count = 2, i_blocks = 2, i_flags = 0, i_osd1 = 0, i_block = 7 # replicate 14 0, i_generation = 0,
     i_file_acl = 0, i_dir_acl = 0, i_faddr = 0, i_osd2 = replicate 12 0\<rparr>"

definition sample_root_dir :: bytes where
  "sample_root_dir = le_bytes 4 2 @ le_bytes 2 12 @ [1, 2, 46, 0, 0, 0] @ le_bytes 4 2 @ le_bytes 2 1012 @ [2, 2, 46, 46]
     @ replicate 1002 0"

definition sample_img :: "usize \<Rightarrow> bytes" where
  "sample_img b = (if b = 3 then 0x7F # replicate 1023 0
     else if b = 4 then 0xFF # 0x07 # replicate 1022 0
     else if b = 5 then replicate 128 0 @ inode_bytes sample_root @ replicate 768 0
     else if b = 7 then sample_root_dir else replicate 1024 0)"

definition sample_ext2_sb :: ext2_sb where
  "sample_ext2_sb = sample_sb\<lparr>es_inodes_count := 16, es_blocks_count := 64, es_free_blocks_count := 56,
     es_free_inodes_count := 5, es_inodes_per_group := 16\<rparr>"

definition sample_bg :: bg_desc where
  "sample_bg = \<lparr>bg_block_bitmap = 3, bg_inode_bitmap = 4, bg_inode_table = 5, bg_free_blocks_count = 56,
     bg_free_inodes_count = 5, bg_used_dirs_count = 1, bg_pad = 0, bg_reserved = [0, 0, 0]\<rparr>"

text \<open>A disk that never fails, with a volatile and a persistent image.\<close>

definition flush_disk :: "usize \<Rightarrow> ((usize \<Rightarrow> bytes) \<times> (usize \<Rightarrow> bytes)) block_device" where
  "flush_disk bs = \<lparr>bd_read = (\<lambda>d k n. Inr (pad n (fst d k))), bd_write = (\<lambda>d k buf. (Inr (), (fst d)(k := buf), snd d)),
     bd_flush = (\<lambda>d. (Inr (), fst d, fst d)), bd_block_size = bs, bd_total_blocks = 64\<rparr>"

abbreviation disk_now :: "(usize \<Rightarrow> bytes) \<times> (usize \<Rightarrow> bytes) \<Rightarrow> usize \<Rightarrow> bytes" where
  "disk_now d k \<equiv> pad 1024 (fst d k)"

abbreviation disk_safe :: "(usize \<Rightarrow> bytes) \<times> (usize \<Rightarrow> bytes) \<Rightarrow> usize \<Rightarrow> bytes" where
  "disk_safe d k \<equiv> pad 1024 (snd d k)"

lemma pad_id: "length b = n \<Longrightarrow> pad n b = b"
  by (simp add: pad_def)

lemma length_pad [simp]: "length (pad n b) = n"
  by (simp add: pad_def)

lemma flush_disk_ok: "device_ok (flush_disk 1024) disk_now disk_safe" "never_fails (flush_disk bs)"
  by (auto simp: device_ok_def flush_disk_def fun_eq_iff pad_id) (simp add: never_fails_def)

definition sample_fs :: "((usize \<Rightarrow> bytes) \<times> (usize \<Rightarrow> bytes)) ext2" where
  "sample_fs = \<lparr>x_cache = cache_new (flush_disk 1024) (sample_img, sample_img) BLOCK_CACHE_CAPACITY, x_sb = sample_ext2_sb,
     x_sb_held = False, x_groups = [sample_bg], x_block_size = 1024, x_read_only = False, x_icache = [], x_objs = []\<rparr>"

lemma sample_fields [simp]:
  "x_block_size sample_fs = 1024" "x_dev_bs sample_fs = 1024" "x_per sample_fs = 1" "\<not> x_read_only sample_fs"
  "\<not> x_sb_held sample_fs" "x_groups sample_fs = [sample_bg]" "x_sb sample_fs = sample_ext2_sb" "x_objs sample_fs = []"
  "x_icache sample_fs = []" "reliable sample_fs"
  using flush_disk_ok(2) by (simp_all add: sample_fs_def x_dev_bs_def x_per_def cache_new_def reliable_def)
    (simp_all add: flush_disk_def)

lemma sample_x_inv: "x_inv disk_now disk_safe sample_fs"
  using flush_disk_ok(1)
  by (simp add: x_inv_def) (simp add: sample_fs_def cache_inv_def cache_new_def cinv_def)

lemma sample_root_wf: "inode_wf sample_root"
  by (simp add: inode_wf_def sample_root_def list_all_iff)

lemma length_sample_img: "length (sample_img b) = 1024"
  using length_inode_bytes [OF sample_root_wf] by (simp add: sample_img_def sample_root_dir_def)

lemma sample_fsv: "fsv disk_now sample_fs b = sample_img b"
  by (simp add: fsv_def) (simp add: sample_fs_def cache_view_def vw_def cache_new_def pad_id length_sample_img)

lemma sample_bitmap: "i < 63 \<Longrightarrow> bit_at (0x7F # replicate 1023 0) i \<longleftrightarrow> i < 7"
proof -
  assume i: "i < 63"
  have m: "(0x7F :: u8) = mask 7" by (simp add: mask_eq_exp_minus_1)
  show ?thesis
  proof (cases "i < 8")
    case True
    then show ?thesis unfolding bit_at_def m by (auto simp: bit_mask_iff)
  next
    case False
    then obtain k where k: "i div 8 = Suc k" by (metis div_less_iff_less_mult less_numeral_extra(3) not0_implies_Suc div_eq_0_iff zero_neq_numeral)
    have "i div 8 < 8" using i by (simp add: div_less_iff_less_mult)
    then show ?thesis using False k by (simp add: bit_at_def)
  qed
qed

lemma sample_gfree: "gfree disk_now sample_fs 0 = {7..<63}"
  using sample_bitmap
  by (auto simp: gfree_def bmp_def sample_bg_def sample_fsv sample_img_def free_bits_def blocks_in_def sample_ext2_sb_def sample_sb_def)

lemma sample_alloc_inv: "alloc_inv disk_now disk_safe sample_fs"
proof -
  have "geo sample_ext2_sb [sample_bg] 1024"
    by (simp add: geo_def sample_ext2_sb_def sample_sb_def bgd_wf_def sample_bg_def)
  then show ?thesis using sample_x_inv sample_gfree
    by (simp add: alloc_inv_def sample_fsv bmp_def) (simp add: sample_bg_def sample_ext2_sb_def sample_img_def)
qed

section \<open>Properties\<close>

text \<open>
  C32.  Allocating a block on a sound image whose device may fail at any moment: a returned
  block was free and lies within the file system, exactly it leaves the set of free blocks,
  bitmaps and counters still agree, no block but a bitmap changes, and the group asked for is
  preferred whenever it has a free block.  \<open>NoSpace\<close> is returned only when no block is free; the
  only other failure is an input/output error, which leaves every other block as it was.
\<close>

theorem alloc_block_correct:
  assumes "alloc_inv content durable s"
  shows "case alloc_block_goal goal s of
      (Inr b, t) \<Rightarrow> alloc_inv content durable t \<and> b \<in> free_blks content s \<and> b < es_blocks_count (x_sb s)
        \<and> free_blks content t = free_blks content s - {b}
        \<and> (\<forall>c. c \<notin> bitmaps s \<longrightarrow> fsv content t c = fsv content s c)
        \<and> (gfree content s (goal mod length (x_groups s)) \<noteq> {} \<longrightarrow>
            (b - es_first_data_block (x_sb s)) div es_blocks_per_group (x_sb s) = goal mod length (x_groups s))
    | (Inl e, t) \<Rightarrow> x_inv content durable t \<and> (\<forall>c. c \<notin> bitmaps s \<longrightarrow> fsv content t c = fsv content s c)
        \<and> (e = FsErr NoSpace \<and> free_blks content s = {} \<or> e = FsErr IoError \<and> \<not> reliable s)"
proof -
  obtain r t where rt: "alloc_block_goal goal s = (r, t)" by force
  note law = wp_run [OF alloc_block_law [OF assms] rt]
  show ?thesis
  proof (cases r)
    case (Inl e)
    then show ?thesis using law rt by (auto simp: kept_def io_fault_def)
  next
    case (Inr b)
    then obtain gi i where g: "gi < length (x_groups s)" "i \<in> gfree content s gi" "taken content durable gi i s t"
      "b = es_first_data_block (x_sb s) + gi * es_blocks_per_group (x_sb s) + i"
      "gfree content s (goal mod length (x_groups s)) \<noteq> {} \<longrightarrow> gi = goal mod length (x_groups s)"
      using law by auto
    have "(b - es_first_data_block (x_sb s)) div es_blocks_per_group (x_sb s) = gi" using g(4) gfree_lt [OF g(2)] by simp
    then show ?thesis using taken_inv [OF assms g(1-4)] g(5) rt Inr by simp
  qed
qed

theorem alloc_block_correct_witness:
  "\<exists>b t. alloc_block_goal 0 sample_fs = (Inr b, t) \<and> b \<in> free_blks disk_now sample_fs \<and> b < 64
    \<and> free_blks disk_now t = free_blks disk_now sample_fs - {b}"
proof -
  have "8 \<in> free_blks disk_now sample_fs"
    using free_blks_mem [of 0 sample_fs 7 disk_now] sample_gfree by (simp add: sample_ext2_sb_def sample_sb_def)
  then show ?thesis using alloc_block_correct [OF sample_alloc_inv, of 0]
    by (auto simp: sample_ext2_sb_def split: prod.splits sum.splits)
qed

text \<open>
  C33.  Freeing a block that was just allocated succeeds unless the device fails, and then
  restores every byte of every block, the counters of the group and of the superblock, and the
  set of free blocks.
\<close>

theorem alloc_free_roundtrip:
  assumes "alloc_inv content durable s" "alloc_block_goal goal s = (Inr b, t)"
  shows "case free_block b t of
      (Inr _, u) \<Rightarrow> alloc_inv content durable u \<and> fsv content u = fsv content s \<and> free_blks content u = free_blks content s
        \<and> x_groups u = x_groups s \<and> x_sb u = x_sb s
    | (Inl e, u) \<Rightarrow> e = FsErr IoError \<and> \<not> reliable s \<and> x_inv content durable u"
proof -
  obtain gi i where g: "gi < length (x_groups s)" "i \<in> gfree content s gi" "taken content durable gi i s t"
    "b = es_first_data_block (x_sb s) + gi * es_blocks_per_group (x_sb s) + i"
    using wp_run [OF alloc_block_law [OF assms(1)] assms(2)] by auto
  note ti = taken_inv [OF assms(1) g] and lt = gfree_lt [OF g(2)] and tr = taken_recounted [OF assms(1) g(1-3)]
  obtain c k where t: "x_groups t = (x_groups s)[gi := (x_groups s ! gi)\<lparr>bg_free_blocks_count := c\<rparr>]"
    "x_sb t = (x_sb s)\<lparr>es_free_blocks_count := k\<rparr>" "fsv content t = (fsv content s)(bmp s gi := mark_bit (fsv content s (bmp s gi)) i)"
    "x_block_size t = x_block_size s"
    using tr(1) unfolding recounted_def by blast
  note rg = recounted_gfree [OF assms(1) g(1) tr(1)]
  have gt: "gi < length (x_groups t)" using g(1) t(1) by simp
  have it: "i \<notin> gfree content t gi" "i < blocks_in (x_sb t) gi" "b = es_first_data_block (x_sb t) + gi * es_blocks_per_group (x_sb t) + i"
    using rg(2) [OF g(1)] tr(3) lt g(4) t(2) by (simp_all add: blocks_in_def)
  obtain r u where ru: "free_block b t = (r, u)" by force
  note law = wp_run [OF free_block_law [OF ti(1) gt it(2,3)] ru]
  show ?thesis
  proof (cases r)
    case (Inl e)
    then show ?thesis using law ru taken_reliable [OF g(3)] by (auto simp: kept_def io_fault_def)
  next
    case (Inr v)
    then have "given content durable gi i t u" using law by simp
    note gr = given_recounted [OF ti(1) gt it(1,2) this]
    have len: "length (fsv content t (bmp t gi)) = x_block_size t" using ti(1) gt by (simp add: alloc_inv_def)
    have ui: "alloc_inv content durable u" using recounted_inv [OF ti(1) gt gr(1,2)] len by simp
    have "geo (x_sb s) (x_groups s) (x_block_size s)" "length (fsv content s (bmp s gi)) = x_block_size s"
      using assms(1) g(1) by (simp_all add: alloc_inv_def)
    then have "i div 8 < length (fsv content s (bmp s gi))" using bit_index geoD(5) [OF _ g(1)] lt by metis
    then have um: "unmark_bit (mark_bit (fsv content s (bmp s gi)) i) i = fsv content s (bmp s gi)"
      using unmark_mark g(2) by (simp add: gfree_def free_bits_def)
    have fu: "fsv content u = fsv content s" using gr(1) rg(1) t(3) um by (auto simp: recounted_def)
    have "bg_free_blocks_count (x_groups s ! gi) = card (gfree content s gi)" "c = card (gfree content s gi - {i})"
      using assms(1) g(1) ti(1) t(1) rg(2) [OF g(1)] tr(3) by (auto simp: alloc_inv_def)
    moreover have "Suc (card (gfree content s gi - {i})) = card (gfree content s gi)"
      using g(2) by (intro card_Suc_Diff1) (simp add: gfree_def)
    ultimately have "Suc c = bg_free_blocks_count (x_groups s ! gi)" by simp
    then have "(x_groups s ! gi)\<lparr>bg_free_blocks_count := Suc c\<rparr> = x_groups s ! gi" by (intro bg_desc.equality) simp_all
    then have gu: "x_groups u = x_groups s" using gr(4) t(1) g(1) by simp
    have bu: "blocks_in (x_sb u) = blocks_in (x_sb s)" using gr(5) t(2) by (simp add: fun_eq_iff blocks_in_def)
    have fg: "gfree content u = gfree content s" by (simp add: fun_eq_iff gfree_def bmp_def gu fu bu)
    have "es_free_blocks_count (x_sb u) = es_free_blocks_count (x_sb s)" using ui assms(1) by (simp add: alloc_inv_def gu fg)
    then have su: "x_sb u = x_sb s" using gr(5) t(2) by simp
    have "free_blks content u = free_blks content s" by (simp add: free_blks_def fg gu su)
    then show ?thesis using ui fu gu su ru Inr by simp
  qed
qed

theorem alloc_free_roundtrip_witness:
  "\<exists>b t u. alloc_block_goal 0 sample_fs = (Inr b, t) \<and> free_block b t = (Inr (), u)
    \<and> fsv disk_now u = sample_img \<and> x_sb u = sample_ext2_sb"
proof -
  have "8 \<in> free_blks disk_now sample_fs"
    using free_blks_mem [of 0 sample_fs 7 disk_now] sample_gfree by (simp add: sample_ext2_sb_def sample_sb_def)
  then obtain b t where bt: "alloc_block_goal 0 sample_fs = (Inr b, t)"
    using wp_run [OF alloc_block_law [OF sample_alloc_inv]] by (cases "alloc_block_goal 0 sample_fs"; cases "fst (alloc_block_goal 0 sample_fs)")
      (force simp: io_fault_def)+
  obtain r u where "free_block b t = (r, u)" by force
  then show ?thesis using alloc_free_roundtrip [OF sample_alloc_inv bt] bt
    by (cases r) (auto simp: fun_eq_iff sample_fsv)
qed

end
