(* ===== verification/Kor_Ext2_File.thy ===== *)
theory Kor_Ext2_File
  imports Kor_Ext2_Inode Kor_Ext2_Alloc
begin

text \<open>
  The content of an ext2 file as the view of the block layer determines it, and the proof that
  reading delivers it: \<open>bmap\<close> is the block pointer tree as a function, \<open>fbytes\<close> the bytes of
  the file with zeros for its holes.  \<open>rdo\<close> is the specification of an action that only reads.
\<close>

section \<open>Actions that only read\<close>

definition same :: "('d \<Rightarrow> usize \<Rightarrow> bytes) \<Rightarrow> ('d \<Rightarrow> usize \<Rightarrow> bytes) \<Rightarrow> 'd ext2 \<Rightarrow> 'd ext2 \<Rightarrow> bool" where
  "same content durable s t \<longleftrightarrow> x_frame s t \<and> x_inv content durable t \<and> fsv content t = fsv content s"

definition rdo :: "('d \<Rightarrow> usize \<Rightarrow> bytes) \<Rightarrow> ('d \<Rightarrow> usize \<Rightarrow> bytes) \<Rightarrow> 'd ext2 \<Rightarrow> ('d ext2, 'a) act \<Rightarrow> ('a \<Rightarrow> bool) \<Rightarrow> bool" where
  "rdo content durable s m Q \<longleftrightarrow> wp m (\<lambda>r t. same content durable s t
     \<and> (case r of Inr x \<Rightarrow> Q x | Inl e \<Rightarrow> io_fault s e)) s"

lemma same_refl: "x_inv content durable s \<Longrightarrow> same content durable s s"
  by (simp add: same_def)

lemma same_trans: "\<lbrakk>same content durable s t; same content durable t u\<rbrakk> \<Longrightarrow> same content durable s u"
  by (auto simp: same_def intro: x_frame_trans)

lemma sameD:
  assumes "same content durable s t"
  shows "x_frame s t" "x_inv content durable t" "fsv content t = fsv content s" "x_block_size t = x_block_size s" "x_sb t = x_sb s"
    "x_sb_held t = x_sb_held s" "x_objs t = x_objs s" "raw_of t = raw_of s" "io_fault t = io_fault s"
proof -
  have f: "x_frame s t" using assms by (simp add: same_def)
  show "x_frame s t" "x_inv content durable t" "fsv content t = fsv content s" using assms by (simp_all add: same_def)
  show "x_block_size t = x_block_size s" "x_sb t = x_sb s" "x_sb_held t = x_sb_held s" "x_objs t = x_objs s" "io_fault t = io_fault s"
    using x_frameD [OF f] io_fault_frame [OF f] by simp_all
  then show "raw_of t = raw_of s" by (simp add: fun_eq_iff raw_of_def)
qed

lemma rdo_ret: "\<lbrakk>x_inv content durable s; Q x\<rbrakk> \<Longrightarrow> rdo content durable s (ret x) Q"
  by (simp add: rdo_def wp_simps same_refl)

lemma rdo_thn:
  assumes "rdo content durable s m Q" "\<And>x t. \<lbrakk>Q x; same content durable s t\<rbrakk> \<Longrightarrow> rdo content durable t (f x) R"
  shows "rdo content durable s (thn m f) R"
  unfolding rdo_def
proof (rule wp_seq [OF assms(1) [unfolded rdo_def]], goal_cases)
  case (1 e t)
  then show ?case by simp
next
  case (2 x t)
  then have "rdo content durable t (f x) R" using assms(2) by simp
  then show ?case
    unfolding rdo_def by (rule wp_mono) (use 2 same_trans sameD(9) [of content durable s t] in \<open>auto split: sum.splits\<close>)
qed

lemma rdo_mono: "\<lbrakk>rdo content durable s m Q; \<And>x. Q x \<Longrightarrow> R x\<rbrakk> \<Longrightarrow> rdo content durable s m R"
  unfolding rdo_def by (erule wp_mono) (auto split: sum.splits)

lemma rdo_gets: "rdo content durable s (f (h s)) R \<Longrightarrow> rdo content durable s (thn (gets h) f) R"
  by (simp add: rdo_def wp_simps)

lemma rdo_block:
  "\<lbrakk>x_inv content durable s; b < BLOCK_LIM\<rbrakk> \<Longrightarrow>
     rdo content durable s (read_fs_block b) (\<lambda>buf. buf = fsv content s b \<and> length buf = x_block_size s)"
  unfolding rdo_def same_def by (rule wp_mono [OF xb.rd_law]) auto

lemma rdo_run:
  "rdo content durable s m Q \<Longrightarrow> m s = (r, t) \<Longrightarrow>
     same content durable s t \<and> (case r of Inr x \<Rightarrow> Q x | Inl e \<Rightarrow> io_fault s e)"
  unfolding rdo_def by (drule wp_run)

section \<open>The pointer tree as a function\<close>

definition ptr :: "(usize \<Rightarrow> bytes) \<Rightarrow> nat \<Rightarrow> nat \<Rightarrow> nat" where
  "ptr view b i = (if b = 0 then 0 else field (view b) (i * 4) 4)"

definition bmap :: "(usize \<Rightarrow> bytes) \<Rightarrow> usize \<Rightarrow> raw_inode \<Rightarrow> nat \<Rightarrow> nat" where
  "bmap view bs raw lb =
     (let p = bs div 4; r2 = lb - (12 + p); r3 = lb - (12 + p + p * p) in
      if lb < 12 then i_block raw ! lb
      else if lb < 12 + p then ptr view (i_block raw ! 12) (lb - 12)
      else if lb < 12 + p + p * p then ptr view (ptr view (i_block raw ! 13) (r2 div p)) (r2 mod p)
      else ptr view (ptr view (ptr view (i_block raw ! 14) (r3 div (p * p))) (r3 div p mod p)) (r3 mod p))"

definition map_lim :: "usize \<Rightarrow> nat" where
  "map_lim bs = (let p = bs div 4 in 12 + p + p * p + p * p * p)"

lemma ptr_bound: "ptr view b i < 2 ^ 32"
  using field_bound [of "view b" "i * 4" 4] by (simp add: ptr_def)

lemma rdo_entry:
  assumes "x_inv content durable s" "b < 2 ^ 32" "i < x_block_size s div 4"
  shows "rdo content durable s (read_indirect_entry b i) (\<lambda>v. b \<noteq> 0 \<longrightarrow> v = ptr (fsv content s) b i)"
  unfolding read_indirect_entry_def
proof (rule rdo_gets, rule rdo_thn [OF rdo_block [OF assms(1)]])
  show "b < BLOCK_LIM" using assms(2) by (simp add: BLOCK_LIM_def)
  fix buf t assume a: "buf = fsv content s b \<and> length buf = x_block_size s" "same content durable s t"
  have "\<not> i * 4 + 4 > x_block_size s" using assms(3) by linarith
  then show "rdo content durable t (let byte_offset = i * 4 in if byte_offset + 4 > x_block_size s then fail InvalidInput
      else ret (field buf byte_offset 4)) (\<lambda>v. b \<noteq> 0 \<longrightarrow> v = ptr (fsv content s) b i)"
    using a sameD(2) [OF a(2)] by (auto simp: ptr_def intro: rdo_ret)
qed

lemma rdo_follow:
  assumes "x_inv content durable s" "b < 2 ^ 32" "i < x_block_size s div 4"
    and "\<And>t. same content durable s t \<Longrightarrow> rdo content durable t (k (ptr (fsv content s) b i)) Q"
    and "b = 0 \<Longrightarrow> Q 0"
  shows "rdo content durable s (follow b i k) Q"
proof (cases "b = 0")
  case True
  then show ?thesis using assms by (simp add: follow_def rdo_ret)
next
  case False
  then show ?thesis
    unfolding follow_def using assms(4) by simp (rule rdo_thn [OF rdo_entry [OF assms(1-3)]], simp)
qed

lemma rdo_leaf:
  assumes "x_inv content durable s" "b < 2 ^ 32" "i < x_block_size s div 4"
  shows "rdo content durable s (follow b i ret) (\<lambda>v. v = ptr (fsv content s) b i)"
  by (rule rdo_follow [OF assms]) (auto simp: ptr_def intro: rdo_ret sameD(2))

lemma rdo_step:
  assumes "x_inv content durable s" "b < 2 ^ 32" "i < x_block_size s div 4"
    and "\<And>t. same content durable s t \<Longrightarrow> rdo content durable t (k (ptr (fsv content s) b i)) (\<lambda>v. v = g (ptr (fsv content t) b i))"
    and "g 0 = 0"
  shows "rdo content durable s (follow b i k) (\<lambda>v. v = g (ptr (fsv content s) b i))"
  using assms(4) sameD(3) by (intro rdo_follow [OF assms(1-3)]) (force, simp add: ptr_def assms(5))

lemma rdo_resolve:
  assumes "x_inv content durable s" "inode_wf (raw_of s oid)" "lb < map_lim (x_block_size s)"
  shows "rdo content durable s (resolve_block_id oid lb) (\<lambda>b. b = bmap (fsv content s) (x_block_size s) (raw_of s oid) lb)"
proof -
  let ?p = "x_block_size s div 4" and ?raw = "raw_of s oid" and ?v = "fsv content s"
  have bs: "1024 \<le> x_block_size s" using assms(1) by (simp add: x_inv_def)
  then have p: "0 < ?p" by simp
  have top: "i_block ?raw ! k < 2 ^ 32" if "k < 15" for k
    using assms(2) that by (auto simp: inode_wf_def list_all_length)
  have r2: "(lb - (12 + ?p)) div ?p < ?p" if "lb < 12 + ?p + ?p * ?p"
  proof -
    have "0 < ?p * ?p" using p by simp
    then have "lb - (12 + ?p) < ?p * ?p" using that by linarith
    then show ?thesis using p by (simp add: div_less_iff_less_mult)
  qed
  have r3: "(lb - (12 + ?p + ?p * ?p)) div (?p * ?p) < ?p"
  proof -
    have "0 < ?p * ?p * ?p" using p by simp
    moreover have "lb < 12 + ?p + ?p * ?p + ?p * ?p * ?p" using assms(3) by (simp add: map_lim_def Let_def)
    ultimately have "lb - (12 + ?p + ?p * ?p) < ?p * ?p * ?p" by linarith
    then have "lb - (12 + ?p + ?p * ?p) < ?p * (?p * ?p)" by (simp add: mult.assoc)
    then show ?thesis using p by (subst div_less_iff_less_mult) simp_all
  qed
  show ?thesis
    unfolding resolve_block_id_def get_raw_def
  proof (rule rdo_gets, rule rdo_gets, goal_cases)
    case 1
    consider (a) "lb < 12" | (b) "\<not> lb < 12" "lb < 12 + ?p" | (c) "\<not> lb < 12" "\<not> lb < 12 + ?p" "lb < 12 + ?p + ?p * ?p"
      | (d) "\<not> lb < 12" "\<not> lb < 12 + ?p" "\<not> lb < 12 + ?p + ?p * ?p" by blast
    then show ?case
    proof cases
      case a
      then show ?thesis using assms(1) by (simp add: bmap_def rdo_ret)
    next
      case b
      have "lb - 12 < ?p" using b by simp
      then have "rdo content durable s (follow (i_block ?raw ! 12) (lb - 12) ret) (\<lambda>b. b = ptr ?v (i_block ?raw ! 12) (lb - 12))"
        using top [of 12] by (intro rdo_leaf assms(1)) simp_all
      then show ?thesis using b by (simp add: bmap_def ptrs_per_block_def Let_def)
    next
      case c
      let ?r = "lb - (12 + ?p)" and ?b1 = "i_block ?raw ! 13"
      have "rdo content durable s (follow ?b1 (?r div ?p) (\<lambda>ib. follow ib (?r mod ?p) ret))
          (\<lambda>b. b = ptr ?v (ptr ?v ?b1 (?r div ?p)) (?r mod ?p))"
      proof (rule rdo_step [OF assms(1), where g = "\<lambda>b. ptr ?v b (?r mod ?p)"])
        fix t assume t: "same content durable s t"
        show "rdo content durable t (follow (ptr ?v ?b1 (?r div ?p)) (?r mod ?p) ret)
            (\<lambda>v. v = ptr ?v (ptr (fsv content t) ?b1 (?r div ?p)) (?r mod ?p))"
          using rdo_leaf [OF sameD(2) [OF t] ptr_bound, of "?r mod ?p"] sameD(3,4) [OF t] p by simp
      qed (use top [of 13] r2 c in \<open>simp_all add: ptr_def\<close>)
      then show ?thesis using c by (simp add: bmap_def ptrs_per_block_def Let_def)
    next
      case d
      let ?r = "lb - (12 + ?p + ?p * ?p)" and ?b1 = "i_block ?raw ! 14"
      have "rdo content durable s (follow ?b1 (?r div (?p * ?p)) (\<lambda>db. follow db (?r div ?p mod ?p) (\<lambda>ib. follow ib (?r mod ?p) ret)))
          (\<lambda>b. b = ptr ?v (ptr ?v (ptr ?v ?b1 (?r div (?p * ?p))) (?r div ?p mod ?p)) (?r mod ?p))"
      proof (rule rdo_step [OF assms(1), where g = "\<lambda>b. ptr ?v (ptr ?v b (?r div ?p mod ?p)) (?r mod ?p)"])
        fix t assume t: "same content durable s t"
        note dt = sameD(2-4) [OF t]
        have "rdo content durable t (follow (ptr ?v ?b1 (?r div (?p * ?p))) (?r div ?p mod ?p) (\<lambda>ib. follow ib (?r mod ?p) ret))
            (\<lambda>v. v = ptr ?v (ptr (fsv content t) (ptr ?v ?b1 (?r div (?p * ?p))) (?r div ?p mod ?p)) (?r mod ?p))"
        proof (rule rdo_step [OF dt(1) ptr_bound, where g = "\<lambda>b. ptr ?v b (?r mod ?p)"])
          fix u assume u: "same content durable t u"
          show "rdo content durable u (follow (ptr (fsv content t) (ptr ?v ?b1 (?r div (?p * ?p))) (?r div ?p mod ?p)) (?r mod ?p) ret)
              (\<lambda>v. v = ptr ?v (ptr (fsv content u) (ptr ?v ?b1 (?r div (?p * ?p))) (?r div ?p mod ?p)) (?r mod ?p))"
            using rdo_leaf [OF sameD(2) [OF u] ptr_bound, of "?r mod ?p"] sameD(3,4) [OF u] dt p by simp
        qed (use p dt in \<open>simp_all add: ptr_def\<close>)
        then show "rdo content durable t (follow (ptr ?v ?b1 (?r div (?p * ?p))) (?r div ?p mod ?p) (\<lambda>ib. follow ib (?r mod ?p) ret))
            (\<lambda>v. v = ptr ?v (ptr ?v (ptr (fsv content t) ?b1 (?r div (?p * ?p))) (?r div ?p mod ?p)) (?r mod ?p))"
          using dt by simp
      qed (use top [of 14] r3 in \<open>simp_all add: ptr_def\<close>)
      then show ?thesis using d by (simp add: bmap_def ptrs_per_block_def Let_def)
    qed
  qed
qed

section \<open>The bytes of a file\<close>

definition fblock :: "(usize \<Rightarrow> bytes) \<Rightarrow> usize \<Rightarrow> raw_inode \<Rightarrow> nat \<Rightarrow> bytes" where
  "fblock view bs raw lb = (let b = bmap view bs raw lb in if b = 0 then replicate bs 0 else view b)"

definition fbytes :: "(usize \<Rightarrow> bytes) \<Rightarrow> usize \<Rightarrow> raw_inode \<Rightarrow> usize \<Rightarrow> nat \<Rightarrow> bytes" where
  "fbytes view bs raw off n = map (\<lambda>i. fblock view bs raw (i div bs) ! (i mod bs)) [off..<off + n]"

definition fsize :: "ext2_sb \<Rightarrow> raw_inode \<Rightarrow> nat" where
  "fsize sb raw = (if has_type raw EXT2_S_IFREG \<and> sb_has_large_file sb then i_dir_acl raw * 2 ^ 32 + i_size raw else i_size raw)"

text \<open>Every block below the size is within the reach of the tree and has a valid number.\<close>

definition file_ok :: "('d \<Rightarrow> usize \<Rightarrow> bytes) \<Rightarrow> 'd ext2 \<Rightarrow> nat \<Rightarrow> bool" where
  "file_ok content s oid \<longleftrightarrow> inode_wf (raw_of s oid)
     \<and> (\<forall>lb. lb * x_block_size s < fsize (x_sb s) (raw_of s oid) \<longrightarrow> lb < map_lim (x_block_size s) \<and> lb < 2 ^ 32
          \<and> bmap (fsv content s) (x_block_size s) (raw_of s oid) lb < 2 ^ 32 - 1)"

lemma length_fbytes [simp]: "length (fbytes view bs raw off n) = n"
  by (simp add: fbytes_def)

lemma fbytes_append: "fbytes view bs raw off (n + m) = fbytes view bs raw off n @ fbytes view bs raw (off + n) m"
  using upt_add_eq_append [of off "off + n" m] by (simp add: fbytes_def add.assoc)

lemma fbytes_within:
  assumes "bo + n \<le> bs" "length (fblock view bs raw lb) = bs"
  shows "fbytes view bs raw (lb * bs + bo) n = slice (fblock view bs raw lb) bo n"
proof (rule nth_equalityI)
  show "length (fbytes view bs raw (lb * bs + bo) n) = length (slice (fblock view bs raw lb) bo n)"
    using assms by (simp add: length_slice)
  fix i assume "i < length (fbytes view bs raw (lb * bs + bo) n)"
  then have i: "i < n" by simp
  then have "(lb * bs + bo + i) div bs = lb" "(lb * bs + bo + i) mod bs = bo + i"
    using assms(1) by (simp_all add: add.assoc)
  then show "fbytes view bs raw (lb * bs + bo) n ! i = slice (fblock view bs raw lb) bo n ! i"
    using i assms by (simp add: fbytes_def nth_slice)
qed

lemma fbytes_blocks:
  assumes "\<forall>j < c. length (fblock view bs raw (lb + j)) = bs"
  shows "fbytes view bs raw (lb * bs) (c * bs) = concat (map (\<lambda>j. fblock view bs raw (lb + j)) [0..<c])"
  using assms
proof (induction c)
  case (Suc c)
  have "fbytes view bs raw ((lb + c) * bs + 0) bs = slice (fblock view bs raw (lb + c)) 0 bs"
    using Suc.prems by (intro fbytes_within) simp_all
  then have "fbytes view bs raw (lb * bs + c * bs) bs = fblock view bs raw (lb + c)"
    using Suc.prems by (simp add: add_mult_distrib slice_def)
  then show ?case using Suc fbytes_append [of view bs raw "lb * bs" "c * bs" bs] by (simp add: add.commute)
qed (simp add: fbytes_def)

lemma rdo_size:
  assumes "x_inv content durable s" "x_sb_held s \<Longrightarrow> \<not> has_type (raw_of s oid) EXT2_S_IFREG"
  shows "rdo content durable s (ino_size oid) (\<lambda>n. n = fsize (x_sb s) (raw_of s oid))"
proof -
  let ?f = "\<lambda>large. ret (if large then i_dir_acl (raw_of s oid) * 2 ^ 32 + i_size (raw_of s oid) else i_size (raw_of s oid)) :: ('a ext2, nat) act"
  have "thn (uses_large (raw_of s oid)) ?f s = ret (fsize (x_sb s) (raw_of s oid)) s"
    using assms(2) by (auto simp: uses_large_def x_has_large_file_def thn_def get_sb_def ret_def fsize_def)
  then have "ino_size oid s = ret (fsize (x_sb s) (raw_of s oid)) s"
    by (simp add: ino_size_def get_raw_def)
  then show ?thesis using rdo_ret [OF assms(1), where Q = "\<lambda>n. n = fsize (x_sb s) (raw_of s oid)"]
    unfolding rdo_def by (simp add: wp_def)
qed

section \<open>Reading\<close>

lemma rdo_blocks:
  "\<lbrakk>x_inv content durable s; start < BLOCK_LIM; count < BLOCK_LIM\<rbrakk> \<Longrightarrow>
     rdo content durable s (read_fs_blocks start count (count * x_block_size s))
       (\<lambda>buf. buf = concat (map (\<lambda>j. fsv content s (start + j)) [0..<count])
          \<and> (\<forall>j < count. length (fsv content s (start + j)) = x_block_size s))"
  unfolding rdo_def same_def by (rule wp_mono [OF read_fs_blocks_law [OF _ _ _ refl]]) (auto split: sum.splits)

lemma file_ok_same: "same content durable s t \<Longrightarrow> file_ok content t oid = file_ok content s oid"
  by (simp add: file_ok_def sameD)

lemma rdo_read_run:
  assumes "x_inv content durable s" "file_ok content s oid"
    and "(lb + run + n - 1) * x_block_size s < fsize (x_sb s) (raw_of s oid)" "0 < run"
    and "\<forall>j < run. bmap (fsv content s) (x_block_size s) (raw_of s oid) (lb + j) = phys + j"
  shows "rdo content durable s (read_run n oid lb phys run) (\<lambda>k. run \<le> k \<and> k \<le> run + n
    \<and> (\<forall>j < k. bmap (fsv content s) (x_block_size s) (raw_of s oid) (lb + j) = phys + j))"
  using assms
proof (induction n arbitrary: s run)
  case 0
  then show ?case by (simp add: rdo_ret)
next
  case (Suc n)
  let ?bs = "x_block_size s" and ?raw = "raw_of s oid" let ?m = "bmap (fsv content s) ?bs ?raw"
  have le: "(lb + j) * ?bs < fsize (x_sb s) ?raw" if "j \<le> run + n" for j
  proof -
    have "(lb + j) * ?bs \<le> (lb + run + Suc n - 1) * ?bs" using that by (intro mult_le_mono) simp_all
    then show ?thesis using Suc.prems(3) by linarith
  qed
  have ok: "lb + run < 2 ^ 32" "lb + run < map_lim ?bs" "?m (lb + (run - 1)) < 2 ^ 32 - 1"
    using le [of run] le [of "run - 1"] Suc.prems(2) by (simp_all add: file_ok_def)
  moreover have "?m (lb + (run - 1)) = phys + (run - 1)" using Suc.prems(5) [rule_format, of "run - 1"] Suc.prems(4) by simp
  ultimately have wrap: "u32_add (lb mod 2 ^ 32) run = lb + run" "u32_add phys run = phys + run"
    using Suc.prems(4) by (simp_all add: u32_add_def)
  have wf: "inode_wf ?raw" using Suc.prems(2) by (simp add: file_ok_def)
  have "rdo content durable s (resolve_block_id oid (lb + run)) (\<lambda>b. b = ?m (lb + run))"
    using rdo_resolve [OF Suc.prems(1) wf ok(2)] .
  then show ?case
    unfolding read_run.simps wrap
  proof (rule rdo_thn, goal_cases)
    case (1 x t)
    note d = sameD [OF 1(2)]
    show ?case
    proof (cases "x = phys + run")
      case True
      then have "\<forall>j < run + 1. ?m (lb + j) = phys + j" using Suc.prems(5) 1(1) by (auto simp: less_Suc_eq)
      then have "rdo content durable t (read_run n oid lb phys (run + 1)) (\<lambda>k. run + 1 \<le> k \<and> k \<le> run + 1 + n
          \<and> (\<forall>j < k. bmap (fsv content t) (x_block_size t) (raw_of t oid) (lb + j) = phys + j))"
        using Suc.prems d file_ok_same [OF 1(2)] by (intro Suc.IH) simp_all
      then show ?thesis using True d by simp (erule rdo_mono, simp)
    next
      case False
      then show ?thesis using d Suc.prems(5) by (simp add: rdo_ret)
    qed
  qed
qed

text \<open>One round of the outer loop.\<close>

lemma fbytes_chunk:
  assumes "off div bs = lb" "off mod bs + n \<le> bs" "length (fblock view bs raw lb) = bs"
  shows "fbytes view bs raw off n = slice (fblock view bs raw lb) (off mod bs) n"
  using fbytes_within [OF assms(2,3)] assms(1) by (metis div_mult_mod_eq)

lemma end_before: "\<lbrakk>x + b = off + a + y; y \<le> w - a; off + w \<le> f; 0 < b; a < w\<rbrakk> \<Longrightarrow> x < (f :: nat)"
  by linarith

lemma rdo_read_loop:
  assumes "x_inv content durable s" "file_ok content s oid" "off + want \<le> fsize (x_sb s) (raw_of s oid)"
    and "acc = fbytes (fsv content s) (x_block_size s) (raw_of s oid) off (length acc)" "length acc \<le> want" "want - length acc \<le> fuel"
  shows "rdo content durable s (read_loop fuel oid off want acc)
    (\<lambda>d. d = fbytes (fsv content s) (x_block_size s) (raw_of s oid) off want)"
  using assms
proof (induction fuel arbitrary: s acc)
  case 0
  then show ?case by (auto intro: rdo_ret)
next
  case (Suc fuel)
  let ?bs = "x_block_size s" and ?raw = "raw_of s oid" and ?v = "fsv content s"
  let ?fo = "off + length acc" let ?lb = "?fo div ?bs" and ?bo = "?fo mod ?bs" and ?rem = "want - length acc"
  let ?chunk = "min ?rem (?bs - ?bo)" and ?goal = "\<lambda>d. d = fbytes ?v ?bs ?raw off want"
  have bs: "0 < ?bs" using Suc.prems(1) unfolding x_inv_def by linarith
  have wf: "inode_wf ?raw" using Suc.prems(2) by (simp add: file_ok_def)
  show ?case
  proof (cases "length acc < want")
    case False
    then have "length acc = want" using Suc.prems(5) by simp
    then have "rdo content durable s (ret acc) ?goal" using Suc.prems(1,4) by (intro rdo_ret) simp_all
    then show ?thesis using False by simp
  next
    case True
    have lt: "?lb * ?bs < fsize (x_sb s) ?raw"
      using True Suc.prems(3) div_times_less_eq_dividend [of ?fo ?bs] by linarith
    have ok: "?lb < map_lim ?bs" "?lb < 2 ^ 32" "bmap ?v ?bs ?raw ?lb < 2 ^ 32 - 1"
      using Suc.prems(2) lt by (simp_all add: file_ok_def)
    have lbm: "?lb mod 2 ^ 32 = ?lb" using ok(2) by simp
    have next_round: "rdo content durable t (read_loop fuel oid off want (acc @ d)) ?goal"
      if t: "same content durable s t" and d: "d = fbytes ?v ?bs ?raw ?fo (length d)" "0 < length d" "length d \<le> ?rem" for t d
    proof -
      have "acc @ d = fbytes ?v ?bs ?raw off (length (acc @ d))"
        using Suc.prems(4) d(1) fbytes_append [of ?v ?bs ?raw off "length acc" "length d"] by simp
      moreover have "want - length (acc @ d) \<le> fuel" "length (acc @ d) \<le> want"
        unfolding length_append using d(2,3) Suc.prems(6) True by linarith+
      ultimately have "rdo content durable t (read_loop fuel oid off want (acc @ d))
          (\<lambda>d. d = fbytes (fsv content t) (x_block_size t) (raw_of t oid) off want)"
        using Suc.prems(2,3) sameD [OF t] file_ok_same [OF t] by (intro Suc.IH) simp_all
      then show ?thesis using sameD [OF t] by simp
    qed
    have slow: "rdo content durable t (thn (resolve_block_id oid ?lb) (\<lambda>phys_block.
          if phys_block = 0 then read_loop fuel oid off want (acc @ replicate ?chunk 0)
          else thn (read_fs_block phys_block) (\<lambda>block_buf.
               read_loop fuel oid off want (acc @ slice block_buf ?bo ?chunk)))) ?goal"
      if t: "same content durable s t" for t
    proof -
      note dt = sameD [OF t]
      have c: "?bo + ?chunk \<le> ?bs" "0 < ?chunk" "?chunk \<le> ?rem" using True bs mod_less_divisor [OF bs, of ?fo] by auto
      have "rdo content durable t (resolve_block_id oid ?lb) (\<lambda>b. b = bmap ?v ?bs ?raw ?lb)"
        using rdo_resolve [of content durable t oid ?lb] dt wf ok(1) by simp
      then show ?thesis
      proof (rule rdo_thn, goal_cases)
        case (1 b u)
        note b = 1(1)
        have su: "same content durable s u" using same_trans [OF t 1(2)] .
        show ?case
        proof (cases "b = 0")
          case True
          then have "fblock ?v ?bs ?raw ?lb = replicate ?bs 0" using 1(1) by (simp add: fblock_def)
          then have "replicate ?chunk 0 = fbytes ?v ?bs ?raw ?fo ?chunk"
            using fbytes_chunk [OF refl c(1)] c(1) by (simp add: slice_def min_def)
          then show ?thesis using True next_round [OF su, of "replicate ?chunk 0"] c(2,3) by simp
        next
          case False
          have "rdo content durable u (read_fs_block b) (\<lambda>buf. buf = fsv content u b \<and> length buf = x_block_size u)"
            using ok(3) 1(1) by (intro rdo_block sameD(2) [OF su]) (simp add: BLOCK_LIM_def)
          then have "rdo content durable u (thn (read_fs_block b) (\<lambda>block_buf.
               read_loop fuel oid off want (acc @ slice block_buf ?bo ?chunk))) ?goal"
          proof (rule rdo_thn, goal_cases)
            case (1 buf w)
            have sw: "same content durable s w" using same_trans [OF su 1(2)] .
            have "fblock ?v ?bs ?raw ?lb = buf" "length buf = ?bs"
              using 1(1) sameD(3,4) [OF su] b False by (auto simp: fblock_def)
            then have "slice buf ?bo ?chunk = fbytes ?v ?bs ?raw ?fo ?chunk" "length (slice buf ?bo ?chunk) = ?chunk"
              using fbytes_chunk [OF refl c(1), of ?v ?raw] c(1) by (simp_all add: length_slice)
            then show ?case using next_round [OF sw, of "slice buf ?bo ?chunk"] c(2,3) by simp
          qed
          then show ?thesis using False by simp
        qed
      qed
    qed
    have fast: "rdo content durable t (thn (read_run (min (?rem div ?bs) MAX_BULK_BLOCKS - 1) oid ?lb phys 1) (\<lambda>run.
          thn (read_fs_blocks phys run (run * ?bs)) (\<lambda>d. read_loop fuel oid off want (acc @ d)))) ?goal"
      if t: "same content durable s t" and al: "?bo = 0" "?rem \<ge> ?bs" and ph: "phys = bmap ?v ?bs ?raw ?lb" "phys \<noteq> 0" for t phys
    proof -
      note dt = sameD [OF t]
      let ?m = "min (?rem div ?bs) MAX_BULK_BLOCKS"
      have m1: "1 \<le> ?m" using al(2) bs by (simp add: div_greater_zero_iff Suc_le_eq)
      have mb: "?m * ?bs \<le> ?rem" using div_times_less_eq_dividend [of ?rem ?bs] mult_le_mono1 [of ?m "?rem div ?bs" ?bs] by linarith
      have fo: "?fo = ?lb * ?bs" using al(1) by (metis add.right_neutral div_mult_mod_eq)
      have "Suc (?lb + (?m - 1)) * ?bs = (?lb + ?m) * ?bs" using m1 by simp
      then have "(?lb + (?m - 1)) * ?bs + ?bs = ?fo + ?m * ?bs" using fo by (simp add: add_mult_distrib add.commute)
      then have "(?lb + (?m - 1)) * ?bs < fsize (x_sb s) ?raw"
        by (rule end_before [OF _ mb Suc.prems(3) bs True])
      then have "(?lb + 1 + (?m - 1) - 1) * ?bs < fsize (x_sb s) ?raw" by simp
      then have "rdo content durable t (read_run (?m - 1) oid ?lb phys 1) (\<lambda>k. 1 \<le> k \<and> k \<le> 1 + (?m - 1)
          \<and> (\<forall>j < k. bmap (fsv content t) (x_block_size t) (raw_of t oid) (?lb + j) = phys + j))"
        using ph file_ok_same [OF t] Suc.prems(2) dt by (intro rdo_read_run) simp_all
      then show ?thesis
      proof (rule rdo_thn, goal_cases)
        case (1 run u)
        have su: "same content durable s u" using same_trans [OF t 1(2)] .
        have run: "1 \<le> run" "run \<le> ?m" "\<forall>j < run. bmap ?v ?bs ?raw (?lb + j) = phys + j" using 1(1) m1 dt by simp_all
        have "run < BLOCK_LIM" "phys < BLOCK_LIM" using run(2) ok(3) ph(1) by (simp_all add: BLOCK_LIM_def)
        then have "rdo content durable u (read_fs_blocks phys run (run * x_block_size u))
           (\<lambda>buf. buf = concat (map (\<lambda>j. fsv content u (phys + j)) [0..<run])
              \<and> (\<forall>j < run. length (fsv content u (phys + j)) = x_block_size u))"
          by (intro rdo_blocks sameD(2) [OF su])
        then show ?case
          unfolding sameD(3,4) [OF su]
        proof (rule rdo_thn, goal_cases)
          case (1 d w)
          have fb: "fblock ?v ?bs ?raw (?lb + j) = ?v (phys + j)" if "j < run" for j
            using run(3) that ph(2) by (simp add: fblock_def)
          then have mp: "map (\<lambda>j. fblock ?v ?bs ?raw (?lb + j)) [0..<run] = map (\<lambda>j. ?v (phys + j)) [0..<run]"
            by (intro map_cong) auto
          have "\<forall>j < run. length (fblock ?v ?bs ?raw (?lb + j)) = ?bs" using 1(1) fb by simp
          from fbytes_blocks [OF this] have "fbytes ?v ?bs ?raw (?lb * ?bs) (run * ?bs) = d"
            unfolding mp using 1(1) by simp
          then have "d = fbytes ?v ?bs ?raw ?fo (run * ?bs)" using fo by simp
          moreover from this have "length d = run * ?bs" by simp
          moreover have "run * ?bs \<le> ?rem" using mult_le_mono1 [OF run(2), of ?bs] mb by linarith
          ultimately show ?case using next_round [OF same_trans [OF su 1(2)], of d] run(1) bs by simp
        qed
      qed
    qed
    have first: "rdo content durable s (if ?bo = 0 \<and> ?rem \<ge> ?bs then resolve_block_id oid ?lb else ret 0)
        (\<lambda>phys. phys \<noteq> 0 \<longrightarrow> ?bo = 0 \<and> ?rem \<ge> ?bs \<and> phys = bmap ?v ?bs ?raw ?lb)"
      using rdo_mono [OF rdo_resolve [OF Suc.prems(1) wf ok(1)]] Suc.prems(1) by (simp add: rdo_ret)
    show ?thesis
      using True unfolding read_loop.simps Let_def
      by (simp only: not_True_eq_False if_False lbm simp_thms)
        (rule rdo_gets, unfold lbm, rule rdo_thn [OF first], split if_split, intro conjI impI, rule fast, blast+, rule slow)
  qed
qed

lemma rdo_read_at:
  assumes "x_inv content durable s" "x_sb_held s \<Longrightarrow> \<not> has_type (raw_of s oid) EXT2_S_IFREG" "file_ok content s oid"
  shows "rdo content durable s (ext2_read_at oid off n)
    (\<lambda>d. d = fbytes (fsv content s) (x_block_size s) (raw_of s oid) off (min n (fsize (x_sb s) (raw_of s oid) - off)))"
proof -
  let ?n = "min n (fsize (x_sb s) (raw_of s oid) - off)"
  let ?goal = "\<lambda>d. d = fbytes (fsv content s) (x_block_size s) (raw_of s oid) off ?n"
  have sz: "rdo content durable s (ino_size oid) (\<lambda>n. n = fsize (x_sb s) (raw_of s oid))"
    using assms(1,2) by (rule rdo_size)
  show ?thesis
    unfolding ext2_read_at_def
  proof (rule rdo_thn [OF sz], goal_cases)
    case (1 fs t)
    note d = sameD [OF 1(2)]
    show ?case
    proof (cases "off \<ge> fs \<or> n = 0")
      case True
      then have "?n = 0" using 1(1) by auto
      then show ?thesis using True d(2) by (simp add: rdo_ret fbytes_def)
    next
      case False
      then have "off + ?n \<le> fsize (x_sb s) (raw_of s oid)" using 1(1) by linarith
      then have "rdo content durable t (read_loop ?n oid off ?n [])
          (\<lambda>d. d = fbytes (fsv content t) (x_block_size t) (raw_of t oid) off ?n)"
        using d assms(3) file_ok_same [OF 1(2)] 1(1) by (intro rdo_read_loop) (simp_all add: fbytes_def)
      then show ?thesis using False 1(1) d by (simp add: Let_def)
    qed
  qed
qed

text \<open>A zeroed buffer of the size of the file is filled completely.\<close>

lemma rdo_whole:
  assumes "x_inv content durable s" "x_sb_held s \<Longrightarrow> \<not> has_type (raw_of s oid) EXT2_S_IFREG" "file_ok content s oid"
    and "n \<le> fsize (x_sb s) (raw_of s oid)"
  shows "rdo content durable s (read_into_zeros oid n) (\<lambda>d. d = fbytes (fsv content s) (x_block_size s) (raw_of s oid) 0 n)"
  unfolding read_into_zeros_def
proof (rule rdo_thn)
  show "rdo content durable s (ext2_read_at oid 0 n)
      (\<lambda>d. d = fbytes (fsv content s) (x_block_size s) (raw_of s oid) 0 (min n (fsize (x_sb s) (raw_of s oid) - 0)))"
    using assms(1-3) by (rule rdo_read_at)
qed (use assms(4) sameD(2) in \<open>auto intro!: rdo_ret simp: min_def\<close>)

section \<open>A sample object\<close>

definition sample_open :: "((usize \<Rightarrow> bytes) \<times> (usize \<Rightarrow> bytes)) ext2" where
  "sample_open = sample_fs\<lparr>x_objs := [\<lparr>xi_num = 2, xi_raw = sample_root, xi_live = True\<rparr>], x_icache := [(2, 0)]\<rparr>"

lemma sample_open_simps [simp]:
  "x_block_size sample_open = 1024" "x_sb sample_open = sample_ext2_sb" "\<not> x_sb_held sample_open" "raw_of sample_open 0 = sample_root"
  "x_groups sample_open = [sample_bg]" "\<not> x_read_only sample_open" "length (x_objs sample_open) = 1" "num_of sample_open 0 = 2"
  "reliable sample_open"
  using sample_fields(10) by (simp_all add: sample_open_def raw_of_def num_of_def reliable_def)

lemma objs_view:
  "fsv content (s\<lparr>x_objs := os, x_icache := ic\<rparr>) = fsv content s"
  "x_inv content durable (s\<lparr>x_objs := os, x_icache := ic\<rparr>) = x_inv content durable s"
  by (simp_all add: fun_eq_iff fsv_def x_inv_def x_per_def x_dev_bs_def)

lemma sample_open_inv: "x_inv disk_now disk_safe sample_open" "fsv disk_now sample_open = sample_img"
  using sample_x_inv sample_fsv unfolding sample_open_def objs_view by (auto simp: fun_eq_iff)

lemma sample_root_size: "fsize sample_ext2_sb sample_root = 1024"
proof -
  have "\<not> has_type sample_root EXT2_S_IFREG" by (simp add: has_type_def sample_root_def)
  then show ?thesis by (simp add: fsize_def sample_root_def)
qed

lemma sample_root_block: "fblock sample_img 1024 sample_root 0 = sample_root_dir"
  by (simp add: fblock_def bmap_def sample_root_def) (simp add: sample_img_def)

lemma sample_file_ok: "file_ok disk_now sample_open 0"
proof -
  have "bmap v 1024 sample_root 0 = 7" for v by (simp add: bmap_def sample_root_def)
  then show ?thesis using sample_root_wf sample_root_size by (auto simp: file_ok_def map_lim_def)
qed

text \<open>
  C34.  Reading at an offset, on a device that may fail at any moment, delivers exactly the
  bytes of the file from there up to its end, zeros for the holes, whichever way the request
  is split into single blocks and contiguous runs; it changes no block, and its only failure
  is an input/output error.
\<close>

theorem ext2_read_correct:
  assumes "x_inv content durable s" "\<not> x_sb_held s" "file_ok content s oid"
  shows "case ext2_read_at oid off n s of
      (Inr d, t) \<Rightarrow> d = fbytes (fsv content s) (x_block_size s) (raw_of s oid) off (min n (fsize (x_sb s) (raw_of s oid) - off))
        \<and> fsv content t = fsv content s
    | (Inl e, t) \<Rightarrow> e = FsErr IoError \<and> \<not> reliable s \<and> fsv content t = fsv content s"
proof -
  have "rdo content durable s (ext2_read_at oid off n)
      (\<lambda>d. d = fbytes (fsv content s) (x_block_size s) (raw_of s oid) off (min n (fsize (x_sb s) (raw_of s oid) - off)))"
    using assms by (intro rdo_read_at) simp_all
  from rdo_run [OF this, of "fst (ext2_read_at oid off n s)" "snd (ext2_read_at oid off n s)"] show ?thesis
    by (auto simp: same_def io_fault_def split: prod.splits sum.splits)
qed

lemma sample_dir_bytes: "slice sample_root_dir 4 4 = [12, 0, 1, 2]"
  by code_simp

theorem ext2_read_correct_witness:
  "\<exists>t. ext2_read_at 0 4 4 sample_open = (Inr [12, 0, 1, 2], t) \<and> fsv disk_now t = sample_img"
proof -
  have "fbytes sample_img 1024 sample_root (0 * 1024 + 4) 4 = slice (fblock sample_img 1024 sample_root 0) 4 4"
    using sample_root_block by (intro fbytes_within) (simp_all add: sample_root_dir_def)
  then have "fbytes sample_img 1024 sample_root 4 4 = [12, 0, 1, 2]"
    using sample_dir_bytes by (simp add: sample_root_block)
  then show ?thesis
    using ext2_read_correct [OF sample_open_inv(1) _ sample_file_ok, of 4 4]
    by (auto simp: sample_open_inv(2) sample_root_size split: prod.splits sum.splits)
qed

end
