(* ===== verification/Kor_Ext2_Tree.thy ===== *)
theory Kor_Ext2_Tree
  imports Kor_Ext2_Ops Kor_Ext2_File
begin

text \<open>
  Properties of the name space operations: looking up a name in a directory inode, the
  ancestor check of rename, the inode objects.
\<close>

section \<open>Looking up a name\<close>

definition dir_bytes :: "('d \<Rightarrow> usize \<Rightarrow> bytes) \<Rightarrow> 'd ext2 \<Rightarrow> nat \<Rightarrow> bytes" where
  "dir_bytes content s oid = fbytes (fsv content s) (x_block_size s) (raw_of s oid) 0 (i_size (raw_of s oid))"

definition is_dir :: "raw_inode \<Rightarrow> bool" where
  "is_dir raw \<longleftrightarrow> (i_mode raw AND 0xF000) = 0x4000"

lemma is_dir_not_reg: "is_dir raw \<Longrightarrow> \<not> has_type raw EXT2_S_IFREG"
  by (simp add: is_dir_def has_type_def)

lemma rdo_iterator:
  assumes "x_inv content durable s" "file_ok content s oid" "is_dir (raw_of s oid)"
  shows "rdo content durable s (dir_iterator_new oid) (\<lambda>d. d = dir_bytes content s oid)"
proof -
  have n: "i_size (raw_of s oid) \<le> fsize (x_sb s) (raw_of s oid)" by (simp add: fsize_def)
  have w: "rdo content durable s (read_into_zeros oid (i_size (raw_of s oid))) (\<lambda>d. d = dir_bytes content s oid)"
    unfolding dir_bytes_def using is_dir_not_reg [OF assms(3)] by (intro rdo_whole assms(1,2) n)
  have "rdo content durable s (if i_size (raw_of s oid) > 0 then read_into_zeros oid (i_size (raw_of s oid)) else ret []) (\<lambda>d. d = dir_bytes content s oid)"
  proof (cases "i_size (raw_of s oid) > 0")
    case False
    then show ?thesis using assms(1) by (simp add: dir_bytes_def fbytes_def rdo_ret)
  qed (use w in simp)
  then show ?thesis
    unfolding dir_iterator_new_def get_raw_def
    by (intro rdo_gets) (use assms(3) in \<open>simp add: guard_def is_dir_def\<close>)
qed

lemma lift_Inr: "lift (Inr x) = ret x"
  by (simp add: fun_eq_iff lift_def ret_def)

lemma rdo_lookup:
  assumes "x_inv content durable s" "file_ok content s oid" "is_dir (raw_of s oid)"
    and "dir_lookup (dir_bytes content s oid) name = Inr ino"
  shows "rdo content durable s (ino_lookup oid name) (\<lambda>i. i = ino)"
  unfolding ino_lookup_def
proof (rule rdo_thn [OF rdo_iterator [OF assms(1-3)]])
  fix d t assume a: "d = dir_bytes content s oid" "same content durable s t"
  then show "rdo content durable t (lift (dir_lookup d name)) (\<lambda>i. i = ino)"
    using sameD(2) [OF a(2)] assms(4) by (simp add: lift_Inr rdo_ret)
qed

section \<open>The ancestor check\<close>

lemma live_same: "\<lbrakk>x_objs t = x_objs s; x_icache t = x_icache s\<rbrakk> \<Longrightarrow> live_inode t = live_inode s"
  by (simp add: fun_eq_iff live_inode_def obj_live_def split: option.split)

lemma get_inode_deadlock:
  assumes "live_inode s p = None" "p \<noteq> 0" "x_sb_held s"
  shows "get_inode p s = (Inl (Crash Deadlock), s)"
  using assms by (simp add: get_inode_def inode_read_def inode_at_def guard_def thn_def get_sb_def die_def)

lemma held_view:
  "fsv content (s\<lparr>x_sb_held := h\<rparr>) = fsv content s" "x_inv content durable (s\<lparr>x_sb_held := h\<rparr>) = x_inv content durable s"
  "raw_of (s\<lparr>x_sb_held := h\<rparr>) = raw_of s" "live_inode (s\<lparr>x_sb_held := h\<rparr>) = live_inode s"
  by (simp_all add: fun_eq_iff fsv_def x_inv_def x_per_def x_dev_bs_def raw_of_def live_inode_def obj_live_def
      split: option.split)

lemma held_file_ok: "file_ok content (s\<lparr>x_sb_held := h\<rparr>) oid = file_ok content s oid"
  by (simp add: file_ok_def held_view)

text \<open>
  C35.  \<open>dir_is_ancestor_or_self\<close>, the check before every rename of a directory, keeps the
  superblock locked while it walks up.  When the target directory is in memory and its parent
  is not (and is neither the root nor the moved directory), loading the parent locks the
  superblock again: the check does not return.
\<close>

theorem ancestor_check_deadlocks:
  assumes "x_inv content durable s" "\<not> x_sb_held s" "reliable s" "0 < es_inodes_count (x_sb s)"
    and "live_inode s start = Some oid" "oid < length (x_objs s)" "file_ok content s oid" "is_dir (raw_of s oid)"
    and "dir_lookup (dir_bytes content s oid) ''..'' = Inr parent"
    and "start \<noteq> ancestor" "start \<noteq> EXT2_ROOT_INO" "parent \<notin> {0, start, ancestor, EXT2_ROOT_INO}"
    and "live_inode s parent = None"
  shows "fst (dir_is_ancestor_or_self ancestor start s) = Inl (Crash Deadlock)"
proof -
  let ?h = "s\<lparr>x_sb_held := True\<rparr>"
  have rel: "\<not> io_fault ?h e" for e using assms(3) by (simp add: io_fault_def reliable_def)
  have db: "dir_bytes content ?h oid = dir_bytes content s oid" by (simp add: dir_bytes_def held_view)
  have "rdo content durable ?h (ino_lookup oid ''..'') (\<lambda>i. i = parent)"
    using assms(1,7-9) by (intro rdo_lookup) (simp_all add: held_view held_file_ok db)
  from rdo_run [OF this, of "fst (ino_lookup oid ''..'' ?h)" "snd (ino_lookup oid ''..'' ?h)"] rel
  obtain t where t: "ino_lookup oid ''..'' ?h = (Inr parent, t)" "same content durable ?h t"
    by (cases "fst (ino_lookup oid ''..'' ?h)"; cases "ino_lookup oid ''..'' ?h") auto
  have lt: "live_inode t = live_inode s" "x_sb_held t"
    using live_same [of t ?h] x_frameD [OF sameD(1) [OF t(2)]] by (simp_all add: held_view)
  have dead: "get_inode parent t = (Inl (Crash Deadlock), t)"
    using assms(12,13) lt by (intro get_inode_deadlock) simp_all
  have first: "with_inode start (\<lambda>dir. ino_lookup dir ''..'') ?h = (Inr parent, t)"
    using assms(5,6) t(1) by (simp add: with_inode_def get_inode_def held_view thn_def ret_def finally_do_def)
  obtain n where n: "es_inodes_count (x_sb s) = Suc n" using assms(4) gr0_implies_Suc by blast
  have "with_inode parent (\<lambda>dir. ino_lookup dir ''..'') t = (Inl (Crash Deadlock), t)"
    using dead by (simp add: with_inode_def thn_def)
  then have "ancestor_loop (Suc n) ancestor parent t = (Inl (Crash Deadlock), t)"
    using assms(12) by (simp add: thn_def)
  then have "ancestor_loop (Suc (Suc n)) ancestor start ?h = (Inl (Crash Deadlock), t)"
    using assms(10-12) first unfolding ancestor_loop.simps(2) [of "Suc n"] by (simp add: thn_def)
  then have "ancestor_loop (es_inodes_count (x_sb s) + 1) ancestor start ?h = (Inl (Crash Deadlock), t)"
    by (simp only: n Suc_eq_plus1)
  then show ?thesis
    using assms(2) by (simp add: dir_is_ancestor_or_self_def thn_get_sb with_sb_held_def finally_do_def del: ancestor_loop.simps)
qed

text \<open>A directory (inode 13) in memory, in a directory (inode 12) that is not.\<close>

definition sample_nested :: "((usize \<Rightarrow> bytes) \<times> (usize \<Rightarrow> bytes)) ext2" where
  "sample_nested = sample_fs\<lparr>x_cache := cache_new (flush_disk 1024)
       (sample_img(9 := put sample_root_dir 12 (le_bytes 4 12)), sample_img) BLOCK_CACHE_CAPACITY,
     x_objs := [\<lparr>xi_num = 13, xi_raw = sample_root\<lparr>i_block := 9 # replicate 14 0\<rparr>, xi_live = True\<rparr>], x_icache := [(13, 0)]\<rparr>"

lemma nested_disk: "length ((sample_img(9 := put sample_root_dir 12 (le_bytes 4 12))) b) = 1024"
  using length_sample_img by (simp add: length_put sample_root_dir_def)

lemma sample_nested_fields:
  "x_inv disk_now disk_safe sample_nested" "\<not> x_sb_held sample_nested" "reliable sample_nested" "x_block_size sample_nested = 1024"
  "x_sb sample_nested = sample_ext2_sb" "fsv disk_now sample_nested = sample_img(9 := put sample_root_dir 12 (le_bytes 4 12))"
  "raw_of sample_nested 0 = sample_root\<lparr>i_block := 9 # replicate 14 0\<rparr>" "length (x_objs sample_nested) = 1"
  "live_inode sample_nested 13 = Some 0" "live_inode sample_nested 12 = None"
proof -
  show "x_inv disk_now disk_safe sample_nested"
    using flush_disk_ok(1) by (simp add: x_inv_def sample_nested_def x_per_def x_dev_bs_def cache_inv_def cache_new_def cinv_def)
      (simp add: flush_disk_def)
  show "reliable sample_nested" using flush_disk_ok(2) by (simp add: sample_nested_def reliable_def cache_new_def)
  show "fsv disk_now sample_nested = sample_img(9 := put sample_root_dir 12 (le_bytes 4 12))"
    using length_sample_img nested_disk [of 9]
    by (simp add: fun_eq_iff fsv_def sample_nested_def x_per_def x_dev_bs_def cache_new_def cache_view_def vw_def)
      (simp add: flush_disk_def pad_id)
qed (simp_all add: sample_nested_def raw_of_def live_inode_def obj_live_def bt_get_def)

lemma sample_nested_dir: "dir_lookup (put sample_root_dir 12 (le_bytes 4 12)) ''..'' = Inr 12"
  by code_simp

theorem ancestor_check_deadlocks_witness:
  "fst (dir_is_ancestor_or_self 11 13 sample_nested) = Inl (Crash Deadlock)"
proof (rule ancestor_check_deadlocks [where oid = 0 and parent = 12 and content = disk_now and durable = disk_safe])
  let ?raw = "sample_root\<lparr>i_block := 9 # replicate 14 0\<rparr>"
  have wf: "inode_wf ?raw" using sample_root_wf by (simp add: inode_wf_def list_all_iff)
  have sz: "fsize sample_ext2_sb ?raw = 1024" by (simp add: fsize_def has_type_def sample_root_def)
  have bm: "bmap v 1024 ?raw 0 = 9" for v by (simp add: bmap_def)
  then show "file_ok disk_now sample_nested 0"
    using wf sz by (auto simp: file_ok_def map_lim_def sample_nested_fields)
  have "fblock (fsv disk_now sample_nested) 1024 ?raw 0 = put sample_root_dir 12 (le_bytes 4 12)"
    by (simp add: fblock_def bm sample_nested_fields)
  moreover have "length (put sample_root_dir 12 (le_bytes 4 12)) = 1024" using nested_disk [of 9] by simp
  ultimately have "fbytes (fsv disk_now sample_nested) 1024 ?raw (0 * 1024 + 0) 1024 = put sample_root_dir 12 (le_bytes 4 12)"
    by (subst fbytes_within) (simp_all add: slice_def)
  then have "dir_bytes disk_now sample_nested 0 = put sample_root_dir 12 (le_bytes 4 12)"
    by (simp add: dir_bytes_def sample_nested_fields) (simp add: sample_root_def)
  then show "dir_lookup (dir_bytes disk_now sample_nested 0) ''..'' = Inr 12" using sample_nested_dir by simp
qed (simp_all add: sample_nested_fields is_dir_def sample_root_def sample_ext2_sb_def)

end
