(* ===== verification/Kor_Ext2_Mount.thy ===== *)
theory Kor_Ext2_Mount
  imports Kor_Ext2_Alloc
begin

text \<open>
  Mounting and unmounting ext2: the copies of the superblock and of the group descriptors that
  \<^verbatim>\<open>lib.rs\<close> writes back, what is persistent after an unmount, and what a later mount reads.
\<close>

section \<open>Blocks side by side\<close>

lemma length_concat_blocks: "\<forall>i < n. length (f i) = k \<Longrightarrow> length (concat (map f [0..<n])) = n * k"
  by (induction n) simp_all

lemma slice_concat:
  assumes "\<forall>i < n. length (f i) = k" "i < n" "j + m \<le> k"
  shows "slice (concat (map f [0..<n])) (i * k + j) m = slice (f i) j m"
  using assms
proof (induction n)
  case (Suc n)
  have len: "length (concat (map f [0..<n])) = n * k" using Suc.prems(1) by (intro length_concat_blocks) simp
  show ?case
  proof (cases "i < n")
    case True
    then have "(i + 1) * k \<le> n * k" by (intro mult_le_mono) simp_all
    then have "i * k + j + m \<le> length (concat (map f [0..<n]))" using Suc.prems(3) len by simp
    then show ?thesis using Suc True by (simp add: slice_append_left)
  next
    case False
    then have "i = n" using Suc.prems(2) by simp
    then show ?thesis using len by (simp add: slice_append_right)
  qed
qed simp

section \<open>The descriptor table\<close>

lemma put_descriptors_snoc:
  "put_descriptors bs i (gs @ [g]) buf =
     (let goff = length gs * BGD_SIZE; b = put_descriptors bs i gs buf in
      if goff + BGD_SIZE \<le> i * bs \<or> goff \<ge> i * bs + bs then b else put b (goff - i * bs) (bgd_bytes g))"
  by (simp add: put_descriptors_def enumerate_append_eq Let_def)

lemma descriptor_slot:
  "(gi * 32 + 32 \<le> i * (32 * m) \<or> gi * 32 \<ge> i * (32 * m) + 32 * m) \<longleftrightarrow> \<not> (i * m \<le> gi \<and> gi < i * m + (m :: nat))"
proof -
  have "i * (32 * m) = 32 * (i * m)" by simp
  then show ?thesis by linarith
qed

lemma length_put_descriptors:
  assumes "list_all bgd_wf gs" "bs = 32 * m" "length buf = bs"
  shows "length (put_descriptors bs i gs buf) = bs"
  using assms(1)
proof (induction gs rule: rev_induct)
  case Nil
  then show ?case using assms(3) by (simp add: put_descriptors_def)
next
  case (snoc g gs)
  have g: "length (bgd_bytes g) = 32" using snoc.prems length_bgd_bytes by simp
  show ?case
  proof (cases "length gs * 32 + 32 \<le> i * bs \<or> length gs * 32 \<ge> i * bs + bs")
    case False
    then have "i * m \<le> length gs" "length gs < i * m + m" using descriptor_slot [of "length gs" i m] assms(2) by auto
    then have "length gs * 32 - i * bs + 32 \<le> bs" unfolding assms(2) by simp
    then show ?thesis using snoc False g by (simp add: put_descriptors_snoc Let_def length_put)
  qed (use snoc in \<open>simp add: put_descriptors_snoc\<close>)
qed

lemma slice_put_descriptors:
  assumes "list_all bgd_wf gs" "bs = 32 * m" "length buf = bs" "gi < length gs" "i * m \<le> gi" "gi < i * m + m"
  shows "slice (put_descriptors bs i gs buf) (gi * 32 - i * bs) 32 = bgd_bytes (gs ! gi)"
  using assms(1,4)
proof (induction gs rule: rev_induct)
  case (snoc g gs)
  let ?k = "length gs" and ?b = "put_descriptors bs i gs buf"
  have g: "length (bgd_bytes g) = 32" using snoc.prems length_bgd_bytes by simp
  have len: "length ?b = bs" using length_put_descriptors assms(2,3) snoc.prems(1) by simp
  have in_range: "j * 32 - i * bs + 32 \<le> bs" if "i * m \<le> j" "j < i * m + m" for j
    unfolding assms(2) using that by simp
  show ?case
  proof (cases "?k * 32 + 32 \<le> i * bs \<or> ?k * 32 \<ge> i * bs + bs")
    case True
    then have "gi \<noteq> ?k" using descriptor_slot [of ?k i m] assms(2,5,6) by auto
    then show ?thesis using snoc True by (simp add: put_descriptors_snoc nth_append)
  next
    case False
    then have k: "i * m \<le> ?k" "?k < i * m + m" using descriptor_slot [of ?k i m] assms(2) by auto
    have eq: "put_descriptors bs i (gs @ [g]) buf = put ?b (?k * 32 - i * bs) (bgd_bytes g)"
      using False by (simp add: put_descriptors_snoc)
    show ?thesis
    proof (cases "gi = ?k")
      case True
      then show ?thesis unfolding eq using slice_put_same [of "?k * 32 - i * bs" "bgd_bytes g" ?b] in_range [OF k] len g by simp
    next
      case False
      then have gi: "gi < ?k" using snoc.prems(2) by simp
      then have "gi * 32 - i * bs + 32 \<le> ?k * 32 - i * bs" using assms(5) unfolding assms(2) by simp
      then have "slice (put ?b (?k * 32 - i * bs) (bgd_bytes g)) (gi * 32 - i * bs) 32 = slice ?b (gi * 32 - i * bs) 32"
        using in_range [OF k] len g by (intro slice_put_other) simp_all
      then show ?thesis unfolding eq using snoc gi by (simp add: nth_append)
    qed
  qed
qed simp

lemma takeWhile_all: "\<forall>x \<in> set xs. P x \<Longrightarrow> takeWhile P xs = xs"
  by simp

lemma parse_put_descriptors:
  assumes "list_all bgd_wf gs" "bs = 32 * m" "length gs * 32 \<le> n * bs"
    and "\<forall>i < n. f i = put_descriptors bs i gs (old i) \<and> length (old i) = bs"
  shows "parse_block_group_descriptors (concat (map f [0..<n])) (length gs) = gs"
proof -
  have len: "\<forall>i < n. length (f i) = bs" using assms length_put_descriptors by simp
  have one: "slice (concat (map f [0..<n])) (gi * 32) 32 = bgd_bytes (gs ! gi)" if gi: "gi < length gs" for gi
  proof -
    let ?i = "gi div m"
    have "gi * 32 < n * bs" using gi assms(3) by linarith
    then have m: "0 < m" and "gi < n * m" using assms(2) by (auto intro: gr0I)
    then have i: "?i < n" by (simp add: div_less_iff_less_mult)
    have gm: "?i * m \<le> gi" "gi < ?i * m + m"
      using m div_mult_mod_eq [of gi m] mod_less_divisor [OF m, of gi] by linarith+
    have o: "gi * 32 = ?i * bs + (gi * 32 - ?i * bs)" "gi * 32 - ?i * bs + 32 \<le> bs"
      using gm unfolding assms(2) by simp_all
    have "slice (concat (map f [0..<n])) (gi * 32) 32 = slice (f ?i) (gi * 32 - ?i * bs) 32"
      by (subst o(1), rule slice_concat [OF len i o(2)])
    also have "\<dots> = bgd_bytes (gs ! gi)"
      using assms(4) i slice_put_descriptors [OF assms(1,2) _ gi gm] by simp
    finally show ?thesis .
  qed
  have tw: "takeWhile (\<lambda>i. i * BGD_SIZE + BGD_SIZE \<le> length (concat (map f [0..<n]))) [0..<length gs] = [0..<length gs]"
    using assms(3) length_concat_blocks [OF len] by (intro takeWhile_all) auto
  show ?thesis
    unfolding parse_block_group_descriptors_def tw
    using one bgd_of_bytes_inverse [of _ "[]"] assms(1) by (intro nth_equalityI) (simp_all add: list_all_length)
qed

section \<open>The metadata blocks\<close>

definition tbl_blocks :: "'d ext2 \<Rightarrow> nat" where
  "tbl_blocks s = div_ceil (length (x_groups s) * BGD_SIZE) (x_block_size s)"

definition first_blk :: "'d ext2 \<Rightarrow> nat" where
  "first_blk s = es_first_data_block (x_sb s)"

text \<open>
  The geometry the copies rely on: the first data block holds the superblock, the table of
  descriptors follows it inside the group, and there is a descriptor for every group.
\<close>

definition meta_geo :: "'d ext2 \<Rightarrow> bool" where
  "meta_geo s \<longleftrightarrow> x_block_size s = sb_block_size (x_sb s) \<and> first_blk s = (if x_block_size s = 1024 then 1 else 0)
     \<and> length (x_groups s) = block_group_count (x_sb s) \<and> tbl_blocks s + 1 < es_blocks_per_group (x_sb s)
     \<and> first_blk s + (length (x_groups s) + 1) * es_blocks_per_group (x_sb s) < 2 ^ 32 \<and> list_all bgd_wf (x_groups s)"

definition copy_groups :: "'d ext2 \<Rightarrow> nat list" where
  "copy_groups s = 0 # backup_groups (x_sb s)"

definition meta_blocks :: "'d ext2 \<Rightarrow> usize set" where
  "meta_blocks s = {group_block (x_sb s) g + j |g j. g \<in> set (copy_groups s) \<and> j \<le> tbl_blocks s}"

definition sb_off :: "'d ext2 \<Rightarrow> usize" where
  "sb_off s = (if x_block_size s = 1024 then 0 else 1024)"

definition sb_image :: "('d \<Rightarrow> usize \<Rightarrow> bytes) \<Rightarrow> 'd ext2 \<Rightarrow> bytes" where
  "sb_image content s = slice (fsv content s (first_blk s)) (sb_off s) 1024"

lemma copy_group_lt: "\<lbrakk>meta_geo s; g \<in> set (copy_groups s)\<rbrakk> \<Longrightarrow> g \<le> length (x_groups s)"
  by (auto simp: copy_groups_def backup_groups_def meta_geo_def)

lemma copy_groups_distinct: "distinct (copy_groups s)"
  by (auto simp: copy_groups_def backup_groups_def)

lemma meta_group_block:
  assumes "meta_geo s" "g \<in> set (copy_groups s)"
  shows "group_block (x_sb s) g = first_blk s + g * es_blocks_per_group (x_sb s)"
    "group_block (x_sb s) g + es_blocks_per_group (x_sb s) < 2 ^ 32"
proof -
  let ?p = "es_blocks_per_group (x_sb s)"
  have "g * ?p + ?p \<le> (length (x_groups s) + 1) * ?p" using copy_group_lt [OF assms] mult_le_mono1 [of "g + 1" "length (x_groups s) + 1" ?p] by simp
  moreover have "first_blk s + (length (x_groups s) + 1) * ?p < 2 ^ 32" using assms(1) unfolding meta_geo_def by blast
  ultimately have "first_blk s + g * ?p + ?p < 2 ^ 32" by linarith
  then show "group_block (x_sb s) g = first_blk s + g * ?p" "group_block (x_sb s) g + ?p < 2 ^ 32"
    by (simp_all add: group_block_def first_blk_def usize_simps)
qed

lemma group_block_inj:
  assumes "meta_geo s" "g \<in> set (copy_groups s)" "h \<in> set (copy_groups s)" "g \<noteq> h" "i \<le> tbl_blocks s" "j \<le> tbl_blocks s"
  shows "group_block (x_sb s) g + i \<noteq> group_block (x_sb s) h + j"
proof
  let ?p = "es_blocks_per_group (x_sb s)"
  assume "group_block (x_sb s) g + i = group_block (x_sb s) h + j"
  then have "g * ?p + i = h * ?p + j" using meta_group_block(1) [OF assms(1)] assms(2,3) by simp
  moreover have "i < ?p" "j < ?p" using assms(1,5,6) by (auto simp: meta_geo_def)
  ultimately show False using blocks_disjoint [of g ?p i h j] assms(4) by blast
qed

lemma meta_frame:
  assumes "x_frame s t"
  shows "tbl_blocks t = tbl_blocks s" "first_blk t = first_blk s" "meta_geo t = meta_geo s" "copy_groups t = copy_groups s"
    "meta_blocks t = meta_blocks s" "sb_off t = sb_off s"
  using x_frameD [OF assms]
  by (simp_all add: tbl_blocks_def first_blk_def meta_geo_def copy_groups_def meta_blocks_def sb_off_def)

lemma sb_range: "meta_geo s \<Longrightarrow> sb_off s + 1024 \<le> x_block_size s"
  by (cases "es_log_block_size (x_sb s)") (auto simp: meta_geo_def sb_off_def sb_block_size_def)

lemma thn_for_each: "thn (f x) (\<lambda>_. for_each f xs) = for_each f (x # xs)"
  by simp

section \<open>Writing the superblock copies\<close>

lemma write_super_block_law:
  assumes "x_inv content durable s" "\<not> x_read_only s" "\<not> x_sb_held s" "meta_geo s"
  shows "wp write_super_block (\<lambda>r t. x_frame s t \<and> x_inv content durable t
    \<and> (\<forall>c. c \<notin> group_block (x_sb s) ` set (copy_groups s) \<longrightarrow> fsv content t c = fsv content s c)
    \<and> (case r of Inr _ \<Rightarrow> sb_image content t = patch_into (x_sb s) (sb_image content s) 0 0 \<and> length (sb_image content s) = 1024
        | Inl e \<Rightarrow> io_fault s e)) s"
proof -
  let ?sb = "x_sb s" let ?off = "\<lambda>g. if g = 0 then sb_off s else (0 :: nat)"
  let ?f = "\<lambda>g buf. put buf (?off g) (patch_into ?sb (slice buf (?off g) 1024) (g mod 2 ^ 16) 0)"
  let ?m = "for_each (\<lambda>g. thn (read_fs_block (group_block ?sb g)) (\<lambda>buf. write_fs_block (group_block ?sb g) (?f g buf))) (copy_groups s)"
  have gb0: "group_block ?sb 0 = first_blk s" using meta_group_block(1) [OF assms(4), of 0] by (simp add: copy_groups_def)
  have fb: "first_blk s = (if x_block_size s = 1024 then 1 else 0)" using assms(4) by (simp add: meta_geo_def)
  have bk: "for_each (\<lambda>g. patch_super_block_copy ?sb (group_block ?sb g) 0 (g mod 2 ^ 16)) (backup_groups ?sb)
      = for_each (\<lambda>g. thn (read_fs_block (group_block ?sb g)) (\<lambda>buf. write_fs_block (group_block ?sb g) (?f g buf))) (backup_groups ?sb)"
    by (rule for_each_cong) (auto simp: patch_super_block_copy_def backup_groups_def)
  have p0: "patch_super_block_copy ?sb (first_blk s) (sb_off s) 0
      = thn (read_fs_block (group_block ?sb 0)) (\<lambda>buf. write_fs_block (group_block ?sb 0) (?f 0 buf))"
    by (simp add: patch_super_block_copy_def gb0)
  have "write_super_block s = thn (patch_super_block_copy ?sb (first_blk s) (sb_off s) 0) (\<lambda>_.
      for_each (\<lambda>g. patch_super_block_copy ?sb (group_block ?sb g) 0 (g mod 2 ^ 16)) (backup_groups ?sb)) s"
    using assms(2,3) fb by (simp add: write_super_block_def thn_get_sb sb_off_def)
  then have eq: "write_super_block s = ?m s" unfolding p0 bk by (simp only: copy_groups_def for_each.simps)
  have off: "?off g + 1024 \<le> x_block_size s" for g
    using sb_range [OF assms(4)] assms(1) by (auto simp: x_inv_def)
  have len: "length (?f g buf) = x_block_size s" if "length buf = x_block_size s" for g buf
    using off [of g] that by (simp add: length_put length_patch_into length_slice)
  have lim: "\<forall>g \<in> set (copy_groups s). group_block ?sb g < BLOCK_LIM"
    using meta_group_block(2) [OF assms(4)] by (fastforce simp: BLOCK_LIM_def)
  have dist: "distinct (map (group_block ?sb) (copy_groups s))"
    unfolding distinct_map using copy_groups_distinct group_block_inj [OF assms(4), where i = 0 and j = 0]
    by (auto intro!: inj_onI)
  have "wp ?m (\<lambda>r t. x_frame s t \<and> x_inv content durable t
    \<and> (\<forall>c. c \<notin> group_block (x_sb s) ` set (copy_groups s) \<longrightarrow> fsv content t c = fsv content s c)
    \<and> (case r of Inr _ \<Rightarrow> sb_image content t = patch_into (x_sb s) (sb_image content s) 0 0 \<and> length (sb_image content s) = 1024
        | Inl e \<Rightarrow> io_fault s e)) s"
  proof (rule wp_mono [OF xb.modify_blocks [OF assms(1) lim assms(2), where f = ?f]], rule len, goal_cases)
    case (2 r t)
    have "sb_image content t = patch_into ?sb (sb_image content s) 0 0 \<and> length (sb_image content s) = 1024" if "r = Inr ()"
    proof -
      let ?v = "fsv content s (first_blk s)"
      have v: "fsv content t (first_blk s) = ?f 0 ?v" "length ?v = x_block_size s"
        using 2 that dist gb0 by (auto simp: copy_groups_def)
      have l: "length (slice ?v (sb_off s) 1024) = 1024" using off [of 0] v(2) by (simp add: length_slice)
      then have "slice (?f 0 ?v) (sb_off s) 1024 = patch_into ?sb (slice ?v (sb_off s) 1024) 0 0"
        using slice_put_same [of "sb_off s" "patch_into ?sb (slice ?v (sb_off s) 1024) 0 0" ?v] off [of 0] v(2)
        by (simp add: length_patch_into)
      then show ?thesis using v l 2 meta_frame [of s t] by (simp add: sb_image_def)
    qed
    then show ?case using 2 by (auto split: sum.splits)
  qed simp_all
  then show ?thesis by (rule wp_eqI) (rule eq)
qed

lemma sync_act_law:
  assumes "x_inv content durable s"
  shows "wp x_cache_sync (\<lambda>r t. x_frame s t \<and> x_inv content durable t \<and> fsv content t = fsv content s
    \<and> (case r of Inr _ \<Rightarrow> durable (bc_disk (x_cache t)) = cache_view content (x_cache t) | Inl e \<Rightarrow> io_fault s e)) s"
proof -
  obtain r c where rc: "cache_sync (x_cache s) = (r, c)" by force
  have "cache_inv content durable (x_cache s)" using assms by (simp add: x_inv_def)
  note law = sync_law [OF this rc]
  let ?t = "s\<lparr>x_cache := c\<rparr>"
  have f: "x_frame s ?t" using law by (intro x_frame_cache) simp
  have "\<not> reliable s" if "r = Inl e" for e
    using write_back_total [of "x_cache s"] rc that unfolding reliable_def cache_sync_def by (metis Inl_Inr_False prod.inject)
  moreover have "fsv content ?t = fsv content s" unfolding fsv_def fun_eq_iff using law x_frameD(8) [OF f] by simp
  ultimately show ?thesis using f law rc x_inv_frame [OF assms f]
    by (cases r) (simp_all add: x_cache_sync_def wp_cached_io io_fault_def)
qed

section \<open>Writing the descriptor tables\<close>

lemma block_size_32: "meta_geo s \<Longrightarrow> \<exists>m. x_block_size s = 32 * m"
  by (rule exI [of _ "32 * 2 ^ es_log_block_size (x_sb s)"]) (simp add: meta_geo_def sb_block_size_def)

lemma write_bgdt_at_law:
  assumes "x_inv content durable s" "\<not> x_read_only s" "meta_geo s" "start + tbl_blocks s < BLOCK_LIM"
  shows "wp (write_bgdt_at start) (\<lambda>r t. x_frame s t \<and> x_inv content durable t
    \<and> (\<forall>c. c \<notin> {start..<start + tbl_blocks s} \<longrightarrow> fsv content t c = fsv content s c)
    \<and> (case r of Inr _ \<Rightarrow> \<forall>i < tbl_blocks s. \<exists>old. length old = x_block_size s
          \<and> fsv content t (start + i) = put_descriptors (x_block_size s) i (x_groups s) old
        | Inl e \<Rightarrow> io_fault s e)) s"
proof -
  let ?f = "\<lambda>i. put_descriptors (x_block_size s) i (x_groups s)"
  let ?m = "for_each (\<lambda>i. thn (read_fs_block (start + i)) (\<lambda>buf. write_fs_block (start + i) (?f i buf))) [0..<tbl_blocks s]"
  obtain m where m: "x_block_size s = 32 * m" using block_size_32 [OF assms(3)] ..
  have wf: "list_all bgd_wf (x_groups s)" using assms(3) by (simp add: meta_geo_def)
  have len: "length (?f i buf) = x_block_size s" if "length buf = x_block_size s" for i buf
    using length_put_descriptors [OF wf m that] .
  have lim: "\<forall>i \<in> set [0..<tbl_blocks s]. start + i < BLOCK_LIM" using assms(4) by auto
  have "wp ?m (\<lambda>r t. x_frame s t \<and> x_inv content durable t
    \<and> (\<forall>c. c \<notin> {start..<start + tbl_blocks s} \<longrightarrow> fsv content t c = fsv content s c)
    \<and> (case r of Inr _ \<Rightarrow> \<forall>i < tbl_blocks s. \<exists>old. length old = x_block_size s
          \<and> fsv content t (start + i) = put_descriptors (x_block_size s) i (x_groups s) old
        | Inl e \<Rightarrow> io_fault s e)) s"
  proof (rule wp_mono [OF xb.modify_blocks [OF assms(1) lim assms(2), where f = ?f]], rule len, goal_cases)
    case (2 r t)
    have "(\<lambda>i. start + i) ` set [0..<tbl_blocks s] = {start..<start + tbl_blocks s}" by (simp add: add.commute)
    moreover have "distinct (map (\<lambda>i. start + i) [0..<tbl_blocks s])" by (simp add: distinct_map)
    ultimately show ?case using 2 by (auto split: sum.splits)
  qed simp
  then show ?thesis by (rule wp_eqI) (simp add: write_bgdt_at_def tbl_blocks_def Let_def)
qed

lemma write_bgdts_law:
  assumes "x_inv content durable s" "\<not> x_read_only s" "\<not> x_sb_held s" "meta_geo s"
  shows "wp write_block_group_descriptors (\<lambda>r t. x_frame s t \<and> x_inv content durable t
    \<and> (\<forall>c. c \<notin> meta_blocks s \<or> c \<in> group_block (x_sb s) ` set (copy_groups s) \<longrightarrow> fsv content t c = fsv content s c)
    \<and> (case r of Inr _ \<Rightarrow> \<forall>i < tbl_blocks s. \<exists>old. length old = x_block_size s
          \<and> fsv content t (first_blk s + 1 + i) = put_descriptors (x_block_size s) i (x_groups s) old
        | Inl e \<Rightarrow> io_fault s e)) s"
    (is "wp _ ?Q s")
proof -
  let ?sb = "x_sb s" and ?n = "tbl_blocks s"
  let ?T = "\<lambda>g. {group_block ?sb g + 1..<group_block ?sb g + 1 + ?n}"
  have gb0: "group_block ?sb 0 = first_blk s" using meta_group_block(1) [OF assms(4), of 0] by (simp add: copy_groups_def)
  have lim: "group_block ?sb g + 1 + ?n < BLOCK_LIM" if "g \<in> set (copy_groups s)" for g
    using meta_group_block(2) [OF assms(4) that] assms(4) by (simp add: meta_geo_def BLOCK_LIM_def)
  have apart: "c \<notin> ?T g" if cg: "g \<in> set (copy_groups s)" "c \<notin> meta_blocks s \<or> c \<in> group_block ?sb ` set (copy_groups s)" for c g
  proof
    assume c: "c \<in> ?T g"
    define j where "j = c - group_block ?sb g"
    have j: "c = group_block ?sb g + j" "1 \<le> j" "j \<le> ?n" using c by (auto simp: j_def)
    then have "c \<in> meta_blocks s" using cg(1) by (auto simp: meta_blocks_def)
    then obtain h where h: "h \<in> set (copy_groups s)" "c = group_block ?sb h" using cg(2) by auto
    then have "h = g" using group_block_inj [OF assms(4) h(1) cg(1), of 0 j] j by auto
    then show False using h j by simp
  qed
  have step: "wp (write_bgdt_at (group_block ?sb g + 1)) (\<lambda>r t. x_frame u t \<and> x_inv content durable t
      \<and> (\<forall>c. c \<notin> ?T g \<longrightarrow> fsv content t c = fsv content u c)
      \<and> (case r of Inr _ \<Rightarrow> \<forall>i < ?n. \<exists>old. length old = x_block_size s
            \<and> fsv content t (group_block ?sb g + 1 + i) = put_descriptors (x_block_size s) i (x_groups s) old
          | Inl e \<Rightarrow> io_fault s e)) u"
    if "g \<in> set (copy_groups s)" "x_frame s u" "x_inv content durable u" for g u
    using write_bgdt_at_law [OF that(3), of "group_block ?sb g + 1", unfolded x_frameD [OF that(2)] meta_frame [OF that(2)]
        io_fault_frame(1) [OF that(2)], OF assms(2,4) lim [OF that(1)]] .
  have eq: "write_block_group_descriptors s = thn (write_bgdt_at (group_block ?sb 0 + 1)) (\<lambda>_.
      for_each (\<lambda>g. write_bgdt_at (group_block ?sb g + 1)) (backup_groups ?sb)) s"
    using assms(2,3) gb0 by (simp add: write_block_group_descriptors_def thn_get_sb first_blk_def)
  have 0: "0 \<in> set (copy_groups s)" by (simp add: copy_groups_def)
  have "wp (thn (write_bgdt_at (group_block ?sb 0 + 1)) (\<lambda>_.
      for_each (\<lambda>g. write_bgdt_at (group_block ?sb g + 1)) (backup_groups ?sb))) ?Q s"
  proof (rule wp_seq [OF step [OF 0 x_frame_refl assms(1)]], goal_cases)
    case (1 e t)
    then show ?case using apart [OF 0] by auto
  next
    case (2 v t)
    define I where "I u \<longleftrightarrow> x_frame s u \<and> x_inv content durable u
      \<and> (\<forall>c. c \<notin> meta_blocks s \<or> c \<in> group_block ?sb ` set (copy_groups s) \<longrightarrow> fsv content u c = fsv content s c)
      \<and> (\<forall>i < ?n. fsv content u (first_blk s + 1 + i) = fsv content t (first_blk s + 1 + i))" for u
    show ?case
    proof (rule wp_for_each [where I = I])
      show "I t" using 2 apart [OF 0] by (auto simp: I_def)
      show "?Q (Inr ()) u" if "I u" for u using that 2 gb0 by (simp add: I_def)
      fix g u assume g: "g \<in> set (backup_groups ?sb)" and u: "I u"
      then have gc: "g \<in> set (copy_groups s)" "g \<noteq> 0" by (auto simp: copy_groups_def backup_groups_def)
      have "x_frame s u" "x_inv content durable u" using u by (simp_all add: I_def)
      from step [OF gc(1) this]
      show "wp (write_bgdt_at (group_block ?sb g + 1)) (\<lambda>r w. I w \<and> (\<forall>e. r = Inl e \<longrightarrow> ?Q (Inl e) w)) u"
      proof (rule wp_mono, goal_cases)
        case (1 r w)
        have "first_blk s + 1 + i \<notin> ?T g" if "i < ?n" for i
        proof
          assume "first_blk s + 1 + i \<in> ?T g"
          then have "\<exists>j \<le> ?n. first_blk s + (1 + i) = group_block ?sb g + j"
            by (intro exI [of _ "first_blk s + 1 + i - group_block ?sb g"]) auto
          then show False using group_block_inj [OF assms(4) 0 gc(1) gc(2) [symmetric], of "1 + i"] that gb0 by auto
        qed
        moreover have "x_frame s w" using 1 u x_frame_trans by (auto simp: I_def)
        ultimately have "I w" using 1 u apart [OF gc(1)] unfolding I_def by force
        then show ?case using 1 by (auto simp: I_def)
      qed
    qed
  qed
  then show ?thesis by (rule wp_eqI) (rule eq)
qed

section \<open>Mounting and unmounting\<close>

text \<open>The superblock in memory is the one on disk but for the fields written back.\<close>

definition sb_matches :: "('d \<Rightarrow> usize \<Rightarrow> bytes) \<Rightarrow> 'd ext2 \<Rightarrow> bool" where
  "sb_matches content s \<longleftrightarrow> (\<exists>old. sb_from_raw (raw_sb_of_bytes (sb_image content s)) = Inr old
     \<and> x_sb s = old\<lparr>es_free_blocks_count := es_free_blocks_count (x_sb s), es_free_inodes_count := es_free_inodes_count (x_sb s),
         es_state := es_state (x_sb s), es_mnt_count := es_mnt_count (x_sb s)\<rparr>)
     \<and> es_free_blocks_count (x_sb s) < 2 ^ 32 \<and> es_free_inodes_count (x_sb s) < 2 ^ 32
     \<and> es_state (x_sb s) < 2 ^ 16 \<and> es_mnt_count (x_sb s) < 2 ^ 16"

lemma sb_matches_patch:
  "\<lbrakk>sb_matches content s; length (sb_image content s) = 1024\<rbrakk> \<Longrightarrow>
     sb_from_raw (raw_sb_of_bytes (patch_into (x_sb s) (sb_image content s) 0 0)) = Inr (x_sb s)"
  unfolding sb_matches_def by (elim conjE exE) (rule sb_patch_parse, simp_all)

text \<open>A change of the superblock in memory that keeps the geometry.\<close>

definition sb_moved :: "'d ext2 \<Rightarrow> 'd ext2 \<Rightarrow> bool" where
  "sb_moved s t \<longleftrightarrow> (\<exists>st mc. t = s\<lparr>x_cache := x_cache t, x_sb := (x_sb s)\<lparr>es_state := st, es_mnt_count := mc\<rparr>\<rparr>)
     \<and> bc_device (x_cache t) = bc_device (x_cache s)"

lemma sb_moved_frame: "x_frame s t \<Longrightarrow> sb_moved s t"
  unfolding sb_moved_def
  by (intro conjI exI [of _ "es_state (x_sb s)"] exI [of _ "es_mnt_count (x_sb s)"] ext2.equality)
    (simp_all add: x_frameD x_frame_def [THEN iffD1, THEN conjunct2])

lemma sb_moved_trans: "\<lbrakk>sb_moved s t; sb_moved t u\<rbrakk> \<Longrightarrow> sb_moved s u"
  unfolding sb_moved_def
proof (elim conjE exE, rule conjI)
  fix st mc st' mc'
  assume t: "t = s\<lparr>x_cache := x_cache t, x_sb := (x_sb s)\<lparr>es_state := st, es_mnt_count := mc\<rparr>\<rparr>"
    and u: "u = t\<lparr>x_cache := x_cache u, x_sb := (x_sb t)\<lparr>es_state := st', es_mnt_count := mc'\<rparr>\<rparr>"
  have "u = s\<lparr>x_cache := x_cache u, x_sb := (x_sb s)\<lparr>es_state := st', es_mnt_count := mc'\<rparr>\<rparr>"
    by (subst u, subst (1 2) t) simp
  then show "\<exists>st mc. u = s\<lparr>x_cache := x_cache u, x_sb := (x_sb s)\<lparr>es_state := st, es_mnt_count := mc\<rparr>\<rparr>" by blast
qed simp

lemma sb_movedD:
  assumes "sb_moved s t"
  shows "x_groups t = x_groups s" "x_block_size t = x_block_size s" "x_read_only t = x_read_only s" "x_sb_held t = x_sb_held s"
    "x_per t = x_per s" "x_dev_bs t = x_dev_bs s" "reliable t = reliable s" "io_fault t = io_fault s"
    "tbl_blocks t = tbl_blocks s" "first_blk t = first_blk s" "meta_geo t = meta_geo s" "copy_groups t = copy_groups s"
    "group_block (x_sb t) = group_block (x_sb s)" "meta_blocks t = meta_blocks s" "sb_off t = sb_off s" "x_objs t = x_objs s"
    "x_icache t = x_icache s"
proof -
  obtain st mc where t: "t = s\<lparr>x_cache := x_cache t, x_sb := (x_sb s)\<lparr>es_state := st, es_mnt_count := mc\<rparr>\<rparr>"
    and d: "bc_device (x_cache t) = bc_device (x_cache s)"
    using assms by (auto simp: sb_moved_def)
  have sb: "x_sb t = (x_sb s)\<lparr>es_state := st, es_mnt_count := mc\<rparr>" by (subst t) simp
  show b: "x_groups t = x_groups s" "x_block_size t = x_block_size s" "x_read_only t = x_read_only s" "x_sb_held t = x_sb_held s"
    "x_objs t = x_objs s" "x_icache t = x_icache s"
    by (subst t, simp)+
  show p: "x_dev_bs t = x_dev_bs s" "x_per t = x_per s" "reliable t = reliable s" "io_fault t = io_fault s"
    using d b by (simp_all add: x_dev_bs_def x_per_def reliable_def io_fault_def fun_eq_iff)
  show g: "group_block (x_sb t) = group_block (x_sb s)" by (simp add: fun_eq_iff group_block_def sb)
  show "tbl_blocks t = tbl_blocks s" "first_blk t = first_blk s" "meta_geo t = meta_geo s" "copy_groups t = copy_groups s"
    "meta_blocks t = meta_blocks s" "sb_off t = sb_off s"
    using b g by (simp_all add: tbl_blocks_def first_blk_def meta_geo_def copy_groups_def meta_blocks_def sb_off_def sb
        sb_block_size_def block_group_count_def backup_groups_def has_sparse_super_def)
qed

lemma view_sb_update [simp]:
  "fsv content (x_sb_update f s) = fsv content s" "x_inv content durable (x_sb_update f s) = x_inv content durable s"
  "x_cache (x_sb_update f s) = x_cache s"
  by (simp_all add: fun_eq_iff fsv_def x_inv_def x_per_def x_dev_bs_def)

text \<open>Publishing a superblock: write the copies, then the barrier.\<close>

definition published :: "('d \<Rightarrow> usize \<Rightarrow> bytes) \<Rightarrow> ('d \<Rightarrow> usize \<Rightarrow> bytes) \<Rightarrow> 'd ext2 \<Rightarrow> 'd ext2 \<Rightarrow> unit fsres \<Rightarrow> bool" where
  "published content durable s t r \<longleftrightarrow> x_frame s t \<and> x_inv content durable t
    \<and> (\<forall>c. c \<notin> group_block (x_sb s) ` set (copy_groups s) \<longrightarrow> fsv content t c = fsv content s c)
    \<and> (case r of Inr _ \<Rightarrow> sb_image content t = patch_into (x_sb s) (sb_image content s) 0 0 \<and> length (sb_image content s) = 1024
          \<and> durable (bc_disk (x_cache t)) = cache_view content (x_cache t)
        | Inl e \<Rightarrow> io_fault s e)"

lemma publish_law:
  assumes "x_inv content durable s" "\<not> x_read_only s" "\<not> x_sb_held s" "meta_geo s"
  shows "wp (thn write_super_block (\<lambda>_. x_cache_sync)) (\<lambda>r t. published content durable s t r) s"
proof (rule wp_seq [OF write_super_block_law [OF assms]], goal_cases)
  case (1 e t)
  then show ?case by (simp add: published_def)
next
  case (2 u t)
  then have t: "x_frame s t" "x_inv content durable t" by simp_all
  from sync_act_law [OF t(2)] show ?case
  proof (rule wp_mono, goal_cases)
    case (1 r w)
    have "x_frame s w" using 1 t(1) x_frame_trans by blast
    moreover have "sb_image content w = sb_image content t" using 1 meta_frame [of t w] by (simp add: sb_image_def)
    ultimately show ?case using 1 2 io_fault_frame(1) [OF t(1)] by (auto simp: published_def split: sum.splits)
  qed
qed

lemma wp_upd_sb: "\<not> x_sb_held s \<Longrightarrow> wp (upd_sb f) Q s \<longleftrightarrow> Q (Inr ()) (x_sb_update f s)"
  by (simp add: wp_def upd_sb_def upd_def)

lemma wp_get_sb: "\<not> x_sb_held s \<Longrightarrow> wp get_sb Q s \<longleftrightarrow> Q (Inr (x_sb s)) s"
  by (simp add: wp_def get_sb_def ret_def)

text \<open>
  The common tail of mounting and unmounting: change the state field, publish, and on a failure
  take the change back.
\<close>

definition restate :: "(ext2_sb \<Rightarrow> ext2_sb) \<Rightarrow> (ext2_sb \<Rightarrow> ext2_sb \<Rightarrow> ext2_sb) \<Rightarrow> ('d ext2, unit) act" where
  "restate new old =
     thn get_sb (\<lambda>previous. thn (upd_sb new) (\<lambda>_.
     thn (attempt (thn write_super_block (\<lambda>_. x_cache_sync))) (\<lambda>result.
     case result of
       Inr _ \<Rightarrow> ret ()
     | Inl e \<Rightarrow> thn (upd_sb (old previous)) (\<lambda>_. thn (ignore write_super_block) (\<lambda>_. fail e)))))"

definition restated :: "('d \<Rightarrow> usize \<Rightarrow> bytes) \<Rightarrow> ('d \<Rightarrow> usize \<Rightarrow> bytes) \<Rightarrow> ext2_sb \<Rightarrow> 'd ext2 \<Rightarrow> 'd ext2 \<Rightarrow> unit fsres \<Rightarrow> bool" where
  "restated content durable sb s t r \<longleftrightarrow> sb_moved s t \<and> x_inv content durable t
    \<and> (\<forall>c. c \<notin> group_block (x_sb s) ` set (copy_groups s) \<longrightarrow> fsv content t c = fsv content s c)
    \<and> (case r of Inr _ \<Rightarrow> x_sb t = sb \<and> sb_image content t = patch_into sb (sb_image content s) 0 0
          \<and> length (sb_image content s) = 1024 \<and> durable (bc_disk (x_cache t)) = cache_view content (x_cache t)
        | Inl e \<Rightarrow> io_fault s e \<and> x_sb t = x_sb s)"

lemma restate_law:
  assumes "x_inv content durable s" "\<not> x_read_only s" "\<not> x_sb_held s" "meta_geo s"
    and new: "\<And>sb. new sb = sb\<lparr>es_state := st sb, es_mnt_count := mc sb\<rparr>" and back_: "\<And>p. old p (new p) = p"
  shows "wp (restate new old) (\<lambda>r t. restated content durable (new (x_sb s)) s t r) s"
proof -
  let ?u = "x_sb_update new s"
  have mv: "sb_moved s ?u"
    unfolding sb_moved_def new
    by (intro conjI exI [of _ "st (x_sb s)"] exI [of _ "mc (x_sb s)"] ext2.equality) simp_all
  note u = sb_movedD [OF mv]
  have pub: "wp (thn write_super_block (\<lambda>_. x_cache_sync)) (\<lambda>r t. published content durable ?u t r) ?u"
    using assms(1-4) u by (intro publish_law) simp_all
  have img: "sb_image content ?u = sb_image content s" using u by (simp add: sb_image_def)
  have "wp (attempt (thn write_super_block (\<lambda>_. x_cache_sync))) (\<lambda>r t. case r of
        Inr (Inr _) \<Rightarrow> published content durable ?u t (Inr ())
      | Inr (Inl e) \<Rightarrow> published content durable ?u t (Inl (FsErr e))
      | Inl _ \<Rightarrow> False) ?u"
    unfolding wp_attempt by (rule wp_mono [OF pub]) (auto simp: published_def io_fault_def split: sum.splits crash.splits)
  then have "wp (thn (attempt (thn write_super_block (\<lambda>_. x_cache_sync))) (\<lambda>result.
     case result of
       Inr _ \<Rightarrow> ret ()
     | Inl e \<Rightarrow> thn (upd_sb (old (x_sb s))) (\<lambda>_. thn (ignore write_super_block) (\<lambda>_. fail e))))
     (\<lambda>r t. restated content durable (new (x_sb s)) s t r) ?u"
  proof (rule wp_seq, goal_cases)
    case (1 e t)
    then show ?case by simp
  next
    case (2 res t)
    show ?case
    proof (cases res)
      case (Inr v)
      then have p: "published content durable ?u t (Inr ())" using 2 by simp
      then have f: "x_frame ?u t" by (simp add: published_def)
      have "sb_moved s t" using sb_moved_trans [OF mv sb_moved_frame [OF f]] .
      then show ?thesis using Inr p u img x_frameD(1) [OF f] by (simp add: wp_simps restated_def published_def)
    next
      case (Inl e)
      then have p: "published content durable ?u t (Inl (FsErr e))" using 2 by simp
      then have f: "x_frame ?u t" and t: "x_inv content durable t" "io_fault ?u (FsErr e)"
        and v: "\<forall>c. c \<notin> group_block (x_sb s) ` set (copy_groups s) \<longrightarrow> fsv content t c = fsv content s c"
        using u by (simp_all add: published_def)
      let ?w = "x_sb_update (old (x_sb s)) t"
      have sbw: "x_sb ?w = x_sb s" using x_frameD(1) [OF f] back_ by simp
      have mw: "sb_moved s ?w"
        unfolding sb_moved_def
        by (intro conjI exI [of _ "es_state (x_sb s)"] exI [of _ "es_mnt_count (x_sb s)"] ext2.equality)
          (use x_frameD [OF f] sbw f in \<open>simp_all add: x_frame_def\<close>)
      note w = sb_movedD [OF mw]
      have wl: "wp write_super_block (\<lambda>r z. x_frame ?w z \<and> x_inv content durable z
        \<and> (\<forall>c. c \<notin> group_block (x_sb ?w) ` set (copy_groups ?w) \<longrightarrow> fsv content z c = fsv content ?w c)
        \<and> (case r of Inr _ \<Rightarrow> sb_image content z = patch_into (x_sb ?w) (sb_image content ?w) 0 0 \<and> length (sb_image content ?w) = 1024
            | Inl e \<Rightarrow> io_fault ?w e)) ?w"
        using assms(2-4) t(1) w by (intro write_super_block_law) simp_all
      have "restated content durable (new (x_sb s)) s z (Inl (FsErr e))"
        if z: "x_frame ?w z" "x_inv content durable z"
          "\<forall>c. c \<notin> group_block (x_sb ?w) ` set (copy_groups ?w) \<longrightarrow> fsv content z c = fsv content ?w c" for z
        using z v t(2) u w sbw x_frameD(1) [OF z(1)] sb_moved_trans [OF mw sb_moved_frame [OF z(1)]]
        by (simp add: restated_def)
      then have "wp (thn (ignore write_super_block) (\<lambda>_. fail e)) (\<lambda>r t. restated content durable (new (x_sb s)) s t r) ?w"
        unfolding ignore_def wp_thn wp_attempt
        by (intro wp_mono [OF wl]) (auto simp: wp_simps io_fault_def split: sum.splits crash.splits)
      moreover have "\<not> x_sb_held t" using x_frameD [OF f] u assms(3) by simp
      ultimately show ?thesis using Inl by (simp add: wp_thn wp_upd_sb)
    qed
  qed
  then show ?thesis unfolding restate_def wp_thn wp_get_sb [OF assms(3)] wp_upd_sb [OF assms(3)] sum.case .
qed

lemma unmount_eq:
  "ext2_on_unmount = thn write_super_block (\<lambda>_. thn write_block_group_descriptors (\<lambda>_. thn x_cache_sync (\<lambda>_.
     thn (gets x_read_only) (\<lambda>ro. if ro then ret ()
     else restate (\<lambda>sb. sb\<lparr>es_state := (es_state sb OR EXT2_VALID_FS)\<rparr>) (\<lambda>p sb. sb\<lparr>es_state := es_state p\<rparr>)))))"
  unfolding ext2_on_unmount_def restate_def ..

definition unmounted :: "('d \<Rightarrow> usize \<Rightarrow> bytes) \<Rightarrow> ('d \<Rightarrow> usize \<Rightarrow> bytes) \<Rightarrow> 'd ext2 \<Rightarrow> 'd ext2 \<Rightarrow> unit fsres \<Rightarrow> bool" where
  "unmounted content durable s t r \<longleftrightarrow> sb_moved s t \<and> x_inv content durable t
    \<and> (\<forall>c. c \<notin> meta_blocks s \<longrightarrow> fsv content t c = fsv content s c)
    \<and> (case r of
        Inr _ \<Rightarrow> x_sb t = (x_sb s)\<lparr>es_state := (es_state (x_sb s) OR EXT2_VALID_FS)\<rparr>
          \<and> sb_from_raw (raw_sb_of_bytes (sb_image content t)) = Inr (x_sb t)
          \<and> (\<forall>i < tbl_blocks s. \<exists>old. length old = x_block_size s
               \<and> fsv content t (first_blk s + 1 + i) = put_descriptors (x_block_size s) i (x_groups s) old)
          \<and> durable (bc_disk (x_cache t)) = cache_view content (x_cache t)
      | Inl e \<Rightarrow> io_fault s e \<and> x_sb t = x_sb s)"

lemma copies_meta: "group_block (x_sb s) ` set (copy_groups s) \<subseteq> meta_blocks s"
proof
  fix c assume "c \<in> group_block (x_sb s) ` set (copy_groups s)"
  then obtain g where "g \<in> set (copy_groups s)" "c = group_block (x_sb s) g + 0" by auto
  then show "c \<in> meta_blocks s" unfolding meta_blocks_def by blast
qed

lemma or_lt: "\<lbrakk>a < 2 ^ n; b < 2 ^ n\<rbrakk> \<Longrightarrow> (a OR b) < 2 ^ n" for a b :: nat
  by (simp flip: take_bit_nat_eq_self_iff)

lemma first_blk_copy: "meta_geo s \<Longrightarrow> first_blk s \<in> group_block (x_sb s) ` set (copy_groups s)"
  using meta_group_block(1) [of s 0] by (auto simp: copy_groups_def intro!: image_eqI [of _ _ 0])

lemma table_not_copy:
  assumes "meta_geo s" "i < tbl_blocks s"
  shows "first_blk s + 1 + i \<notin> group_block (x_sb s) ` set (copy_groups s)"
proof
  assume "first_blk s + 1 + i \<in> group_block (x_sb s) ` set (copy_groups s)"
  then obtain g where g: "g \<in> set (copy_groups s)" "group_block (x_sb s) 0 + (1 + i) = group_block (x_sb s) g + 0"
    using meta_group_block(1) [OF assms(1), of 0] by (auto simp: copy_groups_def)
  then have "g = 0" using group_block_inj [OF assms(1) _ g(1), of 0 "1 + i" 0] assms(2) by (auto simp: copy_groups_def)
  then show False using g(2) by simp
qed

lemma sb_image_frame: "\<lbrakk>x_frame s t; fsv content t (first_blk s) = fsv content s (first_blk s)\<rbrakk> \<Longrightarrow> sb_image content t = sb_image content s"
  by (simp add: sb_image_def meta_frame)

lemma unmounted_fail:
  assumes "x_frame s t" "x_inv content durable t" "io_fault s e"
    and "\<And>c. c \<notin> meta_blocks s \<Longrightarrow> fsv content t c = fsv content s c"
  shows "unmounted content durable s t (Inl e)"
  using assms sb_moved_frame [OF assms(1)] x_frameD(1) [OF assms(1)] by (simp add: unmounted_def)

lemma unmount_law:
  assumes "x_inv content durable s" "\<not> x_read_only s" "\<not> x_sb_held s" "meta_geo s" "sb_matches content s"
  shows "wp ext2_on_unmount (\<lambda>r t. unmounted content durable s t r) s"
  unfolding unmount_eq
proof (rule wp_seq [OF write_super_block_law [OF assms(1-4)]], goal_cases)
  case (1 e t)
  then have t: "x_frame s t" "x_inv content durable t" "io_fault s e"
    "\<forall>c. c \<notin> group_block (x_sb s) ` set (copy_groups s) \<longrightarrow> fsv content t c = fsv content s c" by auto
  then show ?case using copies_meta [of s] by (intro unmounted_fail) blast+
next
  case (2 _ a)
  then have a: "x_frame s a" "x_inv content durable a" "sb_image content a = patch_into (x_sb s) (sb_image content s) 0 0"
    "length (sb_image content s) = 1024"
    "\<And>c. c \<notin> group_block (x_sb s) ` set (copy_groups s) \<Longrightarrow> fsv content a c = fsv content s c" by auto
  note fa = x_frameD [OF a(1)] meta_frame [OF a(1)] io_fault_frame(1) [OF a(1)]
  have ma: "\<not> x_read_only a" "\<not> x_sb_held a" "meta_geo a" using assms(2-4) fa by simp_all
  show ?case
  proof (rule wp_seq [OF write_bgdts_law [OF a(2) ma, unfolded fa]], goal_cases)
    case (1 e t)
    then have t: "x_frame a t" "x_inv content durable t" "io_fault s e"
      "\<And>c. c \<notin> meta_blocks s \<Longrightarrow> fsv content t c = fsv content a c" by auto
    have "fsv content t c = fsv content s c" if "c \<notin> meta_blocks s" for c
      using t(4) [OF that] a(5) [of c] copies_meta [of s] that by (auto dest: subsetD)
    then show ?case by (rule unmounted_fail [OF x_frame_trans [OF a(1) t(1)] t(2,3)])
  next
    case (2 _ b)
    then have b: "x_frame a b" "x_inv content durable b"
      "\<And>c. c \<notin> meta_blocks s \<or> c \<in> group_block (x_sb s) ` set (copy_groups s) \<Longrightarrow> fsv content b c = fsv content a c"
      and tb: "\<forall>i < tbl_blocks s. \<exists>old. length old = x_block_size s
        \<and> fsv content b (first_blk s + 1 + i) = put_descriptors (x_block_size s) i (x_groups s) old" by auto
    show ?case
    proof (rule wp_seq [OF sync_act_law [OF b(2)]], goal_cases)
      case (1 e t)
      then have "x_frame s t" using x_frame_trans a(1) b(1) by blast
      moreover have "x_inv content durable t" "io_fault s e" "fsv content t = fsv content b"
        using 1 io_fault_frame(1) [OF a(1)] io_fault_frame(1) [OF b(1)] by auto
      moreover have "fsv content b c = fsv content s c" if "c \<notin> meta_blocks s" for c
        using b(3) [of c] a(5) [of c] copies_meta [of s] that by (auto dest: subsetD)
      ultimately show ?case by (intro unmounted_fail) simp_all
    next
      case (2 _ d)
      then have d: "x_frame b d" "x_inv content durable d" "fsv content d = fsv content b" by auto
      have fd: "x_frame s d" using x_frame_trans a(1) b(1) d(1) by blast
      note gd = x_frameD [OF fd] meta_frame [OF fd] io_fault_frame(1) [OF fd]
      have md: "\<not> x_read_only d" "\<not> x_sb_held d" "meta_geo d" using assms(2-4) gd by simp_all
      have imd: "sb_image content d = sb_image content a"
      proof -
        have "fsv content d (first_blk a) = fsv content a (first_blk a)"
          using b(3) d(3) first_blk_copy [OF assms(4)] fa by simp
        then show ?thesis using sb_image_frame x_frame_trans b(1) d(1) by blast
      qed
      then have parse: "sb_from_raw (raw_sb_of_bytes (sb_image content d)) = Inr (x_sb d)" "length (sb_image content d) = 1024"
        using sb_matches_patch [OF assms(5) a(4)] a(3,4) gd by (simp_all add: length_patch_into)
      then have sm: "sb_matches content d" using assms(5) gd by (auto simp: sb_matches_def)
      let ?new = "\<lambda>sb. sb\<lparr>es_state := (es_state sb OR EXT2_VALID_FS)\<rparr>"
      have "wp (restate ?new (\<lambda>p sb. sb\<lparr>es_state := es_state p\<rparr>)) (\<lambda>r t. restated content durable (?new (x_sb d)) d t r) d"
        using d(2) md by (rule restate_law [where st = "\<lambda>sb. es_state sb OR EXT2_VALID_FS" and mc = es_mnt_count]) simp_all
      then have "wp (restate ?new (\<lambda>p sb. sb\<lparr>es_state := es_state p\<rparr>)) (\<lambda>r t. unmounted content durable s t r) d"
      proof (rule wp_mono, goal_cases)
        case (1 r t)
        have mv: "sb_moved s t" using 1 sb_moved_trans [OF sb_moved_frame [OF fd]] by (simp add: restated_def)
        have v: "fsv content t c = fsv content b c" if "c \<notin> group_block (x_sb s) ` set (copy_groups s)" for c
          using 1 that d(3) gd by (simp add: restated_def)
        have out: "fsv content t c = fsv content s c" if "c \<notin> meta_blocks s" for c
          using v [of c] b(3) [of c] a(5) [of c] copies_meta [of s] that by (auto dest: subsetD)
        show ?case
        proof (cases r)
          case (Inl e)
          then show ?thesis using 1 mv out gd by (simp add: unmounted_def restated_def)
        next
          case (Inr w)
          then have t: "x_sb t = ?new (x_sb d)" "sb_image content t = patch_into (?new (x_sb d)) (sb_image content d) 0 0"
            using 1 by (simp_all add: restated_def)
          have "sb_from_raw (raw_sb_of_bytes (sb_image content t)) = Inr (x_sb t)"
            unfolding t using parse sm
            by (intro sb_patch_parse [where old = "x_sb d" and fb = "es_free_blocks_count (x_sb d)"
                  and fi = "es_free_inodes_count (x_sb d)" and mc = "es_mnt_count (x_sb d)"
                  and st = "es_state (x_sb d) OR EXT2_VALID_FS"])
              (auto simp: sb_matches_def or_lt [where n = 16, simplified])
          moreover have "fsv content t (first_blk s + 1 + i) = fsv content b (first_blk s + 1 + i)" if "i < tbl_blocks s" for i
            using v table_not_copy [OF assms(4) that] by blast
          ultimately show ?thesis using 1 Inr mv out gd tb t(1) by (simp add: unmounted_def restated_def)
        qed
      qed
      then show ?case using md(1) by (simp add: wp_thn wp_basic)
    qed
  qed
qed

section \<open>Properties\<close>

text \<open>The descriptor table that a mount reads from the blocks behind the superblock.\<close>

definition table_image :: "('d \<Rightarrow> usize \<Rightarrow> bytes) \<Rightarrow> 'd ext2 \<Rightarrow> bytes" where
  "table_image content s = concat (map (\<lambda>i. fsv content s (first_blk s + 1 + i)) [0..<tbl_blocks s])"

lemma unmounted_table:
  assumes "meta_geo s" "unmounted content durable s t (Inr u)"
  shows "parse_block_group_descriptors (table_image content t) (length (x_groups s)) = x_groups s"
proof -
  obtain st mc where sm: "t = s\<lparr>x_cache := x_cache t, x_sb := (x_sb s)\<lparr>es_state := st, es_mnt_count := mc\<rparr>\<rparr>"
    using assms(2) by (auto simp: unmounted_def sb_moved_def)
  have "x_block_size t = x_block_size s" "x_groups t = x_groups s" "x_sb t = (x_sb s)\<lparr>es_state := st, es_mnt_count := mc\<rparr>"
    by (subst sm, simp)+
  then have f: "first_blk t = first_blk s" "tbl_blocks t = tbl_blocks s" by (simp_all add: first_blk_def tbl_blocks_def)
  obtain old where old: "\<forall>i < tbl_blocks s. fsv content t (first_blk s + 1 + i) = put_descriptors (x_block_size s) i (x_groups s) (old i)
      \<and> length (old i) = x_block_size s"
    using assms(2) by (simp add: unmounted_def) metis
  obtain m where m: "x_block_size s = 32 * m" using block_size_32 [OF assms(1)] by blast
  have "0 < x_block_size s" using sb_range [OF assms(1)] by simp
  then have "length (x_groups s) * 32 \<le> tbl_blocks s * x_block_size s"
    using div_ceil_le [of "x_block_size s" "length (x_groups s) * BGD_SIZE"] by (simp add: tbl_blocks_def)
  from parse_put_descriptors [OF _ m this old] assms(1) show ?thesis by (simp add: table_image_def f meta_geo_def)
qed

text \<open>An image whose second block is the superblock, mounted with the file system marked in use.\<close>

definition sample_mounted :: "((usize \<Rightarrow> bytes) \<times> (usize \<Rightarrow> bytes)) ext2" where
  "sample_mounted = \<lparr>x_cache = cache_new (flush_disk 1024) (\<lambda>b. if b = 1 then sample_sb_image else replicate 1024 0, \<lambda>_. [])
       BLOCK_CACHE_CAPACITY, x_sb = sample_sb\<lparr>es_state := 0\<rparr>,
     x_sb_held = False, x_groups = [sample_bg, sample_bg], x_block_size = 1024, x_read_only = False, x_icache = [], x_objs = []\<rparr>"

lemma sample_mounted_simps [simp]:
  "x_block_size sample_mounted = 1024" "x_sb sample_mounted = sample_sb\<lparr>es_state := 0\<rparr>" "\<not> x_sb_held sample_mounted" "\<not> x_read_only sample_mounted"
  "x_groups sample_mounted = [sample_bg, sample_bg]" "x_dev_bs sample_mounted = 1024" "x_per sample_mounted = 1" "reliable sample_mounted"
  using flush_disk_ok(2) by (simp_all add: sample_mounted_def x_dev_bs_def x_per_def cache_new_def reliable_def)
    (simp_all add: flush_disk_def)

lemma sample_mounted_inv: "x_inv disk_now disk_safe sample_mounted"
  using flush_disk_ok(1) by (simp add: x_inv_def) (simp add: sample_mounted_def cache_inv_def cache_new_def cinv_def)

lemma sample_sb_image_length: "length sample_sb_image = 1024"
  by (simp add: sample_sb_image_def del: le_bytes.simps replicate.simps)

lemma sample_mounted_matches: "sb_matches disk_now sample_mounted"
proof -
  have "first_blk sample_mounted = 1" "sb_off sample_mounted = 0" by (simp_all add: first_blk_def sb_off_def sample_sb_def)
  moreover have "fsv disk_now sample_mounted 1 = sample_sb_image"
    by (simp add: fsv_def) (simp add: sample_mounted_def cache_view_def vw_def cache_new_def pad_id sample_sb_image_length)
  ultimately have "sb_image disk_now sample_mounted = sample_sb_image"
    using sample_sb_image_length by (simp add: sb_image_def slice_def)
  then show ?thesis using sample_sb_parse by (simp add: sb_matches_def) (simp add: sample_sb_def)
qed

lemma sample_mounted_geo: "meta_geo sample_mounted"
  by (simp add: meta_geo_def first_blk_def tbl_blocks_def sb_block_size_def block_group_count_def sample_sb_def div_ceil_def bgd_wf_def sample_bg_def)

text \<open>
  C36.  Unmounting, on a device that may fail at any moment: when it succeeds the superblock in
  memory carries the clean mark, the superblock and the descriptor table read back from the image
  are exactly those in memory, and the whole image has reached stable storage; nothing but
  the metadata copies changed.  When it fails the device failed, and the superblock in memory is
  as before, so the clean mark is not left behind.
\<close>

theorem unmount_durable:
  assumes "x_inv content durable s" "\<not> x_read_only s" "\<not> x_sb_held s" "meta_geo s" "sb_matches content s"
  shows "case ext2_on_unmount s of (r, t) \<Rightarrow>
    (\<forall>c. c \<notin> meta_blocks s \<longrightarrow> fsv content t c = fsv content s c)
    \<and> (case r of
        Inr _ \<Rightarrow> x_sb t = (x_sb s)\<lparr>es_state := (es_state (x_sb s) OR EXT2_VALID_FS)\<rparr>
          \<and> sb_from_raw (raw_sb_of_bytes (sb_image content t)) = Inr (x_sb t)
          \<and> parse_block_group_descriptors (table_image content t) (length (x_groups s)) = x_groups s
          \<and> durable (bc_disk (x_cache t)) = cache_view content (x_cache t)
      | Inl e \<Rightarrow> e = FsErr IoError \<and> \<not> reliable s \<and> x_sb t = x_sb s)"
proof -
  obtain r t where rt: "ext2_on_unmount s = (r, t)" by force
  have u: "unmounted content durable s t r" using wp_run [OF unmount_law [OF assms] rt] .
  show ?thesis
  proof (cases r)
    case (Inl e)
    then show ?thesis using u rt by (simp add: unmounted_def io_fault_def)
  next
    case (Inr v)
    then show ?thesis using u rt unmounted_table [OF assms(4), of content durable t v] by (simp add: unmounted_def)
  qed
qed

theorem unmount_durable_witness:
  "\<exists>t. ext2_on_unmount sample_mounted = (Inr (), t) \<and> x_sb t = sample_sb
    \<and> sb_from_raw (raw_sb_of_bytes (sb_image disk_now t)) = Inr sample_sb
    \<and> parse_block_group_descriptors (table_image disk_now t) 2 = [sample_bg, sample_bg]
    \<and> disk_safe (bc_disk (x_cache t)) = cache_view disk_now (x_cache t)"
proof -
  have "(sample_sb\<lparr>es_state := 0\<rparr>)\<lparr>es_state := (0 OR EXT2_VALID_FS)\<rparr> = sample_sb" by (simp add: sample_sb_def EXT2_VALID_FS_def)
  then show ?thesis
    using unmount_durable [OF sample_mounted_inv _ _ sample_mounted_geo sample_mounted_matches]
    by (auto simp: numeral_2_eq_2 split: prod.splits sum.splits)
qed

end
