(* ===== verification/Kor_Ext2_Typed.thy ===== *)
theory Kor_Ext2_Typed
  imports Kor_Ext2_Tree Kor_Ext2_Mount
begin

text \<open>
  The types of a mounted ext2 instance.  The model writes the machine integers of the code as
  natural numbers; here every operation is shown to keep every field in the range of its type,
  on any device and on every path that returns, together with what the code never changes: the
  geometry, the places of bitmaps and tables, the number of an inode object, and the state of
  the superblock lock.  (The ancestor check of rename may spin on that lock for ever,
  \<open>Kor_Ext2_Tree.ancestor_check_deadlocks\<close>; such a call ends the run.)
\<close>

unbundle bit_operations_syntax

section \<open>The invariant\<close>

definition sb_typed :: "ext2_sb \<Rightarrow> bool" where
  "sb_typed sb \<longleftrightarrow> es_free_blocks_count sb < 2 ^ 32 \<and> es_free_inodes_count sb < 2 ^ 32 \<and> es_state sb < 2 ^ 16 \<and> es_mnt_count sb < 2 ^ 16"

definition sb_geom :: "ext2_sb \<Rightarrow> ext2_sb" where
  "sb_geom sb = sb\<lparr>es_free_blocks_count := 0, es_free_inodes_count := 0, es_state := 0, es_mnt_count := 0\<rparr>"

definition bg_geom :: "bg_desc \<Rightarrow> bg_desc" where
  "bg_geom g = g\<lparr>bg_free_blocks_count := 0, bg_free_inodes_count := 0, bg_used_dirs_count := 0\<rparr>"

definition typed :: "'d ext2 \<Rightarrow> bool" where
  "typed s \<longleftrightarrow> (\<forall>ob \<in> set (x_objs s). inode_wf (xi_raw ob)) \<and> list_all bgd_wf (x_groups s) \<and> sb_typed (x_sb s)
     \<and> (\<forall>(n, oid) \<in> set (x_icache s). oid < length (x_objs s) \<and> num_of s oid = n)"

definition evolves :: "'d ext2 \<Rightarrow> 'd ext2 \<Rightarrow> bool" where
  "evolves s t \<longleftrightarrow> x_block_size t = x_block_size s \<and> x_read_only t = x_read_only s \<and> x_sb_held t = x_sb_held s
     \<and> sb_geom (x_sb t) = sb_geom (x_sb s) \<and> map bg_geom (x_groups t) = map bg_geom (x_groups s)
     \<and> length (x_objs s) \<le> length (x_objs t) \<and> (\<forall>oid < length (x_objs s). num_of t oid = num_of s oid)"

text \<open>
  \<open>keeps n m Q\<close>: started with at least \<open>n\<close> objects, \<open>m\<close> keeps the types if it returns; a value it
  returns is in \<open>Q\<close>, which may ask how many objects there are then.
\<close>

definition keeps :: "nat \<Rightarrow> ('d ext2, 'a) act \<Rightarrow> ('a \<Rightarrow> nat \<Rightarrow> bool) \<Rightarrow> bool" where
  "keeps n m Q \<longleftrightarrow> (\<forall>s. typed s \<and> n \<le> length (x_objs s) \<and> returns (fst (m s)) \<longrightarrow>
     typed (snd (m s)) \<and> evolves s (snd (m s)) \<and> (\<forall>x. fst (m s) = Inr x \<longrightarrow> Q x (length (x_objs (snd (m s))))))"

abbreviation safe :: "nat \<Rightarrow> ('d ext2, 'a) act \<Rightarrow> bool" where
  "safe n m \<equiv> keeps n m (\<lambda>_ _. True)"

lemma evolves_refl [simp]: "evolves s s"
  by (simp add: evolves_def)

lemma evolves_trans: "evolves s t \<Longrightarrow> evolves t u \<Longrightarrow> evolves s u"
  by (auto simp: evolves_def)

lemma keepsI:
  assumes "\<And>s. \<lbrakk>typed s; n \<le> length (x_objs s); returns (fst (m s))\<rbrakk> \<Longrightarrow>
     typed (snd (m s)) \<and> evolves s (snd (m s)) \<and> (\<forall>x. fst (m s) = Inr x \<longrightarrow> Q x (length (x_objs (snd (m s)))))"
  shows "keeps n m Q"
  using assms by (simp add: keeps_def)

lemma keepsD:
  assumes "keeps n m Q" "typed s" "n \<le> length (x_objs s)" "m s = (r, t)" "returns r"
  shows "typed t" "evolves s t" "n \<le> length (x_objs t)" "r = Inr x \<Longrightarrow> Q x (length (x_objs t))"
proof -
  have "typed (snd (m s)) \<and> evolves s (snd (m s)) \<and> (\<forall>x. fst (m s) = Inr x \<longrightarrow> Q x (length (x_objs (snd (m s)))))"
    using assms(1) [unfolded keeps_def, rule_format, of s] assms(2-5) by simp
  then show "typed t" "evolves s t" "r = Inr x \<Longrightarrow> Q x (length (x_objs t))" using assms(4) by simp_all
  then show "n \<le> length (x_objs t)" using assms(3) by (simp add: evolves_def)
qed

named_theorems safe_rules \<open>rules that reduce the preservation of the types to the parts of an action\<close>

lemma keeps_weak: "keeps n m Q \<Longrightarrow> safe n m"
  by (auto simp: keeps_def)

lemma keeps_up: "keeps n m Q \<Longrightarrow> n \<le> k \<Longrightarrow> keeps k m Q"
  by (auto simp: keeps_def)

lemma keeps_ret: "(\<And>k. n \<le> k \<Longrightarrow> Q x k) \<Longrightarrow> keeps n (ret x) Q"
  by (auto simp: keeps_def ret_def)

lemma keeps_stop [safe_rules]: "keeps n (fail e) Q" "keeps n (die f) Q"
  by (auto simp: keeps_def fail_def die_def)

lemma keeps_lift: "(\<And>x k. \<lbrakk>n \<le> k; r = Inr x\<rbrakk> \<Longrightarrow> Q x k) \<Longrightarrow> keeps n (lift r) Q"
  by (auto simp: keeps_def lift_def)

lemma keeps_gets: "(\<And>s. \<lbrakk>typed s; n \<le> length (x_objs s)\<rbrakk> \<Longrightarrow> Q (f s) (length (x_objs s))) \<Longrightarrow> keeps n (gets f) Q"
  by (auto simp: keeps_def gets_def)

lemma keeps_upd:
  "(\<And>s. \<lbrakk>typed s; n \<le> length (x_objs s)\<rbrakk> \<Longrightarrow> typed (g s) \<and> evolves s (g s)) \<Longrightarrow> safe n (upd g)"
  by (auto simp: keeps_def upd_def)

lemma keeps_thn:
  fixes m :: "('d ext2, 'a) act"
  assumes "keeps n m Q" "\<And>x k. \<lbrakk>n \<le> k; Q x k\<rbrakk> \<Longrightarrow> keeps k (f x) R"
  shows "keeps n (thn m f) R"
proof (rule keepsI)
  fix s :: "'d ext2" assume s: "typed s" "n \<le> length (x_objs s)" and ret: "returns (fst (thn m f s))"
  obtain r t where m: "m s = (r, t)" by force
  have "returns r" using ret m by (auto simp: thn_def returns_def split: sum.splits crash.splits)
  note t = keepsD [OF assms(1) s m this]
  show "typed (snd (thn m f s)) \<and> evolves s (snd (thn m f s))
      \<and> (\<forall>x. fst (thn m f s) = Inr x \<longrightarrow> R x (length (x_objs (snd (thn m f s)))))"
  proof (cases r)
    case (Inl e)
    then show ?thesis using m t by (simp add: thn_def)
  next
    case (Inr x)
    obtain r' u where u: "f x t = (r', u)" by force
    have "returns r'" using ret m Inr u by (simp add: thn_def)
    note k = keepsD [OF assms(2) [OF t(3) t(4) [OF Inr]] t(1) order_refl u this]
    show ?thesis using m Inr u k evolves_trans [OF t(2)] by (simp add: thn_def)
  qed
qed

lemma safe_thn [safe_rules]: "\<lbrakk>safe n m; \<And>x k. n \<le> k \<Longrightarrow> keeps k (f x) R\<rbrakk> \<Longrightarrow> keeps n (thn m f) R"
  by (rule keeps_thn)

lemma keeps_diag: "(\<And>s. keeps n (M s) Q) \<Longrightarrow> keeps n (\<lambda>s. M s s) Q"
  by (auto simp: keeps_def)

lemma keeps_if [safe_rules]: "\<lbrakk>b \<Longrightarrow> keeps n m Q; \<not> b \<Longrightarrow> keeps n m' Q\<rbrakk> \<Longrightarrow> keeps n (if b then m else m') Q"
  by simp

lemma keeps_pif [safe_rules]: "\<lbrakk>b \<Longrightarrow> keeps n m Q; \<not> b \<Longrightarrow> keeps n m' Q\<rbrakk> \<Longrightarrow> keeps n (\<lambda>s. if b then m s else m' s) Q"
  by (cases b) simp_all

lemma keeps_attempt:
  fixes m :: "('d ext2, 'a) act"
  assumes "keeps n m Q"
  shows "keeps n (attempt m) (\<lambda>r k. \<forall>x. r = Inr x \<longrightarrow> Q x k)"
proof (rule keepsI)
  fix s :: "'d ext2" assume s: "typed s" "n \<le> length (x_objs s)" and ret: "returns (fst (attempt m s))"
  obtain r t where m: "m s = (r, t)" by force
  have "returns r" using ret m by (simp add: attempt_def split: sum.splits crash.splits)
  note t = keepsD [OF assms s m this]
  show "typed (snd (attempt m s)) \<and> evolves s (snd (attempt m s))
      \<and> (\<forall>x. fst (attempt m s) = Inr x \<longrightarrow> (\<forall>y. x = Inr y \<longrightarrow> Q y (length (x_objs (snd (attempt m s))))))"
    using m t by (auto simp: attempt_def split: sum.splits crash.splits)
qed

lemma safe_basic [safe_rules]:
  "safe n (ret x)" "safe n (lift r)" "safe n (guard b e)" "safe n (gets f)" "safe n m \<Longrightarrow> safe n (attempt m)" "safe n m \<Longrightarrow> safe n (ignore m)"
  using keeps_weak [OF keeps_attempt [of n m]]
  by (auto simp: guard_def ignore_def intro!: keeps_ret keeps_lift keeps_gets keeps_stop safe_thn split: if_splits)

lemma keeps_or_undo:
  assumes "keeps n m (\<lambda>x _. P x)" "\<And>k. n \<le> k \<Longrightarrow> safe k u"
  shows "keeps n (or_undo m u) (\<lambda>x _. P x)"
  unfolding or_undo_def
proof (rule keeps_thn [OF keeps_attempt [OF assms(1)]])
  fix r :: "fs_error + 'b" and k assume r: "n \<le> k" "\<forall>x. r = Inr x \<longrightarrow> P x"
  show "keeps k (case r of Inl e \<Rightarrow> thn (ignore u) (\<lambda>_. fail e) | Inr x \<Rightarrow> ret x) (\<lambda>x _. P x)"
  proof (cases r)
    case (Inl e)
    have "keeps k (thn (ignore u) (\<lambda>_. fail e)) (\<lambda>x _. P x)" by (intro safe_thn safe_basic keeps_stop assms(2) r(1))
    then show ?thesis by (simp add: Inl)
  next
    case (Inr x)
    then show ?thesis using r(2) by (simp add: Inr) (rule keeps_ret, simp)
  qed
qed

lemma safe_or_undo [safe_rules]: "\<lbrakk>safe n m; \<And>k. n \<le> k \<Longrightarrow> safe k u\<rbrakk> \<Longrightarrow> safe n (or_undo m u)"
  using keeps_or_undo [of n m "\<lambda>_. True"] .

lemma safe_for_each [safe_rules]:
  assumes "\<And>x k. \<lbrakk>x \<in> set xs; n \<le> k\<rbrakk> \<Longrightarrow> safe k (f x)"
  shows "safe n (for_each f xs)"
  using assms
proof (induction xs arbitrary: n)
  case (Cons x xs)
  then show ?case by (auto intro!: safe_thn Cons.IH)
qed (simp add: safe_basic)

lemma keeps_prod [safe_rules]: "(\<And>a b. r = (a, b) \<Longrightarrow> keeps n (f a b) Q) \<Longrightarrow> keeps n (case r of (a, b) \<Rightarrow> f a b) Q"
  by (cases r) simp

lemma keeps_prod_app [safe_rules]: "(\<And>a b. r = (a, b) \<Longrightarrow> keeps n (f a b x) Q) \<Longrightarrow> keeps n ((case r of (a, b) \<Rightarrow> f a b) x) Q"
  by (cases r) simp

lemma keeps_option [safe_rules]:
  "\<lbrakk>r = None \<Longrightarrow> keeps n m Q; \<And>a. r = Some a \<Longrightarrow> keeps n (f a) Q\<rbrakk> \<Longrightarrow> keeps n (case r of None \<Rightarrow> m | Some a \<Rightarrow> f a) Q"
  by (cases r) simp_all

lemma keeps_sum [safe_rules]:
  "\<lbrakk>\<And>a. r = Inl a \<Longrightarrow> keeps n (f a) Q; \<And>b. r = Inr b \<Longrightarrow> keeps n (g b) Q\<rbrakk> \<Longrightarrow> keeps n (case r of Inl a \<Rightarrow> f a | Inr b \<Rightarrow> g b) Q"
  by (cases r) simp_all

lemma keeps_let [safe_rules]: "(\<And>v. v = x \<Longrightarrow> keeps n (f v) Q) \<Longrightarrow> keeps n (let v = x in f v) Q"
  by simp

section \<open>Blocks, counters and the superblock\<close>

lemma typed_cache [simp]: "typed (s\<lparr>x_cache := c\<rparr>) = typed s" "evolves s (t\<lparr>x_cache := c\<rparr>) = evolves s t"
  by (simp_all add: typed_def evolves_def num_of_def)

lemma safe_cached_io [safe_rules]: "safe n (cached_io f)"
  by (auto simp: keeps_def cached_io_def split: prod.split)

lemma safe_read_parts: "safe n (read_parts a b is)"
  by (induction "is" arbitrary: n) (auto intro!: safe_rules)

lemma safe_write_parts: "safe n (write_parts a b buf is)"
  by (induction "is" arbitrary: n) (auto intro!: safe_rules)

lemma safe_blocks [safe_rules]:
  "safe n (read_fs_block b)" "safe n (write_fs_block b buf)" "safe n (read_fs_blocks b c l)" "safe n (write_fs_blocks b c buf)"
proof -
  show "safe n (read_fs_block b)"
    unfolding read_fs_block_def [abs_def] by (rule keeps_diag) (rule safe_read_parts)
  show "safe n (write_fs_block b buf)"
    unfolding write_fs_block_def [abs_def]
    by (rule keeps_diag [where M = "\<lambda>s. if x_read_only s then fail ReadOnlyFs
        else write_parts (usize_mul b (x_per s)) (x_dev_bs s) buf [0..<x_per s]", unfolded if_distribR])
      (intro safe_rules safe_write_parts)
  have "safe k (upd (x_cache_update g))" for k g by (rule keeps_upd) (simp add: typed_def evolves_def num_of_def)
  note safe_rules = safe_rules this
  show "safe n (read_fs_blocks b c l)"
    unfolding read_fs_blocks_def [abs_def] Let_def by (rule keeps_diag) (intro safe_rules)
  show "safe n (write_fs_blocks b c buf)"
    unfolding write_fs_blocks_def [abs_def] Let_def if_distribR by (rule keeps_diag) (intro safe_rules)
qed


lemma keeps_get_sb: "keeps n get_sb (\<lambda>sb _. sb_typed sb)"
  by (auto simp: keeps_def get_sb_def die_def ret_def typed_def)

lemmas safe_get_sb [safe_rules] = keeps_weak [OF keeps_get_sb]

lemma safe_upd_sb:
  assumes "\<And>sb. sb_typed sb \<Longrightarrow> sb_typed (f sb)" "\<And>sb. sb_geom (f sb) = sb_geom sb"
  shows "safe n (upd_sb f)"
  using assms by (auto simp: keeps_def upd_sb_def die_def upd_def typed_def evolves_def num_of_def)

lemma keeps_get_raw: "oid < n \<Longrightarrow> keeps n (get_raw oid) (\<lambda>raw _. inode_wf raw)"
  unfolding get_raw_def by (rule keeps_gets) (auto simp: typed_def raw_of_def)

lemma safe_upd_raw:
  assumes "oid < n" "\<And>raw. inode_wf raw \<Longrightarrow> inode_wf (f raw)"
  shows "safe n (upd_raw oid f)"
  unfolding upd_raw_def
proof (rule keeps_upd)
  fix s :: "'a ext2" assume s: "typed s" "n \<le> length (x_objs s)"
  let ?t = "s\<lparr>x_objs := (x_objs s)[oid := (x_objs s ! oid)\<lparr>xi_raw := f (xi_raw (x_objs s ! oid))\<rparr>]\<rparr>"
  have o: "oid < length (x_objs s)" using assms(1) s(2) by simp
  have num: "num_of ?t i = num_of s i" for i using o by (cases "i = oid") (simp_all add: num_of_def)
  have "inode_wf (xi_raw ob)" if "ob \<in> set (x_objs ?t)" for ob
    using that s(1) assms(2) o by (auto simp: typed_def dest!: subsetD [OF set_update_subset_insert])
  then show "typed ?t \<and> evolves s ?t" using s(1) num by (auto simp: typed_def evolves_def)
qed

lemma safe_upd_group:
  assumes "\<And>g. bgd_wf g \<Longrightarrow> bgd_wf (f g) \<and> bg_geom (f g) = bg_geom g" "\<And>sb. sb_typed sb \<Longrightarrow> sb_typed (h sb) \<and> sb_geom (h sb) = sb_geom sb"
  shows "safe n (upd (\<lambda>s. s\<lparr>x_groups := (x_groups s)[gi := f (x_groups s ! gi)], x_sb := h (x_sb s)\<rparr>))"
proof (rule keeps_upd)
  fix s :: "'a ext2" assume s: "typed s" "n \<le> length (x_objs s)"
  have g: "list_all bgd_wf (x_groups s)" "sb_typed (x_sb s)" using s(1) by (simp_all add: typed_def)
  have "list_all bgd_wf ((x_groups s)[gi := f (x_groups s ! gi)]) \<and> map bg_geom ((x_groups s)[gi := f (x_groups s ! gi)]) = map bg_geom (x_groups s)"
  proof (cases "gi < length (x_groups s)")
    case True
    then have "bgd_wf (f (x_groups s ! gi))" "bg_geom (f (x_groups s ! gi)) = bg_geom (x_groups s ! gi)"
      using g(1) assms(1) by (simp_all add: list_all_length)
    then show ?thesis using True g(1) by (auto simp: list_all_length nth_list_update map_update list_update_same_conv)
  qed (use g in \<open>simp add: list_update_beyond\<close>)
  then show "typed (s\<lparr>x_groups := (x_groups s)[gi := f (x_groups s ! gi)], x_sb := h (x_sb s)\<rparr>)
    \<and> evolves s (s\<lparr>x_groups := (x_groups s)[gi := f (x_groups s ! gi)], x_sb := h (x_sb s)\<rparr>)"
    using assms(2) s(1) g(2) by (auto simp: typed_def evolves_def num_of_def)
qed

lemma u_bounds: "u16_add a b < 2 ^ 16" "u16_sub a b < 2 ^ 16" "u32_add a b < 2 ^ 32" "u32_sub a b < 2 ^ 32" "u32_mul a b < 2 ^ 32"
  by (simp_all add: u16_add_def u16_sub_def u32_add_def u32_sub_def u32_mul_def)

lemmas count_fields = bgd_wf_def bg_geom_def sb_typed_def sb_geom_def u_bounds [simplified]

definition is_u32 :: "nat \<Rightarrow> bool" where
  "is_u32 n \<longleftrightarrow> n < 2 ^ 32"

lemma is_u32_simps [simp]: "is_u32 0" "is_u32 (u32_add a b)" "is_u32 (u32_mul a b)"
  by (simp_all add: is_u32_def u32_add_def u32_mul_def)

lemma safe_counts [safe_rules]:
  "safe n (upd (take_block gi))" "safe n (upd (give_block gi))" "safe n (upd (take_inode gi))" "safe n (upd (give_inode gi))"
proof -
  show "safe n (upd (take_block gi))" unfolding take_block_def [abs_def]
    by (rule safe_upd_group [where f = "\<lambda>g. g\<lparr>bg_free_blocks_count := u16_sub (bg_free_blocks_count g) 1\<rparr>"
          and h = "\<lambda>sb. sb\<lparr>es_free_blocks_count := u32_sub (es_free_blocks_count sb) 1\<rparr>"]) (simp_all add: count_fields)
  show "safe n (upd (give_block gi))" unfolding give_block_def [abs_def]
    by (rule safe_upd_group [where f = "\<lambda>g. g\<lparr>bg_free_blocks_count := u16_add (bg_free_blocks_count g) 1\<rparr>"
          and h = "\<lambda>sb. sb\<lparr>es_free_blocks_count := u32_add (es_free_blocks_count sb) 1\<rparr>"]) (simp_all add: count_fields)
  show "safe n (upd (take_inode gi))" unfolding take_inode_def [abs_def]
    by (rule safe_upd_group [where f = "\<lambda>g. g\<lparr>bg_free_inodes_count := u16_sub (bg_free_inodes_count g) 1\<rparr>"
          and h = "\<lambda>sb. sb\<lparr>es_free_inodes_count := u32_sub (es_free_inodes_count sb) 1\<rparr>"]) (simp_all add: count_fields)
  show "safe n (upd (give_inode gi))" unfolding give_inode_def [abs_def]
    by (rule safe_upd_group [where f = "\<lambda>g. g\<lparr>bg_free_inodes_count := u16_add (bg_free_inodes_count g) 1\<rparr>"
          and h = "\<lambda>sb. sb\<lparr>es_free_inodes_count := u32_add (es_free_inodes_count sb) 1\<rparr>"]) (simp_all add: count_fields)
qed

lemma safe_upd_if: "safe n (upd g) \<Longrightarrow> safe n (upd (\<lambda>s. if P s then g s else s))"
  by (auto simp: keeps_def upd_def)

lemma safe_adjust_used_dirs [safe_rules]: "safe n (adjust_used_dirs num delta)"
proof -
  define f where "f g = g\<lparr>bg_used_dirs_count := (if delta \<ge> 0 then min (bg_used_dirs_count g + nat delta mod 2 ^ 16) (2 ^ 16 - 1)
                else bg_used_dirs_count g - nat (- delta) mod 2 ^ 16)\<rparr>" for g :: bg_desc
  have "safe n (upd (\<lambda>s :: 'a ext2. s\<lparr>x_groups := (x_groups s)[gi := f (x_groups s ! gi)], x_sb := x_sb s\<rparr>))" for n gi
    by (rule safe_upd_group [where f = f and h = "\<lambda>sb. sb"]) (auto simp: f_def count_fields)
  then have u: "safe n (upd (\<lambda>s :: 'a ext2. s\<lparr>x_groups := (x_groups s)[gi := f (x_groups s ! gi)]\<rparr>))" for n gi by simp
  show ?thesis unfolding adjust_used_dirs_def Let_def f_def [symmetric] by (intro safe_rules safe_upd_if u)
qed

section \<open>Allocation\<close>

lemma keeps_alloc_block_in: "keeps n (alloc_block_in gi) (\<lambda>r _. \<forall>b. r = Some b \<longrightarrow> is_u32 b)"
  unfolding alloc_block_in_def Let_def by (intro safe_rules keeps_ret) auto

lemma keeps_alloc_block_scan: "keeps n (alloc_block_scan gis) (\<lambda>r _. \<forall>b. r = Some b \<longrightarrow> is_u32 b)"
proof (induction gis arbitrary: n)
  case (Cons gi gis)
  show ?case unfolding alloc_block_scan.simps
    by (rule keeps_thn [OF keeps_alloc_block_in]) (auto intro!: keeps_option Cons keeps_ret)
qed (auto intro: keeps_ret)

lemma keeps_alloc_block: "keeps n (alloc_block_goal g) (\<lambda>b _. is_u32 b)"
  unfolding alloc_block_goal_def [abs_def] Let_def
  by (rule keeps_diag) (intro keeps_pif keeps_stop safe_thn [OF safe_get_sb] keeps_thn [OF keeps_alloc_block_scan] keeps_lift,
    auto simp: ok_or_def split: option.splits)

lemmas safe_alloc_block [safe_rules] = keeps_weak [OF keeps_alloc_block]

lemma safe_free_block [safe_rules]: "safe n (free_block b)"
  unfolding free_block_def [abs_def] Let_def by (rule keeps_diag) (intro safe_rules)

lemma safe_alloc_inode_in: "safe n (alloc_inode_in gi)"
  unfolding alloc_inode_in_def Let_def by (intro safe_rules)

lemma safe_alloc_inode_scan: "safe n (alloc_inode_scan gis)"
  by (induction gis arbitrary: n) (auto intro!: safe_rules safe_alloc_inode_in)

lemma safe_alloc_inode [safe_rules]: "safe n alloc_inode"
  unfolding alloc_inode_def [abs_def] Let_def by (rule keeps_diag) (intro safe_rules safe_alloc_inode_scan)

lemma safe_invalidate [safe_rules]: "safe n (invalidate_inode num)"
  unfolding invalidate_inode_def
  by (rule keeps_upd) (auto simp: typed_def evolves_def num_of_def bt_remove_def)

lemma safe_free_inode [safe_rules]: "safe n (free_inode num)"
  unfolding free_inode_def [abs_def] Let_def by (rule keeps_diag) (intro safe_rules)

lemma safe_inode_at [safe_rules]: "safe n (inode_at num)"
  unfolding inode_at_def by (intro safe_rules)

lemma safe_init_inode [safe_rules]: "safe n (init_inode num mode)"
  unfolding init_inode_def Let_def by (intro safe_rules)

section \<open>Objects\<close>

lemma field_u32: "field b off 4 < 2 ^ 32"
proof -
  have "field b off 4 < 256 ^ length (slice b off 4)" unfolding field_def by (rule from_le_bound)
  also have "\<dots> \<le> 256 ^ 4" by (intro power_increasing) (simp_all add: slice_def)
  finally show ?thesis by simp
qed

lemma field_u16: "field b off 2 < 2 ^ 16"
proof -
  have "field b off 2 < 256 ^ length (slice b off 2)" unfolding field_def by (rule from_le_bound)
  also have "\<dots> \<le> 256 ^ 2" by (intro power_increasing) (simp_all add: slice_def)
  finally show ?thesis by simp
qed

lemma is_u32_field [simp]: "is_u32 (field b off 4)"
  using field_u32 by (simp add: is_u32_def)

lemma inode_of_bytes_wf: "RAW_INODE_SIZE \<le> length b \<Longrightarrow> inode_wf (inode_of_bytes b)"
  using field_u32 [of b] field_u16 [of b]
  by (auto simp: inode_wf_def inode_of_bytes_def list_all_iff slice_def field_u32 [simplified] field_u16 [simplified])

lemma keeps_inode_read: "keeps n (inode_read num) (\<lambda>raw _. inode_wf raw)"
  unfolding inode_read_def by (intro safe_rules keeps_ret inode_of_bytes_wf) simp

lemma bt_insert_set: "set (bt_insert k v t) \<subseteq> insert (k, v) (set t)"
  by (induction k v t rule: bt_insert.induct) auto

lemma cache_new_inode_typed:
  assumes "typed s" "inode_wf raw"
  shows "typed (cache_new_inode num raw s) \<and> evolves s (cache_new_inode num raw s)"
proof -
  let ?t = "cache_new_inode num raw s"
  have objs: "x_objs ?t = x_objs s @ [\<lparr>xi_num = num, xi_raw = raw, xi_live = True\<rparr>]"
    and rest: "x_groups ?t = x_groups s" "x_sb ?t = x_sb s" "x_block_size ?t = x_block_size s" "x_read_only ?t = x_read_only s" "x_sb_held ?t = x_sb_held s"
    by (simp_all add: cache_new_inode_def Let_def)
  have "set (x_icache ?t) \<subseteq> insert (num, length (x_objs s)) (set (x_icache s))"
    by (auto simp: cache_new_inode_def Let_def split: if_splits dest!: subsetD [OF bt_insert_set])
  then have ic: "(m, oid) \<in> set (x_icache ?t) \<Longrightarrow> oid < length (x_objs ?t) \<and> num_of ?t oid = m" for m oid
    using assms(1) by (auto simp: objs typed_def num_of_def nth_append dest!: subsetD)
  have "\<forall>ob \<in> set (x_objs ?t). inode_wf (xi_raw ob)" using assms by (auto simp: objs typed_def)
  then have "typed ?t" using ic assms(1) unfolding typed_def rest by blast
  moreover have "evolves s ?t" by (simp add: evolves_def objs rest num_of_def nth_append)
  ultimately show ?thesis ..
qed

lemma cache_new_inode_length: "length (x_objs (cache_new_inode num raw s)) = Suc (length (x_objs s))"
  by (simp add: cache_new_inode_def Let_def)

lemma keeps_load_inode:
  "keeps n (thn (inode_read num) (\<lambda>raw. thn (gets (\<lambda>s. length (x_objs s))) (\<lambda>oid.
      thn (upd (cache_new_inode num raw)) (\<lambda>_. ret oid)))) (\<lambda>oid k. oid < k)"
  by (rule keeps_thn [OF keeps_inode_read])
    (auto simp: keeps_def thn_def gets_def upd_def ret_def cache_new_inode_typed cache_new_inode_length)

lemma keeps_get_inode: "keeps n (get_inode num) (\<lambda>oid k. oid < k)"
proof -
  note new = keeps_load_inode [of n num]
  show ?thesis
  proof (rule keepsI)
    fix s :: "'a ext2" assume s: "typed s" "n \<le> length (x_objs s)" and ret: "returns (fst (get_inode num s))"
    show "typed (snd (get_inode num s)) \<and> evolves s (snd (get_inode num s))
        \<and> (\<forall>x. fst (get_inode num s) = Inr x \<longrightarrow> x < length (x_objs (snd (get_inode num s))))"
    proof (cases "live_inode s num")
      case None
      then have "get_inode num s = thn (inode_read num) (\<lambda>raw. thn (gets (\<lambda>s. length (x_objs s))) (\<lambda>oid.
          thn (upd (cache_new_inode num raw)) (\<lambda>_. ret oid))) s" by (simp add: get_inode_def)
      then show ?thesis using new [unfolded keeps_def, rule_format, of s] s ret by simp
    next
      case (Some oid)
      then have "oid < length (x_objs s)" by (auto simp: live_inode_def obj_live_def split: option.splits if_splits)
      then show ?thesis using s Some by (simp add: get_inode_def ret_def)
    qed
  qed
qed

lemmas safe_get_inode [safe_rules] = keeps_weak [OF keeps_get_inode]

lemma drop_inode_typed:
  shows "typed s \<Longrightarrow> typed (drop_inode oid s)" "evolves s t \<Longrightarrow> evolves s (drop_inode oid t)"
proof -
  have n: "num_of (drop_inode oid t) i = num_of t i" for t :: "'a ext2" and i
    by (cases "oid < length (x_objs t)"; cases "i = oid") (simp_all add: num_of_def drop_inode_def list_update_beyond)
  have "inode_wf (xi_raw ob)" if "ob \<in> set (x_objs (drop_inode oid s))" "typed s" for ob
    using that by (cases "oid < length (x_objs s)")
      (auto simp: typed_def drop_inode_def list_update_beyond dest!: subsetD [OF set_update_subset_insert])
  moreover have "x_groups (drop_inode oid s) = x_groups s" "x_sb (drop_inode oid s) = x_sb s" "x_icache (drop_inode oid s) = x_icache s"
    "length (x_objs (drop_inode oid s)) = length (x_objs s)" by (simp_all add: drop_inode_def)
  ultimately show "typed (drop_inode oid s)" if "typed s" using that n by (simp add: typed_def)
  show "evolves s (drop_inode oid t)" if "evolves s t" using that n by (simp add: evolves_def) (simp add: drop_inode_def)
qed

lemma keeps_finally:
  assumes "keeps n m (\<lambda>x _. P x)" "\<And>s t. typed t \<Longrightarrow> typed (g t) \<and> (evolves s t \<longrightarrow> evolves s (g t))"
  shows "keeps n (finally_do m g) (\<lambda>x _. P x)"
  using assms by (fastforce simp: keeps_def finally_do_def split: prod.splits)

lemma safe_with_inode:
  assumes "\<And>oid k. \<lbrakk>n \<le> k; oid < k\<rbrakk> \<Longrightarrow> safe k (f oid)"
  shows "safe n (with_inode num f)"
  unfolding with_inode_def [abs_def] Let_def
proof (rule keeps_diag, rule keeps_thn [OF keeps_get_inode])
  fix l :: "'a ext2" and oid k assume "n \<le> k" "oid < k"
  then have "safe k (f oid)" by (rule assms)
  then show "safe k (finally_do (f oid) (\<lambda>t. if length (x_objs l) \<le> oid then drop_inode oid t else t))"
    by (rule keeps_finally) (auto simp: drop_inode_typed)
qed

lemma keeps_keep_inode:
  assumes "keeps n m (\<lambda>oid k. oid < k)" "\<And>oid k. \<lbrakk>n \<le> k; oid < k\<rbrakk> \<Longrightarrow> safe k (f oid)"
  shows "keeps n (keep_inode j m f) (\<lambda>oid k. oid < k)"
  unfolding keep_inode_def
proof (rule keeps_thn [OF assms(1)], rule keepsI, goal_cases)
  case (1 oid k s)
  obtain r t where t: "f oid s = (r, t)" by force
  have r: "returns r" using 1(5) t by (auto split: sum.splits crash.splits)
  note d = keepsD [OF assms(2) [OF 1(1,2)] 1(3,4) t r]
  show ?case using t r d 1(2,4) drop_inode_typed(1) [OF d(1)] drop_inode_typed(2) [OF d(2)]
    by (auto simp: evolves_def split: sum.splits crash.splits)
qed

section \<open>The tree of block pointers\<close>

lemma keeps_read_indirect_entry: "keeps n (read_indirect_entry b i) (\<lambda>p _. is_u32 p)"
  unfolding read_indirect_entry_def Let_def by (intro safe_rules keeps_ret) simp

lemma safe_write_indirect_entry [safe_rules]: "safe n (write_indirect_entry b i v)"
  unfolding write_indirect_entry_def Let_def by (intro safe_rules)

lemma safe_read_indirect [safe_rules]: "safe n (read_indirect_entry b i)" "safe n (read_indirect_block b)"
  using keeps_weak [OF keeps_read_indirect_entry] by (auto simp: read_indirect_block_def intro!: safe_rules)

lemma keeps_follow:
  assumes "\<And>p k. \<lbrakk>n \<le> k; is_u32 p\<rbrakk> \<Longrightarrow> keeps k (f p) (\<lambda>p _. is_u32 p)"
  shows "keeps n (follow b i f) (\<lambda>p _. is_u32 p)"
  unfolding follow_def using assms
  by (intro keeps_if keeps_ret keeps_thn [OF keeps_read_indirect_entry]) simp_all

lemma wf_block: "inode_wf raw \<Longrightarrow> k < 15 \<Longrightarrow> is_u32 (i_block raw ! k)"
  by (simp add: inode_wf_def is_u32_def list_all_length)

lemma keeps_resolve: "oid < n \<Longrightarrow> keeps n (resolve_block_id oid l) (\<lambda>p _. is_u32 p)"
  unfolding resolve_block_id_def Let_def
  by (intro safe_thn [OF safe_basic(4)] keeps_thn [OF keeps_get_raw] keeps_if keeps_follow keeps_ret; simp add: wf_block)

lemma safe_resolve [safe_rules]: "oid < n \<Longrightarrow> safe n (resolve_block_id oid l)"
  by (rule keeps_weak [OF keeps_resolve])

lemma safe_get_raw [safe_rules]: "oid < n \<Longrightarrow> safe n (get_raw oid)"
  by (rule keeps_weak [OF keeps_get_raw])

lemma safe_ino_group [safe_rules]: "safe n (ino_group oid)"
  unfolding ino_group_def by (intro safe_rules)

lemma safe_zero_block [safe_rules]: "safe n (zero_block b)"
  unfolding zero_block_def by (intro safe_rules)

lemma keeps_alloc_and_zero: "keeps n (alloc_and_zero_block oid) (\<lambda>p _. is_u32 p)"
  unfolding alloc_and_zero_block_def
  by (intro safe_thn [OF safe_ino_group] keeps_thn [OF keeps_alloc_block] safe_thn [OF safe_zero_block] keeps_ret)

lemma safe_set_block: "\<lbrakk>oid < n; is_u32 b\<rbrakk> \<Longrightarrow> safe n (set_block oid k b)"
  unfolding set_block_def
  by (rule safe_upd_raw) (auto simp: inode_wf_def is_u32_def list_all_iff dest!: subsetD [OF set_update_subset_insert])

lemma keeps_ensure_top: "\<lbrakk>oid < n; slot < 15\<rbrakk> \<Longrightarrow> keeps n (ensure_top oid slot) (\<lambda>(p, _) _. is_u32 p)"
  unfolding ensure_top_def Let_def
  by (rule keeps_thn [OF keeps_get_raw], simp,
      intro keeps_if keeps_thn [OF keeps_alloc_and_zero] safe_thn [OF safe_set_block] keeps_ret) (simp_all add: wf_block)

lemma keeps_ensure_entry: "keeps n (ensure_entry oid b i) (\<lambda>(p, _) _. is_u32 p)"
  unfolding ensure_entry_def
  by (rule keeps_thn [OF keeps_read_indirect_entry],
      intro keeps_if keeps_thn [OF keeps_alloc_and_zero] safe_thn [OF safe_write_indirect_entry] keeps_ret) simp_all

lemma safe_ensure [safe_rules]: "\<lbrakk>oid < n; slot < 15\<rbrakk> \<Longrightarrow> safe n (ensure_top oid slot)" "safe n (ensure_entry oid b i)"
  by (rule keeps_weak, rule keeps_ensure_top, assumption+) (rule keeps_weak [OF keeps_ensure_entry])

lemma keeps_allocate: "oid < n \<Longrightarrow> keeps n (allocate_block_for_offset oid l z) (\<lambda>(p, _) _. is_u32 p)"
  unfolding allocate_block_for_offset_def Let_def
  apply (rule keeps_thn [OF keeps_resolve], assumption)
  apply (intro keeps_if keeps_ret safe_thn [OF safe_basic(4)] safe_thn [OF safe_ino_group])
   apply simp
  apply (rule keeps_thn [OF keeps_alloc_block], rule safe_thn, intro safe_rules)
  apply (intro keeps_if keeps_ret safe_thn [OF safe_set_block] safe_thn [OF safe_ensure(1)] safe_thn [OF safe_ensure(2)]
      safe_thn [OF safe_write_indirect_entry] keeps_prod; simp)
  done

lemma safe_allocate [safe_rules]: "oid < n \<Longrightarrow> safe n (allocate_block_for_offset oid l z)"
  by (rule keeps_weak [OF keeps_allocate])

section \<open>The inode and its data\<close>

lemma safe_write_inode [safe_rules]: "oid < n \<Longrightarrow> safe n (write_inode_to_disk oid)"
  unfolding write_inode_to_disk_def by (intro safe_rules)

lemma safe_size [safe_rules]:
  "safe n (uses_large raw)" "oid < n \<Longrightarrow> safe n (ino_size oid)" "oid < n \<Longrightarrow> safe n (set_size oid sz)"
proof -
  show l: "safe n (uses_large raw)" for n :: nat and raw
    unfolding uses_large_def x_has_large_file_def by (intro safe_rules)
  show "safe n (ino_size oid)" if "oid < n" unfolding ino_size_def using that by (intro safe_rules l)
  show "safe n (set_size oid sz)" if "oid < n"
    unfolding set_size_def using that by (intro safe_thn safe_upd_raw l keeps_if safe_get_raw safe_basic(1)) (auto simp: inode_wf_def)
qed

lemma safe_sum_ptrs: "(\<And>p k. n \<le> k \<Longrightarrow> safe k (f p)) \<Longrightarrow> safe n (sum_ptrs f ps c)"
proof (induction ps arbitrary: n c)
  case (Cons p ps)
  then show ?case by (auto intro!: safe_thn)
qed (simp add: safe_basic)

lemma safe_count_indirect [safe_rules]: "safe n (count_indirect l b)"
proof (induction l arbitrary: n b)
  case 0
  show ?case by (simp add: count_block_def) (intro conjI impI safe_rules safe_sum_ptrs)
next
  case (Suc l)
  show ?case by (simp add: count_block_def) (intro conjI impI safe_rules safe_sum_ptrs Suc)
qed

lemma safe_recompute [safe_rules]: "oid < n \<Longrightarrow> safe n (recompute_i_blocks oid)"
  unfolding recompute_i_blocks_def Let_def
  by (intro safe_rules safe_upd_raw) (auto simp: inode_wf_def u_bounds [simplified])

lemma safe_write_indirect_full [safe_rules]: "safe n (write_indirect_full b ptrs)"
  unfolding write_indirect_full_def by (intro safe_rules)

lemma safe_free_indirect [safe_rules]: "safe n (free_indirect l b)"
proof (induction l arbitrary: n b)
  case 0
  show ?case by (simp add: free_tree_def) (intro conjI impI safe_rules)
next
  case (Suc l)
  show ?case by (simp add: free_tree_def) (intro conjI impI safe_rules Suc)
qed

lemma safe_free_all [safe_rules]: "oid < n \<Longrightarrow> safe n (free_all_blocks oid)"
  unfolding free_all_blocks_def Let_def by (intro safe_rules safe_upd_raw) (auto simp: inode_wf_def list_all_iff)

lemma safe_free_and_clear [safe_rules]: "oid < n \<Longrightarrow> safe n (free_and_clear_logical oid l)"
  unfolding free_and_clear_logical_def Let_def by (intro safe_rules safe_set_block; simp)

lemma safe_prune_ptrs: "(\<And>p k. n \<le> k \<Longrightarrow> safe k (f p)) \<Longrightarrow> safe n (prune_ptrs f ps)"
proof (induction ps arbitrary: n)
  case (Cons p ps)
  show ?case unfolding prune_ptrs.simps by (intro safe_rules Cons; simp)
qed (simp add: safe_basic)

lemma safe_prune_indirect [safe_rules]: "safe n (prune_indirect l b)"
proof (induction l arbitrary: n b)
  case 0
  show ?case by simp (intro conjI impI safe_rules)
next
  case (Suc l)
  show ?case by simp (intro conjI impI safe_rules safe_prune_ptrs Suc)
qed

lemma safe_prune [safe_rules]: "oid < n \<Longrightarrow> safe n (prune_slot oid slot)" "oid < n \<Longrightarrow> safe n (prune_empty_indirects oid)"
proof -
  show p: "safe n (prune_slot oid slot)" if "oid < n" for n slot
    unfolding prune_slot_def Let_def using that by (intro safe_rules safe_set_block; simp)
  show "safe n (prune_empty_indirects oid)" if "oid < n" unfolding prune_empty_indirects_def using that by (intro safe_for_each p) simp
qed

lemma safe_truncate_to [safe_rules]: "oid < n \<Longrightarrow> safe n (truncate_to oid sz)"
  unfolding truncate_to_def Let_def by (intro safe_rules safe_upd_raw; (simp add: inode_wf_def)?)

lemma safe_read_run [safe_rules]: "oid < n \<Longrightarrow> safe n (read_run j oid l p r)"
  by (induction j arbitrary: n r) (auto intro!: safe_rules)

lemma safe_read_loop [safe_rules]: "oid < n \<Longrightarrow> safe n (read_loop fuel oid off want acc)"
proof (induction fuel arbitrary: n acc)
  case 0
  show ?case unfolding read_loop.simps by (intro safe_rules)
next
  case (Suc fuel)
  show ?case unfolding read_loop.simps Let_def using Suc.prems by (intro safe_rules Suc.IH; simp)
qed

lemma safe_read [safe_rules]: "oid < n \<Longrightarrow> safe n (ext2_read_at oid off l)" "oid < n \<Longrightarrow> safe n (read_into_zeros oid l)"
proof -
  show r: "safe n (ext2_read_at oid off l)" if "oid < n" for off
    unfolding ext2_read_at_def Let_def using that by (intro safe_rules; simp)
  show "safe n (read_into_zeros oid l)" if "oid < n" unfolding read_into_zeros_def by (intro safe_thn r that safe_basic(1))
qed

lemma safe_write_run [safe_rules]: "oid < n \<Longrightarrow> safe n (write_run j oid buf w l st nb)"
proof (induction j arbitrary: n st nb)
  case 0
  show ?case unfolding write_run.simps by (intro safe_rules)
next
  case (Suc j)
  show ?case unfolding write_run.simps Let_def using Suc.prems by (intro safe_rules Suc.IH; simp)
qed

lemma safe_write_loop [safe_rules]: "oid < n \<Longrightarrow> safe n (write_loop fuel oid off buf w nb)"
proof (induction fuel arbitrary: n w nb)
  case 0
  show ?case unfolding write_loop.simps by (intro safe_rules)
next
  case (Suc fuel)
  show ?case unfolding write_loop.simps Let_def using Suc.prems by (intro safe_rules Suc.IH; simp)
qed

lemma sat_add_lt: "u32_sat_add a b < 2 ^ 32" "u16_sat_add a b < 2 ^ 16"
  by (simp_all add: u32_sat_add_def u16_sat_add_def)

lemma safe_write_at [safe_rules]: "oid < n \<Longrightarrow> safe n (write_at_locked oid off buf)"
  unfolding write_at_locked_def Let_def
  by (intro safe_rules safe_upd_raw; (simp add: inode_wf_def sat_add_lt [simplified])?)

lemma inline_target_wf: "length (inline_target b) = 15" "list_all (\<lambda>p. p < 2 ^ 32) (inline_target b)"
  using field_u32 by (auto simp: inline_target_def Let_def list_all_iff)

lemma safe_symlink [safe_rules]: "oid < n \<Longrightarrow> safe n (read_symlink oid)" "oid < n \<Longrightarrow> safe n (write_symlink_target oid target)"
proof -
  show "safe n (read_symlink oid)" if "oid < n" unfolding read_symlink_def using that by (intro safe_rules; simp)
  have "inode_wf (raw\<lparr>i_block := inline_target b, i_size := length b\<rparr>)" if "inode_wf raw" "length b \<le> FAST_SYMLINK_MAX" for raw b
    using that inline_target_wf [of b] by (simp add: inode_wf_def)
  then show "safe n (write_symlink_target oid target)" if "oid < n"
    unfolding write_symlink_target_def Let_def using that by (intro safe_rules safe_upd_raw; simp)
qed

lemma safe_release_xattr [safe_rules]: "oid < n \<Longrightarrow> safe n (release_xattr_block oid)"
  unfolding release_xattr_block_def set_file_acl_def Let_def by (intro safe_rules safe_upd_raw; (simp add: inode_wf_def)?)

lemma and_lt: "a < 2 ^ n \<Longrightarrow> (a AND b) < 2 ^ n" for a b :: nat
  by (simp flip: take_bit_nat_eq_self_iff) (metis and.assoc and.commute take_bit_eq_mask)

lemma safe_demote [safe_rules]: "oid < n \<Longrightarrow> safe n (demote_from_htree oid)"
proof -
  have "inode_wf (raw\<lparr>i_flags := (i_flags raw AND m)\<rparr>)" if "inode_wf raw" for raw m
    using that and_lt [of "i_flags raw" 32 m] by (simp add: inode_wf_def)
  then show "oid < n \<Longrightarrow> safe n (demote_from_htree oid)"
    unfolding demote_from_htree_def by (intro safe_rules safe_upd_raw; simp)
qed

section \<open>The name space\<close>

lemma safe_dir [safe_rules]:
  "oid < n \<Longrightarrow> safe n (dir_iterator_new oid)" "oid < n \<Longrightarrow> safe n (ino_lookup oid name)" "oid < n \<Longrightarrow> safe n (ino_list oid)"
  "oid < n \<Longrightarrow> safe n (add_dir_entry oid name num ft)" "oid < n \<Longrightarrow> safe n (remove_dir_entry oid name)"
  "oid < n \<Longrightarrow> safe n (exists_name oid name)"
proof -
  show i: "safe n (dir_iterator_new oid)" if "oid < n" for n unfolding dir_iterator_new_def using that by (intro safe_rules; simp)
  show l: "safe n (ino_lookup oid name)" if "oid < n" unfolding ino_lookup_def using that by (intro safe_rules i)
  show "safe n (ino_list oid)" if "oid < n" unfolding ino_list_def using that by (intro safe_rules i)
  show "safe n (add_dir_entry oid name num ft)" if "oid < n"
    unfolding add_dir_entry_def x_has_filetype_def Let_def using that by (intro safe_rules; simp)
  show "safe n (remove_dir_entry oid name)" if "oid < n"
    unfolding remove_dir_entry_def using that by (intro safe_rules; simp)
  show "safe n (exists_name oid name)" if "oid < n" unfolding exists_name_def using that by (intro safe_rules l)
qed

lemma safe_set_links: "\<lbrakk>oid < n; \<And>l. l < 2 ^ 16 \<Longrightarrow> f l < 2 ^ 16\<rbrakk> \<Longrightarrow> safe n (set_links oid f)"
  unfolding set_links_def by (rule safe_upd_raw) (auto simp: inode_wf_def)

lemma safe_new_inode [safe_rules]: "safe n (new_inode mode)"
  unfolding new_inode_def by (intro safe_rules)

lemma encode_dev_u32: "encode_dev d = (a, b) \<Longrightarrow> is_u32 a \<and> is_u32 b"
proof -
  have "(m AND 255) < 2 ^ 32" "(m AND 1048575) < 2 ^ 32" for m :: nat
    using and_lt [of 255 32 m] and_lt [of 1048575 32 m] by (simp_all add: and.commute)
  moreover have "push_bit 8 m < 2 ^ 32" if "m < 256" for m :: nat using that by (simp add: push_bit_nat_def)
  ultimately show "encode_dev d = (a, b) \<Longrightarrow> is_u32 a \<and> is_u32 b"
    unfolding encode_dev_def Let_def is_u32_def
    by (cases "drop_bit 20 d < 256 \<and> (d AND 0x000FFFFF) < 256") (auto intro!: or_lt [where n = 32, simplified])
qed

lemma safe_set_dev: "\<lbrakk>oid < n; encode_dev rdev = (b0, b1)\<rbrakk> \<Longrightarrow> safe n (upd_raw oid (\<lambda>raw. raw\<lparr>i_block := (i_block raw)[0 := b0, 1 := b1]\<rparr>))"
  using encode_dev_u32 [of rdev b0 b1]
  by (intro safe_upd_raw) (auto simp: inode_wf_def is_u32_def list_all_iff dest!: subsetD [OF set_update_subset_insert])

lemma keeps_len: "(\<And>j. keeps n (M j) Q) \<Longrightarrow> keeps n (\<lambda>s. M (length (x_objs s)) s) Q"
  by (auto simp: keeps_def)

lemma keeps_create_child:
  assumes "oid < n"
  shows "keeps n (create_child oid name ft mode rdev) (\<lambda>oid k. oid < k)"
  unfolding create_child_def [abs_def] Let_def
proof (rule keeps_len [where M = "\<lambda>j. thn (exists_name oid name) (\<lambda>_. thn (new_inode (file_type_to_mode ft mode)) (\<lambda>num.
      thn (add_dir_entry oid name num (file_type_to_dir_byte ft)) (\<lambda>_. keep_inode j (get_inode num) (\<lambda>new_oid.
      if ft = BlockDevice \<or> ft = CharDevice then
        case encode_dev rdev of (b0, b1) \<Rightarrow>
        thn (upd_raw new_oid (\<lambda>raw. raw\<lparr>i_block := (i_block raw)[0 := b0, 1 := b1]\<rparr>)) (\<lambda>_. write_inode_to_disk new_oid)
      else ret ()))))"], intro safe_thn safe_dir(4,6) safe_new_inode keeps_keep_inode keeps_get_inode keeps_if keeps_prod safe_set_dev
      safe_write_inode safe_basic(1))
qed (use assms in simp_all)

lemma keeps_create:
  assumes "oid < n"
  shows "keeps n (ext2_create oid name ft mode) (\<lambda>oid k. oid < k)" "keeps n (ext2_mknod oid name ft mode rdev) (\<lambda>oid k. oid < k)"
    "keeps n (ext2_symlink oid name target) (\<lambda>oid k. oid < k)"
proof -
  show "keeps n (ext2_create oid name ft mode) (\<lambda>oid k. oid < k)" "keeps n (ext2_mknod oid name ft mode rdev) (\<lambda>oid k. oid < k)"
    unfolding ext2_create_def ext2_mknod_def using assms by (intro keeps_if keeps_stop keeps_create_child; assumption)+
  show "keeps n (ext2_symlink oid name target) (\<lambda>oid k. oid < k)"
    unfolding ext2_symlink_def [abs_def]
    by (rule keeps_len [where M = "\<lambda>j. keep_inode j (create_child oid name Symlink 0x1FF 0) (\<lambda>node. write_symlink_target node target)"])
      (use assms in \<open>intro keeps_keep_inode keeps_create_child safe_symlink\<close>)
qed

lemma keeps_mkdir:
  assumes "oid < n"
  shows "keeps n (ext2_mkdir oid name mode) (\<lambda>oid k. oid < k)"
proof -
  have l: "safe n (set_links oid (\<lambda>_. 2))" "safe n (set_links oid (\<lambda>l. u16_add l 1))" if "oid < n" for n oid
    using that by (intro safe_set_links; simp add: u_bounds [simplified])+
  have "keeps n (let self_num = num_of s oid in
      thn (exists_name oid name) (\<lambda>_.
      thn (new_inode (EXT2_S_IFDIR OR (mode mod 2 ^ 16 AND 0x0FFF))) (\<lambda>new_inode_num.
      thn (or_undo (add_dir_entry oid name new_inode_num TYPE_DIRECTORY) (free_inode new_inode_num)) (\<lambda>_.
      keep_inode (length (x_objs s)) (get_inode new_inode_num) (\<lambda>new_oid.
      thn (add_dir_entry new_oid ''.'' new_inode_num TYPE_DIRECTORY) (\<lambda>_.
      thn (add_dir_entry new_oid ''..'' self_num TYPE_DIRECTORY) (\<lambda>_.
      thn (set_links new_oid (\<lambda>_. 2)) (\<lambda>_.
      thn (write_inode_to_disk new_oid) (\<lambda>_.
      thn (set_links oid (\<lambda>l. u16_add l 1)) (\<lambda>_.
      thn (write_inode_to_disk oid) (\<lambda>_.
      adjust_used_dirs new_inode_num 1))))))))))) (\<lambda>oid k. oid < k)" for s :: "'a ext2"
    unfolding Let_def
    by (intro safe_thn safe_dir(4,6) safe_new_inode safe_or_undo safe_free_inode keeps_keep_inode keeps_get_inode l safe_write_inode
        safe_adjust_used_dirs) (use assms in simp_all)
  from keeps_diag [OF this] show ?thesis unfolding ext2_mkdir_def [abs_def] Let_def .
qed

lemma links_u16: "l < 2 ^ 16 \<Longrightarrow> l - 1 < 2 ^ 16" "l < 2 ^ 16 \<Longrightarrow> u16_sat_add l 1 < 2 ^ 16" for l :: nat
  using sat_add_lt(2) by auto

lemma safe_links [safe_rules]: "oid < n \<Longrightarrow> safe n (set_links oid (\<lambda>l. l - 1))" "oid < n \<Longrightarrow> safe n (set_links oid (\<lambda>l. u16_sat_add l 1))"
  by (erule safe_set_links, erule links_u16)+

lemma safe_unlink [safe_rules]: "oid < n \<Longrightarrow> safe n (unlink_locked oid name)"
  unfolding unlink_locked_def
  by (intro safe_thn safe_dir(2,5) safe_with_inode safe_get_raw safe_basic safe_links keeps_if safe_free_all safe_release_xattr
      safe_upd_raw safe_write_inode safe_free_inode; (simp add: inode_wf_def)?)

lemma safe_rmdir [safe_rules]: "oid < n \<Longrightarrow> safe n (rmdir_locked oid name)"
  unfolding rmdir_locked_def
  by (intro safe_thn safe_dir(2,3,5) safe_with_inode safe_get_raw safe_basic safe_links safe_free_all safe_release_xattr
      safe_upd_raw safe_write_inode safe_adjust_used_dirs safe_free_inode; (simp add: inode_wf_def)?)

lemma safe_ancestor_loop: "safe n (ancestor_loop j a cur)"
proof (induction j arbitrary: n cur)
  case (Suc j)
  show ?case unfolding ancestor_loop.simps by (intro safe_rules safe_with_inode Suc; simp)
qed (simp add: safe_basic)

lemma safe_ancestor [safe_rules]: "safe n (dir_is_ancestor_or_self a start)"
proof (rule keepsI)
  fix s :: "'a ext2" assume s: "typed s" "n \<le> length (x_objs s)" and ret: "returns (fst (dir_is_ancestor_or_self a start s))"
  let ?h = "s\<lparr>x_sb_held := True\<rparr>" let ?m = "ancestor_loop (es_inodes_count (x_sb s) + 1) a start"
  obtain r t where t: "?m ?h = (r, t)" by force
  have free: "\<not> x_sb_held s" "returns r"
    using ret t by (auto simp: dir_is_ancestor_or_self_def with_sb_held_def finally_do_def thn_def get_sb_def ret_def die_def
        simp del: ancestor_loop.simps split: if_splits)
  have "typed ?h" using s(1) by (simp add: typed_def num_of_def)
  from keepsD(1,2) [OF safe_ancestor_loop this _ t free(2), of n] s(2) have "typed t" "evolves ?h t" by simp_all
  then have "typed (t\<lparr>x_sb_held := False\<rparr>)" "\<not> x_sb_held s \<Longrightarrow> evolves s (t\<lparr>x_sb_held := False\<rparr>)"
    by (simp_all add: typed_def evolves_def num_of_def)
  then show "typed (snd (dir_is_ancestor_or_self a start s)) \<and> evolves s (snd (dir_is_ancestor_or_self a start s))
      \<and> (\<forall>x. fst (dir_is_ancestor_or_self a start s) = Inr x \<longrightarrow> True)"
    using s(1) t free
    by (simp add: dir_is_ancestor_or_self_def with_sb_held_def finally_do_def thn_def get_sb_def ret_def die_def del: ancestor_loop.simps)
qed

lemma keeps_here: "(\<And>oid. t = Here oid \<Longrightarrow> oid < n) \<Longrightarrow> keeps n (here t) (\<lambda>oid k. oid < k)"
  unfolding here_def by (cases t) (auto intro!: keeps_ret keeps_stop)

lemma safe_link:
  assumes "oid < n" "\<And>oid. t = Here oid \<Longrightarrow> oid < n"
  shows "safe n (ext2_link oid name t)"
  unfolding ext2_link_def
  by (rule safe_thn [OF safe_dir(6) [OF assms(1)]], rule keeps_thn [OF keeps_here], use assms(2) in force,
      intro safe_rules) (use assms(1) in simp_all)

lemma safe_clear_destination [safe_rules]: "oid < n \<Longrightarrow> safe n (clear_destination oid name num)"
  unfolding clear_destination_def
  by (intro safe_rules safe_with_inode; simp)

lemma safe_reparent [safe_rules]: "\<lbrakk>oid < n; d < n; c < n\<rbrakk> \<Longrightarrow> safe n (reparent oid d c)"
  unfolding reparent_def by (intro safe_rules; simp)

lemma safe_rename:
  assumes "oid < n" "\<And>oid. t = Here oid \<Longrightarrow> oid < n"
  shows "safe n (ext2_rename oid old t new)"
  unfolding ext2_rename_def Let_def
  by (rule keeps_thn [OF keeps_here], use assms(2) in force,
      intro safe_rules safe_with_inode) (use assms(1) in simp_all)

section \<open>Attributes\<close>

lemma safe_attr [safe_rules]: "oid < n \<Longrightarrow> safe n (ext2_getattr oid)" "oid < n \<Longrightarrow> safe n (ext2_setattr oid md)"
    "oid < n \<Longrightarrow> safe n (ext2_truncate oid sz)"
proof -
  show "safe n (ext2_getattr oid)" if "oid < n" unfolding ext2_getattr_def using that by (intro safe_rules; simp)
  show "safe n (ext2_truncate oid sz)" if "oid < n" unfolding ext2_truncate_def using that by (intro safe_rules; simp)
  show "safe n (ext2_setattr oid md)" if "oid < n"
    unfolding ext2_setattr_def using that by (intro safe_rules safe_upd_raw) (auto simp: inode_wf_def Let_def)
qed

lemma keeps_lookup: "oid < n \<Longrightarrow> keeps n (ext2_lookup oid name) (\<lambda>oid k. oid < k)"
  unfolding ext2_lookup_def by (rule safe_thn [OF safe_dir(2)]) (simp_all add: keeps_get_inode)

lemma safe_decrement [safe_rules]: "safe n (decrement_xattr_refcount b)"
  unfolding decrement_xattr_refcount_def by (intro safe_rules)

lemma safe_store_xattr [safe_rules]: "oid < n \<Longrightarrow> safe n (store_xattr_block oid acl shared buf)"
  unfolding store_xattr_block_def set_file_acl_def
  apply (intro keeps_if safe_thn [OF safe_ino_group] keeps_thn [OF keeps_alloc_block] safe_thn safe_blocks safe_basic safe_decrement safe_upd_raw)
       apply (simp_all add: inode_wf_def is_u32_def sat_add_lt [simplified])
  done

lemma safe_xattr [safe_rules]: "oid < n \<Longrightarrow> safe n (ext2_getxattr oid name)" "oid < n \<Longrightarrow> safe n (ext2_listxattr oid)"
  "oid < n \<Longrightarrow> safe n (ext2_setxattr oid name v)" "oid < n \<Longrightarrow> safe n (ext2_removexattr oid name)"
  unfolding ext2_getxattr_def ext2_listxattr_def ext2_setxattr_def ext2_removexattr_def Let_def
  by (intro safe_rules safe_upd_raw; (simp add: inode_wf_def less_imp_diff_less)?)+

section \<open>Mounting\<close>

lemma safe_write_super [safe_rules]: "safe n write_super_block"
proof -
  have "safe n (patch_super_block_copy sb b o' g)" for n sb b o' g
    unfolding patch_super_block_copy_def by (intro safe_rules)
  then have "safe n (if x_read_only s then ret () else thn get_sb (\<lambda>sb.
           case (if x_block_size s = 1024 then (1, 0) else (0, 1024)) of (primary_block, primary_off) \<Rightarrow>
           thn (patch_super_block_copy sb primary_block primary_off 0) (\<lambda>_.
           for_each (\<lambda>g. patch_super_block_copy sb (group_block sb g) 0 (g mod 2 ^ 16)) (backup_groups sb))))" for s :: "'a ext2"
    by (intro safe_rules)
  from keeps_diag [OF this] show ?thesis unfolding write_super_block_def [abs_def] Let_def if_distribR .
qed

lemma safe_write_bgdts [safe_rules]: "safe n write_block_group_descriptors"
proof -
  have b: "safe n (write_bgdt_at b)" for n b
    unfolding write_bgdt_at_def [abs_def] Let_def by (rule keeps_diag) (intro safe_rules)
  have "safe n (if x_read_only s then ret () else thn get_sb (\<lambda>sb. thn (write_bgdt_at (es_first_data_block sb + 1)) (\<lambda>_.
           for_each (\<lambda>g. write_bgdt_at (group_block sb g + 1)) (backup_groups sb))))" for s :: "'a ext2"
    by (intro safe_rules b)
  from keeps_diag [OF this] show ?thesis unfolding write_block_group_descriptors_def [abs_def] Let_def if_distribR .
qed

lemma safe_mount:
  "safe n (ext2_sync :: ('d ext2, unit) act)" "safe n (ext2_on_mount :: ('d ext2, unit) act)" "safe n (ext2_on_unmount :: ('d ext2, unit) act)"
proof -
  have sync: "safe n (x_cache_sync :: ('d ext2, unit) act)" for n unfolding x_cache_sync_def by (intro safe_rules)
  show "safe n (ext2_sync :: ('d ext2, unit) act)" unfolding ext2_sync_def by (intro safe_rules sync)
  have valid: "safe n (upd_sb (\<lambda>sb. sb\<lparr>es_state := (es_state sb OR EXT2_VALID_FS)\<rparr>))" for n
    by (rule safe_upd_sb) (auto simp: sb_typed_def sb_geom_def intro!: or_lt [where n = 16, simplified])
  have restore: "safe n (upd_sb (\<lambda>sb. sb\<lparr>es_state := es_state p\<rparr>))"
    "safe n (upd_sb (\<lambda>sb. sb\<lparr>es_state := es_state p, es_mnt_count := es_mnt_count p\<rparr>))" if "sb_typed p" for n p
    using that by (intro safe_upd_sb; simp add: sb_typed_def sb_geom_def)+
  have use: "safe n (upd_sb (\<lambda>sb. sb\<lparr>es_state := (es_state sb AND (0xFFFF - EXT2_VALID_FS)), es_mnt_count := min (es_mnt_count sb + 1) (2 ^ 16 - 1)\<rparr>))" for n
    using and_lt [where n = 16, simplified] by (intro safe_upd_sb) (auto simp: sb_typed_def sb_geom_def)
  show "safe n (ext2_on_unmount :: ('d ext2, unit) act)"
    unfolding ext2_on_unmount_def
    by (intro safe_thn [OF safe_write_super] safe_thn [OF safe_write_bgdts] safe_thn [OF sync] safe_thn [OF safe_basic(4)] keeps_if safe_basic(1)
        keeps_thn [OF keeps_get_sb] safe_thn [OF valid] safe_thn [OF safe_basic(5)] keeps_sum safe_thn [OF restore(1)] safe_thn [OF safe_basic(6)]
        keeps_stop sync safe_write_super)
  have "safe n ((if x_read_only s then ret () else thn get_sb (\<lambda>previous.
           thn (upd_sb (\<lambda>sb. sb\<lparr>es_state := (es_state sb AND (0xFFFF - EXT2_VALID_FS)),
                                es_mnt_count := min (es_mnt_count sb + 1) (2 ^ 16 - 1)\<rparr>)) (\<lambda>_.
           thn (attempt (thn write_super_block (\<lambda>_. x_cache_sync))) (\<lambda>result.
           case result of
             Inr _ \<Rightarrow> ret ()
           | Inl e \<Rightarrow>
               thn (upd_sb (\<lambda>sb. sb\<lparr>es_state := es_state previous, es_mnt_count := es_mnt_count previous\<rparr>)) (\<lambda>_.
               thn (ignore write_super_block) (\<lambda>_. fail e)))))) :: ('d ext2, unit) act)" for s :: "'d ext2"
    by (intro keeps_if safe_basic(1) keeps_thn [OF keeps_get_sb] safe_thn [OF use] safe_thn [OF safe_basic(5)] safe_thn [OF safe_write_super]
        sync keeps_sum safe_thn [OF restore(2)] safe_thn [OF safe_basic(6)] keeps_stop safe_write_super)
  from keeps_diag [OF this] show "safe n (ext2_on_mount :: ('d ext2, unit) act)" unfolding ext2_on_mount_def [abs_def] if_distribR .
qed

lemma keeps_root: "keeps n ext2_root_inode (\<lambda>oid k. oid < k)"
proof -
  have "keeps k (case r of Inl x \<Rightarrow> die (Panic msg) | Inr oid \<Rightarrow> ret oid) (\<lambda>oid k. oid < k)"
    if "\<forall>x. r = Inr x \<longrightarrow> x < k" for k msg and r :: "fs_error + nat"
    using that by (cases r) (auto intro!: keeps_stop keeps_ret)
  then show ?thesis unfolding ext2_root_inode_def by (intro keeps_thn [OF keeps_attempt [OF keeps_get_inode]])
qed

section \<open>Sequences of calls\<close>

text \<open>The calls of a client, by the object they are made on; \<open>CDrop\<close> is the end of its last reference.\<close>

datatype ext2_call =
    CRoot | CLookup nat string | CDrop nat | CRead nat usize usize | CWrite nat usize bytes | CTruncate nat usize
  | CReadlink nat | CList nat | CCreate nat string file_type nat | CMknod nat string file_type nat nat | CSymlink nat string string
  | CMkdir nat string nat | CUnlink nat string | CRmdir nat string | CLink nat string target | CRename nat string target string
  | CGetattr nat | CSetattr nat metadata | CGetxattr nat string | CListxattr nat | CSetxattr nat string bytes | CRemovexattr nat string
  | CSync | COnMount | COnUnmount

text \<open>The state after a call that returns, with a value or an error; \<open>None\<close> when it does not return.\<close>

definition quietly :: "('d ext2, 'a) act \<Rightarrow> 'd ext2 \<Rightarrow> 'd ext2 option" where
  "quietly m s = (case m s of (r, t) \<Rightarrow> if returns r then Some t else None)"

fun target_objs :: "target \<Rightarrow> nat list" where
  "target_objs (Here oid) = [oid]"
| "target_objs Elsewhere = []"

fun call_objs :: "ext2_call \<Rightarrow> nat list" where
  "call_objs (CLookup o' _) = [o']" | "call_objs (CDrop o') = [o']" | "call_objs (CRead o' _ _) = [o']"
| "call_objs (CWrite o' _ _) = [o']" | "call_objs (CTruncate o' _) = [o']" | "call_objs (CReadlink o') = [o']"
| "call_objs (CList o') = [o']" | "call_objs (CCreate o' _ _ _) = [o']" | "call_objs (CMknod o' _ _ _ _) = [o']"
| "call_objs (CSymlink o' _ _) = [o']" | "call_objs (CMkdir o' _ _) = [o']" | "call_objs (CUnlink o' _) = [o']"
| "call_objs (CRmdir o' _) = [o']" | "call_objs (CLink o' _ t) = o' # target_objs t"
| "call_objs (CRename o' _ t _) = o' # target_objs t" | "call_objs (CGetattr o') = [o']" | "call_objs (CSetattr o' _) = [o']"
| "call_objs (CGetxattr o' _) = [o']" | "call_objs (CListxattr o') = [o']" | "call_objs (CSetxattr o' _ _) = [o']"
| "call_objs (CRemovexattr o' _) = [o']" | "call_objs _ = []"

fun run_call :: "ext2_call \<Rightarrow> 'd ext2 \<Rightarrow> 'd ext2 option" where
  "run_call CRoot = quietly ext2_root_inode"
| "run_call (CLookup o' name) = quietly (ext2_lookup o' name)"
| "run_call (CDrop o') = quietly (upd (drop_inode o'))"
| "run_call (CRead o' off n) = quietly (ext2_read_at o' off n)"
| "run_call (CWrite o' off buf) = quietly (write_at_locked o' off buf)"
| "run_call (CTruncate o' n) = quietly (ext2_truncate o' n)"
| "run_call (CReadlink o') = quietly (read_symlink o')"
| "run_call (CList o') = quietly (ino_list o')"
| "run_call (CCreate o' name ft mode) = quietly (ext2_create o' name ft mode)"
| "run_call (CMknod o' name ft mode rdev) = quietly (ext2_mknod o' name ft mode rdev)"
| "run_call (CSymlink o' name target) = quietly (ext2_symlink o' name target)"
| "run_call (CMkdir o' name mode) = quietly (ext2_mkdir o' name mode)"
| "run_call (CUnlink o' name) = quietly (unlink_locked o' name)"
| "run_call (CRmdir o' name) = quietly (rmdir_locked o' name)"
| "run_call (CLink o' name t) = quietly (ext2_link o' name t)"
| "run_call (CRename o' name t new) = quietly (ext2_rename o' name t new)"
| "run_call (CGetattr o') = quietly (ext2_getattr o')"
| "run_call (CSetattr o' md) = quietly (ext2_setattr o' md)"
| "run_call (CGetxattr o' name) = quietly (ext2_getxattr o' name)"
| "run_call (CListxattr o') = quietly (ext2_listxattr o')"
| "run_call (CSetxattr o' name v) = quietly (ext2_setxattr o' name v)"
| "run_call (CRemovexattr o' name) = quietly (ext2_removexattr o' name)"
| "run_call CSync = quietly ext2_sync"
| "run_call COnMount = quietly ext2_on_mount"
| "run_call COnUnmount = quietly ext2_on_unmount"

text \<open>A client can only name objects that it was given; a call that does not return is the last one.\<close>

fun run_calls :: "ext2_call list \<Rightarrow> 'd ext2 \<Rightarrow> 'd ext2 option" where
  "run_calls [] s = Some s"
| "run_calls (c # cs) s =
     (if list_all (\<lambda>o'. o' < length (x_objs s)) (call_objs c)
      then case run_call c s of None \<Rightarrow> None | Some t \<Rightarrow> run_calls cs t
      else run_calls cs s)"

lemma quietly_typed: "\<lbrakk>keeps (length (x_objs s)) m Q; typed s; quietly m s = Some t\<rbrakk> \<Longrightarrow> typed t \<and> evolves s t"
  by (auto simp: keeps_def quietly_def split: prod.splits if_splits)

lemma safe_drop: "safe n (upd (drop_inode oid))"
  by (rule keeps_upd) (simp add: drop_inode_typed)

lemmas call_rules = safe_drop keeps_root keeps_lookup safe_read(1) safe_write_at safe_attr safe_symlink(1) safe_dir(3) keeps_create keeps_mkdir
  safe_unlink safe_rmdir safe_link safe_rename safe_xattr safe_mount

lemma run_call_typed:
  assumes "typed s" "list_all (\<lambda>o'. o' < length (x_objs s)) (call_objs c)" "run_call c s = Some t"
  shows "typed t \<and> evolves s t"
  using assms(2,3)
  by (cases c) (auto elim!: quietly_typed [OF _ assms(1), rotated] intro: call_rules)

lemma run_calls_typed: "\<lbrakk>typed s; run_calls cs s = Some t\<rbrakk> \<Longrightarrow> typed t \<and> evolves s t"
proof (induction cs s rule: run_calls.induct)
  case (2 c cs s)
  then show ?case
    by (auto split: if_splits option.splits dest: run_call_typed intro: evolves_trans)
qed simp

lemma bgd_of_bytes_wf: "bgd_wf (bgd_of_bytes b)"
  using field_u32 [of b] field_u16 [of b] by (auto simp: bgd_wf_def bgd_of_bytes_def list_all_iff)

lemma parsed_wf: "list_all bgd_wf (parse_block_group_descriptors buf k)"
  by (auto simp: parse_block_group_descriptors_def list_all_iff bgd_of_bytes_wf)

lemma parsed_sb_typed: "sb_from_raw (raw_sb_of_bytes b) = Inr sb \<Longrightarrow> sb_typed sb"
  using field_u32 [of b] field_u16 [of b]
  by (auto simp: sb_from_raw_def raw_sb_of_bytes_def sb_typed_def Let_def split: if_splits)

lemma open_typed:
  assumes "ext2_open dev d = Inr s"
  shows "typed s" "\<not> x_sb_held s"
proof -
  obtain b sb buf k where "sb_from_raw (raw_sb_of_bytes b) = Inr sb" "x_sb s = sb" "x_groups s = parse_block_group_descriptors buf k"
    "x_objs s = []" "x_icache s = []" "\<not> x_sb_held s"
    using assms unfolding ext2_open_def Let_def by (auto simp: run_simps split: if_splits)
  then show "typed s" "\<not> x_sb_held s" using parsed_wf parsed_sb_typed by (simp_all add: typed_def)
qed

text \<open>
  Whatever a device delivers and whenever it fails, after any sequence of calls on a mounted ext2
  instance that all return, every field is in the range of its machine type, so that every inode and every
  group descriptor in memory is stored without loss; the inode cache names, for every number, an
  object of that number; the superblock lock is free; and the geometry of the superblock, the
  places of bitmaps and inode tables and the number of every object are those of the mount.
\<close>

lemma ext2_types_kept:
  fixes s t :: "'d ext2" and cs :: "ext2_call list"
  assumes "ext2_open dev d = Inr s" "run_calls cs s = Some t"
  shows "(\<forall>ob \<in> set (x_objs t). inode_wf (xi_raw ob) \<and> inode_of_bytes (inode_bytes (xi_raw ob)) = xi_raw ob)
    \<and> (\<forall>g \<in> set (x_groups t). bgd_wf g \<and> bgd_of_bytes (bgd_bytes g) = g) \<and> sb_typed (x_sb t)
    \<and> (\<forall>(n, oid) \<in> set (x_icache t). oid < length (x_objs t) \<and> num_of t oid = n) \<and> \<not> x_sb_held t
    \<and> x_block_size t = x_block_size s \<and> x_read_only t = x_read_only s
    \<and> sb_geom (x_sb t) = sb_geom (x_sb s) \<and> map bg_geom (x_groups t) = map bg_geom (x_groups s)"
proof -
  note o = open_typed [OF assms(1)] and r = run_calls_typed [OF open_typed(1) [OF assms(1)] assms(2)]
  have "inode_of_bytes (inode_bytes raw) = raw" if "inode_wf raw" for raw using inode_of_bytes_inverse [OF that, of "[]"] by simp
  moreover have "bgd_of_bytes (bgd_bytes g) = g" if "bgd_wf g" for g using bgd_of_bytes_inverse [OF that, of "[]"] by simp
  moreover have "typed t" "evolves s t" using r by simp_all
  ultimately show ?thesis using o(2) by (auto simp: typed_def evolves_def list_all_iff)
qed

text \<open>A volume that mounts: a superblock in block one, zeros elsewhere.\<close>

definition sample_image :: "usize \<Rightarrow> bytes" where
  "sample_image b = (if b = 1 then sample_sb_image else replicate 1024 0)"

lemma sample_image_opens: "\<exists>s. ext2_open (flush_disk 1024) (sample_image, sample_image) = Inr s \<and> x_sb s = sample_sb"
proof -
  have "is_power_of_two 128" by (auto simp: is_power_of_two_def intro!: image_eqI [of _ _ 7])
  then show ?thesis
    using sample_sb_parse sample_sb_image_length
    by (simp add: ext2_open_def flush_disk_def sample_image_def io_err_def div_ceil_def pad_id ensure_def sb_block_size_def block_group_count_def)
      (simp add: sample_sb_def unsupported_incompat_def unsupported_ro_compat_def)
qed

end
