(* ===== verification/Kor_Sched.thy ===== *)
theory Kor_Sched
  imports Kor_Prelude "HOL-Library.Multiset"
begin

text \<open>
  The preemptive multi-core scheduler and its blocking primitives,
  \<^verbatim>\<open>base/kor-sched/src/lib.rs\<close>.  A task is a position in the store \<open>s_tasks\<close> (the identity of
  its \<^verbatim>\<open>Arc\<close>), a wait queue a position in \<open>s_wqs\<close> (its address).  A switch has two halves, as
  in the code: \<open>schedule\<close> picks the next task and leaves the outgoing one in the slot \<open>pc_prev\<close>
  of its processor, \<open>finish_switch\<close> runs on the incoming task and moves the outgoing one to its
  queue.  Other processors may act in between, so the two are separate steps of the transition
  relation; every other operation is one critical section.  Saved registers and stacks are not
  modelled; \<open>t_sem\<close> is the one fact about a saved context that matters here, that it resumes
  inside the loop of \<^verbatim>\<open>Semaphore::wait\<close>.
\<close>

section \<open>State\<close>

definition READY :: nat where [simp]: "READY = 0"
definition RUNNING :: nat where [simp]: "RUNNING = 1"
definition SLEEPING :: nat where [simp]: "SLEEPING = 2"
definition EXITED :: nat where [simp]: "EXITED = 3"
definition BLOCKED :: nat where [simp]: "BLOCKED = 4"

definition TIME_SLICE :: nat where [simp]: "TIME_SLICE = 5"
definition TICK_HZ :: nat where [simp]: "TICK_HZ = 100"

text \<open>The deferred transitions; a wait carries the address of its queue.\<close>

datatype action = TO_READY | TO_SLEEP | TO_ZOMBIE | TO_WAIT nat

record task =
  t_id :: nat
  t_state :: nat
  t_wake_tick :: nat
  t_user_context :: usize
  t_root :: usize
  t_sem :: "nat option"

record per_cpu =
  pc_current :: "nat option"
  pc_idle :: "nat option"
  pc_prev :: "(nat \<times> action) option"
  pc_slice :: nat
  pc_root :: usize

record wait_queue =
  wq_lock :: bool
  wq_list :: "nat list"

text \<open>A semaphore is a wait queue, found at the same position, with a count.\<close>

record sched =
  s_tasks :: "task list"
  s_next_id :: nat
  s_cpus :: "per_cpu list"
  s_ready_queue :: "nat list"
  s_sleepers :: "nat list"
  s_zombies :: "nat list"
  s_sched_ready :: bool
  s_wqs :: "wait_queue list"
  s_counts :: "int list"
  s_ticks :: nat

abbreviation cpu :: "sched \<Rightarrow> nat \<Rightarrow> per_cpu" where
  "cpu s c \<equiv> s_cpus s ! c"

abbreviation task_at :: "sched \<Rightarrow> nat \<Rightarrow> task" where
  "task_at s t \<equiv> s_tasks s ! t"

definition upd_cpu :: "nat \<Rightarrow> (per_cpu \<Rightarrow> per_cpu) \<Rightarrow> sched \<Rightarrow> sched" where
  "upd_cpu c f s = s\<lparr>s_cpus := (s_cpus s)[c := f (cpu s c)]\<rparr>"

definition upd_task :: "nat \<Rightarrow> (task \<Rightarrow> task) \<Rightarrow> sched \<Rightarrow> sched" where
  "upd_task t f s = s\<lparr>s_tasks := (s_tasks s)[t := f (task_at s t)]\<rparr>"

definition upd_wq :: "nat \<Rightarrow> (wait_queue \<Rightarrow> wait_queue) \<Rightarrow> sched \<Rightarrow> sched" where
  "upd_wq q f s = s\<lparr>s_wqs := (s_wqs s)[q := f (s_wqs s ! q)]\<rparr>"

definition set_state :: "nat \<Rightarrow> nat \<Rightarrow> sched \<Rightarrow> sched" where
  "set_state t st = upd_task t (\<lambda>k. k\<lparr>t_state := st\<rparr>)"

section \<open>Tasks\<close>

definition task_new :: "usize \<Rightarrow> sched \<Rightarrow> nat \<times> sched" where
  "task_new root s =
     (length (s_tasks s),
      s\<lparr>s_tasks := s_tasks s @ [\<lparr>t_id = s_next_id s, t_state = READY, t_wake_tick = 0, t_user_context = 0,
                                 t_root = root, t_sem = None\<rparr>],
        s_next_id := usize_add (s_next_id s) 1\<rparr>)"

definition task_idle :: "usize \<Rightarrow> sched \<Rightarrow> nat \<times> sched" where
  "task_idle root s =
     (length (s_tasks s),
      s\<lparr>s_tasks := s_tasks s @ [\<lparr>t_id = 0, t_state = RUNNING, t_wake_tick = 0, t_user_context = 0,
                                 t_root = root, t_sem = None\<rparr>]\<rparr>)"

definition is_idle :: "sched \<Rightarrow> nat \<Rightarrow> bool" where
  "is_idle s t \<longleftrightarrow> t_id (task_at s t) = 0"

definition set_user_context :: "nat \<Rightarrow> usize \<Rightarrow> sched \<Rightarrow> sched" where
  "set_user_context t context = upd_task t (\<lambda>k. k\<lparr>t_user_context := context\<rparr>)"

definition clear_user_context :: "nat \<Rightarrow> sched \<Rightarrow> sched" where
  "clear_user_context t = upd_task t (\<lambda>k. k\<lparr>t_user_context := 0\<rparr>)"

definition with_user_context :: "sched \<Rightarrow> nat \<Rightarrow> (usize \<Rightarrow> 'r) \<Rightarrow> 'r option" where
  "with_user_context s t f =
     (let context = t_user_context (task_at s t) in if context \<noteq> 0 then Some (f context) else None)"

definition set_address_space_root :: "nat \<Rightarrow> usize \<Rightarrow> sched \<Rightarrow> sched" where
  "set_address_space_root t root = upd_task t (\<lambda>k. k\<lparr>t_root := root\<rparr>)"

definition current :: "nat \<Rightarrow> sched \<Rightarrow> fault + nat" where
  "current c s = ok_or (pc_current (cpu s c)) (Panic ''scheduler not initialised on this CPU'')"

definition init_this_cpu :: "nat \<Rightarrow> sched \<Rightarrow> sched" where
  "init_this_cpu c s =
     (let (idle, s) = task_idle (pc_root (cpu s c)) s in
      upd_cpu c (\<lambda>p. p\<lparr>pc_idle := Some idle, pc_current := Some idle\<rparr>) s)"

definition sched_init :: "nat \<Rightarrow> sched \<Rightarrow> sched" where
  "sched_init c s = (init_this_cpu c s)\<lparr>s_sched_ready := True\<rparr>"

text \<open>\<open>configure\<close> is the caller's closure; it runs before the task is visible.\<close>

definition spawn_configured :: "nat \<Rightarrow> usize \<Rightarrow> (nat \<Rightarrow> sched \<Rightarrow> sched) \<Rightarrow> sched \<Rightarrow> nat \<times> sched" where
  "spawn_configured c root configure s =
     (let (t, s) = task_new (pc_root (cpu s c)) s; s = set_address_space_root t root s; id = t_id (task_at s t);
          s = configure id s in
      (id, s\<lparr>s_ready_queue := s_ready_queue s @ [t]\<rparr>))"

definition spawn :: "nat \<Rightarrow> sched \<Rightarrow> nat \<times> sched" where
  "spawn c s = spawn_configured c (pc_root (cpu s c)) (\<lambda>_ s. s) s"

section \<open>Switching\<close>

definition pick_next :: "nat \<Rightarrow> sched \<Rightarrow> fault + nat \<times> sched" where
  "pick_next c s =
     (case s_ready_queue s of
        t # ts \<Rightarrow> Inr (t, s\<lparr>s_ready_queue := ts\<rparr>)
      | [] \<Rightarrow> bnd (ok_or (pc_idle (cpu s c)) (Panic ''no idle task'')) (\<lambda>t. Inr (t, s)))"

definition finish_switch :: "nat \<Rightarrow> sched \<Rightarrow> sched" where
  "finish_switch c s =
     (case pc_prev (cpu s c) of
        None \<Rightarrow> s
      | Some (prev, act) \<Rightarrow>
          let s = upd_cpu c (\<lambda>p. p\<lparr>pc_prev := None\<rparr>) s in
          (case act of
             TO_READY \<Rightarrow> if is_idle s prev then s
                         else let s = set_state prev READY s in s\<lparr>s_ready_queue := s_ready_queue s @ [prev]\<rparr>
           | TO_SLEEP \<Rightarrow> let s = set_state prev SLEEPING s in s\<lparr>s_sleepers := s_sleepers s @ [prev]\<rparr>
           | TO_ZOMBIE \<Rightarrow> let s = set_state prev EXITED s in s\<lparr>s_zombies := s_zombies s @ [prev]\<rparr>
           | TO_WAIT q \<Rightarrow> let s = set_state prev BLOCKED s in
                          upd_wq q (\<lambda>w. w\<lparr>wq_list := wq_list w @ [prev], wq_lock := False\<rparr>) s))"

text \<open>
  The first half of a switch, up to \<^verbatim>\<open>context_switch\<close>: the processor now runs the next task in
  its address space.
\<close>

definition schedule :: "nat \<Rightarrow> action \<Rightarrow> sched \<Rightarrow> fault + sched" where
  "schedule c prev_action s =
     bnd (pick_next c s) (\<lambda>(nxt, s).
     bnd (ok_or (pc_current (cpu s c)) (Panic ''called `Option::unwrap()` on a `None` value'')) (\<lambda>prev.
     if prev = nxt \<and> prev_action = TO_READY then Inr s
     else
       let s = set_state nxt RUNNING s in
       Inr (upd_cpu c (\<lambda>p. p\<lparr>pc_prev := Some (prev, prev_action), pc_slice := TIME_SLICE,
              pc_current := Some nxt, pc_root := t_root (task_at s nxt)\<rparr>) s)))"

definition yield_now :: "nat \<Rightarrow> sched \<Rightarrow> fault + sched" where
  "yield_now c s = schedule c TO_READY s"

definition sched_sleep :: "nat \<Rightarrow> nat \<Rightarrow> sched \<Rightarrow> fault + sched" where
  "sched_sleep c ms s =
     (let wake = (s_ticks s + max (ms * TICK_HZ mod 2 ^ 64 div 1000) 1) mod 2 ^ 64 in
      bnd (current c s) (\<lambda>t.
      schedule c TO_SLEEP (upd_task t (\<lambda>k. k\<lparr>t_wake_tick := wake\<rparr>) s)))"

text \<open>One round of the loop of \<^verbatim>\<open>exit\<close>; the task is never resumed.\<close>

definition sched_exit :: "nat \<Rightarrow> sched \<Rightarrow> fault + sched" where
  "sched_exit c s = schedule c TO_ZOMBIE s"

definition make_ready :: "nat \<Rightarrow> sched \<Rightarrow> sched" where
  "make_ready t s = (let s = set_state t READY s in s\<lparr>s_ready_queue := s_ready_queue s @ [t]\<rparr>)"

definition reap :: "sched \<Rightarrow> sched" where
  "reap s = s\<lparr>s_zombies := []\<rparr>"

section \<open>The timer\<close>

definition swap_remove :: "'a list \<Rightarrow> nat \<Rightarrow> 'a list" where
  "swap_remove xs i = (if i = length xs - 1 then butlast xs else (butlast xs)[i := last xs])"

lemma length_swap_remove: "i < length xs \<Longrightarrow> length (swap_remove xs i) = length xs - 1"
  by (simp add: swap_remove_def)

function wake_sleepers :: "nat \<Rightarrow> nat \<Rightarrow> sched \<Rightarrow> sched" where
  "wake_sleepers now i s =
     (if i < length (s_sleepers s) then
        let t = s_sleepers s ! i in
        if t_wake_tick (task_at s t) \<le> now then
          wake_sleepers now i (make_ready t (s\<lparr>s_sleepers := swap_remove (s_sleepers s) i\<rparr>))
        else wake_sleepers now (i + 1) s
      else s)"
  by pat_completeness auto
termination
  by (relation "measure (\<lambda>(now, i, s). length (s_sleepers s) - i)")
    (auto simp: make_ready_def set_state_def upd_task_def length_swap_remove Let_def)

declare wake_sleepers.simps [simp del]

definition timer_tick :: "nat \<Rightarrow> sched \<Rightarrow> sched" where
  "timer_tick c s =
     (if \<not> s_sched_ready s then s
      else
        let s = wake_sleepers (s_ticks s) 0 s; rem = pc_slice (cpu s c) in
        if rem > 0 then upd_cpu c (\<lambda>p. p\<lparr>pc_slice := rem - 1\<rparr>) s else s)"

definition preempt :: "nat \<Rightarrow> sched \<Rightarrow> fault + sched" where
  "preempt c s =
     (if \<not> s_sched_ready s then Inr s
      else if pc_slice (cpu s c) = 0 then yield_now c (upd_cpu c (\<lambda>p. p\<lparr>pc_slice := TIME_SLICE\<rparr>) s)
      else Inr s)"

text \<open>The loop body of \<^verbatim>\<open>idle_loop\<close>.\<close>

definition idle_round :: "nat \<Rightarrow> sched \<Rightarrow> fault + sched" where
  "idle_round c s = yield_now c (reap s)"

section \<open>Wait queues and semaphores\<close>

text \<open>
  \<open>None\<close>: the raw lock is taken and the caller spins.  The lock stays taken when a task blocks
  and is released by \<open>finish_switch\<close>.
\<close>

definition raw_lock :: "nat \<Rightarrow> sched \<Rightarrow> sched option" where
  "raw_lock q s = (if wq_lock (s_wqs s ! q) then None else Some (upd_wq q (\<lambda>w. w\<lparr>wq_lock := True\<rparr>) s))"

definition raw_unlock :: "nat \<Rightarrow> sched \<Rightarrow> sched" where
  "raw_unlock q = upd_wq q (\<lambda>w. w\<lparr>wq_lock := False\<rparr>)"

definition block_locked :: "nat \<Rightarrow> nat \<Rightarrow> sched \<Rightarrow> fault + sched" where
  "block_locked c q s = schedule c (TO_WAIT q) s"

definition wq_wait :: "nat \<Rightarrow> nat \<Rightarrow> sched \<Rightarrow> (fault + sched) option" where
  "wq_wait c q s = map_option (block_locked c q) (raw_lock q s)"

definition wq_wait_if :: "nat \<Rightarrow> nat \<Rightarrow> (sched \<Rightarrow> bool) \<Rightarrow> sched \<Rightarrow> (fault + sched) option" where
  "wq_wait_if c q should_wait s =
     map_option (\<lambda>s. if \<not> should_wait s then Inr (raw_unlock q s) else block_locked c q s) (raw_lock q s)"

text \<open>Take the first waiter under the lock, then make it ready.\<close>

definition pop_waiter :: "nat \<Rightarrow> sched \<Rightarrow> nat option \<times> sched" where
  "pop_waiter q s =
     (case wq_list (s_wqs s ! q) of
        [] \<Rightarrow> (None, s)
      | t # ts \<Rightarrow> (Some t, upd_wq q (\<lambda>w. w\<lparr>wq_list := ts\<rparr>) s))"

definition wake_popped :: "nat option \<times> sched \<Rightarrow> sched" where
  "wake_popped r = (case r of (Some t, s) \<Rightarrow> make_ready t s | (None, s) \<Rightarrow> s)"

definition wq_wake_one :: "nat \<Rightarrow> sched \<Rightarrow> (bool \<times> sched) option" where
  "wq_wake_one q s =
     map_option (\<lambda>s. let (t, s) = pop_waiter q s in (t \<noteq> None, wake_popped (t, raw_unlock q s))) (raw_lock q s)"

definition wq_wake_all :: "nat \<Rightarrow> sched \<Rightarrow> (nat \<times> sched) option" where
  "wq_wake_all q s =
     map_option (\<lambda>s. let drained = wq_list (s_wqs s ! q); s = upd_wq q (\<lambda>w. w\<lparr>wq_list := []\<rparr>) s in
       (length drained, fold make_ready drained (raw_unlock q s))) (raw_lock q s)"

text \<open>One round of the loop of \<^verbatim>\<open>Semaphore::wait\<close>; a task that blocks resumes with the next one.\<close>

definition sem_wait_round :: "nat \<Rightarrow> nat \<Rightarrow> sched \<Rightarrow> (fault + sched) option" where
  "sem_wait_round c q s =
     map_option (\<lambda>s. bnd (current c s) (\<lambda>t.
       if s_counts s ! q > 0 then
         Inr (raw_unlock q (upd_task t (\<lambda>k. k\<lparr>t_sem := None\<rparr>) (s\<lparr>s_counts := (s_counts s)[q := s_counts s ! q - 1]\<rparr>)))
       else block_locked c q (upd_task t (\<lambda>k. k\<lparr>t_sem := Some q\<rparr>) s))) (raw_lock q s)"

definition sem_post :: "nat \<Rightarrow> sched \<Rightarrow> sched option" where
  "sem_post q s =
     map_option (\<lambda>s. let s = s\<lparr>s_counts := (s_counts s)[q := s_counts s ! q + 1]\<rparr>; (t, s) = pop_waiter q s in
       wake_popped (t, raw_unlock q s)) (raw_lock q s)"

end
