(* ===== verification/Kor_Sched_Inv.thy ===== *)
theory Kor_Sched_Inv
  imports Kor_Sched
begin

text \<open>
  Executions of the scheduler: the transition relation of all processors, and its invariant
  that a task which is not idle is in exactly one place (running, being switched out, ready,
  asleep, exited or in a wait queue).  The proof is by conservation: no step creates or loses
  a task, seen as a multiset of places.
\<close>

section \<open>Executions\<close>

text \<open>
  \<open>acts s c t\<close>: processor \<open>c\<close> runs the code of task \<open>t\<close>; a switch on it is complete and the
  task is not inside the loop of a semaphore.
\<close>

definition runs :: "sched \<Rightarrow> nat \<Rightarrow> nat \<Rightarrow> bool" where
  "runs s c t \<longleftrightarrow> c < length (s_cpus s) \<and> pc_current (cpu s c) = Some t \<and> pc_prev (cpu s c) = None"

definition acts :: "sched \<Rightarrow> nat \<Rightarrow> nat \<Rightarrow> bool" where
  "acts s c t \<longleftrightarrow> runs s c t \<and> t_sem (task_at s t) = None"

definition sched_boot :: "nat \<Rightarrow> usize \<Rightarrow> nat \<Rightarrow> int list \<Rightarrow> sched" where
  "sched_boot ncpu root nwq counts = \<lparr>s_tasks = [], s_next_id = 1,
     s_cpus = replicate ncpu \<lparr>pc_current = None, pc_idle = None, pc_prev = None, pc_slice = TIME_SLICE, pc_root = root\<rparr>,
     s_ready_queue = [], s_sleepers = [], s_zombies = [], s_sched_ready = False,
     s_wqs = replicate (length counts + nwq) \<lparr>wq_lock = False, wq_list = []\<rparr>, s_counts = counts, s_ticks = 0\<rparr>"

inductive sstep :: "sched \<Rightarrow> sched \<Rightarrow> bool" where
  boot: "\<lbrakk>c < length (s_cpus s); pc_current (cpu s c) = None; \<not> s_sched_ready s\<rbrakk> \<Longrightarrow> sstep s (sched_init c s)"
| secondary: "\<lbrakk>c < length (s_cpus s); pc_current (cpu s c) = None; s_sched_ready s\<rbrakk> \<Longrightarrow> sstep s (init_this_cpu c s)"
| finish: "\<lbrakk>c < length (s_cpus s); pc_prev (cpu s c) \<noteq> None\<rbrakk> \<Longrightarrow> sstep s (finish_switch c s)"
| clock: "s_ticks s \<le> n \<Longrightarrow> sstep s (s\<lparr>s_ticks := n\<rparr>)"
| spawned: "\<lbrakk>acts s c t; s_next_id s + 1 < USIZE_LIM\<rbrakk> \<Longrightarrow> sstep s (snd (spawn_configured c root (\<lambda>_ s. s) s))"
| yielded: "\<lbrakk>acts s c t; yield_now c s = Inr s'\<rbrakk> \<Longrightarrow> sstep s s'"
| slept: "\<lbrakk>acts s c t; \<not> is_idle s t; sched_sleep c ms s = Inr s'\<rbrakk> \<Longrightarrow> sstep s s'"
| exited: "\<lbrakk>acts s c t; \<not> is_idle s t; sched_exit c s = Inr s'\<rbrakk> \<Longrightarrow> sstep s s'"
| ticked: "\<lbrakk>acts s c t; preempt c (timer_tick c s) = Inr s'\<rbrakk> \<Longrightarrow> sstep s s'"
| idled: "\<lbrakk>acts s c t; is_idle s t; idle_round c s = Inr s'\<rbrakk> \<Longrightarrow> sstep s s'"
| waited: "\<lbrakk>acts s c t; \<not> is_idle s t; length (s_counts s) \<le> q; q < length (s_wqs s); wq_wait c q s = Some (Inr s')\<rbrakk> \<Longrightarrow> sstep s s'"
| waited_if: "\<lbrakk>acts s c t; \<not> is_idle s t; length (s_counts s) \<le> q; q < length (s_wqs s); wq_wait_if c q p s = Some (Inr s')\<rbrakk> \<Longrightarrow> sstep s s'"
| woke_one: "\<lbrakk>acts s c t; length (s_counts s) \<le> q; q < length (s_wqs s); wq_wake_one q s = Some (b, s')\<rbrakk> \<Longrightarrow> sstep s s'"
| woke_all: "\<lbrakk>acts s c t; length (s_counts s) \<le> q; q < length (s_wqs s); wq_wake_all q s = Some (n, s')\<rbrakk> \<Longrightarrow> sstep s s'"
| sem_waited: "\<lbrakk>runs s c t; \<not> is_idle s t; t_sem (task_at s t) \<in> {None, Some q}; q < length (s_counts s); sem_wait_round c q s = Some (Inr s')\<rbrakk> \<Longrightarrow> sstep s s'"
| sem_posted: "\<lbrakk>acts s c t; q < length (s_counts s); sem_post q s = Some s'\<rbrakk> \<Longrightarrow> sstep s s'"

inductive reachable :: "sched \<Rightarrow> bool" where
  start: "reachable (sched_boot ncpu root nwq counts)"
| more: "\<lbrakk>reachable s; sstep s s'\<rbrakk> \<Longrightarrow> reachable s'"

section \<open>Places\<close>

definition opt_ms :: "'a option \<Rightarrow> 'a multiset" where
  "opt_ms x = (case x of None \<Rightarrow> {#} | Some t \<Rightarrow> {#t#})"

definition on_cpu :: "per_cpu \<Rightarrow> nat multiset" where
  "on_cpu p = opt_ms (pc_current p) + opt_ms (map_option fst (pc_prev p))"

definition working :: "sched \<Rightarrow> per_cpu \<Rightarrow> nat multiset" where
  "working s p = filter_mset (\<lambda>t. \<not> is_idle s t) (on_cpu p)"

definition loc :: "sched \<Rightarrow> nat multiset" where
  "loc s = mset (s_ready_queue s) + mset (s_sleepers s) + mset (s_zombies s)
     + sum_list (map (\<lambda>w. mset (wq_list w)) (s_wqs s)) + sum_list (map (working s) (s_cpus s))"

lemma opt_ms_simps [simp]: "opt_ms None = {#}" "opt_ms (Some t) = {#t#}"
  by (simp_all add: opt_ms_def)

lemma sum_list_update_ms:
  fixes f :: "'a \<Rightarrow> 'b multiset"
  shows "i < length xs \<Longrightarrow> sum_list (map f (xs[i := y])) + f (xs ! i) = sum_list (map f xs) + f y"
proof (induction xs arbitrary: i)
  case (Cons x xs)
  show ?case
  proof (cases i)
    case 0
    then show ?thesis by (simp add: ac_simps)
  next
    case (Suc j)
    then have "sum_list (map f (xs[j := y])) + f (xs ! j) = sum_list (map f xs) + f y" using Cons by simp
    then show ?thesis using Suc by (simp add: add.assoc)
  qed
qed simp

text \<open>The store of tasks is seen only through the identifiers.\<close>

definition same_ids :: "sched \<Rightarrow> sched \<Rightarrow> bool" where
  "same_ids s s' \<longleftrightarrow> map t_id (s_tasks s') = map t_id (s_tasks s)"

lemma same_ids_idle:
  assumes "same_ids s s'"
  shows "length (s_tasks s') = length (s_tasks s)" "t < length (s_tasks s) \<Longrightarrow> is_idle s' t = is_idle s t"
proof -
  show l: "length (s_tasks s') = length (s_tasks s)" using assms map_eq_imp_length_eq unfolding same_ids_def by blast
  show "is_idle s' t = is_idle s t" if "t < length (s_tasks s)"
  proof -
    have "map t_id (s_tasks s') ! t = map t_id (s_tasks s) ! t" using assms by (simp add: same_ids_def)
    then show ?thesis using that l by (simp add: is_idle_def)
  qed
qed

lemma upd_task_ids: "(\<And>k. t_id (f k) = t_id k) \<Longrightarrow> same_ids s (upd_task t f s)"
  by (cases "t < length (s_tasks s)") (simp_all add: same_ids_def upd_task_def map_update list_update_same_conv list_update_beyond)

section \<open>Conservation\<close>

text \<open>How each primitive changes the places of a state whose tasks are all in the store.\<close>

definition stored :: "sched \<Rightarrow> bool" where
  "stored s \<longleftrightarrow> (\<forall>p \<in> set (s_cpus s). \<forall>t \<in># on_cpu p. t < length (s_tasks s))"

lemma working_ids:
  assumes "same_ids s s'" "\<forall>t \<in># on_cpu p. t < length (s_tasks s)"
  shows "working s' p = working s p"
  unfolding working_def using assms same_ids_idle(2) [OF assms(1)] by (intro filter_mset_cong) auto

lemma sum_working_ids:
  assumes "same_ids s s'" "stored s"
  shows "sum_list (map (working s') (s_cpus s)) = sum_list (map (working s) (s_cpus s))"
  using assms working_ids unfolding stored_def by (intro arg_cong [where f = sum_list] map_cong) auto

lemma loc_upd_cpu:
  assumes "c < length (s_cpus s)"
  shows "loc (upd_cpu c f s) + working s (cpu s c) = loc s + working s (f (cpu s c))"
proof -
  have w: "working (upd_cpu c f s) = working s" by (simp add: fun_eq_iff working_def is_idle_def upd_cpu_def)
  have "sum_list (map (working s) ((s_cpus s)[c := f (cpu s c)])) + working s (cpu s c)
      = sum_list (map (working s) (s_cpus s)) + working s (f (cpu s c))"
    by (rule sum_list_update_ms [OF assms])
  then show ?thesis unfolding loc_def w by (simp add: upd_cpu_def ac_simps)
qed

lemma loc_upd_task:
  assumes "stored s" "\<And>k. t_id (f k) = t_id k"
  shows "loc (upd_task t f s) = loc s"
  using sum_working_ids [OF upd_task_ids [of f s t, OF assms(2)] assms(1)]
  unfolding loc_def by (simp add: upd_task_def)

lemma stored_upd_task: "stored s \<Longrightarrow> stored (upd_task t f s)"
  by (simp add: stored_def upd_task_def)

lemma loc_upd_wq:
  assumes "q < length (s_wqs s)"
  shows "loc (upd_wq q f s) + mset (wq_list (s_wqs s ! q)) = loc s + mset (wq_list (f (s_wqs s ! q)))"
proof -
  have w: "working (upd_wq q f s) = working s" by (simp add: fun_eq_iff working_def is_idle_def upd_wq_def)
  have "sum_list (map (\<lambda>w. mset (wq_list w)) ((s_wqs s)[q := f (s_wqs s ! q)])) + mset (wq_list (s_wqs s ! q))
      = sum_list (map (\<lambda>w. mset (wq_list w)) (s_wqs s)) + mset (wq_list (f (s_wqs s ! q)))"
    by (rule sum_list_update_ms [OF assms])
  then show ?thesis unfolding loc_def w by (simp add: upd_wq_def ac_simps)
qed

lemma loc_queues:
  "loc (s\<lparr>s_ready_queue := r\<rparr>) + mset (s_ready_queue s) = loc s + mset r"
  "loc (s\<lparr>s_sleepers := r\<rparr>) + mset (s_sleepers s) = loc s + mset r"
  "loc (s\<lparr>s_zombies := r\<rparr>) + mset (s_zombies s) = loc s + mset r"
proof -
  have w: "working (s\<lparr>s_ready_queue := r\<rparr>) = working s" "working (s\<lparr>s_sleepers := r\<rparr>) = working s"
    "working (s\<lparr>s_zombies := r\<rparr>) = working s"
    by (simp_all add: fun_eq_iff working_def is_idle_def)
  show "loc (s\<lparr>s_ready_queue := r\<rparr>) + mset (s_ready_queue s) = loc s + mset r"
    "loc (s\<lparr>s_sleepers := r\<rparr>) + mset (s_sleepers s) = loc s + mset r"
    "loc (s\<lparr>s_zombies := r\<rparr>) + mset (s_zombies s) = loc s + mset r"
    unfolding loc_def w by (simp_all add: ac_simps)
qed

lemma loc_push:
  "loc (s\<lparr>s_ready_queue := s_ready_queue s @ [t]\<rparr>) = add_mset t (loc s)"
  "loc (s\<lparr>s_sleepers := s_sleepers s @ [t]\<rparr>) = add_mset t (loc s)"
  "loc (s\<lparr>s_zombies := s_zombies s @ [t]\<rparr>) = add_mset t (loc s)"
proof -
  have c: "A = add_mset t B" if "A + m = B + (m + {#t#})" for A B m :: "nat multiset"
  proof -
    have "A + m = (B + {#t#}) + m" using that by (simp only: ac_simps)
    then show ?thesis by simp
  qed
  show "loc (s\<lparr>s_ready_queue := s_ready_queue s @ [t]\<rparr>) = add_mset t (loc s)"
    by (rule c [of _ "mset (s_ready_queue s)"], unfold loc_queues(1)) simp
  show "loc (s\<lparr>s_sleepers := s_sleepers s @ [t]\<rparr>) = add_mset t (loc s)"
    by (rule c [of _ "mset (s_sleepers s)"], unfold loc_queues(2)) simp
  show "loc (s\<lparr>s_zombies := s_zombies s @ [t]\<rparr>) = add_mset t (loc s)"
    by (rule c [of _ "mset (s_zombies s)"], unfold loc_queues(3)) simp
qed

lemma loc_make_ready: "stored s \<Longrightarrow> loc (make_ready t s) = add_mset t (loc s)"
  using loc_push(1) [of "set_state t READY s" t] loc_upd_task [of s "\<lambda>k. k\<lparr>t_state := READY\<rparr>" t]
  by (simp add: make_ready_def Let_def set_state_def)

section \<open>The invariant\<close>

definition queued :: "sched \<Rightarrow> (nat \<times> nat) list" where
  "queued s = map (\<lambda>t. (t, READY)) (s_ready_queue s) @ map (\<lambda>t. (t, SLEEPING)) (s_sleepers s)
     @ map (\<lambda>t. (t, EXITED)) (s_zombies s) @ map (\<lambda>t. (t, BLOCKED)) (concat (map wq_list (s_wqs s)))"

definition cpu_ok :: "sched \<Rightarrow> per_cpu \<Rightarrow> bool" where
  "cpu_ok s p \<longleftrightarrow>
     (case pc_current p of
        None \<Rightarrow> pc_idle p = None \<and> pc_prev p = None
      | Some t \<Rightarrow> t < length (s_tasks s) \<and> t_state (task_at s t) = RUNNING \<and> pc_root p = t_root (task_at s t)
          \<and> (\<exists>i. pc_idle p = Some i \<and> i < length (s_tasks s) \<and> is_idle s i \<and> (is_idle s t \<longrightarrow> t = i)
                \<and> (case pc_prev p of None \<Rightarrow> True
                   | Some (u, a) \<Rightarrow> u < length (s_tasks s) \<and> u \<noteq> t \<and> (is_idle s u \<longrightarrow> u = i \<and> a = TO_READY)
                       \<and> (\<forall>q. a = TO_WAIT q \<longrightarrow> q < length (s_wqs s)))))"

definition blocking :: "nat \<Rightarrow> per_cpu \<Rightarrow> bool" where
  "blocking q p \<longleftrightarrow> (\<exists>t. pc_prev p = Some (t, TO_WAIT q))"

text \<open>The lock of a wait queue is taken exactly while one processor switches a task out to it.\<close>

definition locks_ok :: "sched \<Rightarrow> bool" where
  "locks_ok s \<longleftrightarrow> (\<forall>q < length (s_wqs s). wq_lock (s_wqs s ! q) \<longleftrightarrow> (\<exists>c < length (s_cpus s). blocking q (cpu s c)))
     \<and> (\<forall>c c' q. c < length (s_cpus s) \<longrightarrow> c' < length (s_cpus s) \<longrightarrow> blocking q (cpu s c) \<longrightarrow> blocking q (cpu s c') \<longrightarrow> c = c')"

definition tasks_ok :: "sched \<Rightarrow> bool" where
  "tasks_ok s \<longleftrightarrow> (\<forall>t. count (loc s) t \<le> 1) \<and> (\<forall>t \<in># loc s. t < length (s_tasks s) \<and> \<not> is_idle s t)
     \<and> (\<forall>(t, st) \<in> set (queued s). t_state (task_at s t) = st)
     \<and> (\<forall>p \<in> set (s_cpus s). cpu_ok s p) \<and> 0 < s_next_id s \<and> length (s_counts s) \<le> length (s_wqs s)"

definition sinv :: "sched \<Rightarrow> bool" where
  "sinv s \<longleftrightarrow> tasks_ok s \<and> locks_ok s"

lemma loc_queued: "loc s = mset (map fst (queued s)) + sum_list (map (working s) (s_cpus s))"
  by (simp add: loc_def queued_def comp_def mset_concat ac_simps)

lemma count_sum_list: "count (sum_list xs) x = sum_list (map (\<lambda>m. count m x) xs)"
  by (induction xs) simp_all

lemma working_le:
  assumes "c < length (s_cpus s)"
  shows "count (working s (cpu s c)) x + count (mset (map fst (queued s))) x \<le> count (loc s) x"
proof -
  have "count (working s (cpu s c)) x \<le> sum_list (map (\<lambda>p. count (working s p) x) (s_cpus s))"
    using assms by (intro member_le_sum_list) auto
  then show ?thesis by (simp add: loc_queued count_sum_list comp_def)
qed

lemma working_le2:
  assumes "c < length (s_cpus s)" "d < length (s_cpus s)" "c \<noteq> d"
  shows "count (working s (cpu s c)) x + count (working s (cpu s d)) x \<le> count (loc s) x"
proof -
  let ?f = "\<lambda>i. count (working s (cpu s i)) x"
  have "?f c + ?f d = sum ?f {c, d}" using assms(3) by simp
  also have "\<dots> \<le> sum ?f {..<length (s_cpus s)}" using assms by (intro sum_mono2) auto
  also have "\<dots> = sum_list (map (\<lambda>p. count (working s p) x) (s_cpus s))"
    by (simp add: sum_list_sum_nth atLeast0LessThan)
  finally show ?thesis by (simp add: loc_queued count_sum_list comp_def)
qed

lemma tasks_okD:
  assumes "tasks_ok s"
  shows "count (loc s) t \<le> 1" "t \<in># loc s \<Longrightarrow> t < length (s_tasks s)" "t \<in># loc s \<Longrightarrow> \<not> is_idle s t"
    "(t, st) \<in> set (queued s) \<Longrightarrow> t_state (task_at s t) = st" "c < length (s_cpus s) \<Longrightarrow> cpu_ok s (cpu s c)" "0 < s_next_id s"
    "length (s_counts s) \<le> length (s_wqs s)"
  using assms unfolding tasks_ok_def by (auto dest: nth_mem)

text \<open>The condition on a processor is kept when the store grows and its current task keeps its state.\<close>

lemma cpu_ok_frame:
  assumes "cpu_ok s p" "length (s_tasks s) \<le> length (s_tasks s')" "length (s_wqs s') = length (s_wqs s)"
    and "\<And>x. x < length (s_tasks s) \<Longrightarrow> is_idle s' x = is_idle s x \<and> t_root (task_at s' x) = t_root (task_at s x)"
    and "\<And>t. pc_current p = Some t \<Longrightarrow> t_state (task_at s' t) = RUNNING"
  shows "cpu_ok s' p"
proof (cases "pc_current p")
  case None
  then show ?thesis using assms(1) by (simp add: cpu_ok_def)
next
  case (Some t)
  then obtain i where i: "t < length (s_tasks s)" "pc_root p = t_root (task_at s t)" "pc_idle p = Some i" "i < length (s_tasks s)"
      "is_idle s i" "is_idle s t \<longrightarrow> t = i"
    and pr: "case pc_prev p of None \<Rightarrow> True | Some (u, a) \<Rightarrow> u < length (s_tasks s) \<and> u \<noteq> t \<and> (is_idle s u \<longrightarrow> u = i \<and> a = TO_READY)
                       \<and> (\<forall>q. a = TO_WAIT q \<longrightarrow> q < length (s_wqs s))"
    using assms(1) by (auto simp: cpu_ok_def)
  have "case pc_prev p of None \<Rightarrow> True | Some (u, a) \<Rightarrow> u < length (s_tasks s') \<and> u \<noteq> t \<and> (is_idle s' u \<longrightarrow> u = i \<and> a = TO_READY)
                       \<and> (\<forall>q. a = TO_WAIT q \<longrightarrow> q < length (s_wqs s'))"
    using pr assms(2-4) by (cases "pc_prev p") auto
  then show ?thesis using Some i assms(2,4,5) by (auto simp: cpu_ok_def)
qed

lemma tasks_okI:
  assumes "\<And>t. count (loc s) t \<le> 1" "\<And>t. t \<in># loc s \<Longrightarrow> t < length (s_tasks s) \<and> \<not> is_idle s t"
    and "\<And>t st. (t, st) \<in> set (queued s) \<Longrightarrow> t_state (task_at s t) = st" "\<And>c. c < length (s_cpus s) \<Longrightarrow> cpu_ok s (cpu s c)"
    and "0 < s_next_id s" "length (s_counts s) \<le> length (s_wqs s)"
  shows "tasks_ok s"
  using assms unfolding tasks_ok_def by (auto simp: in_set_conv_nth)

lemma tasks_ok_sub:
  assumes "tasks_ok s" "loc s' \<subseteq># loc s" "is_idle s' = is_idle s" "length (s_tasks s') = length (s_tasks s)"
    and "\<And>t st. (t, st) \<in> set (queued s') \<Longrightarrow> t_state (task_at s' t) = st" "\<And>c. c < length (s_cpus s') \<Longrightarrow> cpu_ok s' (cpu s' c)"
    and "s_next_id s' = s_next_id s" "length (s_counts s') = length (s_counts s)" "length (s_wqs s') = length (s_wqs s)"
  shows "tasks_ok s'"
proof (rule tasks_okI)
  show "count (loc s') t \<le> 1" for t
    using mset_subset_eq_count [OF assms(2), of t] tasks_okD(1) [OF assms(1), of t] by linarith
  show "t < length (s_tasks s') \<and> \<not> is_idle s' t" if "t \<in># loc s'" for t
    using tasks_okD(2,3) [OF assms(1) mset_subset_eqD [OF assms(2) that]] assms(3,4) by simp
  show "length (s_counts s') \<le> length (s_wqs s')" using tasks_okD(7) [OF assms(1)] assms(8,9) by simp
  show "0 < s_next_id s'" using tasks_okD(6) [OF assms(1)] assms(7) by simp
qed (rule assms; assumption)+

lemma tasks_ok_step:
  assumes "tasks_ok s" "loc s' = loc s" "is_idle s' = is_idle s" "length (s_tasks s') = length (s_tasks s)"
    and "\<And>t st. (t, st) \<in> set (queued s') \<Longrightarrow> t_state (task_at s' t) = st" "\<And>c. c < length (s_cpus s') \<Longrightarrow> cpu_ok s' (cpu s' c)"
    and "s_next_id s' = s_next_id s" "s_counts s' = s_counts s" "length (s_wqs s') = length (s_wqs s)"
  shows "tasks_ok s'"
  using assms(2,8) by (intro tasks_ok_sub [OF assms(1) _ assms(3-7) _ assms(9)]) simp_all

lemma tasks_ok_stored: "tasks_ok s \<Longrightarrow> stored s"
  unfolding tasks_ok_def stored_def cpu_ok_def on_cpu_def
  by (auto simp: opt_ms_def split: option.splits)

text \<open>A task on a processor is in no queue and on no other processor.\<close>

lemma busy_alone:
  assumes "tasks_ok s" "c < length (s_cpus s)" "t \<in># working s (cpu s c)"
  shows "t \<notin> fst ` set (queued s)" "\<lbrakk>d < length (s_cpus s); d \<noteq> c\<rbrakk> \<Longrightarrow> t \<notin># working s (cpu s d)"
    "count (working s (cpu s c)) t = 1"
proof -
  have c1: "count (loc s) t \<le> 1" by (rule tasks_okD(1) [OF assms(1)])
  have p: "0 < count (working s (cpu s c)) t" using assms(3) by simp
  show "t \<notin> fst ` set (queued s)"
  proof
    assume "t \<in> fst ` set (queued s)"
    then have "0 < count (mset (map fst (queued s))) t" by (simp only: count_greater_zero_iff set_mset_mset set_map)
    then show False using working_le [OF assms(2), of t] p c1 by linarith
  qed
  show "t \<notin># working s (cpu s d)" if "d < length (s_cpus s)" "d \<noteq> c"
  proof
    assume "t \<in># working s (cpu s d)"
    then have "0 < count (working s (cpu s d)) t" by simp
    then show False using working_le2 [OF assms(2) that(1) that(2) [symmetric], of t] p c1 by linarith
  qed
  show "count (working s (cpu s c)) t = 1" using working_le [OF assms(2), of t] p c1 by linarith
qed

section \<open>The first half of a switch\<close>

lemma task_frame [simp]:
  "is_idle (upd_cpu c f s) = is_idle s" "is_idle (upd_wq q g s) = is_idle s" "is_idle (s\<lparr>s_ready_queue := r\<rparr>) = is_idle s"
  "is_idle (s\<lparr>s_sleepers := r\<rparr>) = is_idle s" "is_idle (s\<lparr>s_zombies := r\<rparr>) = is_idle s" "is_idle (s\<lparr>s_ticks := n\<rparr>) = is_idle s"
  "is_idle (s\<lparr>s_counts := k\<rparr>) = is_idle s"
  by (simp_all add: fun_eq_iff is_idle_def upd_cpu_def upd_wq_def)

lemma set_state_simps [simp]:
  "length (s_tasks (set_state n v s)) = length (s_tasks s)" "is_idle (set_state n v s) t = is_idle s t"
  "t_root (task_at (set_state n v s) t) = t_root (task_at s t)" "t_sem (task_at (set_state n v s) t) = t_sem (task_at s t)"
  "n < length (s_tasks s) \<Longrightarrow> t_state (task_at (set_state n v s) t) = (if t = n then v else t_state (task_at s t))"
  "s_cpus (set_state n v s) = s_cpus s" "s_wqs (set_state n v s) = s_wqs s" "s_ready_queue (set_state n v s) = s_ready_queue s"
  "s_sleepers (set_state n v s) = s_sleepers s" "s_zombies (set_state n v s) = s_zombies s" "s_counts (set_state n v s) = s_counts s"
  "s_next_id (set_state n v s) = s_next_id s" "s_ticks (set_state n v s) = s_ticks s" "s_sched_ready (set_state n v s) = s_sched_ready s"
  by (cases "n < length (s_tasks s)";
      simp add: set_state_def upd_task_def is_idle_def nth_list_update list_update_beyond)+

lemma upd_cpu_simps [simp]:
  "s_tasks (upd_cpu c f s) = s_tasks s" "s_wqs (upd_cpu c f s) = s_wqs s" "s_ready_queue (upd_cpu c f s) = s_ready_queue s"
  "s_sleepers (upd_cpu c f s) = s_sleepers s" "s_zombies (upd_cpu c f s) = s_zombies s" "s_counts (upd_cpu c f s) = s_counts s"
  "s_next_id (upd_cpu c f s) = s_next_id s" "length (s_cpus (upd_cpu c f s)) = length (s_cpus s)" "s_ticks (upd_cpu c f s) = s_ticks s"
  "s_sched_ready (upd_cpu c f s) = s_sched_ready s"
  "c < length (s_cpus s) \<Longrightarrow> cpu (upd_cpu c f s) d = (if d = c then f (cpu s c) else cpu s d)"
  by (simp_all add: upd_cpu_def nth_list_update)

definition switch_to :: "nat \<Rightarrow> nat \<Rightarrow> action \<Rightarrow> nat \<Rightarrow> sched \<Rightarrow> sched" where
  "switch_to c t a n s = upd_cpu c (\<lambda>p. p\<lparr>pc_prev := Some (t, a), pc_slice := TIME_SLICE, pc_current := Some n,
     pc_root := t_root (task_at s n)\<rparr>) (set_state n RUNNING (s\<lparr>s_ready_queue := tl (s_ready_queue s)\<rparr>))"

text \<open>The task \<open>n\<close> that the processor \<open>c\<close> of task \<open>t\<close> turns to, the head of the queue or its idle task.\<close>

definition turns_to :: "sched \<Rightarrow> nat \<Rightarrow> nat \<Rightarrow> nat \<Rightarrow> bool" where
  "turns_to s c t n \<longleftrightarrow> n \<noteq> t \<and> n < length (s_tasks s)
     \<and> (if s_ready_queue s = [] then pc_idle (cpu s c) = Some n \<and> is_idle s n \<and> \<not> is_idle s t else n = hd (s_ready_queue s))"

lemma runs_ok:
  assumes "tasks_ok s" "runs s c t"
  shows "c < length (s_cpus s)" "pc_current (cpu s c) = Some t" "pc_prev (cpu s c) = None" "t < length (s_tasks s)"
    "\<exists>i. pc_idle (cpu s c) = Some i \<and> i < length (s_tasks s) \<and> is_idle s i \<and> (is_idle s t \<longrightarrow> t = i)"
    "\<not> is_idle s t \<Longrightarrow> t \<in># working s (cpu s c)"
proof -
  show c: "c < length (s_cpus s)" "pc_current (cpu s c) = Some t" "pc_prev (cpu s c) = None" using assms(2) by (simp_all add: runs_def)
  have "cpu_ok s (cpu s c)" by (rule tasks_okD(5) [OF assms(1) c(1)])
  then show "t < length (s_tasks s)" "\<exists>i. pc_idle (cpu s c) = Some i \<and> i < length (s_tasks s) \<and> is_idle s i \<and> (is_idle s t \<longrightarrow> t = i)"
    using c by (auto simp: cpu_ok_def)
  show "t \<in># working s (cpu s c)" if "\<not> is_idle s t" using that c by (simp add: working_def on_cpu_def)
qed

lemma head_queued: "s_ready_queue s = n # ts \<Longrightarrow> (n, READY) \<in> set (queued s)"
  by (simp add: queued_def)

lemma queued_loc: "(t, st) \<in> set (queued s) \<Longrightarrow> t \<in># loc s"
  by (force simp: loc_queued)

lemma ready_nil: "s_ready_queue s = [] \<Longrightarrow> s\<lparr>s_ready_queue := tl (s_ready_queue s)\<rparr> = s"
  by (cases s) simp

lemma schedule_cases:
  assumes "tasks_ok s" "runs s c t" "is_idle s t \<longrightarrow> a = TO_READY"
  obtains (stay) "schedule c a s = Inr s" "s_ready_queue s = []" "is_idle s t" "a = TO_READY"
    | (go) n where "schedule c a s = Inr (switch_to c t a n s)" "turns_to s c t n"
proof (cases "s_ready_queue s")
  case Nil
  obtain i where i: "pc_idle (cpu s c) = Some i" "i < length (s_tasks s)" "is_idle s i" "is_idle s t \<longrightarrow> t = i"
    using runs_ok(5) [OF assms(1,2)] by blast
  show ?thesis
  proof (cases "is_idle s t")
    case True
    then show ?thesis using stay Nil i assms(3) runs_ok(2) [OF assms(1,2)] by (simp add: schedule_def pick_next_def)
  next
    case False
    then have "i \<noteq> t" using i(3) by auto
    moreover from this have "schedule c a s = Inr (switch_to c t a i s)"
      unfolding switch_to_def ready_nil [OF Nil]
      using Nil i runs_ok(2) [OF assms(1,2)] by (auto simp: schedule_def pick_next_def Let_def)
    ultimately show ?thesis using go [of i] Nil i False by (simp add: turns_to_def)
  qed
next
  case (Cons n ts)
  note q = head_queued [OF Cons]
  have n: "n < length (s_tasks s)" "\<not> is_idle s n" using tasks_okD(2,3) [OF assms(1) queued_loc [OF q]] by simp_all
  have "n \<noteq> t"
  proof (cases "is_idle s t")
    case False
    then show ?thesis using busy_alone(1) [OF assms(1) runs_ok(1) [OF assms(1,2)] runs_ok(6) [OF assms(1,2)]] q by force
  qed (use n in auto)
  moreover from this have "schedule c a s = Inr (switch_to c t a n s)"
    using Cons runs_ok(2) [OF assms(1,2)] by (simp add: schedule_def pick_next_def switch_to_def Let_def)
  ultimately show ?thesis using go [of n] Cons n by (simp add: turns_to_def)
qed

lemma loc_switch:
  assumes "tasks_ok s" "runs s c t" "turns_to s c t n"
  shows "loc (switch_to c t a n s) = loc s"
proof -
  let ?r = "s\<lparr>s_ready_queue := tl (s_ready_queue s)\<rparr>" let ?u = "set_state n RUNNING ?r"
  note r = runs_ok [OF assms(1,2)]
  have "stored ?r" using tasks_ok_stored [OF assms(1)] by (simp add: stored_def)
  then have u: "loc ?u = loc ?r" unfolding set_state_def by (rule loc_upd_task) simp
  have w: "working ?u = working s" by (simp add: fun_eq_iff working_def)
  have "loc (switch_to c t a n s) + working s (cpu s c) = loc ?r + filter_mset (\<lambda>t. \<not> is_idle s t) {#n, t#}"
    using loc_upd_cpu [of c ?u] r(1) unfolding switch_to_def u w by (simp add: working_def on_cpu_def)
  moreover have "working s (cpu s c) = filter_mset (\<lambda>t. \<not> is_idle s t) {#t#}"
    using r(2,3) by (simp add: working_def on_cpu_def)
  moreover have "loc ?r + filter_mset (\<lambda>t. \<not> is_idle s t) {#n#} = loc s"
  proof (cases "s_ready_queue s")
    case Nil
    show ?thesis unfolding ready_nil [OF Nil] using assms(3) Nil by (simp add: turns_to_def)
  next
    case (Cons m ts)
    then have "\<not> is_idle s n" "loc ?r + mset (m # ts) = loc s + mset ts"
      using tasks_okD(3) [OF assms(1) queued_loc [OF head_queued [OF Cons]]] assms(3) loc_queues(1) [where s = s and r = ts]
      by (simp_all add: turns_to_def)
    then show ?thesis using assms(3) Cons by (simp add: turns_to_def)
  qed
  ultimately have "loc (switch_to c t a n s) + filter_mset (\<lambda>t. \<not> is_idle s t) {#t#} = loc s + filter_mset (\<lambda>t. \<not> is_idle s t) {#t#}"
    by (simp split: if_splits)
  then show ?thesis by simp
qed

lemma queued_switch: "set (queued (switch_to c t a n s)) \<subseteq> set (queued s)"
  by (cases "s_ready_queue s") (auto simp: queued_def switch_to_def)

lemma tasks_ok_switch:
  assumes "tasks_ok s" "runs s c t" "turns_to s c t n" "is_idle s t \<longrightarrow> a = TO_READY" "\<forall>q. a = TO_WAIT q \<longrightarrow> q < length (s_wqs s)"
  shows "tasks_ok (switch_to c t a n s)" (is "tasks_ok ?s")
proof -
  note r = runs_ok [OF assms(1,2)] and l = loc_switch [OF assms(1-3), of a]
  have n: "n < length (s_tasks s)" "n \<noteq> t" using assms(3) by (simp_all add: turns_to_def)
  have id: "is_idle ?s = is_idle s" by (simp add: fun_eq_iff switch_to_def)
  have st: "t_state (task_at ?s x) = (if x = n then RUNNING else t_state (task_at s x))"
    "t_root (task_at ?s x) = t_root (task_at s x)" "length (s_tasks ?s) = length (s_tasks s)" for x
    using n(1) by (simp_all add: switch_to_def)
  obtain i where i: "pc_idle (cpu s c) = Some i" "i < length (s_tasks s)" "is_idle s i" "is_idle s t \<longrightarrow> t = i" using r(5) by blast
  have wq: "s_wqs ?s = s_wqs s" "s_counts ?s = s_counts s" "s_next_id ?s = s_next_id s" by (simp_all add: switch_to_def)
  have "cpu_ok ?s (cpu ?s d)" if d: "d < length (s_cpus s)" for d
  proof (cases "d = c")
    case True
    have "is_idle s n \<longrightarrow> n = i"
      using assms(3) i tasks_okD(3) [OF assms(1) queued_loc [OF head_queued]] by (cases "s_ready_queue s") (auto simp: turns_to_def)
    moreover have "cpu ?s c = (cpu s c)\<lparr>pc_prev := Some (t, a), pc_slice := TIME_SLICE, pc_current := Some n, pc_root := t_root (task_at s n)\<rparr>"
      using r(1) by (simp add: switch_to_def)
    ultimately show ?thesis
      unfolding True cpu_ok_def id wq st using r(4) i n assms(4,5) by simp
  next
    case False
    then have "cpu ?s d = cpu s d" using r(1) by (simp add: switch_to_def)
    have ok: "cpu_ok s (cpu s d)" by (rule tasks_okD(5) [OF assms(1) d])
    have "t_state (task_at ?s x) = RUNNING" if "pc_current (cpu s d) = Some x" for x
      using ok that st(1) by (simp add: cpu_ok_def)
    then show ?thesis unfolding \<open>cpu ?s d = cpu s d\<close> by (intro cpu_ok_frame [OF ok]) (simp_all add: id wq st)
  qed
  moreover have "t_state (task_at ?s x) = v" if "(x, v) \<in> set (queued ?s)" for x v
  proof -
    have "x \<noteq> n"
    proof
      assume x: "x = n"
      have "n \<in># loc s" using that x queued_switch [of c t a n s] queued_loc by blast
      then have "\<not> is_idle s n" by (rule tasks_okD(3) [OF assms(1)])
      then have "0 < count (working ?s (cpu ?s c)) n" using r(1) unfolding working_def id by (simp add: switch_to_def on_cpu_def)
      moreover have "0 < count (mset (map fst (queued ?s))) n" using that x by (force simp: count_greater_zero_iff)
      moreover have "c < length (s_cpus ?s)" using r(1) by (simp add: switch_to_def)
      ultimately show False
        using working_le [of c ?s n, unfolded l] tasks_okD(1) [OF assms(1), of n] by linarith
    qed
    then show ?thesis using that queued_switch [of c t a n s] tasks_okD(4) [OF assms(1)] st(1) by auto
  qed
  moreover have "length (s_cpus ?s) = length (s_cpus s)" by (simp add: switch_to_def)
  ultimately show ?thesis using l id st(3) wq by (intro tasks_ok_step [OF assms(1)]) simp_all
qed

section \<open>The second half of a switch\<close>

lemma prev_ok:
  assumes "tasks_ok s" "c < length (s_cpus s)" "pc_prev (cpu s c) = Some (u, a)"
  obtains t where "pc_current (cpu s c) = Some t" "u < length (s_tasks s)" "u \<noteq> t" "\<not> is_idle s u \<Longrightarrow> u \<in># working s (cpu s c)"
    "is_idle s u \<Longrightarrow> a = TO_READY" "\<forall>q. a = TO_WAIT q \<longrightarrow> q < length (s_wqs s)"
proof -
  have ok: "cpu_ok s (cpu s c)" by (rule tasks_okD(5) [OF assms(1,2)])
  then obtain t where t: "pc_current (cpu s c) = Some t" using assms(3) by (auto simp: cpu_ok_def split: option.splits)
  have "u \<in># working s (cpu s c)" if "\<not> is_idle s u" using that assms(3) by (simp add: working_def on_cpu_def)
  then show thesis using that t ok assms(3) by (simp add: cpu_ok_def) blast
qed

lemma cpu_ok_done: "cpu_ok s p \<Longrightarrow> pc_current p \<noteq> None \<Longrightarrow> cpu_ok s (p\<lparr>pc_prev := None\<rparr>)"
  by (auto simp: cpu_ok_def)

text \<open>Moving the outgoing task from its processor to a queue.\<close>

lemma tasks_ok_park:
  assumes ok: "tasks_ok s" and c: "c < length (s_cpus s)" and pr: "pc_prev (cpu s c) = Some (u, a)" and nid: "\<not> is_idle s u"
    and s': "s_tasks s' = s_tasks (set_state u v s)" "s_cpus s' = (s_cpus s)[c := (cpu s c)\<lparr>pc_prev := None\<rparr>]"
      "s_next_id s' = s_next_id s" "s_counts s' = s_counts s" "length (s_wqs s') = length (s_wqs s)"
    and q: "mset (queued s') = add_mset (u, v) (mset (queued s))"
  shows "tasks_ok s' \<and> loc s' = loc s"
proof -
  obtain t where t: "pc_current (cpu s c) = Some t" "u < length (s_tasks s)" "u \<noteq> t" "u \<in># working s (cpu s c)"
    using prev_ok [OF ok c pr] nid by metis
  have id: "is_idle s' = is_idle s" using s'(1) set_state_simps(2) [of u v s] by (simp add: fun_eq_iff is_idle_def)
  have len: "length (s_tasks s') = length (s_tasks s)" using s'(1) by simp
  have w: "working s' = working s" by (simp add: fun_eq_iff working_def id)
  have "sum_list (map (working s) (s_cpus s')) + working s (cpu s c)
      = sum_list (map (working s) (s_cpus s)) + working s ((cpu s c)\<lparr>pc_prev := None\<rparr>)"
    unfolding s'(2) by (rule sum_list_update_ms [OF c])
  moreover have "working s (cpu s c) = add_mset u (working s ((cpu s c)\<lparr>pc_prev := None\<rparr>))"
    using pr nid by (simp add: working_def on_cpu_def)
  ultimately have "add_mset u (sum_list (map (working s) (s_cpus s'))) = sum_list (map (working s) (s_cpus s))"
    by (simp only: union_mset_add_mset_right union_mset_add_mset_left [symmetric] add_right_cancel)
  moreover have "mset (map fst (queued s')) = add_mset u (mset (map fst (queued s)))" using q by simp
  ultimately have l: "loc s' = loc s" unfolding loc_queued w by (metis union_mset_add_mset_left union_mset_add_mset_right)
  have st: "t_state (task_at s' x) = (if x = u then v else t_state (task_at s x))" for x
    using set_state_simps(5) [OF t(2), of v x] s'(1) by simp
  have "cpu_ok s' (cpu s' d)" if d: "d < length (s_cpus s')" for d
  proof -
    have ds: "d < length (s_cpus s)" using d s'(2) by simp
    define p where "p = cpu s' d"
    have ok': "cpu_ok s p"
      using tasks_okD(5) [OF ok ds] cpu_ok_done [of s "cpu s c"] t(1) ds c unfolding p_def s'(2) by (cases "d = c") auto
    have cur: "pc_current p = pc_current (cpu s d)" using ds c unfolding p_def s'(2) by (cases "d = c") auto
    have "x \<noteq> u" if "pc_current p = Some x" for x
    proof
      assume x: "x = u"
      then have "u \<in># working s (cpu s d)" using that cur nid by (simp add: working_def on_cpu_def)
      moreover have "d \<noteq> c" using that x cur t(1,3) by auto
      ultimately show False using busy_alone(2) [OF ok c t(4) ds] by blast
    qed
    then have "t_state (task_at s' x) = RUNNING" if "pc_current p = Some x" for x using ok' that st by (auto simp: cpu_ok_def)
    moreover have "t_root (task_at s' x) = t_root (task_at s x)" for x using s'(1) set_state_simps(3) [of u v s x] by simp
    ultimately show ?thesis unfolding p_def [symmetric] using len s'(5) id by (intro cpu_ok_frame [OF ok']) simp_all
  qed
  moreover have "t_state (task_at s' x) = y" if xy: "(x, y) \<in> set (queued s')" for x y
  proof (cases "(x, y) \<in> set (queued s)")
    case True
    then have "x \<noteq> u" using busy_alone(1) [OF ok c t(4)] by force
    then show ?thesis using st tasks_okD(4) [OF ok True] by simp
  next
    case False
    have "set (queued s') = insert (u, v) (set (queued s))" using q by (metis set_mset_add_mset_insert set_mset_mset)
    then show ?thesis using xy False st by simp
  qed
  ultimately have "tasks_ok s'" using s'(3-5) by (intro tasks_ok_step [OF ok l id len]) simp_all
  then show ?thesis using l by simp
qed

lemma wq_lists_push:
  assumes "q < length ws"
  shows "mset (concat (map wq_list (ws[q := (ws ! q)\<lparr>wq_list := wq_list (ws ! q) @ [u], wq_lock := b\<rparr>])))
    = add_mset u (mset (concat (map wq_list ws)))"
proof -
  let ?f = "\<lambda>w. mset (wq_list w)"
  have "sum_list (map ?f (ws[q := (ws ! q)\<lparr>wq_list := wq_list (ws ! q) @ [u], wq_lock := b\<rparr>])) + ?f (ws ! q)
      = add_mset u (sum_list (map ?f ws)) + ?f (ws ! q)"
    using sum_list_update_ms [OF assms, of ?f] by simp
  then show ?thesis by (simp add: mset_concat comp_def)
qed

lemma tasks_ok_finish:
  assumes "tasks_ok s" "c < length (s_cpus s)" "pc_prev (cpu s c) = Some (u, a)"
  shows "tasks_ok (finish_switch c s) \<and> loc (finish_switch c s) = loc s"
proof (cases "is_idle s u")
  case True
  then have a: "a = TO_READY" using prev_ok [OF assms] by metis
  obtain t where t: "pc_current (cpu s c) = Some t" using prev_ok [OF assms] by metis
  let ?s = "upd_cpu c (\<lambda>p. p\<lparr>pc_prev := None\<rparr>) s"
  have "working s (cpu s c) = working s ((cpu s c)\<lparr>pc_prev := None\<rparr>)" using assms(3) True by (simp add: working_def on_cpu_def)
  then have l: "loc ?s = loc s" using loc_upd_cpu [OF assms(2), of "\<lambda>p. p\<lparr>pc_prev := None\<rparr>"] by simp
  have "cpu_ok ?s (cpu ?s d)" if "d < length (s_cpus ?s)" for d
  proof -
    have "cpu_ok s (cpu ?s d)"
      using tasks_okD(5) [OF assms(1)] cpu_ok_done [OF tasks_okD(5) [OF assms(1,2)]] t assms(2) that by simp
    then show ?thesis by (rule cpu_ok_frame) (use \<open>cpu_ok s (cpu ?s d)\<close> in \<open>simp_all add: cpu_ok_def\<close>)
  qed
  moreover have "queued ?s = queued s" by (simp add: queued_def)
  ultimately have "tasks_ok ?s" using tasks_okD(4) [OF assms(1)] l by (intro tasks_ok_step [OF assms(1)]) simp_all
  then show ?thesis using assms(3) True a l by (simp add: finish_switch_def)
next
  case False
  have wq: "q < length (s_wqs s)" if "a = TO_WAIT q" for q using prev_ok [OF assms] that by metis
  show ?thesis
    by (rule tasks_ok_park [OF assms False, where v = "case a of TO_READY \<Rightarrow> READY | TO_SLEEP \<Rightarrow> SLEEPING | TO_ZOMBIE \<Rightarrow> EXITED | TO_WAIT _ \<Rightarrow> BLOCKED"];
        cases a; use False assms(3) wq in \<open>simp add: finish_switch_def Let_def queued_def wq_lists_push upd_wq_def upd_cpu_def
          set_state_def upd_task_def is_idle_def\<close>)
qed

lemma locks_finish:
  assumes "tasks_ok s" "locks_ok s" "c < length (s_cpus s)" "pc_prev (cpu s c) = Some (u, a)"
  shows "locks_ok (finish_switch c s)"
proof -
  let ?s = "finish_switch c s"
  have len: "length (s_wqs ?s) = length (s_wqs s)" and cp: "s_cpus ?s = (s_cpus s)[c := (cpu s c)\<lparr>pc_prev := None\<rparr>]"
    using assms(4) by (cases a; simp add: finish_switch_def Let_def upd_wq_def upd_cpu_def set_state_def upd_task_def)+
  have wq: "q < length (s_wqs s)" if "a = TO_WAIT q" for q using prev_ok [OF assms(1,3,4)] that by metis
  have b: "blocking q (cpu ?s d) \<longleftrightarrow> d \<noteq> c \<and> blocking q (cpu s d)" if "d < length (s_cpus s)" for q d
    using that assms(3) unfolding cp by (simp add: nth_list_update blocking_def)
  have l: "wq_lock (s_wqs ?s ! q) \<longleftrightarrow> a \<noteq> TO_WAIT q \<and> wq_lock (s_wqs s ! q)" if "q < length (s_wqs s)" for q
    using that assms(4) wq by (cases a) (auto simp: finish_switch_def Let_def upd_wq_def upd_cpu_def set_state_def upd_task_def nth_list_update)
  have bc: "blocking q (cpu s c) \<longleftrightarrow> a = TO_WAIT q" for q using assms(4) by (auto simp: blocking_def)
  have lk: "wq_lock (s_wqs s ! q) \<longleftrightarrow> (\<exists>c < length (s_cpus s). blocking q (cpu s c))" if "q < length (s_wqs s)" for q
    using assms(2) that by (simp add: locks_ok_def)
  have uq: "d = d'" if "d < length (s_cpus s)" "d' < length (s_cpus s)" "blocking q (cpu s d)" "blocking q (cpu s d')" for d d' q
    using assms(2) that by (simp add: locks_ok_def)
  have lc: "length (s_cpus ?s) = length (s_cpus s)" by (simp add: cp)
  show ?thesis
    unfolding locks_ok_def len lc
  proof (intro conjI allI impI, goal_cases)
    case (1 q)
    show ?case unfolding l [OF 1] lk [OF 1] using b bc [of q] uq [of c _ q] assms(3) by blast
  next
    case (2 d d' q)
    then show ?case using b uq by blast
  qed
qed

section \<open>Operations that switch\<close>

text \<open>What \<open>schedule\<close> relies on: the lock of the queue it parks a task on is taken.\<close>

definition locks_pre :: "action \<Rightarrow> sched \<Rightarrow> bool" where
  "locks_pre a s \<longleftrightarrow> (\<forall>q < length (s_wqs s). wq_lock (s_wqs s ! q) \<longleftrightarrow> a = TO_WAIT q \<or> (\<exists>c < length (s_cpus s). blocking q (cpu s c)))
     \<and> (\<forall>c c' q. c < length (s_cpus s) \<longrightarrow> c' < length (s_cpus s) \<longrightarrow> blocking q (cpu s c) \<longrightarrow> blocking q (cpu s c') \<longrightarrow> c = c')
     \<and> (\<forall>q. a = TO_WAIT q \<longrightarrow> q < length (s_wqs s) \<and> \<not> (\<exists>c < length (s_cpus s). blocking q (cpu s c)))"

lemma locks_pre_ok: "(\<And>q. a \<noteq> TO_WAIT q) \<Longrightarrow> locks_pre a s = locks_ok s"
  by (simp add: locks_pre_def locks_ok_def)

lemma locks_switch:
  assumes "locks_pre a s" "c < length (s_cpus s)" "pc_prev (cpu s c) = None"
  shows "locks_ok (switch_to c t a n s)"
proof -
  let ?s = "switch_to c t a n s"
  have w: "s_wqs ?s = s_wqs s" and lc: "length (s_cpus ?s) = length (s_cpus s)" by (simp_all add: switch_to_def)
  have b: "blocking q (cpu ?s d) \<longleftrightarrow> (if d = c then a = TO_WAIT q else blocking q (cpu s d))" if "d < length (s_cpus s)" for q d
    using that assms(2) by (auto simp: switch_to_def blocking_def)
  have nc: "\<not> blocking q (cpu s c)" for q using assms(3) by (simp add: blocking_def)
  show ?thesis
    unfolding locks_ok_def w lc
  proof (intro conjI allI impI, goal_cases)
    case (1 q)
    have "wq_lock (s_wqs s ! q) \<longleftrightarrow> a = TO_WAIT q \<or> (\<exists>c < length (s_cpus s). blocking q (cpu s c))"
      using assms(1) 1 by (simp add: locks_pre_def)
    then show ?case using b [of _ q] nc [of q] assms(2) by metis
  next
    case (2 d d' q)
    have u: "d = d'" if "blocking q (cpu s d)" "blocking q (cpu s d')" using assms(1) 2(1,2) that by (simp add: locks_pre_def)
    have x: "\<not> blocking q (cpu s e)" if "a = TO_WAIT q" "e < length (s_cpus s)" for e using assms(1) that by (auto simp: locks_pre_def)
    show ?case using 2 b u x by (metis (full_types))
  qed
qed

lemma schedule_sinv:
  assumes "tasks_ok s" "locks_pre a s" "runs s c t" "is_idle s t \<longrightarrow> a = TO_READY"
  shows "\<exists>s'. schedule c a s = Inr s' \<and> sinv s'"
  using assms(1,3,4)
proof (cases rule: schedule_cases)
  case stay
  then show ?thesis using assms(1,2) locks_pre_ok [of a s] by (simp add: sinv_def)
next
  case (go n)
  have "\<forall>q. a = TO_WAIT q \<longrightarrow> q < length (s_wqs s)" using assms(2) by (auto simp: locks_pre_def)
  from tasks_ok_switch [OF assms(1,3) go(2) assms(4) this] locks_switch [OF assms(2)] runs_ok [OF assms(1,3)] go(1)
  show ?thesis by (auto simp: sinv_def)
qed

lemma tasks_ok_upd_task:
  assumes "tasks_ok s" "\<And>k. t_id (f k) = t_id k \<and> t_state (f k) = t_state k \<and> t_root (f k) = t_root k"
  shows "tasks_ok (upd_task t f s)"
proof -
  let ?s = "upd_task t f s"
  have fld: "t_state (task_at ?s x) = t_state (task_at s x)" "t_root (task_at ?s x) = t_root (task_at s x)" "is_idle ?s x = is_idle s x" for x
    using assms(2) by (cases "t < length (s_tasks s)"; simp add: upd_task_def is_idle_def nth_list_update list_update_beyond)+
  have fr: "s_cpus ?s = s_cpus s" "s_wqs ?s = s_wqs s" "s_counts ?s = s_counts s" "s_next_id ?s = s_next_id s"
    "queued ?s = queued s" "length (s_tasks ?s) = length (s_tasks s)" by (simp_all add: upd_task_def queued_def)
  have "loc ?s = loc s" using assms(2) by (intro loc_upd_task tasks_ok_stored [OF assms(1)]) simp
  moreover have "cpu_ok ?s (cpu ?s c)" if "c < length (s_cpus ?s)" for c
  proof -
    have "cpu_ok s (cpu s c)" using that fr(1) tasks_okD(5) [OF assms(1)] by simp
    then show ?thesis unfolding fr(1) by (rule cpu_ok_frame) (use \<open>cpu_ok s (cpu s c)\<close> in \<open>simp_all add: fr fld cpu_ok_def\<close>)
  qed
  moreover have "is_idle ?s = is_idle s" using fld(3) by (simp add: fun_eq_iff)
  ultimately show ?thesis using tasks_okD(4) [OF assms(1)] fld fr by (intro tasks_ok_step [OF assms(1)]) simp_all
qed

section \<open>Operations that do not switch\<close>

definition same_cpus :: "sched \<Rightarrow> sched \<Rightarrow> bool" where
  "same_cpus s s' \<longleftrightarrow> length (s_cpus s') = length (s_cpus s)
     \<and> (\<forall>c < length (s_cpus s). pc_current (cpu s' c) = pc_current (cpu s c) \<and> pc_idle (cpu s' c) = pc_idle (cpu s c)
         \<and> pc_prev (cpu s' c) = pc_prev (cpu s c) \<and> pc_root (cpu s' c) = pc_root (cpu s c))"

lemma same_cpusI: "s_cpus s' = s_cpus s \<Longrightarrow> same_cpus s s'"
  by (simp add: same_cpus_def)

lemma same_cpus_slice: "c < length (s_cpus s) \<Longrightarrow> same_cpus s (upd_cpu c (\<lambda>p. p\<lparr>pc_slice := n\<rparr>) s)"
  by (simp add: same_cpus_def)

lemma tasks_ok_quiet:
  assumes ok: "tasks_ok s" and cp: "same_cpus s s'" and tk: "s_tasks s' = s_tasks s"
    and q: "mset (queued s') \<subseteq># mset (queued s)"
    and fr: "s_next_id s' = s_next_id s" "length (s_counts s') = length (s_counts s)" "length (s_wqs s') = length (s_wqs s)"
  shows "tasks_ok s'"
proof -
  have id: "is_idle s' = is_idle s" using tk by (simp add: fun_eq_iff is_idle_def)
  have "map (working s') (s_cpus s') = map (working s) (s_cpus s)"
    using cp by (intro nth_equalityI) (simp_all add: same_cpus_def working_def on_cpu_def id)
  moreover have "mset (map fst (queued s')) \<subseteq># mset (map fst (queued s))" using image_mset_subseteq_mono [OF q, of fst] by simp
  ultimately have l: "loc s' \<subseteq># loc s" unfolding loc_queued by simp
  have "cpu_ok s' (cpu s' c)" if "c < length (s_cpus s')" for c
  proof -
    have c: "c < length (s_cpus s)" and eq: "pc_current (cpu s' c) = pc_current (cpu s c)" "pc_idle (cpu s' c) = pc_idle (cpu s c)"
      "pc_prev (cpu s' c) = pc_prev (cpu s c)" "pc_root (cpu s' c) = pc_root (cpu s c)"
      using cp that by (simp_all add: same_cpus_def)
    show ?thesis using tasks_okD(5) [OF ok c] unfolding cpu_ok_def eq tk id fr(3) .
  qed
  moreover have "t_state (task_at s' t) = st" if "(t, st) \<in> set (queued s')" for t st
    using tasks_okD(4) [OF ok] mset_subset_eqD [OF q, of "(t, st)"] that tk by simp
  ultimately show ?thesis using tk fr by (intro tasks_ok_sub [OF ok l id]) simp_all
qed

lemma locks_ok_quiet:
  assumes "locks_ok s" "same_cpus s s'" "length (s_wqs s') = length (s_wqs s)"
    "\<And>q. q < length (s_wqs s) \<Longrightarrow> wq_lock (s_wqs s' ! q) = wq_lock (s_wqs s ! q)"
  shows "locks_ok s'"
proof -
  have "blocking q (cpu s' c) = blocking q (cpu s c)" if "c < length (s_cpus s)" for q c
    using assms(2) that by (simp add: same_cpus_def blocking_def)
  moreover have "length (s_cpus s') = length (s_cpus s)" using assms(2) by (simp add: same_cpus_def)
  ultimately show ?thesis using assms(1,3,4) unfolding locks_ok_def by (auto simp del: ex_simps)
qed

lemma make_ready_simps [simp]:
  "s_cpus (make_ready t s) = s_cpus s" "s_wqs (make_ready t s) = s_wqs s" "s_counts (make_ready t s) = s_counts s"
  "s_next_id (make_ready t s) = s_next_id s" "s_sleepers (make_ready t s) = s_sleepers s" "s_zombies (make_ready t s) = s_zombies s"
  "s_ready_queue (make_ready t s) = s_ready_queue s @ [t]" "length (s_tasks (make_ready t s)) = length (s_tasks s)"
  "is_idle (make_ready t s) x = is_idle s x" "s_sched_ready (make_ready t s) = s_sched_ready s" "s_ticks (make_ready t s) = s_ticks s"
  "t_sem (task_at (make_ready t s) x) = t_sem (task_at s x)" "t_root (task_at (make_ready t s) x) = t_root (task_at s x)"
  "t < length (s_tasks s) \<Longrightarrow> t_state (task_at (make_ready t s) x) = (if x = t then READY else t_state (task_at s x))"
  by (simp_all add: make_ready_def Let_def del: READY_def)

lemma queued_make_ready: "mset (queued (make_ready t s)) = add_mset (t, READY) (mset (queued s))"
  by (simp add: queued_def)

text \<open>A task that is nowhere becomes ready.\<close>

lemma tasks_ok_make_ready:
  assumes ok: "tasks_ok s" and t: "t < length (s_tasks s)" "\<not> is_idle s t" "t \<notin># loc s"
  shows "tasks_ok (make_ready t s)"
proof (rule tasks_okI)
  let ?s = "make_ready t s"
  note l = loc_make_ready [OF tasks_ok_stored [OF ok], of t]
  show "count (loc ?s) x \<le> 1" for x
    using tasks_okD(1) [OF ok, of x] t(3) unfolding l by (auto simp: not_in_iff)
  show "x < length (s_tasks ?s) \<and> \<not> is_idle ?s x" if "x \<in># loc ?s" for x
    using that t(1,2) tasks_okD(2,3) [OF ok, of x] unfolding l by auto
  show "t_state (task_at ?s x) = v" if "(x, v) \<in> set (queued ?s)" for x v
  proof -
    have "(x, v) \<in># add_mset (t, READY) (mset (queued s))" using that unfolding queued_make_ready [symmetric] by simp
    moreover have "x \<noteq> t" if "(x, v) \<in> set (queued s)" using queued_loc [OF that] t(3) by auto
    ultimately show ?thesis using tasks_okD(4) [OF ok, of x v] t(1) by (auto simp del: READY_def)
  qed
  show "cpu_ok ?s (cpu ?s c)" if c: "c < length (s_cpus ?s)" for c
  proof -
    have ok': "cpu_ok s (cpu s c)" using tasks_okD(5) [OF ok] c by simp
    have "x \<noteq> t" if x: "pc_current (cpu s c) = Some x" for x
    proof
      assume "x = t"
      then have "0 < count (working s (cpu s c)) t" using x t(2) by (simp add: working_def on_cpu_def)
      moreover have "count (loc s) t = 0" using t(3) by (simp add: not_in_iff)
      ultimately show False using working_le [of c s t] c unfolding make_ready_simps(1) by linarith
    qed
    then show ?thesis unfolding make_ready_simps(1) using ok' t(1)
      by (intro cpu_ok_frame [OF ok']) (auto simp: cpu_ok_def simp del: READY_def)
  qed
  show "0 < s_next_id ?s" "length (s_counts ?s) \<le> length (s_wqs ?s)" using tasks_okD(6,7) [OF ok] by simp_all
qed

lemma loc_fold_make_ready: "stored s \<Longrightarrow> loc (fold make_ready ts s) = mset ts + loc s"
proof (induction ts arbitrary: s)
  case (Cons t ts)
  have "stored (make_ready t s)" using Cons.prems by (simp add: stored_def)
  from Cons.IH [OF this] loc_make_ready [OF Cons.prems] show ?case by simp
qed simp

lemma fold_make_ready_frame:
  "s_cpus (fold make_ready ts s) = s_cpus s" "s_wqs (fold make_ready ts s) = s_wqs s" "s_counts (fold make_ready ts s) = s_counts s"
  "s_ready_queue (fold make_ready ts s) = s_ready_queue s @ ts" "t_sem (task_at (fold make_ready ts s) x) = t_sem (task_at s x)"
  "is_idle (fold make_ready ts s) x = is_idle s x"
  by (induction ts arbitrary: s) simp_all

lemma tasks_ok_fold_make_ready:
  "\<lbrakk>tasks_ok s; distinct ts; \<And>t. t \<in> set ts \<Longrightarrow> t < length (s_tasks s) \<and> \<not> is_idle s t \<and> t \<notin># loc s\<rbrakk> \<Longrightarrow> tasks_ok (fold make_ready ts s)"
proof (induction ts arbitrary: s)
  case (Cons t ts)
  have "tasks_ok (make_ready t s)" using Cons.prems(3) by (intro tasks_ok_make_ready [OF Cons.prems(1)]) simp_all
  moreover have "x < length (s_tasks (make_ready t s)) \<and> \<not> is_idle (make_ready t s) x \<and> x \<notin># loc (make_ready t s)" if "x \<in> set ts" for x
    using Cons.prems(2) Cons.prems(3) [of x] that unfolding loc_make_ready [OF tasks_ok_stored [OF Cons.prems(1)]] by auto
  ultimately have "tasks_ok (fold make_ready ts (make_ready t s))" using Cons.prems(2) by (intro Cons.IH) simp_all
  then show ?case by simp
qed simp

text \<open>Taking tasks out of a queue (\<open>s\<^sub>1\<close>) and making them ready.\<close>

lemma tasks_ok_requeue:
  assumes ok: "tasks_ok s" and cp: "same_cpus s s1" "s_tasks s1 = s_tasks s"
    and q: "mset (queued s) = mset (map (\<lambda>t. (t, st)) ts) + mset (queued s1)"
    and fr: "s_next_id s1 = s_next_id s" "length (s_counts s1) = length (s_counts s)" "length (s_wqs s1) = length (s_wqs s)"
  shows "tasks_ok (fold make_ready ts s1)" "loc (fold make_ready ts s1) = loc s"
proof -
  have ok1: "tasks_ok s1" using q by (intro tasks_ok_quiet [OF ok cp _ fr]) simp
  have id: "is_idle s1 = is_idle s" using cp(2) by (simp add: fun_eq_iff is_idle_def)
  have "map (working s1) (s_cpus s1) = map (working s) (s_cpus s)"
    using cp(1) by (intro nth_equalityI) (simp_all add: same_cpus_def working_def on_cpu_def id)
  moreover have "mset (map fst (queued s)) = mset ts + mset (map fst (queued s1))"
    using arg_cong [where f = "image_mset fst", OF q] by (simp add: multiset.map_comp comp_def)
  ultimately have l: "loc s = mset ts + loc s1" unfolding loc_queued by (simp add: ac_simps)
  have c: "count (mset ts) t + count (loc s1) t \<le> 1" for t using tasks_okD(1) [OF ok, of t] unfolding l by simp
  have "count (mset ts) t \<le> 1" for t using c [of t] by simp
  then have "distinct ts" by (metis distinct_count_atmost_1 le_antisym linorder_not_less count_greater_eq_one_iff count_mset_0_iff less_one)
  moreover have "t < length (s_tasks s1) \<and> \<not> is_idle s1 t \<and> t \<notin># loc s1" if "t \<in> set ts" for t
  proof -
    have "0 < count (mset ts) t" using that by simp
    then have "count (loc s1) t = 0" using c [of t] by linarith
    then show ?thesis using tasks_okD(2,3) [OF ok, of t] that cp(2) unfolding l id by (simp add: not_in_iff)
  qed
  ultimately show "tasks_ok (fold make_ready ts s1)" by (rule tasks_ok_fold_make_ready [OF ok1])
  show "loc (fold make_ready ts s1) = loc s" using loc_fold_make_ready [OF tasks_ok_stored [OF ok1]] l by simp
qed

section \<open>The timer\<close>

lemma mset_swap_remove:
  assumes "i < length xs"
  shows "mset xs = add_mset (xs ! i) (mset (swap_remove xs i))"
proof (cases xs rule: rev_cases)
  case (snoc ys y)
  show ?thesis
  proof (cases "i = length ys")
    case False
    then have "i < length ys" using assms snoc by simp
    then show ?thesis using False snoc by (simp add: swap_remove_def nth_append mset_update)
  qed (simp add: swap_remove_def snoc)
qed (use assms in simp)

definition quiet :: "sched \<Rightarrow> sched \<Rightarrow> bool" where
  "quiet s s' \<longleftrightarrow> s_cpus s' = s_cpus s \<and> s_wqs s' = s_wqs s \<and> s_counts s' = s_counts s \<and> s_sched_ready s' = s_sched_ready s
     \<and> (\<forall>x. t_sem (task_at s' x) = t_sem (task_at s x) \<and> is_idle s' x = is_idle s x)"

lemma wake_one_sleeper:
  assumes "tasks_ok s" "i < length (s_sleepers s)" "t = s_sleepers s ! i"
  defines "s' \<equiv> make_ready t (s\<lparr>s_sleepers := swap_remove (s_sleepers s) i\<rparr>)"
  shows "tasks_ok s'" "quiet s s'" "loc s' = loc s"
proof -
  let ?r = "s\<lparr>s_sleepers := swap_remove (s_sleepers s) i\<rparr>"
  have "mset (queued s) = mset (map (\<lambda>t. (t, SLEEPING)) [t]) + mset (queued ?r)"
    using mset_swap_remove [OF assms(2)] assms(3) by (simp add: queued_def)
  then have "tasks_ok (fold make_ready [t] ?r)" "loc (fold make_ready [t] ?r) = loc s"
    by (intro tasks_ok_requeue [OF assms(1) same_cpusI]; simp)+
  then show "tasks_ok s'" "loc s' = loc s" by (simp_all add: s'_def)
  show "quiet s s'" by (simp add: quiet_def s'_def)
qed

lemma quiet_trans: "quiet s s' \<Longrightarrow> quiet s' s'' \<Longrightarrow> quiet s s''"
  by (simp add: quiet_def)

lemma wake_sleepers_ok:
  "tasks_ok s \<Longrightarrow> tasks_ok (wake_sleepers now i s) \<and> quiet s (wake_sleepers now i s) \<and> loc (wake_sleepers now i s) = loc s"
proof (induction now i s rule: wake_sleepers.induct)
  case (1 now i s)
  let ?t = "s_sleepers s ! i"
  consider (wake) "i < length (s_sleepers s)" "t_wake_tick (task_at s ?t) \<le> now"
    | (skip) "i < length (s_sleepers s)" "\<not> t_wake_tick (task_at s ?t) \<le> now" | (fin) "\<not> i < length (s_sleepers s)" by blast
  then show ?case
  proof cases
    case wake
    note w = wake_one_sleeper [OF "1.prems" wake(1) refl]
    show ?thesis
      using "1.IH"(1) [OF wake(1) refl wake(2) w(1)] wake quiet_trans [OF w(2)] w(3) by (subst (1 2 3) wake_sleepers.simps) (simp add: Let_def)
  next
    case skip
    then show ?thesis using "1.IH"(2) [OF skip(1) refl skip(2) "1.prems"] by (subst (1 2 3) wake_sleepers.simps) (simp add: Let_def)
  next
    case fin
    then show ?thesis using "1.prems" by (subst (1 2 3) wake_sleepers.simps) (simp add: quiet_def)
  qed
qed

lemma sinv_quiet: "\<lbrakk>tasks_ok s'; locks_ok s; quiet s s'\<rbrakk> \<Longrightarrow> sinv s'"
  unfolding sinv_def by (auto intro!: locks_ok_quiet [of s s'] same_cpusI simp: quiet_def)

lemma sinv_slice:
  assumes "sinv s" "c < length (s_cpus s)"
  shows "sinv (upd_cpu c (\<lambda>p. p\<lparr>pc_slice := n\<rparr>) s)"
  using assms same_cpus_slice [OF assms(2), of n] unfolding sinv_def
  by (auto intro!: tasks_ok_quiet [of s] locks_ok_quiet [of s] simp: queued_def)

lemma runs_quiet: "quiet s s' \<Longrightarrow> runs s' c t = runs s c t"
  by (simp add: quiet_def runs_def)

lemma timer_tick_sinv:
  assumes "sinv s" "runs s c t"
  shows "sinv (timer_tick c s)" "runs (timer_tick c s) c t" "is_idle (timer_tick c s) = is_idle s"
proof -
  let ?w = "wake_sleepers (s_ticks s) 0 s"
  have ok: "tasks_ok s" "locks_ok s" using assms(1) by (simp_all add: sinv_def)
  have q: "tasks_ok ?w" "quiet s ?w" using wake_sleepers_ok [OF ok(1)] by simp_all
  have w: "sinv ?w" by (rule sinv_quiet [OF q(1) ok(2) q(2)])
  have r: "runs ?w c t" using runs_quiet [OF q(2)] assms(2) by simp
  then have c: "c < length (s_cpus ?w)" by (simp add: runs_def)
  have id: "is_idle ?w = is_idle s" using q(2) by (simp add: quiet_def fun_eq_iff)
  show "sinv (timer_tick c s)" using assms(1) w sinv_slice [OF w c] by (simp add: timer_tick_def Let_def)
  show "runs (timer_tick c s) c t" using assms(2) r by (simp add: timer_tick_def Let_def runs_def)
  show "is_idle (timer_tick c s) = is_idle s" using id by (simp add: timer_tick_def Let_def)
qed

lemma yield_now_sinv:
  assumes "sinv s" "runs s c t"
  shows "\<exists>s'. yield_now c s = Inr s' \<and> sinv s'"
proof -
  have "tasks_ok s" "locks_pre TO_READY s" using assms(1) locks_pre_ok [of TO_READY s] by (simp_all add: sinv_def)
  from schedule_sinv [OF this assms(2)] show ?thesis by (simp add: yield_now_def)
qed

lemma preempt_sinv:
  assumes "sinv s" "runs s c t"
  shows "\<exists>s'. preempt c s = Inr s' \<and> sinv s'"
proof -
  have c: "c < length (s_cpus s)" using assms(2) by (simp add: runs_def)
  have "runs (upd_cpu c (\<lambda>p. p\<lparr>pc_slice := TIME_SLICE\<rparr>) s) c t" using assms(2) c by (simp add: runs_def)
  from yield_now_sinv [OF sinv_slice [OF assms(1) c] this] assms(1) show ?thesis by (simp add: preempt_def)
qed

lemma reap_sinv:
  assumes "sinv s"
  shows "sinv (reap s)"
  using assms unfolding sinv_def reap_def
  by (auto intro!: tasks_ok_quiet [of s] locks_ok_quiet [of s] same_cpusI simp: queued_def)

section \<open>Blocking and waking\<close>

lemma upd_wq_simps [simp]:
  "s_tasks (upd_wq q f s) = s_tasks s" "s_cpus (upd_wq q f s) = s_cpus s" "s_ready_queue (upd_wq q f s) = s_ready_queue s"
  "s_sleepers (upd_wq q f s) = s_sleepers s" "s_zombies (upd_wq q f s) = s_zombies s" "s_counts (upd_wq q f s) = s_counts s"
  "s_next_id (upd_wq q f s) = s_next_id s" "length (s_wqs (upd_wq q f s)) = length (s_wqs s)"
  "q < length (s_wqs s) \<Longrightarrow> s_wqs (upd_wq q f s) ! x = (if x = q then f (s_wqs s ! q) else s_wqs s ! x)"
  by (simp_all add: upd_wq_def nth_list_update)

lemma queued_upd_wq:
  assumes "q < length (s_wqs s)"
  shows "mset (queued (upd_wq q f s)) + mset (map (\<lambda>t. (t, BLOCKED)) (wq_list (s_wqs s ! q)))
    = mset (queued s) + mset (map (\<lambda>t. (t, BLOCKED)) (wq_list (f (s_wqs s ! q))))"
proof -
  let ?f = "\<lambda>w. mset (map (\<lambda>t. (t, BLOCKED)) (wq_list w))"
  have k: "mset (queued s) = mset (queued (s\<lparr>s_wqs := []\<rparr>)) + sum_list (map ?f (s_wqs s))" for s
    by (simp add: queued_def mset_concat map_concat comp_def ac_simps)
  have e: "queued ((upd_wq q f s)\<lparr>s_wqs := []\<rparr>) = queued (s\<lparr>s_wqs := []\<rparr>)" by (simp add: queued_def)
  have "sum_list (map ?f (s_wqs (upd_wq q f s))) + ?f (s_wqs s ! q) = sum_list (map ?f (s_wqs s)) + ?f (f (s_wqs s ! q))"
    unfolding upd_wq_def sched.simps using sum_list_update_ms [OF assms, of ?f "f (s_wqs s ! q)"] by simp
  then show ?thesis unfolding k [of "upd_wq q f s"] k [of s] e by (simp only: add.assoc)
qed

lemma queued_upd_lock: "(\<And>w. wq_list (f w) = wq_list w) \<Longrightarrow> mset (queued (upd_wq q f s)) = mset (queued s)"
  using queued_upd_wq [of q s f] by (cases "q < length (s_wqs s)") (simp_all add: upd_wq_def list_update_beyond)

lemma raw_lock_sinv:
  assumes "sinv s" "raw_lock q s = Some s'" "q < length (s_wqs s)"
  shows "tasks_ok s'" "locks_pre (TO_WAIT q) s'" "s' = upd_wq q (\<lambda>w. w\<lparr>wq_lock := True\<rparr>) s" "\<not> wq_lock (s_wqs s ! q)"
proof -
  show s': "s' = upd_wq q (\<lambda>w. w\<lparr>wq_lock := True\<rparr>) s" "\<not> wq_lock (s_wqs s ! q)" using assms(2) by (auto simp: raw_lock_def split: if_splits)
  have ok: "tasks_ok s" "locks_ok s" using assms(1) by (simp_all add: sinv_def)
  have "mset (queued s') = mset (queued s)" unfolding s' by (rule queued_upd_lock) simp
  then show "tasks_ok s'" by (intro tasks_ok_quiet [OF ok(1) same_cpusI]) (simp_all add: s'(1))
  show "locks_pre (TO_WAIT q) s'" using ok(2) s'(2) assms(3) unfolding locks_pre_def locks_ok_def s'(1) by auto
qed

lemma runs_frame: "\<lbrakk>s_cpus s' = s_cpus s; runs s c t\<rbrakk> \<Longrightarrow> runs s' c t"
  by (simp add: runs_def)

lemma block_locked_sinv:
  assumes "tasks_ok s" "locks_pre (TO_WAIT q) s" "runs s c t" "\<not> is_idle s t"
  shows "\<exists>s'. block_locked c q s = Inr s' \<and> sinv s'"
  using schedule_sinv [OF assms(1-3)] assms(4) by (simp add: block_locked_def)

text \<open>Releasing a lock that the operation itself took.\<close>

lemma unlock_sinv:
  assumes "locks_ok s" "q < length (s_wqs s)" "\<not> wq_lock (s_wqs s ! q)" "tasks_ok s'" "s_cpus s' = s_cpus s"
    and "length (s_wqs s') = length (s_wqs s)" "\<not> wq_lock (s_wqs s' ! q)"
    and "\<And>x. x < length (s_wqs s) \<Longrightarrow> x \<noteq> q \<Longrightarrow> s_wqs s' ! x = s_wqs s ! x"
  shows "sinv s'"
proof -
  have "wq_lock (s_wqs s' ! x) = wq_lock (s_wqs s ! x)" if "x < length (s_wqs s)" for x
    using assms(3,7,8) that by (cases "x = q") simp_all
  then have "locks_ok s'" using assms(6) by (intro locks_ok_quiet [OF assms(1) same_cpusI [OF assms(5)]]) simp_all
  then show ?thesis using assms(4) by (simp add: sinv_def)
qed

lemma wq_wait_sinv:
  assumes "sinv s" "runs s c t" "\<not> is_idle s t" "q < length (s_wqs s)" "wq_wait c q s = Some r"
  shows "\<exists>s'. r = Inr s' \<and> sinv s'"
proof -
  obtain s1 where s1: "raw_lock q s = Some s1" "r = block_locked c q s1" using assms(5) by (auto simp: wq_wait_def)
  note l = raw_lock_sinv [OF assms(1) s1(1) assms(4)]
  have "runs s1 c t" "\<not> is_idle s1 t" using assms(2,3) unfolding l(3) by (simp_all add: runs_def)
  from block_locked_sinv [OF l(1,2) this] s1(2) show ?thesis by simp
qed

lemma wq_wait_if_sinv:
  assumes "sinv s" "runs s c t" "\<not> is_idle s t" "q < length (s_wqs s)" "wq_wait_if c q p s = Some r"
  shows "\<exists>s'. r = Inr s' \<and> sinv s'"
proof -
  obtain s1 where s1: "raw_lock q s = Some s1" "r = (if \<not> p s1 then Inr (raw_unlock q s1) else block_locked c q s1)"
    using assms(5) by (auto simp: wq_wait_if_def)
  note l = raw_lock_sinv [OF assms(1) s1(1) assms(4)]
  show ?thesis
  proof (cases "p s1")
    case True
    have "runs s1 c t" "\<not> is_idle s1 t" using assms(2,3) unfolding l(3) by (simp_all add: runs_def)
    from block_locked_sinv [OF l(1,2) this] s1(2) True show ?thesis by simp
  next
    case False
    have "mset (queued (raw_unlock q s1)) = mset (queued s1)" unfolding raw_unlock_def by (rule queued_upd_lock) simp
    then have "tasks_ok (raw_unlock q s1)" by (intro tasks_ok_quiet [OF l(1) same_cpusI]) (simp_all add: raw_unlock_def)
    then have "sinv (raw_unlock q s1)"
      using assms(1,4) by (intro unlock_sinv [of s q, OF _ assms(4) l(4)]) (simp_all add: sinv_def l(3) raw_unlock_def)
    then show ?thesis using s1(2) False by simp
  qed
qed

text \<open>
  The common shape of the operations that wake: under the lock the first \<open>ts\<close> of the \<open>ts @ us\<close>
  waiters are taken out, the lock is released and they are made ready.
\<close>

definition take_waiters :: "nat \<Rightarrow> nat list \<Rightarrow> int list \<Rightarrow> sched \<Rightarrow> sched" where
  "take_waiters q us k s = s\<lparr>s_wqs := (s_wqs s)[q := \<lparr>wq_lock = False, wq_list = us\<rparr>], s_counts := k\<rparr>"

lemma wake_sinv:
  assumes "sinv s" "q < length (s_wqs s)" "\<not> wq_lock (s_wqs s ! q)" "wq_list (s_wqs s ! q) = ts @ us" "length k = length (s_counts s)"
  shows "sinv (fold make_ready ts (take_waiters q us k s))" "loc (fold make_ready ts (take_waiters q us k s)) = loc s"
proof -
  let ?s = "take_waiters q us k s"
  have ok: "tasks_ok s" "locks_ok s" using assms(1) by (simp_all add: sinv_def)
  have u: "queued ?s = queued (upd_wq q (\<lambda>w. \<lparr>wq_lock = False, wq_list = us\<rparr>) s)" by (simp add: queued_def take_waiters_def upd_wq_def)
  have "mset (queued s) = mset (map (\<lambda>t. (t, BLOCKED)) ts) + mset (queued ?s)"
    using queued_upd_wq [OF assms(2), of "\<lambda>w. \<lparr>wq_lock = False, wq_list = us\<rparr>"] unfolding u assms(4) by (simp add: ac_simps)
  then have t: "tasks_ok (fold make_ready ts ?s)" "loc (fold make_ready ts ?s) = loc s"
    using assms(5) by (intro tasks_ok_requeue [OF ok(1) same_cpusI]; simp add: take_waiters_def)+
  then show "sinv (fold make_ready ts ?s)" using assms(2) by (intro unlock_sinv [OF ok(2) assms(2,3)]) (simp_all add: fold_make_ready_frame take_waiters_def)
  show "loc (fold make_ready ts ?s) = loc s" by (rule t(2))
qed

lemma upd_wq_twice: "q < length (s_wqs s) \<Longrightarrow> upd_wq q f (upd_wq q g s) = upd_wq q (\<lambda>w. f (g w)) s"
  by (simp add: upd_wq_def)

lemma upd_wq_id: "f (s_wqs s ! q) = s_wqs s ! q \<Longrightarrow> upd_wq q f s = s"
  by (simp add: upd_wq_def)

lemma take_waiters_upd: "take_waiters q us k s = (upd_wq q (\<lambda>w. w\<lparr>wq_list := us, wq_lock := False\<rparr>) s)\<lparr>s_counts := k\<rparr>"
  by (cases "s_wqs s ! q") (simp add: take_waiters_def upd_wq_def)

lemma pop_under_lock:
  fixes s :: sched and k :: "int list"
  assumes "q < length (s_wqs s)" "wq_list (s_wqs s ! q) = ws"
  defines "l \<equiv> (upd_wq q (\<lambda>w. w\<lparr>wq_lock := True\<rparr>) s)\<lparr>s_counts := k\<rparr>"
  shows "wake_popped (fst (pop_waiter q l), raw_unlock q (snd (pop_waiter q l))) = fold make_ready (take 1 ws) (take_waiters q (drop 1 ws) k s)"
proof -
  have q: "q < length (s_wqs l)" and w: "wq_list (s_wqs l ! q) = ws" using assms(1,2) by (simp_all add: l_def)
  have k: "upd_wq q f (s\<lparr>s_counts := k\<rparr>) = (upd_wq q f s)\<lparr>s_counts := k\<rparr>" for f by (simp add: upd_wq_def)
  have l: "l = upd_wq q (\<lambda>w. w\<lparr>wq_lock := True\<rparr>) (s\<lparr>s_counts := k\<rparr>)" by (simp add: l_def k)
  have q': "q < length (s_wqs (s\<lparr>s_counts := k\<rparr>))" using assms(1) by simp
  have un: "raw_unlock q (upd_wq q (\<lambda>w. w\<lparr>wq_list := ts\<rparr>) l) = take_waiters q ts k s" for ts
    unfolding raw_unlock_def l take_waiters_upd k [symmetric] upd_wq_twice [OF q'] by simp
  show ?thesis
  proof (cases ws)
    case Nil
    have "upd_wq q (\<lambda>w. w\<lparr>wq_list := []\<rparr>) l = l" using w Nil by (intro upd_wq_id) (cases "s_wqs l ! q", simp)
    then have "raw_unlock q l = take_waiters q [] k s" using un [of "[]"] by simp
    then show ?thesis using w Nil by (simp add: pop_waiter_def wake_popped_def)
  next
    case (Cons t ts)
    then show ?thesis using w un [of ts] by (simp add: pop_waiter_def wake_popped_def)
  qed
qed

lemma wake_shapes:
  assumes "q < length (s_wqs s)"
  shows "wq_wake_one q s = Some (b, s') \<Longrightarrow> \<not> wq_lock (s_wqs s ! q)
      \<and> s' = fold make_ready (take 1 (wq_list (s_wqs s ! q))) (take_waiters q (drop 1 (wq_list (s_wqs s ! q))) (s_counts s) s)"
    "wq_wake_all q s = Some (n, s') \<Longrightarrow> \<not> wq_lock (s_wqs s ! q)
      \<and> s' = fold make_ready (wq_list (s_wqs s ! q)) (take_waiters q [] (s_counts s) s)"
    "sem_post q s = Some s' \<Longrightarrow> \<not> wq_lock (s_wqs s ! q)
      \<and> s' = fold make_ready (take 1 (wq_list (s_wqs s ! q)))
           (take_waiters q (drop 1 (wq_list (s_wqs s ! q))) ((s_counts s)[q := s_counts s ! q + 1]) s)"
proof -
  let ?l = "upd_wq q (\<lambda>w. w\<lparr>wq_lock := True\<rparr>) s"
  have c: "?l\<lparr>s_counts := s_counts s\<rparr> = ?l" by (cases s) (simp add: upd_wq_def)
  have lk: "raw_lock q s = (if wq_lock (s_wqs s ! q) then None else Some ?l)" by (simp add: raw_lock_def)
  show "\<not> wq_lock (s_wqs s ! q)
      \<and> s' = fold make_ready (take 1 (wq_list (s_wqs s ! q))) (take_waiters q (drop 1 (wq_list (s_wqs s ! q))) (s_counts s) s)"
    if "wq_wake_one q s = Some (b, s')"
    using that pop_under_lock [OF assms refl, of "s_counts s", unfolded c]
    by (auto simp: wq_wake_one_def lk split_beta Let_def split: if_splits)
  show "\<not> wq_lock (s_wqs s ! q) \<and> s' = fold make_ready (wq_list (s_wqs s ! q)) (take_waiters q [] (s_counts s) s)"
    if "wq_wake_all q s = Some (n, s')"
  proof -
    have "raw_unlock q (upd_wq q (\<lambda>w. w\<lparr>wq_list := []\<rparr>) ?l) = take_waiters q [] (s_counts s) s"
      using assms c unfolding raw_unlock_def take_waiters_upd by (simp add: upd_wq_twice upd_wq_def)
    then show ?thesis using that assms by (auto simp: wq_wake_all_def lk Let_def split: if_splits)
  qed
  show "\<not> wq_lock (s_wqs s ! q) \<and> s' = fold make_ready (take 1 (wq_list (s_wqs s ! q)))
           (take_waiters q (drop 1 (wq_list (s_wqs s ! q))) ((s_counts s)[q := s_counts s ! q + 1]) s)"
    if "sem_post q s = Some s'"
    using that pop_under_lock [OF assms refl, of "(s_counts s)[q := s_counts s ! q + 1]"]
    by (auto simp: sem_post_def lk split_beta Let_def split: if_splits)
qed

lemma wake_ops_sinv:
  assumes "sinv s" "q < length (s_wqs s)"
  shows "wq_wake_one q s = Some (b, s') \<Longrightarrow> sinv s' \<and> loc s' = loc s" "wq_wake_all q s = Some (n, s') \<Longrightarrow> sinv s' \<and> loc s' = loc s"
    "sem_post q s = Some s' \<Longrightarrow> sinv s' \<and> loc s' = loc s"
  using wake_shapes [OF assms(2), where s' = s'] wake_sinv [OF assms(1,2)] by auto

lemma upd_task_simps [simp]:
  "s_cpus (upd_task t f s) = s_cpus s" "s_wqs (upd_task t f s) = s_wqs s" "s_counts (upd_task t f s) = s_counts s"
  "s_ready_queue (upd_task t f s) = s_ready_queue s" "queued (upd_task t f s) = queued s"
  by (simp_all add: upd_task_def queued_def)

lemma is_idle_upd_task: "(\<And>k. t_id (f k) = t_id k) \<Longrightarrow> is_idle (upd_task t f s) x = is_idle s x"
  by (cases "t < length (s_tasks s)") (simp_all add: is_idle_def upd_task_def nth_list_update list_update_beyond)

lemma sem_wait_round_cases:
  assumes "runs s c t" "sem_wait_round c q s = Some r"
  defines "l \<equiv> upd_wq q (\<lambda>w. w\<lparr>wq_lock := True\<rparr>) s"
  obtains (took) "s_counts s ! q > 0" "\<not> wq_lock (s_wqs s ! q)"
      "r = Inr (raw_unlock q (upd_task t (\<lambda>k. k\<lparr>t_sem := None\<rparr>) (l\<lparr>s_counts := (s_counts s)[q := s_counts s ! q - 1]\<rparr>)))"
    | (blocked) "s_counts s ! q \<le> 0" "\<not> wq_lock (s_wqs s ! q)" "r = block_locked c q (upd_task t (\<lambda>k. k\<lparr>t_sem := Some q\<rparr>) l)"
proof -
  have c: "current c l = Inr t" using assms(1) by (simp add: current_def runs_def l_def)
  have k: "s_counts l = s_counts s" by (simp add: l_def)
  have "sem_wait_round c q s = (if wq_lock (s_wqs s ! q) then None else Some (
    if s_counts s ! q > 0 then Inr (raw_unlock q (upd_task t (\<lambda>k. k\<lparr>t_sem := None\<rparr>) (l\<lparr>s_counts := (s_counts s)[q := s_counts s ! q - 1]\<rparr>)))
    else block_locked c q (upd_task t (\<lambda>k. k\<lparr>t_sem := Some q\<rparr>) l)))"
    using c k by (simp add: sem_wait_round_def raw_lock_def l_def [symmetric])
  then show thesis using assms(2) took blocked by (simp split: if_splits)
qed

lemma sem_wait_sinv:
  assumes "sinv s" "runs s c t" "\<not> is_idle s t" "q < length (s_wqs s)" "sem_wait_round c q s = Some r"
  shows "\<exists>s'. r = Inr s' \<and> sinv s'"
  using assms(2,5)
proof (cases rule: sem_wait_round_cases)
  case took
  let ?l = "upd_wq q (\<lambda>w. w\<lparr>wq_lock := True\<rparr>) s"
  let ?m = "?l\<lparr>s_counts := (s_counts s)[q := s_counts s ! q - 1]\<rparr>"
  let ?u = "upd_task t (\<lambda>k. k\<lparr>t_sem := None\<rparr>) ?m"
  have "tasks_ok ?l" using raw_lock_sinv(1) [OF assms(1) _ assms(4), of ?l] took(2) by (simp add: raw_lock_def)
  then have "tasks_ok ?m" by (rule tasks_ok_quiet [OF _ same_cpusI]) (simp_all add: queued_def)
  then have u: "tasks_ok ?u" by (rule tasks_ok_upd_task) simp
  have "mset (queued (raw_unlock q ?u)) = mset (queued ?u)" unfolding raw_unlock_def by (rule queued_upd_lock) simp
  then have "tasks_ok (raw_unlock q ?u)" by (intro tasks_ok_quiet [OF u same_cpusI]) (simp_all add: raw_unlock_def)
  then have "sinv (raw_unlock q ?u)"
    using assms(1,4) by (intro unlock_sinv [OF _ assms(4) took(2)]) (simp_all add: sinv_def raw_unlock_def)
  then show ?thesis using took(3) by simp
next
  case blocked
  let ?l = "upd_wq q (\<lambda>w. w\<lparr>wq_lock := True\<rparr>) s"
  let ?u = "upd_task t (\<lambda>k. k\<lparr>t_sem := Some q\<rparr>) ?l"
  have l: "tasks_ok ?l" "locks_pre (TO_WAIT q) ?l" using raw_lock_sinv(1,2) [OF assms(1) _ assms(4), of ?l] blocked(2) by (simp_all add: raw_lock_def)
  have "tasks_ok ?u" by (rule tasks_ok_upd_task [OF l(1)]) simp
  moreover have "locks_pre (TO_WAIT q) ?u" using l(2) by (simp only: locks_pre_def upd_task_simps)
  moreover have "runs ?u c t" using assms(2) by (simp add: runs_def)
  moreover have "\<not> is_idle ?u t" using assms(3) by (simp add: is_idle_upd_task)
  ultimately show ?thesis using block_locked_sinv [of ?u q c t] blocked(3) by simp
qed

section \<open>Initialisation and new tasks\<close>

lemma tasks_ok_grow:
  assumes ok: "tasks_ok s" and s': "s_tasks s' = s_tasks s @ [k]" "0 < s_next_id s'" "s_counts s' = s_counts s" "length (s_wqs s') = length (s_wqs s)"
    and q: "\<And>t st. (t, st) \<in> set (queued s') \<Longrightarrow> (t, st) \<in> set (queued s) \<or> t = length (s_tasks s) \<and> st = t_state k"
    and cp: "\<And>c. c < length (s_cpus s') \<Longrightarrow> c < length (s_cpus s) \<and> cpu s' c = cpu s c \<or> cpu_ok s' (cpu s' c)"
    and l: "loc s' = loc s \<or> t_id k \<noteq> 0 \<and> loc s' = add_mset (length (s_tasks s)) (loc s)"
  shows "tasks_ok s'"
proof (rule tasks_okI)
  have old: "task_at s' t = task_at s t" "is_idle s' t = is_idle s t" if "t < length (s_tasks s)" for t
    using that by (simp_all add: s'(1) nth_append is_idle_def)
  have new: "task_at s' (length (s_tasks s)) = k" by (simp add: s'(1))
  have fresh: "length (s_tasks s) \<notin># loc s" using tasks_okD(2) [OF ok] by blast
  show "count (loc s') t \<le> 1" for t using l tasks_okD(1) [OF ok, of t] fresh by (auto simp: not_in_iff)
  show "t < length (s_tasks s') \<and> \<not> is_idle s' t" if "t \<in># loc s'" for t
  proof (cases "t = length (s_tasks s)")
    case True
    then have "t_id k \<noteq> 0" using l that fresh by auto
    then show ?thesis using True new s'(1) by (simp add: is_idle_def)
  next
    case False
    then have "t \<in># loc s" using l that by auto
    then show ?thesis using tasks_okD(2,3) [OF ok] old(2) s'(1) by (auto simp: less_SucI)
  qed
  show "t_state (task_at s' t) = st" if "(t, st) \<in> set (queued s')" for t st
    using q [OF that] tasks_okD(4) [OF ok] tasks_okD(2) [OF ok queued_loc] old new by metis
  show "cpu_ok s' (cpu s' c)" if "c < length (s_cpus s')" for c
    using cp [OF that]
  proof
    assume c: "c < length (s_cpus s) \<and> cpu s' c = cpu s c"
    then have ok': "cpu_ok s (cpu s c)" using tasks_okD(5) [OF ok] by simp
    have "t_state (task_at s' t) = RUNNING" if "pc_current (cpu s c) = Some t" for t using ok' that old by (simp add: cpu_ok_def)
    then show ?thesis unfolding conjunct2 [OF c] using s' old by (intro cpu_ok_frame [OF ok']) simp_all
  qed
  show "length (s_counts s') \<le> length (s_wqs s')" using tasks_okD(7) [OF ok] s'(3,4) by simp
qed (rule s'(2))

lemma working_grow:
  assumes "stored s" "s_tasks s' = s_tasks s @ [k]"
  shows "p \<in> set (s_cpus s) \<Longrightarrow> working s' p = working s p"
proof -
  assume "p \<in> set (s_cpus s)"
  then have "is_idle s' t = is_idle s t" if "t \<in># on_cpu p" for t
    using assms that by (simp add: stored_def is_idle_def nth_append)
  then show ?thesis unfolding working_def by (intro filter_mset_cong) auto
qed

lemma init_this_cpu_sinv:
  assumes "sinv s" "c < length (s_cpus s)" "pc_current (cpu s c) = None"
  shows "sinv (init_this_cpu c s) \<and> loc (init_this_cpu c s) = loc s"
proof -
  have ok: "tasks_ok s" "locks_ok s" using assms(1) by (simp_all add: sinv_def)
  define k where "k = \<lparr>t_id = 0, t_state = RUNNING, t_wake_tick = 0, t_user_context = 0, t_root = pc_root (cpu s c), t_sem = None\<rparr>"
  define p where "p = (cpu s c)\<lparr>pc_idle := Some (length (s_tasks s)), pc_current := Some (length (s_tasks s))\<rparr>"
  define s' where "s' = s\<lparr>s_tasks := s_tasks s @ [k], s_cpus := (s_cpus s)[c := p]\<rparr>"
  have i: "init_this_cpu c s = s'" by (simp add: init_this_cpu_def task_idle_def upd_cpu_def k_def p_def s'_def)
  have tk: "s_tasks s' = s_tasks s @ [k]" and cs: "s_cpus s' = (s_cpus s)[c := p]" and qu: "queued s' = queued s"
    by (simp_all add: s'_def queued_def)
  have pn: "pc_prev (cpu s c) = None" using tasks_okD(5) [OF ok(1) assms(2)] assms(3) by (simp add: cpu_ok_def)
  have idl: "is_idle s' (length (s_tasks s))" by (simp add: is_idle_def tk k_def)
  have "sum_list (map (working s') (s_cpus s')) + working s' (cpu s c) = sum_list (map (working s') (s_cpus s)) + working s' p"
    unfolding cs by (rule sum_list_update_ms [OF assms(2)])
  moreover have "working s' (cpu s c) = {#}" "working s' p = {#}" using assms(3) pn idl by (simp_all add: working_def on_cpu_def p_def)
  moreover have "map (working s') (s_cpus s) = map (working s) (s_cpus s)"
    using working_grow [OF tasks_ok_stored [OF ok(1)] tk] by simp
  ultimately have l: "loc s' = loc s" by (simp add: loc_queued qu)
  have "cpu_ok s' p" using idl pn by (simp add: cpu_ok_def p_def tk k_def)
  then have cp: "c' < length (s_cpus s) \<and> cpu s' c' = cpu s c' \<or> cpu_ok s' (cpu s' c')" if "c' < length (s_cpus s')" for c'
    using that assms(2) by (cases "c' = c") (simp_all add: cs)
  have "tasks_ok s'"
    using tasks_okD(6) [OF ok(1)] by (intro tasks_ok_grow [OF ok(1) tk _ _ _ _ cp]) (simp_all add: l qu, simp_all add: s'_def)
  moreover have "locks_ok s'"
  proof -
    have "blocking q (cpu s' d) = blocking q (cpu s d)" for q d
      using assms(2) pn by (cases "d = c") (simp_all add: cs blocking_def p_def)
    then show ?thesis using ok(2) by (simp add: locks_ok_def cs) (simp add: s'_def)
  qed
  ultimately show ?thesis using l by (simp add: i sinv_def)
qed

lemma spawn_sinv:
  fixes s :: sched and c :: nat and root :: usize
  assumes "sinv s" "s_next_id s + 1 < USIZE_LIM"
  defines "s' \<equiv> snd (spawn_configured c root (\<lambda>_ s. s) s)"
  shows "sinv s' \<and> loc s' = add_mset (length (s_tasks s)) (loc s)"
proof -
  have ok: "tasks_ok s" "locks_ok s" using assms(1) by (simp_all add: sinv_def)
  define k where "k = \<lparr>t_id = s_next_id s, t_state = READY, t_wake_tick = 0, t_user_context = 0, t_root = root, t_sem = None\<rparr>"
  have e: "s' = s\<lparr>s_tasks := s_tasks s @ [k], s_next_id := s_next_id s + 1, s_ready_queue := s_ready_queue s @ [length (s_tasks s)]\<rparr>"
    using assms(2) by (simp add: spawn_configured_def task_new_def set_address_space_root_def upd_task_def Let_def k_def s'_def usize_add_def)
  have tk: "s_tasks s' = s_tasks s @ [k]" and fr: "s_cpus s' = s_cpus s" "s_wqs s' = s_wqs s" "s_counts s' = s_counts s" "s_next_id s' = s_next_id s + 1"
    by (simp_all add: e)
  have q: "mset (queued s') = add_mset (length (s_tasks s), READY) (mset (queued s))" by (simp add: queued_def e)
  have "map (working s') (s_cpus s) = map (working s) (s_cpus s)" using working_grow [OF tasks_ok_stored [OF ok(1)] tk] by simp
  moreover have "mset (map fst (queued s')) = add_mset (length (s_tasks s)) (mset (map fst (queued s)))" using q by simp
  ultimately have l: "loc s' = add_mset (length (s_tasks s)) (loc s)" unfolding loc_queued fr by (simp del: map_eq_conv)
  have "set (queued s') = insert (length (s_tasks s), READY) (set (queued s))" using q by (metis set_mset_add_mset_insert set_mset_mset)
  moreover have "t_id k \<noteq> 0" "t_state k = READY" using tasks_okD(6) [OF ok(1)] by (simp_all add: k_def)
  ultimately have "tasks_ok s'" using l by (intro tasks_ok_grow [OF ok(1) tk]) (auto simp: fr)
  moreover have "locks_ok s'" using ok(2) by (simp add: locks_ok_def fr)
  ultimately show ?thesis using l by (simp add: sinv_def)
qed

section \<open>Every execution keeps the invariant\<close>

lemma sum_list_empty: "sum_list (replicate n {#}) = {#}"
  by (induction n) simp_all

lemma boot_sinv: "sinv (sched_boot ncpu root nwq counts)"
  by (simp add: sinv_def tasks_ok_def locks_ok_def sched_boot_def loc_def queued_def working_def on_cpu_def cpu_ok_def blocking_def
      sum_list_empty)

lemma acts_runs: "acts s c t \<Longrightarrow> runs s c t"
  by (simp add: acts_def)

lemma sched_sleep_eq:
  assumes "runs s c t"
  obtains w where "sched_sleep c ms s = schedule c TO_SLEEP (upd_task t (\<lambda>k. k\<lparr>t_wake_tick := w\<rparr>) s)"
proof
  show "sched_sleep c ms s = schedule c TO_SLEEP (upd_task t (\<lambda>k. k\<lparr>t_wake_tick := (s_ticks s + max (ms * TICK_HZ mod 2 ^ 64 div 1000) 1) mod 2 ^ 64\<rparr>) s)"
    using assms unfolding sched_sleep_def current_def runs_def Let_def by (simp only: ok_or_def option.case bnd_simps)
qed

lemma sleep_sinv:
  assumes "sinv s" "runs s c t" "\<not> is_idle s t"
  shows "\<exists>s'. sched_sleep c ms s = Inr s' \<and> sinv s'"
proof -
  obtain w where w: "sched_sleep c ms s = schedule c TO_SLEEP (upd_task t (\<lambda>k. k\<lparr>t_wake_tick := w\<rparr>) s)"
    by (rule sched_sleep_eq [OF assms(2)])
  let ?u = "upd_task t (\<lambda>k. k\<lparr>t_wake_tick := w\<rparr>) s"
  have "tasks_ok ?u" using assms(1) by (intro tasks_ok_upd_task) (simp_all add: sinv_def)
  moreover have "locks_pre TO_SLEEP ?u" using assms(1) by (simp add: sinv_def locks_pre_ok) (simp add: locks_ok_def)
  moreover have "runs ?u c t" "\<not> is_idle ?u t" using assms(2,3) by (simp_all add: runs_def is_idle_upd_task)
  ultimately have "\<exists>s'. schedule c TO_SLEEP ?u = Inr s' \<and> sinv s'" using schedule_sinv [of ?u TO_SLEEP c t] by simp
  then show ?thesis unfolding w .
qed

lemma exit_sinv:
  assumes "sinv s" "runs s c t" "\<not> is_idle s t"
  shows "\<exists>s'. sched_exit c s = Inr s' \<and> sinv s'"
  using assms schedule_sinv [of s TO_ZOMBIE c t] locks_pre_ok [of TO_ZOMBIE s] by (simp add: sched_exit_def sinv_def)

lemma tick_sinv:
  assumes "sinv s" "runs s c t"
  shows "\<exists>s'. preempt c (timer_tick c s) = Inr s' \<and> sinv s'"
  using timer_tick_sinv [OF assms] by (intro preempt_sinv)

lemma idle_sinv:
  assumes "sinv s" "runs s c t"
  shows "\<exists>s'. idle_round c s = Inr s' \<and> sinv s'"
proof -
  have "runs (reap s) c t" using assms(2) by (simp add: runs_def reap_def)
  from yield_now_sinv [OF reap_sinv [OF assms(1)] this] show ?thesis by (simp add: idle_round_def)
qed

lemma count_le_wqs: "sinv s \<Longrightarrow> q < length (s_counts s) \<Longrightarrow> q < length (s_wqs s)"
  using tasks_okD(7) [of s] by (simp add: sinv_def)

lemma sched_ready_sinv: "sinv s \<Longrightarrow> sinv (s\<lparr>s_sched_ready := b\<rparr>)" "sinv s \<Longrightarrow> sinv (s\<lparr>s_ticks := n\<rparr>)"
  by (auto simp: sinv_def queued_def intro!: tasks_ok_quiet [of s] locks_ok_quiet [of s] same_cpusI)

lemma sstep_sinv: "sstep s s' \<Longrightarrow> sinv s \<Longrightarrow> sinv s'"
proof (induction rule: sstep.induct)
  case (boot c s)
  then show ?case unfolding sched_init_def using init_this_cpu_sinv [of s c] by (intro sched_ready_sinv) simp
next
  case (secondary c s)
  then show ?case using init_this_cpu_sinv [of s c] by simp
next
  case (finish c s)
  then obtain u a where "pc_prev (cpu s c) = Some (u, a)" by auto
  with finish show ?case using tasks_ok_finish [of s c u a] locks_finish [of s c u a] by (simp add: sinv_def)
next
  case (clock s n)
  then show ?case by (intro sched_ready_sinv)
next
  case (spawned s c t root)
  then show ?case using spawn_sinv [of s c root] by simp
next
  case (yielded s c t s')
  then show ?case using yield_now_sinv [of s c t] acts_runs [of s c t] by auto
next
  case (slept s c t ms s')
  then show ?case using sleep_sinv [of s c t ms] acts_runs [of s c t] by auto
next
  case (exited s c t s')
  then show ?case using exit_sinv [of s c t] acts_runs [of s c t] by auto
next
  case (ticked s c t s')
  then show ?case using tick_sinv [of s c t] acts_runs [of s c t] by auto
next
  case (idled s c t s')
  then show ?case using idle_sinv [of s c t] acts_runs [of s c t] by auto
next
  case (waited s c t q s')
  then show ?case using wq_wait_sinv [of s c t q] acts_runs [of s c t] by auto
next
  case (waited_if s c t q p s')
  then show ?case using wq_wait_if_sinv [of s c t q p] acts_runs [of s c t] by auto
next
  case (woke_one s c t q b s')
  then show ?case using wake_ops_sinv(1) [OF woke_one(5) woke_one(3)] by simp
next
  case (woke_all s c t q n s')
  then show ?case using wake_ops_sinv(2) [OF woke_all(5) woke_all(3)] by simp
next
  case (sem_waited s c t q s')
  then show ?case using sem_wait_sinv [OF sem_waited(6,1,2) count_le_wqs [OF sem_waited(6,4)] sem_waited(5)] by simp
next
  case (sem_posted s c t q s')
  then show ?case using wake_ops_sinv(3) [OF sem_posted(4) count_le_wqs] by simp
qed

lemma reachable_sinv: "reachable s \<Longrightarrow> sinv s"
  by (induction rule: reachable.induct) (simp_all add: boot_sinv sstep_sinv)

end
