(* ===== verification/Kor_Sched_Live.thy ===== *)
theory Kor_Sched_Live
  imports Kor_Sched_Inv
begin

text \<open>
  What the scheduler promises on every execution: a task is in one place and is never lost, a
  ready task runs after a bounded number of timer ticks, and a semaphore loses no wakeup.
\<close>

section \<open>No task is lost\<close>

text \<open>Where the tasks are that have not been freed, idle tasks apart.\<close>

definition cpu_tasks :: "per_cpu \<Rightarrow> nat list" where
  "cpu_tasks p = (case pc_current p of None \<Rightarrow> [] | Some t \<Rightarrow> [t]) @ (case pc_prev p of None \<Rightarrow> [] | Some (t, a) \<Rightarrow> [t])"

definition places :: "sched \<Rightarrow> nat list" where
  "places s = s_ready_queue s @ s_sleepers s @ s_zombies s @ concat (map wq_list (s_wqs s))
     @ filter (\<lambda>t. \<not> is_idle s t) (concat (map cpu_tasks (s_cpus s)))"

lemma mset_cpu_tasks: "mset (cpu_tasks p) = on_cpu p"
  by (auto simp: cpu_tasks_def on_cpu_def opt_ms_def split: option.splits)

lemma filter_mset_sum_list: "filter_mset P (sum_list xs) = sum_list (map (filter_mset P) xs)"
  by (induction xs) simp_all

lemma mset_places: "mset (places s) = loc s"
  by (simp add: places_def loc_def mset_concat mset_filter filter_mset_sum_list comp_def mset_cpu_tasks working_def [abs_def] ac_simps)

lemma loc_quiet:
  assumes "s_tasks s' = s_tasks s" "same_cpus s s'" "mset (queued s') = mset (queued s)"
  shows "loc s' = loc s"
proof -
  have id: "is_idle s' = is_idle s" using assms(1) by (simp add: fun_eq_iff is_idle_def)
  have "map (working s') (s_cpus s') = map (working s) (s_cpus s)"
    using assms(2) by (intro nth_equalityI) (simp_all add: same_cpus_def working_def on_cpu_def id)
  then show ?thesis using assms(3) by (simp add: loc_queued del: map_eq_conv)
qed

lemma loc_upd_lock: "(\<And>w. wq_list (f w) = wq_list w) \<Longrightarrow> loc (upd_wq q f s) = loc s"
  by (intro loc_quiet same_cpusI queued_upd_lock) simp_all

lemma loc_slice: "c < length (s_cpus s) \<Longrightarrow> loc (upd_cpu c (\<lambda>p. p\<lparr>pc_slice := n\<rparr>) s) = loc s"
  by (intro loc_quiet same_cpus_slice) (simp_all add: queued_def)

lemma schedule_loc:
  assumes "tasks_ok s" "runs s c t" "is_idle s t \<longrightarrow> a = TO_READY" "schedule c a s = Inr s'"
  shows "loc s' = loc s"
  using assms(1-3)
proof (cases rule: schedule_cases)
  case stay
  then show ?thesis using assms(4) by simp
next
  case (go n)
  then show ?thesis using assms(4) loc_switch [OF assms(1,2) go(2)] by simp
qed

lemma yield_now_loc: "\<lbrakk>sinv s; runs s c t; yield_now c s = Inr s'\<rbrakk> \<Longrightarrow> loc s' = loc s"
  using schedule_loc [of s c t TO_READY s'] by (simp add: yield_now_def sinv_def)

lemma tick_loc:
  assumes "sinv s" "runs s c t" "preempt c (timer_tick c s) = Inr s'"
  shows "loc s' = loc s"
proof -
  let ?w = "wake_sleepers (s_ticks s) 0 s"
  note t = timer_tick_sinv [OF assms(1,2)]
  have w: "quiet s ?w" "loc ?w = loc s" using wake_sleepers_ok [of s] assms(1) by (simp_all add: sinv_def)
  have c: "c < length (s_cpus ?w)" "c < length (s_cpus (timer_tick c s))" using w(1) assms(2) t(2) by (simp_all add: quiet_def runs_def)
  have "loc (timer_tick c s) = loc s" using w(2) loc_slice [OF c(1)] by (simp add: timer_tick_def Let_def)
  moreover have "loc s' = loc (timer_tick c s)"
  proof -
    let ?u = "upd_cpu c (\<lambda>p. p\<lparr>pc_slice := TIME_SLICE\<rparr>) (timer_tick c s)"
    have "runs ?u c t" using t(2) c(2) by (simp add: runs_def)
    from yield_now_loc [OF sinv_slice [OF t(1) c(2)] this, of s'] loc_slice [OF c(2)] assms(3)
    show ?thesis by (auto simp: preempt_def split: if_splits)
  qed
  ultimately show ?thesis by simp
qed

lemma reap_loc: "loc s = loc (reap s) + mset (s_zombies s)"
  using loc_queues(3) [where r = "[]" and s = s] by (simp add: reap_def)

lemma block_loc:
  assumes "tasks_ok s" "runs s c t" "\<not> is_idle s t" "block_locked c q s = Inr s'"
  shows "loc s' = loc s"
  using schedule_loc [OF assms(1,2) _, of "TO_WAIT q"] assms(3,4) by (simp add: block_locked_def)

lemma wq_wait_if_loc:
  assumes "sinv s" "runs s c t" "\<not> is_idle s t" "q < length (s_wqs s)" "wq_wait_if c q p s = Some (Inr s')"
  shows "loc s' = loc s"
proof -
  obtain s1 where s1: "raw_lock q s = Some s1" "Inr s' = (if \<not> p s1 then Inr (raw_unlock q s1) else block_locked c q s1)"
    using assms(5) by (auto simp: wq_wait_if_def)
  note l = raw_lock_sinv [OF assms(1) s1(1) assms(4)]
  have l1: "loc s1 = loc s" unfolding l(3) by (rule loc_upd_lock) simp
  have "loc (raw_unlock q s1) = loc s1" unfolding raw_unlock_def by (rule loc_upd_lock) simp
  moreover have "runs s1 c t" "\<not> is_idle s1 t" using assms(2,3) unfolding l(3) by (simp_all add: runs_def)
  ultimately show ?thesis using s1(2) l1 block_loc [OF l(1)] by (auto split: if_splits)
qed

lemma wq_wait_loc: "\<lbrakk>sinv s; runs s c t; \<not> is_idle s t; q < length (s_wqs s); wq_wait c q s = Some (Inr s')\<rbrakk> \<Longrightarrow> loc s' = loc s"
  using wq_wait_if_loc [of s c t q "\<lambda>_. True" s'] by (simp add: wq_wait_def wq_wait_if_def)

lemma sem_wait_loc:
  assumes "sinv s" "runs s c t" "\<not> is_idle s t" "q < length (s_wqs s)" "sem_wait_round c q s = Some (Inr s')"
  shows "loc s' = loc s"
  using assms(2,5)
proof (cases rule: sem_wait_round_cases)
  let ?l = "upd_wq q (\<lambda>w. w\<lparr>wq_lock := True\<rparr>) s"
  have st: "stored s" using assms(1) by (simp add: sinv_def tasks_ok_stored)
  have ll: "loc ?l = loc s" by (rule loc_upd_lock) simp
  {
    case took
    let ?m = "?l\<lparr>s_counts := (s_counts s)[q := s_counts s ! q - 1]\<rparr>"
    have "loc ?m = loc ?l" by (intro loc_quiet same_cpusI) (simp_all add: queued_def)
    moreover have "stored ?m" using st by (simp add: stored_def)
    ultimately have "loc (upd_task t (\<lambda>k. k\<lparr>t_sem := None\<rparr>) ?m) = loc s" using ll by (simp add: loc_upd_task)
    then show ?thesis using took(3) loc_upd_lock [of "\<lambda>w. w\<lparr>wq_lock := False\<rparr>"] by (simp add: raw_unlock_def)
  next
    case blocked
    let ?u = "upd_task t (\<lambda>k. k\<lparr>t_sem := Some q\<rparr>) ?l"
    have "tasks_ok ?l" using raw_lock_sinv(1) [OF assms(1) _ assms(4), of ?l] blocked(2) by (simp add: raw_lock_def)
    then have ok: "tasks_ok ?u" by (rule tasks_ok_upd_task) simp
    have "stored ?l" using st by (simp add: stored_def)
    then have "loc ?u = loc s" using ll by (simp add: loc_upd_task)
    moreover have "runs ?u c t" "\<not> is_idle ?u t" using assms(2,3) by (simp_all add: runs_def is_idle_upd_task)
    ultimately show ?thesis using block_loc [OF ok] blocked(3) by simp
  }
qed

lemma idle_loc:
  assumes "sinv s" "runs s c t" "idle_round c s = Inr s'"
  shows "loc s = loc s' + mset (s_zombies s)"
proof -
  have "runs (reap s) c t" using assms(2) by (simp add: runs_def reap_def)
  from yield_now_loc [OF reap_sinv [OF assms(1)] this, of s'] assms(3) reap_loc [of s] show ?thesis by (simp add: idle_round_def)
qed

lemma sleep_loc:
  assumes "sinv s" "runs s c t" "\<not> is_idle s t" "sched_sleep c ms s = Inr s'"
  shows "loc s' = loc s"
proof -
  obtain w where w: "sched_sleep c ms s = schedule c TO_SLEEP (upd_task t (\<lambda>k. k\<lparr>t_wake_tick := w\<rparr>) s)"
    by (rule sched_sleep_eq [OF assms(2)])
  let ?u = "upd_task t (\<lambda>k. k\<lparr>t_wake_tick := w\<rparr>) s"
  have ok: "tasks_ok s" using assms(1) by (simp add: sinv_def)
  have "tasks_ok ?u" by (rule tasks_ok_upd_task [OF ok]) simp
  moreover have "runs ?u c t" "\<not> is_idle ?u t" using assms(2,3) by (simp_all add: runs_def is_idle_upd_task)
  ultimately have "loc s' = loc ?u" using schedule_loc [of ?u c t TO_SLEEP s'] assms(4) unfolding w by simp
  then show ?thesis using loc_upd_task [OF tasks_ok_stored [OF ok]] by simp
qed

lemma exit_loc: "\<lbrakk>sinv s; runs s c t; \<not> is_idle s t; sched_exit c s = Inr s'\<rbrakk> \<Longrightarrow> loc s' = loc s"
  using schedule_loc [of s c t TO_ZOMBIE s'] by (simp add: sched_exit_def sinv_def)

text \<open>A step loses no task but the exited ones.\<close>

lemma sstep_loc: "sstep s s' \<Longrightarrow> sinv s \<Longrightarrow> loc s \<subseteq># loc s' + mset (s_zombies s)"
proof (induction rule: sstep.induct)
  case (boot c s)
  have "loc (s'\<lparr>s_sched_ready := True\<rparr>) = loc s'" for s' by (intro loc_quiet same_cpusI) (simp_all add: queued_def)
  then show ?case using init_this_cpu_sinv [of s c] boot by (simp add: sched_init_def)
next
  case (secondary c s)
  then show ?case using init_this_cpu_sinv [of s c] by simp
next
  case (finish c s)
  then obtain u a where "pc_prev (cpu s c) = Some (u, a)" by auto
  with finish show ?case using tasks_ok_finish [of s c u a] by (simp add: sinv_def)
next
  case (clock s n)
  have "loc (s\<lparr>s_ticks := n\<rparr>) = loc s" by (intro loc_quiet same_cpusI) (simp_all add: queued_def)
  then show ?case by simp
next
  case (spawned s c t root)
  then show ?case using spawn_sinv [of s c root] by (simp add: subset_mset.add_increasing2 subset_mset.le_add_same_cancel1)
next
  case (yielded s c t s')
  then show ?case using yield_now_loc [of s c t s'] acts_runs by simp
next
  case (slept s c t ms s')
  then show ?case using sleep_loc [of s c t ms s'] acts_runs by simp
next
  case (exited s c t s')
  then show ?case using exit_loc [of s c t s'] acts_runs by simp
next
  case (ticked s c t s')
  then show ?case using tick_loc [of s c t s'] acts_runs by simp
next
  case (idled s c t s')
  then show ?case using idle_loc [of s c t s'] acts_runs by simp
next
  case (waited s c t q s')
  then show ?case using wq_wait_loc [of s c t q s'] acts_runs by simp
next
  case (waited_if s c t q p s')
  then show ?case using wq_wait_if_loc [of s c t q p s'] acts_runs by simp
next
  case (woke_one s c t q b s')
  then show ?case using wake_ops_sinv(1) [OF woke_one(5) woke_one(3)] by simp
next
  case (woke_all s c t q n s')
  then show ?case using wake_ops_sinv(2) [OF woke_all(5) woke_all(3)] by simp
next
  case (sem_waited s c t q s')
  then show ?case using sem_wait_loc [OF sem_waited(6,1,2) count_le_wqs [OF sem_waited(6,4)] sem_waited(5)] by simp
next
  case (sem_posted s c t q s')
  then show ?case using wake_ops_sinv(3) [OF sem_posted(4) count_le_wqs] by simp
qed

lemma sinv_places:
  assumes "sinv s"
  shows "distinct (places s)"
proof -
  have "count (mset (places s)) t \<le> 1" for t using assms tasks_okD(1) [of s t] by (simp add: mset_places sinv_def)
  then show ?thesis by (metis distinct_count_atmost_1 le_antisym linorder_not_less count_greater_eq_one_iff count_mset_0_iff less_one)
qed

lemma sinv_states:
  assumes "sinv s"
  shows "t \<in> set (s_ready_queue s) \<Longrightarrow> t_state (task_at s t) = READY" "t \<in> set (s_sleepers s) \<Longrightarrow> t_state (task_at s t) = SLEEPING"
    "t \<in> set (s_zombies s) \<Longrightarrow> t_state (task_at s t) = EXITED"
    "w \<in> set (s_wqs s) \<Longrightarrow> t \<in> set (wq_list w) \<Longrightarrow> t_state (task_at s t) = BLOCKED"
    "\<lbrakk>c < length (s_cpus s); pc_current (cpu s c) = Some t\<rbrakk> \<Longrightarrow> t_state (task_at s t) = RUNNING \<and> pc_root (cpu s c) = t_root (task_at s t)"
  using assms tasks_okD(4) [of s t] tasks_okD(5) [of s c] by (auto simp: sinv_def queued_def cpu_ok_def)

text \<open>
  Two processors and a semaphore of count zero: the first task is spawned, runs and waits.  In
  \<open>sample_waiting\<close> the switch away from it is half done, in \<open>sample_blocked\<close> it is complete.
\<close>

definition sample_running :: sched where
  "sample_running = finish_switch 0 (projr (yield_now 0 (snd (spawn_configured 0 9 (\<lambda>_ s. s) (sched_init 0 (sched_boot 2 7 0 [0]))))))"

definition sample_waiting :: sched where
  "sample_waiting = projr (the (sem_wait_round 0 0 sample_running))"

definition sample_blocked :: sched where
  "sample_blocked = finish_switch 0 sample_waiting"

lemmas run_sched = sched_init_def init_this_cpu_def task_idle_def upd_cpu_def spawn_configured_def task_new_def
  set_address_space_root_def upd_task_def upd_wq_def usize_add_def USIZE_LIM_def yield_now_def schedule_def pick_next_def set_state_def
  finish_switch_def is_idle_def sched_boot_def Let_def ok_or_def sem_wait_round_def raw_lock_def raw_unlock_def block_locked_def current_def
  acts_def runs_def

lemma sample_running_reachable: "reachable sample_running"
proof -
  define s1 where "s1 = sched_init 0 (sched_boot 2 7 0 [0])"
  define s2 where "s2 = snd (spawn_configured 0 9 (\<lambda>_ s. s) s1)"
  define s3 where "s3 = projr (yield_now 0 s2)"
  have r1: "reachable s1"
    unfolding s1_def by (rule reachable.more [OF reachable.start sstep.boot]) (simp_all add: sched_boot_def)
  have a1: "acts s1 0 0" "s_next_id s1 + 1 < USIZE_LIM" by (simp_all add: s1_def run_sched)
  have r2: "reachable s2" unfolding s2_def by (rule reachable.more [OF r1 sstep.spawned [OF a1]])
  have a2: "acts s2 0 0" "yield_now 0 s2 = Inr s3" by (simp_all add: s3_def s2_def s1_def run_sched)
  have r3: "reachable s3" by (rule reachable.more [OF r2 sstep.yielded [OF a2]])
  have "0 < length (s_cpus s3)" "pc_prev (cpu s3 0) \<noteq> None" by (simp_all add: s3_def s2_def s1_def run_sched)
  then have "reachable (finish_switch 0 s3)" by (intro reachable.more [OF r3 sstep.finish])
  then show ?thesis unfolding sample_running_def s3_def s2_def s1_def .
qed

lemma replicate_two: "replicate 2 x = [x, x]"
  by (simp add: numeral_2_eq_2)

lemma sample_running_eq: "sample_running = \<lparr>s_tasks = [
    \<lparr>t_id = 0, t_state = RUNNING, t_wake_tick = 0, t_user_context = 0, t_root = 7, t_sem = None\<rparr>,
    \<lparr>t_id = 1, t_state = RUNNING, t_wake_tick = 0, t_user_context = 0, t_root = 9, t_sem = None\<rparr>],
  s_next_id = 2, s_cpus = [
    \<lparr>pc_current = Some 1, pc_idle = Some 0, pc_prev = None, pc_slice = 5, pc_root = 9\<rparr>,
    \<lparr>pc_current = None, pc_idle = None, pc_prev = None, pc_slice = 5, pc_root = 7\<rparr>],
  s_ready_queue = [], s_sleepers = [], s_zombies = [], s_sched_ready = True,
  s_wqs = [\<lparr>wq_lock = False, wq_list = []\<rparr>], s_counts = [0], s_ticks = 0\<rparr>"
  by (simp add: sample_running_def run_sched replicate_two)

lemma sample_waiting_reachable: "reachable sample_waiting"
proof -
  have "runs sample_running 0 1" "\<not> is_idle sample_running 1" "t_sem (task_at sample_running 1) \<in> {None, Some 0}"
    "0 < length (s_counts sample_running)" "sem_wait_round 0 0 sample_running = Some (Inr sample_waiting)"
    by (simp_all add: sample_waiting_def sample_running_eq run_sched)
  then show ?thesis by (rule reachable.more [OF sample_running_reachable sstep.sem_waited])
qed

lemma sample_waiting_finish: "sstep sample_waiting sample_blocked"
proof -
  have "0 < length (s_cpus sample_waiting)" "pc_prev (cpu sample_waiting 0) \<noteq> None"
    by (simp_all add: sample_waiting_def sample_running_eq run_sched)
  then show ?thesis unfolding sample_blocked_def by (rule sstep.finish)
qed

text \<open>
  C38: in every execution of the scheduler on any number of processors, a task that is not idle is
  in exactly one place: the ready queue, the sleepers, the exited tasks, one wait queue, or a
  processor that runs it or is switching it out; so no two processors ever run the same task, and
  none runs a task whose registers are still being saved.  The state byte of a task agrees with its
  place, a processor's active address space is its task's, the lock of a wait queue is taken exactly
  while a processor switches a task out to that queue, and no step loses a task but the exited ones.
\<close>

theorem tasks_in_one_place:
  assumes "reachable s"
  shows "distinct (places s)
    \<and> (\<forall>t \<in> set (s_ready_queue s). t_state (task_at s t) = READY)
    \<and> (\<forall>t \<in> set (s_sleepers s). t_state (task_at s t) = SLEEPING)
    \<and> (\<forall>t \<in> set (s_zombies s). t_state (task_at s t) = EXITED)
    \<and> (\<forall>w \<in> set (s_wqs s). \<forall>t \<in> set (wq_list w). t_state (task_at s t) = BLOCKED)
    \<and> (\<forall>c < length (s_cpus s). \<forall>t. pc_current (cpu s c) = Some t
         \<longrightarrow> t_state (task_at s t) = RUNNING \<and> pc_root (cpu s c) = t_root (task_at s t))
    \<and> (\<forall>q < length (s_wqs s). wq_lock (s_wqs s ! q) \<longleftrightarrow> (\<exists>c < length (s_cpus s). blocking q (cpu s c)))
    \<and> (\<forall>s'. sstep s s' \<longrightarrow> set (places s) - set (s_zombies s) \<subseteq> set (places s'))"
proof -
  have inv: "sinv s" by (rule reachable_sinv [OF assms])
  have "set (places s) - set (s_zombies s) \<subseteq> set (places s')" if "sstep s s'" for s'
  proof -
    have "set_mset (loc s) \<subseteq> set_mset (loc s' + mset (s_zombies s))" by (rule set_mset_mono [OF sstep_loc [OF that inv]])
    then show ?thesis unfolding mset_places [symmetric] by auto
  qed
  moreover have "\<forall>q < length (s_wqs s). wq_lock (s_wqs s ! q) \<longleftrightarrow> (\<exists>c < length (s_cpus s). blocking q (cpu s c))"
    using inv by (simp add: sinv_def locks_ok_def)
  ultimately show ?thesis using sinv_places [OF inv] sinv_states [OF inv] by blast
qed

theorem tasks_in_one_place_witness:
  "reachable sample_waiting \<and> distinct (places sample_waiting) \<and> places sample_waiting = [1]
    \<and> wq_lock (s_wqs sample_waiting ! 0) \<and> blocking 0 (cpu sample_waiting 0)
    \<and> set (places sample_waiting) - set (s_zombies sample_waiting) \<subseteq> set (places sample_blocked)"
proof -
  note t = tasks_in_one_place [OF sample_waiting_reachable]
  have "blocking 0 (cpu sample_waiting 0)" by (simp add: blocking_def sample_waiting_def sample_running_eq run_sched)
  moreover have "0 < length (s_wqs sample_waiting)" "0 < length (s_cpus sample_waiting)"
    by (simp_all add: sample_waiting_def sample_running_eq run_sched)
  ultimately have "wq_lock (s_wqs sample_waiting ! 0)" "blocking 0 (cpu sample_waiting 0)" using t by blast+
  moreover have "places sample_waiting = [1]"
    by (simp add: places_def cpu_tasks_def sample_waiting_def sample_running_eq run_sched)
  moreover have "set (places sample_waiting) - set (s_zombies sample_waiting) \<subseteq> set (places sample_blocked)"
    using t sample_waiting_finish by blast
  ultimately show ?thesis using t sample_waiting_reachable by blast
qed

section \<open>A ready task runs\<close>

text \<open>What one timer interrupt does on a processor: the two hooks, and the end of a switch.\<close>

definition tick_round :: "nat \<Rightarrow> sched \<Rightarrow> fault + sched" where
  "tick_round c s = bnd (preempt c (timer_tick c s)) (\<lambda>s. Inr (finish_switch c s))"

primrec tick_rounds :: "nat \<Rightarrow> nat \<Rightarrow> sched \<Rightarrow> fault + sched" where
  "tick_rounds c 0 s = Inr s"
| "tick_rounds c (Suc n) s = bnd (tick_round c s) (tick_rounds c n)"

lemma wake_sleepers_ready: "\<exists>xs. s_ready_queue (wake_sleepers now i s) = s_ready_queue s @ xs"
proof (induction now i s rule: wake_sleepers.induct)
  case (1 now i s)
  let ?t = "s_sleepers s ! i"
  consider (wake) "i < length (s_sleepers s)" "t_wake_tick (task_at s ?t) \<le> now"
    | (skip) "i < length (s_sleepers s)" "\<not> t_wake_tick (task_at s ?t) \<le> now" | (fin) "\<not> i < length (s_sleepers s)" by blast
  then show ?case
  proof cases
    case wake
    then show ?thesis using "1.IH"(1) [OF wake(1) refl wake(2)] by (subst wake_sleepers.simps) (auto simp: Let_def)
  next
    case skip
    then show ?thesis using "1.IH"(2) [OF skip(1) refl skip(2)] by (subst wake_sleepers.simps) (simp add: Let_def)
  next
    case fin
    then show ?thesis by (subst wake_sleepers.simps) simp
  qed
qed

lemma timer_tick_fields:
  assumes "sinv s" "runs s c t" "s_sched_ready s"
  shows "s_sched_ready (timer_tick c s)" "pc_slice (cpu (timer_tick c s) c) = pc_slice (cpu s c) - 1"
    "\<exists>xs. s_ready_queue (timer_tick c s) = s_ready_queue s @ xs"
proof -
  let ?w = "wake_sleepers (s_ticks s) 0 s"
  have w: "quiet s ?w" using wake_sleepers_ok [of s] assms(1) by (simp add: sinv_def)
  then have c: "s_cpus ?w = s_cpus s" "s_sched_ready ?w" "c < length (s_cpus ?w)" using assms(2,3) by (simp_all add: quiet_def runs_def)
  show "s_sched_ready (timer_tick c s)" "pc_slice (cpu (timer_tick c s) c) = pc_slice (cpu s c) - 1"
    using assms(3) c by (simp_all add: timer_tick_def Let_def)
  show "\<exists>xs. s_ready_queue (timer_tick c s) = s_ready_queue s @ xs"
    using wake_sleepers_ready [of "s_ticks s" 0 s] assms(3) by (simp add: timer_tick_def Let_def)
qed

lemma finish_ready_fields:
  assumes "c < length (s_cpus s)" "pc_prev (cpu s c) = Some (u, TO_READY)"
  shows "cpu (finish_switch c s) c = (cpu s c)\<lparr>pc_prev := None\<rparr>" "length (s_cpus (finish_switch c s)) = length (s_cpus s)"
    "s_sched_ready (finish_switch c s) = s_sched_ready s" "\<exists>ys. s_ready_queue (finish_switch c s) = s_ready_queue s @ ys"
  using assms by (simp_all add: finish_switch_def Let_def)

lemma finish_none: "pc_prev (cpu s c) = None \<Longrightarrow> finish_switch c s = s"
  by (simp add: finish_switch_def)

text \<open>A switch that a spent slice forces takes the head of the ready queue.\<close>

lemma spent_slice_switch:
  assumes "sinv s" "runs s c t" "s_sched_ready s" "pc_slice (cpu s c) = 0" "s_ready_queue s = n # ns"
  obtains s1 where "preempt c s = Inr s1" "sinv (finish_switch c s1)" "runs (finish_switch c s1) c n" "s_sched_ready (finish_switch c s1)"
    "pc_slice (cpu (finish_switch c s1) c) = TIME_SLICE" "\<exists>ys. s_ready_queue (finish_switch c s1) = ns @ ys"
proof -
  let ?u = "upd_cpu c (\<lambda>p. p\<lparr>pc_slice := TIME_SLICE\<rparr>) s"
  have c: "c < length (s_cpus s)" using assms(2) by (simp add: runs_def)
  have u: "sinv ?u" by (rule sinv_slice [OF assms(1) c])
  have ru: "runs ?u c t" using assms(2) c by (simp add: runs_def)
  have ok: "tasks_ok ?u" using u by (simp add: sinv_def)
  show thesis
  proof (cases rule: schedule_cases [OF ok ru, of TO_READY])
    case 2
    then show thesis using assms(5) by simp
  next
    case (3 m)
    let ?s = "switch_to c t TO_READY m ?u"
    have m: "m = n" using 3(2) assms(5) by (simp add: turns_to_def)
    have p: "preempt c s = Inr ?s" using 3(1) assms(3,4) by (simp add: preempt_def yield_now_def)
    have "sinv ?s" using preempt_sinv [OF assms(1,2)] p by auto
    moreover have cs: "c < length (s_cpus ?s)" "pc_prev (cpu ?s c) = Some (t, TO_READY)" using c by (simp_all add: switch_to_def)
    ultimately have "sinv (finish_switch c ?s)" using sstep_sinv [OF sstep.finish] by simp
    moreover note f = finish_ready_fields [OF cs]
    moreover have "runs (finish_switch c ?s) c n" unfolding runs_def f using c m by (simp add: switch_to_def)
    moreover have "s_sched_ready (finish_switch c ?s)" unfolding f using assms(3) by (simp add: switch_to_def)
    moreover have "pc_slice (cpu (finish_switch c ?s) c) = TIME_SLICE" unfolding f using c by (simp add: switch_to_def)
    moreover have "s_ready_queue ?s = ns" using assms(5) by (simp add: switch_to_def)
    ultimately show thesis using that [OF p] by metis
  qed simp
qed

lemma tick_round_progress:
  assumes "sinv s" "runs s c t" "s_sched_ready s" "s_ready_queue s = n # ns"
  obtains s' t' xs where "tick_round c s = Inr s'" "sinv s'" "runs s' c t'" "s_sched_ready s'"
    "if pc_slice (cpu s c) \<le> 1 then t' = n \<and> pc_slice (cpu s' c) = TIME_SLICE \<and> s_ready_queue s' = ns @ xs
     else pc_slice (cpu s' c) = pc_slice (cpu s c) - 1 \<and> s_ready_queue s' = n # ns @ xs"
proof -
  let ?w = "timer_tick c s"
  note w = timer_tick_sinv [OF assms(1,2)] and f = timer_tick_fields [OF assms(1-3)]
  obtain xs where xs: "s_ready_queue ?w = n # ns @ xs" using f(3) assms(4) by auto
  show thesis
  proof (cases "pc_slice (cpu s c) \<le> 1")
    case True
    then have z: "pc_slice (cpu ?w c) = 0" using f(2) by simp
    obtain s1 where s1: "preempt c ?w = Inr s1" "sinv (finish_switch c s1)" "runs (finish_switch c s1) c n"
      "s_sched_ready (finish_switch c s1)" "pc_slice (cpu (finish_switch c s1) c) = TIME_SLICE"
      "\<exists>ys. s_ready_queue (finish_switch c s1) = (ns @ xs) @ ys"
      by (rule spent_slice_switch [OF w(1,2) f(1) z xs])
    then obtain ys where "s_ready_queue (finish_switch c s1) = ns @ xs @ ys" by auto
    moreover have "tick_round c s = Inr (finish_switch c s1)" using s1(1) by (simp add: tick_round_def)
    ultimately show thesis using that [of "finish_switch c s1" n "xs @ ys"] True s1 by simp
  next
    case False
    then have "preempt c ?w = Inr ?w" using f(2) by (simp add: preempt_def)
    moreover have "finish_switch c ?w = ?w" using w(2) by (intro finish_none) (simp add: runs_def)
    ultimately have "tick_round c s = Inr ?w" by (simp add: tick_round_def)
    then show thesis using that [of ?w t xs] False w f xs by simp
  qed
qed

lemma ready_runs_within:
  assumes "sinv s" "runs s c t" "s_sched_ready s" "i < length (s_ready_queue s)"
  shows "\<exists>k s'. k \<le> max 1 (pc_slice (cpu s c)) + TIME_SLICE * i \<and> tick_rounds c k s = Inr s'
    \<and> pc_current (cpu s' c) = Some (s_ready_queue s ! i)"
  using assms
proof (induction "max 1 (pc_slice (cpu s c)) + TIME_SLICE * i" arbitrary: s t i rule: less_induct)
  case less
  obtain n ns where q: "s_ready_queue s = n # ns" using less.prems(4) by (cases "s_ready_queue s") auto
  obtain s' t' xs where r: "tick_round c s = Inr s'" "sinv s'" "runs s' c t'" "s_sched_ready s'"
    and e: "if pc_slice (cpu s c) \<le> 1 then t' = n \<and> pc_slice (cpu s' c) = TIME_SLICE \<and> s_ready_queue s' = ns @ xs
     else pc_slice (cpu s' c) = pc_slice (cpu s c) - 1 \<and> s_ready_queue s' = n # ns @ xs"
    by (rule tick_round_progress [OF less.prems(1-3) q])
  define b where "b = max 1 (pc_slice (cpu s c)) + TIME_SLICE * i"
  have step: ?case if "k < b" "tick_rounds c k s' = Inr s''" "pc_current (cpu s'' c) = Some (s_ready_queue s ! i)" for k s''
    using that r(1) by (intro exI [of _ "Suc k"] exI [of _ s'']) (simp add: b_def)
  show ?case
  proof (cases "pc_slice (cpu s c) \<le> 1")
    case True
    show ?thesis
    proof (cases i)
      case 0
      then show ?thesis using True e r(3) q by (intro step [of 0 s']) (simp_all add: runs_def b_def)
    next
      case (Suc j)
      have lt: "max 1 (pc_slice (cpu s' c)) + TIME_SLICE * j < b" using Suc True e by (simp add: b_def)
      have "j < length (s_ready_queue s')" "s_ready_queue s' ! j = s_ready_queue s ! i"
        using Suc True e q less.prems(4) by (simp_all add: nth_append)
      then show ?thesis using less.hyps [OF lt [unfolded b_def] r(2-4)] lt step by (metis le_less_trans)
    qed
  next
    case False
    have lt: "max 1 (pc_slice (cpu s' c)) + TIME_SLICE * i < b" using False e by (simp add: b_def)
    have "s_ready_queue s' = s_ready_queue s @ xs" using False e q by simp
    then have "i < length (s_ready_queue s')" "s_ready_queue s' ! i = s_ready_queue s ! i" using less.prems(4) by (simp_all add: nth_append)
    then show ?thesis using less.hyps [OF lt [unfolded b_def] r(2-4)] lt step by (metis le_less_trans)
  qed
qed

text \<open>No step overtakes: at most the head leaves the ready queue, and tasks join at its end.\<close>

definition fifo :: "nat list \<Rightarrow> nat list \<Rightarrow> bool" where
  "fifo q q' \<longleftrightarrow> (\<exists>k xs. k \<le> 1 \<and> q' = drop k q @ xs)"

lemma fifo_append [simp]: "fifo q q" "fifo q (q @ xs)" "fifo q (tl q @ xs)" "fifo q (tl (q @ xs))"
proof -
  show "fifo q (q @ xs)" for xs unfolding fifo_def by (intro exI [of _ 0] exI [of _ xs]) simp
  from this [of "[]"] show "fifo q q" by simp
  show "fifo q (tl q @ xs)" for xs unfolding fifo_def by (intro exI [of _ 1] exI [of _ xs]) (simp add: drop_Suc)
  from this [of xs] \<open>\<And>xs. fifo q (q @ xs)\<close> [of "tl xs"] show "fifo q (tl (q @ xs))" by (cases q) simp_all
qed

lemma schedule_queue: "schedule c a s = Inr s' \<Longrightarrow> s_ready_queue s' = s_ready_queue s \<or> s_ready_queue s' = tl (s_ready_queue s)"
  by (auto simp: schedule_def pick_next_def ok_or_def Let_def run_simps split: list.splits option.splits if_splits)

lemma schedule_fifo: "\<lbrakk>schedule c a u = Inr s'; s_ready_queue u = s_ready_queue s @ xs\<rbrakk> \<Longrightarrow> fifo (s_ready_queue s) (s_ready_queue s')"
  using schedule_queue [of c a u s'] by auto

lemma schedule_fifo0: "\<lbrakk>schedule c a u = Inr s'; s_ready_queue u = s_ready_queue s\<rbrakk> \<Longrightarrow> fifo (s_ready_queue s) (s_ready_queue s')"
  using schedule_fifo [of c a u s' s "[]"] by simp

lemma tick_fifo:
  assumes "preempt c (timer_tick c s) = Inr s'"
  shows "fifo (s_ready_queue s) (s_ready_queue s')"
proof -
  have "\<exists>xs. s_ready_queue (timer_tick c s) = s_ready_queue s @ xs"
    using wake_sleepers_ready [of "s_ticks s" 0 s] by (simp add: timer_tick_def Let_def)
  then obtain xs where "s_ready_queue (timer_tick c s) = s_ready_queue s @ xs" by blast
  then show ?thesis using assms schedule_fifo [of c TO_READY _ s' s xs] by (auto simp: preempt_def yield_now_def split: if_splits)
qed

lemma raw_lock_queue: "raw_lock q s = Some s1 \<Longrightarrow> s_ready_queue s1 = s_ready_queue s"
  by (auto simp: raw_lock_def split: if_splits)

lemma sstep_fifo: "sstep s s' \<Longrightarrow> sinv s \<Longrightarrow> fifo (s_ready_queue s) (s_ready_queue s')"
proof (induction rule: sstep.induct)
  case (finish c s)
  then show ?case by (auto simp: finish_switch_def Let_def split: action.splits)
next
  case (ticked s c t s')
  then show ?case using tick_fifo by blast
next
  case (waited s c t q s')
  then show ?case by (auto simp: wq_wait_def block_locked_def intro: schedule_fifo0 raw_lock_queue)
next
  case (waited_if s c t q p s')
  then show ?case by (auto simp: wq_wait_if_def block_locked_def raw_unlock_def raw_lock_queue split: if_splits intro: schedule_fifo0 raw_lock_queue)
next
  case (woke_one s c t q b s')
  show ?case using wake_shapes(1) [OF woke_one(3,4)] by (simp add: fold_make_ready_frame take_waiters_def)
next
  case (woke_all s c t q n s')
  show ?case using wake_shapes(2) [OF woke_all(3,4)] by (simp add: fold_make_ready_frame take_waiters_def)
next
  case (sem_waited s c t q s')
  from sem_waited(1,5) show ?case
  proof (cases rule: sem_wait_round_cases)
    case took
    then show ?thesis by (simp add: raw_unlock_def)
  next
    case blocked
    show ?thesis using blocked(3) [symmetric] unfolding block_locked_def by (rule schedule_fifo0) simp
  qed
next
  case (sem_posted s c t q s')
  show ?case using wake_shapes(3) [OF count_le_wqs [OF sem_posted(4,2)] sem_posted(3)] by (simp add: fold_make_ready_frame take_waiters_def)
qed (auto simp: sched_init_def init_this_cpu_def task_idle_def spawn_configured_def task_new_def set_address_space_root_def Let_def
    yield_now_def sched_exit_def idle_round_def reap_def sched_sleep_def run_simps simp del: TICK_HZ_def intro: schedule_fifo0)

definition sample_two :: sched where
  "sample_two = snd (spawn_configured 0 11 (\<lambda>_ s. s) sample_running)"

lemma sample_two_reachable: "reachable sample_two"
proof -
  have "acts sample_running 0 1" "s_next_id sample_running + 1 < USIZE_LIM" by (simp_all add: sample_running_eq run_sched)
  then show ?thesis unfolding sample_two_def by (intro reachable.more [OF sample_running_reachable sstep.spawned])
qed

text \<open>
  C39: round robin without starvation.  No step of any processor overtakes: at most the head of the
  ready queue leaves it, and tasks join at its end.  On a processor that has been initialised and
  on which no switch is pending, timer interrupts alone make progress: the task at position \<open>i\<close> of
  the ready queue runs there after at most as many of them as are left of the current slice (at
  least one) and \<open>TIME_SLICE\<close> more for each task before it, whatever sleepers they wake; none of
  the calls panics.
\<close>

theorem ready_task_runs:
  assumes "reachable s" "s_sched_ready s" "runs s c t" "i < length (s_ready_queue s)"
  shows "(\<exists>k s'. k \<le> max 1 (pc_slice (cpu s c)) + TIME_SLICE * i \<and> tick_rounds c k s = Inr s'
      \<and> pc_current (cpu s' c) = Some (s_ready_queue s ! i))
    \<and> (\<forall>s'. sstep s s' \<longrightarrow> (\<exists>k xs. k \<le> 1 \<and> s_ready_queue s' = drop k (s_ready_queue s) @ xs))"
  using ready_runs_within [OF reachable_sinv [OF assms(1)] assms(3,2,4)] sstep_fifo [OF _ reachable_sinv [OF assms(1)]]
  unfolding fifo_def by blast

theorem ready_task_runs_witness:
  "reachable sample_two \<and> (\<exists>k s'. k \<le> 5 \<and> tick_rounds 0 k sample_two = Inr s' \<and> pc_current (cpu s' 0) = Some 2)"
proof -
  have "s_sched_ready sample_two" "runs sample_two 0 1" "0 < length (s_ready_queue sample_two)"
    and e: "max 1 (pc_slice (cpu sample_two 0)) + TIME_SLICE * 0 = 5" "s_ready_queue sample_two ! 0 = 2"
    by (simp_all add: sample_two_def sample_running_eq run_sched)
  from ready_task_runs [OF sample_two_reachable this(1-3)] show ?thesis unfolding e using sample_two_reachable by blast
qed

section \<open>No wakeup is lost\<close>

text \<open>
  Tasks on their way to take a unit of semaphore \<open>q\<close> (woken inside \<^verbatim>\<open>Semaphore::wait\<close> and
  runnable) and tasks waiting for one (queued, or being switched out to the queue).
\<close>

definition runnable :: "sched \<Rightarrow> nat \<Rightarrow> bool" where
  "runnable s t \<longleftrightarrow> t \<in> set (s_ready_queue s) \<or> (\<exists>c < length (s_cpus s). pc_current (cpu s c) = Some t)"

definition woken :: "sched \<Rightarrow> nat \<Rightarrow> nat set" where
  "woken s q = {t. t < length (s_tasks s) \<and> t_sem (task_at s t) = Some q \<and> runnable s t}"

definition waiting :: "sched \<Rightarrow> nat \<Rightarrow> nat set" where
  "waiting s q = set (wq_list (s_wqs s ! q)) \<union> {t. \<exists>c < length (s_cpus s). pc_prev (cpu s c) = Some (t, TO_WAIT q)}"

definition sem_ok :: "sched \<Rightarrow> bool" where
  "sem_ok s \<longleftrightarrow> (\<forall>q < length (s_counts s). (\<forall>t \<in> waiting s q. t_sem (task_at s t) = Some q)
     \<and> (waiting s q \<noteq> {} \<longrightarrow> s_counts s ! q \<le> int (card (woken s q))))"

lemma finite_woken: "finite (woken s q)"
  by (rule finite_subset [of _ "{..<length (s_tasks s)}"]) (auto simp: woken_def)

lemma runnable_not_outgoing:
  assumes "tasks_ok s" "c < length (s_cpus s)" "pc_prev (cpu s c) = Some (t, TO_WAIT q)"
  shows "t \<in># working s (cpu s c)" "\<not> runnable s t"
proof -
  have nid: "\<not> is_idle s t" using prev_ok [OF assms] by blast
  then show w: "t \<in># working s (cpu s c)" using assms(3) by (simp add: working_def on_cpu_def)
  show "\<not> runnable s t"
  proof
    assume "runnable s t"
    then consider (queue) "t \<in> set (s_ready_queue s)" | (on) d where "d < length (s_cpus s)" "pc_current (cpu s d) = Some t"
      by (auto simp: runnable_def)
    then show False
    proof cases
      case queue
      then show False using busy_alone(1) [OF assms(1,2) w] by (force simp: queued_def)
    next
      case on
      show False
      proof (cases "d = c")
        case True
        then show False using prev_ok [OF assms] on(2) by auto
      next
        case False
        have "t \<in># working s (cpu s d)" using on(2) nid by (simp add: working_def on_cpu_def)
        then show False using busy_alone(2) [OF assms(1,2) w on(1) False] by blast
      qed
    qed
  qed
qed

lemma waiting_loc:
  assumes "sinv s" "q < length (s_wqs s)" "t \<in> waiting s q"
  shows "t < length (s_tasks s)" "\<not> runnable s t"
proof -
  have ok: "tasks_ok s" using assms(1) by (simp add: sinv_def)
  have "t \<in># loc s \<and> \<not> runnable s t"
  proof (cases "t \<in> set (wq_list (s_wqs s ! q))")
    case True
    then have "t \<in> set (concat (map wq_list (s_wqs s)))" using nth_mem [OF assms(2)] by auto
    then have "(t, BLOCKED) \<in> set (queued s)" by (simp add: queued_def)
    moreover have "t_state (task_at s t) = BLOCKED" using sinv_states(4) [OF assms(1) nth_mem [OF assms(2)] True] .
    ultimately show ?thesis using queued_loc sinv_states(1,5) [OF assms(1)] by (force simp: runnable_def)
  next
    case False
    then obtain c where c: "c < length (s_cpus s)" "pc_prev (cpu s c) = Some (t, TO_WAIT q)" using assms(3) by (auto simp: waiting_def)
    note n = runnable_not_outgoing [OF ok c]
    have "t \<in># loc s" using working_le [OF c(1), of t] n(1) by (metis add_leE count_greater_zero_iff less_le_trans)
    then show ?thesis using n(2) by simp
  qed
  then show "t < length (s_tasks s)" "\<not> runnable s t" using tasks_okD(2) [OF ok] by blast+
qed

text \<open>A step that takes no unit, adds no waiter of a semaphore and stops no woken task.\<close>

definition sem_frame :: "sched \<Rightarrow> sched \<Rightarrow> bool" where
  "sem_frame s s' \<longleftrightarrow> s_counts s' = s_counts s \<and> length (s_tasks s) \<le> length (s_tasks s')
     \<and> (\<forall>q < length (s_counts s). waiting s' q \<subseteq> waiting s q)
     \<and> (\<forall>t < length (s_tasks s). t_sem (task_at s' t) = t_sem (task_at s t)
         \<and> (runnable s t \<longrightarrow> t_sem (task_at s t) \<noteq> None \<longrightarrow> runnable s' t))"

lemma sem_frame_ok:
  assumes "sinv s" "sem_ok s" "sem_frame s s'"
  shows "sem_ok s'"
proof -
  have k: "s_counts s' = s_counts s" and len: "length (s_tasks s) \<le> length (s_tasks s')"
    and w: "\<And>q. q < length (s_counts s) \<Longrightarrow> waiting s' q \<subseteq> waiting s q"
    and m: "\<And>t. t < length (s_tasks s) \<Longrightarrow> t_sem (task_at s' t) = t_sem (task_at s t)"
    and r: "\<And>t. \<lbrakk>t < length (s_tasks s); runnable s t; t_sem (task_at s t) \<noteq> None\<rbrakk> \<Longrightarrow> runnable s' t"
    using assms(3) by (simp_all add: sem_frame_def)
  show ?thesis
    unfolding sem_ok_def k
  proof (intro allI impI conjI)
    fix q assume q: "q < length (s_counts s)"
    have old: "\<forall>t \<in> waiting s q. t_sem (task_at s t) = Some q" "waiting s q \<noteq> {} \<longrightarrow> s_counts s ! q \<le> int (card (woken s q))"
      using assms(2) q by (simp_all add: sem_ok_def)
    show "\<forall>t \<in> waiting s' q. t_sem (task_at s' t) = Some q"
      using old(1) w [OF q] m waiting_loc(1) [OF assms(1) count_le_wqs [OF assms(1) q]] by (metis subsetD)
    have "woken s q \<subseteq> woken s' q" using m r len by (auto simp: woken_def)
    then have "card (woken s q) \<le> card (woken s' q)" by (rule card_mono [OF finite_woken])
    then show "s_counts s ! q \<le> int (card (woken s' q))" if "waiting s' q \<noteq> {}" using that old(2) w [OF q] by force
  qed
qed

lemma sem_frame_trans [trans]: "sem_frame s s' \<Longrightarrow> sem_frame s' s'' \<Longrightarrow> sem_frame s s''"
  unfolding sem_frame_def by (metis (no_types, opaque_lifting) order_less_le_trans order_trans)

lemma sem_frame_quiet:
  assumes "same_cpus s s'" "s_counts s' = s_counts s" "length (s_tasks s') = length (s_tasks s)"
    "\<And>q. q < length (s_counts s) \<Longrightarrow> wq_list (s_wqs s' ! q) = wq_list (s_wqs s ! q)"
    "\<And>t. t < length (s_tasks s) \<Longrightarrow> t_sem (task_at s' t) = t_sem (task_at s t)"
    "set (s_ready_queue s) \<subseteq> set (s_ready_queue s')"
  shows "sem_frame s s'"
proof -
  have "waiting s' q = waiting s q" if "q < length (s_counts s)" for q using assms(1,4) that by (auto simp: waiting_def same_cpus_def)
  moreover have "runnable s' t" if "runnable s t" for t using assms(1,6) that by (auto simp: runnable_def same_cpus_def)
  ultimately show ?thesis using assms(2,3,5) by (simp add: sem_frame_def)
qed

lemma sem_frame_switch:
  assumes "runs s c t" "t_sem (task_at s t) = None" "turns_to s c t n" "\<And>q. q < length (s_counts s) \<Longrightarrow> a \<noteq> TO_WAIT q"
  shows "sem_frame s (switch_to c t a n s)"
proof -
  let ?s = "switch_to c t a n s"
  have c: "c < length (s_cpus s)" and cur: "pc_current (cpu s c) = Some t" "pc_prev (cpu s c) = None" using assms(1) by (simp_all add: runs_def)
  have f: "s_counts ?s = s_counts s" "length (s_tasks ?s) = length (s_tasks s)" "s_wqs ?s = s_wqs s" "length (s_cpus ?s) = length (s_cpus s)"
    "s_ready_queue ?s = tl (s_ready_queue s)" "t_sem (task_at ?s x) = t_sem (task_at s x)" for x by (simp_all add: switch_to_def)
  have p: "pc_prev (cpu ?s d) = (if d = c then Some (t, a) else pc_prev (cpu s d))"
    "pc_current (cpu ?s d) = (if d = c then Some n else pc_current (cpu s d))" for d using c by (simp_all add: switch_to_def)
  have "waiting ?s q \<subseteq> waiting s q" if "q < length (s_counts s)" for q
    using assms(4) [OF that] by (auto simp: waiting_def f p split: if_splits)
  moreover have "runnable ?s x" if x: "runnable s x" "t_sem (task_at s x) \<noteq> None" for x
  proof -
    consider (queue) "x \<in> set (s_ready_queue s)" | (on) d where "d < length (s_cpus s)" "pc_current (cpu s d) = Some x"
      using x(1) by (auto simp: runnable_def)
    then show ?thesis
    proof cases
      case queue
      then have "x = n \<or> x \<in> set (tl (s_ready_queue s))" using assms(3) by (cases "s_ready_queue s") (auto simp: turns_to_def)
      then show ?thesis using c by (auto simp: runnable_def f p)
    next
      case on
      moreover have "d \<noteq> c" using on(2) x(2) cur(1) assms(2) by auto
      ultimately show ?thesis by (auto simp: runnable_def f p)
    qed
  qed
  ultimately show ?thesis by (simp add: sem_frame_def f)
qed

lemma sem_frame_schedule:
  assumes "tasks_ok s" "runs s c t" "is_idle s t \<longrightarrow> a = TO_READY" "schedule c a s = Inr s'"
    "t_sem (task_at s t) = None" "\<And>q. q < length (s_counts s) \<Longrightarrow> a \<noteq> TO_WAIT q"
  shows "sem_frame s s'"
  using assms(1-3)
proof (cases rule: schedule_cases)
  case stay
  then show ?thesis using assms(4) by (simp add: sem_frame_def)
next
  case (go n)
  then show ?thesis using assms(4) sem_frame_switch [OF assms(2,5) go(2) assms(6)] by simp
qed

lemma sem_frame_finish:
  assumes "sinv s" "c < length (s_cpus s)" "pc_prev (cpu s c) = Some (u, a)"
  shows "sem_frame s (finish_switch c s)"
proof -
  let ?s = "finish_switch c s"
  have wq: "q < length (s_wqs s)" if "a = TO_WAIT q" for q using prev_ok [OF _ assms(2,3)] assms(1) that by (metis sinv_def)
  have cp: "s_cpus ?s = (s_cpus s)[c := (cpu s c)\<lparr>pc_prev := None\<rparr>]" and f: "s_counts ?s = s_counts s" "length (s_tasks ?s) = length (s_tasks s)"
    "t_sem (task_at ?s x) = t_sem (task_at s x)" "set (s_ready_queue s) \<subseteq> set (s_ready_queue ?s)"
    "wq_list (s_wqs ?s ! q) = wq_list (s_wqs s ! q) @ (if a = TO_WAIT q then [u] else [])" for q x
    using assms(3) wq by (cases a; auto simp: finish_switch_def Let_def upd_cpu_def)+
  have "waiting ?s q \<subseteq> waiting s q" for q
    using assms(2,3) by (auto simp: waiting_def f(5) cp nth_list_update split: if_splits)
  moreover have "runnable ?s x" if "runnable s x" for x
    using that assms(2) f(4) by (auto simp: runnable_def cp nth_list_update)
  ultimately show ?thesis by (simp add: sem_frame_def f(1-3))
qed

lemma sem_frame_upd_task: "(\<And>k. t_sem (f k) = t_sem k) \<Longrightarrow> sem_frame s (upd_task t f s)"
  by (intro sem_frame_quiet same_cpusI; cases "t < length (s_tasks s)")
    (simp_all add: upd_task_def nth_list_update list_update_beyond)

lemma sem_frame_lock: "sem_frame s (upd_wq q (\<lambda>w. w\<lparr>wq_lock := b\<rparr>) s)"
  by (intro sem_frame_quiet same_cpusI; cases "q < length (s_wqs s)") (simp_all add: upd_wq_def nth_list_update list_update_beyond)

lemma sem_frame_init:
  assumes "c < length (s_cpus s)" "pc_current (cpu s c) = None"
  shows "sem_frame s (init_this_cpu c s)"
proof -
  have f: "init_this_cpu c s = upd_cpu c (\<lambda>p. p\<lparr>pc_idle := Some (length (s_tasks s)), pc_current := Some (length (s_tasks s))\<rparr>) (snd (task_idle (pc_root (cpu s c)) s))"
    by (simp add: init_this_cpu_def task_idle_def)
  have "waiting (init_this_cpu c s) q = waiting s q" for q using assms(1) by (auto simp: f waiting_def task_idle_def split: if_splits)
  moreover have "runnable (init_this_cpu c s) t" if "runnable s t" for t
    using that assms by (auto simp: f runnable_def task_idle_def) (metis option.distinct(1))
  ultimately show ?thesis by (simp add: sem_frame_def f task_idle_def nth_append)
qed

lemma sem_frame_spawn:
  shows "sem_frame s (snd (spawn_configured c root (\<lambda>_ s. s) s))" (is "sem_frame s ?s")
proof -
  have f: "s_cpus ?s = s_cpus s" "s_wqs ?s = s_wqs s" "s_counts ?s = s_counts s" "set (s_ready_queue s) \<subseteq> set (s_ready_queue ?s)"
    "length (s_tasks s) \<le> length (s_tasks ?s)" "t < length (s_tasks s) \<Longrightarrow> t_sem (task_at ?s t) = t_sem (task_at s t)" for t
    by (auto simp: spawn_configured_def task_new_def set_address_space_root_def upd_task_def Let_def nth_append)
  have "runnable ?s t" if "runnable s t" for t using that f(1,4) by (auto simp: runnable_def)
  then show ?thesis using f by (simp add: sem_frame_def waiting_def)
qed

lemma sem_frame_yield: "\<lbrakk>sinv s; acts s c t; yield_now c s = Inr s'\<rbrakk> \<Longrightarrow> sem_frame s s'"
  using sem_frame_schedule [of s c t TO_READY s'] by (simp add: yield_now_def sinv_def acts_def)

lemma sem_frame_tick:
  assumes "sinv s" "acts s c t" "preempt c (timer_tick c s) = Inr s'"
  shows "sem_frame s s'"
proof -
  let ?w = "wake_sleepers (s_ticks s) 0 s" let ?t = "timer_tick c s"
  have r: "runs s c t" "t_sem (task_at s t) = None" using assms(2) by (simp_all add: acts_def)
  note t = timer_tick_sinv [OF assms(1) r(1)]
  have q: "quiet s ?w" "loc ?w = loc s" using wake_sleepers_ok [of s] assms(1) by (simp_all add: sinv_def)
  have len: "length (s_tasks (wake_sleepers now i s)) = length (s_tasks s)" for now i s
  proof (induction now i s rule: wake_sleepers.induct)
    case (1 now i s)
    then show ?case by (subst wake_sleepers.simps) (simp add: Let_def)
  qed
  have w: "sem_frame s ?w"
    using q(1) wake_sleepers_ready [of "s_ticks s" 0 s] len by (intro sem_frame_quiet same_cpusI) (auto simp: quiet_def)
  have c: "c < length (s_cpus ?w)" "c < length (s_cpus ?t)" using q(1) r(1) t(2) by (simp_all add: quiet_def runs_def)
  have sl: "sem_frame x (upd_cpu c (\<lambda>p. p\<lparr>pc_slice := n\<rparr>) x)" if "c < length (s_cpus x)" for x n
    by (intro sem_frame_quiet same_cpus_slice [OF that]) simp_all
  have wt: "sem_frame s ?t"
  proof (cases "s_sched_ready s")
    case True
    then show ?thesis using w sem_frame_trans [OF w sl [OF c(1)]] by (simp add: timer_tick_def Let_def)
  next
    case False
    then show ?thesis by (simp add: timer_tick_def sem_frame_def)
  qed
  let ?u = "upd_cpu c (\<lambda>p. p\<lparr>pc_slice := TIME_SLICE\<rparr>) ?t"
  have "t < length (s_tasks s)" using runs_ok(4) r(1) assms(1) by (simp add: sinv_def)
  then have "acts ?u c t" using t(2) r(2) c(2) wt by (simp add: acts_def runs_def sem_frame_def)
  from sem_frame_yield [OF sinv_slice [OF t(1) c(2)] this, of s'] assms(3) wt sem_frame_trans [OF wt sl [OF c(2)], of TIME_SLICE]
  show ?thesis by (auto simp: preempt_def intro: sem_frame_trans split: if_splits)
qed

lemma sem_frame_wait_if:
  assumes "sinv s" "acts s c t" "\<not> is_idle s t" "length (s_counts s) \<le> q" "q < length (s_wqs s)" "wq_wait_if c q p s = Some (Inr s')"
  shows "sem_frame s s'"
proof -
  obtain s1 where s1: "raw_lock q s = Some s1" "Inr s' = (if \<not> p s1 then Inr (raw_unlock q s1) else block_locked c q s1)"
    using assms(6) by (auto simp: wq_wait_if_def)
  note l = raw_lock_sinv [OF assms(1) s1(1) assms(5)]
  have f1: "sem_frame s s1" unfolding l(3) by (rule sem_frame_lock)
  have "sem_frame s1 (raw_unlock q s1)" unfolding raw_unlock_def by (rule sem_frame_lock)
  moreover have "sem_frame s1 s'" if "block_locked c q s1 = Inr s'"
    using that assms(2-4) by (intro sem_frame_schedule [OF l(1), of c t "TO_WAIT q"]) (auto simp: l(3) block_locked_def acts_def runs_def)
  ultimately show ?thesis using s1(2) f1 by (auto intro: sem_frame_trans split: if_splits)
qed

lemma fold_make_ready_tasks: "length (s_tasks (fold make_ready ts s)) = length (s_tasks s)"
  by (induction ts arbitrary: s) simp_all

lemma sem_frame_wake:
  assumes "length (s_counts s) \<le> q"
  shows "sem_frame s (fold make_ready ts (take_waiters q us (s_counts s) s))"
  using assms by (intro sem_frame_quiet same_cpusI) (auto simp: fold_make_ready_frame fold_make_ready_tasks take_waiters_def)

text \<open>The two operations of a semaphore.\<close>

lemma sem_took_ok:
  assumes "sinv s" "sem_ok s" "runs s c t" "t_sem (task_at s t) \<in> {None, Some q}" "q < length (s_counts s)"
    and s': "s_cpus s' = s_cpus s" "s_ready_queue s' = s_ready_queue s" "\<And>x. wq_list (s_wqs s' ! x) = wq_list (s_wqs s ! x)"
      "s_counts s' = (s_counts s)[q := s_counts s ! q - 1]" "length (s_tasks s') = length (s_tasks s)"
      "\<And>x. t_sem (task_at s' x) = (if x = t then None else t_sem (task_at s x))"
  shows "sem_ok s'"
  unfolding sem_ok_def
proof (intro allI impI conjI)
  fix x assume "x < length (s_counts s')"
  then have x: "x < length (s_counts s)" using s'(4) by simp
  have old: "\<forall>t \<in> waiting s x. t_sem (task_at s t) = Some x" "waiting s x \<noteq> {} \<longrightarrow> s_counts s ! x \<le> int (card (woken s x))"
    using assms(2) x by (simp_all add: sem_ok_def)
  have w: "waiting s' x = waiting s x" by (simp add: waiting_def s'(1,3))
  have "t \<notin> waiting s x" using waiting_loc(2) [OF assms(1) count_le_wqs [OF assms(1) x]] assms(3) by (auto simp: runnable_def runs_def)
  then show "\<forall>t \<in> waiting s' x. t_sem (task_at s' t) = Some x" using old(1) s'(6) unfolding w by auto
  have wk: "woken s' x = woken s x - {t}" by (auto simp: woken_def runnable_def s' split: if_splits)
  show "s_counts s' ! x \<le> int (card (woken s' x))" if "waiting s' x \<noteq> {}"
  proof (cases "x = q")
    case True
    have "card (woken s x) \<le> card (woken s' x) + 1" unfolding wk using diff_card_le_card_Diff [of "{t}" "woken s x"] by simp
    then show ?thesis using True that old(2) assms(5) unfolding w by (simp add: s'(4))
  next
    case False
    then have "t \<notin> woken s x" using assms(4) by (auto simp: woken_def)
    then show ?thesis using False that old(2) unfolding w wk by (simp add: s'(4))
  qed
qed

lemma sem_blocked_ok:
  assumes "sinv s" "sem_ok s" "runs s c t" "t_sem (task_at s t) \<in> {None, Some q}" "q < length (s_counts s)" "s_counts s ! q \<le> 0"
    and u: "s_cpus u = s_cpus s" "s_ready_queue u = s_ready_queue s" "\<And>x. wq_list (s_wqs u ! x) = wq_list (s_wqs s ! x)"
      "s_counts u = s_counts s" "length (s_tasks u) = length (s_tasks s)"
      "\<And>x. t_sem (task_at u x) = (if x = t then Some q else t_sem (task_at s x))"
    and n: "turns_to u c t n"
  shows "sem_ok (switch_to c t (TO_WAIT q) n u)" (is "sem_ok ?s")
  unfolding sem_ok_def
proof (intro allI impI conjI)
  have c: "c < length (s_cpus s)" and cur: "pc_current (cpu s c) = Some t" "pc_prev (cpu s c) = None" using assms(3) by (simp_all add: runs_def)
  have f: "s_counts ?s = s_counts s" "length (s_tasks ?s) = length (s_tasks s)" "s_wqs ?s = s_wqs u" "length (s_cpus ?s) = length (s_cpus s)"
    "s_ready_queue ?s = tl (s_ready_queue s)" "t_sem (task_at ?s x) = (if x = t then Some q else t_sem (task_at s x))" for x
    using u by (simp_all add: switch_to_def)
  have p: "pc_prev (cpu ?s d) = (if d = c then Some (t, TO_WAIT q) else pc_prev (cpu s d))"
    "pc_current (cpu ?s d) = (if d = c then Some n else pc_current (cpu s d))" for d using c u(1) by (simp_all add: switch_to_def)
  fix x assume "x < length (s_counts ?s)"
  then have x: "x < length (s_counts s)" by (simp add: f)
  have old: "\<forall>t \<in> waiting s x. t_sem (task_at s t) = Some x" "waiting s x \<noteq> {} \<longrightarrow> s_counts s ! x \<le> int (card (woken s x))"
    using assms(2) x by (simp_all add: sem_ok_def)
  have w: "waiting ?s x \<subseteq> (if x = q then insert t (waiting s x) else waiting s x)"
    using c by (auto simp: waiting_def f p u split: if_splits)
  have nt: "t \<notin> waiting s x" using waiting_loc(2) [OF assms(1) count_le_wqs [OF assms(1) x]] assms(3) by (auto simp: runnable_def runs_def)
  show "\<forall>t \<in> waiting ?s x. t_sem (task_at ?s t) = Some x" using w old(1) nt by (auto simp: f split: if_splits)
  show "s_counts ?s ! x \<le> int (card (woken ?s x))" if ne: "waiting ?s x \<noteq> {}"
  proof (cases "x = q")
    case True
    have "s_counts s ! q \<le> int (card (woken ?s q))" using assms(6) of_nat_0_le_iff [of "card (woken ?s q)"] by linarith
    then show ?thesis using True by (simp add: f(1))
  next
    case False
    have "woken s x \<subseteq> woken ?s x"
    proof
      fix y assume y: "y \<in> woken s x"
      then have yt: "y \<noteq> t" using assms(4) False by (auto simp: woken_def)
      have "y \<in> set (s_ready_queue s) \<Longrightarrow> y = n \<or> y \<in> set (tl (s_ready_queue s))"
        using n u(2) by (cases "s_ready_queue s") (auto simp: turns_to_def)
      moreover have "d \<noteq> c" if "pc_current (cpu s d) = Some y" for d using that cur yt by auto
      ultimately have "runnable ?s y" using y c p(2) unfolding woken_def runnable_def f by fastforce
      then show "y \<in> woken ?s x" using y yt by (simp add: woken_def f)
    qed
    then have "card (woken s x) \<le> card (woken ?s x)" by (rule card_mono [OF finite_woken])
    then show ?thesis using False ne w old(2) by (auto simp: f(1))
  qed
qed

lemma sem_wait_ok:
  assumes "sinv s" "sem_ok s" "runs s c t" "\<not> is_idle s t" "t_sem (task_at s t) \<in> {None, Some q}" "q < length (s_counts s)"
    "sem_wait_round c q s = Some (Inr s')"
  shows "sem_ok s'"
  using assms(3,7)
proof (cases rule: sem_wait_round_cases)
  let ?l = "upd_wq q (\<lambda>w. w\<lparr>wq_lock := True\<rparr>) s"
  have t: "t < length (s_tasks s)" using runs_ok(4) assms(1,3) by (simp add: sinv_def)
  note q = count_le_wqs [OF assms(1,6)]
  {
    case took
    then show ?thesis using t q
      by (intro sem_took_ok [OF assms(1-3,5,6)]) (simp_all add: raw_unlock_def upd_task_def nth_list_update)
  next
    case blocked
    let ?u = "upd_task t (\<lambda>k. k\<lparr>t_sem := Some q\<rparr>) ?l"
    have "tasks_ok ?l" using raw_lock_sinv(1) [OF assms(1) _ q, of ?l] blocked(2) by (simp add: raw_lock_def)
    then have ok: "tasks_ok ?u" by (rule tasks_ok_upd_task) simp
    have r: "runs ?u c t" "\<not> is_idle ?u t" using assms(3,4) by (simp_all add: runs_def is_idle_upd_task)
    have s': "schedule c (TO_WAIT q) ?u = Inr s'" using blocked(3) by (simp add: block_locked_def)
    show ?thesis
    proof (cases rule: schedule_cases [OF ok r(1), of "TO_WAIT q"])
      case (3 n)
      have "sem_ok (switch_to c t (TO_WAIT q) n ?u)"
        using t q by (intro sem_blocked_ok [OF assms(1-3,5,6) blocked(1) _ _ _ _ _ _ 3(2)]) (simp_all add: upd_task_def nth_list_update)
      then show ?thesis using 3(1) s' by simp
    qed (use r(2) in simp_all)
  }
qed

lemma sem_post_ok:
  assumes "sinv s" "sem_ok s" "q < length (s_counts s)" "sem_post q s = Some s'"
  shows "sem_ok s'"
proof -
  note q = count_le_wqs [OF assms(1,3)]
  define ws where "ws = wq_list (s_wqs s ! q)"
  have s': "s' = fold make_ready (take 1 ws) (take_waiters q (drop 1 ws) ((s_counts s)[q := s_counts s ! q + 1]) s)"
    and lk: "\<not> wq_lock (s_wqs s ! q)" using wake_shapes(3) [OF q assms(4)] by (simp_all add: ws_def)
  have f: "s_cpus s' = s_cpus s" "s_counts s' = (s_counts s)[q := s_counts s ! q + 1]" "s_ready_queue s' = s_ready_queue s @ take 1 ws"
    "t_sem (task_at s' x) = t_sem (task_at s x)" "length (s_tasks s') = length (s_tasks s)"
    "wq_list (s_wqs s' ! x) = (if x = q then drop 1 ws else wq_list (s_wqs s ! x))" for x
    using q by (auto simp: s' fold_make_ready_frame fold_make_ready_tasks take_waiters_def)
  have nb: "pc_prev (cpu s c) \<noteq> Some (t, TO_WAIT q)" if "c < length (s_cpus s)" for c t
    using assms(1) lk q that by (auto simp: sinv_def locks_ok_def blocking_def)
  have w: "waiting s' x \<subseteq> waiting s x" for x using set_drop_subset [of 1 ws] by (auto simp: waiting_def f ws_def)
  have rn: "runnable s' t \<longleftrightarrow> runnable s t \<or> t \<in> set (take 1 ws)" for t by (auto simp: runnable_def f)
  show ?thesis
    unfolding sem_ok_def
  proof (intro allI impI conjI)
    fix x assume "x < length (s_counts s')"
    then have x: "x < length (s_counts s)" by (simp add: f)
    have old: "\<forall>t \<in> waiting s x. t_sem (task_at s t) = Some x" "waiting s x \<noteq> {} \<longrightarrow> s_counts s ! x \<le> int (card (woken s x))"
      using assms(2) x by (simp_all add: sem_ok_def)
    show "\<forall>t \<in> waiting s' x. t_sem (task_at s' t) = Some x" using old(1) w by (auto simp: f)
    have sub: "woken s x \<subseteq> woken s' x" by (auto simp: woken_def rn f)
    show "s_counts s' ! x \<le> int (card (woken s' x))" if ne: "waiting s' x \<noteq> {}"
    proof (cases "x = q")
      case True
      obtain t us where ws: "ws = t # us" using ne nb by (cases ws) (auto simp: waiting_def f True)
      then have tw: "t \<in> waiting s q" by (simp add: waiting_def ws_def [symmetric])
      have t: "t < length (s_tasks s)" "t \<notin> woken s q" "t_sem (task_at s t) = Some q"
        using waiting_loc [OF assms(1) q tw] old(1) tw True by (auto simp: woken_def)
      have "insert t (woken s q) \<subseteq> woken s' q" using t sub True ws by (auto simp: woken_def rn f)
      then have "card (insert t (woken s q)) \<le> card (woken s' q)" by (rule card_mono [OF finite_woken])
      then show ?thesis using t(2) finite_woken [of s q] old(2) tw True assms(3) by (auto simp: f(2))
    next
      case False
      then show ?thesis using ne w [of x] old(2) card_mono [OF finite_woken sub] by (auto simp: f(2))
    qed
  qed
qed

lemma sem_ok_boot: "sem_ok (sched_boot ncpu root nwq counts)"
  by (auto simp: sem_ok_def waiting_def sched_boot_def)

lemma sstep_sem_ok: "sstep s s' \<Longrightarrow> sinv s \<Longrightarrow> sem_ok s \<Longrightarrow> sem_ok s'"
proof (induction rule: sstep.induct)
  case (boot c s)
  have "sem_frame x (x\<lparr>s_sched_ready := True\<rparr>)" for x by (intro sem_frame_quiet same_cpusI) simp_all
  then have "sem_frame s (sched_init c s)" unfolding sched_init_def by (rule sem_frame_trans [OF sem_frame_init [OF boot(1,2)]])
  then show ?case using sem_frame_ok boot by blast
next
  case (secondary c s)
  then show ?case using sem_frame_ok [OF _ _ sem_frame_init] by blast
next
  case (finish c s)
  then obtain u a where p: "pc_prev (cpu s c) = Some (u, a)" by auto
  show ?case by (rule sem_frame_ok [OF finish(3,4) sem_frame_finish [OF finish(3,1) p]])
next
  case (clock s n)
  have "sem_frame s (s\<lparr>s_ticks := n\<rparr>)" by (intro sem_frame_quiet same_cpusI) simp_all
  then show ?case using sem_frame_ok clock by blast
next
  case (spawned s c t root)
  then show ?case using sem_frame_ok [OF _ _ sem_frame_spawn] by blast
next
  case (yielded s c t s')
  then show ?case using sem_frame_ok [OF _ _ sem_frame_yield] by blast
next
  case (slept s c t ms s')
  have r: "runs s c t" "t_sem (task_at s t) = None" using slept(1) by (simp_all add: acts_def)
  obtain w where w: "sched_sleep c ms s = schedule c TO_SLEEP (upd_task t (\<lambda>k. k\<lparr>t_wake_tick := w\<rparr>) s)"
    by (rule sched_sleep_eq [OF r(1)])
  let ?u = "upd_task t (\<lambda>k. k\<lparr>t_wake_tick := w\<rparr>) s"
  have "tasks_ok ?u" using slept(4) by (intro tasks_ok_upd_task) (simp_all add: sinv_def)
  moreover have "runs ?u c t" "\<not> is_idle ?u t" using r(1) slept(2) by (simp_all add: runs_def is_idle_upd_task)
  moreover have u: "sem_frame s ?u" by (rule sem_frame_upd_task) simp
  moreover have "t_sem (task_at ?u t) = None"
    using u r runs_ok(4) slept(4) unfolding sem_frame_def by (metis sinv_def)
  ultimately have "sem_frame ?u s'" using sem_frame_schedule [of ?u c t TO_SLEEP s'] slept(3) unfolding w by simp
  then show ?case by (rule sem_frame_ok [OF slept(4,5) sem_frame_trans [OF u]])
next
  case (exited s c t s')
  then have "sem_frame s s'" using sem_frame_schedule [of s c t TO_ZOMBIE s'] by (simp add: sched_exit_def sinv_def acts_def)
  then show ?case using sem_frame_ok exited by blast
next
  case (ticked s c t s')
  then show ?case using sem_frame_ok [OF _ _ sem_frame_tick] by blast
next
  case (idled s c t s')
  have z: "sem_frame s (reap s)" by (intro sem_frame_quiet same_cpusI) (simp_all add: reap_def)
  have "acts (reap s) c t" using idled(1) by (simp add: acts_def runs_def reap_def)
  from sem_frame_yield [OF reap_sinv [OF idled(4)] this] idled(3) have "sem_frame (reap s) s'" by (simp add: idle_round_def)
  then show ?case by (rule sem_frame_ok [OF idled(4,5) sem_frame_trans [OF z]])
next
  case (waited s c t q s')
  then have "wq_wait_if c q (\<lambda>_. True) s = Some (Inr s')" by (simp add: wq_wait_def wq_wait_if_def)
  from sem_frame_wait_if [OF waited(6,1-4) this] show ?case by (rule sem_frame_ok [OF waited(6,7)])
next
  case (waited_if s c t q p s')
  then show ?case using sem_frame_ok [OF _ _ sem_frame_wait_if] by blast
next
  case (woke_one s c t q b s')
  show ?case using wake_shapes(1) [OF woke_one(3,4)] sem_frame_ok [OF woke_one(5,6) sem_frame_wake [OF woke_one(2)]] by simp
next
  case (woke_all s c t q n s')
  show ?case using wake_shapes(2) [OF woke_all(3,4)] sem_frame_ok [OF woke_all(5,6) sem_frame_wake [OF woke_all(2)]] by simp
next
  case (sem_waited s c t q s')
  show ?case by (rule sem_wait_ok [OF sem_waited(6,7,1-5)])
next
  case (sem_posted s c t q s')
  show ?case by (rule sem_post_ok [OF sem_posted(4,5,2,3)])
qed

lemma reachable_sem_ok: "reachable s \<Longrightarrow> sem_ok s"
  by (induction rule: reachable.induct) (auto intro: sem_ok_boot sstep_sem_ok reachable_sinv)

text \<open>Both tasks of \<open>sample_two\<close> wait, then the idle task posts once.\<close>

definition sample_both :: sched where
  "sample_both = finish_switch 0 (projr (the (sem_wait_round 0 0 (finish_switch 0 (projr (the (sem_wait_round 0 0 sample_two)))))))"

definition sample_posted :: sched where
  "sample_posted = the (sem_post 0 sample_both)"

lemma wait_and_finish:
  assumes "reachable s" "runs s 0 t" "\<not> is_idle s t" "t_sem (task_at s t) = None" "0 < length (s_counts s)"
    "sem_wait_round 0 0 s = Some (Inr s1)" "pc_prev (cpu s1 0) \<noteq> None" "0 < length (s_cpus s1)"
  shows "reachable (finish_switch 0 s1)"
proof -
  have "sstep s s1" using assms(4) by (intro sstep.sem_waited [OF assms(2,3) _ assms(5,6)]) simp
  from reachable.more [OF reachable.more [OF assms(1) this] sstep.finish] assms(7,8) show ?thesis by blast
qed

lemmas run_two = sample_two_def sample_running_eq run_sched

lemma sample_both_eq: "sample_both = \<lparr>s_tasks = [
    \<lparr>t_id = 0, t_state = RUNNING, t_wake_tick = 0, t_user_context = 0, t_root = 7, t_sem = None\<rparr>,
    \<lparr>t_id = 1, t_state = BLOCKED, t_wake_tick = 0, t_user_context = 0, t_root = 9, t_sem = Some 0\<rparr>,
    \<lparr>t_id = 2, t_state = BLOCKED, t_wake_tick = 0, t_user_context = 0, t_root = 11, t_sem = Some 0\<rparr>],
  s_next_id = 3, s_cpus = [
    \<lparr>pc_current = Some 0, pc_idle = Some 0, pc_prev = None, pc_slice = 5, pc_root = 7\<rparr>,
    \<lparr>pc_current = None, pc_idle = None, pc_prev = None, pc_slice = 5, pc_root = 7\<rparr>],
  s_ready_queue = [], s_sleepers = [], s_zombies = [], s_sched_ready = True,
  s_wqs = [\<lparr>wq_lock = False, wq_list = [1, 2]\<rparr>], s_counts = [0], s_ticks = 0\<rparr>"
  by (simp add: sample_both_def run_two)

lemmas run_posted = sample_posted_def sample_both_eq sem_post_def pop_waiter_def wake_popped_def make_ready_def run_sched

lemma sample_posted_reachable: "reachable sample_posted"
proof -
  define s1 where "s1 = finish_switch 0 (projr (the (sem_wait_round 0 0 sample_two)))"
  have r1: "reachable s1"
    unfolding s1_def by (rule wait_and_finish [OF sample_two_reachable, of 1]) (simp_all add: run_two)
  have b: "reachable sample_both"
    unfolding sample_both_def s1_def [symmetric] by (rule wait_and_finish [OF r1, of 2]) (simp_all add: s1_def run_two)
  have "acts sample_both 0 0" "0 < length (s_counts sample_both)" "sem_post 0 sample_both = Some sample_posted"
    by (simp_all add: run_posted)
  then show ?thesis by (rule reachable.more [OF b sstep.sem_posted])
qed

text \<open>
  C40: no lost wakeup.  In every execution, while a task waits for a semaphore (in its queue, or
  about to be put there by the processor that switches it out) the count is at most the number of
  tasks that a \<^verbatim>\<open>post\<close> has woken and that are ready or running, on their way to take a unit.  So
  no unit is ever left over with a waiter asleep and nobody awake to take it.
\<close>

theorem no_lost_wakeup:
  assumes "reachable s" "q < length (s_counts s)" "t \<in> waiting s q"
  shows "t_sem (task_at s t) = Some q \<and> s_counts s ! q \<le> int (card (woken s q)) \<and> (0 < s_counts s ! q \<longrightarrow> woken s q \<noteq> {})"
proof -
  have "sem_ok s" by (rule reachable_sem_ok [OF assms(1)])
  then have "t_sem (task_at s t) = Some q" "s_counts s ! q \<le> int (card (woken s q))" using assms(2,3) by (auto simp: sem_ok_def)
  then show ?thesis by auto
qed

theorem no_lost_wakeup_witness:
  "reachable sample_posted \<and> 2 \<in> waiting sample_posted 0 \<and> s_counts sample_posted ! 0 = 1
    \<and> s_counts sample_posted ! 0 \<le> int (card (woken sample_posted 0)) \<and> woken sample_posted 0 \<noteq> {}"
proof -
  have k: "s_counts sample_posted ! 0 = 1" "0 < length (s_counts sample_posted)"
    by (simp_all add: run_posted)
  have w: "2 \<in> waiting sample_posted 0"
    by (simp add: waiting_def run_posted)
  show ?thesis using no_lost_wakeup [OF sample_posted_reachable k(2) w] k w sample_posted_reachable by simp
qed

end
