(* ===== verification/Spec2Isabelle.thy ===== *)
theory Spec2Isabelle
  imports Kor_Boot Kor_Heap Kor_Mm_Spec Kor_Cache Kor_Mount Kor_Fd Kor_Ext2_Typed Kor_Sched_Live
begin

text \<open>
  A verification library for the Koros kernel components.

  Parts of the program and the theories that model them (all source paths below src/):

  \<^item> Memory.  \<open>Kor_Frame\<close>: the physical frame allocator, kor/src/frame.rs (bitmap, regions,
    hints).  \<open>Kor_Regions\<close>: the boot-time region collector, kor/src/regions.rs.
    \<open>Kor_Boot\<close>: the memory part of kernel_main in apps/koros/src/main.rs, which feeds the
    collected regions, less the hole of the kernel image, to the frame allocator.
    \<open>Kor_Addr\<close>: the address translation of kor/src/addr.rs.  \<open>Kor_Heap\<close>: the slab heap of
    base/kor-alloc/src/slab_heap.rs, which grows from the frame allocator through the
    translation.
  \<^item> Virtual memory.  \<open>Kor_Pte\<close>: permission flags and the entry encodings of RISC-V, x86-64 and
    AArch64, base/kor-arch/src/lib.rs, pagetable.rs and riscv64, x86_64, aarch64/pagetable.rs.
    \<open>Kor_Mmu\<close>: the page-table engine of base/kor-mmu/src, descriptor.rs (a lock and metadata for
    each table page) and page_table.rs (transactions, query, map, mark, unmap, destroy);
    \<open>Kor_Mmu_Walk\<close>: the walk of the hardware, the tree of table pages and what locking and
    querying do (a walk yields the frame and the raw leaf entry, from which \<open>hw_rights\<close> of
    \<open>Kor_Pte\<close> reads what user code may do); \<open>Kor_Mmu_Map\<close> and \<open>Kor_Mmu_Unmap\<close>: how mapping extends and unmapping cuts the
    translation.  \<open>Kor_Mmu_Arch\<close>: the services each architecture adds (boot tables, new user roots,
    deep copies, release, splitting the identity map).  \<open>Kor_Vm\<close>: the user address spaces of
    apps/korix/src/mm/mod.rs and the access of system calls to user memory,
    apps/korix/src/syscall/user_mem.rs; \<open>Kor_Vm_Inv\<close>: the invariant of an address space
    (the walk of every user address ends in the encoding of the recorded frame and permissions);
    \<open>Kor_Vm_Ops\<close>: mapping and unmapping ranges; \<open>Kor_Vm_Remap\<close>: changing permissions;
    \<open>Kor_Vm_Replace\<close>: replacing a range by fresh pages;
    \<open>Kor_Vm_Fork\<close>: fork; \<open>Kor_User_Mem\<close>: range checks and copies; \<open>Kor_Mm_Spec\<close>: the
    promises of all these.
  \<^item> Storage.  \<open>Kor_Vfs\<close>: data types of kor/src/vfs.rs and the block device interface of
    kor/src/block.rs.  \<open>Kor_Cache\<close>: the write-back block cache of
    filesystems/kor-fs/src/block_cache.rs.  \<open>Kor_RamFs\<close>: the in-memory file system of
    filesystems/kor-ramfs/src/lib.rs.  \<open>Kor_Path\<close>: path resolution with symbolic links,
    filesystems/kor-fs/src/path.rs.  \<open>Kor_Mount\<close>: the mount table and the driver registry,
    filesystems/kor-fs/src/mount.rs and registry.rs.  \<open>Kor_Fd\<close>: file descriptors,
    filesystems/kor-fs/src/fd.rs.
  \<^item> The ext2 file system, filesystems/kor-ext2/src.  \<open>Kor_Ext2_Layout\<close>: superblock, group
    descriptors, raw inodes and bitmaps as byte layouts.  \<open>Kor_Ext2_Xattr\<close>: the attribute
    block of xattr.rs.  \<open>Kor_Ext2_Dir\<close>: the directory records of dir.rs over the bytes of a
    directory.  \<open>Kor_Ext2_Fs\<close>: the mounted instance of lib.rs and the allocation of bitmap.rs,
    on a state with the cache, the superblock, the descriptors and the inode objects;
    \<open>Kor_Ext2_View\<close>: the instance seen as an array of file system blocks, with the laws of
    block reads and writes; \<open>Kor_Ext2_Alloc\<close>: correctness of block allocation;
    \<open>Kor_Ext2_Mount\<close>: what sync and unmount leave on the device.  \<open>Kor_Ext2_Inode\<close>: the data
    path of inode.rs (the block pointer tree, reading and writing, truncation);
    \<open>Kor_Ext2_Ops\<close>: its name space and attribute operations, with the directory functions of
    dir.rs.  \<open>Kor_Ext2_File\<close>: what reading a file delivers; \<open>Kor_Ext2_Tree\<close>: looking up names
    and the ancestor check of rename; \<open>Kor_Ext2_Typed\<close>: the type invariant that every operation
    of the file system keeps when it returns.
  \<^item> Scheduling.  \<open>Kor_Sched\<close>: tasks, the shared queues, the two halves of a context switch, the
    timer, wait queues and semaphores of base/kor-sched/src/lib.rs, as operations of a
    processor on the state that all processors share; \<open>Kor_Sched_Inv\<close>: the transition relation
    and its invariant; \<open>Kor_Sched_Live\<close>: one place for every task, bounded waiting in the ready
    queue, no lost wakeup.
  \<^item> Library.  \<open>Kor_Prelude\<close>: machine integers, results and shared lemmas; \<open>Kor_BTree\<close>:
    the ordered map of the standard library as a sorted association list; \<open>Kor_Bytes\<close>:
    little-endian fields of byte buffers; \<open>Kor_Act\<close>: fallible operations on a mutable state
    with their weakest preconditions.

  What the lemmas show.  Memory: the invariant of the frame allocator and the exact effect of
  its operations on the set of free frames; boot turns the detected ranges into exactly the
  free frames outside the kernel image; the heap loop terminates and clients of the heap hold
  disjoint extents.  Virtual memory: on each of the three entry formats a map changes the
  hardware's translation and permissions at exactly the page mapped, refuses misaligned calls
  and explicit mappings, and an unmap removes exactly the leaves in its range and gives back
  exactly the tables that became empty; destroying a tree frees exactly its table pages; the
  map of a user address space agrees with what the hardware translates and permits, through
  mapping, unmapping, replacement, changes of permissions and fork, with no frame shared; system calls
  read and write user memory exactly where the process may.  Storage: the cache is indistinguishable from a plain array of blocks,
  and its barrier makes durable what the client sees; the file tree keeps its parent links and
  reads back what is written; the resolver is a single pass with link expansion; the table
  answers with the longest matching mount point; a descriptor is a cursor in a byte sequence;
  the byte layouts of ext2 are inverted by their readers, and directory updates change the
  listing by exactly one entry; block allocation keeps bitmaps and counters in agreement,
  reading delivers the bytes that the pointer tree maps, an unmount leaves a durable image
  that reads back, and no operation that returns leaves a field outside its type.  Scheduling: on any
  number of processors, interleaved at the boundaries of critical sections and inside a
  context switch, no task is lost or run twice, a ready task runs within a bounded number of
  timer interrupts, and a semaphore has no unit left over while a waiter sleeps and nobody is
  awake to take it.  Theorems named in the findings of the manifest show inputs
  on which the code fails.

  Interfaces between components are locales, each interpreted on the definitions of its
  provider: the block device and the cache laws in \<open>Kor_Cache\<close>, the inode operations the
  resolver relies on in \<open>Kor_Path\<close>, the file operations the descriptors rely on in
  \<open>Kor_Fd\<close>, the frame source of the heap in \<open>Kor_Heap\<close>, the entry encoding the page-table
  engine relies on in \<open>Kor_Pte\<close>, interpreted on the three formats.

  Conventions.  A usize is a natural number below \<open>2 ^ 64\<close>; arithmetic that the source does
  with the plain operators wraps, as it does in a release build, and debug assertions are
  off.  Panics are values of \<open>fault\<close>, error codes values of the component's own datatype.
  A method on a mutable receiver returns the new state.  Each operation runs under its lock, so
  the model is the sequence of critical sections; three locks are part of the state because
  they are held across calls: the lock of a page-table page, which a transaction collects, the superblock lock of ext2, which one function keeps while it calls
  others that take it, and the raw lock of a wait queue, which a blocking task hands over to
  the processor that completes its switch.  Where ramfs takes the lock of a directory entry's
  children while it holds its own, taking the same lock twice is the fault \<open>Deadlock\<close>.  A call
  that ends in a fault does not return: no guard is dropped after it and nothing follows it.
  Running out of memory for the kernel's own containers is not modelled.  Loops carry fuel
  where the recursion is not structural: the retry loop of the global allocator (two rounds:
  one growth makes the next attempt succeed), the growth of a free list (the number of blocks
  plus one), reading and writing an ext2 file (as many rounds as bytes, since every round
  moves at least one), checking and copying user memory (one round more than pages or bytes).  That
  the fuel is enough is proved for the allocator, the free list, reading and user memory.  Loops
  over page-table levels recurse on the level.  The walk up of the ancestor check has the bound of the code, the number of inodes.

  Simplifications of the steps.  Waking a task from a wait queue (the pop under the raw lock and
  the later insertion in the ready queue) is one step; the count of a semaphore is an unbounded
  integer; changing the address space root of a running task and timer interrupts on a
  processor that is not initialised yet are not steps; idle tasks do not sleep, wait or exit;
  the closure of spawn_configured is the identity.  The bound on timer interrupts is for a fixed
  clock: the tick count that a timer interrupt advances first only decides which sleepers are
  woken, and they queue behind the tasks already ready.  Reading a block leaves the state of the block device as
  it is.

  A page of physical memory has two views in the state, its 512 entries and its 4096 bytes; the
  invariants keep frames that hold tables apart from frames that hold user bytes.  The TLB is the
  log of its flushes: the theorems are about the tables, which is what the hardware reads after them.

  Not modelled: registers, assembly, device drivers and trap entry (base/kor-arch, kor-virtio
  and the hypervisor), which act on hardware; saved contexts and stacks of tasks; the console
  and logging; the guard-based lock and the channel of base/kor-sched/src/sync.rs; the dispatch
  and the process table of korix.  Of the page-table services, marking, cloning, the arch-level
  release and splitting are modelled without theorems of their own.
\<close>

end
